(* ===== verification/Prelude.thy ===== *)
theory Prelude
  imports Complex_Main "HOL-Library.AList" "HOL-Library.Multiset"
begin

text \<open>
  Shared vocabulary of the development: the built-in exceptions of Python, list indexing
  as Python does it, runs of a machine over a list of operations, and the interfaces
  (locales) that several components meet. Every component theory imports this one.
\<close>

section \<open>Python built-ins\<close>

text \<open>The built-in exceptions that the modelled code raises, directly or through an operator.\<close>

datatype py_error = ValueError | TypeError | KeyError | IndexError | AttributeError
  | AssertionError | RuntimeError | RecursionError | ZeroDivisionError | StopIteration | OverflowError

text \<open>
  \<open>xs[i]\<close>: a negative index counts from the end, an index out of range raises.
\<close>

definition py_get :: "'a list \<Rightarrow> int \<Rightarrow> py_error + 'a" where
  "py_get xs i =
     (if i \<ge> 0 then (if nat i < length xs then Inr (xs ! nat i) else Inl IndexError)
      else if nat (- i) \<le> length xs then Inr (xs ! (length xs - nat (- i)))
      else Inl IndexError)"

text \<open>\<open>int(x)\<close> of Python truncates towards zero.\<close>

definition py_int :: "rat \<Rightarrow> int" where
  "py_int x = (if 0 \<le> x then \<lfloor>x\<rfloor> else \<lceil>x\<rceil>)"

text \<open>\<open>max(xs)\<close> and \<open>min(xs)\<close> raise on an empty sequence.\<close>

definition py_max :: "'a::linorder list \<Rightarrow> py_error + 'a" where
  "py_max xs = (if xs = [] then Inl ValueError else Inr (foldl max (hd xs) (tl xs)))"

definition py_min :: "'a::linorder list \<Rightarrow> py_error + 'a" where
  "py_min xs = (if xs = [] then Inl ValueError else Inr (foldl min (hd xs) (tl xs)))"

text \<open>\<open>range(n)\<close> and \<open>range(a, b)\<close>.\<close>

abbreviation py_range :: "int \<Rightarrow> int list" where
  "py_range n \<equiv> [0..n - 1]"

lemma py_get_nonneg [simp]:
  "0 \<le> i \<Longrightarrow> i < int (length xs) \<Longrightarrow> py_get xs i = Inr (xs ! nat i)"
  by (simp add: py_get_def)

lemma py_get_int [simp]: "i < length xs \<Longrightarrow> py_get xs (int i) = Inr (xs ! i)"
  by (simp add: py_get_def)

lemma py_int_mono: "x \<le> y \<Longrightarrow> py_int x \<le> py_int y"
proof (cases "0 \<le> x \<or> y < 0")
  case False
  then have "\<lceil>x\<rceil> \<le> 0" "0 \<le> \<lfloor>y\<rfloor>" by (simp_all add: ceiling_le_iff)
  then have "\<lceil>x\<rceil> \<le> \<lfloor>y\<rfloor>" by linarith
  then show ?thesis using False by (simp add: py_int_def not_le)
qed (auto simp: py_int_def intro: floor_mono ceiling_mono)

lemma py_int_nonneg: "0 \<le> x \<Longrightarrow> 0 \<le> py_int x"
  by (simp add: py_int_def)

lemma foldl_max_Max: "foldl max x xs = Max (insert x (set xs))" for x :: "'a::linorder"
proof (induction xs arbitrary: x)
  case (Cons y ys)
  then show ?case by (cases "ys = []") (simp_all add: max.assoc)
qed simp

lemma foldl_min_Min: "foldl min x xs = Min (insert x (set xs))" for x :: "'a::linorder"
proof (induction xs arbitrary: x)
  case (Cons y ys)
  then show ?case by (cases "ys = []") (simp_all add: min.assoc)
qed simp

lemma py_max_Max [simp]: "xs \<noteq> [] \<Longrightarrow> py_max xs = Inr (Max (set xs))"
  by (cases xs) (simp_all add: py_max_def foldl_max_Max)

lemma py_min_Min [simp]: "xs \<noteq> [] \<Longrightarrow> py_min xs = Inr (Min (set xs))"
  by (cases xs) (simp_all add: py_min_def foldl_min_Min)

text \<open>Code that may raise: the next statement runs on the value of the one before.\<close>

definition bind_sum :: "'e + 'a \<Rightarrow> ('a \<Rightarrow> 'e + 'b) \<Rightarrow> 'e + 'b" where
  "bind_sum r f = (case r of Inl e \<Rightarrow> Inl e | Inr x \<Rightarrow> f x)"

lemma bind_sum_simps [simp]: "bind_sum (Inl e) f = Inl e" "bind_sum (Inr x) f = f x"
  by (simp_all add: bind_sum_def)

lemma bind_sum_cong [fundef_cong]:
  "r = r' \<Longrightarrow> (\<And>x. r' = Inr x \<Longrightarrow> f x = g x) \<Longrightarrow> bind_sum r f = bind_sum r' g"
  by (cases r') simp_all

lemma bind_sum_Inr: "bind_sum r f = Inr y \<longleftrightarrow> (\<exists>x. r = Inr x \<and> f x = Inr y)"
  by (cases r) simp_all

text \<open>A method that may raise after it has changed its object: the state is kept, the error passed on.\<close>

definition or_raise :: "'s \<Rightarrow> 'e + 'a \<Rightarrow> ('a \<Rightarrow> 's \<times> ('e + 'b)) \<Rightarrow> 's \<times> ('e + 'b)" where
  "or_raise s r f = (case r of Inl e \<Rightarrow> (s, Inl e) | Inr x \<Rightarrow> f x)"

lemma or_raise_simps [simp]: "or_raise s (Inl e) f = (s, Inl e)" "or_raise s (Inr x) f = f x"
  by (simp_all add: or_raise_def)

lemma or_raise_split:
  "P (or_raise s r f) \<longleftrightarrow> (\<forall>e. r = Inl e \<longrightarrow> P (s, Inl e)) \<and> (\<forall>x. r = Inr x \<longrightarrow> P (f x))"
  by (cases r) simp_all

lemma or_raise_split_asm:
  "P (or_raise s r f) \<longleftrightarrow> \<not> ((\<exists>e. r = Inl e \<and> \<not> P (s, Inl e)) \<or> (\<exists>x. r = Inr x \<and> \<not> P (f x)))"
  by (cases r) simp_all

lemmas or_raise_splits = or_raise_split or_raise_split_asm

lemma or_raise_Inr: "or_raise s r f = (s', Inr y) \<longleftrightarrow> (\<exists>x. r = Inr x \<and> f x = (s', Inr y))"
  by (cases r) simp_all

section \<open>Generic facts\<close>

text \<open>A finite sum changes by the change of its one changed summand.\<close>

lemma sum_change_one:
  fixes f g :: "'a \<Rightarrow> 'b::ab_group_add"
  assumes "finite A" "a \<in> A" and eq: "\<And>x. x \<in> A \<Longrightarrow> x \<noteq> a \<Longrightarrow> g x = f x"
  shows "sum g A = sum f A + (g a - f a)"
proof -
  have "sum g (A - {a}) = sum f (A - {a})" by (rule sum.cong) (auto simp: eq)
  then show ?thesis
    by (simp add: sum.remove [OF assms(1,2), of g] sum.remove [OF assms(1,2), of f])
qed

text \<open>
  A line of \<open>n\<close> entries in \<open>{-1, 0, 1}\<close> sums to \<open>n\<close> exactly when every entry is \<open>1\<close>.
\<close>

lemma sum_eq_card_iff:
  fixes v :: "'a \<Rightarrow> int"
  assumes "finite A" and "\<And>x. x \<in> A \<Longrightarrow> v x \<le> 1"
  shows "sum v A = int (card A) \<longleftrightarrow> (\<forall>x\<in>A. v x = 1)"
proof -
  have "sum v A = int (card A) \<longleftrightarrow> (\<Sum>x\<in>A. 1 - v x) = 0"
    by (auto simp: sum_subtractf)
  also have "\<dots> \<longleftrightarrow> (\<forall>x\<in>A. 1 - v x = 0)"
    using assms by (subst sum_nonneg_eq_0_iff) auto
  finally show ?thesis by auto
qed

lemma abs_sum_eq_card_iff:
  fixes v :: "'a \<Rightarrow> int"
  assumes "finite A" "A \<noteq> {}" and "\<And>x. x \<in> A \<Longrightarrow> v x \<le> 1 \<and> -1 \<le> v x"
  shows "\<bar>sum v A\<bar> = int (card A) \<longleftrightarrow> (\<forall>x\<in>A. v x = 1) \<or> (\<forall>x\<in>A. v x = -1)"
proof -
  have a: "sum v A = int (card A) \<longleftrightarrow> (\<forall>x\<in>A. v x = 1)"
    by (rule sum_eq_card_iff) (use assms in auto)
  have "sum (\<lambda>x. - v x) A = int (card A) \<longleftrightarrow> (\<forall>x\<in>A. - v x = 1)"
    by (rule sum_eq_card_iff) (use assms in force)+
  then have b: "- sum v A = int (card A) \<longleftrightarrow> (\<forall>x\<in>A. v x = -1)"
    by (simp add: sum_negf equation_minus_iff [of _ "1::int"] eq_commute)
  show ?thesis using a b by linarith
qed

text \<open>
  A Python dictionary whose order matters is an association list: \<open>AList.update\<close> replaces the
  value of a present key in place and appends an absent key at the end, as \<open>d[k] = v\<close> does.
\<close>

lemma AList_update_absent: "k \<notin> fst ` set xs \<Longrightarrow> AList.update k v xs = xs @ [(k, v)]"
  by (induction xs) auto

lemma AList_update_elem: "x \<in> set (AList.update k v xs) \<Longrightarrow> x = (k, v) \<or> x \<in> set xs"
  by (induction xs) (auto split: if_splits)

lemma distinct_last_butlast: "distinct xs \<Longrightarrow> last xs \<in> set (butlast xs) \<Longrightarrow> False"
  by (induction xs) (auto split: if_splits)

lemma distinct_hd_tl: "distinct xs \<Longrightarrow> hd xs \<in> set (tl xs) \<Longrightarrow> False"
  by (cases xs) auto

lemma AList_delete_subset: "set (AList.delete k xs) \<subseteq> set xs"
  by (auto simp: AList.delete_eq)

lemma sum_list_delete_key:
  fixes f :: "'k \<times> 'v \<Rightarrow> 'b::ab_group_add"
  assumes "distinct (map fst xs)" "map_of xs k = Some v"
  shows "sum_list (map f (AList.delete k xs)) = sum_list (map f xs) - f (k, v)"
  using assms
proof (induction xs)
  case (Cons e xs)
  show ?case
  proof (cases "fst e = k")
    case True
    then have "AList.delete k xs = xs" using Cons.prems by (intro delete_id) auto
    then show ?thesis using True Cons.prems by (cases e) simp
  qed (use Cons in \<open>cases e; simp\<close>)
qed simp

lemma sum_list_update_key:
  fixes f :: "'k \<times> 'v \<Rightarrow> 'b::ab_group_add"
  assumes "distinct (map fst xs)" "map_of xs k = Some v"
  shows "sum_list (map f (AList.update k w xs)) = sum_list (map f xs) - f (k, v) + f (k, w)"
  using assms
proof (induction xs)
  case (Cons e xs)
  show ?case
  proof (cases "fst e = k")
    case True
    then show ?thesis using Cons.prems by (cases e) simp
  qed (use Cons in \<open>cases e; simp\<close>)
qed simp

lemma map_of_filter_distinct:
  "distinct (map fst al) \<Longrightarrow> map_of [e \<leftarrow> al. Q e] a = Option.bind (map_of al a) (\<lambda>w. if Q (a, w) then Some w else None)"
proof (induction al)
  case (Cons e al)
  show ?case
  proof (cases "fst e = a")
    case True
    then have "map_of al a = None" using Cons.prems by (auto simp: map_of_eq_None_iff)
    then show ?thesis using Cons True by (cases e) auto
  qed (use Cons in \<open>cases e; simp\<close>)
qed simp

lemma map_sum_Inr: "map_sum id f r = Inr y \<longleftrightarrow> (\<exists>x. r = Inr x \<and> y = f x)"
  by (cases r) auto

section \<open>Generated identifiers\<close>

text \<open>\<open>f"{prefix}{n}"\<close> of a counter: the decimal digits of a number, and a dictionary whose keys were all made from
  counter values below a bound.\<close>

fun digits :: "nat \<Rightarrow> string" where
  "digits n = (if n < 10 then [char_of (48 + n)] else digits (n div 10) @ [char_of (48 + n mod 10)])"

declare digits.simps [simp del]

definition undigits :: "string \<Rightarrow> nat" where
  "undigits = foldl (\<lambda>n c. 10 * n + (of_char c - 48)) 0"

lemma undigits_digits: "undigits (digits n) = n"
proof (induction n rule: digits.induct)
  case step: (1 n)
  consider (one) "n < 10" | (several) "\<not> n < 10" by blast
  then show ?case
  proof cases
    case one
    then show ?thesis by (subst digits.simps) (simp add: undigits_def of_char_of take_bit_eq_mod)
  next
    case several
    have "digits n = digits (n div 10) @ [char_of (48 + n mod 10)]" using several by (subst digits.simps) simp
    then have "undigits (digits n) = 10 * undigits (digits (n div 10)) + (of_char (char_of (48 + n mod 10) :: char) - 48)"
      by (simp add: undigits_def)
    also have "(of_char (char_of (48 + n mod 10) :: char) :: nat) = 48 + n mod 10"
    proof -
      have "n mod 10 < 10" by simp
      then show ?thesis by (simp add: of_char_of take_bit_eq_mod)
    qed
    finally show ?thesis using step [OF several] by simp
  qed
qed

lemma digits_inj [simp]: "digits m = digits n \<longleftrightarrow> m = n"
  by (metis undigits_digits)

definition ids_ok :: "string \<Rightarrow> nat \<Rightarrow> (string \<times> 'a) list \<Rightarrow> bool" where
  "ids_ok prefix n xs \<longleftrightarrow> distinct (map fst xs) \<and> (\<forall>k \<in> fst ` set xs. \<exists>m < n. k = prefix @ digits m)"

lemma ids_ok_mono: "ids_ok p n xs \<Longrightarrow> n \<le> m \<Longrightarrow> ids_ok p m xs"
  unfolding ids_ok_def by (meson order_less_le_trans)

lemma ids_ok_fresh: "ids_ok p n xs \<Longrightarrow> p @ digits n \<notin> fst ` set xs"
  by (auto simp: ids_ok_def)

lemma ids_ok_add: "ids_ok p n xs \<Longrightarrow> ids_ok p (Suc n) (AList.update (p @ digits n) v xs)"
  using ids_ok_fresh [of p n xs] by (auto simp: ids_ok_def AList_update_absent less_Suc_eq)

lemma ids_ok_update: "ids_ok p n xs \<Longrightarrow> k \<in> fst ` set xs \<Longrightarrow> ids_ok p n (AList.update k v xs)"
  unfolding ids_ok_def by (auto simp: distinct_update dest!: AList_update_elem)

lemma ids_ok_delete: "ids_ok p n xs \<Longrightarrow> ids_ok p n (AList.delete k xs)"
  unfolding ids_ok_def using AList_delete_subset [of k xs] by (auto simp: distinct_delete)

text \<open>\<open>f"{n:04d}"\<close>: at least four digits.\<close>

definition digits4 :: "nat \<Rightarrow> string" where
  "digits4 n = replicate (4 - length (digits n)) (CHR ''0'') @ digits n"

lemma undigits_zeros: "undigits (replicate k (CHR ''0'') @ ds) = undigits ds"
proof -
  have "foldl (\<lambda>n c. 10 * n + (of_char c - 48)) 0 (replicate k (CHR ''0'')) = (0 :: nat)"
    by (induction k) simp_all
  then show ?thesis by (simp add: undigits_def)
qed

lemma digits4_inj [simp]: "digits4 m = digits4 n \<longleftrightarrow> m = n"
  by (metis digits4_def undigits_digits undigits_zeros)

text \<open>A dictionary whose keys were all made by \<open>f\<close> from counter values below a bound.\<close>

definition minted :: "(nat \<Rightarrow> 'k) \<Rightarrow> nat \<Rightarrow> ('k \<times> 'a) list \<Rightarrow> bool" where
  "minted f n xs \<longleftrightarrow> distinct (map fst xs) \<and> (\<forall>k \<in> fst ` set xs. \<exists>m < n. k = f m)"

lemma minted_Nil [simp]: "minted f n []"
  by (simp add: minted_def)

lemma minted_mono: "minted f n xs \<Longrightarrow> n \<le> m \<Longrightarrow> minted f m xs"
  unfolding minted_def by (meson order_less_le_trans)

lemma minted_fresh: "minted f n xs \<Longrightarrow> inj f \<Longrightarrow> n \<le> m \<Longrightarrow> f m \<notin> fst ` set xs"
  by (force simp: minted_def inj_eq)

lemma minted_add: "minted f n xs \<Longrightarrow> inj f \<Longrightarrow> n \<le> m \<Longrightarrow> minted f (Suc m) (AList.update (f m) v xs)"
proof -
  assume a: "minted f n xs" "inj f" "n \<le> m"
  then have "f m \<notin> fst ` set xs" by (rule minted_fresh)
  moreover have "\<forall>k \<in> fst ` set xs. \<exists>i < Suc m. k = f i" using a(1,3) unfolding minted_def by (meson le_imp_less_Suc less_le_trans less_imp_le)
  ultimately show ?thesis using a(1) by (simp add: minted_def AList_update_absent) blast
qed

lemma AList_update_keys: "k \<in> fst ` set xs \<Longrightarrow> fst ` set (AList.update k v xs) = fst ` set xs"
  by (induction xs) auto

lemma minted_update: "minted f n xs \<Longrightarrow> k \<in> fst ` set xs \<Longrightarrow> minted f n (AList.update k v xs)"
  unfolding minted_def by (frule AList_update_keys [of _ _ v]) (auto simp only: distinct_update)

lemma minted_delete: "minted f n xs \<Longrightarrow> minted f n (AList.delete k xs)"
  unfolding minted_def using AList_delete_subset [of k xs] by (auto simp: distinct_delete)

section \<open>Machines and their runs\<close>

text \<open>
  A component is a machine: one operation maps the state to the next state and a result
  (which may be an error). A run applies a list of operations in order, as a client does.
\<close>

fun run_ops :: "('s \<Rightarrow> 'op \<Rightarrow> 's \<times> 'r) \<Rightarrow> 's \<Rightarrow> 'op list \<Rightarrow> 's" where
  "run_ops step s [] = s"
| "run_ops step s (x # xs) = run_ops step (fst (step s x)) xs"

lemma run_ops_append: "run_ops step s (xs @ ys) = run_ops step (run_ops step s xs) ys"
  by (induction xs arbitrary: s) auto

text \<open>The results of a run, in order.\<close>

fun run_trace :: "('s \<Rightarrow> 'op \<Rightarrow> 's \<times> 'r) \<Rightarrow> 's \<Rightarrow> 'op list \<Rightarrow> 'r list" where
  "run_trace step s [] = []"
| "run_trace step s (x # xs) = snd (step s x) # run_trace step (fst (step s x)) xs"

text \<open>
  A machine that implements another one: related states stay related, and every operation
  answers the same. A client then cannot tell them apart.
\<close>

locale simulation =
  fixes step :: "'s \<Rightarrow> 'op \<Rightarrow> 's \<times> 'r"
    and ref :: "'t \<Rightarrow> 'op \<Rightarrow> 't \<times> 'r"
    and rel :: "'s \<Rightarrow> 't \<Rightarrow> bool"
  assumes step_rel: "rel s t \<Longrightarrow> rel (fst (step s x)) (fst (ref t x))"
    and step_same: "rel s t \<Longrightarrow> snd (step s x) = snd (ref t x)"
begin

lemma run_rel: "rel s t \<Longrightarrow> rel (run_ops step s xs) (run_ops ref t xs)"
  by (induction xs arbitrary: s t) (simp_all add: step_rel)

lemma run_same: "rel s t \<Longrightarrow> run_trace step s xs = run_trace ref t xs"
  by (induction xs arbitrary: s t) (simp_all add: step_same, metis step_rel)

end

text \<open>
  The contract of a machine with an invariant: every operation keeps it, whatever the
  outcome. The run then keeps it too.
\<close>

locale invariant_machine =
  fixes step :: "'s \<Rightarrow> 'op \<Rightarrow> 's \<times> 'r"
    and inv :: "'s \<Rightarrow> bool"
  assumes step_inv: "inv s \<Longrightarrow> inv (fst (step s x))"
begin

lemma run_inv: "inv s \<Longrightarrow> inv (run_ops step s xs)"
  by (induction xs arbitrary: s) (auto intro: step_inv)

end

text \<open>
  A measured machine also has a quantity that no operation changes (money, stock, cells):
  the run keeps it.
\<close>

locale conserving_machine = invariant_machine step inv
  for step :: "'s \<Rightarrow> 'op \<Rightarrow> 's \<times> 'r" and inv :: "'s \<Rightarrow> bool" +
  fixes quantity :: "'s \<Rightarrow> 'q"
  assumes step_quantity: "inv s \<Longrightarrow> quantity (fst (step s x)) = quantity s"
begin

lemma run_quantity: "inv s \<Longrightarrow> quantity (run_ops step s xs) = quantity s"
  by (induction xs arbitrary: s) (simp_all add: step_quantity step_inv)

end

text \<open>
  Make and unmake: \<open>act\<close> performs a move and \<open>undo\<close> takes the last one back. The client
  of the interface performs several moves and takes all of them back.
\<close>

fun act_all :: "('s \<Rightarrow> 'm \<Rightarrow> 'e + 's) \<Rightarrow> 's \<Rightarrow> 'm list \<Rightarrow> 'e + 's" where
  "act_all act s [] = Inr s"
| "act_all act s (m # ms) = (case act s m of Inl e \<Rightarrow> Inl e | Inr t \<Rightarrow> act_all act t ms)"

fun undo_times :: "('s \<Rightarrow> 'e + 's) \<Rightarrow> nat \<Rightarrow> 's \<Rightarrow> 'e + 's" where
  "undo_times undo 0 s = Inr s"
| "undo_times undo (Suc k) s = (case undo s of Inl e \<Rightarrow> Inl e | Inr t \<Rightarrow> undo_times undo k t)"

lemma undo_times_Suc_end:
  "undo_times undo (Suc k) s =
     (case undo_times undo k s of Inl e \<Rightarrow> Inl e | Inr t \<Rightarrow> undo t)"
proof (induction k arbitrary: s)
  case 0
  then show ?case by (simp split: sum.split)
next
  case (Suc k)
  show ?case
  proof (cases "undo s")
    case (Inr t)
    then have "undo_times undo (Suc (Suc k)) s = undo_times undo (Suc k) t" by simp
    also have "\<dots> = (case undo_times undo k t of Inl e \<Rightarrow> Inl e | Inr t \<Rightarrow> undo t)"
      by (rule Suc.IH)
    finally show ?thesis using Inr by simp
  qed simp
qed

locale undoable =
  fixes act :: "'s \<Rightarrow> 'm \<Rightarrow> 'e + 's"
    and undo :: "'s \<Rightarrow> 'e + 's"
    and ok :: "'s \<Rightarrow> bool"
  assumes act_ok: "ok s \<Longrightarrow> act s m = Inr t \<Longrightarrow> ok t"
    and undo_act: "ok s \<Longrightarrow> act s m = Inr t \<Longrightarrow> undo t = Inr s"
begin

lemma act_all_ok: "ok s \<Longrightarrow> act_all act s ms = Inr t \<Longrightarrow> ok t"
  by (induction ms arbitrary: s) (auto split: sum.splits intro: act_ok)

lemma undo_act_all: "ok s \<Longrightarrow> act_all act s ms = Inr t \<Longrightarrow> undo_times undo (length ms) t = Inr s"
proof (induction ms arbitrary: s)
  case (Cons m ms)
  then obtain u where u: "act s m = Inr u" and rest: "act_all act u ms = Inr t"
    by (auto split: sum.splits)
  have "ok u" using Cons.prems(1) u by (rule act_ok)
  then have "undo_times undo (length ms) t = Inr u" using rest by (rule Cons.IH)
  moreover have "undo u = Inr s" using Cons.prems(1) u by (rule undo_act)
  ultimately show ?case by (simp add: undo_times_Suc_end del: undo_times.simps)
qed simp

end

end
