(* ===== verification/Tic_Tac_Toe.thy ===== *)
theory Tic_Tac_Toe
  imports Prelude
begin

text \<open>
  The tic-tac-toe game of \<open>python-low-level-design/tic-tac-toe/tic_tac_toe.py\<close>: the board
  with running sums per line, exact undo, the scripted and the minimax player, and the game
  facade. A board is a record with the fields of the class \<open>Board\<close>; positions are pairs of
  integers, as a client may pass any pair. A method that raises returns \<open>Inl\<close> of the
  exception and then leaves the object as it was. Text rendering, the interactive player
  (standard input) and the lock are left out: each method body is one atomic step.
\<close>

section \<open>Symbols, status, exceptions\<close>

datatype PlayerSymbol = MarkX | MarkO

fun opponent :: "PlayerSymbol \<Rightarrow> PlayerSymbol" where
  "opponent MarkX = MarkO"
| "opponent MarkO = MarkX"

fun sign :: "PlayerSymbol \<Rightarrow> int" where
  "sign MarkX = 1"
| "sign MarkO = -1"

datatype GameStatus = IN_PROGRESS | WIN | DRAW

datatype ttt_error = GameError | InvalidMoveError | NotYourTurnError | GameOverError
  | Builtin py_error

type_synonym position = "int \<times> int"

section \<open>Board\<close>

record board =
  bd_n :: int
  bd_grid :: "PlayerSymbol option list list"
  bd_rows :: "int list"
  bd_cols :: "int list"
  bd_diag :: int
  bd_anti :: int
  bd_history :: "position list"
  bd_winner :: "PlayerSymbol option"

definition new_board :: "int \<Rightarrow> ttt_error + board" where
  "new_board sz =
     (if sz < 3 then Inl (Builtin ValueError)
      else Inr \<lparr>bd_n = sz,
                bd_grid = replicate (nat sz) (replicate (nat sz) None),
                bd_rows = replicate (nat sz) 0,
                bd_cols = replicate (nat sz) 0,
                bd_diag = 0, bd_anti = 0, bd_history = [], bd_winner = None\<rparr>)"

text \<open>\<open>cell\<close> indexes the nested list as Python does; \<open>cell_at\<close> is the same inside the board.\<close>

definition cell :: "board \<Rightarrow> position \<Rightarrow> ttt_error + PlayerSymbol option" where
  "cell b pos =
     (case py_get (bd_grid b) (fst pos) of
        Inl e \<Rightarrow> Inl (Builtin e)
      | Inr row \<Rightarrow> (case py_get row (snd pos) of Inl e \<Rightarrow> Inl (Builtin e) | Inr v \<Rightarrow> Inr v))"

abbreviation cell_at :: "board \<Rightarrow> nat \<Rightarrow> nat \<Rightarrow> PlayerSymbol option" where
  "cell_at b r c \<equiv> bd_grid b ! r ! c"

definition is_valid_move :: "board \<Rightarrow> position \<Rightarrow> bool" where
  "is_valid_move b pos =
     (bd_winner b = None \<and> 0 \<le> fst pos \<and> fst pos < bd_n b \<and> 0 \<le> snd pos \<and> snd pos < bd_n b
      \<and> cell_at b (nat (fst pos)) (nat (snd pos)) = None)"

definition bump :: "board \<Rightarrow> int \<Rightarrow> int \<Rightarrow> int \<Rightarrow> board \<times> bool" where
  "bump b r c delta =
     (let n = bd_n b;
          rows = (bd_rows b)[nat r := bd_rows b ! nat r + delta];
          cols = (bd_cols b)[nat c := bd_cols b ! nat c + delta];
          diag = (if r = c then bd_diag b + delta else bd_diag b);
          anti = (if r + c = n - 1 then bd_anti b + delta else bd_anti b)
      in (b\<lparr>bd_rows := rows, bd_cols := cols, bd_diag := diag, bd_anti := anti\<rparr>,
          \<bar>rows ! nat r\<bar> = n \<or> \<bar>cols ! nat c\<bar> = n \<or> \<bar>diag\<bar> = n \<or> \<bar>anti\<bar> = n))"

definition set_cell :: "board \<Rightarrow> int \<Rightarrow> int \<Rightarrow> PlayerSymbol option \<Rightarrow> board" where
  "set_cell b r c v =
     b\<lparr>bd_grid := (bd_grid b)[nat r := (bd_grid b ! nat r)[nat c := v]]\<rparr>"

definition place_move :: "board \<Rightarrow> position \<Rightarrow> PlayerSymbol \<Rightarrow> ttt_error + board \<times> PlayerSymbol option" where
  "place_move b pos symbol =
     (if bd_winner b \<noteq> None then Inl GameOverError
      else if \<not> is_valid_move b pos then Inl InvalidMoveError
      else
        (let (r, c) = pos;
             b1 = set_cell b r c (Some symbol);
             b2 = b1\<lparr>bd_history := bd_history b1 @ [pos]\<rparr>;
             (b3, won) = bump b2 r c (sign symbol);
             b4 = (if won then b3\<lparr>bd_winner := Some symbol\<rparr> else b3)
         in Inr (b4, bd_winner b4)))"

text \<open>
  \<open>undo_move\<close> reads the symbol of the popped cell; an empty cell there would make
  \<open>symbol.sign\<close> raise. No board that the operations build has such a cell
  (\<open>reach_undo\<close> below).
\<close>

definition undo_move :: "board \<Rightarrow> ttt_error + board \<times> position" where
  "undo_move b =
     (if bd_history b = [] then Inl GameError
      else
        (let (r, c) = last (bd_history b);
             b1 = b\<lparr>bd_history := butlast (bd_history b)\<rparr>
         in case cell b1 (r, c) of
              Inl e \<Rightarrow> Inl e
            | Inr None \<Rightarrow> Inl (Builtin AttributeError)
            | Inr (Some symbol) \<Rightarrow>
                (let b2 = set_cell b1 r c None;
                     (b3, _) = bump b2 r c (- sign symbol)
                 in Inr (b3\<lparr>bd_winner := None\<rparr>, (r, c)))))"

definition get_available_moves :: "board \<Rightarrow> position list" where
  "get_available_moves b =
     concat (map (\<lambda>r. map (\<lambda>c. (r, c))
       (filter (\<lambda>c. cell_at b (nat r) (nat c) = None) (py_range (bd_n b)))) (py_range (bd_n b)))"

definition is_full :: "board \<Rightarrow> bool" where
  "is_full b = (int (length (bd_history b)) = bd_n b * bd_n b)"

definition check_winner :: "board \<Rightarrow> PlayerSymbol option" where
  "check_winner b = bd_winner b"

definition board_key :: "board \<Rightarrow> PlayerSymbol option list" where
  "board_key b = concat (bd_grid b)"

text \<open>\<open>copy\<close> replays the history on a fresh board, reading each symbol off the grid.\<close>

fun replay_history :: "board \<Rightarrow> board \<Rightarrow> position list \<Rightarrow> ttt_error + board" where
  "replay_history src clone [] = Inr clone"
| "replay_history src clone (pos # ps) =
     (case cell src pos of
        Inl e \<Rightarrow> Inl e
      | Inr None \<Rightarrow>
          Inl (if bd_winner clone \<noteq> None then GameOverError
               else if \<not> is_valid_move clone pos then InvalidMoveError
               else Builtin AttributeError)
      | Inr (Some s) \<Rightarrow>
          (case place_move clone pos s of
             Inl e \<Rightarrow> Inl e
           | Inr (clone', _) \<Rightarrow> replay_history src clone' ps))"

definition copy_board :: "board \<Rightarrow> ttt_error + board" where
  "copy_board b =
     (case new_board (bd_n b) of Inl e \<Rightarrow> Inl e | Inr clone \<Rightarrow> replay_history b clone (bd_history b))"

section \<open>Players\<close>

text \<open>
  The scripted player pops moves from its script until one is valid. The minimax player
  \<open>BotPlayer\<close> searches by make and unmake on the board it is given, with a memo table keyed
  by the grid, the side to move and the remaining depth. The recursion of \<open>_score\<close> has the
  depth of the call stack as fuel, and running out is Python's \<open>RecursionError\<close>.
\<close>

fun scripted_get_move :: "position list \<Rightarrow> board \<Rightarrow> position list \<times> (ttt_error + position)" where
  "scripted_get_move [] b = ([], Inl GameError)"
| "scripted_get_move (m # ms) b =
     (if is_valid_move b m then (ms, Inr m) else scripted_get_move ms b)"

type_synonym memo_key = "PlayerSymbol option list \<times> PlayerSymbol \<times> int option"
type_synonym memo = "memo_key \<Rightarrow> int option"

definition empty_cells :: "board \<Rightarrow> int" where
  "empty_cells b = bd_n b * bd_n b - int (length (bd_history b))"

definition memo_key_of :: "board \<Rightarrow> PlayerSymbol \<Rightarrow> int option \<Rightarrow> int \<Rightarrow> memo_key" where
  "memo_key_of b to_move max_depth depth =
     (board_key b, to_move, map_option (\<lambda>m. m - depth) max_depth)"

definition depth_reached :: "int option \<Rightarrow> int \<Rightarrow> bool" where
  "depth_reached max_depth depth = (case max_depth of None \<Rightarrow> False | Some m \<Rightarrow> m \<le> depth)"

definition leaf_score :: "PlayerSymbol \<Rightarrow> board \<Rightarrow> PlayerSymbol \<Rightarrow> int" where
  "leaf_score me b w = (if w = me then 1 + empty_cells b else - (1 + empty_cells b))"

function (sequential)
  score :: "nat \<Rightarrow> PlayerSymbol \<Rightarrow> int option \<Rightarrow> memo \<Rightarrow> board \<Rightarrow> PlayerSymbol \<Rightarrow> int
    \<Rightarrow> ttt_error + memo \<times> board \<times> int"
  and score_moves :: "nat \<Rightarrow> PlayerSymbol \<Rightarrow> int option \<Rightarrow> memo \<Rightarrow> board \<Rightarrow> PlayerSymbol \<Rightarrow> int
    \<Rightarrow> position list \<Rightarrow> ttt_error + memo \<times> board \<times> int list"
  where
    "score 0 me max_depth memo b to_move depth = Inl (Builtin RecursionError)"
  | "score (Suc fuel) me max_depth memo b to_move depth =
       (case check_winner b of
          Some w \<Rightarrow> Inr (memo, b, leaf_score me b w)
        | None \<Rightarrow>
            if empty_cells b = 0 then Inr (memo, b, 0)
            else if depth_reached max_depth depth then Inr (memo, b, 0)
            else
              (case memo (memo_key_of b to_move max_depth depth) of
                 Some v \<Rightarrow> Inr (memo, b, v)
               | None \<Rightarrow>
                   (case score_moves fuel me max_depth memo b to_move depth (get_available_moves b) of
                      Inl e \<Rightarrow> Inl e
                    | Inr (memo', b', scores) \<Rightarrow>
                        (case (if to_move = me then py_max scores else py_min scores) of
                           Inl e \<Rightarrow> Inl (Builtin e)
                         | Inr result \<Rightarrow>
                             Inr (memo'(memo_key_of b to_move max_depth depth \<mapsto> result), b', result)))))"
  | "score_moves fuel me max_depth memo b to_move depth [] = Inr (memo, b, [])"
  | "score_moves fuel me max_depth memo b to_move depth (m # ms) =
       (case place_move b m to_move of
          Inl e \<Rightarrow> Inl e
        | Inr (b1, _) \<Rightarrow>
            (case score fuel me max_depth memo b1 (opponent to_move) (depth + 1) of
               Inl e \<Rightarrow> Inl e
             | Inr (memo1, b2, v) \<Rightarrow>
                 (case undo_move b2 of
                    Inl e \<Rightarrow> Inl e
                  | Inr (b3, _) \<Rightarrow>
                      (case score_moves fuel me max_depth memo1 b3 to_move depth ms of
                         Inl e \<Rightarrow> Inl e
                       | Inr (memo2, b4, vs) \<Rightarrow> Inr (memo2, b4, v # vs)))))"
  by pat_completeness auto
termination
  by (relation "measures [case_sum (\<lambda>(fuel, _). fuel) (\<lambda>(fuel, _). fuel),
        case_sum (\<lambda>_. 0) (\<lambda>(_, _, _, _, _, _, _, ms). Suc (length ms))]") auto

text \<open>The loop of \<open>BotPlayer.get_move\<close>; \<open>best\<close> holds \<open>best_score\<close> and \<open>best_move\<close>.\<close>

fun bot_loop :: "nat \<Rightarrow> PlayerSymbol \<Rightarrow> int option \<Rightarrow> memo \<Rightarrow> board \<Rightarrow> (int \<times> position) option
    \<Rightarrow> position list \<Rightarrow> ttt_error + memo \<times> board \<times> (int \<times> position) option" where
  "bot_loop fuel me max_depth memo b best [] = Inr (memo, b, best)"
| "bot_loop fuel me max_depth memo b best (m # ms) =
     (case place_move b m me of
        Inl e \<Rightarrow> Inl e
      | Inr (b1, _) \<Rightarrow>
          (case score fuel me max_depth memo b1 (opponent me) 1 of
             Inl e \<Rightarrow> Inl e
           | Inr (memo1, b2, v) \<Rightarrow>
               (case undo_move b2 of
                  Inl e \<Rightarrow> Inl e
                | Inr (b3, _) \<Rightarrow>
                    bot_loop fuel me max_depth memo1 b3
                      (case best of
                         None \<Rightarrow> Some (v, m)
                       | Some (v0, m0) \<Rightarrow> if v > v0 then Some (v, m) else Some (v0, m0)) ms)))"

definition bot_get_move :: "nat \<Rightarrow> PlayerSymbol \<Rightarrow> int option \<Rightarrow> memo \<Rightarrow> board
    \<Rightarrow> ttt_error + memo \<times> board \<times> position" where
  "bot_get_move fuel me max_depth memo b =
     (case bot_loop fuel me max_depth memo b None (get_available_moves b) of
        Inl e \<Rightarrow> Inl e
      | Inr (memo', b', None) \<Rightarrow> Inl GameError
      | Inr (memo', b', Some (_, m)) \<Rightarrow> Inr (memo', b', m))"

section \<open>Game\<close>

text \<open>
  A player is its name, its symbol and its strategy, with the state the strategy keeps
  (the rest of the script, or the memo table). The winner is the index of the player. A bot
  whose search raises keeps its old memo table: only the recursion limit can interrupt a
  search after it stored something.
\<close>

datatype strategy = Scripted "position list" | Bot "int option" memo

record player =
  pl_name :: string
  pl_symbol :: PlayerSymbol
  pl_strategy :: strategy

record game =
  gm_players :: "player \<times> player"
  gm_size :: int
  gm_board :: board
  gm_turn :: nat
  gm_status :: GameStatus
  gm_winner :: "nat option"

definition current_player :: "game \<Rightarrow> player" where
  "current_player g = (if gm_turn g = 0 then fst (gm_players g) else snd (gm_players g))"

definition reset_game :: "game \<Rightarrow> ttt_error + game" where
  "reset_game g =
     (case new_board (gm_size g) of
        Inl e \<Rightarrow> Inl e
      | Inr b \<Rightarrow> Inr (g\<lparr>gm_board := b, gm_turn := 0, gm_status := IN_PROGRESS, gm_winner := None\<rparr>))"

definition new_game :: "player \<Rightarrow> player \<Rightarrow> int \<Rightarrow> ttt_error + game" where
  "new_game p1 p2 sz =
     (if pl_symbol p1 = pl_symbol p2 then Inl (Builtin ValueError)
      else
        (case new_board sz of
           Inl e \<Rightarrow> Inl e
         | Inr b \<Rightarrow> Inr \<lparr>gm_players = (p1, p2), gm_size = sz, gm_board = b, gm_turn = 0,
                        gm_status = IN_PROGRESS, gm_winner = None\<rparr>))"

definition make_move :: "game \<Rightarrow> PlayerSymbol \<Rightarrow> position \<Rightarrow> game \<times> (ttt_error + GameStatus)" where
  "make_move g symbol pos =
     (if gm_status g \<noteq> IN_PROGRESS then (g, Inl GameOverError)
      else if symbol \<noteq> pl_symbol (current_player g) then (g, Inl NotYourTurnError)
      else
        (case place_move (gm_board g) pos symbol of
           Inl e \<Rightarrow> (g, Inl e)
         | Inr (b, w) \<Rightarrow>
             (let g1 = g\<lparr>gm_board := b\<rparr>;
                  g2 = (if w \<noteq> None then g1\<lparr>gm_status := WIN, gm_winner := Some (gm_turn g)\<rparr>
                        else if is_full b then g1\<lparr>gm_status := DRAW\<rparr>
                        else g1\<lparr>gm_turn := 1 - gm_turn g\<rparr>)
              in (g2, Inr (gm_status g2)))))"

definition undo :: "game \<Rightarrow> game \<times> (ttt_error + position)" where
  "undo g =
     (case undo_move (gm_board g) of
        Inl e \<Rightarrow> (g, Inl e)
      | Inr (b, pos) \<Rightarrow>
          (g\<lparr>gm_board := b,
             gm_turn := (if gm_status g = IN_PROGRESS then 1 - gm_turn g else gm_turn g),
             gm_status := IN_PROGRESS, gm_winner := None\<rparr>, Inr pos))"

text \<open>The strategy runs on a copy of the board; only its own state comes back.\<close>

fun get_move :: "nat \<Rightarrow> player \<Rightarrow> board \<Rightarrow> player \<times> (ttt_error + position)" where
  "get_move fuel p b =
     (case pl_strategy p of
        Scripted ms \<Rightarrow>
          (let (ms', r) = scripted_get_move ms b in (p\<lparr>pl_strategy := Scripted ms'\<rparr>, r))
      | Bot d memo \<Rightarrow>
          (case bot_get_move fuel (pl_symbol p) d memo b of
             Inl e \<Rightarrow> (p, Inl e)
           | Inr (memo', _, m) \<Rightarrow> (p\<lparr>pl_strategy := Bot d memo'\<rparr>, Inr m)))"

definition set_current :: "game \<Rightarrow> player \<Rightarrow> game" where
  "set_current g p =
     g\<lparr>gm_players := (if gm_turn g = 0 then (p, snd (gm_players g)) else (fst (gm_players g), p))\<rparr>"

definition play_turn :: "nat \<Rightarrow> game \<Rightarrow> game \<times> (ttt_error + GameStatus)" where
  "play_turn fuel g =
     (case copy_board (gm_board g) of
        Inl e \<Rightarrow> (g, Inl e)
      | Inr b \<Rightarrow>
          (case get_move fuel (current_player g) b of
             (p, Inl e) \<Rightarrow> (set_current g p, Inl e)
           | (p, Inr m) \<Rightarrow> make_move (set_current g p) (pl_symbol p) m))"

text \<open>\<open>play\<close>: the loop has a bound on its turns; the outer \<open>None\<close> means the bound was hit.\<close>

fun play :: "nat \<Rightarrow> nat \<Rightarrow> game \<Rightarrow> (game \<times> (ttt_error + GameStatus)) option" where
  "play turns fuel g =
     (if gm_status g \<noteq> IN_PROGRESS then Some (g, Inr (gm_status g))
      else (case turns of
        0 \<Rightarrow> None
      | Suc k \<Rightarrow> (case play_turn fuel g of
                   (g', Inl e) \<Rightarrow> Some (g', Inl e)
                 | (g', Inr _) \<Rightarrow> play k fuel g')))"

section \<open>Boards that the operations build\<close>

inductive reach :: "board \<Rightarrow> bool" where
  init: "new_board sz = Inr b \<Longrightarrow> reach b"
| place: "reach b \<Longrightarrow> place_move b pos s = Inr (b', w) \<Longrightarrow> reach b'"

definition shaped :: "board \<Rightarrow> bool" where
  "shaped b \<longleftrightarrow> 3 \<le> bd_n b \<and> length (bd_grid b) = nat (bd_n b)
     \<and> (\<forall>r < nat (bd_n b). length (bd_grid b ! r) = nat (bd_n b))
     \<and> length (bd_rows b) = nat (bd_n b) \<and> length (bd_cols b) = nat (bd_n b)"

fun mark :: "PlayerSymbol option \<Rightarrow> int" where
  "mark None = 0"
| "mark (Some s) = sign s"

definition sums_ok :: "board \<Rightarrow> bool" where
  "sums_ok b \<longleftrightarrow>
     (\<forall>r < nat (bd_n b). bd_rows b ! r = (\<Sum>c < nat (bd_n b). mark (cell_at b r c))) \<and>
     (\<forall>c < nat (bd_n b). bd_cols b ! c = (\<Sum>r < nat (bd_n b). mark (cell_at b r c))) \<and>
     bd_diag b = (\<Sum>i < nat (bd_n b). mark (cell_at b i i)) \<and>
     bd_anti b = (\<Sum>i < nat (bd_n b). mark (cell_at b i (nat (bd_n b) - 1 - i)))"

definition hist_ok :: "board \<Rightarrow> bool" where
  "hist_ok b \<longleftrightarrow> distinct (bd_history b) \<and>
     (\<forall>r c. (r, c) \<in> set (bd_history b) \<longleftrightarrow>
        0 \<le> r \<and> r < bd_n b \<and> 0 \<le> c \<and> c < bd_n b \<and> cell_at b (nat r) (nat c) \<noteq> None)"

text \<open>The reference for win detection: a scan of every row, column and diagonal.\<close>

definition wins :: "board \<Rightarrow> PlayerSymbol \<Rightarrow> bool" where
  "wins b s \<longleftrightarrow> (let n = nat (bd_n b) in
     (\<exists>r < n. \<forall>c < n. cell_at b r c = Some s) \<or>
     (\<exists>c < n. \<forall>r < n. cell_at b r c = Some s) \<or>
     (\<forall>i < n. cell_at b i i = Some s) \<or>
     (\<forall>i < n. cell_at b i (n - 1 - i) = Some s))"

lemma sign_cases: "sign s = 1 \<or> sign s = -1"
  by (cases s) auto

lemma sign_inj [simp]: "sign s = sign t \<longleftrightarrow> s = t"
  by (cases s; cases t) auto

lemma mark_bounds: "mark v \<le> 1 \<and> -1 \<le> mark v"
proof (cases v)
  case (Some s)
  then show ?thesis by (cases s) auto
qed simp

lemma mark_eq_sign [simp]: "mark v = sign s \<longleftrightarrow> v = Some s"
  using sign_cases [of s] by (cases v) auto

lemma opponent_neq [simp]: "opponent s \<noteq> s" "s \<noteq> opponent s"
  by (cases s; simp)+

lemma symbol_other: "t \<noteq> s \<longleftrightarrow> t = opponent s"
  by (cases s; cases t) auto

text \<open>What a successful \<open>place_move\<close> did.\<close>

lemma place_moveE:
  assumes "place_move b pos s = Inr (b', w)"
  obtains r c where "pos = (int r, int c)" "r < nat (bd_n b)" "c < nat (bd_n b)"
    "bd_winner b = None" "cell_at b r c = None"
    "bd_n b' = bd_n b" "bd_history b' = bd_history b @ [pos]" "w = bd_winner b'"
    "bd_grid b' = (bd_grid b)[r := (bd_grid b ! r)[c := Some s]]"
    "bd_rows b' = (bd_rows b)[r := bd_rows b ! r + sign s]"
    "bd_cols b' = (bd_cols b)[c := bd_cols b ! c + sign s]"
    "bd_diag b' = (if r = c then bd_diag b + sign s else bd_diag b)"
    "bd_anti b' = (if int r + int c = bd_n b - 1 then bd_anti b + sign s else bd_anti b)"
    "bd_winner b' = (if \<bar>bd_rows b' ! r\<bar> = bd_n b \<or> \<bar>bd_cols b' ! c\<bar> = bd_n b
        \<or> \<bar>bd_diag b'\<bar> = bd_n b \<or> \<bar>bd_anti b'\<bar> = bd_n b then Some s else None)"
proof -
  obtain r c where pos: "pos = (r, c)" by (cases pos)
  have v: "bd_winner b = None" "is_valid_move b pos"
    using assms by (auto simp: place_move_def split: if_splits)
  then have rc: "0 \<le> r" "r < bd_n b" "0 \<le> c" "c < bd_n b" "cell_at b (nat r) (nat c) = None"
    by (auto simp: is_valid_move_def pos)
  define b3 where "b3 = fst (bump ((set_cell b r c (Some s))\<lparr>bd_history := bd_history b @ [pos]\<rparr>) r c (sign s))"
  define won where "won \<longleftrightarrow> snd (bump ((set_cell b r c (Some s))\<lparr>bd_history := bd_history b @ [pos]\<rparr>) r c (sign s))"
  have b': "b' = (if won then b3\<lparr>bd_winner := Some s\<rparr> else b3)" and w: "w = bd_winner b'"
    using assms v by (auto simp: place_move_def pos b3_def won_def set_cell_def split: prod.splits if_splits)
  have b3: "b3 = b\<lparr>bd_grid := (bd_grid b)[nat r := (bd_grid b ! nat r)[nat c := Some s]],
      bd_history := bd_history b @ [pos],
      bd_rows := (bd_rows b)[nat r := bd_rows b ! nat r + sign s],
      bd_cols := (bd_cols b)[nat c := bd_cols b ! nat c + sign s],
      bd_diag := (if r = c then bd_diag b + sign s else bd_diag b),
      bd_anti := (if r + c = bd_n b - 1 then bd_anti b + sign s else bd_anti b)\<rparr>"
    by (simp add: b3_def bump_def set_cell_def Let_def cong: if_cong split del: if_split)
  have won: "won \<longleftrightarrow> \<bar>bd_rows b3 ! nat r\<bar> = bd_n b \<or> \<bar>bd_cols b3 ! nat c\<bar> = bd_n b
      \<or> \<bar>bd_diag b3\<bar> = bd_n b \<or> \<bar>bd_anti b3\<bar> = bd_n b"
    by (simp add: b3 won_def bump_def set_cell_def Let_def cong: if_cong split del: if_split)
  have same: "bd_n b' = bd_n b3" "bd_history b' = bd_history b3" "bd_grid b' = bd_grid b3"
    "bd_rows b' = bd_rows b3" "bd_cols b' = bd_cols b3" "bd_diag b' = bd_diag b3"
    "bd_anti b' = bd_anti b3" "bd_winner b' = (if won then Some s else bd_winner b3)"
    by (simp_all add: b')
  have eq: "nat r = nat c \<longleftrightarrow> r = c" "int (nat r) = r" "int (nat c) = c" "bd_winner b3 = None"
    using rc v by (auto simp: b3)
  show thesis
  proof (rule that [of "nat r" "nat c"])
    show "bd_winner b' = (if \<bar>bd_rows b' ! nat r\<bar> = bd_n b \<or> \<bar>bd_cols b' ! nat c\<bar> = bd_n b
        \<or> \<bar>bd_diag b'\<bar> = bd_n b \<or> \<bar>bd_anti b'\<bar> = bd_n b then Some s else None)"
      by (simp only: same won eq)
  qed (use rc v in \<open>simp_all add: same w eq pos b3\<close>)
qed

lemma new_board_cases:
  assumes "new_board sz = Inr b"
  shows "3 \<le> sz" "bd_n b = sz" "bd_history b = []" "bd_winner b = None" "shaped b"
    "\<And>r c. r < nat sz \<Longrightarrow> c < nat sz \<Longrightarrow> cell_at b r c = None"
    "sums_ok b"
  using assms by (auto simp: new_board_def shaped_def sums_ok_def split: if_splits)

lemma place_shaped:
  assumes "shaped b" "place_move b pos s = Inr (b', w)"
  shows "shaped b'"
  using assms(2) by (rule place_moveE) (use assms(1) in \<open>auto simp: shaped_def nth_list_update\<close>)

lemma place_cell_at:
  assumes "shaped b" "place_move b (int r, int c) s = Inr (b', w)"
    and "i < nat (bd_n b)" "j < nat (bd_n b)"
  shows "cell_at b' i j = (if i = r \<and> j = c then Some s else cell_at b i j)"
  using assms(2) by (rule place_moveE) (use assms(1,3,4) in \<open>auto simp: shaped_def nth_list_update\<close>)

lemma reach_shaped: "reach b \<Longrightarrow> shaped b"
  by (induction rule: reach.induct) (auto intro: new_board_cases place_shaped)

subsection \<open>The running sums\<close>

text \<open>
  One lemma for rows, columns and diagonals: a line is a path \<open>f, g\<close> through the grid that
  visits no cell twice.
\<close>

lemma place_line_sum:
  assumes sh: "shaped b" and pm: "place_move b (int r, int c) s = Inr (b', w)"
    and path: "\<And>i. i < nat (bd_n b) \<Longrightarrow> f i < nat (bd_n b) \<and> g i < nat (bd_n b)"
    and once: "\<And>i j. f i = f j \<Longrightarrow> g i = g j \<Longrightarrow> i < nat (bd_n b) \<Longrightarrow> j < nat (bd_n b) \<Longrightarrow> i = j"
  shows "(\<Sum>i < nat (bd_n b). mark (cell_at b' (f i) (g i))) =
    (\<Sum>i < nat (bd_n b). mark (cell_at b (f i) (g i)))
      + (if \<exists>k < nat (bd_n b). f k = r \<and> g k = c then sign s else 0)"
proof (cases "\<exists>k < nat (bd_n b). f k = r \<and> g k = c")
  case True
  then obtain k where k: "k < nat (bd_n b)" "f k = r" "g k = c" by blast
  have none: "cell_at b r c = None" using pm by (rule place_moveE) simp
  have "(\<Sum>i < nat (bd_n b). mark (cell_at b' (f i) (g i))) =
      (\<Sum>i < nat (bd_n b). mark (cell_at b (f i) (g i)))
        + (mark (cell_at b' (f k) (g k)) - mark (cell_at b (f k) (g k)))"
  proof (rule sum_change_one)
    fix i assume "i \<in> {..<nat (bd_n b)}" "i \<noteq> k"
    then have "\<not> (f i = r \<and> g i = c)" and "i < nat (bd_n b)" using k once [of i k] by auto
    then show "mark (cell_at b' (f i) (g i)) = mark (cell_at b (f i) (g i))"
      using place_cell_at [OF sh pm] path by auto
  qed (use k in auto)
  then show ?thesis using True k path [of k] place_cell_at [OF sh pm, of r c] none by auto
next
  case False
  then show ?thesis using place_cell_at [OF sh pm] path by (auto intro!: sum.cong)
qed

lemma place_sums:
  assumes sh: "shaped b" and so: "sums_ok b" and pm: "place_move b pos s = Inr (b', w)"
  shows "sums_ok b'"
  using pm
proof (rule place_moveE)
  fix r c
  assume pos: "pos = (int r, int c)" and rc: "r < nat (bd_n b)" "c < nat (bd_n b)"
    and n: "bd_n b' = bd_n b"
    and rows: "bd_rows b' = (bd_rows b)[r := bd_rows b ! r + sign s]"
    and cols: "bd_cols b' = (bd_cols b)[c := bd_cols b ! c + sign s]"
    and diag: "bd_diag b' = (if r = c then bd_diag b + sign s else bd_diag b)"
    and anti: "bd_anti b' = (if int r + int c = bd_n b - 1 then bd_anti b + sign s else bd_anti b)"
  let ?N = "nat (bd_n b)"
  have len: "length (bd_rows b) = ?N" "length (bd_cols b) = ?N" using sh by (auto simp: shaped_def)
  note line = place_line_sum [OF sh pm [unfolded pos]]
  have R: "(\<Sum>j<?N. mark (cell_at b' i j)) =
      (\<Sum>j<?N. mark (cell_at b i j)) + (if i = r then sign s else 0)" if "i < ?N" for i
    using line [of "\<lambda>_. i" "\<lambda>j. j"] that rc by auto
  have C: "(\<Sum>i<?N. mark (cell_at b' i j)) =
      (\<Sum>i<?N. mark (cell_at b i j)) + (if j = c then sign s else 0)" if "j < ?N" for j
    using line [of "\<lambda>i. i" "\<lambda>_. j"] that rc by auto
  have D: "(\<Sum>i<?N. mark (cell_at b' i i)) =
      (\<Sum>i<?N. mark (cell_at b i i)) + (if r = c then sign s else 0)"
    using line [of "\<lambda>i. i" "\<lambda>i. i"] rc by auto
  have on_anti: "int r + int c = bd_n b - 1 \<longleftrightarrow> c = ?N - 1 - r" using rc by linarith
  have A: "(\<Sum>i<?N. mark (cell_at b' i (?N - 1 - i))) =
      (\<Sum>i<?N. mark (cell_at b i (?N - 1 - i))) + (if c = ?N - 1 - r then sign s else 0)"
    using line [of "\<lambda>i. i" "\<lambda>i. ?N - 1 - i"] rc by auto
  show "sums_ok b'"
    using so len rc unfolding sums_ok_def n D A
    by (simp add: R C rows cols diag anti on_anti nth_list_update)
qed

lemma reach_sums: "reach b \<Longrightarrow> sums_ok b"
  by (induction rule: reach.induct) (auto intro: new_board_cases place_sums reach_shaped)

subsection \<open>Win detection\<close>

definition lines :: "nat \<Rightarrow> ((nat \<Rightarrow> nat) \<times> (nat \<Rightarrow> nat)) set" where
  "lines n = {(\<lambda>_. r, \<lambda>i. i) |r. r < n} \<union> {(\<lambda>i. i, \<lambda>_. c) |c. c < n}
     \<union> {(\<lambda>i. i, \<lambda>i. i), (\<lambda>i. i, \<lambda>i. n - 1 - i)}"

definition owns :: "board \<Rightarrow> PlayerSymbol \<Rightarrow> (nat \<Rightarrow> nat) \<times> (nat \<Rightarrow> nat) \<Rightarrow> bool" where
  "owns b s l \<longleftrightarrow> (\<forall>i < nat (bd_n b). cell_at b (fst l i) (snd l i) = Some s)"

lemma wins_lines: "wins b s \<longleftrightarrow> (\<exists>l \<in> lines (nat (bd_n b)). owns b s l)"
  by (auto simp: wins_def lines_def owns_def Let_def bex_Un)

lemma lines_inside: "l \<in> lines n \<Longrightarrow> i < n \<Longrightarrow> fst l i < n \<and> snd l i < n"
  by (auto simp: lines_def)

lemma ex_symbol: "(\<exists>s. P s) \<longleftrightarrow> P MarkX \<or> P MarkO"
  by (metis PlayerSymbol.exhaust)

lemma full_line_iff:
  assumes "0 < n"
  shows "\<bar>\<Sum>i < n. mark (v i)\<bar> = int n \<longleftrightarrow> (\<exists>s. \<forall>i < n. v i = Some s)"
proof -
  have "\<bar>\<Sum>i < n. mark (v i)\<bar> = int n \<longleftrightarrow>
      (\<forall>i < n. mark (v i) = sign MarkX) \<or> (\<forall>i < n. mark (v i) = sign MarkO)"
    using abs_sum_eq_card_iff [of "{..<n}" "\<lambda>i. mark (v i)"] mark_bounds assms by auto
  also have "\<dots> \<longleftrightarrow> (\<exists>s. \<forall>i < n. v i = Some s)"
    unfolding mark_eq_sign using ex_symbol [of "\<lambda>s. \<forall>i < n. v i = Some s"] by simp
  finally show ?thesis .
qed

lemma place_owns_new:
  assumes sh: "shaped b" and pm: "place_move b (int r, int c) s = Inr (b', w)"
    and no: "\<not> wins b t" and l: "l \<in> lines (nat (bd_n b))" "owns b' t l"
  shows "t = s \<and> (\<exists>k < nat (bd_n b). fst l k = r \<and> snd l k = c)"
proof -
  have n: "bd_n b' = bd_n b" using pm by (rule place_moveE) simp
  have "\<not> owns b t l" using no l(1) by (auto simp: wins_lines)
  then obtain k where k: "k < nat (bd_n b)" "cell_at b (fst l k) (snd l k) \<noteq> Some t"
    by (auto simp: owns_def)
  moreover have "cell_at b' (fst l k) (snd l k) = Some t"
    using l(2) k(1) n by (simp add: owns_def)
  ultimately show ?thesis
    using place_cell_at [OF sh pm, of "fst l k" "snd l k"] lines_inside [OF l(1) k(1)]
    by (auto split: if_splits)
qed

lemma lines_through:
  assumes "l \<in> lines n" "k < n" "fst l k = r" "snd l k = c"
  shows "l \<in> {(\<lambda>_. r, \<lambda>i. i), (\<lambda>i. i, \<lambda>_. c), (\<lambda>i. i, \<lambda>i. i), (\<lambda>i. i, \<lambda>i. n - 1 - i)}"
  using assms by (auto simp: lines_def)

lemma place_wins:
  assumes sh: "shaped b" and so: "sums_ok b" and no: "\<And>t. \<not> wins b t"
    and pm: "place_move b pos s = Inr (b', w)"
  shows "bd_winner b' = Some t \<longleftrightarrow> wins b' t"
  using pm
proof (rule place_moveE)
  fix r c
  let ?N = "nat (bd_n b)"
  assume pos: "pos = (int r, int c)" and rc: "r < ?N" "c < ?N" and n: "bd_n b' = bd_n b"
    and win: "bd_winner b' = (if \<bar>bd_rows b' ! r\<bar> = bd_n b \<or> \<bar>bd_cols b' ! c\<bar> = bd_n b
        \<or> \<bar>bd_diag b'\<bar> = bd_n b \<or> \<bar>bd_anti b'\<bar> = bd_n b then Some s else None)"
  define through where
    "through = {(\<lambda>_. r, \<lambda>i. i), (\<lambda>i. i, \<lambda>_. c), (\<lambda>i. i, \<lambda>i. i), (\<lambda>i. i, \<lambda>i. ?N - 1 - i)}"
  have sub: "through \<subseteq> lines ?N" using rc by (auto simp: through_def lines_def)
  have so': "sums_ok b'" by (rule place_sums [OF sh so pm])
  have N: "0 < ?N" "int ?N = bd_n b" using rc by auto
  have "bd_winner b' = (if \<exists>l \<in> through. \<exists>t. owns b' t l then Some s else None)"
    using so' rc N full_line_iff [OF N(1)]
    unfolding win through_def owns_def sums_ok_def n by simp
  moreover have new: "t = s \<and> l \<in> through" if "l \<in> lines ?N" "owns b' t l" for l t
    using place_owns_new [OF sh pm [unfolded pos] no that] lines_through [OF that(1)]
    unfolding through_def by blast
  moreover have "(\<exists>l \<in> through. \<exists>t. owns b' t l) \<longleftrightarrow> wins b' s"
    using new sub unfolding wins_lines n by blast
  moreover have "wins b' t \<Longrightarrow> t = s" using new unfolding wins_lines n by blast
  ultimately show ?thesis by auto
qed

lemma init_no_wins: "new_board sz = Inr b \<Longrightarrow> \<not> wins b t"
proof
  assume nb: "new_board sz = Inr b" and "wins b t"
  then obtain l where l: "l \<in> lines (nat (bd_n b))" "owns b t l" by (auto simp: wins_lines)
  have n: "0 < nat (bd_n b)" "bd_n b = sz" using new_board_cases(1,2) [OF nb] by auto
  then show False
    using l lines_inside [OF l(1) n(1)] new_board_cases(6) [OF nb, of "fst l 0" "snd l 0"]
    by (auto simp: owns_def)
qed

lemma reach_winner: "reach b \<Longrightarrow> bd_winner b = Some t \<longleftrightarrow> wins b t"
proof (induction arbitrary: t rule: reach.induct)
  case (init sz b)
  then show ?case using init_no_wins new_board_cases(4) by fastforce
next
  case (place b pos s b' w)
  have "bd_winner b = None" using place.hyps(2) by (rule place_moveE)
  then have "\<not> wins b u" for u using place.IH [of u] by simp
  then show ?case
    using place_wins place.hyps reach_shaped reach_sums by blast
qed

subsection \<open>History, undo, copy\<close>

lemma place_hist:
  assumes sh: "shaped b" and h: "hist_ok b" and pm: "place_move b pos s = Inr (b', w)"
  shows "hist_ok b'"
  using pm
proof (rule place_moveE)
  fix r c
  let ?N = "nat (bd_n b)"
  assume pos: "pos = (int r, int c)" and rc: "r < ?N" "c < ?N" and n: "bd_n b' = bd_n b"
    and none: "cell_at b r c = None" and hist: "bd_history b' = bd_history b @ [pos]"
  have cell: "cell_at b' (nat i) (nat j) =
      (if i = int r \<and> j = int c then Some s else cell_at b (nat i) (nat j))"
    if "0 \<le> i" "i < bd_n b" "0 \<le> j" "j < bd_n b" for i j
    using place_cell_at [OF sh pm [unfolded pos], of "nat i" "nat j"] that by auto
  have "pos \<notin> set (bd_history b)" using h none pos rc by (auto simp: hist_ok_def)
  then show "hist_ok b'"
    using h rc cell cell [of "int r" "int c"] unfolding hist_ok_def n hist pos by auto
qed

lemma reach_hist: "reach b \<Longrightarrow> hist_ok b"
proof (induction rule: reach.induct)
  case (init sz b)
  then show ?case using new_board_cases [OF init] by (auto simp: hist_ok_def)
qed (blast intro: place_hist reach_shaped)

lemma place_undo:
  assumes sh: "shaped b" and pm: "place_move b pos s = Inr (b', w)"
  shows "undo_move b' = Inr (b, pos)"
  using pm
proof (rule place_moveE)
  fix r c
  let ?N = "nat (bd_n b)"
  assume pos: "pos = (int r, int c)" and rc: "r < ?N" "c < ?N"
    and b': "bd_winner b = None" "bd_n b' = bd_n b" "bd_history b' = bd_history b @ [pos]"
    "bd_grid b' = (bd_grid b)[r := (bd_grid b ! r)[c := Some s]]"
    "bd_rows b' = (bd_rows b)[r := bd_rows b ! r + sign s]"
    "bd_cols b' = (bd_cols b)[c := bd_cols b ! c + sign s]"
    "bd_diag b' = (if r = c then bd_diag b + sign s else bd_diag b)"
    "bd_anti b' = (if int r + int c = bd_n b - 1 then bd_anti b + sign s else bd_anti b)"
    and none: "cell_at b r c = None"
  have len: "length (bd_grid b) = ?N" "length (bd_grid b ! r) = ?N"
      "length (bd_rows b) = ?N" "length (bd_cols b) = ?N"
    using sh rc by (auto simp: shaped_def)
  have keep: "(bd_grid b ! r)[c := None] = bd_grid b ! r"
    using none by (metis list_update_id)
  have "cell (b'\<lparr>bd_history := butlast (bd_history b')\<rparr>) (int r, int c) = Inr (Some s)"
    using rc len b' by (simp add: cell_def)
  then have "undo_move b' = Inr ((fst (bump (set_cell (b'\<lparr>bd_history := bd_history b\<rparr>)
      (int r) (int c) None) (int r) (int c) (- sign s)))\<lparr>bd_winner := None\<rparr>, pos)"
    using b' pos by (simp add: undo_move_def Let_def split: prod.split)
  also have "(fst (bump (set_cell (b'\<lparr>bd_history := bd_history b\<rparr>)
      (int r) (int c) None) (int r) (int c) (- sign s)))\<lparr>bd_winner := None\<rparr> = b"
    by (rule board.equality)
      (use rc len b' in \<open>simp_all add: bump_def set_cell_def Let_def keep\<close>)
  finally show ?thesis .
qed

lemma reach_undo:
  assumes "reach b"
  shows "(bd_history b = [] \<and> undo_move b = Inl GameError) \<or>
    (\<exists>b0 pos s w. reach b0 \<and> place_move b0 pos s = Inr (b, w) \<and> undo_move b = Inr (b0, pos))"
  using assms
proof (cases rule: reach.cases)
  case (init sz)
  then show ?thesis using new_board_cases(3) by (auto simp: undo_move_def)
next
  case (place b0 pos s w)
  then show ?thesis using place_undo reach_shaped by blast
qed

lemma cell_inside:
  "shaped b \<Longrightarrow> r < nat (bd_n b) \<Longrightarrow> c < nat (bd_n b) \<Longrightarrow> cell b (int r, int c) = Inr (cell_at b r c)"
  by (simp add: cell_def shaped_def)

lemma replay_history_snoc:
  "replay_history src c (ps @ [p]) =
     (case replay_history src c ps of Inl e \<Rightarrow> Inl e | Inr c' \<Rightarrow> replay_history src c' [p])"
  by (induction ps arbitrary: c) (auto split: sum.split option.split prod.split)

lemma reach_replay:
  assumes "reach b" and "\<And>p. p \<in> set (bd_history b) \<Longrightarrow> cell src p = cell b p"
  shows "\<exists>c. new_board (bd_n b) = Inr c \<and> replay_history src c (bd_history b) = Inr b"
  using assms
proof (induction rule: reach.induct)
  case (init sz b)
  then show ?case using new_board_cases(2,3) by auto
next
  case (place b pos s b' w)
  have sh: "shaped b" "shaped b'" using place.hyps reach_shaped place_shaped by blast+
  from place.hyps(2) show ?case
  proof (rule place_moveE)
    fix r c
    assume pos: "pos = (int r, int c)" and rc: "r < nat (bd_n b)" "c < nat (bd_n b)"
      and n: "bd_n b' = bd_n b" and none: "cell_at b r c = None"
      and h: "bd_history b' = bd_history b @ [pos]"
    have "cell b' p = cell b p" if p: "p \<in> set (bd_history b)" for p
    proof -
      obtain i j where ij: "p = (i, j)" by (cases p)
      have "hist_ok b" by (rule reach_hist [OF place.hyps(1)])
      then have b: "0 \<le> i" "i < bd_n b" "0 \<le> j" "j < bd_n b" "cell_at b (nat i) (nat j) \<noteq> None"
        using p ij by (auto simp: hist_ok_def)
      then have "\<not> (nat i = r \<and> nat j = c)" using none by auto
      moreover have "nat i < nat (bd_n b)" "nat j < nat (bd_n b)" using b by auto
      ultimately show ?thesis
        using b cell_inside [OF sh(1), of "nat i" "nat j"] cell_inside [OF sh(2), of "nat i" "nat j"]
          place_cell_at [OF sh(1) place.hyps(2) [unfolded pos], of "nat i" "nat j"] n ij by auto
    qed
    then obtain c0 where c0: "new_board (bd_n b) = Inr c0" "replay_history src c0 (bd_history b) = Inr b"
      using place.IH place.prems h by auto
    have "cell b' pos = Inr (Some s)"
      using cell_inside [OF sh(2), of r c] place_cell_at [OF sh(1) place.hyps(2) [unfolded pos], of r c]
        rc n pos by simp
    then have "cell src pos = Inr (Some s)" using place.prems h by simp
    then show ?thesis
      using c0 n h place.hyps(2) by (simp add: replay_history_snoc)
  qed
qed

lemma reach_copy: "reach b \<Longrightarrow> copy_board b = Inr b"
  using reach_replay [of b b] by (auto simp: copy_board_def)

interpretation board_undo: undoable
  "\<lambda>b (pos, s). map_sum id fst (place_move b pos s)" "\<lambda>b. map_sum id fst (undo_move b)" reach
proof
  fix b b' and m :: "position \<times> PlayerSymbol"
  assume r: "reach b" and "(case m of (pos, s) \<Rightarrow> map_sum id fst (place_move b pos s)) = Inr b'"
  then obtain pos s w where pm: "place_move b pos s = Inr (b', w)"
    by (cases m; cases "place_move b (fst m) (snd m)") auto
  show "reach b'" by (rule reach.place [OF r pm])
  show "map_sum id fst (undo_move b') = Inr b"
    using place_undo [OF reach_shaped [OF r] pm] by simp
qed

section \<open>The minimax player\<close>

subsection \<open>Free cells\<close>

definition all_cells :: "board \<Rightarrow> position set" where
  "all_cells b = {0..<bd_n b} \<times> {0..<bd_n b}"

lemma set_available:
  "set (get_available_moves b) = {(r, c) \<in> all_cells b. cell_at b (nat r) (nat c) = None}"
  by (auto simp: get_available_moves_def all_cells_def)

lemma reach_available:
  assumes "reach b"
  shows "set (get_available_moves b) = all_cells b - set (bd_history b)"
    and "set (bd_history b) \<subseteq> all_cells b"
  using reach_hist [OF assms] by (auto simp: set_available hist_ok_def all_cells_def)

lemma card_available:
  assumes "reach b"
  shows "int (card (set (get_available_moves b))) = empty_cells b"
proof -
  have n: "0 \<le> bd_n b" using reach_shaped [OF assms] by (simp add: shaped_def)
  have "card (all_cells b) = nat (bd_n b) * nat (bd_n b)" by (simp add: all_cells_def card_cartesian_product)
  moreover have "card (set (bd_history b)) = length (bd_history b)"
    using reach_hist [OF assms] by (simp add: hist_ok_def distinct_card)
  moreover have "card (set (bd_history b)) \<le> card (all_cells b)"
    using reach_available(2) [OF assms] by (intro card_mono) (auto simp: all_cells_def)
  ultimately show ?thesis
    using reach_available [OF assms] n
    by (simp add: card_Diff_subset empty_cells_def of_nat_diff)
qed

lemma available_nonempty:
  "reach b \<Longrightarrow> empty_cells b \<noteq> 0 \<Longrightarrow> get_available_moves b \<noteq> []"
  using card_available by fastforce

lemma empty_cells_nonneg: "reach b \<Longrightarrow> 0 \<le> empty_cells b"
  using card_available [of b] by linarith

lemma is_full_iff: "is_full b \<longleftrightarrow> empty_cells b = 0"
  by (auto simp: is_full_def empty_cells_def)

lemma available_valid:
  "bd_winner b = None \<Longrightarrow> m \<in> set (get_available_moves b) \<longleftrightarrow> is_valid_move b m"
  by (auto simp: set_available is_valid_move_def all_cells_def)

definition placed :: "board \<Rightarrow> position \<Rightarrow> PlayerSymbol \<Rightarrow> board" where
  "placed b m s = fst (projr (place_move b m s))"

lemma place_valid:
  "is_valid_move b m \<Longrightarrow> place_move b m s = Inr (placed b m s, bd_winner (placed b m s))"
proof (cases "place_move b m s")
  case (Inl e)
  assume "is_valid_move b m"
  with Inl show ?thesis
    by (cases m) (auto simp: place_move_def is_valid_move_def Let_def split: prod.splits)
next
  case (Inr p)
  then obtain b' w where bw: "place_move b m s = Inr (b', w)" by (cases p) simp
  then have "w = bd_winner b'" by (rule place_moveE)
  with bw show ?thesis by (simp add: placed_def)
qed

lemma placed_props:
  assumes "reach b" "is_valid_move b m"
  shows "reach (placed b m s)" "bd_n (placed b m s) = bd_n b"
    "empty_cells (placed b m s) = empty_cells b - 1"
    "undo_move (placed b m s) = Inr (b, m)"
proof -
  note pm = place_valid [OF assms(2), of s]
  show "reach (placed b m s)" by (rule reach.place [OF assms(1) pm])
  show "undo_move (placed b m s) = Inr (b, m)" by (rule place_undo [OF reach_shaped [OF assms(1)] pm])
  show "bd_n (placed b m s) = bd_n b" "empty_cells (placed b m s) = empty_cells b - 1"
    using pm by (rule place_moveE, simp add: empty_cells_def)+
qed

subsection \<open>The reference: plain minimax\<close>

text \<open>
  Minimax without a memo table and without make/unmake; \<open>k\<close> bounds the number of plies.
  \<open>game_value\<close> looks as deep as there are free cells.
\<close>

fun minimax :: "nat \<Rightarrow> PlayerSymbol \<Rightarrow> int option \<Rightarrow> board \<Rightarrow> PlayerSymbol \<Rightarrow> int \<Rightarrow> int" where
  "minimax 0 me max_depth b t d = 0"
| "minimax (Suc k) me max_depth b t d =
     (case bd_winner b of
        Some w \<Rightarrow> leaf_score me b w
      | None \<Rightarrow>
          if empty_cells b = 0 \<or> depth_reached max_depth d then 0
          else (if t = me then Max else Min)
                 ((\<lambda>m. minimax k me max_depth (placed b m t) (opponent t) (d + 1))
                    ` set (get_available_moves b)))"

definition game_value :: "PlayerSymbol \<Rightarrow> int option \<Rightarrow> board \<Rightarrow> PlayerSymbol \<Rightarrow> int \<Rightarrow> int" where
  "game_value me max_depth b t d = minimax (Suc (nat (empty_cells b))) me max_depth b t d"

lemma minimax_deep_enough:
  assumes "reach b" "nat (empty_cells b) < k"
  shows "minimax k me max_depth b t d = game_value me max_depth b t d"
  using assms
proof (induction k arbitrary: b t d rule: less_induct)
  case (less k)
  from less.prems obtain j where j: "k = Suc j" by (cases k) auto
  have "minimax j me max_depth (placed b m t) (opponent t) (d + 1) =
      minimax (nat (empty_cells b)) me max_depth (placed b m t) (opponent t) (d + 1)"
    if win: "bd_winner b = None" and m: "m \<in> set (get_available_moves b)" for m
  proof -
    have v: "is_valid_move b m" using m by (simp add: available_valid win)
    note pp = placed_props [OF less.prems(1) v, of t]
    have "0 \<le> empty_cells (placed b m t)" by (rule empty_cells_nonneg [OF pp(1)])
    then have lt: "nat (empty_cells (placed b m t)) < nat (empty_cells b)" using pp(3) by simp
    then have "nat (empty_cells (placed b m t)) < j" using less.prems(2) j by linarith
    with lt show ?thesis
      using less.IH [of j "placed b m t"] less.IH [of "nat (empty_cells b)" "placed b m t"]
        pp(1) less.prems(2) j by simp
  qed
  then have "bd_winner b = None \<Longrightarrow>
      (\<lambda>m. minimax j me max_depth (placed b m t) (opponent t) (d + 1)) ` set (get_available_moves b) =
      (\<lambda>m. minimax (nat (empty_cells b)) me max_depth (placed b m t) (opponent t) (d + 1))
        ` set (get_available_moves b)"
    by (intro image_cong) auto
  then show ?case by (cases "t = me") (simp_all add: j game_value_def split: option.split)
qed

text \<open>The value depends on the grid only, which is what the memo key holds.\<close>

definition same_grid :: "board \<Rightarrow> board \<Rightarrow> bool" where
  "same_grid a b \<longleftrightarrow> bd_n a = bd_n b \<and> bd_grid a = bd_grid b"

lemma same_grid_winner:
  assumes "reach a" "reach b" "same_grid a b"
  shows "bd_winner a = bd_winner b"
proof -
  have "wins a t \<longleftrightarrow> wins b t" for t using assms(3) by (simp add: wins_def same_grid_def)
  then have "bd_winner a = Some t \<longleftrightarrow> bd_winner b = Some t" for t
    using reach_winner assms by simp
  then show ?thesis by (metis option.exhaust)
qed

lemma same_grid_available: "same_grid a b \<Longrightarrow> get_available_moves a = get_available_moves b"
  by (simp add: same_grid_def get_available_moves_def)

lemma same_grid_empty: "reach a \<Longrightarrow> reach b \<Longrightarrow> same_grid a b \<Longrightarrow> empty_cells a = empty_cells b"
  using card_available [of a] card_available [of b] by (simp add: same_grid_available)

lemma same_grid_placed:
  assumes "reach a" "reach b" "same_grid a b" "is_valid_move a m"
  shows "same_grid (placed a m s) (placed b m s)"
proof -
  have v: "is_valid_move b m"
    using assms(3,4) same_grid_winner [OF assms(1-3)] by (simp add: is_valid_move_def same_grid_def)
  have "bd_grid (placed x m s) = (bd_grid x)[nat (fst m) := (bd_grid x ! nat (fst m))[nat (snd m) := Some s]]"
    if "is_valid_move x m" for x
    using place_valid [OF that, of s] by (rule place_moveE) simp
  then show ?thesis
    using assms v placed_props(2) by (simp add: same_grid_def)
qed

lemma minimax_same_grid:
  assumes "reach a" "reach b" "same_grid a b"
  shows "minimax k me max_depth a t d = minimax k me max_depth b t d"
  using assms
proof (induction k arbitrary: a b t d)
  case (Suc k)
  have w: "bd_winner a = bd_winner b" and e: "empty_cells a = empty_cells b"
    and av: "get_available_moves a = get_available_moves b"
    using Suc.prems same_grid_winner same_grid_empty same_grid_available by blast+
  have "minimax k me max_depth (placed a m t) (opponent t) (d + 1) =
      minimax k me max_depth (placed b m t) (opponent t) (d + 1)"
    if "bd_winner b = None" "m \<in> set (get_available_moves b)" for m
  proof (rule Suc.IH)
    have va: "is_valid_move a m" and vb: "is_valid_move b m"
      using that w av available_valid by metis+
    show "reach (placed a m t)" "reach (placed b m t)"
      using placed_props(1) Suc.prems va vb by blast+
    show "same_grid (placed a m t) (placed b m t)"
      using same_grid_placed Suc.prems va by blast
  qed
  then have "bd_winner b = None \<Longrightarrow>
      (\<lambda>m. minimax k me max_depth (placed a m t) (opponent t) (d + 1)) ` set (get_available_moves b) =
      (\<lambda>m. minimax k me max_depth (placed b m t) (opponent t) (d + 1)) ` set (get_available_moves b)"
    by (intro image_cong) auto
  then show ?case by (cases "t = me") (simp_all add: w e av leaf_score_def split: option.split)
qed simp

lemma minimax_no_limit: "minimax k me None b t d = minimax k me None b t d'"
proof (induction k arbitrary: b t d d')
  case (Suc k)
  have "minimax k me None (placed b m t) (opponent t) (d + 1) =
      minimax k me None (placed b m t) (opponent t) (d' + 1)" for m
    by (rule Suc.IH)
  then show ?case by (cases "t = me") (simp_all add: depth_reached_def split: option.split)
qed simp

subsection \<open>Search with make, unmake and a memo table\<close>

definition memo_sound :: "PlayerSymbol \<Rightarrow> int option \<Rightarrow> memo \<Rightarrow> bool" where
  "memo_sound me max_depth memo \<longleftrightarrow>
     (\<forall>b t d v. reach b \<longrightarrow> memo (memo_key_of b t max_depth d) = Some v \<longrightarrow>
        v = game_value me max_depth b t d)"

lemma memo_sound_empty [simp]: "memo_sound me max_depth (\<lambda>_. None)"
  by (simp add: memo_sound_def)

lemma board_key_same_grid:
  assumes "shaped a" "shaped b" "board_key a = board_key b"
  shows "same_grid a b"
proof -
  have len: "length (board_key x) = nat (bd_n x) * nat (bd_n x)" if "shaped x" for x
  proof -
    have "map length (bd_grid x) = replicate (nat (bd_n x)) (nat (bd_n x))"
      using that by (intro nth_equalityI) (auto simp: shaped_def)
    then show ?thesis by (simp add: board_key_def length_concat sum_list_replicate)
  qed
  have "nat (bd_n a) * nat (bd_n a) = nat (bd_n b) * nat (bd_n b)" using len assms by metis
  then have "(nat (bd_n a))\<^sup>2 = (nat (bd_n b))\<^sup>2" by (simp only: power2_eq_square)
  then have "nat (bd_n a) = nat (bd_n b)" by (rule power_eq_imp_eq_base) simp_all
  then have n: "bd_n a = bd_n b" using assms by (auto simp: shaped_def)
  have "bd_grid a = bd_grid b"
  proof (rule concat_injective)
    show "concat (bd_grid a) = concat (bd_grid b)" using assms(3) by (simp add: board_key_def)
    show "length (bd_grid a) = length (bd_grid b)" using assms n by (simp add: shaped_def)
    show "\<forall>(x, y) \<in> set (zip (bd_grid a) (bd_grid b)). length x = length y"
      using assms n by (auto simp: shaped_def set_zip)
  qed
  with n show ?thesis by (simp add: same_grid_def)
qed

lemma memo_sound_upd:
  assumes "memo_sound me max_depth memo" "reach b"
  shows "memo_sound me max_depth
    (memo(memo_key_of b t max_depth d \<mapsto> game_value me max_depth b t d))"
proof -
  have "game_value me max_depth b t d = game_value me max_depth b' t' d'"
    if r: "reach b'" and k: "memo_key_of b' t' max_depth d' = memo_key_of b t max_depth d" for b' t' d'
  proof -
    have "same_grid b' b" using k r assms(2) reach_shaped
      by (intro board_key_same_grid) (auto simp: memo_key_of_def)
    moreover have t: "t' = t" using k by (simp add: memo_key_of_def)
    ultimately have same: "game_value me max_depth b' t' d' = game_value me max_depth b t d'"
      using minimax_same_grid [of b' b] same_grid_empty [of b' b] r assms(2)
      by (simp add: game_value_def del: minimax.simps)
    show ?thesis
    proof (cases max_depth)
      case None
      then show ?thesis using same minimax_no_limit [of _ me b t d d']
        by (simp add: game_value_def del: minimax.simps)
    next
      case (Some m)
      then have "d' = d" using k by (simp add: memo_key_of_def)
      with same show ?thesis by simp
    qed
  qed
  with assms(1) show ?thesis by (auto simp: memo_sound_def)
qed

lemma game_value_unfold:
  assumes "reach b" "bd_winner b = None" "empty_cells b \<noteq> 0" "\<not> depth_reached max_depth d"
  shows "game_value me max_depth b t d = (if t = me then Max else Min)
    ((\<lambda>m. game_value me max_depth (placed b m t) (opponent t) (d + 1)) ` set (get_available_moves b))"
proof -
  have "minimax (nat (empty_cells b)) me max_depth (placed b m t) (opponent t) (d + 1) =
      game_value me max_depth (placed b m t) (opponent t) (d + 1)"
    if "m \<in> set (get_available_moves b)" for m
  proof (rule minimax_deep_enough)
    have v: "is_valid_move b m" using that assms(2) available_valid by blast
    show "reach (placed b m t)" by (rule placed_props(1) [OF assms(1) v])
    then have "0 \<le> empty_cells (placed b m t)" by (rule empty_cells_nonneg)
    then show "nat (empty_cells (placed b m t)) < nat (empty_cells b)"
      using placed_props(3) [OF assms(1) v, of t] by simp
  qed
  then have "(\<lambda>m. minimax (nat (empty_cells b)) me max_depth (placed b m t) (opponent t) (d + 1))
        ` set (get_available_moves b) =
      (\<lambda>m. game_value me max_depth (placed b m t) (opponent t) (d + 1)) ` set (get_available_moves b)"
    by (intro image_cong) auto
  then show ?thesis
    using assms by (subst game_value_def) simp
qed

lemma score_moves_correct:
  assumes score: "\<And>memo b t d. reach b \<Longrightarrow> memo_sound me max_depth memo \<Longrightarrow>
      nat (empty_cells b) < fuel \<Longrightarrow>
      \<exists>memo'. score fuel me max_depth memo b t d = Inr (memo', b, game_value me max_depth b t d)
        \<and> memo_sound me max_depth memo'"
    and b: "reach b" "bd_winner b = None" "nat (empty_cells b) \<le> fuel"
    and ms: "set ms \<subseteq> set (get_available_moves b)" and "memo_sound me max_depth memo"
  shows "\<exists>memo'. score_moves fuel me max_depth memo b t d ms =
      Inr (memo', b, map (\<lambda>m. game_value me max_depth (placed b m t) (opponent t) (d + 1)) ms)
    \<and> memo_sound me max_depth memo'"
  using ms assms(6)
proof (induction ms arbitrary: memo)
  case (Cons m ms)
  have v: "is_valid_move b m" using Cons.prems(1) b(2) available_valid [of b m] by simp
  note pp = placed_props [OF b(1) v, of t]
  have "0 \<le> empty_cells (placed b m t)" by (rule empty_cells_nonneg [OF pp(1)])
  then have "nat (empty_cells (placed b m t)) < fuel" using pp(3) b(3) by linarith
  then obtain memo1 where m1: "score fuel me max_depth memo (placed b m t) (opponent t) (d + 1) =
        Inr (memo1, placed b m t, game_value me max_depth (placed b m t) (opponent t) (d + 1))"
      "memo_sound me max_depth memo1"
    using score [OF pp(1) Cons.prems(2)] by blast
  obtain memo2 where "score_moves fuel me max_depth memo1 b t d ms =
        Inr (memo2, b, map (\<lambda>m. game_value me max_depth (placed b m t) (opponent t) (d + 1)) ms)"
      "memo_sound me max_depth memo2"
    using Cons.IH [of memo1] Cons.prems(1) m1(2) by auto
  then show ?case using m1 pp(4) place_valid [OF v, of t] by simp
qed simp

lemma score_correct:
  assumes "reach b" "memo_sound me max_depth memo" "nat (empty_cells b) < fuel"
  shows "\<exists>memo'. score fuel me max_depth memo b t d = Inr (memo', b, game_value me max_depth b t d)
    \<and> memo_sound me max_depth memo'"
  using assms
proof (induction fuel arbitrary: memo b t d)
  case (Suc fuel)
  show ?case
  proof (cases "bd_winner b \<noteq> None \<or> empty_cells b = 0 \<or> depth_reached max_depth d")
    case True
    then show ?thesis
      using Suc.prems by (auto simp: check_winner_def game_value_def split: option.split)
  next
    case False
    then have nd: "bd_winner b = None" "empty_cells b \<noteq> 0" "\<not> depth_reached max_depth d" by auto
    show ?thesis
    proof (cases "memo (memo_key_of b t max_depth d)")
      case (Some v)
      then have "v = game_value me max_depth b t d"
        using Suc.prems by (auto simp: memo_sound_def)
      with Some nd Suc.prems show ?thesis by (simp add: check_winner_def)
    next
      case None
      let ?vs = "map (\<lambda>m. game_value me max_depth (placed b m t) (opponent t) (d + 1)) (get_available_moves b)"
      obtain memo' where sm: "score_moves fuel me max_depth memo b t d (get_available_moves b) = Inr (memo', b, ?vs)"
          and snd: "memo_sound me max_depth memo'"
        using score_moves_correct [OF Suc.IH Suc.prems(1) nd(1) _ subset_refl Suc.prems(2), of t d] Suc.prems(3)
        by auto
      have ne: "?vs \<noteq> []" using available_nonempty [OF Suc.prems(1) nd(2)] by simp
      have "(if t = me then py_max ?vs else py_min ?vs) = Inr (game_value me max_depth b t d)"
        using ne game_value_unfold [OF Suc.prems(1) nd, of me t] by simp
      then show ?thesis
        using nd None sm memo_sound_upd [OF snd Suc.prems(1), of t d] by (simp add: check_winner_def)
    qed
  qed
qed simp

text \<open>
  \<open>first_best f ms m\<close>: \<open>m\<close> is the first move of \<open>ms\<close> with the greatest value.
\<close>

definition first_best :: "(position \<Rightarrow> int) \<Rightarrow> position list \<Rightarrow> position \<Rightarrow> bool" where
  "first_best f ms m \<longleftrightarrow> (\<exists>xs ys. ms = xs @ m # ys \<and> (\<forall>x \<in> set xs. f x < f m) \<and> (\<forall>y \<in> set ys. f y \<le> f m))"

definition best_ok :: "(position \<Rightarrow> int) \<Rightarrow> position list \<Rightarrow> (int \<times> position) option \<Rightarrow> bool" where
  "best_ok f ms best \<longleftrightarrow>
     (case best of None \<Rightarrow> ms = [] | Some (v, m) \<Rightarrow> v = f m \<and> first_best f ms m)"

lemma bot_loop_correct:
  assumes b: "reach b" "bd_winner b = None" "nat (empty_cells b) \<le> fuel"
    and "set ms \<subseteq> set (get_available_moves b)" "memo_sound me max_depth memo"
    and f: "f = (\<lambda>m. game_value me max_depth (placed b m me) (opponent me) 1)"
    and "best_ok f seen best"
  shows "\<exists>memo' best'. bot_loop fuel me max_depth memo b best ms = Inr (memo', b, best')
    \<and> memo_sound me max_depth memo'
    \<and> best_ok f (seen @ ms) best'"
  using assms(4,5,7)
proof (induction ms arbitrary: memo best seen)
  case Nil
  then show ?case by simp
next
  case (Cons m ms)
  have v: "is_valid_move b m" using Cons.prems(1) b(2) available_valid [of b m] by simp
  note pp = placed_props [OF b(1) v, of me]
  have "0 \<le> empty_cells (placed b m me)" by (rule empty_cells_nonneg [OF pp(1)])
  then have "nat (empty_cells (placed b m me)) < fuel" using pp(3) b(3) by linarith
  then obtain memo1 where m1: "score fuel me max_depth memo (placed b m me) (opponent me) 1 =
        Inr (memo1, placed b m me, f m)" and s1: "memo_sound me max_depth memo1"
    using score_correct [OF pp(1) Cons.prems(2)] f by blast
  let ?best = "case best of None \<Rightarrow> Some (f m, m)
      | Some (v0, m0) \<Rightarrow> if f m > v0 then Some (f m, m) else Some (v0, m0)"
  have nb: "best_ok f (seen @ [m]) ?best"
  proof (cases best)
    case None
    have "first_best f [m] m" unfolding first_best_def by (intro exI [of _ "[]"]) simp
    then show ?thesis using None Cons.prems(3) by (simp add: best_ok_def)
  next
    case (Some p)
    then obtain v0 m0 where p: "best = Some (v0, m0)" by (cases p) auto
    then have v0: "v0 = f m0" and fb: "first_best f seen m0" using Cons.prems(3) by (auto simp: best_ok_def)
    from fb obtain xs ys where d: "seen = xs @ m0 # ys"
        and le: "\<forall>x \<in> set xs. f x < f m0" "\<forall>y \<in> set ys. f y \<le> f m0" by (auto simp: first_best_def)
    have "first_best f (seen @ [m]) (if f m > f m0 then m else m0)"
    proof (cases "f m > f m0")
      case True
      then have "\<forall>x \<in> set seen. f x < f m" using d le by fastforce
      then show ?thesis unfolding first_best_def using True by (intro exI [of _ seen] exI [of _ "[]"]) simp
    next
      case False
      then show ?thesis unfolding first_best_def using d le
        by (intro exI [of _ xs] exI [of _ "ys @ [m]"]) auto
    qed
    then show ?thesis using p v0 by (simp add: best_ok_def split: if_splits)
  qed
  obtain memo' best' where "bot_loop fuel me max_depth memo1 b ?best ms = Inr (memo', b, best')"
      "memo_sound me max_depth memo'"
      "best_ok f (seen @ m # ms) best'"
    using Cons.IH [OF _ s1 nb] Cons.prems(1) by auto
  then show ?case using m1 pp(4) place_valid [OF v, of me] by simp
qed

lemma bot_get_move_correct:
  assumes "reach b" "bd_winner b = None" "empty_cells b \<noteq> 0" "nat (empty_cells b) \<le> fuel"
    and "memo_sound me max_depth memo"
  shows "\<exists>memo' m. bot_get_move fuel me max_depth memo b = Inr (memo', b, m)
    \<and> memo_sound me max_depth memo'
    \<and> first_best (\<lambda>m. game_value me max_depth (placed b m me) (opponent me) 1) (get_available_moves b) m"
proof -
  let ?f = "\<lambda>m. game_value me max_depth (placed b m me) (opponent me) 1"
  obtain memo' best where l: "bot_loop fuel me max_depth memo b None (get_available_moves b) = Inr (memo', b, best)"
      and s: "memo_sound me max_depth memo'"
      and c: "best_ok ?f (get_available_moves b) best"
    using bot_loop_correct [OF assms(1,2,4) subset_refl assms(5) refl, where best = None and seen = "[]"] by (auto simp: best_ok_def [of _ _ None])
  then obtain v m where "best = Some (v, m)"
    using available_nonempty [OF assms(1,3)] by (auto simp: best_ok_def split: option.splits)
  with l s c show ?thesis by (auto simp: bot_get_move_def best_ok_def)
qed

section \<open>The game\<close>

definition symbol_of_turn :: "game \<Rightarrow> nat \<Rightarrow> PlayerSymbol" where
  "symbol_of_turn g k = (if even k then pl_symbol (fst (gm_players g)) else pl_symbol (snd (gm_players g)))"

text \<open>
  The invariant of the facade: the status agrees with the board, the player to move is
  given by the number of moves made, the players alternate, and the winner is the player
  whose symbol owns a line.
\<close>

definition game_inv :: "game \<Rightarrow> bool" where
  "game_inv g \<longleftrightarrow> reach (gm_board g) \<and> bd_n (gm_board g) = gm_size g
     \<and> pl_symbol (fst (gm_players g)) \<noteq> pl_symbol (snd (gm_players g))
     \<and> (let b = gm_board g; k = length (bd_history b) in
          (\<forall>i < k. cell b (bd_history b ! i) = Inr (Some (symbol_of_turn g i)))
          \<and> gm_turn g = (if gm_status g = IN_PROGRESS then k mod 2 else (k - 1) mod 2)
          \<and> (gm_status g = WIN \<longleftrightarrow> bd_winner b \<noteq> None)
          \<and> (gm_status g = DRAW \<longleftrightarrow> bd_winner b = None \<and> empty_cells b = 0)
          \<and> (gm_status g = WIN \<longrightarrow> bd_winner b = Some (symbol_of_turn g (gm_turn g)))
          \<and> gm_winner g = (if gm_status g = WIN then Some (gm_turn g) else None))"

lemma new_game_inv: "new_game p1 p2 sz = Inr g \<Longrightarrow> game_inv g"
proof -
  assume "new_game p1 p2 sz = Inr g"
  then obtain b where b: "new_board sz = Inr b" "pl_symbol p1 \<noteq> pl_symbol p2"
      "g = \<lparr>gm_players = (p1, p2), gm_size = sz, gm_board = b, gm_turn = 0,
            gm_status = IN_PROGRESS, gm_winner = None\<rparr>"
    by (auto simp: new_game_def split: if_splits sum.splits)
  then show ?thesis
    using new_board_cases [OF b(1)] reach.init [OF b(1)]
    by (auto simp: game_inv_def Let_def empty_cells_def)
qed

lemma symbol_of_turn_current:
  "game_inv g \<Longrightarrow> gm_status g = IN_PROGRESS \<Longrightarrow>
     pl_symbol (current_player g) = symbol_of_turn g (length (bd_history (gm_board g)))"
  by (auto simp: game_inv_def current_player_def symbol_of_turn_def Let_def even_iff_mod_2_eq_zero)

lemma place_cell_history:
  assumes "reach b" "place_move b pos s = Inr (b', w)"
  shows "cell b' pos = Inr (Some s)" and "p \<in> set (bd_history b) \<Longrightarrow> cell b' p = cell b p"
proof -
  have sh: "shaped b" "shaped b'" using assms reach_shaped reach.place by blast+
  have *: "cell b' pos = Inr (Some s) \<and> (p \<in> set (bd_history b) \<longrightarrow> cell b' p = cell b p)"
    using assms(2)
  proof (rule place_moveE)
    fix r c
    assume pos: "pos = (int r, int c)" and rc: "r < nat (bd_n b)" "c < nat (bd_n b)"
      and n: "bd_n b' = bd_n b" and none: "cell_at b r c = None"
    have at: "cell b' (int i, int j) = Inr (if i = r \<and> j = c then Some s else cell_at b i j)"
      if "i < nat (bd_n b)" "j < nat (bd_n b)" for i j
      using cell_inside [OF sh(2), of i j] place_cell_at [OF sh(1) assms(2) [unfolded pos]] that n by simp
    have "cell b' p = cell b p" if p: "p \<in> set (bd_history b)"
    proof -
      obtain i j where ij: "p = (i, j)" by (cases p)
      with p reach_hist [OF assms(1)]
      have "0 \<le> i" "i < bd_n b" "0 \<le> j" "j < bd_n b" "cell_at b (nat i) (nat j) \<noteq> None"
        by (auto simp: hist_ok_def)
      then show ?thesis
        using at [of "nat i" "nat j"] cell_inside [OF sh(1), of "nat i" "nat j"] none ij by auto
    qed
    then show ?thesis using at [of r c] rc pos by simp
  qed
  then show "cell b' pos = Inr (Some s)" "p \<in> set (bd_history b) \<Longrightarrow> cell b' p = cell b p" by blast+
qed

lemma make_move_inv:
  assumes g: "game_inv g"
  shows "game_inv (fst (make_move g s pos))"
proof (cases "gm_status g = IN_PROGRESS \<and> s = pl_symbol (current_player g)
    \<and> (\<exists>b w. place_move (gm_board g) pos s = Inr (b, w))")
  case False
  then have "fst (make_move g s pos) = g"
    by (cases "place_move (gm_board g) pos s") (auto simp: make_move_def)
  with g show ?thesis by simp
next
  case True
  then obtain b w where st: "gm_status g = IN_PROGRESS" "s = pl_symbol (current_player g)"
    and pm: "place_move (gm_board g) pos s = Inr (b, w)" by blast
  let ?k = "length (bd_history (gm_board g))"
  have r: "reach (gm_board g)" using g by (simp add: game_inv_def)
  then have r': "reach b" using pm by (rule reach.place)
  have s: "s = symbol_of_turn g ?k" using symbol_of_turn_current [OF g st(1)] st(2) by simp
  have tn: "gm_turn g = ?k mod 2" using g st by (simp add: game_inv_def Let_def)
  from pm have b: "bd_n b = bd_n (gm_board g)" "bd_history b = bd_history (gm_board g) @ [pos]" "w = bd_winner b"
    and win: "bd_winner b \<noteq> None \<Longrightarrow> bd_winner b = Some s"
    by (rule place_moveE, simp split: if_splits)+
  have "cell b (bd_history b ! i) = Inr (Some (symbol_of_turn g i))" if "i < Suc ?k" for i
    using that g s b place_cell_history [OF r pm]
    by (cases "i = ?k") (auto simp: game_inv_def Let_def nth_append)
  moreover have "symbol_of_turn g (?k mod 2) = symbol_of_turn g ?k"
    by (simp add: symbol_of_turn_def even_iff_mod_2_eq_zero)
  moreover have "1 - ?k mod 2 = Suc ?k mod 2" by presburger
  ultimately show ?thesis
    using g st pm b win r' tn s
    by (auto simp: game_inv_def Let_def make_move_def is_full_iff symbol_of_turn_def)
qed

lemma undo_inv:
  assumes g: "game_inv g"
  shows "game_inv (fst (undo g))"
proof -
  let ?b = "gm_board g"
  have r: "reach ?b" using g by (simp add: game_inv_def)
  from reach_undo [OF r] show ?thesis
  proof
    assume "bd_history ?b = [] \<and> undo_move ?b = Inl GameError"
    then show ?thesis using g by (simp add: undo_def)
  next
    assume "\<exists>b0 pos s w. reach b0 \<and> place_move b0 pos s = Inr (?b, w) \<and> undo_move ?b = Inr (b0, pos)"
    then obtain b0 pos s w where b0: "reach b0" "place_move b0 pos s = Inr (?b, w)"
      "undo_move ?b = Inr (b0, pos)" by blast
    from b0(2) have b: "bd_n ?b = bd_n b0" "bd_history ?b = bd_history b0 @ [pos]" "bd_winner b0 = None"
      by (rule place_moveE, simp)+
    have "cell b0 (bd_history b0 ! i) = Inr (Some (symbol_of_turn g i))" if "i < length (bd_history b0)" for i
    proof -
      have "cell ?b (bd_history ?b ! i) = Inr (Some (symbol_of_turn g i))"
        using g b that by (simp add: game_inv_def Let_def)
      then show ?thesis using that b place_cell_history(2) [OF b0(1,2)] by (simp add: nth_append)
    qed
    moreover have "empty_cells b0 \<noteq> 0"
      using empty_cells_nonneg [OF r] b by (simp add: empty_cells_def)
    moreover have "1 - Suc k mod 2 = k mod 2" for k :: nat by presburger
    ultimately show ?thesis
      using g b0 b by (auto simp: game_inv_def Let_def undo_def symbol_of_turn_def)
  qed
qed

lemma make_move_undo:
  assumes g: "game_inv g" and mm: "make_move g s pos = (g', Inr st)"
  shows "undo g' = (g, Inr pos)"
proof -
  have st: "gm_status g = IN_PROGRESS" "s = pl_symbol (current_player g)"
    using mm by (auto simp: make_move_def split: if_splits)
  then obtain b w where pm: "place_move (gm_board g) pos s = Inr (b, w)"
    using mm by (auto simp: make_move_def split: sum.splits)
  have "gm_winner g = None" "gm_turn g < 2" using g st by (auto simp: game_inv_def Let_def)
  moreover have "undo_move b = Inr (gm_board g, pos)"
    using place_undo pm g reach_shaped by (auto simp: game_inv_def)
  ultimately show ?thesis
    using mm st pm by (auto simp: make_move_def undo_def Let_def split: if_splits)
qed

text \<open>The client operations of the facade as one machine.\<close>

datatype game_op = MakeMove PlayerSymbol position | Undo

fun game_step :: "game \<Rightarrow> game_op \<Rightarrow> game \<times> (ttt_error + unit)" where
  "game_step g (MakeMove s pos) = map_prod id (map_sum id (\<lambda>_. ())) (make_move g s pos)"
| "game_step g Undo = map_prod id (map_sum id (\<lambda>_. ())) (undo g)"

interpretation game_machine: invariant_machine game_step game_inv
proof
  fix g x assume "game_inv g"
  then show "game_inv (fst (game_step g x))"
    by (cases x) (auto intro: make_move_inv undo_inv)
qed

subsection \<open>Two minimax players finish the game\<close>

definition bot_ready :: "player \<Rightarrow> bool" where
  "bot_ready p \<longleftrightarrow> (\<exists>d memo. pl_strategy p = Bot d memo \<and> memo_sound (pl_symbol p) d memo)"

definition bots_ready :: "game \<Rightarrow> bool" where
  "bots_ready g \<longleftrightarrow> bot_ready (fst (gm_players g)) \<and> bot_ready (snd (gm_players g))"

lemma in_progress_board:
  "game_inv g \<Longrightarrow> gm_status g = IN_PROGRESS \<Longrightarrow>
     reach (gm_board g) \<and> bd_winner (gm_board g) = None \<and> empty_cells (gm_board g) \<noteq> 0"
  unfolding game_inv_def Let_def by (metis GameStatus.distinct(1,3))

lemma bot_ready_move:
  assumes "bot_ready p" "reach b" "bd_winner b = None" "empty_cells b \<noteq> 0" "nat (empty_cells b) \<le> fuel"
  shows "\<exists>p' m. get_move fuel p b = (p', Inr m) \<and> bot_ready p' \<and> pl_symbol p' = pl_symbol p \<and> is_valid_move b m"
proof -
  obtain d memo where s: "pl_strategy p = Bot d memo" "memo_sound (pl_symbol p) d memo"
    using assms(1) by (auto simp: bot_ready_def)
  obtain memo' m where m: "bot_get_move fuel (pl_symbol p) d memo b = Inr (memo', b, m)"
      "memo_sound (pl_symbol p) d memo'"
      "first_best (\<lambda>m. game_value (pl_symbol p) d (placed b m (pl_symbol p)) (opponent (pl_symbol p)) 1)
        (get_available_moves b) m"
    using bot_get_move_correct [OF assms(2-5) s(2)] by blast
  have "m \<in> set (get_available_moves b)" using m(3) by (auto simp: first_best_def)
  then have "is_valid_move b m" using available_valid assms(3) by blast
  then show ?thesis using s(1) m by (auto simp: bot_ready_def)
qed

lemma set_current_inv:
  "game_inv g \<Longrightarrow> pl_symbol p = pl_symbol (current_player g) \<Longrightarrow> game_inv (set_current g p)"
  by (auto simp: game_inv_def set_current_def current_player_def symbol_of_turn_def Let_def)

lemma play_turn_bots:
  assumes g: "game_inv g" "gm_status g = IN_PROGRESS" "bots_ready g"
    and fuel: "nat (empty_cells (gm_board g)) \<le> fuel"
  shows "\<exists>g' st. play_turn fuel g = (g', Inr st) \<and> game_inv g' \<and> bots_ready g'
    \<and> empty_cells (gm_board g') = empty_cells (gm_board g) - 1"
proof -
  let ?b = "gm_board g" and ?p = "current_player g"
  have b: "reach ?b" "bd_winner ?b = None" "empty_cells ?b \<noteq> 0"
    using in_progress_board [OF g(1,2)] by auto
  have "bot_ready ?p" using g(3) by (simp add: bots_ready_def current_player_def)
  then obtain p m where p: "get_move fuel ?p ?b = (p, Inr m)" "bot_ready p" "pl_symbol p = pl_symbol ?p"
      "is_valid_move ?b m"
    using bot_ready_move b fuel by blast
  let ?g = "set_current g p"
  have inv: "game_inv ?g" by (rule set_current_inv [OF g(1) p(3)])
  have same: "gm_board ?g = ?b" "gm_status ?g = IN_PROGRESS" "pl_symbol (current_player ?g) = pl_symbol p"
    "bots_ready ?g"
    using g p by (auto simp: set_current_def current_player_def bots_ready_def)
  have turn: "play_turn fuel g = make_move ?g (pl_symbol p) m"
    using reach_copy [OF b(1)] p(1) by (simp add: play_turn_def del: get_move.simps)
  have pm: "place_move ?b m (pl_symbol p) = Inr (placed ?b m (pl_symbol p), bd_winner (placed ?b m (pl_symbol p)))"
    by (rule place_valid [OF p(4)])
  obtain g' st where mm: "make_move ?g (pl_symbol p) m = (g', Inr st)"
      and b': "gm_board g' = placed ?b m (pl_symbol p)" and ps: "gm_players g' = gm_players ?g"
    using same pm by (auto simp: make_move_def Let_def)
  have "game_inv g'" using make_move_inv [OF inv, of "pl_symbol p" m] mm by simp
  moreover have "bots_ready g'" using same(4) ps by (simp add: bots_ready_def)
  ultimately show ?thesis
    using turn mm b' placed_props(3) [OF b(1) p(4)] by simp
qed

lemma play_bots:
  assumes "game_inv g" "bots_ready g" "nat (empty_cells (gm_board g)) \<le> turns"
    and "nat (empty_cells (gm_board g)) \<le> fuel"
  shows "\<exists>g' st. play turns fuel g = Some (g', Inr st) \<and> st \<noteq> IN_PROGRESS \<and> game_inv g'"
  using assms
proof (induction turns arbitrary: g)
  case 0
  have "gm_status g \<noteq> IN_PROGRESS"
    using in_progress_board [OF 0(1)] empty_cells_nonneg [of "gm_board g"] 0(1,3)
    by (auto simp: game_inv_def)
  then show ?case using 0 by simp
next
  case (Suc turns)
  show ?case
  proof (cases "gm_status g = IN_PROGRESS")
    case True
    then obtain g' st where g': "play_turn fuel g = (g', Inr st)" "game_inv g'" "bots_ready g'"
        "empty_cells (gm_board g') = empty_cells (gm_board g) - 1"
      using play_turn_bots Suc.prems by blast
    have "\<exists>h st. play turns fuel g' = Some (h, Inr st) \<and> st \<noteq> IN_PROGRESS \<and> game_inv h"
      using Suc.prems g' by (intro Suc.IH) auto
    then show ?thesis using True g'(1) by simp
  qed (use Suc.prems in simp)
qed

section \<open>Properties\<close>

text \<open>
  The O(1) win check is exact: on every board that the operations build, the recorded
  winner is the symbol that a full scan of rows, columns and diagonals finds.
\<close>

theorem check_winner_scan:
  assumes "reach b"
  shows "check_winner b = Some t \<longleftrightarrow> wins b t"
  using reach_winner [OF assms] by (simp add: check_winner_def)

text \<open>A board on which the first row is complete, built by five moves.\<close>

abbreviation place_all :: "board \<Rightarrow> (position \<times> PlayerSymbol) list \<Rightarrow> ttt_error + board" where
  "place_all \<equiv> act_all (\<lambda>b (pos, s). map_sum id fst (place_move b pos s))"

definition demo_board :: board where
  "demo_board = projr (place_all (projr (new_board 3))
     [((0, 0), MarkX), ((1, 0), MarkO), ((0, 1), MarkX), ((1, 1), MarkO), ((0, 2), MarkX)])"

lemma reach_new_board: "3 \<le> sz \<Longrightarrow> reach (projr (new_board sz))"
  by (rule reach.init [of sz]) (simp add: new_board_def)

lemma demo_board_built:
  "place_all (projr (new_board 3))
     [((0, 0), MarkX), ((1, 0), MarkO), ((0, 1), MarkX), ((1, 1), MarkO), ((0, 2), MarkX)] = Inr demo_board"
  unfolding demo_board_def by code_simp

lemma reach_demo_board: "reach demo_board"
  by (rule board_undo.act_all_ok [OF reach_new_board demo_board_built]) simp

theorem check_winner_scan_witness:
  "reach demo_board \<and> check_winner demo_board = Some MarkX \<and> wins demo_board MarkX"
proof -
  have "check_winner demo_board = Some MarkX" by code_simp
  then show ?thesis using check_winner_scan [OF reach_demo_board, of MarkX] reach_demo_board by simp
qed

text \<open>
  Undo is exact: after any sequence of successful moves, undoing as many moves restores
  the board in every field (grid, running sums, winner, history).
\<close>

theorem place_all_undo:
  assumes "reach b" "place_all b ms = Inr b'"
  shows "undo_times (\<lambda>b. map_sum id fst (undo_move b)) (length ms) b' = Inr b"
  using assms by (rule board_undo.undo_act_all)

theorem place_all_undo_witness:
  "undo_times (\<lambda>b. map_sum id fst (undo_move b)) 5 demo_board = Inr (projr (new_board 3))"
  using place_all_undo [OF reach_new_board demo_board_built]
  by (simp add: numeral_eq_Suc del: undo_times.simps)

text \<open>
  The copy that a strategy is given equals the board: replaying the history with the
  symbols read off the grid rebuilds every field and never raises.
\<close>

theorem copy_board_exact: "reach b \<Longrightarrow> copy_board b = Inr b"
  by (rule reach_copy)

theorem copy_board_exact_witness: "copy_board demo_board = Inr demo_board \<and> bd_winner demo_board = Some MarkX"
  using copy_board_exact [OF reach_demo_board] by (simp add: demo_board_def) code_simp

text \<open>
  The memoised make/unmake search of the bot is plain minimax: with a stack at least as
  deep as the number of free cells it returns a first move, in row-major order, of greatest
  game value, leaves the board as it was, and leaves a memo table that is sound again.
\<close>

theorem bot_get_move_minimax:
  assumes "reach b" "bd_winner b = None" "empty_cells b \<noteq> 0" "nat (empty_cells b) \<le> fuel"
    and "memo_sound me max_depth memo"
  shows "\<exists>memo' m. bot_get_move fuel me max_depth memo b = Inr (memo', b, m)
    \<and> memo_sound me max_depth memo'
    \<and> first_best (\<lambda>m. game_value me max_depth (placed b m me) (opponent me) 1) (get_available_moves b) m"
  using assms by (rule bot_get_move_correct)

definition demo_endgame :: board where
  "demo_endgame = projr (place_all (projr (new_board 3))
     [((0, 0), MarkX), ((1, 1), MarkO), ((0, 1), MarkX), ((0, 2), MarkO), ((2, 0), MarkX), ((2, 2), MarkO)])"

lemma demo_endgame_built:
  "place_all (projr (new_board 3))
     [((0, 0), MarkX), ((1, 1), MarkO), ((0, 1), MarkX), ((0, 2), MarkO), ((2, 0), MarkX), ((2, 2), MarkO)]
   = Inr demo_endgame"
  unfolding demo_endgame_def by code_simp

theorem bot_get_move_minimax_witness:
  "\<exists>memo' m. bot_get_move 3 MarkX None (\<lambda>_. None) demo_endgame = Inr (memo', demo_endgame, m)
    \<and> memo_sound MarkX None memo'
    \<and> first_best (\<lambda>m. game_value MarkX None (placed demo_endgame m MarkX) MarkO 1)
        (get_available_moves demo_endgame) m"
proof -
  have r: "reach demo_endgame" by (rule board_undo.act_all_ok [OF reach_new_board demo_endgame_built]) simp
  have e: "bd_winner demo_endgame = None" "empty_cells demo_endgame = 3" by code_simp+
  show ?thesis
    using bot_get_move_minimax [OF r e(1), of 3 MarkX None "\<lambda>_. None"] e(2) by simp
qed

text \<open>
  Whatever moves and undos clients send, in any order and with any arguments, the game
  stays consistent: the status is WIN exactly when some symbol owns a line and the recorded
  winner is the player of that symbol, DRAW exactly when the board is full and nobody owns a
  line, and the marks on the board alternate between the two players in the order played.
\<close>

theorem game_run_consistent:
  assumes "new_game p1 p2 sz = Inr g" and h: "h = run_ops game_step g ops"
  shows "(gm_status h = WIN \<longleftrightarrow> (\<exists>s. wins (gm_board h) s))
    \<and> (gm_status h = DRAW \<longleftrightarrow> is_full (gm_board h) \<and> (\<forall>s. \<not> wins (gm_board h) s))
    \<and> (gm_status h = WIN \<longrightarrow> (\<exists>k. gm_winner h = Some k \<and> wins (gm_board h) (symbol_of_turn h k)))
    \<and> (\<forall>i < length (bd_history (gm_board h)).
         cell (gm_board h) (bd_history (gm_board h) ! i) = Inr (Some (symbol_of_turn h i)))"
proof -
  have inv: "game_inv h" unfolding h by (rule game_machine.run_inv [OF new_game_inv [OF assms(1)]])
  then have "reach (gm_board h)" by (simp add: game_inv_def)
  note w = reach_winner [OF this]
  show ?thesis
    using inv by (auto simp: game_inv_def Let_def is_full_iff simp flip: w)
qed

definition demo_player :: "PlayerSymbol \<Rightarrow> player" where
  "demo_player s = \<lparr>pl_name = ''bot'', pl_symbol = s, pl_strategy = Bot None (\<lambda>_. None)\<rparr>"

definition demo_game :: game where
  "demo_game = projr (new_game (demo_player MarkX) (demo_player MarkO) 3)"

lemma demo_game_new: "new_game (demo_player MarkX) (demo_player MarkO) 3 = Inr demo_game"
  by (simp add: demo_game_def new_game_def demo_player_def new_board_def)

theorem game_run_consistent_witness:
  "gm_status (run_ops game_step demo_game [MakeMove MarkX (0, 0), MakeMove MarkX (1, 1), Undo]) = WIN
    \<longleftrightarrow> (\<exists>s. wins (gm_board (run_ops game_step demo_game
          [MakeMove MarkX (0, 0), MakeMove MarkX (1, 1), Undo])) s)"
  using game_run_consistent [OF demo_game_new refl] by blast

text \<open>
  \<open>TicTacToeGame.undo\<close> is the inverse of \<open>make_move\<close>: after an accepted move, also one
  that ended the game, undo gives back the whole game record and the position played.
\<close>

theorem make_move_then_undo:
  assumes "new_game p1 p2 sz = Inr g0" "g = run_ops game_step g0 ops"
    and "make_move g s pos = (g', Inr st)"
  shows "undo g' = (g, Inr pos)"
proof (rule make_move_undo)
  show "game_inv g" unfolding assms(2) by (rule game_machine.run_inv [OF new_game_inv [OF assms(1)]])
qed (rule assms(3))

theorem make_move_then_undo_witness:
  "undo (fst (make_move demo_game MarkX (1, 1))) = (demo_game, Inr (1, 1))"
proof -
  have "snd (make_move demo_game MarkX (1, 1)) = Inr IN_PROGRESS" by code_simp
  then have "make_move demo_game MarkX (1, 1) = (fst (make_move demo_game MarkX (1, 1)), Inr IN_PROGRESS)"
    by (metis prod.collapse)
  then show ?thesis by (intro make_move_then_undo [OF demo_game_new, of _ "[]"]) simp_all
qed

text \<open>
  Two bots play to the end: the loop of \<open>play\<close> returns within as many turns as the board
  has free cells, without an exception, and the final status is a win or a draw.
\<close>

theorem bots_play_to_the_end:
  assumes "new_game p1 p2 sz = Inr g" "bot_ready p1" "bot_ready p2"
    and "nat (sz * sz) \<le> turns" "nat (sz * sz) \<le> fuel"
  shows "\<exists>g' st. play turns fuel g = Some (g', Inr st) \<and> (st = WIN \<or> st = DRAW)"
proof -
  have "gm_players g = (p1, p2)" "bd_n (gm_board g) = sz" "bd_history (gm_board g) = []"
    using assms(1) by (auto simp: new_game_def new_board_def split: if_splits)
  then have "bots_ready g" "empty_cells (gm_board g) = sz * sz"
    using assms(2,3) by (auto simp: bots_ready_def empty_cells_def)
  then obtain g' st where "play turns fuel g = Some (g', Inr st)" "st \<noteq> IN_PROGRESS"
    using play_bots [OF new_game_inv [OF assms(1)], of turns fuel] assms(4,5) by metis
  then show ?thesis by (cases st) auto
qed

theorem bots_play_to_the_end_witness:
  "\<exists>g' st. play 9 9 demo_game = Some (g', Inr st) \<and> (st = WIN \<or> st = DRAW)"
  by (rule bots_play_to_the_end [OF demo_game_new]) (simp_all add: bot_ready_def demo_player_def)

end
