(* ===== verification/Snakes_Ladders.thy ===== *)
theory Snakes_Ladders
  imports Prelude
begin

text \<open>
  Snakes and ladders, \<open>python-low-level-design/snakes-and-ladders/snakes_and_ladders.py\<close>:
  dice, the board with its construction rules, and the game loop with overshoot policies,
  extra turns and forfeits. The random generator is a parameter: the stream of its draws.
  An operation that raises after it changed the object returns the changed object with the
  exception. The lock makes each call of \<open>play_turn\<close> one step. Console output is left out.
\<close>

section \<open>Exceptions and enums\<close>

datatype snl_error = InvalidBoardError | NotYourTurnError | GameOverError | Builtin py_error

datatype GameStatus = NOT_STARTED | IN_PROGRESS | FINISHED

datatype JumpKind = SNAKE | LADDER

datatype OvershootPolicy = STAY | BOUNCE | ALLOW

section \<open>Dice\<close>

record roll =
  faces :: "int list"

definition total :: "roll \<Rightarrow> int" where
  "total r = sum_list (faces r)"

definition is_doubles :: "roll \<Rightarrow> bool" where
  "is_doubles r = (length (faces r) > 1 \<and> length (remdups (faces r)) = 1)"

text \<open>
  The three dice of the source. \<open>StandardDice cnt sides draws k\<close> and
  \<open>CrookedDice draws k\<close> have drawn \<open>k\<close> numbers from the generator so far; \<open>draws i\<close> is what
  \<open>randint(1, sides)\<close> or \<open>choice((2, 4, 6))\<close> returns at its \<open>i\<close>-th call.
\<close>

datatype dice =
    StandardDice nat int "nat \<Rightarrow> int" nat
  | CrookedDice "nat \<Rightarrow> int" nat
  | ScriptedDice "int list list" nat

definition standard_dice :: "int \<Rightarrow> int \<Rightarrow> (nat \<Rightarrow> int) \<Rightarrow> snl_error + dice" where
  "standard_dice cnt sides draws =
     (if cnt < 1 \<or> sides < 2 then Inl (Builtin ValueError)
      else Inr (StandardDice (nat cnt) sides draws 0))"

text \<open>A scripted roll is an integer or a sequence of faces.\<close>

datatype scripted = Face int | Faces "int list"

fun scripted_dice :: "scripted list \<Rightarrow> dice" where
  "scripted_dice rs = ScriptedDice (map (\<lambda>r. case r of Face f \<Rightarrow> [f] | Faces fs \<Rightarrow> fs) rs) 0"

fun roll_dice :: "dice \<Rightarrow> dice \<times> (snl_error + roll)" where
  "roll_dice (StandardDice cnt sides draws k) =
     (StandardDice cnt sides draws (k + cnt), Inr \<lparr>faces = map (\<lambda>i. draws (k + i)) [0..<cnt]\<rparr>)"
| "roll_dice (CrookedDice draws k) = (CrookedDice draws (k + 1), Inr \<lparr>faces = [draws k]\<rparr>)"
| "roll_dice (ScriptedDice rolls k) =
     (if k \<ge> length rolls then (ScriptedDice rolls k, Inl (Builtin RuntimeError))
      else (ScriptedDice rolls (k + 1), Inr \<lparr>faces = rolls ! k\<rparr>))"

section \<open>Board\<close>

record jump =
  jp_start :: int
  jp_end :: int

definition jump_kind :: "jump \<Rightarrow> JumpKind" where
  "jump_kind j = (if jp_end j < jp_start j then SNAKE else LADDER)"

record board =
  bd_size :: int
  bd_jumps :: "(int \<times> jump) list"

definition add_jump :: "board \<Rightarrow> jump \<Rightarrow> snl_error + board" where
  "add_jump b j =
     (if \<not> (1 \<le> jp_start j \<and> jp_start j \<le> bd_size b) then Inl InvalidBoardError
      else if \<not> (1 \<le> jp_end j \<and> jp_end j \<le> bd_size b) then Inl InvalidBoardError
      else if jp_start j = bd_size b then Inl InvalidBoardError
      else if map_of (bd_jumps b) (jp_start j) \<noteq> None then Inl InvalidBoardError
      else Inr (b\<lparr>bd_jumps := AList.update (jp_start j) j (bd_jumps b)\<rparr>))"

fun add_snakes :: "board \<Rightarrow> (int \<times> int) list \<Rightarrow> snl_error + board" where
  "add_snakes b [] = Inr b"
| "add_snakes b ((head, tail) # xs) =
     (if head \<le> tail then Inl InvalidBoardError
      else (case add_jump b \<lparr>jp_start = head, jp_end = tail\<rparr> of
              Inl e \<Rightarrow> Inl e
            | Inr b' \<Rightarrow> add_snakes b' xs))"

fun add_ladders :: "board \<Rightarrow> (int \<times> int) list \<Rightarrow> snl_error + board" where
  "add_ladders b [] = Inr b"
| "add_ladders b ((bottom, upper) # xs) =
     (if bottom \<ge> upper then Inl InvalidBoardError
      else (case add_jump b \<lparr>jp_start = bottom, jp_end = upper\<rparr> of
              Inl e \<Rightarrow> Inl e
            | Inr b' \<Rightarrow> add_ladders b' xs))"

definition chained :: "board \<Rightarrow> int list" where
  "chained b = sort (filter (\<lambda>c. map_of (bd_jumps b) c \<noteq> None)
     (remdups (map (\<lambda>(_, j). jp_end j) (bd_jumps b))))"

definition new_board :: "int \<Rightarrow> (int \<times> int) list \<Rightarrow> (int \<times> int) list \<Rightarrow> snl_error + board" where
  "new_board sz snakes ladders =
     (if sz < 2 then Inl InvalidBoardError
      else
        (case add_snakes \<lparr>bd_size = sz, bd_jumps = []\<rparr> snakes of
           Inl e \<Rightarrow> Inl e
         | Inr b1 \<Rightarrow>
             (case add_ladders b1 ladders of
                Inl e \<Rightarrow> Inl e
              | Inr b2 \<Rightarrow> if chained b2 \<noteq> [] then Inl InvalidBoardError else Inr b2)))"

definition jump_at :: "board \<Rightarrow> int \<Rightarrow> jump option" where
  "jump_at b c = map_of (bd_jumps b) c"

definition resolve :: "board \<Rightarrow> int \<Rightarrow> int" where
  "resolve b c = (case map_of (bd_jumps b) c of Some j \<Rightarrow> jp_end j | None \<Rightarrow> c)"

definition jumps_of_kind :: "board \<Rightarrow> JumpKind \<Rightarrow> jump list" where
  "jumps_of_kind b k = sort_key jp_start (filter (\<lambda>j. jump_kind j = k) (map snd (bd_jumps b)))"

definition default_board :: "snl_error + board" where
  "default_board = new_board 100
     [(99, 54), (95, 75), (92, 73), (87, 24), (74, 53), (64, 36),
      (62, 19), (56, 33), (49, 11), (47, 26), (16, 6)]
     [(2, 38), (7, 14), (8, 31), (15, 26), (21, 42), (28, 84),
      (37, 44), (51, 67), (71, 91), (78, 98)]"

section \<open>Game\<close>

record player =
  pl_name :: string
  pl_position :: int

record turn_result =
  tr_turn_no :: nat
  tr_player :: string
  tr_roll :: roll
  tr_start :: int
  tr_landed :: int
  tr_end :: int
  tr_jump :: "jump option"
  tr_forfeited :: bool
  tr_extra_turn :: bool
  tr_won :: bool

text \<open>
  Observers are external callbacks. The model keeps the calls they get, in order: an
  observer is a name, a call is \<open>on_turn\<close> with its result or \<open>on_game_over\<close> with the winner.
\<close>

datatype notification = OnTurn string turn_result | OnGameOver string string

record game =
  gm_board :: board
  gm_players :: "player list"
  gm_dice :: dice
  gm_overshoot :: OvershootPolicy
  gm_extra_turn_on_doubles :: bool
  gm_max_doubles :: int
  gm_observers :: "string list"
  gm_status :: GameStatus
  gm_current :: nat
  gm_doubles_streak :: int
  gm_winner :: "nat option"
  gm_history :: "turn_result list"
  gm_notified :: "notification list"

definition new_game :: "board \<Rightarrow> string list \<Rightarrow> dice \<Rightarrow> OvershootPolicy \<Rightarrow> bool \<Rightarrow> int \<Rightarrow> snl_error + game" where
  "new_game b names d overshoot extra max_doubles =
     (if length names < 2 then Inl (Builtin ValueError)
      else if \<not> distinct names then Inl (Builtin ValueError)
      else Inr \<lparr>gm_board = b, gm_players = map (\<lambda>n. \<lparr>pl_name = n, pl_position = 0\<rparr>) names,
                gm_dice = d, gm_overshoot = overshoot, gm_extra_turn_on_doubles = extra,
                gm_max_doubles = max_doubles, gm_observers = [], gm_status = NOT_STARTED,
                gm_current = 0, gm_doubles_streak = 0, gm_winner = None, gm_history = [],
                gm_notified = []\<rparr>)"

definition winner_name :: "game \<Rightarrow> string option" where
  "winner_name g = map_option (\<lambda>i. pl_name (gm_players g ! i)) (gm_winner g)"

definition positions :: "game \<Rightarrow> (string \<times> int) list" where
  "positions g = map (\<lambda>p. (pl_name p, pl_position p)) (gm_players g)"

definition add_observer :: "game \<Rightarrow> string \<Rightarrow> game" where
  "add_observer g obs = g\<lparr>gm_observers := gm_observers g @ [obs]\<rparr>"

definition advance :: "game \<Rightarrow> int \<Rightarrow> int \<Rightarrow> int" where
  "advance g start steps =
     (let sz = bd_size (gm_board g); target = start + steps in
      if target \<le> sz then target
      else (case gm_overshoot g of
              STAY \<Rightarrow> start
            | BOUNCE \<Rightarrow> sz - (target - sz)
            | ALLOW \<Rightarrow> sz))"

text \<open>The body of \<open>play_turn\<close> once the dice have been rolled.\<close>

definition move_player :: "game \<Rightarrow> roll \<Rightarrow> game \<times> turn_result" where
  "move_player g r =
     (let i = gm_current g;
          p = gm_players g ! i;
          start = pl_position p;
          streak = (if is_doubles r then gm_doubles_streak g + 1 else 0);
          forfeited = (streak \<ge> gm_max_doubles g);
          landed = (if forfeited then start else advance g start (total r));
          jmp = (if forfeited then None
                 else if landed \<noteq> start then jump_at (gm_board g) landed else None);
          end_cell = (if forfeited then start
                      else if jmp \<noteq> None then resolve (gm_board g) landed else landed);
          won = (end_cell = bd_size (gm_board g));
          extra = (gm_extra_turn_on_doubles g \<and> is_doubles r \<and> \<not> forfeited \<and> \<not> won);
          result = \<lparr>tr_turn_no = length (gm_history g) + 1, tr_player = pl_name p, tr_roll = r,
                    tr_start = start, tr_landed = landed, tr_end = end_cell, tr_jump = jmp,
                    tr_forfeited = forfeited, tr_extra_turn = extra, tr_won = won\<rparr>;
          g1 = g\<lparr>gm_players := (gm_players g)[i := p\<lparr>pl_position := end_cell\<rparr>],
                 gm_doubles_streak := (if extra then streak else 0),
                 gm_current := (if extra then i else (i + 1) mod length (gm_players g)),
                 gm_history := gm_history g @ [result],
                 gm_notified := gm_notified g @ map (\<lambda>o'. OnTurn o' result) (gm_observers g)\<rparr>;
          g2 = (if won then g1\<lparr>gm_status := FINISHED, gm_winner := Some i,
                  gm_notified := gm_notified g1 @ map (\<lambda>o'. OnGameOver o' (pl_name p)) (gm_observers g)\<rparr>
                else g1)
      in (g2, result))"

definition play_turn :: "game \<Rightarrow> string option \<Rightarrow> game \<times> (snl_error + turn_result)" where
  "play_turn g player_name =
     (if gm_status g = FINISHED then (g, Inl GameOverError)
      else
        (let p = gm_players g ! gm_current g in
         if player_name \<noteq> None \<and> player_name \<noteq> Some (pl_name p) then (g, Inl NotYourTurnError)
         else
           (let g0 = g\<lparr>gm_status := IN_PROGRESS\<rparr> in
            case roll_dice (gm_dice g) of
              (d, Inl e) \<Rightarrow> (g0\<lparr>gm_dice := d\<rparr>, Inl e)
            | (d, Inr r) \<Rightarrow>
                (let (g', res) = move_player (g0\<lparr>gm_dice := d\<rparr>) r in (g', Inr res)))))"

fun play :: "game \<Rightarrow> nat \<Rightarrow> game \<times> (snl_error + string)" where
  "play g 0 = (g, Inl (Builtin RuntimeError))"
| "play g (Suc k) =
     (case play_turn g None of
        (g', Inl e) \<Rightarrow> (g', Inl e)
      | (g', Inr res) \<Rightarrow>
          if tr_won res
          then (case winner_name g' of
                  None \<Rightarrow> (g', Inl (Builtin AttributeError))
                | Some n \<Rightarrow> (g', Inr n))
          else play g' k)"

section \<open>Board construction\<close>

definition jumps_of :: "(int \<times> int) list \<Rightarrow> (int \<times> jump) list" where
  "jumps_of ps = map (\<lambda>(s, e). (s, \<lparr>jp_start = s, jp_end = e\<rparr>)) ps"

lemma jumps_of_simps [simp]:
  "jumps_of [] = []" "jumps_of (ps @ qs) = jumps_of ps @ jumps_of qs"
  "jumps_of [(s, e)] = [(s, \<lparr>jp_start = s, jp_end = e\<rparr>)]"
  "map fst (jumps_of ps) = map fst ps" "map (\<lambda>(_, j). jp_end j) (jumps_of ps) = map snd ps"
  by (auto simp: jumps_of_def)

lemma fst_jumps_of [simp]: "fst ` set (jumps_of ps) = fst ` set ps"
  by (metis jumps_of_simps(4) set_map)

lemma map_of_jumps_of_None [simp]: "map_of (jumps_of ps) c = None \<longleftrightarrow> c \<notin> fst ` set ps"
  by (simp add: map_of_eq_None_iff)

definition inside :: "int \<Rightarrow> int \<times> int \<Rightarrow> bool" where
  "inside sz p \<longleftrightarrow> 1 \<le> fst p \<and> fst p < sz \<and> 1 \<le> snd p \<and> snd p \<le> sz"

lemma add_jump_eq:
  "add_jump \<lparr>bd_size = sz, bd_jumps = jumps_of ps\<rparr> \<lparr>jp_start = s, jp_end = e\<rparr> =
     (if inside sz (s, e) \<and> s \<notin> fst ` set ps
      then Inr \<lparr>bd_size = sz, bd_jumps = jumps_of (ps @ [(s, e)])\<rparr> else Inl InvalidBoardError)"
  by (auto simp: add_jump_def inside_def AList_update_absent simp del: map_of_jumps_of_None
      simp flip: map_of_jumps_of_None [of ps s])

lemma add_snakes_eq:
  "add_snakes \<lparr>bd_size = sz, bd_jumps = jumps_of ps\<rparr> xs =
     (if (\<forall>p \<in> set xs. snd p < fst p \<and> inside sz p \<and> fst p \<notin> fst ` set ps) \<and> distinct (map fst xs)
      then Inr \<lparr>bd_size = sz, bd_jumps = jumps_of (ps @ xs)\<rparr> else Inl InvalidBoardError)"
proof (induction xs arbitrary: ps)
  case (Cons x xs)
  obtain s e where x: "x = (s, e)" by (cases x)
  have "add_snakes \<lparr>bd_size = sz, bd_jumps = jumps_of (ps @ [(s, e)])\<rparr> xs =
     (if (\<forall>p \<in> set xs. snd p < fst p \<and> inside sz p \<and> fst p \<notin> fst ` set (ps @ [(s, e)])) \<and> distinct (map fst xs)
      then Inr \<lparr>bd_size = sz, bd_jumps = jumps_of ((ps @ [(s, e)]) @ xs)\<rparr> else Inl InvalidBoardError)"
    by (rule Cons.IH)
  then show ?case by (auto simp: x add_jump_eq simp del: jumps_of_simps)
qed simp

lemma add_ladders_eq:
  "add_ladders \<lparr>bd_size = sz, bd_jumps = jumps_of ps\<rparr> xs =
     (if (\<forall>p \<in> set xs. fst p < snd p \<and> inside sz p \<and> fst p \<notin> fst ` set ps) \<and> distinct (map fst xs)
      then Inr \<lparr>bd_size = sz, bd_jumps = jumps_of (ps @ xs)\<rparr> else Inl InvalidBoardError)"
proof (induction xs arbitrary: ps)
  case (Cons x xs)
  obtain s e where x: "x = (s, e)" by (cases x)
  have "add_ladders \<lparr>bd_size = sz, bd_jumps = jumps_of (ps @ [(s, e)])\<rparr> xs =
     (if (\<forall>p \<in> set xs. fst p < snd p \<and> inside sz p \<and> fst p \<notin> fst ` set (ps @ [(s, e)])) \<and> distinct (map fst xs)
      then Inr \<lparr>bd_size = sz, bd_jumps = jumps_of ((ps @ [(s, e)]) @ xs)\<rparr> else Inl InvalidBoardError)"
    by (rule Cons.IH)
  then show ?case by (auto simp: x add_jump_eq simp del: jumps_of_simps)
qed simp

lemma chained_jumps_of:
  "chained \<lparr>bd_size = sz, bd_jumps = jumps_of ps\<rparr> = [] \<longleftrightarrow> (\<forall>p \<in> set ps. snd p \<notin> fst ` set ps)"
  by (auto simp: chained_def filter_empty_conv ball_simps simp flip: set_empty)

text \<open>The rules that the module's documentation lists, as one predicate on the input.\<close>

definition valid_layout :: "int \<Rightarrow> (int \<times> int) list \<Rightarrow> (int \<times> int) list \<Rightarrow> bool" where
  "valid_layout sz snakes ladders \<longleftrightarrow> 2 \<le> sz
     \<and> (\<forall>p \<in> set snakes. snd p < fst p) \<and> (\<forall>p \<in> set ladders. fst p < snd p)
     \<and> (\<forall>p \<in> set (snakes @ ladders). inside sz p)
     \<and> distinct (map fst (snakes @ ladders))
     \<and> (\<forall>p \<in> set (snakes @ ladders). snd p \<notin> fst ` set (snakes @ ladders))"

lemma distinct_starts:
  "distinct (map fst (xs @ ys)) \<longleftrightarrow>
     distinct (map fst xs) \<and> distinct (map fst ys) \<and> (\<forall>p \<in> set ys. fst p \<notin> fst ` set xs)"
  by (simp only: map_append distinct_append set_map disjoint_iff) blast

lemma new_board_eq:
  "new_board sz snakes ladders =
     (if valid_layout sz snakes ladders
      then Inr \<lparr>bd_size = sz, bd_jumps = jumps_of (snakes @ ladders)\<rparr> else Inl InvalidBoardError)"
proof -
  have a: "add_snakes \<lparr>bd_size = sz, bd_jumps = []\<rparr> snakes =
     (if (\<forall>p \<in> set snakes. snd p < fst p \<and> inside sz p) \<and> distinct (map fst snakes)
      then Inr \<lparr>bd_size = sz, bd_jumps = jumps_of snakes\<rparr> else Inl InvalidBoardError)"
    using add_snakes_eq [of sz "[]" snakes] by simp
  show ?thesis
    unfolding new_board_def a valid_layout_def distinct_starts
    by (simp add: add_ladders_eq chained_jumps_of ball_Un conj_ac all_conj_distrib
        del: jumps_of_simps(2))
qed

definition board_ok :: "board \<Rightarrow> bool" where
  "board_ok b \<longleftrightarrow> 2 \<le> bd_size b \<and>
     (\<forall>c j. jump_at b c = Some j \<longrightarrow>
        jp_start j = c \<and> jp_end j \<noteq> c \<and> 1 \<le> c \<and> c < bd_size b
        \<and> 1 \<le> jp_end j \<and> jp_end j \<le> bd_size b \<and> jump_at b (jp_end j) = None)"

lemma new_board_ok: "new_board sz snakes ladders = Inr b \<Longrightarrow> board_ok b \<and> bd_size b = sz"
proof -
  assume "new_board sz snakes ladders = Inr b"
  then have v: "valid_layout sz snakes ladders"
      and b: "b = \<lparr>bd_size = sz, bd_jumps = jumps_of (snakes @ ladders)\<rparr>"
    by (auto simp: new_board_eq split: if_splits)
  let ?ps = "snakes @ ladders"
  have ps: "inside sz p" "snd p \<notin> fst ` set ?ps" if "p \<in> set ?ps" for p
    using v that unfolding valid_layout_def by blast+
  have "jp_start j = c \<and> jp_end j \<noteq> c \<and> inside sz (c, jp_end j) \<and> jump_at b (jp_end j) = None"
    if "jump_at b c = Some j" for c j
  proof -
    have "(c, j) \<in> set (jumps_of ?ps)"
      using that by (intro map_of_SomeD) (simp only: jump_at_def b board.simps)
    then obtain e where e: "(c, e) \<in> set ?ps" "j = \<lparr>jp_start = c, jp_end = e\<rparr>"
      by (auto simp: jumps_of_def)
    then have "c \<in> fst ` set ?ps" by force
    with e ps [OF e(1)] show ?thesis by (auto simp: jump_at_def b simp del: jumps_of_simps)
  qed
  moreover have "2 \<le> sz" using v by (simp add: valid_layout_def)
  ultimately show ?thesis by (auto simp: board_ok_def inside_def b)
qed

lemma board_ok_size: "board_ok b \<Longrightarrow> 2 \<le> bd_size b"
  by (simp add: board_ok_def)

lemma board_ok_jump:
  assumes "board_ok b" "jump_at b c = Some j"
  shows "jp_end j \<noteq> c" "c < bd_size b" "1 \<le> jp_end j" "jp_end j \<le> bd_size b" "jump_at b (jp_end j) = None"
  using assms by (auto simp: board_ok_def)

lemma resolve_bounds:
  "board_ok b \<Longrightarrow> 0 \<le> c \<Longrightarrow> c \<le> bd_size b \<Longrightarrow> 0 \<le> resolve b c \<and> resolve b c \<le> bd_size b"
  using board_ok_jump [of b c] by (fastforce simp: resolve_def jump_at_def split: option.split)

section \<open>The invariant of the game\<close>

text \<open>
  What the code relies on of the dice: a roll is never negative and no longer than the
  board. For the dice that use the generator this is its documented range.
\<close>

fun dice_ok :: "int \<Rightarrow> dice \<Rightarrow> bool" where
  "dice_ok sz (StandardDice cnt sides draws k) \<longleftrightarrow>
     (\<forall>i. 1 \<le> draws i \<and> draws i \<le> sides) \<and> int cnt * sides \<le> sz"
| "dice_ok sz (CrookedDice draws k) \<longleftrightarrow> (\<forall>i. draws i \<in> {2, 4, 6}) \<and> 6 \<le> sz"
| "dice_ok sz (ScriptedDice rolls k) \<longleftrightarrow> (\<forall>r \<in> set rolls. 0 \<le> sum_list r \<and> sum_list r \<le> sz)"

lemma sum_list_bounds:
  fixes f :: "'a \<Rightarrow> int"
  assumes "\<And>x. x \<in> set xs \<Longrightarrow> lo \<le> f x \<and> f x \<le> hi"
  shows "int (length xs) * lo \<le> sum_list (map f xs) \<and> sum_list (map f xs) \<le> int (length xs) * hi"
  using assms by (induction xs) (force simp: algebra_simps)+

lemma roll_dice_ok:
  assumes "dice_ok sz d" "roll_dice d = (d', Inr r)"
  shows "0 \<le> total r \<and> total r \<le> sz"
proof (cases d)
  case (StandardDice cnt sides draws k)
  then have r: "r = \<lparr>faces = map (\<lambda>i. draws (k + i)) [0..<cnt]\<rparr>" using assms(2) by auto
  have "int cnt * 1 \<le> total r \<and> total r \<le> int cnt * sides"
    using sum_list_bounds [of "[0..<cnt]" 1 "\<lambda>i. draws (k + i)" sides] assms(1) StandardDice
    by (simp add: total_def r)
  then show ?thesis using assms(1) StandardDice by simp
next
  case (CrookedDice draws k)
  then have "total r \<in> {2, 4, 6}" using assms by (auto simp: total_def)
  then show ?thesis using assms(1) CrookedDice by auto
next
  case (ScriptedDice rolls k)
  then show ?thesis using assms by (auto simp: total_def split: if_splits)
qed

lemma roll_dice_keeps: "dice_ok sz d \<Longrightarrow> dice_ok sz (fst (roll_dice d))"
  by (cases d) auto

definition game_inv :: "game \<Rightarrow> bool" where
  "game_inv g \<longleftrightarrow> board_ok (gm_board g) \<and> dice_ok (bd_size (gm_board g)) (gm_dice g)
     \<and> 2 \<le> length (gm_players g) \<and> gm_current g < length (gm_players g)
     \<and> distinct (map pl_name (gm_players g))
     \<and> 0 \<le> gm_doubles_streak g \<and> gm_doubles_streak g < gm_max_doubles g
     \<and> map tr_turn_no (gm_history g) = [1..<Suc (length (gm_history g))]
     \<and> (\<forall>i < length (gm_players g). 0 \<le> pl_position (gm_players g ! i)
          \<and> (if gm_status g = FINISHED \<and> gm_winner g = Some i
              then pl_position (gm_players g ! i) = bd_size (gm_board g)
              else pl_position (gm_players g ! i) < bd_size (gm_board g)))
     \<and> (case gm_winner g of None \<Rightarrow> gm_status g \<noteq> FINISHED
        | Some i \<Rightarrow> gm_status g = FINISHED \<and> i < length (gm_players g))"

lemma snl_game_new_inv:
  assumes "new_game b names d ov ex md = Inr g" "board_ok b" "dice_ok (bd_size b) d" "1 \<le> md"
  shows "game_inv g"
  using assms board_ok_size [OF assms(2)]
  by (auto simp: new_game_def game_inv_def comp_def split: if_splits)

lemma advance_bounds:
  assumes "0 \<le> start" "start < bd_size (gm_board g)" "0 \<le> k" "k \<le> bd_size (gm_board g)"
  shows "0 \<le> advance g start k \<and> advance g start k \<le> bd_size (gm_board g)"
  using assms by (auto simp: advance_def Let_def split: OvershootPolicy.split)

text \<open>One turn after the roll: where the player ends up, who moves next, what is recorded.\<close>

lemma move_player_facts:
  assumes "move_player g r = (g', res)"
  defines "i \<equiv> gm_current g"
  shows "gm_players g' = (gm_players g)[i := (gm_players g ! i)\<lparr>pl_position := tr_end res\<rparr>]"
    and "gm_board g' = gm_board g" "gm_dice g' = gm_dice g" "gm_max_doubles g' = gm_max_doubles g"
    and "gm_history g' = gm_history g @ [res]" "tr_turn_no res = length (gm_history g) + 1"
    and "tr_won res \<longleftrightarrow> tr_end res = bd_size (gm_board g)"
    and "gm_status g' = (if tr_won res then FINISHED else gm_status g)"
    and "gm_winner g' = (if tr_won res then Some i else gm_winner g)"
    and "gm_current g' = (if tr_extra_turn res then i else (i + 1) mod length (gm_players g))"
    and "tr_player res = pl_name (gm_players g ! i)" "tr_start res = pl_position (gm_players g ! i)"
    and "gm_doubles_streak g' = (if tr_extra_turn res then gm_doubles_streak g + 1 else 0)"
    and "tr_extra_turn res \<longleftrightarrow> gm_extra_turn_on_doubles g \<and> is_doubles r \<and> \<not> tr_forfeited res \<and> \<not> tr_won res"
    and "tr_forfeited res \<longleftrightarrow> (if is_doubles r then gm_doubles_streak g + 1 else 0) \<ge> gm_max_doubles g"
    and "tr_landed res = (if tr_forfeited res then tr_start res else advance g (tr_start res) (total r))"
    and "tr_end res = (if tr_forfeited res then tr_start res
        else if tr_landed res \<noteq> tr_start res then resolve (gm_board g) (tr_landed res) else tr_landed res)"
proof -
  have g': "g' = fst (move_player g r)" and res: "res = snd (move_player g r)" using assms(1) by auto
  note defs = move_player_def Let_def i_def
  show "gm_players g' = (gm_players g)[i := (gm_players g ! i)\<lparr>pl_position := tr_end res\<rparr>]"
    "gm_board g' = gm_board g" "gm_dice g' = gm_dice g" "gm_max_doubles g' = gm_max_doubles g"
    "gm_history g' = gm_history g @ [res]" "tr_turn_no res = length (gm_history g) + 1"
    "tr_won res \<longleftrightarrow> tr_end res = bd_size (gm_board g)"
    "gm_status g' = (if tr_won res then FINISHED else gm_status g)"
    "gm_winner g' = (if tr_won res then Some i else gm_winner g)"
    "gm_current g' = (if tr_extra_turn res then i else (i + 1) mod length (gm_players g))"
    "tr_player res = pl_name (gm_players g ! i)" "tr_start res = pl_position (gm_players g ! i)"
    "tr_extra_turn res \<longleftrightarrow> gm_extra_turn_on_doubles g \<and> is_doubles r \<and> \<not> tr_forfeited res \<and> \<not> tr_won res"
    "tr_forfeited res \<longleftrightarrow> (if is_doubles r then gm_doubles_streak g + 1 else 0) \<ge> gm_max_doubles g"
    "tr_landed res = (if tr_forfeited res then tr_start res else advance g (tr_start res) (total r))"
    "gm_doubles_streak g' = (if tr_extra_turn res then gm_doubles_streak g + 1 else 0)"
    by (simp_all add: g' res defs)
  show "tr_end res = (if tr_forfeited res then tr_start res
        else if tr_landed res \<noteq> tr_start res then resolve (gm_board g) (tr_landed res) else tr_landed res)"
    by (simp add: res defs resolve_def jump_at_def split: option.split)
qed

lemma move_player_inv:
  assumes inv: "game_inv g" and nf: "gm_status g \<noteq> FINISHED"
    and r: "0 \<le> total r" "total r \<le> bd_size (gm_board g)"
  shows "game_inv (fst (move_player g r))"
proof -
  obtain g' res where mp: "move_player g r = (g', res)" by (cases "move_player g r")
  note f = move_player_facts [OF mp]
  let ?i = "gm_current g" and ?sz = "bd_size (gm_board g)"
  have bok: "board_ok (gm_board g)" and i: "?i < length (gm_players g)"
    and pos: "\<And>k. k < length (gm_players g) \<Longrightarrow>
      0 \<le> pl_position (gm_players g ! k) \<and> pl_position (gm_players g ! k) < ?sz"
    and w: "gm_winner g = None"
    using inv nf by (auto simp: game_inv_def split: option.splits)
  have st: "0 \<le> tr_start res" "tr_start res < ?sz" using pos [OF i] f(12) by auto
  have ld: "0 \<le> tr_landed res" "tr_landed res \<le> ?sz"
    using advance_bounds [OF st r] st f(16) by auto
  have en: "0 \<le> tr_end res" "tr_end res \<le> ?sz"
    using resolve_bounds [OF bok ld] st ld f(17) by auto
  have streak: "0 \<le> gm_doubles_streak g'" "gm_doubles_streak g' < gm_max_doubles g"
    using inv f(13-15) by (auto simp: game_inv_def split: if_splits)
  have names: "map pl_name (gm_players g') = map pl_name (gm_players g)"
    using i by (simp add: f(1) map_update list_update_same_conv)
  have len: "length (gm_players g') = length (gm_players g)" by (simp add: f(1))
  have cur: "gm_current g' < length (gm_players g')"
    using i unfolding len f(10) by (cases "tr_extra_turn res") (simp_all add: mod_less_divisor [OF le_less_trans [OF le0 i]])
  have ps: "0 \<le> pl_position (gm_players g' ! k)
      \<and> (if gm_status g' = FINISHED \<and> gm_winner g' = Some k
          then pl_position (gm_players g' ! k) = ?sz else pl_position (gm_players g' ! k) < ?sz)"
    if "k < length (gm_players g')" for k
    using that pos [of k] en i nf w f(7)
    by (auto simp: len f(1,8,9) nth_list_update)
  show ?thesis
    using inv i streak names len cur ps nf w
    by (simp add: mp game_inv_def f(2-9) split: option.splits)
qed

lemma play_turn_inv: "game_inv g \<Longrightarrow> game_inv (fst (play_turn g who))"
proof -
  assume inv: "game_inv g"
  let ?g0 = "g\<lparr>gm_status := IN_PROGRESS, gm_dice := fst (roll_dice (gm_dice g))\<rparr>"
  have keep: "game_inv ?g0" if "gm_status g \<noteq> FINISHED"
    using inv that roll_dice_keeps by (auto simp: game_inv_def split: option.splits)
  show ?thesis
  proof (cases "gm_status g = FINISHED
      \<or> who \<noteq> None \<and> who \<noteq> Some (pl_name (gm_players g ! gm_current g))")
    case True
    then show ?thesis using inv by (auto simp: play_turn_def Let_def)
  next
    case False
    then have nf: "gm_status g \<noteq> FINISHED" by simp
    obtain d x where rd: "roll_dice (gm_dice g) = (d, x)" by (cases "roll_dice (gm_dice g)")
    show ?thesis
    proof (cases x)
      case (Inl e)
      then show ?thesis using False rd keep [OF nf] by (auto simp: play_turn_def Let_def)
    next
      case (Inr r)
      have "dice_ok (bd_size (gm_board g)) (gm_dice g)" using inv by (simp add: game_inv_def)
      then have "0 \<le> total r \<and> total r \<le> bd_size (gm_board g)"
        using roll_dice_ok rd Inr by blast
      then have "game_inv (fst (move_player ?g0 r))"
        using keep [OF nf] by (intro move_player_inv) auto
      then show ?thesis
        using False rd Inr by (auto simp: play_turn_def Let_def split: prod.split)
    qed
  qed
qed

interpretation turns: invariant_machine play_turn game_inv
  by unfold_locales (rule play_turn_inv)

lemma play_turn_success:
  assumes "play_turn g who = (g', Inr res)"
  obtains d r where "gm_status g \<noteq> FINISHED" "roll_dice (gm_dice g) = (d, Inr r)"
    "who = None \<or> who = Some (pl_name (gm_players g ! gm_current g))"
    "move_player (g\<lparr>gm_status := IN_PROGRESS, gm_dice := d\<rparr>) r = (g', res)"
  using assms
  by (auto simp: play_turn_def Let_def split: if_splits prod.splits sum.splits)

lemma play_result:
  assumes "game_inv g" "play g k = (g', out)"
  shows "game_inv g' \<and> (\<forall>n. out = Inr n \<longrightarrow>
      gm_status g' = FINISHED \<and> (\<exists>i < length (gm_players g'). gm_winner g' = Some i
        \<and> pl_name (gm_players g' ! i) = n \<and> pl_position (gm_players g' ! i) = bd_size (gm_board g')))
    \<and> length (gm_history g') \<le> length (gm_history g) + k"
  using assms
proof (induction k arbitrary: g)
  case (Suc k)
  obtain h x where pt: "play_turn g None = (h, x)" by (cases "play_turn g None")
  have inv: "game_inv h" using play_turn_inv [OF Suc.prems(1), of None] pt by simp
  show ?case
  proof (cases x)
    case (Inl e)
    have "gm_history h = gm_history g"
      using pt Inl by (auto simp: play_turn_def Let_def split: if_splits prod.splits sum.splits)
    then show ?thesis using Suc.prems(2) pt Inl inv by auto
  next
    case (Inr res)
    from pt [unfolded Inr] have hist: "gm_history h = gm_history g @ [res]"
      and won: "tr_won res \<Longrightarrow> gm_winner h \<noteq> None"
      by (rule play_turn_success, use move_player_facts(5,9) in fastforce)+
    show ?thesis
    proof (cases "tr_won res")
      case True
      then obtain i where i: "gm_winner h = Some i" using won by blast
      then have "gm_status h = FINISHED" "i < length (gm_players h)"
          "pl_position (gm_players h ! i) = bd_size (gm_board h)"
        using inv by (auto simp: game_inv_def)
      then show ?thesis
        using Suc.prems(2) pt Inr True inv i hist by (auto simp: winner_name_def)
    next
      case False
      then have "play h k = (g', out)" using Suc.prems(2) pt Inr by simp
      from Suc.IH [OF inv this] show ?thesis using hist by simp
    qed
  qed
qed auto

section \<open>Properties\<close>

text \<open>
  Board construction accepts exactly the layouts that obey the documented rules (jumps on
  the board, snakes down, ladders up, nothing starting on the last cell, one jump per cell, no
  chaining), keeps every jump, and refuses every other layout with \<open>InvalidBoardError\<close>.
\<close>

theorem new_board_accepts:
  "new_board sz snakes ladders =
     (if valid_layout sz snakes ladders
      then Inr \<lparr>bd_size = sz, bd_jumps = jumps_of (snakes @ ladders)\<rparr> else Inl InvalidBoardError)"
  by (rule new_board_eq)

text \<open>
  On a board that was built, one look at the jump table is enough: resolving a cell stays
  on the board and resolving again changes nothing, so snakes and ladders cannot form a cycle.
\<close>

theorem resolve_idempotent:
  assumes "new_board sz snakes ladders = Inr b" "1 \<le> c" "c \<le> sz"
  shows "resolve b (resolve b c) = resolve b c \<and> 1 \<le> resolve b c \<and> resolve b c \<le> sz"
proof -
  have b: "board_ok b" "bd_size b = sz" using new_board_ok [OF assms(1)] by auto
  show ?thesis
    using board_ok_jump [OF b(1), of c] assms(2,3) b(2)
    by (cases "jump_at b c") (auto simp: resolve_def jump_at_def)
qed

definition demo_board :: board where
  "demo_board = \<lparr>bd_size = 10, bd_jumps = jumps_of [(9, 2), (3, 7)]\<rparr>"

lemma demo_board_new: "new_board 10 [(9, 2)] [(3, 7)] = Inr demo_board"
  by code_simp

theorem resolve_idempotent_witness:
  "resolve demo_board (resolve demo_board 9) = resolve demo_board 9 \<and> resolve demo_board 9 = 2"
proof -
  have "resolve demo_board 9 = 2" by code_simp
  then show ?thesis using resolve_idempotent [OF demo_board_new, of 9] by simp
qed

text \<open>The layout of \<open>default_board\<close> obeys the rules, so it never raises.\<close>

theorem default_board_valid:
  "\<exists>b. default_board = Inr b \<and> board_ok b \<and> bd_size b = 100 \<and> length (bd_jumps b) = 21"
proof -
  define b where "b = projr default_board"
  have d: "default_board = Inr b" unfolding b_def by code_simp
  then have "board_ok b \<and> bd_size b = 100" using new_board_ok by (simp add: default_board_def)
  moreover have "length (bd_jumps b) = 21" unfolding b_def by code_simp
  ultimately show ?thesis using d by blast
qed

text \<open>
  Whatever turn requests arrive, with or without a player name, no token leaves the board;
  the game is finished exactly when a player stands on the last cell, that player is the
  recorded winner and the only one there; the turn numbers are consecutive; and nobody
  collects as many doubles in a row as the limit without losing the turn.
\<close>

theorem turns_keep_board:
  assumes "new_board sz snakes ladders = Inr b" "new_game b names d ov ex md = Inr g0"
    and "dice_ok sz d" "1 \<le> md" and g: "g = run_ops play_turn g0 reqs"
  shows "(\<forall>p \<in> set (gm_players g). 0 \<le> pl_position p \<and> pl_position p \<le> sz)
    \<and> (\<forall>i < length (gm_players g).
         pl_position (gm_players g ! i) = sz \<longleftrightarrow> gm_status g = FINISHED \<and> gm_winner g = Some i)
    \<and> (gm_status g = FINISHED \<longleftrightarrow> gm_winner g \<noteq> None)
    \<and> map tr_turn_no (gm_history g) = [1..<Suc (length (gm_history g))]
    \<and> gm_doubles_streak g < gm_max_doubles g"
proof -
  have b: "board_ok b" "bd_size b = sz" using new_board_ok [OF assms(1)] by auto
  have inv0: "game_inv g0" by (rule snl_game_new_inv [OF assms(2)]) (use b assms in auto)
  have inv: "game_inv g" unfolding g by (rule turns.run_inv [OF inv0])
  have frame: "gm_board (fst (play_turn h w)) = gm_board h" for h w
    by (auto simp: play_turn_def Let_def move_player_def split: prod.split sum.split)
  have "gm_board (run_ops play_turn h rs) = gm_board h" for h rs
    by (induction rs arbitrary: h) (auto simp: frame)
  then have "gm_board g = b" using assms(2) g by (auto simp: new_game_def split: if_splits)
  then have "0 \<le> pl_position (gm_players g ! i) \<and> pl_position (gm_players g ! i) \<le> sz
      \<and> (pl_position (gm_players g ! i) = sz \<longleftrightarrow> gm_status g = FINISHED \<and> gm_winner g = Some i)"
    if "i < length (gm_players g)" for i
    using inv that b(2) by (fastforce simp: game_inv_def split: if_splits)
  moreover have "gm_status g = FINISHED \<longleftrightarrow> gm_winner g \<noteq> None"
    using inv by (auto simp: game_inv_def split: option.splits)
  ultimately show ?thesis
    using inv by (auto simp: game_inv_def in_set_conv_nth)
qed

definition demo_game :: game where
  "demo_game = projr (new_game demo_board [''Alice'', ''Bob'']
     (scripted_dice [Face 3, Faces [2, 2], Face 1, Face 4, Face 2, Face 5, Face 1, Face 2]) STAY True 3)"

lemma snl_demo_game_new:
  "new_game demo_board [''Alice'', ''Bob'']
     (scripted_dice [Face 3, Faces [2, 2], Face 1, Face 4, Face 2, Face 5, Face 1, Face 2]) STAY True 3
   = Inr demo_game"
  by (simp add: demo_game_def new_game_def)

theorem turns_keep_board_witness:
  "positions (run_ops play_turn demo_game [None, None, Some ''Alice'', None]) = [(''Alice'', 7), (''Bob'', 5)]
   \<and> gm_doubles_streak (run_ops play_turn demo_game [None, None, Some ''Alice'', None])
      < gm_max_doubles (run_ops play_turn demo_game [None, None, Some ''Alice'', None])"
proof -
  have "positions (run_ops play_turn demo_game [None, None, Some ''Alice'', None])
      = [(''Alice'', 7), (''Bob'', 5)]" by code_simp
  then show ?thesis
    using turns_keep_board [OF demo_board_new snl_demo_game_new _ _ refl, of "[None, None, Some ''Alice'', None]"]
    by auto
qed

text \<open>
  A successful turn moves the current player's token and no other; a request on behalf of
  another player, or after the end, changes nothing at all. The next player follows in order
  unless the turn earned an extra one, which takes doubles that neither win nor forfeit.
\<close>

theorem play_turn_order:
  assumes "game_inv g" "play_turn g who = (g', out)"
  shows "(case out of
      Inr res \<Rightarrow> tr_player res = pl_name (gm_players g ! gm_current g)
        \<and> (who = None \<or> who = Some (tr_player res))
        \<and> (\<forall>j. j \<noteq> gm_current g \<longrightarrow> gm_players g' ! j = gm_players g ! j)
        \<and> pl_position (gm_players g' ! gm_current g) = tr_end res
        \<and> gm_current g' = (if tr_extra_turn res then gm_current g
                           else (gm_current g + 1) mod length (gm_players g))
        \<and> (tr_extra_turn res \<longrightarrow> is_doubles (tr_roll res) \<and> \<not> tr_forfeited res \<and> \<not> tr_won res)
        \<and> (tr_forfeited res \<longrightarrow> tr_end res = tr_start res)
    | Inl e \<Rightarrow> gm_players g' = gm_players g \<and> gm_current g' = gm_current g
        \<and> (e = NotYourTurnError \<or> e = GameOverError \<longrightarrow> g' = g))"
proof (cases out)
  case (Inl e)
  have "e' = Builtin RuntimeError" if "roll_dice d = (d', Inl e')" for d d' e'
    using that by (cases d) (auto split: if_splits)
  then show ?thesis using assms(2) Inl
    by (fastforce simp: play_turn_def Let_def split: if_splits prod.splits sum.splits)
next
  case (Inr res)
  from assms(2) [unfolded Inr] show ?thesis
  proof (rule play_turn_success)
    fix d r
    assume who: "who = None \<or> who = Some (pl_name (gm_players g ! gm_current g))"
      and mp: "move_player (g\<lparr>gm_status := IN_PROGRESS, gm_dice := d\<rparr>) r = (g', res)"
    note f = move_player_facts [OF mp]
    have "tr_roll res = r" using mp by (auto simp: move_player_def Let_def)
    moreover have "gm_current g < length (gm_players g)" using assms(1) by (simp add: game_inv_def)
    moreover have "tr_forfeited res \<Longrightarrow> tr_end res = tr_start res" using f(17) by simp
    ultimately show ?thesis using who f(1,10,11,14) by (simp add: Inr)
  qed
qed

theorem play_turn_order_witness:
  "game_inv demo_game \<and> gm_players (fst (play_turn demo_game (Some ''Bob''))) = gm_players demo_game"
proof -
  have inv: "game_inv demo_game"
    by (rule snl_game_new_inv [OF snl_demo_game_new]) (use new_board_ok [OF demo_board_new] in auto)
  have "snd (play_turn demo_game (Some ''Bob'')) = Inl NotYourTurnError" by code_simp
  then have p: "play_turn demo_game (Some ''Bob'') =
      (fst (play_turn demo_game (Some ''Bob'')), Inl NotYourTurnError)" by (metis prod.collapse)
  show ?thesis using inv play_turn_order [OF inv p] by simp
qed

text \<open>
  \<open>play\<close> takes at most \<open>max_turns\<close> turns, and when it returns a name the game is finished
  and the player of that name is the winner and stands on the last cell.
\<close>

theorem play_returns_winner:
  assumes "game_inv g" "play g k = (g', Inr n)"
  shows "gm_status g' = FINISHED \<and> winner_name g' = Some n
    \<and> (\<exists>p \<in> set (gm_players g'). pl_name p = n \<and> pl_position p = bd_size (gm_board g'))
    \<and> length (gm_history g') \<le> length (gm_history g) + k"
  using play_result [OF assms] by (auto simp: winner_name_def)

definition quick_game :: game where
  "quick_game = projr (new_game demo_board [''Alice'', ''Bob''] (scripted_dice [Face 8, Face 4, Face 2]) STAY True 3)"

theorem play_returns_winner_witness:
  "play quick_game 5 = (fst (play quick_game 5), Inr ''Alice'')
   \<and> gm_status (fst (play quick_game 5)) = FINISHED"
proof -
  have new: "new_game demo_board [''Alice'', ''Bob''] (scripted_dice [Face 8, Face 4, Face 2]) STAY True 3
      = Inr quick_game" by (simp add: quick_game_def new_game_def)
  have inv: "game_inv quick_game"
    by (rule snl_game_new_inv [OF new]) (use new_board_ok [OF demo_board_new] in auto)
  have "snd (play quick_game 5) = Inr ''Alice''" by code_simp
  then have p: "play quick_game 5 = (fst (play quick_game 5), Inr ''Alice'')" by (metis prod.collapse)
  then show ?thesis using play_returns_winner [OF inv p] by simp
qed

text \<open>
  The bound on the dice is needed: with the \<open>BOUNCE\<close> policy and a roll longer than the
  board, \<open>_advance\<close> sends a token below cell 0. A two-cell board and an ordinary die do it.
\<close>

theorem bounce_leaves_board:
  "\<exists>b g. new_board 2 [] [] = Inr b
     \<and> new_game b [''Alice'', ''Bob''] (scripted_dice [Face 6]) BOUNCE True 3 = Inr g
     \<and> positions (fst (play_turn g None)) = [(''Alice'', - 2), (''Bob'', 0)]"
proof -
  let ?b = "projr (new_board 2 [] [])"
  let ?g = "projr (new_game ?b [''Alice'', ''Bob''] (scripted_dice [Face 6]) BOUNCE True 3)"
  have "new_board 2 [] [] = Inr ?b" by code_simp
  moreover have "new_game ?b [''Alice'', ''Bob''] (scripted_dice [Face 6]) BOUNCE True 3 = Inr ?g" by (simp add: new_game_def)
  moreover have "positions (fst (play_turn ?g None)) = [(''Alice'', - 2), (''Bob'', 0)]" by code_simp
  ultimately show ?thesis by blast
qed

end
