(* ===== verification/Change_Making.thy ===== *)
theory Change_Making
  imports Prelude
begin

text \<open>
  Bounded coin change. The vending machine (\<open>make_change\<close>) and the cash dispenser of the ATM
  pay out an amount from a limited stock of each denomination by the same dynamic program: a
  dictionary from reachable amounts to the best purse found so far, extended one denomination
  at a time. A dictionary is an association list in insertion order, because the program
  iterates over it; a purse (a \<open>Counter\<close>) is one too. The worth of a denomination is a
  parameter.
\<close>

section \<open>The dynamic program\<close>

type_synonym 'd purse = "('d \<times> int) list"

definition coins :: "'d purse \<Rightarrow> int" where
  "coins p = sum_list (map snd p)"

definition worth :: "('d \<Rightarrow> int) \<Rightarrow> 'd purse \<Rightarrow> int" where
  "worth w p = sum_list (map (\<lambda>(d, n). w d * n) p)"

definition keep_better :: "int \<Rightarrow> 'd purse \<Rightarrow> (int \<times> 'd purse) list \<Rightarrow> (int \<times> 'd purse) list" where
  "keep_better tot cand layer =
     (case map_of layer tot of
        None \<Rightarrow> AList.update tot cand layer
      | Some prev \<Rightarrow> if coins cand < coins prev then AList.update tot cand layer else layer)"

text \<open>The innermost loop, over \<open>k\<close> in \<open>range(1, n + 1)\<close>, with its \<open>break\<close>.\<close>

fun try_counts :: "('d \<Rightarrow> int) \<Rightarrow> int \<Rightarrow> 'd \<Rightarrow> int \<Rightarrow> 'd purse \<Rightarrow> (int \<times> 'd purse) list \<Rightarrow> int list
    \<Rightarrow> (int \<times> 'd purse) list" where
  "try_counts w amount d reached used layer [] = layer"
| "try_counts w amount d reached used layer (k # ks) =
     (let tot = reached + k * w d in
      if tot > amount then layer
      else try_counts w amount d reached used (keep_better tot (used @ [(d, k)]) layer) ks)"

text \<open>The loop over the items of \<open>best\<close>, which fills the next layer.\<close>

fun extend_layer :: "('d \<Rightarrow> int) \<Rightarrow> int \<Rightarrow> 'd \<Rightarrow> int \<Rightarrow> (int \<times> 'd purse) list \<Rightarrow> (int \<times> 'd purse) list
    \<Rightarrow> (int \<times> 'd purse) list" where
  "extend_layer w amount d n layer [] = layer"
| "extend_layer w amount d n layer ((reached, used) # items) =
     extend_layer w amount d n (try_counts w amount d reached used layer [1..n]) items"

text \<open>The loop over the denominations.\<close>

fun change_dp :: "('d \<Rightarrow> int) \<Rightarrow> ('d \<Rightarrow> int) \<Rightarrow> int \<Rightarrow> (int \<times> 'd purse) list \<Rightarrow> 'd list
    \<Rightarrow> (int \<times> 'd purse) list" where
  "change_dp w av amount best [] = best"
| "change_dp w av amount best (d # ds) =
     change_dp w av amount (extend_layer w amount d (av d) best best) ds"

section \<open>Specification\<close>

text \<open>
  A purse pays out of the stock \<open>av\<close> if it names each denomination once and takes between one
  and all of the pieces in stock. A choice is the same as a function, zero for what is not used.
\<close>

definition payable :: "('d \<Rightarrow> int) \<Rightarrow> 'd set \<Rightarrow> 'd purse \<Rightarrow> bool" where
  "payable av D p \<longleftrightarrow> distinct (map fst p) \<and> (\<forall>(d, n) \<in> set p. d \<in> D \<and> 1 \<le> n \<and> n \<le> av d)"

definition choice_ok :: "('d \<Rightarrow> int) \<Rightarrow> 'd set \<Rightarrow> ('d \<Rightarrow> int) \<Rightarrow> bool" where
  "choice_ok av D c \<longleftrightarrow> (\<forall>d \<in> D. 0 \<le> c d \<and> (0 < c d \<longrightarrow> c d \<le> av d))"

lemma coins_append [simp]: "coins (p @ q) = coins p + coins q"
  by (simp add: coins_def)

lemma coins_simps [simp]: "coins [] = 0" "coins [(d, n)] = n"
  by (simp_all add: coins_def)

lemma worth_append [simp]: "worth w (p @ q) = worth w p + worth w q"
  by (simp add: worth_def)

lemma worth_simps [simp]: "worth w [] = 0" "worth w [(d, n)] = w d * n"
  by (simp_all add: worth_def)

subsection \<open>Every entry is a payout of its amount\<close>

definition sound :: "('d \<Rightarrow> int) \<Rightarrow> ('d \<Rightarrow> int) \<Rightarrow> 'd set \<Rightarrow> (int \<times> 'd purse) list \<Rightarrow> bool" where
  "sound w av D layer \<longleftrightarrow> (\<forall>v p. map_of layer v = Some p \<longrightarrow> payable av D p \<and> worth w p = v)"

lemma sound_mono: "sound w av D layer \<Longrightarrow> D \<subseteq> E \<Longrightarrow> sound w av E layer"
  by (fastforce simp: sound_def payable_def)

lemma keep_better_sound:
  "sound w av D layer \<Longrightarrow> payable av D p \<Longrightarrow> worth w p = v \<Longrightarrow> sound w av D (keep_better v p layer)"
  by (auto simp: sound_def keep_better_def update_conv' split: option.splits)

lemma try_counts_sound:
  assumes "sound w av (insert d D) layer" "d \<notin> D" "payable av D used" "worth w used = reached"
    and "\<forall>k \<in> set ks. 1 \<le> k \<and> k \<le> av d"
  shows "sound w av (insert d D) (try_counts w amount d reached used layer ks)"
  using assms(1,5)
proof (induction ks arbitrary: layer)
  case (Cons k ks)
  have "payable av (insert d D) (used @ [(d, k)])"
    using assms(2,3) Cons.prems by (fastforce simp: payable_def)
  then have "sound w av (insert d D) (keep_better (reached + k * w d) (used @ [(d, k)]) layer)"
    using Cons.prems assms(4) by (intro keep_better_sound) (auto simp: mult.commute)
  then show ?case using Cons by (simp add: Let_def)
qed simp

lemma extend_layer_sound:
  assumes "sound w av (insert d D) layer" "d \<notin> D"
    and "\<forall>(v, p) \<in> set items. payable av D p \<and> worth w p = v"
  shows "sound w av (insert d D) (extend_layer w amount d (av d) layer items)"
  using assms(1,3)
proof (induction items arbitrary: layer)
  case (Cons x items)
  obtain v p where x: "x = (v, p)" by (cases x)
  have "sound w av (insert d D) (try_counts w amount d v p layer [1..av d])"
    using Cons.prems assms(2) x by (intro try_counts_sound) auto
  then show ?case using Cons x by simp
qed simp

subsection \<open>Every choice is matched by an entry with as few coins\<close>

definition covers :: "(int \<times> 'd purse) list \<Rightarrow> int \<Rightarrow> int \<Rightarrow> bool" where
  "covers layer v n \<longleftrightarrow> (\<exists>p. map_of layer v = Some p \<and> coins p \<le> n)"

lemma keep_better_covers: "covers layer v n \<Longrightarrow> covers (keep_better u p layer) v n"
  by (auto simp: covers_def keep_better_def update_conv' split: option.splits)

lemma keep_better_new: "covers (keep_better v p layer) v (coins p)"
  by (auto simp: covers_def keep_better_def update_conv' split: option.splits)

lemma try_counts_covers: "covers layer v n \<Longrightarrow> covers (try_counts w amount d reached used layer ks) v n"
  by (induction ks arbitrary: layer) (auto simp: Let_def keep_better_covers)

lemma extend_layer_covers: "covers layer v n \<Longrightarrow> covers (extend_layer w amount d m layer items) v n"
  by (induction items arbitrary: layer) (auto simp: try_counts_covers)

lemma try_counts_hits:
  assumes "0 < w d" "k \<in> set ks" "sorted ks" "reached + k * w d \<le> amount"
  shows "covers (try_counts w amount d reached used layer ks) (reached + k * w d) (coins used + k)"
  using assms(2,3)
proof (induction ks arbitrary: layer)
  case (Cons j ks)
  have "j \<le> k" using Cons.prems by auto
  then have "reached + j * w d \<le> amount"
    using assms(1,4) mult_right_mono [of j k "w d"] by linarith
  moreover have "covers (keep_better (reached + k * w d) (used @ [(d, k)]) layer) (reached + k * w d) (coins used + k)"
    using keep_better_new [of "reached + k * w d" "used @ [(d, k)]"] by simp
  ultimately show ?case using Cons by (auto simp: Let_def try_counts_covers)
qed simp

lemma extend_layer_hits:
  assumes "0 < w d" "1 \<le> k" "k \<le> m" "v + k * w d \<le> amount" "(v, p) \<in> set items"
  shows "covers (extend_layer w amount d m layer items) (v + k * w d) (coins p + k)"
  using assms(5)
proof (induction items arbitrary: layer)
  case (Cons x items)
  show ?case
  proof (cases "x = (v, p)")
    case True
    have "covers (try_counts w amount d v p layer [1..m]) (v + k * w d) (coins p + k)"
      using assms by (intro try_counts_hits) auto
    then show ?thesis using True by (simp add: extend_layer_covers)
  next
    case False
    then show ?thesis using Cons by (cases x) auto
  qed
qed simp

definition complete :: "('d \<Rightarrow> int) \<Rightarrow> ('d \<Rightarrow> int) \<Rightarrow> 'd set \<Rightarrow> int \<Rightarrow> (int \<times> 'd purse) list \<Rightarrow> bool" where
  "complete w av D amount layer \<longleftrightarrow>
     (\<forall>c. choice_ok av D c \<longrightarrow> (\<Sum>d \<in> D. w d * c d) \<le> amount \<longrightarrow>
        covers layer (\<Sum>d \<in> D. w d * c d) (\<Sum>d \<in> D. c d))"

lemma extend_layer_complete:
  assumes "finite D" "d \<notin> D" "0 < w d" "complete w av D amount best"
  shows "complete w av (insert d D) amount (extend_layer w amount d (av d) best best)"
  unfolding complete_def
proof (intro allI impI)
  fix c
  assume ok: "choice_ok av (insert d D) c" and le: "(\<Sum>x \<in> insert d D. w x * c x) \<le> amount"
  let ?v = "\<Sum>x \<in> D. w x * c x" and ?n = "\<Sum>x \<in> D. c x"
  have sums: "(\<Sum>x \<in> insert d D. w x * c x) = ?v + c d * w d" "(\<Sum>x \<in> insert d D. c x) = ?n + c d"
    using assms(1,2) by (simp_all add: mult.commute)
  have c0: "0 \<le> c d" "0 < c d \<Longrightarrow> c d \<le> av d" "choice_ok av D c"
    using ok by (auto simp: choice_ok_def)
  then have "0 \<le> c d * w d" using assms(3) by simp
  then have "covers best ?v ?n" using assms(4) c0(3) le sums by (auto simp: complete_def)
  then obtain p where p: "map_of best ?v = Some p" "coins p \<le> ?n" by (auto simp: covers_def)
  show "covers (extend_layer w amount d (av d) best best)
      (\<Sum>x \<in> insert d D. w x * c x) (\<Sum>x \<in> insert d D. c x)"
  proof (cases "c d = 0")
    case True
    then show ?thesis using \<open>covers best ?v ?n\<close> by (simp add: sums extend_layer_covers)
  next
    case False
    then have "covers (extend_layer w amount d (av d) best best) (?v + c d * w d) (coins p + c d)"
      using assms(3) c0 le sums map_of_SomeD [OF p(1)] by (intro extend_layer_hits) auto
    then show ?thesis using p(2) unfolding sums covers_def by force
  qed
qed

subsection \<open>The whole program\<close>

lemma change_dp_invariant:
  assumes "finite D" "set ds \<inter> D = {}" "distinct ds" "\<forall>d \<in> set ds. 0 < w d"
    and "distinct (map fst best)" "sound w av D best" "complete w av D amount best"
  shows "sound w av (D \<union> set ds) (change_dp w av amount best ds)
    \<and> complete w av (D \<union> set ds) amount (change_dp w av amount best ds)"
  using assms
proof (induction ds arbitrary: D best)
  case (Cons d ds)
  let ?b = "extend_layer w amount d (av d) best best"
  have "payable av D p \<and> worth w p = v" if "(v, p) \<in> set best" for v p
    using that Cons.prems(5,6) by (simp add: sound_def)
  then have s: "sound w av (insert d D) ?b"
    using Cons.prems sound_mono [OF Cons.prems(6), of "insert d D"] by (intro extend_layer_sound) auto
  have c: "complete w av (insert d D) amount ?b"
    using Cons.prems by (intro extend_layer_complete) auto
  have "distinct (map fst (keep_better v p l))" if "distinct (map fst l)" for v p and l :: "(int \<times> 'a purse) list"
    using that by (simp add: keep_better_def distinct_update split: option.split)
  then have t: "distinct (map fst (try_counts w amount d v p l ks))"
    if "distinct (map fst l)" for v p l and ks :: "int list"
    using that by (induction ks arbitrary: l) (simp_all add: Let_def)
  have "distinct (map fst (extend_layer w amount d (av d) l items))" if "distinct (map fst l)" for l items
    using that by (induction items arbitrary: l) (auto simp: t)
  then have "distinct (map fst ?b)" using Cons.prems(5) by simp
  then have "sound w av (insert d D \<union> set ds) (change_dp w av amount ?b ds)
      \<and> complete w av (insert d D \<union> set ds) amount (change_dp w av amount ?b ds)"
    using Cons.prems s c by (intro Cons.IH) auto
  then show ?case by simp
qed simp

lemma change_dp_correct:
  assumes "distinct ds" "\<forall>d \<in> set ds. 0 < w d"
  shows "sound w av (set ds) (change_dp w av amount [(0, [])] ds)"
    and "complete w av (set ds) amount (change_dp w av amount [(0, [])] ds)"
proof -
  have "sound w av {} [(0, [])]" by (simp add: sound_def payable_def)
  moreover have "complete w av {} amount [(0, [])]" by (simp add: complete_def covers_def)
  ultimately show "sound w av (set ds) (change_dp w av amount [(0, [])] ds)"
    "complete w av (set ds) amount (change_dp w av amount [(0, [])] ds)"
    using change_dp_invariant [of "{}" ds w "[(0, [])]" av amount] assms by auto
qed

section \<open>The interface\<close>

text \<open>How many pieces of a denomination a purse holds (a missing key counts as zero).\<close>

definition purse_count :: "'d purse \<Rightarrow> 'd \<Rightarrow> int" where
  "purse_count p d = (case map_of p d of None \<Rightarrow> 0 | Some n \<Rightarrow> n)"

lemma purse_count_Cons: "purse_count ((x, n) # p) d = (if d = x then n else purse_count p d)"
  by (simp add: purse_count_def)

lemma purse_sum:
  assumes "finite D" "distinct (map fst p)" "fst ` set p \<subseteq> D"
  shows "(\<Sum>d \<in> D. f d * purse_count p d) = sum_list (map (\<lambda>(d, n). f d * n) p)"
  using assms(2,3)
proof (induction p)
  case Nil
  then show ?case by (simp add: purse_count_def)
next
  case (Cons x p)
  obtain a n where x: "x = (a, n)" by (cases x)
  have "map_of p a = None" using Cons.prems x by (simp add: map_of_eq_None_iff)
  then have "purse_count p a = 0" by (simp add: purse_count_def)
  then have "(\<Sum>d \<in> D. f d * purse_count (x # p) d) = (\<Sum>d \<in> D. f d * purse_count p d) + f a * n"
    using sum_change_one [OF assms(1), of a "\<lambda>d. f d * purse_count (x # p) d" "\<lambda>d. f d * purse_count p d"]
      Cons.prems x by (simp add: purse_count_Cons)
  then show ?case using Cons x by simp
qed

lemma payable_count:
  assumes "payable av D p" "finite D"
  shows "worth w p = (\<Sum>d \<in> D. w d * purse_count p d)" "coins p = (\<Sum>d \<in> D. purse_count p d)"
    "choice_ok av D (purse_count p)" "0 \<le> purse_count p d" "d \<notin> D \<Longrightarrow> purse_count p d = 0"
    "0 < purse_count p d \<Longrightarrow> purse_count p d \<le> av d"
proof -
  have p: "distinct (map fst p)" "fst ` set p \<subseteq> D" and n: "\<And>d n. (d, n) \<in> set p \<Longrightarrow> 1 \<le> n \<and> n \<le> av d"
    using assms(1) by (auto simp: payable_def)
  show "worth w p = (\<Sum>d \<in> D. w d * purse_count p d)" by (simp add: worth_def purse_sum [OF assms(2) p])
  show "coins p = (\<Sum>d \<in> D. purse_count p d)"
  proof -
    have "sum_list (map snd p) = sum_list (map (\<lambda>(d, n). 1 * n) p)" by (induction p) auto
    then show ?thesis using purse_sum [OF assms(2) p, of "\<lambda>_. 1"] by (simp only: coins_def mult_1)
  qed
  have c: "purse_count p x = 0 \<or> 1 \<le> purse_count p x \<and> purse_count p x \<le> av x" for x
    using n map_of_SomeD [of p x] by (auto simp: purse_count_def split: option.split)
  then have c': "0 \<le> purse_count p x \<and> (0 < purse_count p x \<longrightarrow> purse_count p x \<le> av x)" for x
    by (metis less_irrefl order.trans order_refl zero_le_one)
  then show "choice_ok av D (purse_count p)" "0 \<le> purse_count p d"
    "0 < purse_count p d \<Longrightarrow> purse_count p d \<le> av d"
    unfolding choice_ok_def by blast+
  show "d \<notin> D \<Longrightarrow> purse_count p d = 0"
    using p(2) by (cases "map_of p d") (force simp: purse_count_def dest: map_of_SomeD)+
qed

text \<open>
  What a client of a change maker relies on: it pays the exact amount out of the stock, it
  finds a payout whenever there is one, and it uses as few pieces as possible.
\<close>

locale exact_change =
  fixes pay :: "int \<Rightarrow> ('d \<Rightarrow> int) \<Rightarrow> 'd purse option"
    and w :: "'d \<Rightarrow> int"
    and D :: "'d set"
  assumes finite_D: "finite D"
    and pay_sound: "pay amount av = Some p \<Longrightarrow> payable av D p \<and> worth w p = amount"
    and pay_best: "choice_ok av D c \<Longrightarrow> (\<Sum>d \<in> D. w d * c d) = amount \<Longrightarrow>
      \<exists>p. pay amount av = Some p \<and> coins p \<le> (\<Sum>d \<in> D. c d)"
begin

lemma pay_None_iff:
  "pay amount av = None \<longleftrightarrow> (\<forall>c. choice_ok av D c \<longrightarrow> (\<Sum>d \<in> D. w d * c d) \<noteq> amount)"
proof
  assume "\<forall>c. choice_ok av D c \<longrightarrow> (\<Sum>d \<in> D. w d * c d) \<noteq> amount"
  then show "pay amount av = None"
    using pay_sound [of amount av] payable_count [OF _ finite_D, of av] by (metis not_None_eq)
qed (use pay_best in fastforce)

lemma pay_minimal:
  assumes "pay amount av = Some p" "choice_ok av D c" "(\<Sum>d \<in> D. w d * c d) = amount"
  shows "coins p \<le> (\<Sum>d \<in> D. c d)"
  using pay_best [OF assms(2,3)] assms(1) by simp

lemma pay_more_stock:
  assumes "pay amount av = Some p" "\<And>d. av d \<le> av' d"
  shows "\<exists>q. pay amount av' = Some q \<and> coins q \<le> coins p"
proof -
  have p: "payable av D p" "worth w p = amount" using pay_sound [OF assms(1)] by auto
  note pc = payable_count [OF p(1) finite_D]
  have "choice_ok av' D (purse_count p)"
    using pc(3) assms(2) by (force simp: choice_ok_def intro: order.trans)
  then show ?thesis using pay_best [of av' "purse_count p" amount] pc(1) [of w] pc(2) p(2) by simp
qed

lemma pay_within_stock:
  assumes "pay amount av = Some p" "\<And>d. 0 \<le> av d"
  shows "purse_count p d \<le> av d"
proof -
  have "payable av D p" using pay_sound [OF assms(1)] by auto
  note pc = payable_count(4,6) [OF this finite_D, of d]
  show ?thesis using pc assms(2) [of d] by (cases "purse_count p d = 0") auto
qed

end

end
