(* ===== verification/Vending_Machine.thy ===== *)
theory Vending_Machine
  imports Change_Making
begin

text \<open>
  The vending machine of \<open>python-low-level-design/vending-machine/vending_machine.py\<close>:
  inventory, cash box, escrow, the state pattern of the machine and the in-memory payment
  gateway. Money is integer cents. A \<open>Counter\<close> is a function that gives zero for a missing
  key; the machine only ever stores keys with a positive count in its escrow, so an empty
  escrow is the zero function. A slot is referred to by its code: slots are never replaced.
  The motor of the dispenser is a parameter of every operation that may vend: \<open>drops code\<close>
  says whether the drop sensor saw the product fall. The re-entrant lock makes each call one
  step. Formatting of messages is left out.
\<close>

section \<open>Money\<close>

datatype Denomination = NICKEL | DIME | QUARTER | DOLLAR_COIN | ONE_NOTE | FIVE_NOTE

fun cents :: "Denomination \<Rightarrow> int" where
  "cents NICKEL = 5"
| "cents DIME = 10"
| "cents QUARTER = 25"
| "cents DOLLAR_COIN = 100"
| "cents ONE_NOTE = 100"
| "cents FIVE_NOTE = 500"

fun is_coin :: "Denomination \<Rightarrow> bool" where
  "is_coin ONE_NOTE = False"
| "is_coin FIVE_NOTE = False"
| "is_coin _ = True"

definition denominations :: "Denomination list" where
  "denominations = [NICKEL, DIME, QUARTER, DOLLAR_COIN, ONE_NOTE, FIVE_NOTE]"

type_synonym pieces = "Denomination \<Rightarrow> int"

definition sum_pieces :: "pieces \<Rightarrow> int" where
  "sum_pieces ps = sum_list (map (\<lambda>d. cents d * ps d) denominations)"

definition no_pieces :: pieces where
  "no_pieces = (\<lambda>_. 0)"

section \<open>Exceptions\<close>

datatype vending_error = InvalidStateError | UnknownSlotError | SoldOutError
  | ChangeUnavailableError | PaymentDeclinedError | DispenseFailedError | Builtin py_error

section \<open>Catalogue and stock\<close>

record product =
  pr_sku :: string
  pr_name :: string
  pr_price_cents :: int

definition new_product :: "string \<Rightarrow> string \<Rightarrow> int \<Rightarrow> vending_error + product" where
  "new_product sku name price =
     (if price \<le> 0 then Inl (Builtin ValueError)
      else Inr \<lparr>pr_sku = sku, pr_name = name, pr_price_cents = price\<rparr>)"

record slot =
  sl_code :: string
  sl_product :: product
  sl_quantity :: int
  sl_capacity :: int

definition new_slot :: "string \<Rightarrow> product \<Rightarrow> int \<Rightarrow> int \<Rightarrow> vending_error + slot" where
  "new_slot code p quantity capacity =
     (if \<not> (0 \<le> quantity \<and> quantity \<le> capacity) then Inl (Builtin ValueError)
      else Inr \<lparr>sl_code = code, sl_product = p, sl_quantity = quantity, sl_capacity = capacity\<rparr>)"

type_synonym inventory = "(string \<times> slot) list"

definition inv_add_slot :: "inventory \<Rightarrow> string \<Rightarrow> product \<Rightarrow> int \<Rightarrow> int \<Rightarrow> vending_error + inventory" where
  "inv_add_slot i code p quantity capacity =
     (if map_of i code \<noteq> None then Inl (Builtin ValueError)
      else (case new_slot code p quantity capacity of
              Inl e \<Rightarrow> Inl e
            | Inr s \<Rightarrow> Inr (AList.update code s i)))"

definition inv_slot :: "inventory \<Rightarrow> string \<Rightarrow> vending_error + slot" where
  "inv_slot i code = (case map_of i code of None \<Rightarrow> Inl UnknownSlotError | Some s \<Rightarrow> Inr s)"

definition set_quantity :: "inventory \<Rightarrow> string \<Rightarrow> int \<Rightarrow> inventory" where
  "set_quantity i code q =
     (case map_of i code of
        None \<Rightarrow> i
      | Some s \<Rightarrow> AList.update code (s\<lparr>sl_quantity := q\<rparr>) i)"

definition inv_restock :: "inventory \<Rightarrow> string \<Rightarrow> int \<Rightarrow> vending_error + inventory \<times> int" where
  "inv_restock i code qty =
     (case inv_slot i code of
        Inl e \<Rightarrow> Inl e
      | Inr s \<Rightarrow>
          if qty \<le> 0 \<or> sl_quantity s + qty > sl_capacity s then Inl (Builtin ValueError)
          else Inr (set_quantity i code (sl_quantity s + qty), sl_quantity s + qty))"

definition inv_snapshot :: "inventory \<Rightarrow> (string \<times> int) list" where
  "inv_snapshot i = map (\<lambda>(code, s). (code, sl_quantity s)) i"

section \<open>Change and cash box\<close>

text \<open>
  Coins in the order of \<open>sorted(..., key=lambda d: -d.cents)\<close>. A coin that is not a key of
  \<open>available\<close> has count zero, and its pass over the table does nothing.
\<close>

definition coins_descending :: "Denomination list" where
  "coins_descending = [DOLLAR_COIN, QUARTER, DIME, NICKEL]"

definition make_change :: "int \<Rightarrow> pieces \<Rightarrow> Denomination purse option" where
  "make_change amount available =
     (if amount = 0 then Some []
      else map_of (change_dp cents available amount [(0, [])] coins_descending) amount)"

definition cash_deposit :: "pieces \<Rightarrow> pieces \<Rightarrow> pieces" where
  "cash_deposit counts ps = (\<lambda>d. counts d + ps d)"

definition cash_withdraw :: "pieces \<Rightarrow> pieces \<Rightarrow> vending_error + pieces" where
  "cash_withdraw counts ps =
     (if list_ex (\<lambda>d. ps d \<noteq> 0 \<and> counts d < ps d) denominations then Inl (Builtin ValueError)
      else Inr (\<lambda>d. counts d - ps d))"

section \<open>Payment gateway\<close>

text \<open>The authorisation id \<open>auth-<n>\<close> is represented by its number.\<close>

record gateway =
  gw_next :: int
  gw_holds :: "int \<Rightarrow> int option"
  gw_captured :: "int \<Rightarrow> int option"
  gw_voided :: "int \<Rightarrow> int option"

definition new_gateway :: gateway where
  "new_gateway = \<lparr>gw_next = 0, gw_holds = (\<lambda>_. None), gw_captured = (\<lambda>_. None), gw_voided = (\<lambda>_. None)\<rparr>"

definition authorize :: "gateway \<Rightarrow> string \<Rightarrow> int \<Rightarrow> gateway \<times> (vending_error + int)" where
  "authorize gw token amount =
     (if take 8 token = ''declined'' then (gw, Inl PaymentDeclinedError)
      else
        (let n = gw_next gw + 1
         in (gw\<lparr>gw_next := n, gw_holds := (gw_holds gw)(n \<mapsto> amount)\<rparr>, Inr n)))"

definition capture :: "gateway \<Rightarrow> int \<Rightarrow> gateway \<times> (vending_error + unit)" where
  "capture gw auth =
     (case gw_holds gw auth of
        None \<Rightarrow> (gw, Inl (Builtin KeyError))
      | Some a \<Rightarrow> (gw\<lparr>gw_holds := (gw_holds gw)(auth := None),
                      gw_captured := (gw_captured gw)(auth \<mapsto> a)\<rparr>, Inr ()))"

definition void_hold :: "gateway \<Rightarrow> int \<Rightarrow> gateway \<times> (vending_error + unit)" where
  "void_hold gw auth =
     (case gw_holds gw auth of
        None \<Rightarrow> (gw, Inl (Builtin KeyError))
      | Some a \<Rightarrow> (gw\<lparr>gw_holds := (gw_holds gw)(auth := None),
                      gw_voided := (gw_voided gw)(auth \<mapsto> a)\<rparr>, Inr ()))"

section \<open>The machine\<close>

datatype PaymentMethod = CASH | CARD

record receipt =
  rc_slot_code :: string
  rc_product :: product
  rc_method :: PaymentMethod
  rc_paid_cents :: int
  rc_change :: "Denomination purse"

definition change_cents :: "receipt \<Rightarrow> int" where
  "change_cents r = worth cents (rc_change r)"

datatype machine_state = IDLE | AWAITING_PAYMENT | OUT_OF_SERVICE

record machine =
  vm_inventory :: inventory
  vm_cash :: pieces
  vm_gateway :: gateway
  vm_state :: machine_state
  vm_selected :: "string option"
  vm_escrow :: pieces

definition new_machine :: "pieces \<Rightarrow> machine" where
  "new_machine change_float = \<lparr>vm_inventory = [], vm_cash = change_float, vm_gateway = new_gateway,
     vm_state = IDLE, vm_selected = None, vm_escrow = no_pieces\<rparr>"

definition escrow_total :: "machine \<Rightarrow> int" where
  "escrow_total m = sum_pieces (vm_escrow m)"

definition refund_and_reset :: "machine \<Rightarrow> machine \<times> pieces" where
  "refund_and_reset m =
     (m\<lparr>vm_escrow := no_pieces, vm_selected := None, vm_state := IDLE\<rparr>, vm_escrow m)"

text \<open>The slot object that \<open>_selected\<close> refers to.\<close>

definition selected_slot :: "machine \<Rightarrow> slot option" where
  "selected_slot m = (case vm_selected m of None \<Rightarrow> None | Some code \<Rightarrow> map_of (vm_inventory m) code)"

definition vend_cash :: "(string \<Rightarrow> bool) \<Rightarrow> machine \<Rightarrow> Denomination purse \<Rightarrow> machine \<times> (vending_error + receipt)" where
  "vend_cash drops m change =
     (case selected_slot m of
        None \<Rightarrow> (m, Inl (Builtin AttributeError))
      | Some s \<Rightarrow>
          if \<not> drops (sl_code s) then (fst (refund_and_reset m), Inl DispenseFailedError)
          else
            (let paid = escrow_total m;
                 m1 = m\<lparr>vm_cash := cash_deposit (vm_cash m) (vm_escrow m)\<rparr>
             in case cash_withdraw (vm_cash m1) (purse_count change) of
                  Inl e \<Rightarrow> (m1, Inl e)
                | Inr cash \<Rightarrow>
                    (m1\<lparr>vm_cash := cash,
                        vm_inventory := set_quantity (vm_inventory m) (sl_code s) (sl_quantity s - 1),
                        vm_escrow := no_pieces, vm_selected := None, vm_state := IDLE\<rparr>,
                     Inr \<lparr>rc_slot_code = sl_code s, rc_product = sl_product s, rc_method = CASH,
                          rc_paid_cents = paid, rc_change = change\<rparr>)))"

definition vend_card :: "(string \<Rightarrow> bool) \<Rightarrow> machine \<Rightarrow> string \<Rightarrow> machine \<times> (vending_error + receipt)" where
  "vend_card drops m token =
     (case selected_slot m of
        None \<Rightarrow> (m, Inl (Builtin AttributeError))
      | Some s \<Rightarrow>
          (let price = pr_price_cents (sl_product s) in
           case authorize (vm_gateway m) token price of
             (gw, Inl e) \<Rightarrow> (m\<lparr>vm_gateway := gw\<rparr>, Inl e)
           | (gw, Inr auth) \<Rightarrow>
               if \<not> drops (sl_code s)
               then (case void_hold gw auth of
                       (gw', Inl e) \<Rightarrow> (m\<lparr>vm_gateway := gw'\<rparr>, Inl e)
                     | (gw', Inr _) \<Rightarrow>
                         (fst (refund_and_reset (m\<lparr>vm_gateway := gw'\<rparr>)), Inl DispenseFailedError))
               else
                 (let m1 = m\<lparr>vm_inventory := set_quantity (vm_inventory m) (sl_code s) (sl_quantity s - 1)\<rparr> in
                  case capture gw auth of
                    (gw', Inl e) \<Rightarrow> (m1\<lparr>vm_gateway := gw'\<rparr>, Inl e)
                  | (gw', Inr _) \<Rightarrow>
                      (m1\<lparr>vm_gateway := gw', vm_selected := None, vm_state := IDLE\<rparr>,
                       Inr \<lparr>rc_slot_code = sl_code s, rc_product = sl_product s, rc_method = CARD,
                            rc_paid_cents = price, rc_change = []\<rparr>))))"

subsection \<open>Customer operations\<close>

definition select :: "machine \<Rightarrow> string \<Rightarrow> machine \<times> (vending_error + product)" where
  "select m code =
     (case vm_state m of
        IDLE \<Rightarrow>
          (case inv_slot (vm_inventory m) code of
             Inl e \<Rightarrow> (m, Inl e)
           | Inr s \<Rightarrow>
               if sl_quantity s = 0 then (m, Inl SoldOutError)
               else (m\<lparr>vm_selected := Some code, vm_state := AWAITING_PAYMENT\<rparr>, Inr (sl_product s)))
      | _ \<Rightarrow> (m, Inl InvalidStateError))"

definition add_piece :: "pieces \<Rightarrow> Denomination \<Rightarrow> pieces" where
  "add_piece ps d = ps(d := ps d + 1)"

definition insert_piece :: "(string \<Rightarrow> bool) \<Rightarrow> machine \<Rightarrow> Denomination \<Rightarrow> machine \<times> (vending_error + receipt option)" where
  "insert_piece drops m piece =
     (case vm_state m of
        AWAITING_PAYMENT \<Rightarrow>
          (case selected_slot m of
             None \<Rightarrow> (m, Inl (Builtin AttributeError))
           | Some s \<Rightarrow>
               (let price = pr_price_cents (sl_product s);
                    balance = escrow_total m + cents piece
                in if balance < price
                   then (m\<lparr>vm_escrow := add_piece (vm_escrow m) piece\<rparr>, Inr None)
                   else
                     (let pool = add_piece (cash_deposit (vm_cash m) (vm_escrow m)) piece in
                      case make_change (balance - price) pool of
                        None \<Rightarrow> (m, Inl ChangeUnavailableError)
                      | Some change \<Rightarrow>
                          (case vend_cash drops (m\<lparr>vm_escrow := add_piece (vm_escrow m) piece\<rparr>) change of
                             (m', Inl e) \<Rightarrow> (m', Inl e)
                           | (m', Inr r) \<Rightarrow> (m', Inr (Some r))))))
      | _ \<Rightarrow> (m, Inl InvalidStateError))"

definition pay_by_card :: "(string \<Rightarrow> bool) \<Rightarrow> machine \<Rightarrow> string \<Rightarrow> machine \<times> (vending_error + receipt)" where
  "pay_by_card drops m token =
     (case vm_state m of
        AWAITING_PAYMENT \<Rightarrow>
          if list_ex (\<lambda>d. vm_escrow m d \<noteq> 0) denominations then (m, Inl InvalidStateError)
          else vend_card drops m token
      | _ \<Rightarrow> (m, Inl InvalidStateError))"

definition cancel :: "machine \<Rightarrow> machine \<times> (vending_error + pieces)" where
  "cancel m =
     (case vm_state m of
        AWAITING_PAYMENT \<Rightarrow> (let (m', returned) = refund_and_reset m in (m', Inr returned))
      | _ \<Rightarrow> (m, Inl InvalidStateError))"

definition purchase_with_card :: "(string \<Rightarrow> bool) \<Rightarrow> machine \<Rightarrow> string \<Rightarrow> string \<Rightarrow> machine \<times> (vending_error + receipt)" where
  "purchase_with_card drops m code token =
     (case select m code of
        (m1, Inl e) \<Rightarrow> (m1, Inl e)
      | (m1, Inr _) \<Rightarrow>
          (case pay_by_card drops m1 token of
             (m2, Inl PaymentDeclinedError) \<Rightarrow> (fst (refund_and_reset m2), Inl PaymentDeclinedError)
           | (m2, out) \<Rightarrow> (m2, out)))"

subsection \<open>Operator operations\<close>

definition add_slot :: "machine \<Rightarrow> string \<Rightarrow> product \<Rightarrow> int \<Rightarrow> int \<Rightarrow> machine \<times> (vending_error + unit)" where
  "add_slot m code p quantity capacity =
     (case inv_add_slot (vm_inventory m) code p quantity capacity of
        Inl e \<Rightarrow> (m, Inl e)
      | Inr i \<Rightarrow> (m\<lparr>vm_inventory := i\<rparr>, Inr ()))"

definition restock :: "machine \<Rightarrow> string \<Rightarrow> int \<Rightarrow> machine \<times> (vending_error + int)" where
  "restock m code qty =
     (case inv_restock (vm_inventory m) code qty of
        Inl e \<Rightarrow> (m, Inl e)
      | Inr (i, q) \<Rightarrow> (m\<lparr>vm_inventory := i\<rparr>, Inr q))"

definition load_change :: "machine \<Rightarrow> pieces \<Rightarrow> machine" where
  "load_change m ps = m\<lparr>vm_cash := cash_deposit (vm_cash m) ps\<rparr>"

definition collect_cash :: "machine \<Rightarrow> pieces \<Rightarrow> machine \<times> (vending_error + pieces)" where
  "collect_cash m keep_float =
     (let take_out = (\<lambda>d. if vm_cash m d \<noteq> 0 \<and> vm_cash m d > keep_float d
                          then vm_cash m d - keep_float d else 0)
      in case cash_withdraw (vm_cash m) take_out of
           Inl e \<Rightarrow> (m, Inl e)
         | Inr cash \<Rightarrow> (m\<lparr>vm_cash := cash\<rparr>, Inr take_out))"

definition enter_maintenance :: "machine \<Rightarrow> machine \<times> pieces" where
  "enter_maintenance m =
     (let (m1, refunded) = (if vm_state m = AWAITING_PAYMENT then refund_and_reset m else (m, no_pieces))
      in (m1\<lparr>vm_state := OUT_OF_SERVICE\<rparr>, refunded))"

definition exit_maintenance :: "machine \<Rightarrow> machine \<times> (vending_error + unit)" where
  "exit_maintenance m =
     (if vm_state m \<noteq> OUT_OF_SERVICE then (m, Inl InvalidStateError)
      else (m\<lparr>vm_state := IDLE\<rparr>, Inr ()))"

subsection \<open>Queries\<close>

definition balance_cents :: "machine \<Rightarrow> int" where
  "balance_cents m = escrow_total m"

definition stock :: "machine \<Rightarrow> (string \<times> int) list" where
  "stock m = inv_snapshot (vm_inventory m)"

definition cash_total_cents :: "machine \<Rightarrow> int" where
  "cash_total_cents m = sum_pieces (vm_cash m)"

section \<open>Change is exact, found when possible, and minimal\<close>

interpretation vm_change: exact_change make_change cents "set coins_descending"
proof unfold_locales
  have d: "distinct coins_descending" "\<forall>d \<in> set coins_descending. 0 < cents d"
    by (simp_all add: coins_descending_def)
  note dp = change_dp_correct [OF d]
  fix amount :: int and av :: pieces and p
  assume "make_change amount av = Some p"
  then show "payable av (set coins_descending) p \<and> worth cents p = amount"
    using dp(1) [of av amount] by (auto simp: make_change_def sound_def payable_def split: if_splits)
next
  have d: "distinct coins_descending" "\<forall>d \<in> set coins_descending. 0 < cents d"
    by (simp_all add: coins_descending_def)
  note dp = change_dp_correct [OF d]
  fix amount :: int and av c :: pieces
  assume c: "choice_ok av (set coins_descending) c" "(\<Sum>d \<in> set coins_descending. cents d * c d) = amount"
  have "0 \<le> (\<Sum>d \<in> set coins_descending. c d)"
    using c(1) by (intro sum_nonneg) (auto simp: choice_ok_def)
  moreover have "covers (change_dp cents av amount [(0, [])] coins_descending) amount
      (\<Sum>d \<in> set coins_descending. c d)"
    using dp(2) [of av amount] c by (auto simp: complete_def)
  ultimately show "\<exists>p. make_change amount av = Some p \<and> coins p \<le> (\<Sum>d \<in> set coins_descending. c d)"
    by (auto simp: make_change_def covers_def)
qed simp

lemma all_denominations: "list_all P denominations \<longleftrightarrow> (\<forall>d. P d)"
proof -
  have "d \<in> set denominations" for d by (cases d) (simp_all add: denominations_def)
  then show ?thesis by (auto simp: list_all_iff)
qed

lemma ex_denominations: "list_ex P denominations \<longleftrightarrow> (\<exists>d. P d)"
  using all_denominations [of "\<lambda>d. \<not> P d"] by (auto simp: list_ex_iff list_all_iff)

lemma sum_pieces_add: "sum_pieces (\<lambda>d. f d + g d) = sum_pieces f + sum_pieces g"
  by (simp add: sum_pieces_def denominations_def algebra_simps)

lemma sum_pieces_add_piece [simp]: "sum_pieces (add_piece ps d) = sum_pieces ps + cents d"
  by (cases d) (simp_all add: sum_pieces_def denominations_def add_piece_def)

lemma sum_no_pieces [simp]: "sum_pieces no_pieces = 0"
  by (simp add: sum_pieces_def no_pieces_def)

lemma no_pieces_apply [simp]: "no_pieces d = 0"
  by (simp add: no_pieces_def)

section \<open>The machine's invariant\<close>

definition slot_ok :: "string \<Rightarrow> slot \<Rightarrow> bool" where
  "slot_ok code s \<longleftrightarrow> sl_code s = code \<and> 0 \<le> sl_quantity s \<and> sl_quantity s \<le> sl_capacity s
     \<and> 0 < pr_price_cents (sl_product s)"

definition inventory_ok :: "inventory \<Rightarrow> bool" where
  "inventory_ok i \<longleftrightarrow> distinct (map fst i) \<and> list_all (\<lambda>(code, s). slot_ok code s) i"

definition pieces_ok :: "pieces \<Rightarrow> bool" where
  "pieces_ok ps \<longleftrightarrow> list_all (\<lambda>d. 0 \<le> ps d) denominations"

text \<open>
  An open transaction has a selected slot with stock and less than its price in escrow; in
  the other two states nothing is selected and the escrow is empty.
\<close>

definition transaction_ok :: "machine \<Rightarrow> bool" where
  "transaction_ok m =
     (if vm_state m = AWAITING_PAYMENT
      then (case selected_slot m of
              None \<Rightarrow> False
            | Some s \<Rightarrow> 0 < sl_quantity s \<and> escrow_total m < pr_price_cents (sl_product s))
      else vm_selected m = None \<and> list_all (\<lambda>d. vm_escrow m d = 0) denominations)"

definition machine_ok :: "machine \<Rightarrow> bool" where
  "machine_ok m \<longleftrightarrow> inventory_ok (vm_inventory m) \<and> pieces_ok (vm_cash m) \<and> pieces_ok (vm_escrow m)
     \<and> transaction_ok m"

lemma inventory_ok_slot: "inventory_ok i \<Longrightarrow> map_of i code = Some s \<Longrightarrow> slot_ok code s"
  by (auto simp: inventory_ok_def list_all_iff dest: map_of_SomeD)

lemma inventory_ok_update: "inventory_ok i \<Longrightarrow> slot_ok code s \<Longrightarrow> inventory_ok (AList.update code s i)"
  by (auto simp: inventory_ok_def list_all_iff distinct_update dest: AList_update_elem)

lemma set_quantity_ok:
  "inventory_ok i \<Longrightarrow> map_of i code = Some s \<Longrightarrow> 0 \<le> q \<Longrightarrow> q \<le> sl_capacity s \<Longrightarrow>
    inventory_ok (set_quantity i code q)"
  using inventory_ok_slot [of i code s]
  by (auto simp: set_quantity_def slot_ok_def intro: inventory_ok_update)

lemma map_of_set_quantity:
  "map_of (set_quantity i code q) x =
     (if x = code then map_option (\<lambda>s. s\<lparr>sl_quantity := q\<rparr>) (map_of i code) else map_of i x)"
  by (auto simp: set_quantity_def update_conv' split: option.split)

lemma pieces_ok_iff [simp]: "pieces_ok ps \<longleftrightarrow> (\<forall>d. 0 \<le> ps d)"
  by (simp add: pieces_ok_def all_denominations)

lemma machine_ok_awaiting:
  assumes "machine_ok m" "vm_state m = AWAITING_PAYMENT"
  obtains s where "selected_slot m = Some s" "vm_selected m = Some (sl_code s)"
    "map_of (vm_inventory m) (sl_code s) = Some s" "slot_ok (sl_code s) s" "0 < sl_quantity s"
    "escrow_total m < pr_price_cents (sl_product s)"
proof -
  obtain s where s: "selected_slot m = Some s" "0 < sl_quantity s" "escrow_total m < pr_price_cents (sl_product s)"
    using assms by (auto simp: machine_ok_def transaction_ok_def split: option.splits)
  then obtain code where "vm_selected m = Some code" "map_of (vm_inventory m) code = Some s"
    by (auto simp: selected_slot_def split: option.splits)
  moreover from this have "slot_ok code s"
    using assms(1) by (auto simp: machine_ok_def intro: inventory_ok_slot)
  moreover from this have "sl_code s = code" by (simp add: slot_ok_def)
  ultimately show thesis using that s by simp
qed

lemma machine_ok_closed:
  assumes "machine_ok m" "vm_state m \<noteq> AWAITING_PAYMENT"
  shows "vm_selected m = None" "vm_escrow m = no_pieces"
  using assms by (auto simp: machine_ok_def transaction_ok_def all_denominations no_pieces_def)

lemma machine_ok_closedI:
  assumes "inventory_ok (vm_inventory m)" "pieces_ok (vm_cash m)" "vm_escrow m = no_pieces"
    "vm_state m \<noteq> AWAITING_PAYMENT" "vm_selected m = None"
  shows "machine_ok m"
  using assms by (simp add: machine_ok_def transaction_ok_def all_denominations no_pieces_def)

lemma refund_and_reset_ok: "machine_ok m \<Longrightarrow> machine_ok (fst (refund_and_reset m))"
  by (rule machine_ok_closedI) (simp_all add: refund_and_reset_def machine_ok_def)

subsection \<open>What each operation does to a well-formed machine\<close>

text \<open>The machine after a sale, whichever way it was paid.\<close>

definition sold :: "machine \<Rightarrow> slot \<Rightarrow> pieces \<Rightarrow> gateway \<Rightarrow> machine" where
  "sold m s cash gw =
     m\<lparr>vm_inventory := set_quantity (vm_inventory m) (sl_code s) (sl_quantity s - 1), vm_cash := cash,
       vm_gateway := gw, vm_escrow := no_pieces, vm_selected := None, vm_state := IDLE\<rparr>"

definition pool_with :: "machine \<Rightarrow> Denomination \<Rightarrow> pieces" where
  "pool_with m piece = add_piece (cash_deposit (vm_cash m) (vm_escrow m)) piece"

lemma pool_with_nonneg: "machine_ok m \<Longrightarrow> 0 \<le> pool_with m piece d"
  by (simp add: machine_ok_def pool_with_def add_piece_def cash_deposit_def)

lemma pool_with_deposit: "cash_deposit (vm_cash m) (add_piece (vm_escrow m) piece) = pool_with m piece"
  by (auto simp: pool_with_def cash_deposit_def add_piece_def)

lemma change_leaves_cash:
  assumes "machine_ok m" "make_change amount (pool_with m piece) = Some change"
  shows "purse_count change d \<le> pool_with m piece d"
  using vm_change.pay_within_stock [OF assms(2)] pool_with_nonneg [OF assms(1)] by blast

lemma selected_slot_updates [simp]:
  "selected_slot (m\<lparr>vm_escrow := e\<rparr>) = selected_slot m"
  "selected_slot (m\<lparr>vm_cash := c\<rparr>) = selected_slot m"
  "selected_slot (m\<lparr>vm_gateway := gw\<rparr>) = selected_slot m"
  by (simp_all add: selected_slot_def cong: option.case_cong)

lemma insert_below_price:
  assumes "vm_state m = AWAITING_PAYMENT" "selected_slot m = Some s"
    "escrow_total m + cents piece < pr_price_cents (sl_product s)"
  shows "insert_piece drops m piece = (m\<lparr>vm_escrow := add_piece (vm_escrow m) piece\<rparr>, Inr None)"
  using assms by (simp add: insert_piece_def Let_def)

lemma insert_no_change:
  assumes "vm_state m = AWAITING_PAYMENT" "selected_slot m = Some s"
    "pr_price_cents (sl_product s) \<le> escrow_total m + cents piece"
    "make_change (escrow_total m + cents piece - pr_price_cents (sl_product s)) (pool_with m piece) = None"
  shows "insert_piece drops m piece = (m, Inl ChangeUnavailableError)"
  using assms by (simp add: insert_piece_def Let_def pool_with_def)

lemma insert_jammed:
  assumes "vm_state m = AWAITING_PAYMENT" "selected_slot m = Some s"
    "pr_price_cents (sl_product s) \<le> escrow_total m + cents piece"
    "make_change (escrow_total m + cents piece - pr_price_cents (sl_product s)) (pool_with m piece) = Some change"
    "\<not> drops (sl_code s)"
  shows "insert_piece drops m piece = (fst (refund_and_reset m), Inl DispenseFailedError)"
  using assms
  by (simp add: insert_piece_def Let_def pool_with_def vend_cash_def refund_and_reset_def)

lemma insert_sells:
  assumes "machine_ok m" "vm_state m = AWAITING_PAYMENT" "selected_slot m = Some s"
    "pr_price_cents (sl_product s) \<le> escrow_total m + cents piece"
    "make_change (escrow_total m + cents piece - pr_price_cents (sl_product s)) (pool_with m piece) = Some change"
    "drops (sl_code s)"
  shows "insert_piece drops m piece =
    (sold m s (\<lambda>d. pool_with m piece d - purse_count change d) (vm_gateway m),
     Inr (Some \<lparr>rc_slot_code = sl_code s, rc_product = sl_product s, rc_method = CASH,
                rc_paid_cents = escrow_total m + cents piece, rc_change = change\<rparr>))"
proof -
  have "\<not> list_ex (\<lambda>d. purse_count change d \<noteq> 0 \<and> pool_with m piece d < purse_count change d) denominations"
    using change_leaves_cash [OF assms(1,5)] by (simp add: ex_denominations not_less)
  then have "cash_withdraw (pool_with m piece) (purse_count change) =
      Inr (\<lambda>d. pool_with m piece d - purse_count change d)"
    by (simp add: cash_withdraw_def)
  then show ?thesis
    using assms
    by (simp add: insert_piece_def Let_def vend_cash_def pool_with_deposit escrow_total_def sold_def
        flip: pool_with_def)
qed

lemma insert_not_awaiting:
  "vm_state m \<noteq> AWAITING_PAYMENT \<Longrightarrow> insert_piece drops m piece = (m, Inl InvalidStateError)"
  by (cases "vm_state m") (simp_all add: insert_piece_def)

text \<open>The authorisation numbers handed out so far are exactly those up to the counter.\<close>

definition declined :: "string \<Rightarrow> bool" where
  "declined token \<longleftrightarrow> take 8 token = ''declined''"

definition charged :: "gateway \<Rightarrow> int \<Rightarrow> gateway" where
  "charged gw price = gw\<lparr>gw_next := gw_next gw + 1, gw_holds := (gw_holds gw)(gw_next gw + 1 := None),
     gw_captured := (gw_captured gw)(gw_next gw + 1 \<mapsto> price)\<rparr>"

definition released :: "gateway \<Rightarrow> int \<Rightarrow> gateway" where
  "released gw price = gw\<lparr>gw_next := gw_next gw + 1, gw_holds := (gw_holds gw)(gw_next gw + 1 := None),
     gw_voided := (gw_voided gw)(gw_next gw + 1 \<mapsto> price)\<rparr>"

lemma pay_by_card_cases:
  assumes "machine_ok m" "vm_state m = AWAITING_PAYMENT" "selected_slot m = Some s" "vm_escrow m = no_pieces"
  shows "pay_by_card drops m token =
    (if declined token then (m, Inl PaymentDeclinedError)
     else if drops (sl_code s)
     then (sold m s (vm_cash m) (charged (vm_gateway m) (pr_price_cents (sl_product s))),
           Inr \<lparr>rc_slot_code = sl_code s, rc_product = sl_product s, rc_method = CARD,
                rc_paid_cents = pr_price_cents (sl_product s), rc_change = []\<rparr>)
     else (fst (refund_and_reset (m\<lparr>vm_gateway := released (vm_gateway m) (pr_price_cents (sl_product s))\<rparr>)),
           Inl DispenseFailedError))"
  using assms(2-4)
  by (simp add: pay_by_card_def vend_card_def authorize_def capture_def void_hold_def charged_def released_def
      sold_def refund_and_reset_def declined_def Let_def ex_denominations)

lemma pay_by_card_refused:
  assumes "vm_state m \<noteq> AWAITING_PAYMENT \<or> vm_escrow m \<noteq> no_pieces"
  shows "pay_by_card drops m token = (m, Inl InvalidStateError)"
proof (cases "vm_state m")
  case AWAITING_PAYMENT
  then have "\<exists>d. vm_escrow m d \<noteq> 0" using assms by (auto simp: no_pieces_def)
  then show ?thesis using AWAITING_PAYMENT by (simp add: pay_by_card_def ex_denominations)
qed (simp_all add: pay_by_card_def)

lemma sold_ok:
  assumes "machine_ok m" "map_of (vm_inventory m) (sl_code s) = Some s" "0 < sl_quantity s" "pieces_ok cash"
  shows "machine_ok (sold m s cash gw)"
proof (rule machine_ok_closedI)
  have "slot_ok (sl_code s) s" using assms by (auto simp: machine_ok_def intro: inventory_ok_slot)
  then show "inventory_ok (vm_inventory (sold m s cash gw))"
    using assms by (auto simp: sold_def machine_ok_def slot_ok_def intro: set_quantity_ok)
qed (use assms in \<open>simp_all add: sold_def\<close>)

lemma escrow_add_ok:
  assumes "machine_ok m" "vm_state m = AWAITING_PAYMENT" "selected_slot m = Some s"
    "escrow_total m + cents piece < pr_price_cents (sl_product s)"
  shows "machine_ok (m\<lparr>vm_escrow := add_piece (vm_escrow m) piece\<rparr>)"
  using assms
  by (auto simp: machine_ok_def transaction_ok_def selected_slot_def escrow_total_def add_piece_def
      simp flip: sum_pieces_add_piece split: option.splits)

section \<open>Runs of the machine\<close>

text \<open>
  Every call of the public interface as an operation. The operations that may vend carry the
  behaviour of the dispenser for that call; the operator loads a list of pieces; a slot is
  added with a product built from its fields.
\<close>

datatype vm_op =
    Select string
  | Insert "string \<Rightarrow> bool" Denomination
  | PayByCard "string \<Rightarrow> bool" string
  | Cancel
  | PurchaseWithCard "string \<Rightarrow> bool" string string
  | AddSlot string string string int int int
  | Restock string int
  | LoadChange "Denomination list"
  | CollectCash pieces
  | EnterMaintenance
  | ExitMaintenance

datatype vm_reply = Selected product | Sold receipt | Waiting | Returned pieces | Stock int | Unit

definition reply :: "('a \<Rightarrow> vm_reply) \<Rightarrow> machine \<times> (vending_error + 'a) \<Rightarrow> machine \<times> (vending_error + vm_reply)" where
  "reply f = (\<lambda>(m, out). (m, map_sum id f out))"

definition counted :: "Denomination list \<Rightarrow> pieces" where
  "counted ps = (\<lambda>d. int (count_list ps d))"

fun vm_step :: "machine \<Rightarrow> vm_op \<Rightarrow> machine \<times> (vending_error + vm_reply)" where
  "vm_step m (Select code) = reply Selected (select m code)"
| "vm_step m (Insert drops d) =
     reply (\<lambda>r. case r of None \<Rightarrow> Waiting | Some r \<Rightarrow> Sold r) (insert_piece drops m d)"
| "vm_step m (PayByCard drops token) = reply Sold (pay_by_card drops m token)"
| "vm_step m Cancel = reply Returned (cancel m)"
| "vm_step m (PurchaseWithCard drops code token) = reply Sold (purchase_with_card drops m code token)"
| "vm_step m (AddSlot code sku name price quantity capacity) =
     (case new_product sku name price of
        Inl e \<Rightarrow> (m, Inl e)
      | Inr p \<Rightarrow> reply (\<lambda>_. Unit) (add_slot m code p quantity capacity))"
| "vm_step m (Restock code qty) = reply Stock (restock m code qty)"
| "vm_step m (LoadChange ps) = (load_change m (counted ps), Inr Unit)"
| "vm_step m (CollectCash keep) = reply Returned (collect_cash m keep)"
| "vm_step m EnterMaintenance = (let (m', ps) = enter_maintenance m in (m', Inr (Returned ps)))"
| "vm_step m ExitMaintenance = reply (\<lambda>_. Unit) (exit_maintenance m)"

lemma fst_reply [simp]: "fst (reply f r) = fst r"
  by (simp add: reply_def split: prod.split)

lemma snd_reply [simp]: "snd (reply f r) = map_sum id f (snd r)"
  by (simp add: reply_def split: prod.split)

lemma select_cases:
  "select m code =
     (if vm_state m \<noteq> IDLE then (m, Inl InvalidStateError)
      else case map_of (vm_inventory m) code of
        None \<Rightarrow> (m, Inl UnknownSlotError)
      | Some s \<Rightarrow>
          if sl_quantity s = 0 then (m, Inl SoldOutError)
          else (m\<lparr>vm_selected := Some code, vm_state := AWAITING_PAYMENT\<rparr>, Inr (sl_product s)))"
  by (cases "vm_state m") (simp_all add: select_def inv_slot_def split: option.split)

lemma select_ok:
  assumes "machine_ok m"
  shows "machine_ok (fst (select m code))"
proof (cases "vm_state m = IDLE")
  case True
  show ?thesis
  proof (cases "map_of (vm_inventory m) code")
    case (Some s)
    then have "slot_ok code s" using assms by (auto simp: machine_ok_def intro: inventory_ok_slot)
    moreover have "vm_escrow m = no_pieces" using machine_ok_closed [OF assms] True by simp
    ultimately show ?thesis
      using assms True Some
      by (auto simp: select_cases machine_ok_def transaction_ok_def selected_slot_def escrow_total_def slot_ok_def)
  qed (use assms True in \<open>simp add: select_cases\<close>)
qed (use assms in \<open>simp add: select_cases\<close>)

lemma insert_ok:
  assumes "machine_ok m"
  shows "machine_ok (fst (insert_piece drops m piece))"
proof (cases "vm_state m = AWAITING_PAYMENT")
  case True
  from machine_ok_awaiting [OF assms True] obtain s where
    s: "selected_slot m = Some s" "map_of (vm_inventory m) (sl_code s) = Some s" "0 < sl_quantity s" .
  let ?c = "make_change (escrow_total m + cents piece - pr_price_cents (sl_product s)) (pool_with m piece)"
  show ?thesis
  proof (cases "escrow_total m + cents piece < pr_price_cents (sl_product s)")
    case below: True
    then show ?thesis using assms True s by (simp add: insert_below_price escrow_add_ok)
  next
    case False
    show ?thesis
    proof (cases ?c)
      case None
      then show ?thesis using assms True s False by (simp add: insert_no_change)
    next
      case (Some change)
      have "pieces_ok (\<lambda>d. pool_with m piece d - purse_count change d)"
        using change_leaves_cash [OF assms Some] by simp
      then show ?thesis using assms True s False Some
        by (cases "drops (sl_code s)") (simp_all add: insert_sells insert_jammed sold_ok refund_and_reset_ok)
    qed
  qed
qed (simp add: insert_not_awaiting assms)

lemma machine_ok_gateway [simp]: "machine_ok (m\<lparr>vm_gateway := gw\<rparr>) = machine_ok m"
  by (simp add: machine_ok_def transaction_ok_def escrow_total_def cong: option.case_cong)

lemma pay_by_card_ok:
  assumes "machine_ok m"
  shows "machine_ok (fst (pay_by_card drops m token))"
proof (cases "vm_state m = AWAITING_PAYMENT \<and> vm_escrow m = no_pieces")
  case True
  from machine_ok_awaiting [OF assms] True obtain s where
    s: "selected_slot m = Some s" "map_of (vm_inventory m) (sl_code s) = Some s" "0 < sl_quantity s" by metis
  have "pieces_ok (vm_cash m)" using assms by (simp add: machine_ok_def)
  then show ?thesis
    using True s assms by (simp add: pay_by_card_cases sold_ok refund_and_reset_ok del: pieces_ok_iff)
qed (use assms in \<open>auto simp: pay_by_card_refused\<close>)

lemma purchase_with_card_state:
  "fst (purchase_with_card drops m code token) =
     (case snd (select m code) of
        Inl e \<Rightarrow> fst (select m code)
      | Inr _ \<Rightarrow>
          (let r = pay_by_card drops (fst (select m code)) token
           in if snd r = Inl PaymentDeclinedError then fst (refund_and_reset (fst r)) else fst r))"
  by (auto simp: purchase_with_card_def Let_def split: prod.split sum.split vending_error.split)

lemma purchase_with_card_ok: "machine_ok m \<Longrightarrow> machine_ok (fst (purchase_with_card drops m code token))"
  by (auto simp: purchase_with_card_state Let_def select_ok pay_by_card_ok refund_and_reset_ok split: sum.split)

lemma inventory_change_ok:
  assumes "machine_ok m" "inventory_ok i"
    and "\<And>code s. map_of (vm_inventory m) code = Some s \<Longrightarrow>
      \<exists>t. map_of i code = Some t \<and> sl_quantity s \<le> sl_quantity t \<and> sl_product t = sl_product s"
  shows "machine_ok (m\<lparr>vm_inventory := i\<rparr>)"
proof (cases "vm_state m = AWAITING_PAYMENT")
  case True
  from machine_ok_awaiting [OF assms(1) True] obtain s where
    s: "vm_selected m = Some (sl_code s)" "map_of (vm_inventory m) (sl_code s) = Some s" "0 < sl_quantity s"
      "escrow_total m < pr_price_cents (sl_product s)" .
  from assms(3) [OF s(2)] obtain t where
    t: "map_of i (sl_code s) = Some t" "sl_quantity s \<le> sl_quantity t" "sl_product t = sl_product s" by auto
  show ?thesis
    using assms(1,2) True s t
    by (simp add: machine_ok_def transaction_ok_def selected_slot_def escrow_total_def)
next
  case False
  then show ?thesis
    using assms(1,2) machine_ok_closed [OF assms(1) False]
    by (intro machine_ok_closedI) (simp_all add: machine_ok_def)
qed

lemma add_slot_ok:
  assumes "machine_ok m" "0 < pr_price_cents p"
  shows "machine_ok (fst (add_slot m code p quantity capacity))"
proof (cases "inv_add_slot (vm_inventory m) code p quantity capacity")
  case (Inr i)
  then have i: "map_of (vm_inventory m) code = None" "0 \<le> quantity" "quantity \<le> capacity"
    "i = AList.update code \<lparr>sl_code = code, sl_product = p, sl_quantity = quantity, sl_capacity = capacity\<rparr> (vm_inventory m)"
    by (auto simp: inv_add_slot_def new_slot_def split: if_splits)
  have "inventory_ok i"
    unfolding i(4) using assms i by (intro inventory_ok_update) (auto simp: machine_ok_def slot_ok_def)
  moreover have "\<exists>t. map_of i c = Some t \<and> sl_quantity s \<le> sl_quantity t \<and> sl_product t = sl_product s"
    if "map_of (vm_inventory m) c = Some s" for c s
    using that i(1) by (auto simp: i(4) update_conv')
  ultimately show ?thesis using assms(1) Inr by (simp add: add_slot_def inventory_change_ok)
qed (use assms in \<open>simp add: add_slot_def\<close>)

lemma restock_ok:
  assumes "machine_ok m"
  shows "machine_ok (fst (restock m code qty))"
proof (cases "inv_restock (vm_inventory m) code qty")
  case (Inr r)
  then obtain s where s: "map_of (vm_inventory m) code = Some s" "0 < qty" "sl_quantity s + qty \<le> sl_capacity s"
    "r = (set_quantity (vm_inventory m) code (sl_quantity s + qty), sl_quantity s + qty)"
    by (auto simp: inv_restock_def inv_slot_def split: if_splits option.splits)
  have "slot_ok code s" using assms s(1) by (auto simp: machine_ok_def intro: inventory_ok_slot)
  then have "inventory_ok (set_quantity (vm_inventory m) code (sl_quantity s + qty))"
    using assms s by (intro set_quantity_ok) (auto simp: machine_ok_def slot_ok_def)
  moreover have "\<exists>t. map_of (set_quantity (vm_inventory m) code (sl_quantity s + qty)) c = Some t
      \<and> sl_quantity x \<le> sl_quantity t \<and> sl_product t = sl_product x"
    if "map_of (vm_inventory m) c = Some x" for c x
    using that s by (auto simp: map_of_set_quantity)
  ultimately show ?thesis using assms s(4) Inr by (simp add: restock_def inventory_change_ok)
qed (use assms in \<open>simp add: restock_def\<close>)

lemma escrow_total_cash [simp]: "escrow_total (m\<lparr>vm_cash := c\<rparr>) = escrow_total m"
  by (simp add: escrow_total_def)

lemma cash_change_ok: "machine_ok m \<Longrightarrow> pieces_ok c \<Longrightarrow> machine_ok (m\<lparr>vm_cash := c\<rparr>)"
  by (simp add: machine_ok_def transaction_ok_def cong: option.case_cong)

lemma collect_cash_ok: "machine_ok m \<Longrightarrow> machine_ok (fst (collect_cash m keep))"
  by (auto simp: collect_cash_def Let_def cash_withdraw_def ex_denominations not_less
      intro!: cash_change_ok split: if_splits)
    (auto simp: machine_ok_def)

lemma maintenance_ok:
  assumes "machine_ok m"
  shows "machine_ok (fst (enter_maintenance m))" "machine_ok (fst (exit_maintenance m))"
proof -
  have c: "machine_ok (m'\<lparr>vm_state := st\<rparr>)"
    if "machine_ok m'" "vm_state m' \<noteq> AWAITING_PAYMENT" "st \<noteq> AWAITING_PAYMENT" for m' st
    using that machine_ok_closed [OF that(1,2)] by (intro machine_ok_closedI) (auto simp: machine_ok_def)
  show "machine_ok (fst (exit_maintenance m))" using assms by (auto simp: exit_maintenance_def intro: c)
  have "vm_state (fst (refund_and_reset m)) = IDLE" by (simp add: refund_and_reset_def)
  then have "machine_ok ((fst (refund_and_reset m))\<lparr>vm_state := OUT_OF_SERVICE\<rparr>)"
    using refund_and_reset_ok [OF assms] by (intro c) auto
  then show "machine_ok (fst (enter_maintenance m))"
    using c [OF assms] by (auto simp: enter_maintenance_def Let_def split: prod.split)
qed

lemma vm_step_ok:
  assumes "machine_ok m"
  shows "machine_ok (fst (vm_step m x))"
proof (cases x)
  case (AddSlot code sku name price quantity capacity)
  then show ?thesis
    using assms add_slot_ok [OF assms, of "\<lparr>pr_sku = sku, pr_name = name, pr_price_cents = price\<rparr>"]
    by (simp add: new_product_def)
next
  case (LoadChange ps)
  have "pieces_ok (cash_deposit (vm_cash m) (counted ps))"
    using assms by (simp add: cash_deposit_def counted_def machine_ok_def)
  then show ?thesis using assms LoadChange by (simp add: load_change_def cash_change_ok)
next
  case EnterMaintenance
  then show ?thesis using maintenance_ok(1) [OF assms] by (auto split: prod.split)
next
  case Cancel
  then show ?thesis using assms refund_and_reset_ok [OF assms]
    by (auto simp: cancel_def split: machine_state.split prod.split)
qed (use assms in \<open>simp_all add: select_ok insert_ok pay_by_card_ok purchase_with_card_ok restock_ok
       collect_cash_ok maintenance_ok\<close>)

lemma new_machine_ok: "pieces_ok change_float \<Longrightarrow> machine_ok (new_machine change_float)"
  by (rule machine_ok_closedI) (simp_all add: new_machine_def inventory_ok_def)

interpretation vm_runs: invariant_machine vm_step machine_ok
  by unfold_locales (rule vm_step_ok)

section \<open>Every piece of money is accounted for\<close>

text \<open>
  What goes through the coin slot with an operation, and what the tray gives back: change, the
  pieces of a refund, or the very piece when it is not accepted. The exception of a jam
  carries only text, so what it refunds is read off the machine before the call.
\<close>

fun pieces_in :: "vm_op \<Rightarrow> pieces" where
  "pieces_in (Insert drops d) = add_piece no_pieces d"
| "pieces_in (LoadChange ps) = counted ps"
| "pieces_in _ = no_pieces"

fun paid_back :: "vm_reply \<Rightarrow> pieces" where
  "paid_back (Sold r) = purse_count (rc_change r)"
| "paid_back (Returned ps) = ps"
| "paid_back _ = no_pieces"

fun rejected :: "machine \<Rightarrow> vm_op \<Rightarrow> vending_error \<Rightarrow> pieces" where
  "rejected m (Insert drops d) e = add_piece (if e = DispenseFailedError then vm_escrow m else no_pieces) d"
| "rejected m _ e = no_pieces"

definition pieces_out :: "machine \<Rightarrow> vm_op \<Rightarrow> vending_error + vm_reply \<Rightarrow> pieces" where
  "pieces_out m x out = (case out of Inl e \<Rightarrow> rejected m x e | Inr r \<Rightarrow> paid_back r)"

definition holdings :: "machine \<Rightarrow> pieces" where
  "holdings m = (\<lambda>d. vm_cash m d + vm_escrow m d)"

lemma pieces_out_simps [simp]:
  "pieces_out m x (Inl e) = rejected m x e"
  "pieces_out m x (Inr r) = paid_back r"
  by (simp_all add: pieces_out_def)

lemma rejected_other [simp]: "\<forall>drops d. x \<noteq> Insert drops d \<Longrightarrow> rejected m x e = no_pieces"
  by (cases x) auto

lemma insert_holdings:
  assumes "machine_ok m"
  shows "holdings (fst (vm_step m (Insert drops c))) d =
    holdings m d + pieces_in (Insert drops c) d - pieces_out m (Insert drops c) (snd (vm_step m (Insert drops c))) d"
proof (cases "vm_state m = AWAITING_PAYMENT")
  case True
  from machine_ok_awaiting [OF assms True] obtain s where s: "selected_slot m = Some s" by metis
  let ?c = "make_change (escrow_total m + cents c - pr_price_cents (sl_product s)) (pool_with m c)"
  consider "escrow_total m + cents c < pr_price_cents (sl_product s)"
    | "pr_price_cents (sl_product s) \<le> escrow_total m + cents c" "?c = None"
    | ch where "pr_price_cents (sl_product s) \<le> escrow_total m + cents c" "?c = Some ch" "drops (sl_code s)"
    | ch where "pr_price_cents (sl_product s) \<le> escrow_total m + cents c" "?c = Some ch" "\<not> drops (sl_code s)"
    by fastforce
  then show ?thesis
  proof cases
    case 1
    then show ?thesis using insert_below_price [OF True s, of c drops] by (simp add: holdings_def add_piece_def)
  next
    case 2
    then show ?thesis using insert_no_change [OF True s, of c drops] by (simp add: holdings_def)
  next
    case 3
    then show ?thesis using insert_sells [OF assms True s, of c ch drops]
      by (simp add: holdings_def sold_def pool_with_def add_piece_def cash_deposit_def)
  next
    case 4
    then show ?thesis using insert_jammed [OF True s, of c ch drops]
      by (simp add: holdings_def refund_and_reset_def add_piece_def)
  qed
qed (simp add: insert_not_awaiting holdings_def)

lemma pay_by_card_money:
  assumes "machine_ok m"
  shows "vm_cash (fst (pay_by_card drops m token)) = vm_cash m
    \<and> vm_escrow (fst (pay_by_card drops m token)) = vm_escrow m
    \<and> (\<forall>r. snd (pay_by_card drops m token) = Inr r \<longrightarrow> rc_change r = [])"
proof (cases "vm_state m = AWAITING_PAYMENT \<and> vm_escrow m = no_pieces")
  case True
  from machine_ok_awaiting [OF assms] True obtain s where "selected_slot m = Some s" by metis
  then show ?thesis using True assms by (auto simp: pay_by_card_cases sold_def refund_and_reset_def)
qed (auto simp: pay_by_card_refused)

lemma purchase_reply:
  "snd (purchase_with_card drops m code token) =
     (case snd (select m code) of
        Inl e \<Rightarrow> Inl e
      | Inr _ \<Rightarrow> snd (pay_by_card drops (fst (select m code)) token))"
  by (auto simp: purchase_with_card_def split: prod.split sum.split vending_error.split)

lemma select_money: "vm_cash (fst (select m code)) = vm_cash m" "vm_escrow (fst (select m code)) = vm_escrow m"
  by (auto simp: select_cases split: option.split)

lemma select_done: "snd (select m code) = Inr p \<Longrightarrow> vm_state m = IDLE"
  by (auto simp: select_cases split: if_splits)

lemma purchase_money:
  assumes "machine_ok m"
  shows "vm_cash (fst (purchase_with_card drops m code token)) = vm_cash m
    \<and> vm_escrow (fst (purchase_with_card drops m code token)) = vm_escrow m
    \<and> (\<forall>r. snd (purchase_with_card drops m code token) = Inr r \<longrightarrow> rc_change r = [])"
proof (cases "snd (select m code)")
  case (Inl e)
  then show ?thesis by (simp add: purchase_with_card_state purchase_reply select_money)
next
  case (Inr p)
  have "vm_escrow m = no_pieces" using machine_ok_closed [OF assms] select_done [OF Inr] by simp
  then show ?thesis
    using Inr pay_by_card_money [OF select_ok [OF assms, of code], of drops token]
    by (simp add: purchase_with_card_state purchase_reply select_money Let_def refund_and_reset_def)
qed

lemma card_reply_out: "(\<forall>r. out = Inr r \<longrightarrow> rc_change r = []) \<Longrightarrow> \<forall>drops d. x \<noteq> Insert drops d \<Longrightarrow>
    pieces_out m x (map_sum id Sold out) = no_pieces"
  by (cases out) (auto simp: purse_count_def no_pieces_def)

lemma step_holdings:
  assumes "machine_ok m"
  shows "holdings (fst (vm_step m x)) d = holdings m d + pieces_in x d - pieces_out m x (snd (vm_step m x)) d"
proof (cases x)
  case (Insert drops c)
  then show ?thesis using insert_holdings [OF assms] by simp
next
  case (PayByCard drops token)
  then show ?thesis using pay_by_card_money [OF assms, of drops token] by (simp add: holdings_def card_reply_out)
next
  case (PurchaseWithCard drops code token)
  then show ?thesis using purchase_money [OF assms, of drops code token] by (simp add: holdings_def card_reply_out)
next
  case (Select code)
  then show ?thesis by (cases "snd (select m code)") (simp_all add: holdings_def select_money)
next
  case Cancel
  then show ?thesis by (cases "vm_state m") (simp_all add: cancel_def refund_and_reset_def holdings_def)
next
  case (AddSlot code sku name price quantity capacity)
  then show ?thesis
    by (simp add: new_product_def add_slot_def holdings_def split: sum.split)
next
  case (Restock code qty)
  then show ?thesis by (auto simp: restock_def holdings_def split: sum.split)
next
  case (LoadChange ps)
  then show ?thesis by (simp add: load_change_def cash_deposit_def holdings_def)
next
  case (CollectCash keep)
  then show ?thesis by (simp add: collect_cash_def cash_withdraw_def Let_def holdings_def)
next
  case EnterMaintenance
  then show ?thesis by (simp add: enter_maintenance_def refund_and_reset_def holdings_def)
next
  case ExitMaintenance
  then show ?thesis by (simp add: exit_maintenance_def holdings_def)
qed

text \<open>The machine beside a ledger of what went in less what came out.\<close>

definition ledger_step :: "machine \<times> pieces \<Rightarrow> vm_op \<Rightarrow> (machine \<times> pieces) \<times> (vending_error + vm_reply)" where
  "ledger_step ml x =
     (let (m, l) = ml; (m', out) = vm_step m x
      in ((m', \<lambda>d. l d + pieces_in x d - pieces_out m x out d), out))"

interpretation vm_ledger: conserving_machine ledger_step "\<lambda>ml. machine_ok (fst ml)"
  "\<lambda>ml. (\<lambda>d. holdings (fst ml) d - snd ml d)"
proof unfold_locales
  fix ml :: "machine \<times> pieces" and x
  obtain m l where ml: "ml = (m, l)" by (cases ml)
  obtain m' out where st: "vm_step m x = (m', out)" by (cases "vm_step m x")
  assume "machine_ok (fst ml)"
  then have ok: "machine_ok m" using ml by simp
  show "machine_ok (fst (fst (ledger_step ml x)))"
    using vm_step_ok [OF ok, of x] ml st by (simp add: ledger_step_def)
  show "(\<lambda>d. holdings (fst (fst (ledger_step ml x))) d - snd (fst (ledger_step ml x)) d)
      = (\<lambda>d. holdings (fst ml) d - snd ml d)"
    using step_holdings [OF ok, of x] ml st by (simp add: ledger_step_def fun_eq_iff)
qed

section \<open>Properties\<close>

text \<open>C34. \<open>make_change\<close> returns \<open>None\<close> exactly when no selection of the available coins adds up
  to the amount; a purse it returns takes each coin at most as often as it is available, adds
  up to the amount, and no other selection that does so uses fewer coins. A greedy choice
  has none of this when the supply is limited.\<close>

theorem make_change_optimal:
  "(make_change amount available = None \<longleftrightarrow>
      (\<forall>c. choice_ok available (set coins_descending) c \<longrightarrow> (\<Sum>d \<in> set coins_descending. cents d * c d) \<noteq> amount))
   \<and> (\<forall>p. make_change amount available = Some p \<longrightarrow>
        payable available (set coins_descending) p \<and> worth cents p = amount
        \<and> (\<forall>c. choice_ok available (set coins_descending) c \<longrightarrow>
              (\<Sum>d \<in> set coins_descending. cents d * c d) = amount \<longrightarrow>
              coins p \<le> (\<Sum>d \<in> set coins_descending. c d)))"
  using vm_change.pay_None_iff [of amount available] vm_change.pay_sound [of amount available]
    vm_change.pay_minimal [of amount available] by blast

text \<open>The example of the code's comment: thirty cents from one quarter and three dimes.\<close>

theorem make_change_optimal_witness:
  "make_change 30 (\<lambda>d. case d of QUARTER \<Rightarrow> 1 | DIME \<Rightarrow> 3 | _ \<Rightarrow> 0) = Some [(DIME, 3)]
   \<and> worth cents [(DIME, 3)] = 30"
proof -
  have "make_change 30 (\<lambda>d. case d of QUARTER \<Rightarrow> 1 | DIME \<Rightarrow> 3 | _ \<Rightarrow> 0) = Some [(DIME, 3)]"
    by code_simp
  then show ?thesis
    using make_change_optimal [of 30 "\<lambda>d. case d of QUARTER \<Rightarrow> 1 | DIME \<Rightarrow> 3 | _ \<Rightarrow> 0"] by blast
qed

text \<open>From a new machine, whatever customers and the operator do: no slot has a negative
  stock or more than its capacity, the cash box and the escrow never hold a negative number
  of a piece, money is in escrow only while a product is selected and is then less than its
  price, and the selected slot still has stock.\<close>

theorem vm_run_ok:
  "pieces_ok change_float \<Longrightarrow> machine_ok (run_ops vm_step (new_machine change_float) xs)"
  by (rule vm_runs.run_inv) (rule new_machine_ok)

definition cola_calls :: "vm_op list" where
  "cola_calls = [AddSlot ''A1'' ''c'' ''Cola'' 125 2 10, Select ''A1'', Insert (\<lambda>_. True) DOLLAR_COIN,
     Insert (\<lambda>_. True) QUARTER]"

theorem vm_run_ok_witness:
  "pieces_ok no_pieces \<and> machine_ok (run_ops vm_step (new_machine no_pieces) cola_calls)
   \<and> stock (run_ops vm_step (new_machine no_pieces) cola_calls) = [(''A1'', 1)]
   \<and> cash_total_cents (run_ops vm_step (new_machine no_pieces) cola_calls) = 125"
proof -
  have "stock (run_ops vm_step (new_machine no_pieces) cola_calls) = [(''A1'', 1)]"
    "cash_total_cents (run_ops vm_step (new_machine no_pieces) cola_calls) = 125"
    by code_simp+
  moreover have "pieces_ok no_pieces" by simp
  ultimately show ?thesis using vm_run_ok by blast
qed

text \<open>No piece of money appears or disappears: after any sequence of calls, for each
  denomination, what lies in the cash box and in escrow is the initial float plus everything
  put into the machine less everything it gave back (change, refunds, rejected pieces,
  collected cash).\<close>

theorem money_accounted:
  assumes "pieces_ok change_float"
  shows "holdings (fst (run_ops ledger_step (new_machine change_float, no_pieces) xs)) d
    = change_float d + snd (run_ops ledger_step (new_machine change_float, no_pieces) xs) d"
  using vm_ledger.run_quantity [of "(new_machine change_float, no_pieces)" xs]
    new_machine_ok [OF assms]
  by (simp add: holdings_def new_machine_def fun_eq_iff algebra_simps)

theorem money_accounted_witness:
  "holdings (fst (run_ops ledger_step (new_machine (add_piece no_pieces DIME), no_pieces) cola_calls)) QUARTER
    = 0 + snd (run_ops ledger_step (new_machine (add_piece no_pieces DIME), no_pieces) cola_calls) QUARTER
   \<and> snd (run_ops ledger_step (new_machine (add_piece no_pieces DIME), no_pieces) cola_calls) QUARTER = 1"
proof -
  have "pieces_ok (add_piece no_pieces DIME)" "add_piece no_pieces DIME QUARTER = 0"
    by (simp_all add: add_piece_def)
  moreover have "snd (run_ops ledger_step (new_machine (add_piece no_pieces DIME), no_pieces) cola_calls) QUARTER = 1"
    by code_simp
  ultimately show ?thesis using money_accounted [of "add_piece no_pieces DIME" cola_calls QUARTER] by simp
qed

lemma sum_pieces_purse:
  assumes "payable av (set coins_descending) p"
  shows "sum_pieces (purse_count p) = worth cents p"
proof -
  have "purse_count p ONE_NOTE = 0" "purse_count p FIVE_NOTE = 0"
    by (rule payable_count(5) [OF assms]; simp add: coins_descending_def)+
  moreover have "worth cents p = (\<Sum>d \<in> set coins_descending. cents d * purse_count p d)"
    by (rule payable_count(1) [OF assms]) simp
  ultimately show ?thesis by (simp add: sum_pieces_def denominations_def coins_descending_def)
qed

lemma sum_pieces_diff: "sum_pieces (\<lambda>d. f d - g d) = sum_pieces f - sum_pieces g"
  by (simp add: sum_pieces_def denominations_def algebra_simps)

lemma sum_pool: "sum_pieces (pool_with m piece) = cash_total_cents m + escrow_total m + cents piece"
  by (simp add: pool_with_def cash_deposit_def sum_pieces_add cash_total_cents_def escrow_total_def)

lemma sale_keeps_price:
  assumes "make_change amount (pool_with m piece) = Some change"
  shows "sum_pieces (\<lambda>d. pool_with m piece d - purse_count change d)
    = cash_total_cents m + escrow_total m + cents piece - amount"
  using vm_change.pay_sound [OF assms] sum_pieces_purse [of "pool_with m piece" change]
  by (simp add: sum_pieces_diff sum_pool)

text \<open>What inserting a piece does in an open transaction. Below the price the piece joins
  the escrow. Otherwise one of three things: a sale, in which the product fell, the change is
  exactly what was paid over the price, the cash box gains exactly the price, the slot loses
  one item and the machine is idle again; the piece is refused and nothing changes, only when
  no coins in the machine make the change; or the product did not fall and the transaction is
  undone with stock and cash box as before. No other exception can occur; in particular the
  cash box always covers the change.\<close>

theorem insert_outcome:
  fixes piece :: Denomination
  assumes "machine_ok m" "vm_state m = AWAITING_PAYMENT" "selected_slot m = Some s"
  defines "price \<equiv> pr_price_cents (sl_product s)" and "paid \<equiv> escrow_total m + cents piece"
  shows "case insert_piece drops m piece of
      (m', Inr None) \<Rightarrow> paid < price \<and> m' = m\<lparr>vm_escrow := add_piece (vm_escrow m) piece\<rparr>
    | (m', Inr (Some r)) \<Rightarrow> price \<le> paid \<and> drops (sl_code s) \<and> rc_paid_cents r = paid
        \<and> change_cents r = paid - price \<and> cash_total_cents m' = cash_total_cents m + price
        \<and> map_of (vm_inventory m') = (map_of (vm_inventory m))(sl_code s \<mapsto> s\<lparr>sl_quantity := sl_quantity s - 1\<rparr>)
        \<and> vm_state m' = IDLE \<and> balance_cents m' = 0
    | (m', Inl ChangeUnavailableError) \<Rightarrow> price \<le> paid \<and> m' = m
        \<and> (\<forall>c. choice_ok (pool_with m piece) (set coins_descending) c \<longrightarrow>
              (\<Sum>d \<in> set coins_descending. cents d * c d) \<noteq> paid - price)
    | (m', Inl DispenseFailedError) \<Rightarrow> price \<le> paid \<and> \<not> drops (sl_code s)
        \<and> m' = m\<lparr>vm_escrow := no_pieces, vm_selected := None, vm_state := IDLE\<rparr>
    | _ \<Rightarrow> False"
proof (cases "paid < price")
  case True
  then show ?thesis using insert_below_price [OF assms(2,3)] by (simp add: price_def paid_def)
next
  case False
  show ?thesis
  proof (cases "make_change (paid - price) (pool_with m piece)")
    case None
    have "\<forall>c. choice_ok (pool_with m piece) (set coins_descending) c \<longrightarrow>
        (\<Sum>d \<in> set coins_descending. cents d * c d) \<noteq> paid - price"
      using None vm_change.pay_None_iff by blast
    then show ?thesis using insert_no_change [OF assms(2,3)] False None by (simp add: price_def paid_def)
  next
    case (Some change)
    have slot: "map_of (vm_inventory m) (sl_code s) = Some s"
      using machine_ok_awaiting [OF assms(1,2)] assms(3) by (metis option.inject)
    have worth: "worth cents change = paid - price" using vm_change.pay_sound [OF Some] by simp
    show ?thesis
    proof (cases "drops (sl_code s)")
      case True
      then show ?thesis
        using insert_sells [OF assms(1-3)] False Some slot worth sale_keeps_price [OF Some]
        by (simp add: price_def paid_def sold_def change_cents_def balance_cents_def escrow_total_def
            cash_total_cents_def map_of_set_quantity fun_eq_iff)
    next
      case jam: False
      then show ?thesis
        using insert_jammed [OF assms(2,3)] False Some by (simp add: price_def paid_def refund_and_reset_def)
    qed
  qed
qed

definition cola_selected :: machine where
  "cola_selected = run_ops vm_step (new_machine no_pieces) [AddSlot ''A1'' ''c'' ''Cola'' 125 2 10, Select ''A1'']"

theorem insert_outcome_witness:
  "snd (insert_piece (\<lambda>_. True) cola_selected FIVE_NOTE) = Inl ChangeUnavailableError
   \<and> fst (insert_piece (\<lambda>_. True) cola_selected FIVE_NOTE) = cola_selected"
proof -
  obtain s where s: "selected_slot cola_selected = Some s" and "sl_code s = ''A1''"
    by (simp add: cola_selected_def new_machine_def add_slot_def inv_add_slot_def new_slot_def new_product_def
        reply_def select_def inv_slot_def selected_slot_def)
  have ok: "machine_ok cola_selected" "vm_state cola_selected = AWAITING_PAYMENT"
    unfolding cola_selected_def by code_simp+
  have r: "snd (insert_piece (\<lambda>_. True) cola_selected FIVE_NOTE) = Inl ChangeUnavailableError"
    unfolding cola_selected_def by code_simp
  then have "insert_piece (\<lambda>_. True) cola_selected FIVE_NOTE
      = (fst (insert_piece (\<lambda>_. True) cola_selected FIVE_NOTE), Inl ChangeUnavailableError)"
    by (metis prod.collapse)
  then show ?thesis using r insert_outcome [OF ok s, of FIVE_NOTE "\<lambda>_. True"] by (auto split: prod.splits)
qed

lemma insert_many_below:
  assumes "vm_state m = AWAITING_PAYMENT" "selected_slot m = Some s"
    "escrow_total m + sum_list (map cents ps) < pr_price_cents (sl_product s)"
  shows "run_ops vm_step m (map (Insert drops) ps) = m\<lparr>vm_escrow := \<lambda>d. vm_escrow m d + counted ps d\<rparr>"
  using assms
proof (induction ps arbitrary: m)
  case Nil
  then show ?case by (simp add: counted_def)
next
  case (Cons p ps)
  have pos: "0 \<le> cents d" for d by (cases d) simp_all
  have "0 \<le> sum_list (map cents ps)" by (rule sum_list_nonneg) (auto simp: pos)
  then have "insert_piece drops m p = (m\<lparr>vm_escrow := add_piece (vm_escrow m) p\<rparr>, Inr None)"
    using Cons.prems by (intro insert_below_price) auto
  moreover have "run_ops vm_step (m\<lparr>vm_escrow := add_piece (vm_escrow m) p\<rparr>) (map (Insert drops) ps)
      = m\<lparr>vm_escrow := \<lambda>d. add_piece (vm_escrow m) p d + counted ps d\<rparr>"
    using Cons.prems Cons.IH [of "m\<lparr>vm_escrow := add_piece (vm_escrow m) p\<rparr>"] by (simp add: escrow_total_def)
  moreover have "(\<lambda>d. add_piece (vm_escrow m) p d + counted ps d) = (\<lambda>d. vm_escrow m d + counted (p # ps) d)"
    by (auto simp: add_piece_def counted_def)
  ultimately show ?case by simp
qed

text \<open>Selecting a product, inserting pieces worth less than its price and cancelling gives
  back exactly the inserted pieces and leaves the machine exactly as it was.\<close>

theorem cancel_returns_inserted:
  assumes "machine_ok m" "select m code = (m1, Inr p)" "sum_list (map cents ps) < pr_price_cents p"
  shows "cancel (run_ops vm_step m1 (map (Insert drops) ps)) = (m, Inr (counted ps))"
proof -
  have idle: "vm_state m = IDLE" using select_done [of m code p] assms(2) by simp
  then obtain s where s: "map_of (vm_inventory m) code = Some s" "p = sl_product s"
    "m1 = m\<lparr>vm_selected := Some code, vm_state := AWAITING_PAYMENT\<rparr>"
    using assms(2) by (auto simp: select_cases split: option.splits if_splits)
  have closed: "vm_selected m = None" "vm_escrow m = no_pieces" using machine_ok_closed [OF assms(1)] idle by auto
  have "run_ops vm_step m1 (map (Insert drops) ps) = m1\<lparr>vm_escrow := \<lambda>d. vm_escrow m1 d + counted ps d\<rparr>"
    by (rule insert_many_below [of _ s]) (use s assms(3) closed in \<open>simp_all add: selected_slot_def escrow_total_def\<close>)
  then show ?thesis
    using s(3) closed idle by (cases m) (simp add: cancel_def refund_and_reset_def)
qed

definition cola_idle :: machine where
  "cola_idle = run_ops vm_step (new_machine no_pieces) [AddSlot ''A1'' ''c'' ''Cola'' 125 2 10]"

theorem cancel_returns_inserted_witness:
  "cancel (run_ops vm_step (fst (select cola_idle ''A1'')) (map (Insert (\<lambda>_. True)) [DOLLAR_COIN, DIME]))
    = (cola_idle, Inr (counted [DOLLAR_COIN, DIME]))"
proof -
  have ok: "machine_ok cola_idle" unfolding cola_idle_def by code_simp
  have "snd (select cola_idle ''A1'') = Inr \<lparr>pr_sku = ''c'', pr_name = ''Cola'', pr_price_cents = 125\<rparr>"
    unfolding cola_idle_def by code_simp
  then have "select cola_idle ''A1''
      = (fst (select cola_idle ''A1''), Inr \<lparr>pr_sku = ''c'', pr_name = ''Cola'', pr_price_cents = 125\<rparr>)"
    by (metis prod.collapse)
  then show ?thesis by (rule cancel_returns_inserted [OF ok]) simp
qed

text \<open>A purchase by card is charged exactly when the product fell: a declined card leaves
  the machine as it was; when the product falls the hold is captured for the price and the slot
  loses one item; when it does not, the hold is voided, nothing is captured and only the
  gateway's records change.\<close>

theorem card_charged_iff_dropped:
  assumes "machine_ok m" "vm_state m = IDLE" "map_of (vm_inventory m) code = Some s" "sl_quantity s \<noteq> 0"
  shows "purchase_with_card drops m code token =
    (if declined token then (m, Inl PaymentDeclinedError)
     else if drops code
     then (m\<lparr>vm_inventory := set_quantity (vm_inventory m) code (sl_quantity s - 1),
             vm_gateway := charged (vm_gateway m) (pr_price_cents (sl_product s))\<rparr>,
           Inr \<lparr>rc_slot_code = code, rc_product = sl_product s, rc_method = CARD,
                rc_paid_cents = pr_price_cents (sl_product s), rc_change = []\<rparr>)
     else (m\<lparr>vm_gateway := released (vm_gateway m) (pr_price_cents (sl_product s))\<rparr>, Inl DispenseFailedError))"
proof -
  let ?m = "m\<lparr>vm_selected := Some code, vm_state := AWAITING_PAYMENT\<rparr>"
  have closed: "vm_selected m = None" "vm_escrow m = no_pieces" using machine_ok_closed [OF assms(1)] assms(2) by auto
  have "slot_ok code s" using assms(1,3) by (auto simp: machine_ok_def intro: inventory_ok_slot)
  then have code: "sl_code s = code" by (simp add: slot_ok_def)
  have sel: "select m code = (?m, Inr (sl_product s))" using assms by (simp add: select_cases)
  then have "machine_ok ?m" using select_ok [OF assms(1), of code] by simp
  moreover have "selected_slot ?m = Some s" using assms(3) by (simp add: selected_slot_def)
  ultimately have "pay_by_card drops ?m token =
    (if declined token then (?m, Inl PaymentDeclinedError)
     else if drops code
     then (sold ?m s (vm_cash m) (charged (vm_gateway m) (pr_price_cents (sl_product s))),
           Inr \<lparr>rc_slot_code = code, rc_product = sl_product s, rc_method = CARD,
                rc_paid_cents = pr_price_cents (sl_product s), rc_change = []\<rparr>)
     else (fst (refund_and_reset (?m\<lparr>vm_gateway := released (vm_gateway m) (pr_price_cents (sl_product s))\<rparr>)),
           Inl DispenseFailedError))"
    using pay_by_card_cases [of ?m s drops token] closed(2) unfolding code by simp
  then show ?thesis
    using sel closed assms(2) code
    by (cases m) (simp add: purchase_with_card_def sold_def refund_and_reset_def)
qed

theorem card_charged_iff_dropped_witness:
  "gw_captured (vm_gateway (fst (purchase_with_card (\<lambda>_. True) cola_idle ''A1'' ''visa''))) 1 = Some 125
   \<and> gw_captured (vm_gateway (fst (purchase_with_card (\<lambda>_. False) cola_idle ''A1'' ''visa''))) 1 = None"
proof -
  have ok: "machine_ok cola_idle" "vm_state cola_idle = IDLE"
    unfolding cola_idle_def by code_simp+
  obtain s where s: "map_of (vm_inventory cola_idle) ''A1'' = Some s" "sl_quantity s \<noteq> 0"
      "pr_price_cents (sl_product s) = 125" and g: "vm_gateway cola_idle = new_gateway"
    by (simp add: cola_idle_def new_machine_def add_slot_def inv_add_slot_def new_slot_def new_product_def
        reply_def)
  show ?thesis
    using card_charged_iff_dropped [OF ok s(1,2), of _ "''visa''"] s(3) g
    by (simp add: declined_def charged_def released_def new_gateway_def)
qed

end
