(* ===== verification/Linked_List.thy ===== *)
theory Linked_List
  imports Prelude
begin

text \<open>
  The doubly linked list \<open>_DList\<close> of \<open>lru-cache/lru_cache.py\<close>, at the level of its pointers.
  A list has two sentinels; nodes are numbers. The \<open>prev\<close> and \<open>next\<close> fields of the sentinels and
  of the nodes in the list are functions, \<open>None\<close> for a field that is \<open>None\<close>; following such a
  field raises. A node is in one list at a time and has both fields \<open>None\<close> outside of it, so that
  each list can keep the fields of its own nodes.
\<close>

section \<open>Operations\<close>

datatype addr = Head | Tail | Node nat

record dlist =
  dl_next :: "addr \<Rightarrow> addr option"
  dl_prev :: "addr \<Rightarrow> addr option"
  dl_len :: int

definition new_dlist :: dlist where
  "new_dlist = \<lparr>dl_next = (\<lambda>_. None)(Head := Some Tail), dl_prev = (\<lambda>_. None)(Tail := Some Head), dl_len = 0\<rparr>"

definition push_front :: "dlist \<Rightarrow> nat \<Rightarrow> py_error + dlist" where
  "push_front d i =
     (let prev1 = (dl_prev d)(Node i := Some Head);
          next1 = (dl_next d)(Node i := dl_next d Head)
      in case next1 Head of
           None \<Rightarrow> Inl AttributeError
         | Some n \<Rightarrow> Inr \<lparr>dl_next = next1(Head := Some (Node i)), dl_prev = prev1(n := Some (Node i)),
                          dl_len = dl_len d + 1\<rparr>)"

definition dl_remove :: "dlist \<Rightarrow> nat \<Rightarrow> py_error + dlist" where
  "dl_remove d i =
     (case dl_prev d (Node i) of
        None \<Rightarrow> Inl AttributeError
      | Some p \<Rightarrow>
          (let next1 = (dl_next d)(p := dl_next d (Node i)) in
           case next1 (Node i) of
             None \<Rightarrow> Inl AttributeError
           | Some n \<Rightarrow>
               (let prev1 = (dl_prev d)(n := dl_prev d (Node i))
                in Inr \<lparr>dl_next = next1(Node i := None), dl_prev = prev1(Node i := None), dl_len = dl_len d - 1\<rparr>)))"

definition dl_back :: "dlist \<Rightarrow> addr option" where
  "dl_back d = (if dl_len d = 0 then None else dl_prev d Tail)"

text \<open>
  The iterator, from \<open>head.next\<close> until it meets the tail; it walks at most as many steps as the
  fuel says, and a missing \<open>next\<close> raises at the following step.
\<close>

fun dl_walk :: "nat \<Rightarrow> dlist \<Rightarrow> addr option \<Rightarrow> (py_error + addr list) option" where
  "dl_walk 0 d a = None"
| "dl_walk (Suc n) d None = Some (Inl AttributeError)"
| "dl_walk (Suc n) d (Some a) =
     (if a = Tail then Some (Inr [])
      else case dl_walk n d (dl_next d a) of
        None \<Rightarrow> None
      | Some (Inl e) \<Rightarrow> Some (Inl e)
      | Some (Inr as) \<Rightarrow> Some (Inr (a # as)))"

section \<open>The list that a structure represents\<close>

fun chain :: "(addr \<Rightarrow> addr option) \<Rightarrow> (addr \<Rightarrow> addr option) \<Rightarrow> addr list \<Rightarrow> bool" where
  "chain nx pv (a # b # xs) \<longleftrightarrow> nx a = Some b \<and> pv b = Some a \<and> chain nx pv (b # xs)"
| "chain nx pv _ \<longleftrightarrow> True"

definition dl_repr :: "dlist \<Rightarrow> nat list \<Rightarrow> bool" where
  "dl_repr d L \<longleftrightarrow> distinct L \<and> chain (dl_next d) (dl_prev d) (Head # map Node L @ [Tail])
     \<and> dl_len d = int (length L)"

lemma chain_append:
  "chain nx pv (xs @ ys) \<longleftrightarrow> chain nx pv xs \<and> chain nx pv ys \<and>
     (xs \<noteq> [] \<and> ys \<noteq> [] \<longrightarrow> nx (last xs) = Some (hd ys) \<and> pv (hd ys) = Some (last xs))"
proof (induction nx pv xs rule: chain.induct)
  case (1 nx pv a b xs)
  then show ?case by auto
qed (cases ys; auto)+

lemma chain_Cons:
  "ys \<noteq> [] \<Longrightarrow> chain nx pv (a # ys) \<longleftrightarrow> nx a = Some (hd ys) \<and> pv (hd ys) = Some a \<and> chain nx pv ys"
  by (cases ys) auto

lemma chain_cong:
  "\<forall>a \<in> set (butlast xs). nx' a = nx a \<Longrightarrow> \<forall>b \<in> set (tl xs). pv' b = pv b \<Longrightarrow>
    chain nx' pv' xs = chain nx pv xs"
proof (induction nx pv xs rule: chain.induct)
  case (1 nx pv a b xs)
  then have "chain nx' pv' (b # xs) = chain nx pv (b # xs)" by (cases xs) auto
  then show ?case using "1.prems" by auto
qed simp_all

lemma dl_repr_distinct: "dl_repr d L \<Longrightarrow> distinct (Head # map Node L @ [Tail])"
  by (auto simp: dl_repr_def distinct_map inj_on_def)

lemma new_dlist_repr: "dl_repr new_dlist []"
  by (simp add: dl_repr_def new_dlist_def)

lemma push_front_repr:
  assumes "dl_repr d L" "i \<notin> set L"
  shows "\<exists>d'. push_front d i = Inr d' \<and> dl_repr d' (i # L)"
proof -
  let ?xs = "map Node L @ [Tail]"
  obtain n ys where xs: "?xs = n # ys" by (cases ?xs) auto
  have c: "dl_next d Head = Some n" "chain (dl_next d) (dl_prev d) (n # ys)" "dl_len d = int (length L)"
    using assms(1) xs by (auto simp: dl_repr_def)
  have dist: "distinct (Head # n # ys)" using dl_repr_distinct [OF assms(1)] xs by simp
  have fresh: "Node i \<noteq> Head" "Node i \<notin> set (n # ys)" using assms(2) unfolding xs [symmetric] by auto
  let ?d = "\<lparr>dl_next = (dl_next d)(Node i := Some n, Head := Some (Node i)),
    dl_prev = (dl_prev d)(Node i := Some Head, n := Some (Node i)), dl_len = dl_len d + 1\<rparr>"
  have "push_front d i = Inr ?d" using c(1) by (simp add: push_front_def Let_def)
  moreover have "chain (dl_next ?d) (dl_prev ?d) (n # ys) = chain (dl_next d) (dl_prev d) (n # ys)"
    by (rule chain_cong) (use dist fresh in \<open>auto dest: in_set_butlastD split: if_splits\<close>)
  then have "chain (dl_next ?d) (dl_prev ?d) (Head # Node i # n # ys)" using c dist fresh by auto
  then have "dl_repr ?d (i # L)" using assms xs c(3) by (simp add: dl_repr_def)
  ultimately show ?thesis by blast
qed

lemma dl_remove_repr:
  assumes "dl_repr d L" "i \<in> set L"
  shows "\<exists>d'. dl_remove d i = Inr d' \<and> dl_repr d' (remove1 i L)"
proof -
  obtain A B where L: "L = A @ i # B" "i \<notin> set A" using assms(2) by (metis split_list_first)
  let ?P = "Head # map Node A" and ?Q = "map Node B @ [Tail]"
  let ?p = "last ?P" and ?q = "hd ?Q"
  have all: "Head # map Node L @ [Tail] = ?P @ Node i # ?Q" using L by simp
  have dist: "distinct (?P @ Node i # ?Q)" using dl_repr_distinct [OF assms(1)] all by simp
  have "chain (dl_next d) (dl_prev d) (?P @ Node i # ?Q)" using assms(1) all by (simp add: dl_repr_def)
  then have c: "chain (dl_next d) (dl_prev d) ?P" "chain (dl_next d) (dl_prev d) ?Q"
    "dl_prev d (Node i) = Some ?p" "dl_next d (Node i) = Some ?q"
    unfolding chain_append [of _ _ ?P] by (simp_all add: chain_Cons del: map_append)
  have sep: "Node i \<notin> set ?P" "Node i \<notin> set ?Q" "set ?P \<inter> set ?Q = {}" "distinct ?P" "distinct ?Q"
    using dist unfolding distinct_append by auto
  have pq: "?p \<in> set ?P" "?q \<in> set ?Q" by (rule last_in_set, simp) (rule hd_in_set, simp)
  then have pq': "?p \<noteq> Node i" "?q \<noteq> Node i" using sep by metis+
  let ?d = "\<lparr>dl_next = (dl_next d)(?p := Some ?q, Node i := None),
    dl_prev = (dl_prev d)(?q := Some ?p, Node i := None), dl_len = dl_len d - 1\<rparr>"
  have rm: "dl_remove d i = Inr ?d" using c(3,4) pq' unfolding dl_remove_def Let_def by simp
  have "chain (dl_next ?d) (dl_prev ?d) ?P = chain (dl_next d) (dl_prev d) ?P"
  proof (rule chain_cong)
    show "\<forall>a \<in> set (butlast ?P). dl_next ?d a = dl_next d a"
      using distinct_last_butlast [OF sep(4)] in_set_butlastD [of _ ?P] sep(1)
      by (metis dlist.select_convs(1) fun_upd_other)
    show "\<forall>b \<in> set (tl ?P). dl_prev ?d b = dl_prev d b"
      using list.set_sel(2) [of ?P] sep(1,3) pq(2)
      by (metis disjoint_iff dlist.select_convs(2) fun_upd_other list.distinct(1))
  qed
  moreover have "chain (dl_next ?d) (dl_prev ?d) ?Q = chain (dl_next d) (dl_prev d) ?Q"
  proof (rule chain_cong)
    show "\<forall>a \<in> set (butlast ?Q). dl_next ?d a = dl_next d a"
      using in_set_butlastD [of _ ?Q] sep(2,3) pq(1)
      by (metis disjoint_iff dlist.select_convs(1) fun_upd_other)
    show "\<forall>b \<in> set (tl ?Q). dl_prev ?d b = dl_prev d b"
      using list.set_sel(2) [of ?Q] distinct_hd_tl [OF sep(5)] sep(2)
      by (metis dlist.select_convs(2) fun_upd_other append_is_Nil_conv list.distinct(1))
  qed
  moreover have "dl_next ?d ?p = Some ?q" "dl_prev ?d ?q = Some ?p" using pq' by auto
  ultimately have "chain (dl_next ?d) (dl_prev ?d) (?P @ ?Q)"
    using c(1,2) unfolding chain_append [of _ _ ?P] by metis
  moreover have "remove1 i L = A @ B" using L by (simp add: remove1_append)
  ultimately have "dl_repr ?d (remove1 i L)" using assms(1) L by (simp add: dl_repr_def)
  then show ?thesis using rm by blast
qed

lemma dl_back_repr: "dl_repr d L \<Longrightarrow> dl_back d = (if L = [] then None else Some (Node (last L)))"
proof (cases L rule: rev_cases)
  case (snoc A i)
  assume "dl_repr d L"
  then have "chain (dl_next d) (dl_prev d) ((Head # map Node A @ [Node i]) @ [Tail])" using snoc by (simp add: dl_repr_def)
  then have "dl_prev d Tail = Some (Node i)" unfolding chain_append by simp
  then show ?thesis using \<open>dl_repr d L\<close> snoc by (simp add: dl_back_def dl_repr_def)
qed (simp add: dl_back_def dl_repr_def)

lemma dl_walk_repr:
  assumes "dl_repr d L" "length L < n"
  shows "dl_walk n d (dl_next d Head) = Some (Inr (map Node L))"
proof -
  have "dl_walk n d (Some (hd (map Node M @ [Tail]))) = Some (Inr (map Node M))"
    if "chain (dl_next d) (dl_prev d) (map Node M @ [Tail])" "length M < n" for M n
    using that
  proof (induction M arbitrary: n)
    case Nil
    then show ?case by (cases n) auto
  next
    case (Cons i M)
    then obtain m where n: "n = Suc m" "length M < m" by (cases n) auto
    have "dl_next d (Node i) = Some (hd (map Node M @ [Tail]))" "chain (dl_next d) (dl_prev d) (map Node M @ [Tail])"
      using Cons.prems(1) by (cases M; simp)+
    then show ?case using Cons.IH [of m] n by simp
  qed
  note walk = this
  have "chain (dl_next d) (dl_prev d) ([Head] @ map Node L @ [Tail])" using assms(1) by (simp add: dl_repr_def)
  then have "dl_next d Head = Some (hd (map Node L @ [Tail]))" "chain (dl_next d) (dl_prev d) (map Node L @ [Tail])"
    unfolding chain_append [of _ _ "[Head]"] by auto
  then show ?thesis using walk assms(2) by simp
qed

end
