(* ===== verification/LRU_Cache.thy ===== *)
theory LRU_Cache
  imports Linked_List Complex_Main
begin

text \<open>
  The cache of \<open>python-low-level-design/lru-cache/lru_cache.py\<close>: the template class
  \<open>BaseCache\<close> with its hooks, and the two eviction policies \<open>LRUCache\<close> and \<open>LFUCache\<close>.

  Node objects have identity (the expiry heap refers to them after they left the cache), so
  they live in a store and are referred to by number; a number is never used twice. Their fields
  \<open>prev\<close> and \<open>next\<close> are kept with the linked list that a node is in (theory \<open>Linked_List\<close>), and
  \<open>freq\<close> with the LFU policy that alone uses it. The heap of \<open>heapq\<close> is a list sorted by its entries. The clock is an argument:
  \<open>put\<close> reads it a second time in \<open>purge_expired\<close>, hence its two times. Times are rational
  numbers. Hooks raise what their code would raise; the operations are shown never to do so,
  so the half-changed cache that such an exception would leave is not kept.
\<close>

section \<open>Nodes, statistics, hooks\<close>

type_synonym time = rat

record ('k, 'v) node =
  nd_key :: 'k
  nd_value :: 'v
  nd_expires_at :: "time option"

record cache_stats =
  st_hits :: int
  st_misses :: int
  st_evictions :: int
  st_expirations :: int

definition no_stats :: cache_stats where
  "no_stats = \<lparr>st_hits = 0, st_misses = 0, st_evictions = 0, st_expirations = 0\<rparr>"

definition add_stats :: "cache_stats \<Rightarrow> cache_stats \<Rightarrow> cache_stats" where
  "add_stats s t = \<lparr>st_hits = st_hits s + st_hits t, st_misses = st_misses s + st_misses t,
     st_evictions = st_evictions s + st_evictions t, st_expirations = st_expirations s + st_expirations t\<rparr>"

definition hit_rate :: "cache_stats \<Rightarrow> rat" where
  "hit_rate s = (let tot = st_hits s + st_misses s in if tot \<noteq> 0 then of_int (st_hits s) / of_int tot else 0)"

record 'p policy =
  po_insert :: "'p \<Rightarrow> nat \<Rightarrow> py_error + 'p"
  po_touch :: "'p \<Rightarrow> nat \<Rightarrow> py_error + 'p"
  po_unlink :: "'p \<Rightarrow> nat \<Rightarrow> py_error + 'p"
  po_victim :: "'p \<Rightarrow> py_error + 'p \<times> nat"

section \<open>The base cache\<close>

type_synonym heap_entry = "time \<times> nat \<times> nat"

record ('k, 'v, 'p) cache =
  ca_capacity :: int
  ca_default_ttl :: "time option"
  ca_nodes :: "nat \<Rightarrow> ('k, 'v) node"
  ca_next :: nat
  ca_map :: "('k \<times> nat) list"
  ca_heap :: "heap_entry list"
  ca_seq :: nat
  ca_stats :: cache_stats
  ca_policy :: 'p

definition new_cache :: "'p \<Rightarrow> int \<Rightarrow> time option \<Rightarrow> py_error + ('k, 'v, 'p) cache" where
  "new_cache p capacity default_ttl =
     (if capacity \<le> 0 then Inl ValueError
      else if (case default_ttl of None \<Rightarrow> False | Some t \<Rightarrow> t \<le> 0) then Inl ValueError
      else Inr \<lparr>ca_capacity = capacity, ca_default_ttl = default_ttl, ca_nodes = (\<lambda>_. undefined), ca_next = 0,
                ca_map = [], ca_heap = [], ca_seq = 0, ca_stats = no_stats, ca_policy = p\<rparr>)"

definition is_expired :: "time \<Rightarrow> ('k, 'v) node \<Rightarrow> bool" where
  "is_expired now n = (case nd_expires_at n of None \<Rightarrow> False | Some e \<Rightarrow> e \<le> now)"

text \<open>\<open>heappush\<close>; tuples compare by time, then by the unique sequence number.\<close>

definition heap_le :: "heap_entry \<Rightarrow> heap_entry \<Rightarrow> bool" where
  "heap_le x y \<longleftrightarrow> fst x < fst y \<or> fst x = fst y \<and> fst (snd x) \<le> fst (snd y)"

fun heappush :: "heap_entry list \<Rightarrow> heap_entry \<Rightarrow> heap_entry list" where
  "heappush [] x = [x]"
| "heappush (y # h) x = (if heap_le x y then x # y # h else y # heappush h x)"

definition heapify :: "heap_entry list \<Rightarrow> heap_entry list" where
  "heapify xs = foldl heappush [] xs"

text \<open>The rebuilt heap: live entries in the order of the dictionary, with new sequence numbers.\<close>

fun live_entries :: "(nat \<Rightarrow> ('k, 'v) node) \<Rightarrow> nat \<Rightarrow> ('k \<times> nat) list \<Rightarrow> heap_entry list" where
  "live_entries nodes q [] = []"
| "live_entries nodes q ((k, i) # m) =
     (case nd_expires_at (nodes i) of
        None \<Rightarrow> live_entries nodes q m
      | Some e \<Rightarrow> (e, q, i) # live_entries nodes (Suc q) m)"

definition schedule :: "('k, 'v, 'p) cache \<Rightarrow> nat \<Rightarrow> ('k, 'v, 'p) cache" where
  "schedule c i =
     (case nd_expires_at (ca_nodes c i) of
        None \<Rightarrow> c
      | Some e \<Rightarrow>
          (let c1 = c\<lparr>ca_heap := heappush (ca_heap c) (e, ca_seq c, i), ca_seq := Suc (ca_seq c)\<rparr>
           in if length (ca_heap c1) > 2 * length (ca_map c1) + 32
              then (let es = live_entries (ca_nodes c1) (ca_seq c1) (ca_map c1)
                    in c1\<lparr>ca_heap := heapify es, ca_seq := ca_seq c1 + length es\<rparr>)
              else c1))"

definition remove_node :: "'p policy \<Rightarrow> ('k, 'v, 'p) cache \<Rightarrow> nat \<Rightarrow> py_error + ('k, 'v, 'p) cache" where
  "remove_node pol c i =
     (let k = nd_key (ca_nodes c i)
      in if map_of (ca_map c) k = None then Inl KeyError
         else bind_sum (po_unlink pol (ca_policy c) i)
                (\<lambda>p. Inr (c\<lparr>ca_map := AList.delete k (ca_map c), ca_policy := p\<rparr>)))"

definition count_hit :: "cache_stats \<Rightarrow> cache_stats" where
  "count_hit s = s\<lparr>st_hits := st_hits s + 1\<rparr>"

definition count_miss :: "cache_stats \<Rightarrow> cache_stats" where
  "count_miss s = s\<lparr>st_misses := st_misses s + 1\<rparr>"

definition count_eviction :: "cache_stats \<Rightarrow> cache_stats" where
  "count_eviction s = s\<lparr>st_evictions := st_evictions s + 1\<rparr>"

definition count_expiration :: "cache_stats \<Rightarrow> cache_stats" where
  "count_expiration s = s\<lparr>st_expirations := st_expirations s + 1\<rparr>"

text \<open>\<open>None\<close> stands for the argument \<open>default\<close>.\<close>

definition cache_get :: "'p policy \<Rightarrow> time \<Rightarrow> ('k, 'v, 'p) cache \<Rightarrow> 'k
    \<Rightarrow> py_error + ('k, 'v, 'p) cache \<times> 'v option" where
  "cache_get pol now c k =
     (case map_of (ca_map c) k of
        None \<Rightarrow> Inr (c\<lparr>ca_stats := count_miss (ca_stats c)\<rparr>, None)
      | Some i \<Rightarrow>
          if is_expired now (ca_nodes c i)
          then bind_sum (remove_node pol c i)
                 (\<lambda>c1. Inr (c1\<lparr>ca_stats := count_miss (count_expiration (ca_stats c1))\<rparr>, None))
          else bind_sum (po_touch pol (ca_policy c) i)
                 (\<lambda>p. Inr (c\<lparr>ca_policy := p, ca_stats := count_hit (ca_stats c)\<rparr>, Some (nd_value (ca_nodes c i)))))"

text \<open>The loop of \<open>purge_expired\<close>; the list is the heap, the result is the rest of the heap.\<close>

fun purge_loop :: "'p policy \<Rightarrow> time \<Rightarrow> ('k, 'v, 'p) cache \<Rightarrow> int \<Rightarrow> heap_entry list
    \<Rightarrow> py_error + ('k, 'v, 'p) cache \<times> int" where
  "purge_loop pol now c removed [] = Inr (c\<lparr>ca_heap := []\<rparr>, removed)"
| "purge_loop pol now c removed ((e, q, i) # h) =
     (if e \<le> now
      then (if map_of (ca_map c) (nd_key (ca_nodes c i)) = Some i \<and> nd_expires_at (ca_nodes c i) = Some e
            then bind_sum (remove_node pol c i)
                   (\<lambda>c1. purge_loop pol now (c1\<lparr>ca_stats := count_expiration (ca_stats c1)\<rparr>) (removed + 1) h)
            else purge_loop pol now c removed h)
      else Inr (c\<lparr>ca_heap := (e, q, i) # h\<rparr>, removed))"

definition purge_expired :: "'p policy \<Rightarrow> time \<Rightarrow> ('k, 'v, 'p) cache \<Rightarrow> py_error + ('k, 'v, 'p) cache \<times> int" where
  "purge_expired pol now c = purge_loop pol now c 0 (ca_heap c)"

definition make_room :: "'p policy \<Rightarrow> time \<Rightarrow> ('k, 'v, 'p) cache \<Rightarrow> py_error + ('k, 'v, 'p) cache" where
  "make_room pol now c =
     (if int (length (ca_map c)) \<ge> ca_capacity c
      then bind_sum (purge_expired pol now c)
             (\<lambda>(c1, n). if n = 0
                then bind_sum (po_victim pol (ca_policy c1))
                       (\<lambda>(p, i). bind_sum (remove_node pol (c1\<lparr>ca_policy := p\<rparr>) i)
                          (\<lambda>c2. Inr (c2\<lparr>ca_stats := count_eviction (ca_stats c2)\<rparr>)))
                else Inr c1)
      else Inr c)"

definition add_node :: "'p policy \<Rightarrow> ('k, 'v, 'p) cache \<Rightarrow> 'k \<Rightarrow> 'v \<Rightarrow> time option \<Rightarrow> py_error + ('k, 'v, 'p) cache" where
  "add_node pol c k v expires =
     (let i = ca_next c;
          c1 = c\<lparr>ca_nodes := (ca_nodes c)(i := \<lparr>nd_key = k, nd_value = v, nd_expires_at = expires\<rparr>),
                 ca_next := Suc i, ca_map := AList.update k i (ca_map c)\<rparr>
      in bind_sum (po_insert pol (ca_policy c1) i)
           (\<lambda>p. Inr (schedule (c1\<lparr>ca_policy := p\<rparr>) i)))"

definition expiry_of :: "('k, 'v, 'p) cache \<Rightarrow> time \<Rightarrow> time option \<Rightarrow> time option" where
  "expiry_of c now ttl =
     (case ttl of
        Some t \<Rightarrow> Some (now + t)
      | None \<Rightarrow> (case ca_default_ttl c of None \<Rightarrow> None | Some t \<Rightarrow> Some (now + t)))"

definition cache_put :: "'p policy \<Rightarrow> time \<Rightarrow> time \<Rightarrow> ('k, 'v, 'p) cache \<Rightarrow> 'k \<Rightarrow> 'v \<Rightarrow> time option
    \<Rightarrow> py_error + ('k, 'v, 'p) cache" where
  "cache_put pol now now2 c k v ttl =
     (if (case ttl of None \<Rightarrow> False | Some t \<Rightarrow> t \<le> 0) then Inl ValueError
      else
        (let expires = expiry_of c now ttl in
         case map_of (ca_map c) k of
           Some i \<Rightarrow>
             (let c1 = schedule (c\<lparr>ca_nodes := (ca_nodes c)(i :=
                         (ca_nodes c i)\<lparr>nd_value := v, nd_expires_at := expires\<rparr>)\<rparr>) i
              in bind_sum (po_touch pol (ca_policy c1) i) (\<lambda>p. Inr (c1\<lparr>ca_policy := p\<rparr>)))
         | None \<Rightarrow> bind_sum (make_room pol now2 c) (\<lambda>c1. add_node pol c1 k v expires)))"

definition cache_delete :: "'p policy \<Rightarrow> ('k, 'v, 'p) cache \<Rightarrow> 'k \<Rightarrow> py_error + ('k, 'v, 'p) cache \<times> bool" where
  "cache_delete pol c k =
     (case map_of (ca_map c) k of
        None \<Rightarrow> Inr (c, False)
      | Some i \<Rightarrow> bind_sum (remove_node pol c i) (\<lambda>c1. Inr (c1, True)))"

definition cache_contains :: "time \<Rightarrow> ('k, 'v, 'p) cache \<Rightarrow> 'k \<Rightarrow> bool" where
  "cache_contains now c k =
     (case map_of (ca_map c) k of None \<Rightarrow> False | Some i \<Rightarrow> \<not> is_expired now (ca_nodes c i))"

definition cache_len :: "('k, 'v, 'p) cache \<Rightarrow> int" where
  "cache_len c = int (length (ca_map c))"

section \<open>The policies\<close>

subsection \<open>Least recently used\<close>

definition lru_insert :: "dlist \<Rightarrow> nat \<Rightarrow> py_error + dlist" where
  "lru_insert order i = push_front order i"

definition lru_touch :: "dlist \<Rightarrow> nat \<Rightarrow> py_error + dlist" where
  "lru_touch order i = bind_sum (dl_remove order i) (\<lambda>order1. push_front order1 i)"

definition lru_unlink :: "dlist \<Rightarrow> nat \<Rightarrow> py_error + dlist" where
  "lru_unlink order i = dl_remove order i"

text \<open>The node at the back; \<open>_remove\<close> fails on \<open>None\<close>, and a sentinel has no key in the dictionary.\<close>

fun node_of :: "addr option \<Rightarrow> py_error + nat" where
  "node_of (Some (Node i)) = Inr i"
| "node_of (Some _) = Inl KeyError"
| "node_of None = Inl AttributeError"

definition lru_victim :: "dlist \<Rightarrow> py_error + dlist \<times> nat" where
  "lru_victim order = bind_sum (node_of (dl_back order)) (\<lambda>i. Inr (order, i))"

definition lru_policy :: "dlist policy" where
  "lru_policy = \<lparr>po_insert = lru_insert, po_touch = lru_touch, po_unlink = lru_unlink, po_victim = lru_victim\<rparr>"

text \<open>The key of a node; sentinels have the key \<open>None\<close>. The iterator gets one step more than the
  list has nodes.\<close>

fun addr_key :: "(nat \<Rightarrow> ('k, 'v) node) \<Rightarrow> addr \<Rightarrow> 'k option" where
  "addr_key nodes (Node i) = Some (nd_key (nodes i))"
| "addr_key nodes _ = None"

definition keys_mru_to_lru :: "('k, 'v, dlist) cache \<Rightarrow> (py_error + 'k option list) option" where
  "keys_mru_to_lru c =
     (let d = ca_policy c
      in map_option (map_sum id (map (addr_key (ca_nodes c)))) (dl_walk (Suc (nat (dl_len d))) d (dl_next d Head)))"

subsection \<open>Least frequently used\<close>

record lfu =
  lf_buckets :: "(int \<times> dlist) list"
  lf_min_freq :: "int option"
  lf_freq :: "nat \<Rightarrow> int"

definition new_lfu :: lfu where
  "new_lfu = \<lparr>lf_buckets = [], lf_min_freq = None, lf_freq = (\<lambda>_. 0)\<rparr>"

text \<open>\<open>self._bucket(f).push_front(node)\<close>: the bucket is made when it is missing.\<close>

definition push_bucket :: "(int \<times> dlist) list \<Rightarrow> int \<Rightarrow> nat \<Rightarrow> py_error + (int \<times> dlist) list" where
  "push_bucket bs f i =
     (let b = (case map_of bs f of None \<Rightarrow> new_dlist | Some b \<Rightarrow> b)
      in bind_sum (push_front b i) (\<lambda>b'. Inr (AList.update f b' bs)))"

definition detach :: "lfu \<Rightarrow> nat \<Rightarrow> py_error + lfu \<times> bool" where
  "detach l i =
     (let f = lf_freq l i in
      case map_of (lf_buckets l) f of
        None \<Rightarrow> Inl KeyError
      | Some b \<Rightarrow> bind_sum (dl_remove b i) (\<lambda>b'.
          if dl_len b' = 0 then Inr (l\<lparr>lf_buckets := AList.delete f (lf_buckets l)\<rparr>, lf_min_freq l = Some f)
          else Inr (l\<lparr>lf_buckets := AList.update f b' (lf_buckets l)\<rparr>, False)))"

definition lfu_insert :: "lfu \<Rightarrow> nat \<Rightarrow> py_error + lfu" where
  "lfu_insert l i = bind_sum (push_bucket (lf_buckets l) 1 i) (\<lambda>bs.
     Inr (l\<lparr>lf_freq := (lf_freq l)(i := 1), lf_buckets := bs, lf_min_freq := Some 1\<rparr>))"

definition lfu_touch :: "lfu \<Rightarrow> nat \<Rightarrow> py_error + lfu" where
  "lfu_touch l i = bind_sum (detach l i) (\<lambda>(l1, emptied_min).
     let f = lf_freq l1 i + 1
     in bind_sum (push_bucket (lf_buckets l1) f i) (\<lambda>bs.
          let l2 = l1\<lparr>lf_freq := (lf_freq l1)(i := f), lf_buckets := bs\<rparr>
          in Inr (if emptied_min then l2\<lparr>lf_min_freq := Some f\<rparr> else l2)))"

definition lfu_unlink :: "lfu \<Rightarrow> nat \<Rightarrow> py_error + lfu" where
  "lfu_unlink l i = bind_sum (detach l i) (\<lambda>(l1, emptied_min).
     Inr (if emptied_min then l1\<lparr>lf_min_freq := None\<rparr> else l1))"

definition lfu_victim :: "lfu \<Rightarrow> py_error + lfu \<times> nat" where
  "lfu_victim l =
     bind_sum (case lf_min_freq l of
                 Some f \<Rightarrow> Inr f
               | None \<Rightarrow> py_min (map fst (lf_buckets l)))
       (\<lambda>f. case map_of (lf_buckets l) f of
              None \<Rightarrow> Inl KeyError
            | Some b \<Rightarrow> bind_sum (node_of (dl_back b)) (\<lambda>i. Inr (l\<lparr>lf_min_freq := Some f\<rparr>, i)))"

definition lfu_policy :: "lfu policy" where
  "lfu_policy = \<lparr>po_insert = lfu_insert, po_touch = lfu_touch, po_unlink = lfu_unlink, po_victim = lfu_victim\<rparr>"

definition frequency :: "('k, 'v, lfu) cache \<Rightarrow> 'k \<Rightarrow> int" where
  "frequency c k = (case map_of (ca_map c) k of None \<Rightarrow> 0 | Some i \<Rightarrow> lf_freq (ca_policy c) i)"

section \<open>The contract between the cache and its policy\<close>

text \<open>
  A policy represents the list of the nodes in the cache, most recently used first, and how often
  each was used; it chooses a victim by its position, given the numbers of uses. \<open>R p u L\<close>: the
  policy state \<open>p\<close> represents the list \<open>L\<close> with \<open>u i\<close> uses of node \<open>i\<close>.
\<close>

locale eviction_policy =
  fixes pol :: "'p policy"
    and R :: "'p \<Rightarrow> (nat \<Rightarrow> int) \<Rightarrow> nat list \<Rightarrow> bool"
    and pos :: "int list \<Rightarrow> nat"
  assumes insert_law: "R p u L \<Longrightarrow> i \<notin> set L \<Longrightarrow> \<exists>p'. po_insert pol p i = Inr p' \<and> R p' (u(i := 1)) (i # L)"
    and touch_law: "R p u L \<Longrightarrow> i \<in> set L \<Longrightarrow>
      \<exists>p'. po_touch pol p i = Inr p' \<and> R p' (u(i := u i + 1)) (i # remove1 i L)"
    and unlink_law: "R p u L \<Longrightarrow> i \<in> set L \<Longrightarrow> \<exists>p'. po_unlink pol p i = Inr p' \<and> R p' u (remove1 i L)"
    and victim_law: "R p u L \<Longrightarrow> L \<noteq> [] \<Longrightarrow>
      pos (map u L) < length L \<and> (\<exists>p'. po_victim pol p = Inr (p', L ! pos (map u L)) \<and> R p' u L)"

text \<open>
  The cache and its recency list: the dictionary and the policy hold the same nodes, there are
  at most as many as the capacity, and every node that expires has an entry in the heap.
\<close>

definition heap_covers :: "(nat \<Rightarrow> ('k, 'v) node) \<Rightarrow> nat set \<Rightarrow> heap_entry list \<Rightarrow> bool" where
  "heap_covers nodes A h \<longleftrightarrow> sorted (map fst h) \<and>
     (\<forall>i \<in> A. \<forall>e. nd_expires_at (nodes i) = Some e \<longrightarrow> (\<exists>q. (e, q, i) \<in> set h))"

definition linked :: "('p \<Rightarrow> (nat \<Rightarrow> int) \<Rightarrow> nat list \<Rightarrow> bool) \<Rightarrow> ('k, 'v, 'p) cache \<Rightarrow> (nat \<Rightarrow> int) \<Rightarrow> nat list \<Rightarrow> bool" where
  "linked R c u L \<longleftrightarrow> int (length (ca_map c)) \<le> ca_capacity c \<and> distinct (map fst (ca_map c))
     \<and> (\<forall>(k, i) \<in> set (ca_map c). nd_key (ca_nodes c i) = k \<and> i < ca_next c)
     \<and> R (ca_policy c) u L \<and> distinct L \<and> set L = snd ` set (ca_map c) \<and> 0 < ca_capacity c"

definition cache_rel :: "('p \<Rightarrow> (nat \<Rightarrow> int) \<Rightarrow> nat list \<Rightarrow> bool) \<Rightarrow> ('k, 'v, 'p) cache \<Rightarrow> (nat \<Rightarrow> int) \<Rightarrow> nat list \<Rightarrow> bool" where
  "cache_rel R c u L \<longleftrightarrow> linked R c u L \<and> heap_covers (ca_nodes c) (set L) (ca_heap c)"

definition entry_of :: "(nat \<Rightarrow> ('k, 'v) node) \<Rightarrow> (nat \<Rightarrow> int) \<Rightarrow> nat \<Rightarrow> 'k \<times> 'v \<times> time option \<times> int" where
  "entry_of nodes u i = (nd_key (nodes i), nd_value (nodes i), nd_expires_at (nodes i), u i)"

definition entries :: "('k, 'v, 'p) cache \<Rightarrow> (nat \<Rightarrow> int) \<Rightarrow> nat list \<Rightarrow> ('k \<times> 'v \<times> time option \<times> int) list" where
  "entries c u L = map (entry_of (ca_nodes c) u) L"

lemma linkedD:
  assumes "linked R c u L"
  shows "R (ca_policy c) u L" "distinct L" "0 < ca_capacity c" "distinct (map fst (ca_map c))"
    "i \<in> set L \<Longrightarrow> map_of (ca_map c) (nd_key (ca_nodes c i)) = Some i \<and> i < ca_next c"
    "map_of (ca_map c) k = Some i \<Longrightarrow> i \<in> set L \<and> nd_key (ca_nodes c i) = k \<and> i < ca_next c"
    "length L = length (ca_map c)" "int (length L) \<le> ca_capacity c"
proof -
  note l = assms [unfolded linked_def]
  show a: "R (ca_policy c) u L" "distinct L" "0 < ca_capacity c" and d: "distinct (map fst (ca_map c))" using l by auto
  show "i \<in> set L \<Longrightarrow> map_of (ca_map c) (nd_key (ca_nodes c i)) = Some i \<and> i < ca_next c"
    using l by (force intro: map_of_is_SomeI)
  show "map_of (ca_map c) k = Some i \<Longrightarrow> i \<in> set L \<and> nd_key (ca_nodes c i) = k \<and> i < ca_next c"
    using l by (force dest: map_of_SomeD)
  have "nd_key (ca_nodes c (snd x)) = fst x" if "x \<in> set (ca_map c)" for x using l that by auto
  then have "inj_on snd (set (ca_map c))" by (metis (mono_tags) inj_onI prod.collapse)
  then have "card (set L) = card (set (ca_map c))" using l by (simp add: card_image)
  moreover have "distinct (ca_map c)" using d by (simp add: distinct_map)
  ultimately show "length L = length (ca_map c)" using a(2) by (simp add: distinct_card)
  then show "int (length L) \<le> ca_capacity c" using l by simp
qed

lemma linked_policy:
  "linked R c u L \<Longrightarrow> R p u' L' \<Longrightarrow> distinct L' \<Longrightarrow> set L' = set L \<Longrightarrow> linked R (c\<lparr>ca_policy := p\<rparr>) u' L'"
  by (simp add: linked_def)

lemma cache_rel_policy:
  "cache_rel R c u L \<Longrightarrow> R p u' L' \<Longrightarrow> distinct L' \<Longrightarrow> set L' = set L \<Longrightarrow> cache_rel R (c\<lparr>ca_policy := p\<rparr>) u' L'"
  by (auto simp: cache_rel_def intro: linked_policy)

lemma cache_rel_stats [simp]: "cache_rel R (c\<lparr>ca_stats := s\<rparr>) u L = cache_rel R c u L"
  by (simp add: cache_rel_def linked_def)

lemma linked_key_inj:
  assumes "linked R c u L" "i \<in> set L" "j \<in> set L" "nd_key (ca_nodes c i) = nd_key (ca_nodes c j)"
  shows "i = j"
  using linkedD(5) [OF assms(1,2)] linkedD(5) [OF assms(1,3)] assms(4) by (metis option.inject)

lemma entries_lookup:
  assumes "linked R c u L"
  shows "map_of (entries c u L) k =
    map_option (\<lambda>i. (nd_value (ca_nodes c i), nd_expires_at (ca_nodes c i), u i)) (map_of (ca_map c) k)"
proof -
  have d: "distinct (map fst (entries c u L))"
    unfolding entries_def map_map distinct_map
    by (intro conjI linkedD(2) [OF assms] inj_onI linked_key_inj [OF assms]) (simp_all add: entry_of_def)
  show ?thesis
  proof (cases "map_of (ca_map c) k")
    case None
    then have "k \<notin> fst ` set (entries c u L)"
      using linkedD(5) [OF assms] by (force simp: entries_def entry_of_def)
    then have "map_of (entries c u L) k = None" by (simp add: map_of_eq_None_iff)
    then show ?thesis using None by simp
  next
    case (Some i)
    have "(k, nd_value (ca_nodes c i), nd_expires_at (ca_nodes c i), u i) \<in> set (entries c u L)"
      using linkedD(6) [OF assms Some] by (auto simp: entries_def entry_of_def)
    then show ?thesis using Some d by simp
  qed
qed

lemma remove1_eq_filter: "distinct xs \<Longrightarrow> remove1 x xs = filter (\<lambda>y. y \<noteq> x) xs"
  by (auto simp: distinct_remove1_removeAll removeAll_filter_not_eq intro!: filter_cong)

lemma entries_remove:
  assumes "linked R c u L" "map_of (ca_map c) k = Some i"
  shows "filter (\<lambda>x. fst x \<noteq> k) (entries c u L) = entries c u (remove1 i L)"
proof -
  have "nd_key (ca_nodes c j) = k \<longleftrightarrow> j = i" if "j \<in> set L" for j
    using linkedD(5) [OF assms(1) that] linkedD(6) [OF assms] assms(2) by (metis option.inject)
  then have "filter (\<lambda>j. nd_key (ca_nodes c j) \<noteq> k) L = filter (\<lambda>j. j \<noteq> i) L"
    by (intro filter_cong) simp_all
  then show ?thesis
    by (simp add: entries_def filter_map comp_def entry_of_def remove1_eq_filter [OF linkedD(2) [OF assms(1)]])
qed

lemma heappush_set [simp]: "set (heappush h x) = insert x (set h)"
  by (induction h) auto

lemma heappush_sorted: "sorted (map fst h) \<Longrightarrow> sorted (map fst (heappush h x))"
  by (induction h) (auto simp: heap_le_def)

lemma heapify_set [simp]: "set (heapify xs) = set xs"
proof -
  have "set (foldl heappush h xs) = set h \<union> set xs" for h by (induction xs arbitrary: h) auto
  then show ?thesis by (simp add: heapify_def)
qed

lemma heapify_sorted: "sorted (map fst (heapify xs))"
proof -
  have "sorted (map fst h) \<Longrightarrow> sorted (map fst (foldl heappush h xs))" for h
    by (induction xs arbitrary: h) (auto simp: heappush_sorted)
  then show ?thesis by (simp add: heapify_def)
qed

lemma live_entries_cover:
  "(k, i) \<in> set m \<Longrightarrow> nd_expires_at (nodes i) = Some e \<Longrightarrow> \<exists>r. (e, r, i) \<in> set (live_entries nodes q m)"
proof (induction m arbitrary: q)
  case (Cons x m)
  obtain k' j where x: "x = (k', j)" by (cases x)
  show ?case
  proof (cases "x = (k, i)")
    case True
    then show ?thesis using Cons.prems(2) by auto
  next
    case False
    then have "(k, i) \<in> set m" using Cons.prems(1) by auto
    from Cons.IH [OF this Cons.prems(2)] have ex: "\<exists>r. (e, r, i) \<in> set (live_entries nodes q' m)" for q' .
    show ?thesis using ex [of q] ex [of "Suc q"] x by (cases "nd_expires_at (nodes j)") auto
  qed
qed simp

text \<open>Scheduling touches only the heap, and gives the node its entry.\<close>

lemma schedule_frame:
  "ca_map (schedule c i) = ca_map c" "ca_nodes (schedule c i) = ca_nodes c"
  "ca_policy (schedule c i) = ca_policy c" "ca_capacity (schedule c i) = ca_capacity c"
  "ca_next (schedule c i) = ca_next c" "ca_default_ttl (schedule c i) = ca_default_ttl c"
  "ca_stats (schedule c i) = ca_stats c"
  by (simp_all add: schedule_def Let_def split: option.split)

lemma schedule_linked [simp]: "linked R (schedule c i) u L = linked R c u L"
  by (simp add: linked_def schedule_frame)

lemma schedule_covers:
  assumes "linked R c u L" "i \<in> set L" "heap_covers (ca_nodes c) (set L - {i}) (ca_heap c)"
  shows "heap_covers (ca_nodes c) (set L) (ca_heap (schedule c i))"
proof (cases "nd_expires_at (ca_nodes c i)")
  case None
  then show ?thesis using assms(3) by (auto simp: schedule_def heap_covers_def)
next
  case (Some e)
  have "heap_covers (ca_nodes c) (set L) (heappush (ca_heap c) (e, ca_seq c, i))"
    unfolding heap_covers_def
  proof (intro conjI ballI allI impI)
    show "sorted (map fst (heappush (ca_heap c) (e, ca_seq c, i)))"
      using assms(3) by (simp add: heap_covers_def heappush_sorted)
    fix j e'
    assume "j \<in> set L" "nd_expires_at (ca_nodes c j) = Some e'"
    then show "\<exists>q. (e', q, j) \<in> set (heappush (ca_heap c) (e, ca_seq c, i))"
      using assms(3) Some by (cases "j = i") (auto simp: heap_covers_def)
  qed
  moreover have "heap_covers (ca_nodes c) (set L) (heapify (live_entries (ca_nodes c) q (ca_map c)))" for q
    unfolding heap_covers_def
  proof (intro conjI ballI allI impI)
    fix j e'
    assume "j \<in> set L" "nd_expires_at (ca_nodes c j) = Some e'"
    moreover from this obtain k where "(k, j) \<in> set (ca_map c)"
      using assms(1) by (auto simp: linked_def)
    ultimately show "\<exists>q'. (e', q', j) \<in> set (heapify (live_entries (ca_nodes c) q (ca_map c)))"
      using live_entries_cover [of k j "ca_map c" "ca_nodes c" e' q] by simp
  qed (rule heapify_sorted)
  ultimately show ?thesis using Some by (simp add: schedule_def Let_def)
qed

section \<open>The reference cache\<close>

text \<open>
  What a cache promises, without nodes, dictionary and heap: the list of its entries (key, value,
  expiry, number of uses), most recently used first. When nothing has expired, the entry at the
  position \<open>pos\<close> of the numbers of uses is given up for a new one.
\<close>

definition dead :: "time \<Rightarrow> time option \<Rightarrow> bool" where
  "dead now e = (case e of None \<Rightarrow> False | Some t \<Rightarrow> t \<le> now)"

type_synonym ('k, 'v) ref_cache = "('k \<times> 'v \<times> time option \<times> int) list"

definition without :: "'k \<Rightarrow> ('k, 'v) ref_cache \<Rightarrow> ('k, 'v) ref_cache" where
  "without k s = filter (\<lambda>x. fst x \<noteq> k) s"

definition ref_get :: "time \<Rightarrow> ('k, 'v) ref_cache \<Rightarrow> 'k \<Rightarrow> ('k, 'v) ref_cache \<times> 'v option" where
  "ref_get now s k =
     (case map_of s k of
        None \<Rightarrow> (s, None)
      | Some (v, e, n) \<Rightarrow> if dead now e then (without k s, None) else ((k, v, e, n + 1) # without k s, Some v))"

definition ref_purge :: "time \<Rightarrow> ('k, 'v) ref_cache \<Rightarrow> ('k, 'v) ref_cache" where
  "ref_purge now s = filter (\<lambda>(k, v, e, n). \<not> dead now e) s"

definition uses :: "('k, 'v) ref_cache \<Rightarrow> int list" where
  "uses s = map (\<lambda>(k, v, e, n). n) s"

definition ref_put :: "int \<Rightarrow> (int list \<Rightarrow> nat) \<Rightarrow> time \<Rightarrow> ('k, 'v) ref_cache \<Rightarrow> 'k \<Rightarrow> 'v \<Rightarrow> time option
    \<Rightarrow> ('k, 'v) ref_cache" where
  "ref_put capacity pos now s k v e =
     (case map_of s k of
        Some (_, _, n) \<Rightarrow> (k, v, e, n + 1) # without k s
      | None \<Rightarrow> (k, v, e, 1) #
          (if int (length s) < capacity then s
           else if list_ex (\<lambda>(k, v, e, n). dead now e) s then ref_purge now s
           else without (fst (s ! pos (uses s))) s))"

lemma uses_entries: "uses (entries c u L) = map u L"
  by (simp add: uses_def entries_def entry_of_def)

lemma is_expired_dead: "is_expired now n = dead now (nd_expires_at n)"
  by (simp add: is_expired_def dead_def)

lemma entries_purge: "ref_purge now (entries c u L) = entries c u (filter (\<lambda>i. \<not> is_expired now (ca_nodes c i)) L)"
  by (simp add: ref_purge_def entries_def filter_map comp_def entry_of_def is_expired_dead)

lemma heap_covers_subset: "heap_covers nodes A h \<Longrightarrow> B \<subseteq> A \<Longrightarrow> heap_covers nodes B h"
  by (auto simp: heap_covers_def)

text \<open>The nodes left when room is made for a new one.\<close>

definition kept :: "(int list \<Rightarrow> nat) \<Rightarrow> time \<Rightarrow> ('k, 'v, 'p) cache \<Rightarrow> (nat \<Rightarrow> int) \<Rightarrow> nat list \<Rightarrow> nat list" where
  "kept pos now c u L =
     (if int (length L) < ca_capacity c then L
      else if \<exists>i \<in> set L. is_expired now (ca_nodes c i) then filter (\<lambda>i. \<not> is_expired now (ca_nodes c i)) L
      else remove1 (L ! pos (map u L)) L)"

context eviction_policy
begin

lemma remove_node_rel:
  assumes "linked R c u L" "i \<in> set L"
  shows "\<exists>p. remove_node pol c i =
      Inr (c\<lparr>ca_map := AList.delete (nd_key (ca_nodes c i)) (ca_map c), ca_policy := p\<rparr>)
    \<and> linked R (c\<lparr>ca_map := AList.delete (nd_key (ca_nodes c i)) (ca_map c), ca_policy := p\<rparr>) u (remove1 i L)"
proof -
  let ?k = "nd_key (ca_nodes c i)" and ?m = "AList.delete (nd_key (ca_nodes c i)) (ca_map c)"
  have k: "map_of (ca_map c) ?k = Some i" using linkedD(5) [OF assms] by simp
  obtain p where p: "po_unlink pol (ca_policy c) i = Inr p" "R p u (remove1 i L)"
    using unlink_law [OF linkedD(1) [OF assms(1)] assms(2)] by auto
  have m: "set ?m = {x \<in> set (ca_map c). fst x \<noteq> ?k}" by (auto simp: AList.delete_eq)
  have i: "fst x = ?k \<longleftrightarrow> snd x = i" if "x \<in> set (ca_map c)" for x
  proof -
    have "map_of (ca_map c) (fst x) = Some (snd x)"
      using that linkedD(4) [OF assms(1)] by (simp add: map_of_is_SomeI)
    then show ?thesis using k linkedD(6) [OF assms(1), of "fst x" "snd x"] by (metis option.inject)
  qed
  have "snd ` set ?m = set L - {i}"
    using assms(1) i by (auto simp: m linked_def image_iff)
  moreover have "length ?m \<le> length (ca_map c)" by (rule length_delete_le)
  ultimately have "linked R (c\<lparr>ca_map := ?m, ca_policy := p\<rparr>) u (remove1 i L)"
    using assms(1) p(2) by (auto simp: linked_def m distinct_delete set_remove1_eq)
  then show ?thesis using k p(1) by (auto simp: remove_node_def Let_def)
qed

lemma purge_loop_rel:
  assumes "linked R c u L" "heap_covers (ca_nodes c) (set L) h"
  shows "\<exists>c'. purge_loop pol now c n h = Inr (c', n + int (length (filter (\<lambda>i. is_expired now (ca_nodes c i)) L)))
    \<and> cache_rel R c' u (filter (\<lambda>i. \<not> is_expired now (ca_nodes c i)) L)
    \<and> ca_nodes c' = ca_nodes c \<and> ca_next c' = ca_next c \<and> ca_capacity c' = ca_capacity c
    \<and> ca_default_ttl c' = ca_default_ttl c
    \<and> ((\<forall>i \<in> set L. \<not> is_expired now (ca_nodes c i)) \<longrightarrow> ca_policy c' = ca_policy c)"
  using assms
proof (induction h arbitrary: c L n)
  case Nil
  then have "\<forall>i \<in> set L. \<not> is_expired now (ca_nodes c i)"
    by (fastforce simp: heap_covers_def is_expired_def split: option.splits)
  moreover have "cache_rel R (c\<lparr>ca_heap := []\<rparr>) u L" using Nil by (simp add: cache_rel_def linked_def)
  ultimately show ?case by simp
next
  case (Cons x h)
  obtain e q i where x: "x = (e, q, i)" by (cases x)
  have later: "e \<le> e'" if "(e', q', j) \<in> set (x # h)" for e' q' j
    using that Cons.prems(2) x by (force simp: heap_covers_def)
  show ?case
  proof (cases "e \<le> now")
    case False
    have "\<not> is_expired now (ca_nodes c j)" if j: "j \<in> set L" for j
    proof (cases "nd_expires_at (ca_nodes c j)")
      case (Some e')
      then obtain q' where "(e', q', j) \<in> set (x # h)"
        using Cons.prems(2) j unfolding heap_covers_def by blast
      then have "e \<le> e'" by (rule later)
      then show ?thesis using False Some by (simp add: is_expired_def)
    qed (simp add: is_expired_def)
    moreover have "cache_rel R (c\<lparr>ca_heap := x # h\<rparr>) u L" using Cons.prems by (simp add: cache_rel_def linked_def)
    ultimately show ?thesis using False x by simp
  next
    case le: True
    let ?valid = "map_of (ca_map c) (nd_key (ca_nodes c i)) = Some i \<and> nd_expires_at (ca_nodes c i) = Some e"
    show ?thesis
    proof (cases ?valid)
      case True
      then have i: "i \<in> set L" "is_expired now (ca_nodes c i)"
        using linkedD(6) [OF Cons.prems(1)] le by (auto simp: is_expired_def)
      obtain p where p: "remove_node pol c i = Inr (c\<lparr>ca_map := AList.delete (nd_key (ca_nodes c i)) (ca_map c), ca_policy := p\<rparr>)"
        and l: "linked R (c\<lparr>ca_map := AList.delete (nd_key (ca_nodes c i)) (ca_map c), ca_policy := p\<rparr>) u (remove1 i L)"
        using remove_node_rel [OF Cons.prems(1) i(1)] by blast
      let ?c = "c\<lparr>ca_map := AList.delete (nd_key (ca_nodes c i)) (ca_map c), ca_policy := p,
        ca_stats := count_expiration (ca_stats c)\<rparr>"
      have l': "linked R ?c u (remove1 i L)" using l by (simp add: linked_def)
      have "set (remove1 i L) = set L - {i}" using linkedD(2) [OF Cons.prems(1)] by simp
      then have "heap_covers (ca_nodes ?c) (set (remove1 i L)) h"
        using Cons.prems(2) x by (fastforce simp: heap_covers_def)
      note ih = Cons.IH [OF l' this, of "n + 1"]
      have f: "filter (\<lambda>j. \<not> is_expired now (ca_nodes c j)) (remove1 i L) = filter (\<lambda>j. \<not> is_expired now (ca_nodes c j)) L"
        using i(2) linkedD(2) [OF Cons.prems(1)] by (auto simp: remove1_eq_filter intro!: filter_cong)
      have g: "length (filter (\<lambda>j. is_expired now (ca_nodes c j)) L)
          = Suc (length (filter (\<lambda>j. is_expired now (ca_nodes c j)) (remove1 i L)))"
        using i length_pos_if_in_set [of i "filter (\<lambda>j. is_expired now (ca_nodes c j)) L"]
        by (simp add: filter_remove1 length_remove1)
      show ?thesis using ih x le True p i by (auto simp: f g)
    next
      case False
      have "heap_covers (ca_nodes c) (set L) h"
        unfolding heap_covers_def
      proof (intro conjI ballI allI impI)
        show "sorted (map fst h)" using Cons.prems(2) by (simp add: heap_covers_def)
        fix j e'
        assume j: "j \<in> set L" "nd_expires_at (ca_nodes c j) = Some e'"
        then obtain q' where "(e', q', j) \<in> set (x # h)"
          using Cons.prems(2) unfolding heap_covers_def by blast
        moreover have "(e', q', j) \<noteq> x" using False j linkedD(5) [OF Cons.prems(1) j(1)] x by auto
        ultimately show "\<exists>q'. (e', q', j) \<in> set h" by auto
      qed
      from Cons.IH [OF Cons.prems(1) this, of n] show ?thesis using False le x by auto
    qed
  qed
qed

lemma purge_rel:
  assumes "cache_rel R c u L"
  shows "\<exists>c'. purge_expired pol now c = Inr (c', int (length (filter (\<lambda>i. is_expired now (ca_nodes c i)) L)))
    \<and> cache_rel R c' u (filter (\<lambda>i. \<not> is_expired now (ca_nodes c i)) L)
    \<and> ca_nodes c' = ca_nodes c \<and> ca_next c' = ca_next c \<and> ca_capacity c' = ca_capacity c
    \<and> ca_default_ttl c' = ca_default_ttl c
    \<and> ((\<forall>i \<in> set L. \<not> is_expired now (ca_nodes c i)) \<longrightarrow> ca_policy c' = ca_policy c)"
  using purge_loop_rel [of c u L "ca_heap c" now 0] assms by (simp add: purge_expired_def cache_rel_def)

lemma cache_rel_remove:
  assumes "cache_rel R c u L" "i \<in> set L"
  shows "\<exists>c'. remove_node pol c i = Inr c' \<and> cache_rel R c' u (remove1 i L) \<and> ca_nodes c' = ca_nodes c
    \<and> ca_next c' = ca_next c \<and> ca_capacity c' = ca_capacity c \<and> ca_default_ttl c' = ca_default_ttl c
    \<and> ca_stats c' = ca_stats c"
proof -
  have l: "linked R c u L" using assms(1) by (simp add: cache_rel_def)
  obtain p where p: "remove_node pol c i =
      Inr (c\<lparr>ca_map := AList.delete (nd_key (ca_nodes c i)) (ca_map c), ca_policy := p\<rparr>)"
    "linked R (c\<lparr>ca_map := AList.delete (nd_key (ca_nodes c i)) (ca_map c), ca_policy := p\<rparr>) u (remove1 i L)"
    using remove_node_rel [OF l assms(2)] by blast
  have "heap_covers (ca_nodes c) (set (remove1 i L)) (ca_heap c)"
    using assms(1) heap_covers_subset [OF _ set_remove1_subset] by (auto simp: cache_rel_def)
  then show ?thesis using p by (simp add: cache_rel_def)
qed

lemma make_room_rel:
  assumes "cache_rel R c u L"
  shows "\<exists>c'. make_room pol now c = Inr c' \<and> cache_rel R c' u (kept pos now c u L) \<and> ca_nodes c' = ca_nodes c
    \<and> ca_next c' = ca_next c \<and> ca_capacity c' = ca_capacity c \<and> ca_default_ttl c' = ca_default_ttl c
    \<and> int (length (kept pos now c u L)) < ca_capacity c"
proof (cases "int (length L) < ca_capacity c")
  case True
  have "length (ca_map c) = length L" using linkedD(7) [of R c u L] assms by (auto simp: cache_rel_def)
  then show ?thesis using True assms by (auto simp: make_room_def kept_def)
next
  case full: False
  have l: "linked R c u L" using assms by (simp add: cache_rel_def)
  have len: "length (ca_map c) = length L" "int (length L) = ca_capacity c" "L \<noteq> []"
    using linkedD(3,7,8) [OF l] full by auto
  obtain c1 where c1: "purge_expired pol now c = Inr (c1, int (length (filter (\<lambda>i. is_expired now (ca_nodes c i)) L)))"
    "cache_rel R c1 u (filter (\<lambda>i. \<not> is_expired now (ca_nodes c i)) L)" "ca_nodes c1 = ca_nodes c"
    "ca_next c1 = ca_next c" "ca_capacity c1 = ca_capacity c" "ca_default_ttl c1 = ca_default_ttl c"
    "(\<forall>i \<in> set L. \<not> is_expired now (ca_nodes c i)) \<longrightarrow> ca_policy c1 = ca_policy c"
    using purge_rel [OF assms, of now] by blast
  show ?thesis
  proof (cases "\<exists>i \<in> set L. is_expired now (ca_nodes c i)")
    case True
    then have "filter (\<lambda>i. is_expired now (ca_nodes c i)) L \<noteq> []" by (simp add: filter_empty_conv)
    moreover from this have "length (filter (\<lambda>i. \<not> is_expired now (ca_nodes c i)) L) < length L"
      using sum_length_filter_compl [of "\<lambda>i. is_expired now (ca_nodes c i)" L] by (cases "filter (\<lambda>i. is_expired now (ca_nodes c i)) L") auto
    ultimately show ?thesis using True c1 len full by (auto simp: make_room_def kept_def)
  next
    case False
    then have f: "filter (\<lambda>i. is_expired now (ca_nodes c i)) L = []" "filter (\<lambda>i. \<not> is_expired now (ca_nodes c i)) L = L"
      by (auto simp: filter_empty_conv filter_id_conv)
    have pol1: "ca_policy c1 = ca_policy c" using c1(7) False by blast
    have rel1: "cache_rel R c1 u L" using c1(2) f(2) by simp
    have "R (ca_policy c1) u L" using rel1 linkedD(1) by (auto simp: cache_rel_def)
    then obtain p where p: "po_victim pol (ca_policy c1) = Inr (p, L ! pos (map u L))" "R p u L"
      and v: "L ! pos (map u L) \<in> set L"
      using victim_law len(3) by (metis nth_mem)
    have "cache_rel R (c1\<lparr>ca_policy := p\<rparr>) u L"
      using rel1 p(2) linkedD(2) [OF l] by (simp add: cache_rel_policy)
    from cache_rel_remove [OF this v] obtain c2 where
      c2: "remove_node pol (c1\<lparr>ca_policy := p\<rparr>) (L ! pos (map u L)) = Inr c2"
        "cache_rel R c2 u (remove1 (L ! pos (map u L)) L)" "ca_nodes c2 = ca_nodes c"
        "ca_next c2 = ca_next c" "ca_capacity c2 = ca_capacity c" "ca_default_ttl c2 = ca_default_ttl c"
      using c1 by auto
    have "length (remove1 (L ! pos (map u L)) L) < length L"
      using v length_pos_if_in_set [OF v] by (simp add: length_remove1)
    then show ?thesis
      using False full len f c1(1) p(1) c2 pol1 by (simp add: make_room_def kept_def)
  qed
qed

lemma add_node_rel:
  assumes "cache_rel R c u L" "map_of (ca_map c) k = None" "int (length L) < ca_capacity c"
  shows "\<exists>c'. add_node pol c k v e = Inr c' \<and> cache_rel R c' (u(ca_next c := 1)) (ca_next c # L)
    \<and> ca_nodes c' = (ca_nodes c)(ca_next c := \<lparr>nd_key = k, nd_value = v, nd_expires_at = e\<rparr>)
    \<and> ca_capacity c' = ca_capacity c \<and> ca_default_ttl c' = ca_default_ttl c"
proof -
  let ?i = "ca_next c"
  let ?n = "(ca_nodes c)(?i := \<lparr>nd_key = k, nd_value = v, nd_expires_at = e\<rparr>)"
  have l: "linked R c u L" and h: "heap_covers (ca_nodes c) (set L) (ca_heap c)"
    using assms(1) by (auto simp: cache_rel_def)
  have fresh: "?i \<notin> set L" "k \<notin> fst ` set (ca_map c)"
    using linkedD(5) [OF l, of ?i] assms(2) by (auto simp: map_of_eq_None_iff)
  obtain p where p: "po_insert pol (ca_policy c) ?i = Inr p" "R p (u(?i := 1)) (?i # L)"
    using insert_law [OF linkedD(1) [OF l] fresh(1)] by auto
  let ?c = "c\<lparr>ca_nodes := ?n, ca_next := Suc ?i, ca_map := ca_map c @ [(k, ?i)], ca_policy := p\<rparr>"
  have "linked R ?c (u(?i := 1)) (?i # L)"
    using l p(2) fresh assms(3) linkedD(7) [OF l] by (auto simp: linked_def)
  moreover have "heap_covers (ca_nodes ?c) (set (?i # L) - {?i}) (ca_heap ?c)"
    using h fresh(1) by (auto simp: heap_covers_def)
  ultimately have "cache_rel R (schedule ?c ?i) (u(?i := 1)) (?i # L)"
    using schedule_covers [of R ?c "u(?i := 1)" "?i # L" ?i] by (simp add: cache_rel_def schedule_frame)
  then show ?thesis
    using p(1) by (simp add: add_node_def Let_def AList_update_absent [OF fresh(2)] schedule_frame)
qed

lemma get_rel:
  assumes "cache_rel R c u L"
  shows "\<exists>c' u' L'. cache_get pol now c k = Inr (c', snd (ref_get now (entries c u L) k)) \<and> cache_rel R c' u' L'
    \<and> entries c' u' L' = fst (ref_get now (entries c u L) k) \<and> ca_capacity c' = ca_capacity c
    \<and> ca_default_ttl c' = ca_default_ttl c"
proof -
  have l: "linked R c u L" using assms by (simp add: cache_rel_def)
  note look = entries_lookup [OF l, of k]
  show ?thesis
  proof (cases "map_of (ca_map c) k")
    case None
    then show ?thesis
      using look assms by (auto simp: cache_get_def ref_get_def entries_def intro!: exI [of _ u] exI [of _ L])
  next
    case (Some i)
    have i: "i \<in> set L" "nd_key (ca_nodes c i) = k" using linkedD(6) [OF l Some] by auto
    have rem: "without k (entries c u L) = entries c u (remove1 i L)"
      unfolding without_def by (rule entries_remove [OF l Some])
    show ?thesis
    proof (cases "is_expired now (ca_nodes c i)")
      case True
      from cache_rel_remove [OF assms i(1)] obtain c1 where c1: "remove_node pol c i = Inr c1"
        "cache_rel R c1 u (remove1 i L)" "ca_nodes c1 = ca_nodes c" "ca_capacity c1 = ca_capacity c"
        "ca_default_ttl c1 = ca_default_ttl c" by blast
      then show ?thesis
        using look Some True rem
        by (auto simp: cache_get_def ref_get_def is_expired_dead entries_def intro!: exI [of _ u] exI [of _ "remove1 i L"])
    next
      case False
      obtain p where p: "po_touch pol (ca_policy c) i = Inr p" "R p (u(i := u i + 1)) (i # remove1 i L)"
        using touch_law [OF linkedD(1) [OF l] i(1)] by auto
      have "set (i # remove1 i L) = set L" "distinct (i # remove1 i L)" using linkedD(2) [OF l] i(1) by auto
      then have "cache_rel R (c\<lparr>ca_policy := p\<rparr>) (u(i := u i + 1)) (i # remove1 i L)"
        using assms p(2) by (intro cache_rel_policy)
      moreover have "entries c (u(i := u i + 1)) (remove1 i L) = entries c u (remove1 i L)"
        using linkedD(2) [OF l] by (auto simp: entries_def entry_of_def)
      ultimately show ?thesis
        using look Some False rem p(1) i(2)
        by (auto simp: cache_get_def ref_get_def is_expired_dead entries_def entry_of_def
            intro!: exI [of _ "u(i := u i + 1)"] exI [of _ "i # remove1 i L"])
    qed
  qed
qed

lemma delete_rel:
  assumes "cache_rel R c u L"
  shows "\<exists>c' L'. cache_delete pol c k = Inr (c', map_of (entries c u L) k \<noteq> None) \<and> cache_rel R c' u L'
    \<and> entries c' u L' = without k (entries c u L)
    \<and> ca_capacity c' = ca_capacity c \<and> ca_default_ttl c' = ca_default_ttl c"
proof -
  have l: "linked R c u L" using assms by (simp add: cache_rel_def)
  show ?thesis
  proof (cases "map_of (ca_map c) k")
    case None
    then have "map_of (entries c u L) k = None" using entries_lookup [OF l, of k] by simp
    then have "without k (entries c u L) = entries c u L"
      by (auto simp: without_def filter_id_conv map_of_eq_None_iff)
    then show ?thesis using None assms \<open>map_of (entries c u L) k = None\<close> by (auto simp: cache_delete_def)
  next
    case (Some i)
    from cache_rel_remove [OF assms] linkedD(6) [OF l Some] obtain c1 where
      "remove_node pol c i = Inr c1" "cache_rel R c1 u (remove1 i L)" "ca_nodes c1 = ca_nodes c"
      "ca_capacity c1 = ca_capacity c" "ca_default_ttl c1 = ca_default_ttl c" by blast
    then show ?thesis
      using Some entries_lookup [OF l, of k] entries_remove [OF l Some]
      by (auto simp: cache_delete_def without_def entries_def)
  qed
qed

lemma overwrite_rel:
  fixes v :: 'v and e :: "time option"
  assumes "cache_rel R c u L" "map_of (ca_map c) k = Some i"
  defines "c1 \<equiv> schedule (c\<lparr>ca_nodes := (ca_nodes c)(i := (ca_nodes c i)\<lparr>nd_value := v, nd_expires_at := e\<rparr>)\<rparr>) i"
  shows "\<exists>p. po_touch pol (ca_policy c1) i = Inr p \<and> cache_rel R (c1\<lparr>ca_policy := p\<rparr>) (u(i := u i + 1)) (i # remove1 i L)
    \<and> entries (c1\<lparr>ca_policy := p\<rparr>) (u(i := u i + 1)) (i # remove1 i L) = (k, v, e, u i + 1) # without k (entries c u L)
    \<and> ca_capacity c1 = ca_capacity c \<and> ca_default_ttl c1 = ca_default_ttl c"
proof -
  let ?c = "c\<lparr>ca_nodes := (ca_nodes c)(i := (ca_nodes c i)\<lparr>nd_value := v, nd_expires_at := e\<rparr>)\<rparr>"
  have l: "linked R c u L" using assms(1) by (simp add: cache_rel_def)
  have i: "i \<in> set L" "nd_key (ca_nodes c i) = k" using linkedD(6) [OF l assms(2)] by auto
  have l1: "linked R ?c u L" using l by (auto simp: linked_def)
  moreover have "heap_covers (ca_nodes ?c) (set L - {i}) (ca_heap ?c)"
    using assms(1) by (auto simp: cache_rel_def heap_covers_def)
  ultimately have hc: "heap_covers (ca_nodes ?c) (set L) (ca_heap c1)"
    using schedule_covers [of R ?c u L i] i(1) by (simp add: c1_def)
  obtain p where p: "po_touch pol (ca_policy c1) i = Inr p" "R p (u(i := u i + 1)) (i # remove1 i L)"
    using touch_law [OF linkedD(1) [OF l] i(1)] by (auto simp: c1_def schedule_frame)
  have s: "set (i # remove1 i L) = set L" using linkedD(2) [OF l] i(1) by auto
  have "linked R (c1\<lparr>ca_policy := p\<rparr>) (u(i := u i + 1)) (i # remove1 i L)"
    using l1 p(2) i(1) by (auto simp: linked_def c1_def schedule_frame)
  then have "cache_rel R (c1\<lparr>ca_policy := p\<rparr>) (u(i := u i + 1)) (i # remove1 i L)"
    using hc s by (simp add: cache_rel_def c1_def schedule_frame)
  moreover have "i \<notin> set (remove1 i L)" using linkedD(2) [OF l] by simp
  then have "entries (c1\<lparr>ca_policy := p\<rparr>) (u(i := u i + 1)) (i # remove1 i L) = (k, v, e, u i + 1) # without k (entries c u L)"
    using entries_remove [OF l assms(2)] i(2)
    by (auto simp: entries_def entry_of_def c1_def schedule_frame without_def)
  ultimately show ?thesis using p(1) by (auto simp: c1_def schedule_frame)
qed

lemma kept_entries:
  assumes "cache_rel R c u L" "map_of (ca_map c) k = None"
  shows "ref_put (ca_capacity c) pos now (entries c u L) k v e
    = (k, v, e, 1) # entries c u (kept pos now c u L)"
proof -
  have l: "linked R c u L" using assms by (simp add: cache_rel_def)
  have k: "map_of (entries c u L) k = None" using entries_lookup [OF l, of k] assms(2) by simp
  have ex: "list_ex (\<lambda>(k, v, e, n). dead now e) (entries c u L) \<longleftrightarrow> (\<exists>i \<in> set L. is_expired now (ca_nodes c i))"
    by (auto simp: list_ex_iff entries_def entry_of_def is_expired_dead)
  have "without (fst (entries c u L ! pos (uses (entries c u L)))) (entries c u L)
      = entries c u (remove1 (L ! pos (map u L)) L)" if "L \<noteq> []"
  proof -
    have p: "pos (map u L) < length L" using victim_law [OF linkedD(1) [OF l] that] by blast
    then have "fst (entries c u L ! pos (map u L)) = nd_key (ca_nodes c (L ! pos (map u L)))"
      by (simp add: entries_def entry_of_def)
    moreover have "map_of (ca_map c) (nd_key (ca_nodes c (L ! pos (map u L)))) = Some (L ! pos (map u L))"
      using linkedD(5) [OF l, of "L ! pos (map u L)"] p by simp
    ultimately show ?thesis using entries_remove [OF l] by (simp add: without_def uses_entries)
  qed
  moreover have "L \<noteq> []" if "\<not> int (length L) < ca_capacity c" using that linkedD(3) [OF l] by auto
  ultimately show ?thesis
    using k ex by (auto simp: ref_put_def kept_def entries_purge) (auto simp: entries_def)
qed

lemma put_rel:
  assumes "cache_rel R c u L" "\<And>t. ttl = Some t \<Longrightarrow> 0 < t"
  shows "\<exists>c' u' L'. cache_put pol now now2 c k v ttl = Inr c' \<and> cache_rel R c' u' L'
    \<and> entries c' u' L' = ref_put (ca_capacity c) pos now2
        (entries c u L) k v (expiry_of c now ttl)
    \<and> ca_capacity c' = ca_capacity c \<and> ca_default_ttl c' = ca_default_ttl c"
proof -
  have l: "linked R c u L" using assms by (simp add: cache_rel_def)
  have ttl: "\<not> (case ttl of None \<Rightarrow> False | Some t \<Rightarrow> t \<le> 0)"
    using assms(2) by (cases ttl) (auto simp: not_le)
  show ?thesis
  proof (cases "map_of (ca_map c) k")
    case None
    from make_room_rel [OF assms(1), of now2] obtain c1 where c1: "make_room pol now2 c = Inr c1"
      "cache_rel R c1 u (kept pos now2 c u L)" "ca_nodes c1 = ca_nodes c" "ca_next c1 = ca_next c"
      "ca_capacity c1 = ca_capacity c" "ca_default_ttl c1 = ca_default_ttl c"
      "int (length (kept pos now2 c u L)) < ca_capacity c" by blast
    have sub: "set (kept pos now2 c u L) \<subseteq> set L"
      using set_remove1_subset [of "L ! pos (map u L)" L] by (auto simp: kept_def)
    have l1: "linked R c1 u (kept pos now2 c u L)" using c1(2) by (simp add: cache_rel_def)
    have "map_of (ca_map c1) k = None"
    proof (cases "map_of (ca_map c1) k")
      case (Some i)
      then have "i \<in> set L" "nd_key (ca_nodes c i) = k" using linkedD(6) [OF l1 Some] sub c1(3) by auto
      then show ?thesis using linkedD(5) [OF l] None by auto
    qed simp
    from add_node_rel [OF c1(2) this, of v "expiry_of c now ttl"] obtain c' where
      c': "add_node pol c1 k v (expiry_of c now ttl) = Inr c'" "cache_rel R c' (u(ca_next c := 1)) (ca_next c # kept pos now2 c u L)"
      "ca_nodes c' = (ca_nodes c)(ca_next c := \<lparr>nd_key = k, nd_value = v, nd_expires_at = expiry_of c now ttl\<rparr>)"
      "ca_capacity c' = ca_capacity c" "ca_default_ttl c' = ca_default_ttl c"
      using c1 by auto
    have "ca_next c \<notin> set (kept pos now2 c u L)" using sub linkedD(5) [OF l, of "ca_next c"] by auto
    then have "entries c' (u(ca_next c := 1)) (ca_next c # kept pos now2 c u L) = (k, v, expiry_of c now ttl, 1) # entries c u (kept pos now2 c u L)"
      using c'(3) by (auto simp: entries_def entry_of_def)
    then show ?thesis
      using ttl None c1(1) c' kept_entries [OF assms(1) None, of now2 v "expiry_of c now ttl"]
      by (auto simp: cache_put_def Let_def)
  next
    case (Some i)
    have "map_of (entries c u L) k = Some (nd_value (ca_nodes c i), nd_expires_at (ca_nodes c i), u i)"
      using entries_lookup [OF l, of k] Some by simp
    then show ?thesis
      using ttl Some overwrite_rel [OF assms(1) Some, where v = v and e = "expiry_of c now ttl"]
      by (auto simp: cache_put_def Let_def ref_put_def schedule_frame
          intro!: exI [of _ "u(i := u i + 1)"] exI [of _ "i # remove1 i L"])
  qed
qed

end

section \<open>The two policies meet the contract\<close>

text \<open>LRU gives up the last entry, whatever the numbers of uses.\<close>

definition lru_pos :: "int list \<Rightarrow> nat" where
  "lru_pos ns = length ns - 1"

lemma lru_touch_repr:
  assumes "dl_repr p L" "i \<in> set L"
  shows "\<exists>p'. lru_touch p i = Inr p' \<and> dl_repr p' (i # remove1 i L)"
proof -
  obtain p1 where p1: "dl_remove p i = Inr p1" "dl_repr p1 (remove1 i L)" using dl_remove_repr [OF assms] by auto
  have "i \<notin> set (remove1 i L)" using assms(1) by (simp add: dl_repr_def)
  from push_front_repr [OF p1(2) this] show ?thesis using p1(1) by (simp add: lru_touch_def)
qed

interpretation lru: eviction_policy lru_policy "\<lambda>p u L. dl_repr p L" lru_pos
  by unfold_locales
    (auto simp: lru_policy_def lru_insert_def lru_unlink_def lru_victim_def lru_pos_def last_conv_nth dl_back_repr
      push_front_repr dl_remove_repr lru_touch_repr)

text \<open>LFU gives up the last among the entries with the fewest uses.\<close>

fun lfu_pos_of :: "int \<Rightarrow> int list \<Rightarrow> nat" where
  "lfu_pos_of m [] = 0"
| "lfu_pos_of m (n # ns) = (if m \<in> set ns then Suc (lfu_pos_of m ns) else 0)"

definition lfu_pos :: "int list \<Rightarrow> nat" where
  "lfu_pos ns = lfu_pos_of (Min (set ns)) ns"

definition bucket :: "(nat \<Rightarrow> int) \<Rightarrow> nat list \<Rightarrow> int \<Rightarrow> nat list" where
  "bucket u L f = filter (\<lambda>i. u i = f) L"

fun holds_bucket :: "dlist option \<Rightarrow> nat list \<Rightarrow> bool" where
  "holds_bucket None xs \<longleftrightarrow> xs = []"
| "holds_bucket (Some b) xs \<longleftrightarrow> xs \<noteq> [] \<and> dl_repr b xs"

definition buckets_of :: "(int \<times> dlist) list \<Rightarrow> (nat \<Rightarrow> int) \<Rightarrow> nat list \<Rightarrow> bool" where
  "buckets_of bs u L \<longleftrightarrow> distinct (map fst bs) \<and> (\<forall>f. holds_bucket (map_of bs f) (bucket u L f))"

definition lfu_rel :: "lfu \<Rightarrow> (nat \<Rightarrow> int) \<Rightarrow> nat list \<Rightarrow> bool" where
  "lfu_rel l u L \<longleftrightarrow> distinct L \<and> (\<forall>i \<in> set L. lf_freq l i = u i \<and> 1 \<le> u i)
     \<and> buckets_of (lf_buckets l) u L
     \<and> (\<forall>m. lf_min_freq l = Some m \<longrightarrow> m \<in> u ` set L \<and> (\<forall>i \<in> set L. m \<le> u i))"

lemma bucket_empty: "bucket u L f = [] \<longleftrightarrow> f \<notin> u ` set L"
  by (auto simp: bucket_def filter_empty_conv)

lemma buckets_ofD:
  assumes "buckets_of bs u L"
  shows "bucket u L f \<noteq> [] \<Longrightarrow> \<exists>b. map_of bs f = Some b \<and> dl_repr b (bucket u L f)"
    "bucket u L f = [] \<Longrightarrow> map_of bs f = None"
proof -
  have "holds_bucket (map_of bs f) (bucket u L f)" using assms by (simp add: buckets_of_def)
  then show "bucket u L f \<noteq> [] \<Longrightarrow> \<exists>b. map_of bs f = Some b \<and> dl_repr b (bucket u L f)"
    "bucket u L f = [] \<Longrightarrow> map_of bs f = None"
    by (cases "map_of bs f"; simp)+
qed

lemma buckets_of_update:
  assumes "buckets_of bs u L" "holds_bucket bo (bucket v M f)" "\<And>g. g \<noteq> f \<Longrightarrow> bucket v M g = bucket u L g"
    "map_of bs' = (map_of bs)(f := bo)" "distinct (map fst bs')"
  shows "buckets_of bs' v M"
  unfolding buckets_of_def
proof (intro conjI allI)
  fix g
  show "holds_bucket (map_of bs' g) (bucket v M g)"
    using assms by (cases "g = f") (auto simp: buckets_of_def)
qed (rule assms(5))

lemma push_bucket_of:
  assumes "buckets_of bs u L" "i \<notin> set L"
  shows "\<exists>bs'. push_bucket bs f i = Inr bs' \<and> buckets_of bs' (u(i := f)) (i # L)"
proof -
  have "bucket (u(i := f)) L g = bucket u L g" for g
    unfolding bucket_def using assms(2) by (intro filter_cong) auto
  then have b: "bucket (u(i := f)) (i # L) g = (if g = f then i # bucket u L f else bucket u L g)" for g
    by (auto simp: bucket_def)
  let ?b = "case map_of bs f of None \<Rightarrow> new_dlist | Some b \<Rightarrow> b"
  have "dl_repr ?b (bucket u L f)"
    using buckets_ofD(1) [OF assms(1), of f] buckets_ofD(2) [OF assms(1), of f] new_dlist_repr
    by (cases "bucket u L f = []") auto
  moreover have "i \<notin> set (bucket u L f)" using assms(2) by (simp add: bucket_def)
  ultimately obtain b' where b': "push_front ?b i = Inr b'" "dl_repr b' (i # bucket u L f)"
    using push_front_repr by blast
  have "buckets_of (AList.update f b' bs) (u(i := f)) (i # L)"
    by (rule buckets_of_update [OF assms(1), of "Some b'" _ _ f])
      (use assms(1) b'(2) b in \<open>auto simp: buckets_of_def distinct_update update_conv'\<close>)
  then show ?thesis using b'(1) by (auto simp: push_bucket_def Let_def)
qed

lemma detach_rel:
  assumes "lfu_rel l u L" "i \<in> set L"
  shows "\<exists>bs. detach l i = Inr (l\<lparr>lf_buckets := bs\<rparr>, lf_min_freq l = Some (u i) \<and> u i \<notin> u ` set (remove1 i L))
    \<and> buckets_of bs u (remove1 i L)"
proof -
  let ?f = "u i"
  have f: "lf_freq l i = ?f" and bs: "buckets_of (lf_buckets l) u L" using assms by (auto simp: lfu_rel_def)
  have i: "i \<in> set (bucket u L ?f)" using assms(2) by (simp add: bucket_def)
  then have "bucket u L ?f \<noteq> []" by auto
  then obtain b where b: "map_of (lf_buckets l) ?f = Some b" "dl_repr b (bucket u L ?f)"
    using buckets_ofD(1) [OF bs] by blast
  obtain b' where b': "dl_remove b i = Inr b'" "dl_repr b' (remove1 i (bucket u L ?f))"
    using dl_remove_repr [OF b(2) i] by blast
  have rest: "bucket u (remove1 i L) g = (if g = ?f then remove1 i (bucket u L ?f) else bucket u L g)" for g
    by (auto simp: bucket_def filter_remove1 remove1_idem)
  have emp: "dl_len b' = 0 \<longleftrightarrow> ?f \<notin> u ` set (remove1 i L)"
    using rest [of ?f] bucket_empty [of u "remove1 i L" ?f] b'(2) by (simp add: dl_repr_def)
  let ?bs = "if dl_len b' = 0 then AList.delete ?f (lf_buckets l) else AList.update ?f b' (lf_buckets l)"
  have "remove1 i (bucket u L ?f) = [] \<longleftrightarrow> dl_len b' = 0" using b'(2) by (simp add: dl_repr_def)
  then have "buckets_of ?bs u (remove1 i L)"
    by (intro buckets_of_update [OF bs, of "if dl_len b' = 0 then None else Some b'" _ _ ?f])
      (use bs rest b'(2) in \<open>auto simp: buckets_of_def distinct_delete distinct_update delete_conv update_conv'\<close>)
  moreover have "detach l i = Inr (l\<lparr>lf_buckets := ?bs\<rparr>, lf_min_freq l = Some ?f \<and> ?f \<notin> u ` set (remove1 i L))"
    using f b b' emp by (simp add: detach_def Let_def)
  ultimately show ?thesis by blast
qed

lemma last_bucket:
  "m \<in> set (map u L) \<Longrightarrow> lfu_pos_of m (map u L) < length L \<and> L ! lfu_pos_of m (map u L) = last (bucket u L m)"
proof (induction L)
  case (Cons i L)
  show ?case
  proof (cases "m \<in> set (map u L)")
    case True
    then have "bucket u L m \<noteq> []" by (auto simp: bucket_def filter_empty_conv)
    then show ?thesis using Cons.IH [OF True] True by (auto simp: bucket_def)
  next
    case False
    then have "u i = m" "bucket u L m = []" using Cons.prems by (auto simp: bucket_empty)
    then show ?thesis using False by (auto simp: bucket_def)
  qed
qed simp

lemma lfu_insert_rel:
  assumes "lfu_rel l u L" "i \<notin> set L"
  shows "\<exists>l'. lfu_insert l i = Inr l' \<and> lfu_rel l' (u(i := 1)) (i # L)"
proof -
  obtain bs where "push_bucket (lf_buckets l) 1 i = Inr bs" "buckets_of bs (u(i := 1)) (i # L)"
    using assms push_bucket_of [of "lf_buckets l" u L i 1] by (auto simp: lfu_rel_def)
  then show ?thesis using assms by (auto simp: lfu_insert_def lfu_rel_def)
qed

lemma lfu_unlink_rel:
  assumes "lfu_rel l u L" "i \<in> set L"
  shows "\<exists>l'. lfu_unlink l i = Inr l' \<and> lfu_rel l' u (remove1 i L)"
proof -
  obtain bs where bs: "buckets_of bs u (remove1 i L)"
    "detach l i = Inr (l\<lparr>lf_buckets := bs\<rparr>, lf_min_freq l = Some (u i) \<and> u i \<notin> u ` set (remove1 i L))"
    using detach_rel [OF assms] by blast
  have s: "set (remove1 i L) = set L - {i}" using assms by (simp add: lfu_rel_def)
  have keep: "m \<in> u ` set (remove1 i L)"
    if "\<not> (lf_min_freq l = Some (u i) \<and> u i \<notin> u ` set (remove1 i L))" "lf_min_freq l = Some m" for m
    using that assms s by (cases "m = u i") (auto simp: lfu_rel_def)
  show ?thesis
  proof (cases "lf_min_freq l = Some (u i) \<and> u i \<notin> u ` set (remove1 i L)")
    case True
    then have "lfu_rel (l\<lparr>lf_buckets := bs, lf_min_freq := None\<rparr>) u (remove1 i L)"
      using bs(1) assms s by (auto simp: lfu_rel_def)
    then show ?thesis using True bs(2) by (simp add: lfu_unlink_def)
  next
    case False
    have "lfu_rel (l\<lparr>lf_buckets := bs\<rparr>) u (remove1 i L)"
      using bs(1) assms s keep [OF False] by (auto simp: lfu_rel_def)
    then show ?thesis using False bs(2) by (auto simp: lfu_unlink_def)
  qed
qed

lemma lfu_touch_rel:
  assumes "lfu_rel l u L" "i \<in> set L"
  shows "\<exists>l'. lfu_touch l i = Inr l' \<and> lfu_rel l' (u(i := u i + 1)) (i # remove1 i L)"
proof -
  let ?u = "u(i := u i + 1)"
  obtain bs where bs: "buckets_of bs u (remove1 i L)"
    "detach l i = Inr (l\<lparr>lf_buckets := bs\<rparr>, lf_min_freq l = Some (u i) \<and> u i \<notin> u ` set (remove1 i L))"
    using detach_rel [OF assms] by blast
  have s: "set (remove1 i L) = set L - {i}" "i \<notin> set (remove1 i L)" using assms by (simp_all add: lfu_rel_def)
  have fr: "lf_freq l i = u i" using assms by (simp add: lfu_rel_def)
  obtain bs' where push: "push_bucket bs (u i + 1) i = Inr bs'" "buckets_of bs' ?u (i # remove1 i L)"
    using push_bucket_of [OF bs(1) s(2)] by blast
  have least: "m \<le> u j" if "lf_min_freq l = Some m" "j \<in> set L" for m j
    using that assms by (auto simp: lfu_rel_def)
  let ?l = "l\<lparr>lf_freq := (lf_freq l)(i := u i + 1), lf_buckets := bs'\<rparr>"
  show ?thesis
  proof (cases "lf_min_freq l = Some (u i) \<and> u i \<notin> u ` set (remove1 i L)")
    case True
    have "u i + 1 \<le> u j" if "j \<in> set (remove1 i L)" for j
    proof -
      have "u j \<in> u ` set (remove1 i L)" "j \<in> set L" using that s(1) by auto
      then have "u j \<noteq> u i" "j \<in> set L" using True by metis+
      then show ?thesis using least [of "u i" j] True by simp
    qed
    then have "lfu_rel (?l\<lparr>lf_min_freq := Some (u i + 1)\<rparr>) ?u (i # remove1 i L)"
      using push assms s by (auto simp: lfu_rel_def)
    then show ?thesis using True bs(2) fr push(1) by (simp add: lfu_touch_def Let_def)
  next
    case False
    have "m \<in> ?u ` set (i # remove1 i L)" if m: "lf_min_freq l = Some m" for m
    proof -
      have "m \<in> u ` set (remove1 i L)"
        using False m assms s(1) by (cases "m = u i") (auto simp: lfu_rel_def)
      then show ?thesis using s(2) by (force simp: image_iff)
    qed
    moreover have "m \<le> ?u j" if "lf_min_freq l = Some m" "j \<in> set (i # remove1 i L)" for m j
      using least [OF that(1), of i] least [OF that(1), of j] that(2) assms(2) s(1) by auto
    ultimately have "lfu_rel ?l ?u (i # remove1 i L)"
      using push assms s by (auto simp: lfu_rel_def)
    then show ?thesis using False bs(2) fr push(1) by (auto simp: lfu_touch_def Let_def)
  qed
qed

lemma lfu_victim_rel:
  assumes "lfu_rel l u L" "L \<noteq> []"
  shows "lfu_pos (map u L) < length L \<and> (\<exists>l'. lfu_victim l = Inr (l', L ! lfu_pos (map u L)) \<and> lfu_rel l' u L)"
proof -
  let ?m = "Min (u ` set L)"
  have m: "?m \<in> u ` set L" "\<And>i. i \<in> set L \<Longrightarrow> ?m \<le> u i" using assms(2) by auto
  have bs: "buckets_of (lf_buckets l) u L" using assms(1) by (simp add: lfu_rel_def)
  have keys: "fst ` set (lf_buckets l) = u ` set L"
  proof (rule set_eqI)
    fix f
    have "f \<in> fst ` set (lf_buckets l) \<longleftrightarrow> map_of (lf_buckets l) f \<noteq> None" by (simp add: map_of_eq_None_iff)
    then show "f \<in> fst ` set (lf_buckets l) \<longleftrightarrow> f \<in> u ` set L" 
      using buckets_ofD [OF bs, of f] by (cases "bucket u L f = []") (auto simp: bucket_empty)
  qed
  have "map fst (lf_buckets l) \<noteq> []" using keys assms(2) by (cases "lf_buckets l") auto
  then have "py_min (map fst (lf_buckets l)) = Inr ?m" using keys by simp
  moreover have "f = ?m" if f: "lf_min_freq l = Some f" for f
  proof -
    have "f \<in> u ` set L" "\<forall>i \<in> set L. f \<le> u i" using assms(1) f by (auto simp: lfu_rel_def)
    then show ?thesis using m by (intro antisym) (auto intro!: Min.boundedI simp: assms(2))
  qed
  ultimately have fm: "(case lf_min_freq l of Some f \<Rightarrow> Inr f | None \<Rightarrow> py_min (map fst (lf_buckets l))) = Inr ?m"
    by (cases "lf_min_freq l") auto
  have pos: "lfu_pos (map u L) < length L" "L ! lfu_pos (map u L) = last (bucket u L ?m)"
    using last_bucket [of ?m u L] m(1) by (simp_all add: lfu_pos_def)
  have "lfu_victim l = Inr (l\<lparr>lf_min_freq := Some ?m\<rparr>, last (bucket u L ?m))"
    using fm buckets_ofD(1) [OF bs, of ?m] m(1) by (auto simp: lfu_victim_def bucket_empty dl_back_repr)
  moreover have "lfu_rel (l\<lparr>lf_min_freq := Some ?m\<rparr>) u L" using assms(1) m by (auto simp: lfu_rel_def)
  ultimately show ?thesis using pos by auto
qed

interpretation lfu: eviction_policy lfu_policy lfu_rel lfu_pos
  by unfold_locales
    (simp_all add: lfu_policy_def lfu_insert_rel lfu_touch_rel lfu_unlink_rel lfu_victim_rel)

section \<open>Runs\<close>

datatype ('k, 'v) cache_op =
    Get time 'k
  | Put time time 'k 'v "time option"
  | Delete 'k
  | Purge time

datatype 'v cache_reply = Found "'v option" | Stored | Deleted bool | Purged int

definition answer :: "'s \<Rightarrow> ('r \<Rightarrow> 'v cache_reply) \<Rightarrow> py_error + 's \<times> 'r \<Rightarrow> 's \<times> (py_error + 'v cache_reply)" where
  "answer s f out = (case out of Inl e \<Rightarrow> (s, Inl e) | Inr (s', r) \<Rightarrow> (s', Inr (f r)))"

fun cache_step :: "'p policy \<Rightarrow> ('k, 'v, 'p) cache \<Rightarrow> ('k, 'v) cache_op
    \<Rightarrow> ('k, 'v, 'p) cache \<times> (py_error + 'v cache_reply)" where
  "cache_step pol c (Get now k) = answer c Found (cache_get pol now c k)"
| "cache_step pol c (Put now now2 k v ttl) =
     answer c (\<lambda>_. Stored) (map_sum id (\<lambda>c'. (c', ())) (cache_put pol now now2 c k v ttl))"
| "cache_step pol c (Delete k) = answer c Deleted (cache_delete pol c k)"
| "cache_step pol c (Purge now) = answer c Purged (purge_expired pol now c)"

text \<open>The reference cache under the same calls.\<close>

fun ref_step :: "int \<Rightarrow> time option \<Rightarrow> (int list \<Rightarrow> nat) \<Rightarrow> ('k, 'v) ref_cache \<Rightarrow> ('k, 'v) cache_op
    \<Rightarrow> ('k, 'v) ref_cache \<times> (py_error + 'v cache_reply)" where
  "ref_step capacity default_ttl pos s (Get now k) = (fst (ref_get now s k), Inr (Found (snd (ref_get now s k))))"
| "ref_step capacity default_ttl pos s (Put now now2 k v ttl) =
     (case ttl of
        Some t \<Rightarrow> if t \<le> 0 then (s, Inl ValueError)
                  else (ref_put capacity pos now2 s k v (Some (now + t)), Inr Stored)
      | None \<Rightarrow> (ref_put capacity pos now2 s k v (map_option (\<lambda>t. now + t) default_ttl), Inr Stored))"
| "ref_step capacity default_ttl pos s (Delete k) = (without k s, Inr (Deleted (map_of s k \<noteq> None)))"
| "ref_step capacity default_ttl pos s (Purge now) =
     (ref_purge now s, Inr (Purged (int (length s) - int (length (ref_purge now s)))))"

context eviction_policy
begin

lemma step_refines:
  assumes "cache_rel R c u L"
  shows "\<exists>u' L'. cache_rel R (fst (cache_step pol c x)) u' L'
    \<and> entries (fst (cache_step pol c x)) u' L' = fst (ref_step (ca_capacity c) (ca_default_ttl c) pos (entries c u L) x)
    \<and> snd (cache_step pol c x) = snd (ref_step (ca_capacity c) (ca_default_ttl c) pos (entries c u L) x)
    \<and> ca_capacity (fst (cache_step pol c x)) = ca_capacity c
    \<and> ca_default_ttl (fst (cache_step pol c x)) = ca_default_ttl c"
proof (cases x)
  case (Get now k)
  then show ?thesis using get_rel [OF assms, of now k] by (clarsimp simp: answer_def) blast
next
  case (Put now now2 k v ttl)
  show ?thesis
  proof (cases "case ttl of None \<Rightarrow> False | Some t \<Rightarrow> t \<le> 0")
    case True
    then show ?thesis using Put assms by (auto simp: cache_put_def answer_def split: option.splits)
  next
    case False
    then have t: "0 < t" if "ttl = Some t" for t using that by auto
    have "fst (ref_step (ca_capacity c) (ca_default_ttl c) pos (entries c u L) x)
        = ref_put (ca_capacity c) pos now2 (entries c u L) k v (expiry_of c now ttl)"
      "snd (ref_step (ca_capacity c) (ca_default_ttl c) pos (entries c u L) x) = Inr Stored"
      using False Put by (auto simp: expiry_of_def split: option.splits)
    moreover have "\<exists>c' u' L'. cache_put pol now now2 c k v ttl = Inr c' \<and> cache_rel R c' u' L'
        \<and> entries c' u' L' = ref_put (ca_capacity c) pos now2 (entries c u L) k v (expiry_of c now ttl)
        \<and> ca_capacity c' = ca_capacity c \<and> ca_default_ttl c' = ca_default_ttl c"
      by (rule put_rel [OF assms]) (rule t)
    ultimately show ?thesis using Put by (clarsimp simp: answer_def) blast
  qed
next
  case (Delete k)
  then show ?thesis using delete_rel [OF assms, of k] by (clarsimp simp: answer_def) blast
next
  case (Purge now)
  obtain c' where "purge_expired pol now c = Inr (c', int (length (filter (\<lambda>i. is_expired now (ca_nodes c i)) L)))"
    "cache_rel R c' u (filter (\<lambda>i. \<not> is_expired now (ca_nodes c i)) L)" and nodes: "ca_nodes c' = ca_nodes c"
    and "ca_capacity c' = ca_capacity c" "ca_default_ttl c' = ca_default_ttl c"
    using purge_rel [OF assms, of now] by blast
  moreover have "int (length (entries c u L)) - int (length (ref_purge now (entries c u L)))
      = int (length (filter (\<lambda>i. is_expired now (ca_nodes c i)) L))"
    using sum_length_filter_compl [of "\<lambda>i. is_expired now (ca_nodes c i)" L]
    by (simp add: entries_purge) (simp add: entries_def)
  moreover have "entries c' u (filter (\<lambda>i. \<not> is_expired now (ca_nodes c i)) L) = ref_purge now (entries c u L)"
    unfolding entries_purge by (simp add: entries_def nodes)
  ultimately show ?thesis using Purge by (clarsimp simp: answer_def) blast
qed

end

text \<open>A cache over a policy that meets the contract implements the reference cache.\<close>

sublocale eviction_policy \<subseteq> sim: simulation "cache_step pol" "ref_step capacity default_ttl pos"
  "\<lambda>c s. ca_capacity c = capacity \<and> ca_default_ttl c = default_ttl \<and> (\<exists>u L. cache_rel R c u L \<and> entries c u L = s)"
  for capacity default_ttl
proof unfold_locales
  fix c s x
  assume "ca_capacity c = capacity \<and> ca_default_ttl c = default_ttl \<and> (\<exists>u L. cache_rel R c u L \<and> entries c u L = s)"
  then obtain u L where c: "ca_capacity c = capacity" "ca_default_ttl c = default_ttl" "cache_rel R c u L"
    "entries c u L = s" by blast
  note st = step_refines [OF c(3), of x, unfolded c(1,2,4)]
  show "ca_capacity (fst (cache_step pol c x)) = capacity \<and> ca_default_ttl (fst (cache_step pol c x)) = default_ttl
      \<and> (\<exists>u L. cache_rel R (fst (cache_step pol c x)) u L
           \<and> entries (fst (cache_step pol c x)) u L = fst (ref_step capacity default_ttl pos s x))"
    using st by blast
  show "snd (cache_step pol c x) = snd (ref_step capacity default_ttl pos s x)" using st by blast
qed

lemma keys_entries:
  assumes "cache_rel (\<lambda>p u L. dl_repr p L) c u L"
  shows "keys_mru_to_lru c = Some (Inr (map (\<lambda>x. Some (fst x)) (entries c u L)))"
proof -
  have r: "dl_repr (ca_policy c) L" using assms by (simp add: cache_rel_def linked_def)
  moreover have "length L < Suc (nat (dl_len (ca_policy c)))" using r by (simp add: dl_repr_def)
  ultimately show ?thesis
    using dl_walk_repr [of "ca_policy c" L "Suc (nat (dl_len (ca_policy c)))"]
    by (simp add: keys_mru_to_lru_def Let_def entries_def entry_of_def comp_def)
qed

lemma cache_rel_len: "cache_rel R c u L \<Longrightarrow> cache_len c = int (length (entries c u L)) \<and> cache_len c \<le> ca_capacity c"
  using linkedD(7,8) [of R c u L] by (simp add: cache_rel_def cache_len_def entries_def)

lemma new_cache_empty:
  assumes "new_cache p capacity default_ttl = Inr c"
  shows "ca_capacity c = capacity" "ca_default_ttl c = default_ttl" "ca_policy c = p" "entries c u [] = []"
    "R p u [] \<Longrightarrow> cache_rel R c u []"
  using assms
  by (auto simp: new_cache_def cache_rel_def linked_def heap_covers_def entries_def split: if_splits)

section \<open>Properties\<close>

text \<open>C3. An LRU cache with a lifetime per entry (dictionary, linked list, lazily cleaned heap of expiry
  times) answers every sequence of calls as the reference cache does, which is a plain
  list of entries with the most recently used first: a hit moves the entry to the front, an
  expired entry is never returned, and a new key in a full cache drops all expired entries or,
  when there are none, the last entry of the list. The key order kept by the cache is that of the list.
  No call fails, except that a lifetime that is not positive is refused.\<close>

theorem lru_refines:
  assumes "new_cache new_dlist capacity default_ttl = Inr c"
  shows "run_trace (cache_step lru_policy) c xs = run_trace (ref_step capacity default_ttl lru_pos) [] xs
    \<and> keys_mru_to_lru (run_ops (cache_step lru_policy) c xs)
      = Some (Inr (map (\<lambda>x. Some (fst x)) (run_ops (ref_step capacity default_ttl lru_pos) [] xs)))
    \<and> cache_len (run_ops (cache_step lru_policy) c xs) \<le> capacity"
proof -
  note new = new_cache_empty [OF assms]
  have rel: "ca_capacity c = capacity \<and> ca_default_ttl c = default_ttl
      \<and> (\<exists>u L. cache_rel (\<lambda>p u L. dl_repr p L) c u L \<and> entries c u L = [])"
    using new(1,2) new(4) new(5) [of "\<lambda>p u L. dl_repr p L"] new_dlist_repr by auto
  from lru.sim.run_rel [OF rel, of xs] obtain u L where
    "cache_rel (\<lambda>p u L. dl_repr p L) (run_ops (cache_step lru_policy) c xs) u L"
    "entries (run_ops (cache_step lru_policy) c xs) u L = run_ops (ref_step capacity default_ttl lru_pos) [] xs"
    "ca_capacity (run_ops (cache_step lru_policy) c xs) = capacity"
    by blast
  then show ?thesis using lru.sim.run_same [OF rel, of xs] keys_entries cache_rel_len by metis
qed

theorem lru_refines_witness:
  "\<exists>c. new_cache new_dlist 2 None = Inr c
    \<and> keys_mru_to_lru (run_ops (cache_step lru_policy) c
        [Put 0 0 ''a'' (1::int) None, Put 0 0 ''b'' 2 None, Get 1 ''a'', Put 2 2 ''c'' 3 None])
      = Some (Inr [Some ''c'', Some ''a''])"
proof -
  obtain c :: "(string, int, dlist) cache" where c: "new_cache new_dlist 2 None = Inr c"
    by (simp add: new_cache_def)
  have "map (\<lambda>x. Some (fst x)) (run_ops (ref_step 2 None lru_pos) []
      [Put 0 0 ''a'' (1::int) None, Put 0 0 ''b'' 2 None, Get 1 ''a'', Put 2 2 ''c'' 3 None])
      = [Some ''c'', Some ''a'']"
    by (simp add: ref_put_def ref_get_def without_def lru_pos_def uses_def dead_def)
  then show ?thesis using c lru_refines [OF c] by metis
qed

text \<open>C32. An LFU cache (one list per frequency and the least frequency, computed lazily) answers every
  sequence of calls as the reference cache that gives up the entry with the fewest uses and, among those,
  the least recently used one; it never holds more entries than its capacity, and \<open>frequency\<close> tells how
  often a key that it holds was stored or found.\<close>

theorem lfu_refines:
  assumes "new_cache new_lfu capacity default_ttl = Inr c"
  shows "run_trace (cache_step lfu_policy) c xs = run_trace (ref_step capacity default_ttl lfu_pos) [] xs
    \<and> cache_len (run_ops (cache_step lfu_policy) c xs) \<le> capacity
    \<and> frequency (run_ops (cache_step lfu_policy) c xs) k =
        (case map_of (run_ops (ref_step capacity default_ttl lfu_pos) [] xs) k of None \<Rightarrow> 0 | Some (_, _, n) \<Rightarrow> n)"
proof -
  let ?c = "run_ops (cache_step lfu_policy) c xs"
  note new = new_cache_empty [OF assms]
  have "lfu_rel new_lfu u []" for u by (simp add: lfu_rel_def new_lfu_def buckets_of_def bucket_def)
  then have rel: "ca_capacity c = capacity \<and> ca_default_ttl c = default_ttl
      \<and> (\<exists>u L. cache_rel lfu_rel c u L \<and> entries c u L = [])"
    using new(1,2) new(4) new(5) [of lfu_rel] by blast
  from lfu.sim.run_rel [OF rel, of xs] obtain u L where
    c: "cache_rel lfu_rel ?c u L" "entries ?c u L = run_ops (ref_step capacity default_ttl lfu_pos) [] xs"
    "ca_capacity ?c = capacity" by blast
  have l: "linked lfu_rel ?c u L" using c(1) by (simp add: cache_rel_def)
  have "frequency ?c k = (case map_of (entries ?c u L) k of None \<Rightarrow> 0 | Some (_, _, n) \<Rightarrow> n)"
  proof (cases "map_of (ca_map ?c) k")
    case None
    then show ?thesis using entries_lookup [OF l, of k] by (simp add: frequency_def)
  next
    case (Some i)
    have "i \<in> set L" "lfu_rel (ca_policy ?c) u L" using linkedD(6) [OF l Some] linkedD(1) [OF l] by auto
    then have "lf_freq (ca_policy ?c) i = u i" by (simp add: lfu_rel_def)
    then show ?thesis using Some entries_lookup [OF l, of k] by (simp add: frequency_def)
  qed
  then show ?thesis using lfu.sim.run_same [OF rel, of xs] cache_rel_len [OF c(1)] c(2,3) by simp
qed

theorem lfu_refines_witness:
  "\<exists>c. new_cache new_lfu 2 None = Inr c
    \<and> run_trace (cache_step lfu_policy) c
        [Put 0 0 ''a'' (1::int) None, Put 0 0 ''b'' 2 None, Get 1 ''a'', Put 2 2 ''c'' 3 None, Get 3 ''b'']
      = [Inr Stored, Inr Stored, Inr (Found (Some 1)), Inr Stored, Inr (Found None)]"
proof -
  obtain c :: "(string, int, lfu) cache" where c: "new_cache new_lfu 2 None = Inr c"
    by (simp add: new_cache_def)
  have "run_trace (ref_step 2 None lfu_pos) []
      [Put 0 0 ''a'' (1::int) None, Put 0 0 ''b'' 2 None, Get 1 ''a'', Put 2 2 ''c'' 3 None, Get 3 ''b'']
      = [Inr Stored, Inr Stored, Inr (Found (Some 1)), Inr Stored, Inr (Found None)]"
    by (simp add: ref_put_def ref_get_def without_def lfu_pos_def uses_def dead_def)
  then show ?thesis using c lfu_refines [OF c] by metis
qed

end
