(* ===== verification/Single_Flight.thy ===== *)
theory Single_Flight
  imports LRU_Cache
begin

text \<open>
  \<open>ThreadSafeCache.get_or_load\<close> of \<open>lru-cache/lru_cache.py\<close> under arbitrary interleaving. Each rule
  of the step relation is one stretch of code that another thread cannot interrupt: a critical
  section under the lock, a return of the loader, \<open>done.set()\<close>, or the return of \<open>done.wait()\<close>. The
  loader is the caller's: it may return any value or raise. Clock readings are arbitrary.
\<close>

section \<open>Threads and flights\<close>

datatype 'e failure = LoaderError 'e | CacheError py_error

record ('v, 'e) flight =
  fl_done :: bool
  fl_value :: "'v option"
  fl_error :: "'e option"

definition new_flight :: "('v, 'e) flight" where
  "new_flight = \<lparr>fl_done = False, fl_value = None, fl_error = None\<rparr>"

text \<open>
  Where a thread is in \<open>get_or_load(key, loader, ttl)\<close>. \<open>Storing\<close>: the loader has returned or
  raised and the \<open>finally\<close> block begins; \<open>Closing\<close>: the lock is released again, \<open>done.set()\<close> is next.
\<close>

datatype ('k, 'v, 'e) phase =
    Idle
  | Entering 'k "time option"
  | Loading 'k "time option" nat
  | Storing 'k "time option" nat
  | Closing nat
  | Waiting nat
  | Returned 'v
  | Raised "'e failure"

record ('k, 'v, 'p, 'e) tsc =
  ts_cache :: "('k, 'v, 'p) cache"
  ts_inflight :: "'k \<Rightarrow> nat option"
  ts_flights :: "nat \<Rightarrow> ('v, 'e) flight"
  ts_next :: nat
  ts_phase :: "nat \<Rightarrow> ('k, 'v, 'e) phase"

definition goto :: "('k, 'v, 'p, 'e) tsc \<Rightarrow> nat \<Rightarrow> ('k, 'v, 'e) phase \<Rightarrow> ('k, 'v, 'p, 'e) tsc" where
  "goto s t ph = s\<lparr>ts_phase := (ts_phase s)(t := ph)\<rparr>"

definition set_flight :: "('k, 'v, 'p, 'e) tsc \<Rightarrow> nat \<Rightarrow> ('v, 'e) flight \<Rightarrow> ('k, 'v, 'p, 'e) tsc" where
  "set_flight s f fl = s\<lparr>ts_flights := (ts_flights s)(f := fl)\<rparr>"

text \<open>What a waiter or the leader gives back once the flight has landed. A flight lands only after its
  value or its error was set, so that the last case does not arise.\<close>

fun outcome :: "('v, 'e) flight \<Rightarrow> ('k, 'v, 'e) phase" where
  "outcome fl =
     (case fl_error fl of
        Some e \<Rightarrow> Raised (LoaderError e)
      | None \<Rightarrow> (case fl_value fl of Some v \<Rightarrow> Returned v | None \<Rightarrow> Raised (CacheError TypeError)))"

definition enter :: "'p policy \<Rightarrow> time \<Rightarrow> ('k, 'v, 'p, 'e) tsc \<Rightarrow> nat \<Rightarrow> 'k \<Rightarrow> time option \<Rightarrow> ('k, 'v, 'p, 'e) tsc" where
  "enter pol now s t k ttl =
     (case cache_get pol now (ts_cache s) k of
        Inl e \<Rightarrow> goto s t (Raised (CacheError e))
      | Inr (c, Some v) \<Rightarrow> goto (s\<lparr>ts_cache := c\<rparr>) t (Returned v)
      | Inr (c, None) \<Rightarrow>
          (case ts_inflight s k of
             Some f \<Rightarrow> goto (s\<lparr>ts_cache := c\<rparr>) t (Waiting f)
           | None \<Rightarrow>
               (let f = ts_next s
                in goto (s\<lparr>ts_cache := c, ts_inflight := (ts_inflight s)(k \<mapsto> f),
                           ts_flights := (ts_flights s)(f := new_flight), ts_next := Suc f\<rparr>) t (Loading k ttl f))))"

text \<open>
  The critical section of the \<open>finally\<close> block. When \<open>put\<close> raises, the exception leaves the block:
  the entry of \<open>_inflight\<close> stays and \<open>done\<close> is never set.
\<close>

definition store :: "'p policy \<Rightarrow> time \<Rightarrow> time \<Rightarrow> ('k, 'v, 'p, 'e) tsc \<Rightarrow> nat \<Rightarrow> 'k \<Rightarrow> time option \<Rightarrow> nat
    \<Rightarrow> ('k, 'v, 'p, 'e) tsc" where
  "store pol now now2 s t k ttl f =
     (case (fl_error (ts_flights s f), fl_value (ts_flights s f)) of
        (None, Some v) \<Rightarrow>
          (case cache_put pol now now2 (ts_cache s) k v ttl of
             Inl e \<Rightarrow> goto s t (Raised (CacheError e))
           | Inr c \<Rightarrow> goto (s\<lparr>ts_cache := c, ts_inflight := (ts_inflight s)(k := None)\<rparr>) t (Closing f))
      | _ \<Rightarrow> goto (s\<lparr>ts_inflight := (ts_inflight s)(k := None)\<rparr>) t (Closing f))"

definition close :: "('k, 'v, 'p, 'e) tsc \<Rightarrow> nat \<Rightarrow> nat \<Rightarrow> ('k, 'v, 'p, 'e) tsc" where
  "close s t f = goto (set_flight s f ((ts_flights s f)\<lparr>fl_done := True\<rparr>)) t (outcome (ts_flights s f))"

inductive tstep :: "'p policy \<Rightarrow> ('k, 'v, 'p, 'e) tsc \<Rightarrow> ('k, 'v, 'p, 'e) tsc \<Rightarrow> bool" for pol where
  call: "ts_phase s t = Idle \<Longrightarrow> tstep pol s (goto s t (Entering k ttl))"
| enter: "ts_phase s t = Entering k ttl \<Longrightarrow> tstep pol s (enter pol now s t k ttl)"
| loaded: "ts_phase s t = Loading k ttl f \<Longrightarrow>
    tstep pol s (goto (set_flight s f ((ts_flights s f)\<lparr>fl_value := Some v\<rparr>)) t (Storing k ttl f))"
| failed: "ts_phase s t = Loading k ttl f \<Longrightarrow>
    tstep pol s (goto (set_flight s f ((ts_flights s f)\<lparr>fl_error := Some e\<rparr>)) t (Storing k ttl f))"
| store: "ts_phase s t = Storing k ttl f \<Longrightarrow> tstep pol s (store pol now now2 s t k ttl f)"
| close: "ts_phase s t = Closing f \<Longrightarrow> tstep pol s (close s t f)"
| wake: "ts_phase s t = Waiting f \<Longrightarrow> fl_done (ts_flights s f) \<Longrightarrow> tstep pol s (goto s t (outcome (ts_flights s f)))"

definition initial :: "('k, 'v, 'p) cache \<Rightarrow> ('k, 'v, 'p, 'e) tsc" where
  "initial c = \<lparr>ts_cache = c, ts_inflight = (\<lambda>_. None), ts_flights = (\<lambda>_. new_flight), ts_next = 0,
     ts_phase = (\<lambda>_. Idle)\<rparr>"

inductive reaches :: "'p policy \<Rightarrow> ('k, 'v, 'p, 'e) tsc \<Rightarrow> ('k, 'v, 'p, 'e) tsc \<Rightarrow> bool" for pol s0 where
  start: "reaches pol s0 s0"
| more: "reaches pol s0 s \<Longrightarrow> tstep pol s s' \<Longrightarrow> reaches pol s0 s'"

inductive_cases tstep_cases: "tstep pol s s'"

section \<open>The invariant\<close>

fun leads :: "('k, 'v, 'e) phase \<Rightarrow> nat option" where
  "leads (Loading k ttl f) = Some f"
| "leads (Storing k ttl f) = Some f"
| "leads (Closing f) = Some f"
| "leads _ = None"

fun open_flight :: "('k, 'v, 'e) phase \<Rightarrow> ('k \<times> nat) option" where
  "open_flight (Loading k ttl f) = Some (k, f)"
| "open_flight (Storing k ttl f) = Some (k, f)"
| "open_flight _ = None"

text \<open>
  Flights have at most one leader; the flight of a thread that is loading or storing is the one
  registered for its key; numbers are handed out once.
\<close>

definition flights_ok :: "('k, 'v, 'p, 'e) tsc \<Rightarrow> bool" where
  "flights_ok s \<longleftrightarrow>
     (\<forall>t t' f. leads (ts_phase s t) = Some f \<longrightarrow> leads (ts_phase s t') = Some f \<longrightarrow> t = t')
     \<and> (\<forall>t k f. open_flight (ts_phase s t) = Some (k, f) \<longrightarrow> ts_inflight s k = Some f)
     \<and> (\<forall>t f. leads (ts_phase s t) = Some f \<longrightarrow> f < ts_next s)
     \<and> (\<forall>k f. ts_inflight s k = Some f \<longrightarrow> f < ts_next s)
     \<and> (\<forall>k k' f. ts_inflight s k = Some f \<longrightarrow> ts_inflight s k' = Some f \<longrightarrow> k = k')
     \<and> (\<forall>t f. ts_phase s t = Waiting f \<longrightarrow> f < ts_next s)"

lemma flights_okD:
  assumes "flights_ok s"
  shows "leads (ts_phase s t) = Some f \<Longrightarrow> leads (ts_phase s t') = Some f \<Longrightarrow> t = t'"
    "open_flight (ts_phase s t) = Some (k, f) \<Longrightarrow> ts_inflight s k = Some f"
    "leads (ts_phase s t) = Some f \<Longrightarrow> f < ts_next s"
    "ts_inflight s k = Some f \<Longrightarrow> f < ts_next s"
    "ts_inflight s k = Some f \<Longrightarrow> ts_inflight s k' = Some f \<Longrightarrow> k = k'"
    "ts_phase s t = Waiting f \<Longrightarrow> f < ts_next s"
  using assms unfolding flights_ok_def by blast+

lemma outcome_cases: "leads (outcome fl) = None" "open_flight (outcome fl) = None" "outcome fl \<noteq> Waiting f"
  by (auto split: option.split)

text \<open>A thread that moves on without opening or closing a flight keeps the invariant.\<close>

lemma flights_ok_move:
  assumes "flights_ok s" "ts_inflight s' = ts_inflight s" "ts_next s' = ts_next s"
    "ts_phase s' = (ts_phase s)(t := ph)"
    "leads ph = None \<or> leads ph = leads (ts_phase s t)"
    "open_flight ph = None \<or> open_flight ph = open_flight (ts_phase s t)"
    "\<And>f. ph = Waiting f \<Longrightarrow> f < ts_next s"
  shows "flights_ok s'"
  using assms unfolding flights_ok_def by (auto split: if_splits) metis+

lemma flights_ok_open:
  assumes "flights_ok s" "ts_inflight s k = None" "leads (ts_phase s t) = None"
  shows "flights_ok (goto (s\<lparr>ts_cache := c, ts_inflight := (ts_inflight s)(k \<mapsto> ts_next s),
    ts_flights := (ts_flights s)(ts_next s := new_flight), ts_next := Suc (ts_next s)\<rparr>) t (Loading k ttl (ts_next s)))"
proof -
  have a: "leads (ts_phase s t') \<noteq> Some (ts_next s)" "ts_inflight s k' \<noteq> Some (ts_next s)"
    "open_flight (ts_phase s t') \<noteq> Some (k, f)" for t' k' f
    using flights_okD [OF assms(1)] assms(2) by (metis less_irrefl option.distinct(1))+
  show ?thesis
    using assms(1) a unfolding flights_ok_def goto_def by (auto split: if_splits) (metis less_SucI)+
qed

lemma flights_ok_shut:
  assumes "flights_ok s" "ts_phase s t = Storing k ttl f"
  shows "flights_ok (goto (s\<lparr>ts_cache := c, ts_inflight := (ts_inflight s)(k := None)\<rparr>) t (Closing f))"
proof -
  have f: "ts_inflight s k = Some f" using flights_okD(2) [OF assms(1), of t k f] assms(2) by simp
  have "t' = t" if "open_flight (ts_phase s t') = Some (k, g)" for t' g
  proof -
    have "ts_inflight s k = Some g" by (rule flights_okD(2) [OF assms(1) that])
    then have "leads (ts_phase s t') = Some f" using that f by (cases "ts_phase s t'") auto
    then show ?thesis using flights_okD(1) [OF assms(1), of t' f t] assms(2) by simp
  qed
  then show ?thesis
    using assms unfolding flights_ok_def goto_def
    by (auto split: if_splits) (metis leads.simps(2))+
qed

lemma tstep_flights_ok:
  assumes "tstep pol s s'" "flights_ok s"
  shows "flights_ok s'"
  using assms
proof (cases rule: tstep.cases)
  case (call t k ttl)
  then show ?thesis by (intro flights_ok_move [OF assms(2), of s' t]) (auto simp: goto_def)
next
  case (enter t k ttl now)
  show ?thesis
  proof (cases "cache_get pol now (ts_cache s) k")
    case (Inl e)
    then show ?thesis using enter
      by (intro flights_ok_move [OF assms(2), of s' t]) (auto simp: enter_def goto_def)
  next
    case (Inr r)
    obtain c ov where r: "r = (c, ov)" by (cases r)
    show ?thesis
    proof (cases "ov = None \<and> ts_inflight s k = None")
      case True
      then show ?thesis
        using enter Inr r flights_ok_open [OF assms(2), of k t c ttl] by (simp add: enter_def Let_def)
    next
      case False
      then show ?thesis using enter Inr r
        by (intro flights_ok_move [OF assms(2), of s' t "ts_phase s' t"])
          (auto simp: enter_def goto_def flights_okD(4) [OF assms(2)] split: option.splits)
    qed
  qed
next
  case (loaded t k ttl f v)
  then show ?thesis by (intro flights_ok_move [OF assms(2), of s' t]) (auto simp: goto_def set_flight_def)
next
  case (failed t k ttl f e)
  then show ?thesis by (intro flights_ok_move [OF assms(2), of s' t]) (auto simp: goto_def set_flight_def)
next
  case (store t k ttl f now now2)
  have shut: "flights_ok (goto (s\<lparr>ts_cache := c, ts_inflight := (ts_inflight s)(k := None)\<rparr>) t (Closing f))" for c
    by (rule flights_ok_shut [OF assms(2) store(2)])
  have shut': "flights_ok (goto (s\<lparr>ts_inflight := (ts_inflight s)(k := None)\<rparr>) t (Closing f))"
    using shut [of "ts_cache s"] by simp
  have "flights_ok (goto s t (Raised (CacheError e)))" for e
    by (intro flights_ok_move [OF assms(2), of _ t]) (auto simp: goto_def)
  then show ?thesis
    using store(1) shut shut' by (auto simp: store_def split: option.split sum.split)
next
  case (close t f)
  then show ?thesis
    by (intro flights_ok_move [OF assms(2), of s' t])
      (auto simp: goto_def set_flight_def close_def outcome_cases simp del: outcome.simps)
next
  case (wake t f)
  then show ?thesis
    by (intro flights_ok_move [OF assms(2), of s' t])
      (auto simp: goto_def outcome_cases simp del: outcome.simps)
qed

lemma reaches_flights_ok: "reaches pol (initial c) s \<Longrightarrow> flights_ok s"
proof (induction rule: reaches.induct)
  case start
  then show ?case by (simp add: flights_ok_def initial_def)
next
  case (more s s')
  then show ?case using tstep_flights_ok by blast
qed

section \<open>Waiters are served\<close>

text \<open>
  When every \<open>ttl\<close> is valid, a waiting thread's flight has landed or has a leader that can take
  its next step, whatever that step is: waiting ends if threads that can run do run.
\<close>

fun ttl_of :: "('k, 'v, 'e) phase \<Rightarrow> time option" where
  "ttl_of (Entering k ttl) = ttl"
| "ttl_of (Loading k ttl f) = ttl"
| "ttl_of (Storing k ttl f) = ttl"
| "ttl_of _ = None"

definition ttls_valid :: "('k, 'v, 'p, 'e) tsc \<Rightarrow> bool" where
  "ttls_valid s \<longleftrightarrow> (\<forall>t x. ttl_of (ts_phase s t) = Some x \<longrightarrow> 0 < x)"

text \<open>Runs in which no call passes an invalid \<open>ttl\<close>.\<close>

inductive valid_run :: "'p policy \<Rightarrow> ('k, 'v, 'p, 'e) tsc \<Rightarrow> ('k, 'v, 'p, 'e) tsc \<Rightarrow> bool" for pol s0 where
  valid_start: "valid_run pol s0 s0"
| valid_more: "valid_run pol s0 s \<Longrightarrow> tstep pol s s' \<Longrightarrow> ttls_valid s' \<Longrightarrow> valid_run pol s0 s'"

definition served :: "('k, 'v, 'p, 'e) tsc \<Rightarrow> nat \<Rightarrow> bool" where
  "served s f \<longleftrightarrow> fl_done (ts_flights s f) \<or> (\<exists>t. leads (ts_phase s t) = Some f)"

definition waiters_served :: "('k, 'v, 'p, 'e) tsc \<Rightarrow> bool" where
  "waiters_served s \<longleftrightarrow> (\<forall>t f. ts_phase s t = Waiting f \<longrightarrow> served s f)
     \<and> (\<forall>k f. ts_inflight s k = Some f \<longrightarrow> served s f)"

lemma served_keep:
  assumes "served s f" "\<And>g. fl_done (ts_flights s g) \<Longrightarrow> fl_done (ts_flights s' g)"
    "ts_phase s' = (ts_phase s)(t := ph)" "leads (ts_phase s t) = None \<or> leads ph = leads (ts_phase s t)"
  shows "served s' f"
proof -
  consider "fl_done (ts_flights s f)" | u where "leads (ts_phase s u) = Some f" using assms(1) by (auto simp: served_def)
  then show ?thesis
  proof cases
    case 2
    then have "leads (ts_phase s' u) = Some f" using assms(3,4) by (cases "u = t") auto
    then show ?thesis by (auto simp: served_def)
  qed (use assms(2) in \<open>auto simp: served_def\<close>)
qed

lemma waiters_served_move:
  assumes "waiters_served s" "ts_inflight s' = ts_inflight s"
    "\<And>g. fl_done (ts_flights s g) \<Longrightarrow> fl_done (ts_flights s' g)"
    "ts_phase s' = (ts_phase s)(t := ph)" "leads (ts_phase s t) = None \<or> leads ph = leads (ts_phase s t)"
    "\<And>f. ph = Waiting f \<Longrightarrow> served s f"
  shows "waiters_served s'"
proof -
  have keep: "served s f \<Longrightarrow> served s' f" for f using served_keep [OF _ assms(3-5)] by blast
  show ?thesis
    unfolding waiters_served_def
  proof (intro conjI allI impI)
    fix u f
    assume "ts_phase s' u = Waiting f"
    then have "served s f" using assms(1,4,6) by (cases "u = t") (auto simp: waiters_served_def)
    then show "served s' f" by (rule keep)
  next
    fix k f
    assume "ts_inflight s' k = Some f"
    then show "served s' f" using assms(1,2) keep by (auto simp: waiters_served_def)
  qed
qed

lemma waiters_served_open:
  assumes "waiters_served s" "flights_ok s" "leads (ts_phase s t) = None"
  shows "waiters_served (goto (s\<lparr>ts_cache := c, ts_inflight := (ts_inflight s)(k \<mapsto> ts_next s),
    ts_flights := (ts_flights s)(ts_next s := new_flight), ts_next := Suc (ts_next s)\<rparr>) t (Loading k ttl (ts_next s)))"
    (is "waiters_served ?s")
proof -
  have new: "served ?s (ts_next s)" unfolding served_def by (rule disjI2, rule exI [of _ t]) (simp add: goto_def)
  have old: "served ?s f" if "served s f" "f < ts_next s" for f
    using that assms(3) unfolding served_def goto_def by (auto intro: exI [of _ t]) (metis option.distinct(1))
  show ?thesis
    unfolding waiters_served_def
  proof (intro conjI allI impI)
    fix u f
    assume "ts_phase ?s u = Waiting f"
    then have "ts_phase s u = Waiting f" by (auto simp: goto_def split: if_splits)
    then show "served ?s f" using old assms(1) flights_okD(6) [OF assms(2)] by (auto simp: waiters_served_def)
  next
    fix k' f
    assume "ts_inflight ?s k' = Some f"
    then show "served ?s f"
      using old new assms(1) flights_okD(4) [OF assms(2)] by (auto simp: goto_def waiters_served_def split: if_splits)
  qed
qed

lemma waiters_served_shut:
  assumes "waiters_served s" "ts_phase s t = Storing k ttl f"
  shows "waiters_served (goto (s\<lparr>ts_cache := c, ts_inflight := (ts_inflight s)(k := None)\<rparr>) t (Closing f))"
    (is "waiters_served ?s")
proof -
  have keep: "served s g \<Longrightarrow> served ?s g" for g
    by (erule served_keep [where t = t and ph = "Closing f"]) (use assms(2) in \<open>auto simp: goto_def\<close>)
  show ?thesis
    unfolding waiters_served_def
  proof (intro conjI allI impI)
    fix u g
    assume "ts_phase ?s u = Waiting g"
    then show "served ?s g" using keep assms by (auto simp: goto_def waiters_served_def split: if_splits)
  next
    fix k' g
    assume "ts_inflight ?s k' = Some g"
    then show "served ?s g" using keep assms by (auto simp: goto_def waiters_served_def split: if_splits)
  qed
qed

lemma waiters_served_close:
  assumes "waiters_served s" "ts_phase s t = Closing f"
  shows "waiters_served (close s t f)"
proof -
  have keep: "served (close s t f) g" if "served s g" for g
  proof (cases "g = f")
    case False
    then show ?thesis
      using that assms(2) unfolding served_def close_def goto_def set_flight_def
      by auto (metis leads.simps(3) option.inject)
  qed (simp add: served_def close_def goto_def set_flight_def)
  show ?thesis
    unfolding waiters_served_def
  proof (intro conjI allI impI)
    fix u g
    assume "ts_phase (close s t f) u = Waiting g"
    then have "ts_phase s u = Waiting g"
      by (auto simp: close_def goto_def set_flight_def split: if_splits option.splits)
    then show "served (close s t f) g" using keep assms(1) by (simp add: waiters_served_def)
  next
    fix k g
    assume "ts_inflight (close s t f) k = Some g"
    then show "served (close s t f) g"
      using keep assms(1) by (simp add: waiters_served_def close_def goto_def set_flight_def)
  qed
qed

context eviction_policy
begin

lemma store_valid:
  assumes "cache_rel R (ts_cache s) u L" "\<And>x. ttl = Some x \<Longrightarrow> 0 < x"
  shows "\<exists>c u L. store pol now now2 s t k ttl f =
      goto (s\<lparr>ts_cache := c, ts_inflight := (ts_inflight s)(k := None)\<rparr>) t (Closing f) \<and> cache_rel R c u L"
proof -
  have same: "s\<lparr>ts_inflight := i\<rparr> = s\<lparr>ts_cache := ts_cache s, ts_inflight := i\<rparr>" for i by simp
  show ?thesis
  proof (cases "(fl_error (ts_flights s f), fl_value (ts_flights s f))")
    case (Pair eo vo)
    show ?thesis
    proof (cases "\<exists>v. eo = None \<and> vo = Some v")
      case True
      then obtain v where v: "fl_error (ts_flights s f) = None" "fl_value (ts_flights s f) = Some v"
        using Pair by auto
      have "\<exists>c' u' L'. cache_put pol now now2 (ts_cache s) k v ttl = Inr c' \<and> cache_rel R c' u' L'
        \<and> entries c' u' L' = ref_put (ca_capacity (ts_cache s)) pos now2 (entries (ts_cache s) u L) k v
            (expiry_of (ts_cache s) now ttl)
        \<and> ca_capacity c' = ca_capacity (ts_cache s) \<and> ca_default_ttl c' = ca_default_ttl (ts_cache s)"
        by (rule put_rel [OF assms(1)]) (rule assms(2))
      then obtain c' u' L' where "cache_put pol now now2 (ts_cache s) k v ttl = Inr c'" "cache_rel R c' u' L'" by blast
      then show ?thesis using v by (intro exI [of _ c'] exI [of _ u'] exI [of _ L']) (simp add: store_def)
    next
      case False
      then have "store pol now now2 s t k ttl f = goto (s\<lparr>ts_inflight := (ts_inflight s)(k := None)\<rparr>) t (Closing f)"
        using Pair by (auto simp: store_def split: option.split)
      then show ?thesis using assms(1) same by metis
    qed
  qed
qed

lemma valid_run_served:
  assumes "valid_run pol (initial c0) s" "\<exists>u L. cache_rel R c0 u L"
  shows "flights_ok s \<and> waiters_served s \<and> ttls_valid s \<and> (\<exists>u L. cache_rel R (ts_cache s) u L)"
  using assms(1)
proof (induction rule: valid_run.induct)
  case valid_start
  then show ?case
    using assms(2) by (simp add: flights_ok_def waiters_served_def ttls_valid_def initial_def)
next
  case (valid_more s s')
  then obtain u L where ok: "flights_ok s" "waiters_served s" "ttls_valid s" "cache_rel R (ts_cache s) u L" by blast
  have "waiters_served s' \<and> (\<exists>u L. cache_rel R (ts_cache s') u L)"
    using valid_more.hyps(2)
  proof (cases rule: tstep.cases)
    case (call t k ttl)
    then show ?thesis using ok(4)
      by (intro conjI waiters_served_move [OF ok(2), of s' t]) (auto simp: goto_def)
  next
    case (enter t k ttl now)
    obtain c v u' L' where g: "cache_get pol now (ts_cache s) k = Inr (c, v)" "cache_rel R c u' L'"
      using get_rel [OF ok(4), of now k] by blast
    show ?thesis
    proof (cases "v = None \<and> ts_inflight s k = None")
      case True
      then show ?thesis
        using enter g waiters_served_open [OF ok(2,1), where t = t and c = c and k = k and ttl = ttl] by (auto simp: enter_def Let_def goto_def)
    next
      case False
      then have "waiters_served s'" using enter g ok(2)
        by (intro waiters_served_move [OF ok(2), of s' t "ts_phase s' t"])
          (auto simp: enter_def goto_def waiters_served_def split: option.splits)
      moreover have "ts_cache s' = c" using enter g False by (auto simp: enter_def goto_def split: option.splits)
      ultimately show ?thesis using g(2) by blast
    qed
  next
    case (loaded t k ttl f v)
    then show ?thesis using ok(4)
      by (intro conjI waiters_served_move [OF ok(2), of s' t]) (auto simp: goto_def set_flight_def)
  next
    case (failed t k ttl f e)
    then show ?thesis using ok(4)
      by (intro conjI waiters_served_move [OF ok(2), of s' t]) (auto simp: goto_def set_flight_def)
  next
    case (store t k ttl f now now2)
    have "ttl = Some x \<Longrightarrow> 0 < x" for x using ok(3) store(2) unfolding ttls_valid_def by (metis ttl_of.simps(3))
    from store_valid [OF ok(4) this] obtain c u' L' where
      c: "s' = goto (s\<lparr>ts_cache := c, ts_inflight := (ts_inflight s)(k := None)\<rparr>) t (Closing f)" "cache_rel R c u' L'"
      using store(1) by blast
    then show ?thesis using waiters_served_shut [OF ok(2) store(2)] by (auto simp: goto_def)
  next
    case (close t f)
    then show ?thesis using waiters_served_close [OF ok(2), of t f] ok(4) by (auto simp: close_def goto_def set_flight_def)
  next
    case (wake t f)
    then show ?thesis using ok(4)
      by (intro conjI waiters_served_move [OF ok(2), of s' t])
        (auto simp: goto_def outcome_cases simp del: outcome.simps)
  qed
  then show ?case using tstep_flights_ok valid_more.hyps(2,3) ok(1) by blast
qed

end

section \<open>Properties\<close>

text \<open>C35. Single flight: whatever the interleaving of any number of calls, two different threads are
  never inside a loader for the same key at the same time.\<close>

theorem single_flight:
  assumes "reaches pol (initial c) s" "ts_phase s t = Loading k ttl f" "ts_phase s t' = Loading k ttl' f'"
  shows "t = t'"
proof -
  have ok: "flights_ok s" by (rule reaches_flights_ok [OF assms(1)])
  have "ts_inflight s k = Some f" "ts_inflight s k = Some f'"
    using flights_okD(2) [OF ok, of t] flights_okD(2) [OF ok, of t'] assms(2,3) by simp_all
  then show ?thesis using flights_okD(1) [OF ok, of t f t'] assms(2,3) by simp
qed

lemma new_lru_rel:
  assumes "new_cache new_dlist capacity default_ttl = Inr c"
  shows "\<exists>u L. cache_rel (\<lambda>p u L. dl_repr p L) c u L"
  using new_cache_empty(5) [OF assms, of "\<lambda>p u L. dl_repr p L"] new_dlist_repr by blast

text \<open>No waiter of an LRU cache is left behind as long as every lifetime passed in is valid: the flight that
  a thread waits for has landed, or a thread that leads it exists, and that thread is never
  blocked: it is in its loader, or about to store the result, or about to wake the waiters, each of which
  it can do at once.\<close>

theorem waiters_make_progress:
  assumes "new_cache new_dlist capacity default_ttl = Inr c" "valid_run lru_policy (initial c) s"
    "ts_phase s t = Waiting f"
  shows "(fl_done (ts_flights s f) \<and> tstep lru_policy s (goto s t (outcome (ts_flights s f))))
    \<or> (\<exists>t' s'. leads (ts_phase s t') = Some f \<and> tstep lru_policy s s' \<and> ts_phase s' t' \<noteq> ts_phase s t')"
proof (cases "fl_done (ts_flights s f)")
  case True
  then show ?thesis using assms(3) by (auto intro: tstep.wake simp del: outcome.simps)
next
  case False
  have ok: "waiters_served s" "ttls_valid s" "\<exists>u L. cache_rel (\<lambda>p u L. dl_repr p L) (ts_cache s) u L"
    using lru.valid_run_served [OF assms(2) new_lru_rel [OF assms(1)]] by blast+
  have "served s f" using ok(1) assms(3) by (auto simp: waiters_served_def)
  then obtain t' where t': "leads (ts_phase s t') = Some f" using False by (auto simp: served_def)
  have "\<exists>s'. tstep lru_policy s s' \<and> ts_phase s' t' \<noteq> ts_phase s t'"
  proof (cases "ts_phase s t'")
    case (Loading k ttl g)
    then show ?thesis
      by (intro exI conjI, rule tstep.failed) (auto simp: goto_def set_flight_def)
  next
    case (Storing k ttl g)
    have "ttl = Some x \<Longrightarrow> 0 < x" for x using ok(2) Storing unfolding ttls_valid_def by (metis ttl_of.simps(3))
    with lru.store_valid ok(3) obtain c' where
      "store lru_policy 0 0 s t' k ttl g = goto (s\<lparr>ts_cache := c', ts_inflight := (ts_inflight s)(k := None)\<rparr>) t' (Closing g)"
      by metis
    then show ?thesis using tstep.store [OF Storing, of lru_policy 0 0] Storing
      by (intro exI [of _ "store lru_policy 0 0 s t' k ttl g"]) (auto simp: goto_def)
  next
    case (Closing g)
    then show ?thesis using tstep.close [OF Closing, of lru_policy]
      by (intro exI [of _ "close s t' g"]) (auto simp: close_def goto_def set_flight_def split: option.split)
  qed (use t' in simp_all)
  then show ?thesis using t' by blast
qed

subsection \<open>Two callers and one flight\<close>

text \<open>Thread 0 misses and leads, thread 1 misses the same key and waits.\<close>

definition one_leads :: "'p policy \<Rightarrow> ('k, 'v, 'p) cache \<Rightarrow> 'k \<Rightarrow> time option \<Rightarrow> ('k, 'v, 'p, 'e) tsc" where
  "one_leads pol c k ttl = enter pol 0 (goto (initial c) 0 (Entering k ttl)) 0 k ttl"

definition one_waits :: "'p policy \<Rightarrow> ('k, 'v, 'p) cache \<Rightarrow> 'k \<Rightarrow> time option \<Rightarrow> ('k, 'v, 'p, 'e) tsc" where
  "one_waits pol c k ttl = enter pol 0 (goto (one_leads pol c k ttl) 1 (Entering k None)) 1 k None"

lemma one_leads_state:
  assumes "ca_map c = []"
  shows "one_leads pol c k ttl = \<lparr>ts_cache = c\<lparr>ca_stats := count_miss (ca_stats c)\<rparr>, ts_inflight = [k \<mapsto> 0],
    ts_flights = (\<lambda>_. new_flight), ts_next = 1, ts_phase = (\<lambda>_. Idle)(0 := Loading k ttl 0)\<rparr>"
  using assms by (simp add: one_leads_def enter_def goto_def initial_def cache_get_def Let_def fun_upd_idem)

lemma one_waits_state:
  assumes "ca_map c = []"
  shows "one_waits pol c k ttl = \<lparr>ts_cache = c\<lparr>ca_stats := count_miss (count_miss (ca_stats c))\<rparr>, ts_inflight = [k \<mapsto> 0],
    ts_flights = (\<lambda>_. new_flight), ts_next = 1, ts_phase = (\<lambda>_. Idle)(0 := Loading k ttl 0, 1 := Waiting 0)\<rparr>"
  using assms by (simp add: one_waits_def one_leads_state enter_def goto_def cache_get_def Let_def)

lemma one_waits_steps:
  assumes "ca_map c = []"
  shows "tstep pol (initial c) (goto (initial c) 0 (Entering k ttl))"
    "tstep pol (goto (initial c) 0 (Entering k ttl)) (one_leads pol c k ttl)"
    "tstep pol (one_leads pol c k ttl) (goto (one_leads pol c k ttl) 1 (Entering k None))"
    "tstep pol (goto (one_leads pol c k ttl) 1 (Entering k None)) (one_waits pol c k ttl)"
proof -
  show "tstep pol (initial c) (goto (initial c) 0 (Entering k ttl))" by (rule tstep.call) (simp add: initial_def)
  show "tstep pol (goto (initial c) 0 (Entering k ttl)) (one_leads pol c k ttl)"
    unfolding one_leads_def by (rule tstep.enter) (simp add: goto_def)
  show "tstep pol (one_leads pol c k ttl) (goto (one_leads pol c k ttl) 1 (Entering k None))"
    by (rule tstep.call) (simp add: one_leads_state [OF assms])
  show "tstep pol (goto (one_leads pol c k ttl) 1 (Entering k None)) (one_waits pol c k ttl)"
    unfolding one_waits_def by (rule tstep.enter) (simp add: goto_def)
qed

lemma one_waits_reached: "ca_map c = [] \<Longrightarrow> reaches pol (initial c) (one_waits pol c k ttl)"
  by (meson one_waits_steps reaches.start reaches.more)

lemma one_waits_valid:
  assumes "ca_map c = []"
  shows "valid_run pol (initial c) (one_waits pol c k None)"
proof -
  have "ttls_valid (goto (initial c) 0 (Entering k None))" "ttls_valid (one_leads pol c k None)"
    "ttls_valid (goto (one_leads pol c k None) 1 (Entering k None))" "ttls_valid (one_waits pol c k None)"
    by (auto simp: ttls_valid_def initial_def goto_def one_leads_state [OF assms] one_waits_state [OF assms])
  then show ?thesis
    using one_waits_steps [OF assms, of pol k None] by (meson valid_run.valid_start valid_run.valid_more)
qed

lemma new_lru_map: "new_cache p capacity default_ttl = Inr c \<Longrightarrow> ca_map c = []"
  by (auto simp: new_cache_def split: if_splits)

theorem single_flight_witness:
  "\<exists>c s. new_cache new_dlist 2 None = Inr (c :: (string, int, dlist) cache)
    \<and> reaches lru_policy (initial c :: (string, int, dlist, string) tsc) s \<and> ts_phase s 0 = Loading ''a'' None 0
    \<and> ts_phase s 1 \<noteq> Loading ''a'' None 0"
proof -
  obtain c :: "(string, int, dlist) cache" where c: "new_cache new_dlist 2 None = Inr c" by (simp add: new_cache_def)
  let ?s = "one_waits lru_policy c ''a'' None :: (string, int, dlist, string) tsc"
  have r: "reaches lru_policy (initial c) ?s" by (rule one_waits_reached [OF new_lru_map [OF c]])
  have p: "ts_phase ?s 0 = Loading ''a'' None 0" by (simp add: one_waits_state [OF new_lru_map [OF c]])
  have "ts_phase ?s 1 \<noteq> Loading ''a'' None 0" using single_flight [OF r p, of 1 None 0] by auto
  then show ?thesis using c r p by blast
qed

theorem waiters_make_progress_witness:
  "\<exists>c s. new_cache new_dlist 2 None = Inr (c :: (string, int, dlist) cache)
    \<and> valid_run lru_policy (initial c :: (string, int, dlist, string) tsc) s \<and> ts_phase s 1 = Waiting 0
    \<and> (\<exists>t' s'. leads (ts_phase s t') = Some 0 \<and> tstep lru_policy s s')"
proof -
  obtain c :: "(string, int, dlist) cache" where c: "new_cache new_dlist 2 None = Inr c" by (simp add: new_cache_def)
  note m = new_lru_map [OF c]
  let ?i = "initial c :: (string, int, dlist, string) tsc"
  let ?s = "one_waits lru_policy c ''a'' None :: (string, int, dlist, string) tsc"
  have r: "valid_run lru_policy ?i ?s" by (rule one_waits_valid [OF m])
  have p: "ts_phase ?s 1 = Waiting 0" "\<not> fl_done (ts_flights ?s 0)"
    by (simp_all add: one_waits_state [OF m] new_flight_def)
  show ?thesis using c r p waiters_make_progress [OF c r p(1)] by blast
qed

subsection \<open>An invalid lifetime strands the waiters\<close>

definition stranded :: "nat \<Rightarrow> nat \<Rightarrow> ('k, 'v, 'p, 'e) tsc \<Rightarrow> bool" where
  "stranded t f s \<longleftrightarrow> ts_phase s t = Waiting f \<and> \<not> fl_done (ts_flights s f) \<and> f < ts_next s
     \<and> (\<forall>u. leads (ts_phase s u) \<noteq> Some f)"

lemma stranded_move:
  assumes "stranded t f s" "ts_phase s' = (ts_phase s)(u := ph)" "u \<noteq> t" "leads ph \<noteq> Some f"
    "fl_done (ts_flights s' f) = fl_done (ts_flights s f)" "ts_next s \<le> ts_next s'"
  shows "stranded t f s'"
  using assms by (auto simp: stranded_def)

lemma stranded_step:
  assumes "tstep pol s s'" "stranded t f s"
  shows "stranded t f s'"
  using assms(1)
proof (cases rule: tstep.cases)
  case (call u k ttl)
  then show ?thesis using assms(2)
    by (intro stranded_move [OF assms(2), of s' u]) (auto simp: goto_def stranded_def)
next
  case (enter u k ttl now)
  show ?thesis
    by (rule stranded_move [OF assms(2), of s' u "ts_phase s' u"])
      (use enter assms(2) in \<open>auto simp: enter_def goto_def stranded_def Let_def split: sum.splits option.splits\<close>)
next
  case (loaded u k ttl g v)
  have "g \<noteq> f" using loaded(2) assms(2) unfolding stranded_def by (metis leads.simps(1))
  then show ?thesis
    by (intro stranded_move [OF assms(2), of s' u]) (use assms(2) loaded in \<open>auto simp: goto_def set_flight_def stranded_def\<close>)
next
  case (failed u k ttl g e)
  have "g \<noteq> f" using failed(2) assms(2) unfolding stranded_def by (metis leads.simps(1))
  then show ?thesis
    by (intro stranded_move [OF assms(2), of s' u]) (use assms(2) failed in \<open>auto simp: goto_def set_flight_def stranded_def\<close>)
next
  case (store u k ttl g now now2)
  have "g \<noteq> f" using store(2) assms(2) unfolding stranded_def by (metis leads.simps(2))
  then show ?thesis
    by (intro stranded_move [OF assms(2), of s' u "ts_phase s' u"])
      (use assms(2) store in \<open>auto simp: store_def goto_def stranded_def split: sum.splits option.splits\<close>)
next
  case (close u g)
  have "g \<noteq> f" using close(2) assms(2) unfolding stranded_def by (metis leads.simps(3))
  then show ?thesis
    by (intro stranded_move [OF assms(2), of s' u])
      (use assms(2) close in \<open>auto simp: close_def goto_def set_flight_def stranded_def outcome_cases simp del: outcome.simps\<close>)
next
  case (wake u g)
  then have "u \<noteq> t" using assms(2) by (auto simp: stranded_def)
  then show ?thesis
    by (intro stranded_move [OF assms(2), of s' u])
      (use wake in \<open>auto simp: goto_def outcome_cases simp del: outcome.simps\<close>)
qed

text \<open>A call of \<open>get_or_load\<close> with a lifetime that is not positive strands every other caller of the same
  key: \<open>put\<close> raises inside the \<open>finally\<close> block, so that the flight is neither removed nor marked as done, and
  in every state from then on the other caller is still waiting.\<close>

theorem invalid_ttl_strands_waiters:
  "\<exists>(c :: (string, int, dlist) cache) s. new_cache new_dlist 2 None = Inr c
    \<and> reaches lru_policy (initial c :: (string, int, dlist, string) tsc) s
    \<and> ts_phase s 0 = Raised (CacheError ValueError)
    \<and> {s'. reaches lru_policy s s'} \<subseteq> {s'. ts_phase s' 1 = Waiting 0}"
proof -
  obtain c :: "(string, int, dlist) cache" where c: "new_cache new_dlist 2 None = Inr c" by (simp add: new_cache_def)
  note m = new_lru_map [OF c]
  let ?s0 = "initial c :: (string, int, dlist, string) tsc"
  let ?s1 = "one_waits lru_policy c ''a'' (Some 0) :: (string, int, dlist, string) tsc"
  let ?s2 = "goto (set_flight ?s1 0 ((ts_flights ?s1 0)\<lparr>fl_value := Some 7\<rparr>)) 0 (Storing ''a'' (Some 0) 0)"
  let ?s3 = "store lru_policy 0 0 ?s2 0 ''a'' (Some 0) 0"
  have "reaches lru_policy ?s0 ?s2"
    by (rule reaches.more [OF one_waits_reached [OF m]], rule tstep.loaded) (simp add: one_waits_state [OF m])
  then have r: "reaches lru_policy ?s0 ?s3" by (rule reaches.more) (rule tstep.store, simp add: goto_def)
  have s3: "ts_phase ?s3 0 = Raised (CacheError ValueError)" "stranded 1 0 ?s3"
    by (simp_all add: store_def goto_def set_flight_def one_waits_state [OF m] new_flight_def cache_put_def stranded_def)
  have "stranded 1 0 s'" if "reaches lru_policy ?s3 s'" for s'
    using that by induction (use s3(2) stranded_step in blast)+
  then have "{s'. reaches lru_policy ?s3 s'} \<subseteq> {s'. ts_phase s' 1 = Waiting 0}" by (auto simp: stranded_def)
  then show ?thesis using c r s3(1) by blast
qed

end
