(* ===== verification/DSA_Searching.thy ===== *)
theory DSA_Searching
  imports Prelude
begin

text \<open>
  The binary searches of \<open>python-dsa/10_sorting_searching/questions.py\<close>. Integers are unbounded.
  Every index the loops use lies in the list, as the theorems' proofs show, so indexing is that of
  lists; where a list may be empty or a row too short, the access raises as in Python.
\<close>

section \<open>Searches that halve an interval\<close>

text \<open>
  The loop \<open>while lo < hi\<close> that several functions share: it keeps \<open>[lo, mid]\<close> when the test
  succeeds and \<open>[mid + 1, hi]\<close> when it fails. The test may look at the upper end as well.
\<close>

function bisect :: "(int \<Rightarrow> int \<Rightarrow> bool) \<Rightarrow> int \<Rightarrow> int \<Rightarrow> int" where
  "bisect P lo hi =
     (if lo < hi
      then (let mid = lo + (hi - lo) div 2
            in if P mid hi then bisect P lo mid else bisect P (mid + 1) hi)
      else lo)"
  by auto
termination
  by (relation "measure (\<lambda>(P, lo, hi). nat (hi - lo))") auto

declare bisect.simps [simp del]

definition find_peak_element :: "int list \<Rightarrow> int" where
  "find_peak_element nums =
     bisect (\<lambda>mid right. nums ! nat mid > nums ! nat (mid + 1)) 0 (int (length nums) - 1)"

definition find_min_rotated :: "int list \<Rightarrow> py_error + int" where
  "find_min_rotated nums =
     py_get nums (bisect (\<lambda>mid right. \<not> nums ! nat mid > nums ! nat right) 0 (int (length nums) - 1))"

definition find_duplicate :: "int list \<Rightarrow> int" where
  "find_duplicate nums =
     bisect (\<lambda>mid right. int (length (filter (\<lambda>num. num \<le> mid) nums)) > mid) 1 (int (length nums) - 1)"

definition hours_needed :: "int list \<Rightarrow> int \<Rightarrow> int" where
  "hours_needed piles k = sum_list (map (\<lambda>p. (p + k - 1) div k) piles)"

definition min_eating_speed :: "int list \<Rightarrow> int \<Rightarrow> py_error + int" where
  "min_eating_speed piles h =
     bind_sum (py_max piles) (\<lambda>hi. Inr (bisect (\<lambda>mid right. hours_needed piles mid \<le> h) 1 hi))"

section \<open>Searches that compare with the middle\<close>

function rotated_loop :: "int list \<Rightarrow> int \<Rightarrow> int \<Rightarrow> int \<Rightarrow> int" where
  "rotated_loop nums target left right =
     (if left \<le> right
      then (let mid = left + (right - left) div 2 in
            if nums ! nat mid = target then mid
            else if nums ! nat left \<le> nums ! nat mid
            then (if nums ! nat left \<le> target \<and> target < nums ! nat mid
                  then rotated_loop nums target left (mid - 1)
                  else rotated_loop nums target (mid + 1) right)
            else (if nums ! nat mid < target \<and> target \<le> nums ! nat right
                  then rotated_loop nums target (mid + 1) right
                  else rotated_loop nums target left (mid - 1)))
      else -1)"
  by auto
termination
  by (relation "measure (\<lambda>(nums, target, left, right). nat (right - left + 1))") auto

declare rotated_loop.simps [simp del]

definition search_rotated :: "int list \<Rightarrow> int \<Rightarrow> int" where
  "search_rotated nums target = rotated_loop nums target 0 (int (length nums) - 1)"

function find_left :: "int list \<Rightarrow> int \<Rightarrow> int \<Rightarrow> int \<Rightarrow> int \<Rightarrow> int" where
  "find_left nums target left right first =
     (if left \<le> right
      then (let mid = left + (right - left) div 2;
                first' = (if nums ! nat mid = target then mid else first)
            in if nums ! nat mid \<ge> target then find_left nums target left (mid - 1) first'
               else find_left nums target (mid + 1) right first')
      else first)"
  by auto
termination
  by (relation "measure (\<lambda>(nums, target, left, right, first). nat (right - left + 1))") auto

declare find_left.simps [simp del]

function find_right :: "int list \<Rightarrow> int \<Rightarrow> int \<Rightarrow> int \<Rightarrow> int \<Rightarrow> int" where
  "find_right nums target left right prev =
     (if left \<le> right
      then (let mid = left + (right - left) div 2;
                found = (if nums ! nat mid = target then mid else prev)
            in if nums ! nat mid \<le> target then find_right nums target (mid + 1) right found
               else find_right nums target left (mid - 1) found)
      else prev)"
  by auto
termination
  by (relation "measure (\<lambda>(nums, target, left, right, prev). nat (right - left + 1))") auto

declare find_right.simps [simp del]

definition search_range :: "int list \<Rightarrow> int \<Rightarrow> int list" where
  "search_range nums target =
     (let left_idx = find_left nums target 0 (int (length nums) - 1) (-1)
      in if left_idx = -1 then [-1, -1]
         else [left_idx, find_right nums target 0 (int (length nums) - 1) (-1)])"

function matrix_loop :: "int list list \<Rightarrow> int \<Rightarrow> int \<Rightarrow> int \<Rightarrow> int \<Rightarrow> py_error + bool" where
  "matrix_loop matrix target cols left right =
     (if left \<le> right
      then (let mid = left + (right - left) div 2 in
            case bind_sum (py_get matrix (mid div cols)) (\<lambda>row. py_get row (mid mod cols)) of
              Inl e \<Rightarrow> Inl e
            | Inr val \<Rightarrow>
                if val = target then Inr True
                else if val < target then matrix_loop matrix target cols (mid + 1) right
                else matrix_loop matrix target cols left (mid - 1))
      else Inr False)"
  by auto
termination
  by (relation "measure (\<lambda>(matrix, target, cols, left, right). nat (right - left + 1))") auto

declare matrix_loop.simps [simp del]

definition search_matrix :: "int list list \<Rightarrow> int \<Rightarrow> py_error + bool" where
  "search_matrix matrix target =
     (if matrix = [] then Inr False
      else (let rows = int (length matrix); cols = int (length (hd matrix))
            in matrix_loop matrix target cols 0 (rows * cols - 1)))"

subsection \<open>Values with timestamps\<close>

type_synonym time_map = "string \<Rightarrow> (int \<times> string) list option"

definition tm_new :: time_map where
  "tm_new = (\<lambda>_. None)"

definition tm_set :: "time_map \<Rightarrow> string \<Rightarrow> string \<Rightarrow> int \<Rightarrow> time_map" where
  "tm_set store key val timestamp =
     (let store1 = (if store key = None then store(key \<mapsto> []) else store)
      in store1(key := map_option (\<lambda>vals. vals @ [(timestamp, val)]) (store1 key)))"

function tm_loop :: "(int \<times> string) list \<Rightarrow> int \<Rightarrow> int \<Rightarrow> int \<Rightarrow> string \<Rightarrow> string" where
  "tm_loop vals timestamp left right result =
     (if left \<le> right
      then (let mid = left + (right - left) div 2
            in if fst (vals ! nat mid) \<le> timestamp
               then tm_loop vals timestamp (mid + 1) right (snd (vals ! nat mid))
               else tm_loop vals timestamp left (mid - 1) result)
      else result)"
  by auto
termination
  by (relation "measure (\<lambda>(vals, timestamp, left, right, result). nat (right - left + 1))") auto

declare tm_loop.simps [simp del]

definition tm_get :: "time_map \<Rightarrow> string \<Rightarrow> int \<Rightarrow> string" where
  "tm_get store key timestamp =
     (case store key of
        None \<Rightarrow> ''''
      | Some vals \<Rightarrow> tm_loop vals timestamp 0 (int (length vals) - 1) '''')"

section \<open>The shared loop\<close>

text \<open>
  What a client of the shared loop provides: a property of the interval that both halves keep.
  It then holds of the one-element interval at the end.
\<close>

locale bisection =
  fixes P :: "int \<Rightarrow> int \<Rightarrow> bool"
    and keeps :: "int \<Rightarrow> int \<Rightarrow> bool"
  assumes keeps_low: "keeps lo hi \<Longrightarrow> lo \<le> mid \<Longrightarrow> mid < hi \<Longrightarrow> P mid hi \<Longrightarrow> keeps lo mid"
    and keeps_high: "keeps lo hi \<Longrightarrow> lo \<le> mid \<Longrightarrow> mid < hi \<Longrightarrow> \<not> P mid hi \<Longrightarrow> keeps (mid + 1) hi"
begin

lemma bisect_keeps: "keeps lo hi \<Longrightarrow> lo \<le> hi \<Longrightarrow>
    keeps (bisect P lo hi) (bisect P lo hi) \<and> lo \<le> bisect P lo hi \<and> bisect P lo hi \<le> hi"
proof (induction "nat (hi - lo)" arbitrary: lo hi rule: less_induct)
  case less
  show ?case
  proof (cases "lo < hi")
    case True
    let ?mid = "lo + (hi - lo) div 2"
    have mid: "lo \<le> ?mid" "?mid < hi" using True by auto
    show ?thesis
    proof (cases "P ?mid hi")
      case P: True
      have "keeps lo ?mid" by (rule keeps_low [OF less.prems(1) mid P])
      from less.hyps [OF _ this mid(1)] show ?thesis
        using True P mid bisect.simps [of P lo hi] by (simp add: Let_def)
    next
      case P: False
      have "keeps (?mid + 1) hi" by (rule keeps_high [OF less.prems(1) mid P])
      from less.hyps [OF _ this] show ?thesis
        using True P mid bisect.simps [of P lo hi] by (simp add: Let_def) linarith
    qed
  next
    case False
    then show ?thesis using less.prems bisect.simps [of P lo hi] by simp
  qed
qed

end

section \<open>Peak\<close>

definition val_at :: "int list \<Rightarrow> int \<Rightarrow> int" where
  "val_at nums i = nums ! nat i"

interpretation peak: bisection "\<lambda>mid right. nums ! nat mid > nums ! nat (mid + 1)"
  "\<lambda>lo hi. (lo = 0 \<or> val_at nums (lo - 1) < val_at nums lo) \<and> (hi = int (length nums) - 1 \<or> val_at nums (hi + 1) < val_at nums hi)
     \<and> 0 \<le> lo \<and> hi < int (length nums) \<and> (\<forall>i. 0 \<le> i \<longrightarrow> i < int (length nums) - 1 \<longrightarrow> val_at nums i \<noteq> val_at nums (i + 1))"
  for nums
  by unfold_locales (auto simp: val_at_def not_less order.order_iff_strict)

interpretation smallest: bisection "\<lambda>mid right. \<not> nums ! nat mid > nums ! nat right"
  "\<lambda>lo hi. nums = ys @ xs \<and> sorted_wrt (<) (xs @ ys) \<and> 0 \<le> lo \<and> lo \<le> int (length ys)
     \<and> int (length ys) \<le> hi \<and> hi < int (length nums)"
  for nums xs ys :: "int list"
proof unfold_locales
  fix lo hi mid
  assume k: "nums = ys @ xs \<and> sorted_wrt (<) (xs @ ys) \<and> 0 \<le> lo \<and> lo \<le> int (length ys)
      \<and> int (length ys) \<le> hi \<and> hi < int (length nums)"
    and mid: "lo \<le> mid" "mid < hi"
  have hi: "nums ! nat hi = xs ! nat (hi - int (length ys))" "nat (hi - int (length ys)) < length xs"
    using k by (auto simp: nth_append nat_diff_distrib)
  show "nums = ys @ xs \<and> sorted_wrt (<) (xs @ ys) \<and> 0 \<le> lo \<and> lo \<le> int (length ys)
      \<and> int (length ys) \<le> mid \<and> mid < int (length nums)" if "\<not> nums ! nat mid > nums ! nat hi"
  proof -
    have False if "mid < int (length ys)"
    proof -
      have "nums ! nat mid = ys ! nat mid" "nat mid < length ys" using that k mid by (auto simp: nth_append)
      then have "nums ! nat hi < nums ! nat mid"
        using k hi by (auto simp: sorted_wrt_append)
      then show False using \<open>\<not> nums ! nat mid > nums ! nat hi\<close> by simp
    qed
    then show ?thesis using k mid by force
  qed
  show "nums = ys @ xs \<and> sorted_wrt (<) (xs @ ys) \<and> 0 \<le> mid + 1 \<and> mid + 1 \<le> int (length ys)
      \<and> int (length ys) \<le> hi \<and> hi < int (length nums)" if "\<not> \<not> nums ! nat mid > nums ! nat hi"
  proof -
    have False if "int (length ys) \<le> mid"
    proof -
      have m: "nums ! nat mid = xs ! nat (mid - int (length ys))" "nat (mid - int (length ys)) < nat (hi - int (length ys))"
        using that k mid by (auto simp: nth_append nat_diff_distrib)
      have "sorted_wrt (<) xs" using k by (simp add: sorted_wrt_append)
      then have "nums ! nat mid < nums ! nat hi"
        using m hi by (simp add: sorted_wrt_iff_nth_less)
      then show False using \<open>\<not> \<not> nums ! nat mid > nums ! nat hi\<close> by auto
    qed
    then show ?thesis using k mid by force
  qed
qed

lemma length_filter_nat: "int (length (filter (\<lambda>num. num \<le> (k::int)) nums)) =
    int (length (filter (\<lambda>num. num \<le> k - 1) nums)) + int (count_list nums k)"
proof (induction nums)
  case (Cons a nums)
  then show ?case by (cases "a \<le> k"; cases "a = k") auto
qed simp

interpretation twice: bisection "\<lambda>mid right. int (length (filter (\<lambda>num. num \<le> mid) nums)) > mid"
  "\<lambda>lo hi. int (length (filter (\<lambda>num. num \<le> lo - 1) nums)) \<le> lo - 1 \<and> int (length (filter (\<lambda>num. num \<le> hi) nums)) > hi"
  for nums
  by unfold_locales auto

lemma hours_antitone:
  assumes "\<forall>p \<in> set piles. 0 \<le> p" "1 \<le> j" "j \<le> k"
  shows "hours_needed piles k \<le> hours_needed piles j"
  unfolding hours_needed_def
proof (rule sum_list_mono)
  fix p
  assume "p \<in> set piles"
  then have p: "0 \<le> p" using assms(1) by simp
  have "(p + k - 1) div k = (p - 1) div k + 1" "(p + j - 1) div j = (p - 1) div j + 1"
    using assms(2,3) div_add_self2 [of k "p - 1"] div_add_self2 [of j "p - 1"] by (simp_all add: algebra_simps)
  moreover have "(p - 1) div k \<le> (p - 1) div j"
  proof (cases "p = 0")
    case True
    then show ?thesis using assms(2,3) by (simp add: div_eq_minus1)
  next
    case False
    then show ?thesis using p assms(2,3) by (intro zdiv_mono2) auto
  qed
  ultimately show "(p + k - 1) div k \<le> (p + j - 1) div j" by simp
qed

interpretation eating: bisection "\<lambda>mid right. hours_needed piles mid \<le> h"
  "\<lambda>lo hi. hours_needed piles hi \<le> h \<and> 1 \<le> lo \<and> (\<forall>p \<in> set piles. 0 \<le> p)
     \<and> (\<forall>j. 1 \<le> j \<longrightarrow> j < lo \<longrightarrow> h < hours_needed piles j)"
  for piles h
proof unfold_locales
  fix lo hi mid
  assume k: "hours_needed piles hi \<le> h \<and> 1 \<le> lo \<and> (\<forall>p \<in> set piles. 0 \<le> p)
      \<and> (\<forall>j. 1 \<le> j \<longrightarrow> j < lo \<longrightarrow> h < hours_needed piles j)"
    and mid: "lo \<le> mid" "mid < hi" "\<not> hours_needed piles mid \<le> h"
  have "h < hours_needed piles j" if "1 \<le> j" "j < mid + 1" for j
    using hours_antitone [of piles j mid] that k mid(3) by force
  then show "hours_needed piles hi \<le> h \<and> 1 \<le> mid + 1 \<and> (\<forall>p \<in> set piles. 0 \<le> p)
      \<and> (\<forall>j. 1 \<le> j \<longrightarrow> j < mid + 1 \<longrightarrow> h < hours_needed piles j)"
    using k mid by auto
qed auto

lemma hours_at_max:
  assumes "piles \<noteq> []" "\<forall>p \<in> set piles. 1 \<le> p"
  shows "hours_needed piles (Max (set piles)) = int (length piles)"
proof -
  let ?m = "Max (set piles)"
  have "(p + ?m - 1) div ?m = 1" if "p \<in> set piles" for p
  proof -
    have "1 \<le> p" "p \<le> ?m" using that assms by auto
    then have "(p - 1) div ?m = 0" by (intro div_pos_pos_trivial) auto
    then show ?thesis using div_add_self2 [of ?m "p - 1"] \<open>1 \<le> p\<close> \<open>p \<le> ?m\<close> by (simp add: algebra_simps)
  qed
  then have "hours_needed piles ?m = sum_list (map (\<lambda>_. 1) piles)"
    unfolding hours_needed_def by (intro arg_cong [of _ _ sum_list] map_cong) simp_all
  then show ?thesis by (simp add: sum_list_triv)
qed

section \<open>Rotated list\<close>

text \<open>\<open>xs @ ys\<close> is the ascending list, rotated by putting \<open>ys\<close> first.\<close>

definition rotation :: "int list \<Rightarrow> int list \<Rightarrow> int list \<Rightarrow> bool" where
  "rotation nums ys xs \<longleftrightarrow> nums = ys @ xs \<and> sorted_wrt (<) (xs @ ys)"

lemma rotation_order:
  assumes "rotation nums ys xs" "0 \<le> a" "a < b" "b < int (length nums)"
  defines "p \<equiv> int (length ys)"
  shows "(b < p \<or> p \<le> a) \<and> val_at nums a < val_at nums b \<or> (a < p \<and> p \<le> b) \<and> val_at nums b < val_at nums a"
proof -
  have n: "nums = ys @ xs" "sorted_wrt (<) xs" "sorted_wrt (<) ys" "\<And>x y. x \<in> set xs \<Longrightarrow> y \<in> set ys \<Longrightarrow> x < y"
    using assms(1) by (auto simp: rotation_def sorted_wrt_append)
  have ix: "val_at nums i = (if i < p then ys ! nat i else xs ! nat (i - p))" if "0 \<le> i" for i
    using that n(1) by (auto simp: val_at_def p_def nth_append nat_diff_distrib)
  consider "b < p" | "p \<le> a" | "a < p" "p \<le> b" using assms(3) by linarith
  then show ?thesis
  proof cases
    case 1
    then have "ys ! nat a < ys ! nat b"
      using n(3) assms(2,3) by (auto simp: sorted_wrt_iff_nth_less p_def)
    then show ?thesis using 1 ix [of a] ix [of b] assms(2,3) by simp
  next
    case 2
    then have "xs ! nat (a - p) < xs ! nat (b - p)"
      using n(1,2) assms(3,4) by (auto simp: sorted_wrt_iff_nth_less p_def)
    then show ?thesis using 2 ix [of a] ix [of b] assms(2,3) by simp
  next
    case 3
    have "xs ! nat (b - p) \<in> set xs" "ys ! nat a \<in> set ys" using 3 n(1) assms(2,4) by (auto simp: p_def)
    then show ?thesis using n(4) 3 ix [of a] ix [of b] assms(2,3) by simp
  qed
qed

lemma rotation_left:
  assumes "rotation nums ys xs" "0 \<le> l" "l \<le> i" "i < m" "m \<le> r" "r < int (length nums)"
  shows "if val_at nums l \<le> val_at nums m then val_at nums l \<le> val_at nums i \<and> val_at nums i < val_at nums m
    else val_at nums i < val_at nums m \<or> val_at nums r < val_at nums i"
proof -
  note ord = rotation_order [OF assms(1)]
  have lm: "l < m" using assms by linarith
  have li: "l = i \<or> (i < int (length ys) \<or> int (length ys) \<le> l) \<and> val_at nums l < val_at nums i
      \<or> (l < int (length ys) \<and> int (length ys) \<le> i) \<and> val_at nums i < val_at nums l"
    using ord [of l i] assms by (cases "l = i") auto
  show ?thesis using ord [of l m] ord [of i m] ord [of i r] li lm assms(2-6) by auto
qed

lemma rotation_right:
  assumes "rotation nums ys xs" "0 \<le> l" "l \<le> m" "m < i" "i \<le> r" "r < int (length nums)"
  shows "if val_at nums l \<le> val_at nums m then val_at nums m < val_at nums i \<or> val_at nums i < val_at nums l
    else val_at nums m < val_at nums i \<and> val_at nums i \<le> val_at nums r"
proof -
  note ord = rotation_order [OF assms(1)]
  have lm: "l = m \<or> (m < int (length ys) \<or> int (length ys) \<le> l) \<and> val_at nums l < val_at nums m
      \<or> (l < int (length ys) \<and> int (length ys) \<le> m) \<and> val_at nums m < val_at nums l"
    using ord [of l m] assms by (cases "l = m") auto
  have ir: "i = r \<or> (r < int (length ys) \<or> int (length ys) \<le> i) \<and> val_at nums i < val_at nums r
      \<or> (i < int (length ys) \<and> int (length ys) \<le> r) \<and> val_at nums r < val_at nums i"
    using ord [of i r] assms by (cases "i = r") auto
  show ?thesis using ord [of m i] ord [of l i] lm ir assms(2-6) by auto
qed

lemma rotated_loop_step:
  "rotated_loop nums target left right =
     (if left \<le> right
      then (let mid = left + (right - left) div 2 in
            if val_at nums mid = target then mid
            else if val_at nums left \<le> val_at nums mid
            then (if val_at nums left \<le> target \<and> target < val_at nums mid
                  then rotated_loop nums target left (mid - 1)
                  else rotated_loop nums target (mid + 1) right)
            else (if val_at nums mid < target \<and> target \<le> val_at nums right
                  then rotated_loop nums target (mid + 1) right
                  else rotated_loop nums target left (mid - 1)))
      else -1)"
  by (subst rotated_loop.simps) (simp only: val_at_def)

lemma rotated_loop_hit:
  assumes "rotation nums ys xs" "val_at nums i = target"
  shows "0 \<le> left \<Longrightarrow> right < int (length nums) \<Longrightarrow> left \<le> i \<Longrightarrow> i \<le> right \<Longrightarrow> rotated_loop nums target left right = i"
proof (induction "nat (right - left + 1)" arbitrary: left right rule: less_induct)
  case less
  define m where "m = left + (right - left) div 2"
  have mid: "left \<le> m" "m \<le> right" using less.prems by (auto simp: m_def)
  have lo: "rotated_loop nums target left (m - 1) = i" if "i < m"
    using less.hyps [of "m - 1" left] less.prems that mid by simp
  have hi: "rotated_loop nums target (m + 1) right = i" if "m < i"
    using less.hyps [of right "m + 1"] less.prems that mid by simp
  note step = rotated_loop_step [of nums target left right, folded m_def, unfolded Let_def]
  consider "m = i" | "i < m" | "m < i" by linarith
  then show ?case
  proof cases
    case 1
    then show ?thesis using assms(2) less.prems step by simp
  next
    case 2
    from rotation_left [OF assms(1), of left i m right] less.prems 2 mid
    moreover have "val_at nums m \<noteq> target" using rotation_order [OF assms(1), of i m] less.prems 2 mid assms(2) by auto
    ultimately show ?thesis using lo [OF 2] step assms(2) by (auto split: if_splits)
  next
    case 3
    from rotation_right [OF assms(1), of left m i right] less.prems 3 mid
    moreover have "val_at nums m \<noteq> target" using rotation_order [OF assms(1), of m i] less.prems 3 mid assms(2) by auto
    ultimately show ?thesis using hi [OF 3] step assms(2) by (auto split: if_splits)
  qed
qed

lemma rotated_loop_miss:
  assumes "target \<notin> set nums"
  shows "0 \<le> left \<Longrightarrow> right < int (length nums) \<Longrightarrow> rotated_loop nums target left right = -1"
proof (induction "nat (right - left + 1)" arbitrary: left right rule: less_induct)
  case less
  define m where "m = left + (right - left) div 2"
  note step = rotated_loop_step [of nums target left right, folded m_def, unfolded Let_def]
  show ?case
  proof (cases "left \<le> right")
    case True
    then have mid: "left \<le> m" "m \<le> right" by (auto simp: m_def)
    have "val_at nums m \<in> set nums" using mid less.prems by (simp add: val_at_def)
    then have ne: "val_at nums m \<noteq> target" using assms by auto
    have "rotated_loop nums target left (m - 1) = -1" "rotated_loop nums target (m + 1) right = -1"
      using less.hyps [of "m - 1" left] less.hyps [of right "m + 1"] less.prems mid by simp_all
    then show ?thesis using step ne True by simp
  qed (use step in simp)
qed

section \<open>Searches with a result so far\<close>

text \<open>Induction over the interval of a search that leaves out its middle.\<close>

lemma halving_induct:
  fixes Q :: "int \<Rightarrow> int \<Rightarrow> bool"
  assumes "\<And>l r. r < l \<Longrightarrow> Q l r"
    and "\<And>l r m. l \<le> m \<Longrightarrow> m \<le> r \<Longrightarrow> m = l + (r - l) div 2 \<Longrightarrow> Q l (m - 1) \<Longrightarrow> Q (m + 1) r \<Longrightarrow> Q l r"
  shows "Q l r"
proof (induction "nat (r - l + 1)" arbitrary: l r rule: less_induct)
  case less
  show ?case
  proof (cases "l \<le> r")
    case True
    define m where "m = l + (r - l) div 2"
    have m: "l \<le> m" "m \<le> r" using True by (auto simp: m_def)
    have "Q l (m - 1)" "Q (m + 1) r" using less.hyps [of "m - 1" l] less.hyps [of r "m + 1"] m by simp_all
    then show ?thesis using assms(2) m m_def by blast
  qed (use assms(1) in simp)
qed

lemma sorted_val_at: "sorted nums \<Longrightarrow> 0 \<le> a \<Longrightarrow> a \<le> b \<Longrightarrow> b < int (length nums) \<Longrightarrow> val_at nums a \<le> val_at nums b"
  by (simp add: val_at_def sorted_nth_mono)

lemma in_set_val_at: "x \<in> set nums \<longleftrightarrow> (\<exists>i. 0 \<le> i \<and> i < int (length nums) \<and> val_at nums i = x)"
proof
  assume "x \<in> set nums"
  then obtain j where "j < length nums" "nums ! j = x" by (auto simp: in_set_conv_nth)
  then show "\<exists>i. 0 \<le> i \<and> i < int (length nums) \<and> val_at nums i = x" by (intro exI [of _ "int j"]) (simp add: val_at_def)
qed (auto simp: val_at_def)

text \<open>The position of the first and of the last occurrence in an ascending list, or \<open>-1\<close>.\<close>

definition first_at :: "int list \<Rightarrow> int \<Rightarrow> int \<Rightarrow> bool" where
  "first_at nums target res \<longleftrightarrow> (\<exists>q. 0 \<le> q \<and> q \<le> int (length nums)
     \<and> (\<forall>j. 0 \<le> j \<and> j < q \<longrightarrow> val_at nums j < target)
     \<and> (\<forall>j. q \<le> j \<and> j < int (length nums) \<longrightarrow> target \<le> val_at nums j)
     \<and> res = (if q < int (length nums) \<and> val_at nums q = target then q else -1))"

definition last_at :: "int list \<Rightarrow> int \<Rightarrow> int \<Rightarrow> bool" where
  "last_at nums target res \<longleftrightarrow> (\<exists>q. 0 \<le> q \<and> q \<le> int (length nums)
     \<and> (\<forall>j. 0 \<le> j \<and> j < q \<longrightarrow> val_at nums j \<le> target)
     \<and> (\<forall>j. q \<le> j \<and> j < int (length nums) \<longrightarrow> target < val_at nums j)
     \<and> res = (if 0 < q \<and> val_at nums (q - 1) = target then q - 1 else -1))"

lemma find_left_loop:
  assumes "sorted nums" "0 \<le> l" "l \<le> r + 1" "r < int (length nums)"
    "\<And>j. 0 \<le> j \<Longrightarrow> j < l \<Longrightarrow> val_at nums j < target"
    "\<And>j. r < j \<Longrightarrow> j < int (length nums) \<Longrightarrow> target \<le> val_at nums j"
    "first = (if r + 1 < int (length nums) \<and> val_at nums (r + 1) = target then r + 1 else -1)"
  shows "first_at nums target (find_left nums target l r first)"
  using assms(2-)
proof (induction l r arbitrary: first rule: halving_induct)
  case base: (1 l r)
  then have "l = r + 1" by simp
  then show ?case unfolding first_at_def
    using base find_left.simps [of nums target l r first] by (intro exI [of _ "r + 1"]) auto
next
  case step: (2 l r m)
  have m: "0 \<le> m" "m < int (length nums)" using step(1,2) step.prems by auto
  show ?case
  proof (cases "target \<le> val_at nums m")
    case True
    let ?first = "if val_at nums m = target then m else -1"
    have "first = -1" if "target < val_at nums m"
      using that step(2) step.prems m sorted_val_at [OF assms(1), of m "r + 1"] by (auto split: if_splits)
    then have "find_left nums target l r first = find_left nums target l (m - 1) ?first"
      using True step(1-3) find_left.simps [of nums target l r first] by (auto simp: Let_def val_at_def)
    moreover have "first_at nums target (find_left nums target l (m - 1) ?first)"
    proof (rule step(4))
      show "target \<le> val_at nums j" if "m - 1 < j" "j < int (length nums)" for j
        using that True sorted_val_at [OF assms(1), of m j] m by auto
    qed (use step.prems m step(1) in auto)
    ultimately show ?thesis by simp
  next
    case False
    have "find_left nums target l r first = find_left nums target (m + 1) r first"
      using False step(1-3) find_left.simps [of nums target l r first] by (auto simp: Let_def val_at_def)
    moreover have "first_at nums target (find_left nums target (m + 1) r first)"
    proof (rule step(5))
      show "val_at nums j < target" if "0 \<le> j" "j < m + 1" for j
        using that False sorted_val_at [OF assms(1), of j m] m by auto
    qed (use step.prems m step(2) in auto)
    ultimately show ?thesis by simp
  qed
qed

lemma find_right_loop:
  assumes "sorted nums" "0 \<le> l" "l \<le> r + 1" "r < int (length nums)"
    "\<And>j. 0 \<le> j \<Longrightarrow> j < l \<Longrightarrow> val_at nums j \<le> target"
    "\<And>j. r < j \<Longrightarrow> j < int (length nums) \<Longrightarrow> target < val_at nums j"
    "prev = (if 0 < l \<and> val_at nums (l - 1) = target then l - 1 else -1)"
  shows "last_at nums target (find_right nums target l r prev)"
  using assms(2-)
proof (induction l r arbitrary: prev rule: halving_induct)
  case base: (1 l r)
  then have "l = r + 1" by simp
  then show ?case unfolding last_at_def
    using base find_right.simps [of nums target l r prev] by (intro exI [of _ l]) auto
next
  case step: (2 l r m)
  have m: "0 \<le> m" "m < int (length nums)" using step(1,2) step.prems by auto
  show ?case
  proof (cases "val_at nums m \<le> target")
    case True
    let ?prev = "if val_at nums m = target then m else -1"
    have "prev = -1" if "val_at nums m < target"
      using that step(1) step.prems m sorted_val_at [OF assms(1), of "l - 1" m] by (auto split: if_splits)
    then have "find_right nums target l r prev = find_right nums target (m + 1) r ?prev"
      using True step(1-3) find_right.simps [of nums target l r prev] by (auto simp: Let_def val_at_def)
    moreover have "last_at nums target (find_right nums target (m + 1) r ?prev)"
    proof (rule step(5))
      show "val_at nums j \<le> target" if "0 \<le> j" "j < m + 1" for j
        using that True sorted_val_at [OF assms(1), of j m] m by auto
    qed (use step.prems m step(2) in auto)
    ultimately show ?thesis by simp
  next
    case False
    have "find_right nums target l r prev = find_right nums target l (m - 1) prev"
      using False step(1-3) find_right.simps [of nums target l r prev] by (auto simp: Let_def val_at_def)
    moreover have "last_at nums target (find_right nums target l (m - 1) prev)"
    proof (rule step(4))
      show "target < val_at nums j" if "m - 1 < j" "j < int (length nums)" for j
        using that False sorted_val_at [OF assms(1), of m j] m by auto
    qed (use step.prems m step(1) in auto)
    ultimately show ?thesis by simp
  qed
qed

section \<open>Matrix and timestamps\<close>

lemma concat_rows:
  assumes "\<forall>row \<in> set matrix. length row = c" "0 < c" "i < length matrix * c"
  shows "concat matrix ! i = matrix ! (i div c) ! (i mod c) \<and> i div c < length matrix \<and> length (matrix ! (i div c)) = c"
  using assms
proof (induction matrix arbitrary: i)
  case (Cons row matrix)
  show ?case
  proof (cases "i < c")
    case True
    then show ?thesis using Cons.prems by (simp add: nth_append)
  next
    case False
    then have "i - c < length matrix * c" using Cons.prems by simp
    note ih = Cons.IH [OF _ Cons.prems(2) this]
    have "i div c = Suc ((i - c) div c)" "i mod c = (i - c) mod c"
      using False Cons.prems(2) by (simp_all add: le_div_geq le_mod_geq)
    then show ?thesis using ih Cons.prems False by (simp add: nth_append)
  qed
qed simp

lemma length_concat_rows: "\<forall>row \<in> set matrix. length row = c \<Longrightarrow> length (concat matrix) = length matrix * c"
  by (induction matrix) auto

lemma matrix_loop_eq:
  assumes rows: "\<forall>row \<in> set matrix. length row = c" "0 < c" and srt: "sorted (concat matrix)"
  shows "0 \<le> l \<Longrightarrow> r < int (length (concat matrix)) \<Longrightarrow>
    (\<And>j. 0 \<le> j \<Longrightarrow> j < l \<Longrightarrow> val_at (concat matrix) j < target) \<Longrightarrow>
    (\<And>j. r < j \<Longrightarrow> j < int (length (concat matrix)) \<Longrightarrow> target < val_at (concat matrix) j) \<Longrightarrow>
    matrix_loop matrix target (int c) l r = Inr (target \<in> set (concat matrix))"
proof (induction l r rule: halving_induct)
  case (1 l r)
  have "target \<notin> set (concat matrix)"
  proof
    assume "target \<in> set (concat matrix)"
    then obtain i where "0 \<le> i" "i < int (length (concat matrix))" "val_at (concat matrix) i = target"
      using in_set_val_at by blast
    then show False using 1(1,4) 1(5) [of i] by (cases "i < l") auto
  qed
  then show ?case using 1 matrix_loop.simps [of matrix target "int c" l r] by simp
next
  case (2 l r m)
  let ?v = "val_at (concat matrix) m"
  have m: "0 \<le> m" "m < int (length (concat matrix))" using 2(1,2) "2.prems" by auto
  then have "nat m < length matrix * c" using length_concat_rows [OF rows(1)] by linarith
  note cr = concat_rows [OF rows this]
  have "m div int c = int (nat m div c)" "m mod int c = int (nat m mod c)"
    using m(1) by (simp_all add: zdiv_int zmod_int)
  then have get: "bind_sum (py_get matrix (m div int c)) (\<lambda>row. py_get row (m mod int c)) = Inr ?v"
    using cr rows(2) by (simp add: val_at_def)
  have step: "matrix_loop matrix target (int c) l r =
      (if ?v = target then Inr True
       else if ?v < target then matrix_loop matrix target (int c) (m + 1) r
       else matrix_loop matrix target (int c) l (m - 1))"
    using 2(1,2,3) get matrix_loop.simps [of matrix target "int c" l r] by (simp add: Let_def)
  consider "?v = target" | "?v < target" | "target < ?v" by linarith
  then show ?case
  proof cases
    case 1
    then have "target \<in> set (concat matrix)" using in_set_val_at m by blast
    then show ?thesis using step 1 by simp
  next
    case lt: 2
    have "val_at (concat matrix) j < target" if "0 \<le> j" "j < m + 1" for j
      using that sorted_val_at [OF srt, of j m] m lt by auto
    then show ?thesis using 2(5) "2.prems" m step lt by simp
  next
    case gt: 3
    have "target < val_at (concat matrix) j" if "m - 1 < j" "j < int (length (concat matrix))" for j
      using that sorted_val_at [OF srt, of m j] m gt by auto
    then show ?thesis using 2(4) "2.prems" m step gt by simp
  qed
qed

definition ts_at :: "(int \<times> string) list \<Rightarrow> int \<Rightarrow> int" where
  "ts_at vals i = fst (vals ! nat i)"

lemma tm_loop_eq:
  assumes srt: "sorted (map fst vals)"
  shows "0 \<le> l \<Longrightarrow> l \<le> r + 1 \<Longrightarrow> r < int (length vals) \<Longrightarrow>
    (\<And>j. 0 \<le> j \<Longrightarrow> j < l \<Longrightarrow> ts_at vals j \<le> t) \<Longrightarrow>
    (\<And>j. r < j \<Longrightarrow> j < int (length vals) \<Longrightarrow> t < ts_at vals j) \<Longrightarrow>
    \<exists>q. filter (\<lambda>x. fst x \<le> t) vals = take q vals \<and> q \<le> length vals
      \<and> tm_loop vals t l r (if l = 0 then d else snd (vals ! nat (l - 1)))
        = (if q = 0 then d else snd (vals ! (q - 1)))"
proof (induction l r rule: halving_induct)
  case (1 l r)
  have "l = r + 1" using 1 by simp
  have "filter (\<lambda>x. fst x \<le> t) vals = take (nat l) vals"
  proof -
    have "filter (\<lambda>x. fst x \<le> t) (take (nat l) vals) = take (nat l) vals"
    proof (rule filter_True, rule ballI)
      fix x
      assume "x \<in> set (take (nat l) vals)"
      then obtain j where "j < nat l" "j < length vals" "x = vals ! j" by (auto simp: in_set_conv_nth)
      then show "fst x \<le> t" using 1(5) [of "int j"] by (simp add: ts_at_def)
    qed
    moreover have "filter (\<lambda>x. fst x \<le> t) (drop (nat l) vals) = []"
    proof -
      have "t < fst x" if x: "x \<in> set (drop (nat l) vals)" for x
      proof -
        obtain j where j: "j < length vals - nat l" "x = vals ! (nat l + j)" using x by (auto simp: in_set_conv_nth)
        define k where "k = nat l + j"
        have "k < length vals" "x = vals ! k" "r < int k" using j 1(2) \<open>l = r + 1\<close> by (auto simp: k_def)
        then show ?thesis using 1(6) [of "int k"] by (simp add: ts_at_def)
      qed
      then show ?thesis by (auto simp: filter_empty_conv not_le)
    qed
    ultimately show ?thesis
      using append_take_drop_id [of "nat l" vals] filter_append [of "\<lambda>x. fst x \<le> t" "take (nat l) vals" "drop (nat l) vals"]
      by simp
  qed
  moreover have "tm_loop vals t l r a = a" for a using 1(1) tm_loop.simps [of vals t l r a] by simp
  moreover have "nat r = nat (r + 1) - Suc 0" by simp
  ultimately show ?case
    using 1(2,4) \<open>l = r + 1\<close> by (intro exI [of _ "nat l"]) auto
next
  case (2 l r m)
  have m: "0 \<le> m" "m < int (length vals)" using 2(1,2) "2.prems" by auto
  have mono: "ts_at vals a \<le> ts_at vals b" if "0 \<le> a" "a \<le> b" "b < int (length vals)" for a b
    using that srt sorted_nth_mono [of "map fst vals" "nat a" "nat b"] by (simp add: ts_at_def)
  let ?d = "if l = 0 then d else snd (vals ! nat (l - 1))"
  show ?case
  proof (cases "ts_at vals m \<le> t")
    case True
    then have "tm_loop vals t l r ?d = tm_loop vals t (m + 1) r (snd (vals ! nat m))"
      using 2(1,2,3) tm_loop.simps [of vals t l r ?d] by (simp add: Let_def ts_at_def)
    moreover have "ts_at vals j \<le> t" if "0 \<le> j" "j < m + 1" for j using that mono [of j m] True m by auto
    ultimately show ?thesis using 2(5) 2(1,2) "2.prems" m by simp
  next
    case False
    then have "tm_loop vals t l r ?d = tm_loop vals t l (m - 1) ?d"
      using 2(1,2,3) tm_loop.simps [of vals t l r ?d] by (simp add: Let_def ts_at_def)
    moreover have "t < ts_at vals j" if "m - 1 < j" "j < int (length vals)" for j
      using that mono [of m j] False m by auto
    ultimately show ?thesis using 2(4) 2(1,2) "2.prems" m by simp
  qed
qed

section \<open>Properties\<close>

text \<open>\<open>search_rotated\<close> finds the position of a value in a rotated ascending list of distinct values, and
  returns \<open>-1\<close> exactly when the value is not in the list.\<close>

theorem search_rotated_correct:
  assumes "rotation nums ys xs"
  shows "if target \<in> set nums
    then 0 \<le> search_rotated nums target \<and> search_rotated nums target < int (length nums)
      \<and> nums ! nat (search_rotated nums target) = target
    else search_rotated nums target = -1"
proof (cases "target \<in> set nums")
  case True
  then obtain i where i: "0 \<le> i" "i < int (length nums)" "val_at nums i = target" using in_set_val_at by blast
  then have "search_rotated nums target = i"
    unfolding search_rotated_def by (intro rotated_loop_hit [OF assms]) auto
  then show ?thesis using True i by (simp add: val_at_def)
next
  case False
  then show ?thesis by (simp add: search_rotated_def rotated_loop_miss)
qed

theorem search_rotated_correct_witness:
  "rotation [4, 5, 6, 7, 0, 1, 2] [4, 5, 6, 7] [0, 1, 2]
   \<and> [4, 5, 6, 7, 0, 1, 2 :: int] ! nat (search_rotated [4, 5, 6, 7, 0, 1, 2] 0) = 0"
proof -
  have r: "rotation [4, 5, 6, 7, 0, 1, 2] [4, 5, 6, 7] [0, 1, 2]" by (simp add: rotation_def)
  show ?thesis using r search_rotated_correct [OF r, of 0] by simp
qed

text \<open>\<open>search_range\<close> returns the first and the last position of the target in an ascending list, and
  \<open>[-1, -1]\<close> exactly when it does not occur.\<close>

theorem search_range_correct:
  assumes "sorted nums"
  shows "if target \<in> set nums
    then \<exists>a b. search_range nums target = [a, b] \<and> 0 \<le> a \<and> a \<le> b \<and> b < int (length nums)
      \<and> (\<forall>i. 0 \<le> i \<longrightarrow> i < int (length nums) \<longrightarrow> nums ! nat i = target \<longleftrightarrow> a \<le> i \<and> i \<le> b)
    else search_range nums target = [-1, -1]"
proof -
  let ?n = "int (length nums)"
  let ?a = "find_left nums target 0 (?n - 1) (-1)" and ?b = "find_right nums target 0 (?n - 1) (-1)"
  have "first_at nums target ?a" by (rule find_left_loop [OF assms]) auto
  then obtain q where q: "0 \<le> q" "q \<le> ?n" "\<And>j. 0 \<le> j \<Longrightarrow> j < q \<Longrightarrow> val_at nums j < target"
    "\<And>j. q \<le> j \<Longrightarrow> j < ?n \<Longrightarrow> target \<le> val_at nums j"
    "?a = (if q < ?n \<and> val_at nums q = target then q else -1)"
    unfolding first_at_def by blast
  have "last_at nums target ?b" by (rule find_right_loop [OF assms]) auto
  then obtain p where p: "0 \<le> p" "p \<le> ?n" "\<And>j. 0 \<le> j \<Longrightarrow> j < p \<Longrightarrow> val_at nums j \<le> target"
    "\<And>j. p \<le> j \<Longrightarrow> j < ?n \<Longrightarrow> target < val_at nums j"
    "?b = (if 0 < p \<and> val_at nums (p - 1) = target then p - 1 else -1)"
    unfolding last_at_def by blast
  show ?thesis
  proof (cases "target \<in> set nums")
    case True
    then obtain i where i: "0 \<le> i" "i < ?n" "val_at nums i = target" using in_set_val_at by blast
    have qi: "q \<le> i" and ip: "i < p" using q(3) [of i] p(4) [of i] i by force+
    have "val_at nums q \<le> val_at nums i" "val_at nums i \<le> val_at nums (p - 1)"
      using sorted_val_at [OF assms] q(1) qi ip i p(2) by auto
    then have "val_at nums q = target" "val_at nums (p - 1) = target"
      using q(4) [of q] p(3) [of "p - 1"] qi ip i by auto
    then have ab: "?a = q" "?b = p - 1" "q \<noteq> -1" using q(1,5) p(5) qi ip i by auto
    have "nums ! nat j = target \<longleftrightarrow> q \<le> j \<and> j \<le> p - 1" if "0 \<le> j" "j < ?n" for j
      using q(3,4) [of j] p(3,4) [of j] that unfolding val_at_def [symmetric] by force
    then show ?thesis using True ab q(1) qi ip p(2) by (simp add: search_range_def Let_def)
  next
    case False
    then have "?a = -1" using q in_set_val_at [of target nums] by auto
    then show ?thesis using False by (simp add: search_range_def Let_def)
  qed
qed

theorem search_range_correct_witness:
  "sorted [5, 7, 7, 8, 8, 10 :: int] \<and> (\<exists>a b. search_range [5, 7, 7, 8, 8, 10] 8 = [a, b] \<and> a \<le> b)"
  using search_range_correct [of "[5, 7, 7, 8, 8, 10]" 8] by auto

definition tm_sets :: "(string \<times> string \<times> int) list \<Rightarrow> time_map" where
  "tm_sets calls = foldl (\<lambda>store (key, val, timestamp). tm_set store key val timestamp) tm_new calls"

lemma tm_set_stored:
  "tm_set store k v s = store(k \<mapsto> (case store k of None \<Rightarrow> [] | Some vals \<Rightarrow> vals) @ [(s, v)])"
  by (auto simp: tm_set_def Let_def split: option.split)

lemma tm_sets_stored:
  "tm_sets calls key = (if filter (\<lambda>c. fst c = key) calls = [] then None
     else Some (map (\<lambda>c. (snd (snd c), fst (snd c))) (filter (\<lambda>c. fst c = key) calls)))"
proof (induction calls rule: rev_induct)
  case Nil
  then show ?case by (simp add: tm_sets_def tm_new_def)
next
  case (snoc c calls)
  obtain k v s where c: "c = (k, v, s)" by (cases c)
  have "tm_sets (calls @ [c]) = tm_set (tm_sets calls) k v s" by (simp add: tm_sets_def c)
  then show ?case using snoc c by (cases "key = k") (simp_all add: tm_set_stored)
qed

lemma tm_loop_latest:
  fixes M :: "(string \<times> string \<times> int) list" and t :: int
  assumes "sorted (map (\<lambda>c. snd (snd c)) M)"
  defines "vals \<equiv> map (\<lambda>c. (snd (snd c), fst (snd c))) M" and "hits \<equiv> filter (\<lambda>c. snd (snd c) \<le> t) M"
  shows "tm_loop vals t 0 (int (length vals) - 1) '''' = (if hits = [] then '''' else fst (snd (last hits)))"
proof -
  have srt: "sorted (map fst vals)" using assms(1) by (simp add: vals_def comp_def)
  have fm: "filter (\<lambda>x. fst x \<le> t) vals = map (\<lambda>c. (snd (snd c), fst (snd c))) hits"
    by (simp add: vals_def hits_def filter_map comp_def)
  have "\<exists>q. filter (\<lambda>x. fst x \<le> t) vals = take q vals \<and> q \<le> length vals
      \<and> tm_loop vals t 0 (int (length vals) - 1) (if (0::int) = 0 then '''' else snd (vals ! nat (0 - 1)))
        = (if q = 0 then '''' else snd (vals ! (q - 1)))"
    by (rule tm_loop_eq [OF srt]) auto
  then obtain q where q: "filter (\<lambda>x. fst x \<le> t) vals = take q vals" "q \<le> length vals"
    "tm_loop vals t 0 (int (length vals) - 1) '''' = (if q = 0 then '''' else snd (vals ! (q - 1)))"
    unfolding if_True simp_thms by blast
  have eq: "take q vals = map (\<lambda>c. (snd (snd c), fst (snd c))) hits" by (rule trans [OF q(1) [symmetric] fm])
  have "length (take q vals) = length hits" unfolding eq by simp
  then have len: "length hits = q" using q(2) by simp
  show ?thesis
  proof (cases "q = 0")
    case True
    then show ?thesis using q(3) len by simp
  next
    case False
    then have "take q vals \<noteq> []" using q(2) by auto
    then have "vals ! (q - 1) = last (take q vals)" using q(2) False by (simp add: last_conv_nth)
    moreover have "hits \<noteq> []" using len False by auto
    ultimately have "snd (vals ! (q - 1)) = fst (snd (last hits))" using eq by (simp add: last_map)
    then show ?thesis using q(3) len False by auto
  qed
qed

text \<open>After any sequence of calls of \<open>set\<close> whose timestamps for a key do not decrease, \<open>get\<close> of that key
  returns the value of the latest call with a timestamp not after the given one, and the empty string when there is none.\<close>

theorem tm_get_latest:
  assumes "sorted (map (\<lambda>c. snd (snd c)) (filter (\<lambda>c. fst c = key) calls))"
  shows "tm_get (tm_sets calls) key t =
    (let hits = filter (\<lambda>c. fst c = key \<and> snd (snd c) \<le> t) calls
     in if hits = [] then '''' else fst (snd (last hits)))"
proof -
  have "filter (\<lambda>c. fst c = key \<and> snd (snd c) \<le> t) calls = filter (\<lambda>c. snd (snd c) \<le> t) (filter (\<lambda>c. fst c = key) calls)"
    by (auto intro!: filter_cong)
  then show ?thesis
    using tm_loop_latest [OF assms, of t]
    by (cases "filter (\<lambda>c. fst c = key) calls = []") (simp_all add: tm_get_def tm_sets_stored Let_def)
qed

theorem tm_get_latest_witness:
  "sorted (map (\<lambda>c. snd (snd c)) (filter (\<lambda>c. fst c = ''foo'') [(''foo'', ''bar'', 1), (''x'', ''y'', 0), (''foo'', ''bar2'', 4 :: int)]))
   \<and> tm_get (tm_sets [(''foo'', ''bar'', 1), (''x'', ''y'', 0), (''foo'', ''bar2'', 4)]) ''foo'' 3 = ''bar''"
  using tm_get_latest [of "''foo''" "[(''foo'', ''bar'', 1), (''x'', ''y'', 0), (''foo'', ''bar2'', 4)]" 3] by simp

text \<open>\<open>min_eating_speed\<close> returns the least speed at which all piles are eaten in time, whenever there are at
  least as many hours as piles (otherwise no speed is enough).\<close>

theorem min_eating_speed_least:
  assumes "piles \<noteq> []" "list_all (\<lambda>p. 1 \<le> p) piles" "int (length piles) \<le> h"
  shows "\<exists>k. min_eating_speed piles h = Inr k \<and> 1 \<le> k \<and> hours_needed piles k \<le> h
    \<and> (\<forall>j. 1 \<le> j \<longrightarrow> j < k \<longrightarrow> h < hours_needed piles j)"
proof -
  let ?m = "Max (set piles)"
  have p: "\<forall>p \<in> set piles. 1 \<le> p" "\<forall>p \<in> set piles. 0 \<le> p" using assms(2) by (force simp: list_all_iff)+
  then have m: "1 \<le> ?m" using assms(1) by (metis List.finite_set Max_in set_empty)
  have "hours_needed piles ?m \<le> h" using hours_at_max [OF assms(1) p(1)] assms(3) by simp
  then show ?thesis
    using eating.bisect_keeps [of piles ?m h 1] p(2) m assms(1) by (auto simp: min_eating_speed_def)
qed

theorem min_eating_speed_least_witness:
  "[3, 6, 7, 11] \<noteq> ([] :: int list) \<and> (\<exists>k. min_eating_speed [3, 6, 7, 11] 8 = Inr k \<and> hours_needed [3, 6, 7, 11] k \<le> 8)"
  using min_eating_speed_least [of "[3, 6, 7, 11]" 8] by auto

text \<open>\<open>find_duplicate\<close> returns a number that occurs at least twice in a list of \<open>n + 1\<close> numbers
  between \<open>1\<close> and \<open>n\<close>, without changing or copying the list.\<close>

theorem find_duplicate_occurs_twice:
  assumes "list_all (\<lambda>x. 1 \<le> x \<and> x \<le> int n) nums" "length nums = Suc n" "1 \<le> n"
  shows "2 \<le> count_list nums (find_duplicate nums)"
proof -
  let ?r = "find_duplicate nums"
  have "filter (\<lambda>num. num \<le> 0) nums = []" "filter (\<lambda>num. num \<le> int n) nums = nums"
    using assms(1) by (force simp: list_all_iff filter_empty_conv filter_id_conv)+
  then have "int (length (filter (\<lambda>num. num \<le> ?r - 1) nums)) \<le> ?r - 1
      \<and> int (length (filter (\<lambda>num. num \<le> ?r) nums)) > ?r"
    using twice.bisect_keeps [where nums = nums and lo = 1 and hi = "int (length nums) - 1"] assms(2,3)
    by (simp add: find_duplicate_def)
  then show ?thesis using length_filter_nat [of ?r nums] by linarith
qed

theorem find_duplicate_occurs_twice_witness: "2 \<le> count_list [1, 3, 4, 2, 2] (find_duplicate [1, 3, 4, 2, 2])"
  using find_duplicate_occurs_twice [of 4 "[1, 3, 4, 2, 2]"] by simp

subsection \<open>Further searches\<close>

text \<open>A peak is greater than its neighbours, where it has them.\<close>

lemma find_peak_element_peak:
  assumes "nums \<noteq> []" "\<And>i. 0 \<le> i \<Longrightarrow> i < int (length nums) - 1 \<Longrightarrow> val_at nums i \<noteq> val_at nums (i + 1)"
  defines "r \<equiv> find_peak_element nums"
  shows "0 \<le> r \<and> r < int (length nums) \<and> (r = 0 \<or> val_at nums (r - 1) < val_at nums r)
    \<and> (r = int (length nums) - 1 \<or> val_at nums (r + 1) < val_at nums r)"
proof -
  have "0 \<le> int (length nums) - 1" using assms(1) by (cases nums) auto
  moreover have pre: "((0::int) = 0 \<or> val_at nums (0 - 1) < val_at nums 0)
      \<and> (int (length nums) - 1 = int (length nums) - 1 \<or> val_at nums (int (length nums) - 1 + 1) < val_at nums (int (length nums) - 1))
      \<and> 0 \<le> (0::int) \<and> int (length nums) - 1 < int (length nums)
      \<and> (\<forall>i. 0 \<le> i \<longrightarrow> i < int (length nums) - 1 \<longrightarrow> val_at nums i \<noteq> val_at nums (i + 1))"
    using assms(2) by simp
  ultimately have "(r = 0 \<or> val_at nums (r - 1) < val_at nums r) \<and> (r = int (length nums) - 1 \<or> val_at nums (r + 1) < val_at nums r)
      \<and> 0 \<le> r \<and> r < int (length nums)"
    unfolding r_def find_peak_element_def
    using peak.bisect_keeps [OF pre] by blast
  then show ?thesis by blast
qed

lemma find_min_rotated_least:
  assumes "rotation nums ys xs" "xs \<noteq> []"
  shows "find_min_rotated nums = Inr (Min (set nums))"
proof -
  have n: "nums = ys @ xs" "sorted_wrt (<) (xs @ ys)" using assms(1) by (auto simp: rotation_def)
  let ?b = "bisect (\<lambda>mid right. \<not> nums ! nat mid > nums ! nat right) 0 (int (length nums) - 1)"
  have len: "0 < length xs" using assms(2) by simp
  have "nums = ys @ xs \<and> sorted_wrt (<) (xs @ ys) \<and> 0 \<le> (0::int) \<and> 0 \<le> int (length ys)
      \<and> int (length ys) \<le> int (length nums) - 1 \<and> int (length nums) - 1 < int (length nums)"
    using n len by auto
  from smallest.bisect_keeps [OF this] have "?b = int (length ys)" using len n(1) by auto
  then have r: "find_min_rotated nums = Inr (xs ! 0)" using n(1) len by (simp add: find_min_rotated_def nth_append)
  have "xs ! 0 \<le> y" if "y \<in> set nums" for y
  proof -
    have "xs = xs ! 0 # tl xs" using assms(2) by (cases xs) auto
    then have "sorted_wrt (<) (xs ! 0 # tl xs @ ys)" using n(2) by (metis append_Cons)
    moreover have "y = xs ! 0 \<or> y \<in> set (tl xs @ ys)" using that n(1) assms(2) by (cases xs) auto
    ultimately show ?thesis by (auto intro: less_imp_le)
  qed
  then have "Min (set nums) = xs ! 0" using n(1) len by (intro Min_eqI) auto
  then show ?thesis using r by simp
qed

lemma search_matrix_correct:
  assumes "\<And>row. row \<in> set matrix \<Longrightarrow> length row = c" "sorted (concat matrix)"
  shows "search_matrix matrix target = Inr (target \<in> set (concat matrix))"
proof (cases "matrix = [] \<or> c = 0")
  case True
  show ?thesis
  proof (cases "matrix = []")
    case False
    then have rows: "\<And>row. row \<in> set matrix \<Longrightarrow> row = []" using True assms(1) by auto
    then have hd: "length (hd matrix) = 0" using False by simp
    have "search_matrix matrix target = matrix_loop matrix target 0 0 (-1)"
      unfolding search_matrix_def Let_def hd using False by simp
    moreover have "matrix_loop matrix target 0 0 (-1) = Inr False"
      by (simp add: matrix_loop.simps [of matrix target 0 0 "-1"])
    moreover have "target \<notin> set (concat matrix)" using rows by force
    ultimately show ?thesis by simp
  qed (simp add: search_matrix_def)
next
  case False
  have rows: "\<forall>row \<in> set matrix. length row = c" using assms(1) by blast
  have hd: "length (hd matrix) = c" using False assms(1) by simp
  have len: "int (length matrix) * int c = int (length (concat matrix))" using length_concat_rows [OF rows] by simp
  have "matrix_loop matrix target (int c) 0 (int (length (concat matrix)) - 1) = Inr (target \<in> set (concat matrix))"
    using False by (intro matrix_loop_eq [OF rows _ assms(2)]) auto
  then show ?thesis using False hd len by (simp add: search_matrix_def Let_def)
qed

end
