(* ===== verification/DSA_Sorting.thy ===== *)
theory DSA_Sorting
  imports Prelude
begin

text \<open>
  The sorting algorithms of \<open>python-dsa/10_sorting_searching/questions.py\<close>: quick sort and quick
  select on one array that is updated in place, merge sort, and counting inversions. The array is a
  list that is updated by position. A range \<open>low..high\<close> of the code is written \<open>low\<close>, \<open>hi\<close> with
  \<open>hi = high + 1\<close>, so that an empty range needs no negative number. \<open>random.randint(low, high)\<close> is a
  parameter \<open>rnd\<close>: a run partitions each range at most once, so that a function of the range stands for
  any sequence of random numbers.
\<close>

section \<open>Partitioning in place\<close>

definition swap :: "nat \<Rightarrow> nat \<Rightarrow> int list \<Rightarrow> int list" where
  "swap i j arr = arr[i := arr ! j, j := arr ! i]"

text \<open>
  The loop \<open>for j in range(low, high)\<close>; \<open>slot\<close> is the position of the next element that passes the test
  (\<open>i + 1\<close> in \<open>quick_sort\<close>, \<open>i\<close> in \<open>find_kth_largest\<close>).
\<close>

fun partition_loop :: "(int \<Rightarrow> bool) \<Rightarrow> int list \<Rightarrow> nat \<Rightarrow> nat list \<Rightarrow> int list \<times> nat" where
  "partition_loop test arr slot [] = (arr, slot)"
| "partition_loop test arr slot (j # js) =
     (if test (arr ! j) then partition_loop test (swap slot j arr) (Suc slot) js
      else partition_loop test arr slot js)"

text \<open>\<open>before x p\<close>: whether \<open>x\<close> goes before the pivot \<open>p\<close>.\<close>

definition partition_range :: "(int \<Rightarrow> int \<Rightarrow> bool) \<Rightarrow> (nat \<Rightarrow> nat \<Rightarrow> nat) \<Rightarrow> int list \<Rightarrow> nat \<Rightarrow> nat \<Rightarrow> int list \<times> nat" where
  "partition_range before rnd arr low high =
     (let arr1 = swap (rnd low high) high arr;
          pivot = arr1 ! high;
          (arr2, slot) = partition_loop (\<lambda>x. before x pivot) arr1 low [low..<high]
      in (swap slot high arr2, slot))"

lemma partition_loop_slot:
  "slot \<le> snd (partition_loop test arr slot js) \<and> snd (partition_loop test arr slot js) \<le> slot + length js"
proof (induction js arbitrary: arr slot)
  case (Cons j js)
  show ?case using Cons.IH [of "Suc slot" "swap slot j arr"] Cons.IH [of slot arr] by auto
qed simp

lemma partition_range_slot:
  assumes "partition_range before rnd arr low high = (arr', p)"
  shows "low \<le> p \<and> p \<le> low + (high - low)"
  using assms partition_loop_slot [of low "\<lambda>x. before x (swap (rnd low high) high arr ! high)"
      "swap (rnd low high) high arr" "[low..<high]"]
  by (auto simp: partition_range_def Let_def split: prod.splits)

section \<open>Quick sort and quick select\<close>

function quick_range :: "(nat \<Rightarrow> nat \<Rightarrow> nat) \<Rightarrow> int list \<Rightarrow> nat \<Rightarrow> nat \<Rightarrow> int list" where
  "quick_range rnd arr low hi =
     (if low + 1 < hi
      then (case partition_range (\<lambda>x p. x \<le> p) rnd arr low (hi - 1) of
              (arr1, p) \<Rightarrow> quick_range rnd (quick_range rnd arr1 low p) (Suc p) hi)
      else arr)"
  by auto
termination
  by (relation "measure (\<lambda>(rnd, arr, low, hi). hi - low)") (auto dest!: partition_range_slot [OF sym])

declare quick_range.simps [simp del]

definition quick_sort :: "(nat \<Rightarrow> nat \<Rightarrow> nat) \<Rightarrow> int list \<Rightarrow> int list" where
  "quick_sort rnd arr = quick_range rnd arr 0 (length arr)"

function select_range :: "(nat \<Rightarrow> nat \<Rightarrow> nat) \<Rightarrow> int \<Rightarrow> int list \<Rightarrow> nat \<Rightarrow> nat \<Rightarrow> int" where
  "select_range rnd target nums left hi =
     (if left < hi
      then (case partition_range (\<lambda>x p. x \<ge> p) rnd nums left (hi - 1) of
              (nums1, pos) \<Rightarrow>
                if int pos = target then nums1 ! pos
                else if int pos < target then select_range rnd target nums1 (Suc pos) hi
                else select_range rnd target nums1 left pos)
      else -1)"
  by auto
termination
  by (relation "measure (\<lambda>(rnd, target, nums, left, hi). hi - left)") (auto dest!: partition_range_slot [OF sym])

declare select_range.simps [simp del]

definition find_kth_largest :: "(nat \<Rightarrow> nat \<Rightarrow> nat) \<Rightarrow> int list \<Rightarrow> int \<Rightarrow> int" where
  "find_kth_largest rnd nums k = select_range rnd (k - 1) nums 0 (length nums)"

section \<open>Merging\<close>

text \<open>The loop of \<open>merge_sort\<close>: what is left of the two halves, and the result so far.\<close>

fun merge_loop :: "int list \<Rightarrow> int list \<Rightarrow> int list \<Rightarrow> int list" where
  "merge_loop result (x # left) (y # right) =
     (if x \<le> y then merge_loop (result @ [x]) left (y # right)
      else merge_loop (result @ [y]) (x # left) right)"
| "merge_loop result left right = result @ left @ right"

function merge_sort :: "int list \<Rightarrow> int list" where
  "merge_sort arr =
     (if length arr \<le> 1 then arr
      else (let mid = length arr div 2
            in merge_loop [] (merge_sort (take mid arr)) (merge_sort (drop mid arr))))"
  by auto
termination
  by (relation "measure length") auto

declare merge_sort.simps [simp del]

text \<open>
  The merge of \<open>merge_sort_count\<close>, which counts, for each element taken from the right half, the
  elements left in the left half. The array \<open>arr\<close> is overwritten from the left by what is merged.
\<close>

fun merge_count :: "int \<Rightarrow> int list \<Rightarrow> int list \<Rightarrow> int list \<Rightarrow> int list \<times> int" where
  "merge_count inversions arr (x # left) (y # right) =
     (if x \<le> y then merge_count inversions (arr @ [x]) left (y # right)
      else merge_count (inversions + int (length (x # left))) (arr @ [y]) (x # left) right)"
| "merge_count inversions arr left right = (arr @ left @ right, inversions)"

function merge_sort_count :: "int list \<Rightarrow> int list \<times> int" where
  "merge_sort_count arr =
     (if length arr \<le> 1 then (arr, 0)
      else (let mid = length arr div 2;
                (left_half, a) = merge_sort_count (take mid arr);
                (right_half, b) = merge_sort_count (drop mid arr)
            in merge_count (a + b) [] left_half right_half))"
  by auto
termination
  by (relation "measure length") auto

declare merge_sort_count.simps [simp del]

definition count_inversions :: "int list \<Rightarrow> int" where
  "count_inversions arr = snd (merge_sort_count arr)"

section \<open>Changing a range of an array\<close>

definition perm_in :: "nat \<Rightarrow> nat \<Rightarrow> int list \<Rightarrow> int list \<Rightarrow> bool" where
  "perm_in l h a b \<longleftrightarrow> length b = length a \<and> mset b = mset a \<and> (\<forall>i. i < l \<or> h \<le> i \<longrightarrow> b ! i = a ! i)"

lemma perm_in_refl [simp]: "perm_in l h a a"
  by (simp add: perm_in_def)

lemma perm_in_trans: "perm_in l h a b \<Longrightarrow> perm_in l h b c \<Longrightarrow> perm_in l h a c"
  by (simp add: perm_in_def)

lemma perm_in_mono: "perm_in l h a b \<Longrightarrow> l' \<le> l \<Longrightarrow> h \<le> h' \<Longrightarrow> perm_in l' h' a b"
  by (auto simp: perm_in_def)

lemma swap_perm_in: "l \<le> i \<Longrightarrow> i < h \<Longrightarrow> l \<le> j \<Longrightarrow> j < h \<Longrightarrow> h \<le> length a \<Longrightarrow> perm_in l h a (swap i j a)"
  by (auto simp: perm_in_def swap_def mset_swap)

lemma swap_nth: "i < length a \<Longrightarrow> j < length a \<Longrightarrow>
    swap i j a ! k = (if k = j then a ! i else if k = i then a ! j else a ! k)"
  by (auto simp: swap_def nth_list_update)

lemma swap_length [simp]: "length (swap i j a) = length a"
  by (simp add: swap_def)

text \<open>The elements in the range are those that were there before.\<close>

lemma perm_in_from:
  assumes "perm_in l h a b" "l \<le> h" "h \<le> length a" "l \<le> i" "i < h"
  obtains k where "l \<le> k" "k < h" "b ! i = a ! k"
proof -
  have split: "x = take l x @ take (h - l) (drop l x) @ drop h x" for x :: "int list"
    using assms(2) by (metis append_take_drop_id drop_drop le_add_diff_inverse2)
  have "take l b = take l a" "drop h b = drop h a"
    using assms(1) by (auto simp: perm_in_def intro!: nth_equalityI)
  then have "mset (take (h - l) (drop l b)) = mset (take (h - l) (drop l a))"
    using arg_cong [OF split [of a], of mset] arg_cong [OF split [of b], of mset] assms(1)
    by (simp add: perm_in_def)
  then have s: "set (take (h - l) (drop l b)) = set (take (h - l) (drop l a))" by (metis set_mset_mset)
  have len: "length b = length a" using assms(1) by (simp add: perm_in_def)
  have "b ! i = take (h - l) (drop l b) ! (i - l)" "i - l < length (take (h - l) (drop l b))"
    using assms(3-5) len by auto
  then have "b ! i \<in> set (take (h - l) (drop l b))" by (metis nth_mem)
  then have "b ! i \<in> set (take (h - l) (drop l a))" using s by simp
  then obtain j where "j < h - l" "b ! i = a ! (l + j)" using assms(3) by (auto simp: in_set_conv_nth)
  then show thesis using that [of "l + j"] by auto
qed

section \<open>Partitioning is correct\<close>

lemma partition_loop_correct:
  assumes "partition_loop test a slot [j..<h] = (b, p)" "l \<le> slot" "slot \<le> j" "j \<le> h" "h \<le> length a"
    "\<And>i. l \<le> i \<Longrightarrow> i < slot \<Longrightarrow> test (a ! i)" "\<And>i. slot \<le> i \<Longrightarrow> i < j \<Longrightarrow> \<not> test (a ! i)"
  shows "perm_in l h a b \<and> l \<le> p \<and> p \<le> h \<and> (\<forall>i. l \<le> i \<and> i < p \<longrightarrow> test (b ! i)) \<and> (\<forall>i. p \<le> i \<and> i < h \<longrightarrow> \<not> test (b ! i))"
  using assms
proof (induction "h - j" arbitrary: a slot j)
  case 0
  then have "b = a" "p = slot" "j = h" by auto
  then show ?case using "0.prems" by auto
next
  case (Suc n)
  then have up: "[j..<h] = j # [Suc j..<h]" by (simp add: upt_conv_Cons)
  show ?case
  proof (cases "test (a ! j)")
    case True
    let ?a = "swap slot j a"
    have sw: "?a ! i = (if i = j then a ! slot else if i = slot then a ! j else a ! i)" for i
      using Suc.prems Suc.hyps(2) by (intro swap_nth) auto
    have "perm_in l h ?a b \<and> l \<le> p \<and> p \<le> h \<and> (\<forall>i. l \<le> i \<and> i < p \<longrightarrow> test (b ! i)) \<and> (\<forall>i. p \<le> i \<and> i < h \<longrightarrow> \<not> test (b ! i))"
    proof (rule Suc.hyps(1))
      show "partition_loop test ?a (Suc slot) [Suc j..<h] = (b, p)" using Suc.prems(1) True by (simp add: up)
      show "test (?a ! i)" if "l \<le> i" "i < Suc slot" for i
        using that Suc.prems(3,6) True by (auto simp: sw less_Suc_eq)
      show "\<not> test (?a ! i)" if "Suc slot \<le> i" "i < Suc j" for i
        using that Suc.prems(7) by (auto simp: sw less_Suc_eq)
    qed (use Suc.prems Suc.hyps(2) in auto)
    moreover have "perm_in l h a ?a" using Suc.prems Suc.hyps(2) by (intro swap_perm_in) auto
    ultimately show ?thesis using perm_in_trans by blast
  next
    case False
    show ?thesis
    proof (rule Suc.hyps(1))
      show "partition_loop test a slot [Suc j..<h] = (b, p)" using Suc.prems(1) False by (simp add: up)
      show "\<not> test (a ! i)" if "slot \<le> i" "i < Suc j" for i using that Suc.prems(7) False by (auto simp: less_Suc_eq)
    qed (use Suc.prems Suc.hyps(2) in auto)
  qed
qed

lemma partition_range_correct:
  assumes "partition_range before rnd a l h = (b, p)" "l \<le> rnd l h" "rnd l h \<le> h" "l \<le> h" "h < length a"
  shows "perm_in l (Suc h) a b" "l \<le> p" "p \<le> h" "\<And>i. l \<le> i \<Longrightarrow> i < p \<Longrightarrow> before (b ! i) (b ! p)"
    "\<And>i. p < i \<Longrightarrow> i \<le> h \<Longrightarrow> \<not> before (b ! i) (b ! p)"
proof -
  let ?a = "swap (rnd l h) h a"
  let ?test = "\<lambda>x. before x (?a ! h)"
  obtain c where loop: "partition_loop ?test ?a l [l..<h] = (c, p)" and b: "b = swap p h c"
    using assms(1) by (auto simp: partition_range_def Let_def split: prod.splits)
  have "perm_in l h ?a c \<and> l \<le> p \<and> p \<le> h \<and> (\<forall>i. l \<le> i \<and> i < p \<longrightarrow> ?test (c ! i)) \<and> (\<forall>i. p \<le> i \<and> i < h \<longrightarrow> \<not> ?test (c ! i))"
    by (rule partition_loop_correct [OF loop]) (use assms in auto)
  then have c: "perm_in l h ?a c" "l \<le> p" "p \<le> h" "\<And>i. l \<le> i \<Longrightarrow> i < p \<Longrightarrow> ?test (c ! i)"
    "\<And>i. p \<le> i \<Longrightarrow> i < h \<Longrightarrow> \<not> ?test (c ! i)" by auto
  have len: "length c = length a" and piv: "c ! h = ?a ! h" using c(1) by (auto simp: perm_in_def)
  have sw: "b ! i = (if i = h then c ! p else if i = p then c ! h else c ! i)" for i
    unfolding b using assms(5) c(3) len by (intro swap_nth) auto
  have "perm_in l (Suc h) a ?a" using assms by (intro swap_perm_in) auto
  moreover have "perm_in l (Suc h) ?a c" using c(1) by (rule perm_in_mono) auto
  moreover have "perm_in l (Suc h) c b" unfolding b using assms c(2,3) len by (intro swap_perm_in) auto
  ultimately show "perm_in l (Suc h) a b" using perm_in_trans by blast
  show "l \<le> p" "p \<le> h" by (rule c)+
  have bp: "b ! p = ?a ! h" using sw [of p] piv by auto
  show "before (b ! i) (b ! p)" if "l \<le> i" "i < p" for i
    using that c(3,4) sw [of i] bp by auto
  show "\<not> before (b ! i) (b ! p)" if "p < i" "i \<le> h" for i
    using that c(5) [of i] c(5) [of p] sw [of i] bp by auto
qed

section \<open>Quick sort sorts\<close>

definition randint_ok :: "(nat \<Rightarrow> nat \<Rightarrow> nat) \<Rightarrow> bool" where
  "randint_ok rnd \<longleftrightarrow> (\<forall>low high. low \<le> high \<longrightarrow> low \<le> rnd low high \<and> rnd low high \<le> high)"

lemma quick_range_correct:
  assumes "randint_ok rnd"
  shows "low \<le> hi \<Longrightarrow> hi \<le> length arr \<Longrightarrow>
    perm_in low hi arr (quick_range rnd arr low hi)
    \<and> (\<forall>i j. low \<le> i \<and> i \<le> j \<and> j < hi \<longrightarrow> quick_range rnd arr low hi ! i \<le> quick_range rnd arr low hi ! j)"
proof (induction "hi - low" arbitrary: arr low hi rule: less_induct)
  case less
  show ?case
  proof (cases "low + 1 < hi")
    case True
    obtain a p where part: "partition_range (\<lambda>x p. x \<le> p) rnd arr low (hi - 1) = (a, p)"
      by (cases "partition_range (\<lambda>x p. x \<le> p) rnd arr low (hi - 1)")
    have pre: "low \<le> rnd low (hi - 1)" "rnd low (hi - 1) \<le> hi - 1" "low \<le> hi - 1" "hi - 1 < length arr"
      using assms True less.prems by (auto simp: randint_ok_def)
    note pc = partition_range_correct [OF part pre]
    have "Suc (hi - 1) = hi" using True by simp
    then have pp: "perm_in low hi arr a" "low \<le> p" "p < hi" "\<And>i. low \<le> i \<Longrightarrow> i < p \<Longrightarrow> a ! i \<le> a ! p"
      "\<And>i. p < i \<Longrightarrow> i < hi \<Longrightarrow> a ! p < a ! i"
      using pc(1,2,3) pc(4) pc(5) by (auto simp: not_le)
    have lena: "length a = length arr" using pp(1) by (simp add: perm_in_def)
    let ?b = "quick_range rnd a low p"
    let ?c = "quick_range rnd ?b (Suc p) hi"
    have b: "perm_in low p a ?b" "\<And>i j. low \<le> i \<Longrightarrow> i \<le> j \<Longrightarrow> j < p \<Longrightarrow> ?b ! i \<le> ?b ! j"
      using less.hyps [of p low a] pp(2,3) True less.prems lena by auto
    have lenb: "length ?b = length arr" using b(1) lena by (simp add: perm_in_def)
    have c: "perm_in (Suc p) hi ?b ?c" "\<And>i j. Suc p \<le> i \<Longrightarrow> i \<le> j \<Longrightarrow> j < hi \<Longrightarrow> ?c ! i \<le> ?c ! j"
      using less.hyps [of hi "Suc p" ?b] pp(2,3) True less.prems lenb by auto
    have q: "quick_range rnd arr low hi = ?c" using True part quick_range.simps [of rnd arr low hi] by simp
    have "perm_in low hi a ?b" "perm_in low hi ?b ?c"
      using b(1) c(1) pp(2,3) by (auto elim: perm_in_mono)
    then have perm: "perm_in low hi arr ?c" using pp(1) perm_in_trans by blast
    have keep: "?c ! i = ?b ! i" if "i \<le> p" for i using c(1) that by (simp add: perm_in_def)
    have piv: "?c ! p = a ! p" using keep [of p] b(1) by (simp add: perm_in_def)
    have lo: "?c ! i \<le> a ! p" if i: "low \<le> i" "i \<le> p" for i
    proof (cases "i = p")
      case False
      obtain k where "low \<le> k" "k < p" "?b ! i = a ! k"
        by (rule perm_in_from [OF b(1), of i]) (use i False pp(2,3) less.prems lena in auto)
      then show ?thesis using keep [of i] i pp(4) by simp
    qed (use piv in simp)
    have hi: "a ! p < ?c ! j" if j: "p < j" "j < hi" for j
    proof -
      obtain k where "Suc p \<le> k" "k < hi" "?c ! j = ?b ! k"
        by (rule perm_in_from [OF c(1), of j]) (use j pp(3) less.prems lenb in auto)
      moreover have "?b ! k = a ! k" if "Suc p \<le> k" for k using b(1) that by (simp add: perm_in_def)
      ultimately show ?thesis using pp(5) by simp
    qed
    have "?c ! i \<le> ?c ! j" if "low \<le> i" "i \<le> j" "j < hi" for i j
    proof -
      consider "j < p" | "i \<le> p" "p \<le> j" | "p < i" using that by linarith
      then show ?thesis
      proof cases
        case 1
        then show ?thesis using b(2) [of i j] keep [of i] keep [of j] that by simp
      next
        case 2
        then show ?thesis using lo [of i] hi [of j] piv that by (cases "j = p") auto
      next
        case 3
        then show ?thesis using c(2) that by simp
      qed
    qed
    then show ?thesis using perm q by simp
  next
    case False
    then have "quick_range rnd arr low hi = arr" using quick_range.simps [of rnd arr low hi] by simp
    moreover have "i = j" if "low \<le> i" "i \<le> j" "j < hi" for i j using that False by linarith
    ultimately show ?thesis by auto
  qed
qed

section \<open>Quick select, merging and inversions\<close>

lemma sorted_desc_nth:
  assumes "p < length a" "\<And>i. i < p \<Longrightarrow> a ! p \<le> a ! i" "\<And>i. p < i \<Longrightarrow> i < length a \<Longrightarrow> a ! i \<le> a ! p"
  shows "rev (sort a) ! p = a ! (p::nat)"
proof -
  let ?A = "take p a" and ?B = "drop (Suc p) a"
  have split: "a = ?A @ a ! p # ?B" using assms(1) by (simp add: id_take_nth_drop)
  have A: "\<forall>x \<in> set ?A. a ! p \<le> x" using assms(1,2) by (auto simp: in_set_conv_nth)
  have B: "\<forall>x \<in> set ?B. x \<le> a ! p"
  proof
    fix x
    assume "x \<in> set ?B"
    then obtain k where "k < length a - Suc p" "x = a ! (Suc p + k)" by (auto simp: in_set_conv_nth)
    then show "x \<le> a ! p" using assms(3) [of "Suc p + k"] by auto
  qed
  have "sorted (sort ?B @ a ! p # sort ?A)" using A B by (auto simp: sorted_append intro: order.trans)
  moreover have "mset (sort ?B @ a ! p # sort ?A) = mset a"
    using arg_cong [OF split, of mset] by (simp add: ac_simps)
  ultimately have "sort a = sort ?B @ a ! p # sort ?A" by (metis properties_for_sort)
  then have "rev (sort a) = rev (sort ?A) @ a ! p # rev (sort ?B)" by simp
  then show ?thesis using assms(1) by (simp add: nth_append)
qed

lemma select_range_correct:
  assumes "randint_ok rnd"
  shows "0 \<le> target \<Longrightarrow> int left \<le> target \<Longrightarrow> target < int hi \<Longrightarrow> hi \<le> length nums \<Longrightarrow>
    (\<And>i j. i < left \<Longrightarrow> left \<le> j \<Longrightarrow> j < length nums \<Longrightarrow> nums ! j \<le> nums ! i) \<Longrightarrow>
    (\<And>i j. i < hi \<Longrightarrow> hi \<le> j \<Longrightarrow> j < length nums \<Longrightarrow> nums ! j \<le> nums ! i) \<Longrightarrow>
    select_range rnd target nums left hi = rev (sort nums) ! nat target"
proof (induction "hi - left" arbitrary: nums left hi rule: less_induct)
  case less
  have lt: "left < hi" using less.prems(2,3) by linarith
  obtain a p where part: "partition_range (\<lambda>x p. x \<ge> p) rnd nums left (hi - 1) = (a, p)"
    by (cases "partition_range (\<lambda>x p. x \<ge> p) rnd nums left (hi - 1)")
  have pre: "left \<le> rnd left (hi - 1)" "rnd left (hi - 1) \<le> hi - 1" "left \<le> hi - 1" "hi - 1 < length nums"
    using assms lt less.prems(4) by (auto simp: randint_ok_def)
  note pc = partition_range_correct [OF part pre]
  have Suc: "Suc (hi - 1) = hi" using lt by simp
  have perm: "perm_in left hi nums a" using pc(1) unfolding Suc .
  have p: "left \<le> p" "p < hi" using pc(2,3) lt by auto
  have len: "length a = length nums" and mset: "mset a = mset nums"
    and out: "\<And>i. i < left \<or> hi \<le> i \<Longrightarrow> a ! i = nums ! i" using perm by (auto simp: perm_in_def)
  have srt: "sort a = sort nums" using mset by (metis mset_sort properties_for_sort sorted_sort)
  have from_nums: "\<exists>k. left \<le> k \<and> k < hi \<and> a ! i = nums ! k" if "left \<le> i" "i < hi" for i
    by (rule perm_in_from [OF perm, of i]) (use that lt less.prems(4) in \<open>auto simp: less_imp_le\<close>)
  have high: "a ! j \<le> a ! i" if "i < left" "left \<le> j" "j < length a" for i j
    using from_nums [of j] out [of i] out [of j] less.prems(4,5) that len by (cases "j < hi") force+
  have low: "a ! j \<le> a ! i" if "i < hi" "hi \<le> j" "j < length a" for i j
    using from_nums [of i] out [of i] out [of j] less.prems(6) that len by (cases "left \<le> i") force+
  have left_of: "a ! p \<le> a ! i" if "i < p" for i
    using that pc(4) [of i] high [of i p] p less.prems(4) len by (cases "left \<le> i") auto
  have right_of: "a ! i \<le> a ! p" if "p < i" "i < length a" for i
  proof (cases "i < hi")
    case True
    then have "i \<le> hi - 1" by simp
    then show ?thesis using pc(5) [of i] that(1) by simp
  qed (use that low [of p i] p in simp)
  have sel: "select_range rnd target nums left hi =
      (if int p = target then a ! p else if int p < target then select_range rnd target a (Suc p) hi
       else select_range rnd target a left p)"
    using lt part select_range.simps [of rnd target nums left hi] by simp
  consider "int p = target" | "int p < target" | "target < int p" by linarith
  then show ?case
  proof cases
    case 1
    have "rev (sort a) ! p = a ! p" by (rule sorted_desc_nth) (use p less.prems(4) len left_of right_of in auto)
    then show ?thesis using sel 1 srt by auto
  next
    case 2
    have "select_range rnd target a (Suc p) hi = rev (sort a) ! nat target"
    proof (rule less.hyps)
      show "a ! j \<le> a ! i" if "i < Suc p" "Suc p \<le> j" "j < length a" for i j
        using left_of [of i] right_of [of j] that by (cases "i = p") auto
    qed (use 2 p lt less.prems len low in auto)
    then show ?thesis using sel 2 srt by simp
  next
    case 3
    have "select_range rnd target a left p = rev (sort a) ! nat target"
    proof (rule less.hyps)
      show "a ! j \<le> a ! i" if "i < p" "p \<le> j" "j < length a" for i j
        using left_of [of i] right_of [of j] that by (cases "j = p") auto
    qed (use 3 p lt less.prems len high in auto)
    then show ?thesis using sel 3 srt by simp
  qed
qed

lemma merge_loop_mset: "mset (merge_loop result left right) = mset result + mset left + mset right"
  by (induction result left right rule: merge_loop.induct) (auto simp: ac_simps)

lemma merge_loop_append: "merge_loop (done1 @ result) left right = done1 @ merge_loop result left right"
  by (induction result left right rule: merge_loop.induct) simp_all

lemma merge_loop_result: "merge_loop (x # result) left right = x # merge_loop result left right"
  using merge_loop_append [of "[x]"] by simp

lemma merge_loop_set: "set (merge_loop result left right) = set result \<union> set left \<union> set right"
  using merge_loop_mset [of result left right] by (metis set_mset_mset set_mset_union)

lemma merge_loop_sorted: "sorted left \<Longrightarrow> sorted right \<Longrightarrow> sorted (merge_loop [] left right)"
proof (induction left arbitrary: right)
  case (Cons x left)
  note IH = Cons.IH and left = Cons.prems(1)
  show ?case using Cons.prems(2)
  proof (induction right)
    case (Cons y right)
    show ?case using IH [of "y # right"] Cons left by (auto simp: merge_loop_result merge_loop_set)
  qed (use left in simp)
qed simp

lemma merge_sort_sorted: "sorted (merge_sort arr) \<and> mset (merge_sort arr) = mset arr"
proof (induction arr rule: merge_sort.induct)
  case (1 arr)
  show ?case
  proof (cases "length arr \<le> 1")
    case True
    then have "merge_sort arr = arr" using merge_sort.simps [of arr] by simp
    then show ?thesis using True sorted01 by simp
  next
    case False
    let ?mid = "length arr div 2"
    have "merge_sort arr = merge_loop [] (merge_sort (take ?mid arr)) (merge_sort (drop ?mid arr))"
      using False merge_sort.simps [of arr] by (simp add: Let_def)
    moreover have "mset (take ?mid arr) + mset (drop ?mid arr) = mset arr"
      by (metis append_take_drop_id mset_append)
    ultimately show ?thesis using "1.IH" [OF False refl] by (simp add: merge_loop_sorted merge_loop_mset)
  qed
qed

text \<open>The pairs of an element of the left half and a smaller one of the right half.\<close>

definition cross :: "int list \<Rightarrow> int list \<Rightarrow> int" where
  "cross left right = (\<Sum>y\<leftarrow>right. int (length (filter (\<lambda>x. y < x) left)))"

definition inversions :: "int list \<Rightarrow> (nat \<times> nat) set" where
  "inversions arr = {(i, j). i < j \<and> j < length arr \<and> arr ! j < arr ! i}"

lemma cross_Nil [simp]: "cross [] right = 0" "cross left [] = 0"
  by (simp_all add: cross_def)

lemma cross_Cons_right: "cross left (y # right) = int (length (filter (\<lambda>x. y < x) left)) + cross left right"
  by (simp add: cross_def)

lemma cross_Cons_left: "cross (x # left) right = int (length (filter (\<lambda>y. y < x) right)) + cross left right"
  by (induction right) (simp_all add: cross_Cons_right)

lemma length_filter_mset: "mset xs = mset ys \<Longrightarrow> length (filter P xs) = length (filter P ys)"
  by (metis mset_filter size_mset)

lemma cross_mset:
  assumes "mset l = mset l'" "mset r = mset r'"
  shows "cross l r = cross l' r'"
proof -
  have "cross l r = cross l' r" unfolding cross_def by (simp add: length_filter_mset [OF assms(1)])
  also have "\<dots> = (\<Sum>y\<in>#mset r. int (length (filter (\<lambda>x. y < x) l')))"
    by (simp add: cross_def flip: sum_mset_sum_list)
  also have "\<dots> = cross l' r'" unfolding assms(2) by (simp add: cross_def flip: sum_mset_sum_list)
  finally show ?thesis .
qed

lemma merge_count_correct:
  "sorted left \<Longrightarrow> sorted right \<Longrightarrow>
   merge_count c arr left right = (merge_loop arr left right, c + cross left right)"
proof (induction c arr left right rule: merge_count.induct)
  case (1 c arr x left y right)
  show ?case
  proof (cases "x \<le> y")
    case True
    then have "filter (\<lambda>z. z < x) (y # right) = []" using "1.prems" by (auto simp: filter_empty_conv)
    then show ?thesis using 1 True by (simp add: cross_Cons_left)
  next
    case False
    then have "filter (\<lambda>z. y < z) (x # left) = x # left" using "1.prems" by (auto simp: filter_id_conv)
    then show ?thesis using 1 False by (simp add: cross_Cons_right)
  qed
qed simp_all

lemma finite_inversions [simp]: "finite (inversions arr)"
  by (rule finite_subset [of _ "{..<length arr} \<times> {..<length arr}"]) (auto simp: inversions_def)

lemma inversions_Cons:
  "inversions (x # xs) = Pair 0 ` Suc ` {j. j < length xs \<and> xs ! j < x} \<union> map_prod Suc Suc ` inversions xs"
proof (intro set_eqI iffI)
  fix p
  assume p: "p \<in> inversions (x # xs)"
  obtain i j where "p = (i, Suc j)" using p by (cases p; cases "snd p") (auto simp: inversions_def)
  then show "p \<in> Pair 0 ` Suc ` {j. j < length xs \<and> xs ! j < x} \<union> map_prod Suc Suc ` inversions xs"
    using p by (cases i) (auto simp: inversions_def)
qed (auto simp: inversions_def)

lemma card_inversions_Cons:
  "card (inversions (x # xs)) = length (filter (\<lambda>y. y < x) xs) + card (inversions xs)"
proof -
  let ?A = "{j. j < length xs \<and> xs ! j < x}"
  have "inj_on (map_prod Suc Suc) (inversions xs)" by (auto simp: inj_on_def)
  then have "card (map_prod Suc Suc ` inversions xs) = card (inversions xs)" by (rule card_image)
  moreover have "card (Pair 0 ` Suc ` ?A) = length (filter (\<lambda>y. y < x) xs)"
    by (simp add: card_image inj_on_def length_filter_conv_card)
  ultimately show ?thesis unfolding inversions_Cons by (subst card_Un_disjoint) auto
qed

lemma card_inversions_append:
  "int (card (inversions (xs @ ys))) = int (card (inversions xs)) + int (card (inversions ys)) + cross xs ys"
proof (induction xs)
  case Nil
  have "inversions [] = {}" by (simp add: inversions_def)
  then show ?case by simp
qed (simp add: card_inversions_Cons cross_Cons_left)

lemma merge_sort_count_correct: "merge_sort_count arr = (merge_sort arr, int (card (inversions arr)))"
proof (induction arr rule: merge_sort_count.induct)
  case (1 arr)
  show ?case
  proof (cases "length arr \<le> 1")
    case True
    then have "inversions arr = {}" by (auto simp: inversions_def)
    then show ?thesis using True merge_sort_count.simps [of arr] merge_sort.simps [of arr] by simp
  next
    case False
    define l r where "l = take (length arr div 2) arr" and "r = drop (length arr div 2) arr"
    have arr: "arr = l @ r" by (simp add: l_def r_def)
    have IH: "merge_sort_count l = (merge_sort l, int (card (inversions l)))"
      "merge_sort_count r = (merge_sort r, int (card (inversions r)))"
      unfolding l_def r_def
      using "1.IH"(1) [OF False refl] "1.IH"(2) [OF False refl prod.collapse refl] by blast+
    have "cross (merge_sort l) (merge_sort r) = cross l r" by (rule cross_mset) (simp_all add: merge_sort_sorted)
    moreover have "merge_sort_count arr =
        merge_count (int (card (inversions l)) + int (card (inversions r))) [] (merge_sort l) (merge_sort r)"
      using False IH merge_sort_count.simps [of arr] by (simp add: l_def r_def Let_def)
    moreover have "merge_sort arr = merge_loop [] (merge_sort l) (merge_sort r)"
      using False merge_sort.simps [of arr] by (simp add: l_def r_def Let_def)
    ultimately show ?thesis
      using card_inversions_append [of l r] by (simp add: arr merge_count_correct merge_sort_sorted)
  qed
qed

section \<open>The properties\<close>

text \<open>
  Quick sort, which sorts in place by partitioning around a random pivot, returns the elements of its
  argument in ascending order, whatever numbers \<open>random.randint\<close> returns within its bounds.
\<close>
theorem quick_sort_sorts:
  assumes "randint_ok rnd"
  shows "quick_sort rnd arr = sort arr"
proof -
  let ?q = "quick_sort rnd arr"
  have q: "perm_in 0 (length arr) arr ?q" "\<And>i j. i \<le> j \<Longrightarrow> j < length arr \<Longrightarrow> ?q ! i \<le> ?q ! j"
    using quick_range_correct [OF assms, of 0 "length arr" arr] by (simp_all add: quick_sort_def)
  then have "mset ?q = mset arr" "sorted ?q" by (simp_all add: perm_in_def sorted_iff_nth_mono)
  then show ?thesis by (metis properties_for_sort)
qed

lemma quick_sort_sorts_witness:
  "randint_ok (\<lambda>low high. (low + high) div 2) \<and>
   quick_sort (\<lambda>low high. (low + high) div 2) [3, -1, 2, 3, 0] = [-1, 0, 2, 3, 3]"
proof -
  have r: "randint_ok (\<lambda>low high. (low + high) div 2)" by (auto simp: randint_ok_def)
  have "sort [3, -1, 2, 3, 0] = [-1, 0, 2, 3, 3 :: int]" by simp
  then show ?thesis using quick_sort_sorts [OF r, of "[3, -1, 2, 3, 0]"] r by simp
qed

text \<open>
  Quick select returns the \<open>k\<close>-th largest element for every \<open>k\<close> from 1 to the length of the list,
  whatever numbers \<open>random.randint\<close> returns within its bounds.
\<close>
theorem find_kth_largest_correct:
  assumes "randint_ok rnd" "1 \<le> k" "k \<le> int (length nums)"
  shows "find_kth_largest rnd nums k = rev (sort nums) ! nat (k - 1)"
  unfolding find_kth_largest_def by (rule select_range_correct [OF assms(1)]) (use assms in auto)

lemma find_kth_largest_correct_witness:
  "randint_ok (\<lambda>low high. high) \<and> find_kth_largest (\<lambda>low high. high) [3, 2, 1, 5, 6, 4] 2 = 5"
proof -
  have r: "randint_ok (\<lambda>low high. high)" by (auto simp: randint_ok_def)
  have "rev (sort [3, 2, 1, 5, 6, 4]) ! nat (2 - 1) = (5 :: int)" by simp
  then show ?thesis using find_kth_largest_correct [OF r, of 2 "[3, 2, 1, 5, 6, 4]"] r by simp
qed

text \<open>
  Counting inversions while merging gives the number of pairs of positions \<open>i < j\<close> whose elements
  are out of order, and leaves the array sorted as merge sort does.
\<close>
theorem count_inversions_correct:
  "count_inversions arr = int (card (inversions arr)) \<and> fst (merge_sort_count arr) = sort arr \<and> merge_sort arr = sort arr"
proof -
  have "merge_sort arr = sort arr" using merge_sort_sorted [of arr] by (metis properties_for_sort)
  then show ?thesis by (simp add: count_inversions_def merge_sort_count_correct)
qed

end
