(* ===== verification/Order_Book.thy ===== *)
theory Order_Book
  imports Prelude
begin

text \<open>
  The order book of \<open>python-low-level-design/order-matching-engine/order_matching_engine.py\<close>: price
  levels, the two sides with their lazily cleaned heaps of prices, matching in price-time priority, time
  in force, cancels.

  An \<open>Order\<close> that rests is shared by its price level and by the dictionary \<open>_live\<close>, and a fill through
  the one is seen through the other: orders live in a store (\<open>bk_objs\<close>) and are referred to by number.
  An incoming order is a value until it rests. A level belongs to one dictionary entry, whose value it
  is; after the inner loop of \<open>_match\<close> it is written back. The heap of \<open>heapq\<close> is an ascending list.
  Python's integers are \<open>int\<close>; prices are in ticks. An exception leaves no book: the operations are
  shown not to raise.
\<close>

section \<open>Orders, commands, events\<close>

datatype Side = BUY | SELL

fun opposite :: "Side \<Rightarrow> Side" where
  "opposite BUY = SELL"
| "opposite SELL = BUY"

datatype OrderType = LIMIT | MARKET

datatype TimeInForce = GTC | IOC | FOK

datatype OrderStatus = NEW | PARTIALLY_FILLED | FILLED | CANCELLED | REJECTED

record new_order =
  no_client :: string
  no_side :: Side
  no_quantity :: int
  no_type :: OrderType
  no_price :: "int option"
  no_tif :: TimeInForce

datatype command = NewOrder new_order | CancelOrder int

datatype event =
    OrderAccepted int int
  | Trade (ev_seq: int) (ev_trade: int) (ev_price: int) (ev_quantity: int) (ev_maker: int) (ev_taker: int) (ev_side: Side)
  | OrderRested int int Side "int option" int
  | OrderCancelled int int int string
  | OrderRejected int int string

record report =
  rp_seq :: int
  rp_order :: int
  rp_status :: OrderStatus
  rp_filled :: int
  rp_remaining :: int
  rp_events :: "event list"

fun is_trade :: "event \<Rightarrow> bool" where
  "is_trade (Trade _ _ _ _ _ _ _) \<longleftrightarrow> True"
| "is_trade _ \<longleftrightarrow> False"

definition trades :: "report \<Rightarrow> event list" where
  "trades r = filter is_trade (rp_events r)"

record order =
  od_id :: int
  od_client :: string
  od_side :: Side
  od_type :: OrderType
  od_tif :: TimeInForce
  od_quantity :: int
  od_price :: "int option"
  od_remaining :: int
  od_status :: OrderStatus

definition make_order :: "int \<Rightarrow> new_order \<Rightarrow> order" where
  "make_order seq cmd = \<lparr>od_id = seq, od_client = no_client cmd, od_side = no_side cmd, od_type = no_type cmd,
     od_tif = no_tif cmd, od_quantity = no_quantity cmd, od_price = no_price cmd,
     od_remaining = no_quantity cmd, od_status = NEW\<rparr>"

definition filled :: "order \<Rightarrow> int" where
  "filled x = od_quantity x - od_remaining x"

definition fill :: "order \<Rightarrow> int \<Rightarrow> py_error + order" where
  "fill x qty =
     (if 0 < qty \<and> qty \<le> od_remaining x
      then Inr (x\<lparr>od_remaining := od_remaining x - qty,
                  od_status := (if od_remaining x - qty = 0 then FILLED else PARTIALLY_FILLED)\<rparr>)
      else Inl AssertionError)"

type_synonym objs = "nat \<Rightarrow> order"

section \<open>Price levels\<close>

record level =
  lv_price :: int
  lv_orders :: "(int \<times> nat) list"
  lv_total :: int

definition new_level :: "int \<Rightarrow> level" where
  "new_level price = \<lparr>lv_price = price, lv_orders = [], lv_total = 0\<rparr>"

definition level_append :: "objs \<Rightarrow> level \<Rightarrow> nat \<Rightarrow> level" where
  "level_append ob lv a = lv\<lparr>lv_orders := AList.update (od_id (ob a)) a (lv_orders lv),
     lv_total := lv_total lv + od_remaining (ob a)\<rparr>"

definition level_head :: "level \<Rightarrow> py_error + nat" where
  "level_head lv = (case lv_orders lv of [] \<Rightarrow> Inl StopIteration | x # xs \<Rightarrow> Inr (snd x))"

definition fill_head :: "objs \<Rightarrow> level \<Rightarrow> int \<Rightarrow> py_error + objs \<times> level \<times> nat" where
  "fill_head ob lv qty =
     bind_sum (level_head lv) (\<lambda>a.
     bind_sum (fill (ob a) qty) (\<lambda>x.
       Inr (ob(a := x),
            lv\<lparr>lv_total := lv_total lv - qty,
               lv_orders := (if od_remaining x = 0 then tl (lv_orders lv) else lv_orders lv)\<rparr>,
            a)))"

definition level_remove :: "objs \<Rightarrow> level \<Rightarrow> int \<Rightarrow> py_error + level" where
  "level_remove ob lv order_id =
     (case map_of (lv_orders lv) order_id of
        None \<Rightarrow> Inl KeyError
      | Some a \<Rightarrow> Inr (lv\<lparr>lv_orders := AList.delete order_id (lv_orders lv), lv_total := lv_total lv - od_remaining (ob a)\<rparr>))"

section \<open>One side of the book\<close>

record book_side =
  bs_side :: Side
  bs_levels :: "(int \<times> level) list"
  bs_heap :: "int list"
  bs_in_heap :: "int set"

definition new_side :: "Side \<Rightarrow> book_side" where
  "new_side sd = \<lparr>bs_side = sd, bs_levels = [], bs_heap = [], bs_in_heap = {}\<rparr>"

fun price_key :: "Side \<Rightarrow> int \<Rightarrow> int" where
  "price_key BUY price = - price"
| "price_key SELL price = price"

fun best_loop :: "(int \<times> level) list \<Rightarrow> int list \<Rightarrow> int set \<Rightarrow> int list \<times> int set \<times> level option" where
  "best_loop levels [] in_heap = ([], in_heap, None)"
| "best_loop levels (k # heap) in_heap =
     (case map_of levels \<bar>k\<bar> of
        Some lv \<Rightarrow> (k # heap, in_heap, Some lv)
      | None \<Rightarrow> best_loop levels heap (in_heap - {\<bar>k\<bar>}))"

definition best_level :: "book_side \<Rightarrow> book_side \<times> level option" where
  "best_level s =
     (case best_loop (bs_levels s) (bs_heap s) (bs_in_heap s) of
        (heap, in_heap, lv) \<Rightarrow> (s\<lparr>bs_heap := heap, bs_in_heap := in_heap\<rparr>, lv))"

definition best_price :: "book_side \<Rightarrow> book_side \<times> int option" where
  "best_price s =
     (case best_level s of
        (s', None) \<Rightarrow> (s', None)
      | (s', Some lv) \<Rightarrow> (s', if lv_orders lv \<noteq> [] then Some (lv_price lv) else None))"

definition put_level :: "book_side \<Rightarrow> level \<Rightarrow> book_side" where
  "put_level s lv = s\<lparr>bs_levels := map (\<lambda>e. if fst e = lv_price lv then (fst e, lv) else e) (bs_levels s)\<rparr>"

definition side_add :: "objs \<Rightarrow> book_side \<Rightarrow> nat \<Rightarrow> py_error + book_side" where
  "side_add ob s a =
     (case od_price (ob a) of
        None \<Rightarrow> Inl AssertionError
      | Some price \<Rightarrow>
          (case map_of (bs_levels s) price of
             Some lv \<Rightarrow> Inr (put_level s (level_append ob lv a))
           | None \<Rightarrow>
               (let s1 = s\<lparr>bs_levels := AList.update price (level_append ob (new_level price) a) (bs_levels s)\<rparr>
                in Inr (if price \<notin> bs_in_heap s1
                        then s1\<lparr>bs_heap := insort (price_key (bs_side s1) price) (bs_heap s1),
                                bs_in_heap := insert price (bs_in_heap s1)\<rparr>
                        else s1))))"

definition drop_level_if_empty :: "book_side \<Rightarrow> level \<Rightarrow> py_error + book_side" where
  "drop_level_if_empty s lv =
     (if lv_orders lv = [] then
        (if map_of (bs_levels s) (lv_price lv) = None then Inl KeyError
         else Inr (s\<lparr>bs_levels := AList.delete (lv_price lv) (bs_levels s)\<rparr>))
      else Inr s)"

definition side_remove :: "objs \<Rightarrow> book_side \<Rightarrow> nat \<Rightarrow> py_error + book_side" where
  "side_remove ob s a =
     (case od_price (ob a) of
        None \<Rightarrow> Inl AssertionError
      | Some price \<Rightarrow>
          (case map_of (bs_levels s) price of
             None \<Rightarrow> Inl KeyError
           | Some lv \<Rightarrow>
               bind_sum (level_remove ob lv (od_id (ob a))) (\<lambda>lv1.
                 Inr (if lv_orders lv1 = [] then s\<lparr>bs_levels := AList.delete price (bs_levels s)\<rparr>
                      else put_level s lv1))))"

definition levels_of :: "book_side \<Rightarrow> level list" where
  "levels_of s = map (\<lambda>price. the (map_of (bs_levels s) price)) (sort_key (price_key (bs_side s)) (map fst (bs_levels s)))"

definition depth :: "book_side \<Rightarrow> (int \<times> int) list" where
  "depth s = map (\<lambda>lv. (lv_price lv, lv_total lv)) (levels_of s)"

section \<open>The book\<close>

record book =
  bk_bids :: book_side
  bk_asks :: book_side
  bk_objs :: objs
  bk_next :: nat
  bk_live :: "int \<Rightarrow> nat option"
  bk_trade :: int

definition new_book :: book where
  "new_book = \<lparr>bk_bids = new_side BUY, bk_asks = new_side SELL, bk_objs = (\<lambda>_. undefined), bk_next = 0,
     bk_live = (\<lambda>_. None), bk_trade = 1\<rparr>"

fun own_side :: "book \<Rightarrow> Side \<Rightarrow> book_side" where
  "own_side b BUY = bk_bids b"
| "own_side b SELL = bk_asks b"

fun set_side :: "book \<Rightarrow> Side \<Rightarrow> book_side \<Rightarrow> book" where
  "set_side b BUY s = b\<lparr>bk_bids := s\<rparr>"
| "set_side b SELL s = b\<lparr>bk_asks := s\<rparr>"

definition best_bid :: "book \<Rightarrow> book \<times> int option" where
  "best_bid b = (case best_price (bk_bids b) of (s, p) \<Rightarrow> (b\<lparr>bk_bids := s\<rparr>, p))"

definition best_ask :: "book \<Rightarrow> book \<times> int option" where
  "best_ask b = (case best_price (bk_asks b) of (s, p) \<Rightarrow> (b\<lparr>bk_asks := s\<rparr>, p))"

definition get_order :: "book \<Rightarrow> int \<Rightarrow> order option" where
  "get_order b order_id = map_option (bk_objs b) (bk_live b order_id)"

definition snapshot :: "book \<Rightarrow> (int \<times> int) list \<times> (int \<times> int) list" where
  "snapshot b = (depth (bk_bids b), depth (bk_asks b))"

definition validate :: "new_order \<Rightarrow> string option" where
  "validate cmd =
     (if no_quantity cmd \<le> 0 then Some ''quantity must be positive''
      else if no_type cmd = LIMIT \<and> (case no_price cmd of None \<Rightarrow> True | Some p \<Rightarrow> p \<le> 0)
      then Some ''limit order needs a positive price''
      else if no_type cmd = MARKET \<and> no_price cmd \<noteq> None then Some ''market order must not carry a price''
      else if no_type cmd = MARKET \<and> no_tif cmd = GTC
      then Some ''market order cannot be GTC (it would rest with no price)''
      else None)"

definition crosses :: "order \<Rightarrow> int \<Rightarrow> py_error + bool" where
  "crosses taker contra_price =
     (if od_type taker = MARKET then Inr True
      else (case od_price taker of
              None \<Rightarrow> Inl AssertionError
            | Some p \<Rightarrow> Inr (if od_side taker = BUY then contra_price \<le> p else contra_price \<ge> p)))"

fun can_fill_loop :: "order \<Rightarrow> int \<Rightarrow> level list \<Rightarrow> py_error + bool" where
  "can_fill_loop taker available [] = Inr False"
| "can_fill_loop taker available (lv # lvs) =
     bind_sum (crosses taker (lv_price lv)) (\<lambda>c.
       if \<not> c then Inr False
       else if available + lv_total lv \<ge> od_quantity taker then Inr True
       else can_fill_loop taker (available + lv_total lv) lvs)"

definition can_fill_completely :: "book \<Rightarrow> order \<Rightarrow> py_error + bool" where
  "can_fill_completely b taker = can_fill_loop taker 0 (levels_of (own_side b (opposite (od_side taker))))"

text \<open>What the loops of \<open>_match\<close> change besides the level and the side at hand.\<close>

record matching =
  ma_taker :: order
  ma_objs :: objs
  ma_live :: "int \<Rightarrow> nat option"
  ma_trade :: int
  ma_events :: "event list"

text \<open>One round of the inner loop: the order at the head of the level against the taker.\<close>

definition fill_one :: "int \<Rightarrow> level \<Rightarrow> matching \<Rightarrow> py_error + level \<times> matching" where
  "fill_one seq lv m =
     bind_sum (level_head lv) (\<lambda>h.
       let qty = min (od_remaining (ma_taker m)) (od_remaining (ma_objs m h)) in
       bind_sum (fill_head (ma_objs m) lv qty) (\<lambda>r.
         let ob = fst r; lv1 = fst (snd r); maker = ob (snd (snd r)) in
         bind_sum (fill (ma_taker m) qty) (\<lambda>taker.
           if od_remaining maker = 0 \<and> ma_live m (od_id maker) = None then Inl KeyError
           else Inr (lv1, \<lparr>ma_taker = taker, ma_objs = ob,
                  ma_live = (if od_remaining maker = 0 then (ma_live m)(od_id maker := None) else ma_live m),
                  ma_trade = ma_trade m + 1,
                  ma_events = ma_events m @ [Trade seq (ma_trade m) (lv_price lv1) qty (od_id maker) (od_id taker) (od_side taker)]\<rparr>))))"

lemma fill_one_remaining:
  "fill_one seq lv m = Inr (lv1, m1) \<Longrightarrow> 0 \<le> od_remaining (ma_taker m1) \<and> od_remaining (ma_taker m1) < od_remaining (ma_taker m)"
  by (auto simp: fill_one_def bind_sum_Inr fill_def Let_def split: if_splits)

function fill_loop :: "int \<Rightarrow> level \<Rightarrow> matching \<Rightarrow> py_error + level \<times> matching" where
  "fill_loop seq lv m =
     (if od_remaining (ma_taker m) > 0 \<and> lv_orders lv \<noteq> []
      then bind_sum (fill_one seq lv m) (\<lambda>r. fill_loop seq (fst r) (snd r))
      else Inr (lv, m))"
  by auto
termination
  by (relation "measure (\<lambda>(seq, lv, m). nat (od_remaining (ma_taker m)))") (auto dest!: fill_one_remaining)

declare fill_loop.simps [simp del]

lemma fill_loop_remaining:
  "fill_loop seq lv m = Inr (lv1, m1) \<Longrightarrow>
   (m1 = m \<and> lv1 = lv \<and> (od_remaining (ma_taker m) \<le> 0 \<or> lv_orders lv = []))
   \<or> od_remaining (ma_taker m1) < od_remaining (ma_taker m)"
proof (induction seq lv m rule: fill_loop.induct)
  case (1 seq lv m)
  show ?case
  proof (cases "od_remaining (ma_taker m) > 0 \<and> lv_orders lv \<noteq> []")
    case True
    then obtain r where r: "fill_one seq lv m = Inr r" "fill_loop seq (fst r) (snd r) = Inr (lv1, m1)"
      using "1.prems" fill_loop.simps [of seq lv m] by (auto simp: bind_sum_Inr)
    have "od_remaining (ma_taker (snd r)) < od_remaining (ma_taker m)"
      using fill_one_remaining [of seq lv m "fst r" "snd r"] r(1) by simp
    then show ?thesis using "1.IH" [OF True r] by auto
  next
    case False
    then show ?thesis using "1.prems" fill_loop.simps [of seq lv m] by auto
  qed
qed

lemma best_level_levels: "best_level s = (s', lv) \<Longrightarrow> bs_levels s' = bs_levels s"
  by (auto simp: best_level_def split: prod.splits)

lemma length_put_level [simp]: "length (bs_levels (put_level s lv)) = length (bs_levels s)"
  by (simp add: put_level_def)

lemma drop_level_length:
  "drop_level_if_empty s lv = Inr s' \<Longrightarrow> lv_orders lv = [] \<Longrightarrow> length (bs_levels s') < length (bs_levels s)"
  by (auto simp: drop_level_if_empty_def AList.delete_eq map_of_eq_None_iff split: if_splits
      intro!: length_filter_less)

lemma match_round_smaller:
  assumes "0 < od_remaining (ma_taker m)" "(contra1, Some lv) = best_level contra" "fill_loop seq lv m = Inr r"
    "drop_level_if_empty (put_level contra1 (fst r)) (fst r) = Inr contra2"
  shows "od_remaining (ma_taker (snd r)) < od_remaining (ma_taker m)
    \<or> od_remaining (ma_taker (snd r)) = od_remaining (ma_taker m) \<and> length (bs_levels contra2) < length (bs_levels contra)"
proof (cases "od_remaining (ma_taker (snd r)) < od_remaining (ma_taker m)")
  case False
  then have "snd r = m" "lv_orders (fst r) = []"
    using fill_loop_remaining [of seq lv m "fst r" "snd r"] assms(1,3) by auto
  then show ?thesis using drop_level_length [OF assms(4)] best_level_levels [OF assms(2) [symmetric]] by simp
qed simp

function match_loop :: "int \<Rightarrow> book_side \<Rightarrow> matching \<Rightarrow> py_error + book_side \<times> matching" where
  "match_loop seq contra m =
     (if od_remaining (ma_taker m) > 0
      then (case best_level contra of
              (contra1, None) \<Rightarrow> Inr (contra1, m)
            | (contra1, Some lv) \<Rightarrow>
                bind_sum (crosses (ma_taker m) (lv_price lv)) (\<lambda>c.
                  if \<not> c then Inr (contra1, m)
                  else bind_sum (fill_loop seq lv m) (\<lambda>r.
                    bind_sum (drop_level_if_empty (put_level contra1 (fst r)) (fst r)) (\<lambda>contra2.
                      match_loop seq contra2 (snd r)))))
      else Inr (contra, m))"
  by auto
termination
  by (relation "measures [\<lambda>(seq, contra, m). nat (od_remaining (ma_taker m)), \<lambda>(seq, contra, m). length (bs_levels contra)]")
    (auto dest: match_round_smaller)

declare match_loop.simps [simp del]

definition report_of :: "int \<Rightarrow> order \<Rightarrow> event list \<Rightarrow> report" where
  "report_of seq x events = \<lparr>rp_seq = seq, rp_order = od_id x, rp_status = od_status x, rp_filled = filled x,
     rp_remaining = od_remaining x, rp_events = events\<rparr>"

text \<open>\<open>_match\<close>: the book, the taker and the events after it.\<close>

definition match :: "int \<Rightarrow> book \<Rightarrow> order \<Rightarrow> event list \<Rightarrow> py_error + book \<times> order \<times> event list" where
  "match seq b taker events =
     (let sd = opposite (od_side taker) in
      bind_sum (match_loop seq (own_side b sd) \<lparr>ma_taker = taker, ma_objs = bk_objs b, ma_live = bk_live b,
           ma_trade = bk_trade b, ma_events = events\<rparr>) (\<lambda>r.
        let m = snd r in
        Inr ((set_side b sd (fst r))\<lparr>bk_objs := ma_objs m, bk_live := ma_live m, bk_trade := ma_trade m\<rparr>,
             ma_taker m, ma_events m)))"

text \<open>What \<open>_new_order\<close> does with the remainder.\<close>

definition finish_order :: "int \<Rightarrow> book \<Rightarrow> order \<Rightarrow> event list \<Rightarrow> py_error + book \<times> report" where
  "finish_order seq b x events =
     (if od_remaining x > 0 then
        (if od_type x = LIMIT \<and> od_tif x = GTC then
           (let a = bk_next b; ob = (bk_objs b)(a := x) in
            bind_sum (side_add ob (own_side b (od_side x)) a) (\<lambda>s.
              Inr ((set_side b (od_side x) s)\<lparr>bk_objs := ob, bk_next := Suc a, bk_live := (bk_live b)(od_id x \<mapsto> a)\<rparr>,
                   report_of seq x (events @ [OrderRested seq (od_id x) (od_side x) (od_price x) (od_remaining x)]))))
         else
           (let events1 = events @ [OrderCancelled seq (od_id x) (od_remaining x) ''unfilled remainder of IOC/market order'']
            in Inr (b, report_of seq (x\<lparr>od_status := CANCELLED\<rparr>) events1)))
      else Inr (b, report_of seq x events))"

definition new_order_cmd :: "int \<Rightarrow> book \<Rightarrow> new_order \<Rightarrow> py_error + book \<times> report" where
  "new_order_cmd seq b cmd =
     (case validate cmd of
        Some reason \<Rightarrow>
          Inr (b, \<lparr>rp_seq = seq, rp_order = seq, rp_status = REJECTED, rp_filled = 0, rp_remaining = no_quantity cmd,
                   rp_events = [OrderRejected seq seq reason]\<rparr>)
      | None \<Rightarrow>
          (let x = make_order seq cmd; events = [OrderAccepted seq (od_id x)] in
           bind_sum (if od_tif x = FOK then can_fill_completely b x else Inr True) (\<lambda>can.
             if \<not> can
             then Inr (b, report_of seq (x\<lparr>od_status := CANCELLED\<rparr>)
                        (events @ [OrderCancelled seq (od_id x) (od_remaining x) ''FOK: insufficient liquidity'']))
             else bind_sum (match seq b x events) (\<lambda>r. finish_order seq (fst r) (fst (snd r)) (snd (snd r))))))"

definition cancel_cmd :: "int \<Rightarrow> book \<Rightarrow> int \<Rightarrow> py_error + book \<times> report" where
  "cancel_cmd seq b order_id =
     (case bk_live b order_id of
        None \<Rightarrow>
          Inr (b, \<lparr>rp_seq = seq, rp_order = order_id, rp_status = REJECTED, rp_filled = 0, rp_remaining = 0,
                   rp_events = [OrderRejected seq order_id ''cancel rejected: order not live'']\<rparr>)
      | Some a \<Rightarrow>
          (let b1 = b\<lparr>bk_live := (bk_live b)(order_id := None)\<rparr>; x = bk_objs b a in
           bind_sum (side_remove (bk_objs b) (own_side b1 (od_side x)) a) (\<lambda>s.
             let x1 = x\<lparr>od_status := CANCELLED\<rparr> in
             Inr ((set_side b1 (od_side x) s)\<lparr>bk_objs := (bk_objs b)(a := x1)\<rparr>,
                  report_of seq x1 [OrderCancelled seq (od_id x1) (od_remaining x1) ''cancelled by client'']))))"

fun apply_cmd :: "int \<Rightarrow> book \<Rightarrow> command \<Rightarrow> py_error + book \<times> report" where
  "apply_cmd seq b (NewOrder cmd) = new_order_cmd seq b cmd"
| "apply_cmd seq b (CancelOrder order_id) = cancel_cmd seq b order_id"

text \<open>\<open>replay\<close>: a journal entry is a sequence number and a command.\<close>

fun replay_from :: "book \<Rightarrow> (int \<times> command) list \<Rightarrow> py_error + book \<times> report list" where
  "replay_from b [] = Inr (b, [])"
| "replay_from b (e # es) =
     bind_sum (apply_cmd (fst e) b (snd e)) (\<lambda>r.
     bind_sum (replay_from (fst r) es) (\<lambda>q. Inr (fst q, snd r # snd q)))"

definition replay :: "(int \<times> command) list \<Rightarrow> py_error + book \<times> report list" where
  "replay entries = replay_from new_book entries"

end
