(* ===== verification/Order_Book_Spec.thy ===== *)
theory Order_Book_Spec
  imports Order_Book
begin

text \<open>
  What the order book promises: a reference book that keeps the resting orders of each side in one list
  in price-time priority and serves an incoming order from the head of the list. The book of theory
  \<open>Order_Book\<close> (levels, heaps, dictionaries, shared orders) gives the same reports on every journal.
  From the reference book follow that the book is never crossed, that quantities add up, and that a
  better order is never passed over.
\<close>

section \<open>The reference book\<close>

definition price_of :: "order \<Rightarrow> int" where
  "price_of x = the (od_price x)"

definition rank :: "order \<Rightarrow> int" where
  "rank x = price_key (od_side x) (price_of x)"

definition takes :: "order \<Rightarrow> int \<Rightarrow> bool" where
  "takes taker p \<longleftrightarrow> od_type taker = MARKET \<or> (if od_side taker = BUY then p \<le> price_of taker else price_of taker \<le> p)"

definition fill_by :: "order \<Rightarrow> int \<Rightarrow> order" where
  "fill_by x qty = x\<lparr>od_remaining := od_remaining x - qty,
     od_status := (if od_remaining x = qty then FILLED else PARTIALLY_FILLED)\<rparr>"

fun ref_match :: "int \<Rightarrow> order \<Rightarrow> order list \<Rightarrow> int \<Rightarrow> order \<times> order list \<times> int \<times> event list" where
  "ref_match seq taker [] tid = (taker, [], tid, [])"
| "ref_match seq taker (x # xs) tid =
     (if 0 < od_remaining taker \<and> takes taker (price_of x) then
        (let qty = min (od_remaining taker) (od_remaining x);
             e = Trade seq tid (price_of x) qty (od_id x) (od_id taker) (od_side taker)
         in if od_remaining x = qty
            then (case ref_match seq (fill_by taker qty) xs (tid + 1) of (t, ys, tid1, es) \<Rightarrow> (t, ys, tid1, e # es))
            else (fill_by taker qty, fill_by x qty # xs, tid + 1, [e]))
      else (taker, x # xs, tid, []))"

definition rest_order :: "order \<Rightarrow> order list \<Rightarrow> order list" where
  "rest_order x xs = takeWhile (\<lambda>y. rank y \<le> rank x) xs @ x # dropWhile (\<lambda>y. rank y \<le> rank x) xs"

record ref_book =
  rb_bids :: "order list"
  rb_asks :: "order list"
  rb_trade :: int

fun ref_side :: "ref_book \<Rightarrow> Side \<Rightarrow> order list" where
  "ref_side B BUY = rb_bids B"
| "ref_side B SELL = rb_asks B"

fun set_ref_side :: "ref_book \<Rightarrow> Side \<Rightarrow> order list \<Rightarrow> ref_book" where
  "set_ref_side B BUY xs = B\<lparr>rb_bids := xs\<rparr>"
| "set_ref_side B SELL xs = B\<lparr>rb_asks := xs\<rparr>"

definition empty_ref :: ref_book where
  "empty_ref = \<lparr>rb_bids = [], rb_asks = [], rb_trade = 1\<rparr>"

definition available :: "order \<Rightarrow> order list \<Rightarrow> int" where
  "available taker xs = sum_list (map od_remaining (filter (\<lambda>x. takes taker (price_of x)) xs))"

definition ref_settle :: "int \<Rightarrow> ref_book \<Rightarrow> order \<Rightarrow> event list \<Rightarrow> ref_book \<times> report" where
  "ref_settle seq B x evs =
     (if 0 < od_remaining x then
        (if od_type x = LIMIT \<and> od_tif x = GTC
         then (set_ref_side B (od_side x) (rest_order x (ref_side B (od_side x))),
               report_of seq x (evs @ [OrderRested seq (od_id x) (od_side x) (od_price x) (od_remaining x)]))
         else (B, report_of seq (x\<lparr>od_status := CANCELLED\<rparr>)
                 (evs @ [OrderCancelled seq (od_id x) (od_remaining x) ''unfilled remainder of IOC/market order''])))
      else (B, report_of seq x evs))"

definition ref_new :: "int \<Rightarrow> ref_book \<Rightarrow> new_order \<Rightarrow> ref_book \<times> report" where
  "ref_new seq B cmd =
     (case validate cmd of
        Some reason \<Rightarrow>
          (B, \<lparr>rp_seq = seq, rp_order = seq, rp_status = REJECTED, rp_filled = 0, rp_remaining = no_quantity cmd,
               rp_events = [OrderRejected seq seq reason]\<rparr>)
      | None \<Rightarrow>
          (let x = make_order seq cmd; sd = opposite (no_side cmd) in
           if no_tif cmd = FOK \<and> available x (ref_side B sd) < no_quantity cmd
           then (B, report_of seq (x\<lparr>od_status := CANCELLED\<rparr>)
                      [OrderAccepted seq seq, OrderCancelled seq seq (no_quantity cmd) ''FOK: insufficient liquidity''])
           else (case ref_match seq x (ref_side B sd) (rb_trade B) of
                   (t, ys, tid, es) \<Rightarrow>
                     ref_settle seq ((set_ref_side B sd ys)\<lparr>rb_trade := tid\<rparr>) t (OrderAccepted seq seq # es))))"

definition ref_cancel :: "int \<Rightarrow> ref_book \<Rightarrow> int \<Rightarrow> ref_book \<times> report" where
  "ref_cancel seq B i =
     (case find (\<lambda>x. od_id x = i) (rb_bids B @ rb_asks B) of
        None \<Rightarrow>
          (B, \<lparr>rp_seq = seq, rp_order = i, rp_status = REJECTED, rp_filled = 0, rp_remaining = 0,
               rp_events = [OrderRejected seq i ''cancel rejected: order not live'']\<rparr>)
      | Some x \<Rightarrow>
          (B\<lparr>rb_bids := filter (\<lambda>y. od_id y \<noteq> i) (rb_bids B), rb_asks := filter (\<lambda>y. od_id y \<noteq> i) (rb_asks B)\<rparr>,
           report_of seq (x\<lparr>od_status := CANCELLED\<rparr>) [OrderCancelled seq i (od_remaining x) ''cancelled by client'']))"

fun ref_apply :: "int \<Rightarrow> ref_book \<Rightarrow> command \<Rightarrow> ref_book \<times> report" where
  "ref_apply seq B (NewOrder cmd) = ref_new seq B cmd"
| "ref_apply seq B (CancelOrder i) = ref_cancel seq B i"

fun ref_replay :: "ref_book \<Rightarrow> (int \<times> command) list \<Rightarrow> ref_book \<times> report list" where
  "ref_replay B [] = (B, [])"
| "ref_replay B (e # es) =
     (case ref_apply (fst e) B (snd e) of
        (B1, r) \<Rightarrow> (case ref_replay B1 es of (B2, rs) \<Rightarrow> (B2, r # rs)))"

section \<open>When a book represents a reference book\<close>

definition resting :: "Side \<Rightarrow> order \<Rightarrow> bool" where
  "resting sd x \<longleftrightarrow> od_side x = sd \<and> 0 < od_remaining x \<and> (\<exists>p > 0. od_price x = Some p)"

definition holds :: "objs \<Rightarrow> int \<Rightarrow> level \<Rightarrow> nat list \<Rightarrow> bool" where
  "holds ob p lv as \<longleftrightarrow> lv_price lv = p \<and> lv_orders lv = map (\<lambda>a. (od_id (ob a), a)) as
     \<and> lv_total lv = sum_list (map (\<lambda>a. od_remaining (ob a)) as)"

fun level_ok :: "objs \<Rightarrow> int \<Rightarrow> level option \<Rightarrow> nat list \<Rightarrow> bool" where
  "level_ok ob p None as \<longleftrightarrow> as = []"
| "level_ok ob p (Some lv) as \<longleftrightarrow> as \<noteq> [] \<and> holds ob p lv as"

abbreviation priced :: "objs \<Rightarrow> int \<Rightarrow> nat list \<Rightarrow> nat list" where
  "priced ob p A \<equiv> filter (\<lambda>a. od_price (ob a) = Some p) A"

definition heap_ok :: "book_side \<Rightarrow> bool" where
  "heap_ok s \<longleftrightarrow> sorted (bs_heap s) \<and> distinct (bs_heap s) \<and> set (bs_heap s) = price_key (bs_side s) ` bs_in_heap s
     \<and> fst ` set (bs_levels s) \<subseteq> bs_in_heap s \<and> (\<forall>p \<in> bs_in_heap s. 0 < p)"

definition levels_ok :: "Side \<Rightarrow> (int \<times> level) list \<Rightarrow> objs \<Rightarrow> nat list \<Rightarrow> bool" where
  "levels_ok sd lvs ob A \<longleftrightarrow> distinct (map fst lvs) \<and> distinct A \<and> sorted (map (\<lambda>a. rank (ob a)) A)
     \<and> (\<forall>a \<in> set A. resting sd (ob a)) \<and> (\<forall>p. level_ok ob p (map_of lvs p) (priced ob p A))"

definition side_rel :: "Side \<Rightarrow> book_side \<Rightarrow> objs \<Rightarrow> nat list \<Rightarrow> bool" where
  "side_rel sd s ob A \<longleftrightarrow> bs_side s = sd \<and> heap_ok s \<and> levels_ok sd (bs_levels s) ob A"

definition live_ok :: "objs \<Rightarrow> (int \<Rightarrow> nat option) \<Rightarrow> nat set \<Rightarrow> bool" where
  "live_ok ob live S \<longleftrightarrow> (\<forall>i a. live i = Some a \<longleftrightarrow> a \<in> S \<and> od_id (ob a) = i)"

section \<open>The best level\<close>

lemma abs_price_key: "0 < p \<Longrightarrow> \<bar>price_key sd p\<bar> = p"
  by (cases sd) auto

lemma price_key_inj: "price_key sd p = price_key sd q \<longleftrightarrow> p = q"
  by (cases sd) auto

lemma best_loop_correct:
  assumes "best_loop lvs heap H = (heap', H', r)"
    "sorted heap" "distinct heap" "set heap = price_key sd ` H" "fst ` set lvs \<subseteq> H" "\<forall>p \<in> H. 0 < p"
  shows "sorted heap' \<and> distinct heap' \<and> set heap' = price_key sd ` H' \<and> fst ` set lvs \<subseteq> H' \<and> (\<forall>p \<in> H'. 0 < p)
    \<and> (case r of None \<Rightarrow> lvs = [] | Some lv \<Rightarrow> \<exists>p. map_of lvs p = Some lv \<and> (\<forall>q \<in> fst ` set lvs. price_key sd p \<le> price_key sd q))"
  using assms
proof (induction heap arbitrary: H)
  case Nil
  then show ?case by (cases lvs) auto
next
  case (Cons k heap)
  obtain p where p: "p \<in> H" "k = price_key sd p" using Cons.prems(4) by auto
  have k: "\<bar>k\<bar> = p" using p Cons.prems(6) by (simp add: abs_price_key)
  show ?case
  proof (cases "map_of lvs p")
    case None
    have "inj (price_key sd)" by (simp add: inj_def price_key_inj)
    then have "price_key sd ` (H - {p}) = price_key sd ` H - {k}" using p(2) by (simp add: image_set_diff)
    then have rest: "set heap = price_key sd ` (H - {p})" using Cons.prems(3,4) by auto
    have "p \<notin> fst ` set lvs" using None by (simp add: map_of_eq_None_iff)
    then have sub: "fst ` set lvs \<subseteq> H - {p}" using Cons.prems(5) by blast
    show ?thesis by (rule Cons.IH [of "H - {p}", OF _ _ _ rest sub]) (use Cons.prems None k in simp_all)
  next
    case (Some lv)
    have "price_key sd p \<le> price_key sd q" if "q \<in> fst ` set lvs" for q
    proof -
      have "price_key sd q \<in> set (k # heap)" using that Cons.prems(4,5) by auto
      then show ?thesis using Cons.prems(2) p(2) by auto
    qed
    moreover have "heap' = k # heap" "H' = H" "r = Some lv" using Cons.prems(1) Some k by auto
    ultimately show ?thesis using Cons.prems(2-) Some by auto
  qed
qed

lemma restingD:
  assumes "resting sd x"
  shows "od_side x = sd" "0 < od_remaining x" "od_price x = Some (price_of x)" "0 < price_of x"
    "rank x = price_key sd (price_of x)"
  using assms by (auto simp: resting_def price_of_def rank_def)

lemma sorted_split_least:
  assumes "sorted (map f xs)" "\<And>x. x \<in> set xs \<Longrightarrow> c \<le> f x"
  shows "xs = filter (\<lambda>x. f x = c) xs @ filter (\<lambda>x. f x \<noteq> (c::int)) xs"
  using assms
proof (induction xs)
  case (Cons x xs)
  show ?case
  proof (cases "f x = c")
    case False
    then have "f y \<noteq> c" if "y \<in> set xs" for y using Cons.prems that by force
    then show ?thesis using False by (simp add: filter_empty_conv filter_id_conv)
  qed (use Cons in simp)
qed simp

lemma levels_okD:
  assumes "levels_ok sd lvs ob A"
  shows "distinct (map fst lvs)" "distinct A" "sorted (map (\<lambda>a. rank (ob a)) A)" "\<And>a. a \<in> set A \<Longrightarrow> resting sd (ob a)"
    "\<And>p. level_ok ob p (map_of lvs p) (priced ob p A)"
  using assms by (auto simp: levels_ok_def)

lemma levels_ok_at:
  assumes "levels_ok sd lvs ob A" "a \<in> set A"
  obtains lv where "map_of lvs (price_of (ob a)) = Some lv" "holds ob (price_of (ob a)) lv (priced ob (price_of (ob a)) A)"
proof -
  have "a \<in> set (priced ob (price_of (ob a)) A)" using assms levels_okD(4) [OF assms] restingD(3) by auto
  then have "priced ob (price_of (ob a)) A \<noteq> []" by (metis empty_iff empty_set)
  moreover note levels_okD(5) [OF assms(1), of "price_of (ob a)"]
  ultimately show thesis using that by (cases "map_of lvs (price_of (ob a))") auto
qed

lemma levels_ok_member:
  assumes "levels_ok sd lvs ob A" "map_of lvs p = Some lv"
  obtains a where "a \<in> set A" "price_of (ob a) = p"
proof -
  have "priced ob p A \<noteq> []" using levels_okD(5) [OF assms(1), of p] assms(2) by simp
  then obtain a where "a \<in> set A" "od_price (ob a) = Some p" by (auto simp: filter_empty_conv)
  then show thesis using that by (simp add: price_of_def)
qed

lemma best_level_rel:
  assumes rel: "side_rel sd s ob A" and best: "best_level s = (s', r)"
  shows "side_rel sd s' ob A" "bs_levels s' = bs_levels s"
    "case r of None \<Rightarrow> A = [] | Some lv \<Rightarrow> A \<noteq> [] \<and> map_of (bs_levels s) (price_of (ob (hd A))) = Some lv"
proof -
  obtain heap' H' where loop: "best_loop (bs_levels s) (bs_heap s) (bs_in_heap s) = (heap', H', r)"
    and s': "s' = s\<lparr>bs_heap := heap', bs_in_heap := H'\<rparr>"
    using best by (auto simp: best_level_def split: prod.splits)
  have ok: "levels_ok sd (bs_levels s) ob A" "heap_ok s" "bs_side s = sd" using rel by (auto simp: side_rel_def)
  have bl': "sorted heap'" "distinct heap'" "set heap' = price_key sd ` H'" "fst ` set (bs_levels s) \<subseteq> H'" "\<forall>p \<in> H'. 0 < p"
    and r: "case r of None \<Rightarrow> bs_levels s = []
      | Some lv \<Rightarrow> \<exists>p. map_of (bs_levels s) p = Some lv \<and> (\<forall>q \<in> fst ` set (bs_levels s). price_key sd p \<le> price_key sd q)"
    using best_loop_correct [OF loop, of sd] ok(2) unfolding heap_ok_def ok(3) by simp_all
  show "side_rel sd s' ob A" using ok bl' by (simp add: side_rel_def s' heap_ok_def)
  show "bs_levels s' = bs_levels s" by (simp add: s')
  show "case r of None \<Rightarrow> A = [] | Some lv \<Rightarrow> A \<noteq> [] \<and> map_of (bs_levels s) (price_of (ob (hd A))) = Some lv"
  proof (cases r)
    case None
    then have "bs_levels s = []" using r by simp
    then have "A = []" using levels_ok_at [OF ok(1)] by (metis list.set_intros(1) map_of.simps(1) neq_Nil_conv option.distinct(1))
    then show ?thesis using None by simp
  next
    case (Some lv)
    then obtain p where p: "map_of (bs_levels s) p = Some lv"
      "\<And>q. q \<in> fst ` set (bs_levels s) \<Longrightarrow> price_key sd p \<le> price_key sd q" using r by auto
    obtain a where a: "a \<in> set A" "price_of (ob a) = p" using levels_ok_member [OF ok(1) p(1)] .
    then have hd: "hd A \<in> set A" by (cases A) auto
    let ?q = "price_of (ob (hd A))"
    obtain lv' where "map_of (bs_levels s) ?q = Some lv'" using levels_ok_at [OF ok(1) hd] .
    then have "?q \<in> fst ` set (bs_levels s)" by (metis map_of_eq_None_iff option.distinct(1))
    then have "price_key sd p \<le> price_key sd ?q" by (rule p(2))
    moreover have "rank (ob (hd A)) \<le> rank (ob a)" using levels_okD(3) [OF ok(1)] a(1) by (cases A) auto
    moreover have "rank (ob (hd A)) = price_key sd ?q" "rank (ob a) = price_key sd p"
      using restingD(5) [OF levels_okD(4) [OF ok(1) hd]] restingD(5) [OF levels_okD(4) [OF ok(1) a(1)]] a(2) by simp_all
    ultimately have "price_key sd p = price_key sd ?q" by linarith
    then have "p = ?q" by (simp only: price_key_inj)
    then show ?thesis using p(1) a(1) Some by auto
  qed
qed

lemma best_split:
  assumes "levels_ok sd lvs ob A" "A \<noteq> []" "p = price_of (ob (hd A))"
  shows "A = priced ob p A @ filter (\<lambda>a. od_price (ob a) \<noteq> Some p) A"
proof -
  note ok = levels_okD [OF assms(1)]
  have hd: "hd A \<in> set A" using assms(2) by simp
  have le: "rank (ob (hd A)) \<le> rank (ob a)" if "a \<in> set A" for a using ok(3) that by (cases A) auto
  have eq: "rank (ob a) = rank (ob (hd A)) \<longleftrightarrow> od_price (ob a) = Some p" if "a \<in> set A" for a
    using ok(4) [OF that] ok(4) [OF hd] assms(3) by (simp add: restingD price_key_inj)
  have split: "A = filter (\<lambda>a. rank (ob a) = rank (ob (hd A))) A @ filter (\<lambda>a. rank (ob a) \<noteq> rank (ob (hd A))) A"
    by (rule sorted_split_least [OF ok(3) le])
  have "filter (\<lambda>a. rank (ob a) = rank (ob (hd A))) A = priced ob p A"
    "filter (\<lambda>a. rank (ob a) \<noteq> rank (ob (hd A))) A = filter (\<lambda>a. od_price (ob a) \<noteq> Some p) A"
    by (auto intro!: filter_cong simp: eq)
  then show ?thesis by (intro trans [OF split]) (simp only:)
qed

section \<open>Matching refines\<close>

lemma fill_fill_by: "0 < qty \<Longrightarrow> qty \<le> od_remaining x \<Longrightarrow> fill x qty = Inr (fill_by x qty)"
  by (auto simp: fill_def fill_by_def)

lemma fill_by_simps [simp]:
  "od_remaining (fill_by x qty) = od_remaining x - qty" "od_id (fill_by x qty) = od_id x"
  "od_price (fill_by x qty) = od_price x" "od_side (fill_by x qty) = od_side x" "od_type (fill_by x qty) = od_type x"
  "od_tif (fill_by x qty) = od_tif x" "od_quantity (fill_by x qty) = od_quantity x"
  "price_of (fill_by x qty) = price_of x" "rank (fill_by x qty) = rank x" "takes (fill_by x qty) = takes x"
  by (auto simp: fill_by_def price_of_def rank_def takes_def fun_eq_iff)

lemma resting_fill_by: "resting sd x \<Longrightarrow> qty < od_remaining x \<Longrightarrow> resting sd (fill_by x qty)"
  by (simp add: resting_def)

lemma fill_one_eq:
  assumes "lv_orders lv = (i, a) # rest" "qty = min (od_remaining (ma_taker m)) (od_remaining (ma_objs m a))" "0 < qty"
    "ma_live m (od_id (ma_objs m a)) \<noteq> None"
  shows "fill_one seq lv m =
    Inr (lv\<lparr>lv_total := lv_total lv - qty,
            lv_orders := (if od_remaining (ma_objs m a) = qty then rest else (i, a) # rest)\<rparr>,
         \<lparr>ma_taker = fill_by (ma_taker m) qty, ma_objs = (ma_objs m)(a := fill_by (ma_objs m a) qty),
          ma_live = (if od_remaining (ma_objs m a) = qty then (ma_live m)(od_id (ma_objs m a) := None) else ma_live m),
          ma_trade = ma_trade m + 1,
          ma_events = ma_events m @ [Trade seq (ma_trade m) (lv_price lv) qty (od_id (ma_objs m a)) (od_id (ma_taker m)) (od_side (ma_taker m))]\<rparr>)"
proof -
  have head: "level_head lv = Inr a" using assms(1) by (simp add: level_head_def)
  have "fill_head (ma_objs m) lv qty = Inr ((ma_objs m)(a := fill_by (ma_objs m a) qty),
      lv\<lparr>lv_total := lv_total lv - qty,
         lv_orders := (if od_remaining (ma_objs m a) = qty then rest else (i, a) # rest)\<rparr>, a)"
    using assms(1-3) by (simp add: fill_head_def head fill_fill_by)
  moreover have "fill (ma_taker m) qty = Inr (fill_by (ma_taker m) qty)" using assms(2,3) by (simp add: fill_fill_by)
  ultimately show ?thesis using assms(2,4) by (simp add: fill_one_def head Let_def)
qed

lemma live_ok_inj:
  assumes "live_ok ob live S" "a \<in> S" "b \<in> S" "od_id (ob a) = od_id (ob b)"
  shows "a = b"
  using assms unfolding live_ok_def by (metis option.inject)

lemma live_ok_cong:
  "live_ok ob live S \<Longrightarrow> (\<And>a. a \<in> S \<Longrightarrow> od_id (ob' a) = od_id (ob a)) \<Longrightarrow> live_ok ob' live S"
  unfolding live_ok_def by metis

lemma live_ok_remove:
  assumes "live_ok ob live (insert a S)" "a \<notin> S"
  shows "live_ok ob (live(od_id (ob a) := None)) S"
proof -
  have "od_id (ob b) \<noteq> od_id (ob a)" if "b \<in> S" for b using live_ok_inj [OF assms(1), of b a] assms(2) that by auto
  then show ?thesis using assms(1) unfolding live_ok_def by auto
qed

lemma holds_cong: "(\<And>a. a \<in> set as \<Longrightarrow> ob' a = ob a) \<Longrightarrow> holds ob' p lv as = holds ob p lv as"
  unfolding holds_def by (simp cong: map_cong)

lemma ref_match_idle: "od_remaining taker \<le> 0 \<Longrightarrow> ref_match seq taker xs tid = (taker, xs, tid, [])"
  by (cases xs) simp_all

lemma fill_loop_idle: "od_remaining (ma_taker m) \<le> 0 \<or> lv_orders lv = [] \<Longrightarrow> fill_loop seq lv m = Inr (lv, m)"
  using fill_loop.simps [of seq lv m] by auto

lemma fill_loop_step:
  "0 < od_remaining (ma_taker m) \<Longrightarrow> lv_orders lv \<noteq> [] \<Longrightarrow> fill_one seq lv m = Inr (lv1, m1) \<Longrightarrow>
   fill_loop seq lv m = fill_loop seq lv1 m1"
  using fill_loop.simps [of seq lv m] by simp

text \<open>The inner loop serves the orders of one level as the reference serves them.\<close>

definition level_state :: "Side \<Rightarrow> int \<Rightarrow> level \<Rightarrow> matching \<Rightarrow> nat list \<Rightarrow> nat set \<Rightarrow> bool" where
  "level_state sd p lv m B C \<longleftrightarrow> holds (ma_objs m) p lv B \<and> distinct B \<and> live_ok (ma_objs m) (ma_live m) (set B \<union> C)
     \<and> set B \<inter> C = {} \<and> (\<forall>a \<in> set B. resting sd (ma_objs m a) \<and> od_price (ma_objs m a) = Some p)"

lemma fill_one_level_state:
  assumes st: "level_state sd p lv m (a # B) C" and pos: "0 < od_remaining (ma_taker m)"
    and qty: "qty = min (od_remaining (ma_taker m)) (od_remaining (ma_objs m a))"
  obtains lv1 m1 where "fill_one seq lv m = Inr (lv1, m1)" "ma_taker m1 = fill_by (ma_taker m) qty"
    "ma_objs m1 = (ma_objs m)(a := fill_by (ma_objs m a) qty)" "ma_trade m1 = ma_trade m + 1"
    "ma_events m1 = ma_events m @ [Trade seq (ma_trade m) p qty (od_id (ma_objs m a)) (od_id (ma_taker m)) (od_side (ma_taker m))]"
    "level_state sd p lv1 m1 (if od_remaining (ma_objs m a) = qty then B else a # B) C"
proof -
  let ?ob = "ma_objs m" and ?ob1 = "(ma_objs m)(a := fill_by (ma_objs m a) qty)"
  have h: "lv_orders lv = (od_id (?ob a), a) # map (\<lambda>a. (od_id (?ob a), a)) B" "lv_price lv = p"
    "lv_total lv = od_remaining (?ob a) + sum_list (map (\<lambda>a. od_remaining (?ob a)) B)"
    and B: "distinct B" "a \<notin> set B" "a \<notin> C" "set B \<inter> C = {}"
    and live: "live_ok ?ob (ma_live m) (insert a (set B \<union> C))"
    and rest: "resting sd (?ob a)" "od_price (?ob a) = Some p" "\<forall>b \<in> set B. resting sd (?ob b) \<and> od_price (?ob b) = Some p"
    using st by (auto simp: level_state_def holds_def)
  have q: "0 < qty" using pos rest(1) qty by (simp add: resting_def)
  have "ma_live m (od_id (?ob a)) = Some a" using live by (simp add: live_ok_def)
  note step = fill_one_eq [OF h(1) qty q, of seq, unfolded this h(2), simplified]
  have rest1: "\<forall>b \<in> set B. resting sd (?ob1 b) \<and> od_price (?ob1 b) = Some p" using rest(3) B(2) by auto
  show thesis
  proof (cases "od_remaining (?ob a) = qty")
    case True
    let ?lv = "lv\<lparr>lv_total := lv_total lv - qty, lv_orders := map (\<lambda>a. (od_id (?ob a), a)) B\<rparr>"
    have "live_ok ?ob ((ma_live m)(od_id (?ob a) := None)) (set B \<union> C)" using live_ok_remove [OF live] B by simp
    then have l: "live_ok ?ob1 ((ma_live m)(od_id (?ob a) := None)) (set B \<union> C)" by (rule live_ok_cong) simp
    have "holds ?ob p ?lv B" using h True by (simp add: holds_def)
    then have "holds ?ob1 p ?lv B" by (subst holds_cong [of B ?ob1 ?ob]) (use B(2) in auto)
    then show thesis using that [OF step] True B l rest1 unfolding level_state_def by (simp del: fun_upd_apply)
  next
    case False
    let ?lv = "lv\<lparr>lv_total := lv_total lv - qty, lv_orders := (od_id (?ob a), a) # map (\<lambda>a. (od_id (?ob a), a)) B\<rparr>"
    have "qty < od_remaining (?ob a)" using False qty by simp
    then have r: "resting sd (fill_by (?ob a) qty)" using rest(1) by (rule resting_fill_by [rotated])
    have l: "live_ok ?ob1 (ma_live m) (insert a (set B \<union> C))" by (rule live_ok_cong [OF live]) simp
    have "sum_list (map (\<lambda>b. od_remaining (?ob1 b)) B) = sum_list (map (\<lambda>b. od_remaining (?ob b)) B)"
      by (rule arg_cong [where f = sum_list]) (use B(2) in auto)
    then have "holds ?ob1 p ?lv (a # B)" using h B(2) by (auto simp: holds_def)
    then show thesis using that [OF step] False B l rest1 r rest(2) unfolding level_state_def
      by (simp del: fun_upd_apply) (simp add: fun_upd_apply)
  qed
qed

lemma fill_loop_ref:
  assumes "level_state sd p lv m B C" "takes (ma_taker m) p"
    "ref_match seq (ma_taker m) (map (ma_objs m) B) (ma_trade m) = (t', ys, tid', es)"
  shows "\<exists>lv' m' B'. fill_loop seq lv m = Inr (lv', m') \<and> ma_taker m' = t' \<and> ma_trade m' = tid' \<and> ma_events m' = ma_events m @ es
    \<and> set B' \<subseteq> set B \<and> map (ma_objs m') B' = ys \<and> level_state sd p lv' m' B' C \<and> (\<forall>a. a \<notin> set B \<longrightarrow> ma_objs m' a = ma_objs m a)"
  using assms
proof (induction B arbitrary: lv m es)
  case Nil
  then have "lv_orders lv = []" by (simp add: level_state_def holds_def)
  then show ?case using Nil fill_loop_idle [of m lv seq] by auto
next
  case (Cons a B)
  let ?ob = "ma_objs m" and ?t = "ma_taker m"
  show ?case
  proof (cases "0 < od_remaining ?t")
    case False
    then show ?thesis using Cons.prems fill_loop_idle [of m lv seq] ref_match_idle [of ?t]
      by (intro exI [of _ lv] exI [of _ m] exI [of _ "a # B"]) auto
  next
    case True
    define qty where "qty = min (od_remaining ?t) (od_remaining (?ob a))"
    have pa: "price_of (?ob a) = p" and ne: "lv_orders lv \<noteq> []" and aB: "a \<notin> set B"
      using Cons.prems(1) by (auto simp: level_state_def holds_def price_of_def)
    obtain lv1 m1 where one: "fill_one seq lv m = Inr (lv1, m1)" and m1: "ma_taker m1 = fill_by ?t qty"
      "ma_objs m1 = ?ob(a := fill_by (?ob a) qty)" "ma_trade m1 = ma_trade m + 1"
      "ma_events m1 = ma_events m @ [Trade seq (ma_trade m) p qty (od_id (?ob a)) (od_id ?t) (od_side ?t)]"
      and st1: "level_state sd p lv1 m1 (if od_remaining (?ob a) = qty then B else a # B) C"
      using fill_one_level_state [OF Cons.prems(1) True qty_def, of seq] .
    note loop = fill_loop_step [OF True ne one]
    show ?thesis
    proof (cases "od_remaining (?ob a) = qty")
      case eq: True
      have "map (ma_objs m1) B = map ?ob B" using m1(2) aB by auto
      then obtain es1 where ref1: "ref_match seq (ma_taker m1) (map (ma_objs m1) B) (ma_trade m1) = (t', ys, tid', es1)"
        and es: "es = Trade seq (ma_trade m) p qty (od_id (?ob a)) (od_id ?t) (od_side ?t) # es1"
        using Cons.prems(2,3) True eq m1(1,3) pa by (auto simp: Let_def qty_def [symmetric] split: prod.splits)
      have "takes (ma_taker m1) p" using Cons.prems(2) m1(1) by simp
      moreover have "level_state sd p lv1 m1 B C" using st1 eq by simp
      ultimately obtain lv' m' B' where
        "fill_loop seq lv1 m1 = Inr (lv', m')" "ma_taker m' = t'" "ma_trade m' = tid'" "ma_events m' = ma_events m1 @ es1"
        "set B' \<subseteq> set B" "map (ma_objs m') B' = ys" "level_state sd p lv' m' B' C" "\<forall>a. a \<notin> set B \<longrightarrow> ma_objs m' a = ma_objs m1 a"
        using Cons.IH [OF _ _ ref1] by blast
      then show ?thesis using loop m1(2,4) es by (intro exI [of _ lv'] exI [of _ m'] exI [of _ B']) auto
    next
      case False
      then have "od_remaining ?t = qty" by (simp add: qty_def min_def split: if_splits)
      then have "fill_loop seq lv1 m1 = Inr (lv1, m1)" using m1(1) by (intro fill_loop_idle) simp
      moreover have "t' = fill_by ?t qty \<and> ys = fill_by (?ob a) qty # map ?ob B \<and> tid' = ma_trade m + 1
          \<and> es = [Trade seq (ma_trade m) p qty (od_id (?ob a)) (od_id ?t) (od_side ?t)]"
        using Cons.prems(2,3) True False pa by (auto simp: Let_def qty_def [symmetric])
      moreover have "map (ma_objs m1) (a # B) = fill_by (?ob a) qty # map ?ob B" using m1(2) aB by auto
      ultimately show ?thesis using loop m1 st1 False
        by (intro exI [of _ lv1] exI [of _ m1] exI [of _ "a # B"]) simp
    qed
  qed
qed

lemma ref_match_append:
  assumes "ref_match seq t xs tid = (t1, ys, tid1, es1)"
  shows "ref_match seq t (xs @ zs) tid =
    (if ys = [] then (case ref_match seq t1 zs tid1 of (t2, ws, tid2, es2) \<Rightarrow> (t2, ws, tid2, es1 @ es2))
     else (t1, ys @ zs, tid1, es1))"
  using assms
proof (induction seq t xs tid arbitrary: es1 rule: ref_match.induct)
  case (2 seq t x xs tid)
  show ?case
  proof (cases "0 < od_remaining t \<and> takes t (price_of x) \<and> od_remaining x \<le> od_remaining t")
    case True
    then obtain es where "ref_match seq (fill_by t (od_remaining x)) xs (tid + 1) = (t1, ys, tid1, es)"
      using "2.prems" by (auto simp: Let_def split: prod.splits)
    then show ?thesis using "2.IH" [OF _ refl refl] True "2.prems" by (auto simp: Let_def split: prod.splits)
  next
    case False
    then show ?thesis using "2.prems" by (auto simp: Let_def min_def)
  qed
qed (auto split: prod.splits)

lemma ref_match_left:
  assumes "ref_match seq t xs tid = (t1, ys, tid1, es)" "ys \<noteq> []" "\<And>x. x \<in> set xs \<Longrightarrow> takes t (price_of x)"
  shows "od_remaining t1 \<le> 0"
  using assms
proof (induction seq t xs tid arbitrary: es rule: ref_match.induct)
  case (2 seq t x xs tid)
  show ?case
  proof (cases "0 < od_remaining t \<and> od_remaining x \<le> od_remaining t")
    case True
    then obtain es where "ref_match seq (fill_by t (od_remaining x)) xs (tid + 1) = (t1, ys, tid1, es)"
      using "2.prems"(1,3) by (auto simp: Let_def split: prod.splits)
    then show ?thesis using "2.IH" [OF _ refl refl] True "2.prems"(2,3) by auto
  next
    case False
    then show ?thesis using "2.prems" by (auto simp: Let_def min_def split: if_splits)
  qed
qed simp

lemma map_of_put_level:
  "map_of (bs_levels (put_level s lv)) q =
     (if q = lv_price lv \<and> map_of (bs_levels s) q \<noteq> None then Some lv else map_of (bs_levels s) q)"
proof -
  have "map_of (map (\<lambda>e. if fst e = k then (fst e, v) else e) xs) q = (if q = k \<and> map_of xs q \<noteq> None then Some v else map_of xs q)"
    for k v and xs :: "(int \<times> level) list" by (induction xs) auto
  then show ?thesis by (simp add: put_level_def)
qed

lemma put_level_fst [simp]: "map fst (bs_levels (put_level s lv)) = map fst (bs_levels s)"
  by (simp add: put_level_def)

lemma heap_ok_levels:
  "heap_ok s \<Longrightarrow> set (map fst lvs) \<subseteq> set (map fst (bs_levels s)) \<Longrightarrow> heap_ok (s\<lparr>bs_levels := lvs\<rparr>)"
  unfolding heap_ok_def by (simp, blast)

lemma level_ok_cong: "(\<And>a. a \<in> set as \<Longrightarrow> ob' a = ob a) \<Longrightarrow> level_ok ob' p r as = level_ok ob p r as"
  using holds_cong [of as ob' ob] by (cases r) simp_all

text \<open>Serving the orders \<open>B\<close> of one price leaves the orders \<open>B'\<close> there; the other prices do not change.\<close>

lemma levels_ok_served:
  assumes ok: "levels_ok sd lvs ob A" and A: "A = priced ob p A @ R"
    and same: "\<And>a. a \<notin> set (priced ob p A) \<Longrightarrow> ob' a = ob a"
    and B': "set B' \<subseteq> set (priced ob p A)" "distinct B'" "\<And>a. a \<in> set B' \<Longrightarrow> resting sd (ob' a) \<and> od_price (ob' a) = Some p"
    and lvs': "distinct (map fst lvs')" "\<And>q. q \<noteq> p \<Longrightarrow> map_of lvs' q = map_of lvs q" "level_ok ob' p (map_of lvs' p) B'"
  shows "levels_ok sd lvs' ob' (B' @ R)"
proof -
  note o = levels_okD [OF ok]
  let ?B = "priced ob p A"
  have dR: "distinct (?B @ R)" using o(2) A by metis
  then have R: "ob' a = ob a" if "a \<in> set R" for a using same that by auto
  have RA: "a \<in> set A" if "a \<in> set R" for a using A that by (metis Un_iff set_append)
  have notp: "od_price (ob a) \<noteq> Some p" if "a \<in> set R" for a
  proof
    assume "od_price (ob a) = Some p"
    then have "a \<in> set ?B" using RA [OF that] by simp
    then show False using dR that by auto
  qed
  have srt: "sorted (map (\<lambda>a. rank (ob a)) (?B @ R))" using o(3) A by metis
  have "rank (ob' b) \<le> rank (ob' r)" if "b \<in> set B'" "r \<in> set R" for b r
  proof -
    have "b \<in> set ?B" using that B'(1) by auto
    then have "rank (ob b) \<le> rank (ob r)" using srt that(2) unfolding map_append sorted_append by auto
    moreover have "rank (ob' b) = rank (ob b)"
      using B'(3) [OF that(1)] o(4) [of b] \<open>b \<in> set ?B\<close> by (simp add: resting_def rank_def price_of_def)
    ultimately show ?thesis using R that(2) by simp
  qed
  moreover have "rank (ob' b) = price_key sd p" if "b \<in> set B'" for b
    using B'(3) [OF that] by (simp add: resting_def rank_def price_of_def)
  then have "map (\<lambda>a. rank (ob' a)) B' = replicate (length B') (price_key sd p)" by (simp add: map_replicate_const cong: map_cong)
  then have "sorted (map (\<lambda>a. rank (ob' a)) B')" by simp
  moreover have "sorted (map (\<lambda>a. rank (ob' a)) R)" using srt R unfolding map_append sorted_append by (simp cong: map_cong)
  ultimately have "sorted (map (\<lambda>a. rank (ob' a)) (B' @ R))" by (auto simp: sorted_append)
  moreover have "distinct (B' @ R)" using dR B'(1,2) by auto
  moreover have "\<forall>a \<in> set (B' @ R). resting sd (ob' a)" using B'(3) R o(4) RA by auto
  moreover have "level_ok ob' q (map_of lvs' q) (priced ob' q (B' @ R))" for q
  proof (cases "q = p")
    case True
    have "priced ob' p (B' @ R) = B'" using B'(3) R notp by (simp add: filter_empty_conv filter_id_conv)
    then show ?thesis using lvs'(3) True by simp
  next
    case False
    have "priced ob' q B' = []" using B'(3) False by (simp add: filter_empty_conv)
    moreover have "priced ob' q R = priced ob q R" using R by (auto intro: filter_cong)
    moreover have "priced ob q ?B = []" using False by (auto simp: filter_empty_conv)
    then have "priced ob q R = priced ob q A" using A by (metis append_Nil filter_append)
    ultimately have eq: "priced ob' q (B' @ R) = priced ob q R" "priced ob q R = priced ob q A" by simp_all
    have "level_ok ob q (map_of lvs q) (priced ob q R)" using o(5) [of q] eq(2) by simp
    then have "level_ok ob' q (map_of lvs q) (priced ob q R)" using level_ok_cong [of "priced ob q R" ob' ob] R by auto
    then show ?thesis using eq(1) lvs'(2) [OF False] by simp
  qed
  ultimately show ?thesis using lvs'(1) by (simp add: levels_ok_def)
qed

lemma crosses_takes: "od_type t = MARKET \<or> od_price t \<noteq> None \<Longrightarrow> crosses t p = Inr (takes t p)"
  by (cases "od_type t") (auto simp: crosses_def takes_def price_of_def)

lemma put_drop_rel:
  assumes rel: "side_rel sd s ob A" and lv: "map_of (bs_levels s) p = Some lv" and A: "A = priced ob p A @ R"
    and same: "\<And>a. a \<notin> set (priced ob p A) \<Longrightarrow> ob' a = ob a"
    and B': "set B' \<subseteq> set (priced ob p A)" "distinct B'" "\<And>a. a \<in> set B' \<Longrightarrow> resting sd (ob' a) \<and> od_price (ob' a) = Some p"
    and lv': "holds ob' p lv' B'"
  obtains s' where "drop_level_if_empty (put_level s lv') lv' = Inr s'" "side_rel sd s' ob' (B' @ R)"
proof -
  have ok: "levels_ok sd (bs_levels s) ob A" "heap_ok s" "bs_side s = sd" using rel by (auto simp: side_rel_def)
  note served = levels_ok_served [OF ok(1) A same B']
  have price: "lv_price lv' = p" and ords: "lv_orders lv' = [] \<longleftrightarrow> B' = []" using lv' by (auto simp: holds_def)
  have look: "map_of (bs_levels (put_level s lv')) q = (if q = p then Some lv' else map_of (bs_levels s) q)" for q
    using lv price by (simp add: map_of_put_level)
  have d: "distinct (map fst (bs_levels s))" by (rule levels_okD(1) [OF ok(1)])
  show thesis
  proof (cases "B' = []")
    case True
    let ?s = "(put_level s lv')\<lparr>bs_levels := AList.delete p (bs_levels (put_level s lv'))\<rparr>"
    have "levels_ok sd (bs_levels ?s) ob' (B' @ R)"
      by (rule served) (use True d look price in \<open>simp_all add: delete_conv' distinct_delete\<close>)
    moreover have "heap_ok ?s"
    proof -
      have "set (map fst (AList.delete p (bs_levels (put_level s lv')))) \<subseteq> set (map fst (bs_levels s))"
        by (auto simp only: delete_keys put_level_fst set_removeAll)
      then show ?thesis using heap_ok_levels [OF ok(2)] by (simp add: put_level_def)
    qed
    ultimately have "side_rel sd ?s ob' (B' @ R)" using ok(3) by (simp add: side_rel_def put_level_def)
    moreover have "drop_level_if_empty (put_level s lv') lv' = Inr ?s"
      using True ords look [of p] price by (simp add: drop_level_if_empty_def)
    ultimately show thesis using that by blast
  next
    case False
    have "levels_ok sd (bs_levels (put_level s lv')) ob' (B' @ R)"
      by (rule served) (use False d look lv' in simp_all)
    moreover have "heap_ok (put_level s lv')"
      using heap_ok_levels [OF ok(2), of "bs_levels (put_level s lv')"] put_level_fst [of s lv'] by (simp add: put_level_def)
    ultimately have "side_rel sd (put_level s lv') ob' (B' @ R)" using ok(3) by (simp add: side_rel_def put_level_def)
    then show thesis using that False ords by (simp add: drop_level_if_empty_def)
  qed
qed

lemma match_loop_idle: "od_remaining (ma_taker m) \<le> 0 \<Longrightarrow> match_loop seq contra m = Inr (contra, m)"
  using match_loop.simps [of seq contra m] by simp

definition side_state :: "Side \<Rightarrow> book_side \<Rightarrow> matching \<Rightarrow> nat list \<Rightarrow> nat set \<Rightarrow> bool" where
  "side_state sd contra m A C \<longleftrightarrow> side_rel sd contra (ma_objs m) A \<and> live_ok (ma_objs m) (ma_live m) (set A \<union> C) \<and> set A \<inter> C = {}"

lemma ref_match_taker:
  "ref_match seq t xs tid = (t1, ys, tid1, es) \<Longrightarrow> od_type t1 = od_type t \<and> od_price t1 = od_price t
     \<and> od_id t1 = od_id t \<and> od_side t1 = od_side t \<and> od_tif t1 = od_tif t \<and> od_quantity t1 = od_quantity t"
proof (induction xs arbitrary: t tid es)
  case (Cons x xs)
  let ?q = "min (od_remaining t) (od_remaining x)"
  show ?case
  proof (cases "0 < od_remaining t \<and> takes t (price_of x) \<and> od_remaining x = ?q")
    case True
    then obtain es' where "ref_match seq (fill_by t ?q) xs (tid + 1) = (t1, ys, tid1, es')"
      using Cons.prems by (auto simp: Let_def simp del: fill_by_simps split: prod.splits)
    from Cons.IH [OF this] show ?thesis by simp
  next
    case False
    then have "t1 = t \<or> t1 = fill_by t ?q" using Cons.prems by (auto simp: Let_def simp del: fill_by_simps split: if_splits)
    then show ?thesis by auto
  qed
qed simp

text \<open>One round of the outer loop, at the best price.\<close>

lemma match_round:
  assumes st: "side_state sd c1 m A C" and A0: "A \<noteq> []" and p: "p = price_of (ma_objs m (hd A))"
    and lv: "map_of (bs_levels c1) p = Some lv" and takes: "takes (ma_taker m) p"
    and ref: "ref_match seq (ma_taker m) (map (ma_objs m) A) (ma_trade m) = (t', ys, tid', es)"
  obtains lv1 m1 c2 A1 es1 es2 where "fill_loop seq lv m = Inr (lv1, m1)" "drop_level_if_empty (put_level c1 lv1) lv1 = Inr c2"
    "side_state sd c2 m1 A1 C" "ref_match seq (ma_taker m1) (map (ma_objs m1) A1) (ma_trade m1) = (t', ys, tid', es2)"
    "ma_events m1 = ma_events m @ es1" "es = es1 @ es2" "length A1 < length A \<or> od_remaining (ma_taker m1) \<le> 0"
    "set A1 \<subseteq> set A" "\<And>a. a \<notin> set A \<Longrightarrow> ma_objs m1 a = ma_objs m a"
    "od_type (ma_taker m1) = od_type (ma_taker m)" "od_price (ma_taker m1) = od_price (ma_taker m)"
proof -
  let ?ob = "ma_objs m" and ?t = "ma_taker m"
  define B where "B = priced ?ob p A"
  define R where "R = filter (\<lambda>a. od_price (?ob a) \<noteq> Some p) A"
  have rel: "side_rel sd c1 ?ob A" and live: "live_ok ?ob (ma_live m) (set A \<union> C)" and AC: "set A \<inter> C = {}"
    using st by (simp_all add: side_state_def)
  have ok: "levels_ok sd (bs_levels c1) ?ob A" using rel by (simp add: side_rel_def)
  have A: "A = B @ R" unfolding B_def R_def by (rule best_split [OF ok A0 p])
  have hold: "B \<noteq> []" "holds ?ob p lv B" using levels_okD(5) [OF ok, of p] lv by (auto simp: B_def)
  have in_B: "resting sd (?ob a) \<and> od_price (?ob a) = Some p" if "a \<in> set B" for a
    using that levels_okD(4) [OF ok] by (simp add: B_def)
  have disj: "set B \<inter> (set R \<union> C) = {}" "set R \<inter> C = {}" using AC by (auto simp: B_def R_def)
  have "set A \<union> C = set B \<union> (set R \<union> C)" using arg_cong [OF A, of set] by (simp add: Un_assoc)
  then have live': "live_ok ?ob (ma_live m) (set B \<union> (set R \<union> C))" using live by (simp only:)
  have "distinct B" using levels_okD(2) [OF ok] by (simp add: B_def)
  then have st1: "level_state sd p lv m B (set R \<union> C)"
    unfolding level_state_def using live' hold(2) disj(1) in_B by blast
  obtain t1 ys1 tid1 es1 where ref1: "ref_match seq ?t (map ?ob B) (ma_trade m) = (t1, ys1, tid1, es1)" by (metis prod_cases4)
  from fill_loop_ref [OF st1 takes ref1] obtain lv1 m1 B1 where
    loop: "fill_loop seq lv m = Inr (lv1, m1)" and m1: "ma_taker m1 = t1" "ma_trade m1 = tid1" "ma_events m1 = ma_events m @ es1"
    and B1: "set B1 \<subseteq> set B" "map (ma_objs m1) B1 = ys1" "level_state sd p lv1 m1 B1 (set R \<union> C)"
    and same: "\<And>a. a \<notin> set B \<Longrightarrow> ma_objs m1 a = ?ob a"
    by blast
  note ls = B1(3) [unfolded level_state_def]
  obtain c2 where c2: "drop_level_if_empty (put_level c1 lv1) lv1 = Inr c2" "side_rel sd c2 (ma_objs m1) (B1 @ R)"
    using put_drop_rel [OF rel lv A [unfolded B_def] same [unfolded B_def] B1(1) [unfolded B_def]] ls by blast
  have st2: "side_state sd c2 m1 (B1 @ R) C" using c2(2) ls disj(2) by (auto simp: side_state_def Un_assoc)
  have mapR: "map (ma_objs m1) R = map ?ob R" using same disj(1) by auto
  have left: "map (ma_objs m1) (B1 @ R) = ys1 @ map ?ob R" unfolding map_append B1(2) mapR ..
  have whole: "ref_match seq ?t (map ?ob B @ map ?ob R) (ma_trade m) = (t', ys, tid', es)" using ref by (simp add: A)
  have tk: "od_type t1 = od_type ?t" "od_price t1 = od_price ?t" using ref_match_taker [OF ref1] by simp_all
  have small: "length (B1 @ R) < length A \<or> od_remaining t1 \<le> 0"
    and rest: "\<exists>es2. ref_match seq t1 (map (ma_objs m1) (B1 @ R)) tid1 = (t', ys, tid', es2) \<and> es = es1 @ es2"
  proof (atomize (full), cases "B1 = []")
    case True
    then have "ys1 = []" using B1(2) by simp
    then show "(length (B1 @ R) < length A \<or> od_remaining t1 \<le> 0) \<and> (\<exists>es2.
        ref_match seq t1 (map (ma_objs m1) (B1 @ R)) tid1 = (t', ys, tid', es2) \<and> es = es1 @ es2)"
      unfolding left using True whole ref_match_append [OF ref1, of "map ?ob R"] hold(1) by (auto simp: A split: prod.splits)
  next
    case False
    then have ne: "ys1 \<noteq> []" using B1(2) by auto
    have "takes ?t (price_of x)" if "x \<in> set (map ?ob B)" for x
      using that in_B takes by (auto simp: price_of_def)
    from ref_match_left [OF ref1 ne this] have idle: "od_remaining t1 \<le> 0" .
    then show "(length (B1 @ R) < length A \<or> od_remaining t1 \<le> 0) \<and> (\<exists>es2.
        ref_match seq t1 (map (ma_objs m1) (B1 @ R)) tid1 = (t', ys, tid', es2) \<and> es = es1 @ es2)"
      unfolding left using ne whole ref_match_append [OF ref1, of "map ?ob R"] ref_match_idle [OF idle] by auto
  qed
  have sub: "set (B1 @ R) \<subseteq> set A" using B1(1) by (auto simp: A)
  have out: "\<And>a. a \<notin> set A \<Longrightarrow> ma_objs m1 a = ?ob a" using same by (simp add: A)
  show thesis using rest that [OF loop c2(1) st2 _ m1(3) _ _ sub out, unfolded m1] small tk by blast
qed

lemma match_loop_ref:
  assumes "side_state sd contra m A C" "od_type (ma_taker m) = MARKET \<or> od_price (ma_taker m) \<noteq> None"
    "ref_match seq (ma_taker m) (map (ma_objs m) A) (ma_trade m) = (t', ys, tid', es)"
  shows "\<exists>contra' m' A'. match_loop seq contra m = Inr (contra', m') \<and> ma_taker m' = t' \<and> ma_trade m' = tid'
    \<and> ma_events m' = ma_events m @ es \<and> side_state sd contra' m' A' C \<and> map (ma_objs m') A' = ys
    \<and> set A' \<subseteq> set A \<and> (\<forall>a. a \<notin> set A \<longrightarrow> ma_objs m' a = ma_objs m a)"
  using assms
proof (induction "length A" arbitrary: A contra m es rule: less_induct)
  case less
  let ?ob = "ma_objs m" and ?t = "ma_taker m"
  obtain c1 r where best: "best_level contra = (c1, r)" by fastforce
  have "side_rel sd contra ?ob A" using less.prems(1) by (simp add: side_state_def)
  note bl = best_level_rel [OF this best]
  have st1: "side_state sd c1 m A C" using less.prems(1) bl(1) by (simp add: side_state_def)
  show ?case
  proof (cases "0 < od_remaining ?t \<and> A \<noteq> [] \<and> takes ?t (price_of (?ob (hd A)))")
    case False
    have "\<exists>c'. match_loop seq contra m = Inr (c', m) \<and> side_state sd c' m A C"
    proof (cases r)
      case None
      then show ?thesis using match_loop.simps [of seq contra m] best less.prems(1) st1 by auto
    next
      case (Some lv)
      then have "lv_price lv = price_of (?ob (hd A))" "A \<noteq> []"
        using bl(2,3) levels_okD(5) [of sd "bs_levels c1" ?ob A "price_of (?ob (hd A))"] bl(1)
        by (auto simp: side_rel_def holds_def)
      then show ?thesis using match_loop.simps [of seq contra m] best less.prems(1) st1 Some False
          crosses_takes [OF less.prems(2)] by auto
    qed
    moreover have "ref_match seq ?t (map ?ob A) (ma_trade m) = (?t, map ?ob A, ma_trade m, [])"
      using False by (cases A) auto
    ultimately show ?thesis using less.prems(3) by auto
  next
    case True
    define p where "p = price_of (?ob (hd A))"
    obtain lv where r: "r = Some lv" and lv: "map_of (bs_levels c1) p = Some lv"
      using bl(2,3) True by (cases r) (auto simp: p_def)
    have "lv_price lv = p" using levels_okD(5) [of sd "bs_levels c1" ?ob A p] bl(1) lv by (auto simp: side_rel_def holds_def)
    then have unfold: "match_loop seq contra m = bind_sum (fill_loop seq lv m) (\<lambda>r.
        bind_sum (drop_level_if_empty (put_level c1 (fst r)) (fst r)) (\<lambda>c2. match_loop seq c2 (snd r)))"
      using match_loop.simps [of seq contra m] True best r crosses_takes [OF less.prems(2)] by (simp add: p_def)
    have tp: "takes ?t p" and A0: "A \<noteq> []" using True by (auto simp: p_def)
    from match_round [OF st1 A0 p_def lv tp less.prems(3)] obtain lv1 m1 c2 A1 es1 es2 where
      step: "fill_loop seq lv m = Inr (lv1, m1)" "drop_level_if_empty (put_level c1 lv1) lv1 = Inr c2"
      and st2: "side_state sd c2 m1 A1 C" and ref2: "ref_match seq (ma_taker m1) (map (ma_objs m1) A1) (ma_trade m1) = (t', ys, tid', es2)"
      and ev: "ma_events m1 = ma_events m @ es1" "es = es1 @ es2" and small: "length A1 < length A \<or> od_remaining (ma_taker m1) \<le> 0"
      and sub: "set A1 \<subseteq> set A" and out: "\<And>a. a \<notin> set A \<Longrightarrow> ma_objs m1 a = ma_objs m a"
      and tk: "od_type (ma_taker m1) = od_type (ma_taker m)" "od_price (ma_taker m1) = od_price (ma_taker m)" by metis
    have go: "match_loop seq contra m = match_loop seq c2 m1" using unfold step by simp
    show ?thesis
    proof (cases "od_remaining (ma_taker m1) \<le> 0")
      case idle: True
      have "match_loop seq c2 m1 = Inr (c2, m1)" using idle by (rule match_loop_idle)
      moreover have "t' = ma_taker m1 \<and> ys = map (ma_objs m1) A1 \<and> tid' = ma_trade m1 \<and> es2 = []"
        using ref2 ref_match_idle [OF idle] by auto
      ultimately show ?thesis using go st2 ev sub out by auto
    next
      case False
      have "od_type (ma_taker m1) = MARKET \<or> od_price (ma_taker m1) \<noteq> None" using less.prems(2) tk by simp
      from less.hyps [OF _ st2 this ref2] small False obtain c' m' A' where
        "match_loop seq c2 m1 = Inr (c', m')" "ma_taker m' = t'" "ma_trade m' = tid'" "ma_events m' = ma_events m1 @ es2"
        "side_state sd c' m' A' C" "map (ma_objs m') A' = ys" "set A' \<subseteq> set A1" "\<forall>a. a \<notin> set A1 \<longrightarrow> ma_objs m' a = ma_objs m1 a"
        by blast
      then show ?thesis using go ev sub out by (intro exI [of _ c'] exI [of _ m'] exI [of _ A']) auto
    qed
  qed
qed

section \<open>Resting and cancelling refine\<close>

lemma levels_ok_cong:
  assumes "\<And>a. a \<in> set A \<Longrightarrow> ob' a = ob a"
  shows "levels_ok sd lvs ob' A = levels_ok sd lvs ob A"
proof -
  have "map (\<lambda>a. rank (ob' a)) A = map (\<lambda>a. rank (ob a)) A" using assms by simp
  moreover have "priced ob' p A = priced ob p A" for p using assms by (auto intro: filter_cong)
  moreover have "level_ok ob' p (map_of lvs p) (priced ob p A) = level_ok ob p (map_of lvs p) (priced ob p A)" for p
    by (rule level_ok_cong) (simp add: assms)
  ultimately show ?thesis using assms by (simp add: levels_ok_def del: map_eq_conv)
qed

lemma side_rel_cong: "(\<And>a. a \<in> set A \<Longrightarrow> ob' a = ob a) \<Longrightarrow> side_rel sd s ob' A = side_rel sd s ob A"
  using levels_ok_cong [of A ob' ob] by (simp add: side_rel_def)

lemma dropWhile_sorted_gt:
  "sorted (map f xs) \<Longrightarrow> y \<in> set (dropWhile (\<lambda>x. f x \<le> c) xs) \<Longrightarrow> (c::int) < f y"
  by (induction xs) (auto split: if_splits)

lemma sorted_glue:
  assumes "sorted (map f xs)" "sorted (map f zs)" "\<And>y. y \<in> set xs \<Longrightarrow> f y \<le> f x" "\<And>y. y \<in> set zs \<Longrightarrow> f x \<le> (f y :: int)"
  shows "sorted (map f (xs @ x # zs))"
proof -
  have "f y \<le> f z" if "y \<in> set xs" "z \<in> set zs" for y z using assms(3) [OF that(1)] assms(4) [OF that(2)] by simp
  then show ?thesis using assms by (simp add: sorted_append)
qed

lemma sorted_insert_after:
  assumes "sorted (map f xs)"
  shows "sorted (map f (takeWhile (\<lambda>y. f y \<le> f x) xs @ x # dropWhile (\<lambda>y. f y \<le> (f x :: int)) xs))"
proof -
  let ?T = "takeWhile (\<lambda>y. f y \<le> f x) xs" and ?D = "dropWhile (\<lambda>y. f y \<le> f x) xs"
  have "sorted (map f (?T @ ?D))" using assms by simp
  then have parts: "sorted (map f ?T)" "sorted (map f ?D)" unfolding map_append sorted_append by blast+
  have le: "f y \<le> f x" if "y \<in> set ?T" for y using set_takeWhileD [OF that] by simp
  have gt: "f x \<le> f y" if "y \<in> set ?D" for y using dropWhile_sorted_gt [OF assms that] by simp
  show ?thesis by (rule sorted_glue [OF parts le gt])
qed

lemma holds_append:
  assumes "holds ob p lv as" "\<And>b. b \<in> set as \<Longrightarrow> od_id (ob b) \<noteq> od_id (ob a)"
  shows "holds ob p (level_append ob lv a) (as @ [a])"
proof -
  have "fst ` set (lv_orders lv) = (\<lambda>b. od_id (ob b)) ` set as" using assms(1) by (force simp: holds_def)
  then have "od_id (ob a) \<notin> fst ` set (lv_orders lv)" using assms(2) by force
  then show ?thesis using assms(1) by (simp add: holds_def level_append_def AList_update_absent)
qed

lemma side_add_levels:
  assumes rel: "side_rel sd s ob A" and new: "a \<notin> set A" "resting sd (ob a)" "\<And>b. b \<in> set A \<Longrightarrow> od_id (ob b) \<noteq> od_id (ob a)"
  obtains s' where "side_add ob s a = Inr s'" "bs_side s' = sd" "heap_ok s'" "distinct (map fst (bs_levels s'))"
    "\<And>q. q \<noteq> price_of (ob a) \<Longrightarrow> map_of (bs_levels s') q = map_of (bs_levels s) q"
    "level_ok ob (price_of (ob a)) (map_of (bs_levels s') (price_of (ob a))) (priced ob (price_of (ob a)) A @ [a])"
proof -
  let ?p = "price_of (ob a)"
  have ok: "levels_ok sd (bs_levels s) ob A" "heap_ok s" "bs_side s = sd" using rel by (auto simp: side_rel_def)
  note d = levels_okD(1) [OF ok(1)] and at_p = levels_okD(5) [OF ok(1), of ?p]
  have p: "od_price (ob a) = Some ?p" "0 < ?p" using restingD [OF new(2)] by auto
  have new_id: "\<And>b. b \<in> set (priced ob ?p A) \<Longrightarrow> od_id (ob b) \<noteq> od_id (ob a)" using new(3) by auto
  show thesis
  proof (cases "map_of (bs_levels s) ?p")
    case (Some lv)
    let ?lv = "level_append ob lv a"
    have hold: "holds ob ?p lv (priced ob ?p A)" using at_p Some by simp
    have new_hold: "holds ob ?p ?lv (priced ob ?p A @ [a])" by (rule holds_append [OF hold new_id])
    have "lv_price ?lv = ?p" using new_hold by (simp add: holds_def)
    moreover have "heap_ok (put_level s ?lv)"
      using heap_ok_levels [OF ok(2), of "bs_levels (put_level s ?lv)"] put_level_fst [of s ?lv] by (simp add: put_level_def)
    moreover have "bs_side (put_level s ?lv) = sd" using ok(3) by (simp add: put_level_def)
    ultimately show thesis
      using that [of "put_level s ?lv"] Some p d new_hold map_of_put_level [of s ?lv] by (simp add: side_add_def)
  next
    case None
    let ?lv = "level_append ob (new_level ?p) a" and ?ls = "AList.update ?p (level_append ob (new_level ?p) a) (bs_levels s)"
    have none: "priced ob ?p A = []" using at_p None by simp
    have "holds ob ?p (new_level ?p) []" by (simp add: holds_def new_level_def)
    from holds_append [OF this] have new_hold: "holds ob ?p ?lv [a]" by simp
    have keys: "fst ` set ?ls = insert ?p (fst ` set (bs_levels s))" 
      using None by (simp add: AList_update_absent map_of_eq_None_iff)
    define s' where "s' = (if ?p \<notin> bs_in_heap s
      then s\<lparr>bs_levels := ?ls, bs_heap := insort (price_key sd ?p) (bs_heap s), bs_in_heap := insert ?p (bs_in_heap s)\<rparr>
      else s\<lparr>bs_levels := ?ls\<rparr>)"
    have add: "side_add ob s a = Inr s'" using None p ok(3) by (simp add: side_add_def s'_def Let_def)
    have "price_key sd ?p \<notin> set (bs_heap s)" if "?p \<notin> bs_in_heap s"
      using that ok(2,3) by (auto simp: heap_ok_def price_key_inj)
    then have "heap_ok s'" using ok(2,3) p(2) keys
      by (auto simp: s'_def heap_ok_def distinct_insort set_insort_key sorted_insort)
    moreover have "bs_levels s' = ?ls" "bs_side s' = sd" using ok(3) by (auto simp: s'_def)
    ultimately show thesis using that [OF add] d new_hold none by (simp add: distinct_update update_conv')
  qed
qed

lemma side_add_rel:
  assumes rel: "side_rel sd s ob A" and new: "a \<notin> set A" "resting sd (ob a)" "\<And>b. b \<in> set A \<Longrightarrow> od_id (ob b) \<noteq> od_id (ob a)"
  obtains s' where "side_add ob s a = Inr s'"
    "side_rel sd s' ob (takeWhile (\<lambda>b. rank (ob b) \<le> rank (ob a)) A @ a # dropWhile (\<lambda>b. rank (ob b) \<le> rank (ob a)) A)"
proof -
  let ?T = "takeWhile (\<lambda>b. rank (ob b) \<le> rank (ob a)) A" and ?D = "dropWhile (\<lambda>b. rank (ob b) \<le> rank (ob a)) A"
  let ?p = "price_of (ob a)"
  obtain s' where s': "side_add ob s a = Inr s'" "bs_side s' = sd" "heap_ok s'" "distinct (map fst (bs_levels s'))"
    "\<And>q. q \<noteq> ?p \<Longrightarrow> map_of (bs_levels s') q = map_of (bs_levels s) q"
    "level_ok ob ?p (map_of (bs_levels s') ?p) (priced ob ?p A @ [a])"
    using side_add_levels [OF rel new] by blast
  have ok: "levels_ok sd (bs_levels s) ob A" using rel by (simp add: side_rel_def)
  note o = levels_okD [OF ok]
  have TD: "?T @ ?D = A" by simp
  have setA: "set A = set ?T \<union> set ?D" by (metis set_append TD)
  have p: "od_price (ob a) = Some ?p" using restingD(3) [OF new(2)] .
  have noD: "priced ob ?p ?D = []"
  proof -
    have "od_price (ob b) \<noteq> Some ?p" if "b \<in> set ?D" for b
    proof
      assume eq: "od_price (ob b) = Some ?p"
      have "resting sd (ob b)" using o(4) that setA by blast
      then have "rank (ob b) = rank (ob a)" using eq restingD(5) [OF new(2)] restingD(5) by (metis option.sel price_of_def)
      then show False using dropWhile_sorted_gt [OF o(3) that] by simp
    qed
    then show ?thesis by (simp add: filter_empty_conv)
  qed
  have split: "priced ob q A = priced ob q ?T @ priced ob q ?D" for q by (metis filter_append TD)
  have "level_ok ob q (map_of (bs_levels s') q) (priced ob q (?T @ a # ?D))" for q
  proof (cases "q = ?p")
    case True
    then have "priced ob q (?T @ a # ?D) = priced ob ?p A @ [a]" using split [of ?p] noD p by simp
    then show ?thesis using s'(6) True by simp
  next
    case False
    then have "priced ob q (?T @ a # ?D) = priced ob q A" using split [of q] p by simp
    then show ?thesis using s'(5) [OF False] o(5) [of q] by simp
  qed
  moreover have "sorted (map (\<lambda>a. rank (ob a)) (?T @ a # ?D))" by (rule sorted_insert_after [OF o(3)])
  moreover have "distinct (?T @ a # ?D)" 
  proof -
    have "distinct (?T @ ?D)" by (simp only: TD o(2))
    moreover have "a \<notin> set ?T" "a \<notin> set ?D" using new(1) unfolding setA by blast+
    ultimately show ?thesis unfolding distinct_append distinct.simps list.set by blast
  qed
  moreover have "\<forall>b \<in> set (?T @ a # ?D). resting sd (ob b)" using o(4) new(2) setA by auto
  ultimately have "levels_ok sd (bs_levels s') ob (?T @ a # ?D)" using s'(4) by (simp add: levels_ok_def)
  then show thesis using that s'(1,2,3) by (simp add: side_rel_def)
qed

lemma holds_remove:
  assumes hold: "holds ob p lv as" and as: "distinct as" "a \<in> set as"
    and inj: "\<And>b. b \<in> set as \<Longrightarrow> od_id (ob b) = od_id (ob a) \<Longrightarrow> b = a"
  obtains lv1 where "level_remove ob lv (od_id (ob a)) = Inr lv1" "holds ob p lv1 (filter (\<lambda>b. b \<noteq> a) as)"
proof -
  have "map_of (map (\<lambda>b. (od_id (ob b), b)) as) (od_id (ob a)) = Some a" using as(2) inj
  proof (induction as)
    case (Cons c as)
    show ?case
    proof (cases "od_id (ob c) = od_id (ob a)")
      case True
      then show ?thesis using Cons.prems(2) [of c] by simp
    next
      case False
      then show ?thesis using Cons by auto
    qed
  qed simp
  then have "level_remove ob lv (od_id (ob a)) = Inr (lv\<lparr>lv_orders := AList.delete (od_id (ob a)) (lv_orders lv),
      lv_total := lv_total lv - od_remaining (ob a)\<rparr>)" using hold by (simp add: level_remove_def holds_def)
  moreover have "AList.delete (od_id (ob a)) (map (\<lambda>b. (od_id (ob b), b)) as) = map (\<lambda>b. (od_id (ob b), b)) (filter (\<lambda>b. b \<noteq> a) as)"
  proof -
    have "\<forall>b \<in> set as. od_id (ob b) = od_id (ob a) \<longleftrightarrow> b = a" using inj by auto
    then show ?thesis by (induction as) auto
  qed
  moreover have "filter (\<lambda>b. b \<noteq> a) as = remove1 a as" 
    unfolding distinct_remove1_removeAll [OF as(1)] removeAll_filter_not_eq by (auto intro: filter_cong)
  then have "sum_list (map (\<lambda>b. od_remaining (ob b)) (filter (\<lambda>b. b \<noteq> a) as)) = sum_list (map (\<lambda>b. od_remaining (ob b)) as) - od_remaining (ob a)"
    using sum_list_map_remove1 [OF as(2), of "\<lambda>b. od_remaining (ob b)"] by simp
  ultimately show thesis using that hold by (simp add: holds_def)
qed

lemma levels_ok_without:
  assumes ok: "levels_ok sd lvs ob A" and a: "od_price (ob a) = Some p"
    and lvs': "distinct (map fst lvs')" "\<And>q. q \<noteq> p \<Longrightarrow> map_of lvs' q = map_of lvs q"
      "level_ok ob p (map_of lvs' p) (filter (\<lambda>b. b \<noteq> a) (priced ob p A))"
  shows "levels_ok sd lvs' ob (filter (\<lambda>b. b \<noteq> a) A)"
proof -
  note o = levels_okD [OF ok]
  have "level_ok ob q (map_of lvs' q) (priced ob q (filter (\<lambda>b. b \<noteq> a) A))" for q
  proof (cases "q = p")
    case True
    then show ?thesis using lvs'(3) by (simp add: conj_commute)
  next
    case False
    then have "priced ob q (filter (\<lambda>b. b \<noteq> a) A) = priced ob q A" using a by (auto intro!: filter_cong)
    then show ?thesis using lvs'(2) [OF False] o(5) [of q] by simp
  qed
  moreover have "sorted (map (\<lambda>a. rank (ob a)) (filter (\<lambda>b. b \<noteq> a) A))" using o(3) by (rule sorted_filter)
  ultimately show ?thesis using lvs'(1) o(2,4) by (simp add: levels_ok_def)
qed

lemma side_remove_rel:
  assumes rel: "side_rel sd s ob A" and a: "a \<in> set A" and inj: "\<And>b. b \<in> set A \<Longrightarrow> od_id (ob b) = od_id (ob a) \<Longrightarrow> b = a"
  obtains s' where "side_remove ob s a = Inr s'" "side_rel sd s' ob (filter (\<lambda>b. b \<noteq> a) A)"
proof -
  have ok: "levels_ok sd (bs_levels s) ob A" "heap_ok s" "bs_side s = sd" using rel by (auto simp: side_rel_def)
  note o = levels_okD [OF ok(1)]
  let ?p = "price_of (ob a)" and ?B = "priced ob (price_of (ob a)) A"
  have p: "od_price (ob a) = Some ?p" using restingD(3) [OF o(4) [OF a]] .
  obtain lv where lv: "map_of (bs_levels s) ?p = Some lv" "holds ob ?p lv ?B" using levels_ok_at [OF ok(1) a] .
  obtain lv1 where lv1: "level_remove ob lv (od_id (ob a)) = Inr lv1" "holds ob ?p lv1 (filter (\<lambda>b. b \<noteq> a) ?B)"
    using holds_remove [OF lv(2), of a] o(2) a p inj by auto
  have price: "lv_price lv1 = ?p" and empty: "lv_orders lv1 = [] \<longleftrightarrow> filter (\<lambda>b. b \<noteq> a) ?B = []"
    using lv1(2) by (auto simp: holds_def)
  note without = levels_ok_without [OF ok(1) p]
  show thesis
  proof (cases "lv_orders lv1 = []")
    case True
    let ?s = "s\<lparr>bs_levels := AList.delete ?p (bs_levels s)\<rparr>"
    have "levels_ok sd (bs_levels ?s) ob (filter (\<lambda>b. b \<noteq> a) A)"
      by (rule without) (use True empty o(1) in \<open>simp_all add: delete_conv' distinct_delete\<close>)
    moreover have "heap_ok ?s" by (rule heap_ok_levels [OF ok(2)]) (auto simp only: delete_keys set_removeAll)
    ultimately have "side_rel sd ?s ob (filter (\<lambda>b. b \<noteq> a) A)" using ok(3) by (simp add: side_rel_def)
    then show thesis using that p lv(1) lv1(1) True by (simp add: side_remove_def)
  next
    case False
    have "levels_ok sd (bs_levels (put_level s lv1)) ob (filter (\<lambda>b. b \<noteq> a) A)"
      by (rule without) (use False empty o(1) price lv(1) lv1(2) in \<open>simp_all add: map_of_put_level\<close>)
    moreover have "heap_ok (put_level s lv1)"
      using heap_ok_levels [OF ok(2), of "bs_levels (put_level s lv1)"] put_level_fst [of s lv1] by (simp add: put_level_def)
    ultimately have "side_rel sd (put_level s lv1) ob (filter (\<lambda>b. b \<noteq> a) A)" using ok(3) by (simp add: side_rel_def put_level_def)
    then show thesis using that p lv(1) lv1(1) False by (simp add: side_remove_def)
  qed
qed

section \<open>The fill-or-kill check refines\<close>

lemma takes_better:
  assumes "od_side t = opposite sd" "takes t p" "price_key sd q \<le> price_key sd p"
  shows "takes t q"
  using assms by (cases sd) (auto simp: takes_def)

lemma can_fill_loop_sum:
  assumes t: "od_side t = opposite sd" "od_type t = MARKET \<or> od_price t \<noteq> None"
    and L: "\<And>k. k \<in> set ks \<Longrightarrow> lv_price (L k) = k \<and> 0 \<le> lv_total (L k)"
    and srt: "sorted (map (price_key sd) ks)" and less: "avail < od_quantity t"
  shows "can_fill_loop t avail (map L ks) = Inr (od_quantity t \<le> avail + sum_list (map (\<lambda>k. lv_total (L k)) (filter (takes t) ks)))"
  using L srt less
proof (induction ks arbitrary: avail)
  case (Cons k ks)
  have cr: "crosses t (lv_price (L k)) = Inr (takes t k)" using Cons.prems(1) [of k] crosses_takes [OF t(2)] by simp
  have nonneg: "0 \<le> sum_list (map (\<lambda>k. lv_total (L k)) (filter (takes t) ks))"
    using Cons.prems(1) by (intro sum_list_nonneg) auto
  show ?case
  proof (cases "takes t k")
    case False
    then have "\<not> takes t q" if "q \<in> set ks" for q using that Cons.prems(2) takes_better [OF t(1), of q k] by auto
    then have none: "filter (takes t) (k # ks) = []" using False by (simp add: filter_empty_conv)
    show ?thesis unfolding none using False cr Cons.prems(3) by simp
  next
    case True
    then show ?thesis using Cons cr nonneg by (cases "od_quantity t \<le> avail + lv_total (L k)") (auto simp: add.assoc)
  qed
qed simp

lemma sum_by_price:
  fixes g :: "nat \<Rightarrow> int"
  assumes "distinct ks" "\<And>a. a \<in> set A \<Longrightarrow> od_price (ob a) = Some (price_of (ob a)) \<and> price_of (ob a) \<in> set ks"
  shows "sum_list (map (\<lambda>k. sum_list (map g (priced ob k A))) (filter P ks)) = sum_list (map g (filter (\<lambda>a. P (price_of (ob a))) A))"
  using assms(2)
proof (induction A)
  case (Cons a A)
  let ?p = "price_of (ob a)"
  have d: "distinct (filter P ks)" using assms(1) by simp
  have "sum_list (map (\<lambda>k. sum_list (map g (priced ob k (a # A)))) (filter P ks)) =
      sum_list (map (\<lambda>k. (if k = ?p then g a else 0) + sum_list (map g (priced ob k A))) (filter P ks))"
    using Cons.prems [of a] by (intro arg_cong [where f = sum_list] map_cong) auto
  also have "\<dots> = sum_list (map (\<lambda>k. if k = ?p then g a else 0) (filter P ks)) + sum_list (map (\<lambda>k. sum_list (map g (priced ob k A))) (filter P ks))"
    by (rule sum_list_addf)
  also have "sum_list (map (\<lambda>k. if k = ?p then g a else 0) (filter P ks)) = (if P ?p then g a else 0)"
    using Cons.prems [of a] by (simp add: sum_list_distinct_conv_sum_set [OF d])
  finally show ?case using Cons by auto
qed (simp add: sum_list_0)

lemma can_fill_ref:
  assumes rel: "side_rel sd s ob A" and t: "od_side t = opposite sd" "od_type t = MARKET \<or> od_price t \<noteq> None" "0 < od_quantity t"
  shows "can_fill_loop t 0 (levels_of s) = Inr (od_quantity t \<le> available t (map ob A))"
proof -
  have ok: "levels_ok sd (bs_levels s) ob A" "bs_side s = sd" using rel by (auto simp: side_rel_def)
  note o = levels_okD [OF ok(1)]
  define ks where "ks = sort_key (price_key sd) (map fst (bs_levels s))"
  define L where "L = (\<lambda>k. the (map_of (bs_levels s) k))"
  have ks: "distinct ks" "set ks = fst ` set (bs_levels s)" "sorted (map (price_key sd) ks)"
    using o(1) by (simp_all add: ks_def distinct_sort)
  have L: "lv_price (L k) = k \<and> lv_total (L k) = sum_list (map (\<lambda>a. od_remaining (ob a)) (priced ob k A))" if "k \<in> set ks" for k
  proof -
    have "map_of (bs_levels s) k \<noteq> None" using that ks(2) by (simp add: map_of_eq_None_iff)
    then obtain lv where "map_of (bs_levels s) k = Some lv" by blast
    then show ?thesis using o(5) [of k] by (simp add: L_def holds_def)
  qed
  have pos: "0 \<le> lv_total (L k)" if "k \<in> set ks" for k
  proof -
    have "0 \<le> od_remaining (ob a)" if "a \<in> set A" for a using restingD(2) [OF o(4) [OF that]] by simp
    then have "0 \<le> sum_list (map (\<lambda>a. od_remaining (ob a)) (priced ob k A))" by (intro sum_list_nonneg) auto
    then show ?thesis using L [OF that] by simp
  qed
  have "sum_list (map (\<lambda>k. lv_total (L k)) (filter (takes t) ks)) =
      sum_list (map (\<lambda>k. sum_list (map (\<lambda>a. od_remaining (ob a)) (priced ob k A))) (filter (takes t) ks))"
    using L by (intro arg_cong [where f = sum_list] map_cong) auto
  also have "\<dots> = sum_list (map (\<lambda>a. od_remaining (ob a)) (filter (\<lambda>a. takes t (price_of (ob a))) A))"
  proof (rule sum_by_price [OF ks(1)])
    fix a
    assume a: "a \<in> set A"
    obtain lv where "map_of (bs_levels s) (price_of (ob a)) = Some lv" using levels_ok_at [OF ok(1) a] .
    then have "price_of (ob a) \<in> set ks" using ks(2) by (metis map_of_eq_None_iff option.distinct(1))
    then show "od_price (ob a) = Some (price_of (ob a)) \<and> price_of (ob a) \<in> set ks" using restingD(3) [OF o(4) [OF a]] by simp
  qed
  also have "\<dots> = available t (map ob A)" by (simp add: available_def filter_map comp_def)
  finally have sum: "sum_list (map (\<lambda>k. lv_total (L k)) (filter (takes t) ks)) = available t (map ob A)" .
  have "levels_of s = map L ks" by (simp add: levels_of_def ks_def L_def ok(2))
  then show ?thesis using can_fill_loop_sum [OF t(1,2), of ks L 0] L pos ks(3) t(3) sum by simp
qed

end
