(* ===== verification/Order_Matching.thy ===== *)
theory Order_Matching
  imports Order_Book_Spec
begin

text \<open>
  The order book implements the reference book (refinement of every command and of \<open>replay\<close>), and
  what follows for its users: never crossed, quantities accounted for, price-time priority.
\<close>

section \<open>A book and its reference\<close>

definition book_rel :: "book \<Rightarrow> ref_book \<Rightarrow> (Side \<Rightarrow> nat list) \<Rightarrow> bool" where
  "book_rel b B F \<longleftrightarrow> (\<forall>sd. side_rel sd (own_side b sd) (bk_objs b) (F sd) \<and> ref_side B sd = map (bk_objs b) (F sd))
     \<and> live_ok (bk_objs b) (bk_live b) (set (F BUY) \<union> set (F SELL))
     \<and> (\<forall>sd. \<forall>a \<in> set (F sd). a < bk_next b) \<and> rb_trade B = bk_trade b"

lemma all_sides: "(\<forall>sd. P sd) \<longleftrightarrow> P BUY \<and> P SELL"
  by (metis Side.exhaust)

lemma both_sides: "{sd, opposite sd} = {BUY, SELL}"
  by (cases sd) auto

lemma union_sides: "set (F BUY) \<union> set (F SELL) = set (F sd) \<union> set (F (opposite sd))"
  by (cases sd) auto

lemma opposite_simps [simp]: "opposite (opposite sd) = sd" "opposite sd \<noteq> sd" "sd \<noteq> opposite sd"
  by (cases sd; simp)+

lemma own_side_set [simp]:
  "own_side (set_side b sd s) sd = s" "own_side (set_side b sd s) (opposite sd) = own_side b (opposite sd)"
  "own_side (set_side b (opposite sd) s) sd = own_side b sd"
  "bk_objs (set_side b sd s) = bk_objs b" "bk_live (set_side b sd s) = bk_live b" "bk_next (set_side b sd s) = bk_next b"
  "bk_trade (set_side b sd s) = bk_trade b"
  by (cases sd; simp)+

lemma own_side_fields [simp]:
  "own_side (b\<lparr>bk_objs := ob\<rparr>) sd = own_side b sd" "own_side (b\<lparr>bk_live := live\<rparr>) sd = own_side b sd"
  "own_side (b\<lparr>bk_next := n\<rparr>) sd = own_side b sd" "own_side (b\<lparr>bk_trade := tid\<rparr>) sd = own_side b sd"
  by (cases sd; simp)+

lemma ref_side_set [simp]:
  "ref_side (set_ref_side B sd xs) sd = xs" "ref_side (set_ref_side B sd xs) (opposite sd) = ref_side B (opposite sd)"
  "ref_side (set_ref_side B (opposite sd) xs) sd = ref_side B sd" "ref_side (B\<lparr>rb_trade := tid\<rparr>) sd = ref_side B sd"
  "rb_trade (set_ref_side B sd xs) = rb_trade B"
  by (cases sd; simp)+

lemma book_relI:
  assumes "side_rel sd (own_side b sd) (bk_objs b) A" "ref_side B sd = map (bk_objs b) A"
    "side_rel (opposite sd) (own_side b (opposite sd)) (bk_objs b) A'" "ref_side B (opposite sd) = map (bk_objs b) A'"
    "live_ok (bk_objs b) (bk_live b) (set A \<union> set A')" "\<And>a. a \<in> set A \<union> set A' \<Longrightarrow> a < bk_next b" "rb_trade B = bk_trade b"
  shows "\<exists>F. book_rel b B F"
proof (cases sd)
  case BUY
  then show ?thesis using assms by (intro exI [of _ "case_Side A A'"]) (auto simp: book_rel_def all_sides)
next
  case SELL
  then show ?thesis using assms by (intro exI [of _ "case_Side A' A"]) (auto simp: book_rel_def all_sides Un_commute)
qed

lemma book_relD:
  assumes "book_rel b B F"
  shows "side_rel sd (own_side b sd) (bk_objs b) (F sd)" "ref_side B sd = map (bk_objs b) (F sd)"
    "live_ok (bk_objs b) (bk_live b) (set (F sd) \<union> set (F (opposite sd)))" "\<And>a. a \<in> set (F sd) \<Longrightarrow> a < bk_next b"
    "rb_trade B = bk_trade b" "set (F sd) \<inter> set (F (opposite sd)) = {}"
proof -
  show rel: "side_rel sd (own_side b sd) (bk_objs b) (F sd)" for sd using assms by (simp add: book_rel_def)
  show "ref_side B sd = map (bk_objs b) (F sd)" "rb_trade B = bk_trade b" "\<And>a. a \<in> set (F sd) \<Longrightarrow> a < bk_next b"
    using assms by (auto simp: book_rel_def)
  show "live_ok (bk_objs b) (bk_live b) (set (F sd) \<union> set (F (opposite sd)))"
    using assms union_sides [of F sd] by (simp add: book_rel_def)
  have "od_side (bk_objs b a) = sd" if "a \<in> set (F sd)" for a sd
    using rel [of sd] that by (simp add: side_rel_def levels_ok_def resting_def)
  from this [of _ sd] this [of _ "opposite sd"] show "set (F sd) \<inter> set (F (opposite sd)) = {}"
    by (metis disjoint_iff opposite_simps(2))
qed

section \<open>Every command refines\<close>

lemma match_ref:
  assumes rel: "book_rel b B F" and sd: "sd = opposite (od_side t)"
    and t: "od_type t = MARKET \<or> od_price t \<noteq> None"
    and ref: "ref_match seq t (ref_side B sd) (rb_trade B) = (t', ys, tid', es)"
  obtains b' A' where "match seq b t evs = Inr (b', t', evs @ es)" "bk_next b' = bk_next b" "bk_trade b' = tid'"
    "side_rel sd (own_side b' sd) (bk_objs b') A'" "map (bk_objs b') A' = ys" "set A' \<subseteq> set (F sd)"
    "side_rel (opposite sd) (own_side b' (opposite sd)) (bk_objs b') (F (opposite sd))"
    "map (bk_objs b') (F (opposite sd)) = ref_side B (opposite sd)"
    "live_ok (bk_objs b') (bk_live b') (set A' \<union> set (F (opposite sd)))"
proof -
  note r = book_relD [OF rel]
  let ?m = "\<lparr>ma_taker = t, ma_objs = bk_objs b, ma_live = bk_live b, ma_trade = bk_trade b, ma_events = evs\<rparr>"
  have st: "side_state sd (own_side b sd) ?m (F sd) (set (F (opposite sd)))"
    using r(1,3,6) [of sd] by (simp add: side_state_def)
  have "ref_match seq (ma_taker ?m) (map (ma_objs ?m) (F sd)) (ma_trade ?m) = (t', ys, tid', es)"
    using ref r(2) [of sd] r(5) by simp
  from match_loop_ref [OF st _ this] t obtain c' m' A' where loop: "match_loop seq (own_side b sd) ?m = Inr (c', m')"
    and m': "ma_taker m' = t'" "ma_trade m' = tid'" "ma_events m' = evs @ es"
    and st': "side_state sd c' m' A' (set (F (opposite sd)))" and A': "map (ma_objs m') A' = ys" "set A' \<subseteq> set (F sd)"
    and same: "\<And>a. a \<notin> set (F sd) \<Longrightarrow> ma_objs m' a = bk_objs b a" by auto
  define b' where "b' = (set_side b sd c')\<lparr>bk_objs := ma_objs m', bk_live := ma_live m', bk_trade := ma_trade m'\<rparr>"
  have "match seq b t evs = Inr (b', t', evs @ es)" using loop m' sd by (simp add: match_def b'_def)
  moreover have keep: "ma_objs m' a = bk_objs b a" if "a \<in> set (F (opposite sd))" for a
    using same that r(6) [of sd] by blast
  then have "side_rel (opposite sd) (own_side b (opposite sd)) (ma_objs m') (F (opposite sd))"
    using side_rel_cong [of "F (opposite sd)" "ma_objs m'" "bk_objs b"] r(1) [of "opposite sd"] by simp
  moreover have "map (ma_objs m') (F (opposite sd)) = ref_side B (opposite sd)" using keep r(2) [of "opposite sd"] by simp
  ultimately show thesis using that [of b' A'] st' A' m'(2) by (simp add: b'_def side_state_def)
qed

lemma rest_order_map:
  "map f (takeWhile (\<lambda>b. rank (f b) \<le> rank (f a)) A @ a # dropWhile (\<lambda>b. rank (f b) \<le> rank (f a)) A) = rest_order (f a) (map f A)"
  by (simp add: rest_order_def takeWhile_map dropWhile_map comp_def)

lemma live_ok_add:
  assumes "live_ok ob live S" "a \<notin> S" "\<And>b. b \<in> S \<Longrightarrow> od_id (ob b) \<noteq> od_id x"
  shows "live_ok (ob(a := x)) (live(od_id x \<mapsto> a)) (insert a S)"
  using assms unfolding live_ok_def by auto

lemma validate_None:
  assumes "validate cmd = None"
  shows "0 < no_quantity cmd" "no_type cmd = LIMIT \<Longrightarrow> \<exists>p > 0. no_price cmd = Some p"
    "no_type cmd = MARKET \<Longrightarrow> no_price cmd = None \<and> no_tif cmd \<noteq> GTC"
  using assms by (auto simp: validate_def not_le split: if_splits option.splits)

lemma make_order_simps [simp]:
  "od_id (make_order seq cmd) = seq" "od_side (make_order seq cmd) = no_side cmd" "od_type (make_order seq cmd) = no_type cmd"
  "od_tif (make_order seq cmd) = no_tif cmd" "od_quantity (make_order seq cmd) = no_quantity cmd"
  "od_price (make_order seq cmd) = no_price cmd" "od_remaining (make_order seq cmd) = no_quantity cmd"
  by (simp_all add: make_order_def)

lemma ref_match_ids: "ref_match seq t xs tid = (t1, ys, tid1, es) \<Longrightarrow> od_id ` set ys \<subseteq> od_id ` set xs"
proof (induction seq t xs tid arbitrary: es rule: ref_match.induct)
  case (2 seq t x xs tid)
  show ?case
  proof (cases "0 < od_remaining t \<and> takes t (price_of x) \<and> od_remaining x = min (od_remaining t) (od_remaining x)")
    case True
    then show ?thesis using "2.IH" [OF _ refl refl] "2.prems" by (auto simp: Let_def split: prod.splits)
  next
    case False
    then have "ys = x # xs \<or> ys = fill_by x (min (od_remaining t) (od_remaining x)) # xs"
      using "2.prems" by (auto simp: Let_def split: if_splits)
    then show ?thesis by auto
  qed
qed simp

text \<open>Resting the remainder on the own side \<open>sd\<close>.\<close>

lemma rest_ref:
  assumes own: "side_rel sd (own_side b sd) (bk_objs b) A"
    and contra: "side_rel (opposite sd) (own_side b (opposite sd)) (bk_objs b) A'"
    and live: "live_ok (bk_objs b) (bk_live b) (set A \<union> set A')" and addr: "\<And>a. a \<in> set A \<union> set A' \<Longrightarrow> a < bk_next b"
    and x: "resting sd x" "od_type x = LIMIT" "od_tif x = GTC" and ids: "\<And>a. a \<in> set A \<union> set A' \<Longrightarrow> od_id (bk_objs b a) \<noteq> od_id x"
    and B: "ref_side B sd = map (bk_objs b) A" "ref_side B (opposite sd) = map (bk_objs b) A'" "rb_trade B = bk_trade b"
  obtains b' F' where "finish_order seq b x evs =
      Inr (b', report_of seq x (evs @ [OrderRested seq (od_id x) (od_side x) (od_price x) (od_remaining x)]))"
    "book_rel b' (set_ref_side B sd (rest_order x (ref_side B sd))) F'"
proof -
  let ?a = "bk_next b"
  define ob where "ob = (bk_objs b)(?a := x)"
  have old: "ob c = bk_objs b c" if "c \<in> set A \<union> set A'" for c using addr [OF that] by (simp add: ob_def)
  have new: "?a \<notin> set A \<union> set A'" using addr by blast
  have own': "side_rel sd (own_side b sd) ob A" using own side_rel_cong [of A ob "bk_objs b"] old by simp
  have contra': "side_rel (opposite sd) (own_side b (opposite sd)) ob A'" using contra side_rel_cong [of A' ob "bk_objs b"] old by simp
  have side: "od_side x = sd" "0 < od_remaining x" using x(1) by (simp_all add: resting_def)
  have ob_a: "ob ?a = x" by (simp add: ob_def)
  have "\<And>c. c \<in> set A \<Longrightarrow> od_id (ob c) \<noteq> od_id (ob ?a)" using ids old ob_a by auto
  then obtain s' where s': "side_add ob (own_side b sd) ?a = Inr s'"
    "side_rel sd s' ob (takeWhile (\<lambda>c. rank (ob c) \<le> rank (ob ?a)) A @ ?a # dropWhile (\<lambda>c. rank (ob c) \<le> rank (ob ?a)) A)"
    using side_add_rel [OF own', of ?a] new x(1) ob_a by (metis UnI1)
  let ?A = "takeWhile (\<lambda>c. rank (ob c) \<le> rank (ob ?a)) A @ ?a # dropWhile (\<lambda>c. rank (ob c) \<le> rank (ob ?a)) A"
  define b' where "b' = (set_side b sd s')\<lparr>bk_objs := ob, bk_next := Suc ?a, bk_live := (bk_live b)(od_id x \<mapsto> ?a)\<rparr>"
  have fin: "finish_order seq b x evs = Inr (b', report_of seq x (evs @ [OrderRested seq (od_id x) (od_side x) (od_price x) (od_remaining x)]))"
    using s'(1) side x(2,3) by (simp add: finish_order_def Let_def b'_def ob_def)
  have setA: "set ?A = insert ?a (set A)"
    using set_append [of "takeWhile (\<lambda>c. rank (ob c) \<le> rank (ob ?a)) A" "dropWhile (\<lambda>c. rank (ob c) \<le> rank (ob ?a)) A"] by auto
  have "map ob ?A = rest_order x (map (bk_objs b) A)"
    using rest_order_map [of ob ?a A] ob_a old by (simp cong: map_cong)
  moreover have "map ob A' = map (bk_objs b) A'" using old by simp
  moreover have "live_ok ob ((bk_live b)(od_id x \<mapsto> ?a)) (insert ?a (set A \<union> set A'))"
    unfolding ob_def by (rule live_ok_add [OF live new]) (use ids in auto)
  moreover have "c < Suc ?a" if "c \<in> insert ?a (set A \<union> set A')" for c using that addr by (auto simp: less_Suc_eq)
  ultimately have "\<exists>F. book_rel b' (set_ref_side B sd (rest_order x (ref_side B sd))) F"
    using s'(2) contra' B setA by (intro book_relI [of sd b' ?A _ A']) (simp_all add: b'_def del: map_append)
  then show thesis using that fin by blast
qed

definition ids_below :: "int \<Rightarrow> ref_book \<Rightarrow> bool" where
  "ids_below n B \<longleftrightarrow> (\<forall>sd. \<forall>x \<in> set (ref_side B sd). od_id x < n)"

text \<open>A new order that is matched: the part of \<open>_new_order\<close> after the checks.\<close>

lemma matched_ref:
  assumes rel: "book_rel b B F" and ids: "ids_below seq B" and ok: "validate cmd = None"
    and ref: "ref_match seq (make_order seq cmd) (ref_side B (opposite (no_side cmd))) (rb_trade B) = (t, ys, tid, es)"
    and B1: "B1 = (set_ref_side B (opposite (no_side cmd)) ys)\<lparr>rb_trade := tid\<rparr>" and fin: "ref_settle seq B1 t (evs @ es) = (B', r)"
  shows "\<exists>b' F'. bind_sum (match seq b (make_order seq cmd) evs) (\<lambda>r. finish_order seq (fst r) (fst (snd r)) (snd (snd r))) = Inr (b', r)
    \<and> book_rel b' B' F'"
proof -
  let ?x = "make_order seq cmd" and ?sd = "no_side cmd"
  note v = validate_None [OF ok] and r = book_relD [OF rel]
  have tx: "od_type t = no_type cmd" "od_price t = no_price cmd" "od_id t = seq" "od_side t = ?sd" "od_tif t = no_tif cmd"
    using ref_match_taker [OF ref] by simp_all
  have sd: "opposite ?sd = opposite (od_side ?x)" by simp
  have pr: "od_type ?x = MARKET \<or> od_price ?x \<noteq> None" using v(2) by (cases "no_type cmd") auto
  obtain b1 A' where m: "match seq b ?x evs = Inr (b1, t, evs @ es)" "bk_next b1 = bk_next b" "bk_trade b1 = tid"
    and contra: "side_rel (opposite ?sd) (own_side b1 (opposite ?sd)) (bk_objs b1) A'" "map (bk_objs b1) A' = ys" "set A' \<subseteq> set (F (opposite ?sd))"
    and own: "side_rel ?sd (own_side b1 ?sd) (bk_objs b1) (F ?sd)" "map (bk_objs b1) (F ?sd) = ref_side B ?sd"
    and live: "live_ok (bk_objs b1) (bk_live b1) (set A' \<union> set (F ?sd))"
    by (rule match_ref [OF rel sd pr ref, of evs]) auto
  have addr: "a < bk_next b1" if "a \<in> set (F ?sd) \<union> set A'" for a
    using that r(4) [of a ?sd] r(4) [of a "opposite ?sd"] contra(3) m(2) by auto
  have B1': "ref_side B1 ?sd = map (bk_objs b1) (F ?sd)" "ref_side B1 (opposite ?sd) = map (bk_objs b1) A'" "rb_trade B1 = bk_trade b1"
    using own(2) contra(2) m(3) by (simp_all add: B1)
  have live': "live_ok (bk_objs b1) (bk_live b1) (set (F ?sd) \<union> set A')" using live by (simp add: Un_commute)
  have "\<exists>b' F'. finish_order seq b1 t (evs @ es) = Inr (b', r) \<and> book_rel b' B' F'"
  proof (cases "0 < od_remaining t \<and> no_type cmd = LIMIT \<and> no_tif cmd = GTC")
    case True
    have "od_id y \<noteq> seq" if "y \<in> set (ref_side B ?sd) \<union> set ys" for y
    proof -
      have "od_id y \<in> od_id ` set (ref_side B ?sd) \<union> od_id ` set (ref_side B (opposite ?sd))"
        using that ref_match_ids [OF ref] by auto
      then show ?thesis using ids unfolding ids_below_def by force
    qed
    then have ids': "od_id (bk_objs b1 a) \<noteq> od_id t" if "a \<in> set (F ?sd) \<union> set A'" for a
      using that tx(3) own(2) contra(2) by (metis Un_iff image_eqI list.set_map)
    have "resting ?sd t" using True v(2) tx by (auto simp: resting_def)
    then obtain b' F' where "finish_order seq b1 t (evs @ es) =
        Inr (b', report_of seq t ((evs @ es) @ [OrderRested seq (od_id t) (od_side t) (od_price t) (od_remaining t)]))"
      "book_rel b' (set_ref_side B1 ?sd (rest_order t (ref_side B1 ?sd))) F'"
      using rest_ref [OF own(1) contra(1) live' addr _ _ _ ids' B1', of seq "evs @ es"] True tx by metis
    then show ?thesis using fin True tx by (auto simp: ref_settle_def)
  next
    case False
    have "\<exists>F. book_rel b1 B1 F" by (rule book_relI [OF own(1) B1'(1) contra(1) B1'(2) live' addr B1'(3)])
    moreover have "finish_order seq b1 t (evs @ es) = Inr (b1, r)" "B' = B1"
      using fin False tx by (auto simp: ref_settle_def finish_order_def Let_def split: if_splits)
    ultimately show ?thesis by blast
  qed
  then show ?thesis by (simp only: m(1) bind_sum_simps fst_conv snd_conv)
qed

lemma new_ref:
  assumes rel: "book_rel b B F" and ids: "ids_below seq B" and ref: "ref_new seq B cmd = (B', r)"
  shows "\<exists>b' F'. new_order_cmd seq b cmd = Inr (b', r) \<and> book_rel b' B' F'"
proof (cases "validate cmd")
  case (Some reason)
  then show ?thesis using rel ref by (auto simp: new_order_cmd_def ref_new_def)
next
  case None
  let ?x = "make_order seq cmd" and ?contra = "ref_side B (opposite (no_side cmd))"
  note v = validate_None [OF None] and rd = book_relD [OF rel]
  have "od_type ?x = MARKET \<or> od_price ?x \<noteq> None" using v(2) by (cases "no_type cmd") auto
  then have can: "can_fill_completely b ?x = Inr (no_quantity cmd \<le> available ?x ?contra)"
    using can_fill_ref [OF rd(1) [of "opposite (no_side cmd)"], of ?x] v(1) rd(2) by (simp add: can_fill_completely_def)
  show ?thesis
  proof (cases "no_tif cmd = FOK \<and> available ?x ?contra < no_quantity cmd")
    case True
    then have "new_order_cmd seq b cmd = Inr (b, r)" "B' = B"
      using ref None can by (simp_all add: new_order_cmd_def ref_new_def Let_def)
    then show ?thesis using rel by blast
  next
    case False
    obtain t ys tid es where m: "ref_match seq ?x ?contra (rb_trade B) = (t, ys, tid, es)" by (metis prod_cases4)
    have cmd: "new_order_cmd seq b cmd = bind_sum (match seq b ?x [OrderAccepted seq seq])
        (\<lambda>r. finish_order seq (fst r) (fst (snd r)) (snd (snd r)))"
      using None False can by (auto simp: new_order_cmd_def Let_def)
    have "ref_settle seq ((set_ref_side B (opposite (no_side cmd)) ys)\<lparr>rb_trade := tid\<rparr>) t ([OrderAccepted seq seq] @ es) = (B', r)"
      using ref None False m by (simp add: ref_new_def Let_def)
    from matched_ref [OF rel ids None m refl this] show ?thesis unfolding cmd .
  qed
qed

lemma find_live:
  assumes "book_rel b B F"
  shows "find (\<lambda>x. od_id x = i) (rb_bids B @ rb_asks B) = map_option (bk_objs b) (bk_live b i)"
proof -
  let ?ob = "bk_objs b"
  have live: "bk_live b i = Some a \<longleftrightarrow> a \<in> set (F BUY) \<union> set (F SELL) \<and> od_id (?ob a) = i" for a
    using assms by (simp add: book_rel_def live_ok_def)
  have list: "rb_bids B @ rb_asks B = map ?ob (F BUY @ F SELL)"
    using book_relD(2) [OF assms, of BUY] book_relD(2) [OF assms, of SELL] by simp
  show ?thesis
  proof (cases "bk_live b i")
    case None
    then show ?thesis unfolding list using live by (auto simp: find_None_iff)
  next
    case (Some a)
    have "find (\<lambda>x. od_id x = i) (map ?ob as) = Some (?ob a)" if "a \<in> set as" "set as \<subseteq> set (F BUY) \<union> set (F SELL)" for as
      using that
    proof (induction as)
      case (Cons c as)
      show ?case
      proof (cases "od_id (?ob c) = i")
        case True
        then have "c = a" using Cons.prems(2) live [of c] Some by auto
        then show ?thesis using True by simp
      next
        case False
        then show ?thesis using Cons live [of a] Some by auto
      qed
    qed simp
    from this [of "F BUY @ F SELL"] show ?thesis unfolding list using live [of a] Some by auto
  qed
qed

lemma cancel_ref:
  assumes rel: "book_rel b B F" and ref: "ref_cancel seq B i = (B', r)"
  shows "\<exists>b' F'. cancel_cmd seq b i = Inr (b', r) \<and> book_rel b' B' F'"
proof (cases "bk_live b i")
  case None
  then show ?thesis using rel ref find_live [OF rel, of i] by (auto simp: cancel_cmd_def ref_cancel_def)
next
  case (Some a)
  let ?ob = "bk_objs b"
  define sd where "sd = od_side (?ob a)"
  note r = book_relD [OF rel]
  have side: "od_side (?ob c) = d" if "c \<in> set (F d)" for c d
    using r(1) [of d] that by (simp add: side_rel_def levels_ok_def resting_def)
  have "a \<in> set (F BUY) \<union> set (F SELL)" and id: "od_id (?ob a) = i"
    using Some rel by (auto simp: book_rel_def live_ok_def)
  then have a: "a \<in> set (F sd)" using side [of a BUY] side [of a SELL] by (auto simp: sd_def)
  have other: "a \<notin> set (F (opposite sd))" using a r(6) [of sd] by blast
  have same_id: "c = a" if "c \<in> set (F sd) \<union> set (F (opposite sd))" "od_id (?ob c) = i" for c
    using live_ok_inj [OF r(3) [of sd], of c a] that id a by simp
  obtain s' where s': "side_remove ?ob (own_side b sd) a = Inr s'" "side_rel sd s' ?ob (filter (\<lambda>c. c \<noteq> a) (F sd))"
    using side_remove_rel [OF r(1) [of sd] a] same_id id by blast
  let ?x = "(?ob a)\<lparr>od_status := CANCELLED\<rparr>" and ?A = "filter (\<lambda>c. c \<noteq> a) (F sd)"
  define ob where "ob = ?ob(a := ?x)"
  define b' where "b' = (set_side (b\<lparr>bk_live := (bk_live b)(i := None)\<rparr>) sd s')\<lparr>bk_objs := ob\<rparr>"
  have cmd: "cancel_cmd seq b i = Inr (b', report_of seq ?x [OrderCancelled seq (od_id (?ob a)) (od_remaining (?ob a)) ''cancelled by client''])"
    using Some s'(1) by (simp add: cancel_cmd_def Let_def b'_def ob_def sd_def)
  have keep: "ob c = ?ob c" if "c \<noteq> a" for c using that by (simp add: ob_def)
  have own: "side_rel sd s' ob ?A" using s'(2) side_rel_cong [of ?A ob ?ob] keep by simp
  have contra: "side_rel (opposite sd) (own_side b (opposite sd)) ob (F (opposite sd))"
    using r(1) [of "opposite sd"] side_rel_cong [of "F (opposite sd)" ob ?ob] keep other by metis
  have "set (F sd) \<union> set (F (opposite sd)) = insert a (set ?A \<union> set (F (opposite sd)))" using a by auto
  then have "live_ok ?ob ((bk_live b)(od_id (?ob a) := None)) (set ?A \<union> set (F (opposite sd)))"
    using r(3) [of sd] other by (intro live_ok_remove) simp_all
  then have live: "live_ok ob ((bk_live b)(i := None)) (set ?A \<union> set (F (opposite sd)))"
    unfolding id by (rule live_ok_cong) (simp add: ob_def)
  have maps: "map ob ?A = filter (\<lambda>y. od_id y \<noteq> i) (map ?ob (F sd))"
  proof -
    have "filter (\<lambda>y. od_id y \<noteq> i) (map ?ob (F sd)) = map ?ob (filter (\<lambda>c. od_id (?ob c) \<noteq> i) (F sd))" by (simp add: filter_map comp_def)
    also have "filter (\<lambda>c. od_id (?ob c) \<noteq> i) (F sd) = ?A" using same_id id by (intro filter_cong) auto
    finally show ?thesis using keep by simp
  qed
  have maps': "map ob (F (opposite sd)) = filter (\<lambda>y. od_id y \<noteq> i) (map ?ob (F (opposite sd)))"
  proof -
    have "od_id (?ob c) \<noteq> i" if "c \<in> set (F (opposite sd))" for c using same_id that other by blast
    moreover have "ob c = ?ob c" if "c \<in> set (F (opposite sd))" for c using keep that other by metis
    then have "map ob (F (opposite sd)) = map ?ob (F (opposite sd))" by simp
    ultimately show ?thesis by (simp add: filter_id_conv del: map_eq_conv)
  qed
  define Bc where "Bc = B\<lparr>rb_bids := filter (\<lambda>y. od_id y \<noteq> i) (rb_bids B), rb_asks := filter (\<lambda>y. od_id y \<noteq> i) (rb_asks B)\<rparr>"
  have Bc: "ref_side Bc d = filter (\<lambda>y. od_id y \<noteq> i) (ref_side B d)" "rb_trade Bc = rb_trade B" for d
    by (cases d; simp add: Bc_def)+
  have "\<exists>F'. book_rel b' Bc F'"
    using own contra live maps maps' Bc r(2,4,5) by (intro book_relI [of sd b' ?A Bc "F (opposite sd)"]) (auto simp: b'_def)
  moreover have "B' = Bc" "r = report_of seq ?x [OrderCancelled seq (od_id (?ob a)) (od_remaining (?ob a)) ''cancelled by client'']"
    using ref find_live [OF rel, of i] Some id by (auto simp: ref_cancel_def Bc_def)
  ultimately show ?thesis using cmd by auto
qed

lemma apply_ref:
  assumes "book_rel b B F" "ids_below seq B" "ref_apply seq B cmd = (B', r)"
  shows "\<exists>b' F'. apply_cmd seq b cmd = Inr (b', r) \<and> book_rel b' B' F'"
  using assms new_ref cancel_ref by (cases cmd) auto

section \<open>The reference book in order\<close>

definition core :: "order \<Rightarrow> int \<times> int option \<times> Side" where
  "core x = (od_id x, od_price x, od_side x)"

text \<open>Price-time priority: a better price, or the same price and an earlier sequence number.\<close>

definition prior :: "order \<Rightarrow> order \<Rightarrow> bool" where
  "prior x y \<longleftrightarrow> rank x < rank y \<or> rank x = rank y \<and> od_id x < od_id y"

lemma coreD: "core x = core y \<Longrightarrow> od_id x = od_id y \<and> od_price x = od_price y \<and> od_side x = od_side y
    \<and> price_of x = price_of y \<and> rank x = rank y"
  by (simp add: core_def price_of_def rank_def)

lemma core_fill_by [simp]: "core (fill_by x qty) = core x"
  by (simp add: core_def)

definition core_prior :: "int \<times> int option \<times> Side \<Rightarrow> int \<times> int option \<times> Side \<Rightarrow> bool" where
  "core_prior c d \<longleftrightarrow> (let k = price_key (snd (snd c)) (the (fst (snd c))); l = price_key (snd (snd d)) (the (fst (snd d)))
     in k < l \<or> k = l \<and> fst c < fst d)"

lemma prior_core_prior: "prior x y = core_prior (core x) (core y)"
  by (simp add: prior_def core_prior_def core_def rank_def price_of_def Let_def)

lemma prior_core: "core x = core x' \<Longrightarrow> core y = core y' \<Longrightarrow> prior x y = prior x' y'"
  by (simp add: prior_core_prior)

lemma sorted_wrt_core: "sorted_wrt prior xs = sorted_wrt core_prior (map core xs)"
proof -
  have "prior = (\<lambda>x y. core_prior (core x) (core y))" by (intro ext) (rule prior_core_prior)
  then show ?thesis by (simp add: sorted_wrt_map)
qed

text \<open>What the reference match leaves, and what its trades are.\<close>

definition served :: "order \<Rightarrow> order list \<Rightarrow> order list \<Rightarrow> event \<Rightarrow> bool" where
  "served t xs ys e \<longleftrightarrow> is_trade e \<and> 0 < ev_quantity e \<and> takes t (ev_price e)
     \<and> (\<exists>x \<in> set xs. ev_maker e = od_id x \<and> ev_price e = price_of x \<and> (\<forall>y \<in> set ys. core y = core x \<or> prior x y))"

lemma ref_match_facts:
  assumes "ref_match seq t xs tid = (t1, ys, tid1, es)" "\<And>x. x \<in> set xs \<Longrightarrow> 0 < od_remaining x" "0 \<le> od_remaining t"
    "sorted_wrt prior xs"
  shows "0 \<le> od_remaining t1 \<and> (\<exists>k. map core ys = drop k (map core xs)) \<and> (\<forall>y \<in> set ys. 0 < od_remaining y)
    \<and> (0 < od_remaining t1 \<longrightarrow> ys = [] \<or> \<not> takes t (price_of (hd ys)))
    \<and> sum_list (map ev_quantity es) = od_remaining t - od_remaining t1 \<and> (\<forall>e \<in> set es. served t xs ys e)"
  using assms
proof (induction xs arbitrary: t tid es)
  case (Cons x xs)
  let ?q = "min (od_remaining t) (od_remaining x)"
  let ?e = "Trade seq tid (price_of x) ?q (od_id x) (od_id t) (od_side t)"
  show ?case
  proof (cases "0 < od_remaining t \<and> takes t (price_of x)")
    case False
    then have "t1 = t" "ys = x # xs" "es = []" using Cons.prems(1) by auto
    then show ?thesis using Cons.prems False by (auto intro: exI [of _ 0])
  next
    case go: True
    have q: "0 < ?q" using go Cons.prems(2) [of x] by simp
    show ?thesis
    proof (cases "od_remaining x = ?q")
      case True
      then obtain es1 where rec: "ref_match seq (fill_by t ?q) xs (tid + 1) = (t1, ys, tid1, es1)" and es: "es = ?e # es1"
        using Cons.prems(1) go by (auto simp: Let_def simp del: fill_by_simps split: prod.splits)
      have IH: "0 \<le> od_remaining t1" "\<exists>k. map core ys = drop k (map core xs)" "\<forall>y \<in> set ys. 0 < od_remaining y"
        "0 < od_remaining t1 \<longrightarrow> ys = [] \<or> \<not> takes t (price_of (hd ys))"
        "sum_list (map ev_quantity es1) = od_remaining t - ?q - od_remaining t1" "\<forall>e \<in> set es1. served (fill_by t ?q) xs ys e"
        using Cons.IH [OF rec] Cons.prems(2,4) by auto
      obtain k where k: "map core ys = drop k (map core xs)" using IH(2) ..
      have "prior x y" if "y \<in> set ys" for y
      proof -
        have "core y \<in> set (map core xs)" using that k by (metis image_eqI in_set_dropD list.set_map)
        then obtain z where "z \<in> set xs" "core y = core z" by auto
        then show ?thesis using Cons.prems(4) prior_core [of x x y z] by simp
      qed
      then have "served t (x # xs) ys ?e" using go q by (auto simp: served_def)
      moreover have "served t (x # xs) ys e" if "e \<in> set es1" for e using IH(6) that by (auto simp: served_def)
      moreover have "\<exists>k. map core ys = drop k (map core (x # xs))" using k by (intro exI [of _ "Suc k"]) simp
      ultimately show ?thesis using IH es by auto
    next
      case False
      then have lt: "od_remaining t < od_remaining x" by auto
      have r: "t1 = fill_by t ?q" "ys = fill_by x ?q # xs" "es = [?e]"
        using Cons.prems(1) go lt by (auto simp: Let_def simp del: fill_by_simps)
      have "core y = core x \<or> prior x y" if "y \<in> set ys" for y using that r(2) Cons.prems(4) by auto
      then have "served t (x # xs) ys ?e" using go q by (auto simp: served_def)
      moreover have "\<exists>k. map core ys = drop k (map core (x # xs))" using r(2) by (intro exI [of _ 0]) simp
      ultimately show ?thesis using r lt Cons.prems(2) by auto
    qed
  qed
qed simp

text \<open>
  A reference book in order, all its numbers below \<open>n\<close>: both sides in price-time priority, every order
  open, and every bid below every ask.
\<close>

definition ref_ok :: "int \<Rightarrow> ref_book \<Rightarrow> bool" where
  "ref_ok n B \<longleftrightarrow> (\<forall>sd. sorted_wrt prior (ref_side B sd) \<and> (\<forall>x \<in> set (ref_side B sd). resting sd x \<and> od_id x < n)
     \<and> (\<forall>x \<in> set (ref_side B sd). \<forall>y \<in> set (ref_side B (opposite sd)). price_key sd (price_of y) < price_key sd (price_of x)))"

lemma price_key_opposite: "price_key (opposite sd) p = - price_key sd p"
  by (cases sd) auto

lemma ref_okD:
  assumes "ref_ok n B"
  shows "sorted_wrt prior (ref_side B sd)" "\<And>x. x \<in> set (ref_side B sd) \<Longrightarrow> resting sd x" "\<And>x. x \<in> set (ref_side B sd) \<Longrightarrow> od_id x < n"
    "\<And>x y. x \<in> set (ref_side B sd) \<Longrightarrow> y \<in> set (ref_side B (opposite sd)) \<Longrightarrow> price_key sd (price_of y) < price_key sd (price_of x)"
  using assms by (auto simp: ref_ok_def)

lemma ref_okI:
  assumes "sorted_wrt prior (ref_side B sd)" "\<And>x. x \<in> set (ref_side B sd) \<Longrightarrow> resting sd x \<and> od_id x < n"
    "sorted_wrt prior (ref_side B (opposite sd))" "\<And>x. x \<in> set (ref_side B (opposite sd)) \<Longrightarrow> resting (opposite sd) x \<and> od_id x < n"
    "\<And>x y. x \<in> set (ref_side B sd) \<Longrightarrow> y \<in> set (ref_side B (opposite sd)) \<Longrightarrow> price_key sd (price_of y) < price_key sd (price_of x)"
  shows "ref_ok n B"
proof (cases sd)
  case BUY
  then show ?thesis using assms by (simp add: ref_ok_def all_sides)
next
  case SELL
  then show ?thesis using assms by (simp add: ref_ok_def all_sides)
qed

lemma ref_ok_ids: "ref_ok n B \<Longrightarrow> ids_below n B"
  by (simp add: ref_ok_def ids_below_def)

lemma ref_ok_mono: "ref_ok n B \<Longrightarrow> n \<le> k \<Longrightarrow> ref_ok k B"
  unfolding ref_ok_def by (meson order_less_le_trans)

lemma set_rest_order [simp]: "set (rest_order x xs) = insert x (set xs)"
  using set_append [of "takeWhile (\<lambda>y. rank y \<le> rank x) xs" "dropWhile (\<lambda>y. rank y \<le> rank x) xs"]
  by (auto simp: rest_order_def)

lemma sorted_rest_order:
  assumes "sorted_wrt prior xs" "\<And>y. y \<in> set xs \<Longrightarrow> od_id y < od_id x"
  shows "sorted_wrt prior (rest_order x xs)"
proof -
  let ?T = "takeWhile (\<lambda>y. rank y \<le> rank x) xs" and ?D = "dropWhile (\<lambda>y. rank y \<le> rank x) xs"
  have "sorted_wrt (\<lambda>x y. rank x \<le> rank y) xs" using assms(1) by (rule sorted_wrt_mono_rel [rotated]) (auto simp: prior_def)
  then have ranks: "sorted (map rank xs)" by (simp add: sorted_map)
  have T: "prior y x" if "y \<in> set ?T" for y using set_takeWhileD [OF that] assms(2) [of y] by (auto simp: prior_def)
  have D: "prior x y" if "y \<in> set ?D" for y using dropWhile_sorted_gt [OF ranks that] by (simp add: prior_def)
  have TD: "prior y z" if "y \<in> set ?T" "z \<in> set ?D" for y z using T [OF that(1)] D [OF that(2)] by (auto simp: prior_def)
  have "sorted_wrt prior (?T @ ?D)" using assms(1) by simp
  then have "sorted_wrt prior ?T" "sorted_wrt prior ?D" unfolding sorted_wrt_append by blast+
  then show ?thesis unfolding rest_order_def sorted_wrt_append sorted_wrt.simps list.set using T D TD by blast
qed

text \<open>The other side after a match, seen from the incoming order.\<close>

lemma ref_match_contra:
  assumes ok: "ref_ok n B" and ref: "ref_match seq t (ref_side B sd) tid = (t1, ys, tid1, es)" and pos: "0 \<le> od_remaining t"
  shows "sorted_wrt prior ys" "\<And>y. y \<in> set ys \<Longrightarrow> resting sd y \<and> od_id y < n \<and> (\<exists>x \<in> set (ref_side B sd). core y = core x)"
    "0 < od_remaining t1 \<Longrightarrow> od_side t = opposite sd \<Longrightarrow> y \<in> set ys \<Longrightarrow> \<not> takes t (price_of y)"
    "0 \<le> od_remaining t1" "sum_list (map ev_quantity es) = od_remaining t - od_remaining t1"
    "\<And>e. e \<in> set es \<Longrightarrow> served t (ref_side B sd) ys e"
proof -
  note o = ref_okD [where sd = sd, OF ok]
  note f = ref_match_facts [OF ref _ pos o(1)]
  have rem: "\<And>x. x \<in> set (ref_side B sd) \<Longrightarrow> 0 < od_remaining x" using o(2) by (auto simp: resting_def)
  obtain k where k: "map core ys = drop k (map core (ref_side B sd))" using f rem by blast
  show srt: "sorted_wrt prior ys" using o(1) unfolding sorted_wrt_core k by (rule sorted_wrt_drop)
  show ys: "resting sd y \<and> od_id y < n \<and> (\<exists>x \<in> set (ref_side B sd). core y = core x)" if y: "y \<in> set ys" for y
  proof -
    have "core y \<in> set (map core (ref_side B sd))" using y k by (metis image_eqI in_set_dropD list.set_map)
    then obtain x where x: "x \<in> set (ref_side B sd)" "core y = core x" by auto
    moreover have "0 < od_remaining y" using f rem y by blast
    ultimately show ?thesis using o(2,3) [OF x(1)] coreD [OF x(2)] by (auto simp: resting_def)
  qed
  show "\<not> takes t (price_of y)" if r: "0 < od_remaining t1" and sd: "od_side t = opposite sd" and y: "y \<in> set ys"
  proof -
    have hd: "\<not> takes t (price_of (hd ys))" using f rem r y by auto
    have "rank (hd ys) \<le> rank y" using srt y by (cases ys) (auto simp: prior_def)
    moreover have "hd ys \<in> set ys" using y by (cases ys) auto
    ultimately have "price_key sd (price_of (hd ys)) \<le> price_key sd (price_of y)"
      using ys y restingD(5) by metis
    then show ?thesis using hd takes_better [OF sd] by blast
  qed
  show "0 \<le> od_remaining t1" "sum_list (map ev_quantity es) = od_remaining t - od_remaining t1" "\<And>e. e \<in> set es \<Longrightarrow> served t (ref_side B sd) ys e"
    using f rem by blast+
qed

lemma ref_new_ok:
  assumes ok: "ref_ok seq B" and ref: "ref_new seq B cmd = (B', r)"
  shows "ref_ok (seq + 1) B'"
proof -
  have ok1: "ref_ok (seq + 1) B" by (rule ref_ok_mono [OF ok]) simp
  let ?x = "make_order seq cmd" and ?sd = "no_side cmd" and ?contra = "ref_side B (opposite (no_side cmd))"
  show ?thesis
  proof (cases "validate cmd = None \<and> \<not> (no_tif cmd = FOK \<and> available ?x ?contra < no_quantity cmd)")
    case False
    then have "B' = B" using ref by (auto simp: ref_new_def Let_def split: option.splits)
    then show ?thesis using ok1 by simp
  next
    case True
    note v = validate_None [OF conjunct1 [OF True]]
    obtain t ys tid es where m: "ref_match seq ?x ?contra (rb_trade B) = (t, ys, tid, es)" by (metis prod_cases4)
    define B1 where "B1 = (set_ref_side B (opposite ?sd) ys)\<lparr>rb_trade := tid\<rparr>"
    have fin: "ref_settle seq B1 t (OrderAccepted seq seq # es) = (B', r)"
      using ref True m by (simp add: ref_new_def Let_def B1_def)
    note tk = ref_match_taker [OF m] and c = ref_match_contra [OF ok m]
    note o = ref_okD [where sd = ?sd, OF ok]
    have ys: "sorted_wrt prior ys" "\<And>y. y \<in> set ys \<Longrightarrow> resting (opposite ?sd) y \<and> od_id y < seq + 1"
      using c(1,2) v(1) by fastforce+
    have apart: "price_key ?sd (price_of y) < price_key ?sd (price_of x)" if x: "x \<in> set (ref_side B ?sd)" and y: "y \<in> set ys" for x y
    proof -
      obtain z where "z \<in> set ?contra" "core y = core z" using c(2) [OF _ y] v(1) by auto
      then show ?thesis using o(4) [OF x] coreD by metis
    qed
    show ?thesis
    proof (cases "0 < od_remaining t \<and> no_type cmd = LIMIT \<and> no_tif cmd = GTC")
      case False
      then have "B' = B1" using fin tk by (auto simp: ref_settle_def split: if_splits)
      then show ?thesis using ys apart o(1,2,3) by (intro ref_okI [of _ ?sd]) (auto simp: B1_def less_imp_le add_strict_increasing)
    next
      case rest: True
      have B': "B' = set_ref_side B1 ?sd (rest_order t (ref_side B ?sd))" using fin rest tk by (auto simp: ref_settle_def B1_def)
      have t: "resting ?sd t" "od_id t = seq" "od_price t = no_price cmd" using rest v(2) tk by (auto simp: resting_def)
      have "price_key ?sd (price_of y) < price_key ?sd (price_of t)" if y: "y \<in> set ys" for y
      proof -
        have "\<not> takes ?x (price_of y)" using c(3) [OF _ _ _ y] rest v(1) by simp
        moreover have "price_of ?x = price_of t" using t(3) by (simp add: price_of_def)
        ultimately show ?thesis using rest by (cases ?sd) (auto simp: takes_def)
      qed
      moreover have "sorted_wrt prior (rest_order t (ref_side B ?sd))" by (rule sorted_rest_order) (use o t(2) in auto)
      ultimately show ?thesis using ys apart o(2,3) t unfolding B'
        by (intro ref_okI [of _ ?sd]) (auto simp: B1_def less_imp_le)
    qed
  qed
qed

lemma ref_cancel_ok:
  assumes "ref_ok seq B" "ref_cancel seq B i = (B', r)"
  shows "ref_ok (seq + 1) B'"
proof -
  have "ref_side B' sd = ref_side B sd \<or> ref_side B' sd = filter (\<lambda>y. od_id y \<noteq> i) (ref_side B sd)" for sd
    using assms(2) by (cases sd) (auto simp: ref_cancel_def split: option.splits)
  then have sub: "set (ref_side B' sd) \<subseteq> set (ref_side B sd)" "sorted_wrt prior (ref_side B sd) \<Longrightarrow> sorted_wrt prior (ref_side B' sd)" for sd
    by (metis filter_is_subset order_refl, metis sorted_wrt_filter)
  have "ref_ok (seq + 1) B" using ref_ok_mono [OF assms(1), of "seq + 1"] by simp
  then show ?thesis unfolding ref_ok_def using sub by (meson subsetD)
qed

lemma ref_apply_ok: "ref_ok seq B \<Longrightarrow> ref_apply seq B cmd = (B', r) \<Longrightarrow> ref_ok (seq + 1) B'"
  using ref_new_ok ref_cancel_ok by (cases cmd) auto

section \<open>Replay and the views of the book\<close>

lemma new_book_rel: "book_rel new_book empty_ref (\<lambda>_. [])"
  by (auto simp: book_rel_def all_sides new_book_def empty_ref_def new_side_def side_rel_def heap_ok_def levels_ok_def live_ok_def)

lemma empty_ref_ok: "ref_ok n empty_ref"
  by (simp add: ref_ok_def all_sides empty_ref_def)

lemma replay_from_ref:
  assumes "book_rel b B F" "ref_ok n B" "sorted_wrt (<) (map fst es)" "\<And>e. e \<in> set es \<Longrightarrow> n \<le> fst e \<and> fst e < k" "n \<le> k"
    "ref_replay B es = (B', rs)"
  shows "\<exists>b' F'. replay_from b es = Inr (b', rs) \<and> book_rel b' B' F' \<and> ref_ok k B'"
  using assms
proof (induction es arbitrary: b B F n rs)
  case Nil
  then show ?case using ref_ok_mono by auto
next
  case (Cons e es)
  obtain B1 r where ap: "ref_apply (fst e) B (snd e) = (B1, r)" by fastforce
  obtain rs1 where rest: "ref_replay B1 es = (B', rs1)" "rs = r # rs1" using Cons.prems(6) ap by (auto split: prod.splits)
  have ok: "ref_ok (fst e) B" using Cons.prems(2,4) ref_ok_mono by simp
  obtain b1 F1 where b1: "apply_cmd (fst e) b (snd e) = Inr (b1, r)" "book_rel b1 B1 F1"
    using apply_ref [OF Cons.prems(1) ref_ok_ids [OF ok] ap] by blast
  have "fst e + 1 \<le> fst d \<and> fst d < k" if "d \<in> set es" for d using Cons.prems(3,4) that by auto
  moreover have "fst e + 1 \<le> k" using Cons.prems(4) [of e] by simp
  ultimately obtain b' F' where "replay_from b1 es = Inr (b', rs1)" "book_rel b' B' F' \<and> ref_ok k B'"
    using Cons.IH [OF b1(2) ref_apply_ok [OF ok ap] _ _ _ rest(1)] Cons.prems(3) by auto
  then show ?case using b1(1) rest(2) by auto
qed

lemma replay_ref:
  assumes "sorted_wrt (<) (map fst es)" "\<And>e. e \<in> set es \<Longrightarrow> fst e < k" "ref_replay empty_ref es = (B, rs)"
  obtains b F where "replay es = Inr (b, rs)" "book_rel b B F" "ref_ok k B"
proof -
  define n where "n = (case es of [] \<Rightarrow> k | e # _ \<Rightarrow> fst e)"
  have "n \<le> fst e \<and> fst e < k" if "e \<in> set es" for e
    using assms(1,2) that by (cases es) (auto simp: n_def less_imp_le)
  moreover have "n \<le> k" using assms(2) by (cases es) (auto simp: n_def less_imp_le)
  ultimately show thesis using replay_from_ref [OF new_book_rel empty_ref_ok assms(1) _ _ assms(3)] that unfolding replay_def by blast
qed

lemma best_price_rel:
  assumes "side_rel sd s ob A"
  shows "snd (best_price s) = (if A = [] then None else Some (price_of (ob (hd A))))"
proof -
  obtain s' r where best: "best_level s = (s', r)" by fastforce
  note bl = best_level_rel [OF assms best]
  show ?thesis
  proof (cases r)
    case None
    then show ?thesis using bl(3) best by (simp add: best_price_def)
  next
    case (Some lv)
    then have "A \<noteq> []" "map_of (bs_levels s) (price_of (ob (hd A))) = Some lv" using bl(3) by auto
    moreover have "levels_ok sd (bs_levels s) ob A" using assms by (simp add: side_rel_def)
    ultimately have "lv_price lv = price_of (ob (hd A))" "lv_orders lv \<noteq> []"
      using levels_okD(5) [of sd "bs_levels s" ob A "price_of (ob (hd A))"] by (auto simp: holds_def)
    then show ?thesis using best Some \<open>A \<noteq> []\<close> by (simp add: best_price_def)
  qed
qed

definition ref_depth :: "order list \<Rightarrow> (int \<times> int) list" where
  "ref_depth xs = map (\<lambda>p. (p, sum_list (map od_remaining (filter (\<lambda>x. price_of x = p) xs)))) (remdups (map price_of xs))"

lemma sorted_wrt_remdups: "sorted_wrt R xs \<Longrightarrow> sorted_wrt R (remdups xs)"
  by (induction xs) auto

lemma sorted_unique_key:
  assumes "sorted (map f xs)" "sorted (map f ys)" "distinct xs" "distinct ys" "set xs = set ys" "inj (f :: int \<Rightarrow> int)"
  shows "xs = ys"
proof -
  have "map f xs = map f ys"
    using assms by (intro sorted_distinct_set_unique) (auto simp: distinct_map inj_on_subset [OF assms(6)])
  then show ?thesis using assms(6) by (simp add: inj_map_eq_map)
qed

lemma depth_rel:
  assumes rel: "side_rel sd s ob A"
  shows "depth s = ref_depth (map ob A)"
proof -
  have ok: "levels_ok sd (bs_levels s) ob A" "bs_side s = sd" using rel by (auto simp: side_rel_def)
  note o = levels_okD [OF ok(1)]
  let ?ks = "sort_key (price_key sd) (map fst (bs_levels s))" and ?ps = "remdups (map (\<lambda>a. price_of (ob a)) A)"
  have ranks: "map (price_key sd) (map (\<lambda>a. price_of (ob a)) A) = map (\<lambda>a. rank (ob a)) A"
    using restingD(5) [OF o(4)] by simp
  have "sorted (map (price_key sd) (map (\<lambda>a. price_of (ob a)) A))" unfolding ranks by (rule o(3))
  then have "sorted (map (price_key sd) ?ps)" unfolding sorted_map by (rule sorted_wrt_remdups)
  moreover have "set ?ks = set ?ps"
  proof -
    have "p \<in> fst ` set (bs_levels s) \<longleftrightarrow> p \<in> (\<lambda>a. price_of (ob a)) ` set A" for p
    proof
      assume "p \<in> fst ` set (bs_levels s)"
      then have "map_of (bs_levels s) p \<noteq> None" by (simp add: map_of_eq_None_iff)
      then obtain lv where "map_of (bs_levels s) p = Some lv" by blast
      from levels_ok_member [OF ok(1) this] show "p \<in> (\<lambda>a. price_of (ob a)) ` set A" by blast
    next
      assume "p \<in> (\<lambda>a. price_of (ob a)) ` set A"
      then obtain a where a: "a \<in> set A" "p = price_of (ob a)" by auto
      from levels_ok_at [OF ok(1) a(1)] obtain lv where "map_of (bs_levels s) p = Some lv" using a(2) by blast
      then show "p \<in> fst ` set (bs_levels s)" by (metis map_of_eq_None_iff option.distinct(1))
    qed
    then show ?thesis by auto
  qed
  ultimately have ks: "?ks = ?ps"
    using o(1) by (intro sorted_unique_key [of "price_key sd"]) (auto simp: distinct_sort inj_def price_key_inj)
  have lv: "lv_price (the (map_of (bs_levels s) p)) = p \<and> lv_total (the (map_of (bs_levels s) p)) =
      sum_list (map od_remaining (filter (\<lambda>x. price_of x = p) (map ob A)))" if p: "p \<in> set ?ps" for p
  proof -
    obtain a where a: "a \<in> set A" "p = price_of (ob a)" using p by auto
    obtain lv where lv: "map_of (bs_levels s) p = Some lv" "holds ob p lv (priced ob p A)"
      using levels_ok_at [OF ok(1) a(1)] a(2) by blast
    have "priced ob p A = filter (\<lambda>a. price_of (ob a) = p) A"
      using restingD(3) [OF o(4)] by (intro filter_cong) auto
    then show ?thesis using lv by (simp add: holds_def filter_map comp_def)
  qed
  have "depth s = map (\<lambda>p. (lv_price (the (map_of (bs_levels s) p)), lv_total (the (map_of (bs_levels s) p)))) ?ps"
    by (simp add: depth_def levels_of_def ok(2) ks comp_def)
  also have "\<dots> = ref_depth (map ob A)" unfolding ref_depth_def using lv by (simp add: comp_def)
  finally show ?thesis .
qed

lemma replay_views:
  assumes "book_rel b B F"
  shows "snapshot b = (ref_depth (rb_bids B), ref_depth (rb_asks B))"
    "snd (best_bid b) = (if rb_bids B = [] then None else Some (price_of (hd (rb_bids B))))"
    "snd (best_ask b) = (if rb_asks B = [] then None else Some (price_of (hd (rb_asks B))))"
    "get_order b i = find (\<lambda>x. od_id x = i) (rb_bids B @ rb_asks B)"
proof -
  note r = book_relD [OF assms]
  have bids: "rb_bids B = map (bk_objs b) (F BUY)" "side_rel BUY (bk_bids b) (bk_objs b) (F BUY)"
    and asks: "rb_asks B = map (bk_objs b) (F SELL)" "side_rel SELL (bk_asks b) (bk_objs b) (F SELL)"
    using r(1,2) [of BUY] r(1,2) [of SELL] by simp_all
  show "snapshot b = (ref_depth (rb_bids B), ref_depth (rb_asks B))"
    using depth_rel [OF bids(2)] depth_rel [OF asks(2)] bids(1) asks(1) by (simp add: snapshot_def)
  show "snd (best_bid b) = (if rb_bids B = [] then None else Some (price_of (hd (rb_bids B))))"
    using best_price_rel [OF bids(2)] bids(1) by (simp add: best_bid_def hd_map case_prod_unfold)
  show "snd (best_ask b) = (if rb_asks B = [] then None else Some (price_of (hd (rb_asks B))))"
    using best_price_rel [OF asks(2)] asks(1) by (simp add: best_ask_def hd_map case_prod_unfold)
  show "get_order b i = find (\<lambda>x. od_id x = i) (rb_bids B @ rb_asks B)"
    using find_live [OF assms] by (simp add: get_order_def)
qed

lemma replay_from_snoc:
  "replay_from b (es @ [e]) =
     bind_sum (replay_from b es) (\<lambda>q. bind_sum (apply_cmd (fst e) (fst q) (snd e)) (\<lambda>r. Inr (fst r, snd q @ [snd r])))"
  by (induction es arbitrary: b) (auto simp: bind_sum_def split: sum.splits)

lemma replay_bound:
  fixes es :: "(int \<times> command) list"
  obtains k where "\<And>e. e \<in> set es \<Longrightarrow> fst e < k"
proof
  fix e
  assume "e \<in> set es"
  then have "fst e \<le> Max (fst ` set es)" by simp
  then show "fst e < Max (fst ` set es) + 1" by simp
qed

lemma replay_total: "sorted_wrt (<) (map fst es) \<Longrightarrow> \<exists>b rs. replay es = Inr (b, rs)"
  using replay_bound [of es] replay_ref [of es] by (metis prod.exhaust)

section \<open>What a new order gets\<close>

lemma ref_match_available:
  assumes "ref_match seq t xs tid = (t1, ys, tid1, es)" "0 < od_remaining t1" "od_side t = opposite sd"
    "\<And>x. x \<in> set xs \<Longrightarrow> resting sd x" "sorted_wrt prior xs"
  shows "available t xs \<le> od_remaining t - od_remaining t1"
  using assms
proof (induction xs arbitrary: t tid es)
  case (Cons x xs)
  let ?q = "min (od_remaining t) (od_remaining x)"
  have pos: "0 < od_remaining x" using Cons.prems(4) [of x] by (simp add: resting_def)
  show ?case
  proof (cases "0 < od_remaining t \<and> takes t (price_of x)")
    case False
    then have t1: "t1 = t" using Cons.prems(1) by auto
    then have no: "\<not> takes t (price_of x)" using False Cons.prems(2) by simp
    have "\<not> takes t (price_of y)" if "y \<in> set xs" for y
    proof -
      have "rank x \<le> rank y" using Cons.prems(5) that by (auto simp: prior_def)
      then have "price_key sd (price_of x) \<le> price_key sd (price_of y)"
        using restingD(5) [OF Cons.prems(4) [of x]] restingD(5) [OF Cons.prems(4) [of y]] that by simp
      then show ?thesis using no takes_better [OF Cons.prems(3)] by blast
    qed
    then have "filter (\<lambda>x. takes t (price_of x)) (x # xs) = []" using no by (auto simp: filter_empty_conv)
    then show ?thesis using t1 by (simp add: available_def del: filter.simps)
  next
    case go: True
    have full: "od_remaining x \<le> od_remaining t"
    proof (rule ccontr)
      assume "\<not> od_remaining x \<le> od_remaining t"
      then have "t1 = fill_by t (od_remaining t)" using Cons.prems(1) go by (auto simp: Let_def simp del: fill_by_simps)
      then show False using Cons.prems(2) by simp
    qed
    then obtain es1 where rec: "ref_match seq (fill_by t (od_remaining x)) xs (tid + 1) = (t1, ys, tid1, es1)"
      using Cons.prems(1) go by (auto simp: Let_def simp del: fill_by_simps split: prod.splits)
    have "available (fill_by t (od_remaining x)) xs \<le> od_remaining (fill_by t (od_remaining x)) - od_remaining t1"
      by (rule Cons.IH [OF rec Cons.prems(2)]) (use Cons.prems in auto)
    then show ?thesis using go by (simp add: available_def)
  qed
qed (simp add: available_def)

lemma served_trades: "\<forall>e \<in> set es. served t xs ys e \<Longrightarrow> filter is_trade es = es"
  by (simp add: served_def)

text \<open>The report of a valid new order on a book in order.\<close>

lemma ref_new_report:
  assumes ok: "ref_ok seq B" and v: "validate cmd = None" and ref: "ref_new seq B cmd = (B', r)"
  shows "0 \<le> rp_filled r" "0 \<le> rp_remaining r" "rp_filled r + rp_remaining r = no_quantity cmd"
    "rp_filled r = sum_list (map ev_quantity (trades r))" "no_tif cmd = FOK \<Longrightarrow> rp_filled r = 0 \<or> rp_filled r = no_quantity cmd"
    "\<forall>e \<in> set (trades r). served (make_order seq cmd) (ref_side B (opposite (no_side cmd))) (ref_side B' (opposite (no_side cmd))) e"
proof -
  let ?x = "make_order seq cmd" and ?sd = "opposite (no_side cmd)"
  note q = validate_None(1) [OF v]
  have "0 \<le> rp_filled r \<and> 0 \<le> rp_remaining r \<and> rp_filled r + rp_remaining r = no_quantity cmd
    \<and> rp_filled r = sum_list (map ev_quantity (trades r)) \<and> (no_tif cmd = FOK \<longrightarrow> rp_filled r = 0 \<or> rp_filled r = no_quantity cmd)
    \<and> (\<forall>e \<in> set (trades r). served ?x (ref_side B ?sd) (ref_side B' ?sd) e)"
  proof (cases "no_tif cmd = FOK \<and> available ?x (ref_side B ?sd) < no_quantity cmd")
    case True
    then have "r = report_of seq (?x\<lparr>od_status := CANCELLED\<rparr>)
        [OrderAccepted seq seq, OrderCancelled seq seq (no_quantity cmd) ''FOK: insufficient liquidity'']"
      using ref v by (simp add: ref_new_def Let_def)
    then show ?thesis using q by (simp add: report_of_def trades_def filled_def)
  next
    case False
    obtain t ys tid es where m: "ref_match seq ?x (ref_side B ?sd) (rb_trade B) = (t, ys, tid, es)" by (metis prod_cases4)
    define B1 where "B1 = (set_ref_side B ?sd ys)\<lparr>rb_trade := tid\<rparr>"
    have fin: "ref_settle seq B1 t (OrderAccepted seq seq # es) = (B', r)"
      using ref v False m by (simp add: ref_new_def Let_def B1_def)
    have pos: "0 \<le> od_remaining ?x" using q by simp
    note tk = ref_match_taker [OF m] and c = ref_match_contra [OF ok m pos]
    have es: "filter is_trade es = es" using served_trades c(6) by blast
    have tr: "trades r = es" and rp: "rp_remaining r = od_remaining t" "rp_filled r = no_quantity cmd - od_remaining t"
      using fin tk es by (auto simp: ref_settle_def report_of_def trades_def filled_def split: if_splits)
    have B': "ref_side B' ?sd = ys" using fin tk by (auto simp: ref_settle_def B1_def split: if_splits)
    have "od_remaining t = 0" if "no_tif cmd = FOK"
    proof (rule ccontr)
      assume "od_remaining t \<noteq> 0"
      then have "0 < od_remaining t" using c(4) by simp
      from ref_match_available [OF m this, of ?sd] ref_okD(1,2) [OF ok]
      have "available ?x (ref_side B ?sd) \<le> od_remaining ?x - od_remaining t" by simp
      then show False using False that c(4) \<open>od_remaining t \<noteq> 0\<close> by simp
    qed
    moreover have "0 \<le> sum_list (map ev_quantity es)" using c(6) by (intro sum_list_nonneg) (force simp: served_def)
    ultimately show ?thesis using rp tr B' c(4,5,6) by auto
  qed
  then show "0 \<le> rp_filled r" "0 \<le> rp_remaining r" "rp_filled r + rp_remaining r = no_quantity cmd"
    "rp_filled r = sum_list (map ev_quantity (trades r))" "no_tif cmd = FOK \<Longrightarrow> rp_filled r = 0 \<or> rp_filled r = no_quantity cmd"
    "\<forall>e \<in> set (trades r). served ?x (ref_side B ?sd) (ref_side B' ?sd) e" by blast+
qed

lemma ref_replay_snoc:
  "ref_replay B (es @ [e]) = (case ref_replay B es of (B1, rs) \<Rightarrow> (case ref_apply (fst e) B1 (snd e) of (B2, r) \<Rightarrow> (B2, rs @ [r])))"
  by (induction es arbitrary: B) (auto split: prod.splits)

lemma replay_new_order:
  assumes srt: "sorted_wrt (<) (map fst (es @ [(seq, NewOrder cmd)]))"
  obtains b B F B0 rs r where "replay (es @ [(seq, NewOrder cmd)]) = Inr (b, rs @ [r])" "length rs = length es" "book_rel b B F"
    "ref_ok (seq + 1) B" "ref_ok seq B0" "ref_new seq B0 cmd = (B, r)"
proof -
  obtain B0 rs where r0: "ref_replay empty_ref es = (B0, rs)" by fastforce
  obtain B r where r1: "ref_new seq B0 cmd = (B, r)" by fastforce
  have all: "ref_replay empty_ref (es @ [(seq, NewOrder cmd)]) = (B, rs @ [r])" using r0 r1 by (simp add: ref_replay_snoc)
  have below: "\<And>e. e \<in> set es \<Longrightarrow> fst e < seq" using srt by (auto simp: sorted_wrt_append)
  have "sorted_wrt (<) (map fst es)" using srt by (simp add: sorted_wrt_append)
  from replay_ref [OF this below r0] have ok0: "ref_ok seq B0" by blast
  have "fst e < seq + 1" if "e \<in> set (es @ [(seq, NewOrder cmd)])" for e
    using that below [of e] by (auto simp: less_imp_le)
  from replay_ref [OF srt this all] obtain b F where b: "replay (es @ [(seq, NewOrder cmd)]) = Inr (b, rs @ [r])" "book_rel b B F" "ref_ok (seq + 1) B"
    by blast
  have "length (snd (ref_replay B es)) = length es" for B by (induction es arbitrary: B) (auto simp: case_prod_unfold)
  from this [of empty_ref] show thesis using that [OF b(1) _ b(2,3) ok0 r1] r0 by simp
qed

section \<open>The properties\<close>

text \<open>
  C1. The order book is a price-time priority book: on every journal with ascending sequence numbers it raises
  nothing, reports exactly what the reference book reports, and its depth, best prices and lookup by number
  are those of the reference book.
\<close>
theorem order_book_refines:
  assumes "sorted_wrt (<) (map fst entries)" "ref_replay empty_ref entries = (B, reports)"
  shows "\<exists>b. replay entries = Inr (b, reports) \<and> snapshot b = (ref_depth (rb_bids B), ref_depth (rb_asks B))
    \<and> snd (best_bid b) = (if rb_bids B = [] then None else Some (price_of (hd (rb_bids B))))
    \<and> snd (best_ask b) = (if rb_asks B = [] then None else Some (price_of (hd (rb_asks B))))
    \<and> (\<forall>i. get_order b i = find (\<lambda>x. od_id x = i) (rb_bids B @ rb_asks B))"
proof -
  obtain k where k: "\<And>e. e \<in> set entries \<Longrightarrow> fst e < k" using replay_bound [of entries] by blast
  obtain b F where "replay entries = Inr (b, reports)" "book_rel b B F" using replay_ref [OF assms(1) k assms(2)] by blast
  then show ?thesis using replay_views by blast
qed

definition demo_limit :: "Side \<Rightarrow> int \<Rightarrow> int \<Rightarrow> TimeInForce \<Rightarrow> command" where
  "demo_limit sd qty price tif = NewOrder \<lparr>no_client = ''c'', no_side = sd, no_quantity = qty, no_type = LIMIT,
     no_price = Some price, no_tif = tif\<rparr>"

definition demo_journal :: "(int \<times> command) list" where
  "demo_journal = [(1, demo_limit SELL 100 101 GTC), (2, demo_limit SELL 50 101 GTC), (3, demo_limit SELL 200 102 GTC),
     (5, demo_limit BUY 120 101 GTC), (6, demo_limit BUY 300 102 FOK), (7, demo_limit BUY 10 100 GTC), (8, CancelOrder 3)]"

lemma demo_journal_sorted: "sorted_wrt (<) (map fst demo_journal)"
  by (simp add: demo_journal_def)

theorem order_book_refines_witness:
  "\<exists>b rs. replay demo_journal = Inr (b, rs) \<and> snapshot b = ([(100, 10)], [(101, 30)])
     \<and> map rp_filled rs = [0, 0, 0, 120, 0, 0, 0] \<and> snd (best_bid b) = Some 100"
proof -
  let ?R = "ref_replay empty_ref demo_journal"
  have B: "map rp_filled (snd ?R) = [0, 0, 0, 120, 0, 0, 0]" "ref_depth (rb_bids (fst ?R)) = [(100, 10)]"
    "ref_depth (rb_asks (fst ?R)) = [(101, 30)]" "map price_of (rb_bids (fst ?R)) = [100]" by code_simp+
  have "?R = (fst ?R, snd ?R)" by simp
  from order_book_refines [OF demo_journal_sorted this] B show ?thesis by (cases "rb_bids (fst ?R)") auto
qed

text \<open>
  The book is never crossed: after any journal with ascending sequence numbers the best bid is below the
  best ask.
\<close>
theorem book_never_crossed:
  assumes "sorted_wrt (<) (map fst entries)"
  shows "\<exists>b reports. replay entries = Inr (b, reports)
    \<and> (\<forall>x y. snd (best_bid b) = Some x \<and> snd (best_ask b) = Some y \<longrightarrow> x < y)"
proof -
  obtain B rs where r: "ref_replay empty_ref entries = (B, rs)" by fastforce
  obtain k where k: "\<And>e. e \<in> set entries \<Longrightarrow> fst e < k" using replay_bound [of entries] by blast
  obtain b F where b: "replay entries = Inr (b, rs)" "book_rel b B F" "ref_ok k B" using replay_ref [OF assms k r] by blast
  have "price_of x < price_of y" if "x \<in> set (rb_bids B)" "y \<in> set (rb_asks B)" for x y
    using ref_okD(4) [OF b(3), of x BUY y] that by simp
  then have "x < y" if "snd (best_bid b) = Some x" "snd (best_ask b) = Some y" for x y
    using that by (auto simp: replay_views(2,3) [OF b(2)] split: if_splits)
  then show ?thesis using b(1) by blast
qed

theorem book_never_crossed_witness: "\<exists>b reports. replay demo_journal = Inr (b, reports)"
  using book_never_crossed [OF demo_journal_sorted] by blast

text \<open>
  Quantities add up: for a valid new order after any journal, filled and remaining quantity make up its
  quantity, the filled quantity is the sum of its trades, every trade has a positive quantity at a price
  within the order's limit, and a fill-or-kill order is filled completely or not at all.
\<close>
theorem new_order_accounts:
  assumes "sorted_wrt (<) (map fst (entries @ [(seq, NewOrder cmd)]))" "validate cmd = None"
  shows "\<exists>b reports r. replay (entries @ [(seq, NewOrder cmd)]) = Inr (b, reports @ [r]) \<and> length reports = length entries
    \<and> 0 \<le> rp_filled r \<and> 0 \<le> rp_remaining r \<and> rp_filled r + rp_remaining r = no_quantity cmd
    \<and> rp_filled r = sum_list (map ev_quantity (trades r))
    \<and> (\<forall>e \<in> set (trades r). 0 < ev_quantity e \<and> takes (make_order seq cmd) (ev_price e))
    \<and> (no_tif cmd = FOK \<longrightarrow> rp_filled r = 0 \<or> rp_filled r = no_quantity cmd)"
proof -
  obtain b B F B0 rs r where b: "replay (entries @ [(seq, NewOrder cmd)]) = Inr (b, rs @ [r])" "length rs = length entries"
    and "book_rel b B F" "ref_ok (seq + 1) B" and new: "ref_ok seq B0" "ref_new seq B0 cmd = (B, r)"
    by (rule replay_new_order [OF assms(1)])
  note rep = ref_new_report [OF new(1) assms(2) new(2)]
  have "\<forall>e \<in> set (trades r). 0 < ev_quantity e \<and> takes (make_order seq cmd) (ev_price e)" using rep(6) by (auto simp: served_def)
  then show ?thesis using b rep(1-5) by blast
qed

definition demo_order :: "TimeInForce \<Rightarrow> new_order" where
  "demo_order tif = \<lparr>no_client = ''d'', no_side = BUY, no_quantity = 500, no_type = LIMIT, no_price = Some 102, no_tif = tif\<rparr>"

lemma demo_order_valid: "validate (demo_order tif) = None"
  by (simp add: validate_def demo_order_def)

lemma demo_order_sorted: "sorted_wrt (<) (map fst (demo_journal @ [(9, NewOrder c)]))"
  by (simp add: demo_journal_def)

theorem new_order_accounts_witness:
  "validate (demo_order FOK) = None \<and>
   (\<exists>b reports r. replay (demo_journal @ [(9, NewOrder (demo_order FOK))]) = Inr (b, reports @ [r])
     \<and> rp_filled r + rp_remaining r = 500)"
proof -
  have "no_quantity (demo_order FOK) = 500" by (simp add: demo_order_def)
  moreover obtain b reports r where "replay (demo_journal @ [(9, NewOrder (demo_order FOK))]) = Inr (b, reports @ [r])"
    "rp_filled r + rp_remaining r = no_quantity (demo_order FOK)"
    using new_order_accounts [OF demo_order_sorted demo_order_valid [of FOK]] by blast
  ultimately show ?thesis using demo_order_valid by metis
qed

text \<open>
  C2. Price-time priority: after a new order, every order that still rests on the other side comes after the
  maker of every trade of the new order (or is that maker): its price is worse, or it is the same and its
  sequence number is not smaller.
\<close>
theorem price_time_priority:
  assumes "sorted_wrt (<) (map fst (entries @ [(seq, NewOrder cmd)]))" "validate cmd = None"
  shows "\<exists>b reports r. replay (entries @ [(seq, NewOrder cmd)]) = Inr (b, reports @ [r]) \<and> length reports = length entries
    \<and> (\<forall>e \<in> set (trades r). \<forall>i x. get_order b i = Some x \<and> od_side x = opposite (no_side cmd) \<longrightarrow>
         price_key (od_side x) (ev_price e) < price_key (od_side x) (price_of x) \<or> ev_price e = price_of x \<and> ev_maker e \<le> od_id x)"
proof -
  let ?sd = "opposite (no_side cmd)"
  obtain b B F B0 rs r where b: "replay (entries @ [(seq, NewOrder cmd)]) = Inr (b, rs @ [r])" "length rs = length entries" "book_rel b B F"
    and new: "ref_ok (seq + 1) B" "ref_ok seq B0" "ref_new seq B0 cmd = (B, r)"
    by (rule replay_new_order [OF assms(1)])
  have "price_key ?sd (ev_price e) < price_key ?sd (price_of x) \<or> ev_price e = price_of x \<and> ev_maker e \<le> od_id x"
    if e: "e \<in> set (trades r)" and x: "get_order b i = Some x" "od_side x = ?sd" for e i x
  proof -
    have "x \<in> set (rb_bids B @ rb_asks B)"
      using x(1) unfolding replay_views(4) [OF b(3)] find_Some_iff by (metis nth_mem)
    then have mem: "x \<in> set (ref_side B ?sd)"
      using ref_okD(2) [OF new(1), of x BUY] ref_okD(2) [OF new(1), of x SELL] x(2) by (auto simp: resting_def)
    obtain y where y: "y \<in> set (ref_side B0 ?sd)" "ev_maker e = od_id y" "ev_price e = price_of y" "core x = core y \<or> prior y x"
      using ref_new_report(6) [OF new(2) assms(2) new(3)] e mem by (auto simp: served_def)
    have "rank y = price_key ?sd (price_of y)" "rank x = price_key ?sd (price_of x)"
      using restingD(5) [OF ref_okD(2) [OF new(2) y(1)]] restingD(5) [OF ref_okD(2) [OF new(1) mem]] by simp_all
    then show ?thesis using y coreD [of x y] by (auto simp: prior_def price_key_inj)
  qed
  then show ?thesis using b(1,2) by metis
qed

theorem price_time_priority_witness:
  "validate (demo_order IOC) = None \<and>
   (\<exists>b reports r. replay (demo_journal @ [(9, NewOrder (demo_order IOC))]) = Inr (b, reports @ [r]) \<and> length reports = 7)"
proof -
  have "length demo_journal = 7" by (simp add: demo_journal_def)
  moreover obtain b reports r where "replay (demo_journal @ [(9, NewOrder (demo_order IOC))]) = Inr (b, reports @ [r])"
    "length reports = length demo_journal"
    using price_time_priority [OF demo_order_sorted demo_order_valid [of IOC]] by blast
  ultimately show ?thesis using demo_order_valid by metis
qed

end
