(* ===== verification/Order_Sequencer.thy ===== *)
theory Order_Sequencer
  imports Order_Matching
begin

text \<open>
  \<open>SymbolSequencer\<close> of \<open>order_matching_engine.py\<close>: clients put commands into a queue, one worker takes
  them out, numbers and journals them, applies them to the order book and publishes the events. A future is
  a number; \<open>sq_published\<close> is the log of the calls of the \<open>sq_listeners\<close> listeners (whatever a listener
  raises is swallowed). One iteration of the worker's loop is one step: only the worker touches what it
  changes besides the queue. When the queue is empty the worker waits. In every interleaving the book is
  the replay of the journal and each future gets the report of its own command.
\<close>

section \<open>The single writer\<close>

datatype future = Pending | Result report | Failed py_error

datatype queue_item = Item command nat | STOP

record sequencer =
  sq_book :: book
  sq_journal :: "(int \<times> command) list"
  sq_listeners :: nat
  sq_published :: "(event \<times> nat) list"
  sq_queue :: "queue_item list"
  sq_seq :: int
  sq_closed :: bool
  sq_running :: bool
  sq_futures :: "nat \<Rightarrow> future"
  sq_next :: nat

definition new_sequencer :: "nat \<Rightarrow> sequencer" where
  "new_sequencer listeners = \<lparr>sq_book = new_book, sq_journal = [], sq_listeners = listeners, sq_published = [],
     sq_queue = [], sq_seq = 0, sq_closed = False, sq_running = True, sq_futures = (\<lambda>_. Pending), sq_next = 0\<rparr>"

definition submit :: "sequencer \<Rightarrow> command \<Rightarrow> sequencer \<times> (py_error + nat)" where
  "submit s cmd =
     (if sq_closed s then (s, Inl RuntimeError)
      else (s\<lparr>sq_queue := sq_queue s @ [Item cmd (sq_next s)], sq_next := Suc (sq_next s)\<rparr>, Inr (sq_next s)))"

definition seq_close :: "sequencer \<Rightarrow> sequencer" where
  "seq_close s = (if sq_closed s then s else s\<lparr>sq_closed := True, sq_queue := sq_queue s @ [STOP]\<rparr>)"

definition publish :: "nat \<Rightarrow> event list \<Rightarrow> (event \<times> nat) list" where
  "publish listeners evs = concat (map (\<lambda>e. map (\<lambda>l. (e, l)) [0..<listeners]) evs)"

definition work :: "sequencer \<Rightarrow> sequencer" where
  "work s =
     (if \<not> sq_running s then s
      else (case sq_queue s of
              [] \<Rightarrow> s
            | STOP # q \<Rightarrow> s\<lparr>sq_queue := q, sq_running := False\<rparr>
            | Item cmd f # q \<Rightarrow>
                (let seq = sq_seq s + 1;
                     s1 = s\<lparr>sq_queue := q, sq_seq := seq, sq_journal := sq_journal s @ [(seq, cmd)]\<rparr>
                 in case apply_cmd seq (sq_book s1) cmd of
                      Inl e \<Rightarrow> s1\<lparr>sq_futures := (sq_futures s1)(f := Failed e)\<rparr>
                    | Inr (b, r) \<Rightarrow>
                        s1\<lparr>sq_book := b, sq_published := sq_published s1 @ publish (sq_listeners s1) (rp_events r),
                           sq_futures := (sq_futures s1)(f := Result r)\<rparr>)))"

datatype seq_op = Submit command | Close | Work

fun seq_step :: "sequencer \<Rightarrow> seq_op \<Rightarrow> sequencer \<times> (py_error + nat)" where
  "seq_step s (Submit cmd) = submit s cmd"
| "seq_step s Close = (seq_close s, Inr 0)"
| "seq_step s Work = (work s, Inr 0)"

text \<open>The items waiting: the futures that follow the completed ones, then the stop marker when closed.\<close>

definition waiting_ok :: "sequencer \<Rightarrow> nat \<Rightarrow> bool" where
  "waiting_ok s n \<longleftrightarrow> (\<exists>cmds. sq_queue s = map2 Item cmds [n..<sq_next s] @ (if sq_closed s \<and> sq_running s then [STOP] else [])
     \<and> length cmds = sq_next s - n) \<and> n \<le> sq_next s \<and> (\<not> sq_closed s \<longrightarrow> sq_running s) \<and> (\<not> sq_running s \<longrightarrow> n = sq_next s)"

definition seq_ok :: "sequencer \<Rightarrow> bool" where
  "seq_ok s \<longleftrightarrow> (\<exists>rs. replay (sq_journal s) = Inr (sq_book s, rs) \<and> map fst (sq_journal s) = [1..sq_seq s]
     \<and> sq_seq s = int (length rs) \<and> sq_published s = concat (map (\<lambda>r. publish (sq_listeners s) (rp_events r)) rs)
     \<and> (\<forall>f. sq_futures s f = (if f < length rs then Result (rs ! f) else Pending)) \<and> waiting_ok s (length rs))"

lemma map2_Item_snoc:
  "n \<le> k \<Longrightarrow> length cmds = k - n \<Longrightarrow> map2 Item (cmds @ [cmd]) [n..<Suc k] = map2 Item cmds [n..<k] @ [Item cmd k]"
  by (simp add: zip_append)

lemma submit_ok:
  assumes "seq_ok s"
  shows "seq_ok (fst (submit s cmd))"
proof (cases "sq_closed s")
  case False
  obtain rs where rs: "replay (sq_journal s) = Inr (sq_book s, rs)" "map fst (sq_journal s) = [1..sq_seq s]" "sq_seq s = int (length rs)"
    "sq_published s = concat (map (\<lambda>r. publish (sq_listeners s) (rp_events r)) rs)"
    "\<forall>f. sq_futures s f = (if f < length rs then Result (rs ! f) else Pending)" "waiting_ok s (length rs)"
    using assms by (auto simp: seq_ok_def)
  obtain cmds where q: "sq_queue s = map2 Item cmds [length rs..<sq_next s]" "length cmds = sq_next s - length rs" "length rs \<le> sq_next s" "sq_running s"
    using rs(6) False by (auto simp: waiting_ok_def)
  have "waiting_ok (fst (submit s cmd)) (length rs)"
    using q False map2_Item_snoc [OF q(3,2), of cmd] by (auto simp: waiting_ok_def submit_def intro!: exI [of _ "cmds @ [cmd]"])
  then show ?thesis using rs False by (auto simp: seq_ok_def submit_def)
qed (use assms in \<open>simp add: submit_def\<close>)

lemma close_ok:
  assumes "seq_ok s"
  shows "seq_ok (seq_close s)"
  using assms by (auto simp: seq_ok_def seq_close_def waiting_ok_def)

lemma work_item:
  assumes "waiting_ok s n" "sq_queue s = Item cmd f # q" "sq_running s"
  shows "f = n" "n < sq_next s" "\<exists>cmds. q = map2 Item cmds [Suc n..<sq_next s] @ (if sq_closed s then [STOP] else []) \<and> length cmds = sq_next s - Suc n"
proof -
  obtain cmds where c: "Item cmd f # q = map2 Item cmds [n..<sq_next s] @ (if sq_closed s then [STOP] else [])"
    "length cmds = sq_next s - n" "n \<le> sq_next s" using assms by (auto simp: waiting_ok_def)
  have "n \<noteq> sq_next s" using c by (auto split: if_splits)
  then show less: "n < sq_next s" using c(3) by simp
  obtain c0 cs where cs: "cmds = c0 # cs" using c(2) less by (cases cmds) auto
  have up: "[n..<sq_next s] = n # [Suc n..<sq_next s]" using less by (simp add: upt_conv_Cons)
  show "f = n" using c(1) by (simp add: cs up)
  show "\<exists>cmds. q = map2 Item cmds [Suc n..<sq_next s] @ (if sq_closed s then [STOP] else []) \<and> length cmds = sq_next s - Suc n"
    using c(1,2) by (intro exI [of _ cs]) (simp add: cs up)
qed

lemma work_ok:
  assumes "seq_ok s"
  shows "seq_ok (work s)"
proof -
  obtain rs where rs: "replay (sq_journal s) = Inr (sq_book s, rs)" "map fst (sq_journal s) = [1..sq_seq s]" "sq_seq s = int (length rs)"
    "sq_published s = concat (map (\<lambda>r. publish (sq_listeners s) (rp_events r)) rs)"
    "\<forall>f. sq_futures s f = (if f < length rs then Result (rs ! f) else Pending)" "waiting_ok s (length rs)"
    using assms by (auto simp: seq_ok_def)
  show ?thesis
  proof (cases "sq_running s")
    case True
    show ?thesis
    proof (cases "sq_queue s")
      case (Cons x q)
      show ?thesis
      proof (cases x)
        case STOP
        then have "q = [] \<and> sq_next s = length rs \<and> sq_closed s" using rs(6) Cons True
          by (auto simp: waiting_ok_def Cons_eq_append_conv Cons_eq_map_conv split: if_splits)
        then have "waiting_ok (work s) (length rs)" using STOP Cons True by (simp add: work_def waiting_ok_def)
        then show ?thesis using rs STOP Cons True by (auto simp: seq_ok_def work_def)
      next
        case (Item cmd f)
        note it = work_item [OF rs(6) Cons [unfolded Item] True]
        let ?n = "sq_seq s + 1"
        have up: "map fst (sq_journal s @ [(?n, cmd)]) = [1..?n]" using rs(2,3) by (simp add: upto_rec2)
        have "sorted_wrt (<) (map fst (sq_journal s @ [(?n, cmd)]))" unfolding up by (rule sorted_wrt_upto)
        then obtain b rs' where "replay (sq_journal s @ [(?n, cmd)]) = Inr (b, rs')" using replay_total by blast
        then obtain r where r: "apply_cmd ?n (sq_book s) cmd = Inr (b, r)" and rs': "rs' = rs @ [r]"
          using rs(1) by (auto simp: replay_def replay_from_snoc bind_sum_Inr)
        have rep: "replay (sq_journal s @ [(?n, cmd)]) = Inr (b, rs @ [r])"
          using rs(1) r by (simp add: replay_def replay_from_snoc)
        have s': "work s = s\<lparr>sq_queue := q, sq_seq := ?n, sq_journal := sq_journal s @ [(?n, cmd)], sq_book := b,
            sq_published := sq_published s @ publish (sq_listeners s) (rp_events r), sq_futures := (sq_futures s)(f := Result r)\<rparr>"
          using True Cons Item r by (simp add: work_def Let_def)
        have "waiting_ok (work s) (length (rs @ [r]))"
          using it(2,3) rs(6) True by (auto simp: s' waiting_ok_def)
        moreover have "sq_futures (work s) g = (if g < length (rs @ [r]) then Result ((rs @ [r]) ! g) else Pending)" for g
          using rs(5) it(1) by (simp add: s' nth_append)
        moreover have "sq_published (work s) = concat (map (\<lambda>r. publish (sq_listeners (work s)) (rp_events r)) (rs @ [r]))"
          using rs(4) by (simp add: s')
        moreover have "replay (sq_journal (work s)) = Inr (sq_book (work s), rs @ [r])" "map fst (sq_journal (work s)) = [1..sq_seq (work s)]"
          "sq_seq (work s) = int (length (rs @ [r]))" using rep up rs(3) by (simp_all add: s')
        ultimately show ?thesis unfolding seq_ok_def by blast
      qed
    qed (use assms True in \<open>simp add: work_def\<close>)
  qed (use assms in \<open>simp add: work_def\<close>)
qed

lemma new_sequencer_ok: "seq_ok (new_sequencer k)"
  by (simp add: seq_ok_def new_sequencer_def replay_def waiting_ok_def)

interpretation sequencing: invariant_machine seq_step seq_ok
proof
  fix s x
  assume "seq_ok s"
  then show "seq_ok (fst (seq_step s x))" by (cases x) (simp_all add: submit_ok close_ok work_ok)
qed

section \<open>The properties\<close>

text \<open>
  Whatever the order of submissions, of closing and of the worker's steps, the book is exactly the replay of
  the journal, whose entries are numbered 1, 2, and so on; the listeners have seen the events of all reports in
  order; and the future of the n-th accepted command is pending or holds the n-th report, never an exception.
\<close>
theorem sequencer_replays:
  defines "run \<equiv> \<lambda>listeners ops. run_ops seq_step (new_sequencer listeners) ops"
  shows "\<exists>reports. replay (sq_journal (run listeners ops)) = Inr (sq_book (run listeners ops), reports)
    \<and> map fst (sq_journal (run listeners ops)) = [1..int (length reports)]
    \<and> sq_published (run listeners ops) = concat (map (\<lambda>r. publish (sq_listeners (run listeners ops)) (rp_events r)) reports)
    \<and> (\<forall>f. sq_futures (run listeners ops) f = (if f < length reports then Result (reports ! f) else Pending))"
  using sequencing.run_inv [OF new_sequencer_ok, of listeners ops] unfolding run_def seq_ok_def by metis

lemma waiting_ok_queue: "waiting_ok s n \<Longrightarrow> sq_queue s = [] \<Longrightarrow> n = sq_next s"
  by (auto simp: waiting_ok_def)

lemma work_queue: "sq_running s \<Longrightarrow> sq_queue (work s) = tl (sq_queue s)"
  by (auto simp: work_def Let_def split: list.splits queue_item.splits sum.splits)

lemma work_next: "sq_next (work s) = sq_next s"
  by (auto simp: work_def Let_def split: list.splits queue_item.splits sum.splits)

lemma stopped_idle: "seq_ok s \<Longrightarrow> \<not> sq_running s \<Longrightarrow> sq_queue s = []"
  by (auto simp: seq_ok_def waiting_ok_def)

lemma work_drains:
  assumes "seq_ok s" "length (sq_queue s) \<le> n"
  shows "sq_queue (run_ops seq_step s (replicate n Work)) = [] \<and> sq_next (run_ops seq_step s (replicate n Work)) = sq_next s"
  using assms
proof (induction n arbitrary: s)
  case (Suc n)
  have "length (sq_queue (work s)) \<le> n"
    using Suc.prems work_queue [of s] stopped_idle [of s] by (cases "sq_running s") (auto simp: work_def)
  then show ?case using Suc.IH [OF work_ok [OF Suc.prems(1)]] work_next by simp
qed simp

text \<open>
  No submitted command is lost: after any history, a worker that keeps working completes the future of
  every accepted command with its report within as many iterations as there are items in the queue, also after
  the sequencer was closed.
\<close>
theorem sequencer_completes:
  fixes listeners :: nat and ops :: "seq_op list"
  defines "s \<equiv> run_ops seq_step (new_sequencer listeners) ops"
  shows "\<exists>reports. length reports = sq_next s
    \<and> (\<forall>f. sq_futures (run_ops seq_step s (replicate (length (sq_queue s)) Work)) f =
            (if f < sq_next s then Result (reports ! f) else Pending))"
proof -
  let ?t = "run_ops seq_step s (replicate (length (sq_queue s)) Work)"
  have ok: "seq_ok s" unfolding s_def by (rule sequencing.run_inv [OF new_sequencer_ok])
  then have "seq_ok ?t" by (rule sequencing.run_inv)
  then obtain rs where rs: "\<forall>f. sq_futures ?t f = (if f < length rs then Result (rs ! f) else Pending)" "waiting_ok ?t (length rs)"
    by (auto simp: seq_ok_def)
  have "sq_queue ?t = []" "sq_next ?t = sq_next s" using work_drains [OF ok order_refl] by simp_all
  then have "length rs = sq_next s" using waiting_ok_queue [OF rs(2)] by simp
  then show ?thesis using rs(1) by auto
qed

end
