(* ===== verification/Money_Split.thy ===== *)
theory Money_Split
  imports Prelude Complex_Main "HOL-Library.Product_Lexorder"
begin

text \<open>
  Splitting money, from \<open>python-low-level-design/splitwise-expense-sharing/splitwise_expense.py\<close>:
  the largest-remainder allocation and the split strategies. Money is a number of cents; a \<open>Decimal\<close> at the
  boundary is a rational number, and a \<open>Fraction\<close> is one too. What the boundary refuses by its Python type
  (floats, booleans) has no counterpart.
\<close>

section \<open>Money\<close>

datatype sw_error = NotFoundError | InvalidSplitError | SplitwiseError | Raised py_error

text \<open>\<open>to_money\<close> followed by \<open>to_cents\<close>: an amount with a fraction of a cent is refused.\<close>

definition to_money :: "rat \<Rightarrow> sw_error + int" where
  "to_money value = (if of_int \<lfloor>value * 100\<rfloor> = value * 100 then Inr \<lfloor>value * 100\<rfloor> else Inl (Raised ValueError))"

text \<open>\<open>xs[:k]\<close>.\<close>

definition py_take :: "int \<Rightarrow> 'a list \<Rightarrow> 'a list" where
  "py_take k xs = (if 0 \<le> k then take (nat k) xs else take (length xs - nat (- k)) xs)"

definition bump_at :: "int list \<Rightarrow> nat list \<Rightarrow> int list" where
  "bump_at floors idx = foldl (\<lambda>fs i. fs[i := fs ! i + 1]) floors idx"

definition by_remainder :: "rat list \<Rightarrow> nat list" where
  "by_remainder exact = sort_key (\<lambda>i. (- (exact ! i - of_int \<lfloor>exact ! i\<rfloor>), i)) [0..<length exact]"

definition allocate :: "int \<Rightarrow> rat list \<Rightarrow> sw_error + int list" where
  "allocate total_cents weights =
     (if weights = [] then Inl (Raised ValueError)
      else if list_ex (\<lambda>w. w < 0) weights then Inl (Raised ValueError)
      else (let weight_sum = sum_list weights in
            if weight_sum = 0 then Inl (Raised ValueError)
            else (let exact = map (\<lambda>w. of_int total_cents * w / weight_sum) weights;
                      floors = map floor exact;
                      leftover = total_cents - sum_list floors
                  in Inr (bump_at floors (py_take leftover (by_remainder exact))))))"

section \<open>Split strategies\<close>

datatype SplitType = EQUAL | EXACT | PERCENTAGE | SHARE

definition require_values :: "string list \<Rightarrow> rat list option \<Rightarrow> sw_error + rat list" where
  "require_values ids values =
     (case values of
        None \<Rightarrow> Inl InvalidSplitError
      | Some vs \<Rightarrow> if length vs \<noteq> length ids then Inl InvalidSplitError
                   else if list_ex (\<lambda>v. v < 0) vs then Inl InvalidSplitError else Inr vs)"

text \<open>A dictionary built from keys and values in order.\<close>

definition dict_of :: "'k list \<Rightarrow> 'v list \<Rightarrow> ('k \<times> 'v) list" where
  "dict_of ks vs = foldl (\<lambda>d e. AList.update (fst e) (snd e) d) [] (zip ks vs)"

definition proportional :: "int \<Rightarrow> string list \<Rightarrow> rat list \<Rightarrow> sw_error + (string \<times> int) list" where
  "proportional amount ids weights = bind_sum (allocate amount weights) (\<lambda>cents. Inr (dict_of ids cents))"

fun to_monies :: "rat list \<Rightarrow> sw_error + int list" where
  "to_monies [] = Inr []"
| "to_monies (v # vs) = bind_sum (to_money v) (\<lambda>c. bind_sum (to_monies vs) (\<lambda>cs. Inr (c # cs)))"

fun calculate_shares :: "SplitType \<Rightarrow> int \<Rightarrow> string list \<Rightarrow> rat list option \<Rightarrow> sw_error + (string \<times> int) list" where
  "calculate_shares EQUAL amount ids values =
     (if values \<noteq> None then Inl InvalidSplitError else proportional amount ids (replicate (length ids) 1))"
| "calculate_shares EXACT amount ids values =
     bind_sum (require_values ids values) (\<lambda>vs.
     bind_sum (to_monies vs) (\<lambda>exact. if sum_list exact \<noteq> amount then Inl InvalidSplitError else Inr (dict_of ids exact)))"
| "calculate_shares PERCENTAGE amount ids values =
     bind_sum (require_values ids values) (\<lambda>percents.
       if sum_list percents \<noteq> 100 then Inl InvalidSplitError else proportional amount ids percents)"
| "calculate_shares SHARE amount ids values =
     bind_sum (require_values ids values) (\<lambda>ratios.
       if sum_list ratios = 0 then Inl InvalidSplitError else proportional amount ids ratios)"

section \<open>The largest-remainder allocation\<close>

lemma bump_at_length [simp]: "length (bump_at floors idx) = length floors"
  by (induction idx arbitrary: floors) (simp_all add: bump_at_def)

lemma bump_at_nth:
  assumes "distinct idx" "\<And>i. i \<in> set idx \<Longrightarrow> i < length floors" "k < length floors"
  shows "bump_at floors idx ! k = floors ! k + (if k \<in> set idx then 1 else 0)"
  using assms
proof (induction idx arbitrary: floors)
  case (Cons i idx)
  have "bump_at floors (i # idx) = bump_at (floors[i := floors ! i + 1]) idx" by (simp add: bump_at_def)
  then show ?case using Cons by (auto simp: nth_list_update)
qed (simp add: bump_at_def)

lemma sum_list_bump: "i < length xs \<Longrightarrow> sum_list (xs[i := xs ! i + c]) = sum_list xs + (c :: int)"
  by (induction xs arbitrary: i) (auto simp: nth_Cons split: nat.splits)

lemma sum_bump_at:
  assumes "distinct idx" "\<And>i. i \<in> set idx \<Longrightarrow> i < length floors"
  shows "sum_list (bump_at floors idx) = sum_list floors + int (length idx)"
  using assms
proof (induction idx arbitrary: floors)
  case (Cons i idx)
  have "bump_at floors (i # idx) = bump_at (floors[i := floors ! i + 1]) idx" by (simp add: bump_at_def)
  moreover have "sum_list (floors[i := floors ! i + 1]) = sum_list floors + 1"
    using Cons.prems(2) [of i] sum_list_bump by simp
  ultimately show ?case using Cons by simp
qed (simp add: bump_at_def)

lemma by_remainder_perm: "set (by_remainder exact) = {..<length exact}" "distinct (by_remainder exact)"
  "length (by_remainder exact) = length exact"
  by (auto simp: by_remainder_def distinct_sort)

text \<open>The first \<open>k\<close> indices have the largest remainders.\<close>

lemma by_remainder_largest:
  assumes "i \<in> set (take k (by_remainder exact))" "j < length exact" "j \<notin> set (take k (by_remainder exact))"
  shows "exact ! j - of_int \<lfloor>exact ! j\<rfloor> \<le> exact ! i - of_int \<lfloor>exact ! i\<rfloor>"
proof -
  let ?key = "\<lambda>i. (- (exact ! i - of_int \<lfloor>exact ! i\<rfloor>), i)"
  have "j \<in> set (drop k (by_remainder exact))"
    using assms(2,3) by_remainder_perm(1) [of exact] by (metis Un_iff append_take_drop_id lessThan_iff set_append)
  moreover have "sorted (map ?key (take k (by_remainder exact) @ drop k (by_remainder exact)))"
    by (simp add: by_remainder_def)
  ultimately have "?key i \<le> ?key j" using assms(1) unfolding map_append sorted_append by auto
  then show ?thesis by (auto simp: less_eq_prod_simp)
qed

lemma frac_sum:
  fixes exact :: "rat list" and T :: int
  assumes "sum_list exact = of_int T"
  defines "leftover \<equiv> T - sum_list (map floor exact)"
  shows "of_int leftover = (\<Sum>i<length exact. exact ! i - of_int \<lfloor>exact ! i\<rfloor>)" "0 \<le> leftover"
    "exact \<noteq> [] \<Longrightarrow> leftover < int (length exact)"
proof -
  have "(\<Sum>i<length exact. exact ! i - of_int \<lfloor>exact ! i\<rfloor>) = sum_list exact - of_int (sum_list (map floor exact))"
    by (simp add: sum_subtractf sum_list_sum_nth atLeast0LessThan)
  then show eq: "of_int leftover = (\<Sum>i<length exact. exact ! i - of_int \<lfloor>exact ! i\<rfloor>)" using assms by simp
  have frac: "0 \<le> exact ! i - of_int \<lfloor>exact ! i\<rfloor> \<and> exact ! i - of_int \<lfloor>exact ! i\<rfloor> < 1" for i by linarith
  have "0 \<le> (of_int leftover :: rat)" unfolding eq by (intro sum_nonneg) (use frac in auto)
  then show "0 \<le> leftover" by simp
  assume "exact \<noteq> []"
  then have "(of_int leftover :: rat) < (\<Sum>i<length exact. 1)"
    unfolding eq by (intro sum_strict_mono) (use frac in auto)
  then show "leftover < int (length exact)" by simp
qed

lemma bumped_not_whole:
  fixes exact :: "rat list" and T :: int
  assumes tot: "sum_list exact = of_int T" and ne: "exact \<noteq> []"
    and i: "i \<in> set (take (nat (T - sum_list (map floor exact))) (by_remainder exact))"
  shows "of_int \<lfloor>exact ! i\<rfloor> < exact ! i"
proof (rule ccontr)
  let ?l = "T - sum_list (map floor exact)"
  let ?S = "set (take (nat ?l) (by_remainder exact))"
  let ?frac = "\<lambda>i. exact ! i - of_int \<lfloor>exact ! i\<rfloor>"
  assume "\<not> of_int \<lfloor>exact ! i\<rfloor> < exact ! i"
  then have zero: "?frac i = 0" by linarith
  note fs = frac_sum [OF tot]
  define P where "P = {j. j < length exact \<and> 0 < ?frac j}"
  have fin: "finite P" by (simp add: P_def)
  have P: "P \<subseteq> ?S - {i}"
  proof
    fix j
    assume j: "j \<in> P"
    have "j \<in> ?S" using by_remainder_largest [OF i, of j] zero j by (fastforce simp: P_def)
    then show "j \<in> ?S - {i}" using j zero by (auto simp: P_def)
  qed
  have "card ?S = nat ?l"
    using fs(2,3) ne by_remainder_perm(2,3) [of exact] by (subst distinct_card) auto
  then have "card (?S - {i}) < nat ?l" using i by (metis card_Diff1_less finite_set)
  then have "card P < nat ?l" using card_mono [OF _ P] by simp
  moreover have "of_int ?l \<le> (of_nat (card P) :: rat)"
  proof -
    have "of_int ?l = (\<Sum>j\<in>P. ?frac j)" unfolding fs(1) P_def
      by (rule sum.mono_neutral_right) (auto simp: not_less intro: antisym)
    also have "\<dots> \<le> (\<Sum>j\<in>P. 1)" by (intro sum_mono) linarith
    finally show ?thesis by simp
  qed
  ultimately show False using fs(2) by (metis int_nat_eq leD of_int_le_iff of_int_of_nat_eq zless_nat_conj zless_nat_eq_int_zless)
qed

text \<open>Every share is the exact pro-rata amount rounded down or up.\<close>

lemma allocate_correct:
  assumes "allocate amount weights = Inr cents"
  defines "exact \<equiv> \<lambda>i. of_int amount * (weights ! i) / sum_list weights"
  shows "sum_list cents = amount" "length cents = length weights"
    "\<And>i. i < length weights \<Longrightarrow> cents ! i = \<lfloor>exact i\<rfloor> \<or> cents ! i = \<lceil>exact i\<rceil>"
proof -
  let ?ex = "map (\<lambda>w. of_int amount * w / sum_list weights) weights"
  let ?fl = "map floor ?ex" and ?l = "amount - sum_list (map floor ?ex)"
  have ne: "?ex \<noteq> []" and W: "sum_list weights \<noteq> 0" and cents: "cents = bump_at ?fl (py_take ?l (by_remainder ?ex))"
    using assms(1) by (auto simp: allocate_def Let_def split: if_splits)
  have "sum_list (map (\<lambda>w. of_int amount * w / W) ws) = of_int amount * sum_list ws / W" for W :: rat and ws
    by (induction ws) (simp_all add: ring_distribs add_divide_distrib)
  then have tot: "sum_list ?ex = of_int amount" using W by simp
  note fs = frac_sum [OF tot]
  let ?idx = "take (nat ?l) (by_remainder ?ex)"
  have idx: "cents = bump_at ?fl ?idx" using cents fs(2) by (simp add: py_take_def)
  have ok: "distinct ?idx" "\<And>i. i \<in> set ?idx \<Longrightarrow> i < length ?fl"
    using by_remainder_perm [of ?ex] by (auto dest: in_set_takeD)
  have "length ?idx = nat ?l" using fs(2,3) ne by_remainder_perm(3) [of ?ex] by simp
  then show "sum_list cents = amount" using idx sum_bump_at [OF ok] fs(2) by simp
  show "length cents = length weights" using idx by simp
  fix i
  assume i: "i < length weights"
  then have nth: "cents ! i = \<lfloor>exact i\<rfloor> + (if i \<in> set ?idx then 1 else 0)"
    using idx bump_at_nth [OF ok] by (simp add: exact_def)
  show "cents ! i = \<lfloor>exact i\<rfloor> \<or> cents ! i = \<lceil>exact i\<rceil>"
  proof (cases "i \<in> set ?idx")
    case True
    have "of_int \<lfloor>exact i\<rfloor> < exact i" using bumped_not_whole [OF tot ne True] i by (simp add: exact_def)
    then have "\<lceil>exact i\<rceil> = \<lfloor>exact i\<rfloor> + 1" by (simp add: ceiling_altdef)
    then show ?thesis using nth True by simp
  qed (use nth in simp)
qed

lemma dict_of_distinct: "distinct ks \<Longrightarrow> dict_of ks vs = zip ks vs"
proof -
  have "foldl (\<lambda>d e. AList.update (fst e) (snd e) d) acc es = acc @ es"
    if "distinct (map fst es)" "fst ` set acc \<inter> fst ` set es = {}" for acc and es :: "('a \<times> 'b) list"
    using that
  proof (induction es arbitrary: acc)
    case (Cons e es)
    have "AList.update (fst e) (snd e) acc = acc @ [e]" using Cons.prems(2) by (subst AList_update_absent) auto
    then show ?case using Cons by auto
  qed simp
  from this [of "zip ks vs" "[]"] show "distinct ks \<Longrightarrow> dict_of ks vs = zip ks vs"
    by (simp add: dict_of_def map_fst_zip_take distinct_take)
qed

lemma to_monies_length: "to_monies vs = Inr cs \<Longrightarrow> length cs = length vs"
  by (induction vs arbitrary: cs) (auto simp: bind_sum_Inr)

lemma proportional_sum:
  assumes "proportional amount ids weights = Inr shares" "distinct ids" "length weights = length ids"
  shows "sum_list (map snd shares) = amount" "map fst shares = ids"
proof -
  obtain cents where c: "allocate amount weights = Inr cents" "shares = dict_of ids cents"
    using assms(1) by (auto simp: proportional_def bind_sum_Inr)
  note a = allocate_correct(1,2) [OF c(1)]
  show "sum_list (map snd shares) = amount" "map fst shares = ids"
    using c(2) a assms(2,3) by (simp_all add: dict_of_distinct)
qed

lemma calculate_shares_sum:
  assumes "calculate_shares ty amount ids values = Inr shares" "distinct ids"
  shows "sum_list (map snd shares) = amount \<and> map fst shares = ids"
proof -
  have req: "length vs = length ids" if "require_values ids values = Inr vs" for vs
    using that by (auto simp: require_values_def split: option.splits if_splits)
  show ?thesis
  proof (cases ty)
    case EXACT
    then obtain vs exact where v: "require_values ids values = Inr vs" "to_monies vs = Inr exact" "sum_list exact = amount" "shares = dict_of ids exact"
      using assms(1) by (auto simp: bind_sum_Inr split: if_splits)
    have "length exact = length ids" using to_monies_length [OF v(2)] req [OF v(1)] by simp
    then show ?thesis using v(3,4) assms(2) by (simp add: dict_of_distinct)
  next
    case EQUAL
    then show ?thesis using assms proportional_sum [of amount ids "replicate (length ids) 1" shares] by (simp split: if_splits)
  next
    case PERCENTAGE
    then obtain vs where "require_values ids values = Inr vs" "proportional amount ids vs = Inr shares"
      using assms(1) by (auto simp: bind_sum_Inr split: if_splits)
    then show ?thesis using proportional_sum [of amount ids vs shares] req assms(2) by simp
  next
    case SHARE
    then obtain vs where "require_values ids values = Inr vs" "proportional amount ids vs = Inr shares"
      using assms(1) by (auto simp: bind_sum_Inr split: if_splits)
    then show ?thesis using proportional_sum [of amount ids vs shares] req assms(2) by simp
  qed
qed

text \<open>
  Splitting an amount by weights loses and invents no cent: \<open>allocate\<close> succeeds on every nonempty list of
  non-negative weights that are not all zero; the shares then sum to the amount, and every share is the exact
  pro-rata amount rounded down or up to a whole cent (so nobody with weight zero pays anything).
\<close>
theorem allocate_exact:
  assumes "weights \<noteq> []" "\<forall>w \<in> set weights. 0 \<le> w" "sum_list weights \<noteq> 0"
  shows "\<exists>cents. allocate amount weights = Inr cents \<and> sum_list cents = amount \<and> length cents = length weights
    \<and> (\<forall>i < length weights. cents ! i = \<lfloor>of_int amount * (weights ! i) / sum_list weights\<rfloor>
                          \<or> cents ! i = \<lceil>of_int amount * (weights ! i) / sum_list weights\<rceil>)"
proof -
  have "\<not> list_ex (\<lambda>w. w < 0) weights" using assms(2) by (auto simp: list_ex_iff)
  then obtain cents where "allocate amount weights = Inr cents" using assms(1,3) by (auto simp: allocate_def Let_def)
  then show ?thesis using allocate_correct [of amount weights cents] by blast
qed

theorem allocate_exact_witness: "allocate 10000 [1, 1, 1] = Inr [3334, 3333, 3333] \<and> sum_list [3334, 3333, 3333 :: int] = 10000"
proof -
  have "allocate 10000 [1, 1, 1] = Inr [3334, 3333, 3333]" by code_simp
  moreover obtain cents where "allocate 10000 [1, 1, 1] = Inr cents" "sum_list cents = 10000"
    using allocate_exact [of "[1, 1, 1]" 10000] by auto
  ultimately show ?thesis by simp
qed

end
