(* ===== verification/Debt_Settlement.thy ===== *)
theory Debt_Settlement
  imports Money_Split "HOL-Library.List_Lexorder" "HOL-Library.Char_ord"
begin

text \<open>
  \<open>GreedySettlement\<close> of \<open>splitwise_expense.py\<close>: the largest debtor pays the largest creditor until nobody owes
  anything. The heaps hold pairs of cents and user, compared as Python compares tuples; a heap of \<open>heapq\<close> is an
  ascending list. Balances are in cents.
\<close>

section \<open>The greedy algorithm\<close>

record transfer =
  tr_debtor :: string
  tr_creditor :: string
  tr_amount :: int

function greedy_loop :: "(int \<times> string) list \<Rightarrow> (int \<times> string) list \<Rightarrow> transfer list" where
  "greedy_loop (x # debtors) (y # creditors) =
     (let cents = min (- fst x) (- fst y) in
      \<lparr>tr_debtor = snd x, tr_creditor = snd y, tr_amount = cents\<rparr> #
      greedy_loop (if fst x + cents \<noteq> 0 then insort (fst x + cents, snd x) debtors else debtors)
                  (if fst y + cents \<noteq> 0 then insort (fst y + cents, snd y) creditors else creditors))"
| "greedy_loop [] creditors = []"
| "greedy_loop (x # debtors) [] = []"
  by pat_completeness auto
termination
  by (relation "measure (\<lambda>(ds, cs). length ds + length cs)") (auto simp: Let_def min_def)

declare greedy_loop.simps [simp del]

definition greedy_settle :: "(string \<times> int) list \<Rightarrow> sw_error + transfer list" where
  "greedy_settle balances =
     (let debtors = map (\<lambda>e. (snd e, fst e)) (filter (\<lambda>e. snd e < 0) balances);
          creditors = map (\<lambda>e. (- snd e, fst e)) (filter (\<lambda>e. 0 < snd e) balances)
      in if sum_list (map fst debtors) + sum_list (map (\<lambda>c. - fst c) creditors) \<noteq> 0 then Inl (Raised ValueError)
         else Inr (greedy_loop (sort debtors) (sort creditors)))"

section \<open>Everybody is settled\<close>

text \<open>What a list of transfers adds to the balance of a user, and what the two heaps say it is.\<close>

definition paid :: "transfer list \<Rightarrow> string \<Rightarrow> int" where
  "paid ts u = sum_list (map (\<lambda>t. (if tr_debtor t = u then tr_amount t else 0) - (if tr_creditor t = u then tr_amount t else 0)) ts)"

definition holding :: "(int \<times> string) list \<Rightarrow> string \<Rightarrow> int" where
  "holding h u = sum_list (map (\<lambda>e. if snd e = u then fst e else 0) h)"

lemma sum_list_insort: "sum_list (map f (insort x xs)) = f x + sum_list (map f xs)" for f :: "'a::linorder \<Rightarrow> int"
  by (induction xs) auto

lemma sum_list_map_sort: "sum_list (map f (sort xs)) = sum_list (map f xs)" for f :: "'a::linorder \<Rightarrow> int"
  by (metis mset_map mset_sort sum_mset_sum_list)

lemma holding_insort [simp]: "holding (insort x xs) u = (if snd x = u then fst x else 0) + holding xs u"
  by (simp add: holding_def sum_list_insort)

lemma sum_nonpos_zero:
  assumes "\<And>x. x \<in> set xs \<Longrightarrow> fst x < (0 :: int)" "sum_list (map fst xs) = 0"
  shows "xs = []"
proof (rule ccontr)
  assume "xs \<noteq> []"
  then obtain y ys where xs: "xs = y # ys" by (cases xs) auto
  have "fst e \<le> 0" if "e \<in> set ys" for e using assms(1) [of e] that xs by simp
  then have "sum_list (map fst ys) \<le> 0" by (intro sum_list_nonpos) auto
  then show False using assms(1) [of y] assms(2) xs by simp
qed

definition heaps_ok :: "(int \<times> string) list \<Rightarrow> (int \<times> string) list \<Rightarrow> bool" where
  "heaps_ok ds cs \<longleftrightarrow> (\<forall>x \<in> set ds \<union> set cs. fst x < 0) \<and> sum_list (map fst ds) = sum_list (map fst cs)"

lemma heaps_ok_empty: "heaps_ok ds cs \<Longrightarrow> ds = [] \<or> cs = [] \<Longrightarrow> ds = [] \<and> cs = []"
  using sum_nonpos_zero [of ds] sum_nonpos_zero [of cs] by (auto simp: heaps_ok_def)

lemma greedy_loop_settles:
  "heaps_ok ds cs \<Longrightarrow>
    (\<forall>u. paid (greedy_loop ds cs) u = holding cs u - holding ds u) \<and> (\<forall>t \<in> set (greedy_loop ds cs). 0 < tr_amount t)
    \<and> (ds \<noteq> [] \<longrightarrow> length (greedy_loop ds cs) < length ds + length cs)"
proof (induction ds cs rule: greedy_loop.induct)
  case (1 x ds y cs)
  define c where "c = min (- fst x) (- fst y)"
  define ds1 where "ds1 = (if fst x + c \<noteq> 0 then insort (fst x + c, snd x) ds else ds)"
  define cs1 where "cs1 = (if fst y + c \<noteq> 0 then insort (fst y + c, snd y) cs else cs)"
  have neg: "fst x < 0" "fst y < 0" "\<And>e. e \<in> set ds \<union> set cs \<Longrightarrow> fst e < 0" using "1.prems" by (auto simp: heaps_ok_def)
  have c: "0 < c" "fst x + c \<le> 0" "fst y + c \<le> 0" "fst x + c = 0 \<or> fst y + c = 0" using neg by (auto simp: c_def min_def)
  have ok: "heaps_ok ds1 cs1" using "1.prems" c neg
    by (auto simp: heaps_ok_def ds1_def cs1_def sum_list_insort set_insort_key)
  have loop: "greedy_loop (x # ds) (y # cs) = \<lparr>tr_debtor = snd x, tr_creditor = snd y, tr_amount = c\<rparr> # greedy_loop ds1 cs1"
    by (simp add: greedy_loop.simps Let_def c_def ds1_def cs1_def)
  have IH: "\<forall>u. paid (greedy_loop ds1 cs1) u = holding cs1 u - holding ds1 u" "\<forall>t \<in> set (greedy_loop ds1 cs1). 0 < tr_amount t"
    "ds1 \<noteq> [] \<longrightarrow> length (greedy_loop ds1 cs1) < length ds1 + length cs1"
    using "1.IH" [OF c_def] ok unfolding ds1_def cs1_def by blast+
  have "holding ds1 u = holding (x # ds) u + (if snd x = u then c else 0)" "holding cs1 u = holding (y # cs) u + (if snd y = u then c else 0)" for u
    by (auto simp: ds1_def cs1_def holding_def sum_list_insort)
  then have "paid (greedy_loop (x # ds) (y # cs)) u = holding (y # cs) u - holding (x # ds) u" for u
    using IH(1) unfolding loop by (simp add: paid_def)
  moreover have "length (greedy_loop ds1 cs1) < length ds + length cs + 1"
  proof (cases "ds1 = []")
    case True
    then have "greedy_loop ds1 cs1 = []" by (cases cs1) (simp_all add: greedy_loop.simps)
    then show ?thesis by simp
  next
    case False
    have "length ds1 + length cs1 \<le> length ds + length cs + 1" using c(4) by (auto simp: ds1_def cs1_def)
    then show ?thesis using IH(3) False by simp
  qed
  ultimately show ?case using IH(2) c(1) unfolding loop by auto
next
  case (2 cs)
  then have "cs = []" using heaps_ok_empty by blast
  then show ?case by (simp add: greedy_loop.simps paid_def holding_def)
next
  case (3 x ds)
  then show ?case using heaps_ok_empty by blast
qed

lemma greedy_loop_parties:
  "t \<in> set (greedy_loop ds cs) \<Longrightarrow> tr_debtor t \<in> snd ` set ds \<and> tr_creditor t \<in> snd ` set cs"
proof (induction ds cs rule: greedy_loop.induct)
  case (1 x ds y cs)
  define c where "c = min (- fst x) (- fst y)"
  define ds1 where "ds1 = (if fst x + c \<noteq> 0 then insort (fst x + c, snd x) ds else ds)"
  define cs1 where "cs1 = (if fst y + c \<noteq> 0 then insort (fst y + c, snd y) cs else cs)"
  have sub: "snd ` set ds1 \<subseteq> snd ` set (x # ds)" "snd ` set cs1 \<subseteq> snd ` set (y # cs)" by (auto simp: ds1_def cs1_def set_insort_key)
  have loop: "greedy_loop (x # ds) (y # cs) = \<lparr>tr_debtor = snd x, tr_creditor = snd y, tr_amount = c\<rparr> # greedy_loop ds1 cs1"
    by (simp add: greedy_loop.simps Let_def c_def ds1_def cs1_def)
  have "t \<in> set (greedy_loop ds1 cs1) \<Longrightarrow> tr_debtor t \<in> snd ` set ds1 \<and> tr_creditor t \<in> snd ` set cs1"
    using "1.IH" [OF c_def] by (simp add: ds1_def cs1_def)
  then show ?case using "1.prems" sub unfolding loop by auto
qed (simp_all add: greedy_loop.simps)

text \<open>A transfer goes from somebody with a negative balance to somebody with a positive one.\<close>

lemma greedy_settle_parties:
  assumes "greedy_settle balances = Inr ts" "t \<in> set ts"
  shows "\<exists>d c. (tr_debtor t, d) \<in> set balances \<and> d < 0 \<and> (tr_creditor t, c) \<in> set balances \<and> 0 < c"
proof -
  have "t \<in> set (greedy_loop (sort (map (\<lambda>e. (snd e, fst e)) (filter (\<lambda>e. snd e < 0) balances)))
      (sort (map (\<lambda>e. (- snd e, fst e)) (filter (\<lambda>e. 0 < snd e) balances))))"
    using assms by (simp add: greedy_settle_def Let_def split: if_splits)
  from greedy_loop_parties [OF this] show ?thesis by (auto simp: image_iff Bex_def)
qed

lemma greedy_settle_correct:
  assumes "sum_list (map snd balances) = 0"
  obtains ts where "greedy_settle balances = Inr ts" "\<And>u. paid ts u = - sum_list (map (\<lambda>e. if fst e = u then snd e else 0) balances)"
    "\<And>t. t \<in> set ts \<Longrightarrow> 0 < tr_amount t"
    "length ts < max 1 (length (filter (\<lambda>e. snd e \<noteq> 0) balances))"
proof -
  let ?ds = "map (\<lambda>e. (snd e, fst e)) (filter (\<lambda>e. snd e < 0) balances)"
  let ?cs = "map (\<lambda>e. (- snd e, fst e)) (filter (\<lambda>e. 0 < snd e) balances)"
  let ?ts = "greedy_loop (sort ?ds) (sort ?cs)"
  have sum: "sum_list (map fst ?ds) - sum_list (map fst ?cs) = sum_list (map snd balances)"
    by (induction balances) auto
  have neg: "sum_list (map (\<lambda>c. - fst c) ?cs) = - sum_list (map fst ?cs)" by (induction balances) auto
  have settle: "greedy_settle balances = Inr ?ts" using assms sum neg by (simp add: greedy_settle_def Let_def)
  have ok: "heaps_ok (sort ?ds) (sort ?cs)" using sum assms by (auto simp: heaps_ok_def sum_list_map_sort)
  note g = greedy_loop_settles [OF ok]
  have hold: "holding (sort h) u = holding h u" for h u by (simp add: holding_def sum_list_map_sort)
  have "holding ?cs u - holding ?ds u = - sum_list (map (\<lambda>e. if fst e = u then snd e else 0) balances)" for u
    by (induction balances) (auto simp: holding_def)
  then have "paid ?ts u = - sum_list (map (\<lambda>e. if fst e = u then snd e else 0) balances)" for u using g hold by simp
  moreover have len: "length (filter (\<lambda>e. snd e \<noteq> 0) balances) = length ?ds + length ?cs" by (induction balances) auto
  moreover have "length ?ts < max 1 (length ?ds + length ?cs)"
  proof (cases "sort ?ds = []")
    case True
    then have "?ts = []" by (cases "sort ?cs") (simp_all add: greedy_loop.simps)
    then show ?thesis by simp
  next
    case False
    then have "length ?ts < length (sort ?ds) + length (sort ?cs)" using g by blast
    then show ?thesis by simp
  qed
  ultimately show thesis using that [OF settle] g by simp
qed

end
