(* ===== verification/Splitwise.thy ===== *)
theory Splitwise
  imports Debt_Settlement
begin

text \<open>
  \<open>SplitwiseService\<close> of \<open>splitwise_expense.py\<close>: users, groups with a running balance per member, expenses,
  payments, settlement plans. One lock covers every call, so a call is one step; a call that raises changes
  nothing. Identifiers are the strings the code makes (a prefix and a counter). Balances are in cents. The time
  stamp of an entry is left out. (The two raises that could leave a trace, after an identifier has been drawn in
  \<open>add_expense\<close> and after the record has been popped in \<open>delete_expense\<close>, are unreachable: shares always sum to the
  amount, and groups are never removed.)
\<close>

section \<open>Balance sheets\<close>

type_synonym ledger = "(string \<times> int) list"

definition balance_of :: "ledger \<Rightarrow> string \<Rightarrow> int" where
  "balance_of net u = (case map_of net u of None \<Rightarrow> 0 | Some v \<Rightarrow> v)"

definition sheet_add :: "ledger \<Rightarrow> string \<Rightarrow> int \<Rightarrow> ledger" where
  "sheet_add net u delta =
     (let v = balance_of net u + delta in if v = 0 then AList.delete u net else AList.update u v net)"

record expense =
  ex_description :: string
  ex_amount :: int
  ex_paid_by :: string
  ex_type :: SplitType
  ex_shares :: "(string \<times> int) list"
  ex_category :: string
  ex_group :: "string option"

record payment =
  pm_id :: string
  pm_from :: string
  pm_to :: string
  pm_amount :: int
  pm_group :: "string option"

definition apply_expense :: "ledger \<Rightarrow> expense \<Rightarrow> int \<Rightarrow> ledger" where
  "apply_expense net e sign =
     foldl (\<lambda>n s. sheet_add n (fst s) (- sign * snd s)) (sheet_add net (ex_paid_by e) (sign * ex_amount e)) (ex_shares e)"

definition apply_payment :: "ledger \<Rightarrow> payment \<Rightarrow> ledger" where
  "apply_payment net p = sheet_add (sheet_add net (pm_from p) (pm_amount p)) (pm_to p) (- pm_amount p)"

section \<open>The service\<close>

record group =
  gr_name :: string
  gr_members :: "string list"
  gr_ledger :: ledger

definition add_to_group :: "group \<Rightarrow> string \<Rightarrow> group" where
  "add_to_group g u = (if u \<notin> set (gr_members g) then g\<lparr>gr_members := gr_members g @ [u]\<rparr> else g)"

definition remove_from_group :: "group \<Rightarrow> string \<Rightarrow> sw_error + group" where
  "remove_from_group g u =
     (if balance_of (gr_ledger g) u \<noteq> 0 then Inl SplitwiseError
      else if u \<notin> set (gr_members g) then Inl (Raised ValueError)
      else Inr (g\<lparr>gr_members := remove1 u (gr_members g)\<rparr>))"

record service =
  sv_ids :: nat
  sv_users :: "(string \<times> string \<times> string) list"
  sv_groups :: "(string \<times> group) list"
  sv_expenses :: "(string \<times> expense) list"
  sv_payments :: "payment list"
  sv_personal :: ledger

definition new_service :: service where
  "new_service = \<lparr>sv_ids = 1, sv_users = [], sv_groups = [], sv_expenses = [], sv_payments = [], sv_personal = []\<rparr>"

definition next_id :: "service \<Rightarrow> string \<Rightarrow> service \<times> string" where
  "next_id s prefix = (s\<lparr>sv_ids := sv_ids s + 1\<rparr>, prefix @ digits (sv_ids s))"

definition add_user :: "service \<Rightarrow> string \<Rightarrow> string \<Rightarrow> service \<times> string" where
  "add_user s name email =
     (case next_id s ''U'' of (s1, uid) \<Rightarrow> (s1\<lparr>sv_users := AList.update uid (name, email) (sv_users s1)\<rparr>, uid))"

fun require_users :: "service \<Rightarrow> string list \<Rightarrow> sw_error + unit" where
  "require_users s [] = Inr ()"
| "require_users s (u # us) = (if map_of (sv_users s) u = None then Inl NotFoundError else require_users s us)"

definition require_group :: "service \<Rightarrow> string \<Rightarrow> sw_error + group" where
  "require_group s gid = (case map_of (sv_groups s) gid of None \<Rightarrow> Inl NotFoundError | Some g \<Rightarrow> Inr g)"

definition create_group :: "service \<Rightarrow> string \<Rightarrow> string list \<Rightarrow> sw_error + service \<times> string" where
  "create_group s name ids =
     bind_sum (require_users s ids) (\<lambda>_.
       case next_id s ''G'' of (s1, gid) \<Rightarrow>
         (let g = foldl add_to_group \<lparr>gr_name = name, gr_members = [], gr_ledger = []\<rparr> ids
          in Inr (s1\<lparr>sv_groups := AList.update gid g (sv_groups s1)\<rparr>, gid)))"

definition add_member :: "service \<Rightarrow> string \<Rightarrow> string \<Rightarrow> sw_error + service" where
  "add_member s gid u =
     bind_sum (require_users s [u]) (\<lambda>_. bind_sum (require_group s gid) (\<lambda>g.
       Inr (s\<lparr>sv_groups := AList.update gid (add_to_group g u) (sv_groups s)\<rparr>)))"

definition remove_member :: "service \<Rightarrow> string \<Rightarrow> string \<Rightarrow> sw_error + service" where
  "remove_member s gid u =
     bind_sum (require_group s gid) (\<lambda>g. bind_sum (remove_from_group g u) (\<lambda>g1.
       Inr (s\<lparr>sv_groups := AList.update gid g1 (sv_groups s)\<rparr>)))"

text \<open>\<open>_ledger_for\<close> returns a ledger to be changed in place: its content, and where to put it back.\<close>

definition ledger_for :: "service \<Rightarrow> string option \<Rightarrow> string list \<Rightarrow> sw_error + ledger" where
  "ledger_for s gid ids =
     bind_sum (require_users s ids) (\<lambda>_.
       case gid of
         None \<Rightarrow> Inr (sv_personal s)
       | Some k \<Rightarrow> bind_sum (require_group s k) (\<lambda>g.
           if list_ex (\<lambda>u. u \<notin> set (gr_members g)) ids then Inl SplitwiseError else Inr (gr_ledger g)))"

definition put_ledger :: "service \<Rightarrow> string option \<Rightarrow> ledger \<Rightarrow> service" where
  "put_ledger s gid net =
     (case gid of
        None \<Rightarrow> s\<lparr>sv_personal := net\<rparr>
      | Some k \<Rightarrow> (case map_of (sv_groups s) k of
                     None \<Rightarrow> s
                   | Some g \<Rightarrow> s\<lparr>sv_groups := AList.update k (g\<lparr>gr_ledger := net\<rparr>) (sv_groups s)\<rparr>))"

definition add_expense :: "service \<Rightarrow> string \<Rightarrow> rat \<Rightarrow> string \<Rightarrow> string list \<Rightarrow> SplitType \<Rightarrow> rat list option
    \<Rightarrow> string option \<Rightarrow> string \<Rightarrow> sw_error + service \<times> string" where
  "add_expense s description amount paid_by ids ty values gid category =
     bind_sum (to_money amount) (\<lambda>cents.
       if cents \<le> 0 then Inl InvalidSplitError
       else if ids = [] then Inl InvalidSplitError
       else if card (set ids) \<noteq> length ids then Inl InvalidSplitError
       else bind_sum (ledger_for s gid (paid_by # ids)) (\<lambda>net.
            bind_sum (calculate_shares ty cents ids values) (\<lambda>shares.
              case next_id s ''E'' of (s1, eid) \<Rightarrow>
                if sum_list (map snd shares) \<noteq> cents then Inl InvalidSplitError
                else (let e = \<lparr>ex_description = description, ex_amount = cents, ex_paid_by = paid_by, ex_type = ty,
                            ex_shares = shares, ex_category = category, ex_group = gid\<rparr>
                      in Inr (put_ledger (s1\<lparr>sv_expenses := AList.update eid e (sv_expenses s1)\<rparr>) gid (apply_expense net e 1), eid)))))"

definition delete_expense :: "service \<Rightarrow> string \<Rightarrow> sw_error + service" where
  "delete_expense s eid =
     (case map_of (sv_expenses s) eid of
        None \<Rightarrow> Inl NotFoundError
      | Some e \<Rightarrow>
          (let s1 = s\<lparr>sv_expenses := AList.delete eid (sv_expenses s)\<rparr>
           in case ex_group e of
                None \<Rightarrow> Inr (put_ledger s1 None (apply_expense (sv_personal s1) e (- 1)))
              | Some k \<Rightarrow> (case map_of (sv_groups s1) k of
                             None \<Rightarrow> Inl (Raised KeyError)
                           | Some g \<Rightarrow> Inr (put_ledger s1 (Some k) (apply_expense (gr_ledger g) e (- 1))))))"

definition record_payment :: "service \<Rightarrow> string \<Rightarrow> string \<Rightarrow> rat \<Rightarrow> string option \<Rightarrow> sw_error + service \<times> string" where
  "record_payment s from_user to_user amount gid =
     bind_sum (to_money amount) (\<lambda>cents.
       if cents \<le> 0 then Inl InvalidSplitError
       else if from_user = to_user then Inl InvalidSplitError
       else bind_sum (ledger_for s gid [from_user, to_user]) (\<lambda>net.
         case next_id s ''P'' of (s1, pid) \<Rightarrow>
           (let p = \<lparr>pm_id = pid, pm_from = from_user, pm_to = to_user, pm_amount = cents, pm_group = gid\<rparr>
            in Inr (put_ledger (s1\<lparr>sv_payments := sv_payments s1 @ [p]\<rparr>) gid (apply_payment net p), pid))))"

definition get_balance :: "service \<Rightarrow> string \<Rightarrow> sw_error + int" where
  "get_balance s u =
     bind_sum (require_users s [u]) (\<lambda>_.
       Inr (balance_of (sv_personal s) u + sum_list (map (\<lambda>e. balance_of (gr_ledger (snd e)) u) (sv_groups s))))"

definition get_group_balances :: "service \<Rightarrow> string \<Rightarrow> sw_error + ledger" where
  "get_group_balances s gid = bind_sum (require_group s gid) (\<lambda>g. Inr (gr_ledger g))"

definition get_settlement_plan :: "service \<Rightarrow> string \<Rightarrow> sw_error + transfer list" where
  "get_settlement_plan s gid = bind_sum (get_group_balances s gid) greedy_settle"

datatype sw_op =
    AddUser string string
  | CreateGroup string "string list"
  | AddMember string string
  | RemoveMember string string
  | AddExpense string rat string "string list" SplitType "rat list option" "string option" string
  | DeleteExpense string
  | RecordPayment string string rat "string option"

text \<open>A call that raises leaves the service as it was.\<close>

definition attempt :: "service \<Rightarrow> sw_error + service \<times> string \<Rightarrow> service \<times> (sw_error + string)" where
  "attempt s r = (case r of Inl e \<Rightarrow> (s, Inl e) | Inr (s1, x) \<Rightarrow> (s1, Inr x))"

fun sw_step :: "service \<Rightarrow> sw_op \<Rightarrow> service \<times> (sw_error + string)" where
  "sw_step s (AddUser name email) = attempt s (Inr (add_user s name email))"
| "sw_step s (CreateGroup name ids) = attempt s (create_group s name ids)"
| "sw_step s (AddMember gid u) = attempt s (map_sum id (\<lambda>t. (t, [])) (add_member s gid u))"
| "sw_step s (RemoveMember gid u) = attempt s (map_sum id (\<lambda>t. (t, [])) (remove_member s gid u))"
| "sw_step s (AddExpense d a p ids ty vs gid c) = attempt s (add_expense s d a p ids ty vs gid c)"
| "sw_step s (DeleteExpense eid) = attempt s (map_sum id (\<lambda>t. (t, [])) (delete_expense s eid))"
| "sw_step s (RecordPayment f t a gid) = attempt s (record_payment s f t a gid)"

section \<open>Balance sheets add up\<close>

definition ledger_ok :: "ledger \<Rightarrow> bool" where
  "ledger_ok net \<longleftrightarrow> distinct (map fst net) \<and> 0 \<notin> snd ` set net"

definition ledger_sum :: "ledger \<Rightarrow> int" where
  "ledger_sum net = sum_list (map snd net)"

lemma sheet_add_ok: "ledger_ok net \<Longrightarrow> ledger_ok (sheet_add net u d)"
  unfolding ledger_ok_def sheet_add_def Let_def
  using AList_delete_subset [of u net] AList_update_elem [of _ u "balance_of net u + d" net]
  by (auto simp: distinct_delete distinct_update) (metis AList_update_elem snd_conv image_eqI)+

lemma balance_sheet_add: "balance_of (sheet_add net u d) v = balance_of net v + (if v = u then d else 0)"
  by (auto simp: sheet_add_def Let_def balance_of_def delete_conv' update_conv' split: option.splits)

lemma ledger_sum_delete: "distinct (map fst net) \<Longrightarrow> ledger_sum (AList.delete u net) = ledger_sum net - balance_of net u"
proof (induction net)
  case (Cons e net)
  show ?case
  proof (cases "fst e = u")
    case True
    then have "AList.delete u net = net" using Cons.prems by (intro delete_id) auto
    then show ?thesis using True by (cases e) (simp add: ledger_sum_def balance_of_def)
  qed (use Cons in \<open>cases e; simp add: ledger_sum_def balance_of_def\<close>)
qed (simp add: ledger_sum_def balance_of_def)

lemma ledger_sum_update: "distinct (map fst net) \<Longrightarrow> ledger_sum (AList.update u v net) = ledger_sum net - balance_of net u + v"
proof (induction net)
  case (Cons e net)
  show ?case
  proof (cases "fst e = u")
    case False
    then show ?thesis using Cons by (cases e) (simp add: ledger_sum_def balance_of_def)
  qed (cases e; simp add: ledger_sum_def balance_of_def)
qed (simp add: ledger_sum_def balance_of_def)

lemma ledger_sum_add: "ledger_ok net \<Longrightarrow> ledger_sum (sheet_add net u d) = ledger_sum net + d"
  by (auto simp: sheet_add_def Let_def ledger_ok_def ledger_sum_delete ledger_sum_update)

text \<open>Several additions, as an expense makes them.\<close>

lemma sheet_adds:
  fixes c :: int and xs :: "(string \<times> int) list"
  assumes "ledger_ok net"
  defines "net' \<equiv> foldl (\<lambda>n s. sheet_add n (fst s) (c * snd s)) net xs"
  shows "ledger_ok net'" "ledger_sum net' = ledger_sum net + c * sum_list (map snd xs)"
    "balance_of net' v = balance_of net v + c * sum_list (map (\<lambda>s. if fst s = v then snd s else 0) xs)"
  using assms(1) unfolding net'_def
  by (induction xs arbitrary: net) (auto simp: sheet_add_ok ledger_sum_add balance_sheet_add ring_distribs)

definition expense_effect :: "expense \<Rightarrow> string \<Rightarrow> int" where
  "expense_effect e u = (if ex_paid_by e = u then ex_amount e else 0) - sum_list (map (\<lambda>s. if fst s = u then snd s else 0) (ex_shares e))"

definition payment_effect :: "payment \<Rightarrow> string \<Rightarrow> int" where
  "payment_effect p u = (if pm_from p = u then pm_amount p else 0) - (if pm_to p = u then pm_amount p else 0)"

lemma apply_expense_correct:
  assumes "ledger_ok net"
  shows "ledger_ok (apply_expense net e sign)"
    "balance_of (apply_expense net e sign) u = balance_of net u + sign * expense_effect e u"
    "sum_list (map snd (ex_shares e)) = ex_amount e \<Longrightarrow> ledger_sum (apply_expense net e sign) = ledger_sum net"
  using sheet_adds [OF sheet_add_ok [OF assms, of "ex_paid_by e" "sign * ex_amount e"], where c = "- sign" and xs = "ex_shares e"] assms
  by (auto simp: apply_expense_def expense_effect_def balance_sheet_add ledger_sum_add ring_distribs)

lemma apply_payment_correct:
  assumes "ledger_ok net"
  shows "ledger_ok (apply_payment net p)" "balance_of (apply_payment net p) u = balance_of net u + payment_effect p u"
    "ledger_sum (apply_payment net p) = ledger_sum net"
  using assms by (auto simp: apply_payment_def payment_effect_def sheet_add_ok ledger_sum_add balance_sheet_add)

section \<open>The invariant of the service\<close>

definition ledger_at :: "service \<Rightarrow> string option \<Rightarrow> ledger option" where
  "ledger_at s gid = (case gid of None \<Rightarrow> Some (sv_personal s) | Some k \<Rightarrow> map_option gr_ledger (map_of (sv_groups s) k))"

text \<open>The balance of a user in a ledger, computed from all recorded expenses and payments.\<close>

definition recomputed :: "service \<Rightarrow> string option \<Rightarrow> string \<Rightarrow> int" where
  "recomputed s gid u =
     sum_list (map (\<lambda>x. if ex_group (snd x) = gid then expense_effect (snd x) u else 0) (sv_expenses s))
     + sum_list (map (\<lambda>p. if pm_group p = gid then payment_effect p u else 0) (sv_payments s))"

definition entries_ok :: "service \<Rightarrow> bool" where
  "entries_ok s \<longleftrightarrow> (\<forall>x \<in> set (sv_expenses s). sum_list (map snd (ex_shares (snd x))) = ex_amount (snd x) \<and> ledger_at s (ex_group (snd x)) \<noteq> None)
     \<and> (\<forall>p \<in> set (sv_payments s). ledger_at s (pm_group p) \<noteq> None)"

definition sw_ok :: "service \<Rightarrow> bool" where
  "sw_ok s \<longleftrightarrow> ids_ok ''E'' (sv_ids s) (sv_expenses s) \<and> ids_ok ''G'' (sv_ids s) (sv_groups s) \<and> entries_ok s
     \<and> (\<forall>gid net. ledger_at s gid = Some net \<longrightarrow> ledger_ok net \<and> ledger_sum net = 0 \<and> (\<forall>u. balance_of net u = recomputed s gid u))"

lemma ledger_at_put:
  "ledger_at (put_ledger s gid net) k = (if k = gid \<and> ledger_at s gid \<noteq> None then Some net else ledger_at s k)"
  by (auto simp: ledger_at_def put_ledger_def update_conv' split: option.splits)

lemma ledger_at_frame [simp]:
  "ledger_at (s\<lparr>sv_expenses := x\<rparr>) k = ledger_at s k" "ledger_at (s\<lparr>sv_ids := n\<rparr>) k = ledger_at s k"
  by (simp_all add: ledger_at_def split: option.splits)

lemma put_ledger_simps [simp]:
  "sv_ids (put_ledger s gid net) = sv_ids s" "sv_expenses (put_ledger s gid net) = sv_expenses s"
  "sv_payments (put_ledger s gid net) = sv_payments s" "sv_users (put_ledger s gid net) = sv_users s"
  by (simp_all add: put_ledger_def split: option.splits)

lemma put_ledger_groups: "ids_ok p n (sv_groups s) \<Longrightarrow> ids_ok p n (sv_groups (put_ledger s gid net))"
  by (auto simp: put_ledger_def split: option.splits intro!: ids_ok_update dest: map_of_SomeD) (metis fst_conv image_eqI map_of_SomeD)

lemma sw_okD:
  assumes "sw_ok s"
  shows "ids_ok ''E'' (sv_ids s) (sv_expenses s)" "ids_ok ''G'' (sv_ids s) (sv_groups s)" "entries_ok s"
    "\<And>gid net. ledger_at s gid = Some net \<Longrightarrow> ledger_ok net \<and> ledger_sum net = 0 \<and> (\<forall>u. balance_of net u = recomputed s gid u)"
  using assms by (auto simp: sw_ok_def)

text \<open>A change of one ledger together with the entries it comes from.\<close>

lemma sw_ok_put:
  assumes ok: "sw_ok s" and at: "ledger_at s gid = Some net"
    and t: "sv_groups t = sv_groups s" "sv_personal t = sv_personal s" "sv_ids s \<le> sv_ids t" "ids_ok ''E'' (sv_ids t) (sv_expenses t)" "entries_ok t"
    and net': "ledger_ok net'" "ledger_sum net' = 0" "\<And>u. balance_of net' u = recomputed t gid u"
    and other: "\<And>k u. k \<noteq> gid \<Longrightarrow> recomputed t k u = recomputed s k u"
  shows "sw_ok (put_ledger t gid net')"
proof -
  have at_t: "ledger_at t k = ledger_at s k" for k using t(1,2) by (simp add: ledger_at_def split: option.splits)
  have same: "recomputed (put_ledger t gid net') k u = recomputed t k u" for k u by (simp add: recomputed_def)
  have "entries_ok (put_ledger t gid net')" using t(5) at at_t by (auto simp: entries_ok_def ledger_at_put)
  moreover have "ledger_ok n \<and> ledger_sum n = 0 \<and> (\<forall>u. balance_of n u = recomputed t k u)"
    if "ledger_at (put_ledger t gid net') k = Some n" for k n
  proof (cases "k = gid")
    case True
    then have "n = net'" using that at at_t by (simp add: ledger_at_put)
    then show ?thesis using net' True by simp
  next
    case False
    then have "ledger_at s k = Some n" using that at_t by (simp add: ledger_at_put)
    from sw_okD(4) [OF ok this] show ?thesis using other [OF False] by simp
  qed
  moreover have "ids_ok ''G'' (sv_ids t) (sv_groups (put_ledger t gid net'))"
    by (rule put_ledger_groups) (simp add: t(1) ids_ok_mono [OF sw_okD(2) [OF ok] t(3)])
  ultimately show ?thesis using t(4) same by (simp add: sw_ok_def)
qed

lemma sw_ok_frame:
  assumes ok: "sw_ok s" and t: "sv_expenses t = sv_expenses s" "sv_payments t = sv_payments s" "sv_ids s \<le> sv_ids t"
    "ids_ok ''G'' (sv_ids t) (sv_groups t)" "\<And>k. ledger_at t k = ledger_at s k"
  shows "sw_ok t"
proof -
  have "recomputed t k u = recomputed s k u" for k u using t(1,2) by (simp add: recomputed_def)
  moreover have "entries_ok t" using sw_okD(3) [OF ok] t(1,2,5) by (simp add: entries_ok_def)
  ultimately show ?thesis using sw_okD(4) [OF ok] ids_ok_mono [OF sw_okD(1) [OF ok] t(3)] t(1,4,5) by (simp add: sw_ok_def)
qed

lemma ledger_for_at: "ledger_for s gid ids = Inr net \<Longrightarrow> ledger_at s gid = Some net"
  by (auto simp: ledger_for_def bind_sum_Inr require_group_def ledger_at_def split: option.splits if_splits)

lemma add_user_ok:
  assumes ok: "sw_ok s"
  shows "sw_ok (fst (add_user s name email))"
  unfolding add_user_def next_id_def prod.case fst_conv
  by (rule sw_ok_frame [OF ok]) (use ids_ok_mono [OF sw_okD(2) [OF ok]] in \<open>auto simp: ledger_at_def split: option.splits\<close>)

text \<open>Changing the members of a group keeps every ledger.\<close>

lemma members_ok:
  assumes ok: "sw_ok s" and g: "map_of (sv_groups s) gid = Some g" "gr_ledger g' = gr_ledger g"
  shows "sw_ok (s\<lparr>sv_groups := AList.update gid g' (sv_groups s)\<rparr>)"
proof (rule sw_ok_frame [OF ok])
  have "gid \<in> fst ` set (sv_groups s)" using map_of_SomeD [OF g(1)] by force
  from ids_ok_update [OF sw_okD(2) [OF ok] this]
  show "ids_ok ''G'' (sv_ids (s\<lparr>sv_groups := AList.update gid g' (sv_groups s)\<rparr>)) (sv_groups (s\<lparr>sv_groups := AList.update gid g' (sv_groups s)\<rparr>))"
    by simp
  show "ledger_at (s\<lparr>sv_groups := AList.update gid g' (sv_groups s)\<rparr>) k = ledger_at s k" for k
    using g by (auto simp: ledger_at_def update_conv' split: option.splits)
qed simp_all

lemma add_member_ok: "sw_ok s \<Longrightarrow> add_member s gid u = Inr t \<Longrightarrow> sw_ok t"
  by (auto simp: add_member_def bind_sum_Inr require_group_def add_to_group_def split: option.splits if_splits intro!: members_ok)

lemma remove_member_ok: "sw_ok s \<Longrightarrow> remove_member s gid u = Inr t \<Longrightarrow> sw_ok t"
  by (auto simp: remove_member_def bind_sum_Inr require_group_def remove_from_group_def split: option.splits if_splits intro!: members_ok)

lemma group_ledger_empty: "gr_ledger (foldl add_to_group g ids) = gr_ledger g"
  by (induction ids arbitrary: g) (auto simp: add_to_group_def)

lemma create_group_new:
  assumes "create_group s name ids = Inr (t, gid)"
  obtains g where "t = s\<lparr>sv_ids := sv_ids s + 1, sv_groups := AList.update gid g (sv_groups s)\<rparr>"
    "gid = ''G'' @ digits (sv_ids s)" "gr_ledger g = []"
proof -
  let ?g = "foldl add_to_group \<lparr>gr_name = name, gr_members = [], gr_ledger = []\<rparr> ids"
  obtain "require_users s ids = Inr ()" using assms by (cases "require_users s ids") (auto simp: create_group_def)
  then have "create_group s name ids
      = Inr (s\<lparr>sv_ids := sv_ids s + 1, sv_groups := AList.update (''G'' @ digits (sv_ids s)) ?g (sv_groups s)\<rparr>, ''G'' @ digits (sv_ids s))"
    by (simp only: create_group_def next_id_def Let_def prod.case bind_sum_simps) simp
  then have "(t, gid) = (s\<lparr>sv_ids := sv_ids s + 1, sv_groups := AList.update (''G'' @ digits (sv_ids s)) ?g (sv_groups s)\<rparr>, ''G'' @ digits (sv_ids s))"
    unfolding assms by (simp only: sum.inject)
  then show ?thesis by (intro that [of ?g]) (simp_all only: prod.inject group_ledger_empty group.simps)
qed

lemma create_group_ok:
  assumes ok: "sw_ok s" and new: "create_group s name ids = Inr (t, gid)"
  shows "sw_ok t"
proof -
  obtain g where t: "t = s\<lparr>sv_ids := sv_ids s + 1, sv_groups := AList.update gid g (sv_groups s)\<rparr>"
    and gid: "gid = ''G'' @ digits (sv_ids s)" and g: "gr_ledger g = []"
    by (rule create_group_new [OF new])
  note o = sw_okD [OF ok]
  have fresh: "map_of (sv_groups s) gid = None" using ids_ok_fresh [OF o(2)] gid by (simp add: map_of_eq_None_iff)
  have at_t: "ledger_at t k = (if k = Some gid then Some [] else ledger_at s k)" for k
    using g by (auto simp: t ledger_at_def update_conv' split: option.splits)
  have none: "ledger_at s (Some gid) = None" using fresh by (simp add: ledger_at_def)
  have same: "recomputed t k u = recomputed s k u" for k u by (simp add: recomputed_def t)
  have "recomputed s (Some gid) u = 0" for u
  proof -
    have "ex_group (snd x) \<noteq> Some gid" if "x \<in> set (sv_expenses s)" for x using o(3) that none by (auto simp: entries_ok_def)
    moreover have "pm_group p \<noteq> Some gid" if "p \<in> set (sv_payments s)" for p using o(3) that none by (auto simp: entries_ok_def)
    ultimately show ?thesis by (simp add: recomputed_def sum_list_0 cong: map_cong)
  qed
  then have "ledger_ok net \<and> ledger_sum net = 0 \<and> (\<forall>u. balance_of net u = recomputed t k u)" if "ledger_at t k = Some net" for k net
    using that o(4) [of k net] same by (auto simp: at_t ledger_ok_def ledger_sum_def balance_of_def split: if_splits)
  moreover have "entries_ok t" using o(3) at_t by (auto simp: entries_ok_def t)
  moreover have "ids_ok ''G'' (sv_ids t) (sv_groups t)" using ids_ok_add [OF o(2)] gid by (simp add: t)
  moreover have "ids_ok ''E'' (sv_ids t) (sv_expenses t)" using ids_ok_mono [OF o(1)] by (simp add: t)
  ultimately show ?thesis by (simp add: sw_ok_def)
qed

lemma add_expense_ok:
  assumes ok: "sw_ok s" and add: "add_expense s d a p ids ty vs gid c = Inr (t, eid)"
  shows "sw_ok t"
proof -
  obtain cents net shares where at: "ledger_for s gid (p # ids) = Inr net" and sum: "sum_list (map snd shares) = cents"
    and eid: "eid = ''E'' @ digits (sv_ids s)"
    and t: "t = put_ledger (s\<lparr>sv_ids := sv_ids s + 1, sv_expenses := AList.update eid \<lparr>ex_description = d, ex_amount = cents, ex_paid_by = p,
        ex_type = ty, ex_shares = shares, ex_category = c, ex_group = gid\<rparr> (sv_expenses s)\<rparr>) gid
        (apply_expense net \<lparr>ex_description = d, ex_amount = cents, ex_paid_by = p, ex_type = ty, ex_shares = shares, ex_category = c, ex_group = gid\<rparr> 1)"
    using add by (auto simp: add_expense_def bind_sum_Inr next_id_def Let_def split: if_splits)
  define e where "e = \<lparr>ex_description = d, ex_amount = cents, ex_paid_by = p, ex_type = ty, ex_shares = shares, ex_category = c, ex_group = gid\<rparr>"
  define s1 where "s1 = s\<lparr>sv_ids := sv_ids s + 1, sv_expenses := AList.update eid e (sv_expenses s)\<rparr>"
  note o = sw_okD [OF ok]
  have atn: "ledger_at s gid = Some net" by (rule ledger_for_at [OF at])
  have "eid \<notin> fst ` set (sv_expenses s)" using ids_ok_fresh [OF o(1)] eid by simp
  then have ex: "sv_expenses s1 = sv_expenses s @ [(eid, e)]" by (simp add: s1_def AList_update_absent)
  have rc: "recomputed s1 k u = recomputed s k u + (if gid = k then expense_effect e u else 0)" for k u
    by (simp add: recomputed_def ex) (simp add: s1_def e_def)
  have at_s1: "ledger_at s1 k = ledger_at s k" for k by (simp add: s1_def ledger_at_def split: option.splits)
  note net = o(4) [OF atn]
  have ap: "ledger_ok (apply_expense net e 1)" "\<And>u. balance_of (apply_expense net e 1) u = balance_of net u + expense_effect e u"
    "ledger_sum (apply_expense net e 1) = ledger_sum net"
    using apply_expense_correct [of net e 1] net sum by (auto simp: e_def)
  have "sw_ok (put_ledger s1 gid (apply_expense net e 1))"
  proof (rule sw_ok_put [OF ok atn])
    show "ids_ok ''E'' (sv_ids s1) (sv_expenses s1)" using ids_ok_add [OF o(1)] eid by (simp add: s1_def)
    have "ledger_at s1 (ex_group e) \<noteq> None" using atn at_s1 by (simp add: e_def)
    then show "entries_ok s1" using o(3) sum by (auto simp: entries_ok_def ex at_s1) (simp_all add: s1_def e_def)
    show "balance_of (apply_expense net e 1) u = recomputed s1 gid u" for u using ap(2) net rc by simp
    show "recomputed s1 k u = recomputed s k u" if "k \<noteq> gid" for k u using rc that by simp
  qed (use ap net in \<open>simp_all add: s1_def\<close>)
  then show ?thesis by (simp add: t s1_def e_def)
qed

lemma record_payment_ok:
  assumes ok: "sw_ok s" and pay: "record_payment s f to a gid = Inr (t, pid)"
  shows "sw_ok t"
proof -
  obtain cents net where at: "ledger_for s gid [f, to] = Inr net"
    and t: "t = put_ledger (s\<lparr>sv_ids := sv_ids s + 1, sv_payments := sv_payments s @
        [\<lparr>pm_id = ''P'' @ digits (sv_ids s), pm_from = f, pm_to = to, pm_amount = cents, pm_group = gid\<rparr>]\<rparr>) gid
        (apply_payment net \<lparr>pm_id = ''P'' @ digits (sv_ids s), pm_from = f, pm_to = to, pm_amount = cents, pm_group = gid\<rparr>)"
    using pay by (auto simp: record_payment_def bind_sum_Inr next_id_def Let_def split: if_splits)
  define p where "p = \<lparr>pm_id = ''P'' @ digits (sv_ids s), pm_from = f, pm_to = to, pm_amount = cents, pm_group = gid\<rparr>"
  define s1 where "s1 = s\<lparr>sv_ids := sv_ids s + 1, sv_payments := sv_payments s @ [p]\<rparr>"
  note o = sw_okD [OF ok]
  have atn: "ledger_at s gid = Some net" by (rule ledger_for_at [OF at])
  note net = o(4) [OF atn]
  have rc: "recomputed s1 k u = recomputed s k u + (if gid = k then payment_effect p u else 0)" for k u
    by (simp add: recomputed_def s1_def) (simp add: p_def)
  have at_s1: "ledger_at s1 k = ledger_at s k" for k by (simp add: s1_def ledger_at_def split: option.splits)
  have ap: "ledger_ok (apply_payment net p)" "\<And>u. balance_of (apply_payment net p) u = balance_of net u + payment_effect p u"
    "ledger_sum (apply_payment net p) = ledger_sum net"
    using apply_payment_correct [of net p] net by auto
  have "sw_ok (put_ledger s1 gid (apply_payment net p))"
  proof (rule sw_ok_put [OF ok atn])
    show "ids_ok ''E'' (sv_ids s1) (sv_expenses s1)" using ids_ok_mono [OF o(1)] by (simp add: s1_def)
    have "ledger_at s1 (pm_group p) \<noteq> None" using atn at_s1 by (simp add: p_def)
    then show "entries_ok s1" using o(3) by (auto simp: entries_ok_def at_s1) (auto simp: s1_def p_def)
    show "balance_of (apply_payment net p) u = recomputed s1 gid u" for u using ap(2) net rc by simp
    show "recomputed s1 k u = recomputed s k u" if "k \<noteq> gid" for k u using rc that by simp
  qed (use ap net in \<open>simp_all add: s1_def\<close>)
  then show ?thesis by (simp add: t s1_def p_def)
qed

lemma delete_expense_put:
  assumes ok: "sw_ok s" and ex: "map_of (sv_expenses s) eid = Some e"
  obtains net where "ledger_at s (ex_group e) = Some net"
    "delete_expense s eid = Inr (put_ledger (s\<lparr>sv_expenses := AList.delete eid (sv_expenses s)\<rparr>) (ex_group e) (apply_expense net e (- 1)))"
proof -
  have "ledger_at s (ex_group e) \<noteq> None" using sw_okD(3) [OF ok] map_of_SomeD [OF ex] by (fastforce simp: entries_ok_def)
  then obtain net where "ledger_at s (ex_group e) = Some net" by blast
  moreover from this
  have "delete_expense s eid = Inr (put_ledger (s\<lparr>sv_expenses := AList.delete eid (sv_expenses s)\<rparr>) (ex_group e) (apply_expense net e (- 1)))"
    using ex by (auto simp: delete_expense_def ledger_at_def split: option.splits)
  ultimately show ?thesis by (rule that)
qed

lemma delete_expense_ok:
  assumes ok: "sw_ok s" and del: "delete_expense s eid = Inr t"
  shows "sw_ok t"
proof -
  obtain e where ex: "map_of (sv_expenses s) eid = Some e" using del by (auto simp: delete_expense_def split: option.splits)
  obtain net where atn: "ledger_at s (ex_group e) = Some net"
    and t: "delete_expense s eid = Inr (put_ledger (s\<lparr>sv_expenses := AList.delete eid (sv_expenses s)\<rparr>) (ex_group e) (apply_expense net e (- 1)))"
    by (rule delete_expense_put [OF ok ex])
  define s1 where "s1 = s\<lparr>sv_expenses := AList.delete eid (sv_expenses s)\<rparr>"
  note o = sw_okD [OF ok]
  note net = o(4) [OF atn]
  have dist: "distinct (map fst (sv_expenses s))" using o(1) by (simp add: ids_ok_def)
  have rc: "recomputed s1 k u = recomputed s k u - (if ex_group e = k then expense_effect e u else 0)" for k u
    by (simp add: recomputed_def s1_def sum_list_delete_key [OF dist ex])
  have at_s1: "ledger_at s1 k = ledger_at s k" for k by (simp add: s1_def ledger_at_def split: option.splits)
  have "sum_list (map snd (ex_shares e)) = ex_amount e" using o(3) map_of_SomeD [OF ex] by (fastforce simp: entries_ok_def)
  then have ap: "ledger_ok (apply_expense net e (- 1))" "\<And>u. balance_of (apply_expense net e (- 1)) u = balance_of net u - expense_effect e u"
    "ledger_sum (apply_expense net e (- 1)) = ledger_sum net"
    using apply_expense_correct [of net e "- 1"] net by auto
  have "sw_ok (put_ledger s1 (ex_group e) (apply_expense net e (- 1)))"
  proof (rule sw_ok_put [OF ok atn])
    show "ids_ok ''E'' (sv_ids s1) (sv_expenses s1)" using ids_ok_delete [OF o(1)] by (simp add: s1_def)
    show "entries_ok s1" using o(3) AList_delete_subset [of eid "sv_expenses s"]
      by (simp add: entries_ok_def at_s1) (auto simp: s1_def)
    show "balance_of (apply_expense net e (- 1)) u = recomputed s1 (ex_group e) u" for u using ap(2) net rc by simp
    show "recomputed s1 k u = recomputed s k u" if "k \<noteq> ex_group e" for k u using rc that by simp
  qed (use ap net in \<open>simp_all add: s1_def\<close>)
  then show ?thesis using del t by (simp add: s1_def)
qed

lemma sw_step_ok: "sw_ok s \<Longrightarrow> sw_ok (fst (sw_step s op))"
proof (cases op)
  case (AddUser n e)
  then show "sw_ok s \<Longrightarrow> ?thesis" using add_user_ok [of s n e] by (cases "add_user s n e") (simp add: attempt_def)
qed (auto simp: attempt_def map_sum_Inr split: sum.splits prod.splits
      intro: create_group_ok add_member_ok remove_member_ok add_expense_ok record_payment_ok delete_expense_ok)

interpretation splitting: invariant_machine sw_step sw_ok
  by unfold_locales (rule sw_step_ok)

lemma new_service_ok: "sw_ok new_service"
  by (auto simp: sw_ok_def new_service_def ids_ok_def entries_ok_def ledger_at_def ledger_ok_def ledger_sum_def balance_of_def recomputed_def
      split: option.splits)

lemma add_expense_record:
  assumes ok: "sw_ok s" and add: "add_expense s d a p ids ty vs gid c = Inr (t, eid)"
  obtains e where "sv_expenses t = AList.update eid e (sv_expenses s)" "eid \<notin> fst ` set (sv_expenses s)"
    "\<And>k. (ledger_at t k = None) = (ledger_at s k = None)" "sv_payments t = sv_payments s"
proof -
  obtain cents net shares where at: "ledger_for s gid (p # ids) = Inr net" and eid: "eid = ''E'' @ digits (sv_ids s)"
    and t: "t = put_ledger (s\<lparr>sv_ids := sv_ids s + 1, sv_expenses := AList.update eid \<lparr>ex_description = d, ex_amount = cents, ex_paid_by = p,
        ex_type = ty, ex_shares = shares, ex_category = c, ex_group = gid\<rparr> (sv_expenses s)\<rparr>) gid
        (apply_expense net \<lparr>ex_description = d, ex_amount = cents, ex_paid_by = p, ex_type = ty, ex_shares = shares, ex_category = c, ex_group = gid\<rparr> 1)"
    using add by (auto simp: add_expense_def bind_sum_Inr next_id_def Let_def split: if_splits)
  have "(ledger_at t k = None) = (ledger_at s k = None)" for k
    using ledger_for_at [OF at] by (auto simp: t ledger_at_put)
  then show ?thesis using ids_ok_fresh [OF sw_okD(1) [OF ok]] eid by (intro that) (simp_all add: t)
qed

text \<open>Paying a settlement plan, one payment per transfer.\<close>

definition payment_of :: "string \<Rightarrow> transfer \<Rightarrow> payment" where
  "payment_of gid t = \<lparr>pm_id = [], pm_from = tr_debtor t, pm_to = tr_creditor t, pm_amount = tr_amount t, pm_group = Some gid\<rparr>"

lemma pay_all:
  assumes "ledger_ok net"
  shows "ledger_ok (foldl apply_payment net (map (payment_of gid) ts))"
    "balance_of (foldl apply_payment net (map (payment_of gid) ts)) u = balance_of net u + paid ts u"
  using assms
  by (induction ts arbitrary: net) (auto simp: apply_payment_correct payment_of_def payment_effect_def paid_def)

lemma balance_of_sum: "ledger_ok net \<Longrightarrow> sum_list (map (\<lambda>e. if fst e = u then snd e else 0) net) = balance_of net u"
proof (induction net)
  case (Cons e net)
  have "sum_list (map (\<lambda>e. if fst e = u then snd e else 0) net) = balance_of net u"
    using Cons by (simp add: ledger_ok_def)
  moreover have "fst e = u \<Longrightarrow> map_of net u = None" using Cons.prems by (auto simp: ledger_ok_def map_of_eq_None_iff)
  ultimately show ?case by (cases e) (auto simp: balance_of_def)
qed (simp add: balance_of_def)

lemma ledger_empty:
  assumes "ledger_ok net" "\<And>u. balance_of net u = 0"
  shows "net = []"
proof (cases net)
  case (Cons e rest)
  then have "balance_of net (fst e) = snd e" by (cases e) (simp add: balance_of_def)
  then show ?thesis using assms Cons by (auto simp: ledger_ok_def)
qed

lemma settle_clears:
  assumes "ledger_ok net" "ledger_sum net = 0"
  obtains ts where "greedy_settle net = Inr ts" "foldl apply_payment net (map (payment_of gid) ts) = []"
    "list_all (\<lambda>t. 0 < tr_amount t) ts" "length ts < max 1 (length net)"
proof -
  obtain ts where ts: "greedy_settle net = Inr ts" "\<And>u. paid ts u = - sum_list (map (\<lambda>e. if fst e = u then snd e else 0) net)"
    "\<And>t. t \<in> set ts \<Longrightarrow> 0 < tr_amount t" "length ts < max 1 (length (filter (\<lambda>e. snd e \<noteq> 0) net))"
    using assms(2) unfolding ledger_sum_def by (rule greedy_settle_correct) blast
  have "foldl apply_payment net (map (payment_of gid) ts) = []"
    using pay_all [OF assms(1)] ts(2) balance_of_sum [OF assms(1)] by (intro ledger_empty) simp_all
  moreover have "filter (\<lambda>e. snd e \<noteq> 0) net = net" using assms(1) by (intro filter_True) (auto simp: ledger_ok_def image_iff)
  ultimately show ?thesis using ts(1,3,4) by (intro that [of ts]) (simp_all add: list_all_iff)
qed

lemma reachable_ok: "sw_ok (run_ops sw_step new_service ops)"
  by (rule splitting.run_inv [OF new_service_ok])

section \<open>Properties\<close>

text \<open>
  C31. After any sequence of calls on the service, failed ones included, the running balances of a group (or of the
  expenses outside groups) are exactly what recomputing them from all the recorded expenses and payments gives,
  the balances of a ledger sum to zero cents, and a ledger holds no user twice and no zero entry.
\<close>

theorem ledgers_recomputed:
  fixes ops :: "sw_op list"
  defines "s \<equiv> run_ops sw_step new_service ops"
  assumes "ledger_at s gid = Some net"
  shows "(\<forall>u. balance_of net u = recomputed s gid u) \<and> sum_list (map snd net) = 0
    \<and> distinct (map fst net) \<and> 0 \<notin> snd ` set net"
  using sw_okD(4) [OF reachable_ok [of ops]] assms by (simp add: ledger_ok_def ledger_sum_def)

definition sw_sample :: "sw_op list" where
  "sw_sample = [AddUser ''Ann'' ''a'', AddUser ''Bob'' ''b'', AddUser ''Cy'' ''c'', CreateGroup ''Trip'' [''U1'', ''U2'', ''U3''],
     AddExpense ''Hotel'' 100 ''U1'' [''U1'', ''U2'', ''U3''] EQUAL None (Some ''G4'') ''OTHER'',
     AddExpense ''Taxi'' 9 ''U2'' [''U1'', ''U2''] EXACT (Some [4, 5]) (Some ''G4'') ''OTHER'',
     RecordPayment ''U3'' ''U1'' 10 (Some ''G4''), RecordPayment ''U3'' ''U3'' 10 (Some ''G4''), DeleteExpense ''E6'']"

lemma sw_sample_ledger:
  "ledger_at (run_ops sw_step new_service sw_sample) (Some ''G4'') = Some [(''U1'', 5666), (''U2'', - 3333), (''U3'', - 2333)]"
  by code_simp

theorem ledgers_recomputed_witness:
  "recomputed (run_ops sw_step new_service sw_sample) (Some ''G4'') ''U3'' = - 2333"
  using ledgers_recomputed [OF sw_sample_ledger] by (auto simp: balance_of_def dest: spec [of _ "''U3''"])

text \<open>Recording a settlement plan: a call of \<open>record_payment\<close> for each of its transfers, which stops at the first that raises.\<close>

fun record_plan :: "service \<Rightarrow> string \<Rightarrow> transfer list \<Rightarrow> sw_error + service" where
  "record_plan s gid [] = Inr s"
| "record_plan s gid (t # ts) =
     bind_sum (record_payment s (tr_debtor t) (tr_creditor t) (of_int (tr_amount t) / 100) (Some gid)) (\<lambda>r. record_plan (fst r) gid ts)"

definition members_known :: "service \<Rightarrow> bool" where
  "members_known s \<longleftrightarrow> (\<forall>gid g u. map_of (sv_groups s) gid = Some g \<longrightarrow> u \<in> set (gr_members g) \<longrightarrow> map_of (sv_users s) u \<noteq> None)"

lemma require_users_Inr: "require_users s us = Inr x \<longleftrightarrow> (\<forall>u \<in> set us. map_of (sv_users s) u \<noteq> None)"
  by (induction us) auto

lemma add_all_members: "set (gr_members (foldl add_to_group g us)) = set (gr_members g) \<union> set us"
  by (induction us arbitrary: g) (auto simp: add_to_group_def)

lemma put_ledger_same [simp]:
  "sv_users (put_ledger s gid net) = sv_users s"
  "map_of (sv_groups (put_ledger s gid net)) k = map_option (\<lambda>g. if gid = Some k then g\<lparr>gr_ledger := net\<rparr> else g) (map_of (sv_groups s) k)"
  by (auto simp: put_ledger_def update_conv' map_option_case split: option.splits)

lemma members_known_put [simp]: "members_known (put_ledger s gid net) = members_known s"
  unfolding members_known_def by (auto simp: map_option_case split: option.splits if_splits)

lemma members_known_same [simp]: "members_known (s\<lparr>sv_ids := n, sv_payments := ps\<rparr>) = members_known s"
  by (simp add: members_known_def)

lemma members_known_update:
  assumes "members_known s" "\<And>u. u \<in> set (gr_members g) \<Longrightarrow> map_of (sv_users s) u \<noteq> None" "sv_groups t = AList.update gid g (sv_groups s)" "sv_users t = sv_users s"
  shows "members_known t"
  using assms unfolding members_known_def by (auto simp: update_conv' split: if_splits)

lemma sw_step_members: "members_known s \<Longrightarrow> members_known (fst (sw_step s op))"
proof (cases op)
  case (AddUser name email)
  assume "members_known s"
  then show ?thesis unfolding members_known_def by (auto simp: AddUser add_user_def next_id_def attempt_def update_conv' split: if_splits)
next
  case (CreateGroup name ids)
  assume m: "members_known s"
  have "members_known t" if "create_group s name ids = Inr (t, gid)" for t gid
  proof -
    let ?g = "foldl add_to_group \<lparr>gr_name = name, gr_members = [], gr_ledger = []\<rparr> ids"
    have t: "t = s\<lparr>sv_ids := sv_ids s + 1, sv_groups := AList.update gid ?g (sv_groups s)\<rparr>" and ids: "\<forall>u \<in> set ids. map_of (sv_users s) u \<noteq> None"
      using that by (auto simp: create_group_def bind_sum_Inr next_id_def Let_def require_users_Inr)
    show ?thesis by (rule members_known_update [OF m, of ?g _ gid]) (use ids in \<open>simp_all add: t add_all_members\<close>)
  qed
  then show ?thesis using m by (auto simp: CreateGroup attempt_def split: sum.splits)
next
  case (AddMember gid u)
  assume m: "members_known s"
  have "members_known t" if "add_member s gid u = Inr t" for t
  proof -
    obtain g where g: "map_of (sv_groups s) gid = Some g" "map_of (sv_users s) u \<noteq> None" "t = s\<lparr>sv_groups := AList.update gid (add_to_group g u) (sv_groups s)\<rparr>"
      using \<open>add_member s gid u = Inr t\<close> by (auto simp: add_member_def bind_sum_Inr require_group_def split: option.splits if_splits)
    show ?thesis
      by (rule members_known_update [OF m, of "add_to_group g u" _ gid])
        (use g m in \<open>auto simp: members_known_def add_to_group_def split: if_splits\<close>)
  qed
  then show ?thesis using m by (auto simp: AddMember attempt_def map_sum_Inr split: sum.splits)
next
  case (RemoveMember gid u)
  assume m: "members_known s"
  have "members_known t" if "remove_member s gid u = Inr t" for t
  proof -
    obtain g where g: "map_of (sv_groups s) gid = Some g" "t = s\<lparr>sv_groups := AList.update gid (g\<lparr>gr_members := remove1 u (gr_members g)\<rparr>) (sv_groups s)\<rparr>"
      using \<open>remove_member s gid u = Inr t\<close> by (auto simp: remove_member_def bind_sum_Inr require_group_def remove_from_group_def split: option.splits if_splits)
    have "map_of (sv_users s) v \<noteq> None" if "v \<in> set (gr_members g)" for v using m g(1) that unfolding members_known_def by blast
    then show ?thesis
      by (intro members_known_update [OF m, of "g\<lparr>gr_members := remove1 u (gr_members g)\<rparr>" _ gid]) (use g notin_set_remove1 in \<open>fastforce+\<close>)
  qed
  then show ?thesis using m by (auto simp: RemoveMember attempt_def map_sum_Inr split: sum.splits)
next
  case (AddExpense d a p ids ty vs gid c)
  assume m: "members_known s"
  have "members_known t" if "add_expense s d a p ids ty vs gid c = Inr (t, e)" for t e
    using that m by (auto simp: add_expense_def bind_sum_Inr next_id_def Let_def members_known_def split: if_splits)
  then show ?thesis using m by (auto simp: AddExpense attempt_def split: sum.splits)
next
  case (DeleteExpense eid)
  assume m: "members_known s"
  have "members_known t" if "delete_expense s eid = Inr t" for t
    using that m by (auto simp: delete_expense_def Let_def members_known_def split: if_splits option.splits)
  then show ?thesis using m by (auto simp: DeleteExpense attempt_def map_sum_Inr split: sum.splits)
next
  case (RecordPayment f to a gid)
  assume m: "members_known s"
  have "members_known t" if "record_payment s f to a gid = Inr (t, e)" for t e
    using that m by (auto simp: record_payment_def bind_sum_Inr next_id_def Let_def members_known_def split: if_splits)
  then show ?thesis using m by (auto simp: RecordPayment attempt_def split: sum.splits)
qed

interpretation memberships: invariant_machine sw_step members_known
  by unfold_locales (rule sw_step_members)

lemma reachable_members: "members_known (run_ops sw_step new_service ops)"
  by (rule memberships.run_inv) (simp add: members_known_def new_service_def)

lemma to_money_cents: "to_money (of_int c / 100) = Inr c"
  by (simp add: to_money_def)

lemma record_payment_group:
  assumes "map_of (sv_groups s) gid = Some g" "{f, to} \<subseteq> set (gr_members g)" "members_known s" "f \<noteq> to" "0 < c"
  shows "\<exists>t pid. record_payment s f to (of_int c / 100) (Some gid) = Inr (t, pid) \<and> members_known t
    \<and> map_of (sv_groups t) gid = Some (g\<lparr>gr_ledger := apply_payment (gr_ledger g) (payment_of gid \<lparr>tr_debtor = f, tr_creditor = to, tr_amount = c\<rparr>)\<rparr>)
    \<and> (\<forall>k. k \<noteq> Some gid \<longrightarrow> ledger_at t k = ledger_at s k)"
proof -
  have "map_of (sv_users s) u \<noteq> None" if "u \<in> {f, to}" for u using that assms(1-3) unfolding members_known_def by blast
  then have "ledger_for s (Some gid) [f, to] = Inr (gr_ledger g)" using assms(1,2) by (simp add: ledger_for_def bind_sum_def require_group_def)
  then show ?thesis
    using assms by (simp add: record_payment_def to_money_cents bind_sum_def next_id_def Let_def apply_payment_def payment_of_def ledger_at_put)
      (simp add: ledger_at_def split: option.splits)
qed

lemma record_plan_pays:
  assumes "map_of (sv_groups s) gid = Some g" "members_known s"
    "\<And>t. t \<in> set ts \<Longrightarrow> {tr_debtor t, tr_creditor t} \<subseteq> set (gr_members g) \<and> tr_debtor t \<noteq> tr_creditor t \<and> 0 < tr_amount t"
  shows "\<exists>r. record_plan s gid ts = Inr r \<and> map_of (sv_groups r) gid = Some (g\<lparr>gr_ledger := foldl apply_payment (gr_ledger g) (map (payment_of gid) ts)\<rparr>)
    \<and> (\<forall>k. k \<noteq> Some gid \<longrightarrow> ledger_at r k = ledger_at s k)"
  using assms
proof (induction ts arbitrary: s g)
  case Nil
  then show ?case by simp
next
  case (Cons t ts)
  have t: "{tr_debtor t, tr_creditor t} \<subseteq> set (gr_members g)" "tr_debtor t \<noteq> tr_creditor t" "0 < tr_amount t" using Cons.prems(3) [of t] by simp_all
  have same: "\<lparr>tr_debtor = tr_debtor t, tr_creditor = tr_creditor t, tr_amount = tr_amount t\<rparr> = t" by simp
  obtain s1 pid where s1: "record_payment s (tr_debtor t) (tr_creditor t) (of_int (tr_amount t) / 100) (Some gid) = Inr (s1, pid)" "members_known s1"
      "map_of (sv_groups s1) gid = Some (g\<lparr>gr_ledger := apply_payment (gr_ledger g) (payment_of gid t)\<rparr>)" "\<forall>k. k \<noteq> Some gid \<longrightarrow> ledger_at s1 k = ledger_at s k"
    using record_payment_group [OF Cons.prems(1) t(1) Cons.prems(2) t(2,3)] unfolding same by blast
  obtain r where "record_plan s1 gid ts = Inr r"
      "map_of (sv_groups r) gid = Some (g\<lparr>gr_ledger := foldl apply_payment (apply_payment (gr_ledger g) (payment_of gid t)) (map (payment_of gid) ts)\<rparr>)"
      "\<forall>k. k \<noteq> Some gid \<longrightarrow> ledger_at r k = ledger_at s1 k"
    using Cons.IH [OF s1(3,2)] Cons.prems(3) by auto
  then show ?case using s1(1,4) by (simp add: bind_sum_def)
qed

text \<open>
  C36. For every group of a service reached by any sequence of calls, the settlement plan exists (the check that
  balances sum to zero never raises), every transfer of it is positive, and with n users in the ledger it needs at most n - 1
  transfers. If everybody with a balance is still a member, recording the plan with \<open>record_payment\<close> succeeds for every transfer,
  empties the ledger of the group and changes no other ledger. (A member who has left with a balance of zero can get one
  again when an old expense is deleted, and then the payment is refused: see below.)
\<close>

theorem settlement_clears_ledger:
  fixes ops :: "sw_op list"
  defines "s \<equiv> run_ops sw_step new_service ops"
  assumes "map_of (sv_groups s) gid = Some g"
  shows "\<exists>ts. get_settlement_plan s gid = Inr ts \<and> list_all (\<lambda>t. 0 < tr_amount t) ts \<and> length ts \<le> length (gr_ledger g) - 1
    \<and> (fst ` set (gr_ledger g) \<subseteq> set (gr_members g) \<longrightarrow>
        (\<exists>t. record_plan s gid ts = Inr t \<and> get_group_balances t gid = Inr [] \<and> (\<forall>k. k \<noteq> Some gid \<longrightarrow> ledger_at t k = ledger_at s k)))"
proof -
  have "ledger_at s (Some gid) = Some (gr_ledger g)" using assms(2) by (simp add: ledger_at_def)
  then have ok: "ledger_ok (gr_ledger g)" "ledger_sum (gr_ledger g) = 0" using sw_okD(4) [OF reachable_ok [of ops]] unfolding s_def by auto
  obtain ts where ts: "greedy_settle (gr_ledger g) = Inr ts" "foldl apply_payment (gr_ledger g) (map (payment_of gid) ts) = []"
    "list_all (\<lambda>t. 0 < tr_amount t) ts" "length ts < max 1 (length (gr_ledger g))" using ok by (rule settle_clears)
  have plan: "get_settlement_plan s gid = Inr ts" using assms(2) ts(1) by (simp add: get_settlement_plan_def get_group_balances_def require_group_def bind_sum_def)
  have "\<exists>t. record_plan s gid ts = Inr t \<and> get_group_balances t gid = Inr [] \<and> (\<forall>k. k \<noteq> Some gid \<longrightarrow> ledger_at t k = ledger_at s k)"
    if members: "fst ` set (gr_ledger g) \<subseteq> set (gr_members g)"
  proof -
    have "{tr_debtor t, tr_creditor t} \<subseteq> set (gr_members g) \<and> tr_debtor t \<noteq> tr_creditor t \<and> 0 < tr_amount t" if t: "t \<in> set ts" for t
    proof -
      obtain d c where dc: "(tr_debtor t, d) \<in> set (gr_ledger g)" "d < 0" "(tr_creditor t, c) \<in> set (gr_ledger g)" "0 < c"
        using greedy_settle_parties [OF ts(1) t] by blast
      then have "tr_debtor t \<noteq> tr_creditor t" using ok(1) eq_key_imp_eq_value [of "gr_ledger g"] by (fastforce simp: ledger_ok_def)
      moreover have "tr_debtor t \<in> set (gr_members g)" "tr_creditor t \<in> set (gr_members g)" using dc(1,3) members by force+
      ultimately show ?thesis using ts(3) t by (simp add: list_all_iff)
    qed
    then obtain r where "record_plan s gid ts = Inr r" "map_of (sv_groups r) gid = Some (g\<lparr>gr_ledger := []\<rparr>)" "\<forall>k. k \<noteq> Some gid \<longrightarrow> ledger_at r k = ledger_at s k"
      using record_plan_pays [OF assms(2), of ts] reachable_members [of ops] unfolding ts(2) s_def by blast
    then show ?thesis by (auto simp: get_group_balances_def require_group_def bind_sum_def)
  qed
  then show ?thesis using plan ts(3,4) by (intro exI [of _ ts]) (simp add: max_def split: if_splits)
qed

theorem settlement_clears_ledger_witness:
  "\<exists>ts t. get_settlement_plan (run_ops sw_step new_service sw_sample) ''G4'' = Inr ts \<and> length ts \<le> 2
     \<and> record_plan (run_ops sw_step new_service sw_sample) ''G4'' ts = Inr t \<and> get_group_balances t ''G4'' = Inr []"
proof -
  let ?s = "run_ops sw_step new_service sw_sample"
  have "map_option (\<lambda>g. (gr_members g, gr_ledger g)) (map_of (sv_groups ?s) ''G4'')
      = Some ([''U1'', ''U2'', ''U3''], [(''U1'', 5666), (''U2'', - 3333), (''U3'', - 2333)])" by code_simp
  then obtain g where g: "map_of (sv_groups ?s) ''G4'' = Some g" "gr_members g = [''U1'', ''U2'', ''U3'']"
      "gr_ledger g = [(''U1'', 5666), (''U2'', - 3333), (''U3'', - 2333)]" by auto
  show ?thesis using settlement_clears_ledger [OF g(1)] g(2,3) by auto
qed

text \<open>Why the members matter: \<open>U2\<close> settles and leaves, then the expense is deleted, which leaves the payment behind. The plan asks \<open>U1\<close>
  to give the money back to \<open>U2\<close>, and \<open>record_payment\<close> refuses it.\<close>

definition sw_left :: "sw_op list" where
  "sw_left = [AddUser ''Ann'' ''a'', AddUser ''Bob'' ''b'', CreateGroup ''Trip'' [''U1'', ''U2''],
     AddExpense ''Hotel'' 100 ''U1'' [''U1'', ''U2''] EQUAL None (Some ''G3'') ''OTHER'', RecordPayment ''U2'' ''U1'' 50 (Some ''G3''),
     RemoveMember ''G3'' ''U2'', DeleteExpense ''E4'']"

theorem left_member_cannot_settle:
  "get_settlement_plan (run_ops sw_step new_service sw_left) ''G3'' = Inr [\<lparr>tr_debtor = ''U1'', tr_creditor = ''U2'', tr_amount = 5000\<rparr>]
   \<and> record_payment (run_ops sw_step new_service sw_left) ''U1'' ''U2'' 50 (Some ''G3'') = Inl SplitwiseError"
  by code_simp

text \<open>
  Deleting an expense that was just added to a reachable service succeeds, removes exactly its record, and
  gives every user the balance it had before in every ledger.
\<close>

theorem expense_undone:
  fixes ops :: "sw_op list"
  defines "s \<equiv> run_ops sw_step new_service ops"
  assumes "add_expense s d a p ids ty vs gid c = Inr (t, eid)"
  shows "\<exists>r. delete_expense t eid = Inr r \<and> sv_expenses r = sv_expenses s \<and> (\<forall>k. map_option balance_of (ledger_at r k) = map_option balance_of (ledger_at s k))"
proof -
  note ok = reachable_ok [of ops, folded s_def]
  note okt = add_expense_ok [OF ok assms(2)]
  obtain e where ex: "sv_expenses t = AList.update eid e (sv_expenses s)" and eid: "eid \<notin> fst ` set (sv_expenses s)"
    and at: "\<And>k. (ledger_at t k = None) = (ledger_at s k = None)" "sv_payments t = sv_payments s"
    by (rule add_expense_record [OF ok assms(2)]) blast
  have "map_of (sv_expenses t) eid = Some e" by (simp add: ex update_conv')
  then obtain n where r: "delete_expense t eid = Inr (put_ledger (t\<lparr>sv_expenses := AList.delete eid (sv_expenses t)\<rparr>) (ex_group e) (apply_expense n e (- 1)))"
    by (rule delete_expense_put [OF okt])
  let ?r = "put_ledger (t\<lparr>sv_expenses := AList.delete eid (sv_expenses t)\<rparr>) (ex_group e) (apply_expense n e (- 1))"
  have exr: "sv_expenses ?r = sv_expenses s" using eid by (simp add: ex AList_update_absent AList.delete_eq) (intro filter_True, force)
  have okr: "sw_ok ?r" by (rule delete_expense_ok [OF okt r])
  have rc: "recomputed ?r k u = recomputed s k u" for k u using exr at(2) by (simp add: recomputed_def)
  have "map_option balance_of (ledger_at ?r k) = map_option balance_of (ledger_at s k)" for k
  proof (cases "ledger_at s k")
    case None
    then show ?thesis using at(1) [of k] by (auto simp: ledger_at_put)
  next
    case (Some m)
    have "ledger_at ?r k \<noteq> None" using at(1) [of k] Some by (simp add: ledger_at_put)
    then obtain m' where m': "ledger_at ?r k = Some m'" by blast
    show ?thesis using sw_okD(4) [OF okr m'] sw_okD(4) [OF ok Some] rc Some m' by (auto intro!: ext)
  qed
  then show ?thesis using r exr by blast
qed

theorem expense_undone_witness:
  "\<exists>t r. add_expense (run_ops sw_step new_service sw_sample) ''Lunch'' 25 ''U2'' [''U1'', ''U2''] EQUAL None (Some ''G4'') ''FOOD'' = Inr (t, ''E8'')
     \<and> delete_expense t ''E8'' = Inr r \<and> map_option balance_of (ledger_at r (Some ''G4'')) = Some (balance_of [(''U1'', 5666), (''U2'', - 3333), (''U3'', - 2333)])"
proof -
  let ?r = "add_expense (run_ops sw_step new_service sw_sample) ''Lunch'' 25 ''U2'' [''U1'', ''U2''] EQUAL None (Some ''G4'') ''FOOD''"
  have "map_sum (\<lambda>_. ()) snd ?r = Inr ''E8''" by code_simp
  then obtain t where t: "?r = Inr (t, ''E8'')" by (cases ?r) auto
  from expense_undone [OF t] show ?thesis using t sw_sample_ledger by (metis option.map(2))
qed

end
