(* ===== verification/Sliding_Window.thy ===== *)
theory Sliding_Window
  imports Prelude
begin

text \<open>
  The sliding windows of \<open>circuit_breaker.py\<close>: the last N outcomes in a ring buffer (\<open>CountBasedWindow\<close>) and the
  outcomes of the last n whole seconds in one bucket per second (\<open>TimeBasedWindow\<close>). The locale \<open>outcome_window\<close> is
  what the circuit breaker relies on: a snapshot is what counting over the full log of outcomes would give. Times
  of the clock are rationals.
\<close>

section \<open>The two windows\<close>

record window_snapshot =
  sn_total :: nat
  sn_failures :: nat

definition failure_rate :: "window_snapshot \<Rightarrow> rat" where
  "failure_rate sn = (if sn_total sn \<noteq> 0 then of_nat (sn_failures sn) / of_nat (sn_total sn) else 0)"

record count_window =
  cw_size :: nat
  cw_ring :: "bool option list"
  cw_idx :: nat
  cw_total :: int
  cw_failures :: int

definition count_reset :: "count_window \<Rightarrow> count_window" where
  "count_reset w = w\<lparr>cw_ring := replicate (cw_size w) None, cw_idx := 0, cw_total := 0, cw_failures := 0\<rparr>"

definition new_count_window :: "int \<Rightarrow> py_error + count_window" where
  "new_count_window n =
     (if n \<le> 0 then Inl ValueError
      else Inr (count_reset \<lparr>cw_size = nat n, cw_ring = [], cw_idx = 0, cw_total = 0, cw_failures = 0\<rparr>))"

definition count_record :: "count_window \<Rightarrow> bool \<Rightarrow> rat \<Rightarrow> count_window" where
  "count_record w success now =
     (let evicted = cw_ring w ! cw_idx w;
          w1 = (case evicted of
                  None \<Rightarrow> w\<lparr>cw_total := cw_total w + 1\<rparr>
                | Some ok \<Rightarrow> if \<not> ok then w\<lparr>cw_failures := cw_failures w - 1\<rparr> else w);
          w2 = (if \<not> success then w1\<lparr>cw_failures := cw_failures w1 + 1\<rparr> else w1)
      in w2\<lparr>cw_ring := (cw_ring w)[cw_idx w := Some success], cw_idx := (cw_idx w + 1) mod cw_size w\<rparr>)"

definition count_snapshot :: "count_window \<Rightarrow> rat \<Rightarrow> window_snapshot" where
  "count_snapshot w now = \<lparr>sn_total = nat (cw_total w), sn_failures = nat (cw_failures w)\<rparr>"

record time_window =
  tw_n :: nat
  tw_epoch :: "int list"
  tw_totals :: "nat list"
  tw_failures :: "nat list"

definition time_reset :: "time_window \<Rightarrow> time_window" where
  "time_reset w = w\<lparr>tw_epoch := replicate (tw_n w) (- 1), tw_totals := replicate (tw_n w) 0, tw_failures := replicate (tw_n w) 0\<rparr>"

definition new_time_window :: "int \<Rightarrow> py_error + time_window" where
  "new_time_window n =
     (if n \<le> 0 then Inl ValueError else Inr (time_reset \<lparr>tw_n = nat n, tw_epoch = [], tw_totals = [], tw_failures = []\<rparr>))"

definition time_record :: "time_window \<Rightarrow> bool \<Rightarrow> rat \<Rightarrow> time_window" where
  "time_record w success now =
     (let second = py_int now;
          i = nat (second mod int (tw_n w));
          w1 = (if tw_epoch w ! i \<noteq> second
                then w\<lparr>tw_epoch := (tw_epoch w)[i := second], tw_totals := (tw_totals w)[i := 0], tw_failures := (tw_failures w)[i := 0]\<rparr>
                else w);
          w2 = w1\<lparr>tw_totals := (tw_totals w1)[i := tw_totals w1 ! i + 1]\<rparr>
      in if \<not> success then w2\<lparr>tw_failures := (tw_failures w2)[i := tw_failures w2 ! i + 1]\<rparr> else w2)"

definition time_snapshot :: "time_window \<Rightarrow> rat \<Rightarrow> window_snapshot" where
  "time_snapshot w now =
     (let oldest = py_int now - int (tw_n w) + 1 in
      foldl (\<lambda>sn i. if oldest \<le> tw_epoch w ! i
                    then \<lparr>sn_total = sn_total sn + tw_totals w ! i, sn_failures = sn_failures sn + tw_failures w ! i\<rparr> else sn)
        \<lparr>sn_total = 0, sn_failures = 0\<rparr> [0..<tw_n w])"

text \<open>The window a breaker holds (the subclasses of \<open>SlidingWindow\<close>).\<close>

datatype sliding_window = CountBasedWindow count_window | TimeBasedWindow time_window

fun record_outcome :: "sliding_window \<Rightarrow> bool \<Rightarrow> rat \<Rightarrow> sliding_window" where
  "record_outcome (CountBasedWindow w) success now = CountBasedWindow (count_record w success now)"
| "record_outcome (TimeBasedWindow w) success now = TimeBasedWindow (time_record w success now)"

fun window_snapshot_at :: "sliding_window \<Rightarrow> rat \<Rightarrow> window_snapshot" where
  "window_snapshot_at (CountBasedWindow w) now = count_snapshot w now"
| "window_snapshot_at (TimeBasedWindow w) now = time_snapshot w now"

fun window_reset :: "sliding_window \<Rightarrow> sliding_window" where
  "window_reset (CountBasedWindow w) = CountBasedWindow (count_reset w)"
| "window_reset (TimeBasedWindow w) = TimeBasedWindow (time_reset w)"

section \<open>What a window promises\<close>

text \<open>
  The outcomes recorded since the last reset, oldest first, with their times. A window promises that its snapshot
  is the count over the part of this log that it covers.
\<close>

type_synonym outcome_log = "(bool \<times> rat) list"

definition counted :: "outcome_log \<Rightarrow> window_snapshot" where
  "counted xs = \<lparr>sn_total = length xs, sn_failures = length (filter (\<lambda>x. \<not> fst x) xs)\<rparr>"

definition last_calls :: "nat \<Rightarrow> outcome_log \<Rightarrow> rat \<Rightarrow> outcome_log" where
  "last_calls n xs now = drop (length xs - n) xs"

definition last_seconds :: "nat \<Rightarrow> outcome_log \<Rightarrow> rat \<Rightarrow> outcome_log" where
  "last_seconds n xs now = filter (\<lambda>x. py_int now - int n < py_int (snd x)) xs"

definition timely :: "outcome_log \<Rightarrow> rat \<Rightarrow> bool" where
  "timely xs now \<longleftrightarrow> 0 \<le> now \<and> (\<forall>x \<in> set xs. 0 \<le> snd x \<and> snd x \<le> now)"

locale outcome_window =
  fixes covers :: "outcome_log \<Rightarrow> 'w \<Rightarrow> bool"
    and part :: "'w \<Rightarrow> outcome_log \<Rightarrow> rat \<Rightarrow> outcome_log"
    and rec :: "'w \<Rightarrow> bool \<Rightarrow> rat \<Rightarrow> 'w"
    and snap :: "'w \<Rightarrow> rat \<Rightarrow> window_snapshot"
    and reset :: "'w \<Rightarrow> 'w"
  assumes reset_covers: "covers xs w \<Longrightarrow> covers [] (reset w)"
    and rec_covers: "covers xs w \<Longrightarrow> timely xs now \<Longrightarrow> covers (xs @ [(b, now)]) (rec w b now)"
    and snap_counts: "covers xs w \<Longrightarrow> timely xs now \<Longrightarrow> snap w now = counted (part w xs now)"
    and part_rec: "part (rec w b now) = part w"
    and part_reset: "part (reset w) = part w"
begin

abbreviation rec_all :: "'w \<Rightarrow> outcome_log \<Rightarrow> 'w" where
  "rec_all \<equiv> foldl (\<lambda>w x. rec w (fst x) (snd x))"

lemma rec_all_covers:
  assumes "covers ys w" "sorted (map snd (ys @ xs))" "\<forall>x \<in> set (ys @ xs). 0 \<le> snd x"
  shows "covers (ys @ xs) (rec_all w xs) \<and> part (rec_all w xs) = part w"
  using assms
proof (induction xs arbitrary: ys w)
  case (Cons x xs)
  have "timely ys (snd x)" using Cons.prems by (auto simp: timely_def sorted_append)
  from rec_covers [OF Cons.prems(1) this, of "fst x"] have "covers (ys @ [x]) (rec w (fst x) (snd x))" by simp
  from Cons.IH [OF this] show ?case using Cons.prems by (simp add: part_rec)
qed simp

lemma snap_all:
  assumes "covers xs w" "sorted (map snd (ys @ [(b, now)]))" "\<forall>x \<in> set (ys @ [(b, now)]). 0 \<le> snd x"
  shows "snap (rec_all (reset w) ys) now = counted (part w ys now)"
proof -
  have "covers ys (rec_all (reset w) ys) \<and> part (rec_all (reset w) ys) = part (reset w)"
    using rec_all_covers [OF reset_covers [OF assms(1)], of ys] assms(2,3) by (simp add: sorted_append)
  moreover have "timely ys now" using assms(2,3) by (auto simp: timely_def sorted_append)
  ultimately show ?thesis using snap_counts [of ys "rec_all (reset w) ys" now] by (simp add: part_reset)
qed

end

section \<open>The ring buffer keeps the last calls\<close>

definition count_covers :: "outcome_log \<Rightarrow> count_window \<Rightarrow> bool" where
  "count_covers xs w \<longleftrightarrow> cw_idx w < cw_size w
     \<and> rotate (cw_idx w) (cw_ring w) = replicate (cw_size w - length xs) None @ map (Some \<circ> fst) (last_calls (cw_size w) xs 0)
     \<and> cw_total w = int (length (last_calls (cw_size w) xs 0))
     \<and> cw_failures w = int (length (filter (\<lambda>x. \<not> fst x) (last_calls (cw_size w) xs 0)))"

lemma rotate_write:
  assumes "i < length xs"
  shows "rotate ((i + 1) mod length xs) (xs[i := v]) = tl (rotate i xs) @ [v]"
proof -
  have "rotate ((i + 1) mod length xs) (xs[i := v]) = rotate1 (rotate i (xs[i := v]))"
    by (metis One_nat_def Suc_eq_plus1 length_list_update rotate_Suc rotate_conv_mod)
  also have "rotate i (xs[i := v]) = v # tl (rotate i xs)"
    using assms by (simp add: rotate_drop_take drop_update_swap upd_conv_take_nth_drop Cons_nth_drop_Suc [symmetric])
  finally show ?thesis by simp
qed

lemma last_calls_length: "length (last_calls n xs now) = min n (length xs)"
  by (simp add: last_calls_def)

lemma last_calls_snoc: "0 < n \<Longrightarrow> last_calls n (xs @ [x]) now =
    (if length xs < n then xs else tl (last_calls n xs now)) @ [x]"
  by (auto simp: last_calls_def tl_drop drop_Suc [symmetric] Suc_diff_le not_less)

lemma count_record_covers:
  assumes cov: "count_covers xs w"
  shows "count_covers (xs @ [(b, now)]) (count_record w b now)"
proof -
  let ?n = "cw_size w" and ?l = "last_calls (cw_size w) xs 0"
  have n: "0 < ?n" "cw_idx w < ?n" using cov by (auto simp: count_covers_def)
  have rot: "rotate (cw_idx w) (cw_ring w) = replicate (?n - length xs) None @ map (Some \<circ> fst) ?l"
    using cov by (simp add: count_covers_def)
  have len: "length (cw_ring w) = ?n" using arg_cong [OF rot, of length] by (simp add: last_calls_length)
  have hd_rot: "cw_ring w ! cw_idx w = hd (rotate (cw_idx w) (cw_ring w))"
    using n len by (subst hd_rotate_conv_nth) auto
  have ring: "rotate ((cw_idx w + 1) mod ?n) ((cw_ring w)[cw_idx w := Some b]) = tl (rotate (cw_idx w) (cw_ring w)) @ [Some b]"
    using rotate_write [of "cw_idx w" "cw_ring w" "Some b"] n len by simp
  show ?thesis
  proof (cases "length xs < ?n")
    case True
    then have "cw_ring w ! cw_idx w = None" "?l = xs" unfolding hd_rot rot by (auto simp: hd_append last_calls_def)
    moreover obtain k where k: "?n - length xs = Suc k" "?n - Suc (length xs) = k" using True by (cases "?n - length xs") auto
    ultimately show ?thesis using cov n True ring rot
      by (auto simp: count_covers_def count_record_def Let_def last_calls_snoc)
  next
    case False
    obtain y ys where l: "?l = y # ys" using last_calls_length [of ?n xs 0] False n by (cases ?l) auto
    then have "cw_ring w ! cw_idx w = Some (fst y)" unfolding hd_rot rot using False by simp
    then show ?thesis using cov n False ring rot l
      by (auto simp: count_covers_def count_record_def Let_def last_calls_snoc)
  qed
qed

definition calls_part :: "count_window \<Rightarrow> outcome_log \<Rightarrow> rat \<Rightarrow> outcome_log" where
  "calls_part w = last_calls (cw_size w)"

interpretation count_window: outcome_window count_covers calls_part count_record count_snapshot count_reset
proof unfold_locales
  fix xs w
  assume "count_covers xs w"
  then show "count_covers [] (count_reset w)" by (auto simp: count_covers_def count_reset_def last_calls_def)
next
  fix xs w b and now :: rat
  assume "count_covers xs w"
  then show "count_covers (xs @ [(b, now)]) (count_record w b now)" by (rule count_record_covers)
next
  fix xs w and now :: rat
  assume "count_covers xs w"
  then show "count_snapshot w now = counted (calls_part w xs now)"
    by (simp add: count_covers_def count_snapshot_def counted_def calls_part_def last_calls_def)
next
  fix w b and now :: rat
  show "calls_part (count_record w b now) = calls_part w"
    by (simp add: calls_part_def count_record_def Let_def split: option.splits)
  show "calls_part (count_reset w) = calls_part w" by (simp add: calls_part_def count_reset_def)
qed

section \<open>The buckets keep the last seconds\<close>

abbreviation second_of :: "bool \<times> rat \<Rightarrow> int" where
  "second_of x \<equiv> py_int (snd x)"

definition bucket_ok :: "outcome_log \<Rightarrow> nat \<Rightarrow> nat \<Rightarrow> int \<Rightarrow> nat \<Rightarrow> nat \<Rightarrow> bool" where
  "bucket_ok xs n i e tot bad \<longleftrightarrow>
     (\<forall>x \<in> set xs. second_of x mod int n = int i \<longrightarrow> second_of x \<le> e)
     \<and> (e = - 1 \<or> e \<in> second_of ` set xs \<and> e mod int n = int i)
     \<and> tot = length (filter (\<lambda>x. second_of x = e) xs) \<and> bad = length (filter (\<lambda>x. second_of x = e \<and> \<not> fst x) xs)"

definition time_covers :: "outcome_log \<Rightarrow> time_window \<Rightarrow> bool" where
  "time_covers xs w \<longleftrightarrow> 0 < tw_n w \<and> length (tw_epoch w) = tw_n w \<and> length (tw_totals w) = tw_n w \<and> length (tw_failures w) = tw_n w
     \<and> (\<forall>x \<in> set xs. 0 \<le> snd x) \<and> (\<forall>i < tw_n w. bucket_ok xs (tw_n w) i (tw_epoch w ! i) (tw_totals w ! i) (tw_failures w ! i))"

lemma bucket_other: "int i \<noteq> second_of x mod int n \<Longrightarrow> 0 \<le> second_of x \<Longrightarrow> bucket_ok xs n i e tot bad \<Longrightarrow> bucket_ok (xs @ [x]) n i e tot bad"
  by (auto simp: bucket_ok_def)

lemma bucket_same:
  assumes "bucket_ok xs n i (second_of x) tot bad"
  shows "bucket_ok (xs @ [x]) n i (second_of x) (tot + 1) (if fst x then bad else bad + 1)"
  using assms by (auto simp: bucket_ok_def)

lemma bucket_new:
  assumes "bucket_ok xs n i e tot bad" "e \<noteq> second_of x" "second_of x mod int n = int i" "\<forall>y \<in> set xs. second_of y \<le> second_of x" "0 \<le> second_of x"
  shows "bucket_ok (xs @ [x]) n i (second_of x) 1 (if fst x then 0 else 1)"
proof -
  have "second_of y \<noteq> second_of x" if y: "y \<in> set xs" for y
  proof
    assume eq: "second_of y = second_of x"
    then have "second_of x \<le> e" using assms(1,3) y unfolding bucket_ok_def by metis
    moreover have "e \<le> second_of x" using assms(1,4,5) unfolding bucket_ok_def by auto
    ultimately show False using assms(2) by simp
  qed
  then have "filter (\<lambda>y. second_of y = second_of x) xs = []" "filter (\<lambda>y. second_of y = second_of x \<and> \<not> fst y) xs = []"
    by (auto simp: filter_empty_conv)
  then show ?thesis using assms(3,4) by (auto simp: bucket_ok_def)
qed

lemma time_record_covers:
  assumes cov: "time_covers xs w" and tm: "timely xs now"
  shows "time_covers (xs @ [(b, now)]) (time_record w b now)"
proof -
  define i where "i = nat (py_int now mod int (tw_n w))"
  have n: "0 < tw_n w" using cov by (simp add: time_covers_def)
  have now: "0 \<le> now" "0 \<le> py_int now" using tm py_int_nonneg by (auto simp: timely_def)
  have i: "i < tw_n w" "int i = py_int now mod int (tw_n w)" using n by (simp_all add: i_def nat_less_iff)
  have le: "\<forall>y \<in> set xs. second_of y \<le> py_int now" using tm by (auto simp: timely_def intro: py_int_mono)
  have b: "bucket_ok xs (tw_n w) j (tw_epoch w ! j) (tw_totals w ! j) (tw_failures w ! j)" if "j < tw_n w" for j
    using cov that by (simp add: time_covers_def)
  have "bucket_ok (xs @ [(b, now)]) (tw_n w) j (tw_epoch (time_record w b now) ! j) (tw_totals (time_record w b now) ! j) (tw_failures (time_record w b now) ! j)"
    if j: "j < tw_n w" for j
  proof (cases "j = i")
    case False
    then show ?thesis using bucket_other [of j "(b, now)" "tw_n w" xs] b [OF j] i(2) now i_def
      by (simp add: time_record_def Let_def)
  next
    case True
    show ?thesis
    proof (cases "tw_epoch w ! i = py_int now")
      case eq: True
      then show ?thesis using bucket_same [of xs "tw_n w" i "(b, now)" "tw_totals w ! i" "tw_failures w ! i"] b [OF i(1)] True cov i(1)
        by (cases b) (simp_all add: time_record_def Let_def i_def [symmetric] time_covers_def)
    next
      case ne: False
      then show ?thesis using bucket_new [OF b [OF i(1)], of "(b, now)"] True cov i le now
        by (cases b) (simp_all add: time_record_def Let_def i_def [symmetric] time_covers_def)
    qed
  qed
  moreover have "tw_n (time_record w b now) = tw_n w" "length (tw_epoch (time_record w b now)) = length (tw_epoch w)"
    "length (tw_totals (time_record w b now)) = length (tw_totals w)" "length (tw_failures (time_record w b now)) = length (tw_failures w)"
    by (simp_all add: time_record_def Let_def)
  ultimately show ?thesis using cov now by (auto simp: time_covers_def)
qed

lemma filter_by_residue:
  fixes h :: "'a \<Rightarrow> int"
  assumes "0 < n"
  shows "length (filter P xs) = (\<Sum>i < n. length (filter (\<lambda>x. P x \<and> h x mod int n = int i) xs))"
proof (induction xs)
  case (Cons x xs)
  let ?k = "nat (h x mod int n)"
  have k: "?k < n" "int ?k = h x mod int n" using assms by (simp_all add: nat_less_iff)
  have "(\<Sum>i < n. length (filter (\<lambda>x. P x \<and> h x mod int n = int i) (x # xs)))
      = (\<Sum>i < n. length (filter (\<lambda>x. P x \<and> h x mod int n = int i) xs) + (if i = ?k then if P x then 1 else 0 else 0))"
    using k(2) by (intro sum.cong) auto
  also have "\<dots> = (\<Sum>i < n. length (filter (\<lambda>x. P x \<and> h x mod int n = int i) xs)) + (if P x then 1 else 0)"
    using k(1) by (simp add: sum.distrib)
  finally show ?case using Cons.IH by simp
qed simp

lemma snapshot_sum:
  "foldl (\<lambda>sn i. if P i then \<lparr>sn_total = sn_total sn + f i, sn_failures = sn_failures sn + g i\<rparr> else sn) \<lparr>sn_total = 0, sn_failures = 0\<rparr> [0..<n]
   = \<lparr>sn_total = (\<Sum>i < n. if P i then f i else 0), sn_failures = (\<Sum>i < n. if P i then g i else 0)\<rparr>"
  by (induction n) auto

text \<open>Of the seconds a snapshot covers there is one for each bucket, and the bucket holds that second.\<close>

lemma bucket_part:
  assumes bk: "bucket_ok xs n i e tot bad" and x: "x \<in> set xs" "0 < n" "\<And>y. y \<in> set xs \<Longrightarrow> 0 \<le> second_of y \<and> second_of y \<le> m"
  shows "(m - int n < second_of x \<and> second_of x mod int n = int i) \<longleftrightarrow> (m - int n + 1 \<le> e \<and> second_of x = e)"
proof
  assume l: "m - int n < second_of x \<and> second_of x mod int n = int i"
  then have le: "second_of x \<le> e" using bk x(1) unfolding bucket_ok_def by blast
  then have "e \<in> second_of ` set xs" "e mod int n = int i" using bk x(3) [OF x(1)] unfolding bucket_ok_def by auto
  then have "int n dvd e - second_of x" "e \<le> m" using l x(3) by (auto simp: mod_eq_dvd_iff [symmetric])
  then have "e = second_of x" using le l zdvd_imp_le [of "int n" "e - second_of x"] by linarith
  then show "m - int n + 1 \<le> e \<and> second_of x = e" using l by linarith
next
  assume r: "m - int n + 1 \<le> e \<and> second_of x = e"
  then have "e mod int n = int i" using bk x(3) [OF x(1)] unfolding bucket_ok_def by auto
  then show "m - int n < second_of x \<and> second_of x mod int n = int i" using r by simp
qed

lemma time_snapshot_counts:
  assumes cov: "time_covers xs w" and tm: "timely xs now"
  shows "time_snapshot w now = counted (last_seconds (tw_n w) xs now)"
proof -
  let ?n = "tw_n w" and ?m = "py_int now"
  have n: "0 < ?n" using cov by (simp add: time_covers_def)
  have sec: "0 \<le> second_of y \<and> second_of y \<le> ?m" if "y \<in> set xs" for y
    using tm that by (auto simp: timely_def intro: py_int_nonneg py_int_mono)
  have bk: "bucket_ok xs ?n i (tw_epoch w ! i) (tw_totals w ! i) (tw_failures w ! i)" if "i < ?n" for i
    using cov that by (simp add: time_covers_def)
  have sel: "filter (\<lambda>x. (?m - int ?n < second_of x \<and> Q x) \<and> second_of x mod int ?n = int i) xs
      = (if ?m - int ?n + 1 \<le> tw_epoch w ! i then filter (\<lambda>x. second_of x = tw_epoch w ! i \<and> Q x) xs else [])"
    if "i < ?n" for i Q
    using bucket_part [OF bk [OF that] _ n sec] by (auto simp: filter_empty_conv intro!: filter_cong)
  have tot: "length (filter (\<lambda>x. ?m - int ?n < second_of x \<and> True) xs) = (\<Sum>i < ?n. if ?m - int ?n + 1 \<le> tw_epoch w ! i then tw_totals w ! i else 0)"
    by (subst filter_by_residue [OF n, where h = second_of], rule sum.cong) (use bk in \<open>simp_all only: sel lessThan_iff, auto simp: bucket_ok_def\<close>)
  have bad: "length (filter (\<lambda>x. ?m - int ?n < second_of x \<and> \<not> fst x) xs) = (\<Sum>i < ?n. if ?m - int ?n + 1 \<le> tw_epoch w ! i then tw_failures w ! i else 0)"
    by (subst filter_by_residue [OF n, where h = second_of], rule sum.cong) (use bk in \<open>simp_all only: sel lessThan_iff, auto simp: bucket_ok_def\<close>)
  show ?thesis
    using tot bad by (simp add: time_snapshot_def Let_def snapshot_sum counted_def last_seconds_def conj_commute)
qed

definition seconds_part :: "time_window \<Rightarrow> outcome_log \<Rightarrow> rat \<Rightarrow> outcome_log" where
  "seconds_part w = last_seconds (tw_n w)"

interpretation time_window: outcome_window time_covers seconds_part time_record time_snapshot time_reset
proof unfold_locales
  fix xs w
  assume "time_covers xs w"
  then show "time_covers [] (time_reset w)" by (auto simp: time_covers_def time_reset_def bucket_ok_def)
next
  fix xs w b and now :: rat
  assume "time_covers xs w" "timely xs now"
  then show "time_covers (xs @ [(b, now)]) (time_record w b now)" by (rule time_record_covers)
next
  fix xs w and now :: rat
  assume "time_covers xs w" "timely xs now"
  then show "time_snapshot w now = counted (seconds_part w xs now)" by (simp add: time_snapshot_counts seconds_part_def)
next
  fix w b and now :: rat
  show "seconds_part (time_record w b now) = seconds_part w" by (simp add: seconds_part_def time_record_def Let_def)
  show "seconds_part (time_reset w) = seconds_part w" by (simp add: seconds_part_def time_reset_def)
qed

section \<open>Either window\<close>

fun window_covers :: "outcome_log \<Rightarrow> sliding_window \<Rightarrow> bool" where
  "window_covers xs (CountBasedWindow w) = count_covers xs w"
| "window_covers xs (TimeBasedWindow w) = time_covers xs w"

fun window_part :: "sliding_window \<Rightarrow> outcome_log \<Rightarrow> rat \<Rightarrow> outcome_log" where
  "window_part (CountBasedWindow w) = calls_part w"
| "window_part (TimeBasedWindow w) = seconds_part w"

interpretation sliding_window: outcome_window window_covers window_part record_outcome window_snapshot_at window_reset
proof unfold_locales
  fix xs w b and now :: rat
  show "window_covers xs w \<Longrightarrow> window_covers [] (window_reset w)"
    by (cases w) (auto intro: count_window.reset_covers time_window.reset_covers)
  show "window_covers xs w \<Longrightarrow> timely xs now \<Longrightarrow> window_covers (xs @ [(b, now)]) (record_outcome w b now)"
    by (cases w) (auto intro: count_window.rec_covers time_window.rec_covers)
  show "window_covers xs w \<Longrightarrow> timely xs now \<Longrightarrow> window_snapshot_at w now = counted (window_part w xs now)"
    by (cases w) (auto intro: count_window.snap_counts time_window.snap_counts)
  show "window_part (record_outcome w b now) = window_part w" by (cases w) (simp_all add: count_window.part_rec time_window.part_rec)
  show "window_part (window_reset w) = window_part w" by (cases w) (simp_all add: count_window.part_reset time_window.part_reset)
qed

lemma count_covers_new: "new_count_window n = Inr w \<Longrightarrow> count_covers [] w \<and> count_reset w = w \<and> cw_size w = nat n"
  by (auto simp: new_count_window_def count_covers_def count_reset_def last_calls_def split: if_splits)

lemma time_covers_new: "new_time_window n = Inr w \<Longrightarrow> time_covers [] w \<and> time_reset w = w \<and> tw_n w = nat n"
  by (auto simp: new_time_window_def time_covers_def time_reset_def bucket_ok_def split: if_splits)

section \<open>Properties\<close>

text \<open>
  After any sequence of outcomes recorded at non-decreasing times, the ring buffer with running totals gives
  exactly the number of calls and of failures among the last n outcomes, and the per-second buckets give exactly
  those among the outcomes of the last n whole seconds.
\<close>
theorem window_snapshots_exact:
  assumes "new_count_window n = Inr w" "new_time_window n = Inr v"
    and "sorted (map snd (xs @ [(b, now)]))" "\<forall>x \<in> set (xs @ [(b, now)]). 0 \<le> snd x"
  shows "count_snapshot (foldl (\<lambda>w x. count_record w (fst x) (snd x)) w xs) now = counted (drop (length xs - nat n) xs)
    \<and> time_snapshot (foldl (\<lambda>v x. time_record v (fst x) (snd x)) v xs) now
      = counted (filter (\<lambda>x. py_int now - n < py_int (snd x)) xs)"
proof -
  note w = count_covers_new [OF assms(1)] and v = time_covers_new [OF assms(2)]
  have n: "int (nat n) = n" using assms(1) by (simp add: new_count_window_def split: if_splits)
  show ?thesis
    using count_window.snap_all [OF conjunct1 [OF w] assms(3,4)] time_window.snap_all [OF conjunct1 [OF v] assms(3,4)] w v n
    by (simp add: calls_part_def last_calls_def seconds_part_def last_seconds_def)
qed

theorem window_snapshots_exact_witness:
  "time_snapshot (foldl (\<lambda>v x. time_record v (fst x) (snd x)) (time_reset \<lparr>tw_n = 2, tw_epoch = [], tw_totals = [], tw_failures = []\<rparr>)
      [(False, 1 / 2), (False, 3 / 2), (True, 7 / 4), (False, 2)]) (5 / 2) = \<lparr>sn_total = 3, sn_failures = 2\<rparr>
   \<and> count_snapshot (foldl (\<lambda>w x. count_record w (fst x) (snd x)) (count_reset \<lparr>cw_size = 2, cw_ring = [], cw_idx = 0, cw_total = 0, cw_failures = 0\<rparr>)
      [(False, 1 / 2), (False, 3 / 2), (True, 7 / 4), (False, 2)]) (5 / 2) = \<lparr>sn_total = 2, sn_failures = 1\<rparr>"
proof -
  let ?xs = "[(False, 1 / 2), (False, 3 / 2), (True, 7 / 4), (False, 2 :: rat)]"
  have "filter (\<lambda>x. py_int (5 / 2) - 2 < py_int (snd x)) ?xs = [(False, 3 / 2), (True, 7 / 4), (False, 2)]" by code_simp
  moreover have "new_time_window 2 = Inr (time_reset \<lparr>tw_n = 2, tw_epoch = [], tw_totals = [], tw_failures = []\<rparr>)"
    "new_count_window 2 = Inr (count_reset \<lparr>cw_size = 2, cw_ring = [], cw_idx = 0, cw_total = 0, cw_failures = 0\<rparr>)"
    by (simp_all add: new_time_window_def new_count_window_def)
  moreover have "sorted (map snd (?xs @ [(True, 5 / 2)]))" "\<forall>x \<in> set (?xs @ [(True, 5 / 2)]). 0 \<le> snd x" by simp_all
  ultimately show ?thesis using window_snapshots_exact [of 2 _ _ ?xs True "5 / 2"] by (simp add: counted_def)
qed

end
