(* ===== verification/Circuit_Breaker.thy ===== *)
theory Circuit_Breaker
  imports Sliding_Window "HOL-Library.Multiset"
begin

text \<open>
  \<open>CircuitBreaker\<close> of \<open>circuit_breaker.py\<close>: the CLOSED, OPEN, HALF_OPEN machine over a sliding window, permits that
  carry the generation they were issued under, and the transitions reported to the listeners. A critical section of
  the code is one operation; the readings of the clock inside one operation are separate arguments, in the order the
  code takes them. The step relation \<open>cb_step\<close> interleaves the callers of one breaker in any order.
\<close>

section \<open>The breaker\<close>

datatype CircuitState = CLOSED | OPEN | HALF_OPEN

datatype WindowType = COUNT | TIME

text \<open>The exceptions that the library raises or tells apart; \<open>Other_Error\<close> is any other subclass of \<open>Exception\<close>.\<close>

datatype exn =
    Value_Error | Type_Error | Key_Error | Connection_Error | Timeout_Error
  | CallNotPermittedError CircuitState rat | BulkheadFullError | CallTimeoutError | RetryBudgetExhaustedError
  | Other_Error | Keyboard_Interrupt

definition default_is_failure :: "exn \<Rightarrow> bool" where
  "default_is_failure e \<longleftrightarrow> e \<notin> {Value_Error, Type_Error, Key_Error, BulkheadFullError}"

record cb_config =
  cf_threshold :: rat
  cf_window_type :: WindowType
  cf_window_size :: int
  cf_minimum_calls :: int
  cf_open_duration :: rat
  cf_half_open_max :: int
  cf_is_failure :: "exn \<Rightarrow> bool"

definition check_config :: "cb_config \<Rightarrow> py_error + cb_config" where
  "check_config c =
     (if \<not> (0 < cf_threshold c \<and> cf_threshold c \<le> 1) then Inl ValueError
      else if cf_minimum_calls c < 1 \<or> cf_half_open_max c < 1 \<or> cf_open_duration c < 0 then Inl ValueError
      else Inr c)"

definition default_config :: cb_config where
  "default_config = \<lparr>cf_threshold = 1 / 2, cf_window_type = COUNT, cf_window_size = 20, cf_minimum_calls = 10,
     cf_open_duration = 30, cf_half_open_max = 3, cf_is_failure = default_is_failure\<rparr>"

record permit =
  pt_generation :: nat
  pt_state :: CircuitState

record breaker =
  br_config :: cb_config
  br_window :: sliding_window
  br_state :: CircuitState
  br_generation :: nat
  br_opened_at :: rat
  br_probes_issued :: int
  br_probe_successes :: int

type_synonym transitions = "(CircuitState \<times> CircuitState) list"

definition new_window :: "cb_config \<Rightarrow> py_error + sliding_window" where
  "new_window c =
     (if cf_window_type c = COUNT then map_sum id CountBasedWindow (new_count_window (cf_window_size c))
      else map_sum id TimeBasedWindow (new_time_window (cf_window_size c)))"

definition new_breaker :: "cb_config \<Rightarrow> py_error + breaker" where
  "new_breaker config =
     bind_sum (check_config config) (\<lambda>c. bind_sum (new_window c) (\<lambda>w.
       Inr \<lparr>br_config = c, br_window = w, br_state = CLOSED, br_generation = 0, br_opened_at = 0,
            br_probes_issued = 0, br_probe_successes = 0\<rparr>))"

definition transition :: "breaker \<Rightarrow> CircuitState \<Rightarrow> rat \<Rightarrow> breaker \<times> transitions" where
  "transition b new now =
     (let old = br_state b;
          b1 = b\<lparr>br_state := new, br_generation := br_generation b + 1, br_probes_issued := 0, br_probe_successes := 0\<rparr>;
          b2 = (if new = OPEN then b1\<lparr>br_opened_at := now\<rparr> else b1);
          b3 = (if new = CLOSED then b2\<lparr>br_window := window_reset (br_window b2)\<rparr> else b2)
      in (b3, if old \<noteq> new then [(old, new)] else []))"

definition maybe_half_open :: "breaker \<Rightarrow> rat \<Rightarrow> breaker \<times> transitions" where
  "maybe_half_open b now =
     (if br_state b = OPEN \<and> cf_open_duration (br_config b) \<le> now - br_opened_at b
      then transition b HALF_OPEN now else (b, []))"

definition current_state :: "breaker \<Rightarrow> rat \<Rightarrow> breaker \<times> transitions \<times> CircuitState" where
  "current_state b now = (case maybe_half_open b now of (b1, tr) \<Rightarrow> (b1, tr, br_state b1))"

definition metrics :: "breaker \<Rightarrow> rat \<Rightarrow> window_snapshot" where
  "metrics b now = window_snapshot_at (br_window b) now"

definition acquire :: "breaker \<Rightarrow> rat \<Rightarrow> rat \<Rightarrow> breaker \<times> transitions \<times> (exn + permit)" where
  "acquire b now1 now2 =
     (case maybe_half_open b now1 of (b1, tr) \<Rightarrow>
        if br_state b1 = CLOSED then (b1, tr, Inr \<lparr>pt_generation = br_generation b1, pt_state = br_state b1\<rparr>)
        else if br_state b1 = HALF_OPEN \<and> br_probes_issued b1 < cf_half_open_max (br_config b1)
        then (b1\<lparr>br_probes_issued := br_probes_issued b1 + 1\<rparr>, tr, Inr \<lparr>pt_generation = br_generation b1, pt_state = br_state b1\<rparr>)
        else (b1, tr, Inl (CallNotPermittedError (br_state b1)
                (if br_state b1 = OPEN then max 0 (br_opened_at b1 + cf_open_duration (br_config b1) - now2) else 0))))"

definition on_result :: "breaker \<Rightarrow> permit \<Rightarrow> bool \<Rightarrow> rat \<Rightarrow> rat \<Rightarrow> breaker \<times> transitions" where
  "on_result b p success now now2 =
     (if pt_generation p \<noteq> br_generation b then (b, [])
      else if br_state b = CLOSED then
        (let w = record_outcome (br_window b) success now;
             sn = window_snapshot_at w now;
             b1 = b\<lparr>br_window := w\<rparr>
         in if cf_minimum_calls (br_config b) \<le> int (sn_total sn) \<and> cf_threshold (br_config b) \<le> failure_rate sn
            then transition b1 OPEN now2 else (b1, []))
      else if br_state b = HALF_OPEN then
        (if \<not> success then transition b OPEN now2
         else (let b1 = b\<lparr>br_probe_successes := br_probe_successes b + 1\<rparr>
               in if cf_half_open_max (br_config b) \<le> br_probe_successes b1 then transition b1 CLOSED now2 else (b1, [])))
      else (b, []))"

definition release :: "breaker \<Rightarrow> permit \<Rightarrow> breaker" where
  "release b p =
     (if pt_generation p = br_generation b \<and> br_state b = HALF_OPEN then b\<lparr>br_probes_issued := br_probes_issued b - 1\<rparr> else b)"

definition on_success :: "breaker \<Rightarrow> permit \<Rightarrow> rat \<Rightarrow> rat \<Rightarrow> breaker \<times> transitions" where
  "on_success b p now now2 = on_result b p True now now2"

definition on_error :: "breaker \<Rightarrow> permit \<Rightarrow> exn \<Rightarrow> rat \<Rightarrow> rat \<Rightarrow> breaker \<times> transitions" where
  "on_error b p e now now2 =
     (if cf_is_failure (br_config b) e then on_result b p False now now2 else (release b p, []))"

definition breaker_reset :: "breaker \<Rightarrow> rat \<Rightarrow> breaker \<times> transitions" where
  "breaker_reset b now = transition b CLOSED now"

section \<open>Many callers\<close>

text \<open>
  The permits that callers hold (\<open>call\<close> returns every permit exactly once, through \<open>on_success\<close> or \<open>on_error\<close>), the
  last reading of the clock, and the log of the outcomes the breaker has been told since it last became CLOSED.
\<close>

record sys =
  sy_breaker :: breaker
  sy_permits :: "permit multiset"
  sy_log :: outcome_log
  sy_now :: rat

definition log_next :: "breaker \<Rightarrow> breaker \<Rightarrow> permit \<Rightarrow> bool \<Rightarrow> rat \<Rightarrow> outcome_log \<Rightarrow> outcome_log" where
  "log_next b b1 p success now xs =
     (if br_state b1 = CLOSED \<and> br_generation b1 \<noteq> br_generation b then []
      else if pt_generation p = br_generation b \<and> br_state b = CLOSED then xs @ [(success, now)]
      else xs)"

datatype cb_op = Granted permit | Refused exn | Succeeded permit | Errored permit exn | Reset | ReadState

inductive cb_step :: "sys \<Rightarrow> cb_op \<Rightarrow> sys \<Rightarrow> bool" where
  granted: "sy_now s \<le> t1 \<Longrightarrow> t1 \<le> t2 \<Longrightarrow> acquire (sy_breaker s) t1 t2 = (b1, tr, Inr p)
    \<Longrightarrow> cb_step s (Granted p) (s\<lparr>sy_breaker := b1, sy_permits := add_mset p (sy_permits s), sy_now := t2\<rparr>)"
| refused: "sy_now s \<le> t1 \<Longrightarrow> t1 \<le> t2 \<Longrightarrow> acquire (sy_breaker s) t1 t2 = (b1, tr, Inl e)
    \<Longrightarrow> cb_step s (Refused e) (s\<lparr>sy_breaker := b1, sy_now := t2\<rparr>)"
| succeeded: "sy_now s \<le> t1 \<Longrightarrow> t1 \<le> t2 \<Longrightarrow> sy_permits s = add_mset p ps \<Longrightarrow> on_success (sy_breaker s) p t1 t2 = (b1, tr)
    \<Longrightarrow> cb_step s (Succeeded p) (s\<lparr>sy_breaker := b1, sy_permits := ps, sy_log := log_next (sy_breaker s) b1 p True t1 (sy_log s), sy_now := t2\<rparr>)"
| failed: "sy_now s \<le> t1 \<Longrightarrow> t1 \<le> t2 \<Longrightarrow> sy_permits s = add_mset p ps \<Longrightarrow> cf_is_failure (br_config (sy_breaker s)) e
    \<Longrightarrow> on_error (sy_breaker s) p e t1 t2 = (b1, tr)
    \<Longrightarrow> cb_step s (Errored p e) (s\<lparr>sy_breaker := b1, sy_permits := ps, sy_log := log_next (sy_breaker s) b1 p False t1 (sy_log s), sy_now := t2\<rparr>)"
| ignored: "sy_now s \<le> t1 \<Longrightarrow> t1 \<le> t2 \<Longrightarrow> sy_permits s = add_mset p ps \<Longrightarrow> \<not> cf_is_failure (br_config (sy_breaker s)) e
    \<Longrightarrow> on_error (sy_breaker s) p e t1 t2 = (b1, tr)
    \<Longrightarrow> cb_step s (Errored p e) (s\<lparr>sy_breaker := b1, sy_permits := ps, sy_now := t2\<rparr>)"
| reset: "sy_now s \<le> t1 \<Longrightarrow> breaker_reset (sy_breaker s) t1 = (b1, tr) \<Longrightarrow> cb_step s Reset (s\<lparr>sy_breaker := b1, sy_log := [], sy_now := t1\<rparr>)"
| read_state: "sy_now s \<le> t1 \<Longrightarrow> current_state (sy_breaker s) t1 = (b1, tr, st) \<Longrightarrow> cb_step s ReadState (s\<lparr>sy_breaker := b1, sy_now := t1\<rparr>)"

inductive cb_run :: "sys \<Rightarrow> cb_op list \<Rightarrow> sys \<Rightarrow> bool" where
  stop: "cb_run s [] s"
| go: "cb_step s op s1 \<Longrightarrow> cb_run s1 ops s2 \<Longrightarrow> cb_run s (op # ops) s2"

definition cb_start :: "breaker \<Rightarrow> rat \<Rightarrow> sys" where
  "cb_start b t = \<lparr>sy_breaker = b, sy_permits = {#}, sy_log = [], sy_now = t\<rparr>"

section \<open>The invariant\<close>

text \<open>The permits of the current generation; in HALF_OPEN they are the probes still running.\<close>

definition current_permits :: "breaker \<Rightarrow> permit multiset \<Rightarrow> permit multiset" where
  "current_permits b ps = filter_mset (\<lambda>p. pt_generation p = br_generation b) ps"

definition probes_ok :: "breaker \<Rightarrow> permit multiset \<Rightarrow> bool" where
  "probes_ok b ps \<longleftrightarrow> 1 \<le> cf_half_open_max (br_config b) \<and> (\<forall>p \<in># ps. pt_generation p \<le> br_generation b)
     \<and> (br_state b = HALF_OPEN \<longrightarrow> br_probes_issued b = br_probe_successes b + int (size (current_permits b ps))
          \<and> 0 \<le> br_probe_successes b \<and> br_probe_successes b < cf_half_open_max (br_config b) \<and> br_probes_issued b \<le> cf_half_open_max (br_config b))
     \<and> (br_state b = OPEN \<longrightarrow> current_permits b ps = {#})"

definition cb_ok :: "sys \<Rightarrow> bool" where
  "cb_ok s \<longleftrightarrow> probes_ok (sy_breaker s) (sy_permits s) \<and> window_covers (sy_log s) (br_window (sy_breaker s)) \<and> timely (sy_log s) (sy_now s)"

inductive_cases cb_stepE: "cb_step s op s1"

lemma transition_simps [simp]:
  "br_config (fst (transition b st t)) = br_config b" "br_state (fst (transition b st t)) = st"
  "br_generation (fst (transition b st t)) = Suc (br_generation b)"
  "br_probes_issued (fst (transition b st t)) = 0" "br_probe_successes (fst (transition b st t)) = 0"
  "br_window (fst (transition b st t)) = (if st = CLOSED then window_reset (br_window b) else br_window b)"
  "br_opened_at (fst (transition b st t)) = (if st = OPEN then t else br_opened_at b)"
  by (simp_all add: transition_def Let_def)

lemma no_current: "(\<forall>p \<in># ps. pt_generation p \<le> br_generation b) \<Longrightarrow> br_generation b1 = Suc (br_generation b) \<Longrightarrow> current_permits b1 ps = {#}"
  by (auto simp: current_permits_def)

lemma probes_transition: "probes_ok b ps \<Longrightarrow> probes_ok (fst (transition b st t)) ps"
  using no_current [of ps b "fst (transition b st t)"] by (auto simp: probes_ok_def le_Suc_eq)

lemma probes_maybe: "probes_ok b ps \<Longrightarrow> probes_ok (fst (maybe_half_open b t)) ps"
  by (simp add: maybe_half_open_def probes_transition)

lemma probes_subset: "probes_ok b (add_mset p ps) \<Longrightarrow> br_state b \<noteq> HALF_OPEN \<or> pt_generation p \<noteq> br_generation b \<Longrightarrow> probes_ok b ps"
  by (auto simp: probes_ok_def current_permits_def split: if_splits)

lemma probes_frame:
  "probes_ok b ps \<Longrightarrow> br_config b1 = br_config b \<Longrightarrow> br_generation b1 = br_generation b \<Longrightarrow> br_state b1 = br_state b
   \<Longrightarrow> br_probes_issued b1 = br_probes_issued b \<Longrightarrow> br_probe_successes b1 = br_probe_successes b \<Longrightarrow> probes_ok b1 ps"
  by (auto simp: probes_ok_def current_permits_def)

lemma probes_acquire:
  assumes "probes_ok b ps" "acquire b t1 t2 = (b1, tr, r)"
  shows "probes_ok b1 (case r of Inl e \<Rightarrow> ps | Inr p \<Rightarrow> add_mset p ps)"
proof -
  obtain b2 tr2 where b2: "maybe_half_open b t1 = (b2, tr2)" by fastforce
  have "probes_ok b2 ps" using probes_maybe [OF assms(1), of t1] b2 by simp
  then show ?thesis using assms(2) b2 unfolding acquire_def
    by (auto simp: probes_ok_def current_permits_def split: if_splits)
qed

lemma probes_result:
  assumes ok: "probes_ok b (add_mset p ps)"
  shows "probes_ok (fst (on_result b p success t1 t2)) ps"
proof -
  consider (stale) "pt_generation p \<noteq> br_generation b" | (closed) "pt_generation p = br_generation b" "br_state b = CLOSED"
    | (half) "pt_generation p = br_generation b" "br_state b = HALF_OPEN" | (openp) "pt_generation p = br_generation b" "br_state b = OPEN"
    by (cases "br_state b") auto
  then show ?thesis
  proof cases
    case stale
    then show ?thesis using probes_subset [OF ok] by (simp add: on_result_def)
  next
    case closed
    then have "probes_ok b ps" using probes_subset [OF ok] by simp
    then have "probes_ok (b\<lparr>br_window := w\<rparr>) ps" for w by (rule probes_frame) simp_all
    then show ?thesis using closed by (simp add: on_result_def Let_def probes_transition)
  next
    case half
    have bump: "probes_ok (b\<lparr>br_probe_successes := br_probe_successes b + 1\<rparr>) ps" if "br_probe_successes b + 1 < cf_half_open_max (br_config b)"
      using ok half that by (auto simp: probes_ok_def current_permits_def)
    have gen: "1 \<le> cf_half_open_max (br_config b) \<and> (\<forall>p \<in># ps. pt_generation p \<le> br_generation b)" using ok by (auto simp: probes_ok_def)
    have "probes_ok (fst (transition b' st t2)) ps" if "br_config b' = br_config b" "br_generation b' = br_generation b" "st \<noteq> HALF_OPEN" for b' st
      using gen that no_current [of ps b "fst (transition b' st t2)"] by (auto simp: probes_ok_def le_Suc_eq)
    then show ?thesis using half bump by (simp add: on_result_def Let_def)
  next
    case openp
    then show ?thesis using probes_subset [OF ok] by (simp add: on_result_def)
  qed
qed

lemma probes_release: "probes_ok b (add_mset p ps) \<Longrightarrow> probes_ok (release b p) ps"
  by (auto simp: probes_ok_def current_permits_def release_def)

lemma maybe_window:
  "br_window (fst (maybe_half_open b t)) = br_window b" "br_config (fst (maybe_half_open b t)) = br_config b"
  by (simp_all add: maybe_half_open_def)

lemma acquire_window: "acquire b t1 t2 = (b1, tr, r) \<Longrightarrow> br_window b1 = br_window b \<and> br_config b1 = br_config b"
  using maybe_window [of b t1] by (cases "maybe_half_open b t1") (auto simp: acquire_def split: if_splits)

lemma state_window:
  "current_state b t1 = (b1, tr, st) \<Longrightarrow> b1 = fst (maybe_half_open b t1) \<and> br_window b1 = br_window b \<and> br_config b1 = br_config b"
  using maybe_window [of b t1] by (cases "maybe_half_open b t1") (auto simp: current_state_def)

lemma result_config: "br_config (fst (on_result b p ok t1 t2)) = br_config b"
  by (simp add: on_result_def Let_def)

lemma timely_mono: "timely xs t \<Longrightarrow> t \<le> u \<Longrightarrow> timely xs u"
  by (force simp: timely_def)

lemma result_window:
  assumes "window_covers xs (br_window b)" "timely xs t1" "t1 \<le> t2" "on_result b p ok t1 t2 = (b1, tr)"
  shows "window_covers (log_next b b1 p ok t1 xs) (br_window b1) \<and> timely (log_next b b1 p ok t1 xs) t2"
proof -
  have b1: "b1 = fst (on_result b p ok t1 t2)" using assms(4) by simp
  have "timely [] t2" "timely xs t2" "timely (xs @ [(ok, t1)]) t2" using assms(2,3) by (force simp: timely_def)+
  moreover note sliding_window.reset_covers [OF assms(1)] sliding_window.rec_covers [OF assms(1,2), of ok] assms(1)
  ultimately show ?thesis unfolding b1 by (auto simp: on_result_def Let_def log_next_def)
qed

lemma cb_step_ok: "cb_step s op s1 \<Longrightarrow> cb_ok s \<Longrightarrow> cb_ok s1"
proof (induction rule: cb_step.induct)
  case (granted s t1 t2 b1 tr p)
  then show ?case using probes_acquire [OF _ granted(3), of "sy_permits s"] acquire_window [OF granted(3)]
    by (auto simp: cb_ok_def intro: timely_mono)
next
  case (refused s t1 t2 b1 tr e)
  then show ?case using probes_acquire [OF _ refused(3), of "sy_permits s"] acquire_window [OF refused(3)]
    by (auto simp: cb_ok_def intro: timely_mono)
next
  case (succeeded s t1 t2 p ps b1 tr)
  have "timely (sy_log s) t1" using succeeded by (auto simp: cb_ok_def intro: timely_mono)
  then show ?case using succeeded probes_result [of "sy_breaker s" p ps True t1 t2]
      result_window [of "sy_log s" "sy_breaker s" t1 t2 p True b1 tr] by (auto simp: cb_ok_def on_success_def)
next
  case (failed s t1 t2 p ps e b1 tr)
  have "timely (sy_log s) t1" using failed by (auto simp: cb_ok_def intro: timely_mono)
  then show ?case using failed probes_result [of "sy_breaker s" p ps False t1 t2]
      result_window [of "sy_log s" "sy_breaker s" t1 t2 p False b1 tr] by (auto simp: cb_ok_def on_error_def)
next
  case (ignored s t1 t2 p ps e b1 tr)
  then have "b1 = release (sy_breaker s) p" by (simp add: on_error_def)
  then show ?case using ignored probes_release [of "sy_breaker s" p ps]
    by (auto simp: cb_ok_def release_def split: if_splits intro: timely_mono)
next
  case (reset s t1 b1 tr)
  have b1: "b1 = fst (transition (sy_breaker s) CLOSED t1)" using reset(2) by (simp add: breaker_reset_def)
  have "timely [] t1" using reset by (auto simp: cb_ok_def timely_def)
  then show ?case using reset probes_transition [of "sy_breaker s" "sy_permits s" CLOSED t1]
      sliding_window.reset_covers [of "sy_log s" "br_window (sy_breaker s)"] by (simp add: cb_ok_def b1)
next
  case (read_state s t1 b1 tr st)
  then show ?case using probes_maybe [of "sy_breaker s" "sy_permits s" t1] state_window [OF read_state(2)]
    by (auto simp: cb_ok_def intro: timely_mono)
qed

lemma cb_run_ok: "cb_run s ops s1 \<Longrightarrow> cb_ok s \<Longrightarrow> cb_ok s1"
  by (induction rule: cb_run.induct) (auto dest: cb_step_ok)

lemma cb_step_config: "cb_step s op s1 \<Longrightarrow> br_config (sy_breaker s1) = br_config (sy_breaker s) \<and> window_part (br_window (sy_breaker s1)) = window_part (br_window (sy_breaker s)) \<and> sy_now s \<le> sy_now s1"
proof (induction rule: cb_step.induct)
  case (granted s t1 t2 b1 tr p)
  then show ?case using acquire_window [OF granted(3)] by simp
next
  case (refused s t1 t2 b1 tr e)
  then show ?case using acquire_window [OF refused(3)] by simp
next
  case (succeeded s t1 t2 p ps b1 tr)
  then have "b1 = fst (on_result (sy_breaker s) p True t1 t2)" by (simp add: on_success_def)
  then show ?case using succeeded
    by (simp add: result_config) (simp add: on_result_def Let_def sliding_window.part_rec sliding_window.part_reset)
next
  case (failed s t1 t2 p ps e b1 tr)
  then have "b1 = fst (on_result (sy_breaker s) p False t1 t2)" by (simp add: on_error_def)
  then show ?case using failed
    by (simp add: result_config) (simp add: on_result_def Let_def sliding_window.part_rec sliding_window.part_reset)
next
  case (ignored s t1 t2 p ps e b1 tr)
  then show ?case by (auto simp: on_error_def release_def split: if_splits)
next
  case (reset s t1 b1 tr)
  then have "b1 = fst (transition (sy_breaker s) CLOSED t1)" by (simp add: breaker_reset_def)
  then show ?case using reset by (simp add: sliding_window.part_reset)
next
  case (read_state s t1 b1 tr st)
  then show ?case using state_window [OF read_state(2)] by auto
qed

lemma cb_run_config:
  "cb_run s ops s1 \<Longrightarrow> br_config (sy_breaker s1) = br_config (sy_breaker s) \<and> window_part (br_window (sy_breaker s1)) = window_part (br_window (sy_breaker s)) \<and> sy_now s \<le> sy_now s1"
  by (induction rule: cb_run.induct) (auto dest: cb_step_config)

text \<open>The part of the outcome log that a configuration looks at.\<close>

definition config_part :: "cb_config \<Rightarrow> outcome_log \<Rightarrow> rat \<Rightarrow> outcome_log" where
  "config_part c = (case cf_window_type c of COUNT \<Rightarrow> last_calls (nat (cf_window_size c)) | TIME \<Rightarrow> last_seconds (nat (cf_window_size c)))"

lemma cb_start_ok:
  assumes "new_breaker c = Inr b" "0 \<le> t"
  shows "cb_ok (cb_start b t) \<and> br_config b = c \<and> window_part (br_window b) = config_part c"
proof -
  obtain w where w: "new_window c = Inr w" and b: "b = \<lparr>br_config = c, br_window = w, br_state = CLOSED, br_generation = 0, br_opened_at = 0, br_probes_issued = 0, br_probe_successes = 0\<rparr>"
    and h: "1 \<le> cf_half_open_max c"
    using assms(1) by (auto simp: new_breaker_def bind_sum_Inr check_config_def split: if_splits)
  have "window_covers [] w \<and> window_part w = config_part c"
    using w count_covers_new [of "cf_window_size c"] time_covers_new [of "cf_window_size c"]
    by (cases "cf_window_type c"; cases "new_count_window (cf_window_size c)"; cases "new_time_window (cf_window_size c)")
      (auto simp: new_window_def config_part_def calls_part_def seconds_part_def)
  then show ?thesis using assms(2) h by (simp add: b cb_ok_def cb_start_def probes_ok_def timely_def)
qed

lemma cb_run_append: "cb_run s xs s1 \<Longrightarrow> cb_run s1 ys s2 \<Longrightarrow> cb_run s (xs @ ys) s2"
  by (induction rule: cb_run.induct) (auto intro: cb_run.intros)

lemmas cb_reachable = cb_run_ok [OF _ conjunct1 [OF cb_start_ok]]

section \<open>While it is open\<close>

lemma open_step:
  assumes "cb_step s op s1" "br_state (sy_breaker s) = OPEN" "current_permits (sy_breaker s) (sy_permits s) = {#}"
    and "op \<noteq> Reset" "sy_now s1 < br_opened_at (sy_breaker s) + cf_open_duration (br_config (sy_breaker s))"
  shows "sy_breaker s1 = sy_breaker s \<and> current_permits (sy_breaker s1) (sy_permits s1) = {#} \<and> (\<forall>p. op \<noteq> Granted p)"
proof -
  have closed: "maybe_half_open (sy_breaker s) t = (sy_breaker s, [])" if "t \<le> sy_now s1" for t
    using that assms(5) by (simp add: maybe_half_open_def)
  have stale: "on_result (sy_breaker s) p ok t1 t2 = (sy_breaker s, [])" "release (sy_breaker s) p = sy_breaker s"
      "current_permits (sy_breaker s) ps = {#}"
    if "sy_permits s = add_mset p ps" for p ps ok t1 t2
    using assms(2,3) that by (auto simp: on_result_def release_def current_permits_def split: if_splits)
  from assms(1) show ?thesis
    by (rule cb_stepE) (use assms(2-4) closed stale in \<open>auto simp: acquire_def current_state_def on_success_def on_error_def\<close>)
qed

lemma open_run:
  assumes "cb_run s ops s1" "br_state (sy_breaker s) = OPEN" "current_permits (sy_breaker s) (sy_permits s) = {#}"
    and "Reset \<notin> set ops" "sy_now s1 < br_opened_at (sy_breaker s) + cf_open_duration (br_config (sy_breaker s))"
  shows "sy_breaker s1 = sy_breaker s \<and> (\<forall>p. Granted p \<notin> set ops)"
  using assms
proof (induction rule: cb_run.induct)
  case (go s op s1 ops s2)
  have "sy_now s1 \<le> sy_now s2" using cb_run_config [OF go(2)] by simp
  then have "sy_breaker s1 = sy_breaker s \<and> current_permits (sy_breaker s1) (sy_permits s1) = {#} \<and> (\<forall>p. op \<noteq> Granted p)"
    using go by (intro open_step) auto
  then show ?case using go by auto
qed simp

lemma never_opens_result:
  assumes "cb_ok s" "br_config (sy_breaker s) = c" "window_part (br_window (sy_breaker s)) = config_part c"
    and "cf_window_type c = COUNT" "cf_window_size c < cf_minimum_calls c" "br_state (sy_breaker s) = CLOSED" "sy_now s \<le> t1" "0 < cf_window_size c"
  shows "br_state (fst (on_result (sy_breaker s) p ok t1 t2)) = CLOSED"
proof -
  let ?b = "sy_breaker s" and ?w = "record_outcome (br_window (sy_breaker s)) ok t1"
  have tm: "timely (sy_log s) t1" "timely (sy_log s @ [(ok, t1)]) t1" using assms(1,7) by (auto simp: cb_ok_def timely_def)
  have "window_covers (sy_log s @ [(ok, t1)]) ?w" using assms(1) tm(1) by (auto simp: cb_ok_def intro: sliding_window.rec_covers)
  from sliding_window.snap_counts [OF this tm(2)]
  have "sn_total (window_snapshot_at ?w t1) \<le> nat (cf_window_size c)"
    by (simp add: sliding_window.part_rec assms(3,4) config_part_def counted_def last_calls_length)
  then have "\<not> cf_minimum_calls c \<le> int (sn_total (window_snapshot_at ?w t1))" using assms(5,8) by linarith
  then show ?thesis using assms(2,6) by (simp add: on_result_def Let_def)
qed

lemma never_opens_step:
  assumes st: "cb_step s op s1" and s: "br_state (sy_breaker s) = CLOSED" "cb_ok s" "br_config (sy_breaker s) = c"
      "window_part (br_window (sy_breaker s)) = config_part c"
    and c: "cf_window_type c = COUNT" "cf_window_size c < cf_minimum_calls c" "0 < cf_window_size c"
  shows "br_state (sy_breaker s1) = CLOSED"
proof -
  have "maybe_half_open (sy_breaker s) t = (sy_breaker s, [])" "br_state (release (sy_breaker s) p) = CLOSED" for t p
    using s(1) by (simp_all add: maybe_half_open_def release_def)
  moreover have "br_state b1 = CLOSED" if "on_result (sy_breaker s) p ok t1 t2 = (b1, tr)" "sy_now s \<le> t1" for p ok t1 t2 b1 tr
    using never_opens_result [OF s(2-4) c(1,2) s(1) that(2) c(3), of p ok t2] that(1) by simp
  moreover have "br_state b1 = CLOSED" if "transition (sy_breaker s) CLOSED t = (b1, tr)" for t b1 tr
    using transition_simps(2) [of "sy_breaker s" CLOSED t] that by simp
  ultimately show ?thesis using st s(1)
    by (auto simp: acquire_def current_state_def on_success_def on_error_def breaker_reset_def elim!: cb_stepE)
qed

text \<open>A small breaker: one failed call opens it for ten seconds, one successful probe closes it.\<close>

definition demo_config :: cb_config where
  "demo_config = \<lparr>cf_threshold = 1, cf_window_type = COUNT, cf_window_size = 1, cf_minimum_calls = 1,
     cf_open_duration = 10, cf_half_open_max = 1, cf_is_failure = default_is_failure\<rparr>"

definition demo_breaker :: "bool option \<Rightarrow> CircuitState \<Rightarrow> nat \<Rightarrow> rat \<Rightarrow> breaker" where
  "demo_breaker slot st gen at_time = \<lparr>br_config = demo_config,
     br_window = CountBasedWindow \<lparr>cw_size = 1, cw_ring = [slot], cw_idx = 0, cw_total = (if slot = None then 0 else 1), cw_failures = (if slot = Some False then 1 else 0)\<rparr>,
     br_state = st, br_generation = gen, br_opened_at = at_time, br_probes_issued = 0, br_probe_successes = 0\<rparr>"

definition demo_permit :: permit where
  "demo_permit = \<lparr>pt_generation = 0, pt_state = CLOSED\<rparr>"

lemma demo_new: "new_breaker demo_config = Inr (demo_breaker None CLOSED 0 0)"
  by (simp add: new_breaker_def check_config_def new_window_def new_count_window_def count_reset_def demo_config_def demo_breaker_def)

definition demo_open :: sys where
  "demo_open = \<lparr>sy_breaker = demo_breaker (Some False) OPEN 1 2, sy_permits = {#}, sy_log = [(False, 2)], sy_now = 2\<rparr>"

lemma demo_opens: "cb_run (cb_start (demo_breaker None CLOSED 0 0) 0) [Granted demo_permit, Errored demo_permit Connection_Error] demo_open"
proof -
  let ?b = "demo_breaker None CLOSED 0 0" and ?b1 = "demo_breaker (Some False) OPEN 1 2"
  let ?s = "\<lparr>sy_breaker = ?b, sy_permits = {#demo_permit#}, sy_log = [], sy_now = 1\<rparr>"
  have "acquire ?b 1 1 = (?b, [], Inr demo_permit)"
    by (simp add: acquire_def maybe_half_open_def demo_breaker_def demo_permit_def)
  then have g: "cb_step (cb_start ?b 0) (Granted demo_permit) ?s"
    using cb_step.granted [of "cb_start ?b 0" 1 1 ?b "[]" demo_permit] by (simp add: cb_start_def)
  have f: "cf_is_failure (br_config ?b) Connection_Error" by (simp add: demo_breaker_def demo_config_def default_is_failure_def)
  have "on_error ?b demo_permit Connection_Error 2 2 = (?b1, [(CLOSED, OPEN)])"
    using f by (simp add: on_error_def on_result_def demo_breaker_def demo_permit_def count_record_def Let_def count_snapshot_def failure_rate_def transition_def)
      (simp add: demo_config_def)
  then have "cb_step ?s (Errored demo_permit Connection_Error) demo_open"
    using cb_step.failed [of ?s 2 2 demo_permit "{#}" Connection_Error ?b1] f
    by (simp add: demo_open_def log_next_def demo_breaker_def demo_permit_def)
  with g show ?thesis by (blast intro: cb_run.intros)
qed

section \<open>Properties\<close>

text \<open>
  C21. In every state that callers of a new breaker can reach, in any interleaving: reporting an outcome on a current
  permit of a CLOSED breaker opens it exactly when, counting that outcome, the window (the last N calls, or the
  last N seconds, since the breaker last became CLOSED) has at least the minimum number of calls and its failure
  rate reaches the threshold.
\<close>

theorem breaker_trips_exactly:
  assumes "new_breaker c = Inr b0" "0 \<le> t0" "cb_run (cb_start b0 t0) ops s"
    and "br_state (sy_breaker s) = CLOSED" "pt_generation p = br_generation (sy_breaker s)" "sy_now s \<le> t1"
  shows "br_state (fst (on_result (sy_breaker s) p ok t1 t2)) = OPEN \<longleftrightarrow>
    (let xs = config_part c (sy_log s @ [(ok, t1)]) t1; bad = filter (\<lambda>x. \<not> fst x) xs
     in cf_minimum_calls c \<le> int (length xs) \<and> cf_threshold c * of_nat (length xs) \<le> of_nat (length bad))"
proof -
  note start = cb_start_ok [OF assms(1,2)]
  have ok: "cb_ok s" by (rule cb_reachable [OF assms(3,1,2)])
  have part: "window_part (br_window (sy_breaker s)) = config_part c" and cfg: "br_config (sy_breaker s) = c"
    using cb_run_config [OF assms(3)] start by (simp_all add: cb_start_def)
  have tm: "timely (sy_log s) t1" "timely (sy_log s @ [(ok, t1)]) t1"
    using ok assms(6) by (auto simp: cb_ok_def timely_def)
  have "window_covers (sy_log s @ [(ok, t1)]) (record_outcome (br_window (sy_breaker s)) ok t1)"
    using ok tm(1) by (auto simp: cb_ok_def intro: sliding_window.rec_covers)
  from sliding_window.snap_counts [OF this tm(2)]
  have snap: "window_snapshot_at (record_outcome (br_window (sy_breaker s)) ok t1) t1 = counted (config_part c (sy_log s @ [(ok, t1)]) t1)"
    by (simp add: sliding_window.part_rec part)
  have "1 \<le> cf_minimum_calls c" using assms(1) by (auto simp: new_breaker_def check_config_def bind_sum_Inr split: if_splits)
  then have "cf_minimum_calls c \<le> int n \<and> cf_threshold c \<le> (if n \<noteq> 0 then of_nat k / of_nat n else 0)
      \<longleftrightarrow> cf_minimum_calls c \<le> int n \<and> cf_threshold c * of_nat n \<le> of_nat k" for n k
    by (cases "n = 0") (auto simp: pos_le_divide_eq)
  then show ?thesis using assms(4,5) snap by (simp add: on_result_def Let_def cfg failure_rate_def counted_def)
qed

theorem breaker_trips_exactly_witness:
  "br_state (fst (on_result (demo_breaker None CLOSED 0 0) demo_permit False 1 1)) = OPEN"
  using breaker_trips_exactly [OF demo_new order.refl cb_run.stop, of demo_permit 1 False 1]
  by (simp add: cb_start_def demo_breaker_def demo_permit_def) (simp add: demo_config_def config_part_def last_calls_def Let_def)

text \<open>
  In every reachable HALF_OPEN state the probes issued are the successful ones plus those still running, and
  never more than allowed; so once no probe is running, the next caller gets one: a breaker cannot be stuck in
  HALF_OPEN with its slots used up, whatever the probes returned or raised.
\<close>

theorem half_open_not_stuck:
  assumes "new_breaker c = Inr b0" "0 \<le> t0" "cb_run (cb_start b0 t0) ops s" "br_state (sy_breaker s) = HALF_OPEN"
  shows "br_probes_issued (sy_breaker s) = br_probe_successes (sy_breaker s) + int (size (current_permits (sy_breaker s) (sy_permits s)))
    \<and> br_probes_issued (sy_breaker s) \<le> cf_half_open_max c
    \<and> (current_permits (sy_breaker s) (sy_permits s) = {#} \<longrightarrow>
        (\<exists>b1 tr. acquire (sy_breaker s) t1 t2 = (b1, tr, Inr \<lparr>pt_generation = br_generation (sy_breaker s), pt_state = HALF_OPEN\<rparr>)))"
proof -
  have ok: "cb_ok s" by (rule cb_reachable [OF assms(3,1,2)])
  have "br_config (sy_breaker s) = c" using cb_run_config [OF assms(3)] cb_start_ok [OF assms(1,2)] by (simp add: cb_start_def)
  then show ?thesis using ok assms(4) by (auto simp: cb_ok_def probes_ok_def acquire_def maybe_half_open_def)
qed

theorem half_open_not_stuck_witness:
  "\<exists>b1 tr. acquire (demo_breaker (Some False) HALF_OPEN 2 2) 13 13 = (b1, tr, Inr \<lparr>pt_generation = 2, pt_state = HALF_OPEN\<rparr>)"
proof -
  let ?b = "demo_breaker (Some False) HALF_OPEN 2 2"
  let ?s = "\<lparr>sy_breaker = ?b, sy_permits = {#}, sy_log = [(False, 2)], sy_now = 12\<rparr>"
  have "current_state (sy_breaker demo_open) 12 = (?b, [(OPEN, HALF_OPEN)], HALF_OPEN)"
    by (simp add: demo_open_def current_state_def maybe_half_open_def demo_breaker_def transition_def Let_def) (simp add: demo_config_def)
  from cb_step.read_state [OF _ this] have "cb_step demo_open ReadState ?s" by (simp add: demo_open_def)
  then have "cb_run demo_open [ReadState] ?s" by (blast intro: cb_run.intros)
  from cb_run_append [OF demo_opens this] have run: "cb_run (cb_start (demo_breaker None CLOSED 0 0) 0)
      ([Granted demo_permit, Errored demo_permit Connection_Error] @ [ReadState]) ?s" .
  from half_open_not_stuck [OF demo_new order.refl run, of 13 13] show ?thesis by (simp add: demo_breaker_def current_permits_def)
qed

text \<open>
  Once a breaker is OPEN, until its open duration has passed since it opened and unless an operator resets it, no
  caller is admitted and nothing callers do (finishing calls admitted earlier included) changes the breaker.
\<close>

theorem open_breaker_refuses:
  assumes "new_breaker c = Inr b0" "0 \<le> t0" "cb_run (cb_start b0 t0) ops s" "br_state (sy_breaker s) = OPEN"
    and "cb_run s later s1" "Reset \<notin> set later" "sy_now s1 < br_opened_at (sy_breaker s) + cf_open_duration c"
  shows "sy_breaker s1 = sy_breaker s \<and> (\<forall>p. Granted p \<notin> set later)"
proof -
  have ok: "cb_ok s" by (rule cb_reachable [OF assms(3,1,2)])
  have "br_config (sy_breaker s) = c" using cb_run_config [OF assms(3)] cb_start_ok [OF assms(1,2)] by (simp add: cb_start_def)
  then show ?thesis using ok assms(4,6,7) by (intro open_run [OF assms(5)]) (auto simp: cb_ok_def probes_ok_def)
qed

theorem open_breaker_refuses_witness:
  "\<exists>e s1. cb_run demo_open [Refused e] s1 \<and> sy_breaker s1 = sy_breaker demo_open"
proof -
  let ?e = "CallNotPermittedError OPEN 7"
  have "acquire (sy_breaker demo_open) 5 5 = (sy_breaker demo_open, [], Inl ?e)"
    by (simp add: demo_open_def acquire_def maybe_half_open_def demo_breaker_def) (simp add: demo_config_def)
  from cb_step.refused [OF _ _ this] have "cb_step demo_open (Refused ?e) (demo_open\<lparr>sy_now := 5\<rparr>)" by (simp add: demo_open_def)
  then have run: "cb_run demo_open [Refused ?e] (demo_open\<lparr>sy_now := 5\<rparr>)" by (blast intro: cb_run.intros)
  have "br_state (sy_breaker demo_open) = OPEN" "sy_now (demo_open\<lparr>sy_now := 5\<rparr>) < br_opened_at (sy_breaker demo_open) + cf_open_duration demo_config"
    by (simp_all add: demo_open_def demo_breaker_def demo_config_def)
  from open_breaker_refuses [OF demo_new order.refl demo_opens this(1) run _ this(2)] show ?thesis using run by (intro exI [of _ ?e] exI [of _ "demo_open\<lparr>sy_now := 5\<rparr>"]) simp
qed

text \<open>
  The configuration is not checked for a minimum of calls larger than the window of the last N calls: such a
  breaker is accepted and can never leave CLOSED, whatever fails.
\<close>

theorem unreachable_minimum_never_opens:
  assumes "new_breaker c = Inr b0" "0 \<le> t0" "cf_window_type c = COUNT" "cf_window_size c < cf_minimum_calls c"
    and "cb_run (cb_start b0 t0) ops s"
  shows "br_state (sy_breaker s) = CLOSED"
proof -
  have size: "0 < cf_window_size c"
    using assms(1,3) by (auto simp: new_breaker_def bind_sum_Inr check_config_def new_window_def new_count_window_def split: if_splits)
  have "br_state (sy_breaker s1) = CLOSED"
    if "cb_run s ops s1" "br_state (sy_breaker s) = CLOSED" "cb_ok s" "br_config (sy_breaker s) = c" "window_part (br_window (sy_breaker s)) = config_part c" for s s1 ops
    using that
  proof (induction rule: cb_run.induct)
    case (go s op s1 ops s2)
    have "br_state (sy_breaker s1) = CLOSED" by (rule never_opens_step [OF go(1,4,5,6,7) assms(3,4) size])
    then show ?case using go cb_step_ok [OF go(1)] cb_step_config [OF go(1)] by simp
  qed simp
  from this [OF assms(5)] show ?thesis using cb_start_ok [OF assms(1,2)] assms(1)
    by (auto simp: cb_start_def new_breaker_def bind_sum_Inr)
qed

theorem unreachable_minimum_never_opens_witness:
  "\<exists>b0. new_breaker (demo_config\<lparr>cf_minimum_calls := 2\<rparr>) = Inr b0 \<and> br_state (sy_breaker (cb_start b0 0)) = CLOSED"
proof -
  obtain b0 where b0: "new_breaker (demo_config\<lparr>cf_minimum_calls := 2\<rparr>) = Inr b0"
    by (simp add: new_breaker_def check_config_def new_window_def new_count_window_def demo_config_def)
  from unreachable_minimum_never_opens [OF this order.refl _ _ cb_run.stop] b0 show ?thesis by (auto simp: demo_config_def)
qed

end
