(* ===== verification/Resilience.thy ===== *)
theory Resilience
  imports Circuit_Breaker
begin

text \<open>
  The rest of \<open>circuit_breaker.py\<close>: retries with capped exponential backoff, jitter and a retry budget, the bulkhead, a
  call through the breaker, and \<open>resilient\<close>, which stacks them around a function. A function is a state transformer on
  a world that holds the shared parts (clock, breaker, free bulkhead slots, budget) and an environment of its own.
  The clock is the \<open>ManualClock\<close> of the file; \<open>uniform\<close> stands for the k-th call of \<open>random.uniform\<close>.
\<close>

section \<open>Clock, budget and world\<close>

datatype Jitter = NONE | FULL | EQUAL

record budget =
  bg_max :: rat
  bg_ratio :: rat
  bg_tokens :: rat

definition new_budget :: "rat \<Rightarrow> rat \<Rightarrow> budget" where
  "new_budget max_tokens token_ratio = \<lparr>bg_max = max_tokens, bg_ratio = token_ratio, bg_tokens = max_tokens\<rparr>"

definition budget_success :: "budget \<Rightarrow> budget" where
  "budget_success g = g\<lparr>bg_tokens := min (bg_max g) (bg_tokens g + bg_ratio g)\<rparr>"

definition budget_failure :: "budget \<Rightarrow> budget" where
  "budget_failure g = g\<lparr>bg_tokens := max 0 (bg_tokens g - 1)\<rparr>"

definition can_retry :: "budget \<Rightarrow> bool" where
  "can_retry g \<longleftrightarrow> bg_max g / 2 < bg_tokens g"

record 'e world =
  wd_now :: rat
  wd_sleeps :: "rat list"
  wd_draws :: nat
  wd_breaker :: breaker
  wd_slots :: nat
  wd_budget :: "budget option"
  wd_env :: 'e

type_synonym ('e, 'r) fn = "'e world \<Rightarrow> 'e world \<times> (exn + 'r)"

text \<open>The delays slept are kept in \<open>wd_sleeps\<close>, the last one first.\<close>

definition sleep :: "rat \<Rightarrow> 'e world \<Rightarrow> 'e world" where
  "sleep seconds w = w\<lparr>wd_now := wd_now w + seconds, wd_sleeps := seconds # wd_sleeps w\<rparr>"

section \<open>Retry\<close>

definition default_retry_on :: "exn \<Rightarrow> bool" where
  "default_retry_on e \<longleftrightarrow> e \<in> {Connection_Error, Timeout_Error, CallTimeoutError}"

record retry_config =
  rc_max_attempts :: int
  rc_base_delay :: rat
  rc_max_delay :: rat
  rc_multiplier :: rat
  rc_jitter :: Jitter
  rc_retry_on :: "exn \<Rightarrow> bool"

definition check_retry_config :: "retry_config \<Rightarrow> py_error + retry_config" where
  "check_retry_config c =
     (if rc_max_attempts c < 1 \<or> rc_base_delay c < 0 \<or> rc_max_delay c < rc_base_delay c then Inl ValueError else Inr c)"

definition backoff_cap :: "retry_config \<Rightarrow> nat \<Rightarrow> rat" where
  "backoff_cap c retry_number = min (rc_max_delay c) (rc_base_delay c * rc_multiplier c ^ (retry_number - 1))"

definition backoff :: "(nat \<Rightarrow> rat \<Rightarrow> rat \<Rightarrow> rat) \<Rightarrow> retry_config \<Rightarrow> nat \<Rightarrow> 'e world \<Rightarrow> 'e world \<times> rat" where
  "backoff uniform c retry_number w =
     (let cap = backoff_cap c retry_number in
      if rc_jitter c = NONE then (w, cap)
      else if rc_jitter c = FULL then (w\<lparr>wd_draws := wd_draws w + 1\<rparr>, uniform (wd_draws w) 0 cap)
      else (w\<lparr>wd_draws := wd_draws w + 1\<rparr>, cap / 2 + uniform (wd_draws w) 0 (cap / 2)))"

function retry_loop :: "(nat \<Rightarrow> rat \<Rightarrow> rat \<Rightarrow> rat) \<Rightarrow> retry_config \<Rightarrow> ('e, 'r) fn \<Rightarrow> nat \<Rightarrow> ('e, 'r) fn" where
  "retry_loop uniform c f attempt w =
     (case f w of
        (w1, Inr result) \<Rightarrow> (w1\<lparr>wd_budget := map_option budget_success (wd_budget w1)\<rparr>, Inr result)
      | (w1, Inl e) \<Rightarrow>
          if e = Keyboard_Interrupt then (w1, Inl e)
          else
            (let retryable = rc_retry_on c e;
                 w2 = (if retryable then w1\<lparr>wd_budget := map_option budget_failure (wd_budget w1)\<rparr> else w1)
             in if \<not> retryable \<or> rc_max_attempts c \<le> int attempt then (w2, Inl e)
                else if (case wd_budget w2 of None \<Rightarrow> False | Some g \<Rightarrow> \<not> can_retry g) then (w2, Inl RetryBudgetExhaustedError)
                else (case backoff uniform c attempt w2 of (w3, d) \<Rightarrow> retry_loop uniform c f (attempt + 1) (sleep d w3))))"
  by pat_completeness auto
termination
  by (relation "measure (\<lambda>(u, c, f, attempt, w). nat (rc_max_attempts c - int attempt))") auto

declare retry_loop.simps [simp del]

definition retry_call :: "(nat \<Rightarrow> rat \<Rightarrow> rat \<Rightarrow> rat) \<Rightarrow> retry_config \<Rightarrow> ('e, 'r) fn \<Rightarrow> ('e, 'r) fn" where
  "retry_call uniform c f = retry_loop uniform c f 1"

section \<open>Bulkhead, breaker and their composition\<close>

text \<open>A bulkhead that does not wait (\<open>max_wait\<close> is 0, the default); \<open>wd_slots\<close> is the value of its semaphore.\<close>

definition bulkhead_call :: "('e, 'r) fn \<Rightarrow> ('e, 'r) fn" where
  "bulkhead_call f w =
     (if wd_slots w = 0 then (w, Inl BulkheadFullError)
      else (case f (w\<lparr>wd_slots := wd_slots w - 1\<rparr>) of (w1, r) \<Rightarrow> (w1\<lparr>wd_slots := wd_slots w1 + 1\<rparr>, r)))"

definition breaker_call :: "('e, 'r) fn \<Rightarrow> ('e, 'r) fn" where
  "breaker_call f w =
     (case acquire (wd_breaker w) (wd_now w) (wd_now w) of
        (b1, tr, Inl e) \<Rightarrow> (w\<lparr>wd_breaker := b1\<rparr>, Inl e)
      | (b1, tr, Inr p) \<Rightarrow>
          (case f (w\<lparr>wd_breaker := b1\<rparr>) of
             (w1, Inl e) \<Rightarrow> (w1\<lparr>wd_breaker := fst (on_error (wd_breaker w1) p e (wd_now w1) (wd_now w1))\<rparr>, Inl e)
           | (w1, Inr result) \<Rightarrow> (w1\<lparr>wd_breaker := fst (on_success (wd_breaker w1) p (wd_now w1) (wd_now w1))\<rparr>, Inr result)))"

text \<open>The layers that are given, innermost first; the time limiter, which runs the function on a thread pool, is a parameter.\<close>

definition resilient :: "(('e, 'r) fn \<Rightarrow> ('e, 'r) fn) option \<Rightarrow> (('e, 'r) fn \<Rightarrow> ('e, 'r) fn) option
    \<Rightarrow> (('e, 'r) fn \<Rightarrow> ('e, 'r) fn) option \<Rightarrow> (('e, 'r) fn \<Rightarrow> ('e, 'r) fn) option \<Rightarrow> ('e, 'r) fn \<Rightarrow> ('e, 'r) fn" where
  "resilient retry breaker bulkhead time_limiter f =
     foldl (\<lambda>wrapped layer. case layer of None \<Rightarrow> wrapped | Some g \<Rightarrow> g wrapped) f [time_limiter, bulkhead, breaker, retry]"

section \<open>Retries are bounded\<close>

text \<open>What a function that does not sleep or draw random numbers itself leaves alone.\<close>

definition no_sleep :: "('e, 'r) fn \<Rightarrow> bool" where
  "no_sleep f \<longleftrightarrow> (\<forall>w. wd_sleeps (fst (f w)) = wd_sleeps w)"

definition uniform_ok :: "(nat \<Rightarrow> rat \<Rightarrow> rat \<Rightarrow> rat) \<Rightarrow> bool" where
  "uniform_ok uniform \<longleftrightarrow> (\<forall>k lo hi. lo \<le> hi \<longrightarrow> lo \<le> uniform k lo hi \<and> uniform k lo hi \<le> hi)"

definition retry_ok :: "retry_config \<Rightarrow> bool" where
  "retry_ok c \<longleftrightarrow> check_retry_config c = Inr c \<and> 0 \<le> rc_multiplier c"

lemma cap_bounds: "retry_ok c \<Longrightarrow> 0 \<le> backoff_cap c k \<and> backoff_cap c k \<le> rc_max_delay c"
  by (auto simp: retry_ok_def check_retry_config_def backoff_cap_def split: if_splits)

lemma backoff_bounds:
  assumes "retry_ok c" "uniform_ok uniform" "backoff uniform c k w = (w1, d)"
  shows "0 \<le> d \<and> d \<le> backoff_cap c k \<and> wd_sleeps w1 = wd_sleeps w"
proof -
  have cap: "0 \<le> backoff_cap c k" "0 \<le> backoff_cap c k / 2" using cap_bounds [OF assms(1)] by simp_all
  have "0 \<le> uniform j 0 x" "uniform j 0 x \<le> x" if "0 \<le> x" for j x using assms(2) that unfolding uniform_ok_def by blast+
  note u = this [OF cap(1), of "wd_draws w"] this [OF cap(2), of "wd_draws w"]
  show ?thesis using assms(3) cap u by (cases "rc_jitter c") (auto simp: backoff_def Let_def field_simps)
qed

text \<open>The outcome of a run of the loop: the delays it slept, and why it stopped.\<close>

definition retry_summary :: "retry_config \<Rightarrow> nat \<Rightarrow> 'e world \<Rightarrow> 'e world \<Rightarrow> exn + 'r \<Rightarrow> rat list \<Rightarrow> bool" where
  "retry_summary c attempt w w1 r ds \<longleftrightarrow> wd_sleeps w1 = rev ds @ wd_sleeps w \<and> int (length ds) + int attempt \<le> rc_max_attempts c
     \<and> (\<forall>i < length ds. 0 \<le> ds ! i \<and> ds ! i \<le> backoff_cap c (attempt + i))
     \<and> (case r of Inl e \<Rightarrow> e \<noteq> RetryBudgetExhaustedError \<and> e \<noteq> Keyboard_Interrupt \<and> rc_retry_on c e \<longrightarrow> int (length ds) + int attempt = rc_max_attempts c
                | Inr x \<Rightarrow> True)"

lemma summary_again:
  assumes "retry_summary c (attempt + 1) (sleep d w3) w1 r ds" "0 \<le> d" "d \<le> backoff_cap c attempt" "wd_sleeps w3 = wd_sleeps w"
  shows "retry_summary c attempt w w1 r (d # ds)"
  using assms by (auto simp: retry_summary_def sleep_def nth_Cons split: nat.splits sum.splits)

lemma retry_loop_summary:
  assumes "retry_ok c" "uniform_ok uniform" "no_sleep f" "retry_loop uniform c f attempt w = (w1, r)" "int attempt \<le> rc_max_attempts c"
  shows "\<exists>ds. retry_summary c attempt w w1 r ds"
  using assms
proof (induction uniform c f attempt w arbitrary: w1 r rule: retry_loop.induct)
  case (1 uniform c f attempt w)
  obtain wa ra where fw: "f w = (wa, ra)" by fastforce
  have sl: "wd_sleeps wa = wd_sleeps w" using "1.prems"(3) fw by (metis no_sleep_def fst_conv)
  let ?w2 = "wa\<lparr>wd_budget := map_option budget_failure (wd_budget wa)\<rparr>"
  show ?case
  proof (cases "\<exists>e. ra = Inl e \<and> e \<noteq> Keyboard_Interrupt \<and> rc_retry_on c e \<and> \<not> rc_max_attempts c \<le> int attempt
      \<and> \<not> (case wd_budget ?w2 of None \<Rightarrow> False | Some g \<Rightarrow> \<not> can_retry g)")
    case True
    then obtain e where e: "ra = Inl e" "e \<noteq> Keyboard_Interrupt" "rc_retry_on c e" "\<not> rc_max_attempts c \<le> int attempt"
      "\<not> (case wd_budget ?w2 of None \<Rightarrow> False | Some g \<Rightarrow> \<not> can_retry g)" by blast
    obtain w3 d where bk: "backoff uniform c attempt ?w2 = (w3, d)" by fastforce
    have step: "retry_loop uniform c f attempt w = retry_loop uniform c f (attempt + 1) (sleep d w3)"
      using e fw bk by (subst retry_loop.simps) simp
    have w2: "?w2 = (if rc_retry_on c e then ?w2 else wa)" using e(3) by simp
    have d: "0 \<le> d" "d \<le> backoff_cap c attempt" "wd_sleeps w3 = wd_sleeps w"
      using backoff_bounds [OF "1.prems"(1,2) bk] sl by auto
    have "\<exists>ds. retry_summary c (attempt + 1) (sleep d w3) w1 r ds"
      using e step "1.prems" by (intro "1.IH" [OF fw [symmetric] e(1,2) refl w2 _ _ bk [symmetric]]) auto
    then show ?thesis using summary_again [OF _ d] by blast
  next
    case False
    then have "retry_summary c attempt w w1 r []"
      using "1.prems"(4,5) fw sl
      by (subst (asm) retry_loop.simps) (auto simp: retry_summary_def Let_def split: sum.splits if_splits option.splits)
    then show ?thesis by blast
  qed
qed

lemma open_breaker_call:
  assumes "br_state (wd_breaker w) = OPEN" "wd_now w < br_opened_at (wd_breaker w) + cf_open_duration (br_config (wd_breaker w))"
  shows "breaker_call f w = (w, Inl (CallNotPermittedError OPEN (br_opened_at (wd_breaker w) + cf_open_duration (br_config (wd_breaker w)) - wd_now w)))"
  using assms by (simp add: breaker_call_def acquire_def maybe_half_open_def)

section \<open>Properties\<close>

text \<open>
  A call through \<open>Retry\<close> always returns, and with a valid configuration it sleeps between attempts fewer times
  than it may attempt the call; the i-th delay is not negative and at most both the maximum delay and the base
  delay times the multiplier to the power i (from 0), whatever the jitter draws; and if it ends in an error it would
  retry (other than an exhausted budget), then all attempts were used.
\<close>
theorem retry_bounded:
  assumes "check_retry_config c = Inr c" "0 \<le> rc_multiplier c" "uniform_ok uniform" "no_sleep f"
  shows "\<exists>w1 r ds. retry_call uniform c f w = (w1, r) \<and> wd_sleeps w1 = rev ds @ wd_sleeps w \<and> int (length ds) < rc_max_attempts c
    \<and> (\<forall>i < length ds. 0 \<le> ds ! i \<and> ds ! i \<le> rc_max_delay c \<and> ds ! i \<le> rc_base_delay c * rc_multiplier c ^ i)
    \<and> (\<forall>e. r = Inl e \<and> rc_retry_on c e \<and> e \<notin> {RetryBudgetExhaustedError, Keyboard_Interrupt} \<longrightarrow> int (length ds) + 1 = rc_max_attempts c)"
proof -
  obtain w1 r where wr: "retry_call uniform c f w = (w1, r)" by fastforce
  have "1 \<le> rc_max_attempts c" using assms(1) by (simp add: check_retry_config_def split: if_splits)
  then obtain ds where "retry_summary c 1 w w1 r ds"
    using retry_loop_summary [of c uniform f 1 w w1 r] assms wr by (auto simp: retry_ok_def retry_call_def)
  then show ?thesis using wr by (intro exI [of _ w1] exI [of _ r] exI [of _ ds]) (auto simp: retry_summary_def backoff_cap_def)
qed

definition demo_world :: "breaker \<Rightarrow> unit world" where
  "demo_world b = \<lparr>wd_now = 0, wd_sleeps = [], wd_draws = 0, wd_breaker = b, wd_slots = 1, wd_budget = None, wd_env = ()\<rparr>"

definition demo_retry :: retry_config where
  "demo_retry = \<lparr>rc_max_attempts = 3, rc_base_delay = 1, rc_max_delay = 5, rc_multiplier = 2, rc_jitter = NONE, rc_retry_on = default_retry_on\<rparr>"

theorem retry_bounded_witness:
  "\<exists>w1 ds. retry_call (\<lambda>k lo hi. lo) demo_retry (\<lambda>w. (w, Inl Timeout_Error :: exn + nat)) (demo_world (demo_breaker None CLOSED 0 0)) = (w1, Inl Timeout_Error)
     \<and> wd_sleeps w1 = rev ds \<and> length ds = 2"
proof -
  let ?f = "\<lambda>w :: unit world. (w, Inl Timeout_Error :: exn + nat)" and ?w = "demo_world (demo_breaker None CLOSED 0 0)"
  have "check_retry_config demo_retry = Inr demo_retry" "0 \<le> rc_multiplier demo_retry" "uniform_ok (\<lambda>k lo hi. lo)" "no_sleep ?f"
    by (simp_all add: demo_retry_def check_retry_config_def uniform_ok_def no_sleep_def)
  from retry_bounded [OF this, of ?w] obtain w1 r ds where r: "retry_call (\<lambda>k lo hi. lo) demo_retry ?f ?w = (w1, r)" "wd_sleeps w1 = rev ds"
    "\<forall>e. r = Inl e \<and> rc_retry_on demo_retry e \<and> e \<notin> {RetryBudgetExhaustedError, Keyboard_Interrupt} \<longrightarrow> int (length ds) + 1 = rc_max_attempts demo_retry"
    by (auto simp: demo_world_def)
  have "snd (retry_call (\<lambda>k lo hi. lo) demo_retry ?f ?w) = Inl Timeout_Error"
    by (simp add: retry_call_def retry_loop.simps Let_def demo_retry_def default_retry_on_def demo_world_def backoff_def sleep_def)
  then have "r = Inl Timeout_Error" using r(1) by simp
  then have "length ds = 2" using r(3) by (simp add: demo_retry_def default_retry_on_def)
  then show ?thesis using r \<open>r = _\<close> by blast
qed

text \<open>
  With the default retry predicate, a call through the whole stack while the breaker is open (its open duration
  not over) fails at once with the time left to wait: the function, the bulkhead and the time limiter are not
  entered, nothing is slept, retried or charged to the retry budget.
\<close>
theorem open_breaker_fails_fast:
  assumes "br_state (wd_breaker w) = OPEN" "wd_now w < br_opened_at (wd_breaker w) + cf_open_duration (br_config (wd_breaker w))"
    and "rc_retry_on c = default_retry_on"
  shows "resilient (Some (retry_call uniform c)) (Some breaker_call) bulkhead time_limiter f w
    = (w, Inl (CallNotPermittedError OPEN (br_opened_at (wd_breaker w) + cf_open_duration (br_config (wd_breaker w)) - wd_now w)))"
  using assms by (simp add: resilient_def retry_call_def retry_loop.simps open_breaker_call default_retry_on_def)

theorem open_breaker_fails_fast_witness:
  "resilient (Some (retry_call (\<lambda>k lo hi. lo) demo_retry)) (Some breaker_call) (Some bulkhead_call) None (\<lambda>w. (w, Inr True)) (demo_world (demo_breaker None OPEN 1 (- 3)))
    = (demo_world (demo_breaker None OPEN 1 (- 3)), Inl (CallNotPermittedError OPEN 7))"
  using open_breaker_fails_fast [of "demo_world (demo_breaker None OPEN 1 (- 3))" demo_retry]
  by (simp add: demo_world_def demo_breaker_def demo_config_def demo_retry_def)

end
