(* ===== verification/Rate_Algorithms.thy ===== *)
theory Rate_Algorithms
  imports Prelude
begin

text \<open>
  The five algorithms of \<open>rate_limiter.py\<close> (token bucket, leaky bucket, fixed window, sliding log, sliding counter).
  Each keeps a small state for a key; every operation first brings the state up to date (\<open>_refill\<close>, \<open>_leak\<close>, \<open>_roll\<close>,
  \<open>_evict\<close>) and returns it with its answer, since the code changes it in place. Times and levels are rationals. The
  locale \<open>rate_algorithm\<close> is the contract of the abstract base class.
\<close>

section \<open>Rules and the five algorithms\<close>

record rule =
  ru_max :: int
  ru_window :: rat

definition new_rule :: "int \<Rightarrow> rat \<Rightarrow> py_error + rule" where
  "new_rule max_requests window_seconds =
     (if max_requests \<le> 0 then Inl ValueError
      else if window_seconds \<le> 0 then Inl ValueError
      else Inr \<lparr>ru_max = max_requests, ru_window = window_seconds\<rparr>)"

definition rate :: "rule \<Rightarrow> rat" where
  "rate r = of_int (ru_max r) / ru_window r"

record bucket_state =
  bk_level :: rat
  bk_last :: rat

subsection \<open>Token bucket\<close>

definition tb_new :: "rule \<Rightarrow> rat \<Rightarrow> bucket_state" where
  "tb_new r now = \<lparr>bk_level = of_int (ru_max r), bk_last = now\<rparr>"

definition tb_refill :: "rule \<Rightarrow> bucket_state \<Rightarrow> rat \<Rightarrow> bucket_state" where
  "tb_refill r s now =
     (let elapsed = max 0 (now - bk_last s)
      in s\<lparr>bk_level := min (of_int (ru_max r)) (bk_level s + elapsed * rate r), bk_last := now\<rparr>)"

definition tb_acquire :: "rule \<Rightarrow> bucket_state \<Rightarrow> rat \<Rightarrow> bucket_state \<times> bool" where
  "tb_acquire r s now =
     (let s1 = tb_refill r s now
      in if 1 \<le> bk_level s1 then (s1\<lparr>bk_level := bk_level s1 - 1\<rparr>, True) else (s1, False))"

definition tb_remaining :: "rule \<Rightarrow> bucket_state \<Rightarrow> rat \<Rightarrow> bucket_state \<times> int" where
  "tb_remaining r s now = (let s1 = tb_refill r s now in (s1, py_int (bk_level s1)))"

definition tb_retry_after :: "rule \<Rightarrow> bucket_state \<Rightarrow> rat \<Rightarrow> bucket_state \<times> rat" where
  "tb_retry_after r s now =
     (let s1 = tb_refill r s now in (s1, if 1 \<le> bk_level s1 then 0 else (1 - bk_level s1) / rate r))"

subsection \<open>Leaky bucket\<close>

definition lb_new :: "rule \<Rightarrow> rat \<Rightarrow> bucket_state" where
  "lb_new r now = \<lparr>bk_level = 0, bk_last = now\<rparr>"

definition lb_leak :: "rule \<Rightarrow> bucket_state \<Rightarrow> rat \<Rightarrow> bucket_state" where
  "lb_leak r s now =
     (let elapsed = max 0 (now - bk_last s)
      in s\<lparr>bk_level := max 0 (bk_level s - elapsed * rate r), bk_last := now\<rparr>)"

definition lb_acquire :: "rule \<Rightarrow> bucket_state \<Rightarrow> rat \<Rightarrow> bucket_state \<times> bool" where
  "lb_acquire r s now =
     (let s1 = lb_leak r s now
      in if bk_level s1 + 1 \<le> of_int (ru_max r) then (s1\<lparr>bk_level := bk_level s1 + 1\<rparr>, True) else (s1, False))"

definition lb_remaining :: "rule \<Rightarrow> bucket_state \<Rightarrow> rat \<Rightarrow> bucket_state \<times> int" where
  "lb_remaining r s now = (let s1 = lb_leak r s now in (s1, py_int (of_int (ru_max r) - bk_level s1)))"

definition lb_retry_after :: "rule \<Rightarrow> bucket_state \<Rightarrow> rat \<Rightarrow> bucket_state \<times> rat" where
  "lb_retry_after r s now =
     (let s1 = lb_leak r s now; overflow = bk_level s1 + 1 - of_int (ru_max r)
      in (s1, if overflow \<le> 0 then 0 else overflow / rate r))"

subsection \<open>Fixed window\<close>

record window_state =
  wn_window :: int
  wn_count :: int
  wn_prev :: int

definition window_index :: "rule \<Rightarrow> rat \<Rightarrow> int" where
  "window_index r now = \<lfloor>now / ru_window r\<rfloor>"

definition fw_new :: "rule \<Rightarrow> rat \<Rightarrow> window_state" where
  "fw_new r now = \<lparr>wn_window = window_index r now, wn_count = 0, wn_prev = 0\<rparr>"

definition fw_roll :: "rule \<Rightarrow> window_state \<Rightarrow> rat \<Rightarrow> window_state" where
  "fw_roll r s now = (let w = window_index r now in if wn_window s < w then s\<lparr>wn_window := w, wn_count := 0\<rparr> else s)"

definition fw_acquire :: "rule \<Rightarrow> window_state \<Rightarrow> rat \<Rightarrow> window_state \<times> bool" where
  "fw_acquire r s now =
     (let s1 = fw_roll r s now
      in if wn_count s1 < ru_max r then (s1\<lparr>wn_count := wn_count s1 + 1\<rparr>, True) else (s1, False))"

definition fw_remaining :: "rule \<Rightarrow> window_state \<Rightarrow> rat \<Rightarrow> window_state \<times> int" where
  "fw_remaining r s now = (let s1 = fw_roll r s now in (s1, ru_max r - wn_count s1))"

definition fw_retry_after :: "rule \<Rightarrow> window_state \<Rightarrow> rat \<Rightarrow> window_state \<times> rat" where
  "fw_retry_after r s now =
     (let s1 = fw_roll r s now
      in (s1, if wn_count s1 < ru_max r then 0 else (of_int (wn_window s1) + 1) * ru_window r - now))"

subsection \<open>Sliding window log\<close>

type_synonym log_state = "rat list"

definition sl_new :: "rule \<Rightarrow> rat \<Rightarrow> log_state" where
  "sl_new r now = []"

definition sl_evict :: "rule \<Rightarrow> log_state \<Rightarrow> rat \<Rightarrow> log_state" where
  "sl_evict r s now = dropWhile (\<lambda>x. x \<le> now - ru_window r) s"

definition sl_acquire :: "rule \<Rightarrow> log_state \<Rightarrow> rat \<Rightarrow> log_state \<times> bool" where
  "sl_acquire r s now =
     (let s1 = sl_evict r s now in if int (length s1) < ru_max r then (s1 @ [now], True) else (s1, False))"

definition sl_remaining :: "rule \<Rightarrow> log_state \<Rightarrow> rat \<Rightarrow> log_state \<times> int" where
  "sl_remaining r s now = (let s1 = sl_evict r s now in (s1, ru_max r - int (length s1)))"

definition sl_retry_after :: "rule \<Rightarrow> log_state \<Rightarrow> rat \<Rightarrow> log_state \<times> rat" where
  "sl_retry_after r s now =
     (let s1 = sl_evict r s now in (s1, if int (length s1) < ru_max r then 0 else hd s1 + ru_window r - now))"

subsection \<open>Sliding window counter\<close>

definition sc_new :: "rule \<Rightarrow> rat \<Rightarrow> window_state" where
  "sc_new r now = \<lparr>wn_window = window_index r now, wn_count = 0, wn_prev = 0\<rparr>"

definition sc_roll :: "rule \<Rightarrow> window_state \<Rightarrow> rat \<Rightarrow> window_state" where
  "sc_roll r s now =
     (let w = window_index r now in
      if w = wn_window s + 1 then s\<lparr>wn_window := w, wn_prev := wn_count s, wn_count := 0\<rparr>
      else if wn_window s + 1 < w then s\<lparr>wn_window := w, wn_prev := 0, wn_count := 0\<rparr>
      else s)"

definition fraction :: "rule \<Rightarrow> window_state \<Rightarrow> rat \<Rightarrow> rat" where
  "fraction r s now = (now - of_int (wn_window s) * ru_window r) / ru_window r"

definition estimate :: "rule \<Rightarrow> window_state \<Rightarrow> rat \<Rightarrow> rat" where
  "estimate r s now = of_int (wn_prev s) * (1 - fraction r s now) + of_int (wn_count s)"

definition sc_acquire :: "rule \<Rightarrow> window_state \<Rightarrow> rat \<Rightarrow> window_state \<times> bool" where
  "sc_acquire r s now =
     (let s1 = sc_roll r s now
      in if estimate r s1 now + 1 \<le> of_int (ru_max r) then (s1\<lparr>wn_count := wn_count s1 + 1\<rparr>, True) else (s1, False))"

definition sc_remaining :: "rule \<Rightarrow> window_state \<Rightarrow> rat \<Rightarrow> window_state \<times> int" where
  "sc_remaining r s now =
     (let s1 = sc_roll r s now in (s1, max 0 \<lfloor>of_int (ru_max r) - estimate r s1 now\<rfloor>))"

definition sc_retry_after :: "rule \<Rightarrow> window_state \<Rightarrow> rat \<Rightarrow> window_state \<times> rat" where
  "sc_retry_after r s now =
     (let s1 = sc_roll r s now; start = of_int (wn_window s1) * ru_window r; headroom = ru_max r - 1 - wn_count s1
      in (s1,
          if estimate r s1 now + 1 \<le> of_int (ru_max r) then 0
          else if 0 \<le> headroom \<and> 0 < wn_prev s1
          then max 0 (start + ru_window r * (1 - of_int headroom / of_int (wn_prev s1)) - now)
          else max 0 (start + ru_window r + ru_window r * (1 - of_int (ru_max r - 1) / of_int (wn_count s1)) - now)))"

section \<open>What every algorithm promises\<close>

text \<open>
  The contract, for a state that is good at a time (\<open>ok r t s\<close>): bringing it up to date twice is as good as once and is
  what every operation does first; a state with all permits left is a fresh one; and \<open>retry_after\<close> is exact: a later
  request is granted if and only if that time has passed.
\<close>

definition rule_ok :: "rule \<Rightarrow> bool" where
  "rule_ok r \<longleftrightarrow> 0 < ru_max r \<and> 0 < ru_window r"

locale rate_algorithm =
  fixes valid :: "'c \<Rightarrow> bool"
    and limit :: "'c \<Rightarrow> int"
    and new :: "'c \<Rightarrow> rat \<Rightarrow> 's"
    and update :: "'c \<Rightarrow> 's \<Rightarrow> rat \<Rightarrow> 's"
    and acquire :: "'c \<Rightarrow> 's \<Rightarrow> rat \<Rightarrow> 's \<times> bool"
    and remaining :: "'c \<Rightarrow> 's \<Rightarrow> rat \<Rightarrow> 's \<times> int"
    and retry_after :: "'c \<Rightarrow> 's \<Rightarrow> rat \<Rightarrow> 's \<times> rat"
    and ok :: "'c \<Rightarrow> rat \<Rightarrow> 's \<Rightarrow> bool"
  assumes new_ok: "valid r \<Longrightarrow> ok r t (new r t)"
    and ok_later: "valid r \<Longrightarrow> ok r t s \<Longrightarrow> t \<le> u \<Longrightarrow> ok r u s"
    and update_ok: "valid r \<Longrightarrow> ok r t s \<Longrightarrow> ok r t (update r s t)"
    and acquire_ok: "valid r \<Longrightarrow> ok r t s \<Longrightarrow> ok r t (fst (acquire r s t))"
    and update_update: "valid r \<Longrightarrow> ok r t s \<Longrightarrow> t \<le> u \<Longrightarrow> update r (update r s t) u = update r s u"
    and update_new: "valid r \<Longrightarrow> t \<le> u \<Longrightarrow> update r (new r t) u = new r u"
    and acquire_update: "valid r \<Longrightarrow> ok r t s \<Longrightarrow> acquire r (update r s t) t = acquire r s t"
    and remaining_update: "valid r \<Longrightarrow> ok r t s \<Longrightarrow> remaining r (update r s t) t = remaining r s t"
    and retry_update: "valid r \<Longrightarrow> ok r t s \<Longrightarrow> retry_after r (update r s t) t = retry_after r s t"
    and remaining_state: "fst (remaining r s t) = update r s t"
    and retry_state: "fst (retry_after r s t) = update r s t"
    and idle_new: "valid r \<Longrightarrow> ok r t s \<Longrightarrow> limit r \<le> snd (remaining r s t) \<Longrightarrow> update r s t = new r t"
    and retry_exact: "valid r \<Longrightarrow> ok r t s \<Longrightarrow> t \<le> u \<Longrightarrow> snd (acquire r s u) \<longleftrightarrow> snd (retry_after r s t) \<le> u - t"
begin

text \<open>Two states that no later operation can tell apart.\<close>

definition same :: "'c \<Rightarrow> rat \<Rightarrow> 's \<Rightarrow> 's \<Rightarrow> bool" where
  "same r t s s' \<longleftrightarrow> ok r t s \<and> ok r t s' \<and> update r s t = update r s' t"

lemma same_refl: "ok r t s \<Longrightarrow> same r t s s"
  by (simp add: same_def)

lemma same_later: "valid r \<Longrightarrow> same r t s s' \<Longrightarrow> t \<le> u \<Longrightarrow> same r u s s'"
  unfolding same_def by (metis ok_later update_update)

lemma same_new: "valid r \<Longrightarrow> t \<le> u \<Longrightarrow> same r u (new r t) (new r u)"
  unfolding same_def by (metis new_ok ok_later order.refl update_new)

lemma same_idle: "valid r \<Longrightarrow> ok r t s \<Longrightarrow> limit r \<le> snd (remaining r s t) \<Longrightarrow> same r t s (new r t)"
  unfolding same_def by (metis idle_new new_ok order.refl update_new)

lemma same_answers:
  assumes "valid r" "same r t s s'"
  shows "acquire r s t = acquire r s' t" "remaining r s t = remaining r s' t" "retry_after r s t = retry_after r s' t"
  using assms unfolding same_def by (metis acquire_update remaining_update retry_update)+

lemma update_same: "valid r \<Longrightarrow> ok r t s \<Longrightarrow> same r t (update r s t) s"
  unfolding same_def by (metis update_ok order.refl update_update)

lemma acquires_ok:
  assumes "valid r" "ok r t s" "sorted (t # ts)"
  shows "ok r (foldl max t ts) (foldl (\<lambda>s u. fst (acquire r s u)) s ts)"
  using assms
proof (induction ts arbitrary: s t)
  case (Cons u ts)
  then have "ok r u (fst (acquire r s u))" "max t u = u" by (auto intro: acquire_ok ok_later)
  then show ?case using Cons by simp
qed simp

end

section \<open>The buckets meet the contract\<close>

lemma rate_pos: "rule_ok r \<Longrightarrow> 0 < rate r"
  by (simp add: rule_ok_def rate_def)

definition bucket_ok :: "rule \<Rightarrow> rat \<Rightarrow> bucket_state \<Rightarrow> bool" where
  "bucket_ok r t s \<longleftrightarrow> 0 \<le> bk_level s \<and> bk_level s \<le> of_int (ru_max r) \<and> bk_last s \<le> t"

lemma min_add_min: "0 \<le> b \<Longrightarrow> min m (min m a + b) = min m (a + b)" for a b m :: rat
  by (auto simp: min_def)

lemma tb_refill_twice:
  assumes "rule_ok r" "bk_last s \<le> t" "t \<le> u"
  shows "tb_refill r (tb_refill r s t) u = tb_refill r s u"
proof -
  have "(t - bk_last s) * rate r + (u - t) * rate r = (u - bk_last s) * rate r" by (simp add: algebra_simps)
  then show ?thesis using assms rate_pos [OF assms(1)]
    by (simp add: tb_refill_def Let_def min_add_min add.assoc)
qed

lemma tb_level: "rule_ok r \<Longrightarrow> bucket_ok r t s \<Longrightarrow> bucket_ok r t (tb_refill r s t)"
  using rate_pos [of r] by (auto simp: tb_refill_def Let_def bucket_ok_def rule_ok_def)

lemma tb_retry_exact:
  assumes r: "rule_ok r" and ok: "bucket_ok r t s" and tu: "t \<le> u"
  shows "snd (tb_acquire r s u) \<longleftrightarrow> snd (tb_retry_after r s t) \<le> u - t"
proof -
  let ?l = "bk_level (tb_refill r s t)"
  have m: "1 \<le> (of_int (ru_max r) :: rat)" using r by (simp add: rule_ok_def)
  have "tb_refill r s u = tb_refill r (tb_refill r s t) u" using tb_refill_twice [OF r _ tu] ok by (simp add: bucket_ok_def)
  then have "bk_level (tb_refill r s u) = min (of_int (ru_max r)) (?l + (u - t) * rate r)"
    using tu by (simp add: tb_refill_def Let_def)
  then have "snd (tb_acquire r s u) \<longleftrightarrow> 1 - ?l \<le> (u - t) * rate r" using m by (auto simp: tb_acquire_def Let_def)
  also have "\<dots> \<longleftrightarrow> (1 - ?l) / rate r \<le> u - t" using rate_pos [OF r] by (simp add: pos_divide_le_eq)
  also have "\<dots> \<longleftrightarrow> snd (tb_retry_after r s t) \<le> u - t"
  proof (cases "1 \<le> ?l")
    case True
    then have "(1 - ?l) / rate r \<le> 0" using rate_pos [OF r] by (simp add: divide_nonpos_pos)
    then have "(1 - ?l) / rate r \<le> u - t" using tu by linarith
    then show ?thesis using True tu by (simp add: tb_retry_after_def Let_def)
  qed (simp add: tb_retry_after_def Let_def)
  finally show ?thesis .
qed

lemma py_int_ge: "0 \<le> x \<Longrightarrow> x \<le> of_int m \<Longrightarrow> m \<le> py_int x \<longleftrightarrow> x = of_int m"
  by (auto simp: py_int_def le_floor_iff)

interpretation token_bucket: rate_algorithm rule_ok ru_max tb_new tb_refill tb_acquire tb_remaining tb_retry_after bucket_ok
proof unfold_locales
  fix r s and t u :: rat
  show "rule_ok r \<Longrightarrow> bucket_ok r t (tb_new r t)" by (simp add: bucket_ok_def tb_new_def rule_ok_def)
  show "rule_ok r \<Longrightarrow> bucket_ok r t s \<Longrightarrow> t \<le> u \<Longrightarrow> bucket_ok r u s" by (simp add: bucket_ok_def)
  show "rule_ok r \<Longrightarrow> bucket_ok r t s \<Longrightarrow> bucket_ok r t (tb_refill r s t)" by (rule tb_level)
  show "rule_ok r \<Longrightarrow> bucket_ok r t s \<Longrightarrow> bucket_ok r t (fst (tb_acquire r s t))"
    using tb_level [of r t s] by (auto simp: tb_acquire_def Let_def bucket_ok_def)
  show "rule_ok r \<Longrightarrow> bucket_ok r t s \<Longrightarrow> t \<le> u \<Longrightarrow> tb_refill r (tb_refill r s t) u = tb_refill r s u"
    by (simp add: tb_refill_twice bucket_ok_def)
  then show "rule_ok r \<Longrightarrow> bucket_ok r t s \<Longrightarrow> tb_acquire r (tb_refill r s t) t = tb_acquire r s t"
    "rule_ok r \<Longrightarrow> bucket_ok r t s \<Longrightarrow> tb_remaining r (tb_refill r s t) t = tb_remaining r s t"
    "rule_ok r \<Longrightarrow> bucket_ok r t s \<Longrightarrow> tb_retry_after r (tb_refill r s t) t = tb_retry_after r s t"
    by (simp_all add: tb_acquire_def tb_remaining_def tb_retry_after_def tb_refill_twice bucket_ok_def)
  show "rule_ok r \<Longrightarrow> t \<le> u \<Longrightarrow> tb_refill r (tb_new r t) u = tb_new r u"
    using rate_pos [of r] by (simp add: tb_refill_def tb_new_def Let_def)
  show "fst (tb_remaining r s t) = tb_refill r s t" "fst (tb_retry_after r s t) = tb_refill r s t"
    by (simp_all add: tb_remaining_def tb_retry_after_def Let_def)
  show "rule_ok r \<Longrightarrow> bucket_ok r t s \<Longrightarrow> ru_max r \<le> snd (tb_remaining r s t) \<Longrightarrow> tb_refill r s t = tb_new r t"
    using tb_level [of r t s] py_int_ge [of "bk_level (tb_refill r s t)" "ru_max r"]
    by (simp add: tb_remaining_def Let_def bucket_ok_def tb_new_def) (simp add: tb_refill_def Let_def)
  show "rule_ok r \<Longrightarrow> bucket_ok r t s \<Longrightarrow> t \<le> u \<Longrightarrow> snd (tb_acquire r s u) \<longleftrightarrow> snd (tb_retry_after r s t) \<le> u - t"
    by (rule tb_retry_exact)
qed

text \<open>The leaky bucket is the mirror image of the token bucket: its level is what the token bucket lacks.\<close>

definition mirror :: "rule \<Rightarrow> bucket_state \<Rightarrow> bucket_state" where
  "mirror r s = s\<lparr>bk_level := of_int (ru_max r) - bk_level s\<rparr>"

lemma mirror_mirror [simp]: "mirror r (mirror r s) = s"
  by (simp add: mirror_def)

lemma mirror_inj: "mirror r s = mirror r s' \<Longrightarrow> s = s'"
  by (metis mirror_mirror)

lemma mirror_ops:
  "lb_leak r s t = mirror r (tb_refill r (mirror r s) t)" "lb_new r t = mirror r (tb_new r t)"
  "lb_acquire r s t = map_prod (mirror r) id (tb_acquire r (mirror r s) t)"
  "lb_remaining r s t = map_prod (mirror r) id (tb_remaining r (mirror r s) t)"
  "lb_retry_after r s t = map_prod (mirror r) id (tb_retry_after r (mirror r s) t)"
  "bucket_ok r t (mirror r s) = bucket_ok r t s"
proof -
  show leak: "lb_leak r s t = mirror r (tb_refill r (mirror r s) t)"
    by (auto simp: lb_leak_def tb_refill_def mirror_def Let_def min_def max_def)
  have lev: "bk_level (tb_refill r (mirror r s) t) = of_int (ru_max r) - bk_level (lb_leak r s t)" by (simp add: leak mirror_def)
  show "lb_new r t = mirror r (tb_new r t)" by (simp add: lb_new_def tb_new_def mirror_def)
  show "lb_acquire r s t = map_prod (mirror r) id (tb_acquire r (mirror r s) t)"
    unfolding lb_acquire_def tb_acquire_def Let_def lev by (auto simp: leak mirror_def)
  show "lb_remaining r s t = map_prod (mirror r) id (tb_remaining r (mirror r s) t)"
    unfolding lb_remaining_def tb_remaining_def Let_def lev by (simp add: leak)
  show "lb_retry_after r s t = map_prod (mirror r) id (tb_retry_after r (mirror r s) t)"
    unfolding lb_retry_after_def tb_retry_after_def Let_def lev by (simp add: leak)
  show "bucket_ok r t (mirror r s) = bucket_ok r t s" by (auto simp: bucket_ok_def mirror_def)
qed

interpretation leaky_bucket: rate_algorithm rule_ok ru_max lb_new lb_leak lb_acquire lb_remaining lb_retry_after bucket_ok
proof unfold_locales
  fix r s and t u :: rat
  show "rule_ok r \<Longrightarrow> bucket_ok r t (lb_new r t)" using token_bucket.new_ok by (simp add: mirror_ops)
  show "rule_ok r \<Longrightarrow> bucket_ok r t s \<Longrightarrow> t \<le> u \<Longrightarrow> bucket_ok r u s" by (rule token_bucket.ok_later)
  show "rule_ok r \<Longrightarrow> bucket_ok r t s \<Longrightarrow> bucket_ok r t (lb_leak r s t)" using token_bucket.update_ok by (simp add: mirror_ops)
  show "rule_ok r \<Longrightarrow> bucket_ok r t s \<Longrightarrow> bucket_ok r t (fst (lb_acquire r s t))" using token_bucket.acquire_ok by (simp add: mirror_ops)
  show "rule_ok r \<Longrightarrow> bucket_ok r t s \<Longrightarrow> t \<le> u \<Longrightarrow> lb_leak r (lb_leak r s t) u = lb_leak r s u"
    using token_bucket.update_update by (simp add: mirror_ops)
  show "rule_ok r \<Longrightarrow> bucket_ok r t s \<Longrightarrow> lb_acquire r (lb_leak r s t) t = lb_acquire r s t"
    using token_bucket.acquire_update by (simp add: mirror_ops)
  show "rule_ok r \<Longrightarrow> bucket_ok r t s \<Longrightarrow> lb_remaining r (lb_leak r s t) t = lb_remaining r s t"
    using token_bucket.remaining_update by (simp add: mirror_ops)
  show "rule_ok r \<Longrightarrow> bucket_ok r t s \<Longrightarrow> lb_retry_after r (lb_leak r s t) t = lb_retry_after r s t"
    using token_bucket.retry_update by (simp add: mirror_ops)
  show "rule_ok r \<Longrightarrow> t \<le> u \<Longrightarrow> lb_leak r (lb_new r t) u = lb_new r u" using token_bucket.update_new by (simp add: mirror_ops)
  show "fst (lb_remaining r s t) = lb_leak r s t" "fst (lb_retry_after r s t) = lb_leak r s t"
    using token_bucket.remaining_state token_bucket.retry_state by (simp_all add: mirror_ops)
  show "rule_ok r \<Longrightarrow> bucket_ok r t s \<Longrightarrow> ru_max r \<le> snd (lb_remaining r s t) \<Longrightarrow> lb_leak r s t = lb_new r t"
    using token_bucket.idle_new by (simp add: mirror_ops)
  show "rule_ok r \<Longrightarrow> bucket_ok r t s \<Longrightarrow> t \<le> u \<Longrightarrow> snd (lb_acquire r s u) \<longleftrightarrow> snd (lb_retry_after r s t) \<le> u - t"
    using token_bucket.retry_exact by (simp add: mirror_ops)
qed

section \<open>The windows meet the contract\<close>

lemma window_index_le: "rule_ok r \<Longrightarrow> k \<le> window_index r u \<longleftrightarrow> of_int k * ru_window r \<le> u"
  by (simp add: window_index_def le_floor_iff rule_ok_def pos_le_divide_eq)

lemma window_index_mono: "rule_ok r \<Longrightarrow> t \<le> u \<Longrightarrow> window_index r t \<le> window_index r u"
  by (simp add: window_index_def rule_ok_def floor_mono divide_right_mono)

definition fw_ok :: "rule \<Rightarrow> rat \<Rightarrow> window_state \<Rightarrow> bool" where
  "fw_ok r t s \<longleftrightarrow> wn_window s \<le> window_index r t \<and> 0 \<le> wn_count s \<and> wn_count s \<le> ru_max r \<and> wn_prev s = 0"

lemma fw_roll_twice: "rule_ok r \<Longrightarrow> t \<le> u \<Longrightarrow> fw_roll r (fw_roll r s t) u = fw_roll r s u"
  using window_index_mono [of r t u] by (auto simp: fw_roll_def Let_def)

lemma fw_roll_index: "fw_ok r t s \<Longrightarrow> wn_window (fw_roll r s t) = window_index r t"
  by (simp add: fw_roll_def fw_ok_def Let_def)

interpretation fixed_window: rate_algorithm rule_ok ru_max fw_new fw_roll fw_acquire fw_remaining fw_retry_after fw_ok
proof unfold_locales
  fix r s and t u :: rat
  show "rule_ok r \<Longrightarrow> fw_ok r t (fw_new r t)" by (simp add: fw_ok_def fw_new_def rule_ok_def)
  show "rule_ok r \<Longrightarrow> fw_ok r t s \<Longrightarrow> t \<le> u \<Longrightarrow> fw_ok r u s" using window_index_mono [of r t u] by (auto simp: fw_ok_def)
  show "rule_ok r \<Longrightarrow> fw_ok r t s \<Longrightarrow> fw_ok r t (fw_roll r s t)" by (simp add: fw_ok_def fw_roll_def Let_def rule_ok_def)
  then show "rule_ok r \<Longrightarrow> fw_ok r t s \<Longrightarrow> fw_ok r t (fst (fw_acquire r s t))" by (auto simp: fw_ok_def fw_acquire_def Let_def)
  show "rule_ok r \<Longrightarrow> fw_ok r t s \<Longrightarrow> t \<le> u \<Longrightarrow> fw_roll r (fw_roll r s t) u = fw_roll r s u" by (simp add: fw_roll_twice)
  show "rule_ok r \<Longrightarrow> fw_ok r t s \<Longrightarrow> fw_acquire r (fw_roll r s t) t = fw_acquire r s t"
    "rule_ok r \<Longrightarrow> fw_ok r t s \<Longrightarrow> fw_remaining r (fw_roll r s t) t = fw_remaining r s t"
    "rule_ok r \<Longrightarrow> fw_ok r t s \<Longrightarrow> fw_retry_after r (fw_roll r s t) t = fw_retry_after r s t"
    by (simp_all add: fw_acquire_def fw_remaining_def fw_retry_after_def fw_roll_twice)
  show "rule_ok r \<Longrightarrow> t \<le> u \<Longrightarrow> fw_roll r (fw_new r t) u = fw_new r u"
    using window_index_mono [of r t u] by (auto simp: fw_roll_def fw_new_def Let_def)
  show "fst (fw_remaining r s t) = fw_roll r s t" "fst (fw_retry_after r s t) = fw_roll r s t"
    by (simp_all add: fw_remaining_def fw_retry_after_def Let_def)
  show "rule_ok r \<Longrightarrow> fw_ok r t s \<Longrightarrow> ru_max r \<le> snd (fw_remaining r s t) \<Longrightarrow> fw_roll r s t = fw_new r t"
    using fw_roll_index [of r t s] by (auto simp: fw_remaining_def Let_def fw_ok_def fw_roll_def fw_new_def split: if_splits)
  show "rule_ok r \<Longrightarrow> fw_ok r t s \<Longrightarrow> t \<le> u \<Longrightarrow> snd (fw_acquire r s u) \<longleftrightarrow> snd (fw_retry_after r s t) \<le> u - t"
    using window_index_le [of r "window_index r t + 1" u] window_index_mono [of r t u] fw_roll_twice [of r t u s] fw_roll_index [of r t s]
    by (auto simp: fw_acquire_def fw_retry_after_def Let_def fw_ok_def fw_roll_def rule_ok_def algebra_simps)
qed

definition sl_ok :: "rule \<Rightarrow> rat \<Rightarrow> log_state \<Rightarrow> bool" where
  "sl_ok r t s \<longleftrightarrow> sorted s \<and> (\<forall>x \<in> set s. x \<le> t) \<and> int (length s) \<le> ru_max r"

lemma dropWhile_twice: "(\<And>x. P x \<Longrightarrow> Q x) \<Longrightarrow> dropWhile Q (dropWhile P xs) = dropWhile Q xs"
  by (induction xs) auto

lemma sl_evict_twice: "t \<le> u \<Longrightarrow> sl_evict r (sl_evict r s t) u = sl_evict r s u"
  unfolding sl_evict_def by (rule dropWhile_twice) simp

lemma sl_evict_ok: "sl_ok r t s \<Longrightarrow> sl_ok r t (sl_evict r s t)"
  using length_dropWhile_le [of "\<lambda>x. x \<le> t - ru_window r" s] sorted_dropWhile [of s] set_dropWhileD [of _ "\<lambda>x. x \<le> t - ru_window r" s]
  by (auto simp: sl_ok_def sl_evict_def)

lemma sl_retry_exact:
  assumes r: "rule_ok r" and ok: "sl_ok r t s" and tu: "t \<le> u"
  shows "snd (sl_acquire r s u) \<longleftrightarrow> snd (sl_retry_after r s t) \<le> u - t"
proof -
  let ?e = "sl_evict r s t"
  have u: "sl_evict r s u = dropWhile (\<lambda>x. x \<le> u - ru_window r) ?e" using sl_evict_twice [OF tu, of r s] by (simp add: sl_evict_def)
  have len: "int (length ?e) \<le> ru_max r" using sl_evict_ok [OF ok] by (simp add: sl_ok_def)
  show ?thesis
  proof (cases "int (length ?e) < ru_max r")
    case True
    then have "int (length (sl_evict r s u)) < ru_max r" using length_dropWhile_le [of "\<lambda>x. x \<le> u - ru_window r" ?e] u by simp
    then show ?thesis using True tu by (simp add: sl_acquire_def sl_retry_after_def Let_def)
  next
    case False
    then obtain h rest where e: "?e = h # rest" using r by (cases ?e) (auto simp: rule_ok_def)
    have "int (length (sl_evict r s u)) < ru_max r \<longleftrightarrow> h \<le> u - ru_window r"
      using False len length_dropWhile_le [of "\<lambda>x. x \<le> u - ru_window r" rest] by (auto simp: u e)
    then show ?thesis using False e by (auto simp: sl_acquire_def sl_retry_after_def Let_def)
  qed
qed

interpretation sliding_log: rate_algorithm rule_ok ru_max sl_new sl_evict sl_acquire sl_remaining sl_retry_after sl_ok
proof unfold_locales
  fix r s and t u :: rat
  show "rule_ok r \<Longrightarrow> sl_ok r t (sl_new r t)" by (simp add: sl_ok_def sl_new_def rule_ok_def)
  show "rule_ok r \<Longrightarrow> sl_ok r t s \<Longrightarrow> t \<le> u \<Longrightarrow> sl_ok r u s" by (force simp: sl_ok_def)
  show "rule_ok r \<Longrightarrow> sl_ok r t s \<Longrightarrow> sl_ok r t (sl_evict r s t)" by (rule sl_evict_ok)
  then show "rule_ok r \<Longrightarrow> sl_ok r t s \<Longrightarrow> sl_ok r t (fst (sl_acquire r s t))"
    by (auto simp: sl_ok_def sl_acquire_def Let_def sorted_append)
  show "rule_ok r \<Longrightarrow> sl_ok r t s \<Longrightarrow> t \<le> u \<Longrightarrow> sl_evict r (sl_evict r s t) u = sl_evict r s u" by (simp add: sl_evict_twice)
  show "rule_ok r \<Longrightarrow> sl_ok r t s \<Longrightarrow> sl_acquire r (sl_evict r s t) t = sl_acquire r s t"
    "rule_ok r \<Longrightarrow> sl_ok r t s \<Longrightarrow> sl_remaining r (sl_evict r s t) t = sl_remaining r s t"
    "rule_ok r \<Longrightarrow> sl_ok r t s \<Longrightarrow> sl_retry_after r (sl_evict r s t) t = sl_retry_after r s t"
    by (simp_all add: sl_acquire_def sl_remaining_def sl_retry_after_def sl_evict_twice)
  show "rule_ok r \<Longrightarrow> t \<le> u \<Longrightarrow> sl_evict r (sl_new r t) u = sl_new r u" by (simp add: sl_evict_def sl_new_def)
  show "fst (sl_remaining r s t) = sl_evict r s t" "fst (sl_retry_after r s t) = sl_evict r s t"
    by (simp_all add: sl_remaining_def sl_retry_after_def Let_def)
  show "rule_ok r \<Longrightarrow> sl_ok r t s \<Longrightarrow> ru_max r \<le> snd (sl_remaining r s t) \<Longrightarrow> sl_evict r s t = sl_new r t"
    by (simp add: sl_remaining_def Let_def sl_new_def)
  show "rule_ok r \<Longrightarrow> sl_ok r t s \<Longrightarrow> t \<le> u \<Longrightarrow> snd (sl_acquire r s u) \<longleftrightarrow> snd (sl_retry_after r s t) \<le> u - t"
    by (rule sl_retry_exact)
qed

subsection \<open>The sliding window counter\<close>

definition sc_ok :: "rule \<Rightarrow> rat \<Rightarrow> window_state \<Rightarrow> bool" where
  "sc_ok r t s \<longleftrightarrow> wn_window s \<le> window_index r t \<and> 0 \<le> wn_count s \<and> wn_count s \<le> ru_max r \<and> 0 \<le> wn_prev s \<and> wn_prev s \<le> ru_max r"

lemma sc_roll_twice: "rule_ok r \<Longrightarrow> t \<le> u \<Longrightarrow> sc_ok r t s \<Longrightarrow> sc_roll r (sc_roll r s t) u = sc_roll r s u"
  using window_index_mono [of r t u] by (auto simp: sc_roll_def Let_def sc_ok_def)

lemma sc_roll_ok: "rule_ok r \<Longrightarrow> sc_ok r t s \<Longrightarrow> sc_ok r t (sc_roll r s t) \<and> wn_window (sc_roll r s t) = window_index r t"
  by (auto simp: sc_roll_def Let_def sc_ok_def rule_ok_def)

lemma fraction_bounds:
  assumes "rule_ok r" "wn_window s = window_index r t"
  shows "0 \<le> fraction r s t" "fraction r s t < 1"
proof -
  have "fraction r s t = t / ru_window r - of_int \<lfloor>t / ru_window r\<rfloor>"
    using assms by (simp add: fraction_def window_index_def rule_ok_def diff_divide_distrib)
  then show "0 \<le> fraction r s t" "fraction r s t < 1" by linarith+
qed

lemma fraction_ge: "rule_ok r \<Longrightarrow> x \<le> fraction r s u \<longleftrightarrow> of_int (wn_window s) * ru_window r + ru_window r * x \<le> u"
  by (auto simp: fraction_def rule_ok_def pos_le_divide_eq algebra_simps)

text \<open>When the counters let a request pass at a later time: in the same window, in the next one, and after that.\<close>

lemma sc_allowed:
  assumes r: "rule_ok r" and s: "wn_window s = window_index r t" and tu: "t \<le> u"
  shows "window_index r u = window_index r t \<Longrightarrow> snd (sc_acquire r s u) \<longleftrightarrow> of_int (wn_prev s) * (1 - fraction r s u) \<le> of_int (ru_max r - 1 - wn_count s)"
    "window_index r u = window_index r t + 1 \<Longrightarrow> snd (sc_acquire r s u) \<longleftrightarrow> of_int (wn_count s) * (2 - fraction r s u) \<le> of_int (ru_max r - 1)"
    "window_index r t + 1 < window_index r u \<Longrightarrow> snd (sc_acquire r s u)"
proof -
  have W: "0 < ru_window r" using r by (simp add: rule_ok_def)
  show "window_index r u = window_index r t \<Longrightarrow> snd (sc_acquire r s u) \<longleftrightarrow> of_int (wn_prev s) * (1 - fraction r s u) \<le> of_int (ru_max r - 1 - wn_count s)"
    using s by (auto simp: sc_acquire_def sc_roll_def Let_def estimate_def algebra_simps)
  show "window_index r u = window_index r t + 1 \<Longrightarrow> snd (sc_acquire r s u) \<longleftrightarrow> of_int (wn_count s) * (2 - fraction r s u) \<le> of_int (ru_max r - 1)"
  proof -
    assume n: "window_index r u = window_index r t + 1"
    have "1 - fraction r (s\<lparr>wn_window := window_index r t + 1, wn_prev := wn_count s, wn_count := 0\<rparr>) u = 2 - fraction r s u"
      using W s by (simp add: fraction_def field_simps)
    then have e: "estimate r (s\<lparr>wn_window := window_index r t + 1, wn_prev := wn_count s, wn_count := 0\<rparr>) u = of_int (wn_count s) * (2 - fraction r s u)"
      by (simp add: estimate_def)
    have roll: "sc_roll r s u = s\<lparr>wn_window := window_index r t + 1, wn_prev := wn_count s, wn_count := 0\<rparr>"
      using n s by (simp add: sc_roll_def Let_def)
    show "snd (sc_acquire r s u) \<longleftrightarrow> of_int (wn_count s) * (2 - fraction r s u) \<le> of_int (ru_max r - 1)"
      unfolding sc_acquire_def Let_def roll e by auto
  qed
  show "window_index r t + 1 < window_index r u \<Longrightarrow> snd (sc_acquire r s u)"
    using s r by (simp add: sc_acquire_def sc_roll_def Let_def estimate_def rule_ok_def)
qed

lemma mult_le_self: "0 \<le> c \<Longrightarrow> x \<le> 1 \<Longrightarrow> c * x \<le> c" for c x :: rat
  by (simp add: mult_left_le)

lemma sc_later_window:
  assumes "rule_ok r" "wn_window s = window_index r t" "window_index r t < window_index r u"
  shows "1 \<le> fraction r s u"
  using window_index_le [OF assms(1), of "window_index r t + 1" u] assms fraction_ge [OF assms(1), of 1 s u]
  by (simp add: algebra_simps)

lemma sc_wait_zero:
  assumes r: "rule_ok r" and s: "wn_window s = window_index r t" "sc_ok r t s" and tu: "t \<le> u" and now: "snd (sc_acquire r s t)"
  shows "snd (sc_acquire r s u)"
proof -
  let ?p = "of_int (wn_prev s) :: rat" and ?c = "of_int (wn_count s) :: rat"
  have W: "0 < ru_window r" using r by (simp add: rule_ok_def)
  have pc: "0 \<le> ?p" "0 \<le> ?c" using s(2) by (auto simp: sc_ok_def)
  have n: "?p * (1 - fraction r s t) \<le> of_int (ru_max r - 1 - wn_count s)" using sc_allowed(1) [OF r s(1) order.refl] now by simp
  then have c: "?c \<le> of_int (ru_max r - 1)" using mult_nonneg_nonneg [OF pc(1), of "1 - fraction r s t"] fraction_bounds [OF r s(1)] by simp
  have mono: "fraction r s t \<le> fraction r s u" using W tu by (simp add: fraction_def divide_right_mono)
  consider "window_index r u = window_index r t" | "window_index r u = window_index r t + 1" | "window_index r t + 1 < window_index r u"
    using window_index_mono [OF r tu] by linarith
  then show ?thesis
  proof cases
    case 1
    have "?p * (1 - fraction r s u) \<le> ?p * (1 - fraction r s t)" using mono pc(1) by (intro mult_left_mono) auto
    then show ?thesis using sc_allowed(1) [OF r s(1) tu 1] n by linarith
  next
    case 2
    then have "?c * (2 - fraction r s u) \<le> ?c" using sc_later_window [OF r s(1), of u] by (intro mult_le_self pc(2)) simp
    then show ?thesis using sc_allowed(2) [OF r s(1) tu 2] c by linarith
  qed (rule sc_allowed(3) [OF r s(1) tu])
qed

lemma sc_wait_here:
  assumes r: "rule_ok r" and s: "wn_window s = window_index r t" "sc_ok r t s" and tu: "t \<le> u"
    and h: "0 \<le> ru_max r - 1 - wn_count s" "0 < wn_prev s"
  shows "snd (sc_acquire r s u) \<longleftrightarrow> 1 - of_int (ru_max r - 1 - wn_count s) / of_int (wn_prev s) \<le> fraction r s u"
proof -
  let ?p = "of_int (wn_prev s) :: rat" and ?c = "of_int (wn_count s) :: rat" and ?h = "of_int (ru_max r - 1 - wn_count s) :: rat"
  have p: "0 < ?p" "0 \<le> ?c" "0 \<le> ?h" using h s(2) by (auto simp: sc_ok_def)
  have q: "1 - ?h / ?p \<le> 1" using p by simp
  consider "window_index r u = window_index r t" | "window_index r u = window_index r t + 1" | "window_index r t + 1 < window_index r u"
    using window_index_mono [OF r tu] by linarith
  then show ?thesis
  proof cases
    case 1
    have "?p * (1 - fraction r s u) \<le> ?h \<longleftrightarrow> 1 - ?h / ?p \<le> fraction r s u" using p(1) by (simp add: field_simps)
    then show ?thesis using sc_allowed(1) [OF r s(1) tu 1] by simp
  next
    case 2
    then have f: "1 \<le> fraction r s u" using sc_later_window [OF r s(1), of u] by simp
    then have "?c * (2 - fraction r s u) \<le> ?c" by (intro mult_le_self p(2)) simp
    moreover have "?c \<le> of_int (ru_max r - 1)" using h(1) by simp
    ultimately show ?thesis using sc_allowed(2) [OF r s(1) tu 2] f q by linarith
  next
    case 3
    then show ?thesis using sc_allowed(3) [OF r s(1) tu] sc_later_window [OF r s(1), of u] q by linarith
  qed
qed

lemma sc_wait_next:
  assumes r: "rule_ok r" and s: "wn_window s = window_index r t" "sc_ok r t s" and tu: "t \<le> u" and c: "wn_count s = ru_max r"
  shows "snd (sc_acquire r s u) \<longleftrightarrow> 2 - of_int (ru_max r - 1) / of_int (wn_count s) \<le> fraction r s u"
proof -
  let ?p = "of_int (wn_prev s) :: rat" and ?c = "of_int (wn_count s) :: rat" and ?l = "of_int (ru_max r - 1) :: rat"
  have p: "0 \<le> ?p" "0 < ?c" "0 \<le> ?l" "?l \<le> ?c" using s(2) c r by (auto simp: sc_ok_def rule_ok_def)
  have q: "?l / ?c \<le> 1" "0 \<le> ?l / ?c" using p by simp_all
  consider "window_index r u = window_index r t" | "window_index r u = window_index r t + 1" | "window_index r t + 1 < window_index r u"
    using window_index_mono [OF r tu] by linarith
  then show ?thesis
  proof cases
    case 1
    then have f: "fraction r s u < 1" using fraction_bounds(2) [of r s u] r s(1) by simp
    then have "0 \<le> ?p * (1 - fraction r s u)" using p(1) by simp
    then show ?thesis using sc_allowed(1) [OF r s(1) tu 1] f q c by simp
  next
    case 2
    have "?c * (2 - fraction r s u) \<le> ?l \<longleftrightarrow> 2 - ?l / ?c \<le> fraction r s u" using p(2) by (simp add: field_simps)
    then show ?thesis using sc_allowed(2) [OF r s(1) tu 2] by simp
  next
    case 3
    have "of_int (window_index r t + 2) * ru_window r \<le> u" using window_index_le [OF r, of "window_index r t + 2" u] 3 by simp
    then have "2 \<le> fraction r s u" using fraction_ge [OF r, of 2 s u] s(1) by (simp add: algebra_simps)
    then show ?thesis using sc_allowed(3) [OF r s(1) tu 3] q by linarith
  qed
qed

lemma sc_acquire_roll: "rule_ok r \<Longrightarrow> sc_ok r t s \<Longrightarrow> t \<le> u \<Longrightarrow> sc_acquire r (sc_roll r s t) u = sc_acquire r s u"
  by (simp add: sc_acquire_def sc_roll_twice)

lemma max_zero_le: "t \<le> u \<Longrightarrow> max 0 (x - t) \<le> u - t \<longleftrightarrow> x \<le> u" for t u x :: rat
  by (auto simp: max_def)

lemma sc_retry_exact:
  assumes r: "rule_ok r" and ok: "sc_ok r t s" and tu: "t \<le> u"
  shows "snd (sc_acquire r s u) \<longleftrightarrow> snd (sc_retry_after r s t) \<le> u - t"
proof -
  let ?s = "sc_roll r s t"
  let ?start = "of_int (wn_window ?s) * ru_window r" and ?h = "ru_max r - 1 - wn_count ?s"
  have s: "wn_window ?s = window_index r t" "sc_ok r t ?s" using sc_roll_ok [OF r ok] by auto
  have acq: "snd (sc_acquire r s u) = snd (sc_acquire r ?s u)" by (simp add: sc_acquire_roll [OF r ok tu])
  have now: "snd (sc_acquire r ?s t) \<longleftrightarrow> estimate r ?s t + 1 \<le> of_int (ru_max r)"
    unfolding sc_acquire_roll [OF r ok order.refl] by (simp add: sc_acquire_def Let_def)
  show ?thesis
  proof (cases "snd (sc_acquire r ?s t)")
    case True
    then show ?thesis using sc_wait_zero [OF r s tu True] acq now tu by (simp add: sc_retry_after_def Let_def)
  next
    case no: False
    show ?thesis
    proof (cases "0 \<le> ?h \<and> 0 < wn_prev ?s")
      case True
      then have "snd (sc_retry_after r s t) = max 0 (?start + ru_window r * (1 - of_int ?h / of_int (wn_prev ?s)) - t)"
        using no now by (simp add: sc_retry_after_def Let_def)
      then show ?thesis using sc_wait_here [OF r s tu] True acq max_zero_le [OF tu] fraction_ge [OF r] by simp
    next
      case False
      then have c: "wn_count ?s = ru_max r" using no sc_allowed(1) [OF r s(1) order.refl refl] s(2) by (auto simp: sc_ok_def)
      have "snd (sc_retry_after r s t) = max 0 (?start + ru_window r + ru_window r * (1 - of_int (ru_max r - 1) / of_int (wn_count ?s)) - t)"
        using no now False by (auto simp: sc_retry_after_def Let_def)
      also have "?start + ru_window r + ru_window r * (1 - of_int (ru_max r - 1) / of_int (wn_count ?s))
          = ?start + ru_window r * (2 - of_int (ru_max r - 1) / of_int (wn_count ?s))" by (simp add: algebra_simps)
      finally show ?thesis using sc_wait_next [OF r s tu c] acq max_zero_le [OF tu] fraction_ge [OF r] by simp
    qed
  qed
qed

lemma sc_acquire_ok: "rule_ok r \<Longrightarrow> sc_ok r t s \<Longrightarrow> sc_ok r t (fst (sc_acquire r s t))"
proof -
  assume r: "rule_ok r" and ok: "sc_ok r t s"
  let ?s = "sc_roll r s t"
  have s: "wn_window ?s = window_index r t" "sc_ok r t ?s" using sc_roll_ok [OF r ok] by auto
  have "0 \<le> of_int (wn_prev ?s) * (1 - fraction r ?s t)" using fraction_bounds [OF r s(1)] s(2) by (simp add: sc_ok_def)
  then have "(of_int (wn_count ?s) :: rat) \<le> estimate r ?s t" by (simp add: estimate_def)
  then show ?thesis using s(2) by (auto simp: sc_acquire_def Let_def sc_ok_def)
qed

lemma sc_idle:
  assumes r: "rule_ok r" and ok: "sc_ok r t s" and idle: "ru_max r \<le> snd (sc_remaining r s t)"
  shows "sc_roll r s t = sc_new r t"
proof -
  let ?s = "sc_roll r s t"
  have s: "wn_window ?s = window_index r t" "sc_ok r t ?s" using sc_roll_ok [OF r ok] by auto
  have nn: "0 \<le> (of_int (wn_prev ?s) :: rat)" "0 \<le> (of_int (wn_count ?s) :: rat)" "0 < 1 - fraction r ?s t"
    using s(2) fraction_bounds [OF r s(1)] by (simp_all add: sc_ok_def)
  have "0 < ru_max r" using r by (simp add: rule_ok_def)
  then have "ru_max r \<le> \<lfloor>of_int (ru_max r) - estimate r ?s t\<rfloor>" using idle by (auto simp: sc_remaining_def Let_def max_def split: if_splits)
  then have e: "estimate r ?s t \<le> 0" by (simp add: le_floor_iff)
  have "0 \<le> of_int (wn_prev ?s) * (1 - fraction r ?s t)" using nn by simp
  then have "of_int (wn_prev ?s) * (1 - fraction r ?s t) = 0" "(of_int (wn_count ?s) :: rat) = 0"
    using e nn(2) unfolding estimate_def by linarith+
  then have "wn_prev ?s = 0" "wn_count ?s = 0" using nn(3) by auto
  then show ?thesis using s(1) by (simp add: sc_new_def)
qed

interpretation sliding_counter: rate_algorithm rule_ok ru_max sc_new sc_roll sc_acquire sc_remaining sc_retry_after sc_ok
proof unfold_locales
  fix r s and t u :: rat
  show "rule_ok r \<Longrightarrow> sc_ok r t (sc_new r t)" by (simp add: sc_ok_def sc_new_def rule_ok_def)
  show "rule_ok r \<Longrightarrow> sc_ok r t s \<Longrightarrow> t \<le> u \<Longrightarrow> sc_ok r u s" using window_index_mono [of r t u] by (auto simp: sc_ok_def)
  show "rule_ok r \<Longrightarrow> sc_ok r t s \<Longrightarrow> sc_ok r t (sc_roll r s t)" using sc_roll_ok by blast
  show "rule_ok r \<Longrightarrow> sc_ok r t s \<Longrightarrow> sc_ok r t (fst (sc_acquire r s t))" by (rule sc_acquire_ok)
  show "rule_ok r \<Longrightarrow> sc_ok r t s \<Longrightarrow> t \<le> u \<Longrightarrow> sc_roll r (sc_roll r s t) u = sc_roll r s u" by (simp add: sc_roll_twice)
  show "rule_ok r \<Longrightarrow> sc_ok r t s \<Longrightarrow> sc_acquire r (sc_roll r s t) t = sc_acquire r s t"
    "rule_ok r \<Longrightarrow> sc_ok r t s \<Longrightarrow> sc_remaining r (sc_roll r s t) t = sc_remaining r s t"
    "rule_ok r \<Longrightarrow> sc_ok r t s \<Longrightarrow> sc_retry_after r (sc_roll r s t) t = sc_retry_after r s t"
    by (simp_all add: sc_acquire_def sc_remaining_def sc_retry_after_def sc_roll_twice)
  show "rule_ok r \<Longrightarrow> t \<le> u \<Longrightarrow> sc_roll r (sc_new r t) u = sc_new r u"
    using window_index_mono [of r t u] by (auto simp: sc_roll_def sc_new_def Let_def)
  show "fst (sc_remaining r s t) = sc_roll r s t" "fst (sc_retry_after r s t) = sc_roll r s t"
    by (simp_all add: sc_remaining_def sc_retry_after_def Let_def)
  show "rule_ok r \<Longrightarrow> sc_ok r t s \<Longrightarrow> ru_max r \<le> snd (sc_remaining r s t) \<Longrightarrow> sc_roll r s t = sc_new r t" by (rule sc_idle)
  show "rule_ok r \<Longrightarrow> sc_ok r t s \<Longrightarrow> t \<le> u \<Longrightarrow> snd (sc_acquire r s u) \<longleftrightarrow> snd (sc_retry_after r s t) \<le> u - t"
    by (rule sc_retry_exact)
qed

section \<open>The sliding log is exact\<close>

text \<open>The accepted requests of a run, and the same decided from the full history of accepted requests.\<close>

fun sl_run :: "rule \<Rightarrow> log_state \<Rightarrow> rat list \<Rightarrow> bool list" where
  "sl_run r s [] = []"
| "sl_run r s (t # ts) = snd (sl_acquire r s t) # sl_run r (fst (sl_acquire r s t)) ts"

fun window_run :: "rule \<Rightarrow> rat list \<Rightarrow> rat list \<Rightarrow> bool list" where
  "window_run r hist [] = []"
| "window_run r hist (t # ts) =
     (let ok = int (length (filter (\<lambda>x. t - ru_window r < x) hist)) < ru_max r
      in ok # window_run r (if ok then hist @ [t] else hist) ts)"

definition granted_times :: "rat list \<Rightarrow> bool list \<Rightarrow> rat list" where
  "granted_times ts oks = map fst (filter snd (zip ts oks))"

lemma dropWhile_sorted: "sorted xs \<Longrightarrow> dropWhile (\<lambda>x. x \<le> c) xs = filter (\<lambda>x. c < x) xs" for c :: rat
  by (induction xs) (auto simp: not_le intro!: filter_True [symmetric] dest: order_less_le_trans)

lemma sl_run_window:
  assumes "sorted hist" "\<forall>x \<in> set hist. x \<le> t" "\<And>u. t \<le> u \<Longrightarrow> sl_evict r s u = filter (\<lambda>x. u - ru_window r < x) hist"
    and "sorted (t # ts)"
  shows "sl_run r s ts = window_run r hist ts"
  using assms
proof (induction ts arbitrary: hist s t)
  case (Cons u ts)
  let ?e = "filter (\<lambda>x. u - ru_window r < x) hist"
  have e: "sl_evict r s u = ?e" using Cons.prems by simp
  have s: "sorted (hist @ [u])" "\<forall>x \<in> set (hist @ [u]). x \<le> u" using Cons.prems by (auto simp: sorted_append)
  have ev: "sl_evict r ?e v = filter (\<lambda>x. v - ru_window r < x) hist" if "u \<le> v" for v
    using sl_evict_twice [OF that, of r s] e Cons.prems(3) [of v] Cons.prems(4) that by simp
  have ev': "sl_evict r (?e @ [u]) v = filter (\<lambda>x. v - ru_window r < x) (hist @ [u])" if "u \<le> v" for v
  proof -
    have "sorted (?e @ [u])" using Cons.prems by (auto simp: sorted_append sorted_wrt_filter)
    then have "sl_evict r (?e @ [u]) v = filter (\<lambda>x. v - ru_window r < x) (?e @ [u])" unfolding sl_evict_def by (rule dropWhile_sorted)
    also have "\<dots> = filter (\<lambda>x. v - ru_window r < x) (hist @ [u])" using that by (auto intro!: filter_cong)
    finally show ?thesis .
  qed
  have tl: "sorted (u # ts)" using Cons.prems(4) by simp
  show ?case
  proof (cases "int (length ?e) < ru_max r")
    case True
    then show ?thesis using Cons.IH [OF s ev' tl] by (simp add: sl_acquire_def Let_def e)
  next
    case False
    have "\<forall>x \<in> set hist. x \<le> u" using s(2) by simp
    from Cons.IH [OF Cons.prems(1) this ev tl] show ?thesis using False by (simp add: sl_acquire_def Let_def e)
  qed
qed simp

lemma window_bound:
  fixes W :: rat
  assumes "\<And>x. int (length (filter (\<lambda>a. x < a \<and> a \<le> x + ru_window r) hist)) \<le> ru_max r" "\<forall>a \<in> set hist. a \<le> t" "sorted (t # ts)"
  shows "int (length (filter (\<lambda>a. x < a \<and> a \<le> x + ru_window r) (hist @ granted_times ts (window_run r hist ts)))) \<le> ru_max r"
  using assms
proof (induction ts arbitrary: hist t)
  case (Cons u ts)
  let ?e = "filter (\<lambda>a. u - ru_window r < a) hist"
  have hist: "\<forall>a \<in> set hist. a \<le> u" and tl: "sorted (u # ts)" using Cons.prems by auto
  show ?case
  proof (cases "int (length ?e) < ru_max r")
    case True
    have b: "int (length (filter (\<lambda>a. y < a \<and> a \<le> y + ru_window r) (hist @ [u]))) \<le> ru_max r" for y
    proof (cases "y < u \<and> u \<le> y + ru_window r")
      case y: True
      have "filter (\<lambda>a. y < a \<and> a \<le> y + ru_window r) hist = filter (\<lambda>a. y < a \<and> a \<le> y + ru_window r) ?e"
        using y by (auto intro!: filter_cong)
      then have "length (filter (\<lambda>a. y < a \<and> a \<le> y + ru_window r) hist) \<le> length ?e" by (metis length_filter_le)
      then show ?thesis using True y by simp
    qed (use Cons.prems(1) [of y] in auto)
    from Cons.IH [OF b _ tl] hist True show ?thesis by (simp add: granted_times_def)
  next
    case False
    from Cons.IH [OF Cons.prems(1) hist tl] False show ?thesis by (simp add: granted_times_def)
  qed
qed (simp add: granted_times_def)

section \<open>Properties\<close>

text \<open>
  On requests at non-decreasing times the sliding log, which forgets what it has evicted, grants a request exactly
  when fewer than the allowed number were granted in the window before it, counted over the full history; so no
  interval of the length of the window, wherever it starts, ever holds more granted requests than allowed.
\<close>

theorem sliding_log_exact:
  assumes "new_rule n w = Inr r" "sorted ts"
  shows "sl_run r (sl_new r t) ts = window_run r [] ts
    \<and> int (length (filter (\<lambda>a. x < a \<and> a \<le> x + w) (granted_times ts (sl_run r (sl_new r t) ts)))) \<le> n"
proof -
  have r: "ru_max r = n" "ru_window r = w" "0 < n" using assms(1) by (auto simp: new_rule_def split: if_splits)
  define t0 where "t0 = (case ts of [] \<Rightarrow> 0 | u # us \<Rightarrow> u)"
  have s: "sorted (t0 # ts)" using assms(2) by (auto simp: t0_def split: list.splits)
  have run: "sl_run r (sl_new r t) ts = window_run r [] ts"
    by (rule sl_run_window [OF _ _ _ s]) (simp_all add: sl_evict_def sl_new_def)
  have "int (length (filter (\<lambda>a. x < a \<and> a \<le> x + ru_window r) ([] @ granted_times ts (window_run r [] ts)))) \<le> ru_max r"
    by (rule window_bound [OF _ _ s]) (use r in simp_all)
  then show ?thesis using run r by simp
qed

theorem sliding_log_exact_witness:
  "sl_run \<lparr>ru_max = 2, ru_window = 10\<rparr> [] [0, 4, 5, 10, 13, 14] = [True, True, False, True, False, True]"
proof -
  have rule: "new_rule 2 10 = Inr \<lparr>ru_max = 2, ru_window = 10\<rparr>" by (simp add: new_rule_def)
  have "sorted [0, 4, 5, 10, 13, 14 :: rat]" by simp
  note run = conjunct1 [OF sliding_log_exact [OF rule this, of 0 0]]
  have "window_run \<lparr>ru_max = 2, ru_window = 10\<rparr> [] [0, 4, 5, 10, 13, 14] = [True, True, False, True, False, True]" by code_simp
  then show ?thesis using run unfolding sl_new_def by (rule trans [rotated])
qed

end
