(* ===== verification/Rate_Limiter.thy ===== *)
theory Rate_Limiter
  imports Rate_Algorithms
begin

text \<open>
  \<open>RateLimiter\<close>, the factory and the middleware of \<open>rate_limiter.py\<close>: one algorithm applied to many keys, with idle
  keys evicted. The lock of a key makes every call on it one step; the two readings of the clock in a call (before and
  under the lock) are its arguments. The loop that retries when it lost a race with an eviction is taken at its last
  round.
\<close>

section \<open>The limiter\<close>

datatype algorithm = TokenBucket rule | LeakyBucket rule | FixedWindowCounter rule | SlidingWindowLog rule | SlidingWindowCounter rule

datatype key_state = BucketState bucket_state | WindowState window_state | LogState log_state

fun algo_rule :: "algorithm \<Rightarrow> rule" where
  "algo_rule (TokenBucket r) = r"
| "algo_rule (LeakyBucket r) = r"
| "algo_rule (FixedWindowCounter r) = r"
| "algo_rule (SlidingWindowLog r) = r"
| "algo_rule (SlidingWindowCounter r) = r"

definition create :: "string \<Rightarrow> rule \<Rightarrow> py_error + algorithm" where
  "create name r =
     (if name = ''token_bucket'' then Inr (TokenBucket r)
      else if name = ''leaky_bucket'' then Inr (LeakyBucket r)
      else if name = ''fixed_window'' then Inr (FixedWindowCounter r)
      else if name = ''sliding_window_log'' then Inr (SlidingWindowLog r)
      else if name = ''sliding_window_counter'' then Inr (SlidingWindowCounter r)
      else Inl ValueError)"

fun new_state :: "algorithm \<Rightarrow> rat \<Rightarrow> key_state" where
  "new_state (TokenBucket r) now = BucketState (tb_new r now)"
| "new_state (LeakyBucket r) now = BucketState (lb_new r now)"
| "new_state (FixedWindowCounter r) now = WindowState (fw_new r now)"
| "new_state (SlidingWindowLog r) now = LogState (sl_new r now)"
| "new_state (SlidingWindowCounter r) now = WindowState (sc_new r now)"

text \<open>A method call goes to the class of the algorithm, whose states have one shape; other shapes do not occur.\<close>

fun algo_acquire :: "algorithm \<Rightarrow> key_state \<Rightarrow> rat \<Rightarrow> key_state \<times> bool" where
  "algo_acquire (TokenBucket r) (BucketState s) now = map_prod BucketState id (tb_acquire r s now)"
| "algo_acquire (LeakyBucket r) (BucketState s) now = map_prod BucketState id (lb_acquire r s now)"
| "algo_acquire (FixedWindowCounter r) (WindowState s) now = map_prod WindowState id (fw_acquire r s now)"
| "algo_acquire (SlidingWindowLog r) (LogState s) now = map_prod LogState id (sl_acquire r s now)"
| "algo_acquire (SlidingWindowCounter r) (WindowState s) now = map_prod WindowState id (sc_acquire r s now)"
| "algo_acquire _ s now = (s, False)"

fun algo_remaining :: "algorithm \<Rightarrow> key_state \<Rightarrow> rat \<Rightarrow> key_state \<times> int" where
  "algo_remaining (TokenBucket r) (BucketState s) now = map_prod BucketState id (tb_remaining r s now)"
| "algo_remaining (LeakyBucket r) (BucketState s) now = map_prod BucketState id (lb_remaining r s now)"
| "algo_remaining (FixedWindowCounter r) (WindowState s) now = map_prod WindowState id (fw_remaining r s now)"
| "algo_remaining (SlidingWindowLog r) (LogState s) now = map_prod LogState id (sl_remaining r s now)"
| "algo_remaining (SlidingWindowCounter r) (WindowState s) now = map_prod WindowState id (sc_remaining r s now)"
| "algo_remaining _ s now = (s, 0)"

fun algo_retry_after :: "algorithm \<Rightarrow> key_state \<Rightarrow> rat \<Rightarrow> key_state \<times> rat" where
  "algo_retry_after (TokenBucket r) (BucketState s) now = map_prod BucketState id (tb_retry_after r s now)"
| "algo_retry_after (LeakyBucket r) (BucketState s) now = map_prod BucketState id (lb_retry_after r s now)"
| "algo_retry_after (FixedWindowCounter r) (WindowState s) now = map_prod WindowState id (fw_retry_after r s now)"
| "algo_retry_after (SlidingWindowLog r) (LogState s) now = map_prod LogState id (sl_retry_after r s now)"
| "algo_retry_after (SlidingWindowCounter r) (WindowState s) now = map_prod WindowState id (sc_retry_after r s now)"
| "algo_retry_after _ s now = (s, 0)"

definition is_idle :: "algorithm \<Rightarrow> key_state \<Rightarrow> rat \<Rightarrow> key_state \<times> bool" where
  "is_idle a s now = (case algo_remaining a s now of (s1, n) \<Rightarrow> (s1, ru_max (algo_rule a) \<le> n))"

record decision =
  de_allowed :: bool
  de_remaining :: int
  de_retry_after :: rat

record limiter =
  li_algo :: algorithm
  li_entries :: "(string \<times> key_state) list"

definition new_limiter :: "algorithm \<Rightarrow> limiter" where
  "new_limiter a = \<lparr>li_algo = a, li_entries = []\<rparr>"

definition entry :: "limiter \<Rightarrow> string \<Rightarrow> rat \<Rightarrow> limiter \<times> key_state" where
  "entry l key now =
     (case map_of (li_entries l) key of
        Some s \<Rightarrow> (l, s)
      | None \<Rightarrow> (l\<lparr>li_entries := AList.update key (new_state (li_algo l) now) (li_entries l)\<rparr>, new_state (li_algo l) now))"

definition with_state :: "limiter \<Rightarrow> string \<Rightarrow> rat \<Rightarrow> rat \<Rightarrow> (key_state \<Rightarrow> rat \<Rightarrow> key_state \<times> decision) \<Rightarrow> limiter \<times> decision" where
  "with_state l key now now2 f =
     (case entry l key now of (l1, s) \<Rightarrow>
        (case f s now2 of (s1, d) \<Rightarrow> (l1\<lparr>li_entries := AList.update key s1 (li_entries l1)\<rparr>, d)))"

definition acquire_decision :: "algorithm \<Rightarrow> key_state \<Rightarrow> rat \<Rightarrow> key_state \<times> decision" where
  "acquire_decision a s now =
     (case algo_acquire a s now of (s1, ok) \<Rightarrow>
        (case algo_remaining a s1 now of (s2, n) \<Rightarrow>
           (case (if ok then (s2, 0) else algo_retry_after a s2 now) of (s3, wait) \<Rightarrow>
              (s3, \<lparr>de_allowed = ok, de_remaining = n, de_retry_after = wait\<rparr>))))"

definition peek_decision :: "algorithm \<Rightarrow> key_state \<Rightarrow> rat \<Rightarrow> key_state \<times> decision" where
  "peek_decision a s now =
     (case algo_retry_after a s now of (s1, wait) \<Rightarrow>
        (case algo_remaining a s1 now of (s2, n) \<Rightarrow>
           (s2, \<lparr>de_allowed = (wait = 0), de_remaining = n, de_retry_after = wait\<rparr>)))"

definition try_acquire :: "limiter \<Rightarrow> string \<Rightarrow> rat \<Rightarrow> rat \<Rightarrow> limiter \<times> decision" where
  "try_acquire l key now now2 = with_state l key now now2 (acquire_decision (li_algo l))"

definition allow :: "limiter \<Rightarrow> string \<Rightarrow> rat \<Rightarrow> rat \<Rightarrow> limiter \<times> bool" where
  "allow l key now now2 = (case try_acquire l key now now2 of (l1, d) \<Rightarrow> (l1, de_allowed d))"

definition peek :: "limiter \<Rightarrow> string \<Rightarrow> rat \<Rightarrow> rat \<Rightarrow> limiter \<times> decision" where
  "peek l key now now2 = with_state l key now now2 (peek_decision (li_algo l))"

definition reset_key :: "limiter \<Rightarrow> string \<Rightarrow> limiter" where
  "reset_key l key = l\<lparr>li_entries := AList.delete key (li_entries l)\<rparr>"

text \<open>\<open>busy\<close>: the keys whose lock another thread holds; \<open>clock\<close>: the reading taken for each key.\<close>

fun evict_entries :: "algorithm \<Rightarrow> (string \<Rightarrow> bool) \<Rightarrow> (string \<Rightarrow> rat) \<Rightarrow> (string \<times> key_state) list \<Rightarrow> (string \<times> key_state) list \<times> nat" where
  "evict_entries a busy clock [] = ([], 0)"
| "evict_entries a busy clock ((k, s) # es) =
     (case evict_entries a busy clock es of (es1, removed) \<Rightarrow>
        if busy k then ((k, s) # es1, removed)
        else (case is_idle a s (clock k) of (s1, idle) \<Rightarrow>
                if idle then (es1, removed + 1) else ((k, s1) # es1, removed)))"

definition evict_idle :: "limiter \<Rightarrow> (string \<Rightarrow> bool) \<Rightarrow> (string \<Rightarrow> rat) \<Rightarrow> limiter \<times> nat" where
  "evict_idle l busy clock =
     (case evict_entries (li_algo l) busy clock (li_entries l) of (es, removed) \<Rightarrow> (l\<lparr>li_entries := es\<rparr>, removed))"

subsection \<open>The middleware\<close>

type_synonym middleware = "(string \<times> limiter) list"

definition add_rule :: "middleware \<Rightarrow> string \<Rightarrow> rule \<Rightarrow> string \<Rightarrow> py_error + middleware" where
  "add_rule m endpoint r algo = bind_sum (create algo r) (\<lambda>a. Inr (AList.update endpoint (new_limiter a) m))"

definition unlimited :: decision where
  "unlimited = \<lparr>de_allowed = True, de_remaining = 2 ^ 63 - 1, de_retry_after = 0\<rparr>"

definition check :: "middleware \<Rightarrow> string \<Rightarrow> string \<Rightarrow> rat \<Rightarrow> rat \<Rightarrow> middleware \<times> decision" where
  "check m endpoint client now now2 =
     (case map_of m endpoint of
        None \<Rightarrow> (m, unlimited)
      | Some l \<Rightarrow> (case try_acquire l (endpoint @ '':'' @ client) now now2 of (l1, d) \<Rightarrow> (AList.update endpoint l1 m, d)))"

section \<open>The contract of whichever algorithm is chosen\<close>

fun algo_update :: "algorithm \<Rightarrow> key_state \<Rightarrow> rat \<Rightarrow> key_state" where
  "algo_update (TokenBucket r) (BucketState s) now = BucketState (tb_refill r s now)"
| "algo_update (LeakyBucket r) (BucketState s) now = BucketState (lb_leak r s now)"
| "algo_update (FixedWindowCounter r) (WindowState s) now = WindowState (fw_roll r s now)"
| "algo_update (SlidingWindowLog r) (LogState s) now = LogState (sl_evict r s now)"
| "algo_update (SlidingWindowCounter r) (WindowState s) now = WindowState (sc_roll r s now)"
| "algo_update _ s now = s"

fun algo_ok :: "algorithm \<Rightarrow> rat \<Rightarrow> key_state \<Rightarrow> bool" where
  "algo_ok (TokenBucket r) t (BucketState s) = bucket_ok r t s"
| "algo_ok (LeakyBucket r) t (BucketState s) = bucket_ok r t s"
| "algo_ok (FixedWindowCounter r) t (WindowState s) = fw_ok r t s"
| "algo_ok (SlidingWindowLog r) t (LogState s) = sl_ok r t s"
| "algo_ok (SlidingWindowCounter r) t (WindowState s) = sc_ok r t s"
| "algo_ok _ t s = False"

definition algo_valid :: "algorithm \<Rightarrow> bool" where
  "algo_valid a \<longleftrightarrow> rule_ok (algo_rule a)"

definition algo_limit :: "algorithm \<Rightarrow> int" where
  "algo_limit a = ru_max (algo_rule a)"

lemma key_cases:
  assumes "algo_ok a t s"
  obtains r b where "a = TokenBucket r" "s = BucketState b" "bucket_ok r t b"
  | r b where "a = LeakyBucket r" "s = BucketState b" "bucket_ok r t b"
  | r w where "a = FixedWindowCounter r" "s = WindowState w" "fw_ok r t w"
  | r xs where "a = SlidingWindowLog r" "s = LogState xs" "sl_ok r t xs"
  | r w where "a = SlidingWindowCounter r" "s = WindowState w" "sc_ok r t w"
  using assms by (cases a; cases s) auto

lemma algo_states: "fst (algo_remaining a s t) = algo_update a s t" "fst (algo_retry_after a s t) = algo_update a s t"
  by (cases a; cases s; simp add: token_bucket.remaining_state leaky_bucket.remaining_state fixed_window.remaining_state
      sliding_log.remaining_state sliding_counter.remaining_state token_bucket.retry_state leaky_bucket.retry_state
      fixed_window.retry_state sliding_log.retry_state sliding_counter.retry_state)+

interpretation algo: rate_algorithm algo_valid algo_limit new_state algo_update algo_acquire algo_remaining algo_retry_after algo_ok
proof unfold_locales
  fix a s and t u :: rat
  show "algo_valid a \<Longrightarrow> algo_ok a t (new_state a t)"
    by (cases a) (auto simp: algo_valid_def token_bucket.new_ok leaky_bucket.new_ok fixed_window.new_ok sliding_log.new_ok sliding_counter.new_ok)
  show "algo_valid a \<Longrightarrow> algo_ok a t s \<Longrightarrow> t \<le> u \<Longrightarrow> algo_ok a u s"
    by (erule key_cases) (auto simp: algo_valid_def intro: token_bucket.ok_later fixed_window.ok_later sliding_log.ok_later sliding_counter.ok_later)
  show "algo_valid a \<Longrightarrow> algo_ok a t s \<Longrightarrow> algo_ok a t (algo_update a s t)"
    by (erule key_cases) (auto simp: algo_valid_def token_bucket.update_ok leaky_bucket.update_ok fixed_window.update_ok sliding_log.update_ok sliding_counter.update_ok)
  show "algo_valid a \<Longrightarrow> algo_ok a t s \<Longrightarrow> algo_ok a t (fst (algo_acquire a s t))"
    by (erule key_cases) (auto simp: algo_valid_def token_bucket.acquire_ok leaky_bucket.acquire_ok fixed_window.acquire_ok sliding_log.acquire_ok sliding_counter.acquire_ok)
  show "algo_valid a \<Longrightarrow> algo_ok a t s \<Longrightarrow> t \<le> u \<Longrightarrow> algo_update a (algo_update a s t) u = algo_update a s u"
    by (erule key_cases) (auto simp: algo_valid_def token_bucket.update_update leaky_bucket.update_update fixed_window.update_update sliding_log.update_update sliding_counter.update_update)
  show "algo_valid a \<Longrightarrow> t \<le> u \<Longrightarrow> algo_update a (new_state a t) u = new_state a u"
    by (cases a) (auto simp: algo_valid_def token_bucket.update_new leaky_bucket.update_new fixed_window.update_new sliding_log.update_new sliding_counter.update_new)
  show "algo_valid a \<Longrightarrow> algo_ok a t s \<Longrightarrow> algo_acquire a (algo_update a s t) t = algo_acquire a s t"
    by (erule key_cases) (auto simp: algo_valid_def token_bucket.acquire_update leaky_bucket.acquire_update fixed_window.acquire_update sliding_log.acquire_update sliding_counter.acquire_update)
  show "algo_valid a \<Longrightarrow> algo_ok a t s \<Longrightarrow> algo_remaining a (algo_update a s t) t = algo_remaining a s t"
    by (erule key_cases) (auto simp: algo_valid_def token_bucket.remaining_update leaky_bucket.remaining_update fixed_window.remaining_update sliding_log.remaining_update sliding_counter.remaining_update)
  show "algo_valid a \<Longrightarrow> algo_ok a t s \<Longrightarrow> algo_retry_after a (algo_update a s t) t = algo_retry_after a s t"
    by (erule key_cases) (auto simp: algo_valid_def token_bucket.retry_update leaky_bucket.retry_update fixed_window.retry_update sliding_log.retry_update sliding_counter.retry_update)
  show "fst (algo_remaining a s t) = algo_update a s t" "fst (algo_retry_after a s t) = algo_update a s t" by (rule algo_states)+
  show "algo_valid a \<Longrightarrow> algo_ok a t s \<Longrightarrow> algo_limit a \<le> snd (algo_remaining a s t) \<Longrightarrow> algo_update a s t = new_state a t"
    by (erule key_cases) (auto simp: algo_valid_def algo_limit_def token_bucket.idle_new leaky_bucket.idle_new fixed_window.idle_new sliding_log.idle_new sliding_counter.idle_new)
  show "algo_valid a \<Longrightarrow> algo_ok a t s \<Longrightarrow> t \<le> u \<Longrightarrow> snd (algo_acquire a s u) \<longleftrightarrow> snd (algo_retry_after a s t) \<le> u - t"
    by (erule key_cases) (auto simp: algo_valid_def token_bucket.retry_exact leaky_bucket.retry_exact fixed_window.retry_exact sliding_log.retry_exact sliding_counter.retry_exact)
qed

section \<open>Two limiters that answer alike\<close>

text \<open>A key without an entry counts as fresh at any time.\<close>

definition state_at :: "limiter \<Rightarrow> string \<Rightarrow> rat \<Rightarrow> key_state" where
  "state_at l k t = (case map_of (li_entries l) k of None \<Rightarrow> new_state (li_algo l) t | Some s \<Rightarrow> s)"

definition alike :: "rat \<Rightarrow> limiter \<Rightarrow> limiter \<Rightarrow> bool" where
  "alike t l l' \<longleftrightarrow> li_algo l' = li_algo l \<and> algo_valid (li_algo l) \<and> distinct (map fst (li_entries l))
     \<and> (\<forall>k. algo.same (li_algo l) t (state_at l k t) (state_at l' k t))"

lemma alikeD:
  assumes "alike t l l'"
  shows "li_algo l' = li_algo l" "algo_valid (li_algo l)" "distinct (map fst (li_entries l))"
    "algo.same (li_algo l) t (state_at l k t) (state_at l' k t)"
  using assms unfolding alike_def by simp_all

lemma same_sym: "algo.same a t s s' \<Longrightarrow> algo.same a t s' s"
  by (simp add: algo.same_def)

lemma same_trans: "algo.same a t s s' \<Longrightarrow> algo.same a t s' s'' \<Longrightarrow> algo.same a t s s''"
  by (simp add: algo.same_def)

lemma state_at_later:
  assumes "algo_valid (li_algo l)" "algo_ok (li_algo l) t (state_at l k t)" "t \<le> u"
  shows "algo.same (li_algo l) u (state_at l k t) (state_at l k u)"
  using assms algo.same_new [OF assms(1,3)] algo.ok_later [OF assms]
  by (auto simp: state_at_def algo.same_refl split: option.splits)

lemma alike_later:
  assumes al: "alike t l l'" and tu: "t \<le> u"
  shows "alike u l l'"
proof -
  have "algo.same (li_algo l) u (state_at l k u) (state_at l' k u)" for k
  proof -
    note s = alikeD(4) [OF al, of k] and v = alikeD(2,1) [OF al]
    have ok: "algo_ok (li_algo l) t (state_at l k t)" "algo_ok (li_algo l') t (state_at l' k t)" using s v by (auto simp: algo.same_def)
    have "algo.same (li_algo l) u (state_at l k t) (state_at l k u)" "algo.same (li_algo l) u (state_at l' k t) (state_at l' k u)"
      using state_at_later [OF v(1) ok(1) tu] state_at_later [OF _ ok(2) tu] v by auto
    then show ?thesis using algo.same_later [OF v(1) s tu] by (meson same_sym same_trans)
  qed
  then show ?thesis using alikeD(1-3) [OF al] by (simp add: alike_def)
qed

lemma entry_state: "entry l k t = (l1, s) \<Longrightarrow> s = state_at l k t \<and> li_algo l1 = li_algo l
    \<and> (distinct (map fst (li_entries l)) \<longrightarrow> distinct (map fst (li_entries l1))) \<and> (\<forall>j. j \<noteq> k \<longrightarrow> map_of (li_entries l1) j = map_of (li_entries l) j)"
  by (auto simp: entry_def state_at_def distinct_update update_conv' split: option.splits)

lemma with_state_alike:
  assumes al: "alike t1 l l'" and t: "t1 \<le> t2"
    and f: "\<And>s s'. algo.same (li_algo l) t2 s s' \<Longrightarrow> f s t2 = f s' t2 \<and> algo_ok (li_algo l) t2 (fst (f s t2))"
  shows "alike t2 (fst (with_state l k t1 t2 f)) (fst (with_state l' k t1 t2 f)) \<and> snd (with_state l k t1 t2 f) = snd (with_state l' k t1 t2 f)"
proof -
  obtain l1 s l1' s' where e: "entry l k t1 = (l1, s)" "entry l' k t1 = (l1', s')" by fastforce
  note es = entry_state [OF e(1)] entry_state [OF e(2)]
  note v = alikeD(2,1) [OF al]
  have "algo.same (li_algo l) t1 s s'" using alikeD(4) [OF al] es by simp
  then have sm: "algo.same (li_algo l) t2 s s'" by (rule algo.same_later [OF v(1) _ t])
  obtain s2 d where fs: "f s t2 = (s2, d)" "f s' t2 = (s2, d)" "algo_ok (li_algo l) t2 s2" using f [OF sm] by (metis prod.collapse)
  let ?m = "l1\<lparr>li_entries := AList.update k s2 (li_entries l1)\<rparr>" and ?m' = "l1'\<lparr>li_entries := AList.update k s2 (li_entries l1')\<rparr>"
  have w: "with_state l k t1 t2 f = (?m, d)" "with_state l' k t1 t2 f = (?m', d)" using e fs by (simp_all add: with_state_def)
  have "algo.same (li_algo l) t2 (state_at ?m j t2) (state_at ?m' j t2)" for j
  proof (cases "j = k")
    case True
    then show ?thesis using fs(3) by (simp add: state_at_def update_conv' algo.same_refl)
  next
    case False
    then have "state_at ?m j t2 = state_at l j t2" "state_at ?m' j t2 = state_at l' j t2"
      using es by (simp_all add: state_at_def update_conv' split: option.splits)
    then show ?thesis using alikeD(4) [OF alike_later [OF al t]] by simp
  qed
  then show ?thesis using w es v alikeD(3) [OF al] by (simp add: alike_def distinct_update)
qed

lemma acquire_decision_same:
  assumes v: "algo_valid a" and sm: "algo.same a t s s'"
  shows "acquire_decision a s t = acquire_decision a s' t \<and> algo_ok a t (fst (acquire_decision a s t))"
proof -
  obtain s1 ok where a1: "algo_acquire a s t = (s1, ok)" by fastforce
  have "algo_ok a t s" using sm by (simp add: algo.same_def)
  from algo.acquire_ok [OF v this] have o1: "algo_ok a t s1" by (simp add: a1)
  then have o2: "algo_ok a t (algo_update a s1 t)" "algo_ok a t (algo_update a (algo_update a s1 t) t)" by (simp_all add: algo.update_ok [OF v])
  show ?thesis using algo.same_answers(1) [OF v sm] o2 algo.remaining_state [of a s1 t] algo.retry_state [of a "algo_update a s1 t" t] a1
    by (auto simp: acquire_decision_def split: prod.splits)
qed

lemma peek_decision_same:
  assumes v: "algo_valid a" and sm: "algo.same a t s s'"
  shows "peek_decision a s t = peek_decision a s' t \<and> algo_ok a t (fst (peek_decision a s t))"
proof -
  have "algo_ok a t s" using sm by (simp add: algo.same_def)
  then have "algo_ok a t (algo_update a (algo_update a s t) t)" by (simp add: algo.update_ok [OF v])
  then show ?thesis using algo.same_answers(3) [OF v sm] algo.retry_state [of a s t] algo.remaining_state [of a "algo_update a s t" t]
    by (auto simp: peek_decision_def split: prod.splits)
qed

section \<open>Eviction\<close>

definition evicted :: "algorithm \<Rightarrow> (string \<Rightarrow> bool) \<Rightarrow> (string \<Rightarrow> rat) \<Rightarrow> string \<Rightarrow> key_state \<Rightarrow> key_state option" where
  "evicted a busy clock k s =
     (if busy k then Some s else if snd (is_idle a s (clock k)) then None else Some (fst (is_idle a s (clock k))))"

lemma evict_keys: "fst ` set (fst (evict_entries a busy clock es)) \<subseteq> fst ` set es"
  by (induction es) (force split: prod.splits if_splits)+

lemma evict_distinct: "distinct (map fst es) \<Longrightarrow> distinct (map fst (fst (evict_entries a busy clock es)))"
proof (induction es)
  case (Cons e es)
  obtain es1 n where r: "evict_entries a busy clock es = (es1, n)" by fastforce
  have "fst e \<notin> fst ` set es1" using Cons.prems evict_keys [of a busy clock es] r by auto
  then show ?case using Cons r by (cases e) (auto split: prod.splits)
qed simp

lemma evict_lookup: "distinct (map fst es) \<Longrightarrow> map_of (fst (evict_entries a busy clock es)) k = Option.bind (map_of es k) (evicted a busy clock k)"
proof (induction es)
  case (Cons e es)
  obtain j s where e: "e = (j, s)" by fastforce
  have "map_of es j = None" using Cons.prems by (auto simp: e map_of_eq_None_iff)
  moreover have "map_of (fst (evict_entries a busy clock es)) j = None"
    using Cons.prems evict_keys [of a busy clock es] by (auto simp: e map_of_eq_None_iff)
  ultimately show ?case using Cons by (auto simp: e evicted_def split: prod.splits)
qed simp

lemma evict_alike:
  assumes al: "alike t l l'" and clk: "\<And>k. t \<le> clock k \<and> clock k \<le> u"
  shows "alike u (fst (evict_idle l busy clock)) l'"
proof -
  let ?l = "fst (evict_idle l busy clock)" and ?a = "li_algo l"
  have tu: "t \<le> u" using clk [of "[]"] by linarith
  note v = alikeD(2) [OF al] and d = alikeD(3) [OF al]
  have l: "li_algo ?l = ?a" "li_entries ?l = fst (evict_entries ?a busy clock (li_entries l))"
    by (simp_all add: evict_idle_def split: prod.splits)
  have "algo.same ?a u (state_at ?l k u) (state_at l k u)" for k
  proof (cases "map_of (li_entries l) k")
    case None
    then show ?thesis using algo.same_refl algo.new_ok [OF v] by (simp add: state_at_def l evict_lookup [OF d])
  next
    case (Some s)
    have "algo_ok ?a t s" using alikeD(4) [OF al, of k] Some by (simp add: algo.same_def state_at_def)
    then have ok: "algo_ok ?a (clock k) s" using algo.ok_later [OF v] clk by blast
    have cu: "clock k \<le> u" using clk by simp
    have later: "algo.same ?a u x y" if "algo.same ?a (clock k) x y" for x y by (rule algo.same_later [OF v that cu])
    consider "busy k" | "\<not> busy k" "snd (is_idle ?a s (clock k))" | "\<not> busy k" "\<not> snd (is_idle ?a s (clock k))" by blast
    then show ?thesis
    proof cases
      case 2
      then have "algo.same ?a (clock k) s (new_state ?a (clock k))"
        by (intro algo.same_idle [OF v ok]) (simp add: is_idle_def algo_limit_def split: prod.splits)
      then have "algo.same ?a u s (new_state ?a u)" using later algo.same_new [OF v cu] same_trans by blast
      then show ?thesis using 2 Some by (simp add: state_at_def l evict_lookup [OF d] evicted_def same_sym)
    next
      case 3
      then show ?thesis using Some later [OF algo.update_same [OF v ok]] algo.remaining_state [of ?a s "clock k"]
        by (auto simp: state_at_def l evict_lookup [OF d] evicted_def is_idle_def split: prod.splits)
    qed (use Some ok later algo.same_refl in \<open>simp add: state_at_def l evict_lookup [OF d] evicted_def\<close>)
  qed
  then have "algo.same ?a u (state_at ?l k u) (state_at l' k u)" for k using alikeD(4) [OF alike_later [OF al tu]] same_trans by blast
  then show ?thesis using alikeD(1) [OF al] v l evict_distinct [OF d] by (simp add: alike_def)
qed

datatype rl_op = TryAcquire string rat rat | Peek string rat rat | ResetKey string | EvictIdle "string \<Rightarrow> bool" "string \<Rightarrow> rat" rat

fun rl_step :: "limiter \<Rightarrow> rl_op \<Rightarrow> limiter \<times> decision option" where
  "rl_step l (TryAcquire k t1 t2) = map_prod id Some (try_acquire l k t1 t2)"
| "rl_step l (Peek k t1 t2) = map_prod id Some (peek l k t1 t2)"
| "rl_step l (ResetKey k) = (reset_key l k, None)"
| "rl_step l (EvictIdle busy clock t) = (fst (evict_idle l busy clock), None)"

text \<open>The same calls on a limiter that never evicts.\<close>

fun keep_step :: "limiter \<Rightarrow> rl_op \<Rightarrow> limiter \<times> decision option" where
  "keep_step l (EvictIdle busy clock t) = (l, None)"
| "keep_step l op = rl_step l op"

text \<open>The clock never goes back: from time \<open>t\<close> on, the readings of the calls, in their order, do not decrease.\<close>

fun op_timed :: "rat \<Rightarrow> rl_op \<Rightarrow> bool" where
  "op_timed t (TryAcquire k t1 t2) \<longleftrightarrow> t \<le> t1 \<and> t1 \<le> t2"
| "op_timed t (Peek k t1 t2) \<longleftrightarrow> t \<le> t1 \<and> t1 \<le> t2"
| "op_timed t (ResetKey k) \<longleftrightarrow> True"
| "op_timed t (EvictIdle busy clock u) \<longleftrightarrow> (\<forall>k. t \<le> clock k \<and> clock k \<le> u)"

fun op_end :: "rat \<Rightarrow> rl_op \<Rightarrow> rat" where
  "op_end t (TryAcquire k t1 t2) = t2"
| "op_end t (Peek k t1 t2) = t2"
| "op_end t (ResetKey k) = t"
| "op_end t (EvictIdle busy clock u) = u"

fun timed :: "rat \<Rightarrow> rl_op list \<Rightarrow> bool" where
  "timed t [] \<longleftrightarrow> True"
| "timed t (op # ops) \<longleftrightarrow> op_timed t op \<and> timed (op_end t op) ops"

lemma timed_append: "timed t (xs @ ys) \<longleftrightarrow> timed t xs \<and> timed (foldl op_end t xs) ys"
  by (induction xs arbitrary: t) auto

lemma new_alike: "algo_valid a \<Longrightarrow> alike t (new_limiter a) (new_limiter a)"
  by (simp add: alike_def new_limiter_def state_at_def algo.same_refl algo.new_ok)

lemma reset_alike: "alike t l l' \<Longrightarrow> distinct (map fst (li_entries l)) \<Longrightarrow> alike t (reset_key l k) (reset_key l' k)"
proof -
  assume al: "alike t l l'" and d: "distinct (map fst (li_entries l))"
  have "algo.same (li_algo l) t (state_at (reset_key l k) j t) (state_at (reset_key l' k) j t)" for j
    using alikeD(4) [OF al, of j] alikeD(1) [OF al] algo.same_refl [OF algo.new_ok [OF alikeD(2) [OF al]]]
    by (cases "j = k") (auto simp: state_at_def reset_key_def delete_conv' split: option.splits)
  then show ?thesis using al d by (simp add: alike_def reset_key_def distinct_delete)
qed

lemma step_alike:
  assumes al: "alike t l l'" and tm: "op_timed t op"
  shows "alike (op_end t op) (fst (rl_step l op)) (fst (keep_step l' op)) \<and> snd (rl_step l op) = snd (keep_step l' op)"
proof (cases op)
  case (TryAcquire k t1 t2)
  then have al1: "alike t1 l l'" and tt: "t1 \<le> t2" using alike_later [OF al] tm by auto
  from with_state_alike [where f = "acquire_decision (li_algo l)", OF al1 tt acquire_decision_same [OF alikeD(2) [OF al]]] show ?thesis
    using TryAcquire alikeD(1) [OF al] by (simp add: try_acquire_def)
next
  case (Peek k t1 t2)
  then have al1: "alike t1 l l'" and tt: "t1 \<le> t2" using alike_later [OF al] tm by auto
  from with_state_alike [where f = "peek_decision (li_algo l)", OF al1 tt peek_decision_same [OF alikeD(2) [OF al]]] show ?thesis
    using Peek alikeD(1) [OF al] by (simp add: peek_def)
next
  case (ResetKey k)
  then show ?thesis using reset_alike [OF al alikeD(3) [OF al]] by simp
next
  case (EvictIdle busy clock u)
  then show ?thesis using evict_alike [OF al, of clock u busy] tm by simp
qed

lemma run_alike:
  assumes "alike t l l'" "timed t ops"
  shows "run_trace rl_step l ops = run_trace keep_step l' ops
    \<and> alike (foldl op_end t ops) (run_ops rl_step l ops) (run_ops keep_step l' ops)"
  using assms
proof (induction ops arbitrary: t l l')
  case (Cons op ops)
  then show ?case using step_alike [of t l l' op] Cons.IH [of "op_end t op" "fst (rl_step l op)" "fst (keep_step l' op)"] by simp
qed simp

lemma reachable_key_ok:
  assumes "algo_valid a" "timed t ops"
  shows "li_algo (run_ops rl_step (new_limiter a) ops) = a"
    "algo_ok a (foldl op_end t ops) (state_at (run_ops rl_step (new_limiter a) ops) k (foldl op_end t ops))"
proof -
  have algo: "li_algo (run_ops rl_step l xs) = li_algo l" for l xs
  proof (induction xs arbitrary: l)
    case (Cons op xs)
    have "li_algo (fst (with_state l k t1 t2 f)) = li_algo l" for k t1 t2 f
      by (simp add: with_state_def entry_def split: prod.splits option.splits)
    then have "li_algo (fst (rl_step l op)) = li_algo l"
      by (cases op) (simp_all add: try_acquire_def peek_def reset_key_def evict_idle_def split: prod.splits)
    then show ?case using Cons by simp
  qed simp
  then show "li_algo (run_ops rl_step (new_limiter a) ops) = a" by (simp add: new_limiter_def)
  then show "algo_ok a (foldl op_end t ops) (state_at (run_ops rl_step (new_limiter a) ops) k (foldl op_end t ops))"
    using alikeD(4) [OF conjunct2 [OF run_alike [OF new_alike [OF assms(1)] assms(2)]], of k] by (simp add: algo.same_def)
qed

lemma try_acquire_state:
  assumes "try_acquire l k t1 t2 = (l1, d)"
  shows "d = snd (acquire_decision (li_algo l) (state_at l k t1) t2)" "li_algo l1 = li_algo l"
    "state_at l1 k t = fst (acquire_decision (li_algo l) (state_at l k t1) t2)"
  using assms entry_state [of l k t1]
  by (auto simp: try_acquire_def with_state_def state_at_def update_conv' split: prod.splits)

lemma acquire_decision_allowed: "de_allowed (snd (acquire_decision a s t)) = snd (algo_acquire a s t)"
  by (simp add: acquire_decision_def split: prod.splits)

lemma denied_wait:
  assumes v: "algo_valid a" and ok: "algo_ok a t s" and no: "\<not> snd (algo_acquire a s t)"
  shows "algo.same a t (fst (acquire_decision a s t)) (fst (algo_acquire a s t))"
    "de_retry_after (snd (acquire_decision a s t)) = snd (algo_retry_after a (fst (algo_acquire a s t)) t)"
proof -
  obtain s1 where s1: "algo_acquire a s t = (s1, False)" using no by (cases "algo_acquire a s t") auto
  have o1: "algo_ok a t s1" using algo.acquire_ok [OF v ok] s1 by simp
  obtain s2 n where s2: "algo_remaining a s1 t = (s2, n)" by fastforce
  have e2: "s2 = algo_update a s1 t" using algo.remaining_state [of a s1 t] s2 by simp
  obtain s3 w where s3: "algo_retry_after a s2 t = (s3, w)" by fastforce
  have "s3 = algo_update a s2 t" using algo.retry_state [of a s2 t] s3 by simp
  then have e3: "s3 = algo_update a s1 t" using algo.update_update [OF v o1 order.refl] e2 by simp
  have "acquire_decision a s t = (s3, \<lparr>de_allowed = False, de_remaining = n, de_retry_after = w\<rparr>)"
    by (simp add: acquire_decision_def s1 s2 s3)
  moreover have "w = snd (algo_retry_after a s1 t)" using algo.retry_update [OF v o1] s3 e2 by simp
  ultimately show "algo.same a t (fst (acquire_decision a s t)) (fst (algo_acquire a s t))"
      "de_retry_after (snd (acquire_decision a s t)) = snd (algo_retry_after a (fst (algo_acquire a s t)) t)"
    using algo.update_same [OF v o1] e3 s1 by simp_all
qed

section \<open>The two buckets\<close>

fun mirror_key :: "rule \<Rightarrow> key_state \<Rightarrow> key_state" where
  "mirror_key r (BucketState s) = BucketState (mirror r s)"
| "mirror_key r s = s"

definition mirror_entries :: "rule \<Rightarrow> (string \<times> key_state) list \<Rightarrow> (string \<times> key_state) list" where
  "mirror_entries r = map (\<lambda>(k, s). (k, mirror_key r s))"

definition mirrored :: "limiter \<Rightarrow> limiter \<Rightarrow> bool" where
  "mirrored l l' \<longleftrightarrow> (\<exists>r. li_algo l = LeakyBucket r \<and> li_algo l' = TokenBucket r \<and> li_entries l = mirror_entries r (li_entries l'))"

lemma mirror_key_ops:
  "algo_acquire (LeakyBucket r) (mirror_key r s) t = map_prod (mirror_key r) id (algo_acquire (TokenBucket r) s t)"
  "algo_remaining (LeakyBucket r) (mirror_key r s) t = map_prod (mirror_key r) id (algo_remaining (TokenBucket r) s t)"
  "algo_retry_after (LeakyBucket r) (mirror_key r s) t = map_prod (mirror_key r) id (algo_retry_after (TokenBucket r) s t)"
  "new_state (LeakyBucket r) t = mirror_key r (new_state (TokenBucket r) t)"
  by (cases s; simp add: mirror_ops map_prod_compose [symmetric] split: prod.splits; simp add: map_prod_def split: prod.splits)+

lemma mirror_decisions:
  "acquire_decision (LeakyBucket r) (mirror_key r s) t = map_prod (mirror_key r) id (acquire_decision (TokenBucket r) s t)"
  "peek_decision (LeakyBucket r) (mirror_key r s) t = map_prod (mirror_key r) id (peek_decision (TokenBucket r) s t)"
  "is_idle (LeakyBucket r) (mirror_key r s) t = map_prod (mirror_key r) id (is_idle (TokenBucket r) s t)"
  by (auto simp: acquire_decision_def peek_decision_def is_idle_def mirror_key_ops split: prod.splits)

lemma mirror_lookup: "map_of (mirror_entries r es) k = map_option (mirror_key r) (map_of es k)"
  by (simp add: mirror_entries_def map_of_map)

lemma mirror_update: "AList.update k (mirror_key r s) (mirror_entries r es) = mirror_entries r (AList.update k s es)"
  by (induction es) (auto simp: mirror_entries_def)

lemma mirror_delete: "AList.delete k (mirror_entries r es) = mirror_entries r (AList.delete k es)"
  by (induction es) (auto simp: mirror_entries_def)

lemma mirror_evict: "evict_entries (LeakyBucket r) busy clock (mirror_entries r es) = map_prod (mirror_entries r) id (evict_entries (TokenBucket r) busy clock es)"
  by (induction es) (auto simp: mirror_entries_def mirror_decisions split: prod.splits)

lemma mirror_with_state:
  assumes "li_algo l = LeakyBucket r" "li_algo l' = TokenBucket r" "li_entries l = mirror_entries r (li_entries l')"
    and "\<And>s. f (mirror_key r s) t2 = map_prod (mirror_key r) id (f' s t2)"
  shows "mirrored (fst (with_state l k t1 t2 f)) (fst (with_state l' k t1 t2 f')) \<and> snd (with_state l k t1 t2 f) = snd (with_state l' k t1 t2 f')"
  using assms
  by (cases "map_of (li_entries l') k")
    (auto simp: with_state_def entry_def mirrored_def mirror_lookup mirror_update mirror_key_ops(4) simp del: new_state.simps split: prod.splits)

interpretation buckets: simulation rl_step rl_step mirrored
proof unfold_locales
  fix l l' op
  assume "mirrored l l'"
  then obtain r where r: "li_algo l = LeakyBucket r" "li_algo l' = TokenBucket r" "li_entries l = mirror_entries r (li_entries l')"
    by (auto simp: mirrored_def)
  show "mirrored (fst (rl_step l op)) (fst (rl_step l' op))" "snd (rl_step l op) = snd (rl_step l' op)"
    using mirror_with_state [OF r] r
    by (cases op; auto simp: try_acquire_def peek_def mirror_decisions reset_key_def evict_idle_def mirror_evict mirror_delete mirrored_def split: prod.splits)+
qed

section \<open>Properties\<close>

text \<open>
  C33. Evicting idle keys never changes an answer: for every algorithm and every sequence of requests, peeks, resets
  and evictions (with keys in use skipped) at non-decreasing clock readings, the limiter answers exactly as one
  that keeps every key for ever.
\<close>

theorem eviction_invisible:
  assumes "new_rule n w = Inr r" "create name r = Inr a" "timed t ops"
  shows "run_trace rl_step (new_limiter a) ops = run_trace keep_step (new_limiter a) ops"
proof -
  have "algo_valid a"
    using assms(1,2) by (auto simp: new_rule_def create_def algo_valid_def rule_ok_def split: if_splits)
  from run_alike [OF new_alike [OF this] assms(3)] show ?thesis by simp
qed

theorem eviction_invisible_witness:
  "run_trace rl_step (new_limiter (FixedWindowCounter \<lparr>ru_max = 1, ru_window = 10\<rparr>)) [TryAcquire ''ann'' 0 0, EvictIdle (\<lambda>_. False) (\<lambda>_. 12) 12, TryAcquire ''ann'' 13 14]
   = run_trace keep_step (new_limiter (FixedWindowCounter \<lparr>ru_max = 1, ru_window = 10\<rparr>)) [TryAcquire ''ann'' 0 0, EvictIdle (\<lambda>_. False) (\<lambda>_. 12) 12, TryAcquire ''ann'' 13 14]"
  by (rule eviction_invisible [where n = 1 and w = 10 and name = "''fixed_window''" and t = 0]) (simp_all add: new_rule_def create_def)

text \<open>
  The waiting time in a refusal, in exact arithmetic and for all five algorithms: in a limiter reached by any sequence of calls,
  when a request for a key is refused, the next request for that key is allowed if and only if at least the returned
  \<open>retry_after\<close> has passed since the refusal. The code computes in floats, where a level can come out a rounding error below one permit at
  exactly that instant: a token bucket of 1 permit per 60 s that is asked at 449.5 and 454.0 answers 55.5, and refuses at 509.5.
\<close>

theorem retry_after_exact:
  assumes "new_rule n w = Inr r" "create name r = Inr a" "timed t (ops @ [TryAcquire k t1 t2, TryAcquire k u1 u2])"
    and "try_acquire (run_ops rl_step (new_limiter a) ops) k t1 t2 = (l1, d)" "\<not> de_allowed d"
  shows "de_allowed (snd (try_acquire l1 k u1 u2)) \<longleftrightarrow> de_retry_after d \<le> u2 - t2"
proof -
  let ?l = "run_ops rl_step (new_limiter a) ops" and ?t = "foldl op_end t ops"
  have v: "algo_valid a"
    using assms(1,2) by (auto simp: new_rule_def create_def algo_valid_def rule_ok_def split: if_splits)
  have tm: "timed t ops" "?t \<le> t1" "t1 \<le> t2" "t2 \<le> u1" "u1 \<le> u2" using assms(3) by (simp_all add: timed_append)
  note reach = reachable_key_ok [OF v tm(1)]
  have same: "algo.same a t1 (state_at ?l k ?t) (state_at ?l k t1)" using state_at_later [of ?l ?t k t1] reach v tm(2) by simp
  then have ok: "algo_ok a t2 (state_at ?l k t1)" using algo.ok_later [OF v _ tm(3)] by (auto simp: algo.same_def)
  define s where "s = state_at ?l k t1"
  define s1 where "s1 = fst (algo_acquire a s t2)"
  note st = try_acquire_state [OF assms(4), unfolded reach(1), folded s_def]
  have no: "\<not> snd (algo_acquire a s t2)" using assms(5) st(1) by (simp add: acquire_decision_allowed)
  have ok1: "algo_ok a t2 s1" using algo.acquire_ok [OF v ok] by (simp add: s1_def s_def)
  have sm: "algo.same a u2 (state_at l1 k u1) s1"
    using denied_wait(1) [OF v ok [folded s_def] no] st(3) [of u1] algo.same_later [OF v, of t2 _ _ u2] tm(4,5) by (simp add: s1_def)
  have "snd (try_acquire l1 k u1 u2) = snd (acquire_decision a (state_at l1 k u1) u2)"
    using try_acquire_state(1,2) [of l1 k u1 u2 "fst (try_acquire l1 k u1 u2)" "snd (try_acquire l1 k u1 u2)"] st(2) by simp
  then have "de_allowed (snd (try_acquire l1 k u1 u2)) \<longleftrightarrow> snd (algo_acquire a s1 u2)"
    using algo.same_answers(1) [OF v sm] by (simp add: acquire_decision_allowed)
  also have "\<dots> \<longleftrightarrow> snd (algo_retry_after a s1 t2) \<le> u2 - t2" using algo.retry_exact [OF v ok1] tm(4,5) by simp
  also have "snd (algo_retry_after a s1 t2) = de_retry_after d"
    using denied_wait(2) [OF v ok [folded s_def] no] st(1) by (simp add: s1_def)
  finally show ?thesis .
qed

theorem retry_after_exact_witness:
  "snd (try_acquire (run_ops rl_step (new_limiter (TokenBucket \<lparr>ru_max = 1, ru_window = 10\<rparr>)) [TryAcquire ''ann'' 0 0]) ''ann'' 3 3)
     = \<lparr>de_allowed = False, de_remaining = 0, de_retry_after = 7\<rparr>
   \<and> de_allowed (snd (try_acquire (fst (try_acquire (run_ops rl_step (new_limiter (TokenBucket \<lparr>ru_max = 1, ru_window = 10\<rparr>)) [TryAcquire ''ann'' 0 0]) ''ann'' 3 3)) ''ann'' 10 10))"
proof -
  let ?a = "TokenBucket \<lparr>ru_max = 1, ru_window = 10\<rparr>"
  obtain l1 d where l1: "try_acquire (run_ops rl_step (new_limiter ?a) [TryAcquire ''ann'' 0 0]) ''ann'' 3 3 = (l1, d)" by fastforce
  have "snd (try_acquire (run_ops rl_step (new_limiter ?a) [TryAcquire ''ann'' 0 0]) ''ann'' 3 3)
      = \<lparr>de_allowed = False, de_remaining = 0, de_retry_after = 7\<rparr>" by code_simp
  then have d: "d = \<lparr>de_allowed = False, de_remaining = 0, de_retry_after = 7\<rparr>" using l1 by simp
  have "de_allowed (snd (try_acquire l1 ''ann'' 10 10)) \<longleftrightarrow> de_retry_after d \<le> 10 - 3"
    by (rule retry_after_exact [where n = 1 and w = 10 and name = "''token_bucket''" and t = 0, OF _ _ _ l1])
      (simp_all add: new_rule_def create_def d)
  then show ?thesis using l1 d by simp
qed

text \<open>
  The leaky bucket is the mirror image of the token bucket, as its description says: on any sequence of requests
  the two decide alike, report the same permits left and the same waiting times.
\<close>

theorem leaky_bucket_mirrors:
  "run_trace rl_step (new_limiter (LeakyBucket r)) ops = run_trace rl_step (new_limiter (TokenBucket r)) ops"
  by (rule buckets.run_same) (simp add: mirrored_def new_limiter_def mirror_entries_def)

end
