(* ===== verification/Inventory.thy ===== *)
theory Inventory
  imports Prelude "HOL-Library.List_Lexorder" "HOL-Library.Char_ord" "HOL-Library.Product_Lexorder"
begin

text \<open>
  \<open>inventory_management.py\<close>: stock per product and warehouse, reservations with a time to live that are committed or
  released, transfers, cycle counts, purchase orders, and the ledger of physical movements. A call is one step: the
  locks of the items a call touches are taken together, in one order. The guard against a second concurrent \<open>reserve\<close> of
  an order (\<open>_in_flight_orders\<close>) is therefore always passed. The readings of the clock in one call are one value. Some
  calls change the state and then raise, so a call returns the state together with its result or error.
\<close>

section \<open>Data\<close>

datatype inv_error = InventoryError | NotFoundError | InsufficientStockError string int int | InvalidStateError
  | ReservationExpiredError | IdempotencyConflictError | Builtin py_error

datatype MovementType = RECEIVE | SHIP | TRANSFER_OUT | TRANSFER_IN | ADJUST

datatype ReservationStatus = ACTIVE | COMMITTED | RELEASED | EXPIRED

datatype POStatus = PO_OPEN | PO_RECEIVED | PO_CANCELLED

record product =
  pr_unit_price :: rat
  pr_reorder_level :: int
  pr_reorder_quantity :: int

type_synonym item_key = "string \<times> string"

record movement =
  mv_id :: nat
  mv_key :: item_key
  mv_type :: MovementType
  mv_delta :: int
  mv_on_hand_after :: int
  mv_reference :: string
  mv_at :: rat

record res_line =
  ln_key :: item_key
  ln_quantity :: int

record stock_view =
  vw_warehouse :: string
  vw_priority :: int
  vw_available :: int

text \<open>An item; of its warehouse only the priority matters. Product and warehouse never change once added.\<close>

record item =
  it_product :: product
  it_priority :: int
  it_on_hand :: int
  it_reserved :: int

definition available :: "item \<Rightarrow> int" where
  "available it = it_on_hand it - it_reserved it"

definition item_receive :: "int \<Rightarrow> item \<Rightarrow> item" where
  "item_receive qty it = it\<lparr>it_on_hand := it_on_hand it + qty\<rparr>"

definition item_correct :: "int \<Rightarrow> item \<Rightarrow> inv_error + item" where
  "item_correct delta it =
     (if it_on_hand it + delta < it_reserved it then Inl InvalidStateError else Inr (it\<lparr>it_on_hand := it_on_hand it + delta\<rparr>))"

definition item_reserve :: "string \<Rightarrow> int \<Rightarrow> item \<Rightarrow> inv_error + item" where
  "item_reserve sku qty it =
     (if available it < qty then Inl (InsufficientStockError sku qty (available it)) else Inr (it\<lparr>it_reserved := it_reserved it + qty\<rparr>))"

definition item_release :: "string \<Rightarrow> int \<Rightarrow> item \<Rightarrow> inv_error + item" where
  "item_release sku qty it =
     (if it_reserved it < qty then Inl InvalidStateError else Inr (it\<lparr>it_reserved := it_reserved it - qty\<rparr>))"

definition ship_reserved :: "string \<Rightarrow> int \<Rightarrow> item \<Rightarrow> inv_error + item" where
  "ship_reserved sku qty it =
     (if it_reserved it < qty then Inl InvalidStateError
      else Inr (it\<lparr>it_reserved := it_reserved it - qty, it_on_hand := it_on_hand it - qty\<rparr>))"

definition remove_available :: "string \<Rightarrow> int \<Rightarrow> item \<Rightarrow> inv_error + item" where
  "remove_available sku qty it =
     (if available it < qty then Inl (InsufficientStockError sku qty (available it)) else Inr (it\<lparr>it_on_hand := it_on_hand it - qty\<rparr>))"

record reservation =
  rs_order :: string
  rs_lines :: "res_line list"
  rs_expires_at :: rat
  rs_status :: ReservationStatus

fun count_lines :: "(string \<times> int) list \<Rightarrow> res_line list \<Rightarrow> (string \<times> int) list" where
  "count_lines out [] = out"
| "count_lines out (l # ls) =
     (let sku = fst (ln_key l); old = (case map_of out sku of None \<Rightarrow> 0 | Some n \<Rightarrow> n)
      in count_lines (AList.update sku (old + ln_quantity l) out) ls)"

definition requested :: "reservation \<Rightarrow> (string \<times> int) list" where
  "requested r = count_lines [] (rs_lines r)"

record purchase_order =
  po_key :: item_key
  po_quantity :: int
  po_status :: POStatus

section \<open>Strategies\<close>

fun greedy_split :: "(string \<times> int) list \<Rightarrow> int \<Rightarrow> stock_view list \<Rightarrow> (string \<times> int) list option" where
  "greedy_split plan remaining [] = None"
| "greedy_split plan remaining (s # ss) =
     (let amount = min remaining (vw_available s);
          plan1 = (if 0 < amount then plan @ [(vw_warehouse s, amount)] else plan);
          remaining1 = (if 0 < amount then remaining - amount else remaining)
      in if remaining1 = 0 then Some plan1 else greedy_split plan1 remaining1 ss)"

definition by_preference :: "stock_view list \<Rightarrow> stock_view list" where
  "by_preference stock = sort_key (\<lambda>s. (vw_priority s, vw_warehouse s)) stock"

datatype AllocationStrategy = GreedySplitAllocation | SingleWarehouseFirstAllocation

fun allocate :: "AllocationStrategy \<Rightarrow> int \<Rightarrow> stock_view list \<Rightarrow> (string \<times> int) list option" where
  "allocate GreedySplitAllocation qty stock = greedy_split [] qty (by_preference stock)"
| "allocate SingleWarehouseFirstAllocation qty stock =
     (case find (\<lambda>s. qty \<le> vw_available s) (by_preference stock) of
        Some s \<Rightarrow> Some [(vw_warehouse s, qty)]
      | None \<Rightarrow> greedy_split [] qty (by_preference stock))"

datatype ReorderPolicy = FixedReorderPolicy | DemandBasedReorderPolicy int int int

fun reorder_quantity :: "ReorderPolicy \<Rightarrow> product \<Rightarrow> int \<Rightarrow> rat \<Rightarrow> int" where
  "reorder_quantity FixedReorderPolicy p position demand = (if position \<le> pr_reorder_level p then pr_reorder_quantity p else 0)"
| "reorder_quantity (DemandBasedReorderPolicy lead safety cover) p position demand =
     (let reorder_point = max (pr_reorder_level p) \<lceil>demand * of_int (lead + safety)\<rceil>
      in if reorder_point < position then 0
         else (let target = \<lceil>demand * of_int cover\<rceil> in max (pr_reorder_quantity p) (target - position)))"

section \<open>The service\<close>

record inventory =
  iv_allocation :: AllocationStrategy
  iv_policy :: ReorderPolicy
  iv_ttl :: rat
  iv_lookback :: int
  iv_products :: "(string \<times> product) list"
  iv_warehouses :: "(string \<times> int) list"
  iv_items :: "(item_key \<times> item) list"
  iv_reservations :: "(string \<times> reservation) list"
  iv_by_order :: "(string \<times> string) list"
  iv_orders :: "(string \<times> purchase_order) list"
  iv_ledger :: "movement list"
  iv_ids :: nat

definition new_inventory :: "AllocationStrategy \<Rightarrow> ReorderPolicy \<Rightarrow> rat \<Rightarrow> int \<Rightarrow> inventory" where
  "new_inventory alloc policy ttl lookback = \<lparr>iv_allocation = alloc, iv_policy = policy, iv_ttl = ttl, iv_lookback = lookback,
     iv_products = [], iv_warehouses = [], iv_items = [], iv_reservations = [], iv_by_order = [], iv_orders = [], iv_ledger = [], iv_ids = 1\<rparr>"

definition require_positive :: "int \<Rightarrow> inv_error + unit" where
  "require_positive qty = (if qty \<le> 0 then Inl (Builtin ValueError) else Inr ())"

definition get_item :: "inventory \<Rightarrow> item_key \<Rightarrow> inv_error + item" where
  "get_item s k = (case map_of (iv_items s) k of None \<Rightarrow> Inl NotFoundError | Some it \<Rightarrow> Inr it)"

definition put_item :: "inventory \<Rightarrow> item_key \<Rightarrow> item \<Rightarrow> inventory" where
  "put_item s k it = s\<lparr>iv_items := AList.update k it (iv_items s)\<rparr>"

definition get_or_create_item :: "inventory \<Rightarrow> item_key \<Rightarrow> inv_error + inventory \<times> item" where
  "get_or_create_item s k =
     (case (map_of (iv_products s) (fst k), map_of (iv_warehouses s) (snd k)) of
        (Some p, Some prio) \<Rightarrow>
          (case map_of (iv_items s) k of
             Some it \<Rightarrow> Inr (s, it)
           | None \<Rightarrow> (let it = \<lparr>it_product = p, it_priority = prio, it_on_hand = 0, it_reserved = 0\<rparr> in Inr (put_item s k it, it)))
      | _ \<Rightarrow> Inl NotFoundError)"

definition record_movement :: "inventory \<Rightarrow> item_key \<Rightarrow> MovementType \<Rightarrow> int \<Rightarrow> int \<Rightarrow> string \<Rightarrow> rat \<Rightarrow> inventory" where
  "record_movement s k ty delta on_hand ref now =
     s\<lparr>iv_ledger := iv_ledger s @ [\<lparr>mv_id = iv_ids s, mv_key = k, mv_type = ty, mv_delta = delta, mv_on_hand_after = on_hand,
         mv_reference = ref, mv_at = now\<rparr>], iv_ids := iv_ids s + 1\<rparr>"

definition add_product :: "inventory \<Rightarrow> string \<Rightarrow> product \<Rightarrow> inventory \<times> (inv_error + unit)" where
  "add_product s sku p =
     (if pr_unit_price p < 0 then (s, Inl (Builtin ValueError))
      else if map_of (iv_products s) sku \<noteq> None then (s, Inl InventoryError)
      else (s\<lparr>iv_products := AList.update sku p (iv_products s)\<rparr>, Inr ()))"

definition add_warehouse :: "inventory \<Rightarrow> string \<Rightarrow> int \<Rightarrow> inventory \<times> (inv_error + unit)" where
  "add_warehouse s wh prio =
     (if map_of (iv_warehouses s) wh \<noteq> None then (s, Inl InventoryError)
      else (s\<lparr>iv_warehouses := AList.update wh prio (iv_warehouses s)\<rparr>, Inr ()))"

definition receive_stock :: "inventory \<Rightarrow> item_key \<Rightarrow> int \<Rightarrow> string \<Rightarrow> rat \<Rightarrow> inventory \<times> (inv_error + unit)" where
  "receive_stock s k qty ref now =
     (case bind_sum (require_positive qty) (\<lambda>_. get_or_create_item s k) of
        Inl e \<Rightarrow> (s, Inl e)
      | Inr (s1, it) \<Rightarrow>
          (let it1 = item_receive qty it
           in (record_movement (put_item s1 k it1) k RECEIVE qty (it_on_hand it1) ref now, Inr ())))"

definition adjust_stock :: "inventory \<Rightarrow> item_key \<Rightarrow> int \<Rightarrow> string \<Rightarrow> rat \<Rightarrow> inventory \<times> (inv_error + int)" where
  "adjust_stock s k counted reason now =
     (if counted < 0 then (s, Inl (Builtin ValueError))
      else (case get_item s k of
        Inl e \<Rightarrow> (s, Inl e)
      | Inr it \<Rightarrow>
          if counted < it_reserved it then (s, Inl (InsufficientStockError (fst k) (it_reserved it) counted))
          else (let delta = counted - it_on_hand it
                in if delta \<noteq> 0
                   then (case item_correct delta it of
                           Inl e \<Rightarrow> (s, Inl e)
                         | Inr it1 \<Rightarrow> (record_movement (put_item s k it1) k ADJUST delta (it_on_hand it1) reason now, Inr delta))
                   else (s, Inr delta))))"

definition transfer_stock :: "inventory \<Rightarrow> string \<Rightarrow> string \<Rightarrow> string \<Rightarrow> int \<Rightarrow> rat \<Rightarrow> inventory \<times> (inv_error + unit)" where
  "transfer_stock s sku from_wh to_wh qty now =
     (if qty \<le> 0 then (s, Inl (Builtin ValueError))
      else if from_wh = to_wh then (s, Inl (Builtin ValueError))
      else (case get_item s (sku, from_wh) of
        Inl e \<Rightarrow> (s, Inl e)
      | Inr src \<Rightarrow> (case get_or_create_item s (sku, to_wh) of
          Inl e \<Rightarrow> (s, Inl e)
        | Inr (s1, dst) \<Rightarrow> (case remove_available sku qty src of
            Inl e \<Rightarrow> (s1, Inl e)
          | Inr src1 \<Rightarrow>
              (let dst1 = item_receive qty dst;
                   s2 = put_item (put_item s1 (sku, from_wh) src1) (sku, to_wh) dst1;
                   ref = ''transfer '' @ from_wh @ ''->'' @ to_wh;
                   s3 = record_movement s2 (sku, from_wh) TRANSFER_OUT (- qty) (it_on_hand src1) ref now
               in (record_movement s3 (sku, to_wh) TRANSFER_IN qty (it_on_hand dst1) ref now, Inr ()))))))"

subsection \<open>Reservations\<close>

text \<open>One operation on the item of every line, in order.\<close>

fun on_lines :: "(string \<Rightarrow> int \<Rightarrow> item \<Rightarrow> inv_error + item) \<Rightarrow> inventory \<Rightarrow> res_line list \<Rightarrow> inv_error + inventory" where
  "on_lines f s [] = Inr s"
| "on_lines f s (l # ls) =
     bind_sum (get_item s (ln_key l)) (\<lambda>it. bind_sum (f (fst (ln_key l)) (ln_quantity l) it) (\<lambda>it1.
       on_lines f (put_item s (ln_key l) it1) ls))"

fun ship_lines :: "inventory \<Rightarrow> res_line list \<Rightarrow> string \<Rightarrow> rat \<Rightarrow> inv_error + inventory" where
  "ship_lines s [] ref now = Inr s"
| "ship_lines s (l # ls) ref now =
     bind_sum (get_item s (ln_key l)) (\<lambda>it. bind_sum (ship_reserved (fst (ln_key l)) (ln_quantity l) it) (\<lambda>it1.
       ship_lines (record_movement (put_item s (ln_key l) it1) (ln_key l) SHIP (- ln_quantity l) (it_on_hand it1) ref now) ls ref now))"

text \<open>\<open>{line: item for line in lines}\<close> has every line once.\<close>

definition dict_lines :: "res_line list \<Rightarrow> res_line list" where
  "dict_lines ls = foldl (\<lambda>acc l. if l \<in> set acc then acc else acc @ [l]) [] ls"

definition views :: "inventory \<Rightarrow> string \<Rightarrow> stock_view list" where
  "views s sku = map (\<lambda>e. \<lparr>vw_warehouse = snd (fst e), vw_priority = it_priority (snd e), vw_available = available (snd e)\<rparr>)
     (filter (\<lambda>e. fst (fst e) = sku) (iv_items s))"

fun plan_lines :: "inventory \<Rightarrow> (string \<times> int) list \<Rightarrow> inv_error + res_line list" where
  "plan_lines s [] = Inr []"
| "plan_lines s ((sku, qty) # ws) =
     (case allocate (iv_allocation s) qty (views s sku) of
        None \<Rightarrow> Inl (InsufficientStockError sku qty (sum_list (map vw_available (views s sku))))
      | Some plan \<Rightarrow> bind_sum (plan_lines s ws) (\<lambda>ls.
          Inr (map (\<lambda>e. \<lparr>ln_key = (sku, fst e), ln_quantity = snd e\<rparr>) plan @ ls)))"

definition reserve :: "inventory \<Rightarrow> string \<Rightarrow> (string \<times> int) list \<Rightarrow> rat \<Rightarrow> inventory \<times> (inv_error + string)" where
  "reserve s order_id request now =
     (if request = [] then (s, Inl (Builtin ValueError))
      else if list_ex (\<lambda>e. snd e \<le> 0) request then (s, Inl (Builtin ValueError))
      else (case Option.bind (map_of (iv_by_order s) order_id) (\<lambda>rid. map_option (Pair rid) (map_of (iv_reservations s) rid)) of
        Some (rid, r) \<Rightarrow> if set (requested r) \<noteq> set request then (s, Inl IdempotencyConflictError) else (s, Inr rid)
      | None \<Rightarrow>
          if list_ex (\<lambda>e. map_of (iv_products s) (fst e) = None) request then (s, Inl NotFoundError)
          else (case bind_sum (plan_lines s (sort request)) (\<lambda>ls. bind_sum (on_lines item_reserve s ls) (\<lambda>s1. Inr (ls, s1))) of
            Inl e \<Rightarrow> (s, Inl e)
          | Inr (ls, s1) \<Rightarrow>
              (let rid = ''RSV-'' @ digits (iv_ids s1);
                   r = \<lparr>rs_order = order_id, rs_lines = ls, rs_expires_at = now + iv_ttl s1, rs_status = ACTIVE\<rparr>
               in (s1\<lparr>iv_ids := iv_ids s1 + 1, iv_reservations := AList.update rid r (iv_reservations s1),
                      iv_by_order := AList.update order_id rid (iv_by_order s1)\<rparr>, Inr rid)))))"

definition release_locked :: "inventory \<Rightarrow> string \<Rightarrow> reservation \<Rightarrow> ReservationStatus \<Rightarrow> inv_error + inventory" where
  "release_locked s rid r final =
     bind_sum (on_lines item_release s (dict_lines (rs_lines r))) (\<lambda>s1.
       Inr (s1\<lparr>iv_reservations := AList.update rid (r\<lparr>rs_status := final\<rparr>) (iv_reservations s1)\<rparr>))"

definition commit :: "inventory \<Rightarrow> string \<Rightarrow> string \<Rightarrow> rat \<Rightarrow> inventory \<times> (inv_error + unit)" where
  "commit s rid ref now =
     (case map_of (iv_reservations s) rid of
        None \<Rightarrow> (s, Inl NotFoundError)
      | Some r \<Rightarrow>
          (case rs_status r of
             COMMITTED \<Rightarrow> (s, Inr ())
           | ACTIVE \<Rightarrow>
               if rs_expires_at r \<le> now
               then (case release_locked s rid r EXPIRED of Inl e \<Rightarrow> (s, Inl e) | Inr s1 \<Rightarrow> (s1, Inl ReservationExpiredError))
               else (case ship_lines s (dict_lines (rs_lines r)) (if ref \<noteq> [] then ref else rs_order r) now of
                       Inl e \<Rightarrow> (s, Inl e)
                     | Inr s1 \<Rightarrow> (s1\<lparr>iv_reservations := AList.update rid (r\<lparr>rs_status := COMMITTED\<rparr>) (iv_reservations s1)\<rparr>, Inr ()))
           | EXPIRED \<Rightarrow> (s, Inl ReservationExpiredError)
           | RELEASED \<Rightarrow> (s, Inl InvalidStateError)))"

definition release :: "inventory \<Rightarrow> string \<Rightarrow> inventory \<times> (inv_error + unit)" where
  "release s rid =
     (case map_of (iv_reservations s) rid of
        None \<Rightarrow> (s, Inl NotFoundError)
      | Some r \<Rightarrow>
          (case rs_status r of
             RELEASED \<Rightarrow> (s, Inr ())
           | EXPIRED \<Rightarrow> (s, Inr ())
           | COMMITTED \<Rightarrow> (s, Inl InvalidStateError)
           | ACTIVE \<Rightarrow> (case release_locked s rid r RELEASED of Inl e \<Rightarrow> (s, Inl e) | Inr s1 \<Rightarrow> (s1, Inr ()))))"

fun expire_each :: "inventory \<Rightarrow> string list \<Rightarrow> string list \<Rightarrow> inventory \<times> (inv_error + string list)" where
  "expire_each s expired [] = (s, Inr expired)"
| "expire_each s expired (rid # rids) =
     (case map_of (iv_reservations s) rid of
        None \<Rightarrow> expire_each s expired rids
      | Some r \<Rightarrow>
          if rs_status r = ACTIVE
          then (case release_locked s rid r EXPIRED of
                  Inl e \<Rightarrow> (s, Inl e)
                | Inr s1 \<Rightarrow> expire_each s1 (expired @ [rid]) rids)
          else expire_each s expired rids)"

definition expire_reservations :: "inventory \<Rightarrow> rat \<Rightarrow> inventory \<times> (inv_error + string list)" where
  "expire_reservations s now =
     expire_each s [] (map fst (filter (\<lambda>e. rs_status (snd e) = ACTIVE \<and> rs_expires_at (snd e) \<le> now) (iv_reservations s)))"

subsection \<open>Replenishment\<close>

definition avg_daily_demand :: "inventory \<Rightarrow> item_key \<Rightarrow> rat \<Rightarrow> inv_error + rat" where
  "avg_daily_demand s k now =
     (let since = now - of_int (iv_lookback s * 86400);
          shipped = sum_list (map (\<lambda>m. - mv_delta m) (filter (\<lambda>m. mv_type m = SHIP \<and> mv_key m = k \<and> since \<le> mv_at m) (iv_ledger s)))
      in if iv_lookback s = 0 then Inl (Builtin ZeroDivisionError) else Inr (of_int shipped / of_int (iv_lookback s)))"

definition on_order :: "inventory \<Rightarrow> item_key \<Rightarrow> int" where
  "on_order s k = sum_list (map (\<lambda>e. po_quantity (snd e)) (filter (\<lambda>e. po_status (snd e) = PO_OPEN \<and> po_key (snd e) = k) (iv_orders s)))"

fun reorder_each :: "inventory \<Rightarrow> rat \<Rightarrow> string list \<Rightarrow> (item_key \<times> item) list \<Rightarrow> inventory \<times> (inv_error + string list)" where
  "reorder_each s now created [] = (s, Inr created)"
| "reorder_each s now created ((k, it) # es) =
     (case avg_daily_demand s k now of
        Inl e \<Rightarrow> (s, Inl e)
      | Inr demand \<Rightarrow>
          (let qty = reorder_quantity (iv_policy s) (it_product it) (available it + on_order s k) demand
           in if 0 < qty
              then (let pid = ''PO-'' @ digits (iv_ids s)
                    in reorder_each (s\<lparr>iv_ids := iv_ids s + 1,
                         iv_orders := AList.update pid \<lparr>po_key = k, po_quantity = qty, po_status = PO_OPEN\<rparr> (iv_orders s)\<rparr>) now (created @ [pid]) es)
              else reorder_each s now created es))"

definition check_reorder :: "inventory \<Rightarrow> rat \<Rightarrow> inventory \<times> (inv_error + string list)" where
  "check_reorder s now = reorder_each s now [] (sort_key fst (iv_items s))"

definition receive_purchase_order :: "inventory \<Rightarrow> string \<Rightarrow> rat \<Rightarrow> inventory \<times> (inv_error + unit)" where
  "receive_purchase_order s pid now =
     (case map_of (iv_orders s) pid of
        None \<Rightarrow> (s, Inl NotFoundError)
      | Some po \<Rightarrow>
          if po_status po \<noteq> PO_OPEN then (s, Inl InvalidStateError)
          else receive_stock (s\<lparr>iv_orders := AList.update pid (po\<lparr>po_status := PO_RECEIVED\<rparr>) (iv_orders s)\<rparr>) (po_key po) (po_quantity po) pid now)"

definition cancel_purchase_order :: "inventory \<Rightarrow> string \<Rightarrow> inventory \<times> (inv_error + unit)" where
  "cancel_purchase_order s pid =
     (case map_of (iv_orders s) pid of
        None \<Rightarrow> (s, Inl NotFoundError)
      | Some po \<Rightarrow>
          if po_status po \<noteq> PO_OPEN then (s, Inl InvalidStateError)
          else (s\<lparr>iv_orders := AList.update pid (po\<lparr>po_status := PO_CANCELLED\<rparr>) (iv_orders s)\<rparr>, Inr ()))"

subsection \<open>Queries\<close>

definition stock :: "inventory \<Rightarrow> item_key \<Rightarrow> inv_error + int \<times> int \<times> int" where
  "stock s k = bind_sum (get_item s k) (\<lambda>it. Inr (it_on_hand it, it_reserved it, available it))"

definition total_available :: "inventory \<Rightarrow> string \<Rightarrow> inv_error + int" where
  "total_available s sku =
     (if map_of (iv_products s) sku = None then Inl NotFoundError
      else Inr (sum_list (map (\<lambda>e. available (snd e)) (filter (\<lambda>e. fst (fst e) = sku) (iv_items s)))))"

definition inventory_value :: "inventory \<Rightarrow> rat" where
  "inventory_value s = sum_list (map (\<lambda>e. pr_unit_price (it_product (snd e)) * of_int (it_on_hand (snd e))) (iv_items s))"

definition movements :: "inventory \<Rightarrow> string option \<Rightarrow> movement list" where
  "movements s sku = filter (\<lambda>m. sku = None \<or> sku = Some (fst (mv_key m))) (iv_ledger s)"

text \<open>The calls that change the inventory; a request is a mapping, so only the first entry of a key counts.\<close>

datatype inv_op =
    AddProduct string product
  | AddWarehouse string int
  | ReceiveStock item_key int string rat
  | AdjustStock item_key int string rat
  | TransferStock string string string int rat
  | Reserve string "(string \<times> int) list" rat
  | Commit string string rat
  | Release string
  | ExpireReservations rat
  | CheckReorder rat
  | ReceivePO string rat
  | CancelPO string

fun inv_step :: "inventory \<Rightarrow> inv_op \<Rightarrow> inventory \<times> inv_error option" where
  "inv_step s (AddProduct sku p) = apsnd (case_sum Some (\<lambda>_. None)) (add_product s sku p)"
| "inv_step s (AddWarehouse wh prio) = apsnd (case_sum Some (\<lambda>_. None)) (add_warehouse s wh prio)"
| "inv_step s (ReceiveStock k qty ref now) = apsnd (case_sum Some (\<lambda>_. None)) (receive_stock s k qty ref now)"
| "inv_step s (AdjustStock k n reason now) = apsnd (case_sum Some (\<lambda>_. None)) (adjust_stock s k n reason now)"
| "inv_step s (TransferStock sku f t qty now) = apsnd (case_sum Some (\<lambda>_. None)) (transfer_stock s sku f t qty now)"
| "inv_step s (Reserve oid req now) = apsnd (case_sum Some (\<lambda>_. None)) (reserve s oid (AList.clearjunk req) now)"
| "inv_step s (Commit rid ref now) = apsnd (case_sum Some (\<lambda>_. None)) (commit s rid ref now)"
| "inv_step s (Release rid) = apsnd (case_sum Some (\<lambda>_. None)) (release s rid)"
| "inv_step s (ExpireReservations now) = apsnd (case_sum Some (\<lambda>_. None)) (expire_reservations s now)"
| "inv_step s (CheckReorder now) = apsnd (case_sum Some (\<lambda>_. None)) (check_reorder s now)"
| "inv_step s (ReceivePO pid now) = apsnd (case_sum Some (\<lambda>_. None)) (receive_purchase_order s pid now)"
| "inv_step s (CancelPO pid) = apsnd (case_sum Some (\<lambda>_. None)) (cancel_purchase_order s pid)"

end
