(* ===== verification/Inventory_Books.thy ===== *)
theory Inventory_Books
  imports Inventory
begin

text \<open>
  The books of \<open>InventoryService\<close>: what is reserved of an item is what the active reservations hold, and what is on
  hand is what the ledger says, over any sequence of calls. The allocation strategies find a plan exactly when there is
  enough stock.
\<close>

declare split_paired_All [simp del] split_paired_Ex [simp del]

section \<open>Allocation\<close>

definition plan_ok :: "stock_view list \<Rightarrow> (string \<times> int) list \<Rightarrow> bool" where
  "plan_ok shelf plan \<longleftrightarrow> distinct (map fst plan)
     \<and> (\<forall>e \<in> set plan. 0 < snd e \<and> (\<exists>v \<in> set shelf. vw_warehouse v = fst e \<and> snd e \<le> vw_available v))"

lemma greedy_split_correct:
  assumes "0 < qty" "distinct (map vw_warehouse vs)" "\<forall>v \<in> set vs. 0 \<le> vw_available v"
    and "plan_ok shelf plan" "set vs \<subseteq> set shelf" "fst ` set plan \<inter> vw_warehouse ` set vs = {}"
  shows "case greedy_split plan qty vs of
      None \<Rightarrow> sum_list (map vw_available vs) < qty
    | Some p \<Rightarrow> plan_ok shelf p \<and> sum_list (map snd p) = sum_list (map snd plan) + qty \<and> qty \<le> sum_list (map vw_available vs)"
  using assms
proof (induction plan qty vs rule: greedy_split.induct)
  case (2 plan qty v vs)
  let ?n = "min qty (vw_available v)" and ?w = "vw_warehouse v"
  have nn: "0 \<le> sum_list (map vw_available vs)" using "2.prems"(3) by (intro sum_list_nonneg) auto
  show ?case
  proof (cases "0 < ?n")
    case True
    have ok: "plan_ok shelf (plan @ [(?w, ?n)])" using "2.prems"(4,5,6) True by (auto simp: plan_ok_def)
    show ?thesis
    proof (cases "qty - ?n = 0")
      case done_here: True
      then show ?thesis using True ok nn by (simp add: Let_def)
    next
      case False
      have "case greedy_split (plan @ [(?w, ?n)]) (qty - ?n) vs of
          None \<Rightarrow> sum_list (map vw_available vs) < qty - ?n
        | Some p \<Rightarrow> plan_ok shelf p \<and> sum_list (map snd p) = sum_list (map snd (plan @ [(?w, ?n)])) + (qty - ?n) \<and> qty - ?n \<le> sum_list (map vw_available vs)"
        using "2.IH" [OF refl, of "plan @ [(?w, ?n)]" "qty - ?n"] True False ok "2.prems" by auto
      then show ?thesis using True False by (auto simp: Let_def split: option.splits)
    qed
  next
    case False
    then have "vw_available v = 0" using "2.prems"(1,3) by (auto simp: min_def split: if_splits)
    then show ?thesis using "2.IH" [OF refl, of plan qty] False "2.prems" by (auto simp: Let_def split: option.splits)
  qed
qed simp

lemma allocation_correct:
  assumes "0 < qty" "distinct (map vw_warehouse shelf)" "\<forall>v \<in> set shelf. 0 \<le> vw_available v"
  shows "case allocate a qty shelf of
      None \<Rightarrow> sum_list (map vw_available shelf) < qty
    | Some p \<Rightarrow> plan_ok shelf p \<and> sum_list (map snd p) = qty \<and> qty \<le> sum_list (map vw_available shelf)"
proof -
  let ?vs = "by_preference shelf"
  have "mset ?vs = mset shelf" by (simp add: by_preference_def)
  then have m: "set ?vs = set shelf" "distinct (map vw_warehouse ?vs)" "sum_list (map vw_available ?vs) = sum_list (map vw_available shelf)"
    using assms(2) by (metis mset_eq_setD, metis mset_map mset_eq_imp_distinct_iff, metis mset_map sum_mset_sum_list)
  have greedy: "case greedy_split [] qty ?vs of None \<Rightarrow> sum_list (map vw_available ?vs) < qty
    | Some p \<Rightarrow> plan_ok shelf p \<and> sum_list (map snd p) = sum_list (map snd ([] :: (string \<times> int) list)) + qty \<and> qty \<le> sum_list (map vw_available ?vs)"
    using assms m by (intro greedy_split_correct) (auto simp: plan_ok_def)
  show ?thesis
  proof (cases a)
    case GreedySplitAllocation
    then show ?thesis using greedy m(3) by (simp split: option.splits)
  next
    case SingleWarehouseFirstAllocation
    show ?thesis
    proof (cases "find (\<lambda>s. qty \<le> vw_available s) ?vs")
      case None
      then show ?thesis using SingleWarehouseFirstAllocation greedy m(3) by (simp split: option.splits)
    next
      case (Some v)
      then have v: "v \<in> set shelf" "qty \<le> vw_available v" using m(1) by (auto simp: find_Some_iff)
      then have "vw_available v \<le> sum_list (map vw_available shelf)" using assms(3) by (intro member_le_sum_list) auto
      then show ?thesis using SingleWarehouseFirstAllocation Some v assms(1) by (auto simp: plan_ok_def)
    qed
  qed
qed

section \<open>The invariant\<close>

definition line_sum :: "res_line list \<Rightarrow> item_key \<Rightarrow> int" where
  "line_sum ls k = sum_list (map (\<lambda>l. if ln_key l = k then ln_quantity l else 0) ls)"

text \<open>What the active reservations hold of an item, and the sum of its movements.\<close>

definition held :: "inventory \<Rightarrow> item_key \<Rightarrow> int" where
  "held s k = sum_list (map (\<lambda>e. if rs_status (snd e) = ACTIVE then line_sum (rs_lines (snd e)) k else 0) (iv_reservations s))"

definition moved :: "inventory \<Rightarrow> item_key \<Rightarrow> int" where
  "moved s k = sum_list (map (\<lambda>m. if mv_key m = k then mv_delta m else 0) (iv_ledger s))"

definition lines_ok :: "inventory \<Rightarrow> res_line list \<Rightarrow> bool" where
  "lines_ok s ls \<longleftrightarrow> distinct (map ln_key ls) \<and> (\<forall>l \<in> set ls. 0 < ln_quantity l \<and> map_of (iv_items s) (ln_key l) \<noteq> None)"

definition item_ok :: "inventory \<Rightarrow> item_key \<Rightarrow> item \<Rightarrow> bool" where
  "item_ok s k it \<longleftrightarrow> 0 \<le> it_reserved it \<and> it_reserved it \<le> it_on_hand it \<and> it_reserved it = held s k \<and> it_on_hand it = moved s k"

definition inv_ok :: "inventory \<Rightarrow> bool" where
  "inv_ok s \<longleftrightarrow> distinct (map fst (iv_items s)) \<and> ids_ok ''RSV-'' (iv_ids s) (iv_reservations s)
     \<and> (\<forall>e \<in> set (iv_reservations s). lines_ok s (rs_lines (snd e)))
     \<and> (\<forall>m \<in> set (iv_ledger s). map_of (iv_items s) (mv_key m) \<noteq> None)
     \<and> (\<forall>k it. map_of (iv_items s) k = Some it \<longrightarrow> item_ok s k it)"

lemma inv_okD:
  assumes "inv_ok s"
  shows "distinct (map fst (iv_items s))" "ids_ok ''RSV-'' (iv_ids s) (iv_reservations s)"
    "\<And>e. e \<in> set (iv_reservations s) \<Longrightarrow> lines_ok s (rs_lines (snd e))"
    "\<And>m. m \<in> set (iv_ledger s) \<Longrightarrow> map_of (iv_items s) (mv_key m) \<noteq> None"
    "\<And>k it. map_of (iv_items s) k = Some it \<Longrightarrow> item_ok s k it"
  using assms by (auto simp: inv_ok_def)

lemma inv_ok_frame:
  assumes "inv_ok s" "iv_items t = iv_items s" "iv_reservations t = iv_reservations s" "iv_ledger t = iv_ledger s" "iv_ids s \<le> iv_ids t"
  shows "inv_ok t"
proof -
  have "held t = held s" "moved t = moved s" using assms(3,4) by (auto simp: held_def moved_def)
  then have "item_ok t = item_ok s" "lines_ok t = lines_ok s" using assms(2) by (auto simp: item_ok_def lines_ok_def fun_eq_iff)
  then show ?thesis using assms inv_okD [OF assms(1)] ids_ok_mono [OF inv_okD(2) [OF assms(1)] assms(5)] unfolding inv_ok_def by simp
qed

lemma line_sum_nonneg: "lines_ok s ls \<Longrightarrow> 0 \<le> line_sum ls k"
  unfolding line_sum_def lines_ok_def by (intro sum_list_nonneg) (auto intro: order.strict_implies_order)

lemma line_sum_absent: "k \<notin> ln_key ` set ls \<Longrightarrow> line_sum ls k = 0"
  unfolding line_sum_def by (induction ls) auto

lemma line_sum_present: "distinct (map ln_key ls) \<Longrightarrow> l \<in> set ls \<Longrightarrow> line_sum ls (ln_key l) = ln_quantity l"
proof (induction ls)
  case (Cons a ls)
  then show ?case using line_sum_absent [of "ln_key a" ls] by (auto simp: line_sum_def)
qed simp

lemma sum_list_all_zero: "(\<And>x. x \<in> set xs \<Longrightarrow> f x = 0) \<Longrightarrow> sum_list (map f xs) = 0" for f :: "'a \<Rightarrow> int"
  by (induction xs) auto

text \<open>Items that nobody has touched: no active line and no movement refers to them.\<close>

lemma fresh_sums:
  assumes "inv_ok s" "map_of (iv_items s) k = None"
  shows "held s k = 0" "moved s k = 0"
proof -
  have "line_sum (rs_lines (snd e)) k = 0" if "e \<in> set (iv_reservations s)" for e
    using inv_okD(3) [OF assms(1) that] assms(2) by (intro line_sum_absent) (auto simp: lines_ok_def)
  then show "held s k = 0" unfolding held_def by (intro sum_list_all_zero) simp
  have "mv_key m \<noteq> k" if "m \<in> set (iv_ledger s)" for m using inv_okD(4) [OF assms(1) that] assms(2) by auto
  then show "moved s k = 0" unfolding moved_def by (intro sum_list_all_zero) simp
qed

lemma put_item_simps [simp]:
  "iv_reservations (put_item s k it) = iv_reservations s" "iv_ledger (put_item s k it) = iv_ledger s" "iv_ids (put_item s k it) = iv_ids s"
  "map_of (iv_items (put_item s k it)) j = (if j = k then Some it else map_of (iv_items s) j)"
  "held (put_item s k it) = held s" "moved (put_item s k it) = moved s"
  by (auto simp: put_item_def update_conv' held_def moved_def)

lemma put_item_distinct: "distinct (map fst (iv_items s)) \<Longrightarrow> distinct (map fst (iv_items (put_item s k it)))"
  by (simp add: put_item_def distinct_update)

lemma record_simps [simp]:
  "iv_items (record_movement s k ty d oh ref now) = iv_items s" "iv_reservations (record_movement s k ty d oh ref now) = iv_reservations s"
  "iv_ids (record_movement s k ty d oh ref now) = Suc (iv_ids s)" "held (record_movement s k ty d oh ref now) = held s"
  "moved (record_movement s k ty d oh ref now) j = moved s j + (if k = j then d else 0)"
  "set (iv_ledger (record_movement s k ty d oh ref now)) = insert \<lparr>mv_id = iv_ids s, mv_key = k, mv_type = ty, mv_delta = d, mv_on_hand_after = oh, mv_reference = ref, mv_at = now\<rparr> (set (iv_ledger s))"
  by (auto simp: record_movement_def held_def moved_def)

lemma lines_ok_more: "lines_ok s ls \<Longrightarrow> (\<And>k. map_of (iv_items s) k \<noteq> None \<Longrightarrow> map_of (iv_items t) k \<noteq> None) \<Longrightarrow> lines_ok t ls"
  unfolding lines_ok_def by blast

section \<open>Stock in and out\<close>

lemma create_ok:
  assumes ok: "inv_ok s" and new: "get_or_create_item s k = Inr (s1, it)"
  shows "inv_ok s1" "map_of (iv_items s1) j = (if j = k then Some it else map_of (iv_items s) j)"
proof -
  consider (old) "map_of (iv_items s) k = Some it" "s1 = s"
    | (fresh) "map_of (iv_items s) k = None" "s1 = put_item s k it" "it_on_hand it = 0" "it_reserved it = 0"
    using new by (auto simp: get_or_create_item_def Let_def split: option.splits)
  then have "inv_ok s1 \<and> (\<forall>j. map_of (iv_items s1) j = (if j = k then Some it else map_of (iv_items s) j))"
  proof cases
    case fresh
    note f = fresh_sums [OF ok fresh(1)] and o = inv_okD [OF ok]
    have "lines_ok s1 (rs_lines (snd e))" if "e \<in> set (iv_reservations s)" for e
      using o(3) [OF that] by (rule lines_ok_more) (simp add: fresh(2))
    moreover have "map_of (iv_items s1) (mv_key m) \<noteq> None" if "m \<in> set (iv_ledger s)" for m using o(4) [OF that] by (simp add: fresh(2))
    moreover have "item_ok s1 j x" if "map_of (iv_items s1) j = Some x" for j x
      using that o(5) [of j x] f fresh(3,4) by (auto simp: fresh(2) item_ok_def split: if_splits)
    ultimately show ?thesis using o(1,2) put_item_distinct [OF o(1)] by (simp add: inv_ok_def fresh(2))
  qed (use ok in auto)
  then show "inv_ok s1" "map_of (iv_items s1) j = (if j = k then Some it else map_of (iv_items s) j)" by auto
qed

text \<open>A change of one item on hand, written to the ledger.\<close>

lemma movement_ok:
  assumes ok: "inv_ok s" and it: "map_of (iv_items s) k = Some it"
    and it1: "it_reserved it1 = it_reserved it" "it_on_hand it1 = it_on_hand it + d" "it_reserved it1 \<le> it_on_hand it1"
  shows "inv_ok (record_movement (put_item s k it1) k ty d oh ref now)"
proof -
  let ?t = "record_movement (put_item s k it1) k ty d oh ref now"
  note o = inv_okD [OF ok]
  have "lines_ok ?t (rs_lines (snd e))" if "e \<in> set (iv_reservations s)" for e
    using o(3) [OF that] by (rule lines_ok_more) simp
  moreover have "map_of (iv_items ?t) (mv_key m) \<noteq> None" if "m \<in> set (iv_ledger ?t)" for m using that o(4) [of m] by auto
  moreover have "item_ok ?t j x" if "map_of (iv_items ?t) j = Some x" for j x
    using that o(5) [of j] o(5) [OF it] it1 by (auto simp: item_ok_def split: if_splits)
  ultimately show ?thesis using o(1) put_item_distinct [OF o(1)] ids_ok_mono [OF o(2), of "Suc (iv_ids s)"] by (simp add: inv_ok_def)
qed

lemma receive_stock_ok: "inv_ok s \<Longrightarrow> inv_ok (fst (receive_stock s k qty ref now))"
proof (cases "bind_sum (require_positive qty) (\<lambda>_. get_or_create_item s k)")
  case (Inr x)
  assume ok: "inv_ok s"
  obtain s1 it where x: "x = (s1, it)" by fastforce
  then have c: "get_or_create_item s k = Inr (s1, it)" and q: "0 < qty"
    using Inr by (auto simp: bind_sum_Inr require_positive_def split: if_splits)
  note s1 = create_ok [OF ok c]
  have it: "map_of (iv_items s1) k = Some it" using s1(2) by simp
  show ?thesis using movement_ok [OF s1(1) it, of "item_receive qty it" qty] inv_okD(5) [OF s1(1) it] q Inr x
    by (simp add: receive_stock_def Let_def item_receive_def item_ok_def)
qed (simp add: receive_stock_def)

lemma adjust_stock_ok: "inv_ok s \<Longrightarrow> inv_ok (fst (adjust_stock s k n reason now))"
proof (cases "map_of (iv_items s) k")
  case (Some it)
  assume ok: "inv_ok s"
  show ?thesis using ok Some movement_ok [OF ok Some]
    by (auto simp: adjust_stock_def get_item_def item_correct_def Let_def)
qed (simp add: adjust_stock_def get_item_def)

lemma record_put: "k \<noteq> j \<Longrightarrow> record_movement (put_item (put_item s k x) j y) k ty d oh ref now = put_item (record_movement (put_item s k x) k ty d oh ref now) j y"
  by (simp add: record_movement_def put_item_def)

lemma transfer_stock_ok: "inv_ok s \<Longrightarrow> inv_ok (fst (transfer_stock s sku f t qty now))"
proof -
  assume ok: "inv_ok s"
  show ?thesis
  proof (cases "0 < qty \<and> f \<noteq> t \<and> (\<exists>src s1 dst src1. get_item s (sku, f) = Inr src \<and> get_or_create_item s (sku, t) = Inr (s1, dst)
      \<and> remove_available sku qty src = Inr src1)")
    case True
    then obtain src s1 dst src1 where h: "0 < qty" "f \<noteq> t" "get_item s (sku, f) = Inr src" "get_or_create_item s (sku, t) = Inr (s1, dst)"
      "remove_available sku qty src = Inr src1" by blast
    note s1 = create_ok [OF ok h(4)]
    have src: "map_of (iv_items s1) (sku, f) = Some src" using h(2,3) s1(2) by (simp add: get_item_def split: option.splits)
    have dst: "map_of (iv_items s1) (sku, t) = Some dst" using s1(2) by simp
    have src1: "it_reserved src1 = it_reserved src" "it_on_hand src1 = it_on_hand src + - qty" "it_reserved src1 \<le> it_on_hand src1"
      using h(5) by (auto simp: remove_available_def available_def split: if_splits)
    let ?ref = "''transfer '' @ f @ ''->'' @ t"
    let ?m = "record_movement (put_item s1 (sku, f) src1) (sku, f) TRANSFER_OUT (- qty) (it_on_hand src1) ?ref now"
    have m: "inv_ok ?m" by (rule movement_ok [OF s1(1) src src1])
    have dm: "map_of (iv_items ?m) (sku, t) = Some dst" using dst h(2) by simp
    have "inv_ok (record_movement (put_item ?m (sku, t) (item_receive qty dst)) (sku, t) TRANSFER_IN qty (it_on_hand (item_receive qty dst)) ?ref now)"
      using inv_okD(5) [OF m dm] h(1) by (intro movement_ok [OF m dm]) (simp_all add: item_receive_def item_ok_def)
    then show ?thesis using h by (simp add: transfer_stock_def Let_def record_put)
  next
    case False
    have "inv_ok s1" if "get_or_create_item s (sku, t) = Inr (s1, dst)" for s1 dst by (rule create_ok(1) [OF ok that])
    then show ?thesis using ok False by (auto simp: transfer_stock_def split: sum.splits prod.splits)
  qed
qed

section \<open>Lines\<close>

text \<open>The effect of an operation on the item of every line, when no item has two lines.\<close>

definition touched :: "(string \<Rightarrow> int \<Rightarrow> item \<Rightarrow> inv_error + item) \<Rightarrow> inventory \<Rightarrow> res_line list \<Rightarrow> inventory \<Rightarrow> bool" where
  "touched f s ls t \<longleftrightarrow> (distinct (map fst (iv_items s)) \<longrightarrow> distinct (map fst (iv_items t)))
     \<and> (\<forall>k. k \<notin> ln_key ` set ls \<longrightarrow> map_of (iv_items t) k = map_of (iv_items s) k)
     \<and> (\<forall>l \<in> set ls. \<exists>it it1. map_of (iv_items s) (ln_key l) = Some it \<and> f (fst (ln_key l)) (ln_quantity l) it = Inr it1
           \<and> map_of (iv_items t) (ln_key l) = Some it1)"

lemma touched_cons:
  assumes t: "touched f (put_item s (ln_key l) it1) ls t" and d: "ln_key l \<notin> ln_key ` set ls"
    and it: "map_of (iv_items s) (ln_key l) = Some it" "f (fst (ln_key l)) (ln_quantity l) it = Inr it1"
  shows "touched f s (l # ls) t"
proof -
  have "map_of (iv_items t) k = map_of (iv_items s) k" if "k \<notin> ln_key ` set (l # ls)" for k
    using t that by (simp add: touched_def)
  moreover have "\<exists>it it1. map_of (iv_items s) (ln_key m) = Some it \<and> f (fst (ln_key m)) (ln_quantity m) it = Inr it1
      \<and> map_of (iv_items t) (ln_key m) = Some it1" if "m \<in> set (l # ls)" for m
  proof (cases "m = l")
    case True
    then show ?thesis using t d it by (simp add: touched_def)
  next
    case False
    then have m: "m \<in> set ls" using that by simp
    then have "ln_key m \<noteq> ln_key l" using d by (metis image_eqI)
    then show ?thesis using t m unfolding touched_def by fastforce
  qed
  moreover have "distinct (map fst (iv_items s)) \<longrightarrow> distinct (map fst (iv_items t))"
    using t put_item_distinct [of s "ln_key l" it1] by (simp add: touched_def)
  ultimately show ?thesis unfolding touched_def by blast
qed

lemma touched_nil: "iv_items t = iv_items s \<Longrightarrow> touched f s [] t"
  by (simp add: touched_def)

lemma on_lines_touched:
  "on_lines f s ls = Inr t \<Longrightarrow> distinct (map ln_key ls) \<Longrightarrow> touched f s ls t \<and> (\<exists>items. t = s\<lparr>iv_items := items\<rparr>)"
proof (induction ls arbitrary: s)
  case Nil
  then have "t = s" by simp
  then show ?case by (auto intro: touched_nil exI [of _ "iv_items s"])
next
  case (Cons l ls)
  then obtain it it1 where it: "map_of (iv_items s) (ln_key l) = Some it" "f (fst (ln_key l)) (ln_quantity l) it = Inr it1"
    and t: "on_lines f (put_item s (ln_key l) it1) ls = Inr t"
    by (auto simp: bind_sum_Inr get_item_def split: option.splits)
  have d: "distinct (map ln_key ls)" "ln_key l \<notin> ln_key ` set ls" using Cons.prems by auto
  from Cons.IH [OF t d(1)] have "touched f (put_item s (ln_key l) it1) ls t" "\<exists>items. t = (put_item s (ln_key l) it1)\<lparr>iv_items := items\<rparr>" by auto
  then show ?case using touched_cons [where f = f, OF _ d(2) it] by (auto simp: put_item_def)
qed

lemma on_lines_succeeds:
  assumes "distinct (map ln_key ls)" "\<And>l. l \<in> set ls \<Longrightarrow> \<exists>it it1. map_of (iv_items s) (ln_key l) = Some it \<and> f (fst (ln_key l)) (ln_quantity l) it = Inr it1"
  shows "\<exists>t. on_lines f s ls = Inr t"
  using assms
proof (induction ls arbitrary: s)
  case (Cons l ls)
  obtain it it1 where it: "map_of (iv_items s) (ln_key l) = Some it" "f (fst (ln_key l)) (ln_quantity l) it = Inr it1"
    using Cons.prems(2) [of l] by auto
  have "\<exists>t. on_lines f (put_item s (ln_key l) it1) ls = Inr t"
  proof (rule Cons.IH)
    show "\<exists>x x1. map_of (iv_items (put_item s (ln_key l) it1)) (ln_key m) = Some x \<and> f (fst (ln_key m)) (ln_quantity m) x = Inr x1"
      if m: "m \<in> set ls" for m
    proof -
      have "ln_key m \<noteq> ln_key l" using Cons.prems(1) m by (metis distinct.simps(2) image_eqI list.simps(9) set_map)
      then show ?thesis using Cons.prems(2) [of m] m by simp
    qed
  qed (use Cons.prems in simp)
  then show ?case using it by (simp add: get_item_def)
qed simp

lemma ship_lines_touched:
  assumes "ship_lines s ls ref now = Inr t" "distinct (map ln_key ls)"
  shows "touched ship_reserved s ls t \<and> iv_reservations t = iv_reservations s \<and> iv_ids s \<le> iv_ids t
    \<and> (\<forall>k. moved t k = moved s k - line_sum ls k) \<and> mv_key ` set (iv_ledger t) = mv_key ` set (iv_ledger s) \<union> ln_key ` set ls"
  using assms
proof (induction ls arbitrary: s)
  case (Cons l ls)
  obtain it it1 where it: "map_of (iv_items s) (ln_key l) = Some it" "ship_reserved (fst (ln_key l)) (ln_quantity l) it = Inr it1"
    and t: "ship_lines (record_movement (put_item s (ln_key l) it1) (ln_key l) SHIP (- ln_quantity l) (it_on_hand it1) ref now) ls ref now = Inr t"
    using Cons.prems by (auto simp: bind_sum_Inr get_item_def split: option.splits)
  let ?m = "record_movement (put_item s (ln_key l) it1) (ln_key l) SHIP (- ln_quantity l) (it_on_hand it1) ref now"
  have d: "distinct (map ln_key ls)" "ln_key l \<notin> ln_key ` set ls" using Cons.prems by auto
  note ih = Cons.IH [OF t d(1)]
  then have "touched ship_reserved (put_item s (ln_key l) it1) ls t" by (simp add: touched_def)
  from touched_cons [OF this d(2) it] ih show ?case by (auto simp: line_sum_def)
qed (simp add: touched_nil line_sum_def)

lemma ship_lines_succeeds:
  assumes "distinct (map ln_key ls)" "\<And>l. l \<in> set ls \<Longrightarrow> \<exists>it it1. map_of (iv_items s) (ln_key l) = Some it \<and> ship_reserved (fst (ln_key l)) (ln_quantity l) it = Inr it1"
  shows "\<exists>t. ship_lines s ls ref now = Inr t"
  using assms
proof (induction ls arbitrary: s)
  case (Cons l ls)
  obtain it it1 where it: "map_of (iv_items s) (ln_key l) = Some it" "ship_reserved (fst (ln_key l)) (ln_quantity l) it = Inr it1"
    using Cons.prems(2) [of l] by auto
  have "\<exists>t. ship_lines (record_movement (put_item s (ln_key l) it1) (ln_key l) SHIP (- ln_quantity l) (it_on_hand it1) ref now) ls ref now = Inr t"
  proof (rule Cons.IH)
    show "\<exists>x x1. map_of (iv_items (record_movement (put_item s (ln_key l) it1) (ln_key l) SHIP (- ln_quantity l) (it_on_hand it1) ref now)) (ln_key m) = Some x
        \<and> ship_reserved (fst (ln_key m)) (ln_quantity m) x = Inr x1" if m: "m \<in> set ls" for m
    proof -
      have "ln_key m \<noteq> ln_key l" using Cons.prems(1) m by (metis distinct.simps(2) image_eqI list.simps(9) set_map)
      then show ?thesis using Cons.prems(2) [of m] m by simp
    qed
  qed (use Cons.prems in simp)
  then show ?case using it by (simp add: get_item_def)
qed simp

lemma dict_lines_id: "distinct (map ln_key ls) \<Longrightarrow> dict_lines ls = ls"
proof -
  have "foldl (\<lambda>acc l. if l \<in> set acc then acc else acc @ [l]) xs ls = xs @ ls" if "distinct (xs @ ls)" for xs ls :: "res_line list"
    using that by (induction ls arbitrary: xs) auto
  moreover assume "distinct (map ln_key ls)"
  then have "distinct ls" by (simp add: distinct_map)
  ultimately show ?thesis by (simp add: dict_lines_def)
qed

section \<open>Reservations\<close>

lemma member_le_sum_map: "x \<in> set xs \<Longrightarrow> (\<And>y. y \<in> set xs \<Longrightarrow> 0 \<le> f y) \<Longrightarrow> f x \<le> sum_list (map f xs)" for f :: "'a \<Rightarrow> int"
proof (induction xs)
  case (Cons y ys)
  have "0 \<le> f y" "0 \<le> sum_list (map f ys)" using Cons.prems(2) by (auto intro!: sum_list_nonneg)
  then show ?case using Cons by force
qed simp

lemma held_active:
  assumes ok: "inv_ok s" and r: "map_of (iv_reservations s) rid = Some r" "rs_status r = ACTIVE"
  shows "line_sum (rs_lines r) k \<le> held s k"
proof -
  let ?f = "\<lambda>e. if rs_status (snd e) = ACTIVE then line_sum (rs_lines (snd e)) k else 0"
  have "(rid, r) \<in> set (iv_reservations s)" by (rule map_of_SomeD [OF r(1)])
  moreover have "0 \<le> ?f e" if "e \<in> set (iv_reservations s)" for e
    using line_sum_nonneg [OF inv_okD(3) [OF ok that]] by simp
  ultimately have "?f (rid, r) \<le> sum_list (map ?f (iv_reservations s))" by (rule member_le_sum_map)
  then show ?thesis using r(2) by (simp add: held_def)
qed

lemma active_line:
  assumes ok: "inv_ok s" and r: "map_of (iv_reservations s) rid = Some r" "rs_status r = ACTIVE" and l: "l \<in> set (rs_lines r)"
  obtains it where "map_of (iv_items s) (ln_key l) = Some it" "ln_quantity l \<le> it_reserved it"
proof -
  have ls: "lines_ok s (rs_lines r)" using inv_okD(3) [OF ok map_of_SomeD [OF r(1)]] by simp
  then obtain it where it: "map_of (iv_items s) (ln_key l) = Some it" using l by (auto simp: lines_ok_def)
  have "ln_quantity l \<le> held s (ln_key l)"
    using held_active [OF ok r, of "ln_key l"] line_sum_present [OF _ l] ls by (simp add: lines_ok_def)
  then show ?thesis using that [OF it] inv_okD(5) [OF ok it] by (simp add: item_ok_def)
qed

text \<open>An active reservation ends: its lines are taken off the reserved units and, when shipped, off the shelf.\<close>

lemma end_reservation_ok:
  assumes ok: "inv_ok s" and r: "map_of (iv_reservations s) rid = Some r" "rs_status r = ACTIVE" and final: "final \<noteq> ACTIVE"
    and t: "touched f s (rs_lines r) t" "iv_reservations t = iv_reservations s" "iv_ids s \<le> iv_ids t"
    and led: "mv_key ` set (iv_ledger t) \<subseteq> mv_key ` set (iv_ledger s) \<union> ln_key ` set (rs_lines r)"
    and f: "\<And>sku q it it1. f sku q it = Inr it1 \<Longrightarrow> it_reserved it1 = it_reserved it - q \<and> it_on_hand it1 = it_on_hand it - c * q \<and> q \<le> it_reserved it"
    and mv: "\<And>k. moved t k = moved s k - c * line_sum (rs_lines r) k" and c: "c = 0 \<or> c = 1"
  shows "inv_ok (t\<lparr>iv_reservations := AList.update rid (r\<lparr>rs_status := final\<rparr>) (iv_reservations t)\<rparr>)"
proof -
  let ?ls = "rs_lines r" and ?r = "r\<lparr>rs_status := final\<rparr>"
  let ?u = "t\<lparr>iv_reservations := AList.update rid ?r (iv_reservations t)\<rparr>"
  note o = inv_okD [OF ok]
  have mem: "(rid, r) \<in> set (iv_reservations s)" by (rule map_of_SomeD [OF r(1)])
  have ls: "lines_ok s ?ls" using o(3) [OF mem] by simp
  have keys: "map_of (iv_items t) k \<noteq> None" if "map_of (iv_items s) k \<noteq> None" for k
    using t(1) that unfolding touched_def by (cases "k \<in> ln_key ` set ?ls") auto
  have dist: "distinct (map fst (iv_reservations s))" using o(2) by (simp add: ids_ok_def)
  have held: "held ?u k = held s k - line_sum ?ls k" for k
    unfolding held_def using r(2) final t(2) by (simp add: sum_list_update_key [OF dist r(1)])
  have items: "item_ok ?u k x" if x: "map_of (iv_items t) k = Some x" for k x
  proof (cases "k \<in> ln_key ` set ?ls")
    case False
    then have "map_of (iv_items s) k = Some x" using t(1) x by (simp add: touched_def)
    then show ?thesis using o(5) [of k x] held [of k] mv [of k] line_sum_absent [OF False] by (simp add: item_ok_def moved_def)
  next
    case True
    then obtain l where l: "l \<in> set ?ls" "k = ln_key l" by auto
    then obtain it where it: "map_of (iv_items s) k = Some it" "f (fst k) (ln_quantity l) it = Inr x"
      using t(1) x unfolding touched_def by fastforce
    have "line_sum ?ls k = ln_quantity l" "0 < ln_quantity l" using line_sum_present [OF _ l(1)] ls l by (simp_all add: lines_ok_def)
    moreover have "moved ?u k = moved t k" by (simp add: moved_def)
    ultimately show ?thesis using f [OF it(2)] o(5) [OF it(1)] held [of k] mv [of k] c by (auto simp: item_ok_def)
  qed
  have "lines_ok ?u (rs_lines (snd e))" if "e \<in> set (iv_reservations ?u)" for e
  proof -
    have "e = (rid, ?r) \<or> e \<in> set (iv_reservations s)" using that t(2) AList_update_elem [of e rid ?r] by simp
    then have "lines_ok s (rs_lines (snd e))" using o(3) [of e] ls by auto
    then show ?thesis by (rule lines_ok_more) (simp add: keys)
  qed
  moreover have "map_of (iv_items ?u) (mv_key m) \<noteq> None" if "m \<in> set (iv_ledger ?u)" for m
  proof -
    have "mv_key m \<in> mv_key ` set (iv_ledger s) \<or> mv_key m \<in> ln_key ` set ?ls" using that led by auto
    then have "map_of (iv_items s) (mv_key m) \<noteq> None" using o(4) ls unfolding lines_ok_def by (metis imageE)
    then show ?thesis using keys by simp
  qed
  moreover have "ids_ok ''RSV-'' (iv_ids ?u) (iv_reservations ?u)"
    using ids_ok_mono [OF ids_ok_update [OF o(2)] t(3), of rid ?r] mem t(2) by (simp add: image_iff) (metis fst_conv)
  ultimately show ?thesis using items t(1) o(1) by (simp add: inv_ok_def touched_def)
qed

lemma release_locked_ok:
  assumes ok: "inv_ok s" and r: "map_of (iv_reservations s) rid = Some r" "rs_status r = ACTIVE" and final: "final \<noteq> ACTIVE"
  obtains t where "release_locked s rid r final = Inr t" "inv_ok t"
proof -
  have ls: "distinct (map ln_key (rs_lines r))" using inv_okD(3) [OF ok map_of_SomeD [OF r(1)]] by (simp add: lines_ok_def)
  have "\<exists>it it1. map_of (iv_items s) (ln_key l) = Some it \<and> item_release (fst (ln_key l)) (ln_quantity l) it = Inr it1" if l: "l \<in> set (rs_lines r)" for l
    using active_line [OF ok r l] by (metis item_release_def not_less)
  then obtain t where t: "on_lines item_release s (rs_lines r) = Inr t" using on_lines_succeeds [OF ls] by blast
  from on_lines_touched [OF t ls] obtain items where tt: "touched item_release s (rs_lines r) t" "t = s\<lparr>iv_items := items\<rparr>" by blast
  have "inv_ok (t\<lparr>iv_reservations := AList.update rid (r\<lparr>rs_status := final\<rparr>) (iv_reservations t)\<rparr>)"
    by (rule end_reservation_ok [OF ok r final tt(1), where c = 0]) (auto simp: tt(2) moved_def item_release_def split: if_splits)
  then show ?thesis using that t by (simp add: release_locked_def dict_lines_id [OF ls])
qed

lemma ship_ok:
  assumes ok: "inv_ok s" and r: "map_of (iv_reservations s) rid = Some r" "rs_status r = ACTIVE"
  obtains t where "ship_lines s (dict_lines (rs_lines r)) ref now = Inr t"
    "inv_ok (t\<lparr>iv_reservations := AList.update rid (r\<lparr>rs_status := COMMITTED\<rparr>) (iv_reservations t)\<rparr>)"
proof -
  have ls: "distinct (map ln_key (rs_lines r))" using inv_okD(3) [OF ok map_of_SomeD [OF r(1)]] by (simp add: lines_ok_def)
  have "\<exists>it it1. map_of (iv_items s) (ln_key l) = Some it \<and> ship_reserved (fst (ln_key l)) (ln_quantity l) it = Inr it1" if l: "l \<in> set (rs_lines r)" for l
    using active_line [OF ok r l] by (metis ship_reserved_def not_less)
  then obtain t where t: "ship_lines s (rs_lines r) ref now = Inr t" using ship_lines_succeeds [OF ls] by blast
  note tt = ship_lines_touched [OF t ls]
  have "inv_ok (t\<lparr>iv_reservations := AList.update rid (r\<lparr>rs_status := COMMITTED\<rparr>) (iv_reservations t)\<rparr>)"
    by (rule end_reservation_ok [OF ok r _ conjunct1 [OF tt], where c = 1]) (use tt in \<open>auto simp: ship_reserved_def split: if_splits\<close>)
  then show ?thesis using that t by (simp add: dict_lines_id [OF ls])
qed

lemma commit_ok: "inv_ok s \<Longrightarrow> inv_ok (fst (commit s rid ref now))"
proof (cases "map_of (iv_reservations s) rid")
  case (Some r)
  assume ok: "inv_ok s"
  show ?thesis
  proof (cases "rs_status r = ACTIVE")
    case True
    obtain t where t: "release_locked s rid r EXPIRED = Inr t" "inv_ok t" by (rule release_locked_ok [where final = EXPIRED, OF ok Some True]) auto
    obtain u where u: "ship_lines s (dict_lines (rs_lines r)) (if ref \<noteq> [] then ref else rs_order r) now = Inr u"
      "inv_ok (u\<lparr>iv_reservations := AList.update rid (r\<lparr>rs_status := COMMITTED\<rparr>) (iv_reservations u)\<rparr>)" by (rule ship_ok [OF ok Some True])
    show ?thesis using Some True t u by (simp add: commit_def)
  qed (use ok Some in \<open>cases "rs_status r"; simp add: commit_def\<close>)
qed (simp add: commit_def)

lemma release_ok: "inv_ok s \<Longrightarrow> inv_ok (fst (release s rid))"
proof (cases "map_of (iv_reservations s) rid")
  case (Some r)
  assume ok: "inv_ok s"
  show ?thesis
  proof (cases "rs_status r = ACTIVE")
    case True
    obtain t where t: "release_locked s rid r RELEASED = Inr t" "inv_ok t" by (rule release_locked_ok [where final = RELEASED, OF ok Some True]) auto
    then show ?thesis using Some True by (simp add: release_def)
  qed (use ok Some in \<open>cases "rs_status r"; simp add: release_def\<close>)
qed (simp add: release_def)

lemma expire_each_ok: "inv_ok s \<Longrightarrow> inv_ok (fst (expire_each s done_ids rids)) \<and> (\<exists>ids. snd (expire_each s done_ids rids) = Inr ids)"
proof (induction s done_ids rids rule: expire_each.induct)
  case (2 s done_ids rid rids)
  show ?case
  proof (cases "\<exists>r. map_of (iv_reservations s) rid = Some r \<and> rs_status r = ACTIVE")
    case True
    then obtain r where r: "map_of (iv_reservations s) rid = Some r" "rs_status r = ACTIVE" by blast
    obtain t where t: "release_locked s rid r EXPIRED = Inr t" "inv_ok t" by (rule release_locked_ok [where final = EXPIRED, OF "2.prems" r]) auto
    then show ?thesis using "2.IH"(2) [OF r t(1) t(2)] r by simp
  next
    case False
    then show ?thesis using "2.IH"(1,3) "2.prems" by (auto split: option.splits)
  qed
qed simp

lemma views_distinct: "distinct (map fst (iv_items s)) \<Longrightarrow> distinct (map vw_warehouse (views s sku))"
proof -
  have "distinct (map (\<lambda>e. snd (fst e)) (filter (\<lambda>e. fst (fst e) = sku) es))" if "distinct (map fst es)" for es :: "(item_key \<times> item) list"
    using that
  proof (induction es)
    case (Cons e es)
    have "snd (fst e) \<notin> (\<lambda>e. snd (fst e)) ` set (filter (\<lambda>e. fst (fst e) = sku) es)" if "fst (fst e) = sku"
      using Cons.prems that by (auto simp: image_iff) (metis fst_conv prod.collapse)
    then show ?case using Cons by auto
  qed simp
  then show "distinct (map fst (iv_items s)) \<Longrightarrow> ?thesis" by (simp add: views_def comp_def)
qed

lemma views_item: "distinct (map fst (iv_items s)) \<Longrightarrow> v \<in> set (views s sku) \<Longrightarrow> \<exists>it. map_of (iv_items s) (sku, vw_warehouse v) = Some it \<and> vw_available v = available it"
  unfolding views_def by (force simp: map_of_eq_Some_iff)

definition plan_lines_ok :: "inventory \<Rightarrow> (string \<times> int) list \<Rightarrow> res_line list \<Rightarrow> bool" where
  "plan_lines_ok s ws ls \<longleftrightarrow> distinct (map ln_key ls)
     \<and> (\<forall>l \<in> set ls. 0 < ln_quantity l \<and> fst (ln_key l) \<in> fst ` set ws \<and> (\<exists>it. map_of (iv_items s) (ln_key l) = Some it \<and> ln_quantity l \<le> available it))
     \<and> (\<forall>w \<in> set ws. sum_list (map (\<lambda>l. if fst (ln_key l) = fst w then ln_quantity l else 0) ls) = snd w)"

abbreviation shelf_sum :: "inventory \<Rightarrow> string \<Rightarrow> int" where
  "shelf_sum s sku \<equiv> sum_list (map vw_available (views s sku))"

lemma plan_lines_cons:
  assumes ls: "plan_lines_ok s ws ls" and w: "fst w \<notin> fst ` set ws" and d: "distinct (map fst (iv_items s))"
    and p: "plan_ok (views s (fst w)) p" "sum_list (map snd p) = snd w"
  shows "plan_lines_ok s (w # ws) (map (\<lambda>e. \<lparr>ln_key = (fst w, fst e), ln_quantity = snd e\<rparr>) p @ ls)"
proof -
  let ?new = "map (\<lambda>e. \<lparr>ln_key = (fst w, fst e), ln_quantity = snd e\<rparr>) p"
  have old: "fst (ln_key l) \<in> fst ` set ws" if "l \<in> set ls" for l using ls that by (auto simp: plan_lines_ok_def)
  have zero: "sum_list (map (\<lambda>l. if fst (ln_key l) = fst w then ln_quantity l else 0) ls) = 0"
    using old w by (intro sum_list_all_zero) (metis (no_types, lifting))
  have sum: "sum_list (map (\<lambda>l. if fst (ln_key l) = u then ln_quantity l else 0) ?new) = (if u = fst w then snd w else 0)" for u
  proof (cases "u = fst w")
    case True
    then show ?thesis using p(2) by (simp add: comp_def)
  qed (auto intro!: sum_list_all_zero)
  have "distinct (map ln_key ?new)" using p(1) by (auto simp: plan_ok_def distinct_map inj_on_def)
  moreover have "ln_key ` set ?new \<inter> ln_key ` set ls = {}"
  proof -
    have "fst (ln_key l) \<noteq> fst w" if "l \<in> set ls" for l using old [OF that] w by metis
    then show ?thesis by fastforce
  qed
  ultimately have "distinct (map ln_key (?new @ ls))" using ls unfolding map_append distinct_append set_map plan_lines_ok_def by blast
  moreover have "0 < ln_quantity l \<and> fst (ln_key l) \<in> fst ` set (w # ws) \<and> (\<exists>it. map_of (iv_items s) (ln_key l) = Some it \<and> ln_quantity l \<le> available it)"
    if m: "l \<in> set (?new @ ls)" for l
  proof (cases "l \<in> set ls")
    case True
    then show ?thesis using ls by (auto simp: plan_lines_ok_def)
  next
    case False
    then obtain e where e: "e \<in> set p" "l = \<lparr>ln_key = (fst w, fst e), ln_quantity = snd e\<rparr>" using m unfolding set_append set_map by blast
    then obtain v where v: "v \<in> set (views s (fst w))" "vw_warehouse v = fst e" "snd e \<le> vw_available v" "0 < snd e" using p(1) by (auto simp: plan_ok_def)
    then show ?thesis using views_item [OF d v(1)] e(2) by auto
  qed
  moreover have "sum_list (map (\<lambda>l. if fst (ln_key l) = fst x then ln_quantity l else 0) (?new @ ls)) = snd x" if "x \<in> set (w # ws)" for x
  proof (cases "x = w")
    case True
    then show ?thesis using sum [of "fst w"] zero by simp
  next
    case False
    then have x: "x \<in> set ws" using that by simp
    then have "fst x \<noteq> fst w" using w by (metis image_eqI)
    with x show ?thesis using ls sum [of "fst x"] by (simp add: plan_lines_ok_def)
  qed
  ultimately show ?thesis unfolding plan_lines_ok_def by blast
qed

lemma plan_lines_correct:
  assumes ok: "inv_ok s" and ws: "distinct (map fst ws)" "\<forall>w \<in> set ws. 0 < snd w"
  shows "case plan_lines s ws of
      Inl e \<Rightarrow> \<exists>w \<in> set ws. e = InsufficientStockError (fst w) (snd w) (shelf_sum s (fst w)) \<and> shelf_sum s (fst w) < snd w
    | Inr ls \<Rightarrow> plan_lines_ok s ws ls \<and> (\<forall>w \<in> set ws. snd w \<le> shelf_sum s (fst w))"
  using ws
proof (induction ws)
  case (Cons w ws)
  obtain sku qty where w: "w = (sku, qty)" by fastforce
  have d: "distinct (map fst (iv_items s))" by (rule inv_okD(1) [OF ok])
  have nn: "\<forall>v \<in> set (views s sku). 0 \<le> vw_available v"
    using views_item [OF d] inv_okD(5) [OF ok] by (fastforce simp: available_def item_ok_def)
  have al: "case allocate (iv_allocation s) qty (views s sku) of
      None \<Rightarrow> shelf_sum s sku < qty
    | Some p \<Rightarrow> plan_ok (views s sku) p \<and> sum_list (map snd p) = qty \<and> qty \<le> shelf_sum s sku"
    using Cons.prems w nn views_distinct [OF d] by (intro allocation_correct) auto
  show ?case
  proof (cases "allocate (iv_allocation s) qty (views s sku)")
    case None
    then show ?thesis using al w by auto
  next
    case (Some p)
    have ih: "case plan_lines s ws of
      Inl e \<Rightarrow> \<exists>w \<in> set ws. e = InsufficientStockError (fst w) (snd w) (shelf_sum s (fst w)) \<and> shelf_sum s (fst w) < snd w
      | Inr ls \<Rightarrow> plan_lines_ok s ws ls \<and> (\<forall>w \<in> set ws. snd w \<le> shelf_sum s (fst w))" using Cons by simp
    have p: "plan_ok (views s (fst w)) p" "sum_list (map snd p) = snd w" "qty \<le> shelf_sum s sku" using al Some w by auto
    show ?thesis
    proof (cases "plan_lines s ws")
      case (Inl e)
      then show ?thesis using ih Some w by auto
    next
      case (Inr ls)
      have "fst w \<notin> fst ` set ws" using Cons.prems by simp
      from plan_lines_cons [OF _ this d p(1,2), of ls] show ?thesis using ih Inr Some w p(3) by simp
    qed
  qed
qed (simp add: plan_lines_ok_def)

lemma item_reserve_Inr: "item_reserve sku q it = Inr it1 \<longleftrightarrow> q \<le> available it \<and> it1 = it\<lparr>it_reserved := it_reserved it + q\<rparr>"
  by (auto simp: item_reserve_def)

text \<open>A new active reservation takes its lines from the available units.\<close>

definition reserved_state :: "inventory \<Rightarrow> string \<Rightarrow> res_line list \<Rightarrow> rat \<Rightarrow> inventory" where
  "reserved_state s1 oid ls now =
     (let rid = ''RSV-'' @ digits (iv_ids s1)
      in s1\<lparr>iv_ids := iv_ids s1 + 1,
            iv_reservations := AList.update rid \<lparr>rs_order = oid, rs_lines = ls, rs_expires_at = now + iv_ttl s1, rs_status = ACTIVE\<rparr> (iv_reservations s1),
            iv_by_order := AList.update oid rid (iv_by_order s1)\<rparr>)"

lemma new_reservation:
  fixes now :: rat and oid :: string
  assumes ok: "inv_ok s" and ls: "plan_lines_ok s ws ls" and s1: "on_lines item_reserve s ls = Inr s1"
  defines "u \<equiv> reserved_state s1 oid ls now"
  shows "inv_ok u" "map_of (iv_items u) k = map_option (\<lambda>it. it\<lparr>it_reserved := it_reserved it + line_sum ls k\<rparr>) (map_of (iv_items s) k)"
proof -
  note o = inv_okD [OF ok]
  have d: "distinct (map ln_key ls)" using ls by (simp add: plan_lines_ok_def)
  from on_lines_touched [OF s1 d] obtain items where tt: "touched item_reserve s ls s1" "s1 = s\<lparr>iv_items := items\<rparr>" by blast
  define r where "r = \<lparr>rs_order = oid, rs_lines = ls, rs_expires_at = now + iv_ttl s1, rs_status = ACTIVE\<rparr>"
  define rid where "rid = ''RSV-'' @ digits (iv_ids s)"
  have u: "iv_items u = iv_items s1" "iv_ledger u = iv_ledger s" "iv_ids u = Suc (iv_ids s)"
    "iv_reservations u = AList.update rid r (iv_reservations s)"
    by (simp_all add: u_def reserved_state_def Let_def tt(2) r_def rid_def)
  have "rid \<notin> fst ` set (iv_reservations s)" unfolding rid_def by (rule ids_ok_fresh [OF o(2)])
  then have res: "iv_reservations u = iv_reservations s @ [(rid, r)]" by (simp add: u(4) AList_update_absent)
  have held: "held u j = held s j + line_sum ls j" for j by (simp add: held_def res) (simp add: r_def)
  have moved: "moved u j = moved s j" for j by (simp add: moved_def u(2))
  have at: "map_of (iv_items u) j = map_option (\<lambda>it. it\<lparr>it_reserved := it_reserved it + line_sum ls j\<rparr>) (map_of (iv_items s) j)
      \<and> (\<forall>it. map_of (iv_items s) j = Some it \<longrightarrow> 0 \<le> line_sum ls j \<and> (j \<in> ln_key ` set ls \<longrightarrow> line_sum ls j \<le> available it))" for j
  proof (cases "j \<in> ln_key ` set ls")
    case False
    then show ?thesis using tt(1) line_sum_absent [OF False] by (cases "map_of (iv_items s) j") (simp_all add: touched_def u(1))
  next
    case True
    then obtain l where l: "l \<in> set ls" "j = ln_key l" by auto
    then obtain it it1 where it: "map_of (iv_items s) j = Some it" "item_reserve (fst j) (ln_quantity l) it = Inr it1" "map_of (iv_items s1) j = Some it1"
      using tt(1) unfolding touched_def by blast
    have "0 < ln_quantity l" using ls l(1) by (simp add: plan_lines_ok_def)
    then show ?thesis using it line_sum_present [OF d l(1)] l(2) by (simp add: item_reserve_Inr u(1))
  qed
  then show "map_of (iv_items u) k = map_option (\<lambda>it. it\<lparr>it_reserved := it_reserved it + line_sum ls k\<rparr>) (map_of (iv_items s) k)" by blast
  have some: "map_of (iv_items u) j \<noteq> None" if "map_of (iv_items s) j \<noteq> None" for j using at [of j] that by auto
  have "lines_ok s ls" using ls by (auto simp: plan_lines_ok_def lines_ok_def)
  then have "lines_ok u (rs_lines (snd e))" if "e \<in> set (iv_reservations u)" for e
    using that o(3) [of e] some by (auto simp: res r_def intro: lines_ok_more)
  moreover have "map_of (iv_items u) (mv_key m) \<noteq> None" if "m \<in> set (iv_ledger u)" for m using that o(4) some by (simp add: u(2))
  moreover have "item_ok u j x" if x: "map_of (iv_items u) j = Some x" for j x
  proof -
    obtain it where it: "map_of (iv_items s) j = Some it" "x = it\<lparr>it_reserved := it_reserved it + line_sum ls j\<rparr>" using at [of j] x by (cases "map_of (iv_items s) j") auto
    have "line_sum ls j \<le> available it" "0 \<le> line_sum ls j"
      using at [of j] it(1) line_sum_absent [of j ls] o(5) [OF it(1)] by (auto simp: available_def item_ok_def)
    then show ?thesis using o(5) [OF it(1)] it(2) held [of j] moved [of j] by (simp add: item_ok_def available_def)
  qed
  moreover have "ids_ok ''RSV-'' (iv_ids u) (iv_reservations u)" unfolding u(3,4) rid_def by (rule ids_ok_add [OF o(2)])
  moreover have "distinct (map fst (iv_items u))" using tt(1) o(1) by (simp add: u(1) touched_def)
  ultimately show "inv_ok u" by (simp add: inv_ok_def)
qed

lemma plan_reserves:
  assumes "plan_lines_ok s ws ls"
  obtains s1 where "on_lines item_reserve s ls = Inr s1"
proof -
  have "\<exists>t. on_lines item_reserve s ls = Inr t"
    using assms by (intro on_lines_succeeds) (auto simp: plan_lines_ok_def item_reserve_Inr)
  then show ?thesis using that by blast
qed

lemma sort_request: "distinct (map fst ws) \<Longrightarrow> distinct (map fst (sort ws))" for ws :: "(string \<times> int) list"
  by (metis mset_eq_imp_distinct_iff mset_map mset_sort)

text \<open>A request for an order that has no reservation yet: all of it or nothing.\<close>

lemma reserve_new:
  assumes ok: "inv_ok s" and req: "ws \<noteq> []" "distinct (map fst ws)" "\<forall>w \<in> set ws. 0 < snd w"
    and fresh: "map_of (iv_by_order s) oid = None" and known: "\<forall>w \<in> set ws. map_of (iv_products s) (fst w) \<noteq> None"
  shows "case snd (reserve s oid ws now) of
      Inl e \<Rightarrow> fst (reserve s oid ws now) = s \<and> (\<exists>w \<in> set ws. e = InsufficientStockError (fst w) (snd w) (shelf_sum s (fst w)) \<and> shelf_sum s (fst w) < snd w)
    | Inr rid \<Rightarrow> (\<exists>ls s1. plan_lines_ok s ws ls \<and> on_lines item_reserve s ls = Inr s1 \<and> fst (reserve s oid ws now) = reserved_state s1 oid ls now
        \<and> rid = ''RSV-'' @ digits (iv_ids s1)) \<and> (\<forall>w \<in> set ws. snd w \<le> shelf_sum s (fst w))"
proof -
  have pos: "\<not> list_ex (\<lambda>e. snd e \<le> 0) ws" "\<not> list_ex (\<lambda>e. map_of (iv_products s) (fst e) = None) ws" using req(3) known by (auto simp: list_ex_iff)
  have plan: "case plan_lines s (sort ws) of
      Inl e \<Rightarrow> \<exists>w \<in> set ws. e = InsufficientStockError (fst w) (snd w) (shelf_sum s (fst w)) \<and> shelf_sum s (fst w) < snd w
    | Inr ls \<Rightarrow> plan_lines_ok s (sort ws) ls \<and> (\<forall>w \<in> set ws. snd w \<le> shelf_sum s (fst w))"
    using plan_lines_correct [OF ok sort_request [OF req(2)]] req(3) by (simp split: sum.splits)
  show ?thesis
  proof (cases "plan_lines s (sort ws)")
    case (Inl e)
    then show ?thesis using plan req(1) pos fresh by (simp add: reserve_def)
  next
    case (Inr ls)
    then have ls: "plan_lines_ok s (sort ws) ls" "\<forall>w \<in> set ws. snd w \<le> shelf_sum s (fst w)" using plan by auto
    obtain s1 where s1: "on_lines item_reserve s ls = Inr s1" by (rule plan_reserves [OF ls(1)])
    have "reserve s oid ws now = (reserved_state s1 oid ls now, Inr (''RSV-'' @ digits (iv_ids s1)))"
      using Inr s1 req(1) pos fresh by (simp add: reserve_def reserved_state_def Let_def)
    moreover have "plan_lines_ok s ws ls" using ls(1) by (simp add: plan_lines_ok_def)
    ultimately show ?thesis using s1 ls(2) by auto
  qed
qed

lemma reserve_ok:
  assumes ok: "inv_ok s" and d: "distinct (map fst ws)"
  shows "inv_ok (fst (reserve s oid ws now))"
proof (cases "\<exists>ls s1. plan_lines s (sort ws) = Inr ls \<and> on_lines item_reserve s ls = Inr s1 \<and> \<not> list_ex (\<lambda>e. snd e \<le> 0) ws
    \<and> fst (reserve s oid ws now) = reserved_state s1 oid ls now")
  case True
  then obtain ls s1 where h: "plan_lines s (sort ws) = Inr ls" "on_lines item_reserve s ls = Inr s1" "\<not> list_ex (\<lambda>e. snd e \<le> 0) ws"
    "fst (reserve s oid ws now) = reserved_state s1 oid ls now" by blast
  have "\<forall>w \<in> set (sort ws). 0 < snd w" using h(3) by (auto simp: list_ex_iff)
  from plan_lines_correct [OF ok sort_request [OF d] this] h(1) have "plan_lines_ok s (sort ws) ls" by simp
  from new_reservation(1) [OF ok this h(2)] show ?thesis by (simp add: h(4))
next
  case False
  then have "fst (reserve s oid ws now) = s"
    by (cases "plan_lines s (sort ws)") (auto simp: reserve_def reserved_state_def Let_def bind_sum_def split: option.splits sum.splits)
  then show ?thesis using ok by simp
qed

lemma reorder_each_frame:
  "iv_items (fst (reorder_each s now c es)) = iv_items s \<and> iv_reservations (fst (reorder_each s now c es)) = iv_reservations s
   \<and> iv_ledger (fst (reorder_each s now c es)) = iv_ledger s"
  by (induction es arbitrary: s c) (auto simp: Let_def split: sum.splits)

lemma reorder_each_ids: "iv_ids s \<le> iv_ids (fst (reorder_each s now c es))"
proof (induction es arbitrary: s c)
  case (Cons e es)
  have "iv_ids s \<le> iv_ids (fst (reorder_each (s\<lparr>iv_ids := iv_ids s + 1, iv_orders := x\<rparr>) now d es))" for x d
    using Cons.IH [of "s\<lparr>iv_ids := iv_ids s + 1, iv_orders := x\<rparr>" d] by simp
  then show ?case using Cons.IH by (cases e) (simp add: Let_def split: sum.splits)
qed simp

lemma receive_po_ok: "inv_ok s \<Longrightarrow> inv_ok (fst (receive_purchase_order s pid now))"
  using receive_stock_ok inv_ok_frame [of s]
  by (auto simp: receive_purchase_order_def split: option.splits)

lemma inv_step_ok: "inv_ok s \<Longrightarrow> inv_ok (fst (inv_step s op))"
proof (cases op)
  case (CheckReorder now)
  then show "inv_ok s \<Longrightarrow> ?thesis" using reorder_each_frame [of s now "[]" "sort_key fst (iv_items s)"] reorder_each_ids [of s now "[]" "sort_key fst (iv_items s)"]
    by (auto simp: check_reorder_def intro: inv_ok_frame)
next
  case (ExpireReservations now)
  then show "inv_ok s \<Longrightarrow> ?thesis" using expire_each_ok by (simp add: expire_reservations_def)
next
  case (Reserve oid ws now)
  then show "inv_ok s \<Longrightarrow> ?thesis" using reserve_ok [of s "AList.clearjunk ws"] by (simp add: distinct_clearjunk)
qed (auto simp: receive_stock_ok adjust_stock_ok transfer_stock_ok commit_ok release_ok receive_po_ok
      add_product_def add_warehouse_def cancel_purchase_order_def split: option.splits intro: inv_ok_frame)

interpretation stocking: invariant_machine inv_step inv_ok
  by unfold_locales (rule inv_step_ok)

lemma new_inventory_ok: "inv_ok (new_inventory alloc policy ttl lookback)"
  by (simp add: inv_ok_def new_inventory_def ids_ok_def)

lemmas inventory_reachable = stocking.run_inv [OF new_inventory_ok]

lemma release_restores:
  assumes ok: "inv_ok s" and ls: "plan_lines_ok s ws ls" and s1: "on_lines item_reserve s ls = Inr s1"
    and t: "t = reserved_state s1 oid ls now" and rid: "rid = ''RSV-'' @ digits (iv_ids s1)"
  shows "\<exists>u. release t rid = (u, Inr ()) \<and> (\<forall>k. map_of (iv_items u) k = map_of (iv_items s) k)"
proof -
  note nr = new_reservation [OF ok ls s1, of oid now, folded t]
  have d: "distinct (map ln_key ls)" using ls by (simp add: plan_lines_ok_def)
  define r where "r = \<lparr>rs_order = oid, rs_lines = ls, rs_expires_at = now + iv_ttl s1, rs_status = ACTIVE\<rparr>"
  have r: "map_of (iv_reservations t) rid = Some r" "rs_status r = ACTIVE" "rs_lines r = ls"
    by (simp_all add: t rid reserved_state_def Let_def r_def update_conv')
  obtain u where u: "release_locked t rid r RELEASED = Inr u"
    by (rule release_locked_ok [where final = RELEASED, OF nr(1) r(1,2)]) auto
  then obtain v where v: "on_lines item_release t ls = Inr v" "iv_items u = iv_items v"
    by (auto simp: release_locked_def bind_sum_Inr dict_lines_id [OF d] r(3))
  from on_lines_touched [OF v(1) d] have tt: "touched item_release t ls v" by blast
  have "map_of (iv_items u) k = map_of (iv_items s) k" for k
  proof (cases "k \<in> ln_key ` set ls")
    case False
    then have "map_of (iv_items v) k = map_of (iv_items t) k" using tt by (simp add: touched_def)
    then show ?thesis using nr(2) [of k] line_sum_absent [OF False] by (cases "map_of (iv_items s) k") (simp_all add: v(2))
  next
    case True
    then obtain l where l: "l \<in> set ls" "k = ln_key l" by auto
    then obtain it it1 where it: "map_of (iv_items t) k = Some it" "item_release (fst k) (ln_quantity l) it = Inr it1" "map_of (iv_items v) k = Some it1"
      using tt unfolding touched_def by blast
    then show ?thesis using nr(2) [of k] line_sum_present [OF d l(1)] l(2)
      by (cases "map_of (iv_items s) k") (auto simp: v(2) item_release_def split: if_splits)
  qed
  moreover have "release t rid = (u, Inr ())" using r u by (simp add: release_def)
  ultimately show ?thesis by blast
qed

lemma shelf_total: "map_of (iv_products s) sku \<noteq> None \<Longrightarrow> total_available s sku = Inr (shelf_sum s sku)"
  by (simp add: total_available_def views_def comp_def)

section \<open>Properties\<close>

text \<open>
  C22. After any sequence of calls, failed ones included, the books of every item balance: the reserved units are not
  negative and never more than those on hand, they are exactly what the active reservations hold, and the units on
  hand are exactly the sum of the movements in the ledger.
\<close>

theorem inventory_books_balance:
  fixes alloc :: AllocationStrategy and policy :: ReorderPolicy and ttl :: rat and lookback :: int and ops :: "inv_op list"
  defines "s \<equiv> run_ops inv_step (new_inventory alloc policy ttl lookback) ops"
  assumes "map_of (iv_items s) k = Some it"
  shows "0 \<le> it_reserved it \<and> it_reserved it \<le> it_on_hand it \<and> it_reserved it = held s k \<and> it_on_hand it = moved s k"
  using inv_okD(5) [OF inventory_reachable assms(2) [unfolded s_def]] by (simp add: item_ok_def s_def)

definition pen :: product where
  "pen = \<lparr>pr_unit_price = 2, pr_reorder_level = 10, pr_reorder_quantity = 50\<rparr>"

definition inv_sample :: inventory where
  "inv_sample = run_ops inv_step (new_inventory SingleWarehouseFirstAllocation FixedReorderPolicy 900 30)
     [AddProduct ''pen'' pen, AddWarehouse ''A'' 0, AddWarehouse ''B'' 1, ReceiveStock (''pen'', ''A'') 5 [] 0, ReceiveStock (''pen'', ''B'') 7 [] 0,
      Reserve ''o1'' [(''pen'', 10)] 1, Reserve ''o2'' [(''pen'', 3)] 2, TransferStock ''pen'' ''A'' ''B'' 1 3, Commit ''RSV-3'' [] 4, Reserve ''o3'' [(''pen'', 2)] 5]"

lemma inv_sample_item: "map_of (iv_items inv_sample) (''pen'', ''B'') = Some \<lparr>it_product = pen, it_priority = 1, it_on_hand = 2, it_reserved = 2\<rparr>"
  by code_simp

theorem inventory_books_balance_witness: "held inv_sample (''pen'', ''B'') = 2 \<and> moved inv_sample (''pen'', ''B'') = 2"
  using inventory_books_balance [OF inv_sample_item [unfolded inv_sample_def]] by (simp add: inv_sample_def)

text \<open>
  C23. On any reachable inventory, reserving stock for an order that has no reservation yet is all or nothing. It succeeds exactly when
  the request is not empty, asks for a positive quantity of each product, names only known products, and every product has enough
  available units over all warehouses. Then the new active reservation holds exactly the requested number of each product, in
  lines of distinct items, each a positive number of units that were available of its item; these units are
  reserved and nothing else changes in the stock. Otherwise the inventory is unchanged, and the error says which condition
  failed first (a short product with its request and what is available).
\<close>

theorem reserve_all_or_nothing:
  fixes alloc :: AllocationStrategy and policy :: ReorderPolicy and ttl :: rat and lookback :: int and ops :: "inv_op list"
  defines "s \<equiv> run_ops inv_step (new_inventory alloc policy ttl lookback) ops"
  assumes "distinct (map fst ws)" "map_of (iv_by_order s) oid = None"
  shows "case reserve s oid ws now of
      (t, Inl e) \<Rightarrow> t = s \<and>
        (if ws = [] \<or> (\<exists>w \<in> set ws. snd w \<le> 0) then e = Builtin ValueError
         else if \<exists>w \<in> set ws. map_of (iv_products s) (fst w) = None then e = NotFoundError
         else \<exists>w \<in> set ws. \<exists>n. total_available s (fst w) = Inr n \<and> n < snd w \<and> e = InsufficientStockError (fst w) (snd w) n)
    | (t, Inr rid) \<Rightarrow> ws \<noteq> [] \<and> (\<forall>w \<in> set ws. 0 < snd w \<and> map_of (iv_products s) (fst w) \<noteq> None \<and> (\<exists>n. total_available s (fst w) = Inr n \<and> snd w \<le> n))
        \<and> (\<exists>ls. map_of (iv_reservations t) rid = Some \<lparr>rs_order = oid, rs_lines = ls, rs_expires_at = now + iv_ttl s, rs_status = ACTIVE\<rparr>
          \<and> (\<forall>w \<in> set ws. sum_list (map (\<lambda>l. if fst (ln_key l) = fst w then ln_quantity l else 0) ls) = snd w)
          \<and> distinct (map ln_key ls)
          \<and> (\<forall>l \<in> set ls. 0 < ln_quantity l \<and> (\<exists>it. map_of (iv_items s) (ln_key l) = Some it \<and> ln_quantity l \<le> available it))
          \<and> (\<forall>k. map_of (iv_items t) k = map_option (\<lambda>it. it\<lparr>it_reserved := it_reserved it + line_sum ls k\<rparr>) (map_of (iv_items s) k)))"
proof (cases "ws = [] \<or> (\<exists>w \<in> set ws. snd w \<le> 0) \<or> (\<exists>w \<in> set ws. map_of (iv_products s) (fst w) = None)")
  case True
  then have "ws = [] \<or> list_ex (\<lambda>e. snd e \<le> 0) ws \<or> list_ex (\<lambda>e. map_of (iv_products s) (fst e) = None) ws" by (auto simp: list_ex_iff)
  then have "reserve s oid ws now = (s, Inl (if ws = [] \<or> list_ex (\<lambda>e. snd e \<le> 0) ws then Builtin ValueError else NotFoundError))"
    using assms(3) by (auto simp: reserve_def)
  then show ?thesis using True by (auto simp: list_ex_iff)
next
  case False
  then have ws: "ws \<noteq> []" "\<forall>w \<in> set ws. 0 < snd w" "\<forall>w \<in> set ws. map_of (iv_products s) (fst w) \<noteq> None" by (auto simp: not_le)
  have ok: "inv_ok s" unfolding s_def by (rule inventory_reachable)
  obtain t x where r: "reserve s oid ws now = (t, x)" by fastforce
  have tot: "total_available s (fst w) = Inr (shelf_sum s (fst w))" if "w \<in> set ws" for w using ws(3) that by (simp add: shelf_total)
  note rn = reserve_new [OF ok ws(1) assms(2) ws(2) assms(3) ws(3), of now]
  show ?thesis
  proof (cases x)
    case (Inl e)
    then show ?thesis using rn r tot False by auto
  next
    case (Inr rid)
    then obtain ls s1 where h: "plan_lines_ok s ws ls" "on_lines item_reserve s ls = Inr s1" "t = reserved_state s1 oid ls now"
      "rid = ''RSV-'' @ digits (iv_ids s1)" and le: "\<forall>w \<in> set ws. snd w \<le> shelf_sum s (fst w)" using rn r by auto
    have ls: "distinct (map ln_key ls)" "\<forall>w \<in> set ws. sum_list (map (\<lambda>l. if fst (ln_key l) = fst w then ln_quantity l else 0) ls) = snd w"
      "\<forall>l \<in> set ls. 0 < ln_quantity l \<and> (\<exists>it. map_of (iv_items s) (ln_key l) = Some it \<and> ln_quantity l \<le> available it)"
      using h(1) unfolding plan_lines_ok_def by blast+
    then have "iv_ttl s1 = iv_ttl s" using on_lines_touched [OF h(2)] by auto
    then have "map_of (iv_reservations t) rid = Some \<lparr>rs_order = oid, rs_lines = ls, rs_expires_at = now + iv_ttl s, rs_status = ACTIVE\<rparr>"
      by (simp add: h(3,4) reserved_state_def Let_def update_conv')
    moreover have "map_of (iv_items t) k = map_option (\<lambda>it. it\<lparr>it_reserved := it_reserved it + line_sum ls k\<rparr>) (map_of (iv_items s) k)" for k
      using new_reservation(2) [OF ok h(1,2), of oid now, folded h(3)] by auto
    moreover have "\<forall>w \<in> set ws. 0 < snd w \<and> map_of (iv_products s) (fst w) \<noteq> None \<and> (\<exists>n. total_available s (fst w) = Inr n \<and> snd w \<le> n)"
      using ws tot le by auto
    ultimately show ?thesis using r Inr ws(1) ls by (auto simp del: map_of_eq_Some_iff)
  qed
qed

theorem reserve_all_or_nothing_witness:
  "\<exists>n. reserve inv_sample ''o4'' [(''pen'', 1)] 6 = (inv_sample, Inl (InsufficientStockError ''pen'' 1 n)) \<and> n < 1"
proof -
  have h: "map_of (iv_by_order inv_sample) ''o4'' = None" "map_of (iv_products inv_sample) ''pen'' \<noteq> None" "isl (snd (reserve inv_sample ''o4'' [(''pen'', 1)] 6))"
    by code_simp+
  obtain t x where r: "reserve inv_sample ''o4'' [(''pen'', 1)] 6 = (t, x)" by fastforce
  then obtain e where e: "x = Inl e" using h(3) by (cases x) auto
  have "distinct (map fst [(''pen'', 1 :: int)])" by simp
  from reserve_all_or_nothing [OF this h(1) [unfolded inv_sample_def], of 6, folded inv_sample_def] r e h(2) show ?thesis by auto
qed

text \<open>
  Reserving for a new order on a reachable inventory and releasing that reservation gives back the stock: the
  release succeeds and every item has the units on hand and reserved that it had before.
\<close>

theorem reserve_then_release:
  fixes alloc :: AllocationStrategy and policy :: ReorderPolicy and ttl :: rat and lookback :: int and ops :: "inv_op list"
  defines "s \<equiv> run_ops inv_step (new_inventory alloc policy ttl lookback) ops"
  assumes "distinct (map fst ws)" "map_of (iv_by_order s) oid = None" "reserve s oid ws now = (t, Inr rid)"
  shows "\<exists>u. release t rid = (u, Inr ()) \<and> (\<forall>k. map_of (iv_items u) k = map_of (iv_items s) k)"
proof -
  have ok: "inv_ok s" unfolding s_def by (rule inventory_reachable)
  have ws: "ws \<noteq> []" "\<forall>w \<in> set ws. 0 < snd w" "\<forall>w \<in> set ws. map_of (iv_products s) (fst w) \<noteq> None"
    using assms(3,4) by (auto simp: reserve_def list_ex_iff not_le split: if_splits)
  from reserve_new [OF ok ws(1) assms(2) ws(2) assms(3) ws(3), of now] assms(4)
  obtain ls s1 where h: "plan_lines_ok s ws ls" "on_lines item_reserve s ls = Inr s1" "t = reserved_state s1 oid ls now"
    "rid = ''RSV-'' @ digits (iv_ids s1)" by auto
  show ?thesis by (rule release_restores [OF ok h])
qed

theorem reserve_then_release_witness:
  "\<exists>t u rid. reserve (run_ops inv_step inv_sample [ReceiveStock (''pen'', ''A'') 9 [] 6]) ''o4'' [(''pen'', 1)] 6 = (t, Inr rid) \<and> release t rid = (u, Inr ())"
proof -
  define s where "s = run_ops inv_step inv_sample [ReceiveStock (''pen'', ''A'') 9 [] 6]"
  have h: "map_of (iv_by_order s) ''o4'' = None" "\<not> isl (snd (reserve s ''o4'' [(''pen'', 1)] 6))" unfolding s_def by code_simp+
  obtain t x where r: "reserve s ''o4'' [(''pen'', 1)] 6 = (t, x)" by fastforce
  then obtain rid where x: "x = Inr rid" using h(2) by (cases x) auto
  have "distinct (map fst [(''pen'', 1 :: int)])" by simp
  from reserve_then_release [OF this h(1) [unfolded s_def inv_sample_def run_ops_append [symmetric]] r [unfolded x s_def inv_sample_def run_ops_append [symmetric]]]
  show ?thesis using r x s_def by blast
qed

text \<open>
  Repeating \<open>check_reorder\<close> can order again although nothing was sold: a reorder quantity that does not lift the
  position above the reorder level is ordered once more, open purchase orders notwithstanding.
\<close>

lemma reorder_repeats:
  "let s = run_ops inv_step (new_inventory GreedySplitAllocation FixedReorderPolicy 900 30)
        [AddProduct ''ink'' \<lparr>pr_unit_price = 1, pr_reorder_level = 10, pr_reorder_quantity = 5\<rparr>, AddWarehouse ''A'' 0, ReceiveStock (''ink'', ''A'') 1 [] 0];
     t = fst (check_reorder s 1)
   in length (iv_orders s) = 0 \<and> length (iv_orders t) = 1 \<and> length (iv_orders (fst (check_reorder t 2))) = 2"
  by code_simp

end
