(* ===== verification/Bank.thy ===== *)
theory Bank
  imports Prelude "HOL-Library.Product_Lexorder"
begin

text \<open>
  The bank of \<open>python-low-level-design/atm-banking-system/atm_banking.py\<close>: accounts with a balance and holds, cards with
  a PIN, the transaction ledger, the per-card daily limit and the table of request ids. Money is a rational number
  (\<open>Decimal\<close>). A call is one step; the readings of the clock within a call are separate arguments, since a call can
  straddle midnight. PBKDF2 is the parameter \<open>pbkdf\<close> (salt, PIN), the random salt an argument. A transaction is an object
  shared by the ledger and by the table of requests, so calls return its id.
\<close>

declare split_paired_All [simp del] split_paired_Ex [simp del]

section \<open>Money, dates and errors\<close>

datatype bank_error = BankError | NotFoundError | InsufficientFundsError | LimitExceededError | CardError
  | WrongPinError int | CardBlockedError | IdempotencyError | InvalidTransitionError | DispenseError
  | InvalidOperationError | Raised py_error

text \<open>What a caller may pass as an amount: a finite number, a value of a refused type, or a non-finite decimal.\<close>

datatype money_like = Number rat | Float_or_bool | Non_finite

fun to_money :: "money_like \<Rightarrow> bank_error + rat" where
  "to_money (Number v) = (if of_int \<lfloor>v * 100\<rfloor> = v * 100 then Inr v else Inl (Raised ValueError))"
| "to_money Float_or_bool = Inl (Raised TypeError)"
| "to_money Non_finite = Inl (Raised ValueError)"

definition positive_money :: "money_like \<Rightarrow> bank_error + rat" where
  "positive_money value = bind_sum (to_money value) (\<lambda>amount. if amount \<le> 0 then Inl (Raised ValueError) else Inr amount)"

text \<open>\<open>datetime.date\<close>: year, month, day, compared in this order.\<close>

type_synonym date = "int \<times> int \<times> int"

definition leap :: "int \<Rightarrow> bool" where
  "leap y \<longleftrightarrow> y mod 4 = 0 \<and> (y mod 100 \<noteq> 0 \<or> y mod 400 = 0)"

definition days_in_month :: "int \<Rightarrow> int \<Rightarrow> int" where
  "days_in_month y m = (if m = 2 then (if leap y then 29 else 28) else if m \<in> {4, 6, 9, 11} then 30 else 31)"

definition mk_date :: "int \<Rightarrow> int \<Rightarrow> int \<Rightarrow> bank_error + date" where
  "mk_date y m d =
     (if 1 \<le> y \<and> y \<le> 9999 \<and> 1 \<le> m \<and> m \<le> 12 \<and> 1 \<le> d \<and> d \<le> days_in_month y m then Inr (y, m, d) else Inl (Raised ValueError))"

text \<open>A date minus one day.\<close>

fun day_before :: "date \<Rightarrow> bank_error + date" where
  "day_before (y, m, d) =
     (if 1 < d then Inr (y, m, d - 1)
      else if 1 < m then Inr (y, m - 1, days_in_month y (m - 1))
      else if 1 < y then Inr (y - 1, 12, 31) else Inl (Raised OverflowError))"

section \<open>Accounts\<close>

datatype AccountType = SAVINGS | CHECKING | CREDIT

text \<open>The subclass of an account with its limit.\<close>

datatype account_kind = SavingsAccount (min_balance: rat) | CheckingAccount (overdraft_limit: rat) | CreditAccount (credit_limit: rat)

record account =
  ac_customer :: string
  ac_kind :: account_kind
  ac_balance :: rat
  ac_held :: rat

fun withdrawable_of :: "account_kind \<Rightarrow> rat \<Rightarrow> rat \<Rightarrow> rat" where
  "withdrawable_of (SavingsAccount m) b h = max 0 (b - h - m)"
| "withdrawable_of (CheckingAccount l) b h = max 0 (b - h + l)"
| "withdrawable_of (CreditAccount l) b h = max 0 (l + b - h)"

definition withdrawable :: "account \<Rightarrow> rat" where
  "withdrawable a = withdrawable_of (ac_kind a) (ac_balance a) (ac_held a)"

definition require_funds :: "rat \<Rightarrow> account \<Rightarrow> bank_error + unit" where
  "require_funds amount a = (if amount > withdrawable a then Inl InsufficientFundsError else Inr ())"

definition hold :: "rat \<Rightarrow> account \<Rightarrow> bank_error + account" where
  "hold amount a = bind_sum (require_funds amount a) (\<lambda>_. Inr (a\<lparr>ac_held := ac_held a + amount\<rparr>))"

definition release_hold :: "rat \<Rightarrow> account \<Rightarrow> account" where
  "release_hold amount a = a\<lparr>ac_held := ac_held a - amount\<rparr>"

definition capture_hold :: "rat \<Rightarrow> account \<Rightarrow> account" where
  "capture_hold amount a = a\<lparr>ac_held := ac_held a - amount, ac_balance := ac_balance a - amount\<rparr>"

definition debit :: "rat \<Rightarrow> account \<Rightarrow> bank_error + account" where
  "debit amount a = bind_sum (require_funds amount a) (\<lambda>_. Inr (a\<lparr>ac_balance := ac_balance a - amount\<rparr>))"

definition credit :: "rat \<Rightarrow> account \<Rightarrow> account" where
  "credit amount a = a\<lparr>ac_balance := ac_balance a + amount\<rparr>"

section \<open>Transactions and cards\<close>

datatype TransactionType = WITHDRAWAL | DEPOSIT | TRANSFER_OUT | TRANSFER_IN

datatype TransactionStatus = PENDING | COMPLETED | REVERSED

fun transitions :: "TransactionStatus \<Rightarrow> TransactionStatus list" where
  "transitions PENDING = [COMPLETED, REVERSED]"
| "transitions COMPLETED = []"
| "transitions REVERSED = []"

record transaction =
  tx_request :: string
  tx_account :: string
  tx_type :: TransactionType
  tx_amount :: rat
  tx_status :: TransactionStatus
  tx_date :: date
  tx_card :: "string option"
  tx_counterparty :: "string option"

definition move_to :: "TransactionStatus \<Rightarrow> transaction \<Rightarrow> bank_error + transaction" where
  "move_to status t = (if status \<notin> set (transitions (tx_status t)) then Inl InvalidTransitionError else Inr (t\<lparr>tx_status := status\<rparr>))"

record card =
  cd_customer :: string
  cd_account :: string
  cd_expiry :: date
  cd_daily_limit :: rat
  cd_blocked :: bool
  cd_failed :: int
  cd_salt :: string
  cd_pin_hash :: string

definition MAX_PIN_ATTEMPTS :: int where
  "MAX_PIN_ATTEMPTS = 3"

definition new_card :: "(string \<Rightarrow> string \<Rightarrow> string) \<Rightarrow> string \<Rightarrow> string \<Rightarrow> string \<Rightarrow> date \<Rightarrow> rat \<Rightarrow> string \<Rightarrow> card" where
  "new_card pbkdf customer acct pin expiry limit salt = \<lparr>cd_customer = customer, cd_account = acct, cd_expiry = expiry,
     cd_daily_limit = limit, cd_blocked = False, cd_failed = 0, cd_salt = salt, cd_pin_hash = pbkdf salt pin\<rparr>"

definition card_verify_pin :: "(string \<Rightarrow> string \<Rightarrow> string) \<Rightarrow> card \<Rightarrow> string \<Rightarrow> card \<times> (bank_error + unit)" where
  "card_verify_pin pbkdf c pin =
     (if cd_blocked c then (c, Inl CardBlockedError)
      else if pbkdf (cd_salt c) pin = cd_pin_hash c then (c\<lparr>cd_failed := 0\<rparr>, Inr ())
      else (let c1 = c\<lparr>cd_failed := cd_failed c + 1\<rparr>
            in if MAX_PIN_ATTEMPTS \<le> cd_failed c1 then (c1\<lparr>cd_blocked := True\<rparr>, Inl CardBlockedError)
               else (c1, Inl (WrongPinError (MAX_PIN_ATTEMPTS - cd_failed c1)))))"

section \<open>The bank\<close>

text \<open>What identifies a request: the operation and its arguments.\<close>

datatype fingerprint = Fp_withdraw string string rat | Fp_deposit string rat | Fp_transfer string string rat

record bank =
  bk_ids :: nat
  bk_accounts :: "(string \<times> account) list"
  bk_cards :: "(string \<times> card) list"
  bk_transactions :: "(string \<times> transaction) list"
  bk_requests :: "(string \<times> fingerprint \<times> string list) list"
  bk_withdrawn :: "((string option \<times> date) \<times> rat) list"

definition new_bank :: bank where
  "new_bank = \<lparr>bk_ids = 1, bk_accounts = [], bk_cards = [], bk_transactions = [], bk_requests = [], bk_withdrawn = []\<rparr>"

definition next_id :: "bank \<Rightarrow> string \<Rightarrow> string \<times> bank" where
  "next_id s prefix = (prefix @ digits4 (bk_ids s), s\<lparr>bk_ids := bk_ids s + 1\<rparr>)"

definition put_account :: "bank \<Rightarrow> string \<Rightarrow> account \<Rightarrow> bank" where
  "put_account s n a = s\<lparr>bk_accounts := AList.update n a (bk_accounts s)\<rparr>"

definition get_account :: "bank \<Rightarrow> string \<Rightarrow> bank_error + account" where
  "get_account s n = (case map_of (bk_accounts s) n of None \<Rightarrow> Inl NotFoundError | Some a \<Rightarrow> Inr a)"

text \<open>The keyword limit of the constructor, with its default; a credit account ignores the initial deposit.\<close>

fun make_account :: "string \<Rightarrow> AccountType \<Rightarrow> rat \<Rightarrow> rat option \<Rightarrow> account" where
  "make_account customer SAVINGS initial limit =
     \<lparr>ac_customer = customer, ac_kind = SavingsAccount (case limit of None \<Rightarrow> 500 | Some l \<Rightarrow> l), ac_balance = initial, ac_held = 0\<rparr>"
| "make_account customer CHECKING initial limit =
     \<lparr>ac_customer = customer, ac_kind = CheckingAccount (case limit of None \<Rightarrow> 1000 | Some l \<Rightarrow> l), ac_balance = initial, ac_held = 0\<rparr>"
| "make_account customer CREDIT initial limit =
     \<lparr>ac_customer = customer, ac_kind = CreditAccount (case limit of None \<Rightarrow> 10000 | Some l \<Rightarrow> l), ac_balance = 0, ac_held = 0\<rparr>"

definition open_account :: "bank \<Rightarrow> string \<Rightarrow> AccountType \<Rightarrow> money_like \<Rightarrow> rat option \<Rightarrow> bank \<times> (bank_error + string)" where
  "open_account s customer ty initial_deposit limit =
     (let (number, s1) = next_id s ''AC''
      in or_raise s1 (to_money initial_deposit) (\<lambda>initial. (put_account s1 number (make_account customer ty initial limit), Inr number)))"

definition card_expiry :: "date \<Rightarrow> int \<Rightarrow> bank_error + date" where
  "card_expiry today valid_years =
     (let (y, m, d) = today in bind_sum (mk_date (y + valid_years + m div 12) (m mod 12 + 1) 1) day_before)"

definition issue_card :: "(string \<Rightarrow> string \<Rightarrow> string) \<Rightarrow> bank \<Rightarrow> string \<Rightarrow> string \<Rightarrow> money_like \<Rightarrow> int \<Rightarrow> string \<Rightarrow> date
    \<Rightarrow> bank \<times> (bank_error + string)" where
  "issue_card pbkdf s acct pin daily_limit valid_years salt today =
     or_raise s (get_account s acct) (\<lambda>a. or_raise s (card_expiry today valid_years) (\<lambda>expiry.
       (let (number, s1) = next_id s ''CARD''
        in or_raise s1 (to_money daily_limit) (\<lambda>limit.
             (s1\<lparr>bk_cards := AList.update number (new_card pbkdf (ac_customer a) acct pin expiry limit salt) (bk_cards s1)\<rparr>, Inr number)))))"

definition validate_card :: "bank \<Rightarrow> string \<Rightarrow> date \<Rightarrow> bank_error + card" where
  "validate_card s n today =
     (case map_of (bk_cards s) n of
        None \<Rightarrow> Inl CardError
      | Some c \<Rightarrow> if cd_blocked c then Inl CardBlockedError else if today > cd_expiry c then Inl CardError else Inr c)"

definition verify_pin :: "(string \<Rightarrow> string \<Rightarrow> string) \<Rightarrow> bank \<Rightarrow> string \<Rightarrow> string \<Rightarrow> date \<Rightarrow> bank \<times> (bank_error + card)" where
  "verify_pin pbkdf s n pin today =
     or_raise s (validate_card s n today) (\<lambda>c.
       (case card_verify_pin pbkdf c pin of
          (c1, r) \<Rightarrow> (s\<lparr>bk_cards := AList.update n c1 (bk_cards s)\<rparr>, bind_sum r (\<lambda>_. Inr c1))))"

subsection \<open>Queries\<close>

definition accounts_of :: "bank \<Rightarrow> string \<Rightarrow> string list" where
  "accounts_of s customer = map fst (filter (\<lambda>e. ac_customer (snd e) = customer) (bk_accounts s))"

definition balance :: "bank \<Rightarrow> string \<Rightarrow> bank_error + rat" where
  "balance s n = map_sum id ac_balance (get_account s n)"

definition available :: "bank \<Rightarrow> string \<Rightarrow> bank_error + rat" where
  "available s n = map_sum id withdrawable (get_account s n)"

definition get_transaction :: "bank \<Rightarrow> string \<Rightarrow> bank_error + transaction" where
  "get_transaction s tid = (case map_of (bk_transactions s) tid of None \<Rightarrow> Inl NotFoundError | Some t \<Rightarrow> Inr t)"

definition statement :: "bank \<Rightarrow> string \<Rightarrow> int \<Rightarrow> (string \<times> transaction) list" where
  "statement s n limit =
     (let txs = filter (\<lambda>e. tx_account (snd e) = n) (bk_transactions s)
      in if 0 < limit then drop (length txs - nat limit) txs else drop (nat (- limit)) txs)"

subsection \<open>Helpers\<close>

definition withdrawn_on :: "bank \<Rightarrow> string option \<times> date \<Rightarrow> rat" where
  "withdrawn_on s key = (case map_of (bk_withdrawn s) key of None \<Rightarrow> 0 | Some u \<Rightarrow> u)"

text \<open>The limit \<open>None\<close> is \<open>Decimal("Infinity")\<close>.\<close>

definition reserve_daily :: "bank \<Rightarrow> string option \<times> date \<Rightarrow> rat \<Rightarrow> rat option \<Rightarrow> bank_error + bank" where
  "reserve_daily s key delta limit =
     (let used = withdrawn_on s key
      in if 0 < delta \<and> (case limit of None \<Rightarrow> False | Some l \<Rightarrow> used + delta > l) then Inl LimitExceededError
         else Inr (s\<lparr>bk_withdrawn := AList.update key (used + delta) (bk_withdrawn s)\<rparr>))"

definition put_transaction :: "bank \<Rightarrow> string \<Rightarrow> transaction \<Rightarrow> bank" where
  "put_transaction s tid t = s\<lparr>bk_transactions := AList.update tid t (bk_transactions s)\<rparr>"

definition record_tx :: "bank \<Rightarrow> transaction \<Rightarrow> bank \<times> string" where
  "record_tx s t = (let (tid, s1) = next_id s ''TX'' in (put_transaction s1 tid t, tid))"

definition idempotent :: "bank \<Rightarrow> string \<Rightarrow> fingerprint \<Rightarrow> (bank \<Rightarrow> bank \<times> (bank_error + string list)) \<Rightarrow> bank \<times> (bank_error + string list)" where
  "idempotent s rid fp run =
     (case map_of (bk_requests s) rid of
        Some (seen, tids) \<Rightarrow> if seen \<noteq> fp then (s, Inl IdempotencyError) else (s, Inr tids)
      | None \<Rightarrow>
          (case run s of
             (s1, Inl e) \<Rightarrow> (s1, Inl e)
           | (s1, Inr tids) \<Rightarrow> (s1\<lparr>bk_requests := AList.update rid (fp, tids) (bk_requests s1)\<rparr>, Inr tids)))"

subsection \<open>Money movement\<close>

text \<open>The body of \<open>authorize_withdrawal\<close>; the clock is read by \<open>validate_card\<close>, for the key of the daily total, and by
  \<open>_record\<close>.\<close>

definition place_hold :: "string \<Rightarrow> string \<Rightarrow> rat \<Rightarrow> string \<Rightarrow> date \<Rightarrow> date \<Rightarrow> date \<Rightarrow> bank \<Rightarrow> bank \<times> (bank_error + string list)" where
  "place_hold cn acct value rid now1 now2 now3 s =
     or_raise s (validate_card s cn now1) (\<lambda>c. or_raise s (get_account s acct) (\<lambda>a.
       if ac_customer a \<noteq> cd_customer c then (s, Inl CardError)
       else or_raise s (reserve_daily s (Some cn, now2) value (Some (cd_daily_limit c))) (\<lambda>s1.
         (case hold value a of
            Inl e \<Rightarrow> or_raise s1 (reserve_daily s1 (Some cn, now2) (- value) (Some (cd_daily_limit c))) (\<lambda>s2. (s2, Inl e))
          | Inr a1 \<Rightarrow>
              (let (s2, tid) = record_tx (put_account s1 acct a1) \<lparr>tx_request = rid, tx_account = acct, tx_type = WITHDRAWAL,
                     tx_amount = value, tx_status = PENDING, tx_date = now3, tx_card = Some cn, tx_counterparty = None\<rparr>
               in (s2, Inr [tid]))))))"

definition authorize_withdrawal :: "bank \<Rightarrow> string \<Rightarrow> string \<Rightarrow> money_like \<Rightarrow> string \<Rightarrow> date \<Rightarrow> date \<Rightarrow> date
    \<Rightarrow> bank \<times> (bank_error + string list)" where
  "authorize_withdrawal s cn acct amount rid now1 now2 now3 =
     or_raise s (positive_money amount) (\<lambda>value.
       idempotent s rid (Fp_withdraw cn acct value) (place_hold cn acct value rid now1 now2 now3))"

definition capture :: "bank \<Rightarrow> string \<Rightarrow> bank \<times> (bank_error + string list)" where
  "capture s tid =
     or_raise s (get_transaction s tid) (\<lambda>t. or_raise s (get_account s (tx_account t)) (\<lambda>a.
       if tx_status t = COMPLETED then (s, Inr [tid])
       else or_raise s (move_to COMPLETED t) (\<lambda>t1.
         (put_account (put_transaction s tid t1) (tx_account t) (capture_hold (tx_amount t) a), Inr [tid]))))"

definition reverse :: "bank \<Rightarrow> string \<Rightarrow> bank \<times> (bank_error + string list)" where
  "reverse s tid =
     or_raise s (get_transaction s tid) (\<lambda>t. or_raise s (get_account s (tx_account t)) (\<lambda>a.
       if tx_status t = REVERSED then (s, Inr [tid])
       else or_raise s (move_to REVERSED t) (\<lambda>t1.
         (let s1 = put_account (put_transaction s tid t1) (tx_account t) (release_hold (tx_amount t) a)
          in or_raise s1 (reserve_daily s1 (tx_card t, tx_date t) (- tx_amount t) None) (\<lambda>s2. (s2, Inr [tid]))))))"

definition do_deposit :: "string \<Rightarrow> rat \<Rightarrow> string \<Rightarrow> date \<Rightarrow> bank \<Rightarrow> bank \<times> (bank_error + string list)" where
  "do_deposit acct value rid now s =
     or_raise s (get_account s acct) (\<lambda>a.
       (let (s1, tid) = record_tx (put_account s acct (credit value a)) \<lparr>tx_request = rid, tx_account = acct, tx_type = DEPOSIT,
              tx_amount = value, tx_status = COMPLETED, tx_date = now, tx_card = None, tx_counterparty = None\<rparr>
        in (s1, Inr [tid])))"

definition deposit :: "bank \<Rightarrow> string \<Rightarrow> money_like \<Rightarrow> string \<Rightarrow> date \<Rightarrow> bank \<times> (bank_error + string list)" where
  "deposit s acct amount rid now =
     or_raise s (positive_money amount) (\<lambda>value. idempotent s rid (Fp_deposit acct value) (do_deposit acct value rid now))"

definition do_transfer :: "string \<Rightarrow> string \<Rightarrow> rat \<Rightarrow> string \<Rightarrow> date \<Rightarrow> date \<Rightarrow> bank \<Rightarrow> bank \<times> (bank_error + string list)" where
  "do_transfer src dst value rid now1 now2 s =
     or_raise s (get_account s src) (\<lambda>a. or_raise s (get_account s dst) (\<lambda>b.
       or_raise s (debit value a) (\<lambda>a1.
         (let s1 = put_account (put_account s src a1) dst (credit value b);
              (s2, out) = record_tx s1 \<lparr>tx_request = rid, tx_account = src, tx_type = TRANSFER_OUT, tx_amount = value,
                tx_status = COMPLETED, tx_date = now1, tx_card = None, tx_counterparty = Some dst\<rparr>;
              (s3, into) = record_tx s2 \<lparr>tx_request = rid, tx_account = dst, tx_type = TRANSFER_IN, tx_amount = value,
                tx_status = COMPLETED, tx_date = now2, tx_card = None, tx_counterparty = Some src\<rparr>
          in (s3, Inr [out, into])))))"

definition transfer :: "bank \<Rightarrow> string \<Rightarrow> string \<Rightarrow> money_like \<Rightarrow> string \<Rightarrow> date \<Rightarrow> date \<Rightarrow> bank \<times> (bank_error + string list)" where
  "transfer s src dst amount rid now1 now2 =
     or_raise s (positive_money amount) (\<lambda>value.
       if src = dst then (s, Inl BankError)
       else idempotent s rid (Fp_transfer src dst value) (do_transfer src dst value rid now1 now2))"

subsection \<open>The calls as one step function\<close>

datatype bank_op =
    OpenAccount string AccountType money_like "rat option"
  | IssueCard string string money_like int string date
  | VerifyPin string string date
  | Authorize string string money_like string date date date
  | Capture string
  | Reverse string
  | Deposit string money_like string date
  | Transfer string string money_like string date date

fun bank_step :: "(string \<Rightarrow> string \<Rightarrow> string) \<Rightarrow> bank \<Rightarrow> bank_op \<Rightarrow> bank \<times> (bank_error + string list)" where
  "bank_step pbkdf s (OpenAccount customer ty initial limit) = apsnd (map_sum id (\<lambda>n. [n])) (open_account s customer ty initial limit)"
| "bank_step pbkdf s (IssueCard acct pin limit years salt today) = apsnd (map_sum id (\<lambda>n. [n])) (issue_card pbkdf s acct pin limit years salt today)"
| "bank_step pbkdf s (VerifyPin cn pin today) = apsnd (map_sum id (\<lambda>_. [cn])) (verify_pin pbkdf s cn pin today)"
| "bank_step pbkdf s (Authorize cn acct amount rid now1 now2 now3) = authorize_withdrawal s cn acct amount rid now1 now2 now3"
| "bank_step pbkdf s (Capture tid) = capture s tid"
| "bank_step pbkdf s (Reverse tid) = reverse s tid"
| "bank_step pbkdf s (Deposit acct amount rid now) = deposit s acct amount rid now"
| "bank_step pbkdf s (Transfer src dst amount rid now1 now2) = transfer s src dst amount rid now1 now2"

end
