(* ===== verification/Bank_Books.thy ===== *)
theory Bank_Books
  imports Bank "HOL-Library.Sublist"
begin

text \<open>
  The books of \<open>Bank\<close> over any sequence of calls: what is held on an account is what its pending withdrawals hold, its
  balance is the opening balance plus its completed transactions, no hold or debit takes it below its floor, the daily
  total of a card is the sum of its withdrawals that were not reversed, and a repeated request moves no money.
\<close>

declare split_paired_All [simp del] split_paired_Ex [simp del]

section \<open>Sums over the ledger\<close>

definition tx_sum :: "(transaction \<Rightarrow> rat) \<Rightarrow> bank \<Rightarrow> rat" where
  "tx_sum f s = sum_list (map (\<lambda>e. f (snd e)) (bk_transactions s))"

definition pending_part :: "string \<Rightarrow> transaction \<Rightarrow> rat" where
  "pending_part n t = (if tx_account t = n \<and> tx_status t = PENDING then tx_amount t else 0)"

definition booked_part :: "string \<Rightarrow> transaction \<Rightarrow> rat" where
  "booked_part n t = (if tx_account t = n \<and> tx_status t = COMPLETED
     then (if tx_type t = WITHDRAWAL \<or> tx_type t = TRANSFER_OUT then - tx_amount t else tx_amount t) else 0)"

definition drawn_part :: "string option \<times> date \<Rightarrow> transaction \<Rightarrow> rat" where
  "drawn_part key t = (if tx_type t = WITHDRAWAL \<and> tx_status t \<noteq> REVERSED \<and> (tx_card t, tx_date t) = key then tx_amount t else 0)"

lemmas parts = pending_part_def booked_part_def drawn_part_def

abbreviation pending_on :: "bank \<Rightarrow> string \<Rightarrow> rat" where
  "pending_on s n \<equiv> tx_sum (pending_part n) s"

abbreviation booked_on :: "bank \<Rightarrow> string \<Rightarrow> rat" where
  "booked_on s n \<equiv> tx_sum (booked_part n) s"

abbreviation drawn_on :: "bank \<Rightarrow> string option \<times> date \<Rightarrow> rat" where
  "drawn_on s key \<equiv> tx_sum (drawn_part key) s"

abbreviation tx_name :: "nat \<Rightarrow> string" where
  "tx_name m \<equiv> ''TX'' @ digits4 m"

lemma inj_names [simp]: "inj (\<lambda>m. p @ digits4 m)"
  by (simp add: inj_def)

lemma tx_sum_frame: "bk_transactions t = bk_transactions s \<Longrightarrow> tx_sum f t = tx_sum f s"
  by (simp add: tx_sum_def)

lemma tx_sum_record:
  assumes "minted tx_name (bk_ids s) (bk_transactions s)"
  shows "tx_sum f (fst (record_tx s t)) = tx_sum f s + f t"
  using minted_fresh [OF assms inj_names order_refl]
  by (simp add: tx_sum_def record_tx_def next_id_def put_transaction_def AList_update_absent)

lemma tx_sum_put:
  assumes "minted tx_name k (bk_transactions s)" "map_of (bk_transactions s) tid = Some t"
  shows "tx_sum f (put_transaction s tid t') = tx_sum f s - f t + f t'"
  using sum_list_update_key [of "bk_transactions s" tid t "\<lambda>e. f (snd e)"] assms
  by (simp add: tx_sum_def put_transaction_def minted_def)

lemma tx_sum_zero: "\<forall>e \<in> set (bk_transactions s). f (snd e) = 0 \<Longrightarrow> tx_sum f s = 0"
  by (simp add: tx_sum_def map_idI sum_list_0 cong: map_cong)

lemma tx_sum_nonneg: "\<forall>e \<in> set (bk_transactions s). 0 \<le> f (snd e) \<Longrightarrow> 0 \<le> tx_sum f s"
  unfolding tx_sum_def by (intro sum_list_nonneg) auto

section \<open>The invariant\<close>

definition tx_ok :: "bank \<Rightarrow> transaction \<Rightarrow> bool" where
  "tx_ok s t \<longleftrightarrow> 0 < tx_amount t \<and> map_of (bk_accounts s) (tx_account t) \<noteq> None \<and> (tx_status t \<noteq> COMPLETED \<longrightarrow> tx_type t = WITHDRAWAL)
     \<and> (\<forall>cn. tx_card t = Some cn \<longrightarrow> map_of (bk_cards s) cn \<noteq> None) \<and> (tx_type t = WITHDRAWAL \<longrightarrow> tx_card t \<noteq> None)"

definition card_ok :: "bank \<Rightarrow> card \<Rightarrow> bool" where
  "card_ok s c \<longleftrightarrow> 0 \<le> cd_failed c \<and> cd_failed c \<le> MAX_PIN_ATTEMPTS \<and> (cd_blocked c \<longleftrightarrow> cd_failed c = MAX_PIN_ATTEMPTS)
     \<and> (\<exists>a. map_of (bk_accounts s) (cd_account c) = Some a \<and> ac_customer a = cd_customer c)"

definition bank_ok :: "bank \<Rightarrow> bool" where
  "bank_ok s \<longleftrightarrow> minted (\<lambda>m. ''AC'' @ digits4 m) (bk_ids s) (bk_accounts s) \<and> minted (\<lambda>m. ''CARD'' @ digits4 m) (bk_ids s) (bk_cards s)
     \<and> minted tx_name (bk_ids s) (bk_transactions s)
     \<and> (\<forall>e \<in> set (bk_transactions s). tx_ok s (snd e)) \<and> (\<forall>e \<in> set (bk_cards s). card_ok s (snd e))
     \<and> (\<forall>n a. map_of (bk_accounts s) n = Some a \<longrightarrow> ac_held a = pending_on s n)
     \<and> (\<forall>key. withdrawn_on s key = drawn_on s key)
     \<and> (\<forall>cn c day. map_of (bk_cards s) cn = Some c \<longrightarrow> withdrawn_on s (Some cn, day) \<le> max 0 (cd_daily_limit c))"

lemma bank_okD:
  assumes "bank_ok s"
  shows "minted (\<lambda>m. ''AC'' @ digits4 m) (bk_ids s) (bk_accounts s)" "minted (\<lambda>m. ''CARD'' @ digits4 m) (bk_ids s) (bk_cards s)"
    "minted tx_name (bk_ids s) (bk_transactions s)" "\<And>tid t. map_of (bk_transactions s) tid = Some t \<Longrightarrow> tx_ok s t"
    "\<And>cn c. map_of (bk_cards s) cn = Some c \<Longrightarrow> card_ok s c"
    "\<And>n a. map_of (bk_accounts s) n = Some a \<Longrightarrow> ac_held a = pending_on s n" "\<And>key. withdrawn_on s key = drawn_on s key"
    "\<And>cn c day. map_of (bk_cards s) cn = Some c \<Longrightarrow> withdrawn_on s (Some cn, day) \<le> max 0 (cd_daily_limit c)"
    "\<And>e. e \<in> set (bk_transactions s) \<Longrightarrow> tx_ok s (snd e)" "\<And>e. e \<in> set (bk_cards s) \<Longrightarrow> card_ok s (snd e)"
proof -
  note b = assms [unfolded bank_ok_def]
  show "\<And>tid t. map_of (bk_transactions s) tid = Some t \<Longrightarrow> tx_ok s t" "\<And>cn c. map_of (bk_cards s) cn = Some c \<Longrightarrow> card_ok s c"
    using b by (metis map_of_SomeD snd_conv)+
qed (use assms in \<open>unfold bank_ok_def, blast\<close>)+

text \<open>The parts of the invariant that a money movement must show: it keeps the names, customers and limits.\<close>

definition keeps :: "bank \<Rightarrow> bank \<Rightarrow> bool" where
  "keeps s t \<longleftrightarrow> bk_cards t = bk_cards s
     \<and> (\<forall>n. map_option (\<lambda>a. (ac_customer a, ac_kind a)) (map_of (bk_accounts t) n) = map_option (\<lambda>a. (ac_customer a, ac_kind a)) (map_of (bk_accounts s) n))"

lemma keeps_refl [simp]: "keeps s s"
  by (simp add: keeps_def)

lemma keeps_trans: "keeps s t \<Longrightarrow> keeps t u \<Longrightarrow> keeps s u"
  by (simp add: keeps_def)

lemma keeps_account: "keeps s t \<Longrightarrow> map_of (bk_accounts s) n = Some a \<Longrightarrow>
    \<exists>b. map_of (bk_accounts t) n = Some b \<and> ac_customer b = ac_customer a \<and> ac_kind b = ac_kind a"
  unfolding keeps_def by (drule conjunct2, drule spec [of _ n]) (auto simp: map_option_case split: option.splits)

lemma keeps_tx_ok: "keeps s t \<Longrightarrow> tx_ok s x \<Longrightarrow> tx_ok t x"
  using keeps_account [of s t] by (fastforce simp: tx_ok_def keeps_def)

lemma keeps_card_ok: "keeps s t \<Longrightarrow> card_ok s c \<Longrightarrow> card_ok t c"
  using keeps_account [of s t "cd_account c"] by (fastforce simp: card_ok_def)

lemma keeps_put: "map_of (bk_accounts s) n = Some a \<Longrightarrow> ac_customer b = ac_customer a \<Longrightarrow> ac_kind b = ac_kind a \<Longrightarrow> keeps s (put_account s n b)"
  by (auto simp: keeps_def put_account_def update_conv')

lemma account_changes [simp]:
  "ac_customer (release_hold v a) = ac_customer a" "ac_kind (release_hold v a) = ac_kind a" "ac_customer (capture_hold v a) = ac_customer a"
  "ac_kind (capture_hold v a) = ac_kind a" "ac_customer (credit v a) = ac_customer a" "ac_kind (credit v a) = ac_kind a"
  "ac_held (credit v a) = ac_held a" "ac_balance (credit v a) = ac_balance a + v" "ac_held (release_hold v a) = ac_held a - v"
  "ac_balance (release_hold v a) = ac_balance a" "ac_held (capture_hold v a) = ac_held a - v" "ac_balance (capture_hold v a) = ac_balance a - v"
  by (simp_all add: release_hold_def capture_hold_def credit_def)

lemma hold_Inr: "hold v a = Inr b \<longleftrightarrow> v \<le> withdrawable a \<and> b = a\<lparr>ac_held := ac_held a + v\<rparr>"
  by (auto simp: hold_def require_funds_def)

lemma debit_Inr: "debit v a = Inr b \<longleftrightarrow> v \<le> withdrawable a \<and> b = a\<lparr>ac_balance := ac_balance a - v\<rparr>"
  by (auto simp: debit_def require_funds_def)

lemma record_tx_simps [simp]:
  "bk_accounts (fst (record_tx s t)) = bk_accounts s" "bk_cards (fst (record_tx s t)) = bk_cards s" "bk_withdrawn (fst (record_tx s t)) = bk_withdrawn s"
  "bk_requests (fst (record_tx s t)) = bk_requests s" "bk_ids (fst (record_tx s t)) = Suc (bk_ids s)" "snd (record_tx s t) = tx_name (bk_ids s)"
  "bk_transactions (fst (record_tx s t)) = AList.update (tx_name (bk_ids s)) t (bk_transactions s)"
  by (simp_all add: record_tx_def next_id_def put_transaction_def)

lemma put_simps [simp]:
  "bk_cards (put_account s n a) = bk_cards s" "bk_transactions (put_account s n a) = bk_transactions s" "bk_withdrawn (put_account s n a) = bk_withdrawn s"
  "bk_requests (put_account s n a) = bk_requests s" "bk_ids (put_account s n a) = bk_ids s"
  "bk_accounts (put_transaction s tid t) = bk_accounts s" "bk_cards (put_transaction s tid t) = bk_cards s" "bk_withdrawn (put_transaction s tid t) = bk_withdrawn s"
  "bk_requests (put_transaction s tid t) = bk_requests s" "bk_ids (put_transaction s tid t) = bk_ids s"
  "map_of (bk_accounts (put_account s n a)) m = (if m = n then Some a else map_of (bk_accounts s) m)"
  "map_of (bk_transactions (put_transaction s tid t)) u = (if u = tid then Some t else map_of (bk_transactions s) u)"
  "tx_sum f (put_account s n a) = tx_sum f s"
  by (simp_all add: put_account_def put_transaction_def update_conv' tx_sum_def)

lemma reserve_daily_Inr:
  "reserve_daily s key d limit = Inr t \<longleftrightarrow> (0 < d \<longrightarrow> (case limit of None \<Rightarrow> True | Some l \<Rightarrow> withdrawn_on s key + d \<le> l))
     \<and> t = s\<lparr>bk_withdrawn := AList.update key (withdrawn_on s key + d) (bk_withdrawn s)\<rparr>"
  by (auto simp: reserve_daily_def Let_def split: option.splits)

lemma withdrawn_on_update [simp]:
  "withdrawn_on (s\<lparr>bk_withdrawn := AList.update key v (bk_withdrawn s)\<rparr>) k = (if k = key then v else withdrawn_on s k)"
  by (simp add: withdrawn_on_def update_conv')

lemma withdrawn_on_frame: "bk_withdrawn t = bk_withdrawn s \<Longrightarrow> withdrawn_on t k = withdrawn_on s k"
  by (simp add: withdrawn_on_def)

lemma withdrawn_simps [simp]:
  "withdrawn_on (put_account s n a) k = withdrawn_on s k" "withdrawn_on (put_transaction s tid t) k = withdrawn_on s k"
  "withdrawn_on (fst (record_tx s t)) k = withdrawn_on s k"
  by (simp_all add: withdrawn_on_def)

text \<open>Two banks that differ in the requests and in how the totals of a day are stored.\<close>

definition same_books :: "bank \<Rightarrow> bank \<Rightarrow> bool" where
  "same_books s t \<longleftrightarrow> bk_ids t = bk_ids s \<and> bk_accounts t = bk_accounts s \<and> bk_cards t = bk_cards s
     \<and> bk_transactions t = bk_transactions s \<and> (\<forall>k. withdrawn_on t k = withdrawn_on s k)"

lemma same_books_refl [simp]: "same_books s s"
  by (simp add: same_books_def)

lemma same_books_ok:
  assumes "same_books s t" "bank_ok s"
  shows "bank_ok t"
proof -
  have eqs: "bk_ids t = bk_ids s" "bk_accounts t = bk_accounts s" "bk_cards t = bk_cards s" "bk_transactions t = bk_transactions s"
    "withdrawn_on t = withdrawn_on s"
    using assms(1) by (simp_all add: same_books_def fun_eq_iff)
  have "tx_ok t = tx_ok s" "card_ok t = card_ok s" "\<And>f. tx_sum f t = tx_sum f s"
    using eqs by (simp_all add: fun_eq_iff tx_ok_def card_ok_def tx_sum_def)
  note eqs = eqs this
  show ?thesis using assms(2) unfolding bank_ok_def eqs .
qed

lemma same_books_requests [simp]: "same_books s (t\<lparr>bk_requests := r\<rparr>) = same_books s t"
  by (simp add: same_books_def withdrawn_on_def)

lemma bank_ok_requests [simp]: "bank_ok (s\<lparr>bk_requests := r\<rparr>) = bank_ok s"
  by (simp add: bank_ok_def tx_ok_def card_ok_def tx_sum_def withdrawn_on_def)

section \<open>Every call keeps the invariant\<close>

lemma move_ok:
  assumes "bank_ok s" "keeps s t" "bk_ids s \<le> bk_ids t" "minted (\<lambda>m. ''AC'' @ digits4 m) (bk_ids t) (bk_accounts t)"
    "minted tx_name (bk_ids t) (bk_transactions t)" "\<And>e. e \<in> set (bk_transactions t) \<Longrightarrow> tx_ok t (snd e)"
    "\<And>n a. map_of (bk_accounts t) n = Some a \<Longrightarrow> ac_held a = pending_on t n" "\<And>key. withdrawn_on t key = drawn_on t key"
    "\<And>cn c day. map_of (bk_cards s) cn = Some c \<Longrightarrow> withdrawn_on t (Some cn, day) \<le> max 0 (cd_daily_limit c)"
  shows "bank_ok t"
proof -
  have c: "bk_cards t = bk_cards s" using assms(2) by (simp add: keeps_def)
  have "\<And>e. e \<in> set (bk_cards t) \<Longrightarrow> card_ok t (snd e)" using bank_okD(10) [OF assms(1)] keeps_card_ok [OF assms(2)] c by simp
  moreover have "minted (\<lambda>m. ''CARD'' @ digits4 m) (bk_ids t) (bk_cards t)" using minted_mono [OF bank_okD(2) [OF assms(1)] assms(3)] c by simp
  ultimately show ?thesis using assms c unfolding bank_ok_def by simp
qed

lemma accounts_minted:
  assumes "bank_ok s" "map_of (bk_accounts s) n = Some a" "bk_ids s \<le> k"
  shows "minted (\<lambda>m. ''AC'' @ digits4 m) k (bk_accounts (put_account s n b))"
proof -
  have "n \<in> fst ` set (bk_accounts s)" using map_of_SomeD [OF assms(2)] by force
  then show ?thesis using minted_mono [OF minted_update [OF bank_okD(1) [OF assms(1)]] assms(3)] by (simp add: put_account_def)
qed

lemma txs_minted: "bank_ok s \<Longrightarrow> minted tx_name (Suc (bk_ids s)) (AList.update (tx_name (bk_ids s)) x (bk_transactions s))"
  by (rule minted_add [OF bank_okD(3) inj_names order_refl])

lemma txs_put_minted:
  assumes "bank_ok s" "map_of (bk_transactions s) tid = Some x"
  shows "minted tx_name (bk_ids s) (bk_transactions (put_transaction s tid y))"
proof -
  have "tid \<in> fst ` set (bk_transactions s)" using map_of_SomeD [OF assms(2)] by force
  then show ?thesis using minted_update [OF bank_okD(3) [OF assms(1)]] by (simp add: put_transaction_def)
qed

lemma drawn_zero:
  assumes "bank_ok s" "map_of (bk_cards s) cn = None"
  shows "drawn_on s (Some cn, day) = 0"
  using bank_okD(9) [OF assms(1)] assms(2) by (intro tx_sum_zero) (fastforce simp: drawn_part_def tx_ok_def)

lemma drawn_nonneg:
  assumes "bank_ok s"
  shows "0 \<le> drawn_on s key"
  using bank_okD(9) [OF assms] by (intro tx_sum_nonneg) (fastforce simp: drawn_part_def tx_ok_def)

lemma pending_nonneg:
  assumes "bank_ok s"
  shows "0 \<le> pending_on s n"
  using bank_okD(9) [OF assms] by (intro tx_sum_nonneg) (fastforce simp: pending_part_def tx_ok_def)

text \<open>A new transaction on an account whose hold and balance are changed with it.\<close>

lemma record_ok:
  assumes ok: "bank_ok s" and a: "map_of (bk_accounts s) n = Some a"
    and b: "ac_customer b = ac_customer a" "ac_kind b = ac_kind a" "ac_held b = ac_held a + pending_part n x"
    and x: "tx_account x = n" "tx_ok s x"
    and w: "\<And>key. withdrawn_on t key = withdrawn_on s key + drawn_part key x"
      "\<And>cn c day. map_of (bk_cards s) cn = Some c \<Longrightarrow> withdrawn_on t (Some cn, day) \<le> max 0 (cd_daily_limit c)"
    and t: "bk_accounts t = bk_accounts s" "bk_cards t = bk_cards s" "bk_transactions t = bk_transactions s" "bk_ids t = bk_ids s"
  shows "bank_ok (fst (record_tx (put_account t n b) x))" (is "bank_ok ?u")
proof -
  have k: "keeps s ?u" using a b t by (auto simp: keeps_def put_account_def update_conv')
  have m: "minted tx_name (bk_ids (put_account t n b)) (bk_transactions (put_account t n b))"
    using bank_okD(3) [OF ok] t by simp
  have sums: "tx_sum f ?u = tx_sum f s + f x" for f
    using tx_sum_record [OF m, of f x] tx_sum_frame [OF t(3), of f] by simp
  have other: "pending_part n' x = 0" if "n' \<noteq> n" for n' using that x(1) by (simp add: pending_part_def)
  show ?thesis
  proof (rule move_ok [OF ok k])
    show "minted (\<lambda>m. ''AC'' @ digits4 m) (bk_ids ?u) (bk_accounts ?u)"
      using accounts_minted [OF ok a, of "Suc (bk_ids s)" b] t by (simp add: put_account_def)
    show "minted tx_name (bk_ids ?u) (bk_transactions ?u)" using txs_minted [OF ok, of x] t by simp
    fix e assume "e \<in> set (bk_transactions ?u)"
    then have "e = (tx_name (bk_ids s), x) \<or> e \<in> set (bk_transactions s)" using AList_update_elem t by fastforce
    then show "tx_ok ?u (snd e)" using keeps_tx_ok [OF k] x(2) bank_okD(9) [OF ok] by (metis snd_conv)
  next
    fix m c assume "map_of (bk_accounts ?u) m = Some c"
    then have "if m = n then c = b else map_of (bk_accounts s) m = Some c" using t by (simp split: if_splits)
    then show "ac_held c = pending_on ?u m"
      using bank_okD(6) [OF ok] a b(3) other [of m] sums [of "pending_part m"] by (cases "m = n") simp_all
  next
    fix key
    show "withdrawn_on ?u key = drawn_on ?u key" using w(1) [of key] bank_okD(7) [OF ok, of key] by (simp add: sums)
  next
    fix cn c day assume "map_of (bk_cards s) cn = Some c"
    then show "withdrawn_on ?u (Some cn, day) \<le> max 0 (cd_daily_limit c)" using w(2) by simp
  qed (simp add: t)
qed

lemma reserve_back:
  assumes "reserve_daily s key v limit = Inr s1" "0 < v"
  shows "\<exists>s2. reserve_daily s1 key (- v) limit = Inr s2 \<and> same_books s s2 \<and> bk_requests s2 = bk_requests s"
  using assms by (auto simp: reserve_daily_Inr same_books_def withdrawn_on_def update_conv')

lemma place_hold_cases:
  assumes "0 < value"
  obtains (error) s1 e where "place_hold cn acct value rid now1 now2 now3 s = (s1, Inl e)" "same_books s s1" "bk_requests s1 = bk_requests s"
  | (held) c a where "validate_card s cn now1 = Inr c" "map_of (bk_accounts s) acct = Some a" "ac_customer a = cd_customer c"
      "withdrawn_on s (Some cn, now2) + value \<le> cd_daily_limit c" "value \<le> withdrawable a"
      "place_hold cn acct value rid now1 now2 now3 s =
        (fst (record_tx (put_account (s\<lparr>bk_withdrawn := AList.update (Some cn, now2) (withdrawn_on s (Some cn, now2) + value) (bk_withdrawn s)\<rparr>)
           acct (a\<lparr>ac_held := ac_held a + value\<rparr>)) \<lparr>tx_request = rid, tx_account = acct, tx_type = WITHDRAWAL,
           tx_amount = value, tx_status = PENDING, tx_date = now3, tx_card = Some cn, tx_counterparty = None\<rparr>), Inr [tx_name (bk_ids s)])"
proof (cases "validate_card s cn now1")
  case (Inl e)
  then show ?thesis by (intro error [of s e]) (simp_all add: place_hold_def)
next
  case c: (Inr c)
  show ?thesis
  proof (cases "map_of (bk_accounts s) acct")
    case None
    then show ?thesis using c by (intro error [of s NotFoundError]) (simp_all add: place_hold_def get_account_def)
  next
    case a: (Some a)
    show ?thesis
    proof (cases "ac_customer a = cd_customer c")
      case False
      then show ?thesis using a c by (intro error [of s CardError]) (simp_all add: place_hold_def get_account_def)
    next
      case own: True
      show ?thesis
      proof (cases "reserve_daily s (Some cn, now2) value (Some (cd_daily_limit c))")
        case (Inl e)
        then show ?thesis using a c own by (intro error [of s e]) (simp_all add: place_hold_def get_account_def)
      next
        case s1: (Inr s1)
        show ?thesis
        proof (cases "hold value a")
          case (Inl e)
          obtain s2 where "reserve_daily s1 (Some cn, now2) (- value) (Some (cd_daily_limit c)) = Inr s2" "same_books s s2" "bk_requests s2 = bk_requests s"
            using reserve_back [OF s1 assms] by blast
          then show ?thesis using a c own s1 Inl by (intro error [of s2 e]) (simp_all add: place_hold_def get_account_def)
        next
          case (Inr b)
          have s1': "withdrawn_on s (Some cn, now2) + value \<le> cd_daily_limit c"
            "s1 = s\<lparr>bk_withdrawn := AList.update (Some cn, now2) (withdrawn_on s (Some cn, now2) + value) (bk_withdrawn s)\<rparr>"
            using s1 assms by (simp_all add: reserve_daily_Inr)
          have b: "value \<le> withdrawable a" "b = a\<lparr>ac_held := ac_held a + value\<rparr>" using Inr by (simp_all add: hold_Inr)
          have "place_hold cn acct value rid now1 now2 now3 s = (fst (record_tx (put_account s1 acct b) \<lparr>tx_request = rid, tx_account = acct,
              tx_type = WITHDRAWAL, tx_amount = value, tx_status = PENDING, tx_date = now3, tx_card = Some cn, tx_counterparty = None\<rparr>),
              Inr [tx_name (bk_ids s)])"
            using a c own s1 Inr s1'(2) by (simp add: place_hold_def get_account_def split_def)
          then show ?thesis using a c own s1' b by (intro held [of c a]) simp_all
        qed
      qed
    qed
  qed
qed

lemma validate_card_Inr: "validate_card s cn now = Inr c \<Longrightarrow> map_of (bk_cards s) cn = Some c \<and> \<not> cd_blocked c \<and> now \<le> cd_expiry c"
  by (auto simp: validate_card_def split: option.splits if_splits)

lemma place_hold_ok:
  assumes ok: "bank_ok s" and v: "0 < value" and same: "now2 = now3"
  shows "bank_ok (fst (place_hold cn acct value rid now1 now2 now3 s))"
proof (cases rule: place_hold_cases [OF v, of cn acct rid now1 now2 now3 s, case_names error held])
  case (error s1 e)
  then show ?thesis using same_books_ok [OF _ ok] by simp
next
  case (held c a)
  note c = validate_card_Inr [OF held(1)]
  show ?thesis unfolding held(6) fst_conv
  proof (rule record_ok [OF ok held(2)])
    fix cn' c' day assume c': "map_of (bk_cards s) cn' = Some c'"
    show "withdrawn_on (s\<lparr>bk_withdrawn := AList.update (Some cn, now2) (withdrawn_on s (Some cn, now2) + value) (bk_withdrawn s)\<rparr>) (Some cn', day)
        \<le> max 0 (cd_daily_limit c')"
      using bank_okD(8) [OF ok c', of day] held(4) c c' by (cases "cn' = cn") auto
  qed (use held c v same in \<open>auto simp: parts tx_ok_def\<close>)
qed

lemma idempotent_ok: "bank_ok s \<Longrightarrow> bank_ok (fst (run s)) \<Longrightarrow> bank_ok (fst (idempotent s rid fp run))"
  by (auto simp: idempotent_def split: option.splits prod.splits sum.splits)

lemma positive_money_Inr: "positive_money m = Inr v \<Longrightarrow> 0 < v \<and> m = Number v"
  by (cases m) (auto simp: positive_money_def split: if_splits)

lemma authorize_ok: "bank_ok s \<Longrightarrow> now2 = now3 \<Longrightarrow> bank_ok (fst (authorize_withdrawal s cn acct amount rid now1 now2 now3))"
  by (auto simp: authorize_withdrawal_def split: or_raise_split intro!: idempotent_ok place_hold_ok dest: positive_money_Inr)

text \<open>A pending withdrawal settles: its hold goes, and the balance with it or not.\<close>

lemma settle_ok:
  assumes ok: "bank_ok s" and x: "map_of (bk_transactions s) tid = Some x" "tx_status x = PENDING"
    and a: "map_of (bk_accounts s) (tx_account x) = Some a"
    and b: "ac_customer b = ac_customer a" "ac_kind b = ac_kind a" "ac_held b = ac_held a - tx_amount x" and st: "st \<noteq> PENDING"
    and t: "bk_accounts t = bk_accounts s" "bk_cards t = bk_cards s" "bk_transactions t = bk_transactions s" "bk_ids t = bk_ids s"
      "\<And>key. withdrawn_on t key = withdrawn_on s key - (if st = REVERSED \<and> key = (tx_card x, tx_date x) then tx_amount x else 0)"
  shows "bank_ok (put_account (put_transaction t tid (x\<lparr>tx_status := st\<rparr>)) (tx_account x) b)" (is "bank_ok ?u")
proof -
  have xo: "tx_ok s x" by (rule bank_okD(4) [OF ok x(1)])
  have k: "keeps s ?u" using a b t by (auto simp: keeps_def put_account_def put_transaction_def update_conv')
  have sums: "tx_sum f ?u = tx_sum f s - f x + f (x\<lparr>tx_status := st\<rparr>)" for f
    using tx_sum_put [of "bk_ids s" t tid x f "x\<lparr>tx_status := st\<rparr>"] bank_okD(3) [OF ok] x(1) t tx_sum_frame [of t s f] by simp
  show ?thesis
  proof (rule move_ok [OF ok k])
    show "minted (\<lambda>m. ''AC'' @ digits4 m) (bk_ids ?u) (bk_accounts ?u)"
      using accounts_minted [OF ok a order_refl, of b] t by (simp add: put_account_def)
    show "minted tx_name (bk_ids ?u) (bk_transactions ?u)"
      using txs_put_minted [OF ok x(1), of "x\<lparr>tx_status := st\<rparr>"] t by (simp add: put_transaction_def)
    fix e assume "e \<in> set (bk_transactions ?u)"
    then have "e = (tid, x\<lparr>tx_status := st\<rparr>) \<or> e \<in> set (bk_transactions s)"
      using AList_update_elem [of e tid _ "bk_transactions s"] t by (simp add: put_transaction_def)
    moreover have "tx_ok s (x\<lparr>tx_status := st\<rparr>)" using xo x(2) by (simp add: tx_ok_def)
    ultimately show "tx_ok ?u (snd e)" using keeps_tx_ok [OF k] bank_okD(9) [OF ok] by (metis snd_conv)
  next
    fix m c assume "map_of (bk_accounts ?u) m = Some c"
    then have "if m = tx_account x then c = b else map_of (bk_accounts s) m = Some c" using t by (simp split: if_splits)
    then show "ac_held c = pending_on ?u m"
      using bank_okD(6) [OF ok] a b(3) st x(2) sums [of "pending_part m"] by (cases "m = tx_account x") (simp_all add: pending_part_def)
  next
    fix key
    show "withdrawn_on ?u key = drawn_on ?u key"
      using t(5) [of key] bank_okD(7) [OF ok, of key] sums [of "drawn_part key"] st x(2) xo by (cases st) (auto simp: drawn_part_def tx_ok_def)
  next
    fix cn c day assume c: "map_of (bk_cards s) cn = Some c"
    have "withdrawn_on t (Some cn, day) \<le> withdrawn_on s (Some cn, day)" using t(5) [of "(Some cn, day)"] xo by (simp add: tx_ok_def)
    then show "withdrawn_on ?u (Some cn, day) \<le> max 0 (cd_daily_limit c)" using bank_okD(8) [OF ok c, of day] by simp
  qed (simp add: t)
qed

lemma move_to_Inr: "move_to st x = Inr y \<longleftrightarrow> tx_status x = PENDING \<and> st \<noteq> PENDING \<and> y = x\<lparr>tx_status := st\<rparr>"
  by (cases "tx_status x"; cases st) (auto simp: move_to_def)

lemma get_Inr [simp]: "get_account s n = Inr a \<longleftrightarrow> map_of (bk_accounts s) n = Some a" "get_transaction s tid = Inr x \<longleftrightarrow> map_of (bk_transactions s) tid = Some x"
  by (auto simp: get_account_def get_transaction_def split: option.splits)

lemma capture_ok: "bank_ok s \<Longrightarrow> bank_ok (fst (capture s tid))"
  by (auto simp: capture_def move_to_Inr split: or_raise_split intro!: settle_ok)

lemma reverse_eq:
  assumes "map_of (bk_transactions s) tid = Some x" "map_of (bk_accounts s) (tx_account x) = Some a" "tx_status x = PENDING"
  shows "reverse s tid = (put_account (put_transaction (s\<lparr>bk_withdrawn := AList.update (tx_card x, tx_date x)
      (withdrawn_on s (tx_card x, tx_date x) - tx_amount x) (bk_withdrawn s)\<rparr>) tid (x\<lparr>tx_status := REVERSED\<rparr>)) (tx_account x)
      (release_hold (tx_amount x) a), Inr [tid])"
  using assms by (simp add: reverse_def get_transaction_def get_account_def move_to_def reserve_daily_def Let_def)
    (simp add: put_account_def put_transaction_def)

lemma reverse_ok:
  assumes ok: "bank_ok s"
  shows "bank_ok (fst (reverse s tid))"
proof (cases "\<exists>x a. map_of (bk_transactions s) tid = Some x \<and> map_of (bk_accounts s) (tx_account x) = Some a \<and> tx_status x = PENDING")
  case True
  then obtain x a where x: "map_of (bk_transactions s) tid = Some x" "map_of (bk_accounts s) (tx_account x) = Some a" "tx_status x = PENDING" by blast
  show ?thesis unfolding reverse_eq [OF x] fst_conv by (rule settle_ok [OF ok x(1,3,2)]) simp_all
next
  case False
  then have "fst (reverse s tid) = s" by (auto simp: reverse_def move_to_Inr split: or_raise_split)
  then show ?thesis using ok by simp
qed

lemma do_deposit_ok:
  assumes ok: "bank_ok s" and v: "0 < value"
  shows "bank_ok (fst (do_deposit acct value rid now s))"
proof (cases "map_of (bk_accounts s) acct")
  case None
  then show ?thesis using ok by (simp add: do_deposit_def get_account_def)
next
  case (Some a)
  then show ?thesis using bank_okD(8) [OF ok] v
    by (simp add: do_deposit_def get_account_def split_def) (rule record_ok [OF ok Some]; simp add: parts tx_ok_def)
qed

lemma do_transfer_eq:
  assumes "map_of (bk_accounts s) src = Some a" "map_of (bk_accounts s) dst = Some b" "value \<le> withdrawable a" "src \<noteq> dst"
  shows "do_transfer src dst value rid now1 now2 s =
      (let s2 = fst (record_tx (put_account s src (a\<lparr>ac_balance := ac_balance a - value\<rparr>)) \<lparr>tx_request = rid, tx_account = src,
             tx_type = TRANSFER_OUT, tx_amount = value, tx_status = COMPLETED, tx_date = now1, tx_card = None, tx_counterparty = Some dst\<rparr>);
           s3 = fst (record_tx (put_account s2 dst (credit value b)) \<lparr>tx_request = rid, tx_account = dst, tx_type = TRANSFER_IN, tx_amount = value,
             tx_status = COMPLETED, tx_date = now2, tx_card = None, tx_counterparty = Some src\<rparr>)
       in (s3, Inr [tx_name (bk_ids s), tx_name (Suc (bk_ids s))]))"
proof -
  have "debit value a = Inr (a\<lparr>ac_balance := ac_balance a - value\<rparr>)" using assms(3) by (simp add: debit_Inr)
  then show ?thesis using assms by (simp add: do_transfer_def get_account_def Let_def split_def)
      (simp add: put_account_def put_transaction_def record_tx_def next_id_def)
qed

lemma do_transfer_ok:
  assumes ok: "bank_ok s" and v: "0 < value" and ne: "src \<noteq> dst"
  shows "bank_ok (fst (do_transfer src dst value rid now1 now2 s))"
proof (cases "\<exists>a b. map_of (bk_accounts s) src = Some a \<and> map_of (bk_accounts s) dst = Some b \<and> value \<le> withdrawable a")
  case True
  then obtain a b where ab: "map_of (bk_accounts s) src = Some a" "map_of (bk_accounts s) dst = Some b" "value \<le> withdrawable a" by blast
  let ?s2 = "fst (record_tx (put_account s src (a\<lparr>ac_balance := ac_balance a - value\<rparr>)) \<lparr>tx_request = rid, tx_account = src,
     tx_type = TRANSFER_OUT, tx_amount = value, tx_status = COMPLETED, tx_date = now1, tx_card = None, tx_counterparty = Some dst\<rparr>)"
  have s2: "bank_ok ?s2"
    by (rule record_ok [OF ok ab(1)]) (use v ab(1) bank_okD(8) [OF ok] in \<open>auto simp: parts tx_ok_def\<close>)
  have b: "map_of (bk_accounts ?s2) dst = Some b" using ab(2) ne by simp
  have "bank_ok (fst (record_tx (put_account ?s2 dst (credit value b)) \<lparr>tx_request = rid, tx_account = dst, tx_type = TRANSFER_IN,
      tx_amount = value, tx_status = COMPLETED, tx_date = now2, tx_card = None, tx_counterparty = Some src\<rparr>))"
    by (rule record_ok [OF s2 b]) (use v b bank_okD(8) [OF s2] in \<open>auto simp: parts tx_ok_def\<close>)
  then show ?thesis unfolding do_transfer_eq [OF ab ne] Let_def by simp
next
  case False
  then have "fst (do_transfer src dst value rid now1 now2 s) = s"
    by (auto simp: do_transfer_def debit_Inr split: or_raise_split)
  then show ?thesis using ok by simp
qed

lemma deposit_ok: "bank_ok s \<Longrightarrow> bank_ok (fst (deposit s acct amount rid now))"
  by (auto simp: deposit_def split: or_raise_split intro!: idempotent_ok do_deposit_ok dest: positive_money_Inr)

lemma transfer_ok: "bank_ok s \<Longrightarrow> bank_ok (fst (transfer s src dst amount rid now1 now2))"
  by (auto simp: transfer_def split: or_raise_split intro!: idempotent_ok do_transfer_ok dest: positive_money_Inr)

lemma open_account_eq:
  "open_account s customer ty initial limit =
     (let s1 = s\<lparr>bk_ids := Suc (bk_ids s)\<rparr>; n = ''AC'' @ digits4 (bk_ids s)
      in or_raise s1 (to_money initial) (\<lambda>v. (put_account s1 n (make_account customer ty v limit), Inr n)))"
  by (simp add: open_account_def next_id_def Let_def)

lemma fresh_account: "bank_ok s \<Longrightarrow> map_of (bk_accounts s) (''AC'' @ digits4 (bk_ids s)) = None"
  using minted_fresh [OF bank_okD(1) inj_names order_refl, of s] by (simp add: map_of_eq_None_iff)

lemma fresh_bank_sums:
  assumes "bank_ok s"
  shows "pending_on s (''AC'' @ digits4 (bk_ids s)) = 0" "booked_on s (''AC'' @ digits4 (bk_ids s)) = 0"
  using bank_okD(9) [OF assms] fresh_account [OF assms] by (intro tx_sum_zero; fastforce simp: parts tx_ok_def)+

lemma make_account_held [simp]: "ac_held (make_account customer ty v limit) = 0"
  by (cases ty) simp_all

lemma new_account_ok:
  assumes ok: "bank_ok s" and z: "ac_held z = 0"
  shows "bank_ok (put_account (s\<lparr>bk_ids := Suc (bk_ids s)\<rparr>) (''AC'' @ digits4 (bk_ids s)) z)" (is "bank_ok ?t")
proof -
  have txs: "tx_ok ?t x" if "tx_ok s x" for x using that by (auto simp: tx_ok_def)
  have cards: "card_ok ?t c" if "card_ok s c" for c using that fresh_account [OF ok] by (auto simp: card_ok_def)
  have sums: "tx_sum f ?t = tx_sum f s" "withdrawn_on ?t key = withdrawn_on s key" for f key by (simp_all add: tx_sum_def withdrawn_on_def)
  show ?thesis unfolding bank_ok_def sums
  proof (intro conjI allI impI ballI)
    show "minted (\<lambda>m. ''AC'' @ digits4 m) (bk_ids ?t) (bk_accounts ?t)"
      using minted_add [OF bank_okD(1) [OF ok] inj_names order_refl, of z] by (simp add: put_account_def)
    show "minted (\<lambda>m. ''CARD'' @ digits4 m) (bk_ids ?t) (bk_cards ?t)" "minted tx_name (bk_ids ?t) (bk_transactions ?t)"
      using minted_mono [OF bank_okD(2) [OF ok], of "Suc (bk_ids s)"] minted_mono [OF bank_okD(3) [OF ok], of "Suc (bk_ids s)"] by simp_all
    fix n a assume "map_of (bk_accounts ?t) n = Some a"
    then show "ac_held a = pending_on s n" using z fresh_bank_sums(1) [OF ok] bank_okD(6) [OF ok] by (auto split: if_splits)
  qed (use txs cards bank_okD(7-10) [OF ok] in \<open>auto simp: withdrawn_on_def\<close>)
qed

lemma ids_ok_step: "bank_ok s \<Longrightarrow> bank_ok (s\<lparr>bk_ids := Suc (bk_ids s)\<rparr>)"
proof (rule move_ok, assumption)
  assume ok: "bank_ok s"
  let ?t = "s\<lparr>bk_ids := Suc (bk_ids s)\<rparr>"
  have sums: "tx_sum f ?t = tx_sum f s" "withdrawn_on ?t key = withdrawn_on s key" for f key by (simp_all add: tx_sum_def withdrawn_on_def)
  show "keeps s ?t" by (simp add: keeps_def)
  show "minted (\<lambda>m. ''AC'' @ digits4 m) (bk_ids ?t) (bk_accounts ?t)" "minted tx_name (bk_ids ?t) (bk_transactions ?t)"
    using minted_mono [OF bank_okD(1) [OF ok], of "Suc (bk_ids s)"] minted_mono [OF bank_okD(3) [OF ok], of "Suc (bk_ids s)"] by simp_all
  show "tx_ok ?t (snd e)" if "e \<in> set (bk_transactions ?t)" for e using bank_okD(9) [OF ok] that by (simp add: tx_ok_def)
  show "ac_held a = pending_on ?t n" if "map_of (bk_accounts ?t) n = Some a" for n a using bank_okD(6) [OF ok] that by (simp add: sums)
  show "withdrawn_on ?t key = drawn_on ?t key" for key using bank_okD(7) [OF ok] by (simp add: sums)
  show "withdrawn_on ?t (Some cn, day) \<le> max 0 (cd_daily_limit c)" if "map_of (bk_cards s) cn = Some c" for cn c day
    using bank_okD(8) [OF ok that] unfolding sums .
qed simp

lemma open_account_ok: "bank_ok s \<Longrightarrow> bank_ok (fst (open_account s customer ty initial limit))"
  using new_account_ok [of s] ids_ok_step [of s] by (auto simp: open_account_eq Let_def split: or_raise_split)

text \<open>A card is added, or one of its fields other than the limit changes.\<close>

lemma put_card_ok:
  assumes ok: "bank_ok s" and c: "card_ok s c" and lim: "\<And>day. withdrawn_on s (Some cn, day) \<le> max 0 (cd_daily_limit c)"
    and m: "minted (\<lambda>m. ''CARD'' @ digits4 m) k (AList.update cn c (bk_cards s))" "bk_ids s \<le> k"
  shows "bank_ok (s\<lparr>bk_ids := k, bk_cards := AList.update cn c (bk_cards s)\<rparr>)" (is "bank_ok ?t")
proof -
  have txs: "tx_ok ?t x" if "tx_ok s x" for x using that by (auto simp: tx_ok_def update_conv')
  have cards: "card_ok ?t c = card_ok s c" for c by (simp add: card_ok_def)
  have sums: "tx_sum f ?t = tx_sum f s" "withdrawn_on ?t key = withdrawn_on s key" for f key by (simp_all add: tx_sum_def withdrawn_on_def)
  show ?thesis unfolding bank_ok_def sums
  proof (intro conjI allI impI ballI)
    show "minted (\<lambda>m. ''AC'' @ digits4 m) (bk_ids ?t) (bk_accounts ?t)" "minted tx_name (bk_ids ?t) (bk_transactions ?t)"
      using minted_mono [OF bank_okD(1) [OF ok] m(2)] minted_mono [OF bank_okD(3) [OF ok] m(2)] by simp_all
    show "minted (\<lambda>m. ''CARD'' @ digits4 m) (bk_ids ?t) (bk_cards ?t)" using m(1) by simp
    fix e assume "e \<in> set (bk_cards ?t)"
    then have "e = (cn, c) \<or> e \<in> set (bk_cards s)" using AList_update_elem [of e cn c "bk_cards s"] by simp
    then show "card_ok ?t (snd e)" using c bank_okD(10) [OF ok] unfolding cards by (metis snd_conv)
  next
    fix cn' c' day assume "map_of (bk_cards ?t) cn' = Some c'"
    then show "withdrawn_on s (Some cn', day) \<le> max 0 (cd_daily_limit c')"
      using lim [of day] bank_okD(8) [OF ok] by (auto simp: update_conv' split: if_splits)
  qed (use txs bank_okD(6-9) [OF ok] in auto)
qed

lemma issue_card_ok:
  assumes ok: "bank_ok s"
  shows "bank_ok (fst (issue_card pbkdf s acct pin limit years salt today))"
proof -
  let ?cn = "''CARD'' @ digits4 (bk_ids s)"
  have "bank_ok (s\<lparr>bk_ids := Suc (bk_ids s), bk_cards := AList.update ?cn (new_card pbkdf (ac_customer a) acct pin expiry l salt) (bk_cards s)\<rparr>)"
    if a: "map_of (bk_accounts s) acct = Some a" for a expiry l
  proof (rule put_card_ok [OF ok])
    show "card_ok s (new_card pbkdf (ac_customer a) acct pin expiry l salt)"
      using a by (simp add: card_ok_def new_card_def MAX_PIN_ATTEMPTS_def)
    show "minted (\<lambda>m. ''CARD'' @ digits4 m) (Suc (bk_ids s)) (AList.update ?cn (new_card pbkdf (ac_customer a) acct pin expiry l salt) (bk_cards s))"
      by (rule minted_add [OF bank_okD(2) [OF ok] inj_names order_refl])
    have "map_of (bk_cards s) ?cn = None" using minted_fresh [OF bank_okD(2) [OF ok] inj_names order_refl] by (simp add: map_of_eq_None_iff)
    then show "withdrawn_on s (Some ?cn, day) \<le> max 0 (cd_daily_limit (new_card pbkdf (ac_customer a) acct pin expiry l salt))" for day
      using drawn_zero [OF ok] bank_okD(7) [OF ok] by simp
  qed simp
  then show ?thesis using ok ids_ok_step [OF ok] by (auto simp: issue_card_def next_id_def Let_def split: or_raise_split)
qed

lemma card_verify_pin_ok: "card_ok s c \<Longrightarrow> card_ok s (fst (card_verify_pin pbkdf c pin))"
  by (auto simp: card_ok_def card_verify_pin_def MAX_PIN_ATTEMPTS_def Let_def)

lemma card_verify_pin_limit [simp]: "cd_daily_limit (fst (card_verify_pin pbkdf c pin)) = cd_daily_limit c"
  by (simp add: card_verify_pin_def Let_def)

lemma verify_pin_ok:
  assumes ok: "bank_ok s"
  shows "bank_ok (fst (verify_pin pbkdf s cn pin today))"
proof (cases "validate_card s cn today")
  case (Inr c)
  then have c: "map_of (bk_cards s) cn = Some c" using validate_card_Inr by blast
  have "bank_ok (s\<lparr>bk_ids := bk_ids s, bk_cards := AList.update cn (fst (card_verify_pin pbkdf c pin)) (bk_cards s)\<rparr>)"
  proof (rule put_card_ok [OF ok])
    show "card_ok s (fst (card_verify_pin pbkdf c pin))" by (rule card_verify_pin_ok [OF bank_okD(5) [OF ok c]])
    show "minted (\<lambda>m. ''CARD'' @ digits4 m) (bk_ids s) (AList.update cn (fst (card_verify_pin pbkdf c pin)) (bk_cards s))"
      using map_of_SomeD [OF c] by (intro minted_update [OF bank_okD(2) [OF ok]]) force
  qed (use bank_okD(8) [OF ok c] in auto)
  then show ?thesis using Inr by (simp add: verify_pin_def split_def)
qed (use ok in \<open>simp add: verify_pin_def\<close>)

text \<open>The two readings of the clock that key a withdrawal fall on the same day.\<close>

fun same_day :: "bank_op \<Rightarrow> bool" where
  "same_day (Authorize cn acct amount rid now1 now2 now3) = (now2 = now3)"
| "same_day op = True"

lemma bank_step_ok: "bank_ok s \<Longrightarrow> same_day op \<Longrightarrow> bank_ok (fst (bank_step pbkdf s op))"
  by (cases op) (simp_all add: open_account_ok issue_card_ok verify_pin_ok authorize_ok capture_ok reverse_ok deposit_ok transfer_ok)

lemma new_bank_ok: "bank_ok new_bank"
  by (simp add: bank_ok_def new_bank_def tx_sum_def withdrawn_on_def)

lemma bank_run_ok: "bank_ok s \<Longrightarrow> list_all same_day ops \<Longrightarrow> bank_ok (run_ops (bank_step pbkdf) s ops)"
  by (induction ops arbitrary: s) (simp_all add: bank_step_ok)

section \<open>The history of an account\<close>

fun floor_of :: "account_kind \<Rightarrow> rat" where
  "floor_of (SavingsAccount m) = m"
| "floor_of (CheckingAccount l) = - l"
| "floor_of (CreditAccount l) = - l"

definition free_funds :: "account \<Rightarrow> rat" where
  "free_funds a = ac_balance a - ac_held a"

lemma withdrawable_floor: "0 < v \<Longrightarrow> v \<le> withdrawable a \<Longrightarrow> floor_of (ac_kind a) \<le> free_funds a - v"
  by (cases "ac_kind a") (auto simp: withdrawable_def free_funds_def max_def split: if_splits)

text \<open>An account goes from \<open>a\<close> to \<open>b\<close> while its completed transactions change from \<open>p\<close> to \<open>q\<close>.\<close>

definition account_moves :: "account \<Rightarrow> rat \<Rightarrow> account \<Rightarrow> rat \<Rightarrow> bool" where
  "account_moves a p b q \<longleftrightarrow> ac_kind b = ac_kind a \<and> ac_customer b = ac_customer a \<and> ac_balance b - q = ac_balance a - p
     \<and> min (free_funds a) (floor_of (ac_kind a)) \<le> free_funds b"

definition books_kept :: "bank \<Rightarrow> bank \<Rightarrow> bool" where
  "books_kept s t \<longleftrightarrow> (\<forall>n a. map_of (bk_accounts s) n = Some a \<longrightarrow>
     (\<exists>b. map_of (bk_accounts t) n = Some b \<and> account_moves a (booked_on s n) b (booked_on t n)))"

lemma account_moves_trans: "account_moves a p b q \<Longrightarrow> account_moves b q c r \<Longrightarrow> account_moves a p c r"
  by (auto simp: account_moves_def min_def split: if_splits)

lemma account_moves_refl [simp]: "account_moves a p a p"
  by (simp add: account_moves_def)

lemma books_kept_trans: "books_kept s t \<Longrightarrow> books_kept t u \<Longrightarrow> books_kept s u"
  unfolding books_kept_def by (meson account_moves_trans)

lemma books_kept_frame: "bk_accounts t = bk_accounts s \<Longrightarrow> bk_transactions t = bk_transactions s \<Longrightarrow> books_kept s t"
  by (simp add: books_kept_def tx_sum_def)

lemma books_kept_requests: "books_kept s t \<Longrightarrow> books_kept s (t\<lparr>bk_requests := r\<rparr>)"
  by (simp add: books_kept_def tx_sum_def)

lemma record_kept:
  assumes ok: "bank_ok s" and a: "map_of (bk_accounts s) n = Some a" and x: "tx_account x = n"
    and b: "account_moves a 0 b (booked_part n x)" and t: "bk_accounts t = bk_accounts s" "bk_transactions t = bk_transactions s" "bk_ids t = bk_ids s"
  shows "books_kept s (fst (record_tx (put_account t n b) x))" (is "books_kept s ?u")
proof -
  have sums: "booked_on ?u m = booked_on s m + booked_part m x" for m
    using tx_sum_record [of "put_account t n b" "booked_part m" x] bank_okD(3) [OF ok] t tx_sum_frame [OF t(2)] by simp
  have other: "booked_part m x = 0" if "m \<noteq> n" for m using that x by (simp add: booked_part_def)
  have "\<exists>c. map_of (bk_accounts ?u) m = Some c \<and> account_moves d (booked_on s m) c (booked_on ?u m)"
    if "map_of (bk_accounts s) m = Some d" for m d
    using that a b t other [of m] sums [of m] by (cases "m = n") (auto simp: account_moves_def)
  then show ?thesis unfolding books_kept_def by blast
qed

lemma settle_kept:
  assumes ok: "bank_ok s" and x: "map_of (bk_transactions s) tid = Some x" "tx_status x = PENDING"
    and a: "map_of (bk_accounts s) (tx_account x) = Some a" and b: "account_moves a 0 b (booked_part (tx_account x) (x\<lparr>tx_status := st\<rparr>))"
    and t: "bk_accounts t = bk_accounts s" "bk_transactions t = bk_transactions s"
  shows "books_kept s (put_account (put_transaction t tid (x\<lparr>tx_status := st\<rparr>)) (tx_account x) b)" (is "books_kept s ?u")
proof -
  have sums: "booked_on ?u m = booked_on s m + booked_part m (x\<lparr>tx_status := st\<rparr>)" for m
    using tx_sum_put [of "bk_ids s" t tid x "booked_part m" "x\<lparr>tx_status := st\<rparr>"] bank_okD(3) [OF ok] x t tx_sum_frame [OF t(2)]
    by (simp add: booked_part_def)
  have other: "booked_part m (x\<lparr>tx_status := st\<rparr>) = 0" if "m \<noteq> tx_account x" for m using that by (simp add: booked_part_def)
  have "\<exists>c. map_of (bk_accounts ?u) m = Some c \<and> account_moves d (booked_on s m) c (booked_on ?u m)"
    if "map_of (bk_accounts s) m = Some d" for m d
    using that a b t other [of m] sums [of m] by (cases "m = tx_account x") (auto simp: account_moves_def)
  then show ?thesis unfolding books_kept_def by blast
qed

lemma place_hold_kept:
  assumes ok: "bank_ok s" and v: "0 < value"
  shows "books_kept s (fst (place_hold cn acct value rid now1 now2 now3 s))"
proof (cases rule: place_hold_cases [OF v, of cn acct rid now1 now2 now3 s, case_names error held])
  case (error s1 e)
  then show ?thesis by (auto simp: same_books_def intro: books_kept_frame)
next
  case (held c a)
  show ?thesis unfolding held(6) fst_conv
    by (rule record_kept [OF ok held(2)])
      (use withdrawable_floor [OF v held(5)] in \<open>auto simp: account_moves_def booked_part_def free_funds_def min_def\<close>)
qed

lemma capture_kept:
  assumes ok: "bank_ok s"
  shows "books_kept s (fst (capture s tid))"
proof -
  have "books_kept s (put_account (put_transaction s tid (x\<lparr>tx_status := COMPLETED\<rparr>)) (tx_account x) (capture_hold (tx_amount x) a))"
    if x: "map_of (bk_transactions s) tid = Some x" "tx_status x = PENDING" and a: "map_of (bk_accounts s) (tx_account x) = Some a" for x a
    by (rule settle_kept [OF ok x a])
      (use bank_okD(4) [OF ok x(1)] x(2) in \<open>auto simp: account_moves_def booked_part_def free_funds_def tx_ok_def\<close>)
  then show ?thesis by (auto simp: capture_def move_to_Inr books_kept_frame split: or_raise_split)
qed

lemma reverse_kept:
  assumes ok: "bank_ok s"
  shows "books_kept s (fst (reverse s tid))"
proof (cases "\<exists>x a. map_of (bk_transactions s) tid = Some x \<and> map_of (bk_accounts s) (tx_account x) = Some a \<and> tx_status x = PENDING")
  case True
  then obtain x a where x: "map_of (bk_transactions s) tid = Some x" "map_of (bk_accounts s) (tx_account x) = Some a" "tx_status x = PENDING" by blast
  show ?thesis unfolding reverse_eq [OF x] fst_conv
    by (rule settle_kept [OF ok x(1,3,2)])
      (use bank_okD(4) [OF ok x(1)] in \<open>auto simp: account_moves_def booked_part_def free_funds_def tx_ok_def min_def\<close>)
next
  case False
  then have "fst (reverse s tid) = s" by (auto simp: reverse_def move_to_Inr split: or_raise_split)
  then show ?thesis by (simp add: books_kept_frame)
qed

lemma do_deposit_kept:
  assumes ok: "bank_ok s" and v: "0 < value"
  shows "books_kept s (fst (do_deposit acct value rid now s))"
proof (cases "map_of (bk_accounts s) acct")
  case None
  then show ?thesis by (simp add: do_deposit_def get_account_def books_kept_frame)
next
  case (Some a)
  then show ?thesis using v
    by (simp add: do_deposit_def get_account_def split_def)
      (rule record_kept [OF ok Some]; simp add: account_moves_def booked_part_def free_funds_def min_def)
qed

lemma do_transfer_kept:
  assumes ok: "bank_ok s" and v: "0 < value" and ne: "src \<noteq> dst"
  shows "books_kept s (fst (do_transfer src dst value rid now1 now2 s))"
proof (cases "\<exists>a b. map_of (bk_accounts s) src = Some a \<and> map_of (bk_accounts s) dst = Some b \<and> value \<le> withdrawable a")
  case True
  then obtain a b where ab: "map_of (bk_accounts s) src = Some a" "map_of (bk_accounts s) dst = Some b" "value \<le> withdrawable a" by blast
  let ?s2 = "fst (record_tx (put_account s src (a\<lparr>ac_balance := ac_balance a - value\<rparr>)) \<lparr>tx_request = rid, tx_account = src,
     tx_type = TRANSFER_OUT, tx_amount = value, tx_status = COMPLETED, tx_date = now1, tx_card = None, tx_counterparty = Some dst\<rparr>)"
  have s2: "bank_ok ?s2"
    by (rule record_ok [OF ok ab(1)]) (use v ab(1) bank_okD(8) [OF ok] in \<open>auto simp: parts tx_ok_def\<close>)
  have k: "books_kept s ?s2"
    by (rule record_kept [OF ok ab(1)])
      (use withdrawable_floor [OF v ab(3)] in \<open>auto simp: account_moves_def booked_part_def free_funds_def min_def\<close>)
  have b: "map_of (bk_accounts ?s2) dst = Some b" using ab(2) ne by simp
  have "books_kept ?s2 (fst (record_tx (put_account ?s2 dst (credit value b)) \<lparr>tx_request = rid, tx_account = dst, tx_type = TRANSFER_IN,
      tx_amount = value, tx_status = COMPLETED, tx_date = now2, tx_card = None, tx_counterparty = Some src\<rparr>))"
    by (rule record_kept [OF s2 b]) (use v in \<open>auto simp: account_moves_def booked_part_def free_funds_def min_def\<close>)
  then show ?thesis using books_kept_trans [OF k] unfolding do_transfer_eq [OF ab ne] Let_def by simp
next
  case False
  then have "fst (do_transfer src dst value rid now1 now2 s) = s"
    by (auto simp: do_transfer_def debit_Inr split: or_raise_split)
  then show ?thesis by (simp add: books_kept_frame)
qed

lemma idempotent_kept: "books_kept s (fst (run s)) \<Longrightarrow> books_kept s (fst (idempotent s rid fp run))"
  by (auto simp: idempotent_def books_kept_frame books_kept_requests split: option.splits prod.splits sum.splits)

lemma bank_step_kept:
  assumes ok: "bank_ok s"
  shows "books_kept s (fst (bank_step pbkdf s op))"
proof (cases op)
  case (OpenAccount customer ty initial limit)
  then show ?thesis using fresh_account [OF ok]
    by (auto simp: open_account_eq Let_def books_kept_frame books_kept_def tx_sum_def split: or_raise_split)
next
  case (IssueCard acct pin limit years salt today)
  then show ?thesis by (auto simp: issue_card_def next_id_def Let_def books_kept_frame split: or_raise_split)
next
  case (VerifyPin cn pin today)
  then show ?thesis by (auto simp: verify_pin_def books_kept_frame split: or_raise_split prod.splits)
next
  case (Authorize cn acct amount rid now1 now2 now3)
  then show ?thesis by (auto simp: authorize_withdrawal_def books_kept_frame split: or_raise_split intro!: idempotent_kept place_hold_kept [OF ok] dest: positive_money_Inr)
next
  case (Deposit acct amount rid now)
  then show ?thesis by (auto simp: deposit_def books_kept_frame split: or_raise_split intro!: idempotent_kept do_deposit_kept [OF ok] dest: positive_money_Inr)
next
  case (Transfer src dst amount rid now1 now2)
  then show ?thesis by (auto simp: transfer_def books_kept_frame split: or_raise_split intro!: idempotent_kept do_transfer_kept [OF ok] dest: positive_money_Inr)
qed (simp_all add: capture_kept [OF ok] reverse_kept [OF ok])

lemma keeps_dom: "keeps s t \<Longrightarrow> map_of (bk_accounts t) n = None \<longleftrightarrow> map_of (bk_accounts s) n = None"
  unfolding keeps_def by (drule conjunct2, drule spec [of _ n]) (auto simp: map_option_case split: option.splits)

lemma idempotent_accounts:
  "map_of (bk_accounts s) n = None \<Longrightarrow> map_of (bk_accounts (fst (run s))) n = None \<Longrightarrow> map_of (bk_accounts (fst (idempotent s rid fp run))) n = None"
  by (auto simp: idempotent_def split: option.splits prod.splits sum.splits)

text \<open>Only \<open>open_account\<close> adds an account.\<close>

lemma bank_step_new:
  assumes "map_of (bk_accounts (fst (bank_step pbkdf s op))) n = Some a" "map_of (bk_accounts s) n = None"
  shows "\<exists>customer ty v limit. op = OpenAccount customer ty (Number v) limit \<and> a = make_account customer ty v limit \<and> n = ''AC'' @ digits4 (bk_ids s)"
proof (cases op)
  case (OpenAccount customer ty initial limit)
  then show ?thesis using assms by (cases initial) (auto simp: open_account_eq Let_def split: or_raise_splits if_splits)
next
  case (Authorize cn acct amount rid now1 now2 now3)
  have "map_of (bk_accounts (fst (place_hold cn acct v rid now1 now2 now3 s))) n = None" if "0 < v" for v
    by (cases rule: place_hold_cases [OF that, of cn acct rid now1 now2 now3 s, case_names error held])
      (use assms(2) in \<open>auto simp: same_books_def\<close>)
  then have "map_of (bk_accounts (fst (bank_step pbkdf s op))) n = None" using Authorize assms(2)
    by (auto simp: authorize_withdrawal_def intro: idempotent_accounts dest: positive_money_Inr split: or_raise_split)
  then show ?thesis using assms(1) by simp
next
  case (Capture tid)
  then show ?thesis using assms by (auto simp: capture_def split: or_raise_splits if_splits)
next
  case (Reverse tid)
  then show ?thesis using assms by (auto simp: reverse_def Let_def reserve_daily_Inr split: or_raise_splits if_splits)
next
  case (Deposit acct amount rid now)
  have "map_of (bk_accounts (fst (do_deposit acct v rid now s))) n = None" for v
    using assms(2) by (auto simp: do_deposit_def split_def split: or_raise_split)
  then have "map_of (bk_accounts (fst (bank_step pbkdf s op))) n = None" using Deposit assms(2)
    by (auto simp: deposit_def intro: idempotent_accounts split: or_raise_split)
  then show ?thesis using assms(1) by simp
next
  case (Transfer src dst amount rid now1 now2)
  have "map_of (bk_accounts (fst (do_transfer src dst v rid now1 now2 s))) n = None" for v
    using assms(2) by (auto simp: do_transfer_def Let_def split_def split: or_raise_split)
  then have "map_of (bk_accounts (fst (bank_step pbkdf s op))) n = None" using Transfer assms(2)
    by (auto simp: transfer_def intro: idempotent_accounts split: or_raise_split)
  then show ?thesis using assms(1) by simp
qed (use assms in \<open>auto simp: issue_card_def next_id_def Let_def verify_pin_def split: or_raise_splits prod.splits\<close>)

text \<open>The call that opened an account is the one that returned its number.\<close>

definition opened_by :: "(string \<Rightarrow> string \<Rightarrow> string) \<Rightarrow> bank_op list \<Rightarrow> string \<Rightarrow> string \<Rightarrow> AccountType \<Rightarrow> rat \<Rightarrow> rat option \<Rightarrow> bool" where
  "opened_by pbkdf ops n customer ty v limit \<longleftrightarrow> (\<exists>pre post. ops = pre @ OpenAccount customer ty (Number v) limit # post
     \<and> snd (open_account (run_ops (bank_step pbkdf) new_bank pre) customer ty (Number v) limit) = Inr n)"

lemma opened_by_snoc: "opened_by pbkdf ops n customer ty v limit \<Longrightarrow> opened_by pbkdf (ops @ [op]) n customer ty v limit"
  unfolding opened_by_def by (metis append_Cons append_assoc)

lemma opened_by_mem: "opened_by pbkdf ops n customer ty v limit \<Longrightarrow> OpenAccount customer ty (Number v) limit \<in> set ops"
  by (auto simp: opened_by_def)

lemma account_history:
  assumes "list_all same_day ops" "map_of (bk_accounts (run_ops (bank_step pbkdf) new_bank ops)) n = Some a"
  shows "\<exists>customer ty v limit. opened_by pbkdf ops n customer ty v limit
    \<and> account_moves (make_account customer ty v limit) 0 a (booked_on (run_ops (bank_step pbkdf) new_bank ops) n)"
  using assms
proof (induction ops arbitrary: a rule: rev_induct)
  case Nil
  then show ?case by (simp add: new_bank_def)
next
  case (snoc op ops)
  let ?s = "run_ops (bank_step pbkdf) new_bank ops"
  have ok: "bank_ok ?s" using snoc.prems(1) by (intro bank_run_ok new_bank_ok) simp
  have t: "run_ops (bank_step pbkdf) new_bank (ops @ [op]) = fst (bank_step pbkdf ?s op)" by (simp add: run_ops_append)
  show ?case
  proof (cases "map_of (bk_accounts ?s) n")
    case None
    then obtain customer ty v limit where op: "op = OpenAccount customer ty (Number v) limit" "a = make_account customer ty v limit" "n = ''AC'' @ digits4 (bk_ids ?s)"
      using bank_step_new [OF snoc.prems(2) [unfolded t] None] by blast
    have "booked_on (fst (bank_step pbkdf ?s op)) n = 0"
      using fresh_bank_sums(2) [OF ok] op by (simp add: open_account_eq Let_def tx_sum_def split: or_raise_split)
    moreover have "snd (open_account ?s customer ty (Number v) limit) = Inr n"
      using snoc.prems(2) [unfolded t, unfolded op(1)] None op(3) by (auto simp: open_account_eq Let_def split: or_raise_splits if_splits)
    then have "opened_by pbkdf (ops @ [op]) n customer ty v limit" unfolding opened_by_def op(1) by blast
    ultimately show ?thesis using op(2) unfolding t by (metis account_moves_refl)
  next
    case (Some b)
    then obtain c where "map_of (bk_accounts (fst (bank_step pbkdf ?s op))) n = Some c"
        and m: "account_moves b (booked_on ?s n) c (booked_on (fst (bank_step pbkdf ?s op)) n)"
      using bank_step_kept [OF ok, of pbkdf op] unfolding books_kept_def by blast
    then have "c = a" using snoc.prems(2) t by simp
    moreover obtain customer ty v limit where "opened_by pbkdf ops n customer ty v limit"
        "account_moves (make_account customer ty v limit) 0 b (booked_on ?s n)"
      using snoc.IH [OF _ Some] snoc.prems(1) by auto
    ultimately show ?thesis using account_moves_trans [OF _ m] opened_by_snoc unfolding t by metis
  qed
qed

section \<open>Requests\<close>

fun request_id :: "bank_op \<Rightarrow> string option" where
  "request_id (Authorize cn acct amount rid now1 now2 now3) = Some rid"
| "request_id (Deposit acct amount rid now) = Some rid"
| "request_id (Transfer src dst amount rid now1 now2) = Some rid"
| "request_id op = None"

text \<open>The same call, perhaps at another time.\<close>

fun same_request :: "bank_op \<Rightarrow> bank_op \<Rightarrow> bool" where
  "same_request (Authorize cn acct amount rid now1 now2 now3) op' = (\<exists>m1 m2 m3. op' = Authorize cn acct amount rid m1 m2 m3)"
| "same_request (Deposit acct amount rid now) op' = (\<exists>m. op' = Deposit acct amount rid m)"
| "same_request (Transfer src dst amount rid now1 now2) op' = (\<exists>m1 m2. op' = Transfer src dst amount rid m1 m2)"
| "same_request op op' = False"

lemma idempotent_requests:
  assumes "bk_requests (fst (run s)) = bk_requests s"
  shows "map_of (bk_requests s) r = Some x \<Longrightarrow> map_of (bk_requests (fst (idempotent s rid fp run))) r = Some x"
    "idempotent s rid fp run = (s1, Inr tids) \<Longrightarrow> map_of (bk_requests s1) rid = Some (fp, tids)"
  using assms by (auto simp: idempotent_def update_conv' split: option.splits prod.splits sum.splits if_splits)

lemma runs_requests:
  "0 < value \<Longrightarrow> bk_requests (fst (place_hold cn acct value rid now1 now2 now3 s)) = bk_requests s"
  "bk_requests (fst (do_deposit acct value rid now s)) = bk_requests s"
  "bk_requests (fst (do_transfer src dst value rid now1 now2 s)) = bk_requests s"
proof -
  assume "0 < value"
  then show "bk_requests (fst (place_hold cn acct value rid now1 now2 now3 s)) = bk_requests s"
    by (cases rule: place_hold_cases [of "value" cn acct rid now1 now2 now3 s, case_names v error held]) simp_all
qed (auto simp: do_deposit_def do_transfer_def Let_def split_def split: or_raise_split)

lemma step_requests: "map_of (bk_requests s) r = Some x \<Longrightarrow> map_of (bk_requests (fst (bank_step pbkdf s op))) r = Some x"
  by (cases op)
    (auto simp: open_account_eq issue_card_def next_id_def verify_pin_def capture_def reverse_def reserve_daily_Inr Let_def split_def authorize_withdrawal_def
      deposit_def transfer_def split: or_raise_split intro!: idempotent_requests(1) runs_requests dest: positive_money_Inr)

lemma run_requests: "map_of (bk_requests s) r = Some x \<Longrightarrow> map_of (bk_requests (run_ops (bank_step pbkdf) s ops)) r = Some x"
  by (induction ops arbitrary: s) (simp_all add: step_requests)

section \<open>Properties\<close>

definition sample_day :: date where
  "sample_day = (2025, 6, 1)"

definition sample_hash :: "string \<Rightarrow> string \<Rightarrow> string" where
  "sample_hash salt pin = salt @ pin"

definition sample_ops :: "bank_op list" where
  "sample_ops = [OpenAccount ''CUST1'' SAVINGS (Number 5000) None, OpenAccount ''CUST1'' CHECKING (Number 2000) None,
     IssueCard ''AC0001'' ''1234'' (Number 3000) 5 ''salt'' sample_day,
     Authorize ''CARD0003'' ''AC0001'' (Number 600) ''r1'' sample_day sample_day sample_day, Capture ''TX0004'',
     Authorize ''CARD0003'' ''AC0001'' (Number 50) ''r2'' sample_day sample_day sample_day,
     Transfer ''AC0001'' ''AC0002'' (Number 100) ''mobile-42'' sample_day sample_day]"

definition sample_bank :: bank where
  "sample_bank = run_ops (bank_step sample_hash) new_bank sample_ops"

lemma sample_same_day: "list_all same_day sample_ops"
  by (simp add: sample_ops_def)

lemma sample_account: "map_of (bk_accounts sample_bank) ''AC0001'' =
    Some \<lparr>ac_customer = ''CUST1'', ac_kind = SavingsAccount 500, ac_balance = 4300, ac_held = 50\<rparr>"
  by code_simp

text \<open>C11. After any calls (each withdrawal authorized within one day), the money held on an account is exactly what its
  pending withdrawals hold, and its balance is the deposit it was opened with plus what its completed transactions
  brought in and minus what they took out.\<close>

theorem bank_books_balance:
  assumes "list_all same_day ops" "map_of (bk_accounts (run_ops (bank_step pbkdf) new_bank ops)) n = Some a"
  shows "ac_held a = pending_on (run_ops (bank_step pbkdf) new_bank ops) n
    \<and> (\<exists>customer ty v limit. OpenAccount customer ty (Number v) limit \<in> set ops
         \<and> ac_kind a = ac_kind (make_account customer ty v limit) \<and> ac_customer a = customer
         \<and> ac_balance a = ac_balance (make_account customer ty v limit) + booked_on (run_ops (bank_step pbkdf) new_bank ops) n)"
proof -
  obtain customer ty v limit where "OpenAccount customer ty (Number v) limit \<in> set ops"
      and "account_moves (make_account customer ty v limit) 0 a (booked_on (run_ops (bank_step pbkdf) new_bank ops) n)"
    using account_history [OF assms] opened_by_mem by blast
  moreover have "ac_customer (make_account customer ty v limit) = customer" by (cases ty) simp_all
  ultimately have "ac_kind a = ac_kind (make_account customer ty v limit) \<and> ac_customer a = customer
      \<and> ac_balance a = ac_balance (make_account customer ty v limit) + booked_on (run_ops (bank_step pbkdf) new_bank ops) n"
    by (simp add: account_moves_def)
  then show ?thesis using bank_okD(6) [OF bank_run_ok [OF new_bank_ok assms(1)] assms(2)] \<open>OpenAccount _ _ _ _ \<in> set ops\<close> by blast
qed

theorem bank_books_balance_witness:
  "pending_on sample_bank ''AC0001'' = 50 \<and> booked_on sample_bank ''AC0001'' = - 700"
proof -
  have b: "map_of (bk_accounts (run_ops (bank_step sample_hash) new_bank sample_ops)) ''AC0001'' =
      Some \<lparr>ac_customer = ''CUST1'', ac_kind = SavingsAccount 500, ac_balance = 4300, ac_held = 50\<rparr>"
    using sample_account by (simp add: sample_bank_def)
  show ?thesis using bank_books_balance [OF sample_same_day b] by (auto simp: sample_ops_def sample_bank_def)
qed

text \<open>C12. After any calls (each withdrawal authorized within one day), every account was opened by the call that returned its number,
  keeps the kind and the customer it was opened with, and what may still leave it never drops below the floor of its kind (the minimum
  balance, the overdraft, the credit limit), or below its own opening deposit if that was lower; and on no day do the
  withdrawals of a card that were not reversed exceed its daily limit.\<close>

theorem limits_respected:
  assumes "list_all same_day ops"
  shows "(\<forall>n a. map_of (bk_accounts (run_ops (bank_step pbkdf) new_bank ops)) n = Some a \<longrightarrow> 0 \<le> ac_held a
      \<and> (\<exists>customer ty v limit. (\<exists>pre post. ops = pre @ OpenAccount customer ty (Number v) limit # post
             \<and> snd (open_account (run_ops (bank_step pbkdf) new_bank pre) customer ty (Number v) limit) = Inr n)
           \<and> ac_customer a = customer \<and> ac_kind a = ac_kind (make_account customer ty v limit)
           \<and> min (ac_balance (make_account customer ty v limit)) (floor_of (ac_kind a)) \<le> ac_balance a - ac_held a))
    \<and> (\<forall>cn c day. map_of (bk_cards (run_ops (bank_step pbkdf) new_bank ops)) cn = Some c \<longrightarrow>
         drawn_on (run_ops (bank_step pbkdf) new_bank ops) (Some cn, day) \<le> max 0 (cd_daily_limit c))"
proof -
  let ?s = "run_ops (bank_step pbkdf) new_bank ops"
  have ok: "bank_ok ?s" by (rule bank_run_ok [OF new_bank_ok assms])
  have "\<exists>customer ty v limit. (\<exists>pre post. ops = pre @ OpenAccount customer ty (Number v) limit # post
        \<and> snd (open_account (run_ops (bank_step pbkdf) new_bank pre) customer ty (Number v) limit) = Inr n)
      \<and> ac_customer a = customer \<and> ac_kind a = ac_kind (make_account customer ty v limit)
      \<and> min (ac_balance (make_account customer ty v limit)) (floor_of (ac_kind a)) \<le> ac_balance a - ac_held a"
    if a: "map_of (bk_accounts ?s) n = Some a" for n a
  proof -
    obtain customer ty v limit where o: "opened_by pbkdf ops n customer ty v limit"
        and m: "account_moves (make_account customer ty v limit) 0 a (booked_on ?s n)" using account_history [OF assms a] by blast
    have "ac_customer (make_account customer ty v limit) = customer" "ac_held (make_account customer ty v limit) = 0" by (cases ty; simp)+
    then have "ac_customer a = customer \<and> ac_kind a = ac_kind (make_account customer ty v limit)
        \<and> min (ac_balance (make_account customer ty v limit)) (floor_of (ac_kind a)) \<le> ac_balance a - ac_held a"
      using m by (simp add: account_moves_def free_funds_def)
    then show ?thesis using o unfolding opened_by_def by blast
  qed
  then show ?thesis using bank_okD(6,7,8) [OF ok] pending_nonneg [OF ok] by simp
qed

theorem limits_respected_witness:
  "drawn_on sample_bank (Some ''CARD0003'', sample_day) \<le> 3000"
proof -
  have "map_option cd_daily_limit (map_of (bk_cards sample_bank) ''CARD0003'') = Some 3000" by code_simp
  then show ?thesis using limits_respected [OF sample_same_day, of sample_hash] by (fastforce simp: sample_bank_def)
qed

text \<open>C13. A request id moves money at most once: after a call with a request id has succeeded, and whatever happened since,
  any call with the same id leaves the bank unchanged, and a retry with the same parameters returns the transactions of
  the first call.\<close>

theorem retry_moves_nothing:
  assumes "bank_step pbkdf s op = (s1, Inr tids)" "request_id op = Some r" "request_id op' = Some r"
  shows "fst (bank_step pbkdf (run_ops (bank_step pbkdf) s1 ops) op') = run_ops (bank_step pbkdf) s1 ops
    \<and> (same_request op op' \<longrightarrow> snd (bank_step pbkdf (run_ops (bank_step pbkdf) s1 ops) op') = Inr tids)"
proof -
  let ?t = "run_ops (bank_step pbkdf) s1 ops"
  have seen: "map_of (bk_requests ?t) rid = Some (fp, tids)" if "idempotent s rid fp run = (s1, Inr tids)" "bk_requests (fst (run s)) = bk_requests s" for rid fp run
    using run_requests [OF idempotent_requests(2) [OF that(2,1)]] .
  have again: "idempotent ?t rid fp' run' = (?t, if fp = fp' then Inr tids' else Inl IdempotencyError)"
    if "map_of (bk_requests ?t) rid = Some (fp, tids')" for rid fp fp' tids' run'
    using that by (auto simp: idempotent_def)
  have "\<exists>fp. map_of (bk_requests ?t) r = Some (fp, tids) \<and> (\<forall>op'. same_request op op' \<longrightarrow> snd (bank_step pbkdf ?t op') = Inr tids)"
  proof (cases op)
    case (Authorize cn acct amount rid now1 now2 now3)
    then obtain v where v: "positive_money amount = Inr v" "idempotent s r (Fp_withdraw cn acct v) (place_hold cn acct v r now1 now2 now3) = (s1, Inr tids)"
      using assms(1,2) by (auto simp: authorize_withdrawal_def or_raise_Inr)
    have "0 < v" using positive_money_Inr [OF v(1)] by simp
    then have "map_of (bk_requests ?t) r = Some (Fp_withdraw cn acct v, tids)" by (intro seen [OF v(2)] runs_requests(1))
    then show ?thesis using Authorize assms(2) v(1) by (auto simp: authorize_withdrawal_def again)
  next
    case (Deposit acct amount rid now)
    then obtain v where v: "positive_money amount = Inr v" "idempotent s r (Fp_deposit acct v) (do_deposit acct v r now) = (s1, Inr tids)"
      using assms(1,2) by (auto simp: deposit_def or_raise_Inr)
    then show ?thesis using Deposit assms(2) seen [OF v(2) runs_requests(2)] by (auto simp: deposit_def again)
  next
    case (Transfer src dst amount rid now1 now2)
    then obtain v where v: "positive_money amount = Inr v" "src \<noteq> dst"
        "idempotent s r (Fp_transfer src dst v) (do_transfer src dst v r now1 now2) = (s1, Inr tids)"
      using assms(1,2) by (auto simp: transfer_def or_raise_Inr split: if_splits)
    then show ?thesis using Transfer assms(2) seen [OF v(3) runs_requests(3)] by (auto simp: transfer_def again)
  qed (use assms(2) in simp_all)
  then show ?thesis using assms(3) by (cases op') (auto simp: authorize_withdrawal_def deposit_def transfer_def again split: or_raise_split)
qed

theorem retry_moves_nothing_witness:
  "let op = Transfer ''AC0001'' ''AC0002'' (Number 100) ''again'' sample_day sample_day
   in \<exists>t tids. bank_step sample_hash sample_bank op = (t, Inr tids) \<and> bank_step sample_hash t op = (t, Inr tids)"
proof -
  define op where "op = Transfer ''AC0001'' ''AC0002'' (Number 100) ''again'' sample_day sample_day"
  have "isl (snd (bank_step sample_hash sample_bank op)) = False" unfolding op_def by code_simp
  then obtain t tids where t: "bank_step sample_hash sample_bank op = (t, Inr tids)"
    by (cases "bank_step sample_hash sample_bank op"; cases "snd (bank_step sample_hash sample_bank op)") auto
  have "bank_step sample_hash t op = (t, Inr tids)"
    using retry_moves_nothing [OF t, of "''again''" op "[]"] by (cases "bank_step sample_hash t op") (simp add: op_def)
  then show ?thesis using t by (auto simp: op_def Let_def)
qed

text \<open>A card tried with a list of PINs.\<close>

definition try_pins :: "(string \<Rightarrow> string \<Rightarrow> string) \<Rightarrow> card \<Rightarrow> string list \<Rightarrow> card" where
  "try_pins pbkdf c pins = foldl (\<lambda>c pin. fst (card_verify_pin pbkdf c pin)) c pins"

definition wrong_pin :: "(string \<Rightarrow> string \<Rightarrow> string) \<Rightarrow> card \<Rightarrow> string \<Rightarrow> bool" where
  "wrong_pin pbkdf c pin \<longleftrightarrow> pbkdf (cd_salt c) pin \<noteq> cd_pin_hash c"

lemma try_pins_blocked: "cd_blocked c \<Longrightarrow> try_pins pbkdf c pins = c"
  by (induction pins) (simp_all add: try_pins_def card_verify_pin_def)

lemma prefix_fewer: "prefix (replicate (Suc n) x) xs \<Longrightarrow> prefix (replicate n x) xs"
  by (metis append_prefixD replicate_Suc replicate_append_same)

lemma try_pins_strikes:
  assumes "\<not> cd_blocked c" "0 \<le> cd_failed c" "cd_failed c < 3"
  shows "cd_blocked (try_pins pbkdf c pins) \<longleftrightarrow>
    prefix (replicate (nat (3 - cd_failed c)) True) (map (wrong_pin pbkdf c) pins) \<or> sublist (replicate 3 True) (map (wrong_pin pbkdf c) pins)"
  using assms
proof (induction pins arbitrary: c)
  case Nil
  then show ?case by (simp add: try_pins_def)
next
  case (Cons pin pins)
  let ?c = "fst (card_verify_pin pbkdf c pin)"
  have t: "try_pins pbkdf c (pin # pins) = try_pins pbkdf ?c pins" by (simp add: try_pins_def)
  have w: "wrong_pin pbkdf ?c = wrong_pin pbkdf c" by (auto simp: wrong_pin_def card_verify_pin_def Let_def fun_eq_iff)
  have sub: "prefix (replicate 3 True) xs \<Longrightarrow> sublist (replicate 3 True) xs" for xs by (rule prefix_imp_sublist)
  consider "wrong_pin pbkdf c pin" "cd_failed c = 2" | "wrong_pin pbkdf c pin" "cd_failed c = 0 \<or> cd_failed c = 1" | "\<not> wrong_pin pbkdf c pin"
    using Cons.prems by linarith
  then show ?case
  proof cases
    case 1
    then have "cd_blocked ?c" using Cons.prems by (simp add: wrong_pin_def card_verify_pin_def MAX_PIN_ATTEMPTS_def Let_def)
    then show ?thesis using 1 by (simp add: t try_pins_blocked)
  next
    case 2
    then have c: "\<not> cd_blocked ?c" "cd_failed ?c = cd_failed c + 1"
      using Cons.prems by (auto simp: wrong_pin_def card_verify_pin_def MAX_PIN_ATTEMPTS_def Let_def)
    moreover note prefix_fewer [of 1 True "map (wrong_pin pbkdf c) pins"] prefix_fewer [of 2 True "map (wrong_pin pbkdf c) pins"]
    ultimately show ?thesis using 2 Cons.IH [of ?c] by (auto simp: t w sublist_Cons_right numeral_3_eq_3 numeral_2_eq_2)
  next
    case 3
    then have c: "\<not> cd_blocked ?c" "cd_failed ?c = 0"
      using Cons.prems by (auto simp: wrong_pin_def card_verify_pin_def Let_def)
    obtain k where "nat (3 - cd_failed c) = Suc k" using Cons.prems by (cases "nat (3 - cd_failed c)") auto
    then show ?thesis using c 3 Cons.IH [of ?c] sub by (auto simp: t w sublist_Cons_right numeral_3_eq_3)
  qed
qed

text \<open>A new card is blocked by the PINs tried on it exactly when three wrong ones came in a row; the right PIN in between
  starts the count again, and a blocked card stays blocked.\<close>

theorem card_blocks_after_three:
  "cd_blocked (try_pins pbkdf (new_card pbkdf customer acct pin expiry limit salt) pins) \<longleftrightarrow>
     sublist [True, True, True] (map (\<lambda>p. pbkdf salt p \<noteq> pbkdf salt pin) pins)"
proof -
  let ?c = "new_card pbkdf customer acct pin expiry limit salt" and ?ws = "map (\<lambda>p. pbkdf salt p \<noteq> pbkdf salt pin) pins"
  have ws: "map (wrong_pin pbkdf ?c) pins = ?ws" by (simp add: wrong_pin_def new_card_def)
  have c: "\<not> cd_blocked ?c" "cd_failed ?c = 0" by (simp_all add: new_card_def)
  have "cd_blocked (try_pins pbkdf ?c pins) \<longleftrightarrow> prefix (replicate 3 True) ?ws \<or> sublist (replicate 3 True) ?ws"
    using try_pins_strikes [OF c(1), of pbkdf pins] c(2) ws by simp
  also have "\<dots> \<longleftrightarrow> sublist (replicate 3 True) ?ws" by (blast intro: prefix_imp_sublist)
  finally show ?thesis by (simp add: numeral_3_eq_3)
qed

text \<open>A withdrawal authorized over midnight: the daily total is charged to the day before, the transaction carries the day
  after, and reversing it credits the wrong day, which may then exceed the limit.\<close>

theorem midnight_reversal:
  "let s = run_ops (bank_step sample_hash) new_bank (take 3 sample_ops @
       [Authorize ''CARD0003'' ''AC0001'' (Number 600) ''r1'' (2025, 6, 1) (2025, 6, 1) (2025, 6, 2), Reverse ''TX0004''])
   in withdrawn_on s (Some ''CARD0003'', (2025, 6, 1)) = 600 \<and> withdrawn_on s (Some ''CARD0003'', (2025, 6, 2)) = - 600"
  by code_simp

end
