(* ===== verification/Cash_Dispenser.thy ===== *)
theory Cash_Dispenser
  imports Bank Change_Making
begin

text \<open>
  The cash dispenser of \<open>atm_banking.py\<close>: notes by denomination, the plan with the fewest notes by the dynamic program of
  \<open>Change_Making\<close> in units of the greatest common divisor, and the ejection, which the test double \<open>FlakyDispenser\<close> lets
  jam once. A \<open>CashDispenser\<close> is one whose \<open>jam_next\<close> is never set.
\<close>

record dispenser =
  ds_notes :: "(int \<times> int) list"
  ds_jam_next :: bool

definition notes_total :: "(int \<times> int) list \<Rightarrow> int" where
  "notes_total notes = sum_list (map (\<lambda>(d, n). d * n) notes)"

definition note_count :: "(int \<times> int) list \<Rightarrow> int \<Rightarrow> int" where
  "note_count notes d = (case map_of notes d of None \<Rightarrow> 0 | Some n \<Rightarrow> n)"

definition plan_notes :: "dispenser \<Rightarrow> int \<Rightarrow> bank_error + int purse" where
  "plan_notes s amount =
     (let loaded = filter (\<lambda>e. 0 < snd e) (ds_notes s)
      in if amount \<le> 0 \<or> loaded = [] then Inl DispenseError
         else (let unit = foldl gcd 0 (map fst loaded)
               in if unit = 0 then Inl (Raised ZeroDivisionError)
                  else if amount mod unit \<noteq> 0 then Inl DispenseError
                  else (let target = amount div unit;
                            best = change_dp (\<lambda>d. d div unit) (note_count loaded) target [(0, [])] (map fst (rev (sort loaded)))
                        in (case map_of best target of None \<Rightarrow> Inl DispenseError | Some p \<Rightarrow> Inr p))))"

text \<open>The hardware hook.\<close>

definition eject :: "dispenser \<Rightarrow> dispenser \<times> (bank_error + unit)" where
  "eject s = (if ds_jam_next s then (s\<lparr>ds_jam_next := False\<rparr>, Inl DispenseError) else (s, Inr ()))"

fun take_notes :: "(int \<times> int) list \<Rightarrow> int purse \<Rightarrow> (int \<times> int) list \<times> (bank_error + unit)" where
  "take_notes notes [] = (notes, Inr ())"
| "take_notes notes ((d, n) # p) =
     (case map_of notes d of
        None \<Rightarrow> (notes, Inl (Raised KeyError))
      | Some m \<Rightarrow> take_notes (AList.update d (m - n) notes) p)"

definition dispense :: "dispenser \<Rightarrow> int purse \<Rightarrow> dispenser \<times> (bank_error + int purse)" where
  "dispense s p =
     (if list_ex (\<lambda>(d, n). note_count (ds_notes s) d < n) p then (s, Inl DispenseError)
      else (case eject s of
              (s1, Inl e) \<Rightarrow> (s1, Inl e)
            | (s1, Inr u) \<Rightarrow>
                (case take_notes (ds_notes s1) p of
                   (notes, Inl e) \<Rightarrow> (s1\<lparr>ds_notes := notes\<rparr>, Inl e)
                 | (notes, Inr u) \<Rightarrow> (s1\<lparr>ds_notes := notes\<rparr>, Inr p))))"

definition load_notes :: "dispenser \<Rightarrow> (int \<times> int) list \<Rightarrow> dispenser" where
  "load_notes s added = s\<lparr>ds_notes := foldl (\<lambda>notes (d, n). AList.update d (note_count notes d + n) notes) (ds_notes s) added\<rparr>"

section \<open>The plan\<close>

definition dispenser_ok :: "dispenser \<Rightarrow> bool" where
  "dispenser_ok s \<longleftrightarrow> distinct (map fst (ds_notes s)) \<and> (\<forall>e \<in> set (ds_notes s). 0 < fst e)"

lemma foldl_gcd_dvd: "foldl gcd u ds dvd u \<and> (\<forall>d \<in> set ds. foldl gcd u ds dvd d)" for u :: int
proof (induction ds arbitrary: u)
  case (Cons d ds)
  have "foldl gcd (gcd u d) ds dvd gcd u d" using Cons by blast
  then show ?case using Cons [of "gcd u d"] by (auto intro: dvd_trans)
qed simp

lemma foldl_gcd_nonneg: "0 \<le> u \<Longrightarrow> 0 \<le> foldl gcd u ds" for u :: int
  by (induction ds arbitrary: u) simp_all

text \<open>In units: the dynamic program meets the interface of a change maker.\<close>

definition note_change :: "int list \<Rightarrow> int \<Rightarrow> int \<Rightarrow> (int \<Rightarrow> int) \<Rightarrow> int purse option" where
  "note_change ds u target av = map_of (change_dp (\<lambda>d. d div u) av target [(0, [])] ds) target"

lemma note_change_exact:
  assumes "distinct ds" "\<forall>d \<in> set ds. 0 < d div u"
  shows "exact_change (note_change ds u) (\<lambda>d. d div u) (set ds)"
proof
  fix amount :: int and av :: "int \<Rightarrow> int" and p
  assume "note_change ds u amount av = Some p"
  then show "payable av (set ds) p \<and> worth (\<lambda>d. d div u) p = amount"
    using change_dp_correct(1) [OF assms, of av amount] by (simp add: note_change_def sound_def)
next
  fix amount :: int and av c :: "int \<Rightarrow> int"
  assume c: "choice_ok av (set ds) c" "(\<Sum>d \<in> set ds. d div u * c d) = amount"
  have "0 \<le> (\<Sum>d \<in> set ds. c d)" using c(1) by (intro sum_nonneg) (auto simp: choice_ok_def)
  then show "\<exists>p. note_change ds u amount av = Some p \<and> coins p \<le> (\<Sum>d \<in> set ds. c d)"
    using change_dp_correct(2) [OF assms, of av amount] c by (auto simp: complete_def covers_def note_change_def)
qed simp

lemma note_count_filter:
  "distinct (map fst notes) \<Longrightarrow> note_count (filter (\<lambda>e. 0 < snd e) notes) d = max 0 (note_count notes d)"
  by (simp add: note_count_def map_of_filter_distinct split: option.split bind_split)

lemma note_count_mem: "distinct (map fst notes) \<Longrightarrow> (d, n) \<in> set notes \<Longrightarrow> note_count notes d = n"
  by (simp add: note_count_def)

lemma notes_total_sum:
  assumes "distinct (map fst p)" "fst ` set p \<subseteq> D" "finite D"
  shows "notes_total p = (\<Sum>d \<in> D. d * note_count p d)"
  using purse_sum [OF assms(3,1,2), of "\<lambda>d. d"] by (simp add: notes_total_def note_count_def purse_count_def)

text \<open>A choice of notes out of the dispenser: of each denomination none, or at most what is loaded.\<close>

definition cash_choice :: "dispenser \<Rightarrow> (int \<Rightarrow> int) \<Rightarrow> bool" where
  "cash_choice s c \<longleftrightarrow> choice_ok (note_count (ds_notes s)) (fst ` set (ds_notes s)) c"

definition choice_value :: "dispenser \<Rightarrow> (int \<Rightarrow> int) \<Rightarrow> int" where
  "choice_value s c = (\<Sum>d \<in> fst ` set (ds_notes s). d * c d)"

text \<open>The denominations that are really loaded carry every choice.\<close>

definition loaded_notes :: "dispenser \<Rightarrow> (int \<times> int) list" where
  "loaded_notes s = filter (\<lambda>e. 0 < snd e) (ds_notes s)"

definition note_unit :: "dispenser \<Rightarrow> int" where
  "note_unit s = foldl gcd 0 (map fst (loaded_notes s))"

lemma loaded_facts:
  assumes "dispenser_ok s"
  shows "distinct (map fst (loaded_notes s))" "fst ` set (loaded_notes s) \<subseteq> fst ` set (ds_notes s)"
    "\<And>d. d \<in> fst ` set (loaded_notes s) \<Longrightarrow> 0 < d" "\<And>d. note_count (loaded_notes s) d = max 0 (note_count (ds_notes s) d)"
    "\<And>d. d \<in> fst ` set (ds_notes s) \<Longrightarrow> d \<notin> fst ` set (loaded_notes s) \<Longrightarrow> note_count (ds_notes s) d \<le> 0"
    "\<And>d. d \<in> fst ` set (loaded_notes s) \<Longrightarrow> note_unit s dvd d" "0 \<le> note_unit s" "loaded_notes s \<noteq> [] \<Longrightarrow> 0 < note_unit s"
    "\<And>d. d \<in> fst ` set (loaded_notes s) \<Longrightarrow> 0 < d div note_unit s"
proof -
  have n: "distinct (map fst (ds_notes s))" using assms by (simp add: dispenser_ok_def)
  show 1: "distinct (map fst (loaded_notes s))" using n by (simp add: loaded_notes_def distinct_map_filter)
  show "fst ` set (loaded_notes s) \<subseteq> fst ` set (ds_notes s)" by (auto simp: loaded_notes_def)
  show pos: "0 < d" if "d \<in> fst ` set (loaded_notes s)" for d using that assms by (auto simp: loaded_notes_def dispenser_ok_def)
  show "note_count (loaded_notes s) d = max 0 (note_count (ds_notes s) d)" for d
    unfolding loaded_notes_def by (rule note_count_filter [OF n])
  show "note_count (ds_notes s) d \<le> 0" if "d \<in> fst ` set (ds_notes s)" "d \<notin> fst ` set (loaded_notes s)" for d
    using that note_count_mem [OF n] by (force simp: loaded_notes_def)
  show dvd: "note_unit s dvd d" if "d \<in> fst ` set (loaded_notes s)" for d
    using that foldl_gcd_dvd [of 0 "map fst (loaded_notes s)"] unfolding note_unit_def set_map by blast
  show nn: "0 \<le> note_unit s" unfolding note_unit_def by (rule foldl_gcd_nonneg) simp
  show u: "0 < note_unit s" if "loaded_notes s \<noteq> []"
  proof -
    have d: "fst (hd (loaded_notes s)) \<in> fst ` set (loaded_notes s)" using that by simp
    then show ?thesis using dvd [OF d] pos [OF d] nn by (cases "note_unit s = 0") auto
  qed
  show "0 < d div note_unit s" if "d \<in> fst ` set (loaded_notes s)" for d
  proof -
    have "loaded_notes s \<noteq> []" using that by auto
    then show ?thesis using dvd [OF that] pos [OF that] u by (auto simp: dvd_def zero_less_mult_iff)
  qed
qed

lemma choice_loaded:
  assumes ok: "dispenser_ok s" and c: "cash_choice s c"
  shows "choice_ok (note_count (loaded_notes s)) (fst ` set (loaded_notes s)) c"
    "choice_value s c = note_unit s * (\<Sum>d \<in> fst ` set (loaded_notes s). d div note_unit s * c d)"
    "(\<Sum>d \<in> fst ` set (ds_notes s). c d) = (\<Sum>d \<in> fst ` set (loaded_notes s). c d)"
proof -
  note l = loaded_facts [OF ok]
  have c': "0 \<le> c d" "0 < c d \<Longrightarrow> c d \<le> note_count (ds_notes s) d" if "d \<in> fst ` set (ds_notes s)" for d
    using c that by (auto simp: cash_choice_def choice_ok_def)
  have z: "c d = 0" if "d \<in> fst ` set (ds_notes s) - fst ` set (loaded_notes s)" for d
    using c' [of d] l(5) [of d] that by fastforce
  show "choice_ok (note_count (loaded_notes s)) (fst ` set (loaded_notes s)) c"
    unfolding choice_ok_def l(4) by (intro ballI conjI impI) (use c' subsetD [OF l(2)] in \<open>simp_all add: le_max_iff_disj\<close>)
  have fin: "finite (fst ` set (ds_notes s))" by simp
  show "(\<Sum>d \<in> fst ` set (ds_notes s). c d) = (\<Sum>d \<in> fst ` set (loaded_notes s). c d)"
    by (rule sum.mono_neutral_right [OF fin l(2)]) (use z in blast)
  have "choice_value s c = (\<Sum>d \<in> fst ` set (loaded_notes s). d * c d)"
    unfolding choice_value_def by (rule sum.mono_neutral_right [OF fin l(2)]) (use z in simp)
  also have "\<dots> = (\<Sum>d \<in> fst ` set (loaded_notes s). note_unit s * (d div note_unit s * c d))"
    using l(6) by (intro sum.cong refl) (metis dvd_mult_div_cancel mult.assoc)
  finally show "choice_value s c = note_unit s * (\<Sum>d \<in> fst ` set (loaded_notes s). d div note_unit s * c d)"
    by (simp add: sum_distrib_left)
qed

lemma payable_units:
  assumes ok: "dispenser_ok s" and p: "payable (note_count (loaded_notes s)) (fst ` set (loaded_notes s)) p"
  shows "payable (note_count (ds_notes s)) (fst ` set (ds_notes s)) p" "notes_total p = note_unit s * worth (\<lambda>d. d div note_unit s) p"
proof -
  note l = loaded_facts [OF ok]
  show "payable (note_count (ds_notes s)) (fst ` set (ds_notes s)) p" using p l(2) by (fastforce simp: payable_def l(4))
  have "d * n = note_unit s * (d div note_unit s * n)" if "(d, n) \<in> set p" for d n
    using that p l(6) [of d] by (fastforce simp: payable_def)
  then have "notes_total p = sum_list (map (\<lambda>x. note_unit s * (case x of (d, n) \<Rightarrow> d div note_unit s * n)) p)"
    unfolding notes_total_def by (intro arg_cong [where f = sum_list] map_cong) auto
  then show "notes_total p = note_unit s * worth (\<lambda>d. d div note_unit s) p"
    by (simp add: worth_def sum_list_const_mult)
qed

lemma plan_notes_eq:
  assumes ok: "dispenser_ok s" and pos: "0 < amount"
  shows "plan_notes s amount =
    (if loaded_notes s = [] \<or> amount mod note_unit s \<noteq> 0 then Inl DispenseError
     else (case note_change (map fst (rev (sort (loaded_notes s)))) (note_unit s) (amount div note_unit s) (note_count (loaded_notes s)) of
             None \<Rightarrow> Inl DispenseError | Some p \<Rightarrow> Inr p))"
  using loaded_facts(8) [OF ok] pos unfolding plan_notes_def loaded_notes_def [symmetric] note_unit_def [symmetric] note_change_def Let_def by auto

lemma plan_notes_correct:
  assumes ok: "dispenser_ok s" and pos: "0 < amount"
  shows "(\<forall>p. plan_notes s amount = Inr p \<longrightarrow> payable (note_count (ds_notes s)) (fst ` set (ds_notes s)) p \<and> notes_total p = amount
        \<and> (\<forall>c. cash_choice s c \<longrightarrow> choice_value s c = amount \<longrightarrow> coins p \<le> (\<Sum>d \<in> fst ` set (ds_notes s). c d)))
    \<and> (plan_notes s amount = Inl DispenseError \<longleftrightarrow> (\<forall>c. cash_choice s c \<longrightarrow> choice_value s c \<noteq> amount))
    \<and> (\<forall>e. plan_notes s amount = Inl e \<longrightarrow> e = DispenseError)"
proof -
  let ?u = "note_unit s" and ?ds = "map fst (rev (sort (loaded_notes s)))" and ?av = "note_count (loaded_notes s)"
  let ?D = "fst ` set (loaded_notes s)"
  let ?pay = "note_change ?ds ?u (amount div ?u) ?av"
  note l = loaded_facts [OF ok]
  have "mset ?ds = mset (map fst (loaded_notes s))" by (metis mset_map mset_rev mset_sort)
  then have ds: "distinct ?ds" "set ?ds = ?D" using l(1) by (metis mset_eq_imp_distinct_iff, metis mset_eq_setD set_map)
  have ex: "exact_change (note_change ?ds ?u) (\<lambda>d. d div ?u) ?D"
    using note_change_exact [OF ds(1), of ?u] l(9) unfolding ds(2) by blast
  have val: "choice_value s c = amount \<Longrightarrow> amount mod ?u = 0 \<and> (\<Sum>d \<in> ?D. d div ?u * c d) = amount div ?u" if "cash_choice s c" for c
    using choice_loaded(2) [OF ok that] pos by auto
  have empty: "choice_value s c \<noteq> amount" if "cash_choice s c" "loaded_notes s = []" for c
    using choice_loaded(2) [OF ok that(1)] that(2) pos by simp
  show ?thesis
  proof (cases "loaded_notes s = [] \<or> amount mod ?u \<noteq> 0")
    case True
    then show ?thesis using val empty by (auto simp: plan_notes_eq [OF ok pos])
  next
    case unit: False
    show ?thesis
  proof (cases ?pay)
    case None
    have "choice_value s c \<noteq> amount" if c: "cash_choice s c" for c
      using exact_change.pay_None_iff [OF ex, of "amount div ?u" ?av] None choice_loaded(1) [OF ok c] val [OF c] by blast
    then show ?thesis using None unit by (simp add: plan_notes_eq [OF ok pos])
  next
    case 3: (Some p)
    then have r: "plan_notes s amount = Inr p" using unit by (simp add: plan_notes_eq [OF ok pos])
    have p: "payable ?av ?D p" "worth (\<lambda>d. d div ?u) p = amount div ?u"
      using exact_change.pay_sound [OF ex, of "amount div ?u" ?av p] 3 by simp_all
    have tot: "notes_total p = amount" using payable_units(2) [OF ok p(1)] p(2) unit mult_div_mod_eq [of ?u amount] by simp
    have "coins p \<le> (\<Sum>d \<in> fst ` set (ds_notes s). c d)" if c: "cash_choice s c" "choice_value s c = amount" for c
    proof -
      have "(\<Sum>d \<in> ?D. d div ?u * c d) = amount div ?u" using val [OF c(1)] c(2) by blast
      then have "coins p \<le> (\<Sum>d \<in> ?D. c d)"
        using exact_change.pay_minimal [of "note_change ?ds ?u" "\<lambda>d. d div ?u" ?D "amount div ?u" ?av p c] ex 3 choice_loaded(1) [OF ok c(1)] by blast
      then show ?thesis unfolding choice_loaded(3) [OF ok c(1)] .
    qed
    moreover have "\<exists>c. cash_choice s c \<and> choice_value s c = amount"
    proof -
      note q = payable_units(1) [OF ok p(1)]
      have "payable (note_count (ds_notes s)) (fst ` set (ds_notes s)) p" "finite (fst ` set (ds_notes s))" using q by simp_all
      note pc = payable_count [OF this]
      have "notes_total p = worth (\<lambda>d. d) p" by (simp add: notes_total_def worth_def)
      then have "choice_value s (purse_count p) = amount" using pc(1) [of "\<lambda>d. d"] tot by (simp add: choice_value_def)
      then show ?thesis using pc(3) unfolding cash_choice_def by blast
    qed
    ultimately show ?thesis using r tot payable_units(1) [OF ok p(1)] by auto
  qed
  qed
qed

section \<open>Ejecting and loading\<close>

lemma note_count_update [simp]: "note_count (AList.update d n xs) e = (if e = d then n else note_count xs e)"
  by (simp add: note_count_def update_conv')

lemma notes_total_update:
  assumes "distinct (map fst xs)"
  shows "notes_total (AList.update d n xs) = notes_total xs + d * (n - note_count xs d)"
proof (cases "map_of xs d")
  case None
  then have "d \<notin> fst ` set xs" by (simp add: map_of_eq_None_iff)
  then show ?thesis using None by (simp add: AList_update_absent notes_total_def note_count_def)
next
  case (Some m)
  then show ?thesis using sum_list_update_key [OF assms Some, of "\<lambda>(d, n). d * n" n]
    by (simp add: notes_total_def note_count_def algebra_simps)
qed

lemma take_notes_correct:
  assumes "distinct (map fst xs)" "distinct (map fst p)" "\<forall>(d, n) \<in> set p. map_of xs d \<noteq> None"
  shows "\<exists>ys. take_notes xs p = (ys, Inr ()) \<and> notes_total ys = notes_total xs - notes_total p \<and> map fst ys = map fst xs
    \<and> (\<forall>d. note_count ys d = note_count xs d - purse_count p d)"
  using assms
proof (induction p arbitrary: xs)
  case Nil
  then show ?case by (simp add: notes_total_def purse_count_def)
next
  case (Cons e p)
  obtain d n where e: "e = (d, n)" by (cases e)
  then obtain m where m: "map_of xs d = Some m" using Cons.prems(3) by auto
  let ?xs = "AList.update d (m - n) xs"
  have keys: "map fst ?xs = map fst xs" using m by (induction xs) (auto split: if_splits)
  have "\<forall>(d', n') \<in> set p. map_of ?xs d' \<noteq> None" using Cons.prems(3) by (auto simp: update_conv')
  then obtain ys where ys: "take_notes ?xs p = (ys, Inr ())" "notes_total ys = notes_total ?xs - notes_total p" "map fst ys = map fst ?xs"
      "\<And>d. note_count ys d = note_count ?xs d - purse_count p d"
    using Cons.IH [of ?xs] Cons.prems keys e by auto
  have m': "note_count xs d = m" using m by (simp add: note_count_def)
  have "map_of p d = None" using Cons.prems(2) e by (simp add: map_of_eq_None_iff)
  then have z: "purse_count p d = 0" by (simp add: purse_count_def)
  have "notes_total ?xs = notes_total xs - d * n" using notes_total_update [OF Cons.prems(1), of d "m - n"] m' by (simp add: algebra_simps)
  moreover have "notes_total (e # p) = d * n + notes_total p" by (simp add: notes_total_def e)
  moreover have "note_count ys d' = note_count xs d' - purse_count (e # p) d'" for d'
    using ys(4) [of d'] z m' by (simp add: purse_count_Cons e)
  ultimately show ?case using ys m keys e by simp
qed

lemma dispense_correct:
  assumes ok: "dispenser_ok s" and p: "payable (note_count (ds_notes s)) (fst ` set (ds_notes s)) p"
  shows "if ds_jam_next s then dispense s p = (s\<lparr>ds_jam_next := False\<rparr>, Inl DispenseError)
    else \<exists>ys. dispense s p = (s\<lparr>ds_notes := ys\<rparr>, Inr p) \<and> notes_total ys = notes_total (ds_notes s) - notes_total p
      \<and> map fst ys = map fst (ds_notes s) \<and> (\<forall>d. note_count ys d = note_count (ds_notes s) d - purse_count p d)"
proof -
  have "\<not> list_ex (\<lambda>(d, n). note_count (ds_notes s) d < n) p" using p by (fastforce simp: payable_def list_ex_iff)
  moreover have "\<forall>(d, n) \<in> set p. map_of (ds_notes s) d \<noteq> None"
    using p unfolding payable_def map_of_eq_None_iff by blast
  moreover have "distinct (map fst (ds_notes s))" "distinct (map fst p)" using ok p by (simp_all add: dispenser_ok_def payable_def)
  ultimately show ?thesis using take_notes_correct [of "ds_notes s" p] by (auto simp: dispense_def eject_def)
qed

lemma dispenser_ok_keys: "dispenser_ok s \<Longrightarrow> map fst ys = map fst (ds_notes s) \<Longrightarrow> dispenser_ok (s\<lparr>ds_notes := ys\<rparr>)"
  unfolding dispenser_ok_def by (metis (no_types, lifting) dispenser.select_convs(1) dispenser.surjective dispenser.update_convs(1) image_iff list.set_map)

lemma load_notes_correct:
  assumes "dispenser_ok s" "\<forall>e \<in> set added. 0 < fst e"
  shows "dispenser_ok (load_notes s added)" "notes_total (ds_notes (load_notes s added)) = notes_total (ds_notes s) + notes_total added"
proof -
  have "distinct (map fst ys) \<and> (\<forall>e \<in> set ys. 0 < fst e) \<and> notes_total ys = notes_total xs + notes_total added"
    if "distinct (map fst xs)" "\<forall>e \<in> set xs. 0 < fst e" "ys = foldl (\<lambda>xs (d, n). AList.update d (note_count xs d + n) xs) xs added" for xs ys
    using that assms(2)
  proof (induction added arbitrary: xs)
    case (Cons e added)
    obtain d n where e: "e = (d, n)" by (cases e)
    let ?xs = "AList.update d (note_count xs d + n) xs"
    have "distinct (map fst ?xs)" "\<forall>e \<in> set ?xs. 0 < fst e" using Cons.prems e by (auto simp: distinct_update dest!: AList_update_elem)
    then have "distinct (map fst ys) \<and> (\<forall>e \<in> set ys. 0 < fst e) \<and> notes_total ys = notes_total ?xs + notes_total added"
      using Cons.IH [of ?xs] Cons.prems e by simp
    moreover have "notes_total ?xs = notes_total xs + d * n" using notes_total_update [OF Cons.prems(1)] by simp
    ultimately show ?case using e by (simp add: notes_total_def)
  qed (simp add: notes_total_def)
  from this [of "ds_notes s" "ds_notes (load_notes s added)"]
  show "dispenser_ok (load_notes s added)" "notes_total (ds_notes (load_notes s added)) = notes_total (ds_notes s) + notes_total added"
    using assms(1) by (simp_all add: dispenser_ok_def load_notes_def)
qed

text \<open>The dispenser plans a payout whenever some choice of the loaded notes makes the amount, and then the plan takes
  no note that is not there, adds up to the amount and uses as few notes as any choice; otherwise it raises
  \<open>DispenseError\<close>.\<close>

theorem plan_fewest_notes:
  assumes "dispenser_ok s" "0 < amount"
  shows "(\<forall>p. plan_notes s amount = Inr p \<longrightarrow> payable (note_count (ds_notes s)) (fst ` set (ds_notes s)) p \<and> notes_total p = amount
        \<and> (\<forall>c. cash_choice s c \<longrightarrow> choice_value s c = amount \<longrightarrow> coins p \<le> (\<Sum>d \<in> fst ` set (ds_notes s). c d)))
    \<and> (plan_notes s amount = Inl DispenseError \<longleftrightarrow> (\<forall>c. cash_choice s c \<longrightarrow> choice_value s c \<noteq> amount))
    \<and> (\<forall>e. plan_notes s amount = Inl e \<longrightarrow> e = DispenseError)"
  by (rule plan_notes_correct [OF assms])

text \<open>The example of the class: 600 from one 500 and three 200s, where greedy gets stuck.\<close>

theorem plan_fewest_notes_witness:
  "plan_notes \<lparr>ds_notes = [(500, 1), (200, 3)], ds_jam_next = False\<rparr> 600 = Inr [(200, 3)] \<and> notes_total [(200, 3)] = 600"
proof -
  have p: "plan_notes \<lparr>ds_notes = [(500, 1), (200, 3)], ds_jam_next = False\<rparr> 600 = Inr [(200, 3)]" by code_simp
  then show ?thesis
    using plan_fewest_notes [of "\<lparr>ds_notes = [(500, 1), (200, 3)], ds_jam_next = False\<rparr>" 600] by (simp add: dispenser_ok_def)
qed

end
