(* ===== verification/ATM.thy ===== *)
theory ATM
  imports Bank_Books Cash_Dispenser
begin

text \<open>
  The machine of \<open>atm_banking.py\<close>: a session as a state machine over a bank and a dispenser, and the two-phase
  withdrawal. The four state classes are the values of \<open>atm_state\<close>; an operation a state does not override raises
  \<open>InvalidOperationError\<close>. The properties reconcile the cash with the books.
\<close>

declare split_paired_All [simp del] split_paired_Ex [simp del]

datatype atm_state = IDLE | CARD_INSERTED | AUTHENTICATED | OUT_OF_SERVICE

record atm =
  at_id :: string
  at_bank :: bank
  at_dispenser :: dispenser
  at_state :: atm_state
  at_card :: "string option"
  at_account :: "string option"
  at_out_of_cash :: bool
  at_seq :: nat
  at_retained :: "string list"

definition cash_in :: "atm \<Rightarrow> int" where
  "cash_in a = notes_total (ds_notes (at_dispenser a))"

definition new_atm :: "string \<Rightarrow> bank \<Rightarrow> dispenser \<Rightarrow> atm" where
  "new_atm aid s d = \<lparr>at_id = aid, at_bank = s, at_dispenser = d,
     at_state = (if notes_total (ds_notes d) \<noteq> 0 then IDLE else OUT_OF_SERVICE), at_card = None, at_account = None,
     at_out_of_cash = False, at_seq = 1, at_retained = []\<rparr>"

section \<open>Internals\<close>

definition end_session :: "atm \<Rightarrow> atm" where
  "end_session a = a\<lparr>at_card := None, at_account := None, at_state := (if at_out_of_cash a then OUT_OF_SERVICE else IDLE)\<rparr>"

definition retain_card :: "atm \<Rightarrow> atm" where
  "retain_card a = end_session (a\<lparr>at_retained := at_retained a @ (case at_card a of None \<Rightarrow> [] | Some cn \<Rightarrow> [cn])\<rparr>)"

definition request_name :: "string \<Rightarrow> nat \<Rightarrow> string" where
  "request_name aid k = aid @ ''-'' @ digits k"

definition next_request :: "atm \<Rightarrow> string \<times> atm" where
  "next_request a = (request_name (at_id a) (at_seq a), a\<lparr>at_seq := at_seq a + 1\<rparr>)"

section \<open>Operations\<close>

definition insert_card :: "atm \<Rightarrow> string \<Rightarrow> date \<Rightarrow> atm \<times> (bank_error + unit)" where
  "insert_card a cn today =
     (case at_state a of
        IDLE \<Rightarrow> or_raise a (validate_card (at_bank a) cn today) (\<lambda>_. (a\<lparr>at_card := Some cn, at_state := CARD_INSERTED\<rparr>, Inr ()))
      | _ \<Rightarrow> (a, Inl InvalidOperationError))"

definition enter_pin :: "(string \<Rightarrow> string \<Rightarrow> string) \<Rightarrow> atm \<Rightarrow> string \<Rightarrow> date \<Rightarrow> atm \<times> (bank_error + unit)" where
  "enter_pin pbkdf a pin today =
     (case at_state a of
        CARD_INSERTED \<Rightarrow>
          (case at_card a of
             None \<Rightarrow> (a, Inl CardError)
           | Some cn \<Rightarrow>
               (case verify_pin pbkdf (at_bank a) cn pin today of
                  (s, Inr c) \<Rightarrow> (a\<lparr>at_bank := s, at_account := Some (cd_account c), at_state := AUTHENTICATED\<rparr>, Inr ())
                | (s, Inl e) \<Rightarrow> if e = CardBlockedError then (retain_card (a\<lparr>at_bank := s\<rparr>), Inl e) else (a\<lparr>at_bank := s\<rparr>, Inl e)))
      | _ \<Rightarrow> (a, Inl InvalidOperationError))"

definition select_account :: "atm \<Rightarrow> string \<Rightarrow> date \<Rightarrow> atm \<times> (bank_error + unit)" where
  "select_account a acct today =
     (case (at_state a, at_card a) of
        (AUTHENTICATED, Some cn) \<Rightarrow>
          or_raise a (validate_card (at_bank a) cn today) (\<lambda>c.
            if acct \<notin> set (accounts_of (at_bank a) (cd_customer c)) then (a, Inl CardError) else (a\<lparr>at_account := Some acct\<rparr>, Inr ()))
      | (AUTHENTICATED, None) \<Rightarrow> (a, Inl CardError)
      | _ \<Rightarrow> (a, Inl InvalidOperationError))"

definition show_balance :: "atm \<Rightarrow> bank_error + rat" where
  "show_balance a =
     (case at_state a of
        AUTHENTICATED \<Rightarrow> (case at_account a of None \<Rightarrow> Inl NotFoundError | Some acct \<Rightarrow> balance (at_bank a) acct)
      | _ \<Rightarrow> Inl InvalidOperationError)"

text \<open>The last part of \<open>withdraw\<close>: eject the notes, then settle or reverse.\<close>

definition pay_out :: "atm \<Rightarrow> int purse \<Rightarrow> string \<Rightarrow> atm \<times> (bank_error + int purse)" where
  "pay_out a p tid =
     (case dispense (at_dispenser a) p of
        (d, Inl e) \<Rightarrow>
          (let a1 = a\<lparr>at_dispenser := d\<rparr>
           in if e = DispenseError
              then (case reverse (at_bank a1) tid of (s, r) \<Rightarrow> (a1\<lparr>at_bank := s\<rparr>, bind_sum r (\<lambda>_. Inl e)))
              else (a1, Inl e))
      | (d, Inr q) \<Rightarrow>
          (case capture (at_bank a) tid of
             (s, Inl e) \<Rightarrow> (a\<lparr>at_dispenser := d, at_bank := s\<rparr>, Inl e)
           | (s, Inr _) \<Rightarrow>
               (a\<lparr>at_dispenser := d, at_bank := s, at_out_of_cash := (if notes_total (ds_notes d) = 0 then True else at_out_of_cash a)\<rparr>, Inr q)))"

definition withdraw :: "atm \<Rightarrow> int \<Rightarrow> date \<Rightarrow> date \<Rightarrow> date \<Rightarrow> atm \<times> (bank_error + int purse)" where
  "withdraw a amount now1 now2 now3 =
     (case at_state a of
        AUTHENTICATED \<Rightarrow>
          or_raise a (plan_notes (at_dispenser a) amount) (\<lambda>p.
            (let (rid, a1) = next_request a
             in (case (at_card a1, at_account a1) of
                   (Some cn, Some acct) \<Rightarrow>
                     (case authorize_withdrawal (at_bank a1) cn acct (Number (of_int amount)) rid now1 now2 now3 of
                        (s, Inl e) \<Rightarrow> (a1\<lparr>at_bank := s\<rparr>, Inl e)
                      | (s, Inr tids) \<Rightarrow> pay_out (a1\<lparr>at_bank := s\<rparr>) p (hd tids))
                 | (None, _) \<Rightarrow> (a1, Inl CardError)
                 | (_, None) \<Rightarrow> (a1, Inl NotFoundError))))
      | _ \<Rightarrow> (a, Inl InvalidOperationError))"

definition deposit_cash :: "atm \<Rightarrow> money_like \<Rightarrow> date \<Rightarrow> atm \<times> (bank_error + string list)" where
  "deposit_cash a amount now =
     (case at_state a of
        AUTHENTICATED \<Rightarrow>
          (let (rid, a1) = next_request a
           in (case at_account a1 of
                 None \<Rightarrow> (a1, Inl NotFoundError)
               | Some acct \<Rightarrow> (case deposit (at_bank a1) acct amount rid now of (s, r) \<Rightarrow> (a1\<lparr>at_bank := s\<rparr>, r))))
      | _ \<Rightarrow> (a, Inl InvalidOperationError))"

definition eject_card :: "atm \<Rightarrow> atm \<times> (bank_error + unit)" where
  "eject_card a = (if at_state a = CARD_INSERTED \<or> at_state a = AUTHENTICATED then (end_session a, Inr ()) else (a, Inl InvalidOperationError))"

definition take_offline :: "atm \<Rightarrow> atm \<times> (bank_error + unit)" where
  "take_offline a = (if at_state a \<noteq> IDLE then (a, Inl InvalidOperationError) else (a\<lparr>at_state := OUT_OF_SERVICE\<rparr>, Inr ()))"

definition restock :: "atm \<Rightarrow> (int \<times> int) list \<Rightarrow> atm \<times> (bank_error + unit)" where
  "restock a added =
     (if at_state a \<noteq> IDLE \<and> at_state a \<noteq> OUT_OF_SERVICE then (a, Inl InvalidOperationError)
      else (a\<lparr>at_dispenser := load_notes (at_dispenser a) added, at_out_of_cash := False, at_state := IDLE\<rparr>, Inr ()))"

text \<open>The calls of customers and operators, a note jam, and the calls that other clients make to the bank.\<close>

datatype atm_op =
    InsertCard string date
  | EnterPin string date
  | SelectAccount string date
  | Withdraw int date date date
  | DepositCash money_like date
  | EjectCard
  | TakeOffline
  | Restock "(int \<times> int) list"
  | JamNext
  | Elsewhere bank_op

fun atm_step :: "(string \<Rightarrow> string \<Rightarrow> string) \<Rightarrow> atm \<Rightarrow> atm_op \<Rightarrow> atm \<times> bank_error option" where
  "atm_step pbkdf a (InsertCard cn today) = apsnd (case_sum Some (\<lambda>_. None)) (insert_card a cn today)"
| "atm_step pbkdf a (EnterPin pin today) = apsnd (case_sum Some (\<lambda>_. None)) (enter_pin pbkdf a pin today)"
| "atm_step pbkdf a (SelectAccount acct today) = apsnd (case_sum Some (\<lambda>_. None)) (select_account a acct today)"
| "atm_step pbkdf a (Withdraw amount now1 now2 now3) = apsnd (case_sum Some (\<lambda>_. None)) (withdraw a amount now1 now2 now3)"
| "atm_step pbkdf a (DepositCash amount now) = apsnd (case_sum Some (\<lambda>_. None)) (deposit_cash a amount now)"
| "atm_step pbkdf a EjectCard = apsnd (case_sum Some (\<lambda>_. None)) (eject_card a)"
| "atm_step pbkdf a TakeOffline = apsnd (case_sum Some (\<lambda>_. None)) (take_offline a)"
| "atm_step pbkdf a (Restock added) = apsnd (case_sum Some (\<lambda>_. None)) (restock a added)"
| "atm_step pbkdf a JamNext = (a\<lparr>at_dispenser := (at_dispenser a)\<lparr>ds_jam_next := True\<rparr>\<rparr>, None)"
| "atm_step pbkdf a (Elsewhere op) = (a\<lparr>at_bank := fst (bank_step pbkdf (at_bank a) op)\<rparr>, None)"

end
