(* ===== verification/ATM_Books.thy ===== *)
theory ATM_Books
  imports ATM
begin

text \<open>
  Cash and books: a withdrawal either pays out the exact amount and debits it, or changes neither the cash nor any
  account; over any calls the cash in the machine is what was loaded minus what its completed withdrawals took.
\<close>

declare split_paired_All [simp del] split_paired_Ex [simp del]

section \<open>The transactions of one machine\<close>

definition own_request :: "string \<Rightarrow> string \<Rightarrow> bool" where
  "own_request aid r \<longleftrightarrow> r = request_name aid (undigits (drop (length aid + 1) r))"

definition own_txs :: "string \<Rightarrow> bank \<Rightarrow> (string \<times> transaction) list" where
  "own_txs aid s = filter (\<lambda>e. own_request aid (tx_request (snd e))) (bk_transactions s)"

definition foreign :: "string \<Rightarrow> bank_op \<Rightarrow> bool" where
  "foreign aid op \<longleftrightarrow> same_day op \<and> (\<forall>r. request_id op = Some r \<longrightarrow> \<not> own_request aid r)"

definition settled :: "string \<Rightarrow> bank \<Rightarrow> bool" where
  "settled aid s \<longleftrightarrow> (\<forall>e \<in> set (own_txs aid s). tx_status (snd e) \<noteq> PENDING)"

lemma request_name_inj [simp]: "request_name aid k = request_name aid l \<longleftrightarrow> k = l"
  by (simp add: request_name_def)

lemma own_request_name [simp]: "own_request aid (request_name aid k)"
  by (simp add: own_request_def request_name_def undigits_digits)

lemma filter_update_other:
  "(\<And>u. (k, u) \<in> set xs \<Longrightarrow> \<not> P (k, u)) \<Longrightarrow> \<not> P (k, v) \<Longrightarrow> filter P (AList.update k v xs) = filter P xs"
  by (induction xs) (auto split: if_splits)

lemma own_txs_frame: "bk_transactions t = bk_transactions s \<Longrightarrow> own_txs aid t = own_txs aid s"
  by (simp add: own_txs_def)

lemma own_txs_requests [simp]: "own_txs aid (s\<lparr>bk_requests := r\<rparr>) = own_txs aid s"
  by (simp add: own_txs_def)

lemma own_txs_put_account [simp]: "own_txs aid (put_account s n a) = own_txs aid s"
  by (simp add: own_txs_def)

lemma own_record_other:
  assumes "minted tx_name (bk_ids s) (bk_transactions s)" "\<not> own_request aid (tx_request x)"
  shows "own_txs aid (fst (record_tx s x)) = own_txs aid s"
  using minted_fresh [OF assms(1) inj_names order_refl] assms(2) by (simp add: own_txs_def AList_update_absent)

lemma own_put_pending:
  assumes "bank_ok s" "settled aid s" "map_of (bk_transactions s) tid = Some x" "tx_status x = PENDING" "tx_request y = tx_request x"
  shows "filter (\<lambda>e. own_request aid (tx_request (snd e))) (AList.update tid y (bk_transactions s)) = own_txs aid s"
proof -
  have "\<not> own_request aid (tx_request x)"
    using assms(2) map_of_SomeD [OF assms(3)] assms(4) unfolding settled_def own_txs_def by fastforce
  moreover have "u = x" if "(tid, u) \<in> set (bk_transactions s)" for u
    using that assms(3) bank_okD(3) [OF assms(1)] by (simp add: minted_def)
  ultimately show ?thesis unfolding own_txs_def using assms(5) by (intro filter_update_other) auto
qed

lemma idempotent_own: "own_txs aid (fst (run s)) = own_txs aid s \<Longrightarrow> own_txs aid (fst (idempotent s rid fp run)) = own_txs aid s"
  by (auto simp: idempotent_def split: option.splits prod.splits sum.splits)

lemma step_own:
  assumes ok: "bank_ok s" and f: "foreign aid op" and st: "settled aid s"
  shows "own_txs aid (fst (bank_step pbkdf s op)) = own_txs aid s"
proof (cases op)
  case (OpenAccount customer ty initial limit)
  then show ?thesis by (cases initial) (auto simp: open_account_eq Let_def own_txs_def split: or_raise_split)
next
  case (IssueCard acct pin limit years salt today)
  then show ?thesis by (auto simp: issue_card_def next_id_def Let_def own_txs_def split: or_raise_split)
next
  case (VerifyPin cn pin today)
  then show ?thesis by (auto simp: verify_pin_def own_txs_def split: or_raise_split prod.splits)
next
  case (Authorize cn acct amount rid now1 now2 now3)
  have "own_txs aid (fst (place_hold cn acct v rid now1 now2 now3 s)) = own_txs aid s" if "0 < v" for v
  proof (cases rule: place_hold_cases [OF that, of cn acct rid now1 now2 now3 s, case_names error held])
    case (error s1 e)
    then show ?thesis using own_txs_frame [of s1 s aid] by (simp add: same_books_def)
  next
    case (held c a)
    show ?thesis unfolding held(6) fst_conv
    proof (subst own_record_other)
      show "minted tx_name (bk_ids (put_account (s\<lparr>bk_withdrawn := w\<rparr>) acct b)) (bk_transactions (put_account (s\<lparr>bk_withdrawn := w\<rparr>) acct b))" for w b
        using bank_okD(3) [OF ok] by simp
    qed (use f Authorize in \<open>simp_all add: foreign_def own_txs_def\<close>)
  qed
  then show ?thesis using positive_money_Inr [of amount]
    by (cases "positive_money amount") (simp_all add: Authorize authorize_withdrawal_def idempotent_own)
next
  case (Capture tid)
  then show ?thesis using own_put_pending [OF ok st]
    by (auto simp: capture_def move_to_Inr own_txs_def put_transaction_def split: or_raise_split)
next
  case (Reverse tid)
  then show ?thesis using own_put_pending [OF ok st]
    by (auto simp: reverse_def Let_def reserve_daily_Inr move_to_Inr own_txs_def put_transaction_def split: or_raise_split)
next
  case (Deposit acct amount rid now)
  have "own_txs aid (fst (do_deposit acct v rid now s)) = own_txs aid s" for v
    using bank_okD(3) [OF ok] f Deposit
    by (auto simp: do_deposit_def split_def foreign_def split: or_raise_split) (subst own_record_other; simp add: own_txs_def)
  then show ?thesis by (cases "positive_money amount") (simp_all add: Deposit deposit_def idempotent_own)
next
  case (Transfer src dst amount rid now1 now2)
  have "own_txs aid (fst (do_transfer src dst v rid now1 now2 s)) = own_txs aid s" if "src \<noteq> dst" for v
  proof (cases "\<exists>a b. map_of (bk_accounts s) src = Some a \<and> map_of (bk_accounts s) dst = Some b \<and> v \<le> withdrawable a")
    case True
    then obtain a b where ab: "map_of (bk_accounts s) src = Some a" "map_of (bk_accounts s) dst = Some b" "v \<le> withdrawable a" by blast
    let ?x = "\<lparr>tx_request = rid, tx_account = src, tx_type = TRANSFER_OUT, tx_amount = v, tx_status = COMPLETED, tx_date = now1,
       tx_card = None, tx_counterparty = Some dst\<rparr>"
    let ?y = "\<lparr>tx_request = rid, tx_account = dst, tx_type = TRANSFER_IN, tx_amount = v, tx_status = COMPLETED, tx_date = now2,
       tx_card = None, tx_counterparty = Some src\<rparr>"
    let ?s1 = "put_account s src (a\<lparr>ac_balance := ac_balance a - v\<rparr>)"
    let ?s2 = "fst (record_tx ?s1 ?x)"
    have r: "\<not> own_request aid rid" using f Transfer by (simp add: foreign_def)
    have "own_txs aid ?s2 = own_txs aid ?s1" by (rule own_record_other) (use r bank_okD(3) [OF ok] in simp_all)
    moreover have "own_txs aid (fst (record_tx (put_account ?s2 dst (credit v b)) ?y)) = own_txs aid (put_account ?s2 dst (credit v b))"
      by (rule own_record_other) (use r txs_minted [OF ok, of ?x] in simp_all)
    ultimately show ?thesis unfolding do_transfer_eq [OF ab that] Let_def by simp
  next
    case False
    then have "fst (do_transfer src dst v rid now1 now2 s) = s"
      by (auto simp: do_transfer_def debit_Inr split: or_raise_split)
    then show ?thesis by simp
  qed
  then show ?thesis by (cases "positive_money amount") (simp_all add: Transfer transfer_def idempotent_own)
qed

lemma step_requests_other:
  assumes "request_id op \<noteq> Some r"
  shows "map_of (bk_requests (fst (bank_step pbkdf s op))) r = map_of (bk_requests s) r"
proof -
  have i: "map_of (bk_requests (fst (idempotent s rid fp run))) r = map_of (bk_requests s) r"
    if "rid \<noteq> r" "bk_requests (fst (run s)) = bk_requests s" for rid fp run
    using that by (auto simp: idempotent_def update_conv' split: option.splits prod.splits sum.splits)
  show ?thesis
  proof (cases op)
    case (Authorize cn acct amount rid now1 now2 now3)
    then show ?thesis using assms positive_money_Inr [of amount]
      by (cases "positive_money amount") (simp_all add: authorize_withdrawal_def i runs_requests)
  next
    case (Deposit acct amount rid now)
    then show ?thesis using assms by (cases "positive_money amount") (simp_all add: deposit_def i runs_requests)
  next
    case (Transfer src dst amount rid now1 now2)
    then show ?thesis using assms by (cases "positive_money amount") (simp_all add: transfer_def i runs_requests)
  qed (auto simp: open_account_eq issue_card_def next_id_def verify_pin_def capture_def reverse_def reserve_daily_Inr Let_def split_def
      split: or_raise_split)
qed

text \<open>Who owns a card and an account never changes.\<close>

definition owners :: "bank \<Rightarrow> string \<Rightarrow> string \<Rightarrow> bool" where
  "owners s cn acct \<longleftrightarrow> (\<exists>c a. map_of (bk_cards s) cn = Some c \<and> map_of (bk_accounts s) acct = Some a \<and> ac_customer a = cd_customer c)"

lemma card_verify_pin_fields [simp]:
  "cd_customer (fst (card_verify_pin pbkdf c pin)) = cd_customer c" "cd_account (fst (card_verify_pin pbkdf c pin)) = cd_account c"
  by (simp_all add: card_verify_pin_def Let_def)

lemma step_cards:
  assumes ok: "bank_ok s" and c: "map_of (bk_cards s) cn = Some c"
  shows "\<exists>d. map_of (bk_cards (fst (bank_step pbkdf s op))) cn = Some d \<and> cd_customer d = cd_customer c"
proof -
  have i: "bk_cards (fst (idempotent s rid fp run)) = bk_cards s" if "bk_cards (fst (run s)) = bk_cards s" for rid fp run
    using that by (auto simp: idempotent_def split: option.splits prod.splits sum.splits)
  show ?thesis
  proof (cases op)
    case (IssueCard acct pin limit years salt today)
    have "cn \<noteq> ''CARD'' @ digits4 (bk_ids s)" using minted_fresh [OF bank_okD(2) [OF ok] inj_names order_refl] map_of_SomeD [OF c] by force
    then show ?thesis using c IssueCard by (auto simp: issue_card_def next_id_def Let_def update_conv' split: or_raise_split)
  next
    case (VerifyPin cn' pin today)
    then show ?thesis using c by (auto simp: verify_pin_def update_conv' split_def dest!: validate_card_Inr split: or_raise_split)
  next
    case (Authorize cn' acct amount rid now1 now2 now3)
    have "bk_cards (fst (place_hold cn' acct v rid now1 now2 now3 s)) = bk_cards s" if "0 < v" for v
      by (cases rule: place_hold_cases [OF that, of cn' acct rid now1 now2 now3 s, case_names error held]) (simp_all add: same_books_def)
    then show ?thesis using c Authorize positive_money_Inr [of amount] i
      by (cases "positive_money amount") (simp_all add: authorize_withdrawal_def)
  next
    case (Deposit acct amount rid now)
    have "bk_cards (fst (do_deposit acct v rid now s)) = bk_cards s" for v by (auto simp: do_deposit_def split_def split: or_raise_split)
    then show ?thesis using c Deposit i by (cases "positive_money amount") (simp_all add: deposit_def)
  next
    case (Transfer src dst amount rid now1 now2)
    have "bk_cards (fst (do_transfer src dst v rid now1 now2 s)) = bk_cards s" for v
      by (auto simp: do_transfer_def Let_def split_def split: or_raise_split)
    then show ?thesis using c Transfer i by (cases "positive_money amount") (simp_all add: transfer_def)
  qed (use c in \<open>auto simp: open_account_eq capture_def reverse_def reserve_daily_Inr Let_def split: or_raise_split\<close>)
qed

lemma step_owners:
  assumes ok: "bank_ok s" and o: "owners s cn acct"
  shows "owners (fst (bank_step pbkdf s op)) cn acct"
proof -
  obtain c a where ca: "map_of (bk_cards s) cn = Some c" "map_of (bk_accounts s) acct = Some a" "ac_customer a = cd_customer c"
    using o by (auto simp: owners_def)
  obtain b where "map_of (bk_accounts (fst (bank_step pbkdf s op))) acct = Some b" "ac_customer b = ac_customer a"
    using bank_step_kept [OF ok, of pbkdf op] ca(2) unfolding books_kept_def account_moves_def by blast
  then show ?thesis using step_cards [OF ok ca(1), of pbkdf op] ca(3) by (auto simp: owners_def)
qed

section \<open>The invariant of the machine\<close>

definition session_ok :: "atm \<Rightarrow> bool" where
  "session_ok a \<longleftrightarrow> (case at_state a of
      CARD_INSERTED \<Rightarrow> (\<exists>cn. at_card a = Some cn \<and> map_of (bk_cards (at_bank a)) cn \<noteq> None)
    | AUTHENTICATED \<Rightarrow> (\<exists>cn acct. at_card a = Some cn \<and> at_account a = Some acct \<and> owners (at_bank a) cn acct)
    | _ \<Rightarrow> at_card a = None \<and> at_account a = None)"

definition atm_ok :: "atm \<Rightarrow> bool" where
  "atm_ok a \<longleftrightarrow> bank_ok (at_bank a) \<and> dispenser_ok (at_dispenser a) \<and> settled (at_id a) (at_bank a)
     \<and> (\<forall>k \<ge> at_seq a. map_of (bk_requests (at_bank a)) (request_name (at_id a) k) = None) \<and> session_ok a"

definition amount_paid :: "transaction \<Rightarrow> rat" where
  "amount_paid t = (if tx_type t = WITHDRAWAL \<and> tx_status t = COMPLETED then tx_amount t else 0)"

text \<open>What the completed withdrawals of a machine paid out.\<close>

definition paid_out :: "string \<Rightarrow> bank \<Rightarrow> rat" where
  "paid_out aid s = sum_list (map (\<lambda>e. amount_paid (snd e)) (own_txs aid s))"

text \<open>A hold that was just placed, and how it ends.\<close>

lemma update_snoc: "k \<notin> fst ` set xs \<Longrightarrow> AList.update k w (xs @ [(k, v)]) = xs @ [(k, w)]"
  by (induction xs) auto

lemma settle_placed:
  fixes s acct a x w r
  defines "s1 \<equiv> (fst (record_tx (put_account (s\<lparr>bk_withdrawn := w\<rparr>) acct (a\<lparr>ac_held := ac_held a + tx_amount x\<rparr>)) x))\<lparr>bk_requests := r\<rparr>"
  assumes ok: "bank_ok s" and a: "map_of (bk_accounts s) acct = Some a" and x: "tx_account x = acct" "tx_status x = PENDING"
  shows "\<exists>t. capture s1 (tx_name (bk_ids s)) = (t, Inr [tx_name (bk_ids s)])
      \<and> map_of (bk_accounts t) = (map_of (bk_accounts s))(acct \<mapsto> a\<lparr>ac_balance := ac_balance a - tx_amount x\<rparr>) \<and> bk_requests t = r \<and> bk_cards t = bk_cards s
      \<and> bk_transactions t = bk_transactions s @ [(tx_name (bk_ids s), x\<lparr>tx_status := COMPLETED\<rparr>)]"
    "\<exists>t. reverse s1 (tx_name (bk_ids s)) = (t, Inr [tx_name (bk_ids s)])
      \<and> map_of (bk_accounts t) = map_of (bk_accounts s) \<and> bk_requests t = r \<and> bk_cards t = bk_cards s
      \<and> bk_transactions t = bk_transactions s @ [(tx_name (bk_ids s), x\<lparr>tx_status := REVERSED\<rparr>)]"
proof -
  define tid where "tid = tx_name (bk_ids s)"
  have "tid \<notin> fst ` set (bk_transactions s)" unfolding tid_def by (rule minted_fresh [OF bank_okD(3) [OF ok] inj_names order_refl])
  note fresh = AList_update_absent [OF this] update_snoc [OF this]
  have tx: "map_of (bk_transactions s1) tid = Some x" by (simp add: s1_def tid_def update_conv')
  have ac: "map_of (bk_accounts s1) (tx_account x) = Some (a\<lparr>ac_held := ac_held a + tx_amount x\<rparr>)" by (simp add: s1_def x(1))
  have acs: "map_of (bk_accounts s1) = (map_of (bk_accounts s))(acct \<mapsto> a\<lparr>ac_held := ac_held a + tx_amount x\<rparr>)"
    by (simp add: s1_def put_account_def update_conv')
  have txs: "bk_transactions s1 = AList.update tid x (bk_transactions s)" by (simp add: s1_def tid_def)
  have mv: "move_to COMPLETED x = Inr (x\<lparr>tx_status := COMPLETED\<rparr>)" using x(2) by (simp add: move_to_Inr)
  have fields: "bk_requests s1 = r" "bk_cards s1 = bk_cards s" by (simp_all add: s1_def)
  note defs = put_account_def put_transaction_def update_conv' acs txs fields fresh
  show "\<exists>t. capture s1 (tx_name (bk_ids s)) = (t, Inr [tx_name (bk_ids s)])
      \<and> map_of (bk_accounts t) = (map_of (bk_accounts s))(acct \<mapsto> a\<lparr>ac_balance := ac_balance a - tx_amount x\<rparr>) \<and> bk_requests t = r \<and> bk_cards t = bk_cards s
      \<and> bk_transactions t = bk_transactions s @ [(tx_name (bk_ids s), x\<lparr>tx_status := COMPLETED\<rparr>)]"
    using x(1) unfolding capture_def get_transaction_def tid_def [symmetric] tx option.case or_raise_simps get_account_def ac x(2) mv
    by (simp add: defs capture_hold_def)
  show "\<exists>t. reverse s1 (tx_name (bk_ids s)) = (t, Inr [tx_name (bk_ids s)])
      \<and> map_of (bk_accounts t) = map_of (bk_accounts s) \<and> bk_requests t = r \<and> bk_cards t = bk_cards s
      \<and> bk_transactions t = bk_transactions s @ [(tx_name (bk_ids s), x\<lparr>tx_status := REVERSED\<rparr>)]"
    unfolding tid_def [symmetric] reverse_eq [OF tx ac x(2)] using x a by (simp add: defs release_hold_def fun_upd_idem)
qed

lemma atm_okD:
  assumes "atm_ok a"
  shows "bank_ok (at_bank a)" "dispenser_ok (at_dispenser a)" "settled (at_id a) (at_bank a)"
    "\<And>k. at_seq a \<le> k \<Longrightarrow> map_of (bk_requests (at_bank a)) (request_name (at_id a) k) = None" "session_ok a"
  using assms by (simp_all add: atm_ok_def)

text \<open>Whatever a withdrawal does to the bank, it keeps what the invariant says if it ends with no pending transaction.\<close>

lemma withdraw_keeps:
  assumes ok: "atm_ok a" and st: "at_state a = AUTHENTICATED" and s: "bank_ok s" "settled (at_id a) s" "bk_cards s = bk_cards (at_bank a)"
    and acc: "\<And>n x. map_of (bk_accounts (at_bank a)) n = Some x \<Longrightarrow> \<exists>y. map_of (bk_accounts s) n = Some y \<and> ac_customer y = ac_customer x"
    and r: "\<And>k. at_seq a < k \<Longrightarrow> map_of (bk_requests s) (request_name (at_id a) k) = None" and d: "dispenser_ok d"
  shows "atm_ok (a\<lparr>at_seq := at_seq a + 1, at_dispenser := d, at_bank := s, at_out_of_cash := oc\<rparr>)"
proof -
  have "owners s cn acct" if "owners (at_bank a) cn acct" for cn acct using that acc s(3) by (fastforce simp: owners_def)
  then have "session_ok (a\<lparr>at_seq := at_seq a + 1, at_dispenser := d, at_bank := s, at_out_of_cash := oc\<rparr>)"
    using atm_okD(5) [OF ok] st by (auto simp: session_ok_def)
  then show ?thesis using s d r by (simp add: atm_ok_def)
qed

lemma own_append: "bk_transactions t = bk_transactions s @ [(tid, x)] \<Longrightarrow>
    own_txs aid t = own_txs aid s @ (if own_request aid (tx_request x) then [(tid, x)] else [])"
  by (simp add: own_txs_def)

lemma withdraw_effect:
  assumes ok: "atm_ok a"
  shows "(now2 = now3 \<longrightarrow> atm_ok (fst (withdraw a amount now1 now2 now3))) \<and> at_id (fst (withdraw a amount now1 now2 now3)) = at_id a
    \<and> (case withdraw a amount now1 now2 now3 of
        (b, Inl e) \<Rightarrow> cash_in b = cash_in a \<and> map_of (bk_accounts (at_bank b)) = map_of (bk_accounts (at_bank a))
          \<and> paid_out (at_id a) (at_bank b) = paid_out (at_id a) (at_bank a)
      | (b, Inr p) \<Rightarrow> 0 < amount \<and> notes_total p = amount \<and> cash_in b = cash_in a - amount
          \<and> paid_out (at_id a) (at_bank b) = paid_out (at_id a) (at_bank a) + of_int amount
          \<and> (\<exists>acct ac. at_account a = Some acct \<and> map_of (bk_accounts (at_bank a)) acct = Some ac \<and> of_int amount \<le> withdrawable ac
               \<and> map_of (bk_accounts (at_bank b)) = (map_of (bk_accounts (at_bank a)))(acct \<mapsto> ac\<lparr>ac_balance := ac_balance ac - of_int amount\<rparr>)))"
proof (cases "at_state a = AUTHENTICATED")
  case False
  then have r: "withdraw a amount now1 now2 now3 = (a, Inl InvalidOperationError)" by (cases "at_state a") (simp_all add: withdraw_def)
  show ?thesis unfolding r using ok by simp
next
  case st: True
  let ?s = "at_bank a" and ?d = "at_dispenser a" and ?rid = "request_name (at_id a) (at_seq a)"
  note a = atm_okD [OF ok]
  obtain cn acct where sess: "at_card a = Some cn" "at_account a = Some acct" "owners ?s cn acct"
    using a(5) st by (auto simp: session_ok_def)
  show ?thesis
  proof (cases "plan_notes ?d amount")
    case (Inl e)
    then have r: "withdraw a amount now1 now2 now3 = (a, Inl e)" using st by (simp add: withdraw_def)
    show ?thesis unfolding r using ok by simp
  next
    case plan: (Inr p)
    have pos: "0 < amount" using plan by (cases "amount \<le> 0") (simp_all add: plan_notes_def)
    have p: "payable (note_count (ds_notes ?d)) (fst ` set (ds_notes ?d)) p" "notes_total p = amount"
      using plan_notes_correct [OF a(2) pos] plan by blast+
    have money: "positive_money (Number (of_int amount)) = Inr (of_int amount)"
      using pos by (simp add: positive_money_def)
    have v: "0 < (of_int amount :: rat)" using pos by simp
    have fresh: "map_of (bk_requests ?s) ?rid = None" by (rule a(4)) simp
    let ?run = "place_hold cn acct (of_int amount) ?rid now1 now2 now3"
    have auth: "authorize_withdrawal ?s cn acct (Number (of_int amount)) ?rid now1 now2 now3 =
        (case ?run ?s of (s1, Inl e) \<Rightarrow> (s1, Inl e)
         | (s1, Inr tids) \<Rightarrow> (s1\<lparr>bk_requests := AList.update ?rid (Fp_withdraw cn acct (of_int amount), tids) (bk_requests s1)\<rparr>, Inr tids))"
      by (simp add: authorize_withdrawal_def money idempotent_def fresh)
    have w: "withdraw a amount now1 now2 now3 =
        (case authorize_withdrawal ?s cn acct (Number (of_int amount)) ?rid now1 now2 now3 of
           (s, Inl e) \<Rightarrow> (a\<lparr>at_seq := at_seq a + 1, at_bank := s\<rparr>, Inl e)
         | (s, Inr tids) \<Rightarrow> pay_out (a\<lparr>at_seq := at_seq a + 1, at_bank := s\<rparr>) p (hd tids))"
      using st plan sess by (simp add: withdraw_def next_request_def split: prod.splits sum.splits)
    show ?thesis
    proof (cases rule: place_hold_cases [OF v, of cn acct ?rid now1 now2 now3 ?s, case_names error held])
      case (error s1 e)
      then have r: "withdraw a amount now1 now2 now3 = (a\<lparr>at_seq := at_seq a + 1, at_bank := s1\<rparr>, Inl e)" by (simp add: w auth)
      have s1: "bk_transactions s1 = bk_transactions ?s" "bk_accounts s1 = bk_accounts ?s" "bk_cards s1 = bk_cards ?s"
        using error(2) by (simp_all add: same_books_def)
      have own: "own_txs (at_id a) s1 = own_txs (at_id a) ?s" by (rule own_txs_frame [OF s1(1)])
      have "atm_ok (a\<lparr>at_seq := at_seq a + 1, at_dispenser := ?d, at_bank := s1, at_out_of_cash := at_out_of_cash a\<rparr>)"
        using same_books_ok [OF error(2) a(1)] a(2,3,4) s1 error(3) own by (intro withdraw_keeps [OF ok st]) (simp_all add: settled_def)
      then show ?thesis unfolding r using s1 own by (simp add: cash_in_def paid_out_def)
    next
      case (held c ac)
      let ?x = "\<lparr>tx_request = ?rid, tx_account = acct, tx_type = WITHDRAWAL, tx_amount = of_int amount, tx_status = PENDING, tx_date = now3,
        tx_card = Some cn, tx_counterparty = None\<rparr>"
      let ?w = "AList.update (Some cn, now2) (withdrawn_on ?s (Some cn, now2) + of_int amount) (bk_withdrawn ?s)"
      let ?r = "AList.update ?rid (Fp_withdraw cn acct (of_int amount), [tx_name (bk_ids ?s)]) (bk_requests ?s)"
      let ?s1 = "(fst (record_tx (put_account (?s\<lparr>bk_withdrawn := ?w\<rparr>) acct (ac\<lparr>ac_held := ac_held ac + of_int amount\<rparr>)) ?x))\<lparr>bk_requests := ?r\<rparr>"
      have auth1: "authorize_withdrawal ?s cn acct (Number (of_int amount)) ?rid now1 now2 now3 = (?s1, Inr [tx_name (bk_ids ?s)])"
        unfolding auth held(6) by simp
      have ok1: "bank_ok ?s1" if "now2 = now3"
        using authorize_ok [OF a(1) that, of cn acct "Number (of_int amount)" ?rid now1] unfolding auth1 by simp
      have w1: "withdraw a amount now1 now2 now3 = pay_out (a\<lparr>at_seq := at_seq a + 1, at_bank := ?s1\<rparr>) p (tx_name (bk_ids ?s))"
        unfolding w auth1 by simp
      have later: "map_of ?r (request_name (at_id a) k) = None" if "at_seq a < k" for k
        using a(4) [of k] that by (simp add: update_conv')
      note disp = dispense_correct [OF a(2) p(1)]
      show ?thesis
      proof (cases "ds_jam_next ?d")
        case True
        obtain t where t: "reverse ?s1 (tx_name (bk_ids ?s)) = (t, Inr [tx_name (bk_ids ?s)])" "map_of (bk_accounts t) = map_of (bk_accounts ?s)"
            "bk_requests t = ?r" "bk_cards t = bk_cards ?s" "bk_transactions t = bk_transactions ?s @ [(tx_name (bk_ids ?s), ?x\<lparr>tx_status := REVERSED\<rparr>)]"
          using settle_placed(2) [OF a(1) held(2), where x = ?x and w = ?w and r = ?r] by auto
        have r: "withdraw a amount now1 now2 now3 = (a\<lparr>at_seq := at_seq a + 1, at_dispenser := ?d\<lparr>ds_jam_next := False\<rparr>, at_bank := t\<rparr>, Inl DispenseError)"
          using disp True t(1) by (simp add: w1 pay_out_def)
        have own: "own_txs (at_id a) t = own_txs (at_id a) ?s @ [(tx_name (bk_ids ?s), ?x\<lparr>tx_status := REVERSED\<rparr>)]"
          using own_append [OF t(5), of "at_id a"] by simp
        have "bank_ok t" if "now2 = now3" using reverse_ok [OF ok1 [OF that], of "tx_name (bk_ids ?s)"] unfolding t(1) by simp
        then have "atm_ok (a\<lparr>at_seq := at_seq a + 1, at_dispenser := ?d\<lparr>ds_jam_next := False\<rparr>, at_bank := t, at_out_of_cash := at_out_of_cash a\<rparr>)"
          if "now2 = now3" using that a(2,3) t later own by (intro withdraw_keeps [OF ok st]) (simp_all add: settled_def dispenser_ok_def)
        then show ?thesis unfolding r using t own by (simp add: cash_in_def paid_out_def amount_paid_def)
      next
        case False
        obtain ys where ys: "dispense ?d p = (?d\<lparr>ds_notes := ys\<rparr>, Inr p)" "notes_total ys = notes_total (ds_notes ?d) - notes_total p"
            "map fst ys = map fst (ds_notes ?d)"
          using disp False by auto
        obtain t where t: "capture ?s1 (tx_name (bk_ids ?s)) = (t, Inr [tx_name (bk_ids ?s)])"
            "map_of (bk_accounts t) = (map_of (bk_accounts ?s))(acct \<mapsto> ac\<lparr>ac_balance := ac_balance ac - of_int amount\<rparr>)"
            "bk_requests t = ?r" "bk_cards t = bk_cards ?s" "bk_transactions t = bk_transactions ?s @ [(tx_name (bk_ids ?s), ?x\<lparr>tx_status := COMPLETED\<rparr>)]"
          using settle_placed(1) [OF a(1) held(2), where x = ?x and w = ?w and r = ?r] by auto
        have r: "withdraw a amount now1 now2 now3 = (a\<lparr>at_seq := at_seq a + 1, at_dispenser := ?d\<lparr>ds_notes := ys\<rparr>, at_bank := t,
            at_out_of_cash := (if notes_total ys = 0 then True else at_out_of_cash a)\<rparr>, Inr p)"
          using ys(1) t(1) by (simp add: w1 pay_out_def)
        have own: "own_txs (at_id a) t = own_txs (at_id a) ?s @ [(tx_name (bk_ids ?s), ?x\<lparr>tx_status := COMPLETED\<rparr>)]"
          using own_append [OF t(5), of "at_id a"] by simp
        have accs: "\<exists>y. map_of (bk_accounts t) n = Some y \<and> ac_customer y = ac_customer z" if "map_of (bk_accounts ?s) n = Some z" for n z
          using held(2) that t(2) by (cases "n = acct") auto
        have "bank_ok t" if "now2 = now3" using capture_ok [OF ok1 [OF that], of "tx_name (bk_ids ?s)"] unfolding t(1) by simp
        then have "atm_ok (a\<lparr>at_seq := at_seq a + 1, at_dispenser := ?d\<lparr>ds_notes := ys\<rparr>, at_bank := t,
            at_out_of_cash := (if notes_total ys = 0 then True else at_out_of_cash a)\<rparr>)" if "now2 = now3"
          using that a(3) t later own dispenser_ok_keys [OF a(2) ys(3)] accs by (intro withdraw_keeps [OF ok st]) (simp_all only: settled_def set_append, auto)
        then show ?thesis unfolding r using t own ys p pos held(2,5) sess by (simp add: cash_in_def paid_out_def amount_paid_def)
      qed
    qed
  qed
qed

section \<open>Every call\<close>

text \<open>The other clients of the bank do not use the request ids of this machine; notes have positive denominations.\<close>

fun atm_op_ok :: "string \<Rightarrow> atm_op \<Rightarrow> bool" where
  "atm_op_ok aid (Withdraw amount now1 now2 now3) = (now2 = now3)"
| "atm_op_ok aid (Restock added) = (\<forall>e \<in> set added. 0 < fst e)"
| "atm_op_ok aid (Elsewhere op) = foreign aid op"
| "atm_op_ok aid op = True"

text \<open>What the successful restocks of a run loaded.\<close>

fun loaded :: "(string \<Rightarrow> string \<Rightarrow> string) \<Rightarrow> atm \<Rightarrow> atm_op list \<Rightarrow> int" where
  "loaded pbkdf a [] = 0"
| "loaded pbkdf a (op # ops) =
     (case op of Restock added \<Rightarrow> if snd (atm_step pbkdf a op) = None then notes_total added else 0 | _ \<Rightarrow> 0) + loaded pbkdf (fst (atm_step pbkdf a op)) ops"

definition reconciled :: "atm \<Rightarrow> atm \<Rightarrow> int \<Rightarrow> bool" where
  "reconciled a b extra \<longleftrightarrow> at_id b = at_id a
     \<and> of_int (cash_in b) + paid_out (at_id a) (at_bank b) = of_int (cash_in a + extra) + paid_out (at_id a) (at_bank a)"

lemma bank_change_ok:
  assumes ok: "atm_ok a" and f: "foreign (at_id a) op"
  shows "atm_ok (a\<lparr>at_bank := fst (bank_step pbkdf (at_bank a) op)\<rparr>)"
    "own_txs (at_id a) (fst (bank_step pbkdf (at_bank a) op)) = own_txs (at_id a) (at_bank a)"
proof -
  note a = atm_okD [OF ok]
  show own: "own_txs (at_id a) (fst (bank_step pbkdf (at_bank a) op)) = own_txs (at_id a) (at_bank a)" by (rule step_own [OF a(1) f a(3)])
  have "bank_ok (fst (bank_step pbkdf (at_bank a) op))" using f by (intro bank_step_ok a(1)) (simp add: foreign_def)
  moreover have "map_of (bk_requests (fst (bank_step pbkdf (at_bank a) op))) (request_name (at_id a) k) = None" if "at_seq a \<le> k" for k
  proof (subst step_requests_other)
    show "request_id op \<noteq> Some (request_name (at_id a) k)" using f own_request_name unfolding foreign_def by blast
  qed (rule a(4) [OF that])
  moreover have "map_of (bk_cards (fst (bank_step pbkdf (at_bank a) op))) cn \<noteq> None" if "map_of (bk_cards (at_bank a)) cn \<noteq> None" for cn
    using step_cards [OF a(1), of cn _ pbkdf op] that by fastforce
  ultimately show "atm_ok (a\<lparr>at_bank := fst (bank_step pbkdf (at_bank a) op)\<rparr>)"
    using a(2,3,5) own step_owners [OF a(1), of _ _ pbkdf op] by (auto simp: atm_ok_def settled_def session_ok_def split: atm_state.splits)
qed

lemma end_session_ok: "atm_ok a \<Longrightarrow> atm_ok (end_session a)"
  by (auto simp: atm_ok_def end_session_def session_ok_def)

lemma end_session_fields [simp]:
  "at_id (end_session a) = at_id a" "at_bank (end_session a) = at_bank a" "at_dispenser (end_session a) = at_dispenser a"
  by (simp_all add: end_session_def)

lemma enter_pin_effect:
  assumes ok: "atm_ok a"
  shows "atm_ok (fst (enter_pin pbkdf a pin today)) \<and> reconciled a (fst (enter_pin pbkdf a pin today)) 0"
proof (cases "at_state a = CARD_INSERTED")
  case False
  then have "fst (enter_pin pbkdf a pin today) = a" by (cases "at_state a") (simp_all add: enter_pin_def)
  then show ?thesis using ok by (simp add: reconciled_def)
next
  case st: True
  note a = atm_okD [OF ok]
  obtain cn c where cn: "at_card a = Some cn" "map_of (bk_cards (at_bank a)) cn = Some c" using a(5) st by (auto simp: session_ok_def)
  have f: "foreign (at_id a) (VerifyPin cn pin today)" by (simp add: foreign_def)
  let ?s = "fst (verify_pin pbkdf (at_bank a) cn pin today)"
  have s: "atm_ok (a\<lparr>at_bank := ?s\<rparr>)" "own_txs (at_id a) ?s = own_txs (at_id a) (at_bank a)"
    using bank_change_ok [OF ok f, of pbkdf] by simp_all
  show ?thesis
  proof (cases "snd (verify_pin pbkdf (at_bank a) cn pin today)")
    case (Inl e)
    then have "fst (enter_pin pbkdf a pin today) = (if e = CardBlockedError then retain_card (a\<lparr>at_bank := ?s\<rparr>) else a\<lparr>at_bank := ?s\<rparr>)"
      using st cn by (simp add: enter_pin_def split_def)
    moreover have "atm_ok (retain_card (a\<lparr>at_bank := ?s\<rparr>))"
      using s(1) unfolding retain_card_def by (intro end_session_ok) (simp add: atm_ok_def session_ok_def split: atm_state.splits)
    ultimately show ?thesis using s by (simp add: reconciled_def paid_out_def retain_card_def cash_in_def)
  next
    case (Inr d)
    then have r: "fst (enter_pin pbkdf a pin today) = a\<lparr>at_bank := ?s, at_account := Some (cd_account d), at_state := AUTHENTICATED\<rparr>"
      using st cn by (simp add: enter_pin_def split_def)
    have d: "map_of (bk_cards ?s) cn = Some d" using Inr by (auto simp: verify_pin_def or_raise_def split_def update_conv' bind_sum_Inr split: sum.splits)
    have "card_ok ?s d" using bank_okD(5) [OF atm_okD(1) [OF s(1)], of cn d] d by simp
    then have "owners ?s cn (cd_account d)" using d by (auto simp: owners_def card_ok_def)
    then show ?thesis using s cn by (simp add: r atm_ok_def session_ok_def reconciled_def paid_out_def cash_in_def)
  qed
qed

lemma deposit_cash_effect:
  assumes ok: "atm_ok a"
  shows "atm_ok (fst (deposit_cash a amount now)) \<and> reconciled a (fst (deposit_cash a amount now)) 0"
proof (cases "at_state a = AUTHENTICATED")
  case False
  then have "fst (deposit_cash a amount now) = a" by (cases "at_state a") (simp_all add: deposit_cash_def)
  then show ?thesis using ok by (simp add: reconciled_def)
next
  case st: True
  note a = atm_okD [OF ok]
  obtain cn acct where sess: "at_card a = Some cn" "at_account a = Some acct" using a(5) st by (auto simp: session_ok_def)
  let ?rid = "request_name (at_id a) (at_seq a)" and ?s = "at_bank a"
  let ?t = "fst (deposit ?s acct amount ?rid now)"
  have r: "fst (deposit_cash a amount now) = a\<lparr>at_seq := at_seq a + 1, at_dispenser := at_dispenser a, at_bank := ?t, at_out_of_cash := at_out_of_cash a\<rparr>"
    using st sess by (simp add: deposit_cash_def next_request_def split_def)
  have fresh: "map_of (bk_requests ?s) ?rid = None" by (rule a(4)) simp
  have txs: "(\<exists>tid x. bk_transactions ?t = bk_transactions ?s @ [(tid, x)] \<and> tx_type x = DEPOSIT \<and> tx_status x = COMPLETED)
      \<or> bk_transactions ?t = bk_transactions ?s"
    using minted_fresh [OF bank_okD(3) [OF a(1)] inj_names order_refl] fresh
    by (auto simp: deposit_def idempotent_def do_deposit_def split_def AList_update_absent split: or_raise_split sum.splits option.splits)
  then have "own_txs (at_id a) ?t = own_txs (at_id a) ?s
      \<or> (\<exists>tid x. own_txs (at_id a) ?t = own_txs (at_id a) ?s @ [(tid, x)] \<and> tx_type x = DEPOSIT \<and> tx_status x = COMPLETED)"
  proof (elim disjE exE conjE)
    fix tid x assume x: "bk_transactions ?t = bk_transactions ?s @ [(tid, x)]" "tx_type x = DEPOSIT" "tx_status x = COMPLETED"
    show ?thesis using own_append [OF x(1), of "at_id a"] x(2,3) by (cases "own_request (at_id a) (tx_request x)") auto
  next
    assume "bk_transactions ?t = bk_transactions ?s"
    then show ?thesis using own_txs_frame by blast
  qed
  then have own: "paid_out (at_id a) ?t = paid_out (at_id a) ?s" "settled (at_id a) ?t"
    using a(3) by (auto simp: paid_out_def amount_paid_def settled_def)
  have kept: "books_kept ?s ?t" using bank_step_kept [OF a(1), of undefined "Deposit acct amount ?rid now"] by simp
  have accs: "\<exists>y. map_of (bk_accounts ?t) n = Some y \<and> ac_customer y = ac_customer x" if "map_of (bk_accounts ?s) n = Some x" for n x
    using kept that unfolding books_kept_def account_moves_def by blast
  have cards: "bk_cards ?t = bk_cards ?s"
    by (auto simp: deposit_def idempotent_def do_deposit_def split_def split: or_raise_split sum.splits option.splits)
  have "map_of (bk_requests ?t) (request_name (at_id a) k) = None" if "at_seq a < k" for k
    using step_requests_other [of "Deposit acct amount ?rid now" "request_name (at_id a) k" undefined ?s] a(4) [of k] that by simp
  then have "atm_ok (a\<lparr>at_seq := at_seq a + 1, at_dispenser := at_dispenser a, at_bank := ?t, at_out_of_cash := at_out_of_cash a\<rparr>)"
    using accs by (intro withdraw_keeps [OF ok st deposit_ok [OF a(1)] own(2) cards _ _ a(2)])
  then show ?thesis unfolding r using own by (simp add: reconciled_def cash_in_def)
qed

lemma accounts_of_owner:
  "bank_ok s \<Longrightarrow> n \<in> set (accounts_of s customer) \<Longrightarrow> \<exists>a. map_of (bk_accounts s) n = Some a \<and> ac_customer a = customer"
  using bank_okD(1) [of s] by (force simp: accounts_of_def minted_def)

lemma atm_step_ok:
  assumes ok: "atm_ok a" and op: "atm_op_ok (at_id a) op"
  shows "atm_ok (fst (atm_step pbkdf a op)) \<and> reconciled a (fst (atm_step pbkdf a op)) (loaded pbkdf a [op])"
proof (cases op)
  case (InsertCard cn today)
  then show ?thesis using ok
    by (auto simp: insert_card_def reconciled_def cash_in_def atm_ok_def session_ok_def dest!: validate_card_Inr split: atm_state.split or_raise_split)
next
  case (EnterPin pin today)
  then show ?thesis using enter_pin_effect [OF ok] by simp
next
  case (SelectAccount acct today)
  show ?thesis
  proof (cases "at_state a = AUTHENTICATED")
    case False
    then have "fst (select_account a acct today) = a" by (cases "at_state a") (simp_all add: select_account_def)
    then show ?thesis using ok SelectAccount by (simp add: reconciled_def)
  next
    case True
    obtain cn where cn: "at_card a = Some cn" using atm_okD(5) [OF ok] True by (auto simp: session_ok_def)
    have "atm_ok (a\<lparr>at_account := Some acct\<rparr>)" if "validate_card (at_bank a) cn today = Inr c" "acct \<in> set (accounts_of (at_bank a) (cd_customer c))" for c
    proof -
      have "owners (at_bank a) cn acct" using accounts_of_owner [OF atm_okD(1) [OF ok] that(2)] validate_card_Inr [OF that(1)] by (auto simp: owners_def)
      then show ?thesis using ok True cn by (simp add: atm_ok_def session_ok_def)
    qed
    then show ?thesis using ok True cn by (auto simp: SelectAccount select_account_def reconciled_def cash_in_def split: or_raise_split)
  qed
next
  case (Withdraw amount now1 now2 now3)
  then have "now2 = now3" using op by simp
  with withdraw_effect [OF ok, of now2 now3 amount now1] show ?thesis
    by (auto simp: Withdraw reconciled_def split: prod.splits sum.splits)
next
  case (DepositCash amount now)
  then show ?thesis using deposit_cash_effect [OF ok] by simp
next
  case EjectCard
  then show ?thesis using end_session_ok [OF ok] ok by (auto simp: eject_card_def reconciled_def cash_in_def)
next
  case TakeOffline
  then show ?thesis using ok
    by (cases "at_state a = IDLE") (simp_all add: take_offline_def reconciled_def cash_in_def atm_ok_def session_ok_def)
next
  case (Restock added)
  then show ?thesis using ok op load_notes_correct [OF atm_okD(2) [OF ok], of added]
    by (auto simp: restock_def reconciled_def cash_in_def atm_ok_def session_ok_def split: atm_state.splits)
next
  case JamNext
  then show ?thesis using ok by (auto simp: reconciled_def cash_in_def atm_ok_def session_ok_def dispenser_ok_def split: atm_state.splits)
next
  case (Elsewhere bop)
  then show ?thesis using bank_change_ok [OF ok, of bop pbkdf] op by (simp add: reconciled_def paid_out_def cash_in_def)
qed

lemma atm_run_ok:
  "atm_ok a \<Longrightarrow> list_all (atm_op_ok (at_id a)) ops \<Longrightarrow>
    atm_ok (run_ops (atm_step pbkdf) a ops) \<and> reconciled a (run_ops (atm_step pbkdf) a ops) (loaded pbkdf a ops)"
proof (induction ops arbitrary: a)
  case Nil
  then show ?case by (simp add: reconciled_def)
next
  case (Cons op ops)
  let ?b = "fst (atm_step pbkdf a op)"
  have b: "atm_ok ?b" "reconciled a ?b (loaded pbkdf a [op])" using atm_step_ok [OF Cons.prems(1), of op pbkdf] Cons.prems(2) by simp_all
  then have "at_id ?b = at_id a" by (simp add: reconciled_def)
  then have "atm_ok (run_ops (atm_step pbkdf) ?b ops)" "reconciled ?b (run_ops (atm_step pbkdf) ?b ops) (loaded pbkdf ?b ops)"
    using Cons.IH [OF b(1)] Cons.prems(2) by simp_all
  then show ?case using b(2) by (simp add: reconciled_def)
qed

lemma new_atm_ok:
  assumes "list_all (foreign aid) setup" "dispenser_ok d"
  shows "atm_ok (new_atm aid (run_ops (bank_step pbkdf) new_bank setup) d)" "own_txs aid (run_ops (bank_step pbkdf) new_bank setup) = []"
proof -
  have "bank_ok (run_ops (bank_step pbkdf) s ops) \<and> own_txs aid (run_ops (bank_step pbkdf) s ops) = []
      \<and> (\<forall>k. map_of (bk_requests (run_ops (bank_step pbkdf) s ops)) (request_name aid k) = None)"
    if "bank_ok s" "own_txs aid s = []" "\<forall>k. map_of (bk_requests s) (request_name aid k) = None" "list_all (foreign aid) ops" for s ops
    using that
  proof (induction ops arbitrary: s)
    case (Cons op ops)
    have f: "foreign aid op" using Cons.prems(4) by simp
    have "bank_ok (fst (bank_step pbkdf s op))" using f by (intro bank_step_ok Cons.prems(1)) (simp add: foreign_def)
    moreover have "own_txs aid (fst (bank_step pbkdf s op)) = []" using step_own [OF Cons.prems(1) f] Cons.prems(2) by (simp add: settled_def)
    moreover have "map_of (bk_requests (fst (bank_step pbkdf s op))) (request_name aid k) = None" for k
    proof (subst step_requests_other)
      show "request_id op \<noteq> Some (request_name aid k)" using f own_request_name unfolding foreign_def by blast
    qed (use Cons.prems(3) in blast)
    ultimately show ?case using Cons.IH Cons.prems(4) by simp
  qed simp
  from this [OF new_bank_ok _ _ assms(1)]
  show "atm_ok (new_atm aid (run_ops (bank_step pbkdf) new_bank setup) d)" "own_txs aid (run_ops (bank_step pbkdf) new_bank setup) = []"
    using assms(2) by (simp_all add: atm_ok_def new_atm_def settled_def session_ok_def own_txs_def new_bank_def)
qed

section \<open>Properties\<close>

definition sample_dispenser :: dispenser where
  "sample_dispenser = \<lparr>ds_notes = [(2000, 2), (500, 1), (200, 10)], ds_jam_next = False\<rparr>"

definition sample_setup :: "bank_op list" where
  "sample_setup = take 3 sample_ops"

definition sample_session :: "atm_op list" where
  "sample_session = [InsertCard ''CARD0003'' sample_day, EnterPin ''0000'' sample_day, EnterPin ''1234'' sample_day,
     Withdraw 600 sample_day sample_day sample_day, JamNext, Withdraw 400 sample_day sample_day sample_day]"

definition sample_atm :: atm where
  "sample_atm = run_ops (atm_step sample_hash) (new_atm ''ATM'' (run_ops (bank_step sample_hash) new_bank sample_setup) sample_dispenser) sample_session"

lemma sample_setup_foreign: "list_all (foreign ''ATM'') sample_setup" "dispenser_ok sample_dispenser"
    "list_all (atm_op_ok ''ATM'') sample_session"
  by (simp_all add: sample_setup_def sample_ops_def foreign_def sample_dispenser_def dispenser_ok_def sample_session_def)

lemma sample_atm_ok: "atm_ok sample_atm \<and> at_id sample_atm = ''ATM''"
  using atm_run_ok [OF new_atm_ok(1) [OF sample_setup_foreign(1,2), where pbkdf = sample_hash], where pbkdf = sample_hash and ops = sample_session]
    sample_setup_foreign(3)
  by (simp add: sample_atm_def new_atm_def reconciled_def)

text \<open>C4. A withdrawal at a machine in a consistent state (its invariant \<open>atm_ok\<close>, which the calls described at the next property keep) is
  all or nothing, at any readings of the clock, over midnight too, and whatever happens in between (no plan, a decline of the bank, a
  note jam): it either pays out exactly the amount and debits it from the session's account, within what that account allows, and
  touches no other account; or it raises and leaves the cash and every account (balance and holds) as they were. The count of the
  card's daily limit is not part of this: over midnight the reversal of a jam credits the wrong day.\<close>

theorem withdraw_all_or_nothing:
  assumes "atm_ok a"
  shows "case withdraw a amount now1 now2 now3 of
      (b, Inl e) \<Rightarrow> cash_in b = cash_in a \<and> map_of (bk_accounts (at_bank b)) = map_of (bk_accounts (at_bank a))
    | (b, Inr p) \<Rightarrow> 0 < amount \<and> notes_total p = amount \<and> cash_in b = cash_in a - amount
        \<and> (\<exists>acct ac. at_account a = Some acct \<and> map_of (bk_accounts (at_bank a)) acct = Some ac \<and> of_int amount \<le> withdrawable ac
             \<and> map_of (bk_accounts (at_bank b)) = (map_of (bk_accounts (at_bank a)))(acct \<mapsto> ac\<lparr>ac_balance := ac_balance ac - of_int amount\<rparr>))"
  using withdraw_effect [OF assms, of now2 now3 amount now1] by (auto split: prod.splits sum.splits)

theorem withdraw_all_or_nothing_witness:
  "snd (withdraw sample_atm 600 sample_day sample_day sample_day) = Inr [(200, 3)]
    \<and> cash_in (fst (withdraw sample_atm 600 sample_day sample_day sample_day)) = cash_in sample_atm - 600"
proof -
  have r: "snd (withdraw sample_atm 600 sample_day sample_day sample_day) = Inr [(200, 3)]" by code_simp
  have "atm_ok sample_atm" using sample_atm_ok by simp
  from withdraw_all_or_nothing [OF this, of 600 sample_day sample_day sample_day] r show ?thesis by (auto split: prod.splits)
qed

text \<open>C10. The cash reconciles with the books. A machine with a sound dispenser is put into operation at a bank, and then customers,
  operators, note jams and other clients of the bank do anything, as long as no other client, nor the bank before, used a request id of
  this machine (a machine restarted under its name does, and then cash is paid out that no account is debited for: see below), each
  authorization reads the clock twice on one day, and what is restocked has positive denominations: at any
  time the cash in the machine is what was in it and loaded into it, minus the machine's completed withdrawals; none of
  its withdrawals is left pending; and an authenticated session is on an account of the card's holder.\<close>

theorem cash_reconciles:
  assumes "list_all (foreign aid) setup" "dispenser_ok d" "list_all (atm_op_ok aid) ops"
  shows "let a0 = new_atm aid (run_ops (bank_step pbkdf) new_bank setup) d; a = run_ops (atm_step pbkdf) a0 ops
    in of_int (cash_in a) + paid_out aid (at_bank a) = of_int (notes_total (ds_notes d) + loaded pbkdf a0 ops)
     \<and> settled aid (at_bank a)
     \<and> (at_state a = AUTHENTICATED \<longrightarrow> (\<exists>cn acct. at_card a = Some cn \<and> at_account a = Some acct \<and> owners (at_bank a) cn acct))"
proof -
  let ?a0 = "new_atm aid (run_ops (bank_step pbkdf) new_bank setup) d"
  have "at_id ?a0 = aid" "cash_in ?a0 = notes_total (ds_notes d)" "paid_out aid (at_bank ?a0) = 0"
    using new_atm_ok(2) [OF assms(1,2), of pbkdf] by (simp_all add: new_atm_def cash_in_def paid_out_def)
  then show ?thesis using atm_run_ok [OF new_atm_ok(1) [OF assms(1,2), where pbkdf = pbkdf], where pbkdf = pbkdf and ops = ops] assms(3)
    by (auto simp: Let_def reconciled_def atm_ok_def session_ok_def)
qed

theorem cash_reconciles_witness:
  "of_int (cash_in sample_atm) + paid_out ''ATM'' (at_bank sample_atm) = 6500 \<and> paid_out ''ATM'' (at_bank sample_atm) = 600"
proof -
  have "paid_out ''ATM'' (at_bank sample_atm) = 600" by code_simp
  moreover have "loaded sample_hash (new_atm ''ATM'' (run_ops (bank_step sample_hash) new_bank sample_setup) sample_dispenser) sample_session = 0"
    by code_simp
  moreover have "of_int (cash_in sample_atm) + paid_out ''ATM'' (at_bank sample_atm) = of_int (notes_total (ds_notes sample_dispenser)
      + loaded sample_hash (new_atm ''ATM'' (run_ops (bank_step sample_hash) new_bank sample_setup) sample_dispenser) sample_session)"
    using cash_reconciles [OF sample_setup_foreign, of sample_hash] unfolding Let_def sample_atm_def by blast
  ultimately show ?thesis by (simp add: sample_dispenser_def notes_total_def)
qed

text \<open>Why the request ids must be fresh: the counter of a machine starts at 1 with the process, so a machine restarted
  under its name repeats them. The bank takes the second withdrawal of the same amount for a retry of the first; the
  machine pays out again, and the account is debited once.\<close>

theorem restart_repeats_cash:
  "let s = run_ops (bank_step sample_hash) new_bank sample_setup;
       session = [InsertCard ''CARD0003'' sample_day, EnterPin ''1234'' sample_day, Withdraw 600 sample_day sample_day sample_day];
       a = run_ops (atm_step sample_hash) (new_atm ''ATM'' s sample_dispenser) session;
       b = run_ops (atm_step sample_hash) (new_atm ''ATM'' (at_bank a) (at_dispenser a)) session
   in cash_in b = 6500 - 1200 \<and> balance (at_bank b) ''AC0001'' = Inr 4400"
  by code_simp

end
