(* ===== verification/Job_Scheduler.thy ===== *)
theory Job_Scheduler
  imports Prelude "HOL-Library.List_Lexorder" "HOL-Library.Product_Lexorder"
begin

text \<open>
  The scheduler of \<open>python-low-level-design/job-scheduling-system/job_scheduler.py\<close>: jobs with dependencies, priorities,
  retries, cancellation and recurring schedules. All its state belongs to one event loop, and the code between two
  awaits is one step of the model: a submit, a cancel, a worker taking a job, the end of an attempt, a tick. What an
  attempt returns is an argument of the step that ends it; the monotonic clock and the random number of a backoff are
  arguments too. A job is an object in a store and \<open>job-n\<close> is its index; \<open>sc_known\<close> has the keys of \<open>_jobs\<close>. A heap is an
  ascending list. The events only wake tasks up and are left out; the calls of listeners are the log.
\<close>

section \<open>Jobs\<close>

datatype sched_error = SchedulerError | InvalidTransitionError | UnknownJobError | SchedulerStoppedError | Raised py_error
  | Out_of_fuel

datatype JobPriority = LOW | MEDIUM | HIGH | CRITICAL

fun priority_value :: "JobPriority \<Rightarrow> rat" where
  "priority_value LOW = 0"
| "priority_value MEDIUM = 1"
| "priority_value HIGH = 2"
| "priority_value CRITICAL = 3"

datatype JobStatus = PENDING | RUNNING | RETRY_WAIT | COMPLETED | FAILED | TIMED_OUT | CANCELLED

definition is_terminal :: "JobStatus \<Rightarrow> bool" where
  "is_terminal st \<longleftrightarrow> st \<in> {COMPLETED, FAILED, TIMED_OUT, CANCELLED}"

fun transitions :: "JobStatus \<Rightarrow> JobStatus set" where
  "transitions PENDING = {RUNNING, CANCELLED}"
| "transitions RUNNING = {COMPLETED, FAILED, TIMED_OUT, CANCELLED, RETRY_WAIT}"
| "transitions RETRY_WAIT = {RUNNING, CANCELLED}"
| "transitions st = {}"

record retry_policy =
  rp_max_retries :: int
  rp_base_delay :: rat
  rp_max_delay :: rat
  rp_jitter :: bool

text \<open>\<open>r\<close> is the random number between 0 and 1 from which \<open>uniform(0, cap)\<close> is made.\<close>

definition backoff :: "retry_policy \<Rightarrow> nat \<Rightarrow> rat \<Rightarrow> rat" where
  "backoff p attempt r = (let cap = min (rp_max_delay p) (rp_base_delay p * 2 ^ (attempt - 1)) in if rp_jitter p then r * cap else cap)"

text \<open>What the code formats into \<open>last_error\<close>.\<close>

datatype end_note = Upstream_did_not_complete nat | Upstream_ended nat JobStatus | Cancelled_note | Timed_out_note | Exception_note string

record job =
  jb_priority :: JobPriority
  jb_retry :: retry_policy
  jb_deadline :: "rat option"
  jb_status :: JobStatus
  jb_attempts :: nat
  jb_result :: "string option"
  jb_last_error :: "end_note option"
  jb_submitted_at :: rat
  jb_run_at :: rat
  jb_seq :: nat
  jb_started_at :: "rat option"
  jb_finished_at :: "rat option"

text \<open>The arguments of a job's constructor.\<close>

record job_spec =
  sp_priority :: JobPriority
  sp_timeout :: "rat option"
  sp_retry :: retry_policy
  sp_deadline :: "rat option"

definition new_job :: "job_spec \<Rightarrow> sched_error + job" where
  "new_job sp =
     (if (case sp_timeout sp of None \<Rightarrow> False | Some t \<Rightarrow> t \<le> 0) then Inl (Raised ValueError)
      else Inr \<lparr>jb_priority = sp_priority sp, jb_retry = sp_retry sp, jb_deadline = sp_deadline sp, jb_status = PENDING, jb_attempts = 0,
        jb_result = None, jb_last_error = None, jb_submitted_at = 0, jb_run_at = 0, jb_seq = 0, jb_started_at = None, jb_finished_at = None\<rparr>)"

section \<open>Strategies\<close>

text \<open>A component of a key is a number, or infinity as the pair with 1.\<close>

type_synonym sort_key = "(nat \<times> rat) list"

datatype strategy = FIFOStrategy | PriorityStrategy | AgingPriorityStrategy rat | EarliestDeadlineFirstStrategy

definition new_aging :: "rat \<Rightarrow> sched_error + strategy" where
  "new_aging age_rate = (if age_rate \<le> 0 then Inl (Raised ValueError) else Inr (AgingPriorityStrategy age_rate))"

fun job_key :: "strategy \<Rightarrow> job \<Rightarrow> sort_key" where
  "job_key FIFOStrategy j = [(0, of_nat (jb_seq j))]"
| "job_key PriorityStrategy j = [(0, - priority_value (jb_priority j)), (0, of_nat (jb_seq j))]"
| "job_key (AgingPriorityStrategy rate) j =
     [(0, - (priority_value (jb_priority j) - rate * jb_submitted_at j)), (0, of_nat (jb_seq j))]"
| "job_key EarliestDeadlineFirstStrategy j =
     [case jb_deadline j of None \<Rightarrow> (1, 0) | Some d \<Rightarrow> (0, d), (0, - priority_value (jb_priority j)), (0, of_nat (jb_seq j))]"

section \<open>Recurring schedules\<close>

record schedule =
  rc_spec :: job_spec
  rc_interval :: rat
  rc_next_run :: rat
  rc_allow_overlap :: bool
  rc_active :: bool
  rc_last_job :: "nat option"
  rc_fired :: nat
  rc_skipped :: nat

definition new_schedule :: "job_spec \<Rightarrow> rat \<Rightarrow> rat \<Rightarrow> bool \<Rightarrow> sched_error + schedule" where
  "new_schedule sp interval first_run allow_overlap =
     (if interval \<le> 0 then Inl (Raised ValueError)
      else Inr \<lparr>rc_spec = sp, rc_interval = interval, rc_next_run = first_run, rc_allow_overlap = allow_overlap, rc_active = True,
        rc_last_job = None, rc_fired = 0, rc_skipped = 0\<rparr>)"

definition advance :: "schedule \<Rightarrow> rat \<Rightarrow> schedule" where
  "advance r now =
     (let missed = \<lfloor>(now - rc_next_run r) / rc_interval r\<rfloor> + 1
      in r\<lparr>rc_next_run := rc_next_run r + of_int (max missed 1) * rc_interval r\<rparr>)"

section \<open>The scheduler\<close>

record sched =
  sc_strategy :: strategy
  sc_workers :: nat
  sc_limit :: nat
  sc_objects :: "job list"
  sc_known :: "nat list"
  sc_ready :: "(sort_key \<times> nat) list"
  sc_delayed :: "((rat \<times> nat) \<times> nat) list"
  sc_blocked :: "nat \<Rightarrow> nat set option"
  sc_dependents :: "nat \<Rightarrow> nat list"
  sc_attempts :: "nat list"
  sc_cancel_requested :: "nat set"
  sc_finished :: "nat list"
  sc_recurring :: "(nat \<times> schedule) list"
  sc_schedule_ids :: nat
  sc_seq :: nat
  sc_unfinished :: int
  sc_running :: int
  sc_peak :: int
  sc_idle :: bool
  sc_stopping :: bool
  sc_log :: "(nat \<times> JobStatus \<times> JobStatus) list"

definition new_scheduler :: "strategy \<Rightarrow> int \<Rightarrow> nat \<Rightarrow> sched_error + sched" where
  "new_scheduler strat num_workers history_limit =
     (if num_workers < 1 then Inl (Raised ValueError)
      else Inr \<lparr>sc_strategy = strat, sc_workers = nat num_workers, sc_limit = history_limit, sc_objects = [], sc_known = [], sc_ready = [],
        sc_delayed = [], sc_blocked = (\<lambda>_. None), sc_dependents = (\<lambda>_. []), sc_attempts = [], sc_cancel_requested = {}, sc_finished = [],
        sc_recurring = [], sc_schedule_ids = 1, sc_seq = 0, sc_unfinished = 0, sc_running = 0, sc_peak = 0, sc_idle = True,
        sc_stopping = False, sc_log = []\<rparr>)"

definition job_at :: "sched \<Rightarrow> nat \<Rightarrow> job" where
  "job_at s i = sc_objects s ! i"

definition put_job :: "sched \<Rightarrow> nat \<Rightarrow> job \<Rightarrow> sched" where
  "put_job s i j = s\<lparr>sc_objects := (sc_objects s)[i := j]\<rparr>"

abbreviation status_of :: "sched \<Rightarrow> nat \<Rightarrow> JobStatus" where
  "status_of s i \<equiv> jb_status (job_at s i)"

definition heap_push :: "'k::linorder \<Rightarrow> nat \<Rightarrow> ('k \<times> nat) list \<Rightarrow> ('k \<times> nat) list" where
  "heap_push k i h = insort_key fst (k, i) h"

subsection \<open>State changes\<close>

definition transition :: "sched \<Rightarrow> nat \<Rightarrow> JobStatus \<Rightarrow> sched_error + sched" where
  "transition s i new =
     (let old = status_of s i
      in if new \<notin> transitions old then Inl InvalidTransitionError
         else Inr ((put_job s i ((job_at s i)\<lparr>jb_status := new\<rparr>))\<lparr>sc_log := sc_log s @ [(i, old, new)]\<rparr>))"

definition enqueue :: "sched \<Rightarrow> nat \<Rightarrow> rat \<Rightarrow> sched" where
  "enqueue s i now =
     (let j = job_at s i
      in if jb_run_at j > now then s\<lparr>sc_delayed := heap_push (jb_run_at j, jb_seq j) i (sc_delayed s)\<rparr>
         else s\<lparr>sc_ready := heap_push (job_key (sc_strategy s) j) i (sc_ready s)\<rparr>)"

definition remember_finished :: "sched \<Rightarrow> nat \<Rightarrow> sched" where
  "remember_finished s i =
     (let fin = sc_finished s @ [i]; old = take (length fin - sc_limit s) fin
      in s\<lparr>sc_finished := drop (length fin - sc_limit s) fin, sc_known := filter (\<lambda>k. k \<notin> set old) (sc_known s)\<rparr>)"

text \<open>One dependent of a completed job loses that dependency.\<close>

definition unblock :: "sched \<Rightarrow> nat \<Rightarrow> nat \<Rightarrow> rat \<Rightarrow> sched" where
  "unblock s i d now =
     (case sc_blocked s d of
        None \<Rightarrow> s
      | Some unmet \<Rightarrow>
          (let unmet1 = unmet - {i}
           in if unmet1 = {} then enqueue (s\<lparr>sc_blocked := (sc_blocked s)(d := None)\<rparr>) d now
              else s\<lparr>sc_blocked := (sc_blocked s)(d := Some unmet1)\<rparr>))"

definition note_end :: "sched \<Rightarrow> nat \<Rightarrow> end_note option \<Rightarrow> rat \<Rightarrow> sched" where
  "note_end s i error now =
     (let j = job_at s i in put_job s i (j\<lparr>jb_last_error := (if error \<noteq> None then error else jb_last_error j), jb_finished_at := Some now\<rparr>))"

definition forget :: "sched \<Rightarrow> nat \<Rightarrow> sched" where
  "forget s i = s\<lparr>sc_cancel_requested := sc_cancel_requested s - {i}, sc_blocked := (sc_blocked s)(i := None), sc_dependents := (sc_dependents s)(i := [])\<rparr>"

definition count_down :: "sched \<Rightarrow> nat \<Rightarrow> sched" where
  "count_down s i =
     (let n = sc_unfinished s - 1
      in remember_finished (s\<lparr>sc_unfinished := n, sc_idle := (if n = 0 then True else sc_idle s)\<rparr>) i)"

text \<open>\<open>_finish\<close> and its loop over the dependents, which it may finish in turn; the first argument bounds the depth.\<close>

function finish :: "nat \<Rightarrow> sched \<Rightarrow> nat \<Rightarrow> JobStatus \<Rightarrow> end_note option \<Rightarrow> rat \<Rightarrow> sched_error + sched"
  and settle :: "nat \<Rightarrow> sched \<Rightarrow> nat \<Rightarrow> JobStatus \<Rightarrow> nat list \<Rightarrow> rat \<Rightarrow> sched_error + sched" where
  "finish 0 s i st error now = Inl Out_of_fuel"
| "finish (Suc n) s i st error now =
     (if is_terminal (status_of s i) then Inr s
      else bind_sum (transition (note_end s i error now) i st) (\<lambda>s1.
           bind_sum (settle n (forget s1 i) i st (sc_dependents s1 i) now) (\<lambda>s2. Inr (count_down s2 i))))"
| "settle n s i st [] now = Inr s"
| "settle n s i st (d # ds) now =
     (if d \<notin> set (sc_known s) \<or> is_terminal (status_of s d) then settle n s i st ds now
      else if st = COMPLETED then settle n (unblock s i d now) i st ds now
      else bind_sum (finish n s d CANCELLED (Some (Upstream_ended i st)) now) (\<lambda>s1. settle n s1 i st ds now))"
  by pat_completeness auto

termination
  by (relation "measures [\<lambda>x. case x of Inl (n, _) \<Rightarrow> n | Inr (n, _) \<Rightarrow> n, \<lambda>x. case x of Inl _ \<Rightarrow> 0 | Inr (n, s, i, st, ds, now) \<Rightarrow> Suc (length ds)]") auto

text \<open>The depth never exceeds the number of jobs.\<close>

definition finish_job :: "sched \<Rightarrow> nat \<Rightarrow> JobStatus \<Rightarrow> end_note option \<Rightarrow> rat \<Rightarrow> sched_error + sched" where
  "finish_job s i st error now = finish (Suc (length (sc_objects s))) s i st error now"

subsection \<open>Public API\<close>

definition create_job :: "sched \<Rightarrow> job_spec \<Rightarrow> sched_error + sched \<times> nat" where
  "create_job s sp = bind_sum (new_job sp) (\<lambda>j. Inr (s\<lparr>sc_objects := sc_objects s @ [j]\<rparr>, length (sc_objects s)))"

text \<open>The entry of \<open>submit\<close> into the tables.\<close>

definition register :: "sched \<Rightarrow> nat \<Rightarrow> rat \<Rightarrow> rat \<Rightarrow> sched" where
  "register s i delay now =
     (put_job s i ((job_at s i)\<lparr>jb_seq := sc_seq s, jb_submitted_at := now, jb_run_at := now + max 0 delay\<rparr>))
       \<lparr>sc_seq := sc_seq s + 1, sc_known := sc_known s @ [i], sc_unfinished := sc_unfinished s + 1, sc_idle := False\<rparr>"

definition block_on :: "sched \<Rightarrow> nat \<Rightarrow> nat list \<Rightarrow> sched" where
  "block_on s i unmet =
     s\<lparr>sc_blocked := (sc_blocked s)(i := Some (set unmet)),
       sc_dependents := (\<lambda>d. if d \<in> set unmet then sc_dependents s d @ [i] else sc_dependents s d)\<rparr>"

definition submit :: "sched \<Rightarrow> nat \<Rightarrow> rat \<Rightarrow> nat list \<Rightarrow> rat \<Rightarrow> sched_error + sched" where
  "submit s i delay depends_on now =
     (if sc_stopping s then Inl SchedulerStoppedError
      else if i \<in> set (sc_known s) \<or> status_of s i \<noteq> PENDING \<or> jb_attempts (job_at s i) \<noteq> 0 then Inl SchedulerError
      else (let deps = remdups depends_on
            in if list_ex (\<lambda>d. d \<notin> set (sc_known s)) deps then Inl UnknownJobError
               else (let s1 = register s i delay now
                     in (case find (\<lambda>d. is_terminal (status_of s1 d) \<and> status_of s1 d \<noteq> COMPLETED) deps of
                           Some d \<Rightarrow> finish_job s1 i CANCELLED (Some (Upstream_did_not_complete d)) now
                         | None \<Rightarrow>
                             (let unmet = filter (\<lambda>d. status_of s1 d \<noteq> COMPLETED) deps
                              in if unmet \<noteq> [] then Inr (block_on s1 i unmet) else Inr (enqueue s1 i now))))))"

definition cancel :: "sched \<Rightarrow> nat \<Rightarrow> rat \<Rightarrow> sched_error + sched \<times> bool" where
  "cancel s i now =
     (if i \<notin> set (sc_known s) \<or> is_terminal (status_of s i) then Inr (s, False)
      else if status_of s i = RUNNING then Inr (s\<lparr>sc_cancel_requested := insert i (sc_cancel_requested s)\<rparr>, True)
      else bind_sum (finish_job s i CANCELLED (Some Cancelled_note) now) (\<lambda>s1. Inr (s1, True)))"

definition get_job :: "sched \<Rightarrow> nat \<Rightarrow> sched_error + job" where
  "get_job s i = (if i \<in> set (sc_known s) then Inr (job_at s i) else Inl UnknownJobError)"

fun cancel_all :: "sched \<Rightarrow> nat list \<Rightarrow> rat \<Rightarrow> sched_error + sched" where
  "cancel_all s [] now = Inr s"
| "cancel_all s (i # is) now = bind_sum (cancel s i now) (\<lambda>(s1, b). cancel_all s1 is now)"

definition stop :: "sched \<Rightarrow> bool \<Rightarrow> rat \<Rightarrow> sched_error + sched" where
  "stop s cancel_running now =
     (let s1 = s\<lparr>sc_stopping := True\<rparr> in if cancel_running then cancel_all s1 (sc_attempts s1) now else Inr s1)"

subsection \<open>Workers\<close>

text \<open>The loop of \<open>_promote_due\<close>, over the delayed heap.\<close>

fun promote :: "strategy \<Rightarrow> job list \<Rightarrow> rat \<Rightarrow> ((rat \<times> nat) \<times> nat) list \<Rightarrow> (sort_key \<times> nat) list
    \<Rightarrow> ((rat \<times> nat) \<times> nat) list \<times> (sort_key \<times> nat) list" where
  "promote strat objs now [] ready = ([], ready)"
| "promote strat objs now (e # es) ready =
     (if fst (fst e) \<le> now
      then promote strat objs now es (if is_terminal (jb_status (objs ! snd e)) then ready else heap_push (job_key strat (objs ! snd e)) (snd e) ready)
      else (e # es, ready))"

definition promote_due :: "sched \<Rightarrow> rat \<Rightarrow> sched" where
  "promote_due s now =
     (let (delayed, ready) = promote (sc_strategy s) (sc_objects s) now (sc_delayed s) (sc_ready s)
      in s\<lparr>sc_delayed := delayed, sc_ready := ready\<rparr>)"

fun pop_live :: "job list \<Rightarrow> (sort_key \<times> nat) list \<Rightarrow> (sort_key \<times> nat) list \<times> nat option" where
  "pop_live objs [] = ([], None)"
| "pop_live objs (e # es) = (if is_terminal (jb_status (objs ! snd e)) then pop_live objs es else (es, Some (snd e)))"

definition take_next :: "sched \<Rightarrow> rat \<Rightarrow> sched_error + sched \<times> nat option" where
  "take_next s now =
     (let s1 = promote_due s now
      in (case pop_live (sc_objects s1) (sc_ready s1) of
            (ready, None) \<Rightarrow> Inr (s1\<lparr>sc_ready := ready\<rparr>, None)
          | (ready, Some i) \<Rightarrow> bind_sum (transition (s1\<lparr>sc_ready := ready\<rparr>) i RUNNING) (\<lambda>s2. Inr (s2, Some i))))"

definition begin_attempt :: "sched \<Rightarrow> nat \<Rightarrow> rat \<Rightarrow> sched" where
  "begin_attempt s i now =
     (put_job s i ((job_at s i)\<lparr>jb_attempts := jb_attempts (job_at s i) + 1, jb_started_at := Some now\<rparr>))
       \<lparr>sc_running := sc_running s + 1, sc_peak := max (sc_peak s) (sc_running s + 1), sc_attempts := sc_attempts s @ [i]\<rparr>"

text \<open>A worker that is not on a job looks for one, and starts its attempt without an await in between. There are
  \<open>sc_workers\<close> workers, each on at most one attempt.\<close>

definition dispatch :: "sched \<Rightarrow> rat \<Rightarrow> sched_error + sched \<times> nat option" where
  "dispatch s now =
     (if sc_workers s \<le> length (sc_attempts s) then Inr (s, None)
      else if sc_stopping s then Inr (s, None)
      else bind_sum (take_next s now) (\<lambda>(s1, r).
             (case r of None \<Rightarrow> Inr (s1, None) | Some i \<Rightarrow> Inr (begin_attempt s1 i now, Some i))))"

text \<open>How an attempt ended: not done within the timeout, cancelled, with an exception (retryable or not), with a result.\<close>

datatype outcome = Not_done | Was_cancelled | Exception string bool | Result string

definition after_failure :: "sched \<Rightarrow> nat \<Rightarrow> end_note \<Rightarrow> bool \<Rightarrow> bool \<Rightarrow> rat \<Rightarrow> rat \<Rightarrow> sched_error + sched" where
  "after_failure s i error retryable timed_out now r =
     (let s1 = put_job s i ((job_at s i)\<lparr>jb_last_error := Some error\<rparr>); j = job_at s1 i
      in if retryable \<and> int (jb_attempts j) \<le> rp_max_retries (jb_retry j) \<and> \<not> sc_stopping s1
         then bind_sum (transition (put_job s1 i (j\<lparr>jb_run_at := now + backoff (jb_retry j) (jb_attempts j) r\<rparr>)) i RETRY_WAIT) (\<lambda>s2.
                Inr (enqueue s2 i now))
         else finish_job s1 i (if timed_out then TIMED_OUT else FAILED) (Some error) now)"

definition end_attempt :: "sched \<Rightarrow> nat \<Rightarrow> outcome \<Rightarrow> rat \<Rightarrow> rat \<Rightarrow> sched_error + sched" where
  "end_attempt s i out now r =
     (let s1 = s\<lparr>sc_attempts := remove1 i (sc_attempts s), sc_running := sc_running s - 1\<rparr>
      in if i \<in> sc_cancel_requested s1 \<or> out = Was_cancelled then finish_job s1 i CANCELLED (Some Cancelled_note) now
         else (case out of
                 Not_done \<Rightarrow> after_failure s1 i Timed_out_note True True now r
               | Exception msg retryable \<Rightarrow> after_failure s1 i (Exception_note msg) retryable False now r
               | Result v \<Rightarrow> finish_job (put_job s1 i ((job_at s1 i)\<lparr>jb_result := Some v\<rparr>)) i COMPLETED None now
               | Was_cancelled \<Rightarrow> Inr s1))"

subsection \<open>Recurring jobs\<close>

definition schedule_recurring :: "sched \<Rightarrow> job_spec \<Rightarrow> rat \<Rightarrow> rat \<Rightarrow> bool \<Rightarrow> rat \<Rightarrow> sched_error + sched \<times> nat" where
  "schedule_recurring s sp interval start_in allow_overlap now =
     bind_sum (new_schedule sp interval (now + start_in) allow_overlap) (\<lambda>r.
       Inr (s\<lparr>sc_recurring := AList.update (sc_schedule_ids s) r (sc_recurring s), sc_schedule_ids := sc_schedule_ids s + 1\<rparr>, sc_schedule_ids s))"

definition cancel_recurring :: "sched \<Rightarrow> nat \<Rightarrow> sched \<times> bool" where
  "cancel_recurring s k =
     (case map_of (sc_recurring s) k of
        None \<Rightarrow> (s, False)
      | Some r \<Rightarrow> if \<not> rc_active r then (s, False) else (s\<lparr>sc_recurring := AList.update k (r\<lparr>rc_active := False\<rparr>) (sc_recurring s)\<rparr>, True))"

text \<open>What \<open>_fire\<close> raises is logged by the ticker; the schedule has advanced by then.\<close>

definition fire :: "sched \<Rightarrow> nat \<Rightarrow> schedule \<Rightarrow> rat \<Rightarrow> sched" where
  "fire s k r now =
     (let r1 = advance r now; s1 = s\<lparr>sc_recurring := AList.update k r1 (sc_recurring s)\<rparr>
      in if (case rc_last_job r1 of None \<Rightarrow> False | Some p \<Rightarrow> p \<in> set (sc_known s1) \<and> \<not> is_terminal (status_of s1 p)) \<and> \<not> rc_allow_overlap r1
         then s1\<lparr>sc_recurring := AList.update k (r1\<lparr>rc_skipped := rc_skipped r1 + 1\<rparr>) (sc_recurring s1)\<rparr>
         else (case bind_sum (create_job s1 (rc_spec r1)) (\<lambda>(s2, i). bind_sum (submit s2 i 0 [] now) (\<lambda>s3. Inr (s3, i))) of
                 Inl e \<Rightarrow> s1
               | Inr (s3, i) \<Rightarrow> s3\<lparr>sc_recurring := AList.update k (r1\<lparr>rc_last_job := Some i, rc_fired := rc_fired r1 + 1\<rparr>) (sc_recurring s3)\<rparr>))"

fun tick_each :: "sched \<Rightarrow> rat \<Rightarrow> (nat \<times> schedule) list \<Rightarrow> sched" where
  "tick_each s now [] = s"
| "tick_each s now ((k, r) # rs) =
     (if \<not> rc_active r then tick_each (s\<lparr>sc_recurring := AList.delete k (sc_recurring s)\<rparr>) now rs
      else if rc_next_run r \<le> now then tick_each (fire s k r now) now rs
      else tick_each s now rs)"

definition tick :: "sched \<Rightarrow> rat \<Rightarrow> sched" where
  "tick s now = (if sc_stopping s then s else tick_each s now (sc_recurring s))"

subsection \<open>The steps\<close>

datatype sched_op =
    Create job_spec
  | Submit nat rat "nat list" rat
  | Cancel nat rat
  | Dispatch rat
  | EndAttempt nat outcome rat rat
  | ScheduleRecurring job_spec rat rat bool rat
  | CancelRecurring nat
  | Tick rat
  | Stop bool rat

text \<open>A caller can only submit a job object that exists, and only an attempt in flight can end; a step that raises leaves
  the scheduler as it was.\<close>

fun sched_try :: "sched \<Rightarrow> sched_op \<Rightarrow> sched_error + sched" where
  "sched_try s (Create sp) = map_sum id fst (create_job s sp)"
| "sched_try s (Submit i delay deps now) = (if i < length (sc_objects s) then submit s i delay deps now else Inr s)"
| "sched_try s (Cancel i now) = map_sum id fst (cancel s i now)"
| "sched_try s (Dispatch now) = map_sum id fst (dispatch s now)"
| "sched_try s (EndAttempt i out now r) = (if i \<in> set (sc_attempts s) then end_attempt s i out now r else Inr s)"
| "sched_try s (ScheduleRecurring sp interval start_in allow now) = map_sum id fst (schedule_recurring s sp interval start_in allow now)"
| "sched_try s (CancelRecurring k) = Inr (fst (cancel_recurring s k))"
| "sched_try s (Tick now) = Inr (tick s now)"
| "sched_try s (Stop b now) = stop s b now"

definition sched_step :: "sched \<Rightarrow> sched_op \<Rightarrow> sched \<times> sched_error option" where
  "sched_step s op = (case sched_try s op of Inl e \<Rightarrow> (s, Some e) | Inr t \<Rightarrow> (t, None))"

end
