(* ===== verification/Job_Safety.thy ===== *)
theory Job_Safety
  imports Job_Scheduler
begin

text \<open>
  The invariant of \<open>Job_Scheduler\<close> and its preservation by every step. While \<open>_finish\<close> works through the dependents of
  jobs that just ended, the tables are in between: the invariant has the pairs (ended job, dependent) still to be
  handled, the number of ended jobs not yet counted, and the job that is in the hands of the running step.
\<close>

declare split_paired_All [simp del] split_paired_Ex [simp del]

section \<open>The invariant\<close>

definition active :: "sched \<Rightarrow> nat \<Rightarrow> bool" where
  "active s i \<longleftrightarrow> i \<in> set (sc_known s) \<and> \<not> is_terminal (status_of s i)"

definition queued :: "sched \<Rightarrow> nat list" where
  "queued s = map snd (sc_ready s) @ map snd (sc_delayed s)"

definition was_submitted :: "sched \<Rightarrow> nat \<Rightarrow> bool" where
  "was_submitted s i \<longleftrightarrow> i < length (sc_objects s) \<and> (i \<in> set (sc_known s) \<or> is_terminal (status_of s i))"

definition numbered :: "sched \<Rightarrow> bool" where
  "numbered s \<longleftrightarrow> distinct (sc_known s) \<and> (\<forall>i \<in> set (sc_known s). i < length (sc_objects s))
     \<and> (\<forall>i. was_submitted s i \<longrightarrow> jb_seq (job_at s i) < sc_seq s)
     \<and> (\<forall>i j. was_submitted s i \<longrightarrow> was_submitted s j \<longrightarrow> jb_seq (job_at s i) = jb_seq (job_at s j) \<longrightarrow> i = j)
     \<and> (\<forall>i \<in> set (sc_finished s). i < length (sc_objects s) \<and> is_terminal (status_of s i))
     \<and> (\<forall>u. \<forall>d \<in> set (sc_dependents s u). d < length (sc_objects s))"

definition heaps_ok :: "sched \<Rightarrow> bool" where
  "heaps_ok s \<longleftrightarrow> distinct (queued s) \<and> sorted (map fst (sc_ready s)) \<and> sorted (map fst (sc_delayed s))
     \<and> (\<forall>e \<in> set (sc_ready s). fst e = job_key (sc_strategy s) (job_at s (snd e)))
     \<and> (\<forall>e \<in> set (sc_delayed s). fst e = (jb_run_at (job_at s (snd e)), jb_seq (job_at s (snd e))))
     \<and> (\<forall>i \<in> set (queued s). was_submitted s i)"

text \<open>Where each unfinished job is: in flight, queued, blocked, or in the hands of the running step (\<open>X\<close>).\<close>

definition placed :: "nat set \<Rightarrow> sched \<Rightarrow> nat \<Rightarrow> bool" where
  "placed X s i \<longleftrightarrow>
     (if i \<in> X then i \<notin> set (sc_attempts s) \<and> i \<notin> set (queued s) \<and> sc_blocked s i = None
      else if status_of s i = RUNNING then i \<in> set (sc_attempts s) \<and> i \<notin> set (queued s) \<and> sc_blocked s i = None
      else i \<notin> set (sc_attempts s)
        \<and> (if i \<in> set (queued s) then sc_blocked s i = None else status_of s i = PENDING \<and> sc_blocked s i \<noteq> None))"

definition staffed :: "nat set \<Rightarrow> sched \<Rightarrow> bool" where
  "staffed X s \<longleftrightarrow> distinct (sc_attempts s) \<and> sc_cancel_requested s \<subseteq> set (sc_attempts s) \<union> X
     \<and> sc_running s = int (length (sc_attempts s)) \<and> length (sc_attempts s) \<le> sc_workers s \<and> sc_peak s \<le> int (sc_workers s) \<and> 0 < sc_workers s"

definition located :: "nat set \<Rightarrow> sched \<Rightarrow> bool" where
  "located X s \<longleftrightarrow> (\<forall>i. active s i \<longrightarrow> placed X s i) \<and> (\<forall>i \<in> set (sc_attempts s). active s i)
     \<and> (\<forall>i. sc_blocked s i \<noteq> None \<longrightarrow> active s i) \<and> staffed X s"

text \<open>The table of unmet dependencies and the table of dependents mirror each other.\<close>

definition linked :: "(nat \<times> nat) set \<Rightarrow> sched \<Rightarrow> bool" where
  "linked P s \<longleftrightarrow>
     (\<forall>d U. sc_blocked s d = Some U \<longrightarrow> U \<noteq> {} \<and> (\<forall>u \<in> U. jb_seq (job_at s u) < jb_seq (job_at s d)
        \<and> (if active s u then d \<in> set (sc_dependents s u) else (u, d) \<in> P)))
     \<and> (\<forall>u. \<not> active s u \<longrightarrow> sc_dependents s u = [])
     \<and> (\<forall>u. distinct (sc_dependents s u) \<and> (\<forall>d \<in> set (sc_dependents s u). is_terminal (status_of s d) \<or> (\<exists>U. sc_blocked s d = Some U \<and> u \<in> U)))
     \<and> (\<forall>u d. (u, d) \<in> P \<longrightarrow> is_terminal (status_of s u) \<and> (is_terminal (status_of s d) \<or> (\<exists>U. sc_blocked s d = Some U \<and> u \<in> U)))"

definition counted :: "nat \<Rightarrow> sched \<Rightarrow> bool" where
  "counted c s \<longleftrightarrow> sc_unfinished s = int (card {i. active s i}) + int c \<and> (sc_idle s \<longleftrightarrow> sc_unfinished s = 0)"

text \<open>The attempts of a job against its status and its retry policy.\<close>

definition tally_ok :: "job \<Rightarrow> bool" where
  "tally_ok j \<longleftrightarrow> (jb_status j = PENDING \<longrightarrow> jb_attempts j = 0) \<and> (jb_status j \<notin> {PENDING, CANCELLED} \<longrightarrow> 0 < jb_attempts j)
     \<and> int (jb_attempts j) \<le> max 0 (rp_max_retries (jb_retry j)) + 1 \<and> (jb_status j = RETRY_WAIT \<longrightarrow> int (jb_attempts j) \<le> rp_max_retries (jb_retry j))"

text \<open>\<open>D i\<close> has the dependencies with which \<open>i\<close> was submitted: \<open>i\<close> has not started unless they are complete.\<close>

definition deps_ok :: "(nat \<Rightarrow> nat set) \<Rightarrow> sched \<Rightarrow> bool" where
  "deps_ok D s \<longleftrightarrow> (\<forall>i. was_submitted s i \<longrightarrow> (\<forall>d \<in> D i. status_of s d = COMPLETED)
       \<or> jb_attempts (job_at s i) = 0 \<and> (is_terminal (status_of s i) \<or> (\<exists>U. sc_blocked s i = Some U \<and> (\<forall>d \<in> D i. status_of s d = COMPLETED \<or> d \<in> U))))
     \<and> (\<forall>i. \<forall>d \<in> D i. d < length (sc_objects s) \<and> was_submitted s d)"

definition fin_ok :: "(nat \<Rightarrow> nat set) \<Rightarrow> (nat \<times> nat) set \<Rightarrow> nat \<Rightarrow> nat set \<Rightarrow> sched \<Rightarrow> bool" where
  "fin_ok D P c X s \<longleftrightarrow> numbered s \<and> heaps_ok s \<and> located X s \<and> linked P s \<and> counted c s
     \<and> (\<forall>i < length (sc_objects s). tally_ok (job_at s i)) \<and> deps_ok D s"

abbreviation sched_ok :: "(nat \<Rightarrow> nat set) \<Rightarrow> sched \<Rightarrow> bool" where
  "sched_ok D s \<equiv> fin_ok D {} 0 {} s"

lemmas inv_defs = fin_ok_def numbered_def heaps_ok_def located_def linked_def counted_def deps_ok_def

section \<open>Small facts\<close>

lemma terminal_simps [simp]:
  "is_terminal COMPLETED" "is_terminal FAILED" "is_terminal TIMED_OUT" "is_terminal CANCELLED"
  "\<not> is_terminal PENDING" "\<not> is_terminal RUNNING" "\<not> is_terminal RETRY_WAIT"
  by (simp_all add: is_terminal_def)

lemma put_job_simps [simp]:
  "sc_strategy (put_job s i j) = sc_strategy s" "sc_workers (put_job s i j) = sc_workers s" "sc_known (put_job s i j) = sc_known s"
  "sc_ready (put_job s i j) = sc_ready s" "sc_delayed (put_job s i j) = sc_delayed s" "sc_blocked (put_job s i j) = sc_blocked s"
  "sc_dependents (put_job s i j) = sc_dependents s" "sc_attempts (put_job s i j) = sc_attempts s" "sc_finished (put_job s i j) = sc_finished s"
  "sc_cancel_requested (put_job s i j) = sc_cancel_requested s" "sc_seq (put_job s i j) = sc_seq s" "sc_unfinished (put_job s i j) = sc_unfinished s"
  "sc_running (put_job s i j) = sc_running s" "sc_peak (put_job s i j) = sc_peak s" "sc_idle (put_job s i j) = sc_idle s"
  "sc_stopping (put_job s i j) = sc_stopping s" "sc_limit (put_job s i j) = sc_limit s" "sc_recurring (put_job s i j) = sc_recurring s"
  "sc_log (put_job s i j) = sc_log s"
  "length (sc_objects (put_job s i j)) = length (sc_objects s)" "put_job (put_job s i j) i k = put_job s i k"
  by (simp_all add: put_job_def)

lemma job_at_put [simp]: "i < length (sc_objects s) \<Longrightarrow> job_at (put_job s i j) k = (if k = i then j else job_at s k)"
  by (simp add: job_at_def put_job_def)

lemma job_at_frame: "sc_objects t = sc_objects s \<Longrightarrow> job_at t = job_at s"
  by (simp add: job_at_def fun_eq_iff)

lemma active_less: "numbered s \<Longrightarrow> active s i \<Longrightarrow> i < length (sc_objects s)"
  by (auto simp: numbered_def active_def)

lemma active_submitted: "numbered s \<Longrightarrow> active s i \<Longrightarrow> was_submitted s i"
  by (auto simp: numbered_def active_def was_submitted_def)

lemma active_finite [simp]: "finite {i. active s i}"
  by (rule finite_subset [of _ "set (sc_known s)"]) (auto simp: active_def)

lemma fin_okD:
  assumes "fin_ok D P c X s"
  shows "numbered s" "heaps_ok s" "located X s" "linked P s" "counted c s" "\<And>i. i < length (sc_objects s) \<Longrightarrow> tally_ok (job_at s i)" "deps_ok D s"
  using assms by (simp_all add: fin_ok_def)

lemma locatedD:
  assumes "located X s"
  shows "active s i \<Longrightarrow> placed X s i" "i \<in> set (sc_attempts s) \<Longrightarrow> active s i" "sc_blocked s i = Some U \<Longrightarrow> active s i" "staffed X s"
  using assms by (auto simp: located_def)

lemma placed_running: "placed X s i \<Longrightarrow> i \<in> set (sc_attempts s) \<Longrightarrow> status_of s i = RUNNING"
  by (simp add: placed_def split: if_splits)

lemma placed_queued: "placed X s i \<Longrightarrow> i \<in> set (queued s) \<Longrightarrow> status_of s i \<noteq> RUNNING \<and> i \<notin> X \<and> i \<notin> set (sc_attempts s) \<and> sc_blocked s i = None"
  by (simp add: placed_def split: if_splits)

lemma placed_blocked: "placed X s i \<Longrightarrow> sc_blocked s i = Some U \<Longrightarrow> status_of s i = PENDING \<and> i \<notin> X \<and> i \<notin> set (sc_attempts s) \<and> i \<notin> set (queued s)"
  by (simp add: placed_def split: if_splits)

lemma deps_okD:
  assumes "deps_ok D s"
  shows "was_submitted s i \<Longrightarrow> (\<forall>d \<in> D i. status_of s d = COMPLETED) \<or> jb_attempts (job_at s i) = 0
      \<and> (is_terminal (status_of s i) \<or> (\<exists>U. sc_blocked s i = Some U \<and> (\<forall>d \<in> D i. status_of s d = COMPLETED \<or> d \<in> U)))"
    "d \<in> D i \<Longrightarrow> was_submitted s d"
  using assms unfolding deps_ok_def by (blast, blast)

section \<open>Ending a job\<close>

text \<open>The part of \<open>_finish\<close> before its loop.\<close>

definition ended :: "sched \<Rightarrow> nat \<Rightarrow> JobStatus \<Rightarrow> end_note option \<Rightarrow> rat \<Rightarrow> sched" where
  "ended s i st error now = forget ((put_job s i ((job_at s i)\<lparr>jb_last_error := (if error \<noteq> None then error else jb_last_error (job_at s i)),
     jb_finished_at := Some now, jb_status := st\<rparr>))\<lparr>sc_log := sc_log s @ [(i, status_of s i, st)]\<rparr>) i"

lemma ended_simps [simp]:
  "sc_strategy (ended s i st e now) = sc_strategy s" "sc_workers (ended s i st e now) = sc_workers s" "sc_known (ended s i st e now) = sc_known s"
  "sc_ready (ended s i st e now) = sc_ready s" "sc_delayed (ended s i st e now) = sc_delayed s" "sc_attempts (ended s i st e now) = sc_attempts s"
  "sc_blocked (ended s i st e now) = (sc_blocked s)(i := None)" "sc_dependents (ended s i st e now) = (sc_dependents s)(i := [])"
  "sc_finished (ended s i st e now) = sc_finished s" "sc_cancel_requested (ended s i st e now) = sc_cancel_requested s - {i}"
  "sc_seq (ended s i st e now) = sc_seq s" "sc_unfinished (ended s i st e now) = sc_unfinished s" "sc_running (ended s i st e now) = sc_running s"
  "sc_peak (ended s i st e now) = sc_peak s" "sc_idle (ended s i st e now) = sc_idle s" "sc_stopping (ended s i st e now) = sc_stopping s"
  "length (sc_objects (ended s i st e now)) = length (sc_objects s)" "queued (ended s i st e now) = queued s"
  "sc_limit (ended s i st e now) = sc_limit s" "sc_recurring (ended s i st e now) = sc_recurring s"
  "sc_log (ended s i st e now) = sc_log s @ [(i, status_of s i, st)]"
  by (simp_all add: ended_def forget_def queued_def)

lemma job_at_ended:
  "i < length (sc_objects s) \<Longrightarrow> job_at (ended s i st e now) k = (if k = i then (job_at s i)\<lparr>jb_last_error := (if e \<noteq> None then e else jb_last_error (job_at s i)),
     jb_finished_at := Some now, jb_status := st\<rparr> else job_at s k)"
proof -
  assume i: "i < length (sc_objects s)"
  have "job_at (ended s i st e now) = job_at (put_job s i ((job_at s i)\<lparr>jb_last_error := (if e \<noteq> None then e else jb_last_error (job_at s i)),
      jb_finished_at := Some now, jb_status := st\<rparr>))"
    by (rule job_at_frame) (simp add: ended_def forget_def)
  then show ?thesis using i by simp
qed

lemma job_key_status [simp]:
  "job_key strat (j\<lparr>jb_last_error := e, jb_finished_at := f, jb_status := st\<rparr>) = job_key strat j"
  "job_key strat (j\<lparr>jb_finished_at := f, jb_status := st\<rparr>) = job_key strat j"
  by (cases strat; simp)+

lemma active_ended:
  assumes "i < length (sc_objects s)" "is_terminal st"
  shows "active (ended s i st e now) k \<longleftrightarrow> active s k \<and> k \<noteq> i"
  using assms by (auto simp: active_def job_at_ended)

lemma submitted_ended:
  assumes "active s i" "i < length (sc_objects s)"
  shows "was_submitted (ended s i st e now) k = was_submitted s k"
  using assms by (auto simp: was_submitted_def job_at_ended active_def)

lemma ended_ok:
  assumes ok: "fin_ok D P c X s" and act: "active s i" and X: "X \<subseteq> {i}" and st: "is_terminal st"
    and tal: "st \<noteq> CANCELLED \<longrightarrow> 0 < jb_attempts (job_at s i)" and free: "i \<notin> set (sc_attempts s)"
  shows "fin_ok D (P \<union> Pair i ` set (sc_dependents s i)) (Suc c) {} (ended s i st e now)" (is "fin_ok D ?P _ _ ?t")
proof -
  note f = fin_okD [OF ok]
  have i: "i < length (sc_objects s)" by (rule active_less [OF f(1) act])
  note sub = submitted_ended [OF act i, of st e now] and act' = active_ended [OF i st, of e now] and job' = job_at_ended [OF i, of st e now]
  have live: "\<not> is_terminal (status_of s i)" using act by (simp add: active_def)
  have tm: "is_terminal (status_of ?t k) \<longleftrightarrow> is_terminal (status_of s k) \<or> k = i" for k using st by (simp add: job')
  have seq: "jb_seq (job_at ?t k) = jb_seq (job_at s k)" for k by (simp add: job')
  have 1: "numbered ?t" using f(1) by (simp add: numbered_def sub seq tm)
  have key: "job_key strat (job_at ?t k) = job_key strat (job_at s k)" "jb_run_at (job_at ?t k) = jb_run_at (job_at s k)" for strat k
    by (cases strat; simp add: job') (simp add: job')
  have 2: "heaps_ok ?t" using f(2) by (simp add: heaps_ok_def sub key seq)
  have 3: "located {} ?t" unfolding located_def
  proof (intro conjI allI impI ballI)
    fix k assume "active ?t k"
    then have k: "active s k" "k \<noteq> i" by (simp_all add: act')
    have "k \<notin> X" using X k(2) by blast
    then show "placed {} ?t k" using locatedD(1) [OF f(3) k(1)] k(2) by (simp add: placed_def job' split: if_splits)
  next
    fix k assume "k \<in> set (sc_attempts ?t)"
    then show "active ?t k" using locatedD(2) [OF f(3), of k] free by (auto simp: act')
  next
    fix k assume "sc_blocked ?t k \<noteq> None"
    then show "active ?t k" using locatedD(3) [OF f(3), of k] by (auto simp: act' split: if_splits)
  next
    show "staffed {} ?t" using locatedD(4) [OF f(3)] X by (auto simp: staffed_def)
  qed
  have 4: "linked ?P ?t" unfolding linked_def
  proof (intro conjI allI impI ballI)
    fix d U assume d: "sc_blocked ?t d = Some U"
    then have U: "sc_blocked s d = Some U" "d \<noteq> i" by (simp_all split: if_splits)
    then show "U \<noteq> {}" using f(4) by (simp add: linked_def)
    fix u assume u: "u \<in> U"
    show "jb_seq (job_at ?t u) < jb_seq (job_at ?t d)" using f(4) U u unfolding linked_def seq by blast
    have "if active s u then d \<in> set (sc_dependents s u) else (u, d) \<in> P" using f(4) U u unfolding linked_def by blast
    then show "if active ?t u then d \<in> set (sc_dependents ?t u) else (u, d) \<in> ?P" using act by (auto simp: act' split: if_splits)
  next
    fix u assume "\<not> active ?t u"
    then show "sc_dependents ?t u = []" using f(4) by (auto simp: linked_def act')
  next
    fix u show "distinct (sc_dependents ?t u)" using f(4) by (simp add: linked_def)
  next
    fix u d assume "d \<in> set (sc_dependents ?t u)"
    then have "d \<in> set (sc_dependents s u)" by (simp split: if_splits)
    then have "is_terminal (status_of s d) \<or> (\<exists>U. sc_blocked s d = Some U \<and> u \<in> U)" using f(4) unfolding linked_def by blast
    then show "is_terminal (status_of ?t d) \<or> (\<exists>U. sc_blocked ?t d = Some U \<and> u \<in> U)" by (auto simp: tm)
  next
    fix u d assume "(u, d) \<in> ?P"
    then consider "(u, d) \<in> P" | "u = i" "d \<in> set (sc_dependents s i)" by auto
    then have "(is_terminal (status_of s u) \<or> u = i) \<and> (is_terminal (status_of s d) \<or> (\<exists>U. sc_blocked s d = Some U \<and> u \<in> U))"
      using f(4) unfolding linked_def by cases blast+
    then show "is_terminal (status_of ?t u)" "is_terminal (status_of ?t d) \<or> (\<exists>U. sc_blocked ?t d = Some U \<and> u \<in> U)" by (auto simp: tm)
  qed
  have 5: "counted (Suc c) ?t"
  proof -
    have "{k. active ?t k} = {k. active s k} - {i}" by (auto simp: act')
    then have "card {k. active s k} = Suc (card {k. active ?t k})" using act by (metis active_finite card_Suc_Diff1 mem_Collect_eq)
    then show ?thesis using f(5) by (simp add: counted_def)
  qed
  have 6: "\<forall>k < length (sc_objects ?t). tally_ok (job_at ?t k)"
    using f(6) tal st by (auto simp: job' tally_ok_def)
  have 7: "deps_ok D ?t" unfolding deps_ok_def sub ended_simps
  proof (intro conjI allI impI)
    fix k assume k: "was_submitted s k"
    have c: "status_of ?t d = COMPLETED" if "status_of s d = COMPLETED" for d using that live by (auto simp: job')
    have att: "jb_attempts (job_at ?t k) = jb_attempts (job_at s k)" by (simp add: job')
    consider "\<forall>d \<in> D k. status_of s d = COMPLETED" | "jb_attempts (job_at s k) = 0" "is_terminal (status_of s k)"
      | U where "jb_attempts (job_at s k) = 0" "sc_blocked s k = Some U" "\<forall>d \<in> D k. status_of s d = COMPLETED \<or> d \<in> U"
      using deps_okD(1) [OF f(7) k] by metis
    then show "(\<forall>d \<in> D k. status_of ?t d = COMPLETED) \<or> jb_attempts (job_at ?t k) = 0 \<and> (is_terminal (status_of ?t k)
        \<or> (\<exists>U. ((sc_blocked s)(i := None)) k = Some U \<and> (\<forall>d \<in> D k. status_of ?t d = COMPLETED \<or> d \<in> U)))"
    proof cases
      case 1 then show ?thesis using c by blast
    next
      case 2 then show ?thesis by (simp add: att tm)
    next
      case 3
      show ?thesis
      proof (cases "k = i")
        case True then show ?thesis using 3(1) att tm by simp
      next
        case False
        then have "((sc_blocked s)(i := None)) k = Some U" using 3(2) by simp
        then show ?thesis using 3 c att by (auto 0 2)
      qed
    qed
  qed (use f(7) in \<open>auto simp: deps_ok_def\<close>)
  show ?thesis using 1 2 3 4 5 6 7 by (simp add: fin_ok_def)
qed

text \<open>Work that is skipped, a dependent that loses a dependency, and the count.\<close>

lemma skip_ok:
  assumes ok: "fin_ok D (insert (i, d) P) c {} s" and d: "\<not> active s d"
  shows "fin_ok D P c {} s"
proof -
  note f = fin_okD [OF ok]
  have "linked P s" unfolding linked_def
  proof (intro conjI allI impI ballI)
    fix d' U assume U: "sc_blocked s d' = Some U"
    then have "d' \<noteq> d" using locatedD(3) [OF f(3)] d by blast
    show "U \<noteq> {}" using f(4) U by (simp add: linked_def)
    fix u assume u: "u \<in> U"
    show "jb_seq (job_at s u) < jb_seq (job_at s d')" using f(4) U u unfolding linked_def by blast
    have "if active s u then d' \<in> set (sc_dependents s u) else (u, d') \<in> insert (i, d) P" using f(4) U u unfolding linked_def by blast
    then show "if active s u then d' \<in> set (sc_dependents s u) else (u, d') \<in> P" using \<open>d' \<noteq> d\<close> by auto
  qed (use f(4) in \<open>auto simp: linked_def\<close>)
  then show ?thesis using f by (simp add: fin_ok_def)
qed

lemma enqueue_simps [simp]:
  "sc_strategy (enqueue s i now) = sc_strategy s" "sc_workers (enqueue s i now) = sc_workers s" "sc_known (enqueue s i now) = sc_known s"
  "sc_objects (enqueue s i now) = sc_objects s" "sc_attempts (enqueue s i now) = sc_attempts s"
  "sc_blocked (enqueue s i now) = sc_blocked s" "sc_dependents (enqueue s i now) = sc_dependents s"
  "sc_finished (enqueue s i now) = sc_finished s" "sc_cancel_requested (enqueue s i now) = sc_cancel_requested s"
  "sc_seq (enqueue s i now) = sc_seq s" "sc_unfinished (enqueue s i now) = sc_unfinished s" "sc_running (enqueue s i now) = sc_running s"
  "sc_peak (enqueue s i now) = sc_peak s" "sc_idle (enqueue s i now) = sc_idle s" "sc_stopping (enqueue s i now) = sc_stopping s"
  "sc_limit (enqueue s i now) = sc_limit s" "sc_recurring (enqueue s i now) = sc_recurring s" "sc_log (enqueue s i now) = sc_log s"
  "job_at (enqueue s i now) = job_at s"
  by (simp_all add: enqueue_def Let_def job_at_def fun_eq_iff)

lemma set_heap_push [simp]: "set (heap_push k i h) = insert (k, i) (set h)"
  by (simp add: heap_push_def set_insort_key)

lemma sorted_heap_push [simp]: "sorted (map fst (heap_push k i h)) = sorted (map fst h)"
  by (simp add: heap_push_def sorted_insort_key)

lemma mset_heap_push: "mset (map snd (heap_push k i h)) = add_mset i (mset (map snd h))"
  by (simp add: heap_push_def)

lemma distinct_heap_push:
  "distinct (map snd (heap_push k i h) @ xs) \<longleftrightarrow> i \<notin> set (map snd h @ xs) \<and> distinct (map snd h @ xs)"
  "distinct (xs @ map snd (heap_push k i h)) \<longleftrightarrow> i \<notin> set (xs @ map snd h) \<and> distinct (xs @ map snd h)"
proof -
  have "mset (map snd (heap_push k i h) @ xs) = mset (i # map snd h @ xs)" "mset (xs @ map snd (heap_push k i h)) = mset (i # xs @ map snd h)"
    unfolding mset_append mset_heap_push by simp_all
  note m = this [THEN mset_eq_imp_distinct_iff]
  show "distinct (map snd (heap_push k i h) @ xs) \<longleftrightarrow> i \<notin> set (map snd h @ xs) \<and> distinct (map snd h @ xs)"
    unfolding m(1) by simp
  show "distinct (xs @ map snd (heap_push k i h)) \<longleftrightarrow> i \<notin> set (xs @ map snd h) \<and> distinct (xs @ map snd h)"
    unfolding m(2) by simp
qed

lemma set_queued_enqueue [simp]: "set (queued (enqueue s i now)) = insert i (set (queued s))"
  by (auto simp: queued_def enqueue_def Let_def)

lemma active_frame: "sc_known t = sc_known s \<Longrightarrow> job_at t = job_at s \<Longrightarrow> active t = active s"
  by (simp add: active_def fun_eq_iff)

lemma submitted_frame: "sc_known t = sc_known s \<Longrightarrow> sc_objects t = sc_objects s \<Longrightarrow> was_submitted t = was_submitted s"
  using job_at_frame [of t s] by (simp add: was_submitted_def fun_eq_iff)

lemma enqueue_heaps:
  assumes ok: "heaps_ok s" and i: "was_submitted s i" "i \<notin> set (queued s)"
  shows "heaps_ok (enqueue s i now)"
proof -
  let ?t = "enqueue s i now"
  have sub: "was_submitted ?t = was_submitted s" by (rule submitted_frame) simp_all
  have d: "distinct (queued ?t)"
    using ok i(2) unfolding queued_def enqueue_def Let_def heaps_ok_def by (simp add: distinct_heap_push del: distinct_append set_append)
  have r: "set (sc_ready ?t) \<subseteq> insert (job_key (sc_strategy s) (job_at s i), i) (set (sc_ready s))" "sorted (map fst (sc_ready ?t)) = sorted (map fst (sc_ready s))"
    "set (sc_delayed ?t) \<subseteq> insert ((jb_run_at (job_at s i), jb_seq (job_at s i)), i) (set (sc_delayed s))"
    "sorted (map fst (sc_delayed ?t)) = sorted (map fst (sc_delayed s))"
    by (auto simp: enqueue_def Let_def)
  show ?thesis
    unfolding heaps_ok_def sub using ok d i r by (auto simp: heaps_ok_def)
qed

lemma unblock_ok:
  assumes ok: "fin_ok D (insert (i, d) P) c {} s" and d: "active s d" and new: "(i, d) \<notin> P" and i: "status_of s i = COMPLETED"
  shows "fin_ok D P c {} (unblock s i d now)" "active (unblock s i d now) = active s" "job_at (unblock s i d now) = job_at s"
proof -
  note f = fin_okD [OF ok]
  have ia: "\<not> active s i" using i by (simp add: active_def)
  obtain U where U: "sc_blocked s d = Some U" "i \<in> U" using f(4) d unfolding linked_def active_def by blast
  define t0 where "t0 = s\<lparr>sc_blocked := (sc_blocked s)(d := if U - {i} = {} then None else Some (U - {i}))\<rparr>"
  define t where "t = (if U - {i} = {} then enqueue t0 d now else t0)"
  have unb: "unblock s i d now = t" using U by (simp add: unblock_def t_def t0_def Let_def)
  have t: "sc_blocked t = (sc_blocked s)(d := if U - {i} = {} then None else Some (U - {i}))"
    "sc_known t = sc_known s" "sc_objects t = sc_objects s" "sc_attempts t = sc_attempts s" "sc_dependents t = sc_dependents s" "sc_seq t = sc_seq s"
    "sc_finished t = sc_finished s" "sc_unfinished t = sc_unfinished s" "sc_idle t = sc_idle s" "sc_running t = sc_running s" "sc_peak t = sc_peak s"
    "sc_workers t = sc_workers s" "sc_cancel_requested t = sc_cancel_requested s" "set (queued t) = (if U - {i} = {} then insert d (set (queued s)) else set (queued s))"
    by (simp_all add: t_def t0_def) (simp add: queued_def)
  have j: "job_at t = job_at s" by (rule job_at_frame [OF t(3)])
  have a: "active t = active s" by (rule active_frame [OF t(2) j])
  have sub: "was_submitted t = was_submitted s" by (rule submitted_frame [OF t(2,3)])
  show "active (unblock s i d now) = active s" "job_at (unblock s i d now) = job_at s" using a j unb by simp_all
  have loc: "status_of s d = PENDING" "d \<notin> set (queued s)" "d \<notin> set (sc_attempts s)"
    using placed_blocked [OF locatedD(1) [OF f(3) d] U(1)] by simp_all
  have 1: "numbered t" using f(1) by (simp add: numbered_def t sub j)
  have 2: "heaps_ok t"
  proof -
    have "heaps_ok t0" using f(2) unfolding heaps_ok_def t0_def queued_def by (simp add: was_submitted_def job_at_def)
    moreover have "was_submitted t0 d" "d \<notin> set (queued t0)"
      using active_submitted [OF f(1) d] loc(2) by (simp_all add: t0_def was_submitted_def queued_def job_at_def)
    ultimately show ?thesis unfolding t_def by (simp add: enqueue_heaps)
  qed
  have 3: "located {} t" unfolding located_def a
  proof (intro conjI allI impI ballI)
    fix k assume k: "active s k"
    show "placed {} t k"
    proof (cases "k = d")
      case True then show ?thesis using loc by (simp add: placed_def t j)
    next
      case False then show ?thesis using locatedD(1) [OF f(3) k] by (simp add: placed_def t j split: if_splits)
    qed
  next
    fix k assume "sc_blocked t k \<noteq> None"
    then have "sc_blocked s k \<noteq> None" using U by (auto simp: t split: if_splits)
    then show "active s k" using locatedD(3) [OF f(3)] by blast
  qed (use locatedD(2,4) [OF f(3)] in \<open>simp_all add: staffed_def t\<close>)
  have 4: "linked P t" unfolding linked_def
  proof (intro conjI allI impI ballI)
    fix d' V assume "sc_blocked t d' = Some V"
    then obtain W where W: "sc_blocked s d' = Some W" "V \<subseteq> W" "if d' = d then V = W - {i} \<and> V \<noteq> {} else V = W"
      using U by (auto simp: t split: if_splits)
    show "V \<noteq> {}" using f(4) W by (auto simp: linked_def split: if_splits)
    fix u assume u: "u \<in> V"
    then have "u \<in> W" using W(2) by blast
    then have "jb_seq (job_at s u) < jb_seq (job_at s d') \<and> (if active s u then d' \<in> set (sc_dependents s u) else (u, d') \<in> insert (i, d) P)"
      using f(4) W(1) unfolding linked_def by blast
    then show "jb_seq (job_at t u) < jb_seq (job_at t d')" "if active t u then d' \<in> set (sc_dependents t u) else (u, d') \<in> P"
      using u W(3) by (auto simp: a j t split: if_splits)
  next
    fix u d' assume dd: "d' \<in> set (sc_dependents t u)"
    then have "u \<noteq> i" using f(4) ia by (auto simp: linked_def t)
    have "is_terminal (status_of s d') \<or> (\<exists>U. sc_blocked s d' = Some U \<and> u \<in> U)" using f(4) dd unfolding linked_def t by blast
    then show "is_terminal (status_of t d') \<or> (\<exists>U. sc_blocked t d' = Some U \<and> u \<in> U)" using U \<open>u \<noteq> i\<close> by (cases "d' = d") (auto simp: t j)
  next
    fix u d' assume dd: "(u, d') \<in> P"
    then have ne: "\<not> (u = i \<and> d' = d)" using new by auto
    have "is_terminal (status_of s u) \<and> (is_terminal (status_of s d') \<or> (\<exists>U. sc_blocked s d' = Some U \<and> u \<in> U))"
      using f(4) dd unfolding linked_def by blast
    then show "is_terminal (status_of t u)" "is_terminal (status_of t d') \<or> (\<exists>U. sc_blocked t d' = Some U \<and> u \<in> U)"
      using U ne by (cases "d' = d"; auto simp: t j)+
  qed (use f(4) in \<open>auto simp: linked_def t a\<close>)
  have 5: "counted c t" using f(5) by (simp add: counted_def t a)
  have 7: "deps_ok D t" unfolding deps_ok_def sub j t
  proof (intro conjI allI impI)
    fix k assume k: "was_submitted s k"
    have "(\<forall>x \<in> D k. status_of s x = COMPLETED) \<or> jb_attempts (job_at s k) = 0 \<and> (is_terminal (status_of s k)
        \<or> (\<exists>U. sc_blocked s k = Some U \<and> (\<forall>x \<in> D k. status_of s x = COMPLETED \<or> x \<in> U)))" using f(7) k unfolding deps_ok_def by blast
    then show "(\<forall>x \<in> D k. status_of s x = COMPLETED) \<or> jb_attempts (job_at s k) = 0 \<and> (is_terminal (status_of s k)
        \<or> (\<exists>V. ((sc_blocked s)(d := if U - {i} = {} then None else Some (U - {i}))) k = Some V \<and> (\<forall>x \<in> D k. status_of s x = COMPLETED \<or> x \<in> V)))"
      using U i by (cases "k = d") (auto split: if_splits)
  qed (use f(7) in \<open>auto simp: deps_ok_def\<close>)
  show "fin_ok D P c {} (unblock s i d now)" unfolding unb using 1 2 3 4 5 7 f(6) by (simp add: fin_ok_def t j)
qed

lemma count_down_ok:
  assumes ok: "fin_ok D P (Suc c) {} s" and i: "is_terminal (status_of s i)" "i < length (sc_objects s)"
  shows "fin_ok D P c {} (count_down s i)" "active (count_down s i) = active s" "job_at (count_down s i) = job_at s"
proof -
  note f = fin_okD [OF ok]
  let ?t = "count_down s i"
  define old where "old = take (length (sc_finished s @ [i]) - sc_limit s) (sc_finished s @ [i])"
  have old: "\<forall>k \<in> set old. is_terminal (status_of s k)" using f(1) i unfolding old_def by (auto simp: numbered_def dest: in_set_takeD)
  have t: "sc_known ?t = filter (\<lambda>k. k \<notin> set old) (sc_known s)" "sc_objects ?t = sc_objects s" "sc_attempts ?t = sc_attempts s"
    "sc_dependents ?t = sc_dependents s" "sc_seq ?t = sc_seq s" "sc_blocked ?t = sc_blocked s" "sc_unfinished ?t = sc_unfinished s - 1"
    "sc_running ?t = sc_running s" "sc_peak ?t = sc_peak s" "sc_workers ?t = sc_workers s" "sc_cancel_requested ?t = sc_cancel_requested s"
    "queued ?t = queued s" "sc_ready ?t = sc_ready s" "sc_delayed ?t = sc_delayed s" "sc_strategy ?t = sc_strategy s"
    "sc_idle ?t = (if sc_unfinished s = 1 then True else sc_idle s)"
    by (simp_all add: count_down_def remember_finished_def Let_def old_def queued_def)
  have fin: "set (sc_finished ?t) \<subseteq> set (sc_finished s) \<union> {i}"
    by (auto simp: count_down_def remember_finished_def Let_def dest: in_set_dropD)
  have j: "job_at ?t = job_at s" by (rule job_at_frame [OF t(2)])
  have a: "active ?t = active s" using old by (auto simp: active_def t j fun_eq_iff)
  have sub: "was_submitted ?t = was_submitted s" using old by (auto simp: was_submitted_def t j fun_eq_iff)
  show "active ?t = active s" "job_at ?t = job_at s" by (fact a, fact j)
  have "numbered ?t" using f(1) fin i by (auto simp: numbered_def t sub j)
  moreover have "heaps_ok ?t" using f(2) by (simp add: heaps_ok_def t sub j)
  moreover have "located {} ?t" using f(3) unfolding located_def placed_def staffed_def t a j .
  moreover have "linked P ?t" using f(4) by (simp add: linked_def t a j)
  moreover have "counted c ?t" using f(5) by (auto simp: counted_def t a)
  moreover have "deps_ok D ?t" using f(7) unfolding deps_ok_def sub t j .
  ultimately show "fin_ok D P c {} ?t" using f(6) by (simp add: fin_ok_def t j)
qed

section \<open>Finishing a job\<close>

text \<open>What finishing a job does to the others: some unfinished ones are cancelled, nothing else.\<close>

definition core :: "job \<Rightarrow> job" where
  "core j = j\<lparr>jb_status := PENDING, jb_last_error := None, jb_finished_at := None\<rparr>"

definition evolves :: "sched \<Rightarrow> sched \<Rightarrow> bool" where
  "evolves s t \<longleftrightarrow> sc_strategy t = sc_strategy s \<and> sc_workers t = sc_workers s \<and> sc_seq t = sc_seq s \<and> sc_attempts t = sc_attempts s
     \<and> sc_recurring t = sc_recurring s \<and> sc_stopping t = sc_stopping s \<and> length (sc_objects t) = length (sc_objects s)
     \<and> (\<forall>k. core (job_at t k) = core (job_at s k)) \<and> was_submitted t = was_submitted s \<and> (\<forall>k. active t k \<longrightarrow> active s k)
     \<and> (\<forall>k. status_of t k = status_of s k \<or> active s k \<and> status_of t k = CANCELLED)"

lemma evolves_refl [simp]: "evolves s s"
  by (simp add: evolves_def)

lemma evolves_trans: "evolves s t \<Longrightarrow> evolves t u \<Longrightarrow> evolves s u"
  unfolding evolves_def by metis

lemma evolvesD:
  assumes "evolves s t"
  shows "is_terminal (status_of s k) \<Longrightarrow> status_of t k = status_of s k" "sc_attempts t = sc_attempts s" "active t k \<Longrightarrow> active s k"
    "length (sc_objects t) = length (sc_objects s)" "was_submitted t = was_submitted s"
  using assms by (auto simp: evolves_def active_def)

lemma core_same:
  assumes "core j = core k"
  shows "jb_attempts j = jb_attempts k" "jb_retry j = jb_retry k" "jb_seq j = jb_seq k" "jb_priority j = jb_priority k"
    "jb_deadline j = jb_deadline k" "jb_submitted_at j = jb_submitted_at k" "jb_run_at j = jb_run_at k" "jb_result j = jb_result k"
  using assms by (cases j; cases k; simp add: core_def)+

lemma evolves_unblock:
  assumes "active (unblock s i d now) = active s" "job_at (unblock s i d now) = job_at s"
  shows "evolves s (unblock s i d now)"
proof -
  have "sc_known (unblock s i d now) = sc_known s \<and> sc_objects (unblock s i d now) = sc_objects s"
    by (simp add: unblock_def Let_def split: option.split)
  then have "was_submitted (unblock s i d now) = was_submitted s" using submitted_frame [of "unblock s i d now" s] by blast
  then show ?thesis using assms by (simp add: evolves_def) (simp add: unblock_def Let_def split: option.split)
qed

lemma evolves_count_down:
  assumes "fin_ok D P (Suc c) {} s" "is_terminal (status_of s i)" "i < length (sc_objects s)"
  shows "evolves s (count_down s i)"
proof -
  note c = count_down_ok [OF assms]
  have "set (sc_known s) - set (sc_known (count_down s i)) \<subseteq> {k. is_terminal (status_of s k)}"
    using fin_okD(1) [OF assms(1)] assms(2)
    by (auto simp: count_down_def remember_finished_def Let_def numbered_def dest!: in_set_takeD)
  moreover have "set (sc_known (count_down s i)) \<subseteq> set (sc_known s)" by (auto simp: count_down_def remember_finished_def Let_def)
  moreover have "sc_objects (count_down s i) = sc_objects s" by (simp add: count_down_def remember_finished_def Let_def)
  ultimately have "was_submitted (count_down s i) = was_submitted s" by (auto simp: was_submitted_def c(3) fun_eq_iff)
  then show ?thesis using c(2,3) by (simp add: evolves_def) (simp add: count_down_def remember_finished_def Let_def)
qed

lemma evolves_ended:
  assumes "fin_ok D P c X s" "active s d"
  shows "evolves s (ended s d CANCELLED e now)"
proof -
  have d: "d < length (sc_objects s)" by (rule active_less [OF fin_okD(1) [OF assms(1)] assms(2)])
  show ?thesis using assms(2) d submitted_ended [OF assms(2) d, of CANCELLED e now] active_ended [OF d, of CANCELLED e now]
    by (simp add: evolves_def fun_eq_iff) (simp add: job_at_ended core_def)
qed

lemma cancel_allowed: "\<not> is_terminal st \<Longrightarrow> CANCELLED \<in> transitions st"
  by (cases st) simp_all

lemma ended_transition:
  assumes "i < length (sc_objects s)" "\<not> is_terminal (status_of s i)" "st \<in> transitions (status_of s i)"
  shows "transition (note_end s i e now) i st = Inr ((put_job s i ((job_at s i)\<lparr>jb_last_error := (if e \<noteq> None then e else jb_last_error (job_at s i)),
      jb_finished_at := Some now, jb_status := st\<rparr>))\<lparr>sc_log := sc_log s @ [(i, status_of s i, st)]\<rparr>)"
  using assms by (simp add: transition_def note_end_def Let_def)

lemma finish_Suc:
  assumes "i < length (sc_objects s)" "\<not> is_terminal (status_of s i)" "st \<in> transitions (status_of s i)"
  shows "finish (Suc n) s i st e now = bind_sum (settle n (ended s i st e now) i st (sc_dependents s i) now) (\<lambda>s2. Inr (count_down s2 i))"
  using assms ended_transition [OF assms, of e now] by (simp add: ended_def)

lemma finish_settle_ok:
  "fin_ok D P c X s \<Longrightarrow> active s i \<Longrightarrow> X \<subseteq> {i} \<Longrightarrow> is_terminal st \<Longrightarrow> st \<in> transitions (status_of s i)
     \<Longrightarrow> (st \<noteq> CANCELLED \<longrightarrow> 0 < jb_attempts (job_at s i)) \<Longrightarrow> i \<notin> set (sc_attempts s) \<Longrightarrow> card {k. active s k} \<le> n
     \<Longrightarrow> \<exists>t. finish n s i st e now = Inr t \<and> fin_ok D P c {} t \<and> evolves (ended s i st e now) t"
  "fin_ok D (Q \<union> Pair i ` set ds) b {} s \<Longrightarrow> distinct ds \<Longrightarrow> (\<forall>d \<in> set ds. (i, d) \<notin> Q) \<Longrightarrow> is_terminal st \<Longrightarrow> status_of s i = st
     \<Longrightarrow> card {k. active s k} \<le> n \<Longrightarrow> \<exists>t. settle n s i st ds now = Inr t \<and> fin_ok D Q b {} t \<and> evolves s t"
proof (induction n s i st e now and n s i st ds now arbitrary: P c X and Q b rule: finish_settle.induct)
  case (1 s i st e now)
  then show ?case by (metis active_finite card_eq_0_iff empty_iff le_zero_eq mem_Collect_eq)
next
  case (2 n s i st e now)
  note f = fin_okD [OF 2(2)]
  have i: "i < length (sc_objects s)" "\<not> is_terminal (status_of s i)" using active_less [OF f(1) 2(3)] 2(3) by (simp_all add: active_def)
  let ?t = "ended s i st e now"
  have eok: "fin_ok D (P \<union> Pair i ` set (sc_dependents s i)) (Suc c) {} ?t" by (rule ended_ok [OF 2(2,3,4,5) 2(7,8)])
  have fresh: "\<forall>d \<in> set (sc_dependents s i). (i, d) \<notin> P" using f(4) i(2) unfolding linked_def by blast
  have dis: "distinct (sc_dependents s i)" using f(4) by (simp add: linked_def)
  have sti: "status_of ?t i = st" using i by (simp add: job_at_ended)
  have "{k. active ?t k} = {k. active s k} - {i}" using active_ended [OF i(1) 2(5)] by auto
  then have cardn: "card {k. active ?t k} \<le> n" using 2(3,9) by (metis active_finite card_Suc_Diff1 mem_Collect_eq not_less_eq_eq)
  define s1 where "s1 = (put_job s i ((job_at s i)\<lparr>jb_last_error := (if e \<noteq> None then e else jb_last_error (job_at s i)),
      jb_finished_at := Some now, jb_status := st\<rparr>))\<lparr>sc_log := sc_log s @ [(i, status_of s i, st)]\<rparr>"
  have tr: "transition (note_end s i e now) i st = Inr s1" unfolding s1_def by (rule ended_transition [OF i 2(6)])
  have s1: "forget s1 i = ?t" "sc_dependents s1 i = sc_dependents s i" by (simp_all add: s1_def ended_def)
  obtain t where t: "settle n ?t i st (sc_dependents s i) now = Inr t" "fin_ok D P (Suc c) {} t" "evolves ?t t"
    using 2(1) [OF i(2) tr, unfolded s1, OF eok dis fresh 2(5) sti cardn] by blast
  have trm: "is_terminal (status_of t i)" "i < length (sc_objects t)" using evolvesD(1) [OF t(3), of i] evolvesD(4) [OF t(3)] sti 2(5) i(1) by simp_all
  show ?case
    using finish_Suc [OF i 2(6)] t(1) count_down_ok(1) [OF t(2) trm] evolves_trans [OF t(3) evolves_count_down [OF t(2) trm]] by simp
next
  case (3 n s i st now)
  then show ?case by simp
next
  case (4 n s i st d ds now)
  note f = fin_okD [OF 4(5)]
  let ?Q = "Q \<union> Pair i ` set ds"
  have Q: "Q \<union> Pair i ` set (d # ds) = insert (i, d) ?Q" by auto
  have ok: "fin_ok D (insert (i, d) ?Q) b {} s" using 4(5) unfolding Q .
  have dis: "distinct ds" "\<forall>d \<in> set ds. (i, d) \<notin> Q" "(i, d) \<notin> ?Q" using 4(6,7) by auto
  show ?case
  proof (cases "active s d")
    case False
    then have "d \<notin> set (sc_known s) \<or> is_terminal (status_of s d)" by (simp add: active_def)
    then show ?thesis using 4(1) [OF _ skip_ok [OF ok False] dis(1,2) 4(8,9,10)] by simp
  next
    case True
    then have go: "\<not> (d \<notin> set (sc_known s) \<or> is_terminal (status_of s d))" by (simp add: active_def)
    show ?thesis
    proof (cases "st = COMPLETED")
      case c: True
      note u = unblock_ok [OF ok True dis(3), of now]
      have si: "status_of s i = COMPLETED" using 4(9) c by simp
      have "\<exists>t. settle n (unblock s i d now) i st ds now = Inr t \<and> fin_ok D Q b {} t \<and> evolves (unblock s i d now) t"
        by (rule 4(2) [OF go c u(1) [OF si] dis(1,2) 4(8)]) (use u(2,3) [OF si] 4(9,10) in simp_all)
      then show ?thesis using go c evolves_trans [OF evolves_unblock [OF u(2,3) [OF si]]] by auto
    next
      case c: False
      obtain U where U: "sc_blocked s d = Some U" using f(4) True unfolding linked_def active_def Q by blast
      have free: "d \<notin> set (sc_attempts s)" using placed_blocked [OF locatedD(1) [OF f(3) True] U] by simp
      have can: "CANCELLED \<in> transitions (status_of s d)" using go by (simp add: cancel_allowed)
      obtain s1 where s1: "finish n s d CANCELLED (Some (Upstream_ended i st)) now = Inr s1" "fin_ok D (insert (i, d) ?Q) b {} s1"
          "evolves (ended s d CANCELLED (Some (Upstream_ended i st)) now) s1"
        using 4(3) [OF go c ok True _ _ can _ free 4(10)] by auto
      have ev: "evolves s s1" by (rule evolves_trans [OF evolves_ended [OF ok True] s1(3)])
      have si: "status_of s1 i = st" using evolvesD(1) [OF ev, of i] 4(8,9) by simp
      have d: "d < length (sc_objects s)" by (rule active_less [OF f(1) True])
      have "status_of s1 d = CANCELLED" using evolvesD(1) [OF s1(3), of d] d by (simp add: job_at_ended)
      then have nd: "\<not> active s1 d" by (simp add: active_def)
      have "card {k. active s1 k} \<le> card {k. active s k}" by (rule card_mono) (use evolvesD(3) [OF ev] in auto)
      then obtain t where "settle n s1 i st ds now = Inr t" "fin_ok D Q b {} t" "evolves s1 t"
        using 4(4) [OF go c _ skip_ok [OF s1(2) nd] dis(1,2) 4(8) si] s1(1) 4(10) by auto
      then show ?thesis using go c s1(1) evolves_trans [OF ev] by auto
    qed
  qed
qed

end
