(* ===== verification/Job_Steps.thy ===== *)
theory Job_Steps
  imports Job_Safety
begin

text \<open>
  Every step of \<open>Job_Scheduler\<close> keeps the invariant of \<open>Job_Safety\<close> and never fails in a way the code does not mean:
  no illegal transition, no unbounded cascade. A step takes a job in hand (out of a heap, off its attempt, fresh from its
  caller), changes it, and puts it down: in a heap, blocked, in flight, or finished.
\<close>

declare split_paired_All [simp del] split_paired_Ex [simp del]

section \<open>Frames\<close>

lemma fin_ok_frame:
  assumes "sc_objects t = sc_objects s" "sc_known t = sc_known s" "sc_strategy t = sc_strategy s" "sc_workers t = sc_workers s"
    "sc_ready t = sc_ready s" "sc_delayed t = sc_delayed s" "sc_blocked t = sc_blocked s" "sc_dependents t = sc_dependents s"
    "sc_attempts t = sc_attempts s" "sc_cancel_requested t = sc_cancel_requested s" "sc_finished t = sc_finished s" "sc_seq t = sc_seq s"
    "sc_unfinished t = sc_unfinished s" "sc_running t = sc_running s" "sc_peak t = sc_peak s" "sc_idle t = sc_idle s"
  shows "fin_ok D P c X t = fin_ok D P c X s" "active t = active s" "was_submitted t = was_submitted s"
proof -
  have j: "job_at t = job_at s" by (rule job_at_frame [OF assms(1)])
  have a: "active t = active s" by (rule active_frame [OF assms(2) j])
  have b: "was_submitted t = was_submitted s" by (rule submitted_frame [OF assms(2,1)])
  have q: "queued t = queued s" by (simp add: queued_def assms)
  show "active t = active s" "was_submitted t = was_submitted s" by (fact a, fact b)
  show "fin_ok D P c X t = fin_ok D P c X s"
    unfolding fin_ok_def numbered_def heaps_ok_def located_def placed_def staffed_def linked_def counted_def deps_ok_def a b q j assms ..
qed

text \<open>Only the queues, the attempts and the counters of the workers changed.\<close>

lemma fin_ok_relocate:
  assumes ok: "fin_ok D P c X s" and same: "sc_objects t = sc_objects s" "sc_known t = sc_known s" "sc_blocked t = sc_blocked s"
      "sc_dependents t = sc_dependents s" "sc_finished t = sc_finished s" "sc_seq t = sc_seq s" "sc_unfinished t = sc_unfinished s" "sc_idle t = sc_idle s"
    and h: "heaps_ok t" and l: "located Y t"
  shows "fin_ok D P c Y t"
proof -
  have j: "job_at t = job_at s" by (rule job_at_frame [OF same(1)])
  have a: "active t = active s" by (rule active_frame [OF same(2) j])
  have b: "was_submitted t = was_submitted s" by (rule submitted_frame [OF same(2,1)])
  note f = fin_okD [OF ok]
  have "numbered t" using f(1) unfolding numbered_def same b j .
  moreover have "linked P t" using f(4) unfolding linked_def a j same .
  moreover have "counted c t" using f(5) unfolding counted_def a same .
  moreover have "deps_ok D t" using f(7) unfolding deps_ok_def b j same .
  ultimately show ?thesis using f(6) h l by (simp add: fin_ok_def j same)
qed

lemma card_active: "numbered s \<Longrightarrow> card {k. active s k} \<le> length (sc_objects s)"
proof -
  assume n: "numbered s"
  have "{k. active s k} \<subseteq> {..<length (sc_objects s)}" using active_less [OF n] by auto
  then show ?thesis using card_mono [of "{..<length (sc_objects s)}"] by fastforce
qed

lemma finish_job_ok:
  assumes "fin_ok D P c X s" "active s i" "X \<subseteq> {i}" "is_terminal st" "st \<in> transitions (status_of s i)"
    "st \<noteq> CANCELLED \<longrightarrow> 0 < jb_attempts (job_at s i)" "i \<notin> set (sc_attempts s)"
  shows "\<exists>t. finish_job s i st e now = Inr t \<and> fin_ok D P c {} t \<and> evolves (ended s i st e now) t"
  unfolding finish_job_def by (rule finish_settle_ok(1) [OF assms]) (use card_active [OF fin_okD(1) [OF assms(1)]] in simp)

section \<open>Taking a job in hand\<close>

text \<open>A job in hand may be changed.\<close>

lemma put_in_hand:
  assumes ok: "fin_ok D P c {i} s" and act: "active s i" and j: "jb_seq j = jb_seq (job_at s i)" "\<not> is_terminal (jb_status j)" "tally_ok j"
  shows "fin_ok D P c {i} (put_job s i j)" "active (put_job s i j) = active s" "was_submitted (put_job s i j) = was_submitted s"
proof -
  note f = fin_okD [OF ok]
  let ?t = "put_job s i j"
  have i: "i < length (sc_objects s)" by (rule active_less [OF f(1) act])
  have tm: "is_terminal (status_of ?t k) = is_terminal (status_of s k)" for k using i act j(2) by (simp add: active_def)
  have a: "active ?t = active s" using tm by (simp add: active_def fun_eq_iff)
  have b: "was_submitted ?t = was_submitted s" using tm by (simp add: was_submitted_def fun_eq_iff)
  have seq: "jb_seq (job_at ?t k) = jb_seq (job_at s k)" for k using i j(1) by simp
  have q: "queued ?t = queued s" by (simp add: queued_def)
  have pl: "placed {i} s i" by (rule locatedD(1) [OF f(3) act])
  have hand: "i \<notin> set (queued s)" "sc_blocked s i = None" "i \<notin> set (sc_attempts s)" using pl by (simp_all add: placed_def)
  show "active ?t = active s" "was_submitted ?t = was_submitted s" by (fact a, fact b)
  have 1: "numbered ?t" using f(1) by (simp add: numbered_def b seq tm)
  have 2: "heaps_ok ?t"
  proof -
    have "job_at ?t k = job_at s k" if "k \<in> set (queued s)" for k using that hand(1) i by auto
    then have "\<And>e. e \<in> set (sc_ready s) \<Longrightarrow> job_at ?t (snd e) = job_at s (snd e)" "\<And>e. e \<in> set (sc_delayed s) \<Longrightarrow> job_at ?t (snd e) = job_at s (snd e)"
      by (simp_all add: queued_def)
    then show ?thesis using f(2) by (simp add: heaps_ok_def b q)
  qed
  have 3: "located {i} ?t" unfolding located_def a
  proof (intro conjI allI impI ballI)
    fix k assume "active s k"
    then show "placed {i} ?t k" using locatedD(1) [OF f(3), of k] i hand by (cases "k = i") (simp_all add: placed_def q)
  qed (use locatedD(2,3,4) [OF f(3)] in \<open>auto simp: staffed_def\<close>)
  have 4: "linked P ?t" using f(4) unfolding linked_def a seq tm put_job_simps .
  have 5: "counted c ?t" using f(5) by (simp add: counted_def a)
  have 6: "\<forall>k < length (sc_objects ?t). tally_ok (job_at ?t k)" using f(6) i j(3) by simp
  have 7: "deps_ok D ?t" unfolding deps_ok_def b tm put_job_simps
  proof (intro conjI allI impI)
    fix k assume k: "was_submitted s k"
    have c: "status_of ?t d = COMPLETED" if "status_of s d = COMPLETED" for d
    proof -
      have "d \<noteq> i" using that act by (auto simp: active_def)
      then show ?thesis using that i by simp
    qed
    show "(\<forall>d \<in> D k. status_of ?t d = COMPLETED) \<or> jb_attempts (job_at ?t k) = 0 \<and> (is_terminal (status_of s k)
        \<or> (\<exists>U. sc_blocked s k = Some U \<and> (\<forall>d \<in> D k. status_of ?t d = COMPLETED \<or> d \<in> U)))"
    proof (cases "k = i")
      case True
      then have "\<forall>d \<in> D k. status_of s d = COMPLETED" using deps_okD(1) [OF f(7) k] hand(2) act by (auto simp: active_def)
      then show ?thesis using c by blast
    next
      case False
      then have "jb_attempts (job_at ?t k) = jb_attempts (job_at s k)" using i by simp
      then show ?thesis using deps_okD(1) [OF f(7) k] c by metis
    qed
  qed (use f(7) in \<open>auto simp: deps_ok_def\<close>)
  show "fin_ok D P c {i} ?t" using 1 2 3 4 5 6 7 by (simp add: fin_ok_def)
qed

text \<open>Down in a heap, down in flight, and off the attempt again.\<close>

lemma enqueue_ok:
  assumes ok: "fin_ok D P c {i} s" and act: "active s i" "status_of s i \<noteq> RUNNING" and nc: "i \<notin> sc_cancel_requested s"
  shows "fin_ok D P c {} (enqueue s i now)"
proof -
  note f = fin_okD [OF ok]
  let ?t = "enqueue s i now"
  have j: "job_at ?t = job_at s" by simp
  have a: "active ?t = active s" by (rule active_frame) simp_all
  have b: "was_submitted ?t = was_submitted s" by (rule submitted_frame) simp_all
  have hand: "i \<notin> set (queued s)" "sc_blocked s i = None" "i \<notin> set (sc_attempts s)"
    using locatedD(1) [OF f(3) act(1)] by (simp_all add: placed_def)
  have "located {} ?t" unfolding located_def a
  proof (intro conjI allI impI ballI)
    fix k assume k: "active s k"
    show "placed {} ?t k"
    proof (cases "k = i")
      case True then show ?thesis using hand act by (simp add: placed_def)
    next
      case False then show ?thesis using locatedD(1) [OF f(3) k] by (simp add: placed_def split: if_splits)
    qed
  next
    show "staffed {} ?t" using locatedD(4) [OF f(3)] nc by (auto simp: staffed_def)
  qed (use locatedD(2,3) [OF f(3)] in auto)
  moreover have "heaps_ok ?t" by (rule enqueue_heaps [OF f(2) active_submitted [OF f(1) act(1)] hand(1)])
  ultimately show ?thesis using fin_ok_relocate [OF ok, of ?t] by (simp)
qed

lemma board_ok:
  assumes ok: "fin_ok D P c {i} s" and act: "active s i" "status_of s i = RUNNING" and nc: "i \<notin> sc_cancel_requested s"
    and room: "length (sc_attempts s) < sc_workers s"
  shows "fin_ok D P c {} (s\<lparr>sc_running := sc_running s + 1, sc_peak := max (sc_peak s) (sc_running s + 1), sc_attempts := sc_attempts s @ [i]\<rparr>)"
    (is "fin_ok D P c {} ?t")
proof -
  note f = fin_okD [OF ok]
  have j: "job_at ?t = job_at s" by (rule job_at_frame) simp
  have a: "active ?t = active s" by (rule active_frame [OF _ j]) simp
  have b: "was_submitted ?t = was_submitted s" by (rule submitted_frame) simp_all
  have q: "queued ?t = queued s" by (simp add: queued_def)
  have hand: "i \<notin> set (queued s)" "sc_blocked s i = None" "i \<notin> set (sc_attempts s)"
    using locatedD(1) [OF f(3) act(1)] by (simp_all add: placed_def)
  have "located {} ?t" unfolding located_def a
  proof (intro conjI allI impI ballI)
    fix k assume k: "active s k"
    show "placed {} ?t k"
    proof (cases "k = i")
      case True then show ?thesis using hand act by (simp add: placed_def j q)
    next
      case False then show ?thesis using locatedD(1) [OF f(3) k] by (simp add: placed_def j q split: if_splits)
    qed
  next
    show "staffed {} ?t" using locatedD(4) [OF f(3)] nc hand(3) room by (auto simp: staffed_def)
  qed (use locatedD(2,3) [OF f(3)] act(1) in auto)
  moreover have "heaps_ok ?t" using f(2) by (simp add: heaps_ok_def q j b)
  ultimately show ?thesis using fin_ok_relocate [OF ok, of ?t] by (simp)
qed

definition off_attempt :: "sched \<Rightarrow> nat \<Rightarrow> sched" where
  "off_attempt s i = s\<lparr>sc_attempts := remove1 i (sc_attempts s), sc_running := sc_running s - 1\<rparr>"

lemma retire_ok:
  assumes ok: "fin_ok D P c {} s" and i: "i \<in> set (sc_attempts s)"
  shows "fin_ok D P c {i} (off_attempt s i)" "active (off_attempt s i) = active s" "job_at (off_attempt s i) = job_at s"
    "was_submitted (off_attempt s i) = was_submitted s"
proof -
  let ?t = "s\<lparr>sc_attempts := remove1 i (sc_attempts s), sc_running := sc_running s - 1\<rparr>"
  have t: "off_attempt s i = ?t" by (rule off_attempt_def)
  note f = fin_okD [OF ok]
  have j: "job_at ?t = job_at s" by (rule job_at_frame) simp
  have a: "active ?t = active s" by (rule active_frame [OF _ j]) simp
  have b: "was_submitted ?t = was_submitted s" by (rule submitted_frame) simp_all
  have q: "queued ?t = queued s" by (simp add: queued_def)
  have st: "staffed {} s" by (rule locatedD(4) [OF f(3)])
  then have att: "set (sc_attempts ?t) = set (sc_attempts s) - {i}" by (simp add: staffed_def set_remove1_eq)
  show "active (off_attempt s i) = active s" "job_at (off_attempt s i) = job_at s" "was_submitted (off_attempt s i) = was_submitted s"
    unfolding t by (fact a, fact j, fact b)
  have "located {i} ?t" unfolding located_def a
  proof (intro conjI allI impI ballI)
    fix k assume k: "active s k"
    show "placed {i} ?t k"
    proof (cases "k = i")
      case True
      then show ?thesis using locatedD(1) [OF f(3) k] i att by (simp add: placed_def j q split: if_splits)
    next
      case False then show ?thesis using locatedD(1) [OF f(3) k] att by (simp add: placed_def j q split: if_splits)
    qed
  next
    have "length (sc_attempts s) = Suc (length (remove1 i (sc_attempts s)))" using i by (simp add: length_remove1) (cases "sc_attempts s"; simp)
    then show "staffed {i} ?t" using st att unfolding staffed_def by auto
  next
    fix k assume "k \<in> set (sc_attempts ?t)" then show "active s k" using locatedD(2) [OF f(3)] att by auto
  qed (use locatedD(3) [OF f(3)] in auto)
  moreover have "heaps_ok ?t" using f(2) by (simp add: heaps_ok_def q j b)
  ultimately show "fin_ok D P c {i} (off_attempt s i)" using fin_ok_relocate [OF ok, of ?t] by (simp add: t)
qed

section \<open>Out of the heaps\<close>

lemma promote_ok:
  assumes "promote strat objs now d r = (d', r')"
  shows "distinct (map snd r @ map snd d) \<Longrightarrow> distinct (map snd r' @ map snd d')" "\<exists>pre. d = pre @ d'"
    "sorted (map fst r') = sorted (map fst r)" "set r' \<subseteq> set r \<union> (\<lambda>e. (job_key strat (objs ! snd e), snd e)) ` set d"
    "set r \<subseteq> set r'" "\<And>e. e \<in> set d \<Longrightarrow> is_terminal (jb_status (objs ! snd e)) \<or> snd e \<in> snd ` set r' \<union> snd ` set d'"
proof -
  have "(distinct (map snd r @ map snd d) \<longrightarrow> distinct (map snd r' @ map snd d')) \<and> (\<exists>pre. d = pre @ d')
    \<and> sorted (map fst r') = sorted (map fst r) \<and> set r' \<subseteq> set r \<union> (\<lambda>e. (job_key strat (objs ! snd e), snd e)) ` set d
    \<and> set r \<subseteq> set r' \<and> (\<forall>e \<in> set d. is_terminal (jb_status (objs ! snd e)) \<or> snd e \<in> snd ` set r' \<union> snd ` set d')"
    using assms
  proof (induction d arbitrary: r)
    case (Cons e d)
    show ?case
    proof (cases "fst (fst e) \<le> now")
      case True
      define r1 where "r1 = (if is_terminal (jb_status (objs ! snd e)) then r else heap_push (job_key strat (objs ! snd e)) (snd e) r)"
      have step: "promote strat objs now d r1 = (d', r')" using Cons.prems True by (simp add: r1_def)
      have dis: "distinct (map snd r @ map snd (e # d)) \<longrightarrow> distinct (map snd r1 @ map snd d)"
      proof (cases "is_terminal (jb_status (objs ! snd e))")
        case False
        then have "distinct (map snd r1 @ map snd d) \<longleftrightarrow> snd e \<notin> set (map snd r @ map snd d) \<and> distinct (map snd r @ map snd d)"
          by (simp only: r1_def if_False distinct_heap_push(1))
        then show ?thesis by simp blast
      qed (simp add: r1_def)
      have r1: "sorted (map fst r1) = sorted (map fst r)" "set r1 \<subseteq> insert (job_key strat (objs ! snd e), snd e) (set r)" "set r \<subseteq> set r1"
        "is_terminal (jb_status (objs ! snd e)) \<or> snd e \<in> snd ` set r1"
        by (auto simp: r1_def)
      obtain pre where "d = pre @ d'" using Cons.IH [OF step] by blast
      then have "\<exists>pre. e # d = pre @ d'" by (intro exI [of _ "e # pre"]) simp
      then show ?thesis using Cons.IH [OF step] dis r1 by (simp del: distinct_append) (blast dest: subsetD)
    next
      case False then show ?thesis using Cons.prems by auto
    qed
  qed simp
  then show "distinct (map snd r @ map snd d) \<Longrightarrow> distinct (map snd r' @ map snd d')" "\<exists>pre. d = pre @ d'"
    "sorted (map fst r') = sorted (map fst r)" "set r' \<subseteq> set r \<union> (\<lambda>e. (job_key strat (objs ! snd e), snd e)) ` set d"
    "set r \<subseteq> set r'" "\<And>e. e \<in> set d \<Longrightarrow> is_terminal (jb_status (objs ! snd e)) \<or> snd e \<in> snd ` set r' \<union> snd ` set d'"
    by blast+
qed

lemma pop_live_None: "pop_live objs r = (r', None) \<Longrightarrow> r' = [] \<and> (\<forall>e \<in> set r. is_terminal (jb_status (objs ! snd e)))"
  by (induction r) (auto split: if_splits)

lemma pop_live_Some:
  "pop_live objs r = (r', Some i) \<Longrightarrow> \<exists>pre k. r = pre @ (k, i) # r' \<and> (\<forall>e \<in> set pre. is_terminal (jb_status (objs ! snd e)))
     \<and> \<not> is_terminal (jb_status (objs ! i))"
proof (induction r)
  case (Cons e r)
  show ?case
  proof (cases "is_terminal (jb_status (objs ! snd e))")
    case True
    then obtain pre k where "r = pre @ (k, i) # r'" "\<forall>e \<in> set pre. is_terminal (jb_status (objs ! snd e))" "\<not> is_terminal (jb_status (objs ! i))"
      using Cons by auto
    then show ?thesis using True by (intro exI [of _ "e # pre"] exI [of _ k]) simp
  next
    case False then show ?thesis using Cons.prems by (intro exI [of _ "[]"] exI [of _ "fst e"]) auto
  qed
qed simp

lemma requeue_ok:
  assumes ok: "fin_ok D P c {} s" and h: "heaps_ok (s\<lparr>sc_ready := r, sc_delayed := d\<rparr>)" and sub: "snd ` set r \<union> snd ` set d \<subseteq> set (queued s)"
    and lost: "\<And>k. k \<in> set (queued s) \<Longrightarrow> k \<in> snd ` set r \<union> snd ` set d \<or> is_terminal (status_of s k) \<or> k \<in> X"
    and X: "\<And>k. k \<in> X \<Longrightarrow> k \<in> set (queued s) \<and> k \<notin> snd ` set r \<union> snd ` set d"
  shows "fin_ok D P c X (s\<lparr>sc_ready := r, sc_delayed := d\<rparr>)" (is "fin_ok D P c X ?t")
proof -
  note f = fin_okD [OF ok]
  have j: "job_at ?t = job_at s" by (rule job_at_frame) simp
  have a: "active ?t = active s" by (rule active_frame [OF _ j]) simp
  have b: "was_submitted ?t = was_submitted s" by (rule submitted_frame) simp_all
  have q: "set (queued ?t) = snd ` set r \<union> snd ` set d" by (simp add: queued_def)
  have "located X ?t" unfolding located_def a
  proof (intro conjI allI impI ballI)
    fix k assume k: "active s k"
    have live: "\<not> is_terminal (status_of s k)" using k by (simp add: active_def)
    note pl = locatedD(1) [OF f(3) k]
    show "placed X ?t k"
    proof (cases "k \<in> X")
      case True
      then show ?thesis using placed_queued [OF pl] X [OF True] q by (simp add: placed_def)
    next
      case False
      then have "k \<in> set (queued ?t) \<longleftrightarrow> k \<in> set (queued s)" using lost [of k] sub live q by auto
      then show ?thesis using pl False by (simp add: placed_def j)
    qed
  next
    show "staffed X ?t" using locatedD(4) [OF f(3)] by (auto simp: staffed_def)
  qed (use locatedD(2,3) [OF f(3)] in auto)
  then show ?thesis using h fin_ok_relocate [OF ok, of ?t] by (simp)
qed

lemma promote_due_ok:
  assumes ok: "sched_ok D s"
  shows "sched_ok D (promote_due s now)"
proof -
  obtain d r where p: "promote (sc_strategy s) (sc_objects s) now (sc_delayed s) (sc_ready s) = (d, r)" by fastforce
  note f = fin_okD [OF ok] and pr = promote_ok [OF p]
  have t: "promote_due s now = s\<lparr>sc_ready := r, sc_delayed := d\<rparr>" by (simp add: promote_due_def p)
  obtain pre where pre: "sc_delayed s = pre @ d" using pr(2) by blast
  have sub: "snd ` set r \<union> snd ` set d \<subseteq> set (queued s)" using pr(4) pre by (force simp: queued_def)
  have b: "was_submitted (s\<lparr>sc_ready := r, sc_delayed := d\<rparr>) = was_submitted s" by (rule submitted_frame) simp_all
  have j: "job_at (s\<lparr>sc_ready := r, sc_delayed := d\<rparr>) = job_at s" by (rule job_at_frame) simp
  have key: "fst e = job_key (sc_strategy s) (job_at s (snd e))" if "e \<in> set r" for e
    using subsetD [OF pr(4) that] f(2) by (auto simp: heaps_ok_def job_at_def)
  have "heaps_ok (s\<lparr>sc_ready := r, sc_delayed := d\<rparr>)"
    unfolding heaps_ok_def b j
  proof (intro conjI ballI)
    show "distinct (queued (s\<lparr>sc_ready := r, sc_delayed := d\<rparr>))" using pr(1) f(2) by (simp add: heaps_ok_def queued_def del: distinct_append)
    fix i assume "i \<in> set (queued (s\<lparr>sc_ready := r, sc_delayed := d\<rparr>))"
    then have "i \<in> set (queued s)" using sub by (auto simp: queued_def)
    then show "was_submitted s i" using f(2) by (simp add: heaps_ok_def)
  qed (use pr(3) f(2) key pre in \<open>auto simp: heaps_ok_def sorted_append\<close>)
  then show ?thesis unfolding t
  proof (rule requeue_ok [OF ok _ sub])
    fix k assume "k \<in> set (queued s)"
    then consider "k \<in> snd ` set (sc_ready s)" | e where "e \<in> set (sc_delayed s)" "k = snd e" by (auto simp: queued_def)
    then show "k \<in> snd ` set r \<union> snd ` set d \<or> is_terminal (status_of s k) \<or> k \<in> {}"
    proof cases
      case 1 then show ?thesis using pr(5) by auto
    next
      case 2 then show ?thesis using pr(6) [OF 2(1)] by (auto simp: job_at_def)
    qed
  qed simp
qed

lemma promote_due_frame:
  "sc_objects (promote_due s now) = sc_objects s" "sc_known (promote_due s now) = sc_known s" "sc_attempts (promote_due s now) = sc_attempts s"
  "sc_workers (promote_due s now) = sc_workers s" "sc_cancel_requested (promote_due s now) = sc_cancel_requested s"
  by (simp_all add: promote_due_def split: prod.split)

section \<open>Workers\<close>

lemma take_in_hand:
  assumes ok: "sched_ok D s" and pop: "pop_live (sc_objects s) (sc_ready s) = (ready, Some i)"
  shows "fin_ok D {} 0 {i} (s\<lparr>sc_ready := ready\<rparr>)" "active s i" "status_of s i = PENDING \<or> status_of s i = RETRY_WAIT" "i \<notin> sc_cancel_requested s"
proof -
  note f = fin_okD [OF ok]
  obtain pre k where r: "sc_ready s = pre @ (k, i) # ready" "\<forall>e \<in> set pre. is_terminal (status_of s (snd e))" "\<not> is_terminal (status_of s i)"
    using pop_live_Some [OF pop] unfolding job_at_def by blast
  have iq: "i \<in> set (queued s)" using r(1) by (simp add: queued_def)
  then show act: "active s i" using f(2) r(3) by (auto simp: heaps_ok_def was_submitted_def active_def)
  note pl = placed_queued [OF locatedD(1) [OF f(3) act] iq]
  show "status_of s i = PENDING \<or> status_of s i = RETRY_WAIT" using pl r(3) by (cases "status_of s i") simp_all
  show "i \<notin> sc_cancel_requested s" using pl locatedD(4) [OF f(3)] by (auto simp: staffed_def)
  have b: "was_submitted (s\<lparr>sc_ready := ready, sc_delayed := sc_delayed s\<rparr>) = was_submitted s" by (rule submitted_frame) simp_all
  have j: "job_at (s\<lparr>sc_ready := ready, sc_delayed := sc_delayed s\<rparr>) = job_at s" by (rule job_at_frame) simp
  have dis: "distinct (map snd (sc_ready s) @ map snd (sc_delayed s))" using f(2) by (simp add: heaps_ok_def queued_def)
  have h: "heaps_ok (s\<lparr>sc_ready := ready, sc_delayed := sc_delayed s\<rparr>)"
    using f(2) dis unfolding heaps_ok_def b j by (auto simp: r(1) queued_def sorted_append)
  have "fin_ok D {} 0 {i} (s\<lparr>sc_ready := ready, sc_delayed := sc_delayed s\<rparr>)"
    by (rule requeue_ok [OF ok h]) (use r(1,2) dis in \<open>auto simp: queued_def\<close>)
  then show "fin_ok D {} 0 {i} (s\<lparr>sc_ready := ready\<rparr>)" by simp
qed

lemma dispatch_ok:
  assumes ok: "sched_ok D s"
  shows "\<exists>t r. dispatch s now = Inr (t, r) \<and> sched_ok D t \<and> was_submitted t = was_submitted s"
proof (cases "sc_workers s \<le> length (sc_attempts s) \<or> sc_stopping s")
  case True then show ?thesis using ok by (auto simp: dispatch_def)
next
  case False
  define s1 where "s1 = promote_due s now"
  have ok1: "sched_ok D s1" unfolding s1_def by (rule promote_due_ok [OF ok])
  have b1: "was_submitted s1 = was_submitted s" unfolding s1_def by (rule submitted_frame) (simp_all add: promote_due_frame)
  have room: "length (sc_attempts s1) < sc_workers s1" using False by (simp add: s1_def promote_due_frame)
  have dis: "dispatch s now = bind_sum (take_next s now) (\<lambda>(s1, r). (case r of None \<Rightarrow> Inr (s1, None) | Some i \<Rightarrow> Inr (begin_attempt s1 i now, Some i)))"
    using False by (simp add: dispatch_def)
  obtain ready r where pop: "pop_live (sc_objects s1) (sc_ready s1) = (ready, r)" by fastforce
  show ?thesis
  proof (cases r)
    case None
    have none: "ready = []" "\<forall>e \<in> set (sc_ready s1). is_terminal (status_of s1 (snd e))" using pop_live_None [of "sc_objects s1" "sc_ready s1" ready] pop None
      by (simp_all add: job_at_def)
    note h = fin_okD(2) [OF ok1]
    have b: "was_submitted (s1\<lparr>sc_ready := [], sc_delayed := sc_delayed s1\<rparr>) = was_submitted s1" by (rule submitted_frame) simp_all
    have j: "job_at (s1\<lparr>sc_ready := [], sc_delayed := sc_delayed s1\<rparr>) = job_at s1" by (rule job_at_frame) simp
    have "sched_ok D (s1\<lparr>sc_ready := [], sc_delayed := sc_delayed s1\<rparr>)"
    proof (rule requeue_ok [OF ok1])
      show "heaps_ok (s1\<lparr>sc_ready := [], sc_delayed := sc_delayed s1\<rparr>)" using h unfolding heaps_ok_def b j by (simp add: queued_def)
    qed (use none(2) in \<open>auto simp: queued_def\<close>)
    then have "sched_ok D (s1\<lparr>sc_ready := ready\<rparr>)" using none by simp
    moreover have "was_submitted (s1\<lparr>sc_ready := ready\<rparr>) = was_submitted s" using submitted_frame [of "s1\<lparr>sc_ready := ready\<rparr>" s1] b1 by simp
    moreover have "dispatch s now = Inr (s1\<lparr>sc_ready := ready\<rparr>, None)"
      unfolding dis take_next_def s1_def [symmetric] Let_def pop None by simp
    ultimately show ?thesis by blast
  next
    case (Some i)
    note tk = take_in_hand [OF ok1 pop [unfolded Some]]
    define u where "u = s1\<lparr>sc_ready := ready\<rparr>"
    have ju: "job_at u = job_at s1" unfolding u_def by (rule job_at_frame) simp
    have au: "active u = active s1" unfolding u_def by (rule active_frame [OF _ ju [unfolded u_def]]) simp
    have bu: "was_submitted u = was_submitted s1" unfolding u_def by (rule submitted_frame) simp_all
    have uok: "fin_ok D {} 0 {i} u" unfolding u_def by (rule tk(1))
    have act: "active u i" using tk(2) au by simp
    have i: "i < length (sc_objects u)" by (rule active_less [OF fin_okD(1) [OF uok] act])
    define j where "j = (job_at u i)\<lparr>jb_status := RUNNING, jb_attempts := jb_attempts (job_at u i) + 1, jb_started_at := Some now\<rparr>"
    have tal: "tally_ok j" using fin_okD(6) [OF uok i] tk(3) unfolding j_def tally_ok_def ju by auto
    note p = put_in_hand [OF uok act _ _ tal]
    define v where "v = put_job u i j"
    have v: "fin_ok D {} 0 {i} v" "active v i" "was_submitted v = was_submitted s" "status_of v i = RUNNING"
      using p act bu b1 i by (simp_all add: v_def j_def)
    define w where "w = v\<lparr>sc_running := sc_running v + 1, sc_peak := max (sc_peak v) (sc_running v + 1), sc_attempts := sc_attempts v @ [i]\<rparr>"
    have "fin_ok D {} 0 {} w" unfolding w_def
      by (rule board_ok [OF v(1,2,4)]) (use tk(4) room in \<open>simp_all add: v_def u_def\<close>)
    then have wok: "sched_ok D (w\<lparr>sc_log := sc_log s1 @ [(i, status_of u i, RUNNING)]\<rparr>)" by (subst fin_ok_frame(1) [where s = w]) simp_all
    have wb: "was_submitted (w\<lparr>sc_log := sc_log s1 @ [(i, status_of u i, RUNNING)]\<rparr>) = was_submitted s"
      unfolding v(3) [symmetric] by (rule submitted_frame) (simp_all add: w_def)
    have tr: "transition u i RUNNING = Inr ((put_job u i ((job_at u i)\<lparr>jb_status := RUNNING\<rparr>))\<lparr>sc_log := sc_log u @ [(i, status_of u i, RUNNING)]\<rparr>)"
      using tk(3) by (auto simp: transition_def Let_def ju)
    have "begin_attempt ((put_job u i ((job_at u i)\<lparr>jb_status := RUNNING\<rparr>))\<lparr>sc_log := sc_log u @ [(i, status_of u i, RUNNING)]\<rparr>) i now
        = w\<lparr>sc_log := sc_log s1 @ [(i, status_of u i, RUNNING)]\<rparr>"
      using i by (simp add: begin_attempt_def w_def v_def j_def put_job_def job_at_def u_def)
    then have "dispatch s now = Inr (w\<lparr>sc_log := sc_log s1 @ [(i, status_of u i, RUNNING)]\<rparr>, Some i)"
      unfolding dis take_next_def s1_def [symmetric] Let_def pop Some using tr by (simp add: u_def [symmetric])
    then show ?thesis using wok wb by blast
  qed
qed

section \<open>Ending an attempt\<close>

lemma after_failure_ok:
  assumes ok: "fin_ok D {} 0 {i} s" and act: "active s i" "status_of s i = RUNNING" and nc: "i \<notin> sc_cancel_requested s"
  shows "\<exists>t. after_failure s i e retryable timed_out now r = Inr t \<and> sched_ok D t \<and> was_submitted t = was_submitted s"
proof -
  have i: "i < length (sc_objects s)" by (rule active_less [OF fin_okD(1) [OF ok] act(1)])
  have tal: "tally_ok (job_at s i)" by (rule fin_okD(6) [OF ok i])
  define j1 where "j1 = (job_at s i)\<lparr>jb_last_error := Some e\<rparr>"
  define s1 where "s1 = put_job s i j1"
  have "tally_ok j1" using tal by (simp add: j1_def tally_ok_def)
  then have s1: "fin_ok D {} 0 {i} s1" "active s1 = active s" "was_submitted s1 = was_submitted s"
    unfolding s1_def by (intro put_in_hand [OF ok act(1)]; simp add: j1_def act)+
  have j1: "job_at s1 i = j1" using i by (simp add: s1_def)
  have st1: "status_of s1 i = RUNNING" "active s1 i" using act j1 s1(2) by (simp_all add: j1_def)
  show ?thesis
  proof (cases "retryable \<and> int (jb_attempts j1) \<le> rp_max_retries (jb_retry j1) \<and> \<not> sc_stopping s1")
    case True
    define j2 where "j2 = j1\<lparr>jb_run_at := now + backoff (jb_retry j1) (jb_attempts j1) r, jb_status := RETRY_WAIT\<rparr>"
    have "tally_ok j2" using tal True act by (auto simp: j2_def j1_def tally_ok_def)
    then have s2: "fin_ok D {} 0 {i} (put_job s1 i j2)" "active (put_job s1 i j2) = active s1" "was_submitted (put_job s1 i j2) = was_submitted s1"
      by (intro put_in_hand [OF s1(1) st1(2)]; simp add: j1 j2_def)+
    define s3 where "s3 = (put_job s1 i j2)\<lparr>sc_log := sc_log s1 @ [(i, RUNNING, RETRY_WAIT)]\<rparr>"
    have s3: "fin_ok D {} 0 {i} s3" "active s3 i" "was_submitted s3 = was_submitted s" "status_of s3 i = RETRY_WAIT"
    proof -
      show "fin_ok D {} 0 {i} s3" unfolding s3_def by (subst fin_ok_frame(1) [where s = "put_job s1 i j2"]) (simp_all add: s2(1))
      have "active s3 = active (put_job s1 i j2)" unfolding s3_def by (rule fin_ok_frame(2)) simp_all
      then show "active s3 i" using s2(2) st1(2) by simp
      have "was_submitted s3 = was_submitted (put_job s1 i j2)" unfolding s3_def by (rule fin_ok_frame(3)) simp_all
      then show "was_submitted s3 = was_submitted s" using s2(3) s1(3) by simp
      have "job_at s3 = job_at (put_job s1 i j2)" by (rule job_at_frame) (simp add: s3_def)
      then show "status_of s3 i = RETRY_WAIT" using i by (simp add: s1_def j2_def)
    qed
    have "transition (put_job s1 i (j1\<lparr>jb_run_at := now + backoff (jb_retry j1) (jb_attempts j1) r\<rparr>)) i RETRY_WAIT = Inr s3"
      using i st1(1) j1 by (simp add: transition_def Let_def s3_def j2_def s1_def j1_def act)
    then have "after_failure s i e retryable timed_out now r = Inr (enqueue s3 i now)"
      using True by (simp add: after_failure_def Let_def s1_def [symmetric] j1_def [symmetric] j1)
    moreover have "sched_ok D (enqueue s3 i now)"
      by (rule enqueue_ok [OF s3(1,2)]) (use s3(4) nc in \<open>simp_all add: s3_def s1_def\<close>)
    moreover have "was_submitted (enqueue s3 i now) = was_submitted s" unfolding s3(3) [symmetric] by (rule submitted_frame) simp_all
    ultimately show ?thesis by blast
  next
    case False
    have "i \<notin> set (sc_attempts s1)" using locatedD(1) [OF fin_okD(3) [OF s1(1)] st1(2)] by (simp add: placed_def)
    moreover define fs where "fs = (if timed_out then TIMED_OUT else FAILED)"
    moreover have "is_terminal fs" "fs \<in> transitions (status_of s1 i)" "fs \<noteq> CANCELLED" using st1(1) by (simp_all add: fs_def)
    moreover have "0 < jb_attempts (job_at s1 i)" using tal act j1 by (simp add: tally_ok_def j1_def)
    ultimately obtain t where t: "finish_job s1 i fs (Some e) now = Inr t" "sched_ok D t" "evolves (ended s1 i fs (Some e) now) t"
      using finish_job_ok [OF s1(1) st1(2), of fs "Some e" now] by auto
    moreover have "was_submitted t = was_submitted s"
      using evolvesD(5) [OF t(3)] submitted_ended [OF st1(2)] i s1(3) by (simp add: fun_eq_iff s1_def)
    moreover have "after_failure s i e retryable timed_out now r = finish_job s1 i fs (Some e) now"
      using False by (subst after_failure_def) (simp only: Let_def s1_def [symmetric] j1_def [symmetric] j1 fs_def if_False)
    ultimately show ?thesis by auto
  qed
qed

text \<open>Finishing the job in hand.\<close>

lemma finish_in_hand:
  assumes ok: "fin_ok D {} 0 {i} s" and act: "active s i" and st: "is_terminal st" "st \<in> transitions (status_of s i)"
    and tal: "st \<noteq> CANCELLED \<longrightarrow> 0 < jb_attempts (job_at s i)"
  shows "\<exists>t. finish_job s i st e now = Inr t \<and> sched_ok D t \<and> was_submitted t = was_submitted s \<and> status_of t i = st"
proof -
  have i: "i < length (sc_objects s)" by (rule active_less [OF fin_okD(1) [OF ok] act])
  have free: "i \<notin> set (sc_attempts s)" using locatedD(1) [OF fin_okD(3) [OF ok] act] by (simp add: placed_def)
  obtain t where t: "finish_job s i st e now = Inr t" "sched_ok D t" "evolves (ended s i st e now) t"
    using finish_job_ok [OF ok act _ st tal free] by auto
  have "was_submitted t = was_submitted s" using evolvesD(5) [OF t(3)] submitted_ended [OF act i] by (simp add: fun_eq_iff)
  moreover have "status_of t i = st" using evolvesD(1) [OF t(3), of i] st(1) i by (simp add: job_at_ended)
  ultimately show ?thesis using t by blast
qed

lemma end_attempt_ok:
  assumes ok: "sched_ok D s" and i: "i \<in> set (sc_attempts s)"
  shows "\<exists>t. end_attempt s i out now r = Inr t \<and> sched_ok D t \<and> was_submitted t = was_submitted s"
proof -
  note f = fin_okD [OF ok] and re = retire_ok [OF ok i]
  define s1 where "s1 = off_attempt s i"
  have act: "active s i" by (rule locatedD(2) [OF f(3) i])
  have run: "status_of s i = RUNNING" by (rule placed_running [OF locatedD(1) [OF f(3) act] i])
  have s1: "fin_ok D {} 0 {i} s1" "active s1 i" "status_of s1 i = RUNNING" "was_submitted s1 = was_submitted s" "job_at s1 = job_at s"
    using re act run by (simp_all add: s1_def)
  have l: "i < length (sc_objects s1)" by (rule active_less [OF fin_okD(1) [OF s1(1)] s1(2)])
  have tal: "tally_ok (job_at s1 i)" by (rule fin_okD(6) [OF s1(1) l])
  have e: "end_attempt s i out now r =
     (if i \<in> sc_cancel_requested s1 \<or> out = Was_cancelled then finish_job s1 i CANCELLED (Some Cancelled_note) now
      else (case out of
              Not_done \<Rightarrow> after_failure s1 i Timed_out_note True True now r
            | Exception msg retryable \<Rightarrow> after_failure s1 i (Exception_note msg) retryable False now r
            | Result v \<Rightarrow> finish_job (put_job s1 i ((job_at s1 i)\<lparr>jb_result := Some v\<rparr>)) i COMPLETED None now
            | Was_cancelled \<Rightarrow> Inr s1))"
    unfolding end_attempt_def s1_def off_attempt_def Let_def ..
  show ?thesis
  proof (cases "i \<in> sc_cancel_requested s1 \<or> out = Was_cancelled")
    case True
    then show ?thesis using finish_in_hand [OF s1(1,2), of CANCELLED "Some Cancelled_note" now] s1(3,4) by (auto simp: e)
  next
    case False
    then have nc: "i \<notin> sc_cancel_requested s1" by simp
    note fl = after_failure_ok [OF s1(1,2,3) nc, unfolded s1(4)]
    show ?thesis
    proof (cases out)
      case Not_done
      then show ?thesis unfolding e using fl [of Timed_out_note True True now r] False by simp
    next
      case (Exception msg b)
      then show ?thesis unfolding e using fl [of "Exception_note msg" b False now r] False by simp
    next
      case (Result v)
      define j where "j = (job_at s1 i)\<lparr>jb_result := Some v\<rparr>"
      have "tally_ok j" using tal by (simp add: j_def tally_ok_def)
      then have p: "fin_ok D {} 0 {i} (put_job s1 i j)" "active (put_job s1 i j) = active s1" "was_submitted (put_job s1 i j) = was_submitted s1"
        by (intro put_in_hand [OF s1(1,2)]; simp add: j_def s1(3))+
      have "0 < jb_attempts j" using tal s1(3) by (simp add: j_def tally_ok_def)
      then show ?thesis using finish_in_hand [OF p(1), of COMPLETED None now] p s1 l Result False unfolding e by (auto simp: j_def)
    qed (use False in simp)
  qed
qed

section \<open>Cancelling and stopping\<close>

lemma cancel_ok:
  assumes ok: "sched_ok D s"
  shows "\<exists>t b. cancel s i now = Inr (t, b) \<and> sched_ok D t \<and> was_submitted t = was_submitted s"
proof (cases "active s i")
  case False then show ?thesis using ok by (auto simp: cancel_def active_def)
next
  case True
  note f = fin_okD [OF ok] and pl = locatedD(1) [OF fin_okD(3) [OF ok] True]
  have l: "i < length (sc_objects s)" by (rule active_less [OF f(1) True])
  show ?thesis
  proof (cases "status_of s i = RUNNING")
    case run: True
    let ?t = "s\<lparr>sc_cancel_requested := insert i (sc_cancel_requested s)\<rparr>"
    have j: "job_at ?t = job_at s" by (rule job_at_frame) simp
    have a: "active ?t = active s" by (rule active_frame [OF _ j]) simp
    have b: "was_submitted ?t = was_submitted s" by (rule submitted_frame) simp_all
    have q: "queued ?t = queued s" by (simp add: queued_def)
    have "i \<in> set (sc_attempts s)" using pl run by (simp add: placed_def)
    then have "staffed {} ?t" using locatedD(4) [OF f(3)] by (simp add: staffed_def)
    then have "located {} ?t" unfolding located_def a
    proof (intro conjI allI impI ballI)
      fix k assume "active s k"
      then show "placed {} ?t k" using locatedD(1) [OF f(3), of k] by (simp add: placed_def j q split: if_splits)
    qed (use locatedD(2,3) [OF f(3)] in auto)
    moreover have "heaps_ok ?t" using f(2) by (simp add: heaps_ok_def q j b)
    ultimately have "sched_ok D ?t" using fin_ok_relocate [OF ok, of ?t] by simp
    then show ?thesis using b run True by (auto simp: cancel_def active_def)
  next
    case False
    then have "i \<notin> set (sc_attempts s)" using placed_running [OF pl] by blast
    then obtain t where t: "finish_job s i CANCELLED (Some Cancelled_note) now = Inr t" "sched_ok D t" "evolves (ended s i CANCELLED (Some Cancelled_note) now) t"
      using finish_job_ok [OF ok True _ _ cancel_allowed, of "Some Cancelled_note" now] True by (auto simp: active_def)
    have "was_submitted t = was_submitted s" using evolvesD(5) [OF t(3)] submitted_ended [OF True l] by (simp add: fun_eq_iff)
    then show ?thesis using t True False by (auto simp: cancel_def active_def)
  qed
qed

lemma cancel_all_ok:
  assumes "sched_ok D s"
  shows "\<exists>t. cancel_all s xs now = Inr t \<and> sched_ok D t \<and> was_submitted t = was_submitted s"
  using assms
proof (induction xs arbitrary: s)
  case (Cons i xs)
  obtain t b where "cancel s i now = Inr (t, b)" "sched_ok D t" "was_submitted t = was_submitted s" using cancel_ok [OF Cons.prems] by blast
  then show ?case using Cons.IH [of t] by simp
qed simp

lemma stop_ok:
  assumes "sched_ok D s"
  shows "\<exists>t. stop s b now = Inr t \<and> sched_ok D t \<and> was_submitted t = was_submitted s"
proof -
  let ?s = "s\<lparr>sc_stopping := True\<rparr>"
  have "sched_ok D ?s" using assms by (subst fin_ok_frame(1) [where s = s]) simp_all
  moreover have "was_submitted ?s = was_submitted s" by (rule submitted_frame) simp_all
  ultimately show ?thesis using cancel_all_ok [of D ?s "sc_attempts ?s" now] by (simp add: stop_def Let_def)
qed

section \<open>Submitting\<close>

lemma register_ok:
  assumes ok: "sched_ok D s" and i: "i < length (sc_objects s)" "i \<notin> set (sc_known s)" "status_of s i = PENDING"
  shows "fin_ok (D(i := {})) {} 0 {i} (register s i delay now)" (is "fin_ok ?D _ _ _ (register _ _ _ _)")
    "active (register s i delay now) k \<longleftrightarrow> active s k \<or> k = i"
    "was_submitted (register s i delay now) k \<longleftrightarrow> was_submitted s k \<or> k = i"
    "status_of (register s i delay now) k = status_of s k" "jb_attempts (job_at (register s i delay now) k) = jb_attempts (job_at s k)"
    "was_submitted s k \<Longrightarrow> jb_seq (job_at (register s i delay now) k) < jb_seq (job_at (register s i delay now) i)"
    "i \<notin> sc_cancel_requested (register s i delay now)"
proof -
  note f = fin_okD [OF ok]
  let ?t = "register s i delay now"
  define j where "j = (job_at s i)\<lparr>jb_seq := sc_seq s, jb_submitted_at := now, jb_run_at := now + max 0 delay\<rparr>"
  have "job_at ?t = job_at (put_job s i j)" by (rule job_at_frame) (simp add: register_def j_def)
  then have jt: "job_at ?t x = (if x = i then j else job_at s x)" for x using i by simp
  have t: "sc_known ?t = sc_known s @ [i]" "sc_seq ?t = sc_seq s + 1" "sc_unfinished ?t = sc_unfinished s + 1" "\<not> sc_idle ?t"
    "length (sc_objects ?t) = length (sc_objects s)" "sc_attempts ?t = sc_attempts s" "sc_dependents ?t = sc_dependents s" "sc_blocked ?t = sc_blocked s"
    "sc_running ?t = sc_running s" "sc_peak ?t = sc_peak s" "sc_workers ?t = sc_workers s" "sc_cancel_requested ?t = sc_cancel_requested s"
    "queued ?t = queued s" "sc_ready ?t = sc_ready s" "sc_delayed ?t = sc_delayed s" "sc_strategy ?t = sc_strategy s" "sc_finished ?t = sc_finished s"
    by (simp_all add: register_def queued_def)
  have st: "status_of ?t x = status_of s x" "jb_attempts (job_at ?t x) = jb_attempts (job_at s x)" for x by (simp_all add: jt j_def)
  have a: "active ?t x \<longleftrightarrow> active s x \<or> x = i" for x using i by (auto simp: active_def st t)
  have b: "was_submitted ?t x \<longleftrightarrow> was_submitted s x \<or> x = i" for x using i by (auto simp: was_submitted_def st t)
  have nb: "\<not> was_submitted s i" using i by (simp add: was_submitted_def)
  have na: "\<not> active s i" using i by (simp add: active_def)
  have old: "job_at ?t x = job_at s x" if "was_submitted s x" for x using that nb by (auto simp: jt)
  have si: "jb_seq (job_at ?t i) = sc_seq s" by (simp add: jt j_def)
  have lt: "jb_seq (job_at ?t x) < sc_seq s" if "was_submitted s x" for x using f(1) that by (simp add: numbered_def old)
  show "active ?t k \<longleftrightarrow> active s k \<or> k = i" "was_submitted ?t k \<longleftrightarrow> was_submitted s k \<or> k = i" "status_of ?t k = status_of s k"
    "jb_attempts (job_at ?t k) = jb_attempts (job_at s k)"
    by (fact a, fact b, fact st, fact st)
  show "was_submitted s k \<Longrightarrow> jb_seq (job_at ?t k) < jb_seq (job_at ?t i)" using lt si by simp
  have att: "i \<notin> set (sc_attempts s)" using locatedD(2) [OF f(3)] na by blast
  then show "i \<notin> sc_cancel_requested ?t" using locatedD(4) [OF f(3)] by (auto simp: staffed_def t)
  have n: "distinct (sc_known s)" "\<forall>x \<in> set (sc_known s). x < length (sc_objects s)"
    "\<forall>x \<in> set (sc_finished s). x < length (sc_objects s) \<and> is_terminal (status_of s x)" "\<forall>u. \<forall>d \<in> set (sc_dependents s u). d < length (sc_objects s)"
    using f(1) unfolding numbered_def by blast+
  have 1: "numbered ?t" unfolding numbered_def
  proof (intro conjI allI impI ballI)
    fix x assume "was_submitted ?t x"
    then show "jb_seq (job_at ?t x) < sc_seq ?t" using lt [of x] si by (auto simp: b t)
  next
    fix x y assume xy: "was_submitted ?t x" "was_submitted ?t y" "jb_seq (job_at ?t x) = jb_seq (job_at ?t y)"
    have both: "x = y" if "was_submitted s x" "was_submitted s y"
      using f(1) that xy(3) unfolding numbered_def old [OF that(1)] old [OF that(2)] by blast
    consider "was_submitted s x" "was_submitted s y" | "x = i" "y = i" | "x = i" "was_submitted s y" | "was_submitted s x" "y = i"
      using xy(1,2) unfolding b by blast
    then show "x = y"
    proof cases
      case 1 then show ?thesis by (rule both)
    next
      case 3 then show ?thesis using lt [OF 3(2)] si xy(3) by simp
    next
      case 4 then show ?thesis using lt [OF 4(1)] si xy(3) by simp
    qed simp_all
  next
    show "distinct (sc_known ?t)" using n(1) i(2) by (simp add: t)
    fix x
    show "x < length (sc_objects ?t)" if "x \<in> set (sc_known ?t)" using that n(2) i(1) by (auto simp: t)
    show "x < length (sc_objects ?t)" "is_terminal (status_of ?t x)" if "x \<in> set (sc_finished ?t)" using that n(3) by (simp_all add: t st)
  next
    fix u d assume "d \<in> set (sc_dependents ?t u)"
    then show "d < length (sc_objects ?t)" using n(4) unfolding t by blast
  qed
  have 2: "heaps_ok ?t"
  proof -
    have q: "job_at ?t x = job_at s x" if "x \<in> set (queued s)" for x using f(2) that by (intro old) (simp add: heaps_ok_def)
    then have "\<And>e. e \<in> set (sc_ready s) \<Longrightarrow> job_at ?t (snd e) = job_at s (snd e)" "\<And>e. e \<in> set (sc_delayed s) \<Longrightarrow> job_at ?t (snd e) = job_at s (snd e)"
      by (simp_all add: queued_def)
    then show ?thesis using f(2) by (simp add: heaps_ok_def t b)
  qed
  have iq: "i \<notin> set (queued s)" using f(2) nb by (auto simp: heaps_ok_def)
  have ib: "sc_blocked s i = None" using locatedD(3) [OF f(3), of i] na by (cases "sc_blocked s i") auto
  have 3: "located {i} ?t" unfolding located_def
  proof (intro conjI allI impI ballI)
    fix x assume x: "active ?t x"
    show "placed {i} ?t x"
    proof (cases "x = i")
      case True then show ?thesis using att iq ib by (simp add: placed_def t)
    next
      case False then show ?thesis using locatedD(1) [OF f(3), of x] x by (simp add: placed_def t st a split: if_splits)
    qed
  next
    show "staffed {i} ?t" using locatedD(4) [OF f(3)] by (auto simp: staffed_def t)
  qed (use locatedD(2,3) [OF f(3)] in \<open>auto simp: t a\<close>)
  have 4: "linked {} ?t" unfolding linked_def
  proof (intro conjI allI impI ballI)
    fix d U assume dU: "sc_blocked ?t d = Some U"
    then have bl: "sc_blocked s d = Some U" by (simp add: t)
    then have da: "active s d" by (rule locatedD(3) [OF f(3)])
    show "U \<noteq> {}" using f(4) bl by (simp add: linked_def)
    fix u assume u: "u \<in> U"
    then have lk: "jb_seq (job_at s u) < jb_seq (job_at s d)" "if active s u then d \<in> set (sc_dependents s u) else (u, d) \<in> {}"
      using f(4) bl unfolding linked_def by blast+
    then have ua: "active s u" by (simp split: if_splits)
    show "jb_seq (job_at ?t u) < jb_seq (job_at ?t d)" using lk(1) old active_submitted [OF f(1)] ua da by simp
    show "if active ?t u then d \<in> set (sc_dependents ?t u) else (u, d) \<in> {}" using lk(2) ua by (simp add: a t)
  next
    fix u assume "\<not> active ?t u" then show "sc_dependents ?t u = []" using f(4) by (simp add: linked_def a t)
  next
    fix u d assume "d \<in> set (sc_dependents ?t u)"
    then show "is_terminal (status_of ?t d) \<or> (\<exists>U. sc_blocked ?t d = Some U \<and> u \<in> U)" using f(4) unfolding linked_def t st by blast
  qed (use f(4) in \<open>simp_all add: linked_def t\<close>)
  have 5: "counted 0 ?t"
  proof -
    have "{x. active ?t x} = insert i {x. active s x}" using a by auto
    then show ?thesis using f(5) na t(4) by (simp add: counted_def t)
  qed
  have 6: "\<forall>x < length (sc_objects ?t). tally_ok (job_at ?t x)" using f(6) by (auto simp: t jt j_def tally_ok_def)
  have 7: "deps_ok ?D ?t" unfolding deps_ok_def t st b
  proof (intro conjI allI impI ballI)
    fix x assume "was_submitted s x \<or> x = i"
    then show "(\<forall>d \<in> ?D x. status_of s d = COMPLETED) \<or> jb_attempts (job_at s x) = 0
        \<and> (is_terminal (status_of s x) \<or> (\<exists>U. sc_blocked s x = Some U \<and> (\<forall>d \<in> ?D x. status_of s d = COMPLETED \<or> d \<in> U)))"
      using deps_okD(1) [OF f(7), of x] by (cases "x = i") simp_all
  next
    fix x d assume "d \<in> ?D x"
    then have "was_submitted s d" using deps_okD(2) [OF f(7), of d x] by (simp split: if_splits)
    then show "d < length (sc_objects s)" "was_submitted s d \<or> d = i" by (simp_all add: was_submitted_def)
  qed
  show "fin_ok ?D {} 0 {i} ?t" using 1 2 3 4 5 6 7 by (simp add: fin_ok_def)
qed

text \<open>Blocked: the job waits in the table of its unmet dependencies and in the list of each of them.\<close>

lemma block_ok:
  assumes ok: "fin_ok (D(i := {})) {} 0 {i} s" and act: "active s i" "status_of s i = PENDING" "jb_attempts (job_at s i) = 0"
    and unmet: "unmet \<noteq> []" "\<forall>u \<in> set unmet. active s u \<and> u \<noteq> i \<and> jb_seq (job_at s u) < jb_seq (job_at s i)"
    and deps: "\<forall>d \<in> ds. was_submitted s d \<and> (status_of s d = COMPLETED \<or> d \<in> set unmet)" and nc: "i \<notin> sc_cancel_requested s"
  shows "sched_ok (D(i := ds)) (block_on s i unmet)" "was_submitted (block_on s i unmet) = was_submitted s"
proof -
  note f = fin_okD [OF ok]
  let ?t = "block_on s i unmet"
  have j: "job_at ?t = job_at s" by (rule job_at_frame) (simp add: block_on_def)
  have a: "active ?t = active s" by (rule active_frame [OF _ j]) (simp add: block_on_def)
  have b: "was_submitted ?t = was_submitted s" by (rule submitted_frame) (simp_all add: block_on_def)
  show "was_submitted ?t = was_submitted s" by (fact b)
  have t: "sc_blocked ?t = (sc_blocked s)(i := Some (set unmet))" "sc_attempts ?t = sc_attempts s" "queued ?t = queued s" "sc_seq ?t = sc_seq s"
    "sc_dependents ?t = (\<lambda>d. if d \<in> set unmet then sc_dependents s d @ [i] else sc_dependents s d)" "sc_known ?t = sc_known s"
    "sc_finished ?t = sc_finished s" "sc_objects ?t = sc_objects s" "sc_unfinished ?t = sc_unfinished s" "sc_idle ?t = sc_idle s"
    "sc_ready ?t = sc_ready s" "sc_delayed ?t = sc_delayed s" "sc_strategy ?t = sc_strategy s"
    "sc_cancel_requested ?t = sc_cancel_requested s" "sc_running ?t = sc_running s" "sc_workers ?t = sc_workers s" "sc_peak ?t = sc_peak s"
    by (simp_all add: block_on_def queued_def)
  have hand: "i \<notin> set (queued s)" "sc_blocked s i = None" "i \<notin> set (sc_attempts s)"
    using locatedD(1) [OF f(3) act(1)] by (simp_all add: placed_def)
  have i: "i < length (sc_objects s)" by (rule active_less [OF f(1) act(1)])
  have nd: "i \<notin> set (sc_dependents s u)" for u
  proof
    assume "i \<in> set (sc_dependents s u)"
    then have "is_terminal (status_of s i) \<or> (\<exists>U. sc_blocked s i = Some U \<and> u \<in> U)" using f(4) unfolding linked_def by blast
    then show False using act(2) hand(2) by simp
  qed
  have 1: "numbered ?t" using f(1) i by (auto simp: numbered_def b j t)
  have 2: "heaps_ok ?t" using f(2) by (simp add: heaps_ok_def b j t)
  have 3: "located {} ?t" unfolding located_def a
  proof (intro conjI allI impI ballI)
    fix x assume x: "active s x"
    show "placed {} ?t x"
    proof (cases "x = i")
      case True then show ?thesis using hand act by (simp add: placed_def t j)
    next
      case False then show ?thesis using locatedD(1) [OF f(3) x] by (simp add: placed_def t j split: if_splits)
    qed
  next
    fix x assume "sc_blocked ?t x \<noteq> None"
    then show "active s x" using locatedD(3) [OF f(3), of x] act(1) by (auto simp: t split: if_splits)
  next
    show "staffed {} ?t" using locatedD(4) [OF f(3)] nc by (auto simp: staffed_def t)
  qed (use locatedD(2) [OF f(3)] in \<open>auto simp: t\<close>)
  have 4: "linked {} ?t" unfolding linked_def
  proof (intro conjI allI impI ballI)
    fix d U assume dU: "sc_blocked ?t d = Some U"
    show "U \<noteq> {}" using f(4) dU unmet(1) by (auto simp: linked_def t split: if_splits)
    fix u assume u: "u \<in> U"
    have "active s u \<and> jb_seq (job_at s u) < jb_seq (job_at s d) \<and> d \<in> set (sc_dependents ?t u)"
    proof (cases "d = i")
      case True then show ?thesis using dU u unmet(2) by (auto simp: t)
    next
      case False
      then have bl: "sc_blocked s d = Some U" using dU by (simp add: t)
      have lk: "jb_seq (job_at s u) < jb_seq (job_at s d)" "if active s u then d \<in> set (sc_dependents s u) else (u, d) \<in> {}"
        using f(4) bl u unfolding linked_def by blast+
      then show ?thesis by (simp add: t split: if_splits)
    qed
    then show "jb_seq (job_at ?t u) < jb_seq (job_at ?t d)" "if active ?t u then d \<in> set (sc_dependents ?t u) else (u, d) \<in> {}" by (simp_all add: j a)
  next
    fix u assume u: "\<not> active ?t u"
    then have "u \<notin> set unmet" using unmet(2) by (auto simp: a)
    then show "sc_dependents ?t u = []" using f(4) u by (simp add: linked_def a t)
  next
    fix u show "distinct (sc_dependents ?t u)" using f(4) nd by (simp add: linked_def t)
  next
    fix u d assume d: "d \<in> set (sc_dependents ?t u)"
    show "is_terminal (status_of ?t d) \<or> (\<exists>U. sc_blocked ?t d = Some U \<and> u \<in> U)"
    proof (cases "d = i")
      case True then show ?thesis using d nd by (simp add: t split: if_splits)
    next
      case False
      then have "d \<in> set (sc_dependents s u)" using d by (simp add: t split: if_splits)
      then have "is_terminal (status_of s d) \<or> (\<exists>U. sc_blocked s d = Some U \<and> u \<in> U)" using f(4) unfolding linked_def by blast
      then show ?thesis using False by (simp add: t j)
    qed
  qed simp_all
  have 5: "counted 0 ?t" using f(5) by (simp add: counted_def a t)
  have 7: "deps_ok (D(i := ds)) ?t" unfolding deps_ok_def b j t
  proof (intro conjI allI impI ballI)
    fix x assume x: "was_submitted s x"
    show "(\<forall>d \<in> (D(i := ds)) x. status_of s d = COMPLETED) \<or> jb_attempts (job_at s x) = 0 \<and> (is_terminal (status_of s x)
        \<or> (\<exists>U. ((sc_blocked s)(i := Some (set unmet))) x = Some U \<and> (\<forall>d \<in> (D(i := ds)) x. status_of s d = COMPLETED \<or> d \<in> U)))"
      using deps_okD(1) [OF f(7) x] deps act(3) by (cases "x = i") simp_all
  next
    fix x d assume "d \<in> (D(i := ds)) x"
    then have "was_submitted s d" using deps_okD(2) [OF f(7), of d x] deps by (cases "x = i") simp_all
    then show "d < length (sc_objects s)" "was_submitted s d" by (simp_all add: was_submitted_def)
  qed
  show "sched_ok (D(i := ds)) ?t" using 1 2 3 4 5 7 f(6) by (simp add: fin_ok_def j t)
qed

lemma extend_deps:
  assumes ok: "sched_ok (D(i := {})) s" and d: "\<forall>d \<in> ds. was_submitted s d"
    and i: "(\<forall>d \<in> ds. status_of s d = COMPLETED) \<or> jb_attempts (job_at s i) = 0 \<and> is_terminal (status_of s i)"
  shows "sched_ok (D(i := ds)) s"
proof -
  note f = fin_okD [OF ok]
  have "deps_ok (D(i := ds)) s" unfolding deps_ok_def
  proof (intro conjI allI impI ballI)
    fix x assume x: "was_submitted s x"
    show "(\<forall>d \<in> (D(i := ds)) x. status_of s d = COMPLETED) \<or> jb_attempts (job_at s x) = 0 \<and> (is_terminal (status_of s x)
        \<or> (\<exists>U. sc_blocked s x = Some U \<and> (\<forall>d \<in> (D(i := ds)) x. status_of s d = COMPLETED \<or> d \<in> U)))"
      using deps_okD(1) [OF f(7) x] i by (cases "x = i") auto
  next
    fix x e assume "e \<in> (D(i := ds)) x"
    then have "was_submitted s e" using deps_okD(2) [OF f(7), of e x] d by (cases "x = i") simp_all
    then show "e < length (sc_objects s)" "was_submitted s e" by (simp_all add: was_submitted_def)
  qed
  then show ?thesis using f by (simp add: fin_ok_def)
qed

text \<open>Failures the code means.\<close>

definition meant :: "sched_error \<Rightarrow> bool" where
  "meant e \<longleftrightarrow> e \<noteq> InvalidTransitionError \<and> e \<noteq> Out_of_fuel"

lemma job_submit_ok:
  assumes ok: "sched_ok D s" and i: "i < length (sc_objects s)"
  shows "case submit s i delay deps now of Inl e \<Rightarrow> meant e
    | Inr t \<Rightarrow> sched_ok (D(i := set deps)) t \<and> \<not> was_submitted s i \<and> (\<forall>k. was_submitted t k \<longleftrightarrow> was_submitted s k \<or> k = i)"
proof (cases "sc_stopping s \<or> (i \<in> set (sc_known s) \<or> status_of s i \<noteq> PENDING \<or> jb_attempts (job_at s i) \<noteq> 0) \<or> list_ex (\<lambda>d. d \<notin> set (sc_known s)) (remdups deps)")
  case True then show ?thesis by (auto simp: submit_def meant_def)
next
  case False
  define s1 where "s1 = register s i delay now"
  note f = fin_okD [OF ok]
  have new: "i \<notin> set (sc_known s)" "status_of s i = PENDING" "jb_attempts (job_at s i) = 0" using False by simp_all
  note r = register_ok [OF ok i new(1,2), where delay = delay and now = now, folded s1_def]
  have known: "d \<in> set (sc_known s)" if "d \<in> set deps" for d using False that by (auto simp: list_ex_iff)
  have sub: "was_submitted s d" if "d \<in> set deps" for d using known [OF that] f(1) by (simp add: was_submitted_def numbered_def)
  have sub1: "was_submitted s1 d" if "d \<in> set deps" for d using sub [OF that] r(3) by simp
  have act: "active s1 i" "status_of s1 i = PENDING" "jb_attempts (job_at s1 i) = 0" using r(2,4,5) new by simp_all
  have nc: "i \<notin> sc_cancel_requested s1" by (rule r(7))
  have nb: "\<not> was_submitted s i" using new by (simp add: was_submitted_def)
  have sb: "submit s i delay deps now =
      (case find (\<lambda>d. is_terminal (status_of s1 d) \<and> status_of s1 d \<noteq> COMPLETED) (remdups deps) of
         Some d \<Rightarrow> finish_job s1 i CANCELLED (Some (Upstream_did_not_complete d)) now
       | None \<Rightarrow> (let unmet = filter (\<lambda>d. status_of s1 d \<noteq> COMPLETED) (remdups deps) in if unmet \<noteq> [] then Inr (block_on s1 i unmet) else Inr (enqueue s1 i now)))"
    unfolding s1_def using False by (simp add: submit_def Let_def)
  show ?thesis
  proof (cases "find (\<lambda>d. is_terminal (status_of s1 d) \<and> status_of s1 d \<noteq> COMPLETED) (remdups deps)")
    case (Some d)
    have free: "i \<notin> set (sc_attempts s1)" using locatedD(1) [OF fin_okD(3) [OF r(1)] act(1)] by (simp add: placed_def)
    obtain t where t: "finish_job s1 i CANCELLED (Some (Upstream_did_not_complete d)) now = Inr t" "sched_ok (D(i := {})) t"
        "evolves (ended s1 i CANCELLED (Some (Upstream_did_not_complete d)) now) t"
      using finish_job_ok [OF r(1) act(1), of CANCELLED "Some (Upstream_did_not_complete d)" now] act(2) free by auto
    have l: "i < length (sc_objects s1)" by (rule active_less [OF fin_okD(1) [OF r(1)] act(1)])
    have b: "was_submitted t k \<longleftrightarrow> was_submitted s k \<or> k = i" for k using evolvesD(5) [OF t(3)] submitted_ended [OF act(1) l] r(3) by simp
    have "status_of t i = CANCELLED" using evolvesD(1) [OF t(3), of i] l by (simp add: job_at_ended)
    moreover have "core (job_at t i) = core (job_at (ended s1 i CANCELLED (Some (Upstream_did_not_complete d)) now) i)" using t(3) by (simp add: evolves_def)
    then have "jb_attempts (job_at t i) = jb_attempts (job_at (ended s1 i CANCELLED (Some (Upstream_did_not_complete d)) now) i)" by (rule core_same(1))
    then have "jb_attempts (job_at t i) = 0" using act(3) l by (simp add: job_at_ended)
    ultimately have "sched_ok (D(i := set deps)) t" by (intro extend_deps [OF t(2)]) (use b sub in auto)
    then show ?thesis using t(1) Some b nb by (simp add: sb)
  next
    case None
    then have live: "\<not> is_terminal (status_of s1 d) \<or> status_of s1 d = COMPLETED" if "d \<in> set deps" for d
      using that by (auto simp: find_None_iff)
    define unmet where "unmet = filter (\<lambda>d. status_of s1 d \<noteq> COMPLETED) (remdups deps)"
    have sb1: "submit s i delay deps now = (if unmet \<noteq> [] then Inr (block_on s1 i unmet) else Inr (enqueue s1 i now))"
      unfolding sb None by (simp add: unmet_def)
    show ?thesis
    proof (cases "unmet = []")
      case True
      then have c: "\<forall>d \<in> set deps. status_of s1 d = COMPLETED" by (auto simp: unmet_def filter_empty_conv)
      have e: "sched_ok (D(i := {})) (enqueue s1 i now)" by (rule enqueue_ok [OF r(1) act(1)]) (use act(2) nc in simp_all)
      have b: "was_submitted (enqueue s1 i now) = was_submitted s1" by (rule submitted_frame) simp_all
      have "sched_ok (D(i := set deps)) (enqueue s1 i now)" by (rule extend_deps [OF e]) (use c sub1 in \<open>simp_all add: b\<close>)
      moreover have "submit s i delay deps now = Inr (enqueue s1 i now)" using True sb1 by simp
      ultimately show ?thesis using nb b r(3) by (simp only: sum.case) blast
    next
      case False
      have u: "active s1 u \<and> u \<noteq> i \<and> jb_seq (job_at s1 u) < jb_seq (job_at s1 i)" if "u \<in> set unmet" for u
      proof -
        have ud: "u \<in> set deps" "status_of s1 u \<noteq> COMPLETED" using that by (simp_all add: unmet_def)
        then have "active s1 u" using known [OF ud(1)] live [OF ud(1)] r(2) [of u] r(4) [of u] by (simp add: active_def)
        moreover have "u \<noteq> i" using sub [OF ud(1)] nb by blast
        ultimately show ?thesis using r(6) [OF sub [OF ud(1)]] by simp
      qed
      have "sched_ok (D(i := set deps)) (block_on s1 i unmet)" "was_submitted (block_on s1 i unmet) = was_submitted s1"
        by (rule block_ok [OF r(1) act False]; use u sub1 nc in \<open>auto simp: unmet_def\<close>)+
      moreover have "submit s i delay deps now = Inr (block_on s1 i unmet)" using False sb1 by simp
      ultimately show ?thesis using nb r(3) by (simp only: sum.case) blast
    qed
  qed
qed

section \<open>Every step\<close>

lemma job_create_ok:
  assumes ok: "sched_ok D s" and c: "create_job s sp = Inr (t, i)"
  shows "sched_ok D t" "was_submitted t = was_submitted s" "i < length (sc_objects t)"
proof -
  note f = fin_okD [OF ok]
  obtain j where j: "new_job sp = Inr j" "t = s\<lparr>sc_objects := sc_objects s @ [j]\<rparr>" "i = length (sc_objects s)"
    using c by (auto simp: create_job_def bind_sum_Inr)
  show "i < length (sc_objects t)" by (simp add: j)
  have new: "jb_status j = PENDING" "jb_attempts j = 0" using j(1) by (auto simp: new_job_def split: if_splits)
  have jt: "job_at t k = job_at s k" if "k < length (sc_objects s)" for k using that by (simp add: job_at_def j nth_append)
  have jn: "job_at t (length (sc_objects s)) = j" by (simp add: job_at_def j)
  have t: "sc_known t = sc_known s" "sc_seq t = sc_seq s" "sc_unfinished t = sc_unfinished s" "sc_idle t = sc_idle s"
    "length (sc_objects t) = Suc (length (sc_objects s))" "sc_attempts t = sc_attempts s" "sc_dependents t = sc_dependents s" "sc_blocked t = sc_blocked s"
    "sc_running t = sc_running s" "sc_peak t = sc_peak s" "sc_workers t = sc_workers s" "sc_cancel_requested t = sc_cancel_requested s"
    "queued t = queued s" "sc_ready t = sc_ready s" "sc_delayed t = sc_delayed s" "sc_strategy t = sc_strategy s" "sc_finished t = sc_finished s"
    by (simp_all add: j queued_def)
  have n: "distinct (sc_known s)" "\<forall>x \<in> set (sc_known s). x < length (sc_objects s)"
    "\<forall>x \<in> set (sc_finished s). x < length (sc_objects s) \<and> is_terminal (status_of s x)" "\<forall>u. \<forall>d \<in> set (sc_dependents s u). d < length (sc_objects s)"
    using f(1) unfolding numbered_def by blast+
  have a: "active t k = active s k" for k using n(2) jt by (auto simp: active_def t)
  have b: "was_submitted t k = was_submitted s k" for k
  proof (cases "k < length (sc_objects s)")
    case True then show ?thesis using jt by (simp add: was_submitted_def t)
  next
    case False
    then show ?thesis using n(2) jn new by (cases "k = length (sc_objects s)") (auto simp: was_submitted_def t)
  qed
  show "was_submitted t = was_submitted s" using b by (simp add: fun_eq_iff)
  have ws: "job_at t k = job_at s k" if "was_submitted s k" for k using that by (intro jt) (simp add: was_submitted_def)
  have wa: "job_at t k = job_at s k" if "active s k" for k by (rule ws [OF active_submitted [OF f(1) that]])
  have 1: "numbered t" unfolding numbered_def
  proof (intro conjI allI impI ballI)
    fix x assume "was_submitted t x"
    then show "jb_seq (job_at t x) < sc_seq t" using f(1) by (simp add: numbered_def b ws t)
  next
    fix x y assume xy: "was_submitted t x" "was_submitted t y" "jb_seq (job_at t x) = jb_seq (job_at t y)"
    then have xy': "was_submitted s x" "was_submitted s y" by (simp_all add: b)
    then show "x = y" using f(1) xy(3) unfolding numbered_def ws [OF xy'(1)] ws [OF xy'(2)] by blast
  next
    show "distinct (sc_known t)" using n(1) by (simp add: t)
    fix x
    show "x < length (sc_objects t)" if "x \<in> set (sc_known t)" using that n(2) by (auto simp: t)
    show "x < length (sc_objects t)" "is_terminal (status_of t x)" if "x \<in> set (sc_finished t)" using that n(3) by (auto simp: t jt)
  next
    fix u d assume "d \<in> set (sc_dependents t u)"
    then have "d < length (sc_objects s)" using n(4) unfolding t by blast
    then show "d < length (sc_objects t)" by (simp add: t)
  qed
  have 2: "heaps_ok t"
  proof -
    have q: "job_at t x = job_at s x" if "x \<in> set (queued s)" for x using f(2) that by (intro ws) (simp add: heaps_ok_def)
    then have "\<And>e. e \<in> set (sc_ready s) \<Longrightarrow> job_at t (snd e) = job_at s (snd e)" "\<And>e. e \<in> set (sc_delayed s) \<Longrightarrow> job_at t (snd e) = job_at s (snd e)"
      by (simp_all add: queued_def)
    then show ?thesis using f(2) by (simp add: heaps_ok_def t b)
  qed
  have 3: "located {} t" unfolding located_def
  proof (intro conjI allI impI ballI)
    fix x assume "active t x"
    then have "active s x" by (simp add: a)
    then show "placed {} t x" using locatedD(1) [OF f(3), of x] wa by (simp add: placed_def t split: if_splits)
  next
    show "staffed {} t" using locatedD(4) [OF f(3)] by (simp add: staffed_def t)
  qed (use locatedD(2,3) [OF f(3)] in \<open>auto simp: t a\<close>)
  have 4: "linked {} t" unfolding linked_def
  proof (intro conjI allI impI ballI)
    fix d U assume "sc_blocked t d = Some U"
    then have bl: "sc_blocked s d = Some U" by (simp add: t)
    then have da: "active s d" by (rule locatedD(3) [OF f(3)])
    show "U \<noteq> {}" using f(4) bl by (simp add: linked_def)
    fix u assume u: "u \<in> U"
    then have lk: "jb_seq (job_at s u) < jb_seq (job_at s d)" "if active s u then d \<in> set (sc_dependents s u) else (u, d) \<in> {}"
      using f(4) bl unfolding linked_def by blast+
    then have ua: "active s u" by (simp split: if_splits)
    show "jb_seq (job_at t u) < jb_seq (job_at t d)" using lk(1) wa ua da by simp
    show "if active t u then d \<in> set (sc_dependents t u) else (u, d) \<in> {}" using lk(2) ua by (simp add: a t)
  next
    fix u assume "\<not> active t u" then show "sc_dependents t u = []" using f(4) by (simp add: linked_def a t)
  next
    fix u d assume "d \<in> set (sc_dependents t u)"
    then have d: "d \<in> set (sc_dependents s u)" by (simp add: t)
    then have "is_terminal (status_of s d) \<or> (\<exists>U. sc_blocked s d = Some U \<and> u \<in> U)" using f(4) unfolding linked_def by blast
    moreover have "job_at t d = job_at s d" using n(4) d by (intro jt) blast
    ultimately show "is_terminal (status_of t d) \<or> (\<exists>U. sc_blocked t d = Some U \<and> u \<in> U)" by (simp add: t)
  qed (use f(4) in \<open>simp_all add: linked_def t\<close>)
  have 5: "counted 0 t" using f(5) by (simp add: counted_def a t)
  have 6: "\<forall>x < length (sc_objects t). tally_ok (job_at t x)"
    using f(6) jt jn new by (auto simp: t less_Suc_eq tally_ok_def)
  have 7: "deps_ok D t" unfolding deps_ok_def
  proof (intro conjI allI impI ballI)
    fix x assume "was_submitted t x"
    then have x: "was_submitted s x" by (simp add: b)
    have "status_of t d = status_of s d" if "d \<in> D x" for d using ws [OF deps_okD(2) [OF f(7) that]] by simp
    then show "(\<forall>d \<in> D x. status_of t d = COMPLETED) \<or> jb_attempts (job_at t x) = 0 \<and> (is_terminal (status_of t x)
        \<or> (\<exists>U. sc_blocked t x = Some U \<and> (\<forall>d \<in> D x. status_of t d = COMPLETED \<or> d \<in> U)))"
      using deps_okD(1) [OF f(7) x] by (simp add: ws [OF x] t)
  next
    fix x d assume "d \<in> D x"
    then have "was_submitted s d" by (rule deps_okD(2) [OF f(7)])
    then show "d < length (sc_objects t)" "was_submitted t d" by (simp_all add: b) (simp add: was_submitted_def t)
  qed
  show "sched_ok D t" using 1 2 3 4 5 6 7 by (simp add: fin_ok_def)
qed

text \<open>The dependencies of submitted jobs are remembered: \<open>keeps D s r\<close> says that the result \<open>r\<close> of a step from \<open>s\<close> is
  either a failure the code means or a state in order, with the same dependencies for the jobs submitted before.\<close>

definition grows :: "(nat \<Rightarrow> nat set) \<Rightarrow> sched \<Rightarrow> sched \<Rightarrow> bool" where
  "grows D s t \<longleftrightarrow> (\<exists>D'. sched_ok D' t \<and> (\<forall>i. was_submitted s i \<longrightarrow> was_submitted t i \<and> D' i = D i))"

lemma growsI: "sched_ok D t \<Longrightarrow> was_submitted t = was_submitted s \<Longrightarrow> grows D s t"
  unfolding grows_def by metis

lemma grows_refl: "sched_ok D s \<Longrightarrow> grows D s s"
  by (rule growsI) simp_all

lemma grows_trans: "grows D s t \<Longrightarrow> (\<And>D'. sched_ok D' t \<Longrightarrow> grows D' t u) \<Longrightarrow> grows D s u"
  unfolding grows_def by metis

lemma submit_grows:
  assumes "sched_ok D s" "i < length (sc_objects s)" "submit s i delay deps now = Inr t"
  shows "grows D s t"
  using job_submit_ok [OF assms(1,2), where delay = delay and deps = deps and now = now] unfolding grows_def assms(3) sum.case by (metis fun_upd_apply)

lemma fin_ok_recurring:
  "fin_ok D P c X (s\<lparr>sc_recurring := r\<rparr>) = fin_ok D P c X s" "was_submitted (s\<lparr>sc_recurring := r\<rparr>) = was_submitted s"
  by (rule fin_ok_frame; simp)+

lemma grows_recurring: "grows D s t \<Longrightarrow> grows D s (t\<lparr>sc_recurring := r\<rparr>)"
  by (simp add: grows_def fin_ok_recurring)

lemma fire_grows:
  assumes ok: "sched_ok D s"
  shows "grows D s (fire s k r now)"
proof -
  define r1 where "r1 = advance r now"
  define s1 where "s1 = s\<lparr>sc_recurring := AList.update k r1 (sc_recurring s)\<rparr>"
  have g1: "grows D s s1" unfolding s1_def by (rule grows_recurring [OF grows_refl [OF ok]])
  have s1: "sched_ok D s1" "was_submitted s1 = was_submitted s" using ok by (simp_all add: s1_def fin_ok_recurring)
  show ?thesis
  proof (cases "(case rc_last_job r1 of None \<Rightarrow> False | Some p \<Rightarrow> p \<in> set (sc_known s1) \<and> \<not> is_terminal (status_of s1 p)) \<and> \<not> rc_allow_overlap r1")
    case True
    then have "fire s k r now = s1\<lparr>sc_recurring := AList.update k (r1\<lparr>rc_skipped := rc_skipped r1 + 1\<rparr>) (sc_recurring s1)\<rparr>"
      unfolding fire_def Let_def r1_def [symmetric] s1_def [symmetric] by simp
    then show ?thesis using grows_recurring [OF g1] by simp
  next
    case False
    then have f: "fire s k r now = (case bind_sum (create_job s1 (rc_spec r1)) (\<lambda>(s2, i). bind_sum (submit s2 i 0 [] now) (\<lambda>s3. Inr (s3, i))) of
        Inl e \<Rightarrow> s1 | Inr (s3, i) \<Rightarrow> s3\<lparr>sc_recurring := AList.update k (r1\<lparr>rc_last_job := Some i, rc_fired := rc_fired r1 + 1\<rparr>) (sc_recurring s3)\<rparr>)"
      unfolding fire_def Let_def r1_def [symmetric] s1_def [symmetric] by (simp only: if_False)
    show ?thesis
    proof (cases "bind_sum (create_job s1 (rc_spec r1)) (\<lambda>(s2, i). bind_sum (submit s2 i 0 [] now) (\<lambda>s3. Inr (s3, i)))")
      case (Inl e) then show ?thesis using g1 by (simp add: f)
    next
      case (Inr x)
      then obtain s2 i s3 where x: "create_job s1 (rc_spec r1) = Inr (s2, i)" "submit s2 i 0 [] now = Inr s3" "x = (s3, i)"
        by (auto simp: bind_sum_Inr)
      note c = job_create_ok [OF s1(1) x(1)]
      have "grows D s s2" using growsI [OF c(1)] c(2) s1(2) by simp
      moreover have "grows D' s2 s3" if "sched_ok D' s2" for D' by (rule submit_grows [OF that c(3) x(2)])
      ultimately have "grows D s s3" by (rule grows_trans)
      then show ?thesis using Inr x(3) grows_recurring by (simp add: f)
    qed
  qed
qed

lemma tick_each_grows: "sched_ok D s \<Longrightarrow> grows D s (tick_each s now rs)"
proof (induction s now rs arbitrary: D rule: tick_each.induct)
  case (1 s now) then show ?case by (simp add: grows_refl)
next
  case (2 s now k r rs)
  define u where "u = (if \<not> rc_active r then s\<lparr>sc_recurring := AList.delete k (sc_recurring s)\<rparr>
      else if rc_next_run r \<le> now then fire s k r now else s)"
  have "grows D s u" using 2(4) grows_recurring [OF grows_refl [OF 2(4)]] fire_grows [OF 2(4)] grows_refl [OF 2(4)] by (simp add: u_def)
  moreover have "grows D' u (tick_each u now rs)" if "sched_ok D' u" for D'
    using that 2(1,2,3) [of D'] by (simp add: u_def split: if_splits)
  ultimately have "grows D s (tick_each u now rs)" by (rule grows_trans)
  then show ?case by (simp add: u_def split: if_splits)
qed

lemma sched_try_ok:
  assumes ok: "sched_ok D s"
  shows "case sched_try s op of Inl e \<Rightarrow> meant e | Inr t \<Rightarrow> grows D s t"
proof (cases op)
  case (Create sp)
  show ?thesis
  proof (cases "create_job s sp")
    case (Inl e)
    then have "e = Raised ValueError" by (auto simp: create_job_def new_job_def bind_sum_def split: if_splits)
    then show ?thesis using Inl Create by (simp add: meant_def)
  next
    case (Inr x)
    then obtain t i where x: "create_job s sp = Inr (t, i)" by (cases x) simp
    show ?thesis using growsI [OF job_create_ok(1,2) [OF ok x]] x Create by simp
  qed
next
  case (Submit i delay deps now)
  show ?thesis
  proof (cases "i < length (sc_objects s)")
    case True
    show ?thesis
    proof (cases "submit s i delay deps now")
      case (Inl e) then show ?thesis using job_submit_ok [OF ok True, where delay = delay and deps = deps and now = now] Submit True by simp
    next
      case (Inr t) then show ?thesis using submit_grows [OF ok True Inr] Submit True by simp
    qed
  qed (use grows_refl [OF ok] Submit in simp)
next
  case (Cancel i now)
  obtain t b where "cancel s i now = Inr (t, b)" "sched_ok D t" "was_submitted t = was_submitted s" using cancel_ok [OF ok] by blast
  then show ?thesis using Cancel growsI by simp
next
  case (Dispatch now)
  obtain t b where "dispatch s now = Inr (t, b)" "sched_ok D t" "was_submitted t = was_submitted s" using dispatch_ok [OF ok] by blast
  then show ?thesis using Dispatch growsI by simp
next
  case (EndAttempt i out now r)
  show ?thesis
  proof (cases "i \<in> set (sc_attempts s)")
    case True
    obtain t where "end_attempt s i out now r = Inr t" "sched_ok D t" "was_submitted t = was_submitted s" using end_attempt_ok [OF ok True] by blast
    then show ?thesis using EndAttempt True growsI by simp
  qed (use grows_refl [OF ok] EndAttempt in simp)
next
  case (ScheduleRecurring sp interval start_in allow now)
  show ?thesis
  proof (cases "schedule_recurring s sp interval start_in allow now")
    case (Inl e)
    then have "e = Raised ValueError" by (auto simp: schedule_recurring_def new_schedule_def bind_sum_def split: if_splits)
    then show ?thesis using Inl ScheduleRecurring by (simp add: meant_def)
  next
    case (Inr x)
    then obtain r n m where "fst x = s\<lparr>sc_recurring := r, sc_schedule_ids := n\<rparr>" by (auto simp: schedule_recurring_def bind_sum_Inr)
    moreover have "sched_ok D (s\<lparr>sc_recurring := r, sc_schedule_ids := n\<rparr>)" "was_submitted (s\<lparr>sc_recurring := r, sc_schedule_ids := n\<rparr>) = was_submitted s"
      using ok by (simp_all add: fin_ok_frame [where t = "s\<lparr>sc_recurring := r, sc_schedule_ids := n\<rparr>" and s = s])
    ultimately show ?thesis using Inr ScheduleRecurring growsI by simp
  qed
next
  case (CancelRecurring k)
  then show ?thesis using grows_recurring [OF grows_refl [OF ok]] grows_refl [OF ok] by (simp add: cancel_recurring_def split: option.split)
next
  case (Tick now)
  then show ?thesis using tick_each_grows [OF ok] grows_refl [OF ok] by (simp add: tick_def)
next
  case (Stop b now)
  obtain t where "stop s b now = Inr t" "sched_ok D t" "was_submitted t = was_submitted s" using stop_ok [OF ok] by blast
  then show ?thesis using Stop growsI by simp
qed

lemma new_scheduler_ok: "new_scheduler strat n hist = Inr s \<Longrightarrow> sched_ok D s \<longleftrightarrow> (\<forall>i. D i = {})"
  by (auto simp: new_scheduler_def inv_defs staffed_def active_def was_submitted_def queued_def split: if_splits)

text \<open>Runs.\<close>

abbreviation sched_run :: "sched \<Rightarrow> sched_op list \<Rightarrow> sched" where
  "sched_run s ops \<equiv> run_ops sched_step s ops"

end
