(* ===== verification/Job_Properties.thy ===== *)
theory Job_Properties
  imports Job_Steps
begin

text \<open>
  What the scheduler promises: dependencies come first and failures cascade, the best due job is started next, nothing
  deadlocks, \<open>join\<close> wakes up exactly when every job has ended, attempts stay within the retry policy, and recurring
  schedules do not drift.
\<close>

declare split_paired_All [simp del] split_paired_Ex [simp del]

section \<open>Runs\<close>

lemma step_grows: "sched_ok D s \<Longrightarrow> grows D s (fst (sched_step s op))"
  using sched_try_ok [of D s op] grows_refl [of D s] by (simp add: sched_step_def split: sum.splits)

lemma run_grows: "sched_ok D s \<Longrightarrow> grows D s (sched_run s ops)"
proof (induction ops arbitrary: D s)
  case (Cons op ops)
  have "grows D s (sched_run (fst (sched_step s op)) ops)" by (rule grows_trans [OF step_grows [OF Cons.prems] Cons.IH])
  then show ?case by simp
qed (simp add: grows_refl)

interpretation sched_machine: invariant_machine sched_step "\<lambda>s. \<exists>D. sched_ok D s"
  by unfold_locales (use step_grows in \<open>metis grows_def\<close>)

lemma sched_reachable_ok:
  assumes "new_scheduler strat n hist = Inr s"
  obtains D where "sched_ok D (sched_run s ops)"
proof -
  have "\<exists>D. sched_ok D s" using new_scheduler_ok [OF assms, of "\<lambda>_. {}"] by blast
  then show ?thesis using sched_machine.run_inv [of s ops] that by blast
qed

section \<open>Dependencies\<close>

lemma deps_settled:
  assumes ok: "sched_ok D s" and i: "was_submitted s i" and d: "d \<in> D i"
  shows "0 < jb_attempts (job_at s i) \<Longrightarrow> status_of s d = COMPLETED"
    "is_terminal (status_of s d) \<Longrightarrow> status_of s d \<noteq> COMPLETED \<Longrightarrow> status_of s i = CANCELLED \<and> jb_attempts (job_at s i) = 0"
proof -
  note f = fin_okD [OF ok]
  note dep = deps_okD(1) [OF f(7) i]
  show "0 < jb_attempts (job_at s i) \<Longrightarrow> status_of s d = COMPLETED" using dep d by auto
  assume t: "is_terminal (status_of s d)" "status_of s d \<noteq> COMPLETED"
  have "d \<notin> U" if "sc_blocked s i = Some U" for U
  proof
    assume "d \<in> U"
    then have "if active s d then i \<in> set (sc_dependents s d) else (d, i) \<in> {}" using f(4) that unfolding linked_def by blast
    then show False using t(1) by (simp add: active_def)
  qed
  then have "jb_attempts (job_at s i) = 0 \<and> is_terminal (status_of s i)" using dep d t(2) by blast
  moreover have "tally_ok (job_at s i)" using f(6) i by (simp add: was_submitted_def)
  ultimately show "status_of s i = CANCELLED \<and> jb_attempts (job_at s i) = 0" by (cases "status_of s i") (simp_all add: tally_ok_def)
qed

text \<open>C14. A job that was submitted with dependencies starts its first attempt only when every one of them is COMPLETED; if one
  of them ended in any other way, the job is cancelled without ever having run, whatever else was called before,
  between and after.\<close>

theorem dependencies_first:
  assumes "new_scheduler strat n hist = Inr s" "i < length (sc_objects (sched_run s pre))"
    and "submit (sched_run s pre) i delay deps now = Inr t" "d \<in> set deps"
  shows "(0 < jb_attempts (job_at (sched_run t post) i) \<longrightarrow> status_of (sched_run t post) d = COMPLETED)
    \<and> (is_terminal (status_of (sched_run t post) d) \<and> status_of (sched_run t post) d \<noteq> COMPLETED \<longrightarrow>
      status_of (sched_run t post) i = CANCELLED \<and> jb_attempts (job_at (sched_run t post) i) = 0)"
proof -
  obtain D where D: "sched_ok D (sched_run s pre)" by (rule sched_reachable_ok [OF assms(1)])
  have t: "sched_ok (D(i := set deps)) t" "was_submitted t i"
    using job_submit_ok [OF D assms(2), where delay = delay and deps = deps and now = now] by (simp_all add: assms(3))
  obtain E where E: "sched_ok E (sched_run t post)" "was_submitted (sched_run t post) i" "E i = set deps"
    using run_grows [OF t(1), of post] t(2) unfolding grows_def by (metis fun_upd_same)
  have d: "d \<in> E i" using assms(4) E(3) by simp
  show ?thesis using deps_settled [OF E(1,2) d] by blast
qed

text \<open>Two jobs, the second on the first; the first fails, the second is cancelled.\<close>

definition job_demo :: sched where
  "job_demo = (case new_scheduler PriorityStrategy 2 10 of Inr s \<Rightarrow> s | Inl e \<Rightarrow> undefined)"

lemma job_demo: "new_scheduler PriorityStrategy 2 10 = Inr job_demo"
  by (simp add: job_demo_def new_scheduler_def)

definition demo_spec :: job_spec where
  "demo_spec = \<lparr>sp_priority = MEDIUM, sp_timeout = None, sp_retry = \<lparr>rp_max_retries = 1, rp_base_delay = 1, rp_max_delay = 4, rp_jitter = False\<rparr>,
     sp_deadline = None\<rparr>"

definition demo_pre :: "sched_op list" where
  "demo_pre = [Create demo_spec, Create demo_spec, Submit 0 0 [] 1]"

definition demo_post :: "sched_op list" where
  "demo_post = [Dispatch 2, EndAttempt 0 (Exception ''disk'' False) 3 0]"

theorem dependencies_first_witness:
  "\<exists>t. submit (sched_run job_demo demo_pre) 1 0 [0] 2 = Inr t \<and> status_of (sched_run t demo_post) 0 = FAILED
     \<and> status_of (sched_run t demo_post) 1 = CANCELLED"
proof -
  have i: "1 < length (sc_objects (sched_run job_demo demo_pre))" by code_simp
  have "isl (submit (sched_run job_demo demo_pre) 1 0 [0] 2) = False" by code_simp
  then obtain t where t: "submit (sched_run job_demo demo_pre) 1 0 [0] 2 = Inr t" by (metis sum.collapse(2))
  have "(case submit (sched_run job_demo demo_pre) 1 0 [0] 2 of Inr t \<Rightarrow> status_of (sched_run t demo_post) 0 | Inl e \<Rightarrow> PENDING) = FAILED" by code_simp
  then have f: "status_of (sched_run t demo_post) 0 = FAILED" by (simp only: t sum.case)
  have "status_of (sched_run t demo_post) 1 = CANCELLED" using dependencies_first [OF job_demo i t, of 0 demo_post] f by simp
  then show ?thesis using t f by blast
qed

section \<open>Failures\<close>

text \<open>No call ever leaves the transition table of \<open>JobStatus\<close>, and the cascade of \<open>_finish\<close> over dependents of
  dependents ends within the number of jobs: in every reachable state the only failures are the documented ones.\<close>

theorem no_illegal_transition:
  assumes "new_scheduler strat n hist = Inr s"
  shows "sched_try (sched_run s ops) op \<noteq> Inl InvalidTransitionError \<and> sched_try (sched_run s ops) op \<noteq> Inl Out_of_fuel"
proof -
  obtain D where D: "sched_ok D (sched_run s ops)" by (rule sched_reachable_ok [OF assms])
  then show ?thesis using sched_try_ok [OF D, of op] by (auto simp: meant_def)
qed

theorem no_illegal_transition_witness: "sched_try (sched_run job_demo (demo_pre @ [Submit 1 0 [0] 2, Dispatch 2])) (Cancel 0 3) \<noteq> Inl Out_of_fuel"
  using no_illegal_transition [OF job_demo] by blast

section \<open>Idle\<close>

text \<open>The event that \<open>join\<close> waits for is set exactly when every job the scheduler knows has ended.\<close>

theorem idle_iff_all_ended:
  assumes "new_scheduler strat n hist = Inr s"
  shows "sc_idle (sched_run s ops) \<longleftrightarrow> (\<forall>i \<in> set (sc_known (sched_run s ops)). is_terminal (status_of (sched_run s ops) i))"
proof -
  let ?s = "sched_run s ops"
  obtain D where D: "sched_ok D ?s" by (rule sched_reachable_ok [OF assms])
  have "sc_idle ?s \<longleftrightarrow> card {i. active ?s i} = 0" using fin_okD(5) [OF D] by (simp add: counted_def)
  also have "\<dots> \<longleftrightarrow> {i. active ?s i} = {}" using active_finite by (simp only: card_eq_0_iff) blast
  finally show ?thesis by (auto simp: active_def)
qed

theorem idle_iff_all_ended_witness: "sc_idle (sched_run job_demo demo_pre) = False"
proof -
  have "\<not> (\<forall>i \<in> set (sc_known (sched_run job_demo demo_pre)). is_terminal (status_of (sched_run job_demo demo_pre) i))" by code_simp
  then show ?thesis using idle_iff_all_ended [OF job_demo, of demo_pre] by blast
qed

section \<open>Retries\<close>

text \<open>Job records stay well formed: a job makes at most one attempt more than its policy has retries, a job that was
  never attempted is PENDING or CANCELLED, and one that was attempted is not PENDING.\<close>

theorem attempts_within_policy:
  assumes "new_scheduler strat n hist = Inr s" "i < length (sc_objects (sched_run s ops))"
  shows "int (jb_attempts (job_at (sched_run s ops) i)) \<le> max 0 (rp_max_retries (jb_retry (job_at (sched_run s ops) i))) + 1
    \<and> (jb_attempts (job_at (sched_run s ops) i) = 0 \<longrightarrow> status_of (sched_run s ops) i \<in> {PENDING, CANCELLED})
    \<and> (0 < jb_attempts (job_at (sched_run s ops) i) \<longrightarrow> status_of (sched_run s ops) i \<noteq> PENDING)"
proof -
  obtain D where D: "sched_ok D (sched_run s ops)" by (rule sched_reachable_ok [OF assms(1)])
  have "tally_ok (job_at (sched_run s ops) i)" by (rule fin_okD(6) [OF D assms(2)])
  then show ?thesis unfolding tally_ok_def by auto
qed

text \<open>One failure, a retry, a second failure: the job has used its two attempts and is FAILED.\<close>

definition retry_ops :: "sched_op list" where
  "retry_ops = [Create demo_spec, Submit 0 0 [] 1, Dispatch 1, EndAttempt 0 (Exception ''a'' True) 2 0, Dispatch 3, EndAttempt 0 (Exception ''b'' True) 4 0]"

theorem attempts_within_policy_witness:
  "int (jb_attempts (job_at (sched_run job_demo retry_ops) 0)) \<le> 2 \<and> jb_attempts (job_at (sched_run job_demo retry_ops) 0) = 2"
proof -
  have "rp_max_retries (jb_retry (job_at (sched_run job_demo retry_ops) 0)) = 1" "0 < length (sc_objects (sched_run job_demo retry_ops))"
    "jb_attempts (job_at (sched_run job_demo retry_ops) 0) = 2" by code_simp+
  then show ?thesis using attempts_within_policy [OF job_demo, of 0 retry_ops] by simp
qed

section \<open>Dispatching\<close>

lemma promote_all_due:
  "promote strat objs now d r = (d', r') \<Longrightarrow> sorted (map fst d) \<Longrightarrow> e \<in> set d' \<Longrightarrow> now < fst (fst e)"
proof (induction d arbitrary: r)
  case (Cons x d)
  show ?case
  proof (cases "fst (fst x) \<le> now")
    case True then show ?thesis using Cons by (auto split: if_splits)
  next
    case False
    then have d': "d' = x # d" using Cons.prems(1) by simp
    have "fst x \<le> fst e" using Cons.prems(2,3) unfolding d' by auto
    then have "fst (fst x) \<le> fst (fst e)" by (cases "fst x"; cases "fst e") (auto simp: less_eq_prod_def)
    then show ?thesis using False by simp
  qed
qed simp

lemma waiting_queued: "placed {} s k \<Longrightarrow> status_of s k \<noteq> RUNNING \<Longrightarrow> sc_blocked s k = None \<Longrightarrow> k \<in> set (queued s)"
  by (simp add: placed_def split: if_splits)

text \<open>A job that waits, is due and is not blocked is in the ready heap that a worker sees.\<close>

lemma due_is_ready:
  assumes ok: "sched_ok D s" and k: "active s k" "status_of s k \<noteq> RUNNING" "sc_blocked s k = None" "jb_run_at (job_at s k) \<le> now"
  shows "(job_key (sc_strategy s) (job_at s k), k) \<in> set (sc_ready (promote_due s now))"
proof -
  note f = fin_okD [OF ok]
  obtain d r where p: "promote (sc_strategy s) (sc_objects s) now (sc_delayed s) (sc_ready s) = (d, r)" by fastforce
  note pr = promote_ok [OF p]
  have t: "sc_ready (promote_due s now) = r" "sc_delayed (promote_due s now) = d" "sc_strategy (promote_due s now) = sc_strategy s"
    by (simp_all add: promote_due_def p)
  have h: "heaps_ok (promote_due s now)" by (rule fin_okD(2) [OF promote_due_ok [OF ok]])
  have j: "job_at (promote_due s now) = job_at s" by (rule job_at_frame) (simp add: promote_due_frame)
  have "k \<in> set (queued s)" by (rule waiting_queued [OF locatedD(1) [OF f(3) k(1)] k(2,3)])
  moreover have heap: "k \<in> snd ` set r" if e: "e \<in> set (sc_delayed s)" "snd e = k" for e
  proof -
    have live: "\<not> is_terminal (jb_status (sc_objects s ! k))" using k(1) by (simp add: active_def job_at_def)
    have "k \<notin> snd ` set d"
    proof
      assume "k \<in> snd ` set d"
      then obtain x where x: "x \<in> set d" "snd x = k" by auto
      have "now < fst (fst x)" using promote_all_due [OF p _ x(1)] f(2) by (simp add: heaps_ok_def)
      moreover have "fst x = (jb_run_at (job_at s k), jb_seq (job_at s k))" using h x by (auto simp: heaps_ok_def t j)
      ultimately show False using k(4) by simp
    qed
    then show ?thesis using pr(6) [OF e(1)] live e(2) by auto
  qed
  ultimately have "k \<in> snd ` set r" using pr(5) unfolding queued_def by (metis (no_types, lifting) Un_iff image_iff image_mono list.set_map set_append subsetD)
  then obtain e where e: "e \<in> set r" "snd e = k" by auto
  then have "fst e = job_key (sc_strategy s) (job_at s k)" using h by (auto simp: heaps_ok_def t j)
  then show ?thesis using e by (cases e) (auto simp: t)
qed

lemma dispatch_take:
  assumes "dispatch s now = Inr (t, Some i)"
  obtains ready where "pop_live (sc_objects (promote_due s now)) (sc_ready (promote_due s now)) = (ready, Some i)"
  using assms by (auto simp: dispatch_def take_next_def Let_def bind_sum_Inr split: if_splits prod.splits option.splits)

text \<open>C16. A worker starts the job that comes first: no known job that waits, is due and has no unmet dependency has a smaller
  key under the strategy than the one started; and the one started was itself waiting, with no unmet dependency.\<close>

theorem dispatch_picks_best:
  assumes "new_scheduler strat n hist = Inr s" "dispatch (sched_run s ops) now = Inr (t, Some i)"
    and "k \<in> set (sc_known (sched_run s ops))" "status_of (sched_run s ops) k \<in> {PENDING, RETRY_WAIT}" "sc_blocked (sched_run s ops) k = None"
    and "jb_run_at (job_at (sched_run s ops) k) \<le> now"
  shows "job_key (sc_strategy (sched_run s ops)) (job_at (sched_run s ops) i) \<le> job_key (sc_strategy (sched_run s ops)) (job_at (sched_run s ops) k)
    \<and> i \<in> set (sc_known (sched_run s ops)) \<and> status_of (sched_run s ops) i \<in> {PENDING, RETRY_WAIT} \<and> sc_blocked (sched_run s ops) i = None"
proof -
  let ?s = "sched_run s ops" and ?p = "promote_due (sched_run s ops) now"
  obtain D where D: "sched_ok D ?s" by (rule sched_reachable_ok [OF assms(1)])
  have P: "sched_ok D ?p" by (rule promote_due_ok [OF D])
  have j: "job_at ?p = job_at ?s" by (rule job_at_frame) (simp add: promote_due_frame)
  have st: "sc_strategy ?p = sc_strategy ?s" "sc_blocked ?p = sc_blocked ?s" by (simp_all add: promote_due_def split: prod.split)
  obtain ready where pop: "pop_live (sc_objects ?p) (sc_ready ?p) = (ready, Some i)" using dispatch_take [OF assms(2)] .
  note tk = take_in_hand [OF P pop]
  obtain pre x where r: "sc_ready ?p = pre @ (x, i) # ready" "\<forall>e \<in> set pre. is_terminal (status_of ?p (snd e))"
    using pop_live_Some [OF pop] unfolding job_at_def by blast
  have h: "heaps_ok ?p" by (rule fin_okD(2) [OF P])
  have ak: "active ?s k" using assms(3,4) by (auto simp: active_def)
  have kin: "(job_key (sc_strategy ?s) (job_at ?s k), k) \<in> set (sc_ready ?p)"
    by (rule due_is_ready [OF D ak]) (use assms(4,5,6) in auto)
  moreover have "k \<notin> snd ` set pre" using r(2) ak by (auto simp: j active_def)
  ultimately have "(job_key (sc_strategy ?s) (job_at ?s k), k) \<in> set ((x, i) # ready)" unfolding r(1) by force
  moreover have "x = job_key (sc_strategy ?s) (job_at ?s i)" using h unfolding heaps_ok_def r(1) by (simp add: j st)
  moreover have "sorted (map fst (sc_ready ?p))" using h by (simp add: heaps_ok_def)
  then have "\<forall>e \<in> set ready. x \<le> fst e" unfolding r(1) by (simp add: sorted_append)
  ultimately have "job_key (sc_strategy ?s) (job_at ?s i) \<le> job_key (sc_strategy ?s) (job_at ?s k)" by auto
  moreover have "i \<in> set (sc_known ?s)" using tk(2) by (simp add: active_def promote_due_frame)
  moreover have "sc_blocked ?s i = None"
    using placed_queued [OF locatedD(1) [OF fin_okD(3) [OF P] tk(2)]] r(1) by (simp add: queued_def st)
  ultimately show ?thesis using tk(3) by (simp add: j)
qed

text \<open>A job of low priority came first, one of high priority second; the second is started.\<close>

definition two_ops :: "sched_op list" where
  "two_ops = [Create (demo_spec\<lparr>sp_priority := LOW\<rparr>), Create (demo_spec\<lparr>sp_priority := HIGH\<rparr>), Submit 0 0 [] 1, Submit 1 0 [] 2]"

theorem dispatch_picks_best_witness:
  "\<exists>t. dispatch (sched_run job_demo two_ops) 3 = Inr (t, Some 1)
     \<and> job_key (sc_strategy (sched_run job_demo two_ops)) (job_at (sched_run job_demo two_ops) 1)
       \<le> job_key (sc_strategy (sched_run job_demo two_ops)) (job_at (sched_run job_demo two_ops) 0)"
proof -
  have "map_sum id snd (dispatch (sched_run job_demo two_ops) 3) = Inr (Some 1)" by code_simp
  then obtain t where t: "dispatch (sched_run job_demo two_ops) 3 = Inr (t, Some 1)" by (auto simp: map_sum_Inr)
  have "0 \<in> set (sc_known (sched_run job_demo two_ops))" "status_of (sched_run job_demo two_ops) 0 \<in> {PENDING, RETRY_WAIT}"
    "sc_blocked (sched_run job_demo two_ops) 0 = None" "jb_run_at (job_at (sched_run job_demo two_ops) 0) \<le> 3" by code_simp+
  then show ?thesis using dispatch_picks_best [OF job_demo t] t by blast
qed

text \<open>C15. The scheduler does not deadlock: while a job has not ended and no attempt is in flight, a worker that looks at a
  time when every known job is due starts an attempt, however the jobs depend on each other.\<close>

theorem no_deadlock:
  assumes "new_scheduler strat n hist = Inr s" "\<not> sc_idle (sched_run s ops)" "sc_attempts (sched_run s ops) = []" "\<not> sc_stopping (sched_run s ops)"
    and "list_all (\<lambda>k. jb_run_at (job_at (sched_run s ops) k) \<le> now) (sc_known (sched_run s ops))"
  shows "\<exists>t i. dispatch (sched_run s ops) now = Inr (t, Some i)"
proof -
  let ?s = "sched_run s ops" and ?p = "promote_due (sched_run s ops) now"
  obtain D where D: "sched_ok D ?s" by (rule sched_reachable_ok [OF assms(1)])
  note f = fin_okD [OF D]
  have "{i. active ?s i} \<noteq> {}" using f(5) assms(2) by (auto simp: counted_def)
  then obtain k where k: "active ?s k" and least: "\<And>i. active ?s i \<Longrightarrow> jb_seq (job_at ?s k) \<le> jb_seq (job_at ?s i)"
    using ex_has_least_nat [of "active ?s" _ "\<lambda>i. jb_seq (job_at ?s i)"] by blast
  note pl = locatedD(1) [OF f(3) k]
  have nr: "status_of ?s k \<noteq> RUNNING" using pl assms(3) by (auto simp: placed_def)
  have nb: "sc_blocked ?s k = None"
  proof (rule ccontr)
    assume "sc_blocked ?s k \<noteq> None"
    then obtain U where U: "sc_blocked ?s k = Some U" by blast
    then obtain u where u: "u \<in> U" using f(4) unfolding linked_def by blast
    have "jb_seq (job_at ?s u) < jb_seq (job_at ?s k)" "if active ?s u then k \<in> set (sc_dependents ?s u) else (u, k) \<in> {}"
      using f(4) U u unfolding linked_def by blast+
    then show False using least [of u] by (simp split: if_splits)
  qed
  have "jb_run_at (job_at ?s k) \<le> now" using assms(5) k by (simp add: list_all_iff active_def)
  then have kin: "(job_key (sc_strategy ?s) (job_at ?s k), k) \<in> set (sc_ready ?p)" by (rule due_is_ready [OF D k nr nb])
  obtain ready r where pop: "pop_live (sc_objects ?p) (sc_ready ?p) = (ready, r)" by fastforce
  have "r \<noteq> None"
  proof
    assume "r = None"
    then have "is_terminal (status_of ?s k)" using pop_live_None [of "sc_objects ?p" "sc_ready ?p" ready] pop kin
      by (auto simp: job_at_def promote_due_frame)
    then show False using k by (simp add: active_def)
  qed
  then obtain i where i: "pop_live (sc_objects ?p) (sc_ready ?p) = (ready, Some i)" using pop by blast
  have "0 < sc_workers ?s" using locatedD(4) [OF f(3)] by (simp add: staffed_def)
  then have w: "\<not> sc_workers ?s \<le> length (sc_attempts ?s)" using assms(3) by simp
  note tk = take_in_hand(3) [OF promote_due_ok [OF D] i]
  have tr: "transition (?p\<lparr>sc_ready := ready\<rparr>) i RUNNING
     = Inr ((put_job (?p\<lparr>sc_ready := ready\<rparr>) i ((job_at ?p i)\<lparr>jb_status := RUNNING\<rparr>))\<lparr>sc_log := sc_log ?p @ [(i, status_of ?p i, RUNNING)]\<rparr>)"
    using tk job_at_frame [of "?p\<lparr>sc_ready := ready\<rparr>" ?p] by (auto simp: transition_def Let_def)
  show ?thesis using w assms(4) unfolding dispatch_def take_next_def Let_def i by (simp add: tr)
qed

text \<open>The first job was never started and the second waits for it.\<close>

theorem no_deadlock_witness: "\<exists>t i. dispatch (sched_run job_demo (demo_pre @ [Submit 1 0 [0] 2])) 5 = Inr (t, Some i)"
proof -
  let ?s = "sched_run job_demo (demo_pre @ [Submit 1 0 [0] 2])"
  have "\<not> sc_idle ?s" "sc_attempts ?s = []" "\<not> sc_stopping ?s" "list_all (\<lambda>k. jb_run_at (job_at ?s k) \<le> 5) (sc_known ?s)" by code_simp+
  then show ?thesis by (rule no_deadlock [OF job_demo])
qed

section \<open>Aging\<close>

definition effective_priority :: "rat \<Rightarrow> rat \<Rightarrow> job \<Rightarrow> rat" where
  "effective_priority rate now j = priority_value (jb_priority j) + rate * (now - jb_submitted_at j)"

lemma key_le2: "[(0 :: nat, x :: rat), (0, y)] \<le> [(0, u), (0, v)] \<longleftrightarrow> x < u \<or> x = u \<and> y \<le> v"
  by (auto simp: less_prod_def less_eq_prod_def)

lemma priority_range: "0 \<le> priority_value p \<and> priority_value p \<le> 3"
  by (cases p) simp_all

text \<open>The key of the aging strategy never changes, and yet orders jobs by the priority that grows while they wait, as
  seen at any moment \<open>now\<close>. So no job starves: one submitted more than \<open>3 / age_rate\<close> before another goes first,
  whatever their priorities.\<close>

theorem aging_orders_by_waiting:
  assumes "new_aging rate = Inr strat"
  shows "(job_key strat a \<le> job_key strat b \<longleftrightarrow> effective_priority rate now b < effective_priority rate now a
      \<or> effective_priority rate now a = effective_priority rate now b \<and> jb_seq a \<le> jb_seq b)
    \<and> (jb_submitted_at a + 3 / rate < jb_submitted_at b \<longrightarrow> job_key strat a < job_key strat b)"
proof -
  have r: "strat = AgingPriorityStrategy rate" "0 < rate" using assms by (auto simp: new_aging_def split: if_splits)
  have order: "job_key strat x \<le> job_key strat y \<longleftrightarrow> effective_priority rate now y < effective_priority rate now x
      \<or> effective_priority rate now x = effective_priority rate now y \<and> jb_seq x \<le> jb_seq y" for x y now
    by (simp only: r(1) job_key.simps key_le2) (auto simp: effective_priority_def algebra_simps)
  have "\<not> job_key strat b \<le> job_key strat a" if w: "jb_submitted_at a + 3 / rate < jb_submitted_at b"
  proof -
    have "3 / rate < jb_submitted_at b - jb_submitted_at a" using w by simp
    then have "3 < rate * (jb_submitted_at b - jb_submitted_at a)" using r(2) by (simp add: divide_less_eq mult.commute)
    then have "effective_priority rate 0 b < effective_priority rate 0 a"
      using priority_range [of "jb_priority a"] priority_range [of "jb_priority b"] by (simp add: effective_priority_def algebra_simps)
    then show ?thesis by (simp add: order [of b a 0])
  qed
  then show ?thesis using order [of a b now] by auto
qed

definition aged :: "JobPriority \<Rightarrow> rat \<Rightarrow> job" where
  "aged p submitted = (case new_job (demo_spec\<lparr>sp_priority := p\<rparr>) of Inr j \<Rightarrow> j\<lparr>jb_submitted_at := submitted\<rparr>)"

theorem aging_orders_by_waiting_witness: "job_key (AgingPriorityStrategy (1 / 10)) (aged LOW 0) < job_key (AgingPriorityStrategy (1 / 10)) (aged CRITICAL 31)"
proof -
  have "new_aging (1 / 10) = Inr (AgingPriorityStrategy (1 / 10))" by (simp add: new_aging_def)
  moreover have "jb_submitted_at (aged LOW 0) + 3 / (1 / 10) < jb_submitted_at (aged CRITICAL 31)" by code_simp
  ultimately show ?thesis using aging_orders_by_waiting by blast
qed

section \<open>Recurring schedules\<close>

text \<open>Advancing a schedule never drifts and never bursts: the next run is a whole number of intervals, at least one,
  after the previous one, it lies after \<open>now\<close>, and when the schedule was due it is the first such moment.\<close>

theorem advance_no_drift:
  assumes "new_schedule sp interval first overlap = Inr r0" "rc_interval r = rc_interval r0"
  shows "(\<exists>m. 0 < m \<and> rc_next_run (advance r now) = rc_next_run r + of_nat m * interval) \<and> now < rc_next_run (advance r now)
    \<and> (rc_next_run r \<le> now \<longrightarrow> rc_next_run (advance r now) - interval \<le> now)"
proof -
  have i: "rc_interval r = interval" "0 < interval" using assms by (auto simp: new_schedule_def split: if_splits)
  define q where "q = (now - rc_next_run r) / interval"
  define k where "k = max (\<lfloor>q\<rfloor> + 1) 1"
  have nx: "rc_next_run (advance r now) = rc_next_run r + of_int k * interval" by (simp add: advance_def Let_def k_def q_def i)
  have now: "now = rc_next_run r + q * interval" using i(2) by (simp add: q_def)
  have "q < of_int (\<lfloor>q\<rfloor> + 1)" by linarith
  also have "\<dots> \<le> of_int k" unfolding k_def by (simp only: of_int_le_iff max.cobounded1)
  finally have "q < of_int k" .
  then have "q * interval < of_int k * interval" using i(2) by simp
  then have "now < rc_next_run (advance r now)" unfolding nx using now by simp
  moreover have "\<exists>m. 0 < m \<and> rc_next_run (advance r now) = rc_next_run r + of_nat m * interval"
    by (rule exI [of _ "nat k"]) (simp add: nx k_def)
  moreover have "rc_next_run (advance r now) - interval \<le> now" if "rc_next_run r \<le> now"
  proof -
    have "0 \<le> q" using that i(2) by (simp add: q_def)
    then have "k = \<lfloor>q\<rfloor> + 1" by (simp add: k_def)
    then have "of_int k - 1 \<le> q" by simp
    then have "(of_int k - 1) * interval \<le> q * interval" using i(2) by (intro mult_right_mono) simp_all
    then show ?thesis unfolding nx using now by (simp add: algebra_simps)
  qed
  ultimately show ?thesis by blast
qed

theorem advance_no_drift_witness: "\<exists>r. new_schedule demo_spec 10 5 False = Inr r \<and> rc_next_run (advance r 37) = 45 \<and> 37 < rc_next_run (advance r 37)"
proof -
  obtain r where r: "new_schedule demo_spec 10 5 False = Inr r" by (simp add: new_schedule_def)
  have "(case new_schedule demo_spec 10 5 False of Inr r \<Rightarrow> rc_next_run (advance r 37) | Inl e \<Rightarrow> 0) = 45" by code_simp
  then have "rc_next_run (advance r 37) = 45" by (simp only: r sum.case)
  then show ?thesis using r advance_no_drift [OF r refl, of 37] by blast
qed

end
