(* ===== verification/Pub_Sub.thy ===== *)
theory Pub_Sub
  imports Prelude "HOL-Library.Product_Lexorder"
begin

text \<open>
  The broker of \<open>python-low-level-design/pub-sub-system/pub_sub_system.py\<close>: topics, a bounded priority queue per
  subscription, delivery with retries and dead letters, the synchronous mode \<open>run_until_idle\<close>, and the decorator that
  removes duplicates. The subscribers are a parameter: \<open>call u k m\<close> is the effect of \<open>on_message\<close> of the subscriber
  \<open>k\<close> on the state \<open>u\<close> of all subscriber code, with the error it raises if any; subscribers do not call the broker. A block
  under a lock is one definition; \<open>Pub_Sub_Threads\<close> interleaves them. The message id (uuid) and time stamp are arguments.
\<close>

declare split_paired_All [simp del] split_paired_Ex [simp del]

section \<open>Messages\<close>

datatype ps_error = TopicNotFound | Raised py_error

datatype MessagePriority = LOW | NORMAL | HIGH | CRITICAL

fun priority_value :: "MessagePriority \<Rightarrow> int" where
  "priority_value LOW = 0"
| "priority_value NORMAL = 1"
| "priority_value HIGH = 2"
| "priority_value CRITICAL = 3"

record message =
  ms_topic :: string
  ms_payload :: string
  ms_priority :: MessagePriority
  ms_headers :: "(string \<times> string) list"
  ms_id :: nat
  ms_timestamp :: rat

datatype DeadLetterReason = RETRIES_EXHAUSTED | OVERFLOW

record dead_letter =
  dl_subscription :: string
  dl_message :: message
  dl_reason :: DeadLetterReason
  dl_error :: string

record retry_policy =
  rt_max_attempts :: int
  rt_base_delay :: rat
  rt_multiplier :: rat
  rt_max_delay :: rat

definition new_retry :: "int \<Rightarrow> rat \<Rightarrow> rat \<Rightarrow> rat \<Rightarrow> ps_error + retry_policy" where
  "new_retry attempts base factor cap =
     (if attempts < 1 then Inl (Raised ValueError)
      else Inr \<lparr>rt_max_attempts = attempts, rt_base_delay = base, rt_multiplier = factor, rt_max_delay = cap\<rparr>)"

definition retry_delay :: "retry_policy \<Rightarrow> nat \<Rightarrow> rat" where
  "retry_delay p attempt = min (rt_max_delay p) (rt_base_delay p * rt_multiplier p ^ (attempt - 1))"

section \<open>Subscription\<close>

text \<open>\<open>heapq\<close> over \<open>(-priority, seq, message)\<close> is a list in ascending order of the first two.\<close>

record subscription =
  sb_topic :: string
  sb_subscriber :: string
  sb_predicate :: "(message \<Rightarrow> bool) option"
  sb_retry :: retry_policy
  sb_max_queue :: int
  sb_heap :: "((int \<times> nat) \<times> message) list"
  sb_seq :: nat
  sb_in_flight :: int
  sb_closed :: bool
  sb_delivered :: int
  sb_dead_lettered :: int

definition new_subscription :: "string \<Rightarrow> string \<Rightarrow> (message \<Rightarrow> bool) option \<Rightarrow> retry_policy \<Rightarrow> int \<Rightarrow> subscription" where
  "new_subscription topic subscriber predicate retry max_queue =
     \<lparr>sb_topic = topic, sb_subscriber = subscriber, sb_predicate = predicate, sb_retry = retry, sb_max_queue = max_queue, sb_heap = [],
      sb_seq = 0, sb_in_flight = 0, sb_closed = False, sb_delivered = 0, sb_dead_lettered = 0\<rparr>"

definition subscription_id :: "subscription \<Rightarrow> string" where
  "subscription_id s = sb_topic s @ ''/'' @ sb_subscriber s"

definition sb_pending :: "subscription \<Rightarrow> nat" where
  "sb_pending s = length (sb_heap s)"

text \<open>The locked part of \<open>offer\<close>: what became of the message.\<close>

datatype offer_result = Filtered | Closed | Full | Enqueued

definition offer_locked :: "subscription \<Rightarrow> message \<Rightarrow> subscription \<times> offer_result" where
  "offer_locked s m =
     (if (case sb_predicate s of None \<Rightarrow> False | Some p \<Rightarrow> \<not> p m) then (s, Filtered)
      else if sb_closed s then (s, Closed)
      else if int (length (sb_heap s)) \<ge> sb_max_queue s then (s, Full)
      else (s\<lparr>sb_heap := insort_key fst ((- priority_value (ms_priority m), sb_seq s), m) (sb_heap s), sb_seq := sb_seq s + 1\<rparr>, Enqueued))"

definition take_message :: "subscription \<Rightarrow> subscription \<times> message option" where
  "take_message s =
     (case sb_heap s of
        [] \<Rightarrow> (s, None)
      | e # es \<Rightarrow> if sb_closed s then (s, None) else (s\<lparr>sb_in_flight := sb_in_flight s + 1, sb_heap := es\<rparr>, Some (snd e)))"

definition count_delivered :: "subscription \<Rightarrow> subscription" where
  "count_delivered s = s\<lparr>sb_delivered := sb_delivered s + 1\<rparr>"

definition count_dead :: "subscription \<Rightarrow> subscription" where
  "count_dead s = s\<lparr>sb_dead_lettered := sb_dead_lettered s + 1\<rparr>"

definition letter :: "subscription \<Rightarrow> message \<Rightarrow> DeadLetterReason \<Rightarrow> string \<Rightarrow> dead_letter" where
  "letter s m reason error = \<lparr>dl_subscription = subscription_id s, dl_message = m, dl_reason = reason, dl_error = error\<rparr>"

definition leave :: "subscription \<Rightarrow> subscription" where
  "leave s = s\<lparr>sb_in_flight := sb_in_flight s - 1\<rparr>"

definition close_sub :: "subscription \<Rightarrow> subscription" where
  "close_sub s = s\<lparr>sb_closed := True, sb_heap := []\<rparr>"

section \<open>One thread\<close>

text \<open>The same operations when no other thread is running; the dead letters are appended to the list of the broker.\<close>

definition dead :: "subscription \<Rightarrow> dead_letter list \<Rightarrow> message \<Rightarrow> DeadLetterReason \<Rightarrow> string \<Rightarrow> subscription \<times> dead_letter list" where
  "dead s dlq m reason error = (count_dead s, dlq @ [letter s m reason error])"

definition offer :: "subscription \<Rightarrow> dead_letter list \<Rightarrow> message \<Rightarrow> subscription \<times> dead_letter list \<times> bool" where
  "offer s dlq m =
     (case offer_locked s m of
        (s1, Full) \<Rightarrow> (let (s2, dlq2) = dead s1 dlq m OVERFLOW ''queue full'' in (s2, dlq2, False))
      | (s1, Enqueued) \<Rightarrow> (s1, dlq, True)
      | (s1, _) \<Rightarrow> (s1, dlq, False))"

text \<open>The loop over the attempts; \<open>n\<close> of them are left and \<open>attempt\<close> is the next one. A subscriber is a function with a state of its own,
  which may fail; one that calls the broker back from \<open>on_message\<close> is not modelled here, but is one of the interleavings of \<open>Pub_Sub_Threads\<close>,
  where offers and \<open>close\<close> come at any time.\<close>

type_synonym 'u caller = "'u \<Rightarrow> string \<Rightarrow> message \<Rightarrow> 'u \<times> string option"

fun deliver :: "'u caller \<Rightarrow> 'u \<Rightarrow> subscription \<Rightarrow> dead_letter list \<Rightarrow> message \<Rightarrow> nat \<Rightarrow> nat \<Rightarrow> 'u \<times> subscription \<times> dead_letter list" where
  "deliver call u s dlq m attempt 0 = (u, s, dlq)"
| "deliver call u s dlq m attempt (Suc n) =
     (case call u (sb_subscriber s) m of
        (u1, None) \<Rightarrow> (u1, count_delivered s, dlq)
      | (u1, Some e) \<Rightarrow>
          if int attempt = rt_max_attempts (sb_retry s) then (u1, dead s dlq m RETRIES_EXHAUSTED e)
          else if sb_closed s then (u1, dead s dlq m RETRIES_EXHAUSTED ''closed during retry'')
          else deliver call u1 s dlq m (attempt + 1) n)"

definition dispatch_one :: "'u caller \<Rightarrow> 'u \<Rightarrow> subscription \<Rightarrow> dead_letter list \<Rightarrow> 'u \<times> subscription \<times> dead_letter list \<times> bool" where
  "dispatch_one call u s dlq =
     (case take_message s of
        (s1, None) \<Rightarrow> (u, s1, dlq, False)
      | (s1, Some m) \<Rightarrow>
          (let (u1, s2, dlq2) = deliver call u s1 dlq m 1 (nat (rt_max_attempts (sb_retry s1))) in (u1, leave s2, dlq2, True)))"

section \<open>Broker\<close>

record broker =
  br_topics :: "(string \<times> (string \<times> subscription) list) list"
  br_default_retry :: retry_policy
  br_max_queue :: int
  br_started :: bool
  br_dlq :: "dead_letter list"

definition new_broker :: "retry_policy \<Rightarrow> int \<Rightarrow> broker" where
  "new_broker retry max_queue = \<lparr>br_topics = [], br_default_retry = retry, br_max_queue = max_queue, br_started = False, br_dlq = []\<rparr>"

definition create_topic :: "broker \<Rightarrow> string \<Rightarrow> broker" where
  "create_topic b name = (if map_of (br_topics b) name = None then b\<lparr>br_topics := br_topics b @ [(name, [])]\<rparr> else b)"

text \<open>The retired subscriptions are returned closed: who holds one can no longer be served.\<close>

definition delete_topic :: "broker \<Rightarrow> string \<Rightarrow> broker \<times> subscription list" where
  "delete_topic b name =
     (b\<lparr>br_topics := AList.delete name (br_topics b)\<rparr>,
      map (close_sub \<circ> snd) (case map_of (br_topics b) name of None \<Rightarrow> [] | Some subs \<Rightarrow> subs))"

definition subscribe :: "broker \<Rightarrow> string \<Rightarrow> string \<Rightarrow> (message \<Rightarrow> bool) option \<Rightarrow> retry_policy option \<Rightarrow> ps_error + broker" where
  "subscribe b topic subscriber predicate retry =
     (case map_of (br_topics b) topic of
        None \<Rightarrow> Inl TopicNotFound
      | Some subs \<Rightarrow>
          if map_of subs subscriber \<noteq> None then Inl (Raised ValueError)
          else (let sub = new_subscription topic subscriber predicate (case retry of None \<Rightarrow> br_default_retry b | Some r \<Rightarrow> r) (br_max_queue b)
                in Inr (b\<lparr>br_topics := AList.update topic (subs @ [(subscriber, sub)]) (br_topics b)\<rparr>)))"

definition unsubscribe :: "broker \<Rightarrow> string \<Rightarrow> string \<Rightarrow> broker \<times> subscription option" where
  "unsubscribe b topic subscriber =
     (case map_of (br_topics b) topic of
        None \<Rightarrow> (b, None)
      | Some subs \<Rightarrow>
          (case map_of subs subscriber of
             None \<Rightarrow> (b, None)
           | Some sub \<Rightarrow> (b\<lparr>br_topics := AList.update topic (AList.delete subscriber subs) (br_topics b)\<rparr>, Some (close_sub sub))))"

text \<open>The loop of \<open>publish\<close> over the subscriptions of the topic.\<close>

fun offer_all :: "(string \<times> subscription) list \<Rightarrow> dead_letter list \<Rightarrow> message \<Rightarrow> (string \<times> subscription) list \<times> dead_letter list" where
  "offer_all [] dlq m = ([], dlq)"
| "offer_all ((k, s) # subs) dlq m =
     (let (s1, dlq1, b) = offer s dlq m; (subs1, dlq2) = offer_all subs dlq1 m in ((k, s1) # subs1, dlq2))"

definition publish :: "broker \<Rightarrow> string \<Rightarrow> string \<Rightarrow> MessagePriority \<Rightarrow> (string \<times> string) list \<Rightarrow> nat \<Rightarrow> rat \<Rightarrow> ps_error + broker \<times> message" where
  "publish b topic payload priority headers mid now =
     (let m = \<lparr>ms_topic = topic, ms_payload = payload, ms_priority = priority, ms_headers = headers, ms_id = mid, ms_timestamp = now\<rparr>
      in (case map_of (br_topics b) topic of
            None \<Rightarrow> Inl TopicNotFound
          | Some subs \<Rightarrow>
              (let (subs1, dlq1) = offer_all subs (br_dlq b) m
               in Inr (b\<lparr>br_topics := AList.update topic subs1 (br_topics b), br_dlq := dlq1\<rparr>, m))))"

definition close_broker :: "broker \<Rightarrow> broker" where
  "close_broker b = b\<lparr>br_topics := map (\<lambda>(t, subs). (t, map (\<lambda>(k, s). (k, close_sub s)) subs)) (br_topics b)\<rparr>"

subsection \<open>Delivery in the caller's thread\<close>

text \<open>One round over all subscriptions, with the number that had a message.\<close>

fun dispatch_subs :: "'u caller \<Rightarrow> 'u \<Rightarrow> (string \<times> subscription) list \<Rightarrow> dead_letter list
    \<Rightarrow> 'u \<times> (string \<times> subscription) list \<times> dead_letter list \<times> nat" where
  "dispatch_subs call u [] dlq = (u, [], dlq, 0)"
| "dispatch_subs call u ((k, s) # subs) dlq =
     (let (u1, s1, dlq1, b) = dispatch_one call u s dlq; (u2, subs2, dlq2, n) = dispatch_subs call u1 subs dlq1
      in (u2, (k, s1) # subs2, dlq2, (if b then n + 1 else n)))"

fun dispatch_topics :: "'u caller \<Rightarrow> 'u \<Rightarrow> (string \<times> (string \<times> subscription) list) list \<Rightarrow> dead_letter list
    \<Rightarrow> 'u \<times> (string \<times> (string \<times> subscription) list) list \<times> dead_letter list \<times> nat" where
  "dispatch_topics call u [] dlq = (u, [], dlq, 0)"
| "dispatch_topics call u ((t, subs) # ts) dlq =
     (let (u1, subs1, dlq1, n) = dispatch_subs call u subs dlq; (u2, ts2, dlq2, m) = dispatch_topics call u1 ts dlq1
      in (u2, (t, subs1) # ts2, dlq2, n + m))"

definition dispatch_round :: "'u caller \<Rightarrow> 'u \<Rightarrow> broker \<Rightarrow> 'u \<times> broker \<times> nat" where
  "dispatch_round call u b =
     (let (u1, ts, dlq, n) = dispatch_topics call u (br_topics b) (br_dlq b) in (u1, b\<lparr>br_topics := ts, br_dlq := dlq\<rparr>, n))"

definition subs_of :: "broker \<Rightarrow> subscription list" where
  "subs_of b = concat (map (map snd \<circ> snd) (br_topics b))"

definition br_pending :: "broker \<Rightarrow> nat" where
  "br_pending b = (\<Sum>s\<leftarrow>subs_of b. sb_pending s)"

text \<open>Termination of \<open>run_until_idle\<close>: a round in which a message was handled leaves fewer of them.\<close>

lemma deliver_frame:
  "deliver call u s dlq m a n = (u1, s1, dlq1) \<Longrightarrow> sb_heap s1 = sb_heap s \<and> sb_closed s1 = sb_closed s \<and> sb_in_flight s1 = sb_in_flight s
     \<and> sb_retry s1 = sb_retry s \<and> sb_seq s1 = sb_seq s"
  by (induction n arbitrary: a u) (auto simp: count_delivered_def dead_def count_dead_def split: prod.splits option.splits if_splits)

lemma dispatch_one_heap:
  "dispatch_one call u s dlq = (u1, s1, dlq1, b) \<Longrightarrow> sb_closed s1 = sb_closed s \<and> sb_heap s1 = (if b then tl (sb_heap s) else sb_heap s)
     \<and> (b \<longleftrightarrow> sb_heap s \<noteq> [] \<and> \<not> sb_closed s) \<and> sb_in_flight s1 = sb_in_flight s"
  by (auto simp: dispatch_one_def take_message_def leave_def dest!: deliver_frame split: list.splits if_splits prod.splits)

definition nothing_left :: "subscription \<Rightarrow> bool" where
  "nothing_left s \<longleftrightarrow> sb_heap s = [] \<or> sb_closed s"

lemma dispatch_subs_pending:
  "dispatch_subs call u subs dlq = (u1, subs1, dlq1, n) \<Longrightarrow> (\<Sum>s\<leftarrow>map snd subs1. sb_pending s) + n = (\<Sum>s\<leftarrow>map snd subs. sb_pending s)
     \<and> (n = 0 \<longleftrightarrow> list_all nothing_left (map snd subs)) \<and> map (sb_closed \<circ> snd) subs1 = map (sb_closed \<circ> snd) subs
     \<and> (n = 0 \<longrightarrow> map (sb_heap \<circ> snd) subs1 = map (sb_heap \<circ> snd) subs)"
proof (induction subs arbitrary: u dlq u1 subs1 dlq1 n)
  case (Cons x subs)
  obtain k s where x: "x = (k, s)" by (cases x)
  obtain u2 s2 dlq2 b where d: "dispatch_one call u s dlq = (u2, s2, dlq2, b)" by (metis prod_cases4)
  obtain u3 subs3 dlq3 m where r: "dispatch_subs call u2 subs dlq2 = (u3, subs3, dlq3, m)" by (metis prod_cases4)
  have o: "subs1 = (k, s2) # subs3" "n = (if b then m + 1 else m)" using Cons.prems by (simp_all add: x d r split: if_splits)
  have "sb_pending s2 + (if b then 1 else 0) = sb_pending s" using dispatch_one_heap [OF d] by (cases "sb_heap s") (auto simp: sb_pending_def)
  then show ?case using Cons.IH [OF r] dispatch_one_heap [OF d] by (auto simp: x o nothing_left_def)
qed simp

lemma dispatch_topics_pending:
  "dispatch_topics call u ts dlq = (u1, ts1, dlq1, n) \<Longrightarrow>
     (\<Sum>s\<leftarrow>concat (map (map snd \<circ> snd) ts1). sb_pending s) + n = (\<Sum>s\<leftarrow>concat (map (map snd \<circ> snd) ts). sb_pending s)
     \<and> (n = 0 \<longleftrightarrow> list_all nothing_left (concat (map (map snd \<circ> snd) ts)))
     \<and> map sb_closed (concat (map (map snd \<circ> snd) ts1)) = map sb_closed (concat (map (map snd \<circ> snd) ts))
     \<and> (n = 0 \<longrightarrow> map sb_heap (concat (map (map snd \<circ> snd) ts1)) = map sb_heap (concat (map (map snd \<circ> snd) ts)))"
proof (induction ts arbitrary: u dlq u1 ts1 dlq1 n)
  case (Cons x ts)
  obtain t subs where x: "x = (t, subs)" by (cases x)
  obtain u2 subs2 dlq2 a where d: "dispatch_subs call u subs dlq = (u2, subs2, dlq2, a)" by (metis prod_cases4)
  obtain u3 ts3 dlq3 m where r: "dispatch_topics call u2 ts dlq2 = (u3, ts3, dlq3, m)" by (metis prod_cases4)
  have o: "ts1 = (t, subs2) # ts3" "n = a + m" using Cons.prems by (simp_all add: x d r)
  show ?case using Cons.IH [OF r] dispatch_subs_pending [OF d] by (auto simp: x o)
qed simp

lemma round_pending: "dispatch_round call u b = (u1, b1, n) \<Longrightarrow> br_pending b1 + n = br_pending b"
  using dispatch_topics_pending [of call u "br_topics b" "br_dlq b"]
  by (auto simp: dispatch_round_def br_pending_def subs_of_def split: prod.splits)

function run_rounds :: "'u caller \<Rightarrow> 'u \<Rightarrow> broker \<Rightarrow> nat \<Rightarrow> 'u \<times> broker \<times> nat" where
  "run_rounds call u b handled =
     (case dispatch_round call u b of (u1, b1, n) \<Rightarrow> if n = 0 then (u1, b1, handled) else run_rounds call u1 b1 (handled + n))"
  by pat_completeness auto

termination
  by (relation "measure (\<lambda>(call, u, b, handled). br_pending b)") (auto dest!: sym [of _ "dispatch_round _ _ _"] round_pending)

declare run_rounds.simps [simp del]

definition run_until_idle :: "'u caller \<Rightarrow> 'u \<Rightarrow> broker \<Rightarrow> ps_error + 'u \<times> broker \<times> nat" where
  "run_until_idle call u b = (if br_started b then Inl (Raised RuntimeError) else Inr (run_rounds call u b 0))"

section \<open>Duplicates\<close>

record dedup =
  dd_seen :: "nat list"
  dd_capacity :: int

definition dedup_on_message :: "('u \<Rightarrow> message \<Rightarrow> 'u \<times> string option) \<Rightarrow> 'u \<Rightarrow> dedup \<Rightarrow> message \<Rightarrow> 'u \<times> dedup \<times> string option" where
  "dedup_on_message inner u d m =
     (if ms_id m \<in> set (dd_seen d) then (u, d, None)
      else (case inner u m of
              (u1, Some e) \<Rightarrow> (u1, d, Some e)
            | (u1, None) \<Rightarrow>
                (let seen = dd_seen d @ [ms_id m]
                 in (u1, d\<lparr>dd_seen := (if int (length seen) > dd_capacity d then tl seen else seen)\<rparr>, None))))"

end
