(* ===== verification/Pub_Sub_Threads.thy ===== *)
theory Pub_Sub_Threads
  imports Pub_Sub "HOL-Library.Sublist"
begin

text \<open>
  One subscription under any interleaving of publishers, its dispatching thread and \<open>close\<close>. A step is a block under a
  lock, or a call of the subscriber; the subscriber succeeds or fails as it likes. The dispatching thread is a program
  counter with its local variables; a publisher between its two locks is an entry of \<open>w_overflowing\<close> or
  \<open>w_letters\<close>. The history of a run is the list of its events, from which the promises of the broker are stated.
\<close>

declare split_paired_All [simp del] split_paired_Ex [simp del]

section \<open>Steps\<close>

datatype pc = Waiting | Calling message nat | Sleeping message nat | Dying message string | Recording dead_letter | Leaving

record world =
  w_sub :: subscription
  w_pc :: pc
  w_overflowing :: "message list"
  w_letters :: "dead_letter list"
  w_dlq :: "dead_letter list"

datatype event =
    Offered message offer_result
  | Counted message
  | Recorded dead_letter
  | Taken nat message
  | Succeeded message
  | Failed message string
  | Woke
  | Gave_up message string
  | Left
  | Closed_down "message list"

inductive pstep :: "world \<Rightarrow> event \<Rightarrow> world \<Rightarrow> bool" where
  p_offer: "offer_locked (w_sub w) m = (s, r) \<Longrightarrow>
     pstep w (Offered m r) (w\<lparr>w_sub := s, w_overflowing := (if r = Full then w_overflowing w @ [m] else w_overflowing w)\<rparr>)"
| p_count: "m \<in> set (w_overflowing w) \<Longrightarrow>
     pstep w (Counted m) (w\<lparr>w_sub := count_dead (w_sub w), w_overflowing := remove1 m (w_overflowing w),
       w_letters := w_letters w @ [letter (w_sub w) m OVERFLOW ''queue full'']\<rparr>)"
| p_record: "l \<in> set (w_letters w) \<Longrightarrow> pstep w (Recorded l) (w\<lparr>w_letters := remove1 l (w_letters w), w_dlq := w_dlq w @ [l]\<rparr>)"
| p_take: "w_pc w = Waiting \<Longrightarrow> take_message (w_sub w) = (s, Some m) \<Longrightarrow>
     pstep w (Taken (snd (fst (hd (sb_heap (w_sub w))))) m) (w\<lparr>w_sub := s, w_pc := Calling m 1\<rparr>)"
| p_success: "w_pc w = Calling m a \<Longrightarrow> pstep w (Succeeded m) (w\<lparr>w_sub := count_delivered (w_sub w), w_pc := Leaving\<rparr>)"
| p_failure: "w_pc w = Calling m a \<Longrightarrow>
     pstep w (Failed m e) (w\<lparr>w_pc := (if int a = rt_max_attempts (sb_retry (w_sub w)) then Dying m e else Sleeping m a)\<rparr>)"
| p_wake: "w_pc w = Sleeping m a \<Longrightarrow>
     pstep w Woke (w\<lparr>w_pc := (if sb_closed (w_sub w) then Dying m ''closed during retry'' else Calling m (a + 1))\<rparr>)"
| p_give_up: "w_pc w = Dying m e \<Longrightarrow>
     pstep w (Gave_up m e) (w\<lparr>w_sub := count_dead (w_sub w), w_pc := Recording (letter (w_sub w) m RETRIES_EXHAUSTED e)\<rparr>)"
| p_bury: "w_pc w = Recording l \<Longrightarrow> pstep w (Recorded l) (w\<lparr>w_dlq := w_dlq w @ [l], w_pc := Leaving\<rparr>)"
| p_leave: "w_pc w = Leaving \<Longrightarrow> pstep w Left (w\<lparr>w_sub := leave (w_sub w), w_pc := Waiting\<rparr>)"
| p_close: "pstep w (Closed_down (map snd (sb_heap (w_sub w)))) (w\<lparr>w_sub := close_sub (w_sub w)\<rparr>)"

inductive prun :: "world \<Rightarrow> event list \<Rightarrow> world \<Rightarrow> bool" where
  prun_nil: "prun w [] w"
| prun_snoc: "prun w tr x \<Longrightarrow> pstep x e y \<Longrightarrow> prun w (tr @ [e]) y"

lemma prun_one: "pstep w e x \<Longrightarrow> prun w [e] x"
  using prun_snoc [OF prun_nil, of w e x] by simp

lemma prun_append: "prun x tr2 y \<Longrightarrow> prun w tr1 x \<Longrightarrow> prun w (tr1 @ tr2) y"
proof (induction rule: prun.induct)
  case (prun_snoc w' tr x e y)
  then show ?case using prun.prun_snoc [of w "tr1 @ tr" x e y] by simp
qed simp

definition fresh_world :: "string \<Rightarrow> string \<Rightarrow> (message \<Rightarrow> bool) option \<Rightarrow> retry_policy \<Rightarrow> int \<Rightarrow> world" where
  "fresh_world topic subscriber predicate retry max_queue =
     \<lparr>w_sub = new_subscription topic subscriber predicate retry max_queue, w_pc = Waiting, w_overflowing = [], w_letters = [], w_dlq = []\<rparr>"

section \<open>Histories\<close>

definition accepted :: "event list \<Rightarrow> message list" where
  "accepted tr = concat (map (\<lambda>e. case e of Offered m r \<Rightarrow> if r = Full \<or> r = Enqueued then [m] else [] | _ \<Rightarrow> []) tr)"

definition enqueued :: "event list \<Rightarrow> message list" where
  "enqueued tr = concat (map (\<lambda>e. case e of Offered m r \<Rightarrow> if r = Enqueued then [m] else [] | _ \<Rightarrow> []) tr)"

definition taken :: "event list \<Rightarrow> (nat \<times> message) list" where
  "taken tr = concat (map (\<lambda>e. case e of Taken q m \<Rightarrow> [(q, m)] | _ \<Rightarrow> []) tr)"

definition delivered :: "event list \<Rightarrow> message list" where
  "delivered tr = concat (map (\<lambda>e. case e of Succeeded m \<Rightarrow> [m] | _ \<Rightarrow> []) tr)"

definition discarded :: "event list \<Rightarrow> message list" where
  "discarded tr = concat (map (\<lambda>e. case e of Closed_down ms \<Rightarrow> ms | _ \<Rightarrow> []) tr)"

text \<open>Failed calls for the message taken last.\<close>

definition failures :: "event list \<Rightarrow> nat" where
  "failures tr = foldl (\<lambda>n e. case e of Taken q m \<Rightarrow> 0 | Failed m x \<Rightarrow> Suc n | _ \<Rightarrow> n) 0 tr"

lemma history_simps [simp]:
  "accepted [] = []" "enqueued [] = []" "taken [] = []" "delivered [] = []" "discarded [] = []" "failures [] = 0"
  "accepted (tr @ [e]) = accepted tr @ (case e of Offered m r \<Rightarrow> if r = Full \<or> r = Enqueued then [m] else [] | _ \<Rightarrow> [])"
  "enqueued (tr @ [e]) = enqueued tr @ (case e of Offered m r \<Rightarrow> if r = Enqueued then [m] else [] | _ \<Rightarrow> [])"
  "taken (tr @ [e]) = taken tr @ (case e of Taken q m \<Rightarrow> [(q, m)] | _ \<Rightarrow> [])"
  "delivered (tr @ [e]) = delivered tr @ (case e of Succeeded m \<Rightarrow> [m] | _ \<Rightarrow> [])"
  "discarded (tr @ [e]) = discarded tr @ (case e of Closed_down ms \<Rightarrow> ms | _ \<Rightarrow> [])"
  "failures (tr @ [e]) = (case e of Taken q m \<Rightarrow> 0 | Failed m x \<Rightarrow> Suc (failures tr) | _ \<Rightarrow> failures tr)"
  by (simp_all add: accepted_def enqueued_def taken_def delivered_def discarded_def failures_def split: event.split)

fun in_hand :: "pc \<Rightarrow> message list" where
  "in_hand Waiting = []"
| "in_hand (Calling m a) = [m]"
| "in_hand (Sleeping m a) = [m]"
| "in_hand (Dying m e) = [m]"
| "in_hand (Recording l) = [dl_message l]"
| "in_hand Leaving = []"

text \<open>Every message is somewhere, and the counters count.\<close>

definition whereabouts :: "event list \<Rightarrow> world \<Rightarrow> message multiset" where
  "whereabouts tr w = mset (map snd (sb_heap (w_sub w))) + mset (in_hand (w_pc w)) + mset (delivered tr) + mset (discarded tr)
     + mset (w_overflowing w) + mset (map dl_message (w_letters w)) + mset (map dl_message (w_dlq w))"

definition counters :: "event list \<Rightarrow> world \<Rightarrow> bool" where
  "counters tr w \<longleftrightarrow> sb_delivered (w_sub w) = int (length (delivered tr))
     \<and> sb_dead_lettered (w_sub w) = int (length (w_letters w) + length (w_dlq w)) + (case w_pc w of Recording l \<Rightarrow> 1 | _ \<Rightarrow> 0)
     \<and> sb_in_flight (w_sub w) = (if w_pc w = Waiting then 0 else 1)
     \<and> int (length (sb_heap (w_sub w))) \<le> max 0 (sb_max_queue (w_sub w))"

lemma take_message_Some:
  "take_message s = (s1, Some m) \<longleftrightarrow> \<not> sb_closed s \<and> sb_heap s \<noteq> [] \<and> m = snd (hd (sb_heap s))
     \<and> s1 = s\<lparr>sb_in_flight := sb_in_flight s + 1, sb_heap := tl (sb_heap s)\<rparr>"
  by (auto simp: take_message_def split: list.split)

lemma offer_locked_cases:
  "offer_locked s m = (s1, r) \<Longrightarrow> r \<noteq> Enqueued \<and> s1 = s \<or> r = Enqueued \<and> \<not> sb_closed s \<and> int (length (sb_heap s)) < sb_max_queue s
     \<and> s1 = s\<lparr>sb_heap := insort_key fst ((- priority_value (ms_priority m), sb_seq s), m) (sb_heap s), sb_seq := sb_seq s + 1\<rparr>"
  unfolding offer_locked_def by (simp split: if_splits)

lemma remove1_map:
  assumes "x \<in> set xs"
  shows "mset (map f xs) = add_mset (f x) (mset (map f (remove1 x xs)))" "length xs = Suc (length (remove1 x xs))"
proof -
  have m: "mset xs = add_mset x (mset (remove1 x xs))" using assms by simp
  show "mset (map f xs) = add_mset (f x) (mset (map f (remove1 x xs)))" unfolding mset_map by (subst m) (rule image_mset_add_mset)
  show "length xs = Suc (length (remove1 x xs))" using arg_cong [OF m, of size] by (simp only: size_mset size_add_mset)
qed

lemma accounted_step: "pstep w e x \<Longrightarrow> mset (accepted tr) = whereabouts tr w \<Longrightarrow> mset (accepted (tr @ [e])) = whereabouts (tr @ [e]) x"
proof (induction rule: pstep.induct)
  case (p_offer w m s r)
  then show ?case using offer_locked_cases [OF p_offer(1)] by (elim disjE conjE) (simp_all add: whereabouts_def)
next
  case (p_count m w)
  then show ?case using remove1_map(1) [of m "w_overflowing w" id] by (simp add: whereabouts_def count_dead_def letter_def)
next
  case (p_record l w)
  then show ?case using remove1_map(1) [OF p_record(1), of dl_message] by (simp add: whereabouts_def)
next
  case (p_take w s m)
  then show ?case by (cases "sb_heap (w_sub w)") (simp_all add: whereabouts_def take_message_Some)
qed (simp_all add: whereabouts_def count_delivered_def count_dead_def letter_def leave_def close_sub_def)

lemma counters_step: "pstep w e x \<Longrightarrow> counters tr w \<Longrightarrow> counters (tr @ [e]) x"
proof (induction rule: pstep.induct)
  case (p_offer w m s r)
  then show ?case using offer_locked_cases [OF p_offer(1)] by (elim disjE conjE) (simp_all add: counters_def)
next
  case (p_record l w)
  then show ?case using remove1_map(2) [OF p_record(1)] by (simp add: counters_def)
next
  case (p_take w s m)
  then show ?case by (cases "sb_heap (w_sub w)") (simp_all add: counters_def take_message_Some)
qed (simp_all add: counters_def count_delivered_def count_dead_def leave_def close_sub_def)

lemma prun_accounted: "prun w tr x \<Longrightarrow> w = fresh_world t k p r n \<Longrightarrow> mset (accepted tr) = whereabouts tr x \<and> counters tr x"
proof (induction rule: prun.induct)
  case (prun_nil w)
  then show ?case by (simp add: whereabouts_def counters_def fresh_world_def new_subscription_def)
next
  case (prun_snoc w tr x e y)
  then show ?case using accounted_step counters_step by blast
qed

section \<open>Order\<close>

definition before :: "nat \<times> message \<Rightarrow> nat \<times> message \<Rightarrow> bool" where
  "before a b \<longleftrightarrow> (ms_priority (snd a) = ms_priority (snd b) \<longrightarrow> fst a < fst b)"

text \<open>The number of an entry of the heap is its position among the enqueued messages.\<close>

definition heap_ok :: "event list \<Rightarrow> subscription \<Rightarrow> bool" where
  "heap_ok tr s \<longleftrightarrow> sb_seq s = length (enqueued tr) \<and> sorted (map fst (sb_heap s)) \<and> distinct (map (snd \<circ> fst) (sb_heap s))
     \<and> (\<forall>e \<in> set (sb_heap s). snd (fst e) < length (enqueued tr) \<and> enqueued tr ! snd (fst e) = snd e \<and> fst (fst e) = - priority_value (ms_priority (snd e)))"

definition taken_ok :: "event list \<Rightarrow> subscription \<Rightarrow> bool" where
  "taken_ok tr s \<longleftrightarrow> sorted_wrt before (taken tr) \<and> distinct (map fst (taken tr))
     \<and> (\<forall>t \<in> set (taken tr). fst t < length (enqueued tr) \<and> enqueued tr ! fst t = snd t
          \<and> (\<forall>e \<in> set (sb_heap s). before t (snd (fst e), snd e) \<and> fst t \<noteq> snd (fst e)))"

lemma heap_ok_frame: "enqueued (tr @ [e]) = enqueued tr \<Longrightarrow> sb_heap t = sb_heap s \<Longrightarrow> sb_seq t = sb_seq s \<Longrightarrow> heap_ok tr s \<Longrightarrow> heap_ok (tr @ [e]) t"
  by (simp add: heap_ok_def)

lemma taken_ok_frame: "enqueued (tr @ [e]) = enqueued tr \<Longrightarrow> taken (tr @ [e]) = taken tr \<Longrightarrow> sb_heap t = sb_heap s \<Longrightarrow> taken_ok tr s \<Longrightarrow> taken_ok (tr @ [e]) t"
  by (simp add: taken_ok_def)

lemma sub_enqueue_ok:
  assumes h: "heap_ok tr s" and t: "taken_ok tr s" and s1: "s1 = s\<lparr>sb_heap := insort_key fst ((- priority_value (ms_priority m), sb_seq s), m) (sb_heap s),
      sb_seq := sb_seq s + 1\<rparr>"
  shows "heap_ok (tr @ [Offered m Enqueued]) s1" "taken_ok (tr @ [Offered m Enqueued]) s1"
proof -
  let ?e = "((- priority_value (ms_priority m), sb_seq s), m)"
  have q: "sb_seq s = length (enqueued tr)" using h by (simp add: heap_ok_def)
  have new: "sb_seq s \<notin> set (map (snd \<circ> fst) (sb_heap s))" using h by (auto simp: heap_ok_def)
  have M: "mset (map (snd \<circ> fst) (insort_key fst ?e (sb_heap s))) = mset (sb_seq s # map (snd \<circ> fst) (sb_heap s))" by simp
  then have d: "distinct (map (snd \<circ> fst) (insort_key fst ?e (sb_heap s)))"
    unfolding mset_eq_imp_distinct_iff [OF M] using new h by (simp add: heap_ok_def)
  show "heap_ok (tr @ [Offered m Enqueued]) s1"
    using h d by (auto simp: heap_ok_def s1 set_insort_key sorted_insort_key nth_append)
  show "taken_ok (tr @ [Offered m Enqueued]) s1"
    using t q by (auto simp: taken_ok_def s1 set_insort_key nth_append before_def)
qed

lemma sub_dequeue_ok:
  assumes h: "heap_ok tr s" and t: "taken_ok tr s" and s: "sb_heap s = e # es" "s1 = s\<lparr>sb_in_flight := sb_in_flight s + 1, sb_heap := es\<rparr>"
  shows "heap_ok (tr @ [Taken (snd (fst e)) (snd e)]) s1" "taken_ok (tr @ [Taken (snd (fst e)) (snd e)]) s1"
proof -
  show "heap_ok (tr @ [Taken (snd (fst e)) (snd e)]) s1" using h s by (simp add: heap_ok_def)
  have e: "snd (fst e) < length (enqueued tr)" "enqueued tr ! snd (fst e) = snd e" "fst (fst e) = - priority_value (ms_priority (snd e))"
    using h s by (simp_all add: heap_ok_def)
  have rest: "before (snd (fst e), snd e) (snd (fst x), snd x) \<and> snd (fst e) \<noteq> snd (fst x)" if x: "x \<in> set es" for x
  proof -
    have le: "fst e \<le> fst x" "snd (fst e) \<noteq> snd (fst x)" "fst (fst x) = - priority_value (ms_priority (snd x))"
      using h s x by (auto simp: heap_ok_def)
    then show ?thesis using e(3) by (cases "fst e"; cases "fst x") (auto simp: before_def)
  qed
  show "taken_ok (tr @ [Taken (snd (fst e)) (snd e)]) s1" unfolding taken_ok_def
  proof (intro conjI ballI)
    show "sorted_wrt before (taken (tr @ [Taken (snd (fst e)) (snd e)]))" using t s by (simp add: taken_ok_def sorted_wrt_append)
    show "distinct (map fst (taken (tr @ [Taken (snd (fst e)) (snd e)])))" using t s by (auto simp: taken_ok_def)
    fix x assume "x \<in> set (taken (tr @ [Taken (snd (fst e)) (snd e)]))"
    then consider "x \<in> set (taken tr)" | "x = (snd (fst e), snd e)" by auto
    note x = this
    then show "fst x < length (enqueued (tr @ [Taken (snd (fst e)) (snd e)]))" "enqueued (tr @ [Taken (snd (fst e)) (snd e)]) ! fst x = snd x"
      using t e by (cases; simp add: taken_ok_def)+
    fix y assume y: "y \<in> set (sb_heap s1)"
    show "before x (snd (fst y), snd y)" "fst x \<noteq> snd (fst y)"
      using x t s y rest [of y] by (cases; simp add: taken_ok_def)+
  qed
qed

definition ordered :: "event list \<Rightarrow> world \<Rightarrow> bool" where
  "ordered tr w \<longleftrightarrow> heap_ok tr (w_sub w) \<and> taken_ok tr (w_sub w) \<and> subseq (delivered tr @ in_hand (w_pc w)) (map snd (taken tr))"

lemma subseq_snoc_drop: "subseq (xs @ [x]) ys \<Longrightarrow> subseq xs ys"
  by (rule subseq_order.order_trans [of _ "xs @ [x]"]) (simp_all add: prefix_imp_subseq)

lemma ordered_step: "pstep w e x \<Longrightarrow> ordered tr w \<Longrightarrow> ordered (tr @ [e]) x"
proof (induction rule: pstep.induct)
  case (p_offer w m s r)
  then show ?case using offer_locked_cases [OF p_offer(1)] sub_enqueue_ok [of tr "w_sub w" s m]
    by (auto simp: ordered_def intro: heap_ok_frame taken_ok_frame)
next
  case (p_take w s m)
  then obtain e es where h: "sb_heap (w_sub w) = e # es" by (cases "sb_heap (w_sub w)") (auto simp: take_message_Some)
  then show ?case using p_take sub_dequeue_ok [of tr "w_sub w" e es s] by (simp add: ordered_def take_message_Some)
next
  case (p_close w)
  then show ?case by (auto simp: ordered_def close_sub_def heap_ok_def taken_ok_def)
qed (auto simp: ordered_def count_dead_def count_delivered_def leave_def letter_def intro: heap_ok_frame taken_ok_frame dest: subseq_snoc_drop)

lemma prun_ordered: "prun w tr x \<Longrightarrow> w = fresh_world t k p r n \<Longrightarrow> ordered tr x"
  by (induction rule: prun.induct)
    (auto simp: ordered_step, simp add: ordered_def fresh_world_def new_subscription_def heap_ok_def taken_ok_def)

section \<open>Attempts\<close>

definition attempts_ok :: "retry_policy \<Rightarrow> event list \<Rightarrow> world \<Rightarrow> bool" where
  "attempts_ok r tr w \<longleftrightarrow> sb_retry (w_sub w) = r \<and> int (failures tr) \<le> rt_max_attempts r
     \<and> (case w_pc w of
          Calling m a \<Rightarrow> a = failures tr + 1 \<and> int a \<le> rt_max_attempts r
        | Sleeping m a \<Rightarrow> a = failures tr \<and> int a < rt_max_attempts r
        | Dying m e \<Rightarrow> int (failures tr) = rt_max_attempts r \<or> sb_closed (w_sub w)
        | _ \<Rightarrow> True)"

lemma attempts_step: "pstep w e x \<Longrightarrow> 1 \<le> rt_max_attempts r \<Longrightarrow> attempts_ok r tr w \<Longrightarrow> attempts_ok r (tr @ [e]) x"
proof (induction rule: pstep.induct)
  case (p_offer w m s q)
  then show ?case using offer_locked_cases [OF p_offer(1)] by (auto simp: attempts_ok_def split: pc.splits)
qed (auto simp: attempts_ok_def take_message_Some count_dead_def count_delivered_def leave_def close_sub_def split: pc.splits)

lemma prun_attempts: "prun w tr x \<Longrightarrow> w = fresh_world t k p r n \<Longrightarrow> 1 \<le> rt_max_attempts r \<Longrightarrow> attempts_ok r tr x"
  by (induction rule: prun.induct) (auto simp: attempts_step, simp add: attempts_ok_def fresh_world_def new_subscription_def)

section \<open>One thread is one interleaving\<close>

definition solo :: "subscription \<Rightarrow> pc \<Rightarrow> dead_letter list \<Rightarrow> world" where
  "solo s c dlq = \<lparr>w_sub = s, w_pc = c, w_overflowing = [], w_letters = [], w_dlq = dlq\<rparr>"

lemma solo_simps [simp]: "w_sub (solo s c d) = s" "w_pc (solo s c d) = c" "w_overflowing (solo s c d) = []" "w_letters (solo s c d) = []"
  "w_dlq (solo s c d) = d" "solo s c d\<lparr>w_pc := c2\<rparr> = solo s c2 d" "solo s c d\<lparr>w_sub := s2\<rparr> = solo s2 c d" "solo s c d\<lparr>w_dlq := d2\<rparr> = solo s c d2"
  by (simp_all add: solo_def)

lemma solo_dead: "\<exists>tr. prun (solo s (Dying m e) dlq) tr (solo (fst (dead s dlq m RETRIES_EXHAUSTED e)) Leaving (snd (dead s dlq m RETRIES_EXHAUSTED e)))"
proof -
  have "pstep (solo s (Dying m e) dlq) (Gave_up m e) (solo (count_dead s) (Recording (letter s m RETRIES_EXHAUSTED e)) dlq)"
    using p_give_up [of "solo s (Dying m e) dlq" m e] by simp
  moreover have "pstep (solo (count_dead s) (Recording (letter s m RETRIES_EXHAUSTED e)) dlq) (Recorded (letter s m RETRIES_EXHAUSTED e))
      (solo (count_dead s) Leaving (dlq @ [letter s m RETRIES_EXHAUSTED e]))"
    using p_bury [of "solo (count_dead s) (Recording (letter s m RETRIES_EXHAUSTED e)) dlq"] by simp
  ultimately have "prun (solo s (Dying m e) dlq) ([Gave_up m e] @ [Recorded (letter s m RETRIES_EXHAUSTED e)])
      (solo (count_dead s) Leaving (dlq @ [letter s m RETRIES_EXHAUSTED e]))" by (blast intro: prun_append prun_one)
  then show ?thesis by (auto simp: dead_def)
qed

lemma deliver_run:
  assumes "deliver call u s dlq m a n = (u1, s1, dlq1)" "int a + int n = rt_max_attempts (sb_retry s) + 1" "0 < n"
  shows "\<exists>tr. prun (solo s (Calling m a) dlq) tr (solo s1 Leaving dlq1)"
  using assms
proof (induction n arbitrary: a u)
  case (Suc n)
  obtain u2 res where c: "call u (sb_subscriber s) m = (u2, res)" by fastforce
  show ?case
  proof (cases res)
    case None
    then have "s1 = count_delivered s" "dlq1 = dlq" using Suc.prems(1) c by simp_all
    then show ?thesis using prun_one [OF p_success [of "solo s (Calling m a) dlq" m a]] by auto
  next
    case (Some e)
    note fl = prun_one [OF p_failure [of "solo s (Calling m a) dlq" m a e]]
    show ?thesis
    proof (cases "int a = rt_max_attempts (sb_retry s)")
      case True
      then have "(s1, dlq1) = dead s dlq m RETRIES_EXHAUSTED e" using Suc.prems(1) c Some by simp
      moreover have "prun (solo s (Calling m a) dlq) [Failed m e] (solo s (Dying m e) dlq)" using fl True by simp
      ultimately show ?thesis using solo_dead [of s m e dlq] prun_append by (metis fst_conv snd_conv)
    next
      case False
      have f1: "prun (solo s (Calling m a) dlq) [Failed m e] (solo s (Sleeping m a) dlq)" using fl False by simp
      note wk = prun_one [OF p_wake [of "solo s (Sleeping m a) dlq" m a]]
      show ?thesis
      proof (cases "sb_closed s")
        case True
        then have "(s1, dlq1) = dead s dlq m RETRIES_EXHAUSTED ''closed during retry''" using Suc.prems(1) c Some False by simp
        then have r: "s1 = fst (dead s dlq m RETRIES_EXHAUSTED ''closed during retry'')" "dlq1 = snd (dead s dlq m RETRIES_EXHAUSTED ''closed during retry'')"
          by (metis fst_conv, metis snd_conv)
        have w: "prun (solo s (Sleeping m a) dlq) [Woke] (solo s (Dying m ''closed during retry'') dlq)" using wk True by simp
        obtain tr where "prun (solo s (Dying m ''closed during retry'') dlq) tr (solo s1 Leaving dlq1)"
          using solo_dead [of s m "''closed during retry''" dlq] unfolding r by blast
        then show ?thesis using prun_append [OF _ prun_append [OF w f1]] by blast
      next
        case running: False
        then have w: "prun (solo s (Sleeping m a) dlq) [Woke] (solo s (Calling m (a + 1)) dlq)" using wk by simp
        have "0 < n" using Suc.prems(2) False by (cases n) simp_all
        moreover have "deliver call u2 s dlq m (a + 1) n = (u1, s1, dlq1)" using Suc.prems(1) c Some False running by simp
        moreover have "int (a + 1) + int n = rt_max_attempts (sb_retry s) + 1" using Suc.prems(2) by simp
        ultimately obtain tr where "prun (solo s (Calling m (a + 1)) dlq) tr (solo s1 Leaving dlq1)" using Suc.IH by blast
        then show ?thesis using f1 w prun_append by blast
      qed
    qed
  qed
qed simp

lemma dispatch_run:
  assumes "dispatch_one call u s dlq = (u1, s1, dlq1, b)" "1 \<le> rt_max_attempts (sb_retry s)"
  shows "\<exists>tr. prun (solo s Waiting dlq) tr (solo s1 Waiting dlq1)"
proof (cases "take_message s")
  case (Pair s2 r)
  show ?thesis
  proof (cases r)
    case None
    then have "s2 = s" using Pair by (auto simp: take_message_def split: list.splits if_splits)
    then show ?thesis using assms(1) Pair None prun_nil [of "solo s Waiting dlq"] by (auto simp: dispatch_one_def)
  next
    case (Some m)
    have t: "pstep (solo s Waiting dlq) (Taken (snd (fst (hd (sb_heap s)))) m) (solo s2 (Calling m 1) dlq)"
      using p_take [of "solo s Waiting dlq" s2 m] Pair Some by simp
    have re: "sb_retry s2 = sb_retry s" using Pair Some by (simp add: take_message_Some)
    obtain u3 s3 dlq3 where d: "deliver call u s2 dlq m 1 (nat (rt_max_attempts (sb_retry s))) = (u3, s3, dlq3)" by (metis prod_cases3)
    obtain tr where tr: "prun (solo s2 (Calling m 1) dlq) tr (solo s3 Leaving dlq3)" using deliver_run [OF d] assms(2) re by auto
    have "s1 = leave s3" "dlq1 = dlq3" using assms(1) Pair Some d re by (simp_all add: dispatch_one_def)
    then have "pstep (solo s3 Leaving dlq3) Left (solo s1 Waiting dlq1)" using p_leave [of "solo s3 Leaving dlq3"] by simp
    then show ?thesis using prun_append [OF prun_one prun_append [OF tr prun_one [OF t]]] by blast
  qed
qed

lemma offer_run:
  assumes "offer s dlq m = (s1, dlq1, b)"
  shows "\<exists>tr. prun (solo s c dlq) tr (solo s1 c dlq1)"
proof -
  obtain s2 r where o: "offer_locked s m = (s2, r)" by fastforce
  have st: "pstep (solo s c dlq) (Offered m r) ((solo s2 c dlq)\<lparr>w_overflowing := (if r = Full then [m] else [])\<rparr>)"
    using p_offer [of "solo s c dlq" m s2 r] o by (cases "r = Full") (simp_all add: solo_def)
  show ?thesis
  proof (cases "r = Full")
    case False
    then have "s1 = s2" "dlq1 = dlq" using assms o by (cases r; simp add: offer_def)+
    then show ?thesis using prun_one [OF st] False by (auto simp: solo_def)
  next
    case True
    then have s2: "s2 = s" using offer_locked_cases [OF o] by simp
    then have r: "s1 = count_dead s" "dlq1 = dlq @ [letter s m OVERFLOW ''queue full'']" using assms o True by (simp_all add: offer_def dead_def)
    let ?l = "letter s m OVERFLOW ''queue full''"
    have "pstep ((solo s c dlq)\<lparr>w_overflowing := [m]\<rparr>) (Counted m) ((solo s1 c dlq)\<lparr>w_letters := [?l]\<rparr>)"
      using p_count [of m "(solo s c dlq)\<lparr>w_overflowing := [m]\<rparr>"] by (simp add: solo_def r)
    moreover have "pstep ((solo s1 c dlq)\<lparr>w_letters := [?l]\<rparr>) (Recorded ?l) (solo s1 c dlq1)"
      using p_record [of ?l "(solo s1 c dlq)\<lparr>w_letters := [?l]\<rparr>"] by (simp add: solo_def r)
    moreover have "pstep (solo s c dlq) (Offered m r) ((solo s c dlq)\<lparr>w_overflowing := [m]\<rparr>)" using st True s2 by simp
    ultimately show ?thesis by (meson prun_append prun_one)
  qed
qed

section \<open>The promises\<close>

lemma new_retry_max: "new_retry attempts base factor cap = Inr r \<Longrightarrow> rt_max_attempts r = attempts \<and> 1 \<le> attempts"
  by (auto simp: new_retry_def split: if_splits)

text \<open>A run for the witnesses: one message, one attempt allowed, which fails.\<close>

definition demo_retry :: retry_policy where
  "demo_retry = \<lparr>rt_max_attempts = 1, rt_base_delay = 0, rt_multiplier = 2, rt_max_delay = 5\<rparr>"

definition demo_msg :: message where
  "demo_msg = \<lparr>ms_topic = ''t'', ms_payload = ''p'', ms_priority = HIGH, ms_headers = [], ms_id = 7, ms_timestamp = 0\<rparr>"

definition demo_start :: world where
  "demo_start = fresh_world ''t'' ''s'' None demo_retry 10"

definition demo_queued :: subscription where
  "demo_queued = fst (offer_locked (w_sub demo_start) demo_msg)"

lemma demo_queued: "offer_locked (w_sub demo_start) demo_msg = (demo_queued, Enqueued)" "sb_heap demo_queued = [((- 2, 0), demo_msg)]"
  "sb_closed demo_queued = False" "sb_retry demo_queued = demo_retry"
  by (simp_all add: demo_queued_def demo_start_def fresh_world_def new_subscription_def offer_locked_def demo_msg_def)

lemma demo_offer: "prun demo_start [Offered demo_msg Enqueued] (solo demo_queued Waiting [])"
  using prun_one [OF p_offer [OF demo_queued(1)]] by (simp add: demo_start_def fresh_world_def solo_def)

lemma demo_take: "pstep (solo demo_queued Waiting []) (Taken 0 demo_msg) (solo (fst (take_message demo_queued)) (Calling demo_msg 1) [])"
  using p_take [of "solo demo_queued Waiting []" "fst (take_message demo_queued)" demo_msg]
  by (simp add: take_message_def demo_queued)

lemma demo_fail: "prun demo_start [Offered demo_msg Enqueued, Taken 0 demo_msg, Failed demo_msg ''x''] (solo (fst (take_message demo_queued)) (Dying demo_msg ''x'') [])"
proof -
  have "rt_max_attempts (sb_retry (fst (take_message demo_queued))) = 1" by (simp add: take_message_def demo_queued demo_retry_def)
  then have "pstep (solo (fst (take_message demo_queued)) (Calling demo_msg 1) []) (Failed demo_msg ''x'') (solo (fst (take_message demo_queued)) (Dying demo_msg ''x'') [])"
    using p_failure [of "solo (fst (take_message demo_queued)) (Calling demo_msg 1) []" demo_msg 1 "''x''"] by simp
  then show ?thesis using prun_snoc [OF prun_snoc [OF demo_offer demo_take]] by simp
qed

lemma demo_dead: "\<exists>s l. prun demo_start [Offered demo_msg Enqueued, Taken 0 demo_msg, Failed demo_msg ''x'', Gave_up demo_msg ''x'', Recorded l]
    (solo s Leaving [l]) \<and> dl_message l = demo_msg"
proof -
  let ?s = "fst (take_message demo_queued)"
  let ?l = "letter ?s demo_msg RETRIES_EXHAUSTED ''x''"
  have "pstep (solo ?s (Dying demo_msg ''x'') []) (Gave_up demo_msg ''x'') (solo (count_dead ?s) (Recording ?l) [])"
    using p_give_up [of "solo ?s (Dying demo_msg ''x'') []" demo_msg "''x''"] by simp
  moreover have "pstep (solo (count_dead ?s) (Recording ?l) []) (Recorded ?l) (solo (count_dead ?s) Leaving [?l])"
    using p_bury [of "solo (count_dead ?s) (Recording ?l) []" ?l] by simp
  ultimately have "prun demo_start [Offered demo_msg Enqueued, Taken 0 demo_msg, Failed demo_msg ''x'', Gave_up demo_msg ''x'', Recorded ?l]
      (solo (count_dead ?s) Leaving [?l])"
    using prun_snoc [OF prun_snoc [OF demo_fail]] by simp
  moreover have "dl_message ?l = demo_msg" by (simp add: letter_def)
  ultimately show ?thesis by blast
qed

text \<open>C17. Nothing is lost and nothing is duplicated, under any interleaving of publishers, the dispatcher and \<open>close\<close>: the messages
  that passed the filter of an open subscription are exactly those queued, in the hands of the dispatcher, delivered,
  discarded by closing, or dead letters recorded or about to be. The counters agree with this: \<open>delivered\<close> counts the deliveries,
  \<open>dead_lettered\<close> the dead letters that are counted (recorded, or still to be recorded by their thread), \<open>in_flight\<close> the message of the
  dispatcher; and the queue keeps its bound.\<close>

theorem every_message_accounted:
  assumes "prun (fresh_world topic subscriber predicate retry max_queue) tr w"
  shows "mset (accepted tr) = mset (map snd (sb_heap (w_sub w))) + mset (in_hand (w_pc w)) + mset (delivered tr) + mset (discarded tr)
       + mset (w_overflowing w) + mset (map dl_message (w_letters w)) + mset (map dl_message (w_dlq w))
     \<and> sb_delivered (w_sub w) = int (length (delivered tr))
     \<and> sb_dead_lettered (w_sub w) = int (length (w_letters w) + length (w_dlq w)) + (case w_pc w of Recording l \<Rightarrow> 1 | _ \<Rightarrow> 0)
     \<and> sb_in_flight (w_sub w) = (if w_pc w = Waiting then 0 else 1)
     \<and> int (length (sb_heap (w_sub w))) \<le> max 0 (sb_max_queue (w_sub w))"
  using prun_accounted [OF assms refl] by (simp add: whereabouts_def counters_def)

theorem every_message_accounted_witness:
  "\<exists>w l tr. prun (fresh_world ''t'' ''s'' None demo_retry 10) tr w
     \<and> tr = [Offered demo_msg Enqueued, Taken 0 demo_msg, Failed demo_msg ''x'', Gave_up demo_msg ''x'', Recorded l]
     \<and> w_dlq w = [l] \<and> accepted tr = [demo_msg] \<and> dl_message l = demo_msg \<and> sb_dead_lettered (w_sub w) = 1 \<and> sb_in_flight (w_sub w) = 1"
proof -
  obtain s l where r: "prun demo_start [Offered demo_msg Enqueued, Taken 0 demo_msg, Failed demo_msg ''x'', Gave_up demo_msg ''x'', Recorded l]
      (solo s Leaving [l])" "dl_message l = demo_msg" using demo_dead by blast
  note r' = r(1) [unfolded demo_start_def]
  have "accepted [Offered demo_msg Enqueued, Taken 0 demo_msg, Failed demo_msg ''x'', Gave_up demo_msg ''x'', Recorded l] = [demo_msg]" by (simp add: accepted_def)
  moreover have "sb_dead_lettered s = 1" "sb_in_flight s = 1" using every_message_accounted [OF r'] by simp_all
  ultimately show ?thesis using r' r(2) by (intro exI conjI) (assumption | simp)+
qed

text \<open>C18. A subscription's messages are taken from its queue in order (a failed delivery is retried without being
  taken again): every message taken is the one enqueued at that position, none is taken twice, among messages of one
  priority the earlier enqueued one comes first, and whenever one is taken nothing left in the queue has a higher
  priority. What the subscriber processed is in this order too.\<close>

theorem delivered_in_order:
  assumes "prun (fresh_world topic subscriber predicate retry max_queue) tr w" "pstep w (Taken q m) x"
  shows "sorted_wrt (\<lambda>a b. ms_priority (snd a) = ms_priority (snd b) \<longrightarrow> fst a < fst b) (taken tr @ [(q, m)])
    \<and> distinct (map fst (taken tr @ [(q, m)])) \<and> q < length (enqueued tr) \<and> enqueued tr ! q = m
    \<and> list_all (\<lambda>e. priority_value (ms_priority (snd e)) \<le> priority_value (ms_priority m)) (sb_heap (w_sub w))
    \<and> subseq (delivered tr) (map snd (taken tr))"
proof -
  have o: "ordered tr w" by (rule prun_ordered [OF assms(1) refl])
  then have n: "ordered (tr @ [Taken q m]) x" by (rule ordered_step [OF assms(2)])
  have pc: "w_pc w = Waiting" using assms(2) by (cases rule: pstep.cases) simp_all
  obtain e es where h: "sb_heap (w_sub w) = e # es" "q = snd (fst e)" "m = snd e"
    using assms(2) by (cases rule: pstep.cases) (auto simp: take_message_Some neq_Nil_conv)
  have ho: "heap_ok tr (w_sub w)" using o by (simp add: ordered_def)
  have "priority_value (ms_priority (snd y)) \<le> priority_value (ms_priority m)" if "y \<in> set (sb_heap (w_sub w))" for y
  proof -
    have "fst e \<le> fst y" using ho that h by (auto simp: heap_ok_def)
    then have "fst (fst e) \<le> fst (fst y)" by (cases "fst e"; cases "fst y") auto
    moreover have "fst (fst e) = - priority_value (ms_priority (snd e))" "fst (fst y) = - priority_value (ms_priority (snd y))"
      using ho that h(1) by (auto simp: heap_ok_def)
    ultimately show ?thesis using h(3) by simp
  qed
  then have "list_all (\<lambda>e. priority_value (ms_priority (snd e)) \<le> priority_value (ms_priority m)) (sb_heap (w_sub w))" by (simp add: list_all_iff)
  moreover have "sorted_wrt before (taken tr @ [(q, m)])" "distinct (map fst (taken tr @ [(q, m)]))"
    using n by (simp_all add: ordered_def taken_ok_def)
  moreover have "enqueued tr ! q = m" using ho h by (simp add: heap_ok_def)
  moreover have "q < length (enqueued tr)"
  proof -
    have "\<forall>y \<in> set (taken (tr @ [Taken q m])). fst y < length (enqueued (tr @ [Taken q m]))" using n by (auto simp: ordered_def taken_ok_def)
    then show ?thesis by simp
  qed
  moreover have "subseq (delivered tr) (map snd (taken tr))" using o pc by (simp add: ordered_def)
  ultimately show ?thesis by (simp add: before_def [abs_def])
qed

theorem delivered_in_order_witness:
  "\<exists>w x. prun (fresh_world ''t'' ''s'' None demo_retry 10) [Offered demo_msg Enqueued] w \<and> pstep w (Taken 0 demo_msg) x
     \<and> enqueued [Offered demo_msg Enqueued] ! 0 = demo_msg"
  using delivered_in_order [OF demo_offer [unfolded demo_start_def] demo_take] demo_offer [unfolded demo_start_def] demo_take by blast

text \<open>A message is given up only after every allowed attempt failed, or because the subscription was closed in between;
  and the subscriber is never called more often than the policy says.\<close>

theorem gives_up_after_all_attempts:
  assumes "new_retry attempts base factor cap = Inr retry" "prun (fresh_world topic subscriber predicate retry max_queue) tr w"
    and "pstep w (Gave_up m e) x"
  shows "(int (failures tr) = attempts \<or> sb_closed (w_sub w)) \<and> int (failures tr) \<le> attempts"
proof -
  have r: "1 \<le> rt_max_attempts retry" "rt_max_attempts retry = attempts" using new_retry_max [OF assms(1)] by simp_all
  have a: "attempts_ok retry tr w" by (rule prun_attempts [OF assms(2) refl r(1)])
  have "\<exists>m e. w_pc w = Dying m e" using assms(3) by (cases rule: pstep.cases) auto
  then show ?thesis using a r(2) by (auto simp: attempts_ok_def)
qed

theorem gives_up_after_all_attempts_witness: "int (failures [Offered demo_msg Enqueued, Taken 0 demo_msg, Failed demo_msg ''x'']) = 1"
proof -
  have r: "new_retry 1 0 2 5 = Inr demo_retry" by (simp add: new_retry_def demo_retry_def)
  have "sb_closed (fst (take_message demo_queued)) = False" by (simp add: take_message_def demo_queued)
  then show ?thesis
    using gives_up_after_all_attempts [OF r demo_fail [unfolded demo_start_def] p_give_up [of _ demo_msg "''x''"]] by simp
qed

text \<open>The synchronous mode is one interleaving of the threaded one: what \<open>dispatch_one\<close> does without other threads is a
  run of the steps, so every promise above holds for it.\<close>

theorem dispatch_one_is_a_run:
  assumes "new_retry attempts base factor cap = Inr (sb_retry s)" "dispatch_one call u s dlq = (u1, s1, dlq1, b)"
  shows "\<exists>tr. prun \<lparr>w_sub = s, w_pc = Waiting, w_overflowing = [], w_letters = [], w_dlq = dlq\<rparr> tr
    \<lparr>w_sub = s1, w_pc = Waiting, w_overflowing = [], w_letters = [], w_dlq = dlq1\<rparr>"
proof -
  have "1 \<le> rt_max_attempts (sb_retry s)" using new_retry_max [OF assms(1)] by simp
  then show ?thesis using dispatch_run [OF assms(2)] by (simp add: solo_def)
qed

theorem dispatch_one_is_a_run_witness:
  "\<exists>s1 dlq1 tr. dispatch_one (\<lambda>u k m. (u + 1 :: nat, None)) 0 demo_queued [] = (1, s1, dlq1, True)
     \<and> prun \<lparr>w_sub = demo_queued, w_pc = Waiting, w_overflowing = [], w_letters = [], w_dlq = []\<rparr> tr
         \<lparr>w_sub = s1, w_pc = Waiting, w_overflowing = [], w_letters = [], w_dlq = dlq1\<rparr>"
proof -
  have r: "new_retry 1 0 2 5 = Inr (sb_retry demo_queued)" by (simp add: new_retry_def demo_retry_def demo_queued)
  obtain s1 dlq1 where d: "dispatch_one (\<lambda>u k m. (u + 1 :: nat, None)) 0 demo_queued [] = (1, s1, dlq1, True)"
    by (simp add: dispatch_one_def take_message_def demo_queued demo_retry_def)
  show ?thesis using d dispatch_one_is_a_run [OF r d] by blast
qed

end
