(* ===== verification/Pub_Sub_Broker.thy ===== *)
theory Pub_Sub_Broker
  imports Pub_Sub_Threads
begin

text \<open>
  The broker of \<open>Pub_Sub\<close> as a machine over its public calls, the synchronous delivery \<open>run_until_idle\<close> over all
  subscriptions for subscribers that do not call the broker back, and the subscriber that removes duplicates.
\<close>

declare split_paired_All [simp del] split_paired_Ex [simp del]

section \<open>The public calls\<close>

text \<open>The retry policy of \<open>subscribe\<close> is given by the arguments of its constructor.\<close>

datatype ps_op =
    CreateTopic string
  | DeleteTopic string
  | Subscribe string string "(message \<Rightarrow> bool) option" "(int \<times> rat \<times> rat \<times> rat) option"
  | Unsubscribe string string
  | Publish string string MessagePriority "(string \<times> string) list" nat rat
  | RunUntilIdle
  | CloseBroker

definition optional_retry :: "(int \<times> rat \<times> rat \<times> rat) option \<Rightarrow> ps_error + retry_policy option" where
  "optional_retry args = (case args of None \<Rightarrow> Inr None | Some (n, base, factor, cap) \<Rightarrow> bind_sum (new_retry n base factor cap) (\<lambda>r. Inr (Some r)))"

fun ps_try :: "'u caller \<Rightarrow> 'u \<times> broker \<Rightarrow> ps_op \<Rightarrow> ps_error + 'u \<times> broker" where
  "ps_try call (u, b) (CreateTopic t) = Inr (u, create_topic b t)"
| "ps_try call (u, b) (DeleteTopic t) = Inr (u, fst (delete_topic b t))"
| "ps_try call (u, b) (Subscribe t k p r) = bind_sum (optional_retry r) (\<lambda>ro. bind_sum (subscribe b t k p ro) (\<lambda>b1. Inr (u, b1)))"
| "ps_try call (u, b) (Unsubscribe t k) = Inr (u, fst (unsubscribe b t k))"
| "ps_try call (u, b) (Publish t pl pr hs mid now) = bind_sum (publish b t pl pr hs mid now) (\<lambda>(b1, m). Inr (u, b1))"
| "ps_try call (u, b) RunUntilIdle = bind_sum (run_until_idle call u b) (\<lambda>(u1, b1, n). Inr (u1, b1))"
| "ps_try call (u, b) CloseBroker = Inr (u, close_broker b)"

definition ps_step :: "'u caller \<Rightarrow> 'u \<times> broker \<Rightarrow> ps_op \<Rightarrow> ('u \<times> broker) \<times> ps_error option" where
  "ps_step call x op = (case ps_try call x op of Inl e \<Rightarrow> (x, Some e) | Inr y \<Rightarrow> (y, None))"

section \<open>Invariant\<close>

definition sub_ok :: "subscription \<Rightarrow> bool" where
  "sub_ok s \<longleftrightarrow> (sb_closed s \<longrightarrow> sb_heap s = []) \<and> 1 \<le> rt_max_attempts (sb_retry s) \<and> sb_in_flight s = 0"

definition broker_ok :: "broker \<Rightarrow> bool" where
  "broker_ok b \<longleftrightarrow> (\<forall>t subs k s. (t, subs) \<in> set (br_topics b) \<longrightarrow> (k, s) \<in> set subs \<longrightarrow> sub_ok s)
     \<and> 1 \<le> rt_max_attempts (br_default_retry b) \<and> distinct (map fst (br_topics b)) \<and> \<not> br_started b"

text \<open>What a subscription has settled: delivered or dead-lettered.\<close>

definition settled :: "subscription \<Rightarrow> int" where
  "settled s = sb_delivered s + sb_dead_lettered s"

lemma deliver_settles:
  "deliver call u s dlq m a n = (u1, s1, dlq1) \<Longrightarrow> int a + int n = rt_max_attempts (sb_retry s) + 1 \<Longrightarrow> 0 < n \<Longrightarrow>
     settled s1 = settled s + 1 \<and> int (length dlq1) - sb_dead_lettered s1 = int (length dlq) - sb_dead_lettered s"
proof (induction n arbitrary: a u)
  case (Suc n)
  obtain u2 res where c: "call u (sb_subscriber s) m = (u2, res)" by fastforce
  show ?case
  proof (cases "res = None \<or> int a = rt_max_attempts (sb_retry s) \<or> sb_closed s")
    case True
    then show ?thesis using Suc.prems(1) c
      by (cases res) (auto simp: settled_def count_delivered_def dead_def count_dead_def split: if_splits)
  next
    case False
    then obtain e where e: "res = Some e" by (cases res) auto
    have d: "deliver call u2 s dlq m (a + 1) n = (u1, s1, dlq1)" using Suc.prems(1) c e False by simp
    have "0 < n" using Suc.prems(2) False by (cases n) simp_all
    then show ?thesis using Suc.IH [OF d] Suc.prems(2) by simp
  qed
qed simp

lemma dispatch_one_settles:
  assumes "dispatch_one call u s dlq = (u1, s1, dlq1, b)" "sub_ok s"
  shows "settled s1 = settled s + (if b then 1 else 0)" "sub_ok s1"
    "int (length dlq1) - sb_dead_lettered s1 = int (length dlq) - sb_dead_lettered s"
proof -
  have "(settled s1 = settled s + (if b then 1 else 0) \<and> int (length dlq1) - sb_dead_lettered s1 = int (length dlq) - sb_dead_lettered s)
     \<and> sb_retry s1 = sb_retry s"
  proof (cases "take_message s")
    case (Pair s2 r)
    show ?thesis
    proof (cases r)
      case None
      then have "s2 = s" using Pair by (auto simp: take_message_def split: list.splits if_splits)
      then show ?thesis using assms(1) Pair None by (simp add: dispatch_one_def)
    next
      case (Some m)
      have s2: "sb_retry s2 = sb_retry s" "settled s2 = settled s" "sb_dead_lettered s2 = sb_dead_lettered s"
        using Pair Some by (simp_all add: take_message_Some settled_def)
      obtain u3 s3 dlq3 where d: "deliver call u s2 dlq m 1 (nat (rt_max_attempts (sb_retry s))) = (u3, s3, dlq3)" by (metis prod_cases3)
      have "settled s3 = settled s2 + 1 \<and> int (length dlq3) - sb_dead_lettered s3 = int (length dlq) - sb_dead_lettered s2"
        using deliver_settles [OF d] assms(2) s2(1) by (simp add: sub_ok_def)
      moreover have "s1 = leave s3" "dlq1 = dlq3" "b" using assms(1) Pair Some d s2(1) by (simp_all add: dispatch_one_def)
      ultimately show ?thesis using s2 deliver_frame [OF d] by (simp add: leave_def settled_def)
    qed
  qed
  note r = this
  then show "settled s1 = settled s + (if b then 1 else 0)" "int (length dlq1) - sb_dead_lettered s1 = int (length dlq) - sb_dead_lettered s"
    by simp_all
  show "sub_ok s1" using r dispatch_one_heap [OF assms(1)] assms(2) by (auto simp: sub_ok_def split: if_splits)
qed

lemma dispatch_subs_settles:
  "dispatch_subs call u subs dlq = (u1, subs1, dlq1, n) \<Longrightarrow> list_all sub_ok (map snd subs) \<Longrightarrow>
     (\<Sum>s\<leftarrow>map snd subs1. settled s) = (\<Sum>s\<leftarrow>map snd subs. settled s) + int n \<and> list_all sub_ok (map snd subs1) \<and> map fst subs1 = map fst subs"
proof (induction subs arbitrary: u dlq u1 subs1 dlq1 n)
  case (Cons x subs)
  obtain k s where x: "x = (k, s)" by (cases x)
  obtain u2 s2 dlq2 b where d: "dispatch_one call u s dlq = (u2, s2, dlq2, b)" by (metis prod_cases4)
  obtain u3 subs3 dlq3 m where r: "dispatch_subs call u2 subs dlq2 = (u3, subs3, dlq3, m)" by (metis prod_cases4)
  have o: "subs1 = (k, s2) # subs3" "n = (if b then m + 1 else m)" using Cons.prems by (simp_all add: x d r split: if_splits)
  show ?case using Cons.IH [OF r] dispatch_one_settles [OF d] Cons.prems(2) by (simp add: x o)
qed simp

lemma dispatch_topics_settles:
  "dispatch_topics call u ts dlq = (u1, ts1, dlq1, n) \<Longrightarrow> list_all sub_ok (concat (map (map snd \<circ> snd) ts)) \<Longrightarrow>
     (\<Sum>s\<leftarrow>concat (map (map snd \<circ> snd) ts1). settled s) = (\<Sum>s\<leftarrow>concat (map (map snd \<circ> snd) ts). settled s) + int n
     \<and> list_all sub_ok (concat (map (map snd \<circ> snd) ts1)) \<and> map fst ts1 = map fst ts"
proof (induction ts arbitrary: u dlq u1 ts1 dlq1 n)
  case (Cons x ts)
  obtain t subs where x: "x = (t, subs)" by (cases x)
  obtain u2 subs2 dlq2 a where d: "dispatch_subs call u subs dlq = (u2, subs2, dlq2, a)" by (metis prod_cases4)
  obtain u3 ts3 dlq3 m where r: "dispatch_topics call u2 ts dlq2 = (u3, ts3, dlq3, m)" by (metis prod_cases4)
  have o: "ts1 = (t, subs2) # ts3" "n = a + m" using Cons.prems by (simp_all add: x d r)
  show ?case using Cons.IH [OF r] dispatch_subs_settles [OF d] Cons.prems(2) by (simp add: x o)
qed simp

lemma broker_ok_subs: "broker_ok b \<longleftrightarrow> list_all sub_ok (subs_of b) \<and> 1 \<le> rt_max_attempts (br_default_retry b) \<and> distinct (map fst (br_topics b)) \<and> \<not> br_started b"
  by (auto simp: broker_ok_def subs_of_def list_all_iff) (metis imageI snd_conv)+

lemma round_settles:
  assumes "dispatch_round call u b = (u1, b1, n)" "broker_ok b"
  shows "(\<Sum>s\<leftarrow>subs_of b1. settled s) = (\<Sum>s\<leftarrow>subs_of b. settled s) + int n" "broker_ok b1" "n = 0 \<Longrightarrow> br_pending b1 = 0"
proof -
  obtain ts dlq where d: "dispatch_topics call u (br_topics b) (br_dlq b) = (u1, ts, dlq, n)" "b1 = b\<lparr>br_topics := ts, br_dlq := dlq\<rparr>"
    using assms(1) by (auto simp: dispatch_round_def split: prod.splits)
  note se = dispatch_topics_settles [OF d(1)] and pe = dispatch_topics_pending [OF d(1)]
  have ok: "list_all sub_ok (concat (map (map snd \<circ> snd) (br_topics b)))" using assms(2) by (simp add: broker_ok_subs subs_of_def)
  show "(\<Sum>s\<leftarrow>subs_of b1. settled s) = (\<Sum>s\<leftarrow>subs_of b. settled s) + int n" using se [OF ok] by (simp add: subs_of_def d(2))
  show "broker_ok b1" using se [OF ok] assms(2) by (simp add: broker_ok_subs subs_of_def d(2))
  assume n: "n = 0"
  have "list_all nothing_left (subs_of b)" using pe n by (simp add: subs_of_def)
  then have "\<forall>s \<in> set (subs_of b). sb_heap s = []" using assms(2) by (auto simp: broker_ok_subs list_all_iff nothing_left_def sub_ok_def)
  then have "br_pending b = 0" by (simp add: br_pending_def sb_pending_def)
  then show "br_pending b1 = 0" using round_pending [OF assms(1)] n by simp
qed

lemma rounds_settle:
  "run_rounds call u b h = (u1, b1, n) \<Longrightarrow> broker_ok b \<Longrightarrow>
     n = h + br_pending b \<and> br_pending b1 = 0 \<and> (\<Sum>s\<leftarrow>subs_of b1. settled s) = (\<Sum>s\<leftarrow>subs_of b. settled s) + int (br_pending b) \<and> broker_ok b1"
proof (induction call u b h rule: run_rounds.induct)
  case (1 call u b h)
  obtain u2 b2 m where r: "dispatch_round call u b = (u2, b2, m)" by (metis prod_cases3)
  note st = round_settles [OF r 1(3)] and pn = round_pending [OF r]
  show ?case
  proof (cases "m = 0")
    case True
    then have "u1 = u2" "b1 = b2" "n = h" using 1(2) by (simp_all add: run_rounds.simps [of call u b h] r)
    then show ?thesis using st pn True by simp
  next
    case False
    then have "run_rounds call u2 b2 (h + m) = (u1, b1, n)" using 1(2) by (simp add: run_rounds.simps [of call u b h] r)
    then show ?thesis using 1(1) [of u2 "(b2, m)" b2 m] r False st pn by simp
  qed
qed

section \<open>The machine keeps the invariant\<close>

lemma offer_sub_ok: "offer s dlq m = (s1, dlq1, b) \<Longrightarrow> sub_ok s \<Longrightarrow> sub_ok s1"
  by (auto simp: offer_def offer_locked_def sub_ok_def dead_def count_dead_def split: if_splits)

lemma offer_all_ok: "offer_all subs dlq m = (subs1, dlq1) \<Longrightarrow> list_all sub_ok (map snd subs) \<Longrightarrow> list_all sub_ok (map snd subs1)"
proof (induction subs arbitrary: dlq subs1 dlq1)
  case (Cons x subs)
  obtain k s where x: "x = (k, s)" by (cases x)
  obtain s2 dlq2 b where o: "offer s dlq m = (s2, dlq2, b)" by (metis prod_cases3)
  obtain subs3 dlq3 where r: "offer_all subs dlq2 m = (subs3, dlq3)" by fastforce
  show ?case using Cons offer_sub_ok [OF o] Cons.IH [OF r] by (auto simp: x o r)
qed simp

lemma topics_update_ok:
  assumes ok: "broker_ok b" and subs: "list_all sub_ok (map snd subs)"
  shows "broker_ok (b\<lparr>br_topics := AList.update t subs (br_topics b), br_dlq := dlq\<rparr>)" "broker_ok (b\<lparr>br_topics := AList.update t subs (br_topics b)\<rparr>)"
proof -
  have "sub_ok s" if "(t', ss) \<in> set (AList.update t subs (br_topics b))" "(k, s) \<in> set ss" for t' ss k s
    using AList_update_elem [OF that(1)] that(2) subs ok by (auto simp: broker_ok_def list_all_iff)
  then show "broker_ok (b\<lparr>br_topics := AList.update t subs (br_topics b), br_dlq := dlq\<rparr>)" "broker_ok (b\<lparr>br_topics := AList.update t subs (br_topics b)\<rparr>)"
    using ok by (simp_all add: broker_ok_def distinct_update)
qed

lemma topic_subs_ok: "broker_ok b \<Longrightarrow> map_of (br_topics b) t = Some subs \<Longrightarrow> list_all sub_ok (map snd subs)"
  by (auto simp: broker_ok_def list_all_iff dest!: map_of_SomeD)

lemma optional_retry_ok: "optional_retry args = Inr (Some r) \<Longrightarrow> 1 \<le> rt_max_attempts r"
  by (auto simp: optional_retry_def bind_sum_Inr new_retry_def split: option.splits prod.splits if_splits)

lemma ps_try_ok:
  assumes ok: "broker_ok b" and r: "ps_try call (u, b) op = Inr (u1, b1)"
  shows "broker_ok b1"
proof (cases op)
  case (CreateTopic t)
  then show ?thesis using ok r by (auto simp: create_topic_def broker_ok_def map_of_eq_None_iff split: if_splits)
next
  case (DeleteTopic t)
  then show ?thesis using ok r AList_delete_subset [of t "br_topics b"]
    by (auto simp: delete_topic_def broker_ok_def distinct_delete)
next
  case (Subscribe t k p args)
  then obtain ro subs where o: "optional_retry args = Inr ro" "map_of (br_topics b) t = Some subs"
      "b1 = b\<lparr>br_topics := AList.update t (subs @ [(k, new_subscription t k p (case ro of None \<Rightarrow> br_default_retry b | Some r \<Rightarrow> r) (br_max_queue b))]) (br_topics b)\<rparr>"
    using r by (auto simp: bind_sum_Inr subscribe_def Let_def split: option.splits if_splits)
  have "1 \<le> rt_max_attempts (case ro of None \<Rightarrow> br_default_retry b | Some r \<Rightarrow> r)"
    using ok optional_retry_ok o(1) by (cases ro) (simp_all add: broker_ok_def)
  then have "sub_ok (new_subscription t k p (case ro of None \<Rightarrow> br_default_retry b | Some r \<Rightarrow> r) (br_max_queue b))"
    by (simp add: sub_ok_def new_subscription_def)
  then show ?thesis unfolding o(3) using topic_subs_ok [OF ok o(2)] by (intro topics_update_ok [OF ok]) simp
next
  case (Unsubscribe t k)
  show ?thesis
  proof (cases "map_of (br_topics b) t")
    case None then show ?thesis using ok r Unsubscribe by (simp add: unsubscribe_def)
  next
    case (Some subs)
    have "list_all sub_ok (map snd (AList.delete k subs))"
      using topic_subs_ok [OF ok Some] AList_delete_subset [of k subs] by (auto simp: list_all_iff)
    then show ?thesis using ok r Unsubscribe Some topics_update_ok(2) [OF ok] by (auto simp: unsubscribe_def split: option.splits)
  qed
next
  case (Publish t pl pr hs mid now)
  then obtain subs m subs1 dlq1 where o: "map_of (br_topics b) t = Some subs" "offer_all subs (br_dlq b) m = (subs1, dlq1)"
      "b1 = b\<lparr>br_topics := AList.update t subs1 (br_topics b), br_dlq := dlq1\<rparr>"
    using r by (auto simp: bind_sum_Inr publish_def Let_def split: option.splits prod.splits)
  show ?thesis unfolding o(3) by (rule topics_update_ok(1) [OF ok offer_all_ok [OF o(2) topic_subs_ok [OF ok o(1)]]])
next
  case RunUntilIdle
  then obtain n where rr: "run_rounds call u b 0 = (u1, b1, n)" using r ok by (auto simp: run_until_idle_def broker_ok_def split: prod.splits)
  show ?thesis using rounds_settle [OF rr ok] by simp
next
  case CloseBroker
  then show ?thesis using ok r by (auto simp: close_broker_def broker_ok_def comp_def case_prod_beta sub_ok_def close_sub_def)
qed

interpretation broker_machine: invariant_machine "ps_step call" "\<lambda>x :: 'u \<times> broker. broker_ok (snd x)" for call :: "'u caller"
proof
  fix x :: "'u \<times> broker" and op assume "broker_ok (snd x)"
  then show "broker_ok (snd (fst (ps_step call x op)))"
    using ps_try_ok [of "snd x" call "fst x" op] by (simp add: ps_step_def split: sum.split) (metis prod.collapse)
qed

text \<open>For subscribers that do not call the broker back, and before the broker is started: \<open>run_until_idle\<close> returns, whatever the
  subscribers answer, with the number of messages that were queued; no message is left queued in any subscription, and each of them was
  settled exactly once: delivered or recorded as dead. (A subscriber that publishes to its own topic keeps the code's loop running, and one
  that unsubscribes itself discards what is queued for it; the threaded model of \<open>Pub_Sub_Threads\<close> has both.)\<close>

theorem run_until_idle_drains:
  assumes "new_retry attempts base factor cap = Inr retry" "run_ops (ps_step call) (u0, new_broker retry max_queue) ops = (u, b)"
  shows "\<exists>u1 b1. run_until_idle call u b = Inr (u1, b1, br_pending b) \<and> br_pending b1 = 0
    \<and> (\<Sum>s\<leftarrow>subs_of b1. sb_delivered s + sb_dead_lettered s) = (\<Sum>s\<leftarrow>subs_of b. sb_delivered s + sb_dead_lettered s) + int (br_pending b)"
proof -
  have "broker_ok (new_broker retry max_queue)" using new_retry_max [OF assms(1)] by (simp add: new_broker_def broker_ok_def)
  then have ok: "broker_ok b" using broker_machine.run_inv [of "(u0, new_broker retry max_queue)" call ops] assms(2) by simp
  obtain u1 b1 n where r: "run_rounds call u b 0 = (u1, b1, n)" by (metis prod_cases3)
  have "\<not> br_started b" using ok by (simp add: broker_ok_def)
  then show ?thesis using rounds_settle [OF r ok] r by (auto simp: run_until_idle_def settled_def [abs_def])
qed

text \<open>Two subscribers, one of which always fails; three messages.\<close>

definition demo_caller :: "nat caller" where
  "demo_caller u k m = (u + 1, if k = ''bad'' then Some ''no'' else None)"

definition demo_calls :: "ps_op list" where
  "demo_calls = [CreateTopic ''t'', Subscribe ''t'' ''good'' None None, Subscribe ''t'' ''bad'' None (Some (2, 0, 2, 5)),
     Publish ''t'' ''a'' NORMAL [] 1 0, Publish ''t'' ''b'' HIGH [] 2 1, Publish ''t'' ''c'' LOW [] 3 2]"

theorem run_until_idle_drains_witness:
  "\<exists>u1 b1. run_until_idle demo_caller 0 (snd (run_ops (ps_step demo_caller) (0, new_broker demo_retry 100) demo_calls)) = Inr (u1, b1, 6) \<and> br_pending b1 = 0"
proof -
  have r: "new_retry 1 0 2 5 = Inr demo_retry" by (simp add: new_retry_def demo_retry_def)
  have p: "br_pending (snd (run_ops (ps_step demo_caller) (0, new_broker demo_retry 100) demo_calls)) = 6" by code_simp
  have u: "fst (run_ops (ps_step demo_caller) (0, new_broker demo_retry 100) demo_calls) = 0" by code_simp
  show ?thesis using run_until_idle_drains [OF r surjective_pairing, of demo_caller 0 100 demo_calls] unfolding p u by blast
qed

section \<open>Effectively once\<close>

text \<open>A run of deliveries through the decorator: for each, the message id, whether the inner subscriber processed it, and
  whether the broker saw a success.\<close>

fun dedup_run :: "('u \<Rightarrow> message \<Rightarrow> 'u \<times> string option) \<Rightarrow> 'u \<Rightarrow> dedup \<Rightarrow> message list \<Rightarrow> (nat \<times> bool \<times> bool) list" where
  "dedup_run inner u d [] = []"
| "dedup_run inner u d (m # ms) =
     (case dedup_on_message inner u d m of
        (u1, d1, r) \<Rightarrow> (ms_id m, ms_id m \<notin> set (dd_seen d) \<and> r = None, r = None) # dedup_run inner u1 d1 ms)"

definition processed :: "(nat \<times> bool \<times> bool) list \<Rightarrow> nat list" where
  "processed rs = map fst (filter (\<lambda>r. fst (snd r)) rs)"

definition acknowledged :: "(nat \<times> bool \<times> bool) list \<Rightarrow> nat set" where
  "acknowledged rs = fst ` set (filter (\<lambda>r. snd (snd r)) rs)"

lemma dedup_run_once:
  assumes "distinct (dd_seen d)" "int (card (set (dd_seen d) \<union> ms_id ` set ms)) \<le> dd_capacity d"
  shows "distinct (dd_seen d @ processed (dedup_run inner u d ms)) \<and> acknowledged (dedup_run inner u d ms) \<subseteq> set (dd_seen d @ processed (dedup_run inner u d ms))"
  using assms
proof (induction ms arbitrary: u d)
  case (Cons m ms)
  obtain u1 d1 r where o: "dedup_on_message inner u d m = (u1, d1, r)" by (metis prod_cases3)
  show ?case
  proof (cases "ms_id m \<in> set (dd_seen d)")
    case True
    then have "d1 = d" "r = None" using o by (simp_all add: dedup_on_message_def)
    moreover have "insert (ms_id m) (set (dd_seen d) \<union> ms_id ` set ms) = set (dd_seen d) \<union> ms_id ` set ms" using True by auto
    ultimately show ?thesis using Cons.IH [of d u1] Cons.prems True o by (simp add: processed_def acknowledged_def)
  next
    case False
    show ?thesis
    proof (cases r)
      case None
      have "length (dd_seen d @ [ms_id m]) = card (set (dd_seen d @ [ms_id m]))" using Cons.prems(1) False by (simp add: distinct_card)
      also have "\<dots> \<le> card (set (dd_seen d) \<union> ms_id ` set (m # ms))" by (rule card_mono) auto
      finally have "int (length (dd_seen d @ [ms_id m])) \<le> dd_capacity d" using Cons.prems(2) by simp
      then have d1: "d1 = d\<lparr>dd_seen := dd_seen d @ [ms_id m]\<rparr>" using o None False by (auto simp: dedup_on_message_def Let_def split: prod.splits option.splits)
      have "set (dd_seen d1) \<union> ms_id ` set ms = set (dd_seen d) \<union> ms_id ` set (m # ms)" by (auto simp: d1)
      then have "distinct (dd_seen d1 @ processed (dedup_run inner u1 d1 ms)) \<and> acknowledged (dedup_run inner u1 d1 ms) \<subseteq> set (dd_seen d1 @ processed (dedup_run inner u1 d1 ms))"
        using Cons.IH [of d1 u1] Cons.prems False by (simp add: d1)
      then show ?thesis using o None False by (auto simp: processed_def acknowledged_def d1)
    next
      case (Some e)
      then have d1: "d1 = d" using o False by (auto simp: dedup_on_message_def Let_def split: prod.splits option.splits)
      have "card (set (dd_seen d) \<union> ms_id ` set ms) \<le> card (set (dd_seen d) \<union> ms_id ` set (m # ms))" by (rule card_mono) auto
      then show ?thesis using Cons.IH [of d u1] Cons.prems Some o False by (simp add: processed_def acknowledged_def d1)
    qed
  qed
qed (simp add: processed_def acknowledged_def)

text \<open>The deduplicating subscriber turns at-least-once into effectively once: however often messages are redelivered
  and however the inner subscriber fails, each id is processed successfully at most once, and every acknowledged id
  was processed, as long as the number of different ids fits the capacity.\<close>

theorem dedup_effectively_once:
  assumes "int (card (ms_id ` set ms)) \<le> capacity"
  shows "distinct (processed (dedup_run inner u \<lparr>dd_seen = [], dd_capacity = capacity\<rparr> ms))
    \<and> acknowledged (dedup_run inner u \<lparr>dd_seen = [], dd_capacity = capacity\<rparr> ms) \<subseteq> set (processed (dedup_run inner u \<lparr>dd_seen = [], dd_capacity = capacity\<rparr> ms))"
  using dedup_run_once [of "\<lparr>dd_seen = [], dd_capacity = capacity\<rparr>" ms inner u] assms by simp

text \<open>The first call fails, the second succeeds, the third delivery is a duplicate.\<close>

theorem dedup_effectively_once_witness:
  "processed (dedup_run (\<lambda>u m. (u + 1 :: nat, if u = 0 then Some ''no'' else None)) 0 \<lparr>dd_seen = [], dd_capacity = 1\<rparr> [demo_msg, demo_msg, demo_msg]) = [7]
     \<and> distinct (processed (dedup_run (\<lambda>u m. (u + 1 :: nat, if u = 0 then Some ''no'' else None)) 0 \<lparr>dd_seen = [], dd_capacity = 1\<rparr> [demo_msg, demo_msg, demo_msg]))"
  using dedup_effectively_once [of "[demo_msg, demo_msg, demo_msg]" 1 "\<lambda>u m. (u + 1 :: nat, if u = 0 then Some ''no'' else None)" 0]
  by (simp add: dedup_on_message_def processed_def demo_msg_def)

end
