(* ===== verification/Chess.thy ===== *)
theory Chess
  imports Prelude "HOL-Library.AList"
begin

text \<open>
  The game of \<open>python-low-level-design/chess-game/chess_game.py\<close>: pieces and their moves, the board with make and unmake,
  legality, draws, and the game facade. A piece object lies on one square at a time, so it is a value in its cell; a
  \<open>Move\<close> keeps the piece as it was, and undoing puts it back. What mutates the board returns it, also when it only makes and
  unmakes moves to test them. A square is \<open>(row, column)\<close>, as in the code.
\<close>

declare split_paired_All [simp del] split_paired_Ex [simp del]

section \<open>Squares and pieces\<close>

datatype chess_error = InvalidMoveError | GameOverError | StaleMoveError | ChessError | Raised py_error

datatype Color = WHITE | BLACK

fun opponent :: "Color \<Rightarrow> Color" where
  "opponent BLACK = WHITE"
| "opponent WHITE = BLACK"

datatype PieceType = KING | QUEEN | ROOK | BISHOP | KNIGHT | PAWN

definition PROMOTION_CHOICES :: "PieceType list" where
  "PROMOTION_CHOICES = [QUEEN, ROOK, BISHOP, KNIGHT]"

datatype GameStatus = ACTIVE | CHECK | CHECKMATE | STALEMATE | DRAW | RESIGNED

definition is_over :: "GameStatus \<Rightarrow> bool" where
  "is_over st \<longleftrightarrow> st \<noteq> ACTIVE \<and> st \<noteq> CHECK"

type_synonym square = "int \<times> int"

definition on_board :: "square \<Rightarrow> bool" where
  "on_board p \<longleftrightarrow> 0 \<le> fst p \<and> fst p < 8 \<and> 0 \<le> snd p \<and> snd p < 8"

text \<open>\<open>square("e4")\<close>.\<close>

definition square_of :: "string \<Rightarrow> chess_error + square" where
  "square_of name =
     (case name of
        [f, r] \<Rightarrow> if f \<in> set ''abcdefgh'' \<and> r \<in> set ''12345678'' then Inr (8 - (of_char r - 48), of_char f - 97) else Inl (Raised ValueError)
      | _ \<Rightarrow> Inl (Raised ValueError))"

record piece =
  pc_type :: PieceType
  pc_color :: Color
  pc_position :: square
  pc_has_moved :: bool

record board =
  bd_grid :: "piece option list list"
  bd_en_passant_target :: "square option"

definition get_piece_at :: "board \<Rightarrow> square \<Rightarrow> piece option" where
  "get_piece_at b p = (if on_board p then bd_grid b ! nat (fst p) ! nat (snd p) else None)"

text \<open>\<open>_set\<close>; every caller passes a square of the board.\<close>

definition set_piece :: "board \<Rightarrow> square \<Rightarrow> piece option \<Rightarrow> board" where
  "set_piece b p x = b\<lparr>bd_grid := (bd_grid b)[nat (fst p) := (bd_grid b ! nat (fst p))[nat (snd p) := x]]\<rparr>"

definition empty_board :: board where
  "empty_board = \<lparr>bd_grid = replicate 8 (replicate 8 None), bd_en_passant_target = None\<rparr>"

definition place :: "board \<Rightarrow> PieceType \<Rightarrow> Color \<Rightarrow> square \<Rightarrow> bool \<Rightarrow> board" where
  "place b t col p moved = set_piece b p (Some \<lparr>pc_type = t, pc_color = col, pc_position = p, pc_has_moved = moved\<rparr>)"

definition BACK_RANK :: "PieceType list" where
  "BACK_RANK = [ROOK, KNIGHT, BISHOP, QUEEN, KING, BISHOP, KNIGHT, ROOK]"

definition setup_color :: "Color \<Rightarrow> int \<Rightarrow> int \<Rightarrow> board \<Rightarrow> board" where
  "setup_color col back pawns b =
     foldl (\<lambda>b (c, t). place (place b t col (back, c) False) PAWN col (pawns, c) False) b (zip [0..7] BACK_RANK)"

definition new_board :: board where
  "new_board = setup_color BLACK 0 1 (setup_color WHITE 7 6 empty_board)"

definition pieces :: "board \<Rightarrow> piece list" where
  "pieces b = concat (map (List.map_filter (\<lambda>x. x)) (bd_grid b))"

definition pieces_of :: "board \<Rightarrow> Color \<Rightarrow> piece list" where
  "pieces_of b col = filter (\<lambda>p. pc_color p = col) (pieces b)"

definition find_king :: "board \<Rightarrow> Color \<Rightarrow> piece option" where
  "find_king b col = find (\<lambda>p. pc_type p = KING) (pieces_of b col)"

section \<open>Movement\<close>

definition ORTHOGONAL :: "square list" where
  "ORTHOGONAL = [(1, 0), (-1, 0), (0, 1), (0, -1)]"

definition DIAGONAL :: "square list" where
  "DIAGONAL = [(1, 1), (1, -1), (-1, 1), (-1, -1)]"

definition JUMPS :: "square list" where
  "JUMPS = [(2, 1), (2, -1), (-2, 1), (-2, -1), (1, 2), (1, -2), (-1, 2), (-1, -2)]"

text \<open>The inner loop of a sliding piece; at most eight squares in a direction are on the board.\<close>

fun slide :: "board \<Rightarrow> Color \<Rightarrow> square \<Rightarrow> nat \<Rightarrow> square \<Rightarrow> square list" where
  "slide b col d 0 p = []"
| "slide b col d (Suc n) p =
     (if \<not> on_board p then []
      else (case get_piece_at b p of
              None \<Rightarrow> p # slide b col d n (fst p + fst d, snd p + snd d)
            | Some t \<Rightarrow> if pc_color t \<noteq> col then [p] else []))"

definition slides :: "board \<Rightarrow> piece \<Rightarrow> square list \<Rightarrow> square list" where
  "slides b p dirs = concat (map (\<lambda>d. slide b (pc_color p) d 8 (fst (pc_position p) + fst d, snd (pc_position p) + snd d)) dirs)"

definition steps :: "board \<Rightarrow> piece \<Rightarrow> square list \<Rightarrow> square list" where
  "steps b p ds =
     filter (\<lambda>q. on_board q \<and> (case get_piece_at b q of None \<Rightarrow> True | Some t \<Rightarrow> pc_color t \<noteq> pc_color p))
       (map (\<lambda>d. (fst (pc_position p) + fst d, snd (pc_position p) + snd d)) ds)"

definition direction :: "Color \<Rightarrow> int" where
  "direction col = (if col = WHITE then -1 else 1)"

definition attacks :: "board \<Rightarrow> piece \<Rightarrow> square list" where
  "attacks b p =
     (case pc_type p of
        QUEEN \<Rightarrow> slides b p (ORTHOGONAL @ DIAGONAL)
      | ROOK \<Rightarrow> slides b p ORTHOGONAL
      | BISHOP \<Rightarrow> slides b p DIAGONAL
      | KNIGHT \<Rightarrow> steps b p JUMPS
      | KING \<Rightarrow> steps b p (ORTHOGONAL @ DIAGONAL)
      | PAWN \<Rightarrow> (let r = fst (pc_position p) + direction (pc_color p); c = snd (pc_position p)
                 in filter on_board [(r, c - 1), (r, c + 1)]))"

definition is_square_attacked :: "board \<Rightarrow> square \<Rightarrow> Color \<Rightarrow> bool" where
  "is_square_attacked b q by_color = list_ex (\<lambda>p. q \<in> set (attacks b p)) (pieces_of b by_color)"

definition is_in_check :: "board \<Rightarrow> Color \<Rightarrow> bool" where
  "is_in_check b col = (case find_king b col of None \<Rightarrow> False | Some k \<Rightarrow> is_square_attacked b (pc_position k) (opponent col))"

definition can_castle :: "board \<Rightarrow> piece \<Rightarrow> int \<Rightarrow> int list \<Rightarrow> int list \<Rightarrow> bool" where
  "can_castle b k rook_col clear safe =
     (let r = fst (pc_position k)
      in (case get_piece_at b (r, rook_col) of
            None \<Rightarrow> False
          | Some rook \<Rightarrow> pc_type rook = ROOK \<and> pc_color rook = pc_color k \<and> \<not> pc_has_moved rook
              \<and> list_all (\<lambda>c. get_piece_at b (r, c) = None) clear
              \<and> list_all (\<lambda>c. \<not> is_square_attacked b (r, c) (opponent (pc_color k))) safe))"

definition king_moves :: "board \<Rightarrow> piece \<Rightarrow> square list" where
  "king_moves b k =
     (let r = fst (pc_position k); c = snd (pc_position k)
      in attacks b k
         @ (if \<not> pc_has_moved k \<and> \<not> is_in_check b (pc_color k)
            then (if can_castle b k 7 [5, 6] [5, 6] then [(r, c + 2)] else []) @ (if can_castle b k 0 [1, 2, 3] [3, 2] then [(r, c - 2)] else [])
            else []))"

definition pawn_captures :: "board \<Rightarrow> piece \<Rightarrow> square \<Rightarrow> bool" where
  "pawn_captures b p q =
     ((case get_piece_at b q of None \<Rightarrow> False | Some t \<Rightarrow> pc_color t \<noteq> pc_color p)
      \<or> Some q = bd_en_passant_target b
        \<and> (case get_piece_at b (fst (pc_position p), snd q) of None \<Rightarrow> False | Some v \<Rightarrow> pc_type v = PAWN \<and> pc_color v \<noteq> pc_color p))"

definition pawn_moves :: "board \<Rightarrow> piece \<Rightarrow> square list" where
  "pawn_moves b p =
     (let r = fst (pc_position p); c = snd (pc_position p); nr = r + direction (pc_color p); two = nr + direction (pc_color p);
          start_row = (if pc_color p = WHITE then 6 else 1)
      in (if on_board (nr, c) \<and> get_piece_at b (nr, c) = None
          then (nr, c) # (if r = start_row \<and> get_piece_at b (two, c) = None then [(two, c)] else [])
          else [])
         @ filter (pawn_captures b p) (attacks b p))"

definition get_possible_moves :: "board \<Rightarrow> piece \<Rightarrow> square list" where
  "get_possible_moves b p = (case pc_type p of KING \<Rightarrow> king_moves b p | PAWN \<Rightarrow> pawn_moves b p | _ \<Rightarrow> attacks b p)"

section \<open>Make and unmake\<close>

record move =
  mv_start_pos :: square
  mv_end_pos :: square
  mv_piece :: piece
  mv_captured_piece :: "piece option"
  mv_captured_pos :: "square option"
  mv_promotion :: "PieceType option"
  mv_promoted_piece :: "piece option"
  mv_is_castling :: bool
  mv_is_en_passant :: bool
  mv_rook_from :: "square option"
  mv_rook_to :: "square option"
  mv_prev_en_passant_target :: "square option"
  mv_prev_has_moved :: bool

definition captures_en_passant :: "board \<Rightarrow> piece \<Rightarrow> square \<Rightarrow> square \<Rightarrow> bool" where
  "captures_en_passant b p start dest =
     (pc_type p = PAWN \<and> Some dest = bd_en_passant_target b \<and> snd start \<noteq> snd dest \<and> get_piece_at b dest = None)"

definition captured_square :: "board \<Rightarrow> piece \<Rightarrow> square \<Rightarrow> square \<Rightarrow> square option" where
  "captured_square b p start dest =
     (if captures_en_passant b p start dest then Some (fst start, snd dest) else if get_piece_at b dest \<noteq> None then Some dest else None)"

definition relocate :: "piece \<Rightarrow> square \<Rightarrow> bool \<Rightarrow> piece" where
  "relocate p q moved = p\<lparr>pc_position := q, pc_has_moved := moved\<rparr>"

definition is_castling_move :: "piece \<Rightarrow> square \<Rightarrow> square \<Rightarrow> bool" where
  "is_castling_move p start dest = (pc_type p = KING \<and> \<bar>snd dest - snd start\<bar> = 2)"

definition rook_squares :: "square \<Rightarrow> square \<Rightarrow> square \<times> square" where
  "rook_squares start dest = (if snd dest > snd start then ((fst start, 7), (fst start, 5)) else ((fst start, 0), (fst start, 3)))"

definition last_row :: "Color \<Rightarrow> int" where
  "last_row col = (if col = WHITE then 0 else 7)"

text \<open>The three parts of \<open>apply_move\<close>: the piece and what it captures, the rook of a castling, the promotion. A part that
  raises leaves the board as it is then.\<close>

definition move_piece :: "board \<Rightarrow> piece \<Rightarrow> square \<Rightarrow> square \<Rightarrow> board \<times> move" where
  "move_piece b p start dest =
     (let cp = captured_square b p start dest;
          b1 = (case cp of None \<Rightarrow> b | Some q \<Rightarrow> set_piece b q None)
      in (set_piece (set_piece b1 start None) dest (Some (relocate p dest True)),
          \<lparr>mv_start_pos = start, mv_end_pos = dest, mv_piece = p,
           mv_captured_piece = (case cp of None \<Rightarrow> None | Some q \<Rightarrow> get_piece_at b q), mv_captured_pos = cp,
           mv_promotion = None, mv_promoted_piece = None, mv_is_castling = False, mv_is_en_passant = captures_en_passant b p start dest,
           mv_rook_from = None, mv_rook_to = None, mv_prev_en_passant_target = bd_en_passant_target b, mv_prev_has_moved = pc_has_moved p\<rparr>))"

definition move_rook :: "board \<Rightarrow> move \<Rightarrow> board \<times> (chess_error + move)" where
  "move_rook b m =
     (if is_castling_move (mv_piece m) (mv_start_pos m) (mv_end_pos m)
      then (let (rf, rt) = rook_squares (mv_start_pos m) (mv_end_pos m);
                rook = get_piece_at b rf;
                b1 = set_piece (set_piece b rf None) rt rook
            in (case rook of
                  None \<Rightarrow> (b1, Inl (Raised AttributeError))
                | Some k \<Rightarrow> (set_piece b1 rt (Some (relocate k rt True)), Inr (m\<lparr>mv_is_castling := True, mv_rook_from := Some rf, mv_rook_to := Some rt\<rparr>))))
      else (b, Inr m))"

definition promote_pawn :: "board \<Rightarrow> move \<Rightarrow> PieceType option \<Rightarrow> board \<times> (chess_error + move)" where
  "promote_pawn b m promotion =
     (let p = mv_piece m; dest = mv_end_pos m
      in if pc_type p = PAWN \<and> fst dest = last_row (pc_color p)
         then (let t = (case promotion of None \<Rightarrow> QUEEN | Some t \<Rightarrow> t)
               in if t \<notin> set PROMOTION_CHOICES then (b, Inl InvalidMoveError)
                  else (let q = \<lparr>pc_type = t, pc_color = pc_color p, pc_position = dest, pc_has_moved = True\<rparr>
                        in (set_piece b dest (Some q), Inr (m\<lparr>mv_promotion := Some t, mv_promoted_piece := Some q\<rparr>))))
         else (b, Inr m))"

definition next_en_passant :: "piece \<Rightarrow> square \<Rightarrow> square \<Rightarrow> square option" where
  "next_en_passant p start dest =
     (if pc_type p = PAWN \<and> \<bar>fst dest - fst start\<bar> = 2 then Some ((fst start + fst dest) div 2, snd start) else None)"

text \<open>A computation that may mutate the board and may raise.\<close>

type_synonym 'a on_grid = "board \<Rightarrow> board \<times> (chess_error + 'a)"

definition and_then :: "'a on_grid \<Rightarrow> ('a \<Rightarrow> 'b on_grid) \<Rightarrow> 'b on_grid" where
  "and_then f g b = (case f b of (b1, Inl e) \<Rightarrow> (b1, Inl e) | (b1, Inr x) \<Rightarrow> g x b1)"

definition apply_move :: "square \<Rightarrow> square \<Rightarrow> PieceType option \<Rightarrow> move on_grid" where
  "apply_move start dest promotion b =
     (case get_piece_at b start of
        None \<Rightarrow> (b, Inl InvalidMoveError)
      | Some p \<Rightarrow>
          and_then (\<lambda>b0. let (b1, m) = move_piece b0 p start dest in move_rook b1 m) (\<lambda>m.
          and_then (\<lambda>b1. promote_pawn b1 m promotion) (\<lambda>m1 b2.
            (b2\<lparr>bd_en_passant_target := next_en_passant p start dest\<rparr>, Inr m1))) b)"

definition undo_move :: "board \<Rightarrow> move \<Rightarrow> board" where
  "undo_move b m =
     (let b1 = set_piece (set_piece b (mv_end_pos m) None) (mv_start_pos m) (Some (relocate (mv_piece m) (mv_start_pos m) (mv_prev_has_moved m)));
          b2 = (case (mv_captured_piece m, mv_captured_pos m) of
                  (Some c, Some q) \<Rightarrow> set_piece b1 q (Some (c\<lparr>pc_position := q\<rparr>))
                | _ \<Rightarrow> b1);
          b3 = (case (mv_is_castling m, mv_rook_from m, mv_rook_to m) of
                  (True, Some rf, Some rt) \<Rightarrow>
                    (case get_piece_at b2 rt of
                       None \<Rightarrow> set_piece (set_piece b2 rt None) rf None
                     | Some k \<Rightarrow> set_piece (set_piece b2 rt None) rf (Some (relocate k rf False)))
                | _ \<Rightarrow> b2)
      in b3\<lparr>bd_en_passant_target := mv_prev_en_passant_target m\<rparr>)"

section \<open>Legality\<close>

text \<open>Make the move, look, unmake it.\<close>

definition try_move :: "square \<Rightarrow> square \<Rightarrow> Color \<Rightarrow> bool on_grid" where
  "try_move start dest col = and_then (apply_move start dest None) (\<lambda>m b1. (undo_move b1 m, Inr (\<not> is_in_check b1 col)))"

definition is_legal_move :: "piece \<Rightarrow> square \<Rightarrow> bool on_grid" where
  "is_legal_move p dest b =
     (if dest \<notin> set (get_possible_moves b p) then (b, Inr False) else try_move (pc_position p) dest (pc_color p) b)"

fun try_ends :: "square \<Rightarrow> square list \<Rightarrow> Color \<Rightarrow> (square \<times> square) list on_grid" where
  "try_ends start [] col b = (b, Inr [])"
| "try_ends start (e # es) col b =
     and_then (try_move start e col) (\<lambda>safe. and_then (try_ends start es col) (\<lambda>out b1. (b1, Inr (if safe then (start, e) # out else out)))) b"

fun try_pieces :: "piece list \<Rightarrow> Color \<Rightarrow> (square \<times> square) list on_grid" where
  "try_pieces [] col b = (b, Inr [])"
| "try_pieces (p # ps) col b =
     and_then (\<lambda>b0. try_ends (pc_position p) (get_possible_moves b0 p) col b0) (\<lambda>out.
     and_then (try_pieces ps col) (\<lambda>out2 b1. (b1, Inr (out @ out2)))) b"

definition legal_moves :: "Color \<Rightarrow> (square \<times> square) list on_grid" where
  "legal_moves col b = try_pieces (pieces_of b col) col b"

text \<open>\<open>has_legal_moves\<close> stops at the first one.\<close>

fun any_end :: "square \<Rightarrow> square list \<Rightarrow> Color \<Rightarrow> bool on_grid" where
  "any_end start [] col b = (b, Inr False)"
| "any_end start (e # es) col b =
     and_then (try_move start e col) (\<lambda>safe b1. if safe then (b1, Inr True) else any_end start es col b1) b"

fun any_piece :: "piece list \<Rightarrow> Color \<Rightarrow> bool on_grid" where
  "any_piece [] col b = (b, Inr False)"
| "any_piece (p # ps) col b =
     and_then (\<lambda>b0. any_end (pc_position p) (get_possible_moves b0 p) col b0) (\<lambda>found b1. if found then (b1, Inr True) else any_piece ps col b1) b"

definition has_legal_moves :: "Color \<Rightarrow> bool on_grid" where
  "has_legal_moves col b = any_piece (pieces_of b col) col b"

definition is_checkmate :: "Color \<Rightarrow> bool on_grid" where
  "is_checkmate col b = (if \<not> is_in_check b col then (b, Inr False) else and_then (has_legal_moves col) (\<lambda>h b1. (b1, Inr (\<not> h))) b)"

definition is_stalemate :: "Color \<Rightarrow> bool on_grid" where
  "is_stalemate col b = (if is_in_check b col then (b, Inr False) else and_then (has_legal_moves col) (\<lambda>h b1. (b1, Inr (\<not> h))) b)"

definition has_insufficient_material :: "board \<Rightarrow> bool" where
  "has_insufficient_material b =
     (let others = filter (\<lambda>p. pc_type p \<noteq> KING) (pieces b)
      in if others = [] then True
         else if length others = 1 \<and> pc_type (hd others) \<in> {BISHOP, KNIGHT} then True
         else if list_all (\<lambda>p. pc_type p = BISHOP) others
              then length (remdups (map (\<lambda>p. (fst (pc_position p) + snd (pc_position p)) mod 2) others)) = 1
         else False)"

type_synonym position_key = "(PieceType \<times> Color) option list \<times> Color \<times> (Color \<times> int) list \<times> square option"

definition castling_rights :: "board \<Rightarrow> Color \<Rightarrow> int \<Rightarrow> (Color \<times> int) list" where
  "castling_rights b col r =
     (case get_piece_at b (r, 4) of
        Some k \<Rightarrow>
          if pc_type k = KING \<and> pc_color k = col \<and> \<not> pc_has_moved k
          then map (\<lambda>rc. (col, rc)) (filter (\<lambda>rc. case get_piece_at b (r, rc) of
                 Some rook \<Rightarrow> pc_type rook = ROOK \<and> pc_color rook = col \<and> \<not> pc_has_moved rook | None \<Rightarrow> False) [7, 0])
          else []
      | None \<Rightarrow> [])"

definition position_key :: "board \<Rightarrow> Color \<Rightarrow> position_key" where
  "position_key b side =
     (map (map_option (\<lambda>p. (pc_type p, pc_color p))) (concat (bd_grid b)), side,
      castling_rights b WHITE 7 @ castling_rights b BLACK 0,
      (case bd_en_passant_target b of
         None \<Rightarrow> None
       | Some t \<Rightarrow> if list_ex (\<lambda>p. pc_type p = PAWN \<and> t \<in> set (get_possible_moves b p)) (pieces_of b side) then Some t else None))"

section \<open>The game\<close>

record snapshot =
  sn_move :: move
  sn_status :: GameStatus
  sn_halfmove_clock :: int
  sn_position_key :: position_key

text \<open>The players are known by their colour; names are left out.\<close>

record game =
  gm_board :: board
  gm_to_move :: Color
  gm_status :: GameStatus
  gm_winner :: "Color option"
  gm_history :: "snapshot list"
  gm_halfmove_clock :: int
  gm_positions :: "(position_key \<times> int) list"

text \<open>\<open>Counter\<close>: a missing key counts zero; \<open>undo\<close> deletes a key whose count reaches zero.\<close>

definition counter_get :: "('k \<times> int) list \<Rightarrow> 'k \<Rightarrow> int" where
  "counter_get c k = (case map_of c k of None \<Rightarrow> 0 | Some n \<Rightarrow> n)"

definition counter_add :: "('k \<times> int) list \<Rightarrow> 'k \<Rightarrow> int \<Rightarrow> ('k \<times> int) list" where
  "counter_add c k n = AList.update k (counter_get c k + n) c"

definition lift_grid :: "'a on_grid \<Rightarrow> game \<Rightarrow> game \<times> (chess_error + 'a)" where
  "lift_grid f g = (case f (gm_board g) of (b, r) \<Rightarrow> (g\<lparr>gm_board := b\<rparr>, r))"

definition refresh_status :: "game \<Rightarrow> game \<times> (chess_error + unit)" where
  "refresh_status g =
     (let side = gm_to_move g
      in (case lift_grid (is_checkmate side) g of
            (g1, Inl e) \<Rightarrow> (g1, Inl e)
          | (g1, Inr True) \<Rightarrow> (g1\<lparr>gm_status := CHECKMATE, gm_winner := Some (opponent side)\<rparr>, Inr ())
          | (g1, Inr False) \<Rightarrow>
              (case lift_grid (is_stalemate side) g1 of
                 (g2, Inl e) \<Rightarrow> (g2, Inl e)
               | (g2, Inr True) \<Rightarrow> (g2\<lparr>gm_status := STALEMATE\<rparr>, Inr ())
               | (g2, Inr False) \<Rightarrow>
                   (if has_insufficient_material (gm_board g2) \<or> gm_halfmove_clock g2 \<ge> 150
                       \<or> counter_get (gm_positions g2) (position_key (gm_board g2) side) \<ge> 5
                    then (g2\<lparr>gm_status := DRAW\<rparr>, Inr ())
                    else if is_in_check (gm_board g2) side then (g2\<lparr>gm_status := CHECK\<rparr>, Inr ())
                    else (g2\<lparr>gm_status := ACTIVE\<rparr>, Inr ())))))"

definition new_game :: "board \<Rightarrow> Color \<Rightarrow> game \<times> (chess_error + unit)" where
  "new_game b to_move =
     refresh_status \<lparr>gm_board = b, gm_to_move = to_move, gm_status = ACTIVE, gm_winner = None, gm_history = [], gm_halfmove_clock = 0,
       gm_positions = [(position_key b to_move, 1)]\<rparr>"

definition validate :: "Color \<Rightarrow> square \<Rightarrow> square \<Rightarrow> piece on_grid" where
  "validate player start dest b =
     (case get_piece_at b start of
        None \<Rightarrow> (b, Inl InvalidMoveError)
      | Some p \<Rightarrow>
          if pc_color p \<noteq> player then (b, Inl InvalidMoveError)
          else if dest \<notin> set (get_possible_moves b p) then (b, Inl InvalidMoveError)
          else and_then (is_legal_move p dest) (\<lambda>legal b1. (b1, if legal then Inr p else Inl InvalidMoveError)) b)"

datatype square_like = Name string | Pos square

fun sq :: "square_like \<Rightarrow> chess_error + square" where
  "sq (Name s) = square_of s"
| "sq (Pos p) = (if on_board p then Inr p else Inl InvalidMoveError)"

text \<open>\<open>make_move\<close> after its arguments are read and checked.\<close>

definition play_move :: "game \<Rightarrow> piece \<Rightarrow> square \<Rightarrow> square \<Rightarrow> PieceType option \<Rightarrow> game \<times> (chess_error + move)" where
  "play_move g p start dest promotion =
     (case lift_grid (apply_move start dest promotion) g of
        (g1, Inl e) \<Rightarrow> (g1, Inl e)
      | (g1, Inr m) \<Rightarrow>
          (let resets = pc_type p = PAWN \<or> mv_captured_piece m \<noteq> None;
               g2 = g1\<lparr>gm_halfmove_clock := (if resets then 0 else gm_halfmove_clock g1 + 1), gm_to_move := opponent (gm_to_move g1)\<rparr>;
               key = position_key (gm_board g2) (gm_to_move g2);
               g3 = g2\<lparr>gm_positions := counter_add (gm_positions g2) key 1,
                       gm_history := gm_history g2 @ [\<lparr>sn_move = m, sn_status = gm_status g, sn_halfmove_clock = gm_halfmove_clock g, sn_position_key = key\<rparr>]\<rparr>
           in (case refresh_status g3 of
                 (g4, Inl e) \<Rightarrow> (g4, Inl e)
               | (g4, Inr u) \<Rightarrow> (g4, Inr m))))"

definition make_move :: "game \<Rightarrow> square_like \<Rightarrow> square_like \<Rightarrow> PieceType option \<Rightarrow> int option \<Rightarrow> game \<times> (chess_error + move)" where
  "make_move g start0 dest0 promotion expected_ply =
     (case (sq start0, sq dest0) of
        (Inl e, _) \<Rightarrow> (g, Inl e)
      | (_, Inl e) \<Rightarrow> (g, Inl e)
      | (Inr start, Inr dest) \<Rightarrow>
          if is_over (gm_status g) then (g, Inl GameOverError)
          else if expected_ply \<noteq> None \<and> expected_ply \<noteq> Some (int (length (gm_history g))) then (g, Inl StaleMoveError)
          else if promotion \<noteq> None \<and> the promotion \<notin> set PROMOTION_CHOICES then (g, Inl InvalidMoveError)
          else (case lift_grid (validate (gm_to_move g) start dest) g of
                  (g1, Inl e) \<Rightarrow> (g1, Inl e)
                | (g1, Inr p) \<Rightarrow> play_move g1 p start dest promotion))"

definition undo_last_move :: "game \<Rightarrow> game \<times> (chess_error + move)" where
  "undo_last_move g =
     (if gm_history g = [] then (g, Inl ChessError)
      else (let snap = last (gm_history g);
                c1 = counter_add (gm_positions g) (sn_position_key snap) (- 1);
                c2 = (if counter_get c1 (sn_position_key snap) = 0 then AList.delete (sn_position_key snap) c1 else c1)
            in (g\<lparr>gm_history := butlast (gm_history g), gm_positions := c2, gm_board := undo_move (gm_board g) (sn_move snap),
                  gm_to_move := opponent (gm_to_move g), gm_halfmove_clock := sn_halfmove_clock snap, gm_status := sn_status snap, gm_winner := None\<rparr>,
                Inr (sn_move snap))))"

definition resign :: "game \<Rightarrow> Color \<Rightarrow> game \<times> (chess_error + unit)" where
  "resign g col =
     (if is_over (gm_status g) then (g, Inl GameOverError) else (g\<lparr>gm_status := RESIGNED, gm_winner := Some (opponent col)\<rparr>, Inr ()))"

definition can_claim_draw :: "game \<Rightarrow> bool" where
  "can_claim_draw g \<longleftrightarrow> counter_get (gm_positions g) (position_key (gm_board g) (gm_to_move g)) \<ge> 3 \<or> gm_halfmove_clock g \<ge> 100"

definition claim_draw :: "game \<Rightarrow> game \<times> (chess_error + unit)" where
  "claim_draw g =
     (if is_over (gm_status g) then (g, Inl GameOverError)
      else if \<not> can_claim_draw g then (g, Inl ChessError)
      else (g\<lparr>gm_status := DRAW\<rparr>, Inr ()))"

subsection \<open>The calls\<close>

datatype chess_op = MakeMove square_like square_like "PieceType option" "int option" | Undo | Resign Color | ClaimDraw

fun chess_step :: "game \<Rightarrow> chess_op \<Rightarrow> game \<times> chess_error option" where
  "chess_step g (MakeMove s e pr n) = (case make_move g s e pr n of (g1, Inl x) \<Rightarrow> (g1, Some x) | (g1, Inr m) \<Rightarrow> (g1, None))"
| "chess_step g Undo = (case undo_last_move g of (g1, Inl x) \<Rightarrow> (g1, Some x) | (g1, Inr m) \<Rightarrow> (g1, None))"
| "chess_step g (Resign c) = (case resign g c of (g1, Inl x) \<Rightarrow> (g1, Some x) | (g1, Inr u) \<Rightarrow> (g1, None))"
| "chess_step g ClaimDraw = (case claim_draw g of (g1, Inl x) \<Rightarrow> (g1, Some x) | (g1, Inr u) \<Rightarrow> (g1, None))"

end
