(* ===== verification/Chess_Board.thy ===== *)
theory Chess_Board
  imports Chess
begin

text \<open>
  The board of \<open>Chess\<close>: cells, what pseudo-legal moves look like, and that \<open>undo_move\<close> is an exact inverse of
  \<open>apply_move\<close>, so that testing moves by making and unmaking them leaves the board as it was.
\<close>

declare split_paired_All [simp del] split_paired_Ex [simp del]

section \<open>Cells\<close>

definition shaped :: "board \<Rightarrow> bool" where
  "shaped b \<longleftrightarrow> length (bd_grid b) = 8 \<and> (\<forall>row \<in> set (bd_grid b). length row = 8)"

lemma shaped_set [simp]: "shaped b \<Longrightarrow> on_board p \<Longrightarrow> shaped (set_piece b p x)"
  by (auto simp: shaped_def set_piece_def on_board_def dest!: subsetD [OF set_update_subset_insert])

lemma set_piece_target [simp]: "bd_en_passant_target (set_piece b p x) = bd_en_passant_target b"
  by (simp add: set_piece_def)

lemma get_set [simp]:
  "shaped b \<Longrightarrow> on_board p \<Longrightarrow> get_piece_at (set_piece b p x) q = (if q = p then x else get_piece_at b q)"
  by (cases p; cases q) (auto simp: get_piece_at_def set_piece_def shaped_def on_board_def nth_list_update eq_nat_nat_iff)

lemma get_target [simp]: "get_piece_at (b\<lparr>bd_en_passant_target := t\<rparr>) = get_piece_at b" "shaped (b\<lparr>bd_en_passant_target := t\<rparr>) = shaped b"
  by (simp_all add: get_piece_at_def shaped_def fun_eq_iff)

lemma get_on_board: "get_piece_at b q = Some p \<Longrightarrow> on_board q"
  by (simp add: get_piece_at_def split: if_splits)

lemma board_eqI:
  assumes "shaped b" "shaped c" "bd_en_passant_target b = bd_en_passant_target c" "\<And>q. on_board q \<Longrightarrow> get_piece_at b q = get_piece_at c q"
  shows "b = c"
proof -
  have "bd_grid b ! i ! j = bd_grid c ! i ! j" if "i < 8" "j < 8" for i j
    using assms(4) [of "(int i, int j)"] that by (simp add: get_piece_at_def on_board_def)
  then have "bd_grid b = bd_grid c"
    using assms(1,2) unfolding shaped_def by (intro nth_equalityI) (auto intro!: nth_equalityI)
  then show ?thesis using assms(3) by (cases b; cases c) simp
qed

lemma in_pieces:
  assumes "shaped b"
  shows "p \<in> set (pieces b) \<longleftrightarrow> (\<exists>q. get_piece_at b q = Some p)"
proof
  assume "p \<in> set (pieces b)"
  then obtain row where row: "row \<in> set (bd_grid b)" "Some p \<in> set row" by (auto simp: pieces_def map_filter_def)
  then obtain i j where ij: "i < length (bd_grid b)" "bd_grid b ! i = row" "j < length row" "row ! j = Some p" by (meson in_set_conv_nth)
  then have "i < 8" "j < 8" using assms row by (auto simp: shaped_def)
  then show "\<exists>q. get_piece_at b q = Some p" using ij by (intro exI [of _ "(int i, int j)"]) (simp add: get_piece_at_def on_board_def)
next
  assume "\<exists>q. get_piece_at b q = Some p"
  then obtain q where q: "get_piece_at b q = Some p" by blast
  then have o: "on_board q" by (rule get_on_board)
  have r: "bd_grid b ! nat (fst q) \<in> set (bd_grid b)" using assms o by (intro nth_mem) (auto simp: shaped_def on_board_def)
  then have "Some p \<in> set (bd_grid b ! nat (fst q))"
    using assms o q nth_mem [of "nat (snd q)" "bd_grid b ! nat (fst q)"] by (auto simp: shaped_def on_board_def get_piece_at_def)
  then show "p \<in> set (pieces b)" using r by (force simp: pieces_def map_filter_def)
qed

text \<open>Every piece knows its square, a king that has not moved stands on the e-file, and the en-passant target is empty.\<close>

definition board_ok :: "board \<Rightarrow> bool" where
  "board_ok b \<longleftrightarrow> shaped b \<and> (\<forall>q p. get_piece_at b q = Some p \<longrightarrow> pc_position p = q \<and> (pc_type p = KING \<and> \<not> pc_has_moved p \<longrightarrow> snd q = 4))
     \<and> (\<forall>t. bd_en_passant_target b = Some t \<longrightarrow> get_piece_at b t = None)"

lemma board_okD:
  assumes "board_ok b"
  shows "shaped b" "get_piece_at b q = Some p \<Longrightarrow> pc_position p = q" "get_piece_at b q = Some p \<Longrightarrow> pc_type p = KING \<Longrightarrow> \<not> pc_has_moved p \<Longrightarrow> snd q = 4"
    "bd_en_passant_target b = Some t \<Longrightarrow> get_piece_at b t = None"
  using assms by (auto simp: board_ok_def)

lemma in_pieces_of: "board_ok b \<Longrightarrow> p \<in> set (pieces_of b col) \<longleftrightarrow> get_piece_at b (pc_position p) = Some p \<and> pc_color p = col"
  using in_pieces [of b p] by (auto simp: pieces_of_def board_ok_def)

section \<open>Pseudo-legal moves\<close>

text \<open>A square that a piece of the colour may land on.\<close>

definition landing :: "board \<Rightarrow> Color \<Rightarrow> square \<Rightarrow> bool" where
  "landing b col q \<longleftrightarrow> on_board q \<and> (case get_piece_at b q of None \<Rightarrow> True | Some t \<Rightarrow> pc_color t \<noteq> col)"

lemma slide_landing: "q \<in> set (slide b col d n p) \<Longrightarrow> landing b col q"
  by (induction n arbitrary: p) (auto simp: landing_def split: if_splits option.splits)

lemma slides_landing: "q \<in> set (slides b p ds) \<Longrightarrow> landing b (pc_color p) q"
  by (auto simp: slides_def dest: slide_landing)

lemma in_steps: "q \<in> set (steps b p ds) \<longleftrightarrow> landing b (pc_color p) q \<and> (\<exists>d \<in> set ds. q = (fst (pc_position p) + fst d, snd (pc_position p) + snd d))"
  by (auto simp: steps_def landing_def)

lemma attacks_landing: "pc_type p \<noteq> PAWN \<Longrightarrow> q \<in> set (attacks b p) \<Longrightarrow> landing b (pc_color p) q"
  unfolding attacks_def by (cases "pc_type p") (auto dest: slides_landing simp: in_steps)

lemma king_attack_near:
  assumes "pc_type p = KING" "q \<in> set (attacks b p)"
  shows "\<bar>snd q - snd (pc_position p)\<bar> \<le> 1"
proof -
  have near: "\<forall>d \<in> set (ORTHOGONAL @ DIAGONAL). \<bar>snd d\<bar> \<le> 1" by (simp add: ORTHOGONAL_def DIAGONAL_def)
  obtain d where "d \<in> set (ORTHOGONAL @ DIAGONAL)" "q = (fst (pc_position p) + fst d, snd (pc_position p) + snd d)"
    using assms by (simp only: attacks_def in_steps PieceType.case) blast
  then show ?thesis using near by simp
qed

text \<open>What castling needs: an own rook on its square, empty squares in between.\<close>

definition castling_ok :: "board \<Rightarrow> piece \<Rightarrow> square \<Rightarrow> square \<Rightarrow> bool" where
  "castling_ok b k s q \<longleftrightarrow> \<not> pc_has_moved k \<and> get_piece_at b q = None
     \<and> (\<exists>rook. get_piece_at b (fst (rook_squares s q)) = Some rook \<and> pc_type rook = ROOK \<and> pc_color rook = pc_color k \<and> \<not> pc_has_moved rook)
     \<and> get_piece_at b (snd (rook_squares s q)) = None \<and> q \<noteq> fst (rook_squares s q) \<and> q \<noteq> snd (rook_squares s q)
     \<and> s \<noteq> fst (rook_squares s q) \<and> s \<noteq> snd (rook_squares s q) \<and> on_board (snd (rook_squares s q)) \<and> on_board (fst (rook_squares s q)) \<and> on_board q"

lemma castle_cases:
  assumes ok: "board_ok b" and p: "get_piece_at b s = Some p" "pc_type p = KING" and q: "q \<in> set (king_moves b p)" and c: "is_castling_move p s q"
  obtains "\<not> pc_has_moved p" "\<not> is_in_check b (pc_color p)" "snd s = 4" "can_castle b p 7 [5, 6] [5, 6]" "q = (fst s, 6)"
  | "\<not> pc_has_moved p" "\<not> is_in_check b (pc_color p)" "snd s = 4" "can_castle b p 0 [1, 2, 3] [3, 2]" "q = (fst s, 2)"
proof -
  have pos: "pc_position p = s" using board_okD(2) [OF ok p(1)] .
  have far: "\<bar>snd q - snd s\<bar> = 2" using c by (simp add: is_castling_move_def)
  then have "q \<notin> set (attacks b p)" using king_attack_near [OF p(2), of q b] pos by auto
  then have m: "\<not> pc_has_moved p" "\<not> is_in_check b (pc_color p)"
    "can_castle b p 7 [5, 6] [5, 6] \<and> q = (fst s, snd s + 2) \<or> can_castle b p 0 [1, 2, 3] [3, 2] \<and> q = (fst s, snd s - 2)"
    using q pos by (auto simp: king_moves_def Let_def split: if_splits)
  have "snd s = 4" by (rule board_okD(3) [OF ok p m(1)])
  then show thesis using m that by auto
qed

lemma king_castles:
  assumes ok: "board_ok b" and p: "get_piece_at b s = Some p" "pc_type p = KING" and q: "q \<in> set (king_moves b p)" and c: "is_castling_move p s q"
  shows "castling_ok b p s q"
proof -
  have pos: "pc_position p = s" "on_board s" using board_okD(2) [OF ok p(1)] get_on_board [OF p(1)] by simp_all
  show ?thesis
  proof (rule castle_cases [OF ok p q c])
    assume a: "\<not> pc_has_moved p" "snd s = 4" "can_castle b p 7 [5, 6] [5, 6]" "q = (fst s, 6)"
    then have "rook_squares s q = ((fst s, 7), (fst s, 5))" by (simp add: rook_squares_def)
    then show ?thesis using a pos by (cases s) (auto simp: castling_ok_def can_castle_def on_board_def Let_def split: option.splits)
  next
    assume a: "\<not> pc_has_moved p" "snd s = 4" "can_castle b p 0 [1, 2, 3] [3, 2]" "q = (fst s, 2)"
    then have "rook_squares s q = ((fst s, 0), (fst s, 3))" by (simp add: rook_squares_def)
    then show ?thesis using a pos by (cases s) (auto simp: castling_ok_def can_castle_def on_board_def Let_def split: option.splits)
  qed
qed

lemma king_moves_landing:
  assumes ok: "board_ok b" and p: "get_piece_at b s = Some p" "pc_type p = KING" and q: "q \<in> set (king_moves b p)"
  shows "landing b (pc_color p) q"
proof (cases "is_castling_move p s q")
  case True
  then show ?thesis using king_castles [OF ok p q] by (simp add: castling_ok_def landing_def)
next
  case False
  have pos: "pc_position p = s" by (rule board_okD(2) [OF ok p(1)])
  then have "q \<in> set (attacks b p)" using q False p(2) by (auto simp: king_moves_def Let_def is_castling_move_def split: if_splits)
  then show ?thesis using attacks_landing p(2) by simp
qed

lemma pawn_move_cases:
  assumes ok: "board_ok b" and p: "get_piece_at b s = Some p" "pc_type p = PAWN" and q: "q \<in> set (pawn_moves b p)"
  shows "landing b (pc_color p) q"
    "captures_en_passant b p s q \<Longrightarrow> \<exists>v. get_piece_at b (fst s, snd q) = Some v \<and> pc_type v = PAWN \<and> pc_color v \<noteq> pc_color p \<and> fst q \<noteq> fst s"
    "\<bar>fst q - fst s\<bar> = 2 \<Longrightarrow> get_piece_at b ((fst s + fst q) div 2, snd s) = None \<and> q \<noteq> ((fst s + fst q) div 2, snd s) \<and> s \<noteq> ((fst s + fst q) div 2, snd s)"
proof -
  have pos: "pc_position p = s" and o: "on_board s" using board_okD(2) [OF ok p(1)] get_on_board [OF p(1)] by simp_all
  define d where "d = direction (pc_color p)"
  have d: "d = 1 \<or> d = -1" by (simp add: d_def direction_def)
  consider (one) "q = (fst s + d, snd s)" "on_board q" "get_piece_at b q = None"
    | (two) "q = (fst s + d + d, snd s)" "get_piece_at b q = None" "get_piece_at b (fst s + d, snd s) = None" "fst s = (if pc_color p = WHITE then 6 else 1)"
    | (diag) "fst q = fst s + d" "snd q \<noteq> snd s" "on_board q" "pawn_captures b p q"
    using q pos p(2) by (auto simp: pawn_moves_def Let_def d_def attacks_def split: if_splits)
  note c = this
  show "landing b (pc_color p) q" using c
  proof cases
    case one then show ?thesis by (simp add: landing_def)
  next
    case two
    then have "on_board q" using o by (auto simp: on_board_def d_def direction_def split: if_splits)
    then show ?thesis using two by (simp add: landing_def)
  next
    case diag
    then show ?thesis using board_okD(4) [OF ok, of q] by (auto simp: landing_def pawn_captures_def split: option.splits)
  qed
  show "\<exists>v. get_piece_at b (fst s, snd q) = Some v \<and> pc_type v = PAWN \<and> pc_color v \<noteq> pc_color p \<and> fst q \<noteq> fst s" if e: "captures_en_passant b p s q"
    using c
  proof cases
    case diag
    then show ?thesis using e d pos by (auto simp: captures_en_passant_def pawn_captures_def split: option.splits)
  qed (use e in \<open>simp_all add: captures_en_passant_def\<close>)
  show "get_piece_at b ((fst s + fst q) div 2, snd s) = None \<and> q \<noteq> ((fst s + fst q) div 2, snd s) \<and> s \<noteq> ((fst s + fst q) div 2, snd s)" if t: "\<bar>fst q - fst s\<bar> = 2"
    using c
  proof cases
    case two
    have m: "(fst s + fst q) div 2 = fst s + d" using two(1) by simp
    show ?thesis unfolding m using two d by (cases s) auto
  qed (use t d in auto)
qed

lemma other_moves_landing: "pc_type p \<noteq> KING \<Longrightarrow> pc_type p \<noteq> PAWN \<Longrightarrow> q \<in> set (get_possible_moves b p) \<Longrightarrow> landing b (pc_color p) q"
  using attacks_landing [of p q b] by (cases "pc_type p") (simp_all add: get_possible_moves_def)

lemma moves_landing:
  assumes ok: "board_ok b" and p: "get_piece_at b s = Some p" and q: "q \<in> set (get_possible_moves b p)"
  shows "landing b (pc_color p) q" "q \<noteq> s" "on_board q"
proof -
  show l: "landing b (pc_color p) q"
    using king_moves_landing [OF ok p] pawn_move_cases(1) [OF ok p] other_moves_landing [of p q b] q
    by (cases "pc_type p") (simp_all add: get_possible_moves_def)
  then show "q \<noteq> s" "on_board q" using p by (auto simp: landing_def)
qed

section \<open>Making a move\<close>

definition landed :: "piece \<Rightarrow> square \<Rightarrow> PieceType option \<Rightarrow> piece" where
  "landed p q promotion =
     (if pc_type p = PAWN \<and> fst q = last_row (pc_color p)
      then \<lparr>pc_type = (case promotion of None \<Rightarrow> QUEEN | Some t \<Rightarrow> t), pc_color = pc_color p, pc_position = q, pc_has_moved = True\<rparr>
      else relocate p q True)"

text \<open>The cells after a pseudo-legal move.\<close>

definition cells_after :: "board \<Rightarrow> piece \<Rightarrow> square \<Rightarrow> square \<Rightarrow> PieceType option \<Rightarrow> square \<Rightarrow> piece option" where
  "cells_after b p s q promotion x =
     (if x = q then Some (landed p q promotion)
      else if x = s \<or> captured_square b p s q = Some x then None
      else if is_castling_move p s q \<and> x = fst (rook_squares s q) then None
      else if is_castling_move p s q \<and> x = snd (rook_squares s q)
           then map_option (\<lambda>k. relocate k x True) (get_piece_at b (fst (rook_squares s q)))
      else get_piece_at b x)"

definition choice_ok :: "PieceType option \<Rightarrow> bool" where
  "choice_ok promotion \<longleftrightarrow> (case promotion of None \<Rightarrow> True | Some t \<Rightarrow> t \<in> set PROMOTION_CHOICES)"

lemma captured_facts:
  assumes ok: "board_ok b" and p: "get_piece_at b s = Some p" and q: "q \<in> set (get_possible_moves b p)" and c: "captured_square b p s q = Some x"
  shows "\<exists>v. get_piece_at b x = Some v \<and> pc_color v \<noteq> pc_color p" "x \<noteq> s" "on_board x" "x \<noteq> q \<Longrightarrow> get_piece_at b q = None"
    "\<not> is_castling_move p s q"
proof -
  show v: "\<exists>v. get_piece_at b x = Some v \<and> pc_color v \<noteq> pc_color p"
  proof (cases "captures_en_passant b p s q")
    case True
    then have "pc_type p = PAWN" by (simp add: captures_en_passant_def)
    then show ?thesis using pawn_move_cases(2) [OF ok p, of q] q c True by (auto simp: get_possible_moves_def captured_square_def)
  next
    case False
    then show ?thesis using c moves_landing(1) [OF ok p q] by (auto simp: captured_square_def landing_def split: if_splits option.splits)
  qed
  then show "x \<noteq> s" "on_board x" using p get_on_board [of b x] by auto
  show "x \<noteq> q \<Longrightarrow> get_piece_at b q = None" using c by (auto simp: captured_square_def captures_en_passant_def split: if_splits)
  show "\<not> is_castling_move p s q"
  proof
    assume a: "is_castling_move p s q"
    then have k: "pc_type p = KING" by (simp add: is_castling_move_def)
    then have "castling_ok b p s q" using king_castles [OF ok p k _ a] q by (simp add: get_possible_moves_def)
    then show False using c k by (simp add: castling_ok_def captured_square_def captures_en_passant_def)
  qed
qed

lemma landed_simps: "choice_ok promotion \<Longrightarrow> pc_type (landed p q promotion) = KING \<longleftrightarrow> pc_type p = KING" "pc_color (landed p q promotion) = pc_color p"
  "pc_position (landed p q promotion) = q" "pc_has_moved (landed p q promotion)"
  by (auto simp: landed_def relocate_def choice_ok_def PROMOTION_CHOICES_def split: option.splits)

lemma undo_target [simp]: "bd_en_passant_target (undo_move b m) = mv_prev_en_passant_target m"
  by (simp add: undo_move_def Let_def)

text \<open>What \<open>move_piece\<close> leaves: the piece on its new square, its old square and the captured square empty, and a record of it all.\<close>

definition moved :: "board \<Rightarrow> piece \<Rightarrow> square \<Rightarrow> square \<Rightarrow> board \<Rightarrow> move \<Rightarrow> bool" where
  "moved b p s q b2 m \<longleftrightarrow> shaped b2 \<and> bd_en_passant_target b2 = bd_en_passant_target b
     \<and> (\<forall>x. get_piece_at b2 x = (if x = q then Some (relocate p q True) else if x = s \<or> captured_square b p s q = Some x then None else get_piece_at b x))
     \<and> mv_start_pos m = s \<and> mv_end_pos m = q \<and> mv_piece m = p \<and> mv_captured_pos m = captured_square b p s q
     \<and> mv_captured_piece m = (case captured_square b p s q of None \<Rightarrow> None | Some x \<Rightarrow> get_piece_at b x)
     \<and> \<not> mv_is_castling m \<and> mv_prev_en_passant_target m = bd_en_passant_target b \<and> mv_prev_has_moved m = pc_has_moved p"

lemma movedD:
  assumes "moved b p s q b2 m"
  shows "shaped b2" "bd_en_passant_target b2 = bd_en_passant_target b"
    "get_piece_at b2 x = (if x = q then Some (relocate p q True) else if x = s \<or> captured_square b p s q = Some x then None else get_piece_at b x)"
    "mv_start_pos m = s" "mv_end_pos m = q" "mv_piece m = p" "mv_captured_pos m = captured_square b p s q"
    "mv_captured_piece m = (case captured_square b p s q of None \<Rightarrow> None | Some x \<Rightarrow> get_piece_at b x)"
    "\<not> mv_is_castling m" "mv_prev_en_passant_target m = bd_en_passant_target b" "mv_prev_has_moved m = pc_has_moved p"
  using assms by (simp_all add: moved_def)

lemma move_piece_moved:
  assumes ok: "board_ok b" and p: "get_piece_at b s = Some p" and q: "q \<in> set (get_possible_moves b p)" and mp: "move_piece b p s q = (b2, m)"
  shows "moved b p s q b2 m"
proof -
  have o: "on_board s" "on_board q" using get_on_board [OF p] moves_landing(3) [OF ok p q] by simp_all
  have "on_board x" if "captured_square b p s q = Some x" for x by (rule captured_facts(3) [OF ok p q that])
  then have "shaped (case captured_square b p s q of None \<Rightarrow> b | Some x \<Rightarrow> set_piece b x None)"
    "get_piece_at (case captured_square b p s q of None \<Rightarrow> b | Some x \<Rightarrow> set_piece b x None) y
       = (if captured_square b p s q = Some y then None else get_piece_at b y)"
    "bd_en_passant_target (case captured_square b p s q of None \<Rightarrow> b | Some x \<Rightarrow> set_piece b x None) = bd_en_passant_target b" for y
    using board_okD(1) [OF ok] by (auto split: option.splits)
  then show ?thesis using mp o by (auto simp: moved_def move_piece_def Let_def)
qed

text \<open>A position record kept by the move is the piece as it stood.\<close>

lemma piece_restored:
  assumes "board_ok b" "get_piece_at b x = Some c"
  shows "relocate c x (pc_has_moved c) = c" "c\<lparr>pc_position := x\<rparr> = c" "\<not> pc_has_moved c \<Longrightarrow> relocate (relocate c y True) x False = c"
  using board_okD(2) [OF assms] by (cases c; simp add: relocate_def)+

lemma apply_castling:
  assumes ok: "board_ok b" and p: "get_piece_at b s = Some p" and q: "q \<in> set (get_possible_moves b p)" and cas: "is_castling_move p s q" and mv: "moved b p s q b2 m"
  obtains b3 m1 where "move_rook b2 m = (b3, Inr m1)" "promote_pawn b3 m1 promotion = (b3, Inr m1)" "shaped b3" "get_piece_at b3 = cells_after b p s q promotion"
    "\<And>t. undo_move (b3\<lparr>bd_en_passant_target := t\<rparr>) m1 = b" "mv_captured_piece m1 = mv_captured_piece m"
proof -
  note mv = movedD [OF mv]
  have k: "pc_type p = KING" using cas by (simp add: is_castling_move_def)
  have o: "on_board s" "on_board q" using get_on_board [OF p] moves_landing(3) [OF ok p q] by simp_all
  have co: "castling_ok b p s q" using king_castles [OF ok p k _ cas] q k by (simp add: get_possible_moves_def)
  then have qn: "get_piece_at b q = None" by (simp add: castling_ok_def)
  have cn: "captured_square b p s q = None" using captured_facts(5) [OF ok p q] cas by (cases "captured_square b p s q") auto
  obtain rf rt where rk: "rook_squares s q = (rf, rt)" by fastforce
  obtain rook where r: "get_piece_at b rf = Some rook" "\<not> pc_has_moved rook" "get_piece_at b rt = None" "q \<noteq> rf" "q \<noteq> rt" "s \<noteq> rf" "s \<noteq> rt" "on_board rf" "on_board rt"
    using co rk by (auto simp: castling_ok_def)
  have frt: "rf \<noteq> rt" using r by auto
  define b3 where "b3 = set_piece (set_piece (set_piece b2 rf None) rt (Some rook)) rt (Some (relocate rook rt True))"
  define m1 where "m1 = m\<lparr>mv_is_castling := True, mv_rook_from := Some rf, mv_rook_to := Some rt\<rparr>"
  have b3: "shaped b3" "get_piece_at b3 x = cells_after b p s q promotion x" for x
    using mv r cn frt k cas by (auto simp: b3_def cells_after_def rk landed_def)
  have c1: "get_piece_at b3 rt = Some (relocate rook rt True)" using b3(2) r frt cn cas by (auto simp: cells_after_def rk)
  have und: "undo_move (b3\<lparr>bd_en_passant_target := t\<rparr>) m1 = b" for t
  proof (rule board_eqI)
    show "shaped (undo_move (b3\<lparr>bd_en_passant_target := t\<rparr>) m1)"
      using b3(1) o r by (simp add: undo_move_def m1_def mv cn Let_def split: option.split)
    show "get_piece_at (undo_move (b3\<lparr>bd_en_passant_target := t\<rparr>) m1) x = get_piece_at b x" for x
      using b3(1) o r frt c1 p qn piece_restored [OF ok p] piece_restored(3) [OF ok r(1,2)]
      by (simp add: undo_move_def m1_def mv cn Let_def) (simp add: b3(2) cells_after_def rk cn)
  qed (simp_all add: m1_def mv board_okD(1) [OF ok])
  have "get_piece_at b2 rf = Some rook" using mv(3) r cn by auto
  then have "move_rook b2 m = (b3, Inr m1)" using cas rk by (simp add: move_rook_def mv b3_def m1_def)
  moreover have "promote_pawn b3 m1 promotion = (b3, Inr m1)" using k by (simp add: promote_pawn_def m1_def mv Let_def)
  ultimately show thesis using that [OF _ _ b3(1) _ und] b3(2) by (simp add: m1_def fun_eq_iff)
qed

lemma apply_plain:
  assumes ok: "board_ok b" and p: "get_piece_at b s = Some p" and q: "q \<in> set (get_possible_moves b p)" and ch: "choice_ok promotion"
    and cas: "\<not> is_castling_move p s q" and mv: "moved b p s q b2 m"
  obtains b3 m1 where "promote_pawn b2 m promotion = (b3, Inr m1)" "shaped b3" "get_piece_at b3 = cells_after b p s q promotion"
    "mv_start_pos m1 = s" "mv_end_pos m1 = q" "mv_piece m1 = p" "mv_captured_piece m1 = mv_captured_piece m" "mv_captured_pos m1 = captured_square b p s q"
    "\<not> mv_is_castling m1" "mv_prev_en_passant_target m1 = bd_en_passant_target b" "mv_prev_has_moved m1 = pc_has_moved p"
proof (cases "pc_type p = PAWN \<and> fst q = last_row (pc_color p)")
  case True
  define t where "t = (case promotion of None \<Rightarrow> QUEEN | Some t \<Rightarrow> t)"
  have "t \<in> set PROMOTION_CHOICES" using ch by (auto simp: t_def choice_ok_def PROMOTION_CHOICES_def split: option.splits)
  then have e: "promote_pawn b2 m promotion = (set_piece b2 q (Some (landed p q promotion)), Inr (m\<lparr>mv_promotion := Some t, mv_promoted_piece := Some (landed p q promotion)\<rparr>))"
    using True by (simp add: promote_pawn_def Let_def movedD [OF mv] landed_def t_def [symmetric])
  show thesis by (rule that [OF e]) (use moves_landing(3) [OF ok p q] cas in \<open>auto simp: cells_after_def movedD [OF mv]\<close>)
next
  case False
  then have e: "promote_pawn b2 m promotion = (b2, Inr m)" by (auto simp: promote_pawn_def Let_def movedD [OF mv])
  have "landed p q promotion = relocate p q True" using False by (auto simp: landed_def)
  then show thesis by (intro that [OF e]) (use cas in \<open>auto simp: cells_after_def movedD [OF mv]\<close>)
qed

lemma undo_plain:
  assumes ok: "board_ok b" and p: "get_piece_at b s = Some p" and q: "q \<in> set (get_possible_moves b p)" and cas: "\<not> is_castling_move p s q"
    and b3: "shaped b3" "get_piece_at b3 = cells_after b p s q promotion"
    and m: "mv_start_pos m = s" "mv_end_pos m = q" "mv_piece m = p" "mv_captured_piece m = (case captured_square b p s q of None \<Rightarrow> None | Some x \<Rightarrow> get_piece_at b x)"
      "mv_captured_pos m = captured_square b p s q" "\<not> mv_is_castling m" "mv_prev_en_passant_target m = bd_en_passant_target b" "mv_prev_has_moved m = pc_has_moved p"
  shows "undo_move (b3\<lparr>bd_en_passant_target := t\<rparr>) m = b"
proof (cases "captured_square b p s q")
  case None
  have o: "on_board s" "on_board q" using get_on_board [OF p] moves_landing(3) [OF ok p q] by simp_all
  have "get_piece_at b q = None" using None by (auto simp: captured_square_def split: if_splits)
  then show ?thesis using b3(1) o p cas
    by (intro board_eqI) (simp_all add: undo_move_def Let_def m None piece_restored [OF ok p] board_okD(1) [OF ok] b3(2) cells_after_def)
next
  case (Some y)
  have o: "on_board s" "on_board q" "on_board y" using get_on_board [OF p] moves_landing(3) [OF ok p q] captured_facts(3) [OF ok p q Some] by simp_all
  obtain c where c: "get_piece_at b y = Some c" using captured_facts(1) [OF ok p q Some] by blast
  have y: "y \<noteq> s" "y \<noteq> q \<longrightarrow> get_piece_at b q = None" using captured_facts(2,4) [OF ok p q Some] by simp_all
  show ?thesis using b3(1) o p cas y c
    by (intro board_eqI) (simp_all add: undo_move_def Let_def m Some piece_restored(1) [OF ok p] piece_restored(2) [OF ok c] board_okD(1) [OF ok] b3(2) cells_after_def)
qed

text \<open>A pseudo-legal move with an allowed promotion succeeds, changes the cells as said, and is undone exactly.\<close>

lemma apply_pseudo:
  assumes ok: "board_ok b" and p: "get_piece_at b s = Some p" and q: "q \<in> set (get_possible_moves b p)" and ch: "choice_ok promotion"
  obtains b1 m where "apply_move s q promotion b = (b1, Inr m)" "undo_move b1 m = b" "shaped b1" "get_piece_at b1 = cells_after b p s q promotion"
    "bd_en_passant_target b1 = next_en_passant p s q" "mv_captured_piece m = (case captured_square b p s q of None \<Rightarrow> None | Some x \<Rightarrow> get_piece_at b x)"
proof -
  obtain b2 m where mp: "move_piece b p s q = (b2, m)" by fastforce
  note mv = move_piece_moved [OF ok p q mp]
  show thesis
  proof (cases "is_castling_move p s q")
    case True
    obtain b3 m1 where r: "move_rook b2 m = (b3, Inr m1)" "promote_pawn b3 m1 promotion = (b3, Inr m1)" "shaped b3" "get_piece_at b3 = cells_after b p s q promotion"
      "\<And>t. undo_move (b3\<lparr>bd_en_passant_target := t\<rparr>) m1 = b" "mv_captured_piece m1 = mv_captured_piece m"
      using apply_castling [OF ok p q True mv] by metis
    have "apply_move s q promotion b = (b3\<lparr>bd_en_passant_target := next_en_passant p s q\<rparr>, Inr m1)"
      using p mp r(1,2) by (simp add: apply_move_def and_then_def)
    then show thesis by (rule that) (simp_all add: r movedD [OF mv])
  next
    case False
    obtain b3 m1 where r: "promote_pawn b2 m promotion = (b3, Inr m1)" "shaped b3" "get_piece_at b3 = cells_after b p s q promotion"
      "mv_start_pos m1 = s" "mv_end_pos m1 = q" "mv_piece m1 = p" "mv_captured_piece m1 = mv_captured_piece m" "mv_captured_pos m1 = captured_square b p s q"
      "\<not> mv_is_castling m1" "mv_prev_en_passant_target m1 = bd_en_passant_target b" "mv_prev_has_moved m1 = pc_has_moved p"
      using apply_plain [OF ok p q ch False mv] by metis
    have "move_rook b2 m = (b2, Inr m)" using False by (simp add: move_rook_def movedD [OF mv])
    then have "apply_move s q promotion b = (b3\<lparr>bd_en_passant_target := next_en_passant p s q\<rparr>, Inr m1)"
      using p mp r(1) by (simp add: apply_move_def and_then_def)
    then show thesis
      by (rule that) (use undo_plain [OF ok p q False r(2,3)] r in \<open>simp_all add: movedD [OF mv]\<close>)
  qed
qed

end
