(* ===== verification/Chess_Legal.thy ===== *)
theory Chess_Legal
  imports Chess_Board
begin

text \<open>
  Legality in \<open>Chess\<close>: the functions that make, look and unmake leave the board as it was and pick exactly the pseudo-legal
  moves that keep the own king safe; moves keep the board well-formed and the two kings on it; the type of a promoted piece
  does not matter for the safety of the king, so testing with a queen is enough.
\<close>

section \<open>Testing moves\<close>

definition after :: "board \<Rightarrow> square \<Rightarrow> square \<Rightarrow> PieceType option \<Rightarrow> board" where
  "after b s q promotion = fst (apply_move s q promotion b)"

definition safe :: "board \<Rightarrow> square \<Rightarrow> square \<Rightarrow> Color \<Rightarrow> bool" where
  "safe b s q col \<longleftrightarrow> \<not> is_in_check (after b s q None) col"

text \<open>A pseudo-legal move of a piece on the board.\<close>

definition pseudo :: "board \<Rightarrow> square \<Rightarrow> square \<Rightarrow> bool" where
  "pseudo b s q \<longleftrightarrow> (case get_piece_at b s of None \<Rightarrow> False | Some p \<Rightarrow> q \<in> set (get_possible_moves b p))"

text \<open>The specification of legality: own piece, pseudo-legal, and the own king is not attacked afterwards.\<close>

definition legal :: "board \<Rightarrow> Color \<Rightarrow> square \<Rightarrow> square \<Rightarrow> bool" where
  "legal b col s q \<longleftrightarrow> pseudo b s q \<and> map_option pc_color (get_piece_at b s) = Some col \<and> safe b s q col"

definition can_move :: "board \<Rightarrow> Color \<Rightarrow> bool" where
  "can_move b col \<longleftrightarrow> (\<exists>s q. legal b col s q)"

lemma pseudoE:
  assumes "pseudo b s q" obtains p where "get_piece_at b s = Some p" "q \<in> set (get_possible_moves b p)"
  using assms by (auto simp: pseudo_def split: option.splits)

lemma after_facts:
  assumes ok: "board_ok b" and p: "get_piece_at b s = Some p" and q: "q \<in> set (get_possible_moves b p)" and ch: "choice_ok promotion"
  obtains m where "apply_move s q promotion b = (after b s q promotion, Inr m)" "undo_move (after b s q promotion) m = b" "shaped (after b s q promotion)"
    "get_piece_at (after b s q promotion) = cells_after b p s q promotion" "bd_en_passant_target (after b s q promotion) = next_en_passant p s q"
    "mv_captured_piece m = (case captured_square b p s q of None \<Rightarrow> None | Some x \<Rightarrow> get_piece_at b x)"
proof -
  obtain b1 m where a: "apply_move s q promotion b = (b1, Inr m)" "undo_move b1 m = b" "shaped b1" "get_piece_at b1 = cells_after b p s q promotion"
    "bd_en_passant_target b1 = next_en_passant p s q" "mv_captured_piece m = (case captured_square b p s q of None \<Rightarrow> None | Some x \<Rightarrow> get_piece_at b x)"
    using apply_pseudo [OF ok p q ch] by metis
  have "after b s q promotion = b1" by (simp add: after_def a(1))
  then show thesis using that a by simp
qed

lemma choice_ok_None [simp]: "choice_ok None"
  by (simp add: choice_ok_def)

lemma try_move_eq:
  assumes ok: "board_ok b" and p: "pseudo b s q"
  shows "try_move s q col b = (b, Inr (safe b s q col))"
  by (rule pseudoE [OF p], rule after_facts [OF ok _ _ choice_ok_None, of s _ q])
    (simp_all add: try_move_def and_then_def safe_def)

lemma is_legal_move_eq:
  assumes "board_ok b" "get_piece_at b s = Some p"
  shows "is_legal_move p q b = (b, Inr (q \<in> set (get_possible_moves b p) \<and> safe b s q (pc_color p)))"
  using try_move_eq [OF assms(1), of s q] assms(2) board_okD(2) [OF assms] by (simp add: is_legal_move_def pseudo_def)

lemma try_ends_eq:
  assumes "board_ok b" "\<And>q. q \<in> set qs \<Longrightarrow> pseudo b s q"
  shows "try_ends s qs col b = (b, Inr (map (Pair s) (filter (\<lambda>q. safe b s q col) qs)))"
  using assms(2) by (induction qs) (simp_all add: and_then_def try_move_eq [OF assms(1)])

lemma any_end_eq:
  assumes "board_ok b" "\<And>q. q \<in> set qs \<Longrightarrow> pseudo b s q"
  shows "any_end s qs col b = (b, Inr (\<exists>q \<in> set qs. safe b s q col))"
  using assms(2) by (induction qs) (simp_all add: and_then_def try_move_eq [OF assms(1)])

definition legal_list :: "board \<Rightarrow> Color \<Rightarrow> piece list \<Rightarrow> (square \<times> square) list" where
  "legal_list b col ps = concat (map (\<lambda>p. map (Pair (pc_position p)) (filter (\<lambda>q. safe b (pc_position p) q col) (get_possible_moves b p))) ps)"

lemma piece_pseudo:
  assumes "board_ok b" "p \<in> set (pieces_of b col)" "q \<in> set (get_possible_moves b p)"
  shows "pseudo b (pc_position p) q"
  using assms in_pieces_of [of b p col] by (simp add: pseudo_def)

lemma piece_ends_eq:
  assumes "board_ok b" "p \<in> set (pieces_of b col)"
  shows "try_ends (pc_position p) (get_possible_moves b p) col b = (b, Inr (map (Pair (pc_position p)) (filter (\<lambda>q. safe b (pc_position p) q col) (get_possible_moves b p))))"
    "any_end (pc_position p) (get_possible_moves b p) col b = (b, Inr (\<exists>q \<in> set (get_possible_moves b p). safe b (pc_position p) q col))"
  using try_ends_eq any_end_eq piece_pseudo assms by blast+

lemma try_pieces_eq:
  assumes "board_ok b" "set ps \<subseteq> set (pieces_of b col)"
  shows "try_pieces ps col b = (b, Inr (legal_list b col ps))"
  using assms(2) by (induction ps) (simp_all add: and_then_def legal_list_def piece_ends_eq [OF assms(1)])

lemma any_piece_eq:
  assumes "board_ok b" "set ps \<subseteq> set (pieces_of b col)"
  shows "any_piece ps col b = (b, Inr (legal_list b col ps \<noteq> []))"
  using assms(2) by (induction ps) (auto simp: and_then_def legal_list_def piece_ends_eq [OF assms(1)] filter_empty_conv)

lemma in_legal_list:
  assumes ok: "board_ok b"
  shows "(s, q) \<in> set (legal_list b col (pieces_of b col)) \<longleftrightarrow> legal b col s q"
proof
  assume "(s, q) \<in> set (legal_list b col (pieces_of b col))"
  then obtain p where p: "p \<in> set (pieces_of b col)" "pc_position p = s" "q \<in> set (get_possible_moves b p)" "safe b s q col"
    by (auto simp: legal_list_def)
  then show "legal b col s q" using piece_pseudo [OF ok p(1,3)] in_pieces_of [OF ok, of p col] by (auto simp: legal_def)
next
  assume l: "legal b col s q"
  then obtain p where p: "get_piece_at b s = Some p" "q \<in> set (get_possible_moves b p)" by (auto simp: legal_def elim: pseudoE)
  then have "p \<in> set (pieces_of b col)" "pc_position p = s"
    using l board_okD(2) [OF ok p(1)] by (auto simp: in_pieces_of [OF ok] legal_def)
  then show "(s, q) \<in> set (legal_list b col (pieces_of b col))" using p l by (force simp: legal_list_def legal_def)
qed

lemmas legality_eqs = try_pieces_eq [OF _ order_refl] any_piece_eq [OF _ order_refl]

lemma legal_moves_eq:
  "board_ok b \<Longrightarrow> legal_moves col b = (b, Inr (legal_list b col (pieces_of b col)))"
  "board_ok b \<Longrightarrow> has_legal_moves col b = (b, Inr (can_move b col))"
proof -
  assume ok: "board_ok b"
  show "legal_moves col b = (b, Inr (legal_list b col (pieces_of b col)))" by (simp add: legal_moves_def legality_eqs(1) [OF ok])
  have "legal_list b col (pieces_of b col) \<noteq> [] \<longleftrightarrow> (\<exists>x. x \<in> set (legal_list b col (pieces_of b col)))"
    by (cases "legal_list b col (pieces_of b col)") auto
  then show "has_legal_moves col b = (b, Inr (can_move b col))"
    by (simp add: can_move_def has_legal_moves_def legality_eqs(2) [OF ok] split_paired_Ex in_legal_list [OF ok])
qed

lemma mate_eqs:
  "board_ok b \<Longrightarrow> is_checkmate col b = (b, Inr (is_in_check b col \<and> \<not> can_move b col))"
  "board_ok b \<Longrightarrow> is_stalemate col b = (b, Inr (\<not> is_in_check b col \<and> \<not> can_move b col))"
  by (simp_all add: is_checkmate_def is_stalemate_def and_then_def legal_moves_eq(2))

section \<open>What moves keep\<close>

lemma after_board_ok:
  assumes ok: "board_ok b" and p: "get_piece_at b s = Some p" and q: "q \<in> set (get_possible_moves b p)" and ch: "choice_ok promotion"
  shows "board_ok (after b s q promotion)"
proof (rule after_facts [OF ok p q ch])
  assume a: "shaped (after b s q promotion)" "get_piece_at (after b s q promotion) = cells_after b p s q promotion"
    "bd_en_passant_target (after b s q promotion) = next_en_passant p s q"
  have "pc_position k = x \<and> (pc_type k = KING \<and> \<not> pc_has_moved k \<longrightarrow> snd x = 4)" if "cells_after b p s q promotion x = Some k" for x k
    using that board_okD(2,3) [OF ok, of x k] by (auto simp: cells_after_def landed_simps relocate_def split: if_splits)
  moreover have "cells_after b p s q promotion t = None" if t: "next_en_passant p s q = Some t" for t
  proof -
    have pt: "pc_type p = PAWN" "\<bar>fst q - fst s\<bar> = 2" "t = ((fst s + fst q) div 2, snd s)" using t by (auto simp: next_en_passant_def split: if_splits)
    have "get_piece_at b t = None" "q \<noteq> t" "s \<noteq> t" using pawn_move_cases(3) [OF ok p pt(1) _ pt(2)] q pt by (simp_all add: get_possible_moves_def)
    then show ?thesis using pt by (auto simp: cells_after_def is_castling_move_def)
  qed
  ultimately show ?thesis using a by (simp add: board_ok_def)
qed

text \<open>Each side has exactly one king.\<close>

definition king_on :: "board \<Rightarrow> Color \<Rightarrow> square \<Rightarrow> bool" where
  "king_on b col x \<longleftrightarrow> (\<exists>k. get_piece_at b x = Some k \<and> pc_type k = KING \<and> pc_color k = col)"

definition kings_ok :: "board \<Rightarrow> bool" where
  "kings_ok b \<longleftrightarrow> (\<forall>col. \<exists>!x. king_on b col x)"

lemma find_king_on:
  assumes ok: "board_ok b" and k: "king_on b col x" "\<And>y. king_on b col y \<Longrightarrow> y = x"
  shows "find_king b col = get_piece_at b x" "map_option pc_position (find_king b col) = Some x"
proof -
  obtain k where k1: "get_piece_at b x = Some k" "pc_type k = KING" "pc_color k = col" using k(1) by (auto simp: king_on_def)
  then have "k \<in> set (pieces_of b col)" using board_okD(2) [OF ok k1(1)] by (simp add: in_pieces_of [OF ok])
  then have "find_king b col \<noteq> None" using k1(2) by (auto simp: find_king_def find_None_iff)
  then obtain j where j: "find_king b col = Some j" by blast
  then have "pc_type j = KING \<and> j \<in> set (pieces_of b col)" unfolding find_king_def by (auto simp: find_Some_iff)
  then have "king_on b col (pc_position j)" "get_piece_at b (pc_position j) = Some j" by (auto simp: in_pieces_of [OF ok] king_on_def)
  then show "find_king b col = get_piece_at b x" "map_option pc_position (find_king b col) = Some x" using k(2) j by auto
qed

lemma in_check_on:
  assumes "board_ok b" "king_on b col x" "\<And>y. king_on b col y \<Longrightarrow> y = x"
  shows "is_in_check b col \<longleftrightarrow> is_square_attacked b x (opponent col)"
  using find_king_on(2) [OF assms] by (auto simp: is_in_check_def)

lemma opponent_simps [simp]: "opponent c \<noteq> c" "c \<noteq> opponent c" "opponent (opponent c) = c"
  by (cases c; simp)+

lemma opponent_iff: "d \<noteq> c \<longleftrightarrow> d = opponent c"
  by (cases c; cases d) simp_all

text \<open>Attacks see only which squares are occupied and by which colour.\<close>

definition looks :: "board \<Rightarrow> square \<Rightarrow> Color option" where
  "looks b x = map_option pc_color (get_piece_at b x)"

lemma looksD:
  assumes "looks b = looks c"
  shows "(case get_piece_at b x of None \<Rightarrow> f | Some t \<Rightarrow> g (pc_color t)) = (case get_piece_at c x of None \<Rightarrow> f | Some t \<Rightarrow> g (pc_color t))"
  using fun_cong [OF assms, of x] by (cases "get_piece_at b x"; cases "get_piece_at c x") (simp_all add: looks_def)

lemma slide_looks:
  assumes "looks b = looks c"
  shows "slide b col d n p = slide c col d n p"
proof (induction n arbitrary: p)
  case (Suc n)
  show ?case using looksD [OF assms, where x = p and f = "p # slide c col d n (fst p + fst d, snd p + snd d)" and g = "\<lambda>k. if k \<noteq> col then [p] else []"]
    by (cases "get_piece_at b p"; cases "get_piece_at c p") (simp_all add: Suc)
qed simp

lemma attacks_looks:
  assumes "looks b = looks c"
  shows "attacks b p = attacks c p"
proof -
  have "slides b p ds = slides c p ds" for ds by (simp add: slides_def slide_looks [OF assms])
  moreover have "steps b p ds = steps c p ds" for ds
    unfolding steps_def using looksD [OF assms, where f = True and g = "\<lambda>k. k \<noteq> pc_color p"] by simp
  ultimately show ?thesis unfolding attacks_def by (cases "pc_type p") simp_all
qed

lemma attacked_iff:
  assumes ok: "board_ok b"
  shows "is_square_attacked b q col \<longleftrightarrow> (\<exists>x k. get_piece_at b x = Some k \<and> pc_color k = col \<and> q \<in> set (attacks b k))"
  using in_pieces_of [OF ok, of _ col] board_okD(2) [OF ok] by (fastforce simp: is_square_attacked_def list_ex_iff)

lemma moves_attack:
  assumes ok: "board_ok b" and p: "get_piece_at b s = Some p" and q: "q \<in> set (get_possible_moves b p)" and v: "get_piece_at b q \<noteq> None"
  shows "q \<in> set (attacks b p)"
proof (cases "pc_type p = KING")
  case True
  then have "\<not> is_castling_move p s q" using king_castles [OF ok p True, of q] q v by (auto simp: get_possible_moves_def castling_ok_def)
  then show ?thesis using q True board_okD(2) [OF ok p] by (auto simp: get_possible_moves_def king_moves_def Let_def is_castling_move_def split: if_splits)
next
  case False
  then show ?thesis using q v by (cases "pc_type p") (auto simp: get_possible_moves_def pawn_moves_def Let_def split: if_splits)
qed

text \<open>While the side to move could not take the king, no pseudo-legal move captures one.\<close>

lemma no_king_captured:
  assumes ok: "board_ok b" and ks: "kings_ok b" and p: "get_piece_at b s = Some p" and q: "q \<in> set (get_possible_moves b p)"
    and quiet: "\<not> is_in_check b (opponent (pc_color p))" and x: "captured_square b p s q = Some x"
  shows "\<not> king_on b c x"
proof
  assume k: "king_on b c x"
  obtain v where v: "get_piece_at b x = Some v" "pc_color v \<noteq> pc_color p" "pc_type v = KING" "pc_color v = c"
    using captured_facts(1) [OF ok p q x] k unfolding king_on_def by (metis option.inject)
  have uniq: "y = x" if "king_on b c y" for y using ks k that unfolding kings_ok_def by metis
  have xq: "x = q"
  proof (rule ccontr)
    assume "x \<noteq> q"
    then have e: "captures_en_passant b p s q" "x = (fst s, snd q)" using x by (auto simp: captured_square_def split: if_splits)
    then have pw: "pc_type p = PAWN" by (simp add: captures_en_passant_def)
    then have "q \<in> set (pawn_moves b p)" using q by (simp add: get_possible_moves_def)
    then obtain w where "get_piece_at b (fst s, snd q) = Some w" "pc_type w = PAWN" using pawn_move_cases(2) [OF ok p pw _ e(1)] by blast
    then show False using v e(2) by simp
  qed
  then have "is_square_attacked b x (pc_color p)" using moves_attack [OF ok p q] v p by (auto simp: attacked_iff [OF ok])
  moreover have "c = opponent (pc_color p)" using v opponent_iff by simp
  ultimately show False using in_check_on [OF ok k uniq] quiet by simp
qed

lemma after_kings:
  assumes ok: "board_ok b" and ks: "kings_ok b" and p: "get_piece_at b s = Some p" and q: "q \<in> set (get_possible_moves b p)"
    and ch: "choice_ok promotion" and quiet: "\<not> is_in_check b (opponent (pc_color p))"
  shows "king_on (after b s q promotion) c x \<longleftrightarrow> (if pc_type p = KING \<and> pc_color p = c then x = q else king_on b c x)"
proof -
  have cells: "get_piece_at (after b s q promotion) = cells_after b p s q promotion" by (rule after_facts [OF ok p q ch])
  have own: "king_on b (pc_color p) s" if "pc_type p = KING" using p that by (simp add: king_on_def)
  have only: "king_on b (pc_color p) y \<Longrightarrow> pc_type p = KING \<Longrightarrow> y = s" for y using ks own unfolding kings_ok_def by metis
  have nk: "\<not> king_on b c y" if "captured_square b p s q = Some y" for y by (rule no_king_captured [OF ok ks p q quiet that])
  have nq: "\<not> king_on b c q"
    using nk [of q] by (cases "captures_en_passant b p s q") (auto simp: captured_square_def king_on_def captures_en_passant_def)
  have cas: "castling_ok b p s q" if "is_castling_move p s q"
    using king_castles [OF ok p _ _ that] q that by (simp add: get_possible_moves_def is_castling_move_def)
  consider "x = q" | "x \<noteq> q" "x = s \<or> captured_square b p s q = Some x"
    | "is_castling_move p s q" "x \<noteq> q" "x \<noteq> s" "captured_square b p s q \<noteq> Some x" "x = fst (rook_squares s q) \<or> x = snd (rook_squares s q)"
    | "x \<noteq> q" "x \<noteq> s" "captured_square b p s q \<noteq> Some x" "\<not> (is_castling_move p s q \<and> (x = fst (rook_squares s q) \<or> x = snd (rook_squares s q)))"
    by blast
  then show ?thesis
  proof cases
    case 1
    then show ?thesis using nq by (simp add: king_on_def [of "after b s q promotion"] cells cells_after_def landed_simps(1) [OF ch] landed_simps(2))
  next
    case 2
    then have "\<not> king_on b c x \<or> pc_type p = KING \<and> pc_color p = c" using nk [of x] p by (auto simp: king_on_def)
    then show ?thesis using 2 by (auto simp: king_on_def [of "after b s q promotion"] cells cells_after_def)
  next
    case 3
    then have "\<not> king_on b c x" using cas by (auto simp: castling_ok_def king_on_def)
    then show ?thesis using 3 cas by (auto simp: king_on_def [of "after b s q promotion"] cells cells_after_def castling_ok_def relocate_def)
  next
    case 4
    then have "cells_after b p s q promotion x = get_piece_at b x" by (auto simp: cells_after_def)
    then show ?thesis using only [of x] 4 unfolding king_on_def [of "after b s q promotion"] cells by (auto simp: king_on_def)
  qed
qed

lemma after_kings_ok:
  assumes ok: "board_ok b" and ks: "kings_ok b" and p: "get_piece_at b s = Some p" and q: "q \<in> set (get_possible_moves b p)"
    and ch: "choice_ok promotion" and quiet: "\<not> is_in_check b (opponent (pc_color p))"
  shows "kings_ok (after b s q promotion)"
  unfolding kings_ok_def after_kings [OF assms]
proof
  fix c
  show "\<exists>!x. if pc_type p = KING \<and> pc_color p = c then x = q else king_on b c x"
  proof (cases "pc_type p = KING \<and> pc_color p = c")
    case False
    then show ?thesis using ks unfolding kings_ok_def if_not_P [OF False] by blast
  qed simp
qed

text \<open>Which piece a pawn becomes does not matter for the safety of its own king.\<close>

lemma choice_irrelevant:
  assumes ok: "board_ok b" and ks: "kings_ok b" and p: "get_piece_at b s = Some p" and q: "q \<in> set (get_possible_moves b p)"
    and ch: "choice_ok promotion" and quiet: "\<not> is_in_check b (opponent (pc_color p))"
  shows "is_in_check (after b s q promotion) (pc_color p) \<longleftrightarrow> \<not> safe b s q (pc_color p)"
proof -
  have cells: "get_piece_at (after b s q pr) = cells_after b p s q pr" if "choice_ok pr" for pr by (rule after_facts [OF ok p q that])
  note oks = after_board_ok [OF ok p q ch] after_board_ok [OF ok p q choice_ok_None]
  have look: "looks (after b s q promotion) = looks (after b s q None)"
    by (simp add: looks_def fun_eq_iff cells [OF ch] cells [OF choice_ok_None] cells_after_def landed_simps(2))
  have same: "get_piece_at (after b s q promotion) x = Some k \<and> pc_color k = opponent (pc_color p)
    \<longleftrightarrow> get_piece_at (after b s q None) x = Some k \<and> pc_color k = opponent (pc_color p)" for x k
    by (auto simp: cells [OF ch] cells [OF choice_ok_None] cells_after_def landed_simps(2) split: if_splits)
  have att: "is_square_attacked (after b s q promotion) x (opponent (pc_color p)) = is_square_attacked (after b s q None) x (opponent (pc_color p))" for x
    unfolding attacked_iff [OF oks(1)] attacked_iff [OF oks(2)] attacks_looks [OF look] using same by blast
  obtain x where x: "king_on (after b s q None) (pc_color p) x" "\<And>y. king_on (after b s q None) (pc_color p) y \<Longrightarrow> y = x"
    using after_kings_ok [OF ok ks p q choice_ok_None quiet] by (metis kings_ok_def)
  have k: "king_on (after b s q promotion) (pc_color p) y = king_on (after b s q None) (pc_color p) y" for y
    by (simp add: after_kings [OF ok ks p q _ quiet] ch)
  show ?thesis using in_check_on [OF oks(1), of "pc_color p" x] in_check_on [OF oks(2) x] x unfolding k att safe_def by blast
qed

end
