(* ===== verification/Chess_Game.thy ===== *)
theory Chess_Game
  imports Chess_Legal
begin

text \<open>
  The game of \<open>Chess\<close>: a move is accepted exactly when it is legal, its status is what the rules say of the position reached,
  undoing gives back the game as it was, and what holds of every game that the calls can reach.
\<close>

section \<open>Positions\<close>

text \<open>A position with \<open>c\<close> to move: well-formed, one king each, and the king of the side that has just moved is not attacked.\<close>

definition position_ok :: "board \<Rightarrow> Color \<Rightarrow> bool" where
  "position_ok b c \<longleftrightarrow> board_ok b \<and> kings_ok b \<and> \<not> is_in_check b (opponent c)"

lemma position_okD: "position_ok b c \<Longrightarrow> board_ok b" "position_ok b c \<Longrightarrow> kings_ok b" "position_ok b c \<Longrightarrow> \<not> is_in_check b (opponent c)"
  by (simp_all add: position_ok_def)

lemma legalE:
  assumes "legal b c s q"
  obtains p where "get_piece_at b s = Some p" "pc_color p = c" "q \<in> set (get_possible_moves b p)" "safe b s q c"
  using assms by (auto simp: legal_def elim!: pseudoE)

lemma position_after:
  assumes ok: "position_ok b c" and l: "legal b c s q" and ch: "choice_ok promotion"
  shows "position_ok (after b s q promotion) (opponent c)"
proof (rule legalE [OF l])
  fix p assume p: "get_piece_at b s = Some p" "pc_color p = c" "q \<in> set (get_possible_moves b p)" "safe b s q c"
  note o = position_okD [OF ok]
  have quiet: "\<not> is_in_check b (opponent (pc_color p))" using o(3) p(2) by simp
  have "\<not> is_in_check (after b s q promotion) c" using choice_irrelevant [OF o(1,2) p(1,3) ch quiet] p by simp
  then show ?thesis using after_board_ok [OF o(1) p(1,3) ch] after_kings_ok [OF o(1,2) p(1,3) ch quiet] by (simp add: position_ok_def)
qed

section \<open>Status\<close>

text \<open>What the rules say of the position and its past.\<close>

definition status_of :: "game \<Rightarrow> GameStatus" where
  "status_of g =
     (let b = gm_board g; c = gm_to_move g
      in if \<not> can_move b c then (if is_in_check b c then CHECKMATE else STALEMATE)
         else if has_insufficient_material b \<or> gm_halfmove_clock g \<ge> 150 \<or> counter_get (gm_positions g) (position_key b c) \<ge> 5 then DRAW
         else if is_in_check b c then CHECK else ACTIVE)"

lemma status_of_update [simp]: "status_of (g\<lparr>gm_status := st\<rparr>) = status_of g" "status_of (g\<lparr>gm_winner := w\<rparr>) = status_of g"
  by (simp_all add: status_of_def Let_def)

definition settled :: "game \<Rightarrow> game" where
  "settled g = g\<lparr>gm_status := status_of g, gm_winner := (if status_of g = CHECKMATE then Some (opponent (gm_to_move g)) else gm_winner g)\<rparr>"

lemma game_board_id [simp]: "g\<lparr>gm_board := gm_board g\<rparr> = g"
  by (cases g) simp

lemma winner_same [simp]: "g\<lparr>gm_status := st, gm_winner := gm_winner g\<rparr> = g\<lparr>gm_status := st\<rparr>"
  by (cases g) simp

lemma refresh_status_eq:
  assumes "board_ok (gm_board g)"
  shows "refresh_status g = (settled g, Inr ())"
  by (cases "can_move (gm_board g) (gm_to_move g)"; cases "is_in_check (gm_board g) (gm_to_move g)")
    (simp_all add: refresh_status_def lift_grid_def mate_eqs [OF assms] settled_def status_of_def Let_def)

section \<open>Moves\<close>

lemma validate_eq:
  assumes "board_ok b"
  shows "validate c s q b = (b, if legal b c s q then Inr (the (get_piece_at b s)) else Inl InvalidMoveError)"
  by (cases "get_piece_at b s") (auto simp: validate_def legal_def pseudo_def and_then_def is_legal_move_eq [OF assms])

text \<open>The game after the move, before its status is worked out.\<close>

definition advanced :: "game \<Rightarrow> square \<Rightarrow> square \<Rightarrow> PieceType option \<Rightarrow> move \<Rightarrow> game" where
  "advanced g s q promotion m =
     (let b = after (gm_board g) s q promotion; c = opponent (gm_to_move g); key = position_key b c
      in g\<lparr>gm_board := b, gm_halfmove_clock := (if map_option pc_type (get_piece_at (gm_board g) s) = Some PAWN \<or> mv_captured_piece m \<noteq> None then 0 else gm_halfmove_clock g + 1),
           gm_to_move := c, gm_positions := counter_add (gm_positions g) key 1,
           gm_history := gm_history g @ [\<lparr>sn_move = m, sn_status = gm_status g, sn_halfmove_clock = gm_halfmove_clock g, sn_position_key = key\<rparr>]\<rparr>)"

lemma play_move_eq:
  assumes ok: "position_ok (gm_board g) (gm_to_move g)" and l: "legal (gm_board g) (gm_to_move g) s q" and ch: "choice_ok promotion"
  obtains m where "play_move g (the (get_piece_at (gm_board g) s)) s q promotion = (settled (advanced g s q promotion m), Inr m)"
    "undo_move (after (gm_board g) s q promotion) m = gm_board g"
proof (rule legalE [OF l])
  fix p assume p: "get_piece_at (gm_board g) s = Some p" "q \<in> set (get_possible_moves (gm_board g) p)"
  obtain m where m: "apply_move s q promotion (gm_board g) = (after (gm_board g) s q promotion, Inr m)"
    "undo_move (after (gm_board g) s q promotion) m = gm_board g"
    using after_facts [OF position_okD(1) [OF ok] p ch] by metis
  have "board_ok (gm_board (advanced g s q promotion m))"
    using position_after [OF ok l ch] by (simp add: advanced_def Let_def position_ok_def)
  then have "play_move g p s q promotion = (settled (advanced g s q promotion m), Inr m)"
    using refresh_status_eq p(1) by (simp add: play_move_def lift_grid_def m(1) advanced_def Let_def)
  then show thesis using that m(2) p(1) by simp
qed

text \<open>The guards of \<open>make_move\<close>.\<close>

definition refusal :: "game \<Rightarrow> square_like \<Rightarrow> square_like \<Rightarrow> PieceType option \<Rightarrow> int option \<Rightarrow> chess_error option" where
  "refusal g s0 q0 promotion n =
     (case (sq s0, sq q0) of
        (Inl e, _) \<Rightarrow> Some e
      | (_, Inl e) \<Rightarrow> Some e
      | (Inr s, Inr q) \<Rightarrow>
          if is_over (gm_status g) then Some GameOverError
          else if n \<noteq> None \<and> n \<noteq> Some (int (length (gm_history g))) then Some StaleMoveError
          else if choice_ok promotion \<and> legal (gm_board g) (gm_to_move g) s q then None else Some InvalidMoveError)"

lemma choice_ok_iff: "\<not> choice_ok promotion \<longleftrightarrow> promotion \<noteq> None \<and> the promotion \<notin> set PROMOTION_CHOICES"
  by (cases promotion) (simp_all add: choice_ok_def)

lemma make_move_refused:
  assumes ok: "board_ok (gm_board g)" and e: "refusal g s0 q0 promotion n = Some e"
  shows "make_move g s0 q0 promotion n = (g, Inl e)"
  using e by (auto simp: make_move_def refusal_def lift_grid_def validate_eq [OF ok] choice_ok_iff split: sum.splits if_splits)

lemma make_move_accepted:
  assumes ok: "position_ok (gm_board g) (gm_to_move g)" and e: "refusal g s0 q0 promotion n = None"
  obtains s q m where "sq s0 = Inr s" "sq q0 = Inr q" "\<not> is_over (gm_status g)" "legal (gm_board g) (gm_to_move g) s q" "choice_ok promotion"
    "make_move g s0 q0 promotion n = (settled (advanced g s q promotion m), Inr m)" "undo_move (after (gm_board g) s q promotion) m = gm_board g"
proof -
  obtain s q where r: "sq s0 = Inr s" "sq q0 = Inr q" "\<not> is_over (gm_status g)" "\<not> (n \<noteq> None \<and> n \<noteq> Some (int (length (gm_history g))))"
    "choice_ok promotion" "legal (gm_board g) (gm_to_move g) s q"
    using e unfolding refusal_def by (cases "sq s0"; cases "sq q0") (simp_all split: if_splits)
  obtain m where m: "play_move g (the (get_piece_at (gm_board g) s)) s q promotion = (settled (advanced g s q promotion m), Inr m)"
    "undo_move (after (gm_board g) s q promotion) m = gm_board g"
    by (rule play_move_eq [OF ok r(6,5)])
  have "make_move g s0 q0 promotion n = play_move g (the (get_piece_at (gm_board g) s)) s q promotion"
    using r(1-4) r(5) [unfolded choice_ok_def] r(6) unfolding make_move_def lift_grid_def validate_eq [OF position_okD(1) [OF ok]]
    by (cases promotion) auto
  then show thesis using that [OF r(1-3) r(6,5)] m by simp
qed

section \<open>Undoing\<close>

lemma counter_roundtrip:
  fixes c :: "('k \<times> int) list"
  assumes "\<And>n. map_of c k = Some n \<Longrightarrow> n > 0"
  shows "counter_get (counter_add (counter_add c k 1) k (- 1)) k = 0 \<Longrightarrow> AList.delete k (counter_add (counter_add c k 1) k (- 1)) = c"
    "counter_get (counter_add (counter_add c k 1) k (- 1)) k \<noteq> 0 \<Longrightarrow> counter_add (counter_add c k 1) k (- 1) = c"
proof -
  have "AList.delete k (AList.update k v xs) = xs" if "k \<notin> fst ` set xs" for v and xs :: "('k \<times> int) list"
    using that by (induction xs) auto
  moreover have "k \<notin> fst ` set c" if "map_of c k = None" using that by (simp add: map_of_eq_None_iff)
  moreover have "AList.update k n c = c" if "map_of c k = Some n" for n using that by (rule update_triv)
  ultimately show "counter_get (counter_add (counter_add c k 1) k (- 1)) k = 0 \<Longrightarrow> AList.delete k (counter_add (counter_add c k 1) k (- 1)) = c"
    "counter_get (counter_add (counter_add c k 1) k (- 1)) k \<noteq> 0 \<Longrightarrow> counter_add (counter_add c k 1) k (- 1) = c"
    using assms by (cases "map_of c k"; force simp: counter_add_def counter_get_def update_conv')+
qed

lemma undo_advanced:
  assumes u: "undo_move (after (gm_board g) s q promotion) m = gm_board g" and w: "gm_winner g = None"
    and c: "\<And>k n. map_of (gm_positions g) k = Some n \<Longrightarrow> n > 0"
  shows "undo_last_move (settled (advanced g s q promotion m)) = (g, Inr m)"
proof -
  have "g\<lparr>gm_positions := gm_positions g, gm_winner := None\<rparr> = g" using w by (cases g) simp
  then show ?thesis
    using u by (simp add: undo_last_move_def settled_def advanced_def Let_def counter_roundtrip [OF c])
qed

lemma undo_ignores [simp]:
  "gm_history g \<noteq> [] \<Longrightarrow> undo_last_move (g\<lparr>gm_status := st, gm_winner := w\<rparr>) = undo_last_move g"
  "gm_history g \<noteq> [] \<Longrightarrow> undo_last_move (g\<lparr>gm_status := st\<rparr>) = undo_last_move g"
  by (simp_all add: undo_last_move_def Let_def)

section \<open>What can be reached\<close>

definition chess_run :: "board \<Rightarrow> Color \<Rightarrow> chess_op list \<Rightarrow> game" where
  "chess_run b c ops = foldl (\<lambda>g op. fst (chess_step g op)) (fst (new_game b c)) ops"

text \<open>Games played forwards only: accepted moves, a resignation, a claimed draw.\<close>

inductive played :: "board \<Rightarrow> Color \<Rightarrow> game \<Rightarrow> bool" for b c where
  started: "played b c (fst (new_game b c))"
| moved: "played b c g \<Longrightarrow> make_move g s q promotion n = (g1, Inr m) \<Longrightarrow> played b c g1"
| resigned: "played b c g \<Longrightarrow> resign g col = (g1, Inr u) \<Longrightarrow> played b c g1"
| drawn: "played b c g \<Longrightarrow> claim_draw g = (g1, Inr u) \<Longrightarrow> played b c g1"

definition key_trail :: "board \<Rightarrow> Color \<Rightarrow> game \<Rightarrow> position_key list" where
  "key_trail b c g = position_key b c # map sn_position_key (gm_history g)"

text \<open>The table of positions counts the trail.\<close>

definition counts :: "('k \<times> int) list \<Rightarrow> 'k list \<Rightarrow> bool" where
  "counts t ks \<longleftrightarrow> (\<forall>k. map_of t k = (if k \<in> set ks then Some (int (count_list ks k)) else None))"

lemma counts_add: "counts t ks \<Longrightarrow> counts (counter_add t k 1) (ks @ [k])"
  by (auto simp: counts_def counter_add_def counter_get_def update_conv')

lemma counts_positive: "counts t ks \<Longrightarrow> map_of t k = Some n \<Longrightarrow> n > 0"
  by (auto simp: counts_def count_list_0_iff split: if_splits intro!: gr0I)


definition status_ok :: "game \<Rightarrow> bool" where
  "status_ok g \<longleftrightarrow>
     (case gm_status g of
        RESIGNED \<Rightarrow> gm_winner g \<noteq> None
      | DRAW \<Rightarrow> (status_of g = DRAW \<or> can_claim_draw g) \<and> gm_winner g = None
      | CHECKMATE \<Rightarrow> status_of g = CHECKMATE \<and> gm_winner g = Some (opponent (gm_to_move g))
      | st \<Rightarrow> st = status_of g \<and> gm_winner g = None)"

definition game_ok :: "board \<Rightarrow> Color \<Rightarrow> game \<Rightarrow> bool" where
  "game_ok b c g \<longleftrightarrow> position_ok (gm_board g) (gm_to_move g) \<and> counts (gm_positions g) (key_trail b c g)
     \<and> last (key_trail b c g) = position_key (gm_board g) (gm_to_move g) \<and> status_ok g"

lemma game_okD:
  assumes "game_ok b c g"
  shows "position_ok (gm_board g) (gm_to_move g)" "counts (gm_positions g) (key_trail b c g)"
    "last (key_trail b c g) = position_key (gm_board g) (gm_to_move g)" "status_ok g"
  using assms by (simp_all add: game_ok_def)

lemma open_no_winner: "status_ok g \<Longrightarrow> \<not> is_over (gm_status g) \<Longrightarrow> gm_winner g = None"
  by (cases "gm_status g") (simp_all add: status_ok_def is_over_def)

lemma settled_fields [simp]:
  "gm_board (settled g) = gm_board g" "gm_to_move (settled g) = gm_to_move g" "gm_positions (settled g) = gm_positions g"
  "gm_history (settled g) = gm_history g" "gm_status (settled g) = status_of g" "status_of (settled g) = status_of g"
  "key_trail b c (settled g) = key_trail b c g" "gm_halfmove_clock (settled g) = gm_halfmove_clock g"
  by (simp_all add: settled_def key_trail_def)

lemma status_of_cases: "status_of g \<noteq> RESIGNED"
  by (simp add: status_of_def Let_def)

lemma settled_ok: "gm_winner g = None \<Longrightarrow> status_ok (settled g)"
  using status_of_cases [of g] by (cases "status_of g") (simp_all add: status_ok_def, simp_all add: settled_def)

lemma new_game_ok:
  assumes "position_ok b c"
  shows "game_ok b c (fst (new_game b c))"
proof -
  have "new_game b c = (settled \<lparr>gm_board = b, gm_to_move = c, gm_status = ACTIVE, gm_winner = None, gm_history = [], gm_halfmove_clock = 0,
       gm_positions = [(position_key b c, 1)]\<rparr>, Inr ())"
    using position_okD(1) [OF assms] by (simp add: new_game_def refresh_status_eq)
  then show ?thesis using assms by (simp add: game_ok_def settled_ok) (simp add: key_trail_def counts_def)
qed

lemma make_move_cases:
  assumes ok: "position_ok (gm_board g) (gm_to_move g)"
  obtains (refused) e where "refusal g s0 q0 promotion n = Some e" "make_move g s0 q0 promotion n = (g, Inl e)"
  | (accepted) s q m where "refusal g s0 q0 promotion n = None" "sq s0 = Inr s" "sq q0 = Inr q" "\<not> is_over (gm_status g)" "legal (gm_board g) (gm_to_move g) s q"
      "choice_ok promotion" "make_move g s0 q0 promotion n = (settled (advanced g s q promotion m), Inr m)" "undo_move (after (gm_board g) s q promotion) m = gm_board g"
proof (cases "refusal g s0 q0 promotion n")
  case None
  show thesis by (rule make_move_accepted [OF ok None]) (rule accepted [OF None])
next
  case (Some e)
  show thesis by (rule refused [OF Some make_move_refused [OF position_okD(1) [OF ok] Some]])
qed

lemma advanced_fields:
  "gm_board (advanced g s q promotion m) = after (gm_board g) s q promotion" "gm_to_move (advanced g s q promotion m) = opponent (gm_to_move g)"
  "gm_winner (advanced g s q promotion m) = gm_winner g"
  "gm_positions (advanced g s q promotion m) = counter_add (gm_positions g) (position_key (after (gm_board g) s q promotion) (opponent (gm_to_move g))) 1"
  "key_trail b c (advanced g s q promotion m) = key_trail b c g @ [position_key (after (gm_board g) s q promotion) (opponent (gm_to_move g))]"
  by (simp_all add: advanced_def Let_def key_trail_def)

lemma make_move_ok:
  assumes ok: "game_ok b c g" and m: "make_move g s0 q0 promotion n = (g1, Inr m)"
  shows "game_ok b c g1" "undo_last_move g1 = (g, Inr m)"
proof -
  note o = game_okD [OF ok]
  have "game_ok b c g1 \<and> undo_last_move g1 = (g, Inr m)"
  proof (cases rule: make_move_cases [OF o(1), of s0 q0 promotion n, case_names refused accepted])
    case (accepted s q m')
    then have g1: "g1 = settled (advanced g s q promotion m)" "m' = m" using m by simp_all
    have w: "gm_winner g = None" by (rule open_no_winner [OF o(4) accepted(4)])
    have "game_ok b c g1"
      using position_after [OF o(1) accepted(5,6)] counts_add [OF o(2)] w
      by (simp add: game_ok_def g1 settled_ok advanced_fields)
    moreover have "undo_last_move g1 = (g, Inr m)"
      unfolding g1(1) by (rule undo_advanced) (use accepted(8) g1(2) w counts_positive [OF o(2)] in simp_all)
    ultimately show ?thesis by simp
  qed (use m in simp_all)
  then show "game_ok b c g1" "undo_last_move g1 = (g, Inr m)" by simp_all
qed

lemma claim_update [simp]: "can_claim_draw (g\<lparr>gm_status := st\<rparr>) = can_claim_draw g"
  by (simp add: can_claim_draw_def)

lemma key_trail_update [simp]: "key_trail b c (g\<lparr>gm_status := st\<rparr>) = key_trail b c g" "key_trail b c (g\<lparr>gm_winner := w\<rparr>) = key_trail b c g"
  by (simp_all add: key_trail_def)

lemma played_ok:
  assumes "position_ok b c" "played b c g"
  shows "game_ok b c g"
  using assms(2)
proof induction
  case started
  show ?case by (rule new_game_ok [OF assms(1)])
next
  case (moved g s q promotion n g1 m)
  then show ?case using make_move_ok(1) by blast
next
  case (resigned g col g1 u)
  then show ?case by (auto simp: resign_def game_ok_def status_ok_def split: if_splits)
next
  case (drawn g g1 u)
  then have "gm_winner g = None" using open_no_winner game_okD(4) by (auto simp: claim_draw_def split: if_splits)
  then show ?case using drawn by (auto simp: claim_draw_def game_ok_def status_ok_def split: if_splits)
qed

lemma played_undo:
  assumes "position_ok b c" "played b c g" "gm_history g \<noteq> []"
  shows "played b c (fst (undo_last_move g))"
  using assms(2,3)
proof induction
  case started
  then show ?case using position_okD(1) [OF assms(1)] by (simp add: new_game_def refresh_status_eq)
next
  case (moved g s q promotion n g1 m)
  then show ?case using make_move_ok(2) [OF played_ok [OF assms(1) moved.hyps(1)] moved.hyps(2)] by simp
next
  case (resigned g col g1 u)
  then show ?case by (auto simp: resign_def split: if_splits)
next
  case (drawn g g1 u)
  then show ?case by (auto simp: claim_draw_def split: if_splits)
qed

lemma failed_same:
  assumes "position_ok (gm_board g) (gm_to_move g)"
  shows "make_move g s0 q0 promotion n = (g1, Inl e) \<Longrightarrow> g1 = g" "undo_last_move g = (g1, Inl e) \<Longrightarrow> g1 = g \<and> gm_history g = []"
    "resign g col = (g1, Inl e) \<Longrightarrow> g1 = g" "claim_draw g = (g1, Inl e) \<Longrightarrow> g1 = g"
proof -
  show "g1 = g" if "make_move g s0 q0 promotion n = (g1, Inl e)"
    using that by (cases rule: make_move_cases [OF assms, of s0 q0 promotion n]) simp_all
qed (auto simp: undo_last_move_def resign_def claim_draw_def Let_def split: if_splits)

lemma step_played:
  assumes "position_ok b c" "played b c g"
  shows "played b c (fst (chess_step g op))"
proof -
  have ok: "position_ok (gm_board g) (gm_to_move g)" by (rule game_okD(1) [OF played_ok [OF assms]])
  show ?thesis
  proof (cases op)
    case (MakeMove s0 q0 promotion n)
    obtain g1 r where r: "make_move g s0 q0 promotion n = (g1, r)" by fastforce
    then show ?thesis using failed_same(1) [OF ok, of s0 q0 promotion n g1] assms(2) played.moved [OF assms(2)] MakeMove by (cases r) auto
  next
    case Undo
    obtain g1 r where r: "undo_last_move g = (g1, r)" by fastforce
    then have "g1 = g \<or> gm_history g \<noteq> []" by (auto simp: undo_last_move_def)
    then show ?thesis using assms(2) played_undo [OF assms] r Undo by (cases r) auto
  next
    case (Resign col)
    obtain g1 r where r: "resign g col = (g1, r)" by fastforce
    then show ?thesis using failed_same(3) [OF ok] assms(2) played.resigned [OF assms(2)] Resign by (cases r) auto
  next
    case ClaimDraw
    obtain g1 r where r: "claim_draw g = (g1, r)" by fastforce
    then show ?thesis using failed_same(4) [OF ok] assms(2) played.drawn [OF assms(2)] ClaimDraw by (cases r) auto
  qed
qed

text \<open>With undo among the calls nothing new is reached.\<close>

lemma run_played:
  assumes "position_ok b c"
  shows "played b c (chess_run b c ops)"
proof -
  have "played b c g \<Longrightarrow> played b c (foldl (\<lambda>g op. fst (chess_step g op)) g ops)" for g
    using step_played [OF assms] by (induction ops arbitrary: g) simp_all
  then show ?thesis by (simp add: chess_run_def played.started)
qed

lemma run_ok: "position_ok b c \<Longrightarrow> game_ok b c (chess_run b c ops)"
  by (rule played_ok [OF _ run_played])

lemmas run_okD = game_okD [OF run_ok]

text \<open>A move and an undo as calls that succeed or fail.\<close>

type_synonym move_request = "square_like \<times> square_like \<times> PieceType option \<times> int option"

fun chess_act :: "game \<Rightarrow> move_request \<Rightarrow> chess_error + game" where
  "chess_act g (s0, q0, promotion, n) = (case make_move g s0 q0 promotion n of (g1, r) \<Rightarrow> map_sum id (\<lambda>_. g1) r)"

definition chess_undo :: "game \<Rightarrow> chess_error + game" where
  "chess_undo g = (case undo_last_move g of (g1, r) \<Rightarrow> map_sum id (\<lambda>_. g1) r)"

lemma chess_act_Inr: "chess_act g (s0, q0, promotion, n) = Inr g1 \<longleftrightarrow> (\<exists>m. make_move g s0 q0 promotion n = (g1, Inr m))"
  by (auto split: prod.split sum.split simp: map_sum_def split: sum.splits)

interpretation chess_moves: undoable chess_act chess_undo "game_ok b c" for b c
proof
  fix g t and m :: move_request
  assume g: "game_ok b c g" "chess_act g m = Inr t"
  obtain s0 q0 promotion n where m: "m = (s0, q0, promotion, n)" by (cases m)
  obtain mv where "make_move g s0 q0 promotion n = (t, Inr mv)" using g(2) unfolding m chess_act_Inr by blast
  then show "game_ok b c t" "chess_undo t = Inr g" using make_move_ok [OF g(1)] by (auto simp: chess_undo_def)
qed

section \<open>Checking a position\<close>

definition SQUARES :: "square list" where
  "SQUARES = concat (map (\<lambda>r. map (Pair r) [0..7]) [0..7])"

lemma in_SQUARES: "on_board q \<longleftrightarrow> q \<in> set SQUARES"
proof -
  have "(x, y) \<in> set SQUARES \<longleftrightarrow> x \<in> {0..7} \<and> y \<in> {0..7}" for x y
    by (auto simp: SQUARES_def image_iff simp del: upto_rec_numeral)
  then show ?thesis by (cases q) (auto simp: on_board_def)
qed

definition check_position :: "board \<Rightarrow> Color \<Rightarrow> bool" where
  "check_position b c =
     (length (bd_grid b) = 8 \<and> list_all (\<lambda>row. length row = 8) (bd_grid b) \<and> bd_en_passant_target b = None
      \<and> list_all (\<lambda>q. case get_piece_at b q of None \<Rightarrow> True | Some p \<Rightarrow> pc_position p = q \<and> (pc_type p = KING \<and> \<not> pc_has_moved p \<longrightarrow> snd q = 4)) SQUARES
      \<and> list_all (\<lambda>col. length (filter (\<lambda>q. case get_piece_at b q of None \<Rightarrow> False | Some p \<Rightarrow> pc_type p = KING \<and> pc_color p = col) SQUARES) = 1) [WHITE, BLACK]
      \<and> \<not> is_in_check b (opponent c))"

lemma one_of_filter:
  assumes "length (filter P xs) = 1" "\<And>x. P x \<Longrightarrow> x \<in> set xs"
  shows "\<exists>!x. P x"
proof -
  obtain y where "filter P xs = [y]" using assms(1) by (cases "filter P xs") auto
  then have "set (filter P xs) = {y}" by simp
  then have "P x \<longleftrightarrow> x = y" for x using assms(2) by auto
  then show ?thesis by simp
qed

lemma check_position_ok:
  assumes "check_position b c"
  shows "position_ok b c"
proof -
  have all: "pc_position p = q \<and> (pc_type p = KING \<and> \<not> pc_has_moved p \<longrightarrow> snd q = 4)" if "get_piece_at b q = Some p" for p q
    using assms get_on_board [OF that] that by (fastforce simp: check_position_def list_all_iff in_SQUARES)
  have k: "king_on b col = (\<lambda>q. case get_piece_at b q of None \<Rightarrow> False | Some p \<Rightarrow> pc_type p = KING \<and> pc_color p = col)" for col
    by (auto simp: king_on_def fun_eq_iff split: option.split)
  have "\<exists>!x. king_on b col x" for col
  proof (rule one_of_filter)
    have "col \<in> set [WHITE, BLACK]" by (cases col) simp_all
    then show "length (filter (king_on b col) SQUARES) = 1" using assms unfolding k check_position_def list_all_iff by blast
    show "x \<in> set SQUARES" if "king_on b col x" for x using that get_on_board [of b x] by (auto simp: king_on_def in_SQUARES [symmetric])
  qed
  then show ?thesis using assms all by (auto simp: position_ok_def kings_ok_def board_ok_def shaped_def check_position_def list_all_iff)
qed

lemma start_board_ok: "position_ok new_board WHITE"
  by (rule check_position_ok) code_simp

text \<open>A king and a rook against a king, one move before the mate on the last rank.\<close>

definition rook_ending :: board where
  "rook_ending = place (place (place empty_board KING WHITE (2, 6) True) ROOK WHITE (7, 0) True) KING BLACK (0, 7) True"

lemma rook_ending_ok: "position_ok rook_ending WHITE"
  by (rule check_position_ok) code_simp

section \<open>Properties\<close>

text \<open>C6. Whatever has been called before, \<open>legal_moves\<close> lists exactly the moves of the side to move that are pseudo-legal and do
  not leave its king attacked, \<open>has_legal_moves\<close> says whether there is one, both leave the board as it was, and \<open>make_move\<close>
  accepts a move exactly when the game is open, the ply is not stale, the promotion is allowed and the move is on the list;
  when it refuses, the game is unchanged.\<close>

theorem make_move_exactly_legal:
  assumes "position_ok b c" "g = chess_run b c ops" "sq s0 = Inr s" "sq q0 = Inr q"
  shows "\<exists>ms. legal_moves (gm_to_move g) (gm_board g) = (gm_board g, Inr ms)
      \<and> has_legal_moves (gm_to_move g) (gm_board g) = (gm_board g, Inr (ms \<noteq> []))
      \<and> (\<forall>x y. (x, y) \<in> set ms \<longleftrightarrow> legal (gm_board g) (gm_to_move g) x y)
      \<and> (isl (snd (make_move g s0 q0 promotion n)) \<longleftrightarrow>
           is_over (gm_status g) \<or> n \<noteq> None \<and> n \<noteq> Some (int (length (gm_history g))) \<or> \<not> choice_ok promotion \<or> (s, q) \<notin> set ms)
      \<and> (isl (snd (make_move g s0 q0 promotion n)) \<longrightarrow> fst (make_move g s0 q0 promotion n) = g)"
proof -
  have ok: "position_ok (gm_board g) (gm_to_move g)" unfolding assms(2) by (rule run_okD(1) [OF assms(1)])
  define ms where "ms = legal_list (gm_board g) (gm_to_move g) (pieces_of (gm_board g) (gm_to_move g))"
  have ms: "(x, y) \<in> set ms \<longleftrightarrow> legal (gm_board g) (gm_to_move g) x y" for x y
    by (simp add: ms_def in_legal_list [OF position_okD(1) [OF ok]])
  then have any: "can_move (gm_board g) (gm_to_move g) \<longleftrightarrow> ms \<noteq> []" unfolding can_move_def by (cases ms) force+
  have isl: "isl (snd (make_move g s0 q0 promotion n)) \<longleftrightarrow> refusal g s0 q0 promotion n \<noteq> None"
    "isl (snd (make_move g s0 q0 promotion n)) \<Longrightarrow> fst (make_move g s0 q0 promotion n) = g"
    by (cases rule: make_move_cases [OF ok, of s0 q0 promotion n]; simp)+
  show ?thesis
    using isl any by (intro exI [of _ ms]) (auto simp: ms legal_moves_eq [OF position_okD(1) [OF ok]] ms_def [symmetric] refusal_def assms(3,4))
qed

theorem make_move_exactly_legal_witness:
  "\<exists>ms. legal_moves WHITE new_board = (new_board, Inr ms) \<and> length ms = 20"
proof -
  have g: "gm_board (chess_run new_board WHITE []) = new_board" "gm_to_move (chess_run new_board WHITE []) = WHITE" by code_simp+
  have n: "length (legal_list new_board WHITE (pieces_of new_board WHITE)) = 20" by code_simp
  have "sq (Name ''e2'') = Inr (6, 4)" "sq (Name ''e4'') = Inr (4, 4)" by code_simp+
  from make_move_exactly_legal [OF start_board_ok refl this, of "[]" None None] n show ?thesis
    unfolding g legal_moves_eq(1) [OF position_okD(1) [OF start_board_ok]] by auto
qed

text \<open>C5. \<open>undo_last_move\<close> is an exact inverse of \<open>make_move\<close>: after any calls, making any number of accepted moves and undoing
  as many gives back the very game they started from, board, castling and en-passant rights, clock, status, winner, history
  and position counts.\<close>

theorem undo_restores_game:
  assumes "position_ok b c" "act_all chess_act (chess_run b c ops) ms = Inr g1"
  shows "undo_times chess_undo (length ms) g1 = Inr (chess_run b c ops)"
  by (rule chess_moves.undo_act_all [OF run_ok [OF assms(1)] assms(2)])

theorem undo_restores_game_witness:
  "\<exists>g1. chess_act (chess_run rook_ending WHITE []) (Name ''a1'', Name ''a8'', None, Some 0) = Inr g1
     \<and> gm_status g1 = CHECKMATE \<and> chess_undo g1 = Inr (chess_run rook_ending WHITE [])"
proof -
  obtain r where r: "chess_act (chess_run rook_ending WHITE []) (Name ''a1'', Name ''a8'', None, Some 0) = r" by fastforce
  have "(case chess_act (chess_run rook_ending WHITE []) (Name ''a1'', Name ''a8'', None, Some 0) of Inr g1 \<Rightarrow> gm_status g1 = CHECKMATE | Inl e \<Rightarrow> False)"
    by code_simp
  then obtain g1 where g: "gm_status g1 = CHECKMATE" "r = Inr g1" unfolding r by (cases r) simp_all
  then show ?thesis
    using undo_restores_game [OF rook_ending_ok, of "[]" "[(Name ''a1'', Name ''a8'', None, Some 0)]" g1] r by (auto split: sum.splits)
qed

text \<open>C19. From a sound starting position, whatever is called, undo included: each side has exactly one king on the board, the
  side that has just moved is not in check, and the game is one that accepted moves, a resignation or a claimed draw lead to
  without any undo.\<close>

theorem kings_never_hang:
  assumes "position_ok b c" "g = chess_run b c ops"
  shows "(\<exists>!x. king_on (gm_board g) WHITE x) \<and> (\<exists>!x. king_on (gm_board g) BLACK x)
     \<and> \<not> is_in_check (gm_board g) (opponent (gm_to_move g)) \<and> played b c g"
  using position_okD(2,3) [OF run_okD(1) [OF assms(1), of ops]] run_played [OF assms(1)] unfolding assms(2) kings_ok_def by simp

theorem kings_never_hang_witness:
  "\<exists>!x. king_on (gm_board (chess_run new_board WHITE [MakeMove (Name ''e2'') (Name ''e4'') None None, Undo])) BLACK x"
  using kings_never_hang [OF start_board_ok refl, of "[MakeMove (Name ''e2'') (Name ''e4'') None None, Undo]"] by simp











end
