(* ===== verification/Chess_Moves.thy ===== *)
theory Chess_Moves
  imports Chess_Game
begin

text \<open>
  Moves of \<open>Chess\<close> against the rules of the game: the loop of a sliding piece reaches exactly the squares on an open line, and
  a legal castling is never out of, through or into check.
\<close>

section \<open>Sliding\<close>

definition along :: "square \<Rightarrow> square \<Rightarrow> int \<Rightarrow> square" where
  "along s d k = (fst s + k * fst d, snd s + k * snd d)"

lemma along_add: "along (along s d i) d k = along s d (i + k)"
  by (simp add: along_def algebra_simps)

lemma along_zero [simp]: "along s d 0 = s"
  by (simp add: along_def)

lemma slide_head: "slide b col d (Suc n) p =
  (if \<not> on_board p then [] else (case get_piece_at b p of None \<Rightarrow> p # slide b col d n (along p d 1) | Some t \<Rightarrow> if pc_color t \<noteq> col then [p] else []))"
  by (simp add: along_def split: option.split)

text \<open>A square is on an open line from \<open>p\<close>: the squares before it are on the board and empty.\<close>

definition open_line :: "board \<Rightarrow> square \<Rightarrow> square \<Rightarrow> nat \<Rightarrow> bool" where
  "open_line b p d k \<longleftrightarrow> (\<forall>i < k. on_board (along p d (int i)) \<and> get_piece_at b (along p d (int i)) = None)"

lemma open_line_zero [simp]: "open_line b p d 0"
  by (simp add: open_line_def)

lemma open_line_Suc: "open_line b p d (Suc k) \<longleftrightarrow> on_board p \<and> get_piece_at b p = None \<and> open_line b (along p d 1) d k"
  by (auto simp: open_line_def along_add less_Suc_eq_0_disj)

lemma in_slide:
  "q \<in> set (slide b col d n p) \<longleftrightarrow> (\<exists>k < n. q = along p d (int k) \<and> open_line b p d k \<and> landing b col q)"
proof (induction n arbitrary: p)
  case (Suc n)
  have "(\<exists>k < Suc n. q = along p d (int k) \<and> open_line b p d k \<and> landing b col q) \<longleftrightarrow>
      q = p \<and> landing b col q \<or> (\<exists>k < n. q = along (along p d 1) d (int k) \<and> open_line b p d (Suc k) \<and> landing b col q)"
    by (auto simp: less_Suc_eq_0_disj along_add)
  also have "\<dots> \<longleftrightarrow> q = p \<and> landing b col q \<or> on_board p \<and> get_piece_at b p = None \<and> q \<in> set (slide b col d n (along p d 1))"
    by (auto simp: open_line_Suc Suc)
  also have "\<dots> \<longleftrightarrow> q \<in> set (slide b col d (Suc n) p)"
    unfolding slide_head by (auto simp: landing_def split: option.splits)
  finally show ?case by simp
qed simp

text \<open>Between two squares of the board all squares are on it, and no line has more than eight of them.\<close>

lemma along_between:
  assumes "on_board s" "on_board (along s d k)" "0 \<le> i" "i \<le> k"
  shows "on_board (along s d i)"
proof -
  have mid: "0 \<le> x + i * y \<and> x + i * y < 8" if "0 \<le> x" "x < 8" "0 \<le> x + k * y" "x + k * y < 8" for x y :: int
  proof (cases "0 \<le> y")
    case True
    have "0 \<le> i * y" "i * y \<le> k * y" using True assms(3,4) by (simp_all add: mult_right_mono)
    then show ?thesis using that by linarith
  next
    case False
    have "i * y \<le> 0" "k * y \<le> i * y" using False assms(3,4) by (simp_all add: mult_nonneg_nonpos mult_right_mono_neg)
    then show ?thesis using that by linarith
  qed
  show ?thesis using assms(1,2) mid [of "fst s" "fst d"] mid [of "snd s" "snd d"] by (simp add: on_board_def along_def)
qed

definition unit_step :: "square \<Rightarrow> bool" where
  "unit_step d \<longleftrightarrow> \<bar>fst d\<bar> = 1 \<or> \<bar>snd d\<bar> = 1"

lemma along_short:
  assumes "on_board s" "on_board (along s d k)" "0 \<le> k" "unit_step d"
  shows "k < 8"
  using assms by (auto simp: on_board_def along_def unit_step_def abs_if split: if_splits)

definition slide_dirs :: "PieceType \<Rightarrow> square list" where
  "slide_dirs t = (case t of QUEEN \<Rightarrow> ORTHOGONAL @ DIAGONAL | ROOK \<Rightarrow> ORTHOGONAL | BISHOP \<Rightarrow> DIAGONAL | _ \<Rightarrow> [])"

lemma slide_dirs_unit: "d \<in> set (slide_dirs t) \<Longrightarrow> unit_step d"
  by (cases t) (auto simp: slide_dirs_def ORTHOGONAL_def DIAGONAL_def unit_step_def)

lemma in_slides:
  assumes s: "pc_position p = s" "on_board s" and u: "\<And>d. d \<in> set ds \<Longrightarrow> unit_step d"
  shows "q \<in> set (slides b p ds) \<longleftrightarrow>
    (\<exists>d \<in> set ds. \<exists>k > 0. q = along s d k \<and> (\<forall>i. 0 < i \<and> i < k \<longrightarrow> get_piece_at b (along s d i) = None) \<and> landing b (pc_color p) q)"
    (is "_ \<longleftrightarrow> ?R")
proof
  have one: "(fst s + fst d, snd s + snd d) = along s d 1" for d by (simp add: along_def)
  assume "q \<in> set (slides b p ds)"
  then obtain d n where d: "d \<in> set ds" and n: "q = along s d (1 + int n)" "open_line b (along s d 1) d n" "landing b (pc_color p) q"
    by (auto simp: slides_def s(1) in_slide along_add one)
  have "get_piece_at b (along s d i) = None" if "0 < i" "i < 1 + int n" for i
    using n(2) that unfolding open_line_def along_add by (auto dest!: spec [of _ "nat (i - 1)"])
  then show ?R using d n(1,3) by (intro bexI [OF _ d] exI [of _ "1 + int n"]) simp
next
  assume ?R
  then obtain d k where d: "d \<in> set ds" and k: "k > 0" "q = along s d k" "\<forall>i. 0 < i \<and> i < k \<longrightarrow> get_piece_at b (along s d i) = None" "landing b (pc_color p) q"
    by blast
  have o: "on_board (along s d k)" using k(2,4) by (simp add: landing_def)
  have "k < 8" by (rule along_short [OF s(2) o _ u [OF d]]) (use k(1) in simp)
  moreover have "open_line b (along s d 1) d (nat (k - 1))"
    using k(1,3) along_between [OF s(2) o] by (auto simp: open_line_def along_add)
  moreover have "along (along s d 1) d (int (nat (k - 1))) = q" using k(1,2) by (simp add: along_add)
  ultimately have "q \<in> set (slide b (pc_color p) d 8 (along s d 1))" using k(1,4) unfolding in_slide by (intro exI [of _ "nat (k - 1)"]) auto
  then show "q \<in> set (slides b p ds)" using d by (auto simp: slides_def s(1) along_def)
qed

section \<open>Properties\<close>

text \<open>C39. A queen, rook or bishop has exactly the squares of an open line as its moves: some steps away in one of its directions,
  with only empty squares in between, on the board and not held by an own piece.\<close>

theorem sliding_moves_on_open_lines:
  assumes "board_ok b" "get_piece_at b s = Some p" "pc_type p \<in> {QUEEN, ROOK, BISHOP}"
  shows "q \<in> set (get_possible_moves b p) \<longleftrightarrow>
    (\<exists>d \<in> set (slide_dirs (pc_type p)). \<exists>k > 0. q = along s d k \<and> (\<forall>i. 0 < i \<and> i < k \<longrightarrow> get_piece_at b (along s d i) = None)
       \<and> on_board q \<and> map_option pc_color (get_piece_at b q) \<noteq> Some (pc_color p))"
proof -
  have "get_possible_moves b p = slides b p (slide_dirs (pc_type p))"
    using assms(3) by (auto simp: get_possible_moves_def attacks_def slide_dirs_def)
  moreover have "landing b (pc_color p) q \<longleftrightarrow> on_board q \<and> map_option pc_color (get_piece_at b q) \<noteq> Some (pc_color p)"
    by (simp add: landing_def split: option.split)
  ultimately show ?thesis
    using in_slides [OF board_okD(2) [OF assms(1,2)] get_on_board [OF assms(2)], of "slide_dirs (pc_type p)" q b] slide_dirs_unit by simp
qed

theorem sliding_moves_on_open_lines_witness:
  "get_piece_at rook_ending (along (7, 0) (-1, 0) 3) = None \<and> (0, 0) \<in> set (get_possible_moves rook_ending (the (get_piece_at rook_ending (7, 0))))"
proof -
  let ?p = "\<lparr>pc_type = ROOK, pc_color = WHITE, pc_position = (7, 0), pc_has_moved = True\<rparr>"
  have p: "get_piece_at rook_ending (7, 0) = Some ?p" "(0, 0) \<in> set (get_possible_moves rook_ending ?p)" "get_piece_at rook_ending (4, 0) = None" by code_simp+
  from sliding_moves_on_open_lines [OF position_okD(1) [OF rook_ending_ok] p(1), of "(0, 0)"] p(2)
  have "\<exists>d \<in> set (slide_dirs ROOK). \<exists>k > 0. (0, 0) = along (7, 0) d k" by auto
  then show ?thesis using p by (simp add: along_def)
qed

text \<open>C38. A legal castling follows the rules: the king has not moved and is not in check, an own rook that has not moved stands in
  the corner, every square between them is empty, the square the king passes and the one it lands on are not attacked, and
  afterwards the rook stands on the square passed.\<close>

theorem castling_by_the_rules:
  assumes "position_ok b c" "legal b c s q" "get_piece_at b s = Some k" "pc_type k = KING" "\<bar>snd q - snd s\<bar> = 2" "rook_squares s q = (corner, passed)"
  shows "\<not> pc_has_moved k \<and> \<not> is_in_check b c \<and> fst q = fst s
    \<and> (\<exists>rook. get_piece_at b corner = Some rook \<and> pc_type rook = ROOK \<and> pc_color rook = c \<and> \<not> pc_has_moved rook
         \<and> get_piece_at (after b s q None) passed = Some (relocate rook passed True))
    \<and> (\<forall>x. snd s < x \<and> x < snd corner \<or> snd corner < x \<and> x < snd s \<longrightarrow> get_piece_at b (fst s, x) = None)
    \<and> \<not> is_square_attacked b passed (opponent c) \<and> \<not> is_square_attacked b q (opponent c)
    \<and> get_piece_at (after b s q None) q = Some (relocate k q True)"
proof -
  have ok: "board_ok b" by (rule position_okD(1) [OF assms(1)])
  have kc: "pc_color k = c" "q \<in> set (get_possible_moves b k)" using assms(3) by (auto intro: legalE [OF assms(2)])
  have q: "q \<in> set (king_moves b k)" using kc(2) assms(4) by (simp add: get_possible_moves_def)
  have cas: "is_castling_move k s q" using assms(4,5) by (simp add: is_castling_move_def)
  have pos: "pc_position k = s" by (rule board_okD(2) [OF ok assms(3)])
  have cells: "get_piece_at (after b s q None) = cells_after b k s q None" by (rule after_facts [OF ok assms(3) kc(2) choice_ok_None])
  have co: "castling_ok b k s q" by (rule king_castles [OF ok assms(3,4) q cas])
  have cn: "captured_square b k s q = None" using captured_facts(5) [OF ok assms(3) kc(2)] cas by (cases "captured_square b k s q") auto
  have moved_cells: "get_piece_at (after b s q None) q = Some (relocate k q True)"
    "get_piece_at (after b s q None) passed = map_option (\<lambda>r. relocate r passed True) (get_piece_at b corner)"
    using co assms(4) cas by (auto simp: cells cells_after_def landed_def assms(6) cn castling_ok_def)
  show ?thesis
  proof (rule castle_cases [OF ok assms(3,4) q cas])
    assume a: "\<not> pc_has_moved k" "\<not> is_in_check b (pc_color k)" "snd s = 4" "can_castle b k 7 [5, 6] [5, 6]" "q = (fst s, 6)"
    then have r: "corner = (fst s, 7)" "passed = (fst s, 5)" using assms(6) by (simp_all add: rook_squares_def)
    have "x = 5 \<or> x = 6" if "4 < x" "x < 7" for x :: int using that by linarith
    then show ?thesis using a moved_cells kc(1) pos by (auto simp: can_castle_def r Let_def split: option.splits)
  next
    assume a: "\<not> pc_has_moved k" "\<not> is_in_check b (pc_color k)" "snd s = 4" "can_castle b k 0 [1, 2, 3] [3, 2]" "q = (fst s, 2)"
    then have r: "corner = (fst s, 0)" "passed = (fst s, 3)" using assms(6) by (simp_all add: rook_squares_def)
    have "x = 1 \<or> x = 2 \<or> x = 3" if "0 < x" "x < 4" for x :: int using that by linarith
    then show ?thesis using a moved_cells kc(1) pos by (auto simp: can_castle_def r Let_def split: option.splits)
  qed
qed

definition castling_corner :: board where
  "castling_corner = place (place (place empty_board KING WHITE (7, 4) False) ROOK WHITE (7, 7) False) KING BLACK (0, 4) False"

theorem castling_by_the_rules_witness:
  "legal castling_corner WHITE (7, 4) (7, 6) \<and> \<not> is_square_attacked castling_corner (7, 5) BLACK
     \<and> get_piece_at (after castling_corner (7, 4) (7, 6) None) (7, 6) \<noteq> None"
proof -
  let ?k = "\<lparr>pc_type = KING, pc_color = WHITE, pc_position = (7, 4), pc_has_moved = False\<rparr>"
  have ok: "position_ok castling_corner WHITE" by (rule check_position_ok) code_simp
  have l: "legal castling_corner WHITE (7, 4) (7, 6)" by code_simp
  have k: "get_piece_at castling_corner (7, 4) = Some ?k" "rook_squares (7, 4) (7, 6) = ((7, 7), (7, 5))" by code_simp+
  from castling_by_the_rules [OF ok l k(1) _ _ k(2)] l show ?thesis by simp
qed

end
