(* ===== verification/Movie_Tickets.thy ===== *)
theory Movie_Tickets
  imports Prelude "HOL-Library.AList"
begin

text \<open>
  Ticket booking of \<open>python-low-level-design/movie-ticket-booking/movie_ticket_booking.py\<close>: shows with a seat inventory each,
  pricing strategies, the fake payment gateway, and the booking service as the blocks its threads run. A \<open>ShowSeat\<close> is an
  object in a store, addressed by its show object and its seat id; a block under \<open>locked_in_order\<close> is one step, and so is a
  call of the gateway or an unlocked read. A time is a number of seconds from midnight of a Monday.
\<close>

declare split_paired_All [simp del] split_paired_Ex [simp del]

section \<open>Catalogue\<close>

datatype booking_error = BookingError | SeatUnavailable "string list" | HoldExpired | PaymentFailed | InvalidBookingState | Raised py_error

datatype City = MUMBAI | DELHI | BANGALORE

datatype Genre = ACTION | COMEDY | DRAMA | SCI_FI

datatype SeatCategory = REGULAR | PREMIUM | VIP

record movie_info =
  mo_id :: string
  mo_title :: string
  mo_genre :: Genre
  mo_duration :: int
  mo_language :: string

record seat =
  st_id :: string
  st_row :: string
  st_number :: nat
  st_category :: SeatCategory

record screen =
  sc_id :: string
  sc_name :: string
  sc_seats :: "seat list"

definition with_rows :: "string \<Rightarrow> string \<Rightarrow> (string \<times> SeatCategory) list \<Rightarrow> nat \<Rightarrow> screen" where
  "with_rows i n rows per_row =
     \<lparr>sc_id = i, sc_name = n,
      sc_seats = concat (map (\<lambda>(r, c). map (\<lambda>k. \<lparr>st_id = r @ digits k, st_row = r, st_number = k, st_category = c\<rparr>) [1..<per_row + 1]) rows)\<rparr>"

record theatre =
  th_id :: string
  th_name :: string
  th_city :: City

section \<open>Seats of a show\<close>

datatype SeatStatus = AVAILABLE | HELD | BOOKED

record show_seat =
  ss_seat :: seat
  ss_status :: SeatStatus
  ss_booking :: "nat option"
  ss_expires :: "int option"

definition fresh_seat :: "seat \<Rightarrow> show_seat" where
  "fresh_seat s = \<lparr>ss_seat = s, ss_status = AVAILABLE, ss_booking = None, ss_expires = None\<rparr>"

definition is_free :: "int \<Rightarrow> show_seat \<Rightarrow> bool" where
  "is_free now s =
     (if ss_status s = AVAILABLE then True
      else ss_status s = HELD \<and> (case ss_expires s of None \<Rightarrow> False | Some e \<Rightarrow> e \<le> now))"

definition held_by :: "nat \<Rightarrow> show_seat \<Rightarrow> bool" where
  "held_by bid s \<longleftrightarrow> ss_status s = HELD \<and> ss_booking s = Some bid"

definition hold :: "nat \<Rightarrow> int \<Rightarrow> show_seat \<Rightarrow> show_seat" where
  "hold bid expires s = s\<lparr>ss_status := HELD, ss_booking := Some bid, ss_expires := Some expires\<rparr>"

definition book :: "show_seat \<Rightarrow> show_seat" where
  "book s = s\<lparr>ss_status := BOOKED, ss_expires := None\<rparr>"

definition release :: "show_seat \<Rightarrow> show_seat" where
  "release s = s\<lparr>ss_status := AVAILABLE, ss_booking := None, ss_expires := None\<rparr>"

record cinema_show =
  sh_id :: string
  sh_movie :: movie_info
  sh_theatre :: theatre
  sh_screen :: screen
  sh_start :: int
  sh_end :: int
  sh_base_prices :: "(SeatCategory \<times> rat) list"

definition new_show :: "string \<Rightarrow> movie_info \<Rightarrow> theatre \<Rightarrow> screen \<Rightarrow> int \<Rightarrow> (SeatCategory \<times> rat) list \<Rightarrow> booking_error + cinema_show" where
  "new_show i mo th scr start prices =
     (if list_all (\<lambda>s. map_of prices (st_category s) \<noteq> None) (sc_seats scr)
      then Inr \<lparr>sh_id = i, sh_movie = mo, sh_theatre = th, sh_screen = scr, sh_start = start, sh_end = start + 60 * (mo_duration mo + 15),
                sh_base_prices = prices\<rparr>
      else Inl (Raised ValueError))"

text \<open>The dictionary of a show's seats: a later seat of the same id replaces an earlier one.\<close>

definition inventory :: "cinema_show \<Rightarrow> (string \<times> show_seat) list" where
  "inventory s = foldl (\<lambda>d x. AList.update (st_id x) (fresh_seat x) d) [] (sc_seats (sh_screen s))"

section \<open>Pricing\<close>

definition hour_of :: "int \<Rightarrow> int" where
  "hour_of t = (t div 3600) mod 24"

definition weekday_of :: "int \<Rightarrow> int" where
  "weekday_of t = (t div 86400) mod 7"

datatype PricingStrategy = StandardPricing | PeakHourPricing "int list" rat | WeekendPricing rat | CompositePricing "PricingStrategy list"

fun price :: "PricingStrategy \<Rightarrow> rat \<Rightarrow> cinema_show \<Rightarrow> seat \<Rightarrow> rat" where
  "price StandardPricing base s x = base"
| "price (PeakHourPricing hours multiplier) base s x = (if hour_of (sh_start s) \<in> set hours then base * multiplier else base)"
| "price (WeekendPricing multiplier) base s x = (if weekday_of (sh_start s) \<ge> 5 then base * multiplier else base)"
| "price (CompositePricing ps) base s x = foldl (\<lambda>b p. price p b s x) base ps"

text \<open>\<open>quantize(PAISE, ROUND_HALF_UP)\<close>: half a paisa goes away from zero.\<close>

definition paise :: "rat \<Rightarrow> rat" where
  "paise x = (if 0 \<le> x then of_int \<lfloor>x * 100 + 1 / 2\<rfloor> / 100 else - (of_int \<lfloor>- x * 100 + 1 / 2\<rfloor> / 100))"

section \<open>Payment\<close>

record gateway =
  gw_by_key :: "(nat \<times> nat) list"
  gw_charges :: "(nat \<times> rat) list"
  gw_refunds :: "(nat \<times> rat) list"
  gw_decline_next :: bool
  gw_next :: nat

definition new_gateway :: gateway where
  "new_gateway = \<lparr>gw_by_key = [], gw_charges = [], gw_refunds = [], gw_decline_next = False, gw_next = 1\<rparr>"

definition gw_charge :: "gateway \<Rightarrow> nat \<Rightarrow> rat \<Rightarrow> gateway \<times> (booking_error + nat)" where
  "gw_charge g key amount =
     (case map_of (gw_by_key g) key of
        Some pid \<Rightarrow> (g, Inr pid)
      | None \<Rightarrow>
          if gw_decline_next g then (g\<lparr>gw_decline_next := False\<rparr>, Inl PaymentFailed)
          else (g\<lparr>gw_by_key := AList.update key (gw_next g) (gw_by_key g), gw_charges := gw_charges g @ [(gw_next g, amount)],
                  gw_next := gw_next g + 1\<rparr>, Inr (gw_next g)))"

definition gw_refund :: "gateway \<Rightarrow> nat \<Rightarrow> rat \<Rightarrow> gateway" where
  "gw_refund g pid amount = g\<lparr>gw_refunds := gw_refunds g @ [(pid, amount)]\<rparr>"

section \<open>Bookings\<close>

datatype BookingStatus = PENDING | CONFIRMED | CANCELLED | EXPIRED

record booking =
  bk_user :: string
  bk_show :: nat
  bk_seats :: "string list"
  bk_line_prices :: "(string \<times> rat) list"
  bk_expires :: int
  bk_status :: BookingStatus
  bk_payment :: "nat option"

definition total_price :: "booking \<Rightarrow> rat" where
  "total_price b = sum_list (map snd (bk_line_prices b))"

record tickets =
  tk_objects :: "cinema_show list"
  tk_store :: "nat \<times> string \<Rightarrow> show_seat option"
  tk_shows :: "(string \<times> nat) list"
  tk_bookings :: "(nat \<times> booking) list"
  tk_next :: nat
  tk_gateway :: gateway
  tk_pricing :: PricingStrategy
  tk_hold_ttl :: int

definition new_service :: "PricingStrategy \<Rightarrow> int \<Rightarrow> tickets" where
  "new_service pricing ttl =
     \<lparr>tk_objects = [], tk_store = (\<lambda>_. None), tk_shows = [], tk_bookings = [], tk_next = 1, tk_gateway = new_gateway, tk_pricing = pricing,
      tk_hold_ttl = ttl\<rparr>"

text \<open>A \<open>Show\<close> object comes into being with its seats; \<open>add_show\<close> puts it into the registry.\<close>

definition create_show :: "tickets \<Rightarrow> cinema_show \<Rightarrow> tickets" where
  "create_show t s =
     (let ref = length (tk_objects t)
      in t\<lparr>tk_objects := tk_objects t @ [s], tk_store := (\<lambda>k. if fst k = ref then map_of (inventory s) (snd k) else tk_store t k)\<rparr>)"

definition add_show :: "tickets \<Rightarrow> nat \<Rightarrow> tickets" where
  "add_show t ref = t\<lparr>tk_shows := AList.update (sh_id (tk_objects t ! ref)) ref (tk_shows t)\<rparr>"

definition find_show :: "tickets \<Rightarrow> string \<Rightarrow> booking_error + nat" where
  "find_show t i = (case map_of (tk_shows t) i of None \<Rightarrow> Inl BookingError | Some ref \<Rightarrow> Inr ref)"

definition search :: "tickets \<Rightarrow> City option \<Rightarrow> string option \<Rightarrow> int option \<Rightarrow> Genre option \<Rightarrow> cinema_show list" where
  "search t city mo day genre =
     sort_key sh_start (filter (\<lambda>s. (city = None \<or> Some (th_city (sh_theatre s)) = city) \<and> (mo = None \<or> Some (mo_id (sh_movie s)) = mo)
         \<and> (day = None \<or> Some (sh_start s div 86400) = day) \<and> (genre = None \<or> Some (mo_genre (sh_movie s)) = genre))
       (map (\<lambda>x. tk_objects t ! snd x) (tk_shows t)))"

definition available_seats :: "tickets \<Rightarrow> int \<Rightarrow> string \<Rightarrow> booking_error + string list" where
  "available_seats t now i =
     bind_sum (find_show t i) (\<lambda>ref. Inr (filter (\<lambda>sid. case tk_store t (ref, sid) of None \<Rightarrow> False | Some s \<Rightarrow> is_free now s)
       (map fst (inventory (tk_objects t ! ref)))))"

definition find_booking :: "tickets \<Rightarrow> nat \<Rightarrow> booking_error + booking" where
  "find_booking t bid = (case map_of (tk_bookings t) bid of None \<Rightarrow> Inl BookingError | Some b \<Rightarrow> Inr b)"

definition put_booking :: "tickets \<Rightarrow> nat \<Rightarrow> booking \<Rightarrow> tickets" where
  "put_booking t bid b = t\<lparr>tk_bookings := AList.update bid b (tk_bookings t)\<rparr>"

text \<open>A change to some seats of a show.\<close>

definition on_seats :: "tickets \<Rightarrow> nat \<Rightarrow> string list \<Rightarrow> (show_seat \<Rightarrow> show_seat) \<Rightarrow> tickets" where
  "on_seats t ref ids f = t\<lparr>tk_store := (\<lambda>k. if fst k = ref \<and> snd k \<in> set ids then map_option f (tk_store t k) else tk_store t k)\<rparr>"

definition seats_all :: "tickets \<Rightarrow> nat \<Rightarrow> string list \<Rightarrow> (show_seat \<Rightarrow> bool) \<Rightarrow> bool" where
  "seats_all t ref ids P = list_all (\<lambda>sid. case tk_store t (ref, sid) of None \<Rightarrow> False | Some s \<Rightarrow> P s) ids"

section \<open>The blocks\<close>

definition MAX_SEATS_PER_BOOKING :: nat where
  "MAX_SEATS_PER_BOOKING = 10"

text \<open>\<open>hold_seats\<close> up to its locks.\<close>

definition check_request :: "tickets \<Rightarrow> string \<Rightarrow> string list \<Rightarrow> booking_error + nat" where
  "check_request t i ids =
     (if ids = [] then Inl BookingError
      else if length (remdups ids) \<noteq> length ids then Inl BookingError
      else if length ids > MAX_SEATS_PER_BOOKING then Inl BookingError
      else bind_sum (find_show t i) (\<lambda>ref. if list_all (\<lambda>sid. tk_store t (ref, sid) \<noteq> None) ids then Inr ref else Inl BookingError))"

definition hold_locked :: "tickets \<Rightarrow> int \<Rightarrow> nat \<Rightarrow> string list \<Rightarrow> nat \<Rightarrow> tickets \<times> (booking_error + int)" where
  "hold_locked t now ref ids bid =
     (if now \<ge> sh_start (tk_objects t ! ref) then (t, Inl BookingError)
      else (let taken = filter (\<lambda>sid. case tk_store t (ref, sid) of None \<Rightarrow> False | Some s \<Rightarrow> \<not> is_free now s) ids
            in if taken \<noteq> [] then (t, Inl (SeatUnavailable taken))
               else (on_seats t ref ids (hold bid (now + tk_hold_ttl t)), Inr (now + tk_hold_ttl t))))"

fun price_seats :: "tickets \<Rightarrow> nat \<Rightarrow> string list \<Rightarrow> booking_error + (string \<times> rat) list" where
  "price_seats t ref [] = Inr []"
| "price_seats t ref (sid # ids) =
     (let s = tk_objects t ! ref; x = ss_seat (the (tk_store t (ref, sid)))
      in (case map_of (sh_base_prices s) (st_category x) of
            None \<Rightarrow> Inl (Raised KeyError)
          | Some base \<Rightarrow> bind_sum (price_seats t ref ids) (\<lambda>ps. Inr ((sid, paise (price (tk_pricing t) base s x)) # ps))))"

definition register :: "tickets \<Rightarrow> nat \<Rightarrow> string \<Rightarrow> string list \<Rightarrow> nat \<Rightarrow> int \<Rightarrow> tickets \<times> (booking_error + nat)" where
  "register t ref user ids bid expires =
     (case price_seats t ref ids of
        Inl e \<Rightarrow> (t, Inl e)
      | Inr prices \<Rightarrow>
          (put_booking t bid \<lparr>bk_user = user, bk_show = ref, bk_seats = ids, bk_line_prices = prices, bk_expires = expires,
             bk_status = PENDING, bk_payment = None\<rparr>, Inr bid))"

definition expire_locked :: "tickets \<Rightarrow> nat \<Rightarrow> booking \<Rightarrow> tickets \<times> bool" where
  "expire_locked t bid b =
     (if bk_status b \<noteq> PENDING then (t, False)
      else (put_booking (on_seats t (bk_show b) (bk_seats b) (\<lambda>s. if held_by bid s then release s else s)) bid (b\<lparr>bk_status := EXPIRED\<rparr>), True))"

text \<open>The block of \<open>pay_and_confirm\<close> after the charge; \<open>False\<close> when the money has to go back.\<close>

definition confirm_locked :: "tickets \<Rightarrow> int \<Rightarrow> nat \<Rightarrow> booking \<Rightarrow> nat \<Rightarrow> tickets \<times> bool" where
  "confirm_locked t now bid b pid =
     (if bk_status b = CONFIRMED then (t, True)
      else if bk_status b = PENDING \<and> now < bk_expires b \<and> seats_all t (bk_show b) (bk_seats b) (held_by bid)
      then (put_booking (on_seats t (bk_show b) (bk_seats b) book) bid (b\<lparr>bk_status := CONFIRMED, bk_payment := Some pid\<rparr>), True)
      else (fst (expire_locked t bid b), False))"

definition cancel_locked :: "tickets \<Rightarrow> nat \<Rightarrow> booking \<Rightarrow> tickets \<times> (booking_error + BookingStatus)" where
  "cancel_locked t bid b =
     (if bk_status b \<noteq> PENDING \<and> bk_status b \<noteq> CONFIRMED then (t, Inl InvalidBookingState)
      else (put_booking (on_seats t (bk_show b) (bk_seats b) (\<lambda>s. if ss_booking s = Some bid then release s else s)) bid (b\<lparr>bk_status := CANCELLED\<rparr>),
            Inr (bk_status b)))"

definition refund_payment :: "tickets \<Rightarrow> nat \<Rightarrow> booking \<Rightarrow> tickets" where
  "refund_payment t pid b = t\<lparr>tk_gateway := gw_refund (tk_gateway t) pid (total_price b)\<rparr>"

section \<open>Threads\<close>

datatype call = Hold string string "string list" | Pay nat | Cancel nat | Sweep

datatype answer = Held_as nat | Paid nat | Cancelled nat | Swept nat

text \<open>Where a thread stands, with its local variables; a booking object is known by its id.\<close>

datatype pc =
    Holding nat string "string list" nat
  | Registering nat string "string list" nat int
  | Pay_check nat
  | Pay_clock nat
  | Pay_expire nat
  | Pay_charge nat
  | Pay_confirm nat nat
  | Pay_refund nat nat
  | Cancelling nat
  | Cancel_refund nat nat
  | Sweeping "nat list" nat
  | Done "booking_error + answer"

definition start_call :: "tickets \<Rightarrow> int \<Rightarrow> call \<Rightarrow> tickets \<times> pc" where
  "start_call t now c =
     (case c of
        Hold i user ids \<Rightarrow>
          (case check_request t i ids of
             Inl e \<Rightarrow> (t, Done (Inl e))
           | Inr ref \<Rightarrow> (t\<lparr>tk_next := tk_next t + 1\<rparr>, Holding ref user ids (tk_next t)))
      | Pay bid \<Rightarrow>
          (case find_booking t bid of
             Inl e \<Rightarrow> (t, Done (Inl e))
           | Inr b \<Rightarrow> (t, if bk_status b = CONFIRMED then Done (Inr (Paid bid)) else Pay_check bid))
      | Cancel bid \<Rightarrow> (case find_booking t bid of Inl e \<Rightarrow> (t, Done (Inl e)) | Inr b \<Rightarrow> (t, Cancelling bid))
      | Sweep \<Rightarrow> (t, Sweeping (map fst (filter (\<lambda>x. bk_status (snd x) = PENDING \<and> bk_expires (snd x) \<le> now) (tk_bookings t))) 0))"

definition the_booking :: "tickets \<Rightarrow> nat \<Rightarrow> booking" where
  "the_booking t bid = the (map_of (tk_bookings t) bid)"

fun run_pc :: "tickets \<Rightarrow> int \<Rightarrow> pc \<Rightarrow> tickets \<times> pc" where
  "run_pc t now (Holding ref user ids bid) =
     (case hold_locked t now ref ids bid of
        (t1, Inl e) \<Rightarrow> (t1, Done (Inl e)) | (t1, Inr expires) \<Rightarrow> (t1, Registering ref user ids bid expires))"
| "run_pc t now (Registering ref user ids bid expires) =
     (case register t ref user ids bid expires of (t1, Inl e) \<Rightarrow> (t1, Done (Inl e)) | (t1, Inr x) \<Rightarrow> (t1, Done (Inr (Held_as bid))))"
| "run_pc t now (Pay_check bid) = (t, if bk_status (the_booking t bid) \<noteq> PENDING then Done (Inl InvalidBookingState) else Pay_clock bid)"
| "run_pc t now (Pay_clock bid) = (t, if now \<ge> bk_expires (the_booking t bid) then Pay_expire bid else Pay_charge bid)"
| "run_pc t now (Pay_expire bid) = (fst (expire_locked t bid (the_booking t bid)), Done (Inl HoldExpired))"
| "run_pc t now (Pay_charge bid) =
     (case gw_charge (tk_gateway t) bid (total_price (the_booking t bid)) of
        (g, Inl e) \<Rightarrow> (t\<lparr>tk_gateway := g\<rparr>, Done (Inl e)) | (g, Inr pid) \<Rightarrow> (t\<lparr>tk_gateway := g\<rparr>, Pay_confirm bid pid))"
| "run_pc t now (Pay_confirm bid pid) =
     (case confirm_locked t now bid (the_booking t bid) pid of
        (t1, True) \<Rightarrow> (t1, Done (Inr (Paid bid))) | (t1, False) \<Rightarrow> (t1, Pay_refund bid pid))"
| "run_pc t now (Pay_refund bid pid) = (refund_payment t pid (the_booking t bid), Done (Inl HoldExpired))"
| "run_pc t now (Cancelling bid) =
     (case cancel_locked t bid (the_booking t bid) of
        (t1, Inl e) \<Rightarrow> (t1, Done (Inl e))
      | (t1, Inr was) \<Rightarrow>
          (case (was, bk_payment (the_booking t bid)) of
             (CONFIRMED, Some pid) \<Rightarrow> (t1, Cancel_refund bid pid) | _ \<Rightarrow> (t1, Done (Inr (Cancelled bid)))))"
| "run_pc t now (Cancel_refund bid pid) = (refund_payment t pid (the_booking t bid), Done (Inr (Cancelled bid)))"
| "run_pc t now (Sweeping [] n) = (t, Done (Inr (Swept n)))"
| "run_pc t now (Sweeping (bid # bids) n) =
     (case expire_locked t bid (the_booking t bid) of (t1, done) \<Rightarrow> (t1, Sweeping bids (if done then n + 1 else n)))"
| "run_pc t now (Done r) = (t, Done r)"

text \<open>The service with its threads. \<open>Decline\<close> sets the flag of the fake gateway.\<close>

record box_office =
  bx_tickets :: tickets
  bx_threads :: "pc list"

datatype office_op = Create cinema_show | Add_show nat | Decline | Spawn call | Run nat

fun office_step :: "box_office \<Rightarrow> int \<times> office_op \<Rightarrow> box_office \<times> unit" where
  "office_step w (now, Create s) = (w\<lparr>bx_tickets := create_show (bx_tickets w) s\<rparr>, ())"
| "office_step w (now, Add_show ref) = (if ref < length (tk_objects (bx_tickets w)) then w\<lparr>bx_tickets := add_show (bx_tickets w) ref\<rparr> else w, ())"
| "office_step w (now, Decline) =
     (w\<lparr>bx_tickets := (bx_tickets w)\<lparr>tk_gateway := (tk_gateway (bx_tickets w))\<lparr>gw_decline_next := True\<rparr>\<rparr>\<rparr>, ())"
| "office_step w (now, Spawn c) =
     (case start_call (bx_tickets w) now c of (t, p) \<Rightarrow> (w\<lparr>bx_tickets := t, bx_threads := bx_threads w @ [p]\<rparr>, ()))"
| "office_step w (now, Run i) =
     (if i < length (bx_threads w)
      then (case run_pc (bx_tickets w) now (bx_threads w ! i) of (t, p) \<Rightarrow> (w\<lparr>bx_tickets := t, bx_threads := (bx_threads w)[i := p]\<rparr>, ()))
      else (w, ()))"

definition new_office :: "PricingStrategy \<Rightarrow> int \<Rightarrow> box_office" where
  "new_office pricing ttl = \<lparr>bx_tickets = new_service pricing ttl, bx_threads = []\<rparr>"

end
