(* ===== verification/Movie_Safety.thy ===== *)
theory Movie_Safety
  imports Movie_Tickets
begin

text \<open>
  Any interleaving of the threads of \<open>Movie_Tickets\<close>, with any readings of the clock: no seat is sold twice, a booked seat
  belongs to a confirmed booking, and money that was charged is either for a confirmed booking or goes back.
\<close>

declare split_paired_All [simp del] split_paired_Ex [simp del]

section \<open>Seats\<close>

lemma put_booking_simps [simp]:
  "tk_store (put_booking t bid b) = tk_store t" "tk_objects (put_booking t bid b) = tk_objects t" "tk_gateway (put_booking t bid b) = tk_gateway t"
  "tk_next (put_booking t bid b) = tk_next t" "tk_shows (put_booking t bid b) = tk_shows t"
  "map_of (tk_bookings (put_booking t bid b)) = (map_of (tk_bookings t))(bid \<mapsto> b)"
  by (simp_all add: put_booking_def update_conv' fun_eq_iff)

lemma on_seats_simps [simp]:
  "tk_objects (on_seats t ref ids f) = tk_objects t" "tk_gateway (on_seats t ref ids f) = tk_gateway t" "tk_next (on_seats t ref ids f) = tk_next t"
  "tk_bookings (on_seats t ref ids f) = tk_bookings t" "tk_shows (on_seats t ref ids f) = tk_shows t"
  "tk_store (on_seats t ref ids f) k = (if fst k = ref \<and> snd k \<in> set ids then map_option f (tk_store t k) else tk_store t k)"
  by (simp_all add: on_seats_def)

text \<open>The seats of a confirmed booking are booked for it, a booked seat is one of a confirmed booking, and seats belong to show objects.\<close>

definition seats_ok :: "tickets \<Rightarrow> bool" where
  "seats_ok t \<longleftrightarrow>
     (\<forall>bid b sid. map_of (tk_bookings t) bid = Some b \<and> bk_status b = CONFIRMED \<and> sid \<in> set (bk_seats b)
        \<longrightarrow> (\<exists>s. tk_store t (bk_show b, sid) = Some s \<and> ss_status s = BOOKED \<and> ss_booking s = Some bid))
     \<and> (\<forall>k s. tk_store t k = Some s \<and> ss_status s = BOOKED
        \<longrightarrow> (\<exists>bid b. ss_booking s = Some bid \<and> map_of (tk_bookings t) bid = Some b \<and> bk_status b = CONFIRMED \<and> fst k = bk_show b \<and> snd k \<in> set (bk_seats b)))
     \<and> (\<forall>k s. tk_store t k = Some s \<longrightarrow> fst k < length (tk_objects t))"

lemma seats_okD:
  assumes "seats_ok t"
  shows "map_of (tk_bookings t) bid = Some b \<Longrightarrow> bk_status b = CONFIRMED \<Longrightarrow> sid \<in> set (bk_seats b)
      \<Longrightarrow> \<exists>s. tk_store t (bk_show b, sid) = Some s \<and> ss_status s = BOOKED \<and> ss_booking s = Some bid"
    "tk_store t k = Some s \<Longrightarrow> ss_status s = BOOKED
      \<Longrightarrow> \<exists>bid b. ss_booking s = Some bid \<and> map_of (tk_bookings t) bid = Some b \<and> bk_status b = CONFIRMED \<and> fst k = bk_show b \<and> snd k \<in> set (bk_seats b)"
    "tk_store t k = Some s \<Longrightarrow> fst k < length (tk_objects t)"
  using assms unfolding seats_ok_def by blast+

lemma seats_okI:
  assumes "\<And>bid b sid. map_of (tk_bookings t) bid = Some b \<Longrightarrow> bk_status b = CONFIRMED \<Longrightarrow> sid \<in> set (bk_seats b)
      \<Longrightarrow> \<exists>s. tk_store t (bk_show b, sid) = Some s \<and> ss_status s = BOOKED \<and> ss_booking s = Some bid"
    "\<And>k s. tk_store t k = Some s \<Longrightarrow> ss_status s = BOOKED
      \<Longrightarrow> \<exists>bid b. ss_booking s = Some bid \<and> map_of (tk_bookings t) bid = Some b \<and> bk_status b = CONFIRMED \<and> fst k = bk_show b \<and> snd k \<in> set (bk_seats b)"
    "\<And>k s. tk_store t k = Some s \<Longrightarrow> fst k < length (tk_objects t)"
  shows "seats_ok t"
  using assms unfolding seats_ok_def by blast

text \<open>A block that changes one booking and its seats, and leaves alone what is booked for others.\<close>

lemma seats_ok_change:
  assumes ok: "seats_ok t" and b: "map_of (tk_bookings t) bid = Some b" and same: "bk_show b' = bk_show b" "bk_seats b' = bk_seats b"
    and others: "\<And>sid s. sid \<in> set (bk_seats b) \<Longrightarrow> tk_store t (bk_show b, sid) = Some s \<Longrightarrow> ss_status s = BOOKED \<Longrightarrow> ss_booking s \<noteq> Some bid \<Longrightarrow> f s = s"
    and booked: "\<And>sid s. sid \<in> set (bk_seats b) \<Longrightarrow> tk_store t (bk_show b, sid) = Some s \<Longrightarrow> ss_status (f s) = BOOKED \<Longrightarrow>
      bk_status b' = CONFIRMED \<and> ss_booking (f s) = Some bid \<or> f s = s \<and> ss_booking s \<noteq> Some bid"
    and confirmed: "\<And>sid. bk_status b' = CONFIRMED \<Longrightarrow> sid \<in> set (bk_seats b) \<Longrightarrow>
      \<exists>s. tk_store t (bk_show b, sid) = Some s \<and> ss_status (f s) = BOOKED \<and> ss_booking (f s) = Some bid"
  shows "seats_ok (put_booking (on_seats t (bk_show b) (bk_seats b) f) bid b')"
proof (rule seats_okI)
  fix x c sid
  assume c: "map_of (tk_bookings (put_booking (on_seats t (bk_show b) (bk_seats b) f) bid b')) x = Some c" "bk_status c = CONFIRMED" "sid \<in> set (bk_seats c)"
  show "\<exists>s. tk_store (put_booking (on_seats t (bk_show b) (bk_seats b) f) bid b') (bk_show c, sid) = Some s \<and> ss_status s = BOOKED \<and> ss_booking s = Some x"
  proof (cases "x = bid")
    case True
    then have "c = b'" using c(1) by simp
    then show ?thesis using confirmed [of sid] c(2,3) same True by auto
  next
    case False
    then have "map_of (tk_bookings t) x = Some c" using c(1) by simp
    then obtain s where s: "tk_store t (bk_show c, sid) = Some s" "ss_status s = BOOKED" "ss_booking s = Some x"
      using seats_okD(1) [OF ok _ c(2,3)] by blast
    then show ?thesis using others [of sid s] False by auto
  qed
next
  fix k s
  assume s: "tk_store (put_booking (on_seats t (bk_show b) (bk_seats b) f) bid b') k = Some s" "ss_status s = BOOKED"
  let ?goal = "\<exists>x c. ss_booking s = Some x \<and> map_of (tk_bookings (put_booking (on_seats t (bk_show b) (bk_seats b) f) bid b')) x = Some c
    \<and> bk_status c = CONFIRMED \<and> fst k = bk_show c \<and> snd k \<in> set (bk_seats c)"
  have old: ?goal if o: "tk_store t k = Some s" "ss_booking s \<noteq> Some bid"
  proof -
    obtain x c where "ss_booking s = Some x" "map_of (tk_bookings t) x = Some c" "bk_status c = CONFIRMED" "fst k = bk_show c" "snd k \<in> set (bk_seats c)"
      using seats_okD(2) [OF ok o(1) s(2)] by blast
    then show ?goal using o(2) by auto
  qed
  show ?goal
  proof (cases "fst k = bk_show b \<and> snd k \<in> set (bk_seats b)")
    case True
    then obtain s0 where s0: "tk_store t k = Some s0" "s = f s0" using s(1) by auto
    from booked [of "snd k" s0] have "bk_status b' = CONFIRMED \<and> ss_booking s = Some bid \<or> f s0 = s0 \<and> ss_booking s0 \<noteq> Some bid"
      using True s0 s(2) by (cases k) auto
    then show ?thesis
    proof
      assume "bk_status b' = CONFIRMED \<and> ss_booking s = Some bid"
      then show ?thesis using True same by auto
    next
      assume "f s0 = s0 \<and> ss_booking s0 \<noteq> Some bid"
      then show ?thesis using old s0 by simp
    qed
  next
    case False
    then have k: "tk_store t k = Some s" using s(1) by (auto split: if_splits)
    have "ss_booking s \<noteq> Some bid" using seats_okD(2) [OF ok k s(2)] b False by auto
    then show ?thesis by (rule old [OF k])
  qed
next
  fix k s
  assume "tk_store (put_booking (on_seats t (bk_show b) (bk_seats b) f) bid b') k = Some s"
  then obtain s0 where "tk_store t k = Some s0" by (auto split: if_splits)
  then show "fst k < length (tk_objects (put_booking (on_seats t (bk_show b) (bk_seats b) f) bid b'))" using seats_okD(3) [OF ok] by simp
qed

lemma seat_changes [simp]:
  "ss_status (hold bid e s) = HELD" "ss_status (book s) = BOOKED" "ss_booking (book s) = ss_booking s" "ss_status (release s) = AVAILABLE"
  by (simp_all add: hold_def book_def release_def)

lemma expire_seats_ok:
  assumes ok: "seats_ok t" and b: "map_of (tk_bookings t) bid = Some b"
  shows "seats_ok (fst (expire_locked t bid b))"
proof (cases "bk_status b = PENDING")
  case True
  have mine: "\<not> (ss_status s = BOOKED \<and> ss_booking s = Some bid)" if "tk_store t k = Some s" for k s
    using seats_okD(2) [OF ok that] b True by auto
  have "seats_ok (put_booking (on_seats t (bk_show b) (bk_seats b) (\<lambda>s. if held_by bid s then release s else s)) bid (b\<lparr>bk_status := EXPIRED\<rparr>))"
    by (rule seats_ok_change [OF ok b]) (use mine in \<open>auto simp: held_by_def split: if_splits\<close>)
  then show ?thesis using True by (simp add: expire_locked_def)
qed (simp add: expire_locked_def ok)

lemma cancel_seats_ok:
  assumes ok: "seats_ok t" and b: "map_of (tk_bookings t) bid = Some b"
  shows "seats_ok (fst (cancel_locked t bid b))"
proof -
  have "seats_ok (put_booking (on_seats t (bk_show b) (bk_seats b) (\<lambda>s. if ss_booking s = Some bid then release s else s)) bid (b\<lparr>bk_status := CANCELLED\<rparr>))"
    by (rule seats_ok_change [OF ok b]) (auto split: if_splits)
  then show ?thesis using ok by (simp add: cancel_locked_def)
qed

lemma seats_all_in: "seats_all t ref ids P \<Longrightarrow> sid \<in> set ids \<Longrightarrow> \<exists>s. tk_store t (ref, sid) = Some s \<and> P s"
  by (auto simp: seats_all_def list_all_iff split: option.splits)

lemma confirm_seats_ok:
  assumes ok: "seats_ok t" and b: "map_of (tk_bookings t) bid = Some b"
  shows "seats_ok (fst (confirm_locked t now bid b pid))"
proof -
  have "seats_ok (put_booking (on_seats t (bk_show b) (bk_seats b) book) bid (b\<lparr>bk_status := CONFIRMED, bk_payment := Some pid\<rparr>))"
    if h: "seats_all t (bk_show b) (bk_seats b) (held_by bid)"
    by (rule seats_ok_change [OF ok b]) (use seats_all_in [OF h] in \<open>fastforce simp: held_by_def\<close>)+
  then show ?thesis using expire_seats_ok [OF ok b] ok by (auto simp: confirm_locked_def)
qed

lemma hold_seats_ok:
  assumes ok: "seats_ok t"
  shows "seats_ok (fst (hold_locked t now ref ids bid))"
proof -
  have "seats_ok (on_seats t ref ids (hold bid e))" if taken: "filter (\<lambda>sid. case tk_store t (ref, sid) of None \<Rightarrow> False | Some s \<Rightarrow> \<not> is_free now s) ids = []" for e
  proof (rule seats_okI)
    have free: "is_free now s" if "sid \<in> set ids" "tk_store t (ref, sid) = Some s" for sid s using taken that by (auto simp: filter_empty_conv)
    fix x c sid
    assume c: "map_of (tk_bookings (on_seats t ref ids (hold bid e))) x = Some c" "bk_status c = CONFIRMED" "sid \<in> set (bk_seats c)"
    then obtain s where s: "tk_store t (bk_show c, sid) = Some s" "ss_status s = BOOKED" "ss_booking s = Some x" using seats_okD(1) [OF ok] by fastforce
    then have "\<not> (bk_show c = ref \<and> sid \<in> set ids)" using free [of sid s] by (auto simp: is_free_def)
    then show "\<exists>s. tk_store (on_seats t ref ids (hold bid e)) (bk_show c, sid) = Some s \<and> ss_status s = BOOKED \<and> ss_booking s = Some x" using s by auto
  next
    fix k s assume "tk_store (on_seats t ref ids (hold bid e)) k = Some s" "ss_status s = BOOKED"
    then have "tk_store t k = Some s" "ss_status s = BOOKED" by (auto split: if_splits)
    then show "\<exists>x c. ss_booking s = Some x \<and> map_of (tk_bookings (on_seats t ref ids (hold bid e))) x = Some c \<and> bk_status c = CONFIRMED \<and> fst k = bk_show c
      \<and> snd k \<in> set (bk_seats c)" using seats_okD(2) [OF ok] by simp
  next
    fix k s assume "tk_store (on_seats t ref ids (hold bid e)) k = Some s"
    then show "fst k < length (tk_objects (on_seats t ref ids (hold bid e)))" using seats_okD(3) [OF ok, of k] by (auto split: if_splits)
  qed
  then show ?thesis using ok by (auto simp: hold_locked_def Let_def)
qed

lemma register_seats_ok:
  assumes ok: "seats_ok t" and fresh: "map_of (tk_bookings t) bid = None"
  shows "seats_ok (fst (register t ref user ids bid expires))"
proof -
  have "seats_ok (put_booking t bid b)" if p: "bk_status b = PENDING" for b
  proof (rule seats_okI)
    fix x c sid
    assume "map_of (tk_bookings (put_booking t bid b)) x = Some c" "bk_status c = CONFIRMED" "sid \<in> set (bk_seats c)"
    then show "\<exists>s. tk_store (put_booking t bid b) (bk_show c, sid) = Some s \<and> ss_status s = BOOKED \<and> ss_booking s = Some x"
      using seats_okD(1) [OF ok, of x c sid] p by (auto split: if_splits)
  next
    fix k s
    assume "tk_store (put_booking t bid b) k = Some s" "ss_status s = BOOKED"
    then obtain x c where "ss_booking s = Some x" "map_of (tk_bookings t) x = Some c" "bk_status c = CONFIRMED" "fst k = bk_show c" "snd k \<in> set (bk_seats c)"
      using seats_okD(2) [OF ok, of k s] by auto
    then show "\<exists>x c. ss_booking s = Some x \<and> map_of (tk_bookings (put_booking t bid b)) x = Some c \<and> bk_status c = CONFIRMED \<and> fst k = bk_show c
      \<and> snd k \<in> set (bk_seats c)" using fresh by auto
  qed (use seats_okD(3) [OF ok] in simp)
  then show ?thesis using ok by (simp add: register_def split: sum.split)
qed

lemma inventory_available: "map_of (inventory s) sid = Some x \<Longrightarrow> ss_status x = AVAILABLE"
proof -
  have step: "\<forall>p \<in> set (AList.update (st_id y) (fresh_seat y) d). ss_status (snd p) = AVAILABLE" if "\<forall>p \<in> set d. ss_status (snd p) = AVAILABLE" for y d
  proof
    fix p assume "p \<in> set (AList.update (st_id y) (fresh_seat y) d)"
    then have "p = (st_id y, fresh_seat y) \<or> p \<in> set d" by (rule AList_update_elem)
    then show "ss_status (snd p) = AVAILABLE" by (elim disjE) (simp add: fresh_seat_def, rule bspec [OF that])
  qed
  have "\<forall>p \<in> set (foldl (\<lambda>d x. AList.update (st_id x) (fresh_seat x) d) d xs). ss_status (snd p) = AVAILABLE"
    if "\<forall>p \<in> set d. ss_status (snd p) = AVAILABLE" for d xs
    using that
  proof (induction xs arbitrary: d)
    case (Cons y xs)
    show ?case using Cons.IH [OF step [OF Cons.prems]] unfolding foldl_Cons .
  qed simp
  note av = this
  have all: "\<forall>p \<in> set (inventory s). ss_status (snd p) = AVAILABLE" unfolding inventory_def by (rule av) simp
  assume "map_of (inventory s) sid = Some x"
  then show "ss_status x = AVAILABLE" using bspec [OF all, of "(sid, x)"] map_of_SomeD by fastforce
qed

lemma create_seats_ok:
  assumes ok: "seats_ok t"
  shows "seats_ok (create_show t s)"
proof (rule seats_okI)
  let ?t = "create_show t s"
  have store: "tk_store ?t k = (if fst k = length (tk_objects t) then map_of (inventory s) (snd k) else tk_store t k)" for k
    by (simp add: create_show_def Let_def)
  have rest: "tk_bookings ?t = tk_bookings t" "tk_objects ?t = tk_objects t @ [s]" by (simp_all add: create_show_def Let_def)
  fix x c sid
  assume "map_of (tk_bookings ?t) x = Some c" "bk_status c = CONFIRMED" "sid \<in> set (bk_seats c)"
  then obtain y where y: "tk_store t (bk_show c, sid) = Some y" "ss_status y = BOOKED" "ss_booking y = Some x"
    using seats_okD(1) [OF ok] rest by fastforce
  then have "bk_show c < length (tk_objects t)" using seats_okD(3) [OF ok] by fastforce
  then show "\<exists>y. tk_store ?t (bk_show c, sid) = Some y \<and> ss_status y = BOOKED \<and> ss_booking y = Some x" using y by (simp add: store)
next
  let ?t = "create_show t s"
  fix k y
  have store: "tk_store ?t k = (if fst k = length (tk_objects t) then map_of (inventory s) (snd k) else tk_store t k)" for k
    by (simp add: create_show_def Let_def)
  have rest: "tk_bookings ?t = tk_bookings t" "tk_objects ?t = tk_objects t @ [s]" by (simp_all add: create_show_def Let_def)
  show "fst k < length (tk_objects ?t)" if "tk_store ?t k = Some y"
    using that seats_okD(3) [OF ok, of k y] by (auto simp: store rest split: if_splits)
  assume "tk_store ?t k = Some y" "ss_status y = BOOKED"
  then show "\<exists>x c. ss_booking y = Some x \<and> map_of (tk_bookings ?t) x = Some c \<and> bk_status c = CONFIRMED \<and> fst k = bk_show c \<and> snd k \<in> set (bk_seats c)"
    using seats_okD(2) [OF ok, of k y] inventory_available [of s "snd k" y] by (auto simp: store rest split: if_splits)
qed

section \<open>Threads and ids\<close>

definition minting :: "pc \<Rightarrow> nat list" where
  "minting p = (case p of Holding ref user ids bid \<Rightarrow> [bid] | Registering ref user ids bid expires \<Rightarrow> [bid] | _ \<Rightarrow> [])"

definition working_on :: "pc \<Rightarrow> nat set" where
  "working_on p =
     (case p of Pay_check bid \<Rightarrow> {bid} | Pay_clock bid \<Rightarrow> {bid} | Pay_expire bid \<Rightarrow> {bid} | Pay_charge bid \<Rightarrow> {bid} | Pay_confirm bid pid \<Rightarrow> {bid}
      | Pay_refund bid pid \<Rightarrow> {bid} | Cancelling bid \<Rightarrow> {bid} | Cancel_refund bid pid \<Rightarrow> {bid} | Sweeping bids n \<Rightarrow> set bids | _ \<Rightarrow> {})"

text \<open>Ids are handed out once, and a thread works on registered bookings.\<close>

definition known :: "tickets \<Rightarrow> nat set" where
  "known t = {bid. map_of (tk_bookings t) bid \<noteq> None}"

definition threads_ok :: "tickets \<Rightarrow> pc list \<Rightarrow> bool" where
  "threads_ok t ps \<longleftrightarrow> distinct (concat (map minting ps)) \<and> (\<forall>p \<in> set ps. working_on p \<subseteq> known t)
     \<and> (\<forall>bid \<in> set (concat (map minting ps)). bid < tk_next t \<and> bid \<notin> known t) \<and> (\<forall>bid \<in> known t. bid < tk_next t)"

text \<open>A thread takes a step: its own ids stay, or the one it minted becomes known.\<close>

lemma minting_update:
  assumes "i < length ps" "distinct (concat (map minting ps))" "set (minting p) \<subseteq> set (minting (ps ! i))" "distinct (minting p)"
  shows "distinct (concat (map minting (ps[i := p])))" "set (concat (map minting (ps[i := p]))) \<subseteq> set (concat (map minting ps))"
    "x \<in> set (minting (ps ! i)) \<Longrightarrow> x \<notin> set (minting p) \<Longrightarrow> x \<notin> set (concat (map minting (ps[i := p])))"
proof -
  have ps: "ps = take i ps @ ps ! i # drop (Suc i) ps" by (rule id_take_nth_drop [OF assms(1)])
  have up: "ps[i := p] = take i ps @ p # drop (Suc i) ps" by (rule upd_conv_take_nth_drop [OF assms(1)])
  have d: "distinct (concat (map minting (take i ps)) @ minting (ps ! i) @ concat (map minting (drop (Suc i) ps)))"
    using assms(2) by (subst (asm) ps) simp
  have c: "concat (map minting ps) = concat (map minting (take i ps)) @ minting (ps ! i) @ concat (map minting (drop (Suc i) ps))"
    by (subst ps) simp
  show "distinct (concat (map minting (ps[i := p])))" using d assms(3,4) unfolding up by auto
  show "set (concat (map minting (ps[i := p]))) \<subseteq> set (concat (map minting ps))" using assms(3) unfolding up c by auto
  show "x \<in> set (minting (ps ! i)) \<Longrightarrow> x \<notin> set (minting p) \<Longrightarrow> x \<notin> set (concat (map minting (ps[i := p])))" using d unfolding up by auto
qed

lemma threads_ok_step:
  assumes ok: "threads_ok t ps" and i: "i < length ps" and n: "tk_next u = tk_next t"
    and m: "set (minting p) \<subseteq> set (minting (ps ! i))" "distinct (minting p)"
    and k: "known t \<subseteq> known u" "known u \<subseteq> known t \<union> (set (minting (ps ! i)) - set (minting p))" and w: "working_on p \<subseteq> known u"
  shows "threads_ok u (ps[i := p])"
proof -
  note o = ok [unfolded threads_ok_def]
  note mu = minting_update [OF i conjunct1 [OF o] m]
  have mine: "set (minting (ps ! i)) \<subseteq> set (concat (map minting ps))" using nth_mem [OF i] by auto
  have "working_on q \<subseteq> known u" if "q \<in> set (ps[i := p])" for q
    using that o k(1) w set_update_subset_insert [of ps i p] by blast
  moreover have "bid < tk_next u \<and> bid \<notin> known u" if "bid \<in> set (concat (map minting (ps[i := p])))" for bid
    unfolding n using that mu(2) mu(3) [of bid] o k(2) by blast
  moreover have "bid < tk_next u" if "bid \<in> known u" for bid unfolding n using that o k(2) mine by blast
  ultimately show ?thesis unfolding threads_ok_def using mu(1) o by blast
qed

lemma known_simps [simp]: "known (put_booking t bid b) = insert bid (known t)" "known (on_seats t ref ids f) = known t"
  "known (t\<lparr>tk_gateway := g\<rparr>) = known t" "known (t\<lparr>tk_next := n\<rparr>) = known t" "known (create_show t s) = known t" "known (add_show t ref) = known t"
  by (auto simp: known_def create_show_def add_show_def Let_def)

lemma block_known:
  "known (fst (hold_locked t now ref ids bid)) = known t" "tk_next (fst (hold_locked t now ref ids bid)) = tk_next t"
  "bid \<in> known t \<Longrightarrow> known (fst (expire_locked t bid b)) = known t" "tk_next (fst (expire_locked t bid b)) = tk_next t"
  "bid \<in> known t \<Longrightarrow> known (fst (confirm_locked t now bid b pid)) = known t" "tk_next (fst (confirm_locked t now bid b pid)) = tk_next t"
  "bid \<in> known t \<Longrightarrow> known (fst (cancel_locked t bid b)) = known t" "tk_next (fst (cancel_locked t bid b)) = tk_next t"
  "known (refund_payment t pid b) = known t" "tk_next (refund_payment t pid b) = tk_next t"
  by (auto simp: hold_locked_def expire_locked_def confirm_locked_def cancel_locked_def refund_payment_def Let_def)

section \<open>Money\<close>

definition status_at :: "tickets \<Rightarrow> nat \<Rightarrow> BookingStatus \<Rightarrow> bool" where
  "status_at t bid st \<longleftrightarrow> (\<exists>b. map_of (tk_bookings t) bid = Some b \<and> bk_status b = st)"

definition gone :: "tickets \<Rightarrow> nat \<Rightarrow> bool" where
  "gone t bid \<longleftrightarrow> status_at t bid CANCELLED \<or> status_at t bid EXPIRED"

text \<open>The payment of a booking in the books of the gateway.\<close>

definition paid_as :: "tickets \<Rightarrow> nat \<Rightarrow> nat \<Rightarrow> bool" where
  "paid_as t bid pid \<longleftrightarrow> map_of (gw_by_key (tk_gateway t)) bid = Some pid"

definition total_of :: "tickets \<Rightarrow> nat \<Rightarrow> rat" where
  "total_of t bid = total_price (the_booking t bid)"

text \<open>A thread with the money of a booking in its hands.\<close>

definition owes :: "pc \<Rightarrow> nat \<Rightarrow> nat \<Rightarrow> bool" where
  "owes p bid pid \<longleftrightarrow> p = Pay_confirm bid pid \<or> p = Pay_refund bid pid \<or> p = Cancel_refund bid pid"

definition refunding :: "pc \<Rightarrow> nat \<Rightarrow> bool" where
  "refunding p bid \<longleftrightarrow> (\<exists>pid. p = Pay_refund bid pid \<or> p = Cancel_refund bid pid)"

definition books_ok :: "tickets \<Rightarrow> bool" where
  "books_ok t \<longleftrightarrow> distinct (map fst (gw_by_key (tk_gateway t))) \<and> distinct (map snd (gw_by_key (tk_gateway t)))
     \<and> (\<forall>x \<in> set (gw_by_key (tk_gateway t)). fst x \<in> known t \<and> snd x < gw_next (tk_gateway t))
     \<and> gw_charges (tk_gateway t) = map (\<lambda>x. (snd x, total_of t (fst x))) (gw_by_key (tk_gateway t))"

definition money_ok :: "tickets \<Rightarrow> pc list \<Rightarrow> bool" where
  "money_ok t ps \<longleftrightarrow> books_ok t
     \<and> (\<forall>bid b. map_of (tk_bookings t) bid = Some b \<and> bk_status b = CONFIRMED \<longrightarrow> (\<exists>pid. bk_payment b = Some pid \<and> paid_as t bid pid))
     \<and> (\<forall>p \<in> set ps. \<forall>bid. (\<forall>pid. owes p bid pid \<longrightarrow> paid_as t bid pid) \<and> (refunding p bid \<longrightarrow> gone t bid))
     \<and> (\<forall>x \<in> set (gw_refunds (tk_gateway t)). \<exists>bid. paid_as t bid (fst x) \<and> gone t bid \<and> snd x = total_of t bid)
     \<and> (\<forall>bid pid. paid_as t bid pid \<longrightarrow>
          status_at t bid CONFIRMED \<or> (pid, total_of t bid) \<in> set (gw_refunds (tk_gateway t)) \<or> (\<exists>p \<in> set ps. owes p bid pid))"

lemma money_okD:
  assumes "money_ok t ps"
  shows "books_ok t" "map_of (tk_bookings t) bid = Some b \<Longrightarrow> bk_status b = CONFIRMED \<Longrightarrow> \<exists>pid. bk_payment b = Some pid \<and> paid_as t bid pid"
    "p \<in> set ps \<Longrightarrow> owes p bid pid \<Longrightarrow> paid_as t bid pid" "p \<in> set ps \<Longrightarrow> refunding p bid \<Longrightarrow> gone t bid"
    "x \<in> set (gw_refunds (tk_gateway t)) \<Longrightarrow> \<exists>bid. paid_as t bid (fst x) \<and> gone t bid \<and> snd x = total_of t bid"
    "paid_as t bid pid \<Longrightarrow> status_at t bid CONFIRMED \<or> (pid, total_of t bid) \<in> set (gw_refunds (tk_gateway t)) \<or> (\<exists>p \<in> set ps. owes p bid pid)"
  using assms unfolding money_ok_def by blast+

lemma in_update: "i < length ps \<Longrightarrow> p \<in> set ps \<Longrightarrow> p = ps ! i \<or> p \<in> set (ps[i := q])"
  by (metis in_set_conv_nth length_list_update nth_list_update_neq)

lemma known_paid: "books_ok t \<Longrightarrow> paid_as t bid pid \<Longrightarrow> bid \<in> known t"
  unfolding books_ok_def paid_as_def by (auto dest!: map_of_SomeD)

text \<open>A step that leaves the gateway alone.\<close>

lemma money_ok_step:
  assumes ok: "money_ok t ps" and i: "i < length ps" and g: "tk_gateway u = tk_gateway t" and k: "known t \<subseteq> known u"
    and tot: "\<And>bid. bid \<in> known t \<Longrightarrow> total_of u bid = total_of t bid" and gn: "\<And>bid. gone t bid \<Longrightarrow> gone u bid"
    and conf: "\<And>bid b. map_of (tk_bookings u) bid = Some b \<Longrightarrow> bk_status b = CONFIRMED \<Longrightarrow> \<exists>pid. bk_payment b = Some pid \<and> paid_as t bid pid"
    and stay: "\<And>bid pid. status_at t bid CONFIRMED \<Longrightarrow> paid_as t bid pid \<Longrightarrow> status_at u bid CONFIRMED \<or> owes p bid pid"
    and new: "\<And>bid pid. owes p bid pid \<Longrightarrow> paid_as t bid pid" "\<And>bid. refunding p bid \<Longrightarrow> gone u bid"
    and old: "\<And>bid pid. owes (ps ! i) bid pid \<Longrightarrow> owes p bid pid \<or> status_at u bid CONFIRMED"
  shows "money_ok u (ps[i := p])"
proof -
  have pa: "paid_as u = paid_as t" by (simp add: paid_as_def fun_eq_iff g)
  note b = money_okD(1) [OF ok]
  have kp: "total_of u bid = total_of t bid" if "paid_as t bid pid" for bid pid by (rule tot [OF known_paid [OF b that]])
  have "books_ok u" using b k tot unfolding books_ok_def g by auto
  moreover have "(\<forall>pid. owes q bid pid \<longrightarrow> paid_as u bid pid) \<and> (refunding q bid \<longrightarrow> gone u bid)" if "q \<in> set (ps[i := p])" for q bid
  proof -
    have "q = p \<or> q \<in> set ps" using that set_update_subset_insert [of ps i p] by blast
    then show ?thesis unfolding pa using new money_okD(3,4) [OF ok] gn by blast
  qed
  moreover have "\<exists>bid. paid_as u bid (fst x) \<and> gone u bid \<and> snd x = total_of u bid" if x: "x \<in> set (gw_refunds (tk_gateway u))" for x
    using money_okD(5) [OF ok x [unfolded g]] kp gn unfolding pa by metis
  moreover have "status_at u bid CONFIRMED \<or> (pid, total_of u bid) \<in> set (gw_refunds (tk_gateway u)) \<or> (\<exists>q \<in> set (ps[i := p]). owes q bid pid)"
    if a: "paid_as u bid pid" for bid pid
  proof -
    have mem: "p \<in> set (ps[i := p])" by (rule set_update_memI [OF i])
    from a have a: "paid_as t bid pid" unfolding pa .
    from money_okD(6) [OF ok a] show ?thesis
    proof (elim disjE bexE)
      assume "status_at t bid CONFIRMED"
      then show ?thesis using stay [OF _ a] mem by blast
    next
      assume "(pid, total_of t bid) \<in> set (gw_refunds (tk_gateway t))"
      then show ?thesis using kp [OF a] g by simp
    next
      fix q assume q: "q \<in> set ps" "owes q bid pid"
      then show ?thesis using in_update [OF i q(1), of p] old [of bid pid] mem by blast
    qed
  qed
  ultimately show ?thesis unfolding money_ok_def using conf unfolding pa by blast
qed

lemma the_booking_same [simp]: "the_booking (on_seats t ref ids f) bid = the_booking t bid" "the_booking (t\<lparr>tk_gateway := g\<rparr>) bid = the_booking t bid"
  by (simp_all add: the_booking_def)

lemma total_of_put [simp]:
  "bk_line_prices b' = bk_line_prices (the_booking t bid) \<Longrightarrow> total_of (put_booking t bid b') x = total_of t x"
  by (simp add: total_of_def the_booking_def total_price_def)

lemma total_of_same [simp]: "total_of (on_seats t ref ids f) = total_of t" "total_of (t\<lparr>tk_gateway := g\<rparr>) = total_of t" "total_of (t\<lparr>tk_next := n\<rparr>) = total_of t"
  by (simp_all add: total_of_def the_booking_def fun_eq_iff)

lemma status_at_put [simp]: "status_at (put_booking t bid b) x st \<longleftrightarrow> (if x = bid then bk_status b = st else status_at t x st)"
  by (simp add: status_at_def)

lemma status_at_same [simp]: "status_at (on_seats t ref ids f) = status_at t" "status_at (t\<lparr>tk_gateway := g\<rparr>) = status_at t" "status_at (t\<lparr>tk_next := n\<rparr>) = status_at t"
  by (simp_all add: status_at_def fun_eq_iff)

lemma status_at_one: "status_at t bid st \<Longrightarrow> status_at t bid st' \<longleftrightarrow> st' = st"
  by (auto simp: status_at_def)

section \<open>Steps\<close>

definition office_ok :: "tickets \<Rightarrow> pc list \<Rightarrow> bool" where
  "office_ok t ps \<longleftrightarrow> seats_ok t \<and> threads_ok t ps \<and> money_ok t ps"

lemma the_booking_known: "bid \<in> known t \<Longrightarrow> map_of (tk_bookings t) bid = Some (the_booking t bid)"
  by (auto simp: known_def the_booking_def)

lemma block_gateway [simp]:
  "tk_gateway (fst (hold_locked t now ref ids bid)) = tk_gateway t" "tk_gateway (fst (register t ref user ids bid expires)) = tk_gateway t"
  "tk_gateway (fst (expire_locked t bid b)) = tk_gateway t" "tk_gateway (fst (confirm_locked t now bid b pid)) = tk_gateway t"
  "tk_gateway (fst (cancel_locked t bid b)) = tk_gateway t"
  by (simp_all add: hold_locked_def register_def expire_locked_def confirm_locked_def cancel_locked_def Let_def split: sum.split)

lemma block_total [simp]:
  "total_of (fst (hold_locked t now ref ids bid)) = total_of t"
  "total_of (fst (expire_locked t bid (the_booking t bid))) x = total_of t x" "total_of (fst (confirm_locked t now bid (the_booking t bid) pid)) x = total_of t x"
  "total_of (fst (cancel_locked t bid (the_booking t bid))) x = total_of t x"
  by (simp_all add: hold_locked_def expire_locked_def confirm_locked_def cancel_locked_def Let_def)

lemma working_known: "threads_ok t ps \<Longrightarrow> i < length ps \<Longrightarrow> working_on (ps ! i) \<subseteq> known t"
  using nth_mem unfolding threads_ok_def by blast

lemma threads_ok_same:
  assumes ok: "threads_ok t ps" and i: "i < length ps" and n: "tk_next u = tk_next t" "known u = known t"
    and m: "minting p = minting (ps ! i) \<or> minting p = []" and w: "working_on p \<subseteq> known t"
  shows "threads_ok u (ps[i := p])"
  by (rule threads_ok_step [OF ok i n(1)]) (use m w n(2) in \<open>auto simp: minting_def split: pc.splits\<close>)

text \<open>Nothing about bookings or money changes.\<close>

lemma money_ok_quiet:
  assumes ok: "money_ok t ps" and i: "i < length ps" and u: "tk_gateway u = tk_gateway t" "tk_bookings u = tk_bookings t"
    and q: "\<And>bid pid. \<not> owes (ps ! i) bid pid" "\<And>bid pid. \<not> owes p bid pid"
  shows "money_ok u (ps[i := p])"
proof (rule money_ok_step [OF ok i u(1)])
  have s: "status_at u = status_at t" "total_of u = total_of t" by (simp_all add: status_at_def total_of_def the_booking_def u(2) fun_eq_iff)
  show "known t \<subseteq> known u" by (simp add: known_def u(2))
  show "total_of u bid = total_of t bid" for bid by (simp add: s)
  show "gone t bid \<Longrightarrow> gone u bid" for bid by (simp add: gone_def s)
  show "map_of (tk_bookings u) bid = Some b \<Longrightarrow> bk_status b = CONFIRMED \<Longrightarrow> \<exists>pid. bk_payment b = Some pid \<and> paid_as t bid pid" for bid b
    using money_okD(2) [OF ok] u(2) by simp
  show "status_at t bid CONFIRMED \<Longrightarrow> status_at u bid CONFIRMED \<or> owes p bid pid" for bid pid by (simp add: s)
  show "refunding p bid \<Longrightarrow> gone u bid" for bid using q(2) by (auto simp: refunding_def owes_def)
qed (use q in auto)

lemma expire_money:
  assumes ok: "money_ok t ps" and i: "i < length ps" and b: "bid \<in> known t"
    and q: "\<And>x pid. owes (ps ! i) x pid \<longleftrightarrow> owes p x pid" "\<And>x. refunding p x \<Longrightarrow> gone (fst (expire_locked t bid (the_booking t bid))) x"
  shows "money_ok (fst (expire_locked t bid (the_booking t bid))) (ps[i := p])"
proof (rule money_ok_step [OF ok i])
  let ?u = "fst (expire_locked t bid (the_booking t bid))"
  note tb = the_booking_known [OF b]
  have st: "status_at ?u x st \<longleftrightarrow> (if x = bid \<and> status_at t bid PENDING then st = EXPIRED else status_at t x st)" for x st
    using tb by (auto simp: expire_locked_def status_at_def)
  show "gone t x \<Longrightarrow> gone ?u x" for x using status_at_one [of t x PENDING] by (auto simp: gone_def st)
  show "map_of (tk_bookings ?u) x = Some c \<Longrightarrow> bk_status c = CONFIRMED \<Longrightarrow> \<exists>pid. bk_payment c = Some pid \<and> paid_as t x pid" for x c
    using money_okD(2) [OF ok, of x c] by (auto simp: expire_locked_def split: if_splits)
  show "status_at t x CONFIRMED \<Longrightarrow> status_at ?u x CONFIRMED \<or> owes p x pid" for x pid using status_at_one [of t x PENDING] by (auto simp: st)
  show "owes p x pid \<Longrightarrow> paid_as t x pid" for x pid using money_okD(3) [OF ok nth_mem [OF i]] q(1) by blast
qed (use q block_known(3) [OF b] in auto)

lemma owes_simps [simp]:
  "owes (Pay_confirm b d) x y \<longleftrightarrow> x = b \<and> y = d" "owes (Pay_refund b d) x y \<longleftrightarrow> x = b \<and> y = d" "owes (Cancel_refund b d) x y \<longleftrightarrow> x = b \<and> y = d"
  "\<not> owes (Done r) x y" "\<not> owes (Holding ref user ids b) x y" "\<not> owes (Registering ref user ids b e) x y" "\<not> owes (Pay_check b) x y"
  "\<not> owes (Pay_clock b) x y" "\<not> owes (Pay_expire b) x y" "\<not> owes (Pay_charge b) x y" "\<not> owes (Cancelling b) x y" "\<not> owes (Sweeping bs n) x y"
  by (auto simp: owes_def)

lemma refunding_simps [simp]:
  "refunding (Pay_refund b d) x \<longleftrightarrow> x = b" "refunding (Cancel_refund b d) x \<longleftrightarrow> x = b" "\<not> refunding (Pay_confirm b d) x" "\<not> refunding (Done r) x"
  "\<not> refunding (Holding ref user ids b) x" "\<not> refunding (Registering ref user ids b e) x" "\<not> refunding (Pay_check b) x"
  "\<not> refunding (Pay_clock b) x" "\<not> refunding (Pay_expire b) x" "\<not> refunding (Pay_charge b) x" "\<not> refunding (Cancelling b) x" "\<not> refunding (Sweeping bs n) x"
  by (auto simp: refunding_def)

lemma confirm_money:
  assumes ok: "money_ok t ps" and i: "i < length ps" and b: "bid \<in> known t" and pc: "ps ! i = Pay_confirm bid pid"
    and r: "confirm_locked t now bid (the_booking t bid) pid = (u, ours)" and p: "p = (if ours then Done (Inr (Paid bid)) else Pay_refund bid pid)"
  shows "money_ok u (ps[i := p])"
proof -
  note tb = the_booking_known [OF b]
  have paid: "paid_as t bid pid" using money_okD(3) [OF ok nth_mem [OF i]] pc by simp
  consider (won) "bk_status (the_booking t bid) = CONFIRMED" "u = t" "ours"
    | (sold) "bk_status (the_booking t bid) = PENDING" "ours" "u = put_booking (on_seats t (bk_show (the_booking t bid)) (bk_seats (the_booking t bid)) book) bid
        ((the_booking t bid)\<lparr>bk_status := CONFIRMED, bk_payment := Some pid\<rparr>)"
    | (lost) "bk_status (the_booking t bid) \<noteq> CONFIRMED" "\<not> ours" "u = fst (expire_locked t bid (the_booking t bid))"
    using r by (auto simp: confirm_locked_def split: if_splits)
  then show ?thesis
  proof cases
    case won
    then show ?thesis
      by (intro money_ok_step [OF ok i]) (use p pc tb money_okD(2) [OF ok] in \<open>auto simp: status_at_def\<close>)
  next
    case sold
    have st: "status_at u x s \<longleftrightarrow> (if x = bid then s = CONFIRMED else status_at t x s)" for x s by (auto simp: sold(3))
    have pend: "status_at t bid PENDING" using tb sold(1) by (simp add: status_at_def)
    show ?thesis
    proof (rule money_ok_step [OF ok i])
      show "gone t x \<Longrightarrow> gone u x" for x using status_at_one [OF pend] by (auto simp: gone_def st)
      show "map_of (tk_bookings u) x = Some c \<Longrightarrow> bk_status c = CONFIRMED \<Longrightarrow> \<exists>pid. bk_payment c = Some pid \<and> paid_as t x pid" for x c
        using money_okD(2) [OF ok, of x c] paid by (auto simp: sold(3) split: if_splits)
    qed (use sold p pc st in auto)
  next
    case lost
    have "gone u bid" using lost(1) tb by (cases "bk_status (the_booking t bid)") (auto simp: lost(3) gone_def expire_locked_def status_at_def)
    then show ?thesis unfolding lost(3) using expire_money [OF ok i b, of p] p pc lost by simp
  qed
qed

lemma cancel_money:
  assumes ok: "money_ok t ps" and i: "i < length ps" and b: "bid \<in> known t" and pc: "ps ! i = Cancelling bid"
    and r: "run_pc t now (Cancelling bid) = (u, p)"
  shows "money_ok u (ps[i := p])"
proof -
  note tb = the_booking_known [OF b]
  let ?c = "put_booking (on_seats t (bk_show (the_booking t bid)) (bk_seats (the_booking t bid)) (\<lambda>s. if ss_booking s = Some bid then release s else s)) bid
    ((the_booking t bid)\<lparr>bk_status := CANCELLED\<rparr>)"
  consider (refused) "u = t" "p = Done (Inl InvalidBookingState)"
    | (pending) "status_at t bid PENDING" "u = ?c" "p = Done (Inr (Cancelled bid))"
    | (paid) pid where "status_at t bid CONFIRMED" "u = ?c" "p = Cancel_refund bid pid" "paid_as t bid pid"
    using r money_okD(2) [OF ok tb] tb by (auto simp: cancel_locked_def status_at_def split: if_splits)
  then show ?thesis
  proof cases
    case refused
    show ?thesis by (rule money_ok_quiet [OF ok i]) (simp_all add: refused pc)
  next
    case pending
    have st: "status_at u x s \<longleftrightarrow> (if x = bid then s = CANCELLED else status_at t x s)" for x s by (auto simp: pending(2))
    show ?thesis
    proof (rule money_ok_step [OF ok i])
      show "status_at t x CONFIRMED \<Longrightarrow> status_at u x CONFIRMED \<or> owes p x pid" for x pid using status_at_one [OF pending(1)] by (auto simp: st)
      show "map_of (tk_bookings u) x = Some c \<Longrightarrow> bk_status c = CONFIRMED \<Longrightarrow> \<exists>pid. bk_payment c = Some pid \<and> paid_as t x pid" for x c
        using money_okD(2) [OF ok, of x c] by (auto simp: pending(2) split: if_splits)
    qed (use pending(2,3) pc in \<open>auto simp: gone_def st\<close>)
  next
    case paid
    have st: "status_at u x s \<longleftrightarrow> (if x = bid then s = CANCELLED else status_at t x s)" for x s by (auto simp: paid(2))
    show ?thesis
    proof (rule money_ok_step [OF ok i])
      show "status_at t x CONFIRMED \<Longrightarrow> paid_as t x d \<Longrightarrow> status_at u x CONFIRMED \<or> owes p x d" for x d
        using paid(4) by (auto simp: st paid(3) paid_as_def)
      show "map_of (tk_bookings u) x = Some c \<Longrightarrow> bk_status c = CONFIRMED \<Longrightarrow> \<exists>pid. bk_payment c = Some pid \<and> paid_as t x pid" for x c
        using money_okD(2) [OF ok, of x c] by (auto simp: paid(2) split: if_splits)
    qed (use paid(2-4) pc in \<open>auto simp: gone_def st\<close>)
  qed
qed

lemma register_money:
  assumes ok: "money_ok t ps" and i: "i < length ps" and b: "bid \<notin> known t" and pc: "ps ! i = Registering ref user ids bid e"
    and r: "register t ref user ids bid e = (u, x)"
  shows "money_ok u (ps[i := Done d])"
proof (cases x)
  case (Inl err)
  then have "u = t" using r by (auto simp: register_def split: sum.splits)
  then show ?thesis using money_ok_quiet [OF ok i] pc by simp
next
  case (Inr y)
  then obtain nb where nb: "u = put_booking t bid nb" "bk_status nb = PENDING" using r by (auto simp: register_def split: sum.splits)
  have st: "status_at u z s \<longleftrightarrow> (if z = bid then s = PENDING else status_at t z s)" for z s by (auto simp: nb)
  have old: "\<not> status_at t bid s" for s using b by (auto simp: status_at_def known_def)
  show ?thesis
  proof (rule money_ok_step [OF ok i])
    show "total_of u z = total_of t z" if "z \<in> known t" for z using that b by (auto simp: nb(1) total_of_def the_booking_def)
    show "map_of (tk_bookings u) z = Some c \<Longrightarrow> bk_status c = CONFIRMED \<Longrightarrow> \<exists>pid. bk_payment c = Some pid \<and> paid_as t z pid" for z c
      using money_okD(2) [OF ok, of z c] nb by (auto split: if_splits)
  qed (use nb pc old in \<open>auto simp: gone_def st\<close>)
qed

lemma refund_money:
  assumes ok: "money_ok t ps" and i: "i < length ps" and pc: "owes (ps ! i) bid pid" "refunding (ps ! i) bid"
  shows "money_ok (refund_payment t pid (the_booking t bid)) (ps[i := Done d])"
proof -
  let ?u = "refund_payment t pid (the_booking t bid)"
  have paid: "paid_as t bid pid" "gone t bid" using money_okD(3,4) [OF ok nth_mem [OF i]] pc by blast+
  have s: "status_at ?u = status_at t" "total_of ?u = total_of t" "gone ?u = gone t" "paid_as ?u = paid_as t" "tk_bookings ?u = tk_bookings t" "known ?u = known t"
    by (simp_all add: refund_payment_def gone_def fun_eq_iff paid_as_def gw_refund_def)
  have gr: "gw_refunds (tk_gateway ?u) = gw_refunds (tk_gateway t) @ [(pid, total_of t bid)]"
    by (simp add: refund_payment_def gw_refund_def total_of_def)
  have "books_ok ?u" using money_okD(1) [OF ok] unfolding books_ok_def s by (simp add: refund_payment_def gw_refund_def)
  moreover have "(\<forall>pid. owes q b pid \<longrightarrow> paid_as t b pid) \<and> (refunding q b \<longrightarrow> gone t b)" if "q \<in> set (ps[i := Done d])" for q b
  proof -
    have "q = Done d \<or> q \<in> set ps" using that set_update_subset_insert [of ps i "Done d"] by blast
    then show ?thesis using money_okD(3,4) [OF ok] by auto
  qed
  moreover have "\<exists>b. paid_as t b (fst x) \<and> gone t b \<and> snd x = total_of t b" if "x \<in> set (gw_refunds (tk_gateway t) @ [(pid, total_of t bid)])" for x
    using that paid money_okD(5) [OF ok] by auto
  moreover have "status_at t b CONFIRMED \<or> (y, total_of t b) \<in> set (gw_refunds (tk_gateway t) @ [(pid, total_of t bid)]) \<or> (\<exists>q \<in> set (ps[i := Done d]). owes q b y)"
    if a: "paid_as t b y" for b y
    using money_okD(6) [OF ok a]
  proof (elim disjE bexE)
    fix q assume q: "q \<in> set ps" "owes q b y"
    show ?thesis
    proof (cases "q = ps ! i")
      case True
      then have "b = bid \<and> y = pid" using q(2) pc by (auto simp: owes_def)
      then show ?thesis by simp
    next
      case False
      then show ?thesis using in_update [OF i q(1), of "Done d"] q(2) by blast
    qed
  qed auto
  ultimately show ?thesis unfolding money_ok_def s gr using money_okD(2) [OF ok] by blast
qed

lemma charge_money:
  assumes ok: "money_ok t ps" and i: "i < length ps" and b: "bid \<in> known t" and pc: "ps ! i = Pay_charge bid"
    and r: "gw_charge (tk_gateway t) bid (total_of t bid) = (g, x)" and p: "p = (case x of Inl e \<Rightarrow> Done (Inl e) | Inr pid \<Rightarrow> Pay_confirm bid pid)"
  shows "money_ok (t\<lparr>tk_gateway := g\<rparr>) (ps[i := p])"
proof -
  let ?u = "t\<lparr>tk_gateway := g\<rparr>"
  consider (again) pid where "paid_as t bid pid" "g = tk_gateway t" "x = Inr pid"
    | (declined) "g = (tk_gateway t)\<lparr>gw_decline_next := False\<rparr>" "x = Inl PaymentFailed"
    | (charged) "map_of (gw_by_key (tk_gateway t)) bid = None" "x = Inr (gw_next (tk_gateway t))"
        "g = (tk_gateway t)\<lparr>gw_by_key := gw_by_key (tk_gateway t) @ [(bid, gw_next (tk_gateway t))],
           gw_charges := gw_charges (tk_gateway t) @ [(gw_next (tk_gateway t), total_of t bid)], gw_next := gw_next (tk_gateway t) + 1\<rparr>"
  proof (cases "map_of (gw_by_key (tk_gateway t)) bid")
    case None
    then have up: "AList.update bid d (gw_by_key (tk_gateway t)) = gw_by_key (tk_gateway t) @ [(bid, d)]" for d
      by (intro AList_update_absent) (simp add: map_of_eq_None_iff)
    show thesis
    proof (cases "gw_decline_next (tk_gateway t)")
      case True
      show thesis by (rule declined) (use r None True in \<open>simp_all add: gw_charge_def\<close>)
    next
      case False
      show thesis by (rule charged) (use r None False in \<open>simp_all add: gw_charge_def up\<close>)
    qed
  next
    case (Some pid)
    show thesis by (rule again) (use r Some in \<open>auto simp: gw_charge_def paid_as_def\<close>)
  qed
  then show ?thesis
  proof cases
    case again
    then show ?thesis using p pc money_okD(2) [OF ok] by (intro money_ok_step [OF ok i]) auto
  next
    case declined
    have s: "gone ?u = gone t" "paid_as ?u = paid_as t" by (simp_all add: gone_def fun_eq_iff paid_as_def declined)
    have m: "money_ok t (ps[i := p])" by (rule money_ok_quiet [OF ok i]) (simp_all add: p declined(2) pc)
    have "books_ok ?u" using money_okD(1) [OF ok] by (simp add: books_ok_def declined(1))
    moreover have "gw_refunds (tk_gateway ?u) = gw_refunds (tk_gateway t)" "tk_bookings ?u = tk_bookings t" by (simp_all add: declined(1))
    ultimately show ?thesis using m unfolding money_ok_def s total_of_same status_at_same by simp
  next
    case charged
    have new: "paid_as ?u x y \<longleftrightarrow> (if x = bid then y = gw_next (tk_gateway t) else paid_as t x y)" for x y
      using charged(1) by (auto simp: paid_as_def charged(3) map_add_def split: option.splits)
    have mono: "paid_as t x y \<Longrightarrow> paid_as ?u x y" for x y using new charged(1) by (auto simp: paid_as_def)
    have s: "gone ?u = gone t" by (simp add: gone_def fun_eq_iff)
    have "books_ok ?u" using money_okD(1) [OF ok] b charged(1) unfolding books_ok_def
      by (auto simp: charged(3) map_of_eq_None_iff less_Suc_eq)
    moreover have "(\<forall>pid. owes q b pid \<longrightarrow> paid_as ?u b pid) \<and> (refunding q b \<longrightarrow> gone t b)" if "q \<in> set (ps[i := p])" for q b
    proof -
      have "q = p \<or> q \<in> set ps" using that set_update_subset_insert [of ps i p] by blast
      then show ?thesis
      proof
        assume "q = p"
        then show ?thesis using p charged(2) new by simp
      next
        assume "q \<in> set ps"
        then show ?thesis using money_okD(3,4) [OF ok] mono by blast
      qed
    qed
    moreover have "\<exists>b. paid_as ?u b (fst y) \<and> gone t b \<and> snd y = total_of t b" if "y \<in> set (gw_refunds (tk_gateway t))" for y
      using money_okD(5) [OF ok that] mono by blast
    moreover have "status_at t b CONFIRMED \<or> (y, total_of t b) \<in> set (gw_refunds (tk_gateway t)) \<or> (\<exists>q \<in> set (ps[i := p]). owes q b y)"
      if a: "paid_as ?u b y" for b y
    proof (cases "b = bid")
      case True
      then show ?thesis using a new p charged(2) set_update_memI [OF i, of p] by force
    next
      case False
      then have "paid_as t b y" using a new by simp
      from money_okD(6) [OF ok this] show ?thesis using in_update [OF i, of _ p] pc by force
    qed
    moreover have "\<exists>pid. bk_payment c = Some pid \<and> paid_as ?u z pid" if "map_of (tk_bookings t) z = Some c" "bk_status c = CONFIRMED" for z c
      using money_okD(2) [OF ok that] mono by blast
    ultimately show ?thesis unfolding money_ok_def s by (simp add: charged(3))
  qed
qed

lemma hold_bookings: "tk_bookings (fst (hold_locked t now ref ids bid)) = tk_bookings t"
  by (simp add: hold_locked_def Let_def)

lemma register_known:
  "register t ref user ids bid e = (v, x) \<Longrightarrow> known v = (if isl x then known t else insert bid (known t)) \<and> tk_next v = tk_next t \<and> x \<in> {Inr bid} \<union> range Inl"
  by (auto simp: register_def split: sum.splits)

text \<open>One step of one thread, by the kind of its counter.\<close>

lemma run_pc_threads:
  assumes th: "threads_ok t ps" and i: "i < length ps" and r: "run_pc t now (ps ! i) = (u, p)"
  shows "threads_ok u (ps[i := p])"
proof -
  have same: "threads_ok u (ps[i := p])"
    if "tk_next u = tk_next t" "known u = known t" "minting p = minting (ps ! i) \<or> minting p = []" "working_on p \<subseteq> working_on (ps ! i)"
    using threads_ok_same [OF th i that(1-3)] that(4) working_known [OF th i] by blast
  have b: "bid \<in> known t" if "bid \<in> working_on (ps ! i)" for bid using working_known [OF th i] that by blast
  note bk = block_known(1,2) block_known(3) [OF b] block_known(4) block_known(5) [OF b] block_known(6) block_known(7) [OF b] block_known(8-10)
  show ?thesis
  proof (cases "ps ! i")
    case (Registering ref user ids bid e)
    obtain v x where v: "register t ref user ids bid e = (v, x)" by fastforce
    then have "u = v" "\<exists>d. p = Done d" using r by (auto simp: Registering split: sum.splits)
    then show ?thesis
      using register_known [OF v] by (intro threads_ok_step [OF th i]) (auto simp: Registering minting_def working_on_def split: if_splits)
  next
    case (Holding ref user ids bid)
    then have "u = fst (hold_locked t now ref ids bid)" "minting p = minting (ps ! i) \<or> minting p = []" "working_on p = {}"
      using r by (auto simp: minting_def working_on_def split: prod.splits sum.splits)
    then show ?thesis using same block_known(1,2) by simp
  next
    case (Pay_charge bid)
    then have "\<exists>g. u = t\<lparr>tk_gateway := g\<rparr>" "minting p = []" "working_on p \<subseteq> {bid}"
      using r by (auto simp: minting_def working_on_def split: prod.splits sum.splits)
    then show ?thesis using same Pay_charge by (auto simp: working_on_def)
  next
    case (Pay_confirm bid pid)
    then have "u = fst (confirm_locked t now bid (the_booking t bid) pid)" "minting p = []" "working_on p \<subseteq> {bid}"
      using r by (auto simp: minting_def working_on_def split: prod.splits bool.splits)
    then show ?thesis using same bk(5,6) Pay_confirm by (auto simp: working_on_def)
  next
    case (Cancelling bid)
    then have "u = fst (cancel_locked t bid (the_booking t bid))" "minting p = []" "working_on p \<subseteq> {bid}"
      using r by (auto simp: minting_def working_on_def split: prod.splits sum.splits option.splits BookingStatus.splits)
    then show ?thesis using same bk(7,8) Cancelling by (auto simp: working_on_def)
  next
    case (Sweeping bids n)
    show ?thesis
    proof (cases bids)
      case Nil
      then show ?thesis using r same Sweeping by (auto simp: minting_def working_on_def)
    next
      case (Cons bid rest)
      have "u = fst (expire_locked t bid (the_booking t bid))" "\<exists>m. p = Sweeping rest m" using r Sweeping Cons by (auto split: prod.splits)
      then obtain m where u: "u = fst (expire_locked t bid (the_booking t bid))" "p = Sweeping rest m" by blast
      have "bid \<in> known t" using b Sweeping Cons by (simp add: working_on_def)
      then have "known u = known t" "tk_next u = tk_next t" unfolding u by (simp_all add: block_known(3,4))
      moreover have "minting p = []" "working_on p \<subseteq> working_on (ps ! i)" using Sweeping Cons u(2) by (auto simp: minting_def working_on_def)
      ultimately show ?thesis using same by blast
    qed
  next
    case (Pay_expire bid)
    then show ?thesis using r same bk(3,4) by (auto simp: minting_def working_on_def)
  qed (use r same bk(9,10) in \<open>auto simp: minting_def working_on_def\<close>)
qed

lemma run_pc_seats:
  assumes so: "seats_ok t" and th: "threads_ok t ps" and i: "i < length ps" and r: "run_pc t now (ps ! i) = (u, p)"
  shows "seats_ok u"
proof -
  have same: "seats_ok u" if "tk_store u = tk_store t" "tk_bookings u = tk_bookings t" "tk_objects u = tk_objects t"
    using so that by (simp add: seats_ok_def)
  have tb: "map_of (tk_bookings t) bid = Some (the_booking t bid)" if "bid \<in> working_on (ps ! i)" for bid
    using the_booking_known working_known [OF th i] that by blast
  show ?thesis
  proof (cases "ps ! i")
    case (Registering ref user ids bid e)
    have "bid \<in> set (concat (map minting ps))" using nth_mem [OF i] by (force simp: Registering minting_def)
    then have "map_of (tk_bookings t) bid = None" using th by (auto simp: threads_ok_def known_def)
    moreover have "u = fst (register t ref user ids bid e)" using r by (auto simp: Registering split: prod.splits sum.splits)
    ultimately show ?thesis using register_seats_ok [OF so] by simp
  next
    case (Holding ref user ids bid)
    then have "u = fst (hold_locked t now ref ids bid)" using r by (auto split: prod.splits sum.splits)
    then show ?thesis using hold_seats_ok [OF so] by simp
  next
    case (Pay_charge bid)
    then have "\<exists>g. u = t\<lparr>tk_gateway := g\<rparr>" using r by (auto split: prod.splits sum.splits)
    then show ?thesis using same by auto
  next
    case (Pay_confirm bid pid)
    then have "u = fst (confirm_locked t now bid (the_booking t bid) pid)" using r by (auto split: prod.splits bool.splits)
    then show ?thesis using confirm_seats_ok [OF so tb] Pay_confirm by (simp add: working_on_def)
  next
    case (Cancelling bid)
    then have "u = fst (cancel_locked t bid (the_booking t bid))" using r by (auto split: prod.splits sum.splits option.splits BookingStatus.splits)
    then show ?thesis using cancel_seats_ok [OF so tb] Cancelling by (simp add: working_on_def)
  next
    case (Sweeping bids n)
    then have "u = t \<or> (\<exists>bid \<in> set bids. u = fst (expire_locked t bid (the_booking t bid)))" using r by (cases bids) (auto split: prod.splits)
    then show ?thesis using expire_seats_ok [OF so tb] so Sweeping by (auto simp: working_on_def)
  next
    case (Pay_expire bid)
    then show ?thesis using r expire_seats_ok [OF so tb] by (auto simp: working_on_def)
  qed (use r same in \<open>auto simp: refund_payment_def\<close>)
qed

lemma run_pc_money:
  assumes mo: "money_ok t ps" and th: "threads_ok t ps" and i: "i < length ps" and r: "run_pc t now (ps ! i) = (u, p)"
  shows "money_ok u (ps[i := p])"
proof -
  have b: "bid \<in> known t" if "bid \<in> working_on (ps ! i)" for bid using working_known [OF th i] that by blast
  note quiet = money_ok_quiet [OF mo i]
  show ?thesis
  proof (cases "ps ! i")
    case (Registering ref user ids bid e)
    have "bid \<in> set (concat (map minting ps))" using nth_mem [OF i] by (force simp: Registering minting_def)
    then have f: "bid \<notin> known t" using th unfolding threads_ok_def by blast
    obtain v x where v: "register t ref user ids bid e = (v, x)" by fastforce
    then have "u = v" "\<exists>d. p = Done d" using r by (auto simp: Registering split: sum.splits)
    then show ?thesis using register_money [OF mo i f Registering v] by blast
  next
    case (Holding ref user ids bid)
    then have "u = fst (hold_locked t now ref ids bid)" "\<And>x y. \<not> owes p x y" using r by (auto split: prod.splits sum.splits)
    then show ?thesis using quiet hold_bookings Holding by simp
  next
    case (Pay_charge bid)
    obtain g x where g: "gw_charge (tk_gateway t) bid (total_of t bid) = (g, x)" by fastforce
    then have "u = t\<lparr>tk_gateway := g\<rparr>" "p = (case x of Inl e \<Rightarrow> Done (Inl e) | Inr pid \<Rightarrow> Pay_confirm bid pid)"
      using r by (auto simp: Pay_charge total_of_def split: sum.splits)
    then show ?thesis using charge_money [OF mo i b Pay_charge g] Pay_charge by (simp add: working_on_def)
  next
    case (Pay_confirm bid pid)
    obtain v ours where v: "confirm_locked t now bid (the_booking t bid) pid = (v, ours)" by fastforce
    then have "u = v" "p = (if ours then Done (Inr (Paid bid)) else Pay_refund bid pid)" using r by (auto simp: Pay_confirm split: bool.splits)
    then show ?thesis using confirm_money [OF mo i b Pay_confirm v] Pay_confirm by (simp add: working_on_def)
  next
    case (Cancelling bid)
    then show ?thesis using cancel_money [OF mo i b Cancelling] r by (simp add: working_on_def)
  next
    case (Sweeping bids n)
    show ?thesis
    proof (cases bids)
      case Nil
      then show ?thesis using r quiet Sweeping by auto
    next
      case (Cons bid rest)
      have "u = fst (expire_locked t bid (the_booking t bid))" "\<exists>m. p = Sweeping rest m" using r Sweeping Cons by (auto split: prod.splits)
      then obtain m where u: "u = fst (expire_locked t bid (the_booking t bid))" "p = Sweeping rest m" by blast
      have "bid \<in> known t" using b Sweeping Cons by (simp add: working_on_def)
      then show ?thesis using expire_money [OF mo i, of bid p] Sweeping unfolding u by simp
    qed
  next
    case (Pay_expire bid)
    then show ?thesis using r expire_money [OF mo i b, of bid p] by (auto simp: working_on_def)
  next
    case (Pay_refund bid pid)
    then show ?thesis using r refund_money [OF mo i] by auto
  next
    case (Cancel_refund bid pid)
    then show ?thesis using r refund_money [OF mo i] by auto
  qed (use r quiet mo in auto)
qed

lemma run_pc_ok:
  assumes "office_ok t ps" "i < length ps" "run_pc t now (ps ! i) = (u, p)"
  shows "office_ok u (ps[i := p])"
  using assms run_pc_seats run_pc_threads run_pc_money unfolding office_ok_def by blast

text \<open>A new thread.\<close>

lemma known_filter: "map fst (filter P (tk_bookings t)) = bids \<Longrightarrow> set bids \<subseteq> known t"
  by (auto simp: known_def map_of_eq_None_iff)

lemma start_call_ok:
  assumes ok: "office_ok t ps" and r: "start_call t now c = (u, p)"
  shows "office_ok u (ps @ [p])"
proof -
  have so: "seats_ok t" and th: "threads_ok t ps" and mo: "money_ok t ps" using ok by (simp_all add: office_ok_def)
  have quiet: "office_ok t (ps @ [p])" if "minting p = []" "working_on p \<subseteq> known t" "\<And>x y. \<not> owes p x y" "\<And>x. \<not> refunding p x"
    using so th mo that unfolding office_ok_def threads_ok_def money_ok_def by auto
  show ?thesis
  proof (cases c)
    case (Hold i user ids)
    show ?thesis
    proof (cases "check_request t i ids")
      case (Inl e)
      then show ?thesis using r quiet Hold by (auto simp: start_call_def minting_def working_on_def)
    next
      case (Inr ref)
      then have u: "u = t\<lparr>tk_next := tk_next t + 1\<rparr>" "p = Holding ref user ids (tk_next t)" using r Hold by (simp_all add: start_call_def)
      have "seats_ok u" using so by (simp add: u seats_ok_def)
      moreover have "threads_ok u (ps @ [p])" using th by (auto simp: threads_ok_def u minting_def working_on_def less_Suc_eq dest: bspec)
      moreover have "money_ok u (ps @ [p])"
      proof -
        have "money_ok t (ps @ [p])" using mo unfolding money_ok_def by (simp add: u(2))
        moreover have "paid_as u = paid_as t" "gone u = gone t" "books_ok u = books_ok t" by (simp_all add: u(1) paid_as_def gone_def books_ok_def fun_eq_iff)
        ultimately show ?thesis unfolding money_ok_def u(1) by simp
      qed
      ultimately show ?thesis by (simp add: office_ok_def)
    qed
  next
    case (Pay bid)
    then show ?thesis
      using r quiet by (auto simp: start_call_def find_booking_def minting_def working_on_def known_def split: option.splits if_splits)
  next
    case (Cancel bid)
    then show ?thesis
      using r quiet by (auto simp: start_call_def find_booking_def minting_def working_on_def known_def split: option.splits)
  next
    case Sweep
    then show ?thesis using r quiet known_filter [OF refl] by (auto simp: start_call_def minting_def working_on_def)
  qed
qed

lemma new_office_ok: "office_ok (new_service pricing ttl) []"
  by (simp add: office_ok_def seats_ok_def threads_ok_def money_ok_def books_ok_def known_def new_service_def new_gateway_def paid_as_def)

lemma office_ok_change:
  assumes "office_ok t ps" "seats_ok u" "tk_bookings u = tk_bookings t" "tk_next u = tk_next t"
    "tk_gateway u = tk_gateway t \<or> tk_gateway u = (tk_gateway t)\<lparr>gw_decline_next := d\<rparr>"
  shows "office_ok u ps"
proof -
  have "known u = known t" "status_at u = status_at t" "total_of u = total_of t"
    by (simp_all add: known_def status_at_def total_of_def the_booking_def assms(3) fun_eq_iff)
  moreover have "paid_as u = paid_as t" "gw_refunds (tk_gateway u) = gw_refunds (tk_gateway t)" "gw_by_key (tk_gateway u) = gw_by_key (tk_gateway t)"
    "gw_charges (tk_gateway u) = gw_charges (tk_gateway t)" "gw_next (tk_gateway u) = gw_next (tk_gateway t)"
    using assms(5) by (auto simp: paid_as_def fun_eq_iff)
  ultimately show ?thesis using assms(1-4) by (simp add: office_ok_def threads_ok_def money_ok_def books_ok_def gone_def)
qed

lemma office_step_ok:
  assumes "office_ok (bx_tickets w) (bx_threads w)"
  shows "office_ok (bx_tickets (fst (office_step w x))) (bx_threads (fst (office_step w x)))"
proof -
  obtain now op where x: "x = (now, op)" by fastforce
  have so: "seats_ok (bx_tickets w)" using assms by (simp add: office_ok_def)
  show ?thesis
  proof (cases op)
    case (Create s)
    then show ?thesis
      using office_ok_change [OF assms create_seats_ok [OF so]] by (simp add: x create_show_def Let_def)
  next
    case (Add_show ref)
    have "seats_ok (add_show (bx_tickets w) ref)" using so by (simp add: seats_ok_def add_show_def)
    from office_ok_change [OF assms this] show ?thesis using assms by (simp add: x Add_show add_show_def)
  next
    case Decline
    let ?u = "(bx_tickets w)\<lparr>tk_gateway := (tk_gateway (bx_tickets w))\<lparr>gw_decline_next := True\<rparr>\<rparr>"
    have "seats_ok ?u" using so by (simp add: seats_ok_def)
    from office_ok_change [OF assms this, of True] show ?thesis by (simp add: x Decline)
  next
    case (Spawn c)
    then show ?thesis using start_call_ok [OF assms] by (simp add: x split: prod.split)
  next
    case (Run i)
    then show ?thesis using run_pc_ok [OF assms] assms by (simp add: x split: prod.split)
  qed
qed

interpretation box_office: invariant_machine office_step "\<lambda>w. office_ok (bx_tickets w) (bx_threads w)"
  by unfold_locales (rule office_step_ok)

definition office_run :: "PricingStrategy \<Rightarrow> int \<Rightarrow> (int \<times> office_op) list \<Rightarrow> box_office" where
  "office_run pricing ttl ops = run_ops office_step (new_office pricing ttl) ops"

lemma office_run_ok: "office_ok (bx_tickets (office_run pricing ttl ops)) (bx_threads (office_run pricing ttl ops))"
  unfolding office_run_def by (rule box_office.run_inv) (simp add: new_office_def new_office_ok)

end
