(* ===== verification/Movie_Properties.thy ===== *)
theory Movie_Properties
  imports Movie_Safety "HOL-Library.List_Lexorder" "HOL-Library.Char_ord"
begin

text \<open>
  What \<open>Movie_Tickets\<close> promises: all-or-nothing holds, no seat sold twice, money that is kept only for confirmed bookings,
  and no deadlock among threads that take their seat locks with \<open>locked_in_order\<close>.
\<close>

declare split_paired_All [simp del] split_paired_Ex [simp del]

section \<open>Locks in one order\<close>

definition locked_in_order :: "string list \<Rightarrow> string list" where
  "locked_in_order ids = sort ids"

text \<open>A thread inside \<open>locked_in_order\<close>: the locks it has and those it still waits for, in order. A thread with all its locks
  runs its block and gives them back.\<close>

record locker =
  lk_has :: "string list"
  lk_wants :: "string list"

inductive lock_step :: "locker list \<Rightarrow> locker list \<Rightarrow> bool" where
  acquire: "i < length ls \<Longrightarrow> lk_wants (ls ! i) = l # rest \<Longrightarrow> (\<And>k. k \<in> set ls \<Longrightarrow> l \<notin> set (lk_has k))
     \<Longrightarrow> lock_step ls (ls[i := \<lparr>lk_has = lk_has (ls ! i) @ [l], lk_wants = rest\<rparr>])"
| release_all: "i < length ls \<Longrightarrow> lk_wants (ls ! i) = [] \<Longrightarrow> lk_has (ls ! i) \<noteq> [] \<Longrightarrow> lock_step ls (ls[i := \<lparr>lk_has = [], lk_wants = []\<rparr>])"

definition entering :: "string list list \<Rightarrow> locker list" where
  "entering requests = map (\<lambda>ids. \<lparr>lk_has = [], lk_wants = locked_in_order ids\<rparr>) requests"

definition in_order :: "locker \<Rightarrow> bool" where
  "in_order k \<longleftrightarrow> sorted (lk_has k @ lk_wants k) \<and> distinct (lk_has k @ lk_wants k)"

lemma lock_step_in_order:
  assumes "lock_step ls ks" "\<And>k. k \<in> set ls \<Longrightarrow> in_order k" "k \<in> set ks"
  shows "in_order k"
  using assms(1)
proof cases
  case (acquire i l rest)
  have o: "in_order (ls ! i)" using assms(2) acquire(2) by simp
  have "k \<in> set ls \<or> k = \<lparr>lk_has = lk_has (ls ! i) @ [l], lk_wants = rest\<rparr>"
    using assms(3) set_update_subset_insert unfolding acquire(1) by fastforce
  then show ?thesis using assms(2) o acquire(3) by (auto simp: in_order_def)
next
  case (release_all i)
  have "k \<in> set ls \<or> k = \<lparr>lk_has = [], lk_wants = []\<rparr>" using assms(3) set_update_subset_insert unfolding release_all(1) by fastforce
  then show ?thesis using assms(2) by (auto simp: in_order_def)
qed

lemma lock_steps_in_order:
  assumes "lock_step\<^sup>*\<^sup>* (entering requests) ls" "\<And>ids. ids \<in> set requests \<Longrightarrow> distinct ids" "k \<in> set ls"
  shows "in_order k"
  using assms(1,3)
proof (induction arbitrary: k rule: rtranclp_induct)
  case base
  then show ?case using assms(2) by (auto simp: entering_def in_order_def locked_in_order_def)
next
  case (step xs ys)
  then show ?case using lock_step_in_order by blast
qed

text \<open>The thread that waits for the greatest lock can go on, or the holder of that lock can.\<close>

lemma lockers_progress:
  assumes o: "\<And>k. k \<in> set ls \<Longrightarrow> in_order k" and busy: "k0 \<in> set ls" "lk_has k0 @ lk_wants k0 \<noteq> []"
  shows "\<exists>ks. lock_step ls ks"
proof (cases "\<exists>k \<in> set ls. lk_wants k = [] \<and> lk_has k \<noteq> []")
  case True
  then show ?thesis using release_all by (metis in_set_conv_nth)
next
  case False
  then have waits: "lk_wants k0 \<noteq> []" using busy by auto
  let ?W = "(\<lambda>k. hd (lk_wants k)) ` {k \<in> set ls. lk_wants k \<noteq> []}"
  have fin: "finite ?W" "?W \<noteq> {}" using busy(1) waits by auto
  have "Max ?W \<in> ?W" by (rule Max_in [OF fin])
  then obtain k where "Max ?W = hd (lk_wants k)" "k \<in> {k \<in> set ls. lk_wants k \<noteq> []}" by (rule imageE)
  then have k: "k \<in> set ls" "lk_wants k \<noteq> []" "hd (lk_wants k) = Max ?W" by simp_all
  obtain l rest where w: "lk_wants k = l # rest" using k(2) by (cases "lk_wants k") auto
  have "l \<notin> set (lk_has j)" if j: "j \<in> set ls" for j
  proof
    assume l: "l \<in> set (lk_has j)"
    then have nw: "lk_wants j \<noteq> []" using False j by fastforce
    then obtain m ms where m: "lk_wants j = m # ms" by (cases "lk_wants j") auto
    have "l < m" using o [OF j] l by (auto simp: in_order_def m sorted_append order.strict_iff_order)
    moreover have "m \<le> Max ?W" using j nw m by (intro Max_ge [OF fin(1)]) force
    ultimately show False using k(3) w by simp
  qed
  moreover obtain i where "i < length ls" "ls ! i = k" using k(1) by (metis in_set_conv_nth)
  ultimately show ?thesis using acquire [of i ls l rest] w by blast
qed

section \<open>Properties\<close>

text \<open>C7. Under any interleaving of holds, payments, cancellations and sweeps, with any readings of the clock, no seat is sold
  twice: two confirmed bookings of the same show have no seat in common, and each seat of a confirmed booking is booked for
  it.\<close>

theorem no_seat_sold_twice:
  assumes "t = bx_tickets (office_run pricing ttl ops)" "map_of (tk_bookings t) x = Some a" "bk_status a = CONFIRMED"
    "map_of (tk_bookings t) y = Some c" "bk_status c = CONFIRMED" "x \<noteq> y"
  shows "(bk_show a \<noteq> bk_show c \<or> set (bk_seats a) \<inter> set (bk_seats c) = {})
    \<and> (\<forall>sid \<in> set (bk_seats a). \<exists>s. tk_store t (bk_show a, sid) = Some s \<and> ss_status s = BOOKED \<and> ss_booking s = Some x)"
proof -
  have ok: "seats_ok t" using office_run_ok [of pricing ttl ops] assms(1) by (simp add: office_ok_def)
  show ?thesis using seats_okD(1) [OF ok assms(2,3)] seats_okD(1) [OF ok assms(4,5)] assms(6) by fastforce
qed

definition demo_show :: cinema_show where
  "demo_show = (case new_show ''S'' \<lparr>mo_id = ''M'', mo_title = ''Inception'', mo_genre = SCI_FI, mo_duration = 148, mo_language = ''English''\<rparr>
     \<lparr>th_id = ''T'', th_name = ''PVR'', th_city = MUMBAI\<rparr> (with_rows ''S1'' ''Audi 1'' [(''A'', VIP)] 3) 50000 [(VIP, 450)] of Inr s \<Rightarrow> s)"

definition two_buyers :: "(int \<times> office_op) list" where
  "two_buyers = [(0, Create demo_show), (0, Add_show 0), (10, Spawn (Hold ''S'' ''u'' [''A1''])), (10, Run 0), (11, Spawn (Hold ''S'' ''v'' [''A2''])),
     (11, Run 1), (12, Run 0), (12, Run 1), (13, Spawn (Pay 1)), (13, Spawn (Pay 2)), (14, Run 2), (14, Run 3), (15, Run 2), (15, Run 3),
     (16, Run 2), (16, Run 3), (17, Run 3), (17, Run 2)]"

theorem no_seat_sold_twice_witness:
  "\<exists>a c. map_of (tk_bookings (bx_tickets (office_run StandardPricing 600 two_buyers))) 1 = Some a \<and> bk_status a = CONFIRMED
     \<and> map_of (tk_bookings (bx_tickets (office_run StandardPricing 600 two_buyers))) 2 = Some c \<and> bk_status c = CONFIRMED
     \<and> set (bk_seats a) \<inter> set (bk_seats c) = {}"
proof -
  let ?t = "bx_tickets (office_run StandardPricing 600 two_buyers)"
  have "list_all (\<lambda>bid. case map_of (tk_bookings ?t) bid of None \<Rightarrow> False | Some b \<Rightarrow> bk_status b = CONFIRMED \<and> bk_show b = 0) [1, 2]" by code_simp
  then obtain a c where a: "map_of (tk_bookings ?t) 1 = Some a" "bk_status a = CONFIRMED" "bk_show a = 0"
    and c: "map_of (tk_bookings ?t) 2 = Some c" "bk_status c = CONFIRMED" "bk_show c = 0" by (auto split: option.splits)
  then show ?thesis using no_seat_sold_twice [OF refl a(1,2) c(1,2)] by simp
qed

text \<open>The locked block of \<open>hold_seats\<close> is all or nothing: it holds every seat of the request for the booking until the hold
  expires, when the show has not begun and every one of them is free (an expired hold counts as free), and otherwise changes
  nothing; other seats are never touched.\<close>

theorem hold_all_or_nothing:
  shows "(hold_locked t now ref ids bid = (on_seats t ref ids (hold bid (now + tk_hold_ttl t)), Inr (now + tk_hold_ttl t))
        \<and> now < sh_start (tk_objects t ! ref)
        \<and> list_all (\<lambda>sid. case tk_store t (ref, sid) of None \<Rightarrow> True | Some s \<Rightarrow> is_free now s) ids
        \<and> tk_store (fst (hold_locked t now ref ids bid)) =
            (\<lambda>k. if k \<in> {ref} \<times> set ids then map_option (hold bid (now + tk_hold_ttl t)) (tk_store t k) else tk_store t k))
     \<or> (fst (hold_locked t now ref ids bid) = t \<and> isl (snd (hold_locked t now ref ids bid))
        \<and> (sh_start (tk_objects t ! ref) \<le> now \<or> list_ex (\<lambda>sid. case tk_store t (ref, sid) of None \<Rightarrow> False | Some s \<Rightarrow> \<not> is_free now s) ids))"
proof -
  have store: "tk_store (on_seats t ref ids f) = (\<lambda>k. if k \<in> {ref} \<times> set ids then map_option f (tk_store t k) else tk_store t k)" for f
    by (auto simp: fun_eq_iff split: prod.split)
  show ?thesis
  proof (cases "sh_start (tk_objects t ! ref) \<le> now \<or> list_ex (\<lambda>sid. case tk_store t (ref, sid) of None \<Rightarrow> False | Some s \<Rightarrow> \<not> is_free now s) ids")
    case True
    then show ?thesis by (auto simp: hold_locked_def Let_def filter_empty_conv list_ex_iff)
  next
    case False
    then have f: "filter (\<lambda>sid. case tk_store t (ref, sid) of None \<Rightarrow> False | Some s \<Rightarrow> \<not> is_free now s) ids = []" "now < sh_start (tk_objects t ! ref)"
      by (auto simp: filter_empty_conv list_ex_iff)
    then have "hold_locked t now ref ids bid = (on_seats t ref ids (hold bid (now + tk_hold_ttl t)), Inr (now + tk_hold_ttl t))"
      by (simp add: hold_locked_def Let_def)
    moreover have "list_all (\<lambda>sid. case tk_store t (ref, sid) of None \<Rightarrow> True | Some s \<Rightarrow> is_free now s) ids"
      using f(1) by (auto simp: filter_empty_conv list_all_iff split: option.split_asm option.split)
    ultimately show ?thesis using f(2) by (simp add: store del: on_seats_simps(6))
  qed
qed

text \<open>How often the money of a booking may go back: the refunds made, the threads that may still ask for one, and the booking
  itself while it is confirmed (a cancellation then refunds it). Only a new call of \<open>pay_and_confirm\<close> raises this number.\<close>

fun may_refund :: "nat \<Rightarrow> pc \<Rightarrow> bool" where
  "may_refund x (Pay_check bid) = (bid = x)"
| "may_refund x (Pay_clock bid) = (bid = x)"
| "may_refund x (Pay_charge bid) = (bid = x)"
| "may_refund x (Pay_confirm bid pid) = (bid = x)"
| "may_refund x (Pay_refund bid pid) = (bid = x)"
| "may_refund x (Cancel_refund bid pid) = (bid = x)"
| "may_refund x p = False"

definition refunds_of :: "tickets \<Rightarrow> nat \<Rightarrow> nat" where
  "refunds_of t bid = length (filter (\<lambda>x. map_of (gw_by_key (tk_gateway t)) bid = Some (fst x)) (gw_refunds (tk_gateway t)))"

definition refundable_now :: "tickets \<Rightarrow> nat \<Rightarrow> nat" where
  "refundable_now t bid = refunds_of t bid + (if status_at t bid CONFIRMED then 1 else 0)"

definition refund_chances :: "tickets \<Rightarrow> pc list \<Rightarrow> nat \<Rightarrow> nat" where
  "refund_chances t ps bid = refundable_now t bid + length (filter (may_refund bid) ps)"

fun pay_calls :: "nat \<Rightarrow> (int \<times> office_op) list \<Rightarrow> nat" where
  "pay_calls bid [] = 0"
| "pay_calls bid ((now, op) # ops) = (if op = Spawn (Pay bid) then 1 else 0) + pay_calls bid ops"

lemma pay_calls_append: "pay_calls bid (xs @ ys) = pay_calls bid xs + pay_calls bid ys"
  by (induction xs) auto

lemma filter_update:
  "i < length ps \<Longrightarrow> length (filter P (ps[i := q])) + (if P (ps ! i) then 1 else 0) = length (filter P ps) + (if P q then 1 else 0)"
proof (induction ps arbitrary: i)
  case (Cons p ps)
  then show ?case by (cases i) auto
qed simp

lemma refundable_block:
  assumes "tk_gateway u = tk_gateway t" "\<And>x. status_at u x CONFIRMED \<Longrightarrow> status_at t x CONFIRMED"
  shows "refundable_now u x \<le> refundable_now t x"
  using assms by (auto simp: refundable_now_def refunds_of_def)

lemma refundable_refund:
  assumes ok: "money_ok t ps" and p: "paid_as t bid pid"
  shows "refundable_now (refund_payment t pid b) x = refundable_now t x + (if x = bid then 1 else 0)"
proof -
  have "x = bid" if "paid_as t x pid" for x
  proof -
    have "inj_on snd (set (gw_by_key (tk_gateway t)))" using money_okD(1) [OF ok] by (simp add: books_ok_def distinct_map)
    moreover have "(x, pid) \<in> set (gw_by_key (tk_gateway t))" by (rule map_of_SomeD) (rule that [unfolded paid_as_def])
    moreover have "(bid, pid) \<in> set (gw_by_key (tk_gateway t))" by (rule map_of_SomeD) (rule p [unfolded paid_as_def])
    ultimately show ?thesis using inj_onD [of snd _ "(x, pid)" "(bid, pid)"] by simp
  qed
  then have "(map_of (gw_by_key (tk_gateway t)) x = Some pid) = (x = bid)" using p unfolding paid_as_def by blast
  then show ?thesis by (simp add: refundable_now_def refunds_of_def refund_payment_def gw_refund_def)
qed

lemma refundable_charge:
  assumes ok: "money_ok t ps" and r: "gw_charge (tk_gateway t) bid m = (g, y)"
  shows "refundable_now (t\<lparr>tk_gateway := g\<rparr>) x = refundable_now t x"
proof -
  have old: "gw_next (tk_gateway t) \<noteq> fst z" if z: "z \<in> set (gw_refunds (tk_gateway t))" for z
  proof -
    obtain b where "paid_as t b (fst z)" using money_okD(5) [OF ok z] by blast
    then have "(b, fst z) \<in> set (gw_by_key (tk_gateway t))" by (auto simp: paid_as_def dest: map_of_SomeD)
    then show ?thesis using money_okD(1) [OF ok] by (auto simp: books_ok_def)
  qed
  have "refunds_of (t\<lparr>tk_gateway := g\<rparr>) x = refunds_of t x"
  proof (cases "map_of (gw_by_key (tk_gateway t)) bid = None \<and> \<not> gw_decline_next (tk_gateway t)")
    case True
    then have g: "gw_by_key g = AList.update bid (gw_next (tk_gateway t)) (gw_by_key (tk_gateway t))" "gw_refunds g = gw_refunds (tk_gateway t)"
      using r by (auto simp: gw_charge_def)
    have "filter (\<lambda>z. gw_next (tk_gateway t) = fst z) (gw_refunds (tk_gateway t)) = []" by (rule filter_False) (use old in fastforce)
    then show ?thesis using True by (cases "x = bid") (simp_all add: refunds_of_def g update_conv')
  next
    case False
    then have "gw_by_key g = gw_by_key (tk_gateway t)" "gw_refunds g = gw_refunds (tk_gateway t)" using r by (auto simp: gw_charge_def split: option.splits)
    then show ?thesis by (simp add: refunds_of_def)
  qed
  then show ?thesis by (simp add: refundable_now_def)
qed

lemma run_pc_refundable:
  assumes ok: "office_ok t ps" and i: "i < length ps" and r: "run_pc t now (ps ! i) = (u, p)"
  shows "refundable_now u x + (if may_refund x p then 1 else 0) \<le> refundable_now t x + (if may_refund x (ps ! i) then 1 else 0)"
proof -
  have mo: "money_ok t ps" and th: "threads_ok t ps" using ok by (simp_all add: office_ok_def)
  have tb: "map_of (tk_bookings t) bid = Some (the_booking t bid)" if "bid \<in> working_on (ps ! i)" for bid
    using the_booking_known working_known [OF th i] that by blast
  have expired: "refundable_now (fst (expire_locked t bid (the_booking t bid))) x \<le> refundable_now t x" for bid
    by (rule refundable_block) (auto simp: expire_locked_def split: if_splits)
  show ?thesis
  proof (cases "ps ! i")
    case (Registering ref user ids bid e)
    obtain v z where v: "register t ref user ids bid e = (v, z)" by fastforce
    then have p: "u = v" "\<not> may_refund x p" using r by (auto simp: Registering split: sum.splits)
    have "refundable_now (fst (register t ref user ids bid e)) x \<le> refundable_now t x"
      by (rule refundable_block) (auto simp: register_def split: sum.splits if_splits)
    then show ?thesis using p v Registering by simp
  next
    case (Holding ref user ids bid)
    have "refundable_now (fst (hold_locked t now ref ids bid)) x \<le> refundable_now t x"
      by (rule refundable_block) (simp_all add: status_at_def hold_bookings)
    moreover have "u = fst (hold_locked t now ref ids bid)" "\<not> may_refund x p" using r by (auto simp: Holding split: prod.splits sum.splits)
    ultimately show ?thesis by simp
  next
    case (Pay_charge bid)
    obtain g y where g: "gw_charge (tk_gateway t) bid (total_price (the_booking t bid)) = (g, y)" by fastforce
    then have "u = t\<lparr>tk_gateway := g\<rparr>" "may_refund x p \<longrightarrow> x = bid" using r by (auto simp: Pay_charge split: sum.splits)
    then show ?thesis using refundable_charge [OF mo g] Pay_charge by simp
  next
    case (Pay_confirm bid pid)
    obtain v ours where v: "confirm_locked t now bid (the_booking t bid) pid = (v, ours)" by fastforce
    then have p: "u = v" "p = (if ours then Done (Inr (Paid bid)) else Pay_refund bid pid)" using r by (auto simp: Pay_confirm split: bool.splits)
    show ?thesis
    proof (cases ours)
      case True
      have "refunds_of v x = refunds_of t x" using block_gateway(4) [of t now bid "the_booking t bid" pid] by (simp add: refunds_of_def v)
      moreover have "x \<noteq> bid \<Longrightarrow> status_at v x CONFIRMED = status_at t x CONFIRMED"
        using v True by (auto simp: confirm_locked_def split: if_splits)
      ultimately show ?thesis using p True Pay_confirm by (simp add: refundable_now_def)
    next
      case False
      then have "v = fst (expire_locked t bid (the_booking t bid))" using v by (auto simp: confirm_locked_def split: if_splits)
      then show ?thesis using p False Pay_confirm expired by simp
    qed
  next
    case (Cancelling bid)
    note b = tb [of bid, unfolded Cancelling working_on_def, simplified]
    obtain v z where v: "cancel_locked t bid (the_booking t bid) = (v, z)" by fastforce
    have g: "refunds_of v x = refunds_of t x" using block_gateway(5) [of t bid "the_booking t bid"] by (simp add: refunds_of_def v)
    have st: "status_at v x CONFIRMED \<Longrightarrow> status_at t x CONFIRMED" using v by (auto simp: cancel_locked_def split: if_splits)
    have uv: "u = v" using r v by (auto simp: Cancelling split: sum.splits BookingStatus.splits option.splits)
    show ?thesis
    proof (cases "may_refund x p")
      case True
      then obtain pid where "x = bid" "z = Inr CONFIRMED" using r v by (auto simp: Cancelling split: sum.splits BookingStatus.splits option.splits)
      then have "status_at t x CONFIRMED" "\<not> status_at v x CONFIRMED" using v b by (auto simp: cancel_locked_def status_at_def split: if_splits)
      then show ?thesis using True g uv Cancelling by (simp add: refundable_now_def)
    next
      case False
      then show ?thesis using g st uv Cancelling by (auto simp: refundable_now_def)
    qed
  next
    case (Sweeping bids n)
    then show ?thesis using r expired by (cases bids) (auto split: prod.splits simp: split_def)
  next
    case (Pay_expire bid)
    then show ?thesis using r expired by auto
  next
    case (Pay_refund bid pid)
    have "paid_as t bid pid" using money_okD(3) [OF mo nth_mem [OF i]] Pay_refund by simp
    then show ?thesis using r refundable_refund [OF mo] Pay_refund by auto
  next
    case (Cancel_refund bid pid)
    have "paid_as t bid pid" using money_okD(3) [OF mo nth_mem [OF i]] Cancel_refund by simp
    then show ?thesis using r refundable_refund [OF mo] Cancel_refund by auto
  qed (use r in \<open>auto split: if_splits\<close>)
qed

lemma start_call_refundable:
  assumes "start_call t now c = (u, p)"
  shows "refundable_now u x = refundable_now t x" "may_refund x p \<Longrightarrow> c = Pay x"
  using assms by (auto simp: start_call_def refundable_now_def refunds_of_def status_at_def split: call.splits sum.splits if_splits)

lemma office_step_refundable:
  assumes ok: "office_ok (bx_tickets w) (bx_threads w)"
  shows "refund_chances (bx_tickets (fst (office_step w y))) (bx_threads (fst (office_step w y))) x
    \<le> refund_chances (bx_tickets w) (bx_threads w) x + pay_calls x [y]"
proof -
  obtain now op where y: "y = (now, op)" by fastforce
  show ?thesis
  proof (cases op)
    case (Spawn c)
    obtain u p where s: "start_call (bx_tickets w) now c = (u, p)" by fastforce
    show ?thesis using start_call_refundable [OF s, of x] by (auto simp: y Spawn s refund_chances_def)
  next
    case (Run i)
    show ?thesis
    proof (cases "i < length (bx_threads w)")
      case True
      obtain u p where r: "run_pc (bx_tickets w) now (bx_threads w ! i) = (u, p)" by fastforce
      have "refund_chances u ((bx_threads w)[i := p]) x \<le> refund_chances (bx_tickets w) (bx_threads w) x"
        using run_pc_refundable [OF ok True r, of x] filter_update [OF True, of "may_refund x" p] by (simp add: refund_chances_def)
      then show ?thesis by (simp add: y Run True r)
    qed (simp add: y Run)
  qed (simp_all add: y refund_chances_def refundable_now_def refunds_of_def status_at_def create_show_def add_show_def Let_def)
qed

lemma refunds_bounded: "refund_chances (bx_tickets (office_run pricing ttl ops)) (bx_threads (office_run pricing ttl ops)) bid \<le> pay_calls bid ops"
proof (induction ops rule: rev_induct)
  case Nil
  show ?case by (simp add: office_run_def new_office_def refund_chances_def refundable_now_def refunds_of_def status_at_def new_service_def new_gateway_def)
next
  case (snoc y ops)
  have "office_run pricing ttl (ops @ [y]) = fst (office_step (office_run pricing ttl ops) y)" by (simp add: office_run_def run_ops_append)
  then show ?case using office_step_refundable [OF office_run_ok, of pricing ttl ops y bid] snoc by (simp add: pay_calls_append)
qed

lemma count_fst: "count_list (map fst xs) p = length (filter (\<lambda>x. p = fst x) xs)"
  by (induction xs) auto

text \<open>C20. Money is kept only for what was sold: when every thread is done, each payment the gateway took was taken once, for the
  total of its booking, and either the booking is confirmed and nothing of it was refunded, or it was cancelled or expired and
  the total went back, at least once and at most as often as \<open>pay_and_confirm\<close> was called for the booking: exactly once if it was called
  once. (A call repeated beside the first one may send the money back twice: see the run below.)\<close>

theorem paid_means_confirmed_or_refunded:
  assumes "w = office_run pricing ttl ops" "t = bx_tickets w" "list_all (\<lambda>p. case p of Done r \<Rightarrow> True | _ \<Rightarrow> False) (bx_threads w)"
    "map_of (gw_by_key (tk_gateway t)) bid = Some pid"
  shows "(pid, total_of t bid) \<in> set (gw_charges (tk_gateway t)) \<and> count_list (map fst (gw_charges (tk_gateway t))) pid = 1
    \<and> (status_at t bid CONFIRMED \<and> count_list (map fst (gw_refunds (tk_gateway t))) pid = 0
       \<or> gone t bid \<and> 1 \<le> count_list (map fst (gw_refunds (tk_gateway t))) pid \<and> count_list (map fst (gw_refunds (tk_gateway t))) pid \<le> pay_calls bid ops)
    \<and> (\<forall>m. (pid, m) \<in> set (gw_refunds (tk_gateway t)) \<longrightarrow> m = total_of t bid)"
proof -
  have ok: "money_ok t (bx_threads w)" using office_run_ok [of pricing ttl ops] assms(1,2) by (simp add: office_ok_def)
  have a: "paid_as t bid pid" using assms(4) by (simp add: paid_as_def)
  have none: "\<not> owes p x y" if "p \<in> set (bx_threads w)" for p x y using assms(3) that by (auto simp: list_all_iff owes_def)
  have b: "distinct (map snd (gw_by_key (tk_gateway t)))" "gw_charges (tk_gateway t) = map (\<lambda>x. (snd x, total_of t (fst x))) (gw_by_key (tk_gateway t))"
    using money_okD(1) [OF ok] by (simp_all add: books_ok_def)
  have mem: "(bid, pid) \<in> set (gw_by_key (tk_gateway t))" using assms(4) by (rule map_of_SomeD)
  have once: "count_list xs v = 1" if "distinct xs" "v \<in> set xs" for xs and v :: nat
    using that by (induction xs) auto
  have "map fst (gw_charges (tk_gateway t)) = map snd (gw_by_key (tk_gateway t))" by (simp add: b(2) o_def)
  then have one: "count_list (map fst (gw_charges (tk_gateway t))) pid = 1"
    using once [OF b(1), of pid] mem by force
  have owner: "x = bid" if "paid_as t x pid" for x
    using that mem b(1) map_of_SomeD [of "gw_by_key (tk_gateway t)" x pid] by (force simp: paid_as_def distinct_map inj_on_def)
  have excl: "\<not> (status_at t bid CONFIRMED \<and> gone t bid)" by (auto simp: gone_def status_at_def)
  have ref: "gone t bid" if "pid \<in> fst ` set (gw_refunds (tk_gateway t))" using that money_okD(5) [OF ok] owner by fastforce
  have "status_at t bid CONFIRMED \<or> (pid, total_of t bid) \<in> set (gw_refunds (tk_gateway t))" using money_okD(6) [OF ok a] none by blast
  then have "status_at t bid CONFIRMED \<and> pid \<notin> fst ` set (gw_refunds (tk_gateway t)) \<or> gone t bid \<and> (pid, total_of t bid) \<in> set (gw_refunds (tk_gateway t))"
    using ref excl by force
  moreover have n: "count_list (map fst (gw_refunds (tk_gateway t))) pid = refunds_of t bid" by (simp add: count_fst refunds_of_def assms(4))
  moreover have "count_list (map fst (gw_refunds (tk_gateway t))) pid = 0 \<longleftrightarrow> pid \<notin> fst ` set (gw_refunds (tk_gateway t))" by (simp add: count_list_0_iff)
  moreover have "refunds_of t bid \<le> pay_calls bid ops" using refunds_bounded [of pricing ttl ops bid] by (simp add: refund_chances_def refundable_now_def assms(1,2))
  ultimately have "status_at t bid CONFIRMED \<and> count_list (map fst (gw_refunds (tk_gateway t))) pid = 0
       \<or> gone t bid \<and> 1 \<le> count_list (map fst (gw_refunds (tk_gateway t))) pid \<and> count_list (map fst (gw_refunds (tk_gateway t))) pid \<le> pay_calls bid ops"
    by (metis One_nat_def Suc_leI fst_conv image_eqI neq0_conv)
  moreover have "(pid, total_of t bid) \<in> set (gw_charges (tk_gateway t))" using mem by (force simp: b(2))
  moreover have "m = total_of t bid" if m: "(pid, m) \<in> set (gw_refunds (tk_gateway t))" for m
    using money_okD(5) [OF ok m] owner by auto
  ultimately show ?thesis using one by simp
qed

text \<open>A payment whose hold lapsed while the money was taken, and a cancelled one.\<close>

definition late_buyer :: "(int \<times> office_op) list" where
  "late_buyer = [(0, Create demo_show), (0, Add_show 0), (10, Spawn (Hold ''S'' ''u'' [''A1''])), (10, Run 0), (11, Run 0),
     (13, Spawn (Pay 1)), (14, Run 1), (15, Run 1), (16, Run 1), (700, Run 1), (701, Run 1)]"

theorem paid_means_confirmed_or_refunded_witness:
  "count_list (map fst (gw_refunds (tk_gateway (bx_tickets (office_run StandardPricing 600 late_buyer))))) 1 = 1"
proof -
  let ?w = "office_run StandardPricing 600 late_buyer"
  have d: "list_all (\<lambda>p. case p of Done r \<Rightarrow> True | _ \<Rightarrow> False) (bx_threads ?w)" by code_simp
  have p: "map_of (gw_by_key (tk_gateway (bx_tickets ?w))) 1 = Some 1" by code_simp
  have s: "total_of (bx_tickets ?w) 1 = 450" "\<not> (case map_of (tk_bookings (bx_tickets ?w)) 1 of None \<Rightarrow> False | Some b \<Rightarrow> bk_status b = CONFIRMED)" by code_simp+
  then have "\<not> status_at (bx_tickets ?w) 1 CONFIRMED" by (auto simp: status_at_def)
  moreover have "pay_calls 1 late_buyer = 1" by code_simp
  ultimately show ?thesis using paid_means_confirmed_or_refunded [OF refl refl d p] by auto
qed

text \<open>C40. Threads that take the locks of their seats with \<open>locked_in_order\<close> never deadlock: whatever seats they ask for and
  however their steps interleave, as long as one of them has or wants a lock, some thread can go on.\<close>

theorem seat_locks_never_deadlock:
  assumes "lock_step\<^sup>*\<^sup>* (entering requests) ls" "list_all distinct requests" "k \<in> set ls" "lk_has k @ lk_wants k \<noteq> []"
  shows "\<exists>ks. lock_step ls ks"
  by (rule lockers_progress [OF _ assms(3,4)]) (use lock_steps_in_order [OF assms(1)] assms(2) in \<open>auto simp: list_all_iff\<close>)

theorem seat_locks_never_deadlock_witness:
  "\<exists>ks. lock_step (entering [[''A1'', ''A2''], [''A2'', ''A1'']]) ks"
proof -
  have "locked_in_order [''A1'', ''A2''] \<noteq> []" by code_simp
  then show ?thesis
    using seat_locks_never_deadlock [of "[[''A1'', ''A2''], [''A2'', ''A1'']]" _ "\<lparr>lk_has = [], lk_wants = locked_in_order [''A1'', ''A2'']\<rparr>"]
    by (auto simp: entering_def)
qed

text \<open>A retry of \<open>pay_and_confirm\<close> that runs beside the first call is not safe: the charge is made once, but when the hold lapses
  meanwhile both calls give the money back, so the customer is refunded twice.\<close>

definition two_tabs :: "(int \<times> office_op) list" where
  "two_tabs = [(0, Create demo_show), (0, Add_show 0), (10, Spawn (Hold ''S'' ''u'' [''A1''])), (10, Run 0), (11, Run 0),
     (13, Spawn (Pay 1)), (13, Spawn (Pay 1)), (14, Run 1), (14, Run 2), (15, Run 1), (15, Run 2), (16, Run 1), (16, Run 2),
     (700, Run 1), (700, Run 2), (701, Run 1), (701, Run 2)]"

theorem concurrent_retry_refunds_twice:
  "gw_charges (tk_gateway (bx_tickets (office_run StandardPricing 600 two_tabs))) = [(1, 450)]
   \<and> gw_refunds (tk_gateway (bx_tickets (office_run StandardPricing 600 two_tabs))) = [(1, 450), (1, 450)]"
  by code_simp

end
