(* ===== verification/Payments.thy ===== *)
theory Payments
  imports Prelude "HOL-Library.AList"
begin

text \<open>
  Payment processing of \<open>python-low-level-design/payment-processing-system/payment_processing.py\<close>: money, payments and refunds
  with their state machine, the simulated gateway with its faults, retries, risk rules, the outbox, and the service as the
  blocks its threads run. A block under a payment's lock or the service's lock is one step, a call of the gateway another.
  Ids such as \<open>pay_7\<close> are numbers; a reading of the clock is an argument.
\<close>

declare split_paired_All [simp del] split_paired_Ex [simp del]

section \<open>Money\<close>

datatype pay_error = ValidationError | IdempotencyConflictError | RequestInProgressError | IllegalTransitionError | RefundError | NotFoundError
  | Raised py_error

datatype gw_error = GatewayUnavailableError (gw_message: string) | GatewayTimeoutError (gw_message: string)

datatype Currency = USD | EUR | INR | JPY

fun exponent :: "Currency \<Rightarrow> nat" where
  "exponent JPY = 0"
| "exponent c = 2"

record money =
  mn_amount :: rat
  mn_currency :: Currency

text \<open>The checks of \<open>__post_init__\<close>; a Decimal that is not finite is not a rational.\<close>

definition new_money :: "rat \<Rightarrow> Currency \<Rightarrow> pay_error + money" where
  "new_money a c = (if a * 10 ^ exponent c \<noteq> of_int \<lfloor>a * 10 ^ exponent c\<rfloor> then Inl ValidationError else Inr \<lparr>mn_amount = a, mn_currency = c\<rparr>)"

definition money_zero :: "Currency \<Rightarrow> money" where
  "money_zero c = \<lparr>mn_amount = 0, mn_currency = c\<rparr>"

definition money_add :: "money \<Rightarrow> money \<Rightarrow> pay_error + money" where
  "money_add x y = (if mn_currency x \<noteq> mn_currency y then Inl ValidationError else Inr \<lparr>mn_amount = mn_amount x + mn_amount y, mn_currency = mn_currency x\<rparr>)"

definition money_sub :: "money \<Rightarrow> money \<Rightarrow> pay_error + money" where
  "money_sub x y = (if mn_currency x \<noteq> mn_currency y then Inl ValidationError else Inr \<lparr>mn_amount = mn_amount x - mn_amount y, mn_currency = mn_currency x\<rparr>)"

definition money_less :: "money \<Rightarrow> money \<Rightarrow> pay_error + bool" where
  "money_less x y = (if mn_currency x \<noteq> mn_currency y then Inl ValidationError else Inr (mn_amount x < mn_amount y))"

text \<open>\<open>ROUND_HALF_UP\<close> to the minor unit: half a unit goes away from zero.\<close>

definition minor_units :: "rat \<Rightarrow> Currency \<Rightarrow> rat" where
  "minor_units a c =
     (let s = 10 ^ exponent c
      in if 0 \<le> a then of_int \<lfloor>a * s + 1 / 2\<rfloor> / s else - (of_int \<lfloor>- a * s + 1 / 2\<rfloor> / s))"

definition fee :: "money \<Rightarrow> int \<Rightarrow> money" where
  "fee m bps = \<lparr>mn_amount = minor_units (mn_amount m * of_int bps / 10000) (mn_currency m), mn_currency = mn_currency m\<rparr>"

definition money_sum :: "Currency \<Rightarrow> money list \<Rightarrow> pay_error + money" where
  "money_sum c ms = foldl (\<lambda>r m. bind_sum r (\<lambda>t. money_add t m)) (Inr (money_zero c)) ms"

section \<open>Payments and refunds\<close>

datatype PaymentStatus = PROCESSING | SUCCEEDED | FAILED | UNKNOWN | PARTIALLY_REFUNDED | REFUNDED

fun ALLOWED_TRANSITIONS :: "PaymentStatus \<Rightarrow> PaymentStatus list" where
  "ALLOWED_TRANSITIONS PROCESSING = [SUCCEEDED, FAILED, UNKNOWN]"
| "ALLOWED_TRANSITIONS UNKNOWN = [SUCCEEDED, FAILED]"
| "ALLOWED_TRANSITIONS SUCCEEDED = [PARTIALLY_REFUNDED, REFUNDED]"
| "ALLOWED_TRANSITIONS PARTIALLY_REFUNDED = [PARTIALLY_REFUNDED, REFUNDED]"
| "ALLOWED_TRANSITIONS FAILED = []"
| "ALLOWED_TRANSITIONS REFUNDED = []"

definition REFUNDABLE :: "PaymentStatus list" where
  "REFUNDABLE = [SUCCEEDED, PARTIALLY_REFUNDED]"

datatype RefundStatus = R_PENDING | R_SUCCEEDED | R_FAILED

record pay_request =
  rq_key :: string
  rq_merchant :: string
  rq_customer :: string
  rq_amount :: money
  rq_token :: string

record refund_rec =
  rf_id :: nat
  rf_key :: string
  rf_amount :: money
  rf_reason :: string
  rf_status :: RefundStatus
  rf_gateway_ref :: "nat option"

record payment =
  pm_request :: pay_request
  pm_status :: PaymentStatus
  pm_gateway_ref :: "nat option"
  pm_failure :: "string option"
  pm_fee :: "money option"
  pm_refunds :: "refund_rec list"
  pm_history :: "PaymentStatus list"

definition new_payment :: "pay_request \<Rightarrow> payment" where
  "new_payment rq = \<lparr>pm_request = rq, pm_status = PROCESSING, pm_gateway_ref = None, pm_failure = None, pm_fee = None, pm_refunds = [],
     pm_history = [PROCESSING]\<rparr>"

definition pm_amount :: "payment \<Rightarrow> money" where
  "pm_amount p = rq_amount (pm_request p)"

definition refunds_in :: "RefundStatus \<Rightarrow> payment \<Rightarrow> money list" where
  "refunds_in st p = map rf_amount (filter (\<lambda>r. rf_status r = st) (pm_refunds p))"

definition refunded :: "payment \<Rightarrow> pay_error + money" where
  "refunded p = money_sum (mn_currency (pm_amount p)) (refunds_in R_SUCCEEDED p)"

definition held_for_refunds :: "payment \<Rightarrow> pay_error + money" where
  "held_for_refunds p = money_sum (mn_currency (pm_amount p)) (refunds_in R_PENDING p)"

definition refundable :: "payment \<Rightarrow> pay_error + money" where
  "refundable p =
     (if pm_status p \<notin> set REFUNDABLE then Inr (money_zero (mn_currency (pm_amount p)))
      else bind_sum (refunded p) (\<lambda>r. bind_sum (money_sub (pm_amount p) r) (\<lambda>d. bind_sum (held_for_refunds p) (\<lambda>h. money_sub d h))))"

definition transition :: "payment \<Rightarrow> PaymentStatus \<Rightarrow> pay_error + payment" where
  "transition p to =
     (if to \<notin> set (ALLOWED_TRANSITIONS (pm_status p)) then Inl IllegalTransitionError
      else Inr (p\<lparr>pm_status := to, pm_history := pm_history p @ [to]\<rparr>))"

section \<open>The simulated gateway\<close>

datatype GatewayDecision = APPROVED | DECLINED

record gw_result =
  gr_decision :: GatewayDecision
  gr_reference :: nat
  gr_reason :: string

text \<open>The keys \<open>charge:k\<close> and \<open>refund:k\<close>.\<close>

datatype gw_key = ChargeKey string | RefundKey string

record sim_gateway =
  sg_results :: "(gw_key \<times> gw_result) list"
  sg_faults :: "string list"
  sg_refs :: nat
  sg_moved :: "(string \<times> money) list"

definition new_sim :: sim_gateway where
  "new_sim = \<lparr>sg_results = [], sg_faults = [], sg_refs = 1, sg_moved = []\<rparr>"

definition inject :: "sim_gateway \<Rightarrow> string list \<Rightarrow> sim_gateway" where
  "inject g fs = g\<lparr>sg_faults := sg_faults g @ fs\<rparr>"

definition decide_charge :: "money \<Rightarrow> string \<Rightarrow> sim_gateway \<Rightarrow> sim_gateway \<times> gw_result" where
  "decide_charge amount token g =
     (if take 11 token = ''tok_decline''
      then (g\<lparr>sg_refs := sg_refs g + 1\<rparr>, \<lparr>gr_decision = DECLINED, gr_reference = sg_refs g, gr_reason = ''card_declined''\<rparr>)
      else (g\<lparr>sg_moved := sg_moved g @ [(''charge'', amount)], sg_refs := sg_refs g + 1\<rparr>,
            \<lparr>gr_decision = APPROVED, gr_reference = sg_refs g, gr_reason = []\<rparr>))"

definition decide_refund :: "money \<Rightarrow> sim_gateway \<Rightarrow> sim_gateway \<times> gw_result" where
  "decide_refund amount g =
     (g\<lparr>sg_moved := sg_moved g @ [(''refund'', amount)], sg_refs := sg_refs g + 1\<rparr>,
      \<lparr>gr_decision = APPROVED, gr_reference = sg_refs g, gr_reason = []\<rparr>)"

definition settle :: "gw_key \<Rightarrow> (sim_gateway \<Rightarrow> sim_gateway \<times> gw_result) \<Rightarrow> sim_gateway \<Rightarrow> sim_gateway" where
  "settle key decide g =
     (if map_of (sg_results g) key = None
      then (case decide g of (g1, r) \<Rightarrow> g1\<lparr>sg_results := AList.update key r (sg_results g1)\<rparr>) else g)"

definition gw_call :: "gw_key \<Rightarrow> (sim_gateway \<Rightarrow> sim_gateway \<times> gw_result) \<Rightarrow> sim_gateway \<Rightarrow> sim_gateway \<times> (gw_error + gw_result)" where
  "gw_call key decide g =
     (let fault = (case sg_faults g of [] \<Rightarrow> [] | f # fs \<Rightarrow> f); g0 = g\<lparr>sg_faults := tl (sg_faults g)\<rparr>
      in if fault = ''unavailable'' then (g0, Inl (GatewayUnavailableError ''connection refused''))
         else if fault = ''timeout_before'' then (g0, Inl (GatewayTimeoutError ''read timeout''))
         else (let g1 = settle key decide g0
               in if fault = ''timeout_after'' then (g1, Inl (GatewayTimeoutError ''read timeout (charge went through)'')) else (g1, Inr (the (map_of (sg_results g1) key)))))"

definition gateway_charge :: "string \<Rightarrow> money \<Rightarrow> string \<Rightarrow> sim_gateway \<Rightarrow> sim_gateway \<times> (gw_error + gw_result)" where
  "gateway_charge key amount token = gw_call (ChargeKey key) (decide_charge amount token)"

definition gateway_refund :: "string \<Rightarrow> money \<Rightarrow> sim_gateway \<Rightarrow> sim_gateway \<times> (gw_error + gw_result)" where
  "gateway_refund key amount = gw_call (RefundKey key) (decide_refund amount)"

section \<open>Risk rules and outbox\<close>

datatype RiskRule = AmountLimitRule money | VelocityRule nat rat "(string \<times> rat list) list"

text \<open>A rejection reason, or None; the velocity rule keeps the attempts of each customer in its window.\<close>

fun evaluate :: "rat \<Rightarrow> pay_request \<Rightarrow> RiskRule \<Rightarrow> RiskRule \<times> string option" where
  "evaluate now rq (AmountLimitRule limit) =
     (AmountLimitRule limit,
      if mn_currency (rq_amount rq) = mn_currency limit \<and> mn_amount limit < mn_amount (rq_amount rq) then Some ''amount exceeds limit'' else None)"
| "evaluate now rq (VelocityRule max_attempts window attempts) =
     (let q = dropWhile (\<lambda>t. t \<le> now - window) (case map_of attempts (rq_customer rq) of None \<Rightarrow> [] | Some q \<Rightarrow> q)
      in if length q \<ge> max_attempts then (VelocityRule max_attempts window (AList.update (rq_customer rq) q attempts), Some ''too many attempts'')
         else (VelocityRule max_attempts window (AList.update (rq_customer rq) (q @ [now]) attempts), None))"

datatype aggregate = OfPayment nat | OfRefund nat

record outbox_event =
  ev_id :: nat
  ev_type :: string
  ev_aggregate :: aggregate

record outbox =
  ob_pending :: "outbox_event list"
  ob_next :: nat

definition outbox_append :: "string \<Rightarrow> aggregate \<Rightarrow> outbox \<Rightarrow> outbox" where
  "outbox_append ty agg ob =
     ob\<lparr>ob_pending := ob_pending ob @ [\<lparr>ev_id = ob_next ob, ev_type = ty, ev_aggregate = agg\<rparr>], ob_next := ob_next ob + 1\<rparr>"

definition outbox_remove :: "nat \<Rightarrow> outbox \<Rightarrow> outbox" where
  "outbox_remove i ob = ob\<lparr>ob_pending := filter (\<lambda>e. ev_id e \<noteq> i) (ob_pending ob)\<rparr>"

section \<open>The service\<close>

record service =
  sv_merchants :: "(string \<times> int) list"
  sv_payments :: "(nat \<times> payment) list"
  sv_by_key :: "((string \<times> string) \<times> nat) list"
  sv_refund_keys :: "((nat \<times> string) \<times> nat) list"
  sv_next :: nat
  sv_rules :: "RiskRule list"
  sv_outbox :: outbox
  sv_max_attempts :: nat

definition new_service :: "RiskRule list \<Rightarrow> int \<Rightarrow> py_error + service" where
  "new_service rules max_attempts =
     (if max_attempts < 1 then Inl ValueError
      else Inr \<lparr>sv_merchants = [], sv_payments = [], sv_by_key = [], sv_refund_keys = [], sv_next = 1, sv_rules = rules,
        sv_outbox = \<lparr>ob_pending = [], ob_next = 1\<rparr>, sv_max_attempts = nat max_attempts\<rparr>)"

definition add_merchant :: "service \<Rightarrow> string \<Rightarrow> int \<Rightarrow> service" where
  "add_merchant s m fee_bps = s\<lparr>sv_merchants := AList.update m fee_bps (sv_merchants s)\<rparr>"

definition find_payment :: "service \<Rightarrow> nat \<Rightarrow> pay_error + payment" where
  "find_payment s i = (case map_of (sv_payments s) i of None \<Rightarrow> Inl NotFoundError | Some p \<Rightarrow> Inr p)"

definition the_payment :: "service \<Rightarrow> nat \<Rightarrow> payment" where
  "the_payment s i = the (map_of (sv_payments s) i)"

definition put_payment :: "service \<Rightarrow> nat \<Rightarrow> payment \<Rightarrow> service" where
  "put_payment s i p = s\<lparr>sv_payments := AList.update i p (sv_payments s)\<rparr>"

definition emit :: "service \<Rightarrow> string \<Rightarrow> aggregate \<Rightarrow> service" where
  "emit s ty agg = s\<lparr>sv_outbox := outbox_append ty agg (sv_outbox s)\<rparr>"

fun status_name :: "PaymentStatus \<Rightarrow> string" where
  "status_name PROCESSING = ''processing''"
| "status_name SUCCEEDED = ''succeeded''"
| "status_name FAILED = ''failed''"
| "status_name UNKNOWN = ''unknown''"
| "status_name PARTIALLY_REFUNDED = ''partially_refunded''"
| "status_name REFUNDED = ''refunded''"

text \<open>\<open>_finish_charge\<close>.\<close>

definition finish_charge :: "service \<Rightarrow> nat \<Rightarrow> payment \<Rightarrow> PaymentStatus \<Rightarrow> string option \<Rightarrow> service \<times> (pay_error + unit)" where
  "finish_charge s i p to reason =
     (case transition p to of
        Inl e \<Rightarrow> (put_payment s i p, Inl e)
      | Inr p1 \<Rightarrow> (emit (put_payment s i (p1\<lparr>pm_failure := reason\<rparr>)) (''payment.'' @ status_name to) (OfPayment i), Inr ()))"

text \<open>The block of \<open>_attempt_charge\<close> after the gateway has answered, or has failed for good.\<close>

definition charge_done :: "service \<Rightarrow> nat \<Rightarrow> int \<Rightarrow> gw_error + gw_result \<Rightarrow> service \<times> (pay_error + unit)" where
  "charge_done s i fee_bps res =
     (let p = the_payment s i
      in (case res of
            Inl e \<Rightarrow>
              if pm_status p = PROCESSING
              then finish_charge s i p UNKNOWN (Some (gw_message e)) else (s, Inr ())
          | Inr r \<Rightarrow>
              if pm_status p \<noteq> PROCESSING \<and> pm_status p \<noteq> UNKNOWN then (s, Inr ())
              else (let p1 = p\<lparr>pm_gateway_ref := Some (gr_reference r)\<rparr>
                    in if gr_decision r = APPROVED then finish_charge s i (p1\<lparr>pm_fee := Some (fee (pm_amount p) fee_bps)\<rparr>) SUCCEEDED None
                       else finish_charge s i p1 FAILED (Some (gr_reason r)))))"

text \<open>The block of \<open>pay\<close> under the service lock.\<close>

definition open_payment :: "service \<Rightarrow> pay_request \<Rightarrow> service \<times> (pay_error + nat \<times> int option)" where
  "open_payment s rq =
     (if mn_amount (rq_amount rq) \<le> 0 then (s, Inl ValidationError)
      else if rq_key rq = [] then (s, Inl ValidationError)
      else (case map_of (sv_merchants s) (rq_merchant rq) of
              None \<Rightarrow> (s, Inl NotFoundError)
            | Some bps \<Rightarrow>
                (case map_of (sv_by_key s) (rq_merchant rq, rq_key rq) of
                   Some i \<Rightarrow>
                     if pm_request (the_payment s i) \<noteq> rq then (s, Inl IdempotencyConflictError)
                     else if pm_status (the_payment s i) = PROCESSING then (s, Inl RequestInProgressError)
                     else (s, Inr (i, None))
                 | None \<Rightarrow>
                     (let i = sv_next s
                      in (s\<lparr>sv_next := i + 1, sv_payments := AList.update i (new_payment rq) (sv_payments s),
                            sv_by_key := AList.update (rq_merchant rq, rq_key rq) i (sv_by_key s)\<rparr>, Inr (i, Some bps))))))"

text \<open>The block of \<open>refund\<close> under the payment's lock; the flag says whether the refund is new.\<close>

definition open_refund :: "service \<Rightarrow> nat \<Rightarrow> money \<Rightarrow> string \<Rightarrow> string \<Rightarrow> service \<times> (pay_error + nat \<times> bool)" where
  "open_refund s i amount key reason =
     (let p = the_payment s i
      in (case map_of (sv_refund_keys s) (i, key) of
            Some rid \<Rightarrow>
              if (\<exists>r \<in> set (pm_refunds p). rf_id r = rid \<and> rf_amount r \<noteq> amount) then (s, Inl IdempotencyConflictError) else (s, Inr (rid, False))
          | None \<Rightarrow>
              if pm_status p \<notin> set REFUNDABLE then (s, Inl RefundError)
              else or_raise s (bind_sum (refundable p) (\<lambda>left. money_less left amount)) (\<lambda>short.
                if short then (s, Inl RefundError)
                else (let rid = sv_next s;
                          r = \<lparr>rf_id = rid, rf_key = key, rf_amount = amount, rf_reason = reason, rf_status = R_PENDING, rf_gateway_ref = None\<rparr>
                      in ((put_payment s i (p\<lparr>pm_refunds := pm_refunds p @ [r]\<rparr>))\<lparr>sv_next := rid + 1,
                            sv_refund_keys := AList.update (i, key) rid (sv_refund_keys s)\<rparr>, Inr (rid, True))))))"

definition set_refund :: "payment \<Rightarrow> nat \<Rightarrow> (refund_rec \<Rightarrow> refund_rec) \<Rightarrow> payment" where
  "set_refund p rid f = p\<lparr>pm_refunds := map (\<lambda>r. if rf_id r = rid then f r else r) (pm_refunds p)\<rparr>"

definition the_refund :: "payment \<Rightarrow> nat \<Rightarrow> refund_rec" where
  "the_refund p rid = the (find (\<lambda>r. rf_id r = rid) (pm_refunds p))"

text \<open>The block of \<open>_attempt_refund\<close> after the gateway has answered; when it has failed for good, the refund stays pending.\<close>

definition refund_done :: "service \<Rightarrow> nat \<Rightarrow> nat \<Rightarrow> gw_error + gw_result \<Rightarrow> service \<times> (pay_error + unit)" where
  "refund_done s i rid res =
     (case res of
        Inl e \<Rightarrow> (s, Inr ())
      | Inr g \<Rightarrow>
          (let p = the_payment s i
           in if rf_status (the_refund p rid) \<noteq> R_PENDING then (s, Inr ())
              else if gr_decision g = APPROVED
              then (let p1 = set_refund p rid (\<lambda>r. r\<lparr>rf_gateway_ref := Some (gr_reference g), rf_status := R_SUCCEEDED\<rparr>)
                    in or_raise (put_payment s i p1) (refunded p1) (\<lambda>total.
                       or_raise (put_payment s i p1) (transition p1 (if total = pm_amount p1 then REFUNDED else PARTIALLY_REFUNDED)) (\<lambda>p2.
                       (emit (put_payment s i p2) ''refund.succeeded'' (OfRefund rid), Inr ()))))
              else (emit (put_payment s i (set_refund p rid (\<lambda>r. r\<lparr>rf_gateway_ref := Some (gr_reference g), rf_status := R_FAILED\<rparr>)))
                      ''refund.failed'' (OfRefund rid), Inr ())))"

section \<open>Threads\<close>

text \<open>The merchant's fee is known to \<open>pay\<close>; \<open>reconcile\<close> looks it up when it comes to the payment.\<close>

datatype job = ChargeJob nat "int option" | RefundJob nat nat

datatype call = Pay pay_request | Refund nat money string string | Reconcile | Relay

datatype answer = Payment_is nat | Refund_is nat | Reconciled "nat list" | Relayed nat

text \<open>A thread evaluates the risk rules one by one, calls the gateway for a job (counting its attempts), ends the job, or relays
  events; behind the job come the other jobs of a \<open>reconcile\<close>.\<close>

datatype pc =
    Rules nat int nat
  | Calling job nat "job list" answer
  | Ending job "gw_error + gw_result" "job list" answer
  | Relaying "outbox_event list" nat
  | Removing outbox_event "outbox_event list" nat
  | Done "pay_error + answer"

fun next_job :: "job list \<Rightarrow> answer \<Rightarrow> pc" where
  "next_job [] a = Done (Inr a)"
| "next_job (j # js) a = Calling j 0 js a"

definition start_call :: "service \<Rightarrow> call \<Rightarrow> service \<times> pc" where
  "start_call s c =
     (case c of
        Pay rq \<Rightarrow>
          (case open_payment s rq of
             (s1, Inl e) \<Rightarrow> (s1, Done (Inl e))
           | (s1, Inr (i, None)) \<Rightarrow> (s1, Done (Inr (Payment_is i)))
           | (s1, Inr (i, Some bps)) \<Rightarrow> (s1, Rules i bps 0))
      | Refund i amount key reason \<Rightarrow>
          if mn_amount amount \<le> 0 then (s, Done (Inl ValidationError))
          else (case find_payment s i of
                  Inl e \<Rightarrow> (s, Done (Inl e))
                | Inr p \<Rightarrow>
                    (case open_refund s i amount key reason of
                       (s1, Inl e) \<Rightarrow> (s1, Done (Inl e))
                     | (s1, Inr (rid, fresh)) \<Rightarrow> (s1, if fresh then Calling (RefundJob i rid) 0 [] (Refund_is rid) else Done (Inr (Refund_is rid)))))
      | Reconcile \<Rightarrow>
          (let unknown = filter (\<lambda>x. pm_status (snd x) = UNKNOWN) (sv_payments s)
           in (s, next_job
                 (map (\<lambda>x. ChargeJob (fst x) None) unknown
                  @ concat (map (\<lambda>x. map (\<lambda>r. RefundJob (fst x) (rf_id r)) (filter (\<lambda>r. rf_status r = R_PENDING) (pm_refunds (snd x)))) (sv_payments s)))
                 (Reconciled (map fst unknown))))
      | Relay \<Rightarrow> (s, Relaying (sort_key ev_id (ob_pending (sv_outbox s))) 0))"

fun resolve :: "service \<Rightarrow> job \<Rightarrow> job" where
  "resolve s (ChargeJob i None) = ChargeJob i (map_of (sv_merchants s) (rq_merchant (pm_request (the_payment s i))))"
| "resolve s j = j"

fun call_gateway :: "service \<Rightarrow> sim_gateway \<Rightarrow> job \<Rightarrow> sim_gateway \<times> (gw_error + gw_result)" where
  "call_gateway s g (ChargeJob i bps) =
     (let rq = pm_request (the_payment s i) in gateway_charge (rq_key rq) (rq_amount rq) (rq_token rq) g)"
| "call_gateway s g (RefundJob i rid) =
     (let r = the_refund (the_payment s i) rid in gateway_refund (rf_key r) (rf_amount r) g)"

record pay_world =
  pw_service :: service
  pw_gateway :: sim_gateway
  pw_threads :: "pc list"
  pw_published :: "outbox_event list"

fun run_pc :: "pay_world \<Rightarrow> rat \<Rightarrow> bool \<Rightarrow> pc \<Rightarrow> pay_world \<times> pc" where
  "run_pc w now ok (Rules i bps k) =
     (let s = pw_service w
      in if k < length (sv_rules s)
         then (case evaluate now (pm_request (the_payment s i)) (sv_rules s ! k) of (rule, reason) \<Rightarrow>
                 (let s1 = s\<lparr>sv_rules := (sv_rules s)[k := rule]\<rparr>
                  in (case reason of
                        None \<Rightarrow> (w\<lparr>pw_service := s1\<rparr>, Rules i bps (k + 1))
                      | Some why \<Rightarrow>
                          (case finish_charge s1 i (the_payment s1 i) FAILED (Some (''risk: '' @ why)) of
                             (s2, Inl e) \<Rightarrow> (w\<lparr>pw_service := s2\<rparr>, Done (Inl e))
                           | (s2, Inr u) \<Rightarrow> (w\<lparr>pw_service := s2\<rparr>, Done (Inr (Payment_is i)))))))
         else (w, Calling (ChargeJob i (Some bps)) 0 [] (Payment_is i)))"
| "run_pc w now ok (Calling j n js a) =
     (let k = resolve (pw_service w) j
      in (case call_gateway (pw_service w) (pw_gateway w) k of
            (g, Inr r) \<Rightarrow> (w\<lparr>pw_gateway := g\<rparr>, Ending k (Inr r) js a)
          | (g, Inl e) \<Rightarrow> (w\<lparr>pw_gateway := g\<rparr>, if n + 1 = sv_max_attempts (pw_service w) then Ending k (Inl e) js a else Calling k (n + 1) js a)))"
| "run_pc w now ok (Ending (ChargeJob i bps) res js a) =
     (case charge_done (pw_service w) i (the bps) res of
        (s, Inl e) \<Rightarrow> (w\<lparr>pw_service := s\<rparr>, Done (Inl e)) | (s, Inr u) \<Rightarrow> (w\<lparr>pw_service := s\<rparr>, next_job js a))"
| "run_pc w now ok (Ending (RefundJob i rid) res js a) =
     (case refund_done (pw_service w) i rid res of
        (s, Inl e) \<Rightarrow> (w\<lparr>pw_service := s\<rparr>, Done (Inl e)) | (s, Inr u) \<Rightarrow> (w\<lparr>pw_service := s\<rparr>, next_job js a))"
| "run_pc w now ok (Relaying [] n) = (w, Done (Inr (Relayed n)))"
| "run_pc w now ok (Relaying (e # es) n) =
     (if ok then (w\<lparr>pw_published := pw_published w @ [e]\<rparr>, Removing e es n) else (w, Done (Inr (Relayed n))))"
| "run_pc w now ok (Removing e es n) =
     (w\<lparr>pw_service := (pw_service w)\<lparr>sv_outbox := outbox_remove (ev_id e) (sv_outbox (pw_service w))\<rparr>\<rparr>, Relaying es (n + 1))"
| "run_pc w now ok (Done r) = (w, Done r)"

datatype pay_op = Merchant string int | Inject "string list" | Spawn call | Run nat rat bool

fun pay_step :: "pay_world \<Rightarrow> pay_op \<Rightarrow> pay_world \<times> unit" where
  "pay_step w (Merchant m bps) = (w\<lparr>pw_service := add_merchant (pw_service w) m bps\<rparr>, ())"
| "pay_step w (Inject fs) = (w\<lparr>pw_gateway := inject (pw_gateway w) fs\<rparr>, ())"
| "pay_step w (Spawn c) =
     (case start_call (pw_service w) c of (s, p) \<Rightarrow> (w\<lparr>pw_service := s, pw_threads := pw_threads w @ [p]\<rparr>, ()))"
| "pay_step w (Run i now ok) =
     (if i < length (pw_threads w)
      then (case run_pc w now ok (pw_threads w ! i) of (w1, p) \<Rightarrow> (w1\<lparr>pw_threads := (pw_threads w1)[i := p]\<rparr>, ()))
      else (w, ()))"

definition opening_world :: "service \<Rightarrow> pay_world" where
  "opening_world s = \<lparr>pw_service = s, pw_gateway = new_sim, pw_threads = [], pw_published = []\<rparr>"

end
