(* ===== verification/Payment_Safety.thy ===== *)
theory Payment_Safety
  imports Payments
begin

text \<open>
  Invariants of \<open>Payments\<close> over any interleaving of its threads: what the state of a payment says of its refunds and its
  history, which payments the threads work on, and what the gateway has moved.
\<close>

declare split_paired_All [simp del] split_paired_Ex [simp del]

section \<open>One payment\<close>

lemma money_sum_same:
  assumes "\<And>m. m \<in> set ms \<Longrightarrow> mn_currency m = c"
  shows "money_sum c ms = Inr \<lparr>mn_amount = sum_list (map mn_amount ms), mn_currency = c\<rparr>"
proof -
  have "foldl (\<lambda>r m. bind_sum r (\<lambda>t. money_add t m)) (Inr \<lparr>mn_amount = a, mn_currency = c\<rparr>) ms
      = (Inr \<lparr>mn_amount = a + sum_list (map mn_amount ms), mn_currency = c\<rparr> :: pay_error + money)" for a
    using assms by (induction ms arbitrary: a) (simp_all add: money_add_def add.assoc)
  from this [of 0] show ?thesis by (simp add: money_sum_def money_zero_def)
qed

definition sum_in :: "RefundStatus \<Rightarrow> payment \<Rightarrow> rat" where
  "sum_in st p = sum_list (map mn_amount (refunds_in st p))"

definition cap :: "payment \<Rightarrow> rat" where
  "cap p = mn_amount (pm_amount p)"

fun allowed_path :: "PaymentStatus list \<Rightarrow> bool" where
  "allowed_path (a # b # xs) = (b \<in> set (ALLOWED_TRANSITIONS a) \<and> allowed_path (b # xs))"
| "allowed_path xs = True"

lemma allowed_path_snoc: "allowed_path xs \<Longrightarrow> xs \<noteq> [] \<Longrightarrow> b \<in> set (ALLOWED_TRANSITIONS (last xs)) \<Longrightarrow> allowed_path (xs @ [b])"
  by (induction xs rule: allowed_path.induct) auto

text \<open>What the status says of the refunds.\<close>

definition refunds_fit :: "payment \<Rightarrow> bool" where
  "refunds_fit p \<longleftrightarrow>
     (case pm_status p of
        SUCCEEDED \<Rightarrow> sum_in R_SUCCEEDED p = 0
      | PARTIALLY_REFUNDED \<Rightarrow> 0 < sum_in R_SUCCEEDED p \<and> sum_in R_SUCCEEDED p < cap p
      | REFUNDED \<Rightarrow> sum_in R_SUCCEEDED p = cap p
      | _ \<Rightarrow> pm_refunds p = [])"

definition history_fits :: "payment \<Rightarrow> bool" where
  "history_fits p \<longleftrightarrow> allowed_path (pm_history p) \<and> pm_history p \<noteq> [] \<and> hd (pm_history p) = PROCESSING \<and> last (pm_history p) = pm_status p"

definition payment_ok :: "payment \<Rightarrow> bool" where
  "payment_ok p \<longleftrightarrow> 0 < cap p \<and> (\<forall>r \<in> set (pm_refunds p). mn_currency (rf_amount r) = mn_currency (pm_amount p) \<and> 0 < mn_amount (rf_amount r))
     \<and> distinct (map rf_id (pm_refunds p)) \<and> sum_in R_SUCCEEDED p + sum_in R_PENDING p \<le> cap p \<and> refunds_fit p \<and> history_fits p"

lemma payment_okD:
  assumes "payment_ok p"
  shows "0 < cap p" "r \<in> set (pm_refunds p) \<Longrightarrow> mn_currency (rf_amount r) = mn_currency (pm_amount p)" "r \<in> set (pm_refunds p) \<Longrightarrow> 0 < mn_amount (rf_amount r)"
    "distinct (map rf_id (pm_refunds p))" "sum_in R_SUCCEEDED p + sum_in R_PENDING p \<le> cap p" "refunds_fit p" "history_fits p"
  using assms by (auto simp: payment_ok_def)

lemma refunds_in_currency:
  "payment_ok p \<Longrightarrow> m \<in> set (refunds_in st p) \<Longrightarrow> mn_currency m = mn_currency (pm_amount p)"
  by (auto simp: refunds_in_def payment_ok_def)

lemma refunded_eq:
  assumes "payment_ok p"
  shows "refunded p = Inr \<lparr>mn_amount = sum_in R_SUCCEEDED p, mn_currency = mn_currency (pm_amount p)\<rparr>"
    "held_for_refunds p = Inr \<lparr>mn_amount = sum_in R_PENDING p, mn_currency = mn_currency (pm_amount p)\<rparr>"
  by (simp_all add: refunded_def held_for_refunds_def sum_in_def money_sum_same refunds_in_currency [OF assms])

lemma refundable_eq:
  assumes "payment_ok p" "pm_status p \<in> set REFUNDABLE"
  shows "refundable p = Inr \<lparr>mn_amount = cap p - sum_in R_SUCCEEDED p - sum_in R_PENDING p, mn_currency = mn_currency (pm_amount p)\<rparr>"
  using assms by (simp add: refundable_def refunded_eq money_sub_def cap_def)

lemma new_payment_ok: "0 < mn_amount (rq_amount rq) \<Longrightarrow> payment_ok (new_payment rq)"
  by (simp add: payment_ok_def new_payment_def cap_def pm_amount_def sum_in_def refunds_in_def refunds_fit_def history_fits_def)

lemma transition_eq: "to \<in> set (ALLOWED_TRANSITIONS (pm_status p)) \<Longrightarrow> transition p to = Inr (p\<lparr>pm_status := to, pm_history := pm_history p @ [to]\<rparr>)"
  by (simp add: transition_def)

lemma history_step:
  "history_fits p \<Longrightarrow> to \<in> set (ALLOWED_TRANSITIONS (pm_status p)) \<Longrightarrow> history_fits (p\<lparr>pm_status := to, pm_history := pm_history p @ [to]\<rparr>)"
  using allowed_path_snoc [of "pm_history p" to] by (simp add: history_fits_def)

lemma payment_fields [simp]:
  "cap (p\<lparr>pm_status := st\<rparr>) = cap p" "cap (p\<lparr>pm_history := h\<rparr>) = cap p" "cap (p\<lparr>pm_failure := f\<rparr>) = cap p" "cap (p\<lparr>pm_fee := e\<rparr>) = cap p"
  "cap (p\<lparr>pm_gateway_ref := g\<rparr>) = cap p" "cap (p\<lparr>pm_refunds := rs\<rparr>) = cap p"
  "sum_in x (p\<lparr>pm_status := st\<rparr>) = sum_in x p" "sum_in x (p\<lparr>pm_history := h\<rparr>) = sum_in x p" "sum_in x (p\<lparr>pm_failure := f\<rparr>) = sum_in x p"
  "sum_in x (p\<lparr>pm_fee := e\<rparr>) = sum_in x p" "sum_in x (p\<lparr>pm_gateway_ref := g\<rparr>) = sum_in x p"
  "pm_amount (p\<lparr>pm_status := st\<rparr>) = pm_amount p" "pm_amount (p\<lparr>pm_history := h\<rparr>) = pm_amount p" "pm_amount (p\<lparr>pm_failure := f\<rparr>) = pm_amount p"
  "pm_amount (p\<lparr>pm_fee := e\<rparr>) = pm_amount p" "pm_amount (p\<lparr>pm_gateway_ref := g\<rparr>) = pm_amount p" "pm_amount (p\<lparr>pm_refunds := rs\<rparr>) = pm_amount p"
  by (simp_all add: cap_def pm_amount_def sum_in_def refunds_in_def)

text \<open>The end of a charge.\<close>

definition charge_open :: "payment \<Rightarrow> bool" where
  "charge_open p \<longleftrightarrow> pm_status p = PROCESSING \<or> pm_status p = UNKNOWN"

lemma charge_end_ok:
  assumes "payment_ok p" "charge_open p" "to \<in> set (ALLOWED_TRANSITIONS (pm_status p))"
  shows "payment_ok (p\<lparr>pm_gateway_ref := g, pm_fee := e, pm_status := to, pm_history := pm_history p @ [to], pm_failure := f\<rparr>)"
proof -
  have none: "pm_refunds p = []" using payment_okD(6) [OF assms(1)] assms(2) by (auto simp: refunds_fit_def charge_open_def)
  then have z: "sum_in st p = 0" for st by (simp add: sum_in_def refunds_in_def)
  have "to = SUCCEEDED \<or> to = FAILED \<or> to = UNKNOWN" using assms(2,3) by (auto simp: charge_open_def)
  then show ?thesis using assms(1) history_step [OF payment_okD(7) [OF assms(1)] assms(3)] none z
    by (auto simp: payment_ok_def refunds_fit_def history_fits_def)
qed

text \<open>A new refund, and the end of one.\<close>

lemma sum_in_add:
  "sum_in st (p\<lparr>pm_refunds := pm_refunds p @ [r]\<rparr>) = sum_in st p + (if rf_status r = st then mn_amount (rf_amount r) else 0)"
  by (simp add: sum_in_def refunds_in_def)

lemma new_refund_ok:
  assumes "payment_ok p" "pm_status p \<in> set REFUNDABLE" "rf_id r \<notin> rf_id ` set (pm_refunds p)" "rf_status r = R_PENDING"
    "mn_currency (rf_amount r) = mn_currency (pm_amount p)" "0 < mn_amount (rf_amount r)" "mn_amount (rf_amount r) \<le> cap p - sum_in R_SUCCEEDED p - sum_in R_PENDING p"
  shows "payment_ok (p\<lparr>pm_refunds := pm_refunds p @ [r]\<rparr>)"
  using assms by (auto simp: payment_ok_def sum_in_add refunds_fit_def history_fits_def REFUNDABLE_def)

lemma set_refund_id: "(\<And>r. rf_id (f r) = rf_id r) \<Longrightarrow> map rf_id (pm_refunds (set_refund p rid f)) = map rf_id (pm_refunds p)"
  by (simp add: set_refund_def o_def)

lemma sum_list_one:
  fixes g :: "refund_rec \<Rightarrow> rat"
  assumes "distinct (map rf_id rs)" "r \<in> set rs"
  shows "sum_list (map (\<lambda>x. g (if rf_id x = rf_id r then f x else x)) rs) = sum_list (map g rs) - g r + g (f r)"
  using assms
proof (induction rs)
  case (Cons x rs)
  show ?case
  proof (cases "x = r")
    case True
    then have "sum_list (map (\<lambda>y. g (if rf_id y = rf_id r then f y else y)) rs) = sum_list (map g rs)"
      using Cons.prems(1) by (intro arg_cong [where f = sum_list] map_cong) (auto simp: image_iff)
    then show ?thesis using True by simp
  next
    case False
    then have "r \<in> set rs" using Cons.prems(2) by simp
    then have "rf_id x \<noteq> rf_id r" using Cons.prems(1) by auto
    then show ?thesis using Cons.IH Cons.prems False \<open>r \<in> set rs\<close> by simp
  qed
qed simp

definition worth :: "RefundStatus \<Rightarrow> refund_rec \<Rightarrow> rat" where
  "worth st r = (if rf_status r = st then mn_amount (rf_amount r) else 0)"

lemma sum_in_worth: "sum_in st p = sum_list (map (worth st) (pm_refunds p))"
proof -
  have "sum_list (map mn_amount (map rf_amount (filter (\<lambda>r. rf_status r = st) rs))) = sum_list (map (worth st) rs)" for rs
    by (induction rs) (simp_all add: worth_def)
  then show ?thesis by (simp add: sum_in_def refunds_in_def)
qed

lemma sum_in_set_refund:
  assumes "payment_ok p" "r \<in> set (pm_refunds p)"
  shows "sum_in st (set_refund p (rf_id r) f) = sum_in st p - worth st r + worth st (f r)"
proof -
  have "sum_in st (set_refund p (rf_id r) f) = sum_list (map (\<lambda>x. worth st (if rf_id x = rf_id r then f x else x)) (pm_refunds p))"
    by (simp add: sum_in_worth set_refund_def o_def)
  also have "\<dots> = sum_in st p - worth st r + worth st (f r)"
    using sum_list_one [OF payment_okD(4) [OF assms(1)] assms(2)] by (simp add: sum_in_worth)
  finally show ?thesis .
qed

lemma the_refund_eq:
  assumes "payment_ok p" "r \<in> set (pm_refunds p)"
  shows "the_refund p (rf_id r) = r"
proof -
  have "find (\<lambda>x. rf_id x = rf_id r) rs = Some r" if "distinct (map rf_id rs)" "r \<in> set rs" for rs
    using that by (induction rs) (auto simp: image_iff)
  then show ?thesis using assms payment_okD(4) by (simp add: the_refund_def)
qed

lemma sum_in_nonneg: "payment_ok p \<Longrightarrow> 0 \<le> sum_in st p"
  unfolding sum_in_worth by (intro sum_list_nonneg) (auto simp: worth_def payment_ok_def less_imp_le)

lemma refund_fails_ok:
  assumes "payment_ok p" "r \<in> set (pm_refunds p)" "rf_status r = R_PENDING"
  shows "payment_ok (set_refund p (rf_id r) (\<lambda>r. r\<lparr>rf_gateway_ref := g, rf_status := R_FAILED\<rparr>))"
proof -
  let ?f = "\<lambda>r. r\<lparr>rf_gateway_ref := g, rf_status := R_FAILED\<rparr>"
  note o = payment_okD [OF assms(1)]
  have s: "sum_in R_SUCCEEDED (set_refund p (rf_id r) ?f) = sum_in R_SUCCEEDED p"
    "sum_in R_PENDING (set_refund p (rf_id r) ?f) = sum_in R_PENDING p - mn_amount (rf_amount r)"
    using assms(3) by (simp_all add: sum_in_set_refund [OF assms(1,2)] worth_def)
  have f: "cap (set_refund p (rf_id r) ?f) = cap p" "pm_amount (set_refund p (rf_id r) ?f) = pm_amount p"
    "pm_status (set_refund p (rf_id r) ?f) = pm_status p" "pm_history (set_refund p (rf_id r) ?f) = pm_history p"
    by (simp_all add: set_refund_def)
  have "refunds_fit (set_refund p (rf_id r) ?f)" using o(6) assms(2) unfolding refunds_fit_def s f by (auto split: PaymentStatus.splits)
  moreover have "map rf_id (pm_refunds (set_refund p (rf_id r) ?f)) = map rf_id (pm_refunds p)" by (rule set_refund_id) simp
  moreover have "mn_currency (rf_amount x) = mn_currency (pm_amount p) \<and> 0 < mn_amount (rf_amount x)"
    if "x \<in> set (pm_refunds (set_refund p (rf_id r) ?f))" for x
    using that o(2,3) by (auto simp: set_refund_def)
  ultimately show ?thesis using o(1,4,5,7) o(3) [OF assms(2)] unfolding payment_ok_def s f history_fits_def by simp
qed

lemma pending_counts:
  assumes "payment_ok p" "r \<in> set (pm_refunds p)" "rf_status r = R_PENDING"
  shows "mn_amount (rf_amount r) \<le> sum_in R_PENDING p" "pm_status p = SUCCEEDED \<or> pm_status p = PARTIALLY_REFUNDED"
proof -
  note o = payment_okD [OF assms(1)]
  show le: "mn_amount (rf_amount r) \<le> sum_in R_PENDING p"
    using sum_in_nonneg [OF refund_fails_ok [OF assms, of None], of R_PENDING] assms(3) by (simp add: sum_in_set_refund [OF assms(1,2)] worth_def)
  show "pm_status p = SUCCEEDED \<or> pm_status p = PARTIALLY_REFUNDED"
    using o(3) [OF assms(2)] o(5,6) le assms(2) by (cases "pm_status p") (auto simp: refunds_fit_def)
qed

lemma refund_succeeds_ok:
  fixes g :: "nat option"
  assumes "payment_ok p" "r \<in> set (pm_refunds p)" "rf_status r = R_PENDING"
  defines "q \<equiv> set_refund p (rf_id r) (\<lambda>r. r\<lparr>rf_gateway_ref := g, rf_status := R_SUCCEEDED\<rparr>)"
  obtains t where "refunded q = Inr t" "(if t = pm_amount q then REFUNDED else PARTIALLY_REFUNDED) \<in> set (ALLOWED_TRANSITIONS (pm_status q))"
    "payment_ok (q\<lparr>pm_status := (if t = pm_amount q then REFUNDED else PARTIALLY_REFUNDED),
       pm_history := pm_history q @ [if t = pm_amount q then REFUNDED else PARTIALLY_REFUNDED]\<rparr>)"
proof -
  note o = payment_okD [OF assms(1)]
  have s: "sum_in R_SUCCEEDED q = sum_in R_SUCCEEDED p + mn_amount (rf_amount r)" "sum_in R_PENDING q = sum_in R_PENDING p - mn_amount (rf_amount r)"
    using assms(3) by (simp_all add: q_def sum_in_set_refund [OF assms(1,2)] worth_def)
  have f: "cap q = cap p" "pm_amount q = pm_amount p" "pm_status q = pm_status p" "pm_history q = pm_history p"
    by (simp_all add: q_def set_refund_def)
  have ids: "map rf_id (pm_refunds q) = map rf_id (pm_refunds p)" unfolding q_def by (rule set_refund_id) simp
  have rs: "mn_currency (rf_amount x) = mn_currency (pm_amount p) \<and> 0 < mn_amount (rf_amount x)" if "x \<in> set (pm_refunds q)" for x
    using that o(2,3) by (auto simp: q_def set_refund_def)
  have curr: "mn_currency m = mn_currency (pm_amount p)" if "m \<in> set (refunds_in st q)" for st m using that rs by (auto simp: refunds_in_def)
  define t where "t = \<lparr>mn_amount = sum_in R_SUCCEEDED q, mn_currency = mn_currency (pm_amount p)\<rparr>"
  have t: "refunded q = Inr t"
    using money_sum_same [of "refunds_in R_SUCCEEDED q"] curr by (simp add: refunded_def f sum_in_def t_def)
  have full: "t = pm_amount q \<longleftrightarrow> sum_in R_SUCCEEDED q = cap p" by (cases "pm_amount p") (auto simp: t_def f cap_def)
  define to where "to = (if t = pm_amount q then REFUNDED else PARTIALLY_REFUNDED)"
  have pos: "0 < mn_amount (rf_amount r)" by (rule o(3) [OF assms(2)])
  have st: "pm_status q = SUCCEEDED \<or> pm_status q = PARTIALLY_REFUNDED" using pending_counts(2) [OF assms(1-3)] by (simp add: f)
  have tr: "to \<in> set (ALLOWED_TRANSITIONS (pm_status q))" using st by (auto simp: to_def)
  have bounds: "0 < sum_in R_SUCCEEDED q" "sum_in R_SUCCEEDED q + sum_in R_PENDING q \<le> cap p" "sum_in R_SUCCEEDED q \<le> cap p"
    using pos o(5) pending_counts(1) [OF assms(1-3)] sum_in_nonneg [OF assms(1), of R_SUCCEEDED] by (simp_all add: s)
  have "history_fits (q\<lparr>pm_status := to, pm_history := pm_history q @ [to]\<rparr>)"
    by (rule history_step [OF _ tr]) (use o(7) in \<open>simp add: history_fits_def f\<close>)
  moreover have "refunds_fit (q\<lparr>pm_status := to, pm_history := pm_history q @ [to]\<rparr>)"
    using bounds full by (auto simp: refunds_fit_def to_def f)
  ultimately have "payment_ok (q\<lparr>pm_status := to, pm_history := pm_history q @ [to]\<rparr>)"
    using o(1,4) rs bounds ids by (simp add: payment_ok_def f)
  then show thesis using that [OF t] tr by (simp add: to_def)
qed

section \<open>The service\<close>

definition payment_at :: "service \<Rightarrow> nat \<Rightarrow> payment option" where
  "payment_at s = map_of (sv_payments s)"

definition refund_names :: "payment \<Rightarrow> (nat \<times> string \<times> money) set" where
  "refund_names p = (\<lambda>r. (rf_id r, rf_key r, rf_amount r)) ` set (pm_refunds p)"

definition request_key :: "payment \<Rightarrow> string \<times> string" where
  "request_key p = (rq_merchant (pm_request p), rq_key (pm_request p))"

definition service_ok :: "service \<Rightarrow> bool" where
  "service_ok s \<longleftrightarrow>
     (\<forall>i p. payment_at s i = Some p \<longrightarrow> payment_ok p \<and> i < sv_next s \<and> (\<forall>x \<in> refund_names p. fst x < sv_next s)
        \<and> map_of (sv_by_key s) (request_key p) = Some i \<and> (\<forall>x \<in> refund_names p. map_of (sv_refund_keys s) (i, fst (snd x)) = Some (fst x)))
     \<and> (\<forall>k i. map_of (sv_by_key s) k = Some i \<longrightarrow> (\<exists>p. payment_at s i = Some p \<and> request_key p = k))
     \<and> (\<forall>i k rid. map_of (sv_refund_keys s) (i, k) = Some rid \<longrightarrow> (\<exists>p. payment_at s i = Some p \<and> (\<exists>m. (rid, k, m) \<in> refund_names p)))
     \<and> distinct (map fst (sv_payments s))"

lemma service_okD:
  assumes "service_ok s"
  shows "payment_at s i = Some p \<Longrightarrow> payment_ok p" "payment_at s i = Some p \<Longrightarrow> i < sv_next s"
    "payment_at s i = Some p \<Longrightarrow> x \<in> refund_names p \<Longrightarrow> fst x < sv_next s" "payment_at s i = Some p \<Longrightarrow> map_of (sv_by_key s) (request_key p) = Some i"
    "payment_at s i = Some p \<Longrightarrow> x \<in> refund_names p \<Longrightarrow> map_of (sv_refund_keys s) (i, fst (snd x)) = Some (fst x)"
    "map_of (sv_by_key s) k = Some i \<Longrightarrow> \<exists>p. payment_at s i = Some p \<and> request_key p = k"
    "map_of (sv_refund_keys s) (i, rk) = Some rid \<Longrightarrow> \<exists>p. payment_at s i = Some p \<and> (\<exists>m. (rid, rk, m) \<in> refund_names p)"
    "distinct (map fst (sv_payments s))"
  using assms unfolding service_ok_def by blast+

lemma put_payment_simps [simp]:
  "payment_at (put_payment s i p) = (payment_at s)(i \<mapsto> p)" "sv_next (put_payment s i p) = sv_next s" "sv_by_key (put_payment s i p) = sv_by_key s"
  "sv_refund_keys (put_payment s i p) = sv_refund_keys s" "sv_rules (put_payment s i p) = sv_rules s" "sv_merchants (put_payment s i p) = sv_merchants s"
  "sv_max_attempts (put_payment s i p) = sv_max_attempts s"
  by (simp_all add: put_payment_def payment_at_def update_conv' fun_eq_iff)

lemma emit_simps [simp]:
  "payment_at (emit s ty a) = payment_at s" "sv_next (emit s ty a) = sv_next s" "sv_by_key (emit s ty a) = sv_by_key s"
  "sv_refund_keys (emit s ty a) = sv_refund_keys s" "sv_rules (emit s ty a) = sv_rules s" "sv_merchants (emit s ty a) = sv_merchants s"
  "sv_max_attempts (emit s ty a) = sv_max_attempts s" "sv_payments (emit s ty a) = sv_payments s"
  by (simp_all add: emit_def payment_at_def)

lemma service_ok_same:
  assumes "service_ok s" "sv_payments u = sv_payments s" "sv_next u = sv_next s" "sv_by_key u = sv_by_key s" "sv_refund_keys u = sv_refund_keys s"
  shows "service_ok u"
proof -
  have "payment_at u = payment_at s" using assms(2) by (simp add: payment_at_def)
  then show ?thesis using assms by (simp add: service_ok_def)
qed

text \<open>A payment is replaced by a later state of itself.\<close>

lemma service_ok_put:
  assumes ok: "service_ok s" and p: "payment_at s i = Some p" and q: "payment_ok q" "pm_request q = pm_request p" "refund_names q = refund_names p"
  shows "service_ok (put_payment s i q)"
proof -
  have k: "request_key q = request_key p" by (simp add: request_key_def q(2))
  have names: "refund_names q = refund_names p" by (rule q(3))
  have pok: "payment_ok q" by (rule q(1))
  have at: "\<exists>y. payment_at s j = Some y \<and> payment_ok x \<and> request_key x = request_key y \<and> refund_names x = refund_names y"
    if "payment_at (put_payment s i q) j = Some x" for j x
  proof (cases "j = i")
    case True
    then have "x = q" using that by simp
    then show ?thesis using p k names pok True by simp
  next
    case False
    then have "payment_at s j = Some x" using that by simp
    then show ?thesis using service_okD(1) [OF ok] by simp
  qed
  have to: "\<exists>x. payment_at (put_payment s i q) j = Some x \<and> request_key x = request_key y \<and> refund_names x = refund_names y"
    if "payment_at s j = Some y" for j y
  proof (cases "j = i")
    case True
    then have "y = p" using that p by simp
    then show ?thesis using k names True by simp
  next
    case False
    then show ?thesis using that by simp
  qed
  have "payment_ok x \<and> j < sv_next s \<and> (\<forall>z \<in> refund_names x. fst z < sv_next s)
        \<and> map_of (sv_by_key s) (request_key x) = Some j \<and> (\<forall>z \<in> refund_names x. map_of (sv_refund_keys s) (j, fst (snd z)) = Some (fst z))"
    if "payment_at (put_payment s i q) j = Some x" for j x
    using at [OF that] service_okD(2-5) [OF ok] by metis
  moreover have "\<exists>x. payment_at (put_payment s i q) j = Some x \<and> request_key x = k" if "map_of (sv_by_key s) k = Some j" for j k
    using service_okD(6) [OF ok that] to by metis
  moreover have "\<exists>x. payment_at (put_payment s i q) j = Some x \<and> (\<exists>m. (rid, k, m) \<in> refund_names x)" if "map_of (sv_refund_keys s) (j, k) = Some rid" for j k rid
    using service_okD(7) [OF ok that] to by metis
  moreover have "distinct (map fst (sv_payments (put_payment s i q)))" using service_okD(8) [OF ok] by (simp add: put_payment_def distinct_update)
  ultimately show ?thesis unfolding service_ok_def by (simp del: put_payment_simps(1))
qed

text \<open>What one step may do to the payments.\<close>

definition settled_status :: "PaymentStatus \<Rightarrow> bool" where
  "settled_status st \<longleftrightarrow> st = SUCCEEDED \<or> st = PARTIALLY_REFUNDED \<or> st = REFUNDED"

definition later :: "payment \<Rightarrow> payment \<Rightarrow> bool" where
  "later p q \<longleftrightarrow> pm_request q = pm_request p \<and> refund_names p \<subseteq> refund_names q \<and> (pm_status q = PROCESSING \<longrightarrow> pm_status p = PROCESSING)
     \<and> (settled_status (pm_status p) \<longrightarrow> settled_status (pm_status q))"

lemma later_refl [simp]: "later p p"
  by (simp add: later_def)

lemma the_payment_at: "payment_at s i = Some p \<Longrightarrow> the_payment s i = p"
  by (simp add: payment_at_def the_payment_def)

text \<open>The blocks of a charge: they succeed, and change no payment but this one.\<close>

definition only_changes :: "service \<Rightarrow> nat \<Rightarrow> payment \<Rightarrow> payment \<Rightarrow> service \<Rightarrow> bool" where
  "only_changes s i p q u \<longleftrightarrow> service_ok u \<and> sv_next u = sv_next s \<and> sv_max_attempts u = sv_max_attempts s
     \<and> payment_at s i = Some p \<and> payment_at u = (payment_at s)(i \<mapsto> q) \<and> later p q"

lemma only_changes_refl: "service_ok s \<Longrightarrow> payment_at s i = Some p \<Longrightarrow> only_changes s i p p s"
  by (auto simp: only_changes_def fun_upd_idem)

lemma finish_charge_ok:
  assumes ok: "service_ok s" and p: "payment_at s i = Some p" and op: "charge_open p" "to \<in> set (ALLOWED_TRANSITIONS (pm_status p))"
  obtains u q where "finish_charge s i (p\<lparr>pm_gateway_ref := g, pm_fee := e\<rparr>) to f = (u, Inr ())" "only_changes s i p q u" "pm_status q = to"
    "pm_refunds q = pm_refunds p"
proof -
  let ?q = "p\<lparr>pm_gateway_ref := g, pm_fee := e, pm_status := to, pm_history := pm_history p @ [to], pm_failure := f\<rparr>"
  let ?u = "emit (put_payment s i ?q) (''payment.'' @ status_name to) (OfPayment i)"
  have st: "to = SUCCEEDED \<or> to = FAILED \<or> to = UNKNOWN" "\<not> settled_status (pm_status p)" using op by (auto simp: charge_open_def settled_status_def)
  have names: "refund_names ?q = refund_names p" by (simp add: refund_names_def)
  have "service_ok (put_payment s i ?q)"
    by (rule service_ok_put [OF ok p]) (use charge_end_ok [OF service_okD(1) [OF ok p] op] names in simp_all)
  then have "service_ok ?u" by (rule service_ok_same) simp_all
  moreover have "later p ?q" using st by (auto simp: later_def names)
  ultimately have "only_changes s i p ?q ?u" using p unfolding only_changes_def by simp
  moreover have "finish_charge s i (p\<lparr>pm_gateway_ref := g, pm_fee := e\<rparr>) to f = (?u, Inr ())"
    using op(2) by (simp add: finish_charge_def transition_def)
  ultimately show thesis using that by simp
qed

lemma finish_charge_plain:
  assumes "service_ok s" "payment_at s i = Some p" "charge_open p" "to \<in> set (ALLOWED_TRANSITIONS (pm_status p))"
  obtains u q where "finish_charge s i p to f = (u, Inr ())" "only_changes s i p q u" "pm_status q = to" "pm_refunds q = pm_refunds p"
proof -
  have "p\<lparr>pm_gateway_ref := pm_gateway_ref p, pm_fee := pm_fee p\<rparr> = p" by simp
  then show thesis using finish_charge_ok [OF assms, where g = "pm_gateway_ref p" and e = "pm_fee p" and f = f] that by metis
qed

definition charge_outcome :: "PaymentStatus \<Rightarrow> gw_error + gw_result \<Rightarrow> PaymentStatus" where
  "charge_outcome st res =
     (if st \<noteq> PROCESSING \<and> st \<noteq> UNKNOWN then st
      else (case res of Inl e \<Rightarrow> UNKNOWN | Inr r \<Rightarrow> if gr_decision r = APPROVED then SUCCEEDED else FAILED))"

lemma charge_done_ok:
  assumes ok: "service_ok s" and p: "payment_at s i = Some p"
  obtains u q where "charge_done s i bps res = (u, Inr ())" "only_changes s i p q u" "pm_status q = charge_outcome (pm_status p) res"
    "pm_refunds q = pm_refunds p"
proof -
  note result = that
  have t: "the_payment s i = p" by (rule the_payment_at [OF p])
  have same: thesis if "charge_done s i bps res = (s, Inr ())" "charge_outcome (pm_status p) res = pm_status p"
    using that result [of s p] only_changes_refl [OF ok p] by simp
  show thesis
  proof (cases res)
    case (Inl e)
    show thesis
    proof (cases "pm_status p = PROCESSING")
      case True
      obtain u q where "finish_charge s i p UNKNOWN (Some (gw_message e)) = (u, Inr ())"
        "only_changes s i p q u" "pm_status q = UNKNOWN" "pm_refunds q = pm_refunds p"
        by (rule finish_charge_plain [OF ok p, of UNKNOWN]) (use True in \<open>simp_all add: charge_open_def\<close>)
      then show thesis using that [of u q] True Inl t by (simp add: charge_done_def charge_outcome_def)
    next
      case False
      then show thesis using same Inl t by (simp add: charge_done_def charge_outcome_def)
    qed
  next
    case (Inr r)
    show thesis
    proof (cases "charge_open p")
      case False
      then show thesis using same Inr t by (simp add: charge_done_def charge_outcome_def charge_open_def)
    next
      case True
      then have st: "pm_status p = PROCESSING \<or> pm_status p = UNKNOWN" by (simp add: charge_open_def)
      show thesis
      proof (cases "gr_decision r = APPROVED")
        case a: True
        obtain u q where "finish_charge s i (p\<lparr>pm_gateway_ref := Some (gr_reference r), pm_fee := Some (fee (pm_amount p) bps)\<rparr>) SUCCEEDED None = (u, Inr ())"
          "only_changes s i p q u" "pm_status q = SUCCEEDED" "pm_refunds q = pm_refunds p"
          by (rule finish_charge_ok [OF ok p True, of SUCCEEDED]) (use st in auto)
        then show thesis using that [of u q] a Inr t st by (auto simp: charge_done_def charge_outcome_def Let_def)
      next
        case d: False
        have "p\<lparr>pm_gateway_ref := Some (gr_reference r), pm_fee := pm_fee p\<rparr> = p\<lparr>pm_gateway_ref := Some (gr_reference r)\<rparr>" by simp
        then obtain u q where "finish_charge s i (p\<lparr>pm_gateway_ref := Some (gr_reference r)\<rparr>) FAILED (Some (gr_reason r)) = (u, Inr ())"
          "only_changes s i p q u" "pm_status q = FAILED" "pm_refunds q = pm_refunds p"
          using finish_charge_ok [OF ok p True, where to = FAILED and g = "Some (gr_reference r)" and e = "pm_fee p" and f = "Some (gr_reason r)"] st by (metis ALLOWED_TRANSITIONS.simps(1,2) list.set_intros)
        then show thesis using that [of u q] d Inr t st by (auto simp: charge_done_def charge_outcome_def Let_def)
      qed
    qed
  qed
qed

text \<open>The blocks of a refund.\<close>

lemma set_refund_names: "(\<And>r. rf_id (f r) = rf_id r \<and> rf_key (f r) = rf_key r \<and> rf_amount (f r) = rf_amount r) \<Longrightarrow> refund_names (set_refund p rid f) = refund_names p"
proof -
  assume f: "\<And>r. rf_id (f r) = rf_id r \<and> rf_key (f r) = rf_key r \<and> rf_amount (f r) = rf_amount r"
  have "refund_names (set_refund p rid f) = (\<lambda>r. (rf_id r, rf_key r, rf_amount r)) ` (\<lambda>r. if rf_id r = rid then f r else r) ` set (pm_refunds p)"
    by (simp add: refund_names_def set_refund_def)
  also have "\<dots> = refund_names p" unfolding image_image refund_names_def by (rule image_cong) (simp_all add: f)
  finally show "refund_names (set_refund p rid f) = refund_names p" .
qed

definition refunds_settled_by :: "refund_rec \<Rightarrow> gw_error + gw_result \<Rightarrow> payment \<Rightarrow> payment \<Rightarrow> bool" where
  "refunds_settled_by r res p q \<longleftrightarrow>
     (\<forall>x \<in> set (pm_refunds q). rf_status x = R_SUCCEEDED \<longrightarrow>
        x \<in> set (pm_refunds p) \<or> rf_key x = rf_key r \<and> (\<exists>g. res = Inr g \<and> gr_decision g = APPROVED))"

definition same_phase :: "payment \<Rightarrow> payment \<Rightarrow> bool" where
  "same_phase p q \<longleftrightarrow> settled_status (pm_status q) = settled_status (pm_status p) \<and> (pm_status q = FAILED) = (pm_status p = FAILED)
     \<and> (pm_status q = PROCESSING) = (pm_status p = PROCESSING)"

lemma refund_done_ok:
  assumes ok: "service_ok s" and p: "payment_at s i = Some p" and r: "r \<in> set (pm_refunds p)"
  obtains u q where "refund_done s i (rf_id r) res = (u, Inr ())" "only_changes s i p q u" "same_phase p q" "refunds_settled_by r res p q"
proof -
  note result = that
  have t: "the_payment s i = p" by (rule the_payment_at [OF p])
  have pok: "payment_ok p" by (rule service_okD(1) [OF ok p])
  have tr: "the_refund p (rf_id r) = r" by (rule the_refund_eq [OF pok r])
  have same: thesis if "refund_done s i (rf_id r) res = (s, Inr ())"
    using that result [of s p] only_changes_refl [OF ok p] by (simp add: same_phase_def refunds_settled_by_def)
  have changed: "only_changes s i p q (emit (put_payment s i q) ty a)"
    if "payment_ok q" "pm_request q = pm_request p" "refund_names q = refund_names p" "same_phase p q" for q ty a
    using service_ok_same [OF service_ok_put [OF ok p that(1-3)], of "emit (put_payment s i q) ty a"] p that
    by (simp add: only_changes_def later_def same_phase_def)
  show thesis
  proof (cases res)
    case (Inl e)
    then show thesis using same by (simp add: refund_done_def)
  next
    case (Inr g)
    show thesis
    proof (cases "rf_status r = R_PENDING")
      case False
      then show thesis using same Inr t tr by (simp add: refund_done_def)
    next
      case True
      show thesis
      proof (cases "gr_decision g = APPROVED")
        case no: False
        let ?f = "\<lambda>r. r\<lparr>rf_gateway_ref := Some (gr_reference g), rf_status := R_FAILED\<rparr>"
        let ?q = "set_refund p (rf_id r) ?f"
        have ends: "refund_done s i (rf_id r) res = (emit (put_payment s i ?q) ''refund.failed'' (OfRefund (rf_id r)), Inr ())"
          using Inr t tr True no by (simp add: refund_done_def)
        have ph: "same_phase p ?q" "pm_request ?q = pm_request p" by (simp_all add: same_phase_def set_refund_def)
        have names: "refund_names ?q = refund_names p" by (rule set_refund_names) simp
        have st: "refunds_settled_by r res p ?q" by (auto simp: refunds_settled_by_def set_refund_def)
        show thesis by (rule result [OF ends changed [OF refund_fails_ok [OF pok r True] ph(2) names ph(1)] ph(1) st])
      next
        case yes: True
        let ?f = "\<lambda>r. r\<lparr>rf_gateway_ref := Some (gr_reference g), rf_status := R_SUCCEEDED\<rparr>"
        let ?q0 = "set_refund p (rf_id r) ?f"
        obtain t' where t': "refunded ?q0 = Inr t'"
          "(if t' = pm_amount ?q0 then REFUNDED else PARTIALLY_REFUNDED) \<in> set (ALLOWED_TRANSITIONS (pm_status ?q0))"
          "payment_ok (?q0\<lparr>pm_status := (if t' = pm_amount ?q0 then REFUNDED else PARTIALLY_REFUNDED),
             pm_history := pm_history ?q0 @ [if t' = pm_amount ?q0 then REFUNDED else PARTIALLY_REFUNDED]\<rparr>)"
          by (rule refund_succeeds_ok [OF pok r True, of "Some (gr_reference g)"])
        define to where "to = (if t' = pm_amount ?q0 then REFUNDED else PARTIALLY_REFUNDED)"
        define q where "q = ?q0\<lparr>pm_status := to, pm_history := pm_history ?q0 @ [to]\<rparr>"
        have "refund_done s i (rf_id r) res = (emit (put_payment s i q) ''refund.succeeded'' (OfRefund (rf_id r)), Inr ())"
          using Inr t tr True yes t'(1) transition_eq [OF t'(2)] by (simp add: refund_done_def q_def to_def Let_def)
        moreover have "pm_status p = SUCCEEDED \<or> pm_status p = PARTIALLY_REFUNDED" by (rule pending_counts(2) [OF pok r True])
        then have "same_phase p q" by (auto simp: same_phase_def settled_status_def q_def to_def)
        moreover have "pm_request q = pm_request p" by (simp add: q_def set_refund_def)
        moreover have "refund_names ?q0 = refund_names p" by (rule set_refund_names) simp
        then have "refund_names q = refund_names p" by (simp add: refund_names_def q_def)
        moreover have "payment_ok q" using t'(3) by (simp add: q_def to_def)
        moreover have "refunds_settled_by r res p q" using yes Inr payment_okD(4) [OF pok] r
          by (auto simp: refunds_settled_by_def q_def set_refund_def inj_on_def distinct_map)
        ultimately show thesis by (intro result [OF _ changed])
      qed
    qed
  qed
qed

text \<open>A new payment and a new refund.\<close>

lemma open_payment_fresh_ok:
  assumes ok: "service_ok s" and amount: "0 < mn_amount (rq_amount rq)" and new: "map_of (sv_by_key s) (rq_merchant rq, rq_key rq) = None"
  defines "u \<equiv> s\<lparr>sv_next := sv_next s + 1, sv_payments := AList.update (sv_next s) (new_payment rq) (sv_payments s),
    sv_by_key := AList.update (rq_merchant rq, rq_key rq) (sv_next s) (sv_by_key s)\<rparr>"
  shows "service_ok u" "payment_at u = (payment_at s)(sv_next s \<mapsto> new_payment rq)" "payment_at s (sv_next s) = None"
proof -
  have u: "payment_at u = (payment_at s)(sv_next s \<mapsto> new_payment rq)" "sv_next u = sv_next s + 1" "sv_refund_keys u = sv_refund_keys s"
    "map_of (sv_by_key u) = (map_of (sv_by_key s))((rq_merchant rq, rq_key rq) \<mapsto> sv_next s)"
    by (simp_all add: u_def payment_at_def update_conv' fun_eq_iff)
  then show "payment_at u = (payment_at s)(sv_next s \<mapsto> new_payment rq)" by simp
  have fresh: "payment_at s i \<noteq> None \<Longrightarrow> i \<noteq> sv_next s" for i using service_okD(2) [OF ok] by blast
  then show "payment_at s (sv_next s) = None" by blast
  have n: "request_key (new_payment rq) = (rq_merchant rq, rq_key rq)" "refund_names (new_payment rq) = {}"
    by (simp_all add: request_key_def refund_names_def new_payment_def)
  have k: "payment_at s i = Some p \<Longrightarrow> request_key p \<noteq> (rq_merchant rq, rq_key rq)" for i p using service_okD(4) [OF ok] new by fastforce
  have "payment_ok p \<and> i < sv_next u \<and> (\<forall>x \<in> refund_names p. fst x < sv_next u) \<and> map_of (sv_by_key u) (request_key p) = Some i
      \<and> (\<forall>x \<in> refund_names p. map_of (sv_refund_keys u) (i, fst (snd x)) = Some (fst x))" if at: "payment_at u i = Some p" for i p
  proof (cases "i = sv_next s")
    case True
    then have "p = new_payment rq" using at u(1) by simp
    then show ?thesis using n new_payment_ok [OF amount] True u by simp
  next
    case False
    then have at': "payment_at s i = Some p" using at u(1) by simp
    show ?thesis using service_okD(1-5) [OF ok at'] k [OF at'] u by (simp add: less_SucI)
  qed
  moreover have "\<exists>p. payment_at u i = Some p \<and> request_key p = k'" if "map_of (sv_by_key u) k' = Some i" for k' i
  proof (cases "k' = (rq_merchant rq, rq_key rq)")
    case True
    then show ?thesis using that u n by simp
  next
    case False
    then have "map_of (sv_by_key s) k' = Some i" using that u(4) by simp
    from service_okD(6) [OF ok this] fresh show ?thesis using u(1) by fastforce
  qed
  moreover have "\<exists>p. payment_at u i = Some p \<and> (\<exists>m. (rid, k', m) \<in> refund_names p)" if "map_of (sv_refund_keys u) (i, k') = Some rid" for i k' rid
    using service_okD(7) [OF ok, of i k' rid] that fresh u by fastforce
  moreover have "distinct (map fst (sv_payments u))" using service_okD(8) [OF ok] by (simp add: u_def put_payment_def distinct_update)
  ultimately show "service_ok u" unfolding service_ok_def by blast
qed

lemma the_refund_named: "r \<in> set (pm_refunds p) \<Longrightarrow> (rf_id r, rf_key r, rf_amount r) \<in> refund_names p"
  by (simp add: refund_names_def)

lemma refund_fresh_ok:
  fixes reason :: string
  assumes ok: "service_ok s" and p: "payment_at s i = Some p" and new: "map_of (sv_refund_keys s) (i, key) = None" and st: "pm_status p \<in> set REFUNDABLE"
    and amount: "0 < mn_amount amount" and left: "bind_sum (refundable p) (\<lambda>left. money_less left amount) = Inr False"
  defines "r \<equiv> \<lparr>rf_id = sv_next s, rf_key = key, rf_amount = amount, rf_reason = reason, rf_status = R_PENDING, rf_gateway_ref = None\<rparr>"
  defines "q \<equiv> p\<lparr>pm_refunds := pm_refunds p @ [r]\<rparr>"
  defines "u \<equiv> (put_payment s i q)\<lparr>sv_next := sv_next s + 1, sv_refund_keys := AList.update (i, key) (sv_next s) (sv_refund_keys s)\<rparr>"
  shows "service_ok u" "payment_at u = (payment_at s)(i \<mapsto> q)" "later p q" "same_phase p q"
proof -
  have pok: "payment_ok p" by (rule service_okD(1) [OF ok p])
  have u: "payment_at u = (payment_at s)(i \<mapsto> q)" "sv_next u = sv_next s + 1" "sv_by_key u = sv_by_key s"
    "map_of (sv_refund_keys u) = (map_of (sv_refund_keys s))((i, key) \<mapsto> sv_next s)"
    by (simp_all add: u_def put_payment_def payment_at_def update_conv' fun_eq_iff)
  then show "payment_at u = (payment_at s)(i \<mapsto> q)" by simp
  have names: "refund_names q = insert (sv_next s, key, amount) (refund_names p)" by (simp add: refund_names_def q_def r_def)
  show "later p q" "same_phase p q" using names by (auto simp: later_def same_phase_def q_def)
  have fresh: "\<forall>x \<in> refund_names p. fst x < sv_next s" using service_okD(3) [OF ok p] by blast
  have "mn_currency amount = mn_currency (pm_amount p) \<and> mn_amount amount \<le> cap p - sum_in R_SUCCEEDED p - sum_in R_PENDING p"
    using left by (auto simp: refundable_eq [OF pok st] money_less_def split: if_splits)
  moreover have "rf_id r \<notin> rf_id ` set (pm_refunds p)" using fresh by (force simp: refund_names_def r_def)
  ultimately have qok: "payment_ok q" unfolding q_def by (intro new_refund_ok [OF pok st]) (use amount in \<open>simp_all add: r_def\<close>)
  have k: "request_key q = request_key p" by (simp add: request_key_def q_def)
  have keys: "\<forall>x \<in> refund_names p. fst (snd x) \<noteq> key" using service_okD(5) [OF ok p] new by fastforce
  have "payment_ok x \<and> j < sv_next u \<and> (\<forall>z \<in> refund_names x. fst z < sv_next u) \<and> map_of (sv_by_key u) (request_key x) = Some j
      \<and> (\<forall>z \<in> refund_names x. map_of (sv_refund_keys u) (j, fst (snd z)) = Some (fst z))" if at: "payment_at u j = Some x" for j x
  proof (cases "j = i")
    case True
    then have x: "x = q" using at u(1) by simp
    show ?thesis unfolding x True names using service_okD(2,4,5) [OF ok p] fresh keys k qok u by (auto simp: less_SucI)
  next
    case False
    then have at': "payment_at s j = Some x" using at u(1) by simp
    show ?thesis using service_okD(1-5) [OF ok at'] False u by (simp add: less_SucI)
  qed
  moreover have "\<exists>x. payment_at u j = Some x \<and> request_key x = k'" if "map_of (sv_by_key u) k' = Some j" for k' j
    using service_okD(6) [OF ok, of k' j] that u p k by (cases "j = i") fastforce+
  moreover have "\<exists>x. payment_at u j = Some x \<and> (\<exists>m. (rid, k', m) \<in> refund_names x)" if "map_of (sv_refund_keys u) (j, k') = Some rid" for j k' rid
  proof (cases "j = i")
    case True
    then show ?thesis using service_okD(7) [OF ok, of j k' rid] that u p names by (cases "k' = key") auto
  next
    case False
    then show ?thesis using service_okD(7) [OF ok, of j k' rid] that u by fastforce
  qed
  moreover have "distinct (map fst (sv_payments u))" using service_okD(8) [OF ok] by (simp add: u_def put_payment_def distinct_update)
  ultimately show "service_ok u" unfolding service_ok_def by blast
qed

end
