(* ===== verification/Payment_Threads.thy ===== *)
theory Payment_Threads
  imports Payment_Safety
begin

text \<open>
  The invariant of \<open>Payments\<close> over all threads and the gateway: a payment being processed belongs to one thread, a thread
  works on payments and refunds that exist, and the gateway's ledger has each key once.
\<close>

declare split_paired_All [simp del] split_paired_Ex [simp del]

section \<open>What a thread knows\<close>

definition job_known :: "service \<Rightarrow> job \<Rightarrow> bool" where
  "job_known s j \<longleftrightarrow>
     (case j of ChargeJob i bps \<Rightarrow> payment_at s i \<noteq> None
      | RefundJob i rid \<Rightarrow> (\<exists>p k m. payment_at s i = Some p \<and> (rid, k, m) \<in> refund_names p))"

fun job_key :: "service \<Rightarrow> job \<Rightarrow> gw_key" where
  "job_key s (ChargeJob i bps) = ChargeKey (rq_key (pm_request (the_payment s i)))"
| "job_key s (RefundJob i rid) = RefundKey (rf_key (the_refund (the_payment s i) rid))"

fun thread_ok :: "service \<Rightarrow> sim_gateway \<Rightarrow> pc \<Rightarrow> bool" where
  "thread_ok s g (Rules i bps k) = (\<exists>p. payment_at s i = Some p \<and> pm_status p = PROCESSING)"
| "thread_ok s g (Calling j n js a) = list_all (job_known s) (j # js)"
| "thread_ok s g (Ending j res js a) = (list_all (job_known s) (j # js) \<and> (\<forall>r. res = Inr r \<longrightarrow> map_of (sg_results g) (job_key s j) = Some r))"
| "thread_ok s g (Done r) = (r \<noteq> Inl IllegalTransitionError)"
| "thread_ok s g _ = True"

fun charge_of :: "job \<Rightarrow> nat set" where
  "charge_of (ChargeJob i bps) = {i}"
| "charge_of (RefundJob i rid) = {}"

fun charging :: "pc \<Rightarrow> nat set" where
  "charging (Rules i bps k) = {i}"
| "charging (Calling j n js a) = (\<Union>x \<in> set (j # js). charge_of x)"
| "charging (Ending j res js a) = (\<Union>x \<in> set (j # js). charge_of x)"
| "charging _ = {}"

definition in_processing :: "service \<Rightarrow> nat \<Rightarrow> bool" where
  "in_processing s i \<longleftrightarrow> (\<exists>p. payment_at s i = Some p \<and> pm_status p = PROCESSING)"

definition exclusive :: "service \<Rightarrow> pc list \<Rightarrow> bool" where
  "exclusive s ts \<longleftrightarrow> (\<forall>x < length ts. \<forall>y < length ts. \<forall>i. in_processing s i \<and> i \<in> charging (ts ! x) \<and> i \<in> charging (ts ! y) \<longrightarrow> x = y)"

definition threads_ok :: "service \<Rightarrow> sim_gateway \<Rightarrow> pc list \<Rightarrow> bool" where
  "threads_ok s g ts \<longleftrightarrow> (\<forall>x < length ts. thread_ok s g (ts ! x)) \<and> exclusive s ts"

text \<open>A later state of the service, and of the gateway.\<close>

definition evolves :: "service \<Rightarrow> service \<Rightarrow> bool" where
  "evolves s u \<longleftrightarrow> service_ok s \<and> service_ok u \<and> (\<forall>i p. payment_at s i = Some p \<longrightarrow> (\<exists>q. payment_at u i = Some q \<and> later p q))"

lemma evolves_payment: "evolves s u \<Longrightarrow> payment_at s i = Some p \<Longrightarrow> \<exists>q. payment_at u i = Some q \<and> later p q"
  by (simp add: evolves_def)

definition grows :: "sim_gateway \<Rightarrow> sim_gateway \<Rightarrow> bool" where
  "grows g h \<longleftrightarrow> (\<forall>k r. map_of (sg_results g) k = Some r \<longrightarrow> map_of (sg_results h) k = Some r)"

lemma results_grow_refl [simp]: "grows g g"
  by (simp add: grows_def)

lemma service_evolves_refl: "service_ok s \<Longrightarrow> evolves s s"
  by (auto simp: evolves_def)

lemma only_changes_evolves: "service_ok s \<Longrightarrow> only_changes s i p q u \<Longrightarrow> evolves s u"
  by (auto simp: only_changes_def evolves_def)

lemma named_refund:
  assumes "service_ok s" "payment_at s i = Some p" "(rid, k, m) \<in> refund_names p"
  obtains r where "r \<in> set (pm_refunds p)" "rf_id r = rid" "rf_key r = k" "rf_amount r = m" "the_refund p rid = r"
proof -
  from assms(3) obtain r where r: "r \<in> set (pm_refunds p)" "rf_id r = rid" "rf_key r = k" "rf_amount r = m" by (auto simp: refund_names_def)
  then show thesis using that the_refund_eq [OF service_okD(1) [OF assms(1,2)] r(1)] by simp
qed

lemma job_known_evolves:
  assumes "job_known s j" "evolves s u"
  shows "job_known u j" "job_key u j = job_key s j"
proof -
  have ok: "service_ok s" "service_ok u" using assms(2) by (simp_all add: evolves_def)
  have "job_known u j \<and> job_key u j = job_key s j"
  proof (cases j)
    case (ChargeJob i bps)
    then obtain p where p: "payment_at s i = Some p" using assms(1) by (auto simp: job_known_def)
    obtain q where "payment_at u i = Some q" "later p q" using evolves_payment [OF assms(2) p] by blast
    then show ?thesis using p ChargeJob by (simp add: job_known_def the_payment_at later_def)
  next
    case (RefundJob i rid)
    then obtain p k m where p: "payment_at s i = Some p" "(rid, k, m) \<in> refund_names p" using assms(1) by (auto simp: job_known_def)
    obtain q where q: "payment_at u i = Some q" "later p q" using evolves_payment [OF assms(2) p(1)] by blast
    then have n: "(rid, k, m) \<in> refund_names q" using p(2) by (auto simp: later_def)
    have "rf_key (the_refund p rid) = k" by (rule named_refund [OF ok(1) p]) simp
    moreover have "rf_key (the_refund q rid) = k" by (rule named_refund [OF ok(2) q(1) n]) simp
    moreover have "job_known u j" using q(1) n RefundJob by (auto simp: job_known_def)
    ultimately show ?thesis using p q RefundJob by (simp add: the_payment_at)
  qed
  then show "job_known u j" "job_key u j = job_key s j" by simp_all
qed

lemma list_all_known_evolves: "list_all (job_known s) js \<Longrightarrow> evolves s u \<Longrightarrow> list_all (job_known u) js"
  using job_known_evolves(1) by (auto simp: list_all_iff)

lemma thread_ok_evolves:
  assumes "thread_ok s g t" "evolves s u" "grows g h" "\<And>i. i \<in> charging t \<Longrightarrow> in_processing s i \<Longrightarrow> in_processing u i"
  shows "thread_ok u h t"
proof (cases t)
  case (Rules i bps k)
  then show ?thesis using assms(1,4) by (simp add: in_processing_def)
next
  case (Calling j n js a)
  then show ?thesis using assms(1) list_all_known_evolves [OF _ assms(2), of "j # js"] by simp
next
  case (Ending j res js a)
  have k: "job_known s j" "list_all (job_known s) js" using assms(1) Ending by simp_all
  then show ?thesis using assms(1,3) Ending job_known_evolves [OF k(1) assms(2)] list_all_known_evolves [OF k(2) assms(2)] by (simp add: grows_def)
qed (use assms(1) in simp_all)

lemma exclusiveD: "exclusive s ts \<Longrightarrow> x < length ts \<Longrightarrow> y < length ts \<Longrightarrow> in_processing s i \<Longrightarrow> i \<in> charging (ts ! x) \<Longrightarrow> i \<in> charging (ts ! y) \<Longrightarrow> x = y"
  unfolding exclusive_def by blast

text \<open>A step of the thread \<open>x\<close>: it takes up no other payment, processes no payment again, and ends the processing of its own
  payments only.\<close>

lemma threads_ok_run:
  assumes ok: "threads_ok s g ts" and x: "x < length ts" and ev: "evolves s u" "grows g h" and t: "thread_ok u h t" "charging t \<subseteq> charging (ts ! x)"
    and no_new: "\<And>i. in_processing u i \<Longrightarrow> in_processing s i"
    and mine: "\<And>i. in_processing s i \<Longrightarrow> i \<notin> charging (ts ! x) \<Longrightarrow> in_processing u i"
  shows "threads_ok u h (ts[x := t])"
proof -
  have ex: "exclusive s ts" using ok by (simp add: threads_ok_def)
  have "thread_ok u h (ts[x := t] ! y)" if y: "y < length ts" for y
  proof (cases "y = x")
    case True
    then show ?thesis using t(1) x by simp
  next
    case False
    have "thread_ok s g (ts ! y)" using ok y by (simp add: threads_ok_def)
    then have "thread_ok u h (ts ! y)"
      by (rule thread_ok_evolves [OF _ ev]) (use mine exclusiveD [OF ex x y] False in blast)
    then show ?thesis using False by simp
  qed
  moreover have "exclusive u (ts[x := t])"
    unfolding exclusive_def
  proof (intro allI impI)
    fix y z i assume *: "y < length (ts[x := t])" "z < length (ts[x := t])" "in_processing u i \<and> i \<in> charging (ts[x := t] ! y) \<and> i \<in> charging (ts[x := t] ! z)"
    have "charging (ts[x := t] ! y) \<subseteq> charging (ts ! y)" "charging (ts[x := t] ! z) \<subseteq> charging (ts ! z)"
      using t(2) x by (cases "y = x", simp_all) (cases "z = x", simp_all)
    then show "y = z" using exclusiveD [OF ex, of y z i] no_new * by auto
  qed
  ultimately show ?thesis by (simp add: threads_ok_def)
qed

lemma threads_ok_spawn:
  assumes ok: "threads_ok s g ts" and ev: "evolves s u" and t: "thread_ok u g t"
    and new: "\<And>i. in_processing u i \<Longrightarrow> in_processing s i \<and> i \<notin> charging t \<or> (\<forall>y < length ts. i \<notin> charging (ts ! y))"
    and keep: "\<And>i. in_processing s i \<Longrightarrow> in_processing u i"
  shows "threads_ok u g (ts @ [t])"
proof -
  have ex: "exclusive s ts" using ok by (simp add: threads_ok_def)
  have "thread_ok u g ((ts @ [t]) ! y)" if y: "y < length (ts @ [t])" for y
  proof (cases "y < length ts")
    case True
    then have "thread_ok s g (ts ! y)" using ok by (simp add: threads_ok_def)
    then have "thread_ok u g (ts ! y)" by (rule thread_ok_evolves [OF _ ev results_grow_refl]) (use keep in blast)
    then show ?thesis using True by (simp add: nth_append)
  next
    case False
    then show ?thesis using y t by (simp add: nth_append)
  qed
  moreover have "exclusive u (ts @ [t])"
    unfolding exclusive_def
  proof (intro allI impI)
    fix y z i assume *: "y < length (ts @ [t])" "z < length (ts @ [t])" "in_processing u i \<and> i \<in> charging ((ts @ [t]) ! y) \<and> i \<in> charging ((ts @ [t]) ! z)"
    show "y = z" using new [of i] exclusiveD [OF ex, of y z i] * by (auto simp: nth_append less_Suc_eq split: if_splits)
  qed
  ultimately show ?thesis by (simp add: threads_ok_def)
qed

section \<open>What the gateway has moved\<close>

fun move_name :: "gw_key \<Rightarrow> string" where
  "move_name (ChargeKey k) = ''charge''"
| "move_name (RefundKey k) = ''refund''"

fun job_amount :: "service \<Rightarrow> job \<Rightarrow> money" where
  "job_amount s (ChargeJob i bps) = rq_amount (pm_request (the_payment s i))"
| "job_amount s (RefundJob i rid) = rf_amount (the_refund (the_payment s i) rid)"

definition asked_for :: "service \<Rightarrow> gw_key \<Rightarrow> money \<Rightarrow> bool" where
  "asked_for s k m \<longleftrightarrow>
     (case k of ChargeKey x \<Rightarrow> (\<exists>i p. payment_at s i = Some p \<and> rq_key (pm_request p) = x \<and> rq_amount (pm_request p) = m)
      | RefundKey x \<Rightarrow> (\<exists>i p rid. payment_at s i = Some p \<and> (rid, x, m) \<in> refund_names p))"

definition approved :: "sim_gateway \<Rightarrow> gw_key \<Rightarrow> bool" where
  "approved g k \<longleftrightarrow> (\<exists>r. map_of (sg_results g) k = Some r \<and> gr_decision r = APPROVED)"

text \<open>Each key has moved money at most once, and exactly the approved keys have; \<open>L\<close> lists them in the gateway's order.\<close>

definition moves_ok :: "service \<Rightarrow> sim_gateway \<Rightarrow> (gw_key \<times> money) list \<Rightarrow> bool" where
  "moves_ok s g L \<longleftrightarrow> distinct (map fst L) \<and> sg_moved g = map (\<lambda>x. (move_name (fst x), snd x)) L \<and> (\<forall>k. k \<in> fst ` set L \<longleftrightarrow> approved g k)
     \<and> (\<forall>x \<in> set L. asked_for s (fst x) (snd x))"

definition paid_ok :: "service \<Rightarrow> sim_gateway \<Rightarrow> bool" where
  "paid_ok s g \<longleftrightarrow>
     (\<forall>i p. payment_at s i = Some p \<longrightarrow> (settled_status (pm_status p) \<longrightarrow> approved g (ChargeKey (rq_key (pm_request p))))
        \<and> (\<forall>x \<in> set (pm_refunds p). rf_status x = R_SUCCEEDED \<longrightarrow> approved g (RefundKey (rf_key x))))"

lemma grows_approved: "grows g h \<Longrightarrow> approved g k \<Longrightarrow> approved h k"
  by (auto simp: grows_def approved_def)

lemma paid_ok_grows: "paid_ok s g \<Longrightarrow> grows g h \<Longrightarrow> paid_ok s h"
  using grows_approved unfolding paid_ok_def by blast

lemma asked_for_evolves:
  assumes "asked_for s k m" "evolves s u"
  shows "asked_for u k m"
proof (cases k)
  case (ChargeKey x)
  then obtain i p where p: "payment_at s i = Some p" "rq_key (pm_request p) = x" "rq_amount (pm_request p) = m"
    using assms(1) by (auto simp: asked_for_def)
  from evolves_payment [OF assms(2) p(1)] obtain q where "payment_at u i = Some q" "pm_request q = pm_request p" by (auto simp: later_def)
  then have "payment_at u i = Some q \<and> rq_key (pm_request q) = x \<and> rq_amount (pm_request q) = m" using p by simp
  then show ?thesis using ChargeKey by (auto simp: asked_for_def)
next
  case (RefundKey x)
  then obtain i p rid where p: "payment_at s i = Some p" "(rid, x, m) \<in> refund_names p" using assms(1) by (auto simp: asked_for_def)
  from evolves_payment [OF assms(2) p(1)] obtain q where "payment_at u i = Some q" "(rid, x, m) \<in> refund_names q" using p(2) by (auto simp: later_def)
  then show ?thesis using RefundKey by (auto simp: asked_for_def)
qed

lemma moves_ok_evolves: "moves_ok s g L \<Longrightarrow> evolves s u \<Longrightarrow> moves_ok u g L"
  using asked_for_evolves unfolding moves_ok_def by blast

lemma moves_ok_same: "moves_ok s g L \<Longrightarrow> sg_results h = sg_results g \<Longrightarrow> sg_moved h = sg_moved g \<Longrightarrow> moves_ok s h L"
  by (simp add: moves_ok_def approved_def)

text \<open>What a fresh call decides: it moves the amount when it approves, and nothing otherwise.\<close>

definition decides :: "string \<Rightarrow> money \<Rightarrow> (sim_gateway \<Rightarrow> sim_gateway \<times> gw_result) \<Rightarrow> bool" where
  "decides n m d \<longleftrightarrow> (\<forall>g. sg_results (fst (d g)) = sg_results g
     \<and> sg_moved (fst (d g)) = sg_moved g @ (if gr_decision (snd (d g)) = APPROVED then [(n, m)] else []))"

lemma decides_charge: "decides ''charge'' m (decide_charge m token)"
  and decides_refund: "decides ''refund'' m (decide_refund m)"
  by (simp_all add: decides_def decide_charge_def decide_refund_def)

lemma settle_moves_ok:
  assumes L: "moves_ok s g L" and a: "asked_for s k m" and d: "decides (move_name k) m d"
  obtains L' where "moves_ok s (settle k d g) L'" "grows g (settle k d g)" "map_of (sg_results (settle k d g)) k \<noteq> None"
proof (cases "map_of (sg_results g) k")
  case (Some r)
  then show thesis using that [of L] L by (simp add: settle_def)
next
  case None
  obtain g1 r where d1: "d g = (g1, r)" by (cases "d g")
  have e: "sg_results g1 = sg_results g" "sg_moved g1 = sg_moved g @ (if gr_decision r = APPROVED then [(move_name k, m)] else [])"
    using d d1 unfolding decides_def by (metis fst_conv snd_conv)+
  let ?h = "settle k d g"
  have h: "map_of (sg_results ?h) = (map_of (sg_results g))(k \<mapsto> r)" "sg_moved ?h = sg_moved g1"
    using None d1 e(1) by (simp_all add: settle_def update_conv' fun_eq_iff)
  have g: "grows g ?h" using None h(1) by (auto simp: grows_def)
  have ap: "approved ?h j \<longleftrightarrow> (if j = k then gr_decision r = APPROVED else approved g j)" for j by (simp add: approved_def h(1))
  have nk: "k \<notin> fst ` set L" using L None by (simp add: moves_ok_def approved_def)
  show thesis
  proof (cases "gr_decision r = APPROVED")
    case True
    have "moves_ok s ?h (L @ [(k, m)])" using L nk a True e(2) h(2) ap by (auto simp: moves_ok_def)
    then show thesis using that g h(1) by simp
  next
    case False
    have "moves_ok s ?h L" using L nk a False e(2) h(2) ap by (auto simp: moves_ok_def)
    then show thesis using that g h(1) by simp
  qed
qed

lemma gw_call_ok:
  assumes L: "moves_ok s g L" and a: "asked_for s k m" and d: "decides (move_name k) m d"
  obtains h res L' where "gw_call k d g = (h, res)" "grows g h" "moves_ok s h L'" "\<And>r. res = Inr r \<Longrightarrow> map_of (sg_results h) k = Some r"
proof -
  define g0 where "g0 = g\<lparr>sg_faults := tl (sg_faults g)\<rparr>"
  have L0: "moves_ok s g0 L" by (rule moves_ok_same [OF L]) (simp_all add: g0_def)
  obtain L' where s: "moves_ok s (settle k d g0) L'" "grows g0 (settle k d g0)" "map_of (sg_results (settle k d g0)) k \<noteq> None"
    by (rule settle_moves_ok [OF L0 a d])
  have g: "grows g g0" "grows g (settle k d g0)" using s(2) by (simp_all add: grows_def g0_def)
  define fault where "fault = (case sg_faults g of [] \<Rightarrow> [] | f # fs \<Rightarrow> f)"
  have c: "gw_call k d g = (if fault = ''unavailable'' then (g0, Inl (GatewayUnavailableError ''connection refused'')) else if fault = ''timeout_before'' then (g0, Inl (GatewayTimeoutError ''read timeout''))
      else if fault = ''timeout_after'' then (settle k d g0, Inl (GatewayTimeoutError ''read timeout (charge went through)'')) else (settle k d g0, Inr (the (map_of (sg_results (settle k d g0)) k))))"
    by (simp add: gw_call_def fault_def g0_def Let_def)
  consider (plain) e where "gw_call k d g = (g0, Inl e)" | (lost) e where "gw_call k d g = (settle k d g0, Inl e)"
    | (known) "gw_call k d g = (settle k d g0, Inr (the (map_of (sg_results (settle k d g0)) k)))"
    unfolding c by (cases "fault = ''unavailable''"; cases "fault = ''timeout_before''"; cases "fault = ''timeout_after''") simp_all
  then show thesis
  proof cases
    case plain
    then show thesis using that g L0 by blast
  next
    case lost
    then show thesis using that g s by blast
  next
    case known
    then show thesis using that [OF known g(2) s(1)] s(3) by auto
  qed
qed

lemma call_gateway_ok:
  assumes ok: "service_ok s" and j: "job_known s j" and L: "moves_ok s g L"
  obtains h res L' where "call_gateway s g j = (h, res)" "grows g h" "moves_ok s h L'" "\<And>r. res = Inr r \<Longrightarrow> map_of (sg_results h) (job_key s j) = Some r"
proof (cases j)
  case (ChargeJob i bps)
  then obtain p where p: "payment_at s i = Some p" using j by (auto simp: job_known_def)
  have "asked_for s (job_key s j) (job_amount s j)" using p ChargeJob by (auto simp: asked_for_def the_payment_at)
  moreover have "decides (move_name (job_key s j)) (job_amount s j) (decide_charge (job_amount s j) (rq_token (pm_request p)))"
    using ChargeJob by (simp add: decides_charge)
  moreover have "call_gateway s g j = gw_call (job_key s j) (decide_charge (job_amount s j) (rq_token (pm_request p))) g"
    using p ChargeJob by (simp add: the_payment_at gateway_charge_def Let_def)
  ultimately show thesis using gw_call_ok [OF L] that by metis
next
  case (RefundJob i rid)
  then obtain p k m where p: "payment_at s i = Some p" "(rid, k, m) \<in> refund_names p" using j by (auto simp: job_known_def)
  obtain r where r: "rf_key r = k" "rf_amount r = m" "the_refund p rid = r" by (rule named_refund [OF ok p])
  have "asked_for s (job_key s j) (job_amount s j)" using p r RefundJob by (auto simp: asked_for_def the_payment_at)
  moreover have "decides (move_name (job_key s j)) (job_amount s j) (decide_refund (job_amount s j))"
    using RefundJob by (simp add: decides_refund)
  moreover have "call_gateway s g j = gw_call (job_key s j) (decide_refund (job_amount s j)) g"
    using p RefundJob by (simp add: the_payment_at gateway_refund_def Let_def)
  ultimately show thesis using gw_call_ok [OF L] that by metis
qed

section \<open>The invariant of the world\<close>

definition world_ok :: "service \<Rightarrow> sim_gateway \<Rightarrow> pc list \<Rightarrow> bool" where
  "world_ok s g ts \<longleftrightarrow> service_ok s \<and> threads_ok s g ts \<and> (\<exists>L. moves_ok s g L) \<and> paid_ok s g"

definition pay_ok :: "pay_world \<Rightarrow> bool" where
  "pay_ok w \<longleftrightarrow> world_ok (pw_service w) (pw_gateway w) (pw_threads w)"

lemma world_okD:
  assumes "world_ok s g ts"
  shows "service_ok s" "threads_ok s g ts" "\<exists>L. moves_ok s g L" "paid_ok s g"
  using assms by (simp_all add: world_ok_def)

lemma world_okI:
  "service_ok s \<Longrightarrow> threads_ok s g ts \<Longrightarrow> moves_ok s g L \<Longrightarrow> paid_ok s g \<Longrightarrow> world_ok s g ts"
  by (auto simp: world_ok_def)

text \<open>A step that leaves the payments alone.\<close>

lemma same_payments_evolves:
  assumes "service_ok s" "sv_payments u = sv_payments s" "sv_next u = sv_next s" "sv_by_key u = sv_by_key s" "sv_refund_keys u = sv_refund_keys s"
  shows "evolves s u"
  using service_ok_same [OF assms] assms(1,2) by (auto simp: evolves_def payment_at_def)

lemma world_ok_quiet:
  assumes ok: "world_ok s g ts" and x: "x < length ts" and ev: "evolves s u" "payment_at u = payment_at s"
    and t: "thread_ok u g t" "charging t \<subseteq> charging (ts ! x)"
  shows "world_ok u g (ts[x := t])"
proof -
  note o = world_okD [OF ok]
  obtain L where L: "moves_ok s g L" using o(3) by blast
  have p: "in_processing u = in_processing s" using ev(2) by (simp add: in_processing_def fun_eq_iff)
  have "threads_ok u g (ts[x := t])" by (rule threads_ok_run [OF o(2) x ev(1) results_grow_refl t]) (simp_all add: p)
  moreover have "paid_ok u g" using o(4) ev(2) by (simp add: paid_ok_def)
  ultimately show ?thesis using moves_ok_evolves [OF L ev(1)] ev(1) by (intro world_okI [where L = L]) (simp_all add: evolves_def)
qed

text \<open>A block that changes one payment.\<close>

lemma world_ok_change:
  assumes ok: "world_ok s g ts" and x: "x < length ts" and ch: "only_changes s i p q u"
    and t: "thread_ok u g t" "charging t \<subseteq> charging (ts ! x)"
    and mine: "in_processing s i \<Longrightarrow> i \<notin> charging (ts ! x) \<Longrightarrow> in_processing u i"
    and charge: "settled_status (pm_status q) \<Longrightarrow> settled_status (pm_status p) \<or> approved g (ChargeKey (rq_key (pm_request p)))"
    and refund: "\<And>r. r \<in> set (pm_refunds q) \<Longrightarrow> rf_status r = R_SUCCEEDED \<Longrightarrow> r \<in> set (pm_refunds p) \<or> approved g (RefundKey (rf_key r))"
  shows "world_ok u g (ts[x := t])"
proof -
  note o = world_okD [OF ok]
  obtain L where L: "moves_ok s g L" using o(3) by blast
  have ev: "evolves s u" by (rule only_changes_evolves [OF o(1) ch])
  have at: "payment_at s i = Some p" "payment_at u = (payment_at s)(i \<mapsto> q)" "later p q" using ch by (simp_all add: only_changes_def)
  have new: "in_processing u j \<Longrightarrow> in_processing s j" for j using at by (cases "j = i") (auto simp: in_processing_def later_def)
  have keep: "in_processing u j" if "in_processing s j" "j \<notin> charging (ts ! x)" for j
    using mine that at by (cases "j = i") (simp_all add: in_processing_def)
  have "threads_ok u g (ts[x := t])" by (rule threads_ok_run [OF o(2) x ev results_grow_refl t new keep])
  moreover have "paid_ok u g"
    unfolding paid_ok_def
  proof (intro allI impI)
    fix j y assume y: "payment_at u j = Some y"
    show "(settled_status (pm_status y) \<longrightarrow> approved g (ChargeKey (rq_key (pm_request y))))
        \<and> (\<forall>x \<in> set (pm_refunds y). rf_status x = R_SUCCEEDED \<longrightarrow> approved g (RefundKey (rf_key x)))"
    proof (cases "j = i")
      case True
      then have "y = q" "pm_request q = pm_request p" using y at by (simp_all add: later_def)
      then show ?thesis using o(4) at(1) charge refund unfolding paid_ok_def by metis
    next
      case False
      then show ?thesis using o(4) y at(2) unfolding paid_ok_def by simp
    qed
  qed
  ultimately show ?thesis using moves_ok_evolves [OF L ev] ev by (intro world_okI [where L = L]) (simp_all add: evolves_def)
qed

text \<open>A call of the gateway.\<close>

lemma world_ok_gateway:
  assumes ok: "world_ok s g ts" and x: "x < length ts" and g: "grows g h" "moves_ok s h L"
    and t: "thread_ok s h t" "charging t \<subseteq> charging (ts ! x)"
  shows "world_ok s h (ts[x := t])"
proof -
  note o = world_okD [OF ok]
  have "threads_ok s h (ts[x := t])" by (rule threads_ok_run [OF o(2) x service_evolves_refl [OF o(1)] g(1) t]) simp_all
  then show ?thesis using o(1,4) g paid_ok_grows by (intro world_okI [where L = L]) blast+
qed

lemma resolve_job: "job_known s j \<Longrightarrow> job_known s (resolve s j)" "charge_of (resolve s j) = charge_of j"
  by (induction s j rule: resolve.induct) (simp_all add: job_known_def)

lemma next_job_ok: "list_all (job_known s) js \<Longrightarrow> thread_ok s g (next_job js a)" "charging (next_job js a) = (\<Union>x \<in> set js. charge_of x)"
  by (cases js; simp)+

lemma run_calling_ok:
  assumes ok: "world_ok s g ts" and x: "x < length ts" "ts ! x = Calling j n js a" and w: "pw_service w = s" "pw_gateway w = g"
  shows "\<exists>h t. run_pc w now rdy (Calling j n js a) = (w\<lparr>pw_gateway := h\<rparr>, t) \<and> world_ok s h (ts[x := t])"
proof -
  note o = world_okD [OF ok]
  obtain L where L: "moves_ok s g L" using o(3) by blast
  have kn: "job_known s j" "list_all (job_known s) js" using o(2) x unfolding threads_ok_def by fastforce+
  let ?j = "resolve s j"
  obtain h res L' where c: "call_gateway s g ?j = (h, res)" "grows g h" "moves_ok s h L'"
    "\<And>r. res = Inr r \<Longrightarrow> map_of (sg_results h) (job_key s ?j) = Some r"
    using call_gateway_ok [OF o(1) resolve_job(1) [OF kn(1)] L] by metis
  have ch: "charging (ts ! x) = (\<Union>y \<in> set (?j # js). charge_of y)" using x(2) by (simp add: resolve_job(2))
  have fin: "world_ok s h (ts[x := t])" if "thread_ok s h t" "charging t = (\<Union>y \<in> set (?j # js). charge_of y)" for t
    by (rule world_ok_gateway [OF ok x(1) c(2,3) that(1)]) (simp add: that(2) ch)
  show ?thesis
  proof (cases res)
    case (Inr r)
    have "thread_ok s h (Ending ?j (Inr r) js a)" using kn resolve_job(1) c(4) [OF Inr] by simp
    then have "world_ok s h (ts[x := Ending ?j (Inr r) js a])" by (rule fin) simp
    then show ?thesis using c(1) Inr w by (auto simp: Let_def)
  next
    case (Inl e)
    have "thread_ok s h (Ending ?j (Inl e) js a)" "thread_ok s h (Calling ?j (n + 1) js a)" using kn resolve_job(1) by simp_all
    then have "world_ok s h (ts[x := Ending ?j (Inl e) js a])" "world_ok s h (ts[x := Calling ?j (n + 1) js a])" by (auto intro!: fin)
    then show ?thesis using c(1) Inl w by (auto simp: Let_def)
  qed
qed

lemma run_ending_ok:
  assumes ok: "world_ok s g ts" and x: "x < length ts" "ts ! x = Ending j res js a" and w: "pw_service w = s" "pw_gateway w = g"
  shows "\<exists>u t. run_pc w now rdy (Ending j res js a) = (w\<lparr>pw_service := u\<rparr>, t) \<and> world_ok u g (ts[x := t])"
proof -
  note o = world_okD [OF ok]
  have "thread_ok s g (ts ! x)" using o(2) x(1) by (simp add: threads_ok_def)
  then have kn: "job_known s j" "list_all (job_known s) js" and known: "\<And>r. res = Inr r \<Longrightarrow> map_of (sg_results g) (job_key s j) = Some r"
    using x(2) by simp_all
  have ch: "charging (ts ! x) = (\<Union>y \<in> set (j # js). charge_of y)" using x(2) by simp
  have sub: "charging (next_job js a) \<subseteq> charging (ts ! x)" unfolding ch next_job_ok(2) by auto
  show ?thesis
  proof (cases j)
    case (ChargeJob i bps)
    then obtain p where p: "payment_at s i = Some p" using kn(1) by (auto simp: job_known_def)
    obtain u q where c: "charge_done s i (the bps) res = (u, Inr ())" "only_changes s i p q u" "pm_status q = charge_outcome (pm_status p) res"
      "pm_refunds q = pm_refunds p"
      by (rule charge_done_ok [OF o(1) p])
    have ev: "evolves s u" by (rule only_changes_evolves [OF o(1) c(2)])
    have "approved g (ChargeKey (rq_key (pm_request p)))" if st: "settled_status (pm_status q)" "\<not> settled_status (pm_status p)"
    proof -
      obtain r where "res = Inr r" "gr_decision r = APPROVED"
        using st c(3) by (auto simp: charge_outcome_def settled_status_def split: if_splits sum.splits)
      then show ?thesis using known p ChargeJob by (auto simp: approved_def the_payment_at)
    qed
    then have "world_ok u g (ts[x := next_job js a])"
      by (intro world_ok_change [OF ok x(1) c(2) next_job_ok(1) [OF list_all_known_evolves [OF kn(2) ev]] sub]) (use c(4) ch ChargeJob in auto)
    then show ?thesis using c(1) w ChargeJob by auto
  next
    case (RefundJob i rid)
    then obtain p k m where p: "payment_at s i = Some p" "(rid, k, m) \<in> refund_names p" using kn(1) by (auto simp: job_known_def)
    obtain r where r: "r \<in> set (pm_refunds p)" "rf_id r = rid" "rf_key r = k" "the_refund p rid = r" by (rule named_refund [OF o(1) p])
    obtain u q where c: "refund_done s i (rf_id r) res = (u, Inr ())" "only_changes s i p q u" "same_phase p q" "refunds_settled_by r res p q"
      by (rule refund_done_ok [OF o(1) p(1) r(1)])
    have ev: "evolves s u" by (rule only_changes_evolves [OF o(1) c(2)])
    have "approved g (RefundKey (rf_key y))" if y: "y \<in> set (pm_refunds q)" "rf_status y = R_SUCCEEDED" "y \<notin> set (pm_refunds p)" for y
    proof -
      obtain z where "res = Inr z" "gr_decision z = APPROVED" "rf_key y = rf_key r" using y c(4) unfolding refunds_settled_by_def by blast
      then show ?thesis using known p(1) r RefundJob by (auto simp: approved_def the_payment_at)
    qed
    moreover have "in_processing u i" if "in_processing s i"
      using that c(2,3) p(1) by (simp add: in_processing_def only_changes_def same_phase_def)
    ultimately have "world_ok u g (ts[x := next_job js a])"
      by (intro world_ok_change [OF ok x(1) c(2) next_job_ok(1) [OF list_all_known_evolves [OF kn(2) ev]] sub]) (use c(3) in \<open>auto simp: same_phase_def\<close>)
    then show ?thesis using c(1) w RefundJob r(2) by auto
  qed
qed

lemma run_rules_ok:
  assumes ok: "world_ok s g ts" and x: "x < length ts" "ts ! x = Rules i bps k" and w: "pw_service w = s" "pw_gateway w = g"
  shows "\<exists>u t. run_pc w now rdy (Rules i bps k) = (w\<lparr>pw_service := u\<rparr>, t) \<and> world_ok u g (ts[x := t])"
proof -
  note o = world_okD [OF ok]
  have "thread_ok s g (ts ! x)" using o(2) x(1) by (simp add: threads_ok_def)
  then obtain p where p: "payment_at s i = Some p" "pm_status p = PROCESSING" using x(2) by auto
  have ch: "charging (ts ! x) = {i}" using x(2) by simp
  show ?thesis
  proof (cases "k < length (sv_rules s)")
    case False
    have "world_ok s g (ts[x := Calling (ChargeJob i (Some bps)) 0 [] (Payment_is i)])"
      by (rule world_ok_quiet [OF ok x(1) service_evolves_refl [OF o(1)] refl]) (use p ch in \<open>simp_all add: job_known_def\<close>)
    then show ?thesis using False w by (intro exI [of _ s]) simp
  next
    case True
    obtain rule reason where e: "evaluate now (pm_request (the_payment s i)) (sv_rules s ! k) = (rule, reason)"
      by (cases "evaluate now (pm_request (the_payment s i)) (sv_rules s ! k)")
    define s1 where "s1 = s\<lparr>sv_rules := (sv_rules s)[k := rule]\<rparr>"
    have at: "payment_at s1 = payment_at s" by (simp add: s1_def payment_at_def)
    have ev: "evolves s s1" by (rule same_payments_evolves [OF o(1)]) (simp_all add: s1_def)
    have ok1: "world_ok s1 g ts"
    proof -
      have "world_ok s1 g (ts[x := ts ! x])"
        by (rule world_ok_quiet [OF ok x(1) ev at]) (use p at x(2) in simp_all)
      then show ?thesis by simp
    qed
    have t1: "the_payment s1 i = p" by (rule the_payment_at) (use p at in simp)
    show ?thesis
    proof (cases reason)
      case None
      have "world_ok s1 g (ts[x := Rules i bps (k + 1)])"
        by (rule world_ok_quiet [OF ok x(1) ev at]) (use p at ch in simp_all)
      then show ?thesis using True e None w by (intro exI [of _ s1]) (simp add: s1_def)
    next
      case (Some why)
      have p1: "payment_at s1 i = Some p" using p at by simp
      obtain u q where c: "finish_charge s1 i p FAILED (Some (''risk: '' @ why)) = (u, Inr ())" "only_changes s1 i p q u" "pm_status q = FAILED"
        "pm_refunds q = pm_refunds p"
        by (rule finish_charge_plain [OF world_okD(1) [OF ok1] p1, of FAILED]) (use p(2) in \<open>simp_all add: charge_open_def\<close>)
      have "world_ok u g (ts[x := Done (Inr (Payment_is i))])"
        by (rule world_ok_change [OF ok1 x(1) c(2)]) (use c(3,4) ch in \<open>simp_all add: settled_status_def\<close>)
      then show ?thesis using True e Some w c(1) t1 by (intro exI [of _ u]) (simp add: s1_def Let_def)
    qed
  qed
qed

lemma run_thread_ok:
  assumes ok: "world_ok s g ts" and x: "x < length ts" and w: "pw_service w = s" "pw_gateway w = g" "pw_threads w = ts"
  shows "\<exists>w1 t. run_pc w now rdy (ts ! x) = (w1, t) \<and> pw_threads w1 = ts \<and> world_ok (pw_service w1) (pw_gateway w1) (ts[x := t])"
proof -
  note o = world_okD [OF ok]
  have tok: "thread_ok s g (ts ! x)" using o(2) x by (simp add: threads_ok_def)
  have quiet: "world_ok s g (ts[x := t])" if "thread_ok s g t" "charging t = {}" for t
    by (rule world_ok_quiet [OF ok x service_evolves_refl [OF o(1)] refl that(1)]) (simp add: that(2))
  show ?thesis
  proof (cases "ts ! x")
    case (Rules i bps k)
    then show ?thesis using run_rules_ok [OF ok x Rules w(1,2), of now rdy] w by fastforce
  next
    case (Calling j n js a)
    then show ?thesis using run_calling_ok [OF ok x Calling w(1,2), of now rdy] w by fastforce
  next
    case (Ending j res js a)
    then show ?thesis using run_ending_ok [OF ok x Ending w(1,2), of now rdy] w by fastforce
  next
    case (Relaying es n)
    then show ?thesis using quiet w by (cases es) (auto intro!: quiet)
  next
    case (Removing e es n)
    let ?u = "s\<lparr>sv_outbox := outbox_remove (ev_id e) (sv_outbox s)\<rparr>"
    have at: "payment_at ?u = payment_at s" by (simp add: payment_at_def)
    have "evolves s ?u" by (rule same_payments_evolves [OF o(1)]) simp_all
    from world_ok_quiet [OF ok x this at, of "Relaying es (n + 1)"] show ?thesis using Removing w by simp
  next
    case (Done r)
    then show ?thesis using ok w tok by (auto simp: list_update_id [of ts x, unfolded Done])
  qed
qed

section \<open>New threads\<close>

lemma world_ok_spawn:
  assumes ok: "world_ok s g ts" and t: "thread_ok s g t" "\<And>i. i \<in> charging t \<Longrightarrow> \<not> in_processing s i"
  shows "world_ok s g (ts @ [t])"
proof -
  note o = world_okD [OF ok]
  have "threads_ok s g (ts @ [t])" by (rule threads_ok_spawn [OF o(2) service_evolves_refl [OF o(1)] t(1)]) (use t(2) in auto)
  then show ?thesis using ok by (simp add: world_ok_def)
qed

lemma charge_of_known: "job_known s j \<Longrightarrow> i \<in> charge_of j \<Longrightarrow> payment_at s i \<noteq> None"
  by (cases j) (simp_all add: job_known_def)

lemma charges_known: "list_all (job_known s) js \<Longrightarrow> i \<in> (\<Union>x \<in> set js. charge_of x) \<Longrightarrow> payment_at s i \<noteq> None"
  using charge_of_known by (fastforce simp: list_all_iff)

lemma charging_known:
  assumes "thread_ok s g t" "i \<in> charging t"
  shows "payment_at s i \<noteq> None"
proof (cases t)
  case (Calling j n js a)
  then show ?thesis using charges_known [of s "j # js" i] assms by simp
next
  case (Ending j res js a)
  then show ?thesis using charges_known [of s "j # js" i] assms by simp
qed (use assms in auto)

lemma spawn_pay_ok:
  assumes ok: "world_ok s g ts" and c: "start_call s (Pay rq) = (u, t)"
  shows "world_ok u g (ts @ [t])"
proof -
  note o = world_okD [OF ok]
  have stop: "world_ok s g (ts @ [Done r])" if "r \<noteq> Inl IllegalTransitionError" for r
    by (rule world_ok_spawn [OF ok]) (use that in simp_all)
  consider (no) r where "u = s" "t = Done r" "r \<noteq> Inl IllegalTransitionError"
    | (fresh) bps where "0 < mn_amount (rq_amount rq)" "map_of (sv_by_key s) (rq_merchant rq, rq_key rq) = None" "t = Rules (sv_next s) bps 0"
      "u = s\<lparr>sv_next := sv_next s + 1, sv_payments := AList.update (sv_next s) (new_payment rq) (sv_payments s),
         sv_by_key := AList.update (rq_merchant rq, rq_key rq) (sv_next s) (sv_by_key s)\<rparr>"
  proof (cases "mn_amount (rq_amount rq) \<le> 0 \<or> rq_key rq = [] \<or> map_of (sv_merchants s) (rq_merchant rq) = None")
    case True
    define e where "e = (if mn_amount (rq_amount rq) \<le> 0 \<or> rq_key rq = [] then ValidationError else NotFoundError)"
    have "open_payment s rq = (s, Inl e)"
    proof (cases "mn_amount (rq_amount rq) \<le> 0 \<or> rq_key rq = []")
      case True
      then show ?thesis by (elim disjE) (simp_all add: open_payment_def e_def)
    next
      case False
      then show ?thesis using True by (simp add: open_payment_def e_def)
    qed
    then show ?thesis using c by (intro no [of "Inl e"]) (simp_all add: start_call_def e_def)
  next
    case False
    then obtain bps where b: "0 < mn_amount (rq_amount rq)" "rq_key rq \<noteq> []" "map_of (sv_merchants s) (rq_merchant rq) = Some bps" by auto
    show ?thesis
    proof (cases "map_of (sv_by_key s) (rq_merchant rq, rq_key rq)")
      case None
      then show ?thesis using c b by (intro fresh [of bps]) (simp_all add: start_call_def open_payment_def Let_def)
    next
      case (Some i)
      show ?thesis
        by (rule no [of "if pm_request (the_payment s i) \<noteq> rq then Inl IdempotencyConflictError
            else if pm_status (the_payment s i) = PROCESSING then Inl RequestInProgressError else Inr (Payment_is i)"])
          (use c b Some in \<open>auto simp: start_call_def open_payment_def split: if_splits\<close>)
    qed
  qed
  then show ?thesis
  proof cases
    case no
    then show ?thesis using stop by simp
  next
    case fresh
    note f = open_payment_fresh_ok [OF o(1) fresh(1,2), folded fresh(4)]
    have ev: "evolves s u" using f o(1) by (auto simp: evolves_def)
    have proc: "in_processing u i \<longleftrightarrow> i = sv_next s \<or> in_processing s i" for i using f(2,3) by (auto simp: in_processing_def new_payment_def)
    have away: "sv_next s \<notin> charging (ts ! y)" if "y < length ts" for y
      using charging_known [of s g "ts ! y" "sv_next s"] o(2) that f(3) by (auto simp: threads_ok_def)
    have notp: "\<not> in_processing s (sv_next s)" using f(3) by (simp add: in_processing_def)
    have "threads_ok u g (ts @ [t])"
      by (rule threads_ok_spawn [OF o(2) ev]) (use proc away notp f(2) fresh(3) in \<open>auto simp: new_payment_def\<close>)
    moreover have "paid_ok u g"
    proof -
      have "\<not> settled_status (pm_status (new_payment rq))" "pm_refunds (new_payment rq) = []" by (simp_all add: new_payment_def settled_status_def)
      then show ?thesis using o(4) f(2) by (simp add: paid_ok_def)
    qed
    moreover obtain L where "moves_ok s g L" using o(3) by blast
    ultimately show ?thesis using moves_ok_evolves [OF _ ev] f(1) by (blast intro: world_okI)
  qed
qed

lemma spawn_refund_ok:
  assumes ok: "world_ok s g ts" and c: "start_call s (Refund i amount key reason) = (u, t)"
  shows "world_ok u g (ts @ [t])"
proof -
  note o = world_okD [OF ok]
  have stop: "world_ok s g (ts @ [Done r])" if "r \<noteq> Inl IllegalTransitionError" for r
    by (rule world_ok_spawn [OF ok]) (use that in simp_all)
  show ?thesis
  proof (cases "0 < mn_amount amount \<and> payment_at s i \<noteq> None")
    case False
    then have "u = s \<and> (t = Done (Inl ValidationError) \<or> t = Done (Inl NotFoundError))"
      using c by (auto simp: start_call_def find_payment_def payment_at_def split: if_splits option.splits)
    then show ?thesis using stop by auto
  next
    case True
    then obtain p where amount: "0 < mn_amount amount" and p: "payment_at s i = Some p" by auto
    have pok: "payment_ok p" by (rule service_okD(1) [OF o(1) p])
    have c': "(case open_refund s i amount key reason of
        (s1, Inl e) \<Rightarrow> (s1, Done (Inl e))
      | (s1, Inr (rid, fresh)) \<Rightarrow> (s1, if fresh then Calling (RefundJob i rid) 0 [] (Refund_is rid) else Done (Inr (Refund_is rid)))) = (u, t)"
      using c amount p by (simp add: start_call_def find_payment_def payment_at_def)
    show ?thesis
    proof (cases "map_of (sv_refund_keys s) (i, key)")
      case (Some rid)
      then have "u = s \<and> (t = Done (Inl IdempotencyConflictError) \<or> t = Done (Inr (Refund_is rid)))"
        using c' by (auto simp: open_refund_def Let_def split: if_splits)
      then show ?thesis using stop by auto
    next
      case None
      show ?thesis
      proof (cases "pm_status p \<in> set REFUNDABLE \<and> bind_sum (refundable p) (\<lambda>left. money_less left amount) = Inr False")
        case False
        have "u = s \<and> (\<exists>e. t = Done (Inl e) \<and> e \<noteq> IllegalTransitionError)"
        proof (cases "pm_status p \<in> set REFUNDABLE")
          case True
          then have "bind_sum (refundable p) (\<lambda>left. money_less left amount) = Inl ValidationError
            \<or> bind_sum (refundable p) (\<lambda>left. money_less left amount) = Inr True"
            using False by (auto simp: refundable_eq [OF pok] money_less_def)
          then show ?thesis using c' None True p by (auto simp: open_refund_def the_payment_at Let_def)
        next
          case False
          then have "u = s \<and> t = Done (Inl RefundError)" using c' None p by (simp add: open_refund_def the_payment_at)
          then show ?thesis by simp
        qed
        then show ?thesis using stop by auto
      next
        case True
        then have st: "pm_status p \<in> set REFUNDABLE" and left: "bind_sum (refundable p) (\<lambda>left. money_less left amount) = Inr False" by simp_all
        define r where "r = \<lparr>rf_id = sv_next s, rf_key = key, rf_amount = amount, rf_reason = reason, rf_status = R_PENDING, rf_gateway_ref = None\<rparr>"
        define q where "q = p\<lparr>pm_refunds := pm_refunds p @ [r]\<rparr>"
        have u: "u = (put_payment s i q)\<lparr>sv_next := sv_next s + 1, sv_refund_keys := AList.update (i, key) (sv_next s) (sv_refund_keys s)\<rparr>"
          and t: "t = Calling (RefundJob i (sv_next s)) 0 [] (Refund_is (sv_next s))"
          using c' None st left p by (simp_all add: open_refund_def the_payment_at Let_def q_def r_def)
        note f = refund_fresh_ok [OF o(1) p None st amount left, of reason, folded r_def, folded q_def, folded u]
        have ev: "evolves s u" using f p o(1) by (auto simp: evolves_def)
        have proc: "in_processing u j = in_processing s j" for j using f(2,4) p by (auto simp: in_processing_def same_phase_def)
        have "(sv_next s, key, amount) \<in> refund_names q" by (simp add: refund_names_def q_def r_def)
        then have "job_known u (RefundJob i (sv_next s))" using f(2) by (auto simp: job_known_def)
        then have "threads_ok u g (ts @ [t])" by (intro threads_ok_spawn [OF o(2) ev]) (simp_all add: t proc)
        moreover have "paid_ok u g"
        proof -
          have "pm_request q = pm_request p" "pm_status q = pm_status p" "\<And>x. x \<in> set (pm_refunds q) \<Longrightarrow> rf_status x = R_SUCCEEDED \<Longrightarrow> x \<in> set (pm_refunds p)"
            by (auto simp: q_def r_def)
          then show ?thesis using o(4) f(2) p unfolding paid_ok_def by (metis fun_upd_apply option.inject)
        qed
        moreover obtain L where "moves_ok s g L" using o(3) by blast
        ultimately show ?thesis using moves_ok_evolves [OF _ ev] f(1) by (blast intro: world_okI)
      qed
    qed
  qed
qed

lemma listed_payment: "service_ok s \<Longrightarrow> x \<in> set (sv_payments s) \<Longrightarrow> payment_at s (fst x) = Some (snd x)"
  using map_of_is_SomeI [OF service_okD(8), of s "fst x" "snd x"] by (simp add: payment_at_def)

lemma spawn_reconcile_ok:
  assumes ok: "world_ok s g ts" and c: "start_call s Reconcile = (u, t)"
  shows "world_ok u g (ts @ [t])"
proof -
  note o = world_okD [OF ok]
  define charges where "charges = map (\<lambda>x. ChargeJob (fst x) None) (filter (\<lambda>x. pm_status (snd x) = UNKNOWN) (sv_payments s))"
  define refunds where "refunds = concat (map (\<lambda>x. map (\<lambda>r. RefundJob (fst x) (rf_id r)) (filter (\<lambda>r. rf_status r = R_PENDING) (pm_refunds (snd x)))) (sv_payments s))"
  obtain a where t: "u = s" "t = next_job (charges @ refunds) a"
    using c by (auto simp: start_call_def Let_def charges_def refunds_def)
  have one: "job_known s j \<and> (\<forall>i \<in> charge_of j. \<not> in_processing s i)" if member: "j \<in> set (charges @ refunds)" for j
  proof -
    consider (charge) x where "x \<in> set (sv_payments s)" "pm_status (snd x) = UNKNOWN" "j = ChargeJob (fst x) None"
      | (refund) x r where "x \<in> set (sv_payments s)" "r \<in> set (pm_refunds (snd x))" "j = RefundJob (fst x) (rf_id r)"
      using member by (auto simp: charges_def refunds_def)
    then show ?thesis
    proof cases
      case charge
      then show ?thesis using listed_payment [OF o(1) charge(1)] by (simp add: job_known_def in_processing_def)
    next
      case refund
      then show ?thesis using listed_payment [OF o(1) refund(1)] the_refund_named [OF refund(2)] by (auto simp: job_known_def)
    qed
  qed
  have "list_all (job_known s) (charges @ refunds)" using one by (simp add: list_all_iff)
  then have k: "thread_ok s g t" unfolding t(2) by (rule next_job_ok(1))
  have q: "\<not> in_processing s i" if "i \<in> charging t" for i
    using that one unfolding t(2) next_job_ok(2) by blast
  show ?thesis unfolding t(1) by (rule world_ok_spawn [OF ok k q])
qed

lemma spawned_ok:
  assumes ok: "world_ok s g ts" and c: "start_call s cl = (u, t)"
  shows "world_ok u g (ts @ [t])"
proof (cases cl)
  case (Pay rq)
  then show ?thesis using spawn_pay_ok [OF ok] c by simp
next
  case (Refund i amount key reason)
  then show ?thesis using spawn_refund_ok [OF ok] c by simp
next
  case Reconcile
  then show ?thesis using spawn_reconcile_ok [OF ok] c by simp
next
  case Relay
  then obtain es where "u = s" "t = Relaying es 0" using c by (auto simp: start_call_def)
  then show ?thesis using world_ok_spawn [OF ok, of t] by simp
qed

lemma pay_step_ok:
  assumes "pay_ok w"
  shows "pay_ok (fst (pay_step w op))"
proof (cases op)
  case (Merchant m bps)
  let ?s = "pw_service w" and ?u = "add_merchant (pw_service w) m bps"
  have ok: "world_ok ?s (pw_gateway w) (pw_threads w)" using assms by (simp add: pay_ok_def)
  note o = world_okD [OF ok]
  obtain L where L: "moves_ok ?s (pw_gateway w) L" using o(3) by blast
  have at: "payment_at ?u = payment_at ?s" by (simp add: add_merchant_def payment_at_def)
  have ev: "evolves ?s ?u" by (rule same_payments_evolves [OF o(1)]) (simp_all add: add_merchant_def)
  have p: "in_processing ?u = in_processing ?s" using at by (simp add: in_processing_def fun_eq_iff)
  have "thread_ok ?u (pw_gateway w) t" if "thread_ok ?s (pw_gateway w) t" for t
    by (rule thread_ok_evolves [OF that ev results_grow_refl]) (simp add: p)
  then have "threads_ok ?u (pw_gateway w) (pw_threads w)" using o(2) by (simp add: threads_ok_def exclusive_def p)
  moreover have "paid_ok ?u (pw_gateway w)" using o(4) by (simp add: paid_ok_def at)
  ultimately have "world_ok ?u (pw_gateway w) (pw_threads w)" using moves_ok_evolves [OF L ev] ev by (intro world_okI) (simp_all add: evolves_def)
  then show ?thesis using Merchant by (simp add: pay_ok_def)
next
  case (Inject fs)
  let ?g = "pw_gateway w" and ?h = "inject (pw_gateway w) fs"
  have ok: "world_ok (pw_service w) ?g (pw_threads w)" using assms by (simp add: pay_ok_def)
  note o = world_okD [OF ok]
  obtain L where L: "moves_ok (pw_service w) ?g L" using o(3) by blast
  have h: "sg_results ?h = sg_results ?g" "sg_moved ?h = sg_moved ?g" by (simp_all add: inject_def)
  have g: "grows ?g ?h" by (simp add: grows_def h(1))
  have "thread_ok (pw_service w) ?h t" if "thread_ok (pw_service w) ?g t" for t
    by (rule thread_ok_evolves [OF that service_evolves_refl [OF o(1)] g])
  then have "threads_ok (pw_service w) ?h (pw_threads w)" using o(2) by (simp add: threads_ok_def)
  then have "world_ok (pw_service w) ?h (pw_threads w)"
    using o(1) moves_ok_same [OF L h] paid_ok_grows [OF o(4) g] by (intro world_okI)
  then show ?thesis using Inject by (simp add: pay_ok_def)
next
  case (Spawn cl)
  then show ?thesis using assms spawned_ok [of "pw_service w" "pw_gateway w" "pw_threads w" cl]
    by (cases "start_call (pw_service w) cl") (simp add: pay_ok_def)
next
  case (Run i now rdy)
  then show ?thesis using assms run_thread_ok [of "pw_service w" "pw_gateway w" "pw_threads w" i w now rdy]
    by (cases "i < length (pw_threads w)") (auto simp: pay_ok_def)
qed

interpretation pay: invariant_machine pay_step pay_ok
  by unfold_locales (rule pay_step_ok)

lemma opening_ok: "new_service rules n = Inr s \<Longrightarrow> pay_ok (opening_world s)"
  by (auto simp: new_service_def opening_world_def new_sim_def pay_ok_def world_ok_def service_ok_def payment_at_def threads_ok_def exclusive_def
      moves_ok_def approved_def paid_ok_def split: if_splits)

lemma pay_run_ok: "new_service rules n = Inr s \<Longrightarrow> pay_ok (run_ops pay_step (opening_world s) ops)"
  by (rule pay.run_inv [OF opening_ok])

end
