(* ===== verification/Payment_Properties.thy ===== *)
theory Payment_Properties
  imports Payment_Threads
begin

text \<open>
  What \<open>Payments\<close> promises whatever its threads, the faults of the gateway and the readings of the clock are: refunds within the
  payment, only allowed transitions, one payment and one charge per key. Last, a run in which two merchants share a charge.
\<close>

declare split_paired_All [simp del] split_paired_Ex [simp del]

section \<open>Properties\<close>

lemma find_payment_at: "find_payment s i = Inr p \<longleftrightarrow> payment_at s i = Some p"
  by (simp add: find_payment_def payment_at_def split: option.splits)

lemma reached_ok: "new_service rules n = Inr s \<Longrightarrow> world_ok (pw_service (run_ops pay_step (opening_world s) ops)) (pw_gateway (run_ops pay_step (opening_world s) ops))
    (pw_threads (run_ops pay_step (opening_world s) ops))"
  using pay_run_ok by (simp add: pay_ok_def)

lemma refunds_say:
  assumes "payment_ok p"
  shows "pm_status p = REFUNDED \<longleftrightarrow> sum_in R_SUCCEEDED p = cap p"
    "pm_status p = PARTIALLY_REFUNDED \<longleftrightarrow> 0 < sum_in R_SUCCEEDED p \<and> sum_in R_SUCCEEDED p < cap p"
  using payment_okD(1,6) [OF assms] by (cases "pm_status p"; force simp: refunds_fit_def sum_in_def refunds_in_def)+

text \<open>C8. However refunds, their retries and reconciliations interleave, and whatever the gateway answers, a payment never gives back
  more than it took: the refunds that succeeded and those still held add up to at most its amount. The payment is REFUNDED exactly
  when all of it has gone back, and PARTIALLY_REFUNDED exactly when some of it has.\<close>

theorem refunds_within_payment:
  assumes "new_service rules n = Inr s" "find_payment (pw_service (run_ops pay_step (opening_world s) ops)) i = Inr p"
  shows "\<exists>a h. refunded p = Inr a \<and> held_for_refunds p = Inr h \<and> 0 \<le> mn_amount a \<and> 0 \<le> mn_amount h
    \<and> mn_amount a + mn_amount h \<le> mn_amount (pm_amount p)
    \<and> (pm_status p = REFUNDED) = (mn_amount a = mn_amount (pm_amount p))
    \<and> (pm_status p = PARTIALLY_REFUNDED) = (0 < mn_amount a \<and> mn_amount a < mn_amount (pm_amount p))"
proof -
  have ok: "payment_ok p" using service_okD(1) [OF world_okD(1) [OF reached_ok [OF assms(1)]]] assms(2) by (simp add: find_payment_at)
  show ?thesis using refunded_eq [OF ok] refunds_say [OF ok] sum_in_nonneg [OF ok] payment_okD(5) [OF ok] by (simp add: cap_def)
qed

definition dollars :: "rat \<Rightarrow> money" where
  "dollars a = \<lparr>mn_amount = a, mn_currency = USD\<rparr>"

definition demo_request :: "string \<Rightarrow> string \<Rightarrow> rat \<Rightarrow> pay_request" where
  "demo_request key merchant a = \<lparr>rq_key = key, rq_merchant = merchant, rq_customer = ''c'', rq_amount = dollars a, rq_token = ''tok_visa''\<rparr>"

definition demo_service :: service where
  "demo_service = (case new_service [AmountLimitRule (dollars 1000), VelocityRule 5 60 []] 3 of Inr s \<Rightarrow> s)"

lemma demo_service_new: "new_service [AmountLimitRule (dollars 1000), VelocityRule 5 60 []] 3 = Inr demo_service"
  by (simp add: demo_service_def new_service_def)

text \<open>A payment of 100, whose first charge times out after the gateway has taken the money; two refunds race for 60 and 50.\<close>

definition racing_refunds :: "pay_op list" where
  "racing_refunds = [Merchant ''m'' 290, Inject [''timeout_after''], Spawn (Pay (demo_request ''k'' ''m'' 100))] @ map (\<lambda>i. Run 0 i True) [1, 2, 3, 4, 5, 6]
     @ [Spawn (Refund 1 (dollars 60) ''r1'' []), Spawn (Refund 1 (dollars 50) ''r2'' []), Run 1 7 True, Run 1 8 True]"

theorem refunds_within_payment_witness:
  "\<exists>p a. find_payment (pw_service (run_ops pay_step (opening_world demo_service) racing_refunds)) 1 = Inr p \<and> pm_status p = PARTIALLY_REFUNDED
     \<and> refunded p = Inr a \<and> 0 < mn_amount a \<and> mn_amount a < 100"
proof -
  let ?s = "pw_service (run_ops pay_step (opening_world demo_service) racing_refunds)"
  have "(case find_payment ?s 1 of Inl e \<Rightarrow> False | Inr p \<Rightarrow> pm_status p = PARTIALLY_REFUNDED \<and> mn_amount (pm_amount p) = 100)" by code_simp
  then obtain p where p: "find_payment ?s 1 = Inr p" "pm_status p = PARTIALLY_REFUNDED" "mn_amount (pm_amount p) = 100" by (auto split: sum.splits)
  then show ?thesis using refunds_within_payment [OF demo_service_new p(1)] by auto
qed

text \<open>C24. No interleaving of pays, refunds, retries and reconciliations takes a payment through a transition the table does not
  allow: its history starts in PROCESSING, follows \<open>ALLOWED_TRANSITIONS\<close> and ends in its status, and no call ever answers with
  an IllegalTransitionError.\<close>

theorem payment_history_allowed:
  assumes "new_service rules n = Inr s" "w = run_ops pay_step (opening_world s) ops"
  shows "(\<forall>i p. find_payment (pw_service w) i = Inr p \<longrightarrow>
        allowed_path (pm_history p) \<and> hd (pm_history p) = PROCESSING \<and> last (pm_history p) = pm_status p)
    \<and> Done (Inl IllegalTransitionError) \<notin> set (pw_threads w)"
proof -
  have ok: "world_ok (pw_service w) (pw_gateway w) (pw_threads w)" unfolding assms(2) by (rule reached_ok [OF assms(1)])
  have "history_fits p" if "find_payment (pw_service w) i = Inr p" for i p
    using payment_okD(7) [OF service_okD(1) [OF world_okD(1) [OF ok]]] that by (simp add: find_payment_at)
  moreover have "Done (Inl IllegalTransitionError) \<notin> set (pw_threads w)"
  proof
    assume "Done (Inl IllegalTransitionError) \<in> set (pw_threads w)"
    then obtain x where "x < length (pw_threads w)" "pw_threads w ! x = Done (Inl IllegalTransitionError)" by (auto simp: in_set_conv_nth)
    then show False using world_okD(2) [OF ok] unfolding threads_ok_def by (metis thread_ok.simps(4))
  qed
  ultimately show ?thesis by (auto simp: history_fits_def)
qed

text \<open>A charge that times out for good leaves the payment UNKNOWN; two reconciliations at once find out that it went through.\<close>

definition lost_answer :: "pay_op list" where
  "lost_answer = [Merchant ''m'' 290, Inject [''timeout_after'', ''unavailable'', ''timeout_before''], Spawn (Pay (demo_request ''k'' ''m'' 100))]
     @ map (\<lambda>i. Run 0 i True) [1, 2, 3, 4, 5, 6, 7] @ [Spawn Reconcile, Spawn Reconcile]
     @ [Run 1 8 True, Run 2 8 True, Run 1 9 True, Run 2 9 True]"

theorem payment_history_allowed_witness:
  "\<exists>p. find_payment (pw_service (run_ops pay_step (opening_world demo_service) lost_answer)) 1 = Inr p
     \<and> pm_history p = [PROCESSING, UNKNOWN, SUCCEEDED] \<and> allowed_path (pm_history p)"
proof -
  let ?w = "run_ops pay_step (opening_world demo_service) lost_answer"
  have "(case find_payment (pw_service ?w) 1 of Inl e \<Rightarrow> False | Inr p \<Rightarrow> pm_history p = [PROCESSING, UNKNOWN, SUCCEEDED])" by code_simp
  then obtain p where p: "find_payment (pw_service ?w) 1 = Inr p" "pm_history p = [PROCESSING, UNKNOWN, SUCCEEDED]" by (auto split: sum.splits)
  then show ?thesis using payment_history_allowed [OF demo_service_new refl, of lost_answer] by blast
qed

text \<open>No two payments use the same idempotency key, nor do refunds of two payments (within a merchant, or a payment, the service
  itself keeps keys apart).\<close>

definition keys_apart :: "service \<Rightarrow> bool" where
  "keys_apart s \<longleftrightarrow>
     (\<forall>i j p q. find_payment s i = Inr p \<longrightarrow> find_payment s j = Inr q \<longrightarrow> rq_key (pm_request p) = rq_key (pm_request q) \<longrightarrow> i = j)
     \<and> (\<forall>i j p q x y. find_payment s i = Inr p \<longrightarrow> find_payment s j = Inr q \<longrightarrow> x \<in> set (pm_refunds p) \<longrightarrow> y \<in> set (pm_refunds q)
          \<longrightarrow> rf_key x = rf_key y \<longrightarrow> i = j)"

lemma keys_apartD:
  assumes "keys_apart s" "payment_at s i = Some p" "payment_at s j = Some q"
  shows "rq_key (pm_request p) = rq_key (pm_request q) \<Longrightarrow> i = j"
    "x \<in> set (pm_refunds p) \<Longrightarrow> y \<in> set (pm_refunds q) \<Longrightarrow> rf_key x = rf_key y \<Longrightarrow> i = j"
proof -
  note k = assms(1) [unfolded keys_apart_def find_payment_at]
  show "rq_key (pm_request p) = rq_key (pm_request q) \<Longrightarrow> i = j" using k [THEN conjunct1, rule_format, OF assms(2,3)] .
  show "x \<in> set (pm_refunds p) \<Longrightarrow> y \<in> set (pm_refunds q) \<Longrightarrow> rf_key x = rf_key y \<Longrightarrow> i = j" using k [THEN conjunct2, rule_format, OF assms(2,3)] .
qed

lemma charge_asked:
  assumes "service_ok s" "keys_apart s" "payment_at s i = Some p"
  shows "asked_for s (ChargeKey (rq_key (pm_request p))) m \<Longrightarrow> m = pm_amount p"
    "r \<in> set (pm_refunds p) \<Longrightarrow> asked_for s (RefundKey (rf_key r)) m \<Longrightarrow> m = rf_amount r"
proof -
  assume "asked_for s (ChargeKey (rq_key (pm_request p))) m"
  then obtain j q where q: "payment_at s j = Some q" "rq_key (pm_request q) = rq_key (pm_request p)" "m = rq_amount (pm_request q)" by (auto simp: asked_for_def)
  then have "j = i" using keys_apartD(1) [OF assms(2) q(1) assms(3)] by simp
  then show "m = pm_amount p" using q(1,3) assms(3) by (simp add: pm_amount_def)
next
  assume r: "r \<in> set (pm_refunds p)" and "asked_for s (RefundKey (rf_key r)) m"
  then obtain j q rid where q: "payment_at s j = Some q" "(rid, rf_key r, m) \<in> refund_names q" by (auto simp: asked_for_def)
  then obtain y where y: "y \<in> set (pm_refunds q)" "rf_id y = rid" "rf_key y = rf_key r" "rf_amount y = m" by (auto simp: refund_names_def)
  have "j = i" by (rule keys_apartD(2) [OF assms(2) q(1) assms(3) y(1) r y(3)])
  then have qp: "q = p" using q(1) assms(3) by simp
  have key: "map_of (sv_refund_keys s) (i, rf_key z) = Some (rf_id z)" if "z \<in> set (pm_refunds p)" for z
    using service_okD(5) [OF assms(1,3), of "(rf_id z, rf_key z, rf_amount z)"] that by (simp add: refund_names_def)
  have "rf_id y = rf_id r" using key [of r] key [of y] r y(1,3) qp by simp
  moreover have "distinct (map rf_id (pm_refunds p))" by (rule payment_okD(4) [OF service_okD(1) [OF assms(1,3)]])
  ultimately have "y = r" using r y(1) qp by (simp add: distinct_map inj_on_def)
  then show "m = rf_amount r" using y(4) by simp
qed

text \<open>C9. Money moves once per payment and once per refund, as long as no two payments use the same idempotency key and no refunds of
  two payments the same refund key (the gateway gets bare keys, so a key that two merchants share moves money once for both: see
  below). What the gateway has moved is then a list of distinct keys, each with the amount that the payment or refund of this
  key asked for; every payment that has succeeded and every refund that has succeeded is in it with its own amount. So lost answers,
  retries and reconciliations, however they interleave, neither charge or refund twice nor let a payment succeed uncharged.\<close>

theorem each_key_moves_money_once:
  assumes "new_service rules n = Inr s" "w = run_ops pay_step (opening_world s) ops" "keys_apart (pw_service w)"
  shows "\<exists>L. distinct (map fst L) \<and> sg_moved (pw_gateway w) = map (\<lambda>x. (move_name (fst x), snd x)) L
    \<and> (\<forall>x \<in> set L. asked_for (pw_service w) (fst x) (snd x))
    \<and> (\<forall>i p. find_payment (pw_service w) i = Inr p \<longrightarrow>
         (pm_status p \<in> {SUCCEEDED, PARTIALLY_REFUNDED, REFUNDED} \<longrightarrow> (ChargeKey (rq_key (pm_request p)), pm_amount p) \<in> set L)
         \<and> (\<forall>r \<in> set (pm_refunds p). rf_status r = R_SUCCEEDED \<longrightarrow> (RefundKey (rf_key r), rf_amount r) \<in> set L))"
proof -
  have ok: "world_ok (pw_service w) (pw_gateway w) (pw_threads w)" unfolding assms(2) by (rule reached_ok [OF assms(1)])
  have sok: "service_ok (pw_service w)" by (rule world_okD(1) [OF ok])
  obtain L where L: "moves_ok (pw_service w) (pw_gateway w) L" using world_okD(3) [OF ok] by blast
  have paid: "paid_ok (pw_service w) (pw_gateway w)" by (rule world_okD(4) [OF ok])
  have inL: "\<exists>m. (k, m) \<in> set L \<and> asked_for (pw_service w) k m" if "approved (pw_gateway w) k" for k using L that unfolding moves_ok_def by fastforce
  have "(ChargeKey (rq_key (pm_request p)), pm_amount p) \<in> set L"
    if "payment_at (pw_service w) i = Some p" "settled_status (pm_status p)" for i p
    using inL [of "ChargeKey (rq_key (pm_request p))"] charge_asked(1) [OF sok assms(3) that(1)] paid that unfolding paid_ok_def by blast
  moreover have "(RefundKey (rf_key r), rf_amount r) \<in> set L"
    if "payment_at (pw_service w) i = Some p" "r \<in> set (pm_refunds p)" "rf_status r = R_SUCCEEDED" for i p r
    using inL [of "RefundKey (rf_key r)"] charge_asked(2) [OF sok assms(3) that(1,2)] paid that unfolding paid_ok_def by blast
  ultimately show ?thesis using L unfolding moves_ok_def find_payment_at settled_status_def by (intro exI [of _ L]) auto
qed

theorem each_key_moves_money_once_witness:
  "\<exists>L. sg_moved (pw_gateway (run_ops pay_step (opening_world demo_service) racing_refunds)) = map (\<lambda>x. (move_name (fst x), snd x)) L
     \<and> distinct (map fst L) \<and> (ChargeKey ''k'', dollars 100) \<in> set L \<and> (RefundKey ''r1'', dollars 60) \<in> set L"
proof -
  let ?s = "pw_service (run_ops pay_step (opening_world demo_service) racing_refunds)"
  have "map fst (sv_payments ?s) = [1]" by code_simp
  then have one: "i = 1" if "find_payment ?s i = Inr p" for i p
    using that map_of_SomeD [of "sv_payments ?s" i p] unfolding find_payment_at payment_at_def by force
  then have apart: "keys_apart ?s" unfolding keys_apart_def by blast
  have "(case find_payment ?s 1 of Inl e \<Rightarrow> False | Inr p \<Rightarrow> pm_status p = PARTIALLY_REFUNDED \<and> rq_key (pm_request p) = ''k'' \<and> pm_amount p = dollars 100
     \<and> map (\<lambda>r. (rf_key r, rf_amount r, rf_status r)) (pm_refunds p) = [(''r1'', dollars 60, R_SUCCEEDED)])" by code_simp
  then obtain p where p: "find_payment ?s 1 = Inr p" "pm_status p = PARTIALLY_REFUNDED" "rq_key (pm_request p) = ''k''" "pm_amount p = dollars 100"
    and rs: "map (\<lambda>r. (rf_key r, rf_amount r, rf_status r)) (pm_refunds p) = [(''r1'', dollars 60, R_SUCCEEDED)]" by (auto split: sum.splits)
  obtain r where r: "r \<in> set (pm_refunds p)" "rf_key r = ''r1''" "rf_amount r = dollars 60" "rf_status r = R_SUCCEEDED" using rs by auto
  obtain L where L: "distinct (map fst L)" "sg_moved (pw_gateway (run_ops pay_step (opening_world demo_service) racing_refunds)) = map (\<lambda>x. (move_name (fst x), snd x)) L"
    and all: "\<forall>i p. find_payment ?s i = Inr p \<longrightarrow>
         (pm_status p \<in> {SUCCEEDED, PARTIALLY_REFUNDED, REFUNDED} \<longrightarrow> (ChargeKey (rq_key (pm_request p)), pm_amount p) \<in> set L)
         \<and> (\<forall>r \<in> set (pm_refunds p). rf_status r = R_SUCCEEDED \<longrightarrow> (RefundKey (rf_key r), rf_amount r) \<in> set L)"
    using each_key_moves_money_once [OF demo_service_new refl apart] by blast
  have "(ChargeKey ''k'', dollars 100) \<in> set L \<and> (RefundKey ''r1'', dollars 60) \<in> set L" using all [rule_format, OF p(1)] p(2-4) r by force
  then show ?thesis using L by blast
qed

text \<open>Paying again under a key the merchant has used never opens a second payment: the answer is an IdempotencyConflictError for
  another request, a RequestInProgressError while the first is processing, and else the first payment, nothing changed.\<close>

theorem pay_again_is_the_same_payment:
  assumes "new_service rules n = Inr s" "t = pw_service (run_ops pay_step (opening_world s) ops)" "find_payment t i = Inr p"
    "rq_merchant rq = rq_merchant (pm_request p)" "rq_key rq = rq_key (pm_request p)"
    "0 < mn_amount (rq_amount rq)" "rq_key rq \<noteq> []" "map_of (sv_merchants t) (rq_merchant rq) \<noteq> None"
  shows "start_call t (Pay rq) =
    (t, Done (if pm_request p \<noteq> rq then Inl IdempotencyConflictError
              else if pm_status p = PROCESSING then Inl RequestInProgressError else Inr (Payment_is i)))"
proof -
  have ok: "service_ok t" unfolding assms(2) by (rule world_okD(1) [OF reached_ok [OF assms(1)]])
  have at: "payment_at t i = Some p" using assms(3) by (simp add: find_payment_at)
  have "map_of (sv_by_key t) (rq_merchant rq, rq_key rq) = Some i" using service_okD(4) [OF ok at] assms(4,5) by (simp add: request_key_def)
  then show ?thesis using assms(6-8) the_payment_at [OF at] by (auto simp: start_call_def open_payment_def)
qed

theorem pay_again_is_the_same_payment_witness:
  "start_call (pw_service (run_ops pay_step (opening_world demo_service) lost_answer)) (Pay (demo_request ''k'' ''m'' 100))
   = (pw_service (run_ops pay_step (opening_world demo_service) lost_answer), Done (Inr (Payment_is 1)))"
proof -
  let ?t = "pw_service (run_ops pay_step (opening_world demo_service) lost_answer)"
  have "(case find_payment ?t 1 of Inl e \<Rightarrow> False | Inr p \<Rightarrow> pm_request p = demo_request ''k'' ''m'' 100 \<and> pm_status p = SUCCEEDED)" by code_simp
  then obtain p where p: "find_payment ?t 1 = Inr p" "pm_request p = demo_request ''k'' ''m'' 100" "pm_status p = SUCCEEDED" by (auto split: sum.splits)
  have "map_of (sv_merchants ?t) ''m'' = Some 290" by code_simp
  then show ?thesis using pay_again_is_the_same_payment [OF demo_service_new refl p(1), of "demo_request ''k'' ''m'' 100"] p(2,3)
    by (simp add: demo_request_def dollars_def)
qed

section \<open>A key shared by two merchants\<close>

text \<open>The service keeps idempotency keys apart by merchant, but hands the gateway the bare key: a second merchant's payment under the
  same key gets the first one's result and succeeds, though nothing was charged for it.\<close>

definition two_merchants :: "pay_op list" where
  "two_merchants = [Merchant ''m'' 290, Merchant ''n'' 290, Spawn (Pay (demo_request ''k'' ''m'' 100)), Spawn (Pay (demo_request ''k'' ''n'' 70))]
     @ map (\<lambda>i. Run 0 i True) [1, 2, 3, 4, 5] @ map (\<lambda>i. Run 1 i True) [6, 7, 8, 9, 10]"

theorem shared_key_charges_once:
  "map (\<lambda>i. map_sum (\<lambda>e. e) (\<lambda>p. (pm_status p, pm_amount p)) (find_payment (pw_service (run_ops pay_step (opening_world demo_service) two_merchants)) i)) [1, 2]
    = [Inr (SUCCEEDED, dollars 100), Inr (SUCCEEDED, dollars 70)]"
  "sg_moved (pw_gateway (run_ops pay_step (opening_world demo_service) two_merchants)) = [(''charge'', dollars 100)]"
  by code_simp+

end
