(* ===== verification/Lending.thy ===== *)
theory Lending
  imports Prelude "HOL-Library.AList" "HOL-Library.Sublist"
begin

text \<open>
  The lending library of \<open>python-low-level-design/library-management/library_management.py\<close>: catalog, members, loans, the FIFO
  waiting lists with holds, renewals and fines. Every public method runs under one lock, so it is one step; the date is an
  argument of the step. A copy is known by its barcode and a loan by its number, so \<open>active_loans\<close>, \<open>_active\<close> and \<open>_loans\<close>
  share one loan as in the code.
\<close>

declare split_paired_All [simp del] split_paired_Ex [simp del]

section \<open>Members, copies and loans\<close>

datatype lib_error = LibraryError | NotFoundError | NotAvailableError | BorrowingBlockedError

datatype ItemStatus = AVAILABLE | ON_LOAN | ON_HOLD | LOST

datatype MemberType = STUDENT | FACULTY | PUBLIC | PREMIUM

record membership =
  max_books :: nat
  loan_days :: int
  max_renewals :: nat

fun POLICIES :: "MemberType \<Rightarrow> membership" where
  "POLICIES STUDENT = \<lparr>max_books = 5, loan_days = 14, max_renewals = 2\<rparr>"
| "POLICIES FACULTY = \<lparr>max_books = 10, loan_days = 30, max_renewals = 2\<rparr>"
| "POLICIES PUBLIC = \<lparr>max_books = 3, loan_days = 7, max_renewals = 2\<rparr>"
| "POLICIES PREMIUM = \<lparr>max_books = 8, loan_days = 21, max_renewals = 2\<rparr>"

record book =
  bk_title :: string
  bk_author :: string
  bk_category :: string
  bk_year :: int

record book_item =
  it_isbn :: string
  it_rack :: string
  it_status :: ItemStatus

record loan =
  ln_barcode :: string
  ln_isbn :: string
  ln_member :: nat
  ln_borrowed :: int
  ln_due :: int
  ln_renewals :: nat
  ln_returned :: "int option"
  ln_fine :: rat

definition days_overdue :: "loan \<Rightarrow> int \<Rightarrow> int" where
  "days_overdue l today = max 0 (today - ln_due l)"

record hold =
  hd_member :: nat
  hd_expires :: int

record lib_member =
  mb_name :: string
  mb_type :: MemberType
  mb_loans :: "(string \<times> nat) list"
  mb_fine :: rat

definition mb_policy :: "lib_member \<Rightarrow> membership" where
  "mb_policy m = POLICIES (mb_type m)"

section \<open>Fines\<close>

datatype FineCalculator = StandardFine | ProgressiveFine "rat option"

fun standard_rate :: "MemberType \<Rightarrow> rat" where
  "standard_rate STUDENT = 1"
| "standard_rate FACULTY = 1 / 2"
| "standard_rate PUBLIC = 2"
| "standard_rate PREMIUM = 0"

text \<open>The loop over the tiers; no upper end is None.\<close>

fun tier_loop :: "int \<Rightarrow> (int option \<times> rat) list \<Rightarrow> rat \<Rightarrow> int \<Rightarrow> rat" where
  "tier_loop d [] fine prev = fine"
| "tier_loop d ((None, rate) # ts) fine prev = fine + rate * of_int (d - prev)"
| "tier_loop d ((Some bound, rate) # ts) fine prev =
     (if d \<le> bound then fine + rate * of_int (min d bound - prev) else tier_loop d ts (fine + rate * of_int (min d bound - prev)) bound)"

fun calculate_fine :: "FineCalculator \<Rightarrow> int \<Rightarrow> MemberType \<Rightarrow> rat" where
  "calculate_fine StandardFine d t = standard_rate t * of_int d"
| "calculate_fine (ProgressiveFine cap) d t =
     (if t = PREMIUM \<or> d \<le> 0 then 0
      else (let fine = tier_loop d [(Some 7, 1), (Some 30, 2), (None, 5)] 0 0 in (case cap of None \<Rightarrow> fine | Some c \<Rightarrow> min fine c)))"

section \<open>Catalog\<close>

record catalog =
  ct_books :: "(string \<times> book) list"
  ct_items :: "string \<rightharpoonup> book_item"
  ct_by_isbn :: "string \<rightharpoonup> string list"

definition new_catalog :: catalog where
  "new_catalog = \<lparr>ct_books = [], ct_items = Map.empty, ct_by_isbn = Map.empty\<rparr>"

definition add_book :: "catalog \<Rightarrow> string \<Rightarrow> book \<Rightarrow> catalog" where
  "add_book c isbn b =
     c\<lparr>ct_books := AList.update isbn b (ct_books c),
       ct_by_isbn := (if ct_by_isbn c isbn = None then (ct_by_isbn c)(isbn \<mapsto> []) else ct_by_isbn c)\<rparr>"

definition add_item :: "catalog \<Rightarrow> string \<Rightarrow> book_item \<Rightarrow> lib_error + catalog" where
  "add_item c barcode it =
     (if map_of (ct_books c) (it_isbn it) = None then Inl NotFoundError
      else if ct_items c barcode \<noteq> None then Inl LibraryError
      else Inr (c\<lparr>ct_items := (ct_items c)(barcode \<mapsto> it), ct_by_isbn := (ct_by_isbn c)(it_isbn it \<mapsto> the (ct_by_isbn c (it_isbn it)) @ [barcode])\<rparr>))"

definition items_for :: "catalog \<Rightarrow> string \<Rightarrow> lib_error + string list" where
  "items_for c isbn = (if map_of (ct_books c) isbn = None then Inl NotFoundError else Inr (the (ct_by_isbn c isbn)))"

text \<open>\<open>str.lower\<close> on ASCII letters, and \<open>q in s\<close> for strings.\<close>

definition lower_char :: "char \<Rightarrow> char" where
  "lower_char c = (if 65 \<le> (of_char c :: nat) \<and> (of_char c :: nat) \<le> 90 then char_of ((of_char c :: nat) + 32) else c)"

definition text_match :: "string \<Rightarrow> string \<Rightarrow> bool" where
  "text_match field query = sublist (map lower_char query) (map lower_char field)"

definition search :: "catalog \<Rightarrow> string \<Rightarrow> string \<Rightarrow> string \<Rightarrow> (string \<times> book) list" where
  "search c title author category =
     filter (\<lambda>x. text_match (bk_title (snd x)) title \<and> text_match (bk_author (snd x)) author \<and> text_match (bk_category (snd x)) category) (ct_books c)"

section \<open>The service\<close>

record library =
  lb_catalog :: catalog
  lb_fines :: FineCalculator
  lb_block :: rat
  lb_next :: nat
  lb_members :: "nat \<rightharpoonup> lib_member"
  lb_loans :: "nat \<rightharpoonup> loan"
  lb_active :: "string \<rightharpoonup> nat"
  lb_waitlist :: "string \<rightharpoonup> nat list"
  lb_holds :: "(string \<times> hold) list"

definition new_library :: "catalog \<Rightarrow> FineCalculator \<Rightarrow> rat \<Rightarrow> library" where
  "new_library c fines block = \<lparr>lb_catalog = c, lb_fines = fines, lb_block = block, lb_next = 1, lb_members = Map.empty, lb_loans = Map.empty,
     lb_active = Map.empty, lb_waitlist = Map.empty, lb_holds = []\<rparr>"

definition HOLD_DAYS :: int where
  "HOLD_DAYS = 3"

definition the_item :: "library \<Rightarrow> string \<Rightarrow> book_item" where
  "the_item s b = the (ct_items (lb_catalog s) b)"

definition set_status :: "library \<Rightarrow> string \<Rightarrow> ItemStatus \<Rightarrow> library" where
  "set_status s b st = s\<lparr>lb_catalog := (lb_catalog s)\<lparr>ct_items := (ct_items (lb_catalog s))(b \<mapsto> (the_item s b)\<lparr>it_status := st\<rparr>)\<rparr>\<rparr>"

definition waiting :: "library \<Rightarrow> string \<Rightarrow> nat list" where
  "waiting s isbn = (case lb_waitlist s isbn of None \<Rightarrow> [] | Some q \<Rightarrow> q)"

definition register_member :: "library \<Rightarrow> string \<Rightarrow> MemberType \<Rightarrow> library \<times> (lib_error + nat)" where
  "register_member s name t =
     (s\<lparr>lb_next := lb_next s + 1, lb_members := (lb_members s)(lb_next s \<mapsto> \<lparr>mb_name = name, mb_type = t, mb_loans = [], mb_fine = 0\<rparr>)\<rparr>, Inr (lb_next s))"

definition find_member :: "library \<Rightarrow> nat \<Rightarrow> lib_error + lib_member" where
  "find_member s m = (case lb_members s m of None \<Rightarrow> Inl NotFoundError | Some mb \<Rightarrow> Inr mb)"

definition active_loan :: "library \<Rightarrow> string \<Rightarrow> lib_error + nat" where
  "active_loan s b =
     (if ct_items (lb_catalog s) b = None then Inl NotFoundError
      else (case lb_active s b of None \<Rightarrow> Inl LibraryError | Some l \<Rightarrow> Inr l))"

definition the_loan :: "library \<Rightarrow> nat \<Rightarrow> loan" where
  "the_loan s l = the (lb_loans s l)"

definition overdue :: "library \<Rightarrow> lib_member \<Rightarrow> int \<Rightarrow> bool" where
  "overdue s mb today = list_ex (\<lambda>x. days_overdue (the_loan s (snd x)) today \<noteq> 0) (mb_loans mb)"

definition check_can_borrow :: "library \<Rightarrow> lib_member \<Rightarrow> int \<Rightarrow> lib_error + unit" where
  "check_can_borrow s mb today =
     (if max_books (mb_policy mb) \<le> length (mb_loans mb) then Inl BorrowingBlockedError
      else if lb_block s \<le> mb_fine mb then Inl BorrowingBlockedError
      else if overdue s mb today then Inl BorrowingBlockedError else Inr ())"

definition on_shelf :: "library \<Rightarrow> string \<Rightarrow> bool" where
  "on_shelf s b \<longleftrightarrow> it_status (the_item s b) = AVAILABLE"

definition first_available :: "library \<Rightarrow> string \<Rightarrow> lib_error + string option" where
  "first_available s isbn = bind_sum (items_for (lb_catalog s) isbn) (\<lambda>bs. Inr (find (on_shelf s) bs))"

definition held_item_for :: "library \<Rightarrow> nat \<Rightarrow> string \<Rightarrow> string option" where
  "held_item_for s m isbn = map_option fst (find (\<lambda>x. hd_member (snd x) = m \<and> it_isbn (the_item s (fst x)) = isbn) (lb_holds s))"

text \<open>\<open>_release\<close>: the copy is set aside for the first member waiting, or goes back on the shelf.\<close>

definition release_copy :: "library \<Rightarrow> string \<Rightarrow> int \<Rightarrow> library" where
  "release_copy s b today =
     (case waiting s (it_isbn (the_item s b)) of
        [] \<Rightarrow> set_status s b AVAILABLE
      | m # ms \<Rightarrow>
          (set_status s b ON_HOLD)\<lparr>lb_waitlist := (lb_waitlist s)(it_isbn (the_item s b) \<mapsto> ms),
            lb_holds := AList.update b \<lparr>hd_member = m, hd_expires = today + HOLD_DAYS\<rparr> (lb_holds s)\<rparr>)"

definition expire_hold :: "int \<Rightarrow> string \<Rightarrow> library \<Rightarrow> string \<times> hold \<Rightarrow> library" where
  "expire_hold today isbn s x =
     (if it_isbn (the_item s (fst x)) = isbn \<and> hd_expires (snd x) < today
      then release_copy (s\<lparr>lb_holds := AList.delete (fst x) (lb_holds s)\<rparr>) (fst x) today else s)"

definition expire_holds :: "library \<Rightarrow> int \<Rightarrow> string \<Rightarrow> library" where
  "expire_holds s today isbn = foldl (expire_hold today isbn) s (lb_holds s)"

definition available_copies :: "library \<Rightarrow> int \<Rightarrow> string \<Rightarrow> library \<times> (lib_error + nat)" where
  "available_copies s today isbn =
     (let s1 = expire_holds s today isbn in or_raise s1 (items_for (lb_catalog s1) isbn) (\<lambda>bs. (s1, Inr (length (filter (on_shelf s1) bs)))))"

text \<open>The end of \<open>borrow\<close>, the copy chosen.\<close>

definition lend :: "library \<Rightarrow> nat \<Rightarrow> lib_member \<Rightarrow> string \<Rightarrow> string \<Rightarrow> int \<Rightarrow> library" where
  "lend s m mb isbn b today =
     (let l = lb_next s
      in (set_status s b ON_LOAN)
           \<lparr>lb_next := l + 1, lb_members := (lb_members s)(m \<mapsto> mb\<lparr>mb_loans := AList.update b l (mb_loans mb)\<rparr>),
            lb_loans := (lb_loans s)(l \<mapsto> \<lparr>ln_barcode = b, ln_isbn = isbn, ln_member = m, ln_borrowed = today, ln_due = today + loan_days (mb_policy mb),
              ln_renewals = 0, ln_returned = None, ln_fine = 0\<rparr>),
            lb_active := (lb_active s)(b \<mapsto> l),
            lb_waitlist := (if m \<in> set (waiting s isbn) then (lb_waitlist s)(isbn \<mapsto> remove1 m (waiting s isbn)) else lb_waitlist s),
            lb_holds := AList.delete b (lb_holds s)\<rparr>)"

definition borrow :: "library \<Rightarrow> int \<Rightarrow> nat \<Rightarrow> string \<Rightarrow> library \<times> (lib_error + nat)" where
  "borrow s today m isbn =
     or_raise s (find_member s m) (\<lambda>mb.
     or_raise s (check_can_borrow s mb today) (\<lambda>_.
       (let s1 = expire_holds s today isbn
        in or_raise s1 (case held_item_for s1 m isbn of Some b \<Rightarrow> Inr (Some b) | None \<Rightarrow> first_available s1 isbn) (\<lambda>item.
             (case item of None \<Rightarrow> (s1, Inl NotAvailableError) | Some b \<Rightarrow> (lend s1 m mb isbn b today, Inr (lb_next s1)))))))"

text \<open>The part that \<open>return_item\<close> and \<open>report_lost\<close> share: the loan is closed with a fine.\<close>

definition close_loan :: "library \<Rightarrow> string \<Rightarrow> nat \<Rightarrow> int \<Rightarrow> rat \<Rightarrow> library" where
  "close_loan s b l today fine =
     (let ln = the_loan s l; mb = the (lb_members s (ln_member ln))
      in s\<lparr>lb_members := (lb_members s)(ln_member ln \<mapsto> mb\<lparr>mb_loans := AList.delete b (mb_loans mb), mb_fine := mb_fine mb + fine\<rparr>),
           lb_loans := (lb_loans s)(l \<mapsto> ln\<lparr>ln_returned := Some today, ln_fine := fine\<rparr>),
           lb_active := (lb_active s)(b := None)\<rparr>)"

definition return_item :: "library \<Rightarrow> int \<Rightarrow> string \<Rightarrow> library \<times> (lib_error + nat)" where
  "return_item s today b =
     or_raise s (active_loan s b) (\<lambda>l.
       (let ln = the_loan s l; mb = the (lb_members s (ln_member ln));
            s1 = close_loan s b l today (calculate_fine (lb_fines s) (days_overdue ln today) (mb_type mb))
        in (release_copy (expire_holds s1 today (it_isbn (the_item s1 b))) b today, Inr l)))"

definition renew :: "library \<Rightarrow> int \<Rightarrow> string \<Rightarrow> library \<times> (lib_error + nat)" where
  "renew s today b =
     or_raise s (active_loan s b) (\<lambda>l.
       (let ln = the_loan s l; mb = the (lb_members s (ln_member ln))
        in if 0 < days_overdue ln today then (s, Inl BorrowingBlockedError)
           else if max_renewals (mb_policy mb) \<le> ln_renewals ln then (s, Inl BorrowingBlockedError)
           else if waiting s (ln_isbn ln) \<noteq> [] then (s, Inl BorrowingBlockedError)
           else (s\<lparr>lb_loans := (lb_loans s)(l \<mapsto> ln\<lparr>ln_due := today + loan_days (mb_policy mb), ln_renewals := ln_renewals ln + 1\<rparr>)\<rparr>, Inr l)))"

definition report_lost :: "library \<Rightarrow> int \<Rightarrow> string \<Rightarrow> rat \<Rightarrow> library \<times> (lib_error + nat)" where
  "report_lost s today b cost =
     or_raise s (active_loan s b) (\<lambda>l. (set_status (close_loan s b l today cost) b LOST, Inr l))"

definition reserve :: "library \<Rightarrow> int \<Rightarrow> nat \<Rightarrow> string \<Rightarrow> library \<times> (lib_error + nat)" where
  "reserve s today m isbn =
     or_raise s (find_member s m) (\<lambda>mb.
       (let s1 = expire_holds s today isbn
        in or_raise s1 (items_for (lb_catalog s1) isbn) (\<lambda>bs.
             if list_ex (on_shelf s1) bs then (s1, Inl LibraryError)
             else (let q = waiting s1 isbn; s2 = s1\<lparr>lb_waitlist := (lb_waitlist s1)(isbn \<mapsto> q)\<rparr>
                   in if m \<in> set q \<or> held_item_for s2 m isbn \<noteq> None then (s2, Inl LibraryError)
                      else if list_ex (\<lambda>x. ln_isbn (the_loan s2 (snd x)) = isbn) (mb_loans mb) then (s2, Inl LibraryError)
                      else (s2\<lparr>lb_waitlist := (lb_waitlist s2)(isbn \<mapsto> q @ [m])\<rparr>, Inr (length q + 1))))))"

definition cancel_reservation :: "library \<Rightarrow> int \<Rightarrow> nat \<Rightarrow> string \<Rightarrow> library \<times> (lib_error + unit)" where
  "cancel_reservation s today m isbn =
     (if m \<in> set (waiting s isbn) then (s\<lparr>lb_waitlist := (lb_waitlist s)(isbn \<mapsto> remove1 m (waiting s isbn))\<rparr>, Inr ())
      else (case held_item_for s m isbn of
              None \<Rightarrow> (s, Inl NotFoundError)
            | Some b \<Rightarrow> (release_copy (s\<lparr>lb_holds := AList.delete b (lb_holds s)\<rparr>) b today, Inr ())))"

definition hold_for :: "library \<Rightarrow> int \<Rightarrow> nat \<Rightarrow> string \<Rightarrow> library \<times> (lib_error + hold option)" where
  "hold_for s today m isbn =
     (let s1 = expire_holds s today isbn in (s1, Inr (case held_item_for s1 m isbn of None \<Rightarrow> None | Some b \<Rightarrow> map_of (lb_holds s1) b)))"

definition pay_fine :: "library \<Rightarrow> nat \<Rightarrow> rat \<Rightarrow> library \<times> (lib_error + rat)" where
  "pay_fine s m amount =
     or_raise s (find_member s m) (\<lambda>mb.
       if amount \<le> 0 \<or> mb_fine mb < amount then (s, Inl LibraryError)
       else (s\<lparr>lb_members := (lb_members s)(m \<mapsto> mb\<lparr>mb_fine := mb_fine mb - amount\<rparr>)\<rparr>, Inr (mb_fine mb - amount)))"

datatype lib_op = Register string MemberType | Borrow nat string | Return string | Renew string | Report_lost string rat | Reserve nat string
  | Cancel nat string | Hold_for nat string | Available string | Pay_fine nat rat | Add_book string book | Add_item string string string

definition plain_answer :: "library \<times> (lib_error + 'a) \<Rightarrow> library \<times> (lib_error + unit)" where
  "plain_answer r = (fst r, map_sum id (\<lambda>_. ()) (snd r))"

text \<open>An operation on the day \<open>fst x\<close>. A new copy is \<open>AVAILABLE\<close>.\<close>

definition lib_step :: "library \<Rightarrow> int \<times> lib_op \<Rightarrow> library \<times> (lib_error + unit)" where
  "lib_step s x =
     (case snd x of
        Register name t \<Rightarrow> plain_answer (register_member s name t)
      | Borrow m isbn \<Rightarrow> plain_answer (borrow s (fst x) m isbn)
      | Return b \<Rightarrow> plain_answer (return_item s (fst x) b)
      | Renew b \<Rightarrow> plain_answer (renew s (fst x) b)
      | Report_lost b cost \<Rightarrow> plain_answer (report_lost s (fst x) b cost)
      | Reserve m isbn \<Rightarrow> plain_answer (reserve s (fst x) m isbn)
      | Cancel m isbn \<Rightarrow> plain_answer (cancel_reservation s (fst x) m isbn)
      | Hold_for m isbn \<Rightarrow> plain_answer (hold_for s (fst x) m isbn)
      | Available isbn \<Rightarrow> plain_answer (available_copies s (fst x) isbn)
      | Pay_fine m amount \<Rightarrow> plain_answer (pay_fine s m amount)
      | Add_book isbn b \<Rightarrow> (s\<lparr>lb_catalog := add_book (lb_catalog s) isbn b\<rparr>, Inr ())
      | Add_item b isbn rack \<Rightarrow>
          (case add_item (lb_catalog s) b \<lparr>it_isbn = isbn, it_rack = rack, it_status = AVAILABLE\<rparr> of
             Inl e \<Rightarrow> (s, Inl e) | Inr c \<Rightarrow> (s\<lparr>lb_catalog := c\<rparr>, Inr ())))"

end
