(* ===== verification/Lending_Safety.thy ===== *)
theory Lending_Safety
  imports Lending
begin

text \<open>
  Invariants of \<open>Lending\<close>: every copy is in one place, loans and members agree, a member waits once for a title and neither
  holds nor has it meanwhile, and while members wait for a title none of its copies is on the shelf.
\<close>

declare split_paired_All [simp del] split_paired_Ex [simp del]

section \<open>Updates and what they leave alone\<close>

abbreviation items :: "library \<Rightarrow> string \<rightharpoonup> book_item" where
  "items s \<equiv> ct_items (lb_catalog s)"

definition isbn_of :: "library \<Rightarrow> string \<Rightarrow> string" where
  "isbn_of s b = it_isbn (the_item s b)"

lemma set_status_simps [simp]:
  "items (set_status s b st) = (items s)(b \<mapsto> (the_item s b)\<lparr>it_status := st\<rparr>)" "lb_members (set_status s b st) = lb_members s"
  "lb_loans (set_status s b st) = lb_loans s" "lb_active (set_status s b st) = lb_active s" "lb_waitlist (set_status s b st) = lb_waitlist s"
  "lb_holds (set_status s b st) = lb_holds s" "lb_next (set_status s b st) = lb_next s" "ct_books (lb_catalog (set_status s b st)) = ct_books (lb_catalog s)"
  "ct_by_isbn (lb_catalog (set_status s b st)) = ct_by_isbn (lb_catalog s)" "lb_fines (set_status s b st) = lb_fines s" "lb_block (set_status s b st) = lb_block s"
  by (simp_all add: set_status_def)

lemma isbn_of_status [simp]: "isbn_of (set_status s b st) c = isbn_of s c"
  by (simp add: isbn_of_def the_item_def set_status_def)

lemma isbn_of_update [simp]:
  "isbn_of (s\<lparr>lb_members := x1\<rparr>) c = isbn_of s c" "isbn_of (s\<lparr>lb_loans := x2\<rparr>) c = isbn_of s c" "isbn_of (s\<lparr>lb_active := x3\<rparr>) c = isbn_of s c"
  "isbn_of (s\<lparr>lb_waitlist := x4\<rparr>) c = isbn_of s c" "isbn_of (s\<lparr>lb_holds := x5\<rparr>) c = isbn_of s c" "isbn_of (s\<lparr>lb_next := x6\<rparr>) c = isbn_of s c"
  by (simp_all add: isbn_of_def the_item_def)

lemma waiting_update [simp]:
  "waiting (s\<lparr>lb_members := x1\<rparr>) i = waiting s i" "waiting (s\<lparr>lb_loans := x2\<rparr>) i = waiting s i" "waiting (s\<lparr>lb_active := x3\<rparr>) i = waiting s i"
  "waiting (s\<lparr>lb_holds := x5\<rparr>) i = waiting s i" "waiting (s\<lparr>lb_next := x6\<rparr>) i = waiting s i" "waiting (set_status s b st) i = waiting s i"
  "waiting (s\<lparr>lb_catalog := c\<rparr>) i = waiting s i" "waiting (s\<lparr>lb_waitlist := (lb_waitlist s)(k \<mapsto> q)\<rparr>) i = (if i = k then q else waiting s i)"
  by (simp_all add: waiting_def)

text \<open>The loans, the members and the titles stay as they are.\<close>

definition same_loans :: "library \<Rightarrow> library \<Rightarrow> bool" where
  "same_loans s u \<longleftrightarrow> lb_members u = lb_members s \<and> lb_loans u = lb_loans s \<and> lb_active u = lb_active s \<and> lb_next u = lb_next s
     \<and> (\<forall>b. isbn_of u b = isbn_of s b) \<and> (\<forall>b. (items u b = None) = (items s b = None)) \<and> ct_books (lb_catalog u) = ct_books (lb_catalog s)
     \<and> ct_by_isbn (lb_catalog u) = ct_by_isbn (lb_catalog s) \<and> lb_fines u = lb_fines s \<and> lb_block u = lb_block s"

lemma same_loans_refl [simp]: "same_loans s s"
  by (simp add: same_loans_def)

lemma same_loans_trans: "same_loans s t \<Longrightarrow> same_loans t u \<Longrightarrow> same_loans s u"
  by (simp add: same_loans_def)

lemma same_loansD:
  assumes "same_loans s u"
  shows "lb_members u = lb_members s" "lb_loans u = lb_loans s" "lb_active u = lb_active s" "lb_next u = lb_next s" "isbn_of u b = isbn_of s b"
    "items u b = None \<longleftrightarrow> items s b = None" "ct_books (lb_catalog u) = ct_books (lb_catalog s)" "ct_by_isbn (lb_catalog u) = ct_by_isbn (lb_catalog s)"
  using assms by (simp_all add: same_loans_def)

lemma release_same_loans:
  assumes "items s b \<noteq> None"
  shows "same_loans s (release_copy s b today)"
  using assms unfolding same_loans_def release_copy_def
  by (cases "waiting s (it_isbn (the_item s b))") (auto simp: isbn_of_def [symmetric])

section \<open>The invariant\<close>

definition titles_ok :: "library \<Rightarrow> bool" where
  "titles_ok s \<longleftrightarrow> (\<forall>b. items s b \<noteq> None \<longrightarrow> (\<exists>bs. ct_by_isbn (lb_catalog s) (isbn_of s b) = Some bs \<and> b \<in> set bs))
     \<and> (\<forall>i bs b. ct_by_isbn (lb_catalog s) i = Some bs \<and> b \<in> set bs \<longrightarrow> items s b \<noteq> None \<and> isbn_of s b = i)
     \<and> (\<forall>i. map_of (ct_books (lb_catalog s)) i = None \<longleftrightarrow> ct_by_isbn (lb_catalog s) i = None)"

text \<open>The copies in \<open>X\<close> are between two places; of all others the status says where they are.\<close>

definition copies_ok :: "string set \<Rightarrow> library \<Rightarrow> bool" where
  "copies_ok X s \<longleftrightarrow>
     (\<forall>b it. items s b = Some it \<and> b \<notin> X \<longrightarrow>
        (it_status it = ON_LOAN \<longleftrightarrow> lb_active s b \<noteq> None) \<and> (it_status it = ON_HOLD \<longleftrightarrow> map_of (lb_holds s) b \<noteq> None))
     \<and> (\<forall>b \<in> X. items s b \<noteq> None \<and> lb_active s b = None \<and> map_of (lb_holds s) b = None)
     \<and> distinct (map fst (lb_holds s))
     \<and> (\<forall>b h. map_of (lb_holds s) b = Some h \<longrightarrow> items s b \<noteq> None \<and> lb_members s (hd_member h) \<noteq> None)"

definition loan_of :: "library \<Rightarrow> string \<Rightarrow> nat \<Rightarrow> loan \<Rightarrow> lib_member \<Rightarrow> bool" where
  "loan_of s b l lo mb \<longleftrightarrow> items s b \<noteq> None \<and> lb_loans s l = Some lo \<and> ln_barcode lo = b \<and> ln_isbn lo = isbn_of s b \<and> ln_returned lo = None
     \<and> lb_members s (ln_member lo) = Some mb \<and> map_of (mb_loans mb) b = Some l \<and> ln_renewals lo \<le> max_renewals (mb_policy mb)"

definition loans_ok :: "library \<Rightarrow> bool" where
  "loans_ok s \<longleftrightarrow>
     (\<forall>b l. lb_active s b = Some l \<longrightarrow> (\<exists>lo mb. loan_of s b l lo mb))
     \<and> (\<forall>m mb b l. lb_members s m = Some mb \<and> map_of (mb_loans mb) b = Some l \<longrightarrow> lb_active s b = Some l \<and> ln_member (the_loan s l) = m)
     \<and> (\<forall>m mb. lb_members s m = Some mb \<longrightarrow> m < lb_next s \<and> distinct (map fst (mb_loans mb)) \<and> length (mb_loans mb) \<le> max_books (mb_policy mb))
     \<and> (\<forall>l. lb_loans s l \<noteq> None \<longrightarrow> l < lb_next s)"

definition waits_ok :: "library \<Rightarrow> bool" where
  "waits_ok s \<longleftrightarrow> (\<forall>i. distinct (waiting s i) \<and> (\<forall>m \<in> set (waiting s i). lb_members s m \<noteq> None
     \<and> (\<forall>b h. map_of (lb_holds s) b = Some h \<and> hd_member h = m \<longrightarrow> isbn_of s b \<noteq> i)
     \<and> (\<forall>mb b l. lb_members s m = Some mb \<and> map_of (mb_loans mb) b = Some l \<longrightarrow> isbn_of s b \<noteq> i)))"

definition queue_ok :: "string set \<Rightarrow> library \<Rightarrow> bool" where
  "queue_ok X s \<longleftrightarrow> (\<forall>b it. items s b = Some it \<and> b \<notin> X \<and> it_status it = AVAILABLE \<longrightarrow> waiting s (it_isbn it) = [])"

definition lib_ok :: "string set \<Rightarrow> library \<Rightarrow> bool" where
  "lib_ok X s \<longleftrightarrow> titles_ok s \<and> copies_ok X s \<and> loans_ok s \<and> waits_ok s"

lemma lib_okD: "lib_ok X s \<Longrightarrow> titles_ok s" "lib_ok X s \<Longrightarrow> copies_ok X s" "lib_ok X s \<Longrightarrow> loans_ok s" "lib_ok X s \<Longrightarrow> waits_ok s"
  by (simp_all add: lib_ok_def)

lemma same_loans_ok: "same_loans s u \<Longrightarrow> titles_ok s \<Longrightarrow> titles_ok u" "same_loans s u \<Longrightarrow> loans_ok s \<Longrightarrow> loans_ok u"
proof -
  assume s: "same_loans s u"
  note e = same_loansD [OF s]
  show "titles_ok s \<Longrightarrow> titles_ok u" unfolding titles_ok_def e by blast
  have "loan_of u = loan_of s" by (simp add: fun_eq_iff loan_of_def e)
  moreover have "the_loan u = the_loan s" by (simp add: fun_eq_iff the_loan_def e)
  ultimately have "loans_ok u = loans_ok s" by (simp add: loans_ok_def e)
  then show "loans_ok s \<Longrightarrow> loans_ok u" by simp
qed

lemma copies_okD:
  assumes "copies_ok X s"
  shows "items s b = Some it \<Longrightarrow> b \<notin> X \<Longrightarrow> it_status it = ON_LOAN \<longleftrightarrow> lb_active s b \<noteq> None"
    "items s b = Some it \<Longrightarrow> b \<notin> X \<Longrightarrow> it_status it = ON_HOLD \<longleftrightarrow> map_of (lb_holds s) b \<noteq> None"
    "b \<in> X \<Longrightarrow> items s b \<noteq> None" "b \<in> X \<Longrightarrow> lb_active s b = None" "b \<in> X \<Longrightarrow> map_of (lb_holds s) b = None" "distinct (map fst (lb_holds s))"
    "map_of (lb_holds s) b = Some h \<Longrightarrow> items s b \<noteq> None" "map_of (lb_holds s) b = Some h \<Longrightarrow> lb_members s (hd_member h) \<noteq> None"
  using assms unfolding copies_ok_def by blast+

lemma waits_okD:
  assumes "waits_ok s"
  shows "distinct (waiting s i)" "m \<in> set (waiting s i) \<Longrightarrow> lb_members s m \<noteq> None"
    "m \<in> set (waiting s i) \<Longrightarrow> map_of (lb_holds s) b = Some h \<Longrightarrow> hd_member h = m \<Longrightarrow> isbn_of s b \<noteq> i"
    "m \<in> set (waiting s i) \<Longrightarrow> lb_members s m = Some mb \<Longrightarrow> map_of (mb_loans mb) b = Some l \<Longrightarrow> isbn_of s b \<noteq> i"
  using assms unfolding waits_ok_def by blast+

text \<open>Fewer members waiting, fewer holds and fewer loans.\<close>

lemma waits_ok_fewer:
  assumes w: "waits_ok s" and q: "\<And>i. distinct (waiting u i)" "\<And>i. set (waiting u i) \<subseteq> set (waiting s i)"
    and h: "\<And>b x. map_of (lb_holds u) b = Some x \<Longrightarrow> map_of (lb_holds s) b = Some x"
    and m: "\<And>k. lb_members s k \<noteq> None \<Longrightarrow> lb_members u k \<noteq> None"
    and l: "\<And>k mb b l. lb_members u k = Some mb \<Longrightarrow> map_of (mb_loans mb) b = Some l \<Longrightarrow> \<exists>mc. lb_members s k = Some mc \<and> map_of (mb_loans mc) b = Some l"
    and i: "\<And>b. isbn_of u b = isbn_of s b"
  shows "waits_ok u"
  unfolding waits_ok_def
proof (intro allI conjI ballI impI)
  fix j show "distinct (waiting u j)" by (rule q(1))
  fix k assume "k \<in> set (waiting u j)"
  then have k: "k \<in> set (waiting s j)" using q(2) by blast
  show "lb_members u k \<noteq> None" by (rule m [OF waits_okD(2) [OF w k]])
  fix b x assume "map_of (lb_holds u) b = Some x \<and> hd_member x = k"
  then show "isbn_of u b \<noteq> j" using waits_okD(3) [OF w k, of b x] h i by simp
next
  fix j k mb b l' assume "k \<in> set (waiting u j)" and mb: "lb_members u k = Some mb \<and> map_of (mb_loans mb) b = Some l'"
  then have k: "k \<in> set (waiting s j)" using q(2) by blast
  from mb obtain mc where "lb_members s k = Some mc" "map_of (mb_loans mc) b = Some l'" using l by blast
  then show "isbn_of u b \<noteq> j" using waits_okD(4) [OF w k] i by simp
qed

section \<open>Releasing a copy\<close>

lemma release_copy_ok:
  assumes ok: "lib_ok (insert b X) s" and b: "b \<notin> X"
  shows "lib_ok X (release_copy s b today)"
proof -
  note o = lib_okD [OF ok]
  note c = copies_okD [OF o(2)]
  note w = waits_okD [OF o(4)]
  have known: "items s b \<noteq> None" by (rule c(3)) simp
  let ?u = "release_copy s b today"
  have sl: "same_loans s ?u" by (rule release_same_loans [OF known])
  note e = same_loansD [OF sl]
  have "copies_ok X ?u \<and> waits_ok ?u"
  proof (cases "waiting s (isbn_of s b)")
    case Nil
    then have u: "?u = set_status s b AVAILABLE" by (simp add: release_copy_def isbn_of_def)
    have "copies_ok X ?u"
      unfolding copies_ok_def
    proof (intro conjI allI impI ballI)
      fix d it assume d: "items ?u d = Some it \<and> d \<notin> X"
      show "(it_status it = ON_LOAN) = (lb_active ?u d \<noteq> None)" "(it_status it = ON_HOLD) = (map_of (lb_holds ?u) d \<noteq> None)"
        using d c(1,2) [of d it] c(4,5) [of b] by (cases "d = b"; force simp: u)+
    next
      fix d assume d: "d \<in> X"
      then show "items ?u d \<noteq> None" "lb_active ?u d = None" "map_of (lb_holds ?u) d = None" using c(3-5) [of d] by (simp_all add: u)
    next
      fix d h assume "map_of (lb_holds ?u) d = Some h"
      then show "items ?u d \<noteq> None" "lb_members ?u (hd_member h) \<noteq> None" using c(7,8) [of d h] by (simp_all add: u)
    qed (use c(6) in \<open>simp add: u\<close>)
    moreover have "waits_ok ?u = waits_ok s" by (simp add: waits_ok_def u)
    with o(4) have "waits_ok ?u" by simp
    ultimately show ?thesis by simp
  next
    case (Cons m ms)
    then have u: "?u = (set_status s b ON_HOLD)\<lparr>lb_waitlist := (lb_waitlist s)(isbn_of s b \<mapsto> ms),
        lb_holds := AList.update b \<lparr>hd_member = m, hd_expires = today + HOLD_DAYS\<rparr> (lb_holds s)\<rparr>"
      by (simp add: release_copy_def isbn_of_def)
    have h: "map_of (lb_holds ?u) = (map_of (lb_holds s))(b \<mapsto> \<lparr>hd_member = m, hd_expires = today + HOLD_DAYS\<rparr>)"
      by (simp add: u update_conv' fun_eq_iff)
    have it: "items ?u = (items s)(b \<mapsto> (the_item s b)\<lparr>it_status := ON_HOLD\<rparr>)" "lb_active ?u = lb_active s" "lb_members ?u = lb_members s" by (simp_all add: u)
    have wt: "waiting ?u i = (if i = isbn_of s b then ms else waiting s i)" for i by (simp add: u waiting_def)
    have "copies_ok X ?u"
      unfolding copies_ok_def h it
    proof (intro conjI allI impI ballI)
      fix d x assume d: "((items s)(b \<mapsto> (the_item s b)\<lparr>it_status := ON_HOLD\<rparr>)) d = Some x \<and> d \<notin> X"
      show "(it_status x = ON_LOAN) = (lb_active s d \<noteq> None)"
        "(it_status x = ON_HOLD) = (((map_of (lb_holds s))(b \<mapsto> \<lparr>hd_member = m, hd_expires = today + HOLD_DAYS\<rparr>)) d \<noteq> None)"
        using d c(1,2) [of d x] c(4,5) [of b] by (cases "d = b"; force)+
    next
      fix d assume d: "d \<in> X"
      then have "d \<noteq> b" using b by blast
      then show "((items s)(b \<mapsto> (the_item s b)\<lparr>it_status := ON_HOLD\<rparr>)) d \<noteq> None" "lb_active s d = None"
        "((map_of (lb_holds s))(b \<mapsto> \<lparr>hd_member = m, hd_expires = today + HOLD_DAYS\<rparr>)) d = None" using d c(3-5) [of d] by simp_all
    next
      fix d x assume d: "((map_of (lb_holds s))(b \<mapsto> \<lparr>hd_member = m, hd_expires = today + HOLD_DAYS\<rparr>)) d = Some x"
      show "((items s)(b \<mapsto> (the_item s b)\<lparr>it_status := ON_HOLD\<rparr>)) d \<noteq> None" "lb_members s (hd_member x) \<noteq> None"
        using d c(7,8) [of d x] w(2) [of m "isbn_of s b"] Cons by (cases "d = b"; force)+
    qed (use c(6) in \<open>simp add: u distinct_update\<close>)
    moreover have "waits_ok ?u"
      unfolding waits_ok_def
    proof (intro allI conjI ballI impI)
      fix i show "distinct (waiting ?u i)" using w(1) [of i] Cons by (auto simp: wt)
      fix k assume k: "k \<in> set (waiting ?u i)"
      then have k': "k \<in> set (waiting s i)" using Cons by (auto simp: wt split: if_splits)
      show "lb_members ?u k \<noteq> None" using w(2) [OF k'] it by simp
      fix d x assume x: "map_of (lb_holds ?u) d = Some x \<and> hd_member x = k"
      show "isbn_of ?u d \<noteq> i"
      proof (cases "d = b")
        case True
        then have "k = m" using x by (auto simp: h)
        moreover have "distinct (m # ms)" using w(1) [of "isbn_of s b"] Cons by simp
        ultimately show ?thesis using k True by (auto simp: wt e(5))
      next
        case False
        then show ?thesis using w(3) [OF k', of d x] x by (simp add: h e(5))
      qed
    next
      fix i k mb d l assume k: "k \<in> set (waiting ?u i)" and l: "lb_members ?u k = Some mb \<and> map_of (mb_loans mb) d = Some l"
      then have k': "k \<in> set (waiting s i)" using Cons by (auto simp: wt split: if_splits)
      show "isbn_of ?u d \<noteq> i" using w(4) [OF k', of mb d l] l by (simp add: e(3,5) it)
    qed
    ultimately show ?thesis by simp
  qed
  then show ?thesis using same_loans_ok [OF sl] o by (simp add: lib_ok_def)
qed

lemma release_queue_ok:
  assumes "queue_ok (insert b X) s"
  shows "queue_ok X (release_copy s b today)"
proof (cases "waiting s (isbn_of s b)")
  case Nil
  then show ?thesis using assms by (auto simp: queue_ok_def release_copy_def isbn_of_def split: if_splits)
next
  case (Cons m ms)
  have "waiting (release_copy s b today) i \<noteq> [] \<longrightarrow> waiting s i \<noteq> []" for i using Cons by (auto simp: release_copy_def isbn_of_def waiting_def)
  then show ?thesis using assms Cons unfolding queue_ok_def by (auto simp: release_copy_def isbn_of_def split: if_splits)
qed

section \<open>Expiry of holds\<close>

lemma drop_hold_ok:
  assumes ok: "lib_ok X s" and b: "map_of (lb_holds s) b \<noteq> None"
  shows "lib_ok (insert b X) (s\<lparr>lb_holds := AList.delete b (lb_holds s)\<rparr>)" "b \<notin> X" "items s b \<noteq> None"
proof -
  note o = lib_okD [OF ok]
  note c = copies_okD [OF o(2)]
  let ?u = "s\<lparr>lb_holds := AList.delete b (lb_holds s)\<rparr>"
  show nb: "b \<notin> X" using b c(5) [of b] by auto
  show known: "items s b \<noteq> None" using b c(7) [of b] by auto
  then obtain it where it: "items s b = Some it" by blast
  have act: "lb_active s b = None" using c(1,2) [OF it nb] b by auto
  have h: "map_of (AList.delete b (lb_holds s)) = (map_of (lb_holds s))(b := None)" by (simp add: delete_conv' fun_eq_iff)
  have "copies_ok (insert b X) ?u"
    unfolding copies_ok_def
  proof (intro conjI allI impI ballI)
    fix d x assume "items ?u d = Some x \<and> d \<notin> insert b X"
    then show "(it_status x = ON_LOAN) = (lb_active ?u d \<noteq> None)" "(it_status x = ON_HOLD) = (map_of (lb_holds ?u) d \<noteq> None)"
      using c(1,2) [of d x] by (simp_all add: h)
  next
    fix d assume "d \<in> insert b X"
    then show "items ?u d \<noteq> None" "lb_active ?u d = None" "map_of (lb_holds ?u) d = None"
      using c(3-5) [of d] known act by (cases "d = b"; simp add: h)+
  next
    fix d x assume "map_of (lb_holds ?u) d = Some x"
    then show "items ?u d \<noteq> None" "lb_members ?u (hd_member x) \<noteq> None" using c(7,8) [of d x] by (simp_all add: h split: if_splits)
  qed (use c(6) in \<open>simp add: distinct_delete\<close>)
  moreover have "waits_ok ?u"
    by (rule waits_ok_fewer [OF o(4)]) (use waits_okD(1) [OF o(4)] in \<open>auto simp: h split: if_splits\<close>)
  moreover have "same_loans s ?u" by (simp add: same_loans_def)
  ultimately show "lib_ok (insert b X) ?u" using same_loans_ok o by (simp add: lib_ok_def)
qed

lemma release_holds: "d \<noteq> b \<Longrightarrow> map_of (lb_holds (release_copy s b today)) d = map_of (lb_holds s) d"
  by (simp add: release_copy_def update_conv' split: list.splits)

lemma expire_list_ok:
  assumes "lib_ok X s" "distinct (map fst xs)" "\<And>x. x \<in> set xs \<Longrightarrow> map_of (lb_holds s) (fst x) \<noteq> None"
  shows "lib_ok X (foldl (expire_hold today isbn) s xs) \<and> same_loans s (foldl (expire_hold today isbn) s xs)
    \<and> (queue_ok X s \<longrightarrow> queue_ok X (foldl (expire_hold today isbn) s xs))"
  using assms
proof (induction xs arbitrary: s)
  case (Cons x xs)
  show ?case
  proof (cases "it_isbn (the_item s (fst x)) = isbn \<and> hd_expires (snd x) < today")
    case False
    then have "expire_hold today isbn s x = s" by (auto simp: expire_hold_def)
    then show ?thesis using Cons.IH [OF Cons.prems(1)] Cons.prems(2,3) by simp
  next
    case True
    let ?s = "s\<lparr>lb_holds := AList.delete (fst x) (lb_holds s)\<rparr>"
    let ?u = "release_copy ?s (fst x) today"
    have e: "expire_hold today isbn s x = ?u" using True by (simp add: expire_hold_def)
    have h: "map_of (lb_holds s) (fst x) \<noteq> None" using Cons.prems(3) by simp
    note d = drop_hold_ok [OF Cons.prems(1) h]
    have ok: "lib_ok X ?u" by (rule release_copy_ok [OF d(1,2)])
    have "items ?s (fst x) \<noteq> None" using d(3) by simp
    then have sl: "same_loans s ?u" using release_same_loans [of ?s "fst x" today] by (simp add: same_loans_def)
    have keep: "map_of (lb_holds ?u) (fst y) \<noteq> None" if "y \<in> set xs" for y
    proof -
      have "fst x \<notin> fst ` set xs" using Cons.prems(2) by simp
      then have "fst y \<noteq> fst x" using that by (metis image_eqI)
      then show ?thesis using Cons.prems(3) [of y] that release_holds [of "fst y" "fst x" ?s today] by (simp add: delete_conv')
    qed
    have q: "queue_ok X ?u" if "queue_ok X s"
      by (rule release_queue_ok) (use that in \<open>auto simp: queue_ok_def\<close>)
    show ?thesis using Cons.IH [OF ok _ keep] Cons.prems(2) same_loans_trans [OF sl] q by (simp add: e)
  qed
qed simp

lemma expire_ok:
  assumes "lib_ok X s"
  shows "lib_ok X (expire_holds s today isbn)" "same_loans s (expire_holds s today isbn)" "queue_ok X s \<Longrightarrow> queue_ok X (expire_holds s today isbn)"
proof -
  note c = copies_okD [OF lib_okD(2) [OF assms]]
  have "map_of (lb_holds s) (fst x) \<noteq> None" if "x \<in> set (lb_holds s)" for x using that by (auto simp: map_of_eq_None_iff)
  note l = expire_list_ok [OF assms c(6) this, of today isbn]
  show "lib_ok X (expire_holds s today isbn)" "same_loans s (expire_holds s today isbn)" "queue_ok X s \<Longrightarrow> queue_ok X (expire_holds s today isbn)"
    using l by (simp_all add: expire_holds_def)
qed

section \<open>Closing and opening a loan\<close>

lemma loans_okD:
  assumes "loans_ok s"
  shows "lb_active s b = Some l \<Longrightarrow> \<exists>lo mb. loan_of s b l lo mb"
    "lb_members s m = Some mb \<Longrightarrow> map_of (mb_loans mb) b = Some l \<Longrightarrow> lb_active s b = Some l"
    "lb_members s m = Some mb \<Longrightarrow> map_of (mb_loans mb) b = Some l \<Longrightarrow> ln_member (the_loan s l) = m"
    "lb_members s m = Some mb \<Longrightarrow> m < lb_next s" "lb_members s m = Some mb \<Longrightarrow> distinct (map fst (mb_loans mb))"
    "lb_members s m = Some mb \<Longrightarrow> length (mb_loans mb) \<le> max_books (mb_policy mb)" "lb_loans s l \<noteq> None \<Longrightarrow> l < lb_next s"
  using assms unfolding loans_ok_def by blast+

lemma loan_ofD:
  assumes "loan_of s b l lo mb"
  shows "items s b \<noteq> None" "lb_loans s l = Some lo" "ln_barcode lo = b" "ln_isbn lo = isbn_of s b" "ln_returned lo = None"
    "lb_members s (ln_member lo) = Some mb" "map_of (mb_loans mb) b = Some l" "ln_renewals lo \<le> max_renewals (mb_policy mb)"
  using assms by (simp_all add: loan_of_def)

lemma delete_length: "length (AList.delete k xs) \<le> length xs"
  by (simp add: AList.delete_eq)

lemma titles_ok_same:
  assumes "titles_ok s" "\<And>b. items u b = None \<longleftrightarrow> items s b = None" "\<And>b. isbn_of u b = isbn_of s b"
    "ct_by_isbn (lb_catalog u) = ct_by_isbn (lb_catalog s)" "ct_books (lb_catalog u) = ct_books (lb_catalog s)"
  shows "titles_ok u"
  using assms(1) unfolding titles_ok_def assms(2-5) .

lemma close_loan_ok:
  assumes ok: "lib_ok {} s" and a: "lb_active s b = Some l"
  shows "lib_ok {b} (close_loan s b l today fine)" "queue_ok {} s \<Longrightarrow> queue_ok {b} (close_loan s b l today fine)"
proof -
  note o = lib_okD [OF ok]
  note c = copies_okD [OF o(2)]
  note k = loans_okD [OF o(3)]
  obtain lo mb where lo: "loan_of s b l lo mb" using k(1) [OF a] by blast
  note f = loan_ofD [OF lo]
  obtain it where it: "items s b = Some it" using f(1) by blast
  have hold: "map_of (lb_holds s) b = None" using c(1,2) [OF it] a by auto
  let ?m = "ln_member lo"
  let ?mb = "mb\<lparr>mb_loans := AList.delete b (mb_loans mb), mb_fine := mb_fine mb + fine\<rparr>"
  let ?lo = "lo\<lparr>ln_returned := Some today, ln_fine := fine\<rparr>"
  let ?u = "close_loan s b l today fine"
  have u: "?u = s\<lparr>lb_members := (lb_members s)(?m \<mapsto> ?mb), lb_loans := (lb_loans s)(l \<mapsto> ?lo), lb_active := (lb_active s)(b := None)\<rparr>"
    using f(2,6) by (simp add: close_loan_def the_loan_def Let_def)
  have fields: "items ?u = items s" "lb_members ?u = (lb_members s)(?m \<mapsto> ?mb)" "lb_loans ?u = (lb_loans s)(l \<mapsto> ?lo)" "lb_active ?u = (lb_active s)(b := None)"
    "lb_holds ?u = lb_holds s" "lb_next ?u = lb_next s" "isbn_of ?u d = isbn_of s d" "waiting ?u i = waiting s i" for d i
    by (simp_all add: u)
  have del: "map_of (mb_loans ?mb) = (map_of (mb_loans mb))(b := None)" by (simp add: delete_conv' fun_eq_iff)
  have "titles_ok ?u" using o(1) by (rule titles_ok_same) (simp_all add: fields u)
  moreover have "copies_ok {b} ?u"
    unfolding copies_ok_def fields
  proof (intro conjI allI impI ballI)
    fix d x assume d: "items s d = Some x \<and> d \<notin> {b}"
    show "(it_status x = ON_LOAN) = (((lb_active s)(b := None)) d \<noteq> None)" using c(1) [of d x] d by simp
    show "(it_status x = ON_HOLD) = (map_of (lb_holds s) d \<noteq> None)" using c(2) [of d x] d by simp
  next
    fix d x assume "map_of (lb_holds s) d = Some x"
    then show "items s d \<noteq> None" "((lb_members s)(?m \<mapsto> ?mb)) (hd_member x) \<noteq> None" using c(7,8) [of d x] by auto
  qed (use f(1) hold c(6) in simp_all)
  moreover have "loans_ok ?u"
    unfolding loans_ok_def
  proof (intro conjI allI impI)
    fix d l' assume d: "lb_active ?u d = Some l'"
    then have d': "d \<noteq> b" "lb_active s d = Some l'" by (simp_all add: fields split: if_splits)
    obtain ln' mb' where x: "loan_of s d l' ln' mb'" using k(1) [OF d'(2)] by blast
    note g = loan_ofD [OF x]
    have "l' \<noteq> l" using g(2,3) f(2,3) d'(1) by auto
    show "\<exists>lo mb. loan_of ?u d l' lo mb"
    proof (cases "ln_member ln' = ?m")
      case True
      then have "mb' = mb" using g(6) f(6) by simp
      then have "loan_of ?u d l' ln' ?mb" using g d'(1) \<open>l' \<noteq> l\<close> True unfolding loan_of_def fields del by (simp add: mb_policy_def)
      then show ?thesis by blast
    next
      case False
      then have "loan_of ?u d l' ln' mb'" using g d'(1) \<open>l' \<noteq> l\<close> unfolding loan_of_def fields by simp
      then show ?thesis by blast
    qed
  next
    fix m mb' d l' assume x: "lb_members ?u m = Some mb' \<and> map_of (mb_loans mb') d = Some l'"
    have "\<exists>mc. lb_members s m = Some mc \<and> map_of (mb_loans mc) d = Some l' \<and> d \<noteq> b"
    proof (cases "m = ?m")
      case True
      then have "mb' = ?mb" using x by (simp add: fields)
      then show ?thesis using x True f(6) del by (simp split: if_splits)
    next
      case False
      then have at: "lb_members s m = Some mb'" using x by (simp add: fields)
      have "d \<noteq> b"
      proof
        assume "d = b"
        then have "l' = l" "ln_member (the_loan s l') = m" using k(2,3) [OF at] x a by auto
        then show False using False f(2) by (simp add: the_loan_def)
      qed
      then show ?thesis using at x by blast
    qed
    then obtain mc where mc: "lb_members s m = Some mc" "map_of (mb_loans mc) d = Some l'" "d \<noteq> b" by blast
    then show "lb_active ?u d = Some l'" using k(2) by (simp add: fields)
    then have "lb_active s d = Some l'" by (simp add: fields split: if_splits)
    then obtain ln' mb'' where "loan_of s d l' ln' mb''" using k(1) by blast
    note g = loan_ofD [OF this]
    have "l' \<noteq> l" using g(2,3) f(2,3) mc(3) by auto
    then show "ln_member (the_loan ?u l') = m" using k(3) [OF mc(1,2)] by (simp add: the_loan_def fields)
  next
    fix m mb' assume x: "lb_members ?u m = Some mb'"
    have "m < lb_next ?u \<and> distinct (map fst (mb_loans mb')) \<and> length (mb_loans mb') \<le> max_books (mb_policy mb')"
    proof (cases "m = ?m")
      case True
      then have "mb' = ?mb" using x by (simp add: fields)
      then show ?thesis using k(4-6) [OF f(6)] True delete_length [of b "mb_loans mb"] by (simp add: fields mb_policy_def distinct_delete)
    next
      case False
      then have "lb_members s m = Some mb'" using x by (simp add: fields)
      from k(4-6) [OF this] show ?thesis by (simp add: fields)
    qed
    then show "m < lb_next ?u" "distinct (map fst (mb_loans mb'))" "length (mb_loans mb') \<le> max_books (mb_policy mb')" by simp_all
  next
    fix l' assume "lb_loans ?u l' \<noteq> None"
    then show "l' < lb_next ?u" using k(7) [of l'] f(2) k(7) [of l] by (simp add: fields split: if_splits)
  qed
  moreover have "waits_ok ?u"
  proof (rule waits_ok_fewer [OF o(4)])
    fix m mb' d l' assume x: "lb_members ?u m = Some mb'" "map_of (mb_loans mb') d = Some l'"
    show "\<exists>mc. lb_members s m = Some mc \<and> map_of (mb_loans mc) d = Some l'"
    proof (cases "m = ?m")
      case True
      then have "mb' = ?mb" using x by (simp add: fields)
      then show ?thesis using x True f(6) del by (simp split: if_splits)
    next
      case False
      then show ?thesis using x by (simp add: fields)
    qed
  qed (use waits_okD(1) [OF o(4)] in \<open>simp_all add: fields\<close>)
  ultimately show "lib_ok {b} ?u" by (simp add: lib_ok_def)
  show "queue_ok {} s \<Longrightarrow> queue_ok {b} ?u" unfolding queue_ok_def fields by blast
qed

lemma lend_ok:
  assumes ok: "lib_ok {} s" and m: "lb_members s m = Some mb" "length (mb_loans mb) < max_books (mb_policy mb)"
    and b: "items s b = Some it" "it_status it = AVAILABLE \<or> map_of (lb_holds s) b \<noteq> None" "isbn_of s b = isbn"
  shows "lib_ok {} (lend s m mb isbn b today)" "queue_ok {} s \<Longrightarrow> queue_ok {} (lend s m mb isbn b today)"
proof -
  note o = lib_okD [OF ok]
  note c = copies_okD [OF o(2)]
  note k = loans_okD [OF o(3)]
  note w = waits_okD [OF o(4)]
  let ?l = "lb_next s"
  let ?mb = "mb\<lparr>mb_loans := AList.update b ?l (mb_loans mb)\<rparr>"
  let ?lo = "\<lparr>ln_barcode = b, ln_isbn = isbn, ln_member = m, ln_borrowed = today, ln_due = today + loan_days (mb_policy mb),
              ln_renewals = 0, ln_returned = None, ln_fine = 0\<rparr>"
  let ?u = "lend s m mb isbn b today"
  have act: "lb_active s b = None" using c(1,2) [OF b(1)] b(2) by auto
  have mine: "map_of (mb_loans mb) b = None" using k(2) [OF m(1), of b] act by (cases "map_of (mb_loans mb) b") auto
  have fields: "items ?u = (items s)(b \<mapsto> it\<lparr>it_status := ON_LOAN\<rparr>)" "lb_members ?u = (lb_members s)(m \<mapsto> ?mb)" "lb_loans ?u = (lb_loans s)(?l \<mapsto> ?lo)"
    "lb_active ?u = (lb_active s)(b \<mapsto> ?l)" "map_of (lb_holds ?u) = (map_of (lb_holds s))(b := None)" "lb_next ?u = ?l + 1" "isbn_of ?u d = isbn_of s d"
    "waiting ?u i = (if i = isbn then remove1 m (waiting s i) else waiting s i)" "lb_holds ?u = AList.delete b (lb_holds s)" for d i
    using b(1) by (simp_all add: lend_def Let_def delete_conv' the_item_def fun_eq_iff isbn_of_def waiting_def set_status_def remove1_idem)
  have upd: "map_of (mb_loans ?mb) = (map_of (mb_loans mb))(b \<mapsto> ?l)" by (simp add: update_conv' fun_eq_iff)
  have len: "length (mb_loans ?mb) = length (mb_loans mb) + 1" using mine by (simp add: AList_update_absent map_of_eq_None_iff)
  have old: "l < ?l" if taken: "lb_active s d = Some l" for d l
  proof -
    obtain lo mc where "loan_of s d l lo mc" using k(1) [OF taken] by blast
    then show ?thesis using k(7) loan_ofD(2) by blast
  qed
  have "titles_ok ?u" using o(1)
    by (rule titles_ok_same) (use b(1) in \<open>auto simp: fields lend_def Let_def\<close>)
  moreover have "copies_ok {} ?u"
    unfolding copies_ok_def fields(1,2,4,5)
  proof (intro conjI allI impI ballI)
    fix d x assume d: "((items s)(b \<mapsto> it\<lparr>it_status := ON_LOAN\<rparr>)) d = Some x \<and> d \<notin> {}"
    show "(it_status x = ON_LOAN) = (((lb_active s)(b \<mapsto> ?l)) d \<noteq> None)" "(it_status x = ON_HOLD) = (((map_of (lb_holds s))(b := None)) d \<noteq> None)"
      using c(1,2) [of d x] d by (cases "d = b"; auto)+
  next
    fix d x assume d: "((map_of (lb_holds s))(b := None)) d = Some x"
    then show "((items s)(b \<mapsto> it\<lparr>it_status := ON_LOAN\<rparr>)) d \<noteq> None" "((lb_members s)(m \<mapsto> ?mb)) (hd_member x) \<noteq> None"
      using c(7,8) [of d x] by (auto split: if_splits)
  qed (use c(6) in \<open>simp_all add: fields(9) distinct_delete\<close>)
  moreover have "loans_ok ?u"
    unfolding loans_ok_def
  proof (intro conjI allI impI)
    fix d l assume d: "lb_active ?u d = Some l"
    show "\<exists>lo mb. loan_of ?u d l lo mb"
    proof (cases "d = b")
      case True
      then have "loan_of ?u d l ?lo ?mb" using d b(1,3) upd unfolding loan_of_def by (simp add: fields(1-4,7))
      then show ?thesis by blast
    next
      case False
      then have d': "lb_active s d = Some l" using d by (simp add: fields(4))
      obtain lo mc where x: "loan_of s d l lo mc" using k(1) [OF d'] by blast
      note g = loan_ofD [OF x]
      have "l \<noteq> ?l" using old [OF d'] by simp
      show ?thesis
      proof (cases "ln_member lo = m")
        case True
        then have "mc = mb" using g(6) m(1) by simp
        then have "loan_of ?u d l lo ?mb" using g False \<open>l \<noteq> ?l\<close> True upd unfolding loan_of_def by (simp add: fields(1-4,7) mb_policy_def)
        then show ?thesis by blast
      next
        case other: False
        then have "loan_of ?u d l lo mc" using g False \<open>l \<noteq> ?l\<close> unfolding loan_of_def by (simp add: fields(1-4,7))
        then show ?thesis by blast
      qed
    qed
  next
    fix k' mc d l assume x: "lb_members ?u k' = Some mc \<and> map_of (mb_loans mc) d = Some l"
    have "(lb_active ?u d = Some l \<and> ln_member (the_loan ?u l) = k')"
    proof (cases "k' = m \<and> d = b")
      case True
      then have "l = ?l" using x upd by (auto simp: fields(2))
      then show ?thesis using True by (simp add: fields(3,4) the_loan_def)
    next
      case False
      have "\<exists>my. lb_members s k' = Some my \<and> map_of (mb_loans my) d = Some l"
        using x False m(1) upd by (cases "k' = m") (auto simp: fields(2))
      then obtain my where my: "lb_members s k' = Some my" "map_of (mb_loans my) d = Some l" by blast
      have a: "lb_active s d = Some l" by (rule k(2) [OF my])
      then have "d \<noteq> b" "l \<noteq> ?l" using act old by auto
      then show ?thesis using a k(3) [OF my] by (simp add: fields(3,4) the_loan_def)
    qed
    then show "lb_active ?u d = Some l" "ln_member (the_loan ?u l) = k'" by simp_all
  next
    fix k' mc assume x: "lb_members ?u k' = Some mc"
    have "k' < lb_next ?u \<and> distinct (map fst (mb_loans mc)) \<and> length (mb_loans mc) \<le> max_books (mb_policy mc)"
    proof (cases "k' = m")
      case True
      then have "mc = ?mb" using x by (simp add: fields(2))
      then show ?thesis using k(4,5) [OF m(1)] True len m(2) by (simp add: fields(6) mb_policy_def distinct_update)
    next
      case False
      then have "lb_members s k' = Some mc" using x by (simp add: fields(2))
      from k(4-6) [OF this] show ?thesis by (simp add: fields(6))
    qed
    then show "k' < lb_next ?u" "distinct (map fst (mb_loans mc))" "length (mb_loans mc) \<le> max_books (mb_policy mc)" by simp_all
  next
    fix l assume "lb_loans ?u l \<noteq> None"
    then show "l < lb_next ?u" using k(7) [of l] by (auto simp: fields(3,6) split: if_splits)
  qed
  moreover have "waits_ok ?u"
    unfolding waits_ok_def
  proof (intro allI conjI ballI impI)
    fix i show "distinct (waiting ?u i)" using w(1) [of i] by (auto simp: fields(8))
    fix j assume j: "j \<in> set (waiting ?u i)"
    then have j': "j \<in> set (waiting s i)" using notin_set_remove1 [of j] by (fastforce simp: fields(8) split: if_splits)
    show "lb_members ?u j \<noteq> None" using w(2) [OF j'] by (simp add: fields(2))
    fix d x assume "map_of (lb_holds ?u) d = Some x \<and> hd_member x = j"
    then show "isbn_of ?u d \<noteq> i" using w(3) [OF j', of d x] by (simp add: fields(5,7) split: if_splits)
  next
    fix i j mc d l assume j: "j \<in> set (waiting ?u i)" and x: "lb_members ?u j = Some mc \<and> map_of (mb_loans mc) d = Some l"
    then have j': "j \<in> set (waiting s i)" using notin_set_remove1 [of j] by (fastforce simp: fields(8) split: if_splits)
    show "isbn_of ?u d \<noteq> i"
    proof (cases "j = m")
      case False
      then show ?thesis using w(4) [OF j', of mc d l] x by (simp add: fields(2,7))
    next
      case True
      then have ne: "i \<noteq> isbn" using j w(1) [of i] by (auto simp: fields(8))
      show ?thesis
      proof (cases "d = b")
        case True
        then show ?thesis using ne b(3) by (simp add: fields(7))
      next
        case False
        then show ?thesis using w(4) [OF j', of mb d l] x m(1) \<open>j = m\<close> upd by (auto simp: fields(2,7))
      qed
    qed
  qed
  ultimately show "lib_ok {} ?u" by (simp add: lib_ok_def)
  show "queue_ok {} s \<Longrightarrow> queue_ok {} ?u" unfolding queue_ok_def by (auto simp: fields(1,8))
qed

end
