(* ===== verification/Lending_Books.thy ===== *)
theory Lending_Books
  imports Lending_Safety
begin

text \<open>
  Every operation of \<open>Lending\<close> keeps the invariants, in any order and on any dates; what follows for copies, waiting lists and
  limits; the fine tiers in closed form; and a copy added while members wait.
\<close>

declare split_paired_All [simp del] split_paired_Ex [simp del]

section \<open>The operations keep the invariant\<close>

definition keeps :: "library \<Rightarrow> library \<Rightarrow> bool" where
  "keeps s u \<longleftrightarrow> lib_ok {} u \<and> (queue_ok {} s \<longrightarrow> queue_ok {} u)"

lemma lib_keeps_refl: "lib_ok {} s \<Longrightarrow> keeps s s"
  by (simp add: keeps_def)

lemma lib_keeps_trans: "keeps s t \<Longrightarrow> keeps t u \<Longrightarrow> keeps s u"
  by (simp add: keeps_def)

lemma keeps_expire: "lib_ok {} s \<Longrightarrow> keeps s (expire_holds s today isbn)"
  using expire_ok by (simp add: keeps_def)

lemma held_item:
  assumes ok: "lib_ok {} s" and f: "held_item_for s m isbn = Some b"
  obtains h it where "map_of (lb_holds s) b = Some h" "hd_member h = m" "isbn_of s b = isbn" "items s b = Some it"
proof -
  note c = copies_okD [OF lib_okD(2) [OF ok]]
  from f obtain x where x: "find (\<lambda>x. hd_member (snd x) = m \<and> it_isbn (the_item s (fst x)) = isbn) (lb_holds s) = Some x" "fst x = b"
    by (auto simp: held_item_for_def)
  then have "x \<in> set (lb_holds s)" "hd_member (snd x) = m" "isbn_of s b = isbn" by (auto simp: find_Some_iff isbn_of_def)
  moreover have "map_of (lb_holds s) b = Some (snd x)" using calculation(1) x(2) map_of_is_SomeI [OF c(6), of b "snd x"] by auto
  ultimately show thesis using that c(7) by blast
qed

lemma shelf_item:
  assumes ok: "lib_ok {} s" and f: "first_available s isbn = Inr (Some b)"
  obtains it where "items s b = Some it" "it_status it = AVAILABLE" "isbn_of s b = isbn"
proof -
  have t: "titles_ok s" by (rule lib_okD(1) [OF ok])
  from f obtain bs where bs: "ct_by_isbn (lb_catalog s) isbn = Some bs" "find (on_shelf s) bs = Some b"
    using t by (auto simp: first_available_def items_for_def bind_sum_Inr titles_ok_def split: if_splits)
  then have "b \<in> set bs" "on_shelf s b" by (auto simp: find_Some_iff)
  moreover have "items s b \<noteq> None" "isbn_of s b = isbn" using t bs(1) calculation(1) unfolding titles_ok_def by blast+
  ultimately show thesis using that by (auto simp: on_shelf_def the_item_def)
qed

lemma borrow_keeps:
  assumes ok: "lib_ok {} s"
  shows "keeps s (fst (borrow s today m isbn))"
proof (cases "lb_members s m")
  case None
  then show ?thesis using lib_keeps_refl [OF ok] by (simp add: borrow_def find_member_def)
next
  case (Some mb)
  let ?s = "expire_holds s today isbn"
  have k: "keeps s ?s" by (rule keeps_expire [OF ok])
  then have ok': "lib_ok {} ?s" by (simp add: keeps_def)
  have mb: "lb_members ?s m = Some mb" using same_loansD(1) [OF expire_ok(2) [OF ok]] Some by simp
  show ?thesis
  proof (cases "check_can_borrow s mb today")
    case (Inl e)
    then show ?thesis using lib_keeps_refl [OF ok] Some by (simp add: borrow_def find_member_def)
  next
    case (Inr u)
    then have len: "length (mb_loans mb) < max_books (mb_policy mb)" by (auto simp: check_can_borrow_def split: if_splits)
    define pick where "pick = (case held_item_for ?s m isbn of Some b \<Rightarrow> Inr (Some b) | None \<Rightarrow> first_available ?s isbn)"
    have e: "borrow s today m isbn = or_raise ?s pick (\<lambda>item. (case item of None \<Rightarrow> (?s, Inl NotAvailableError) | Some b \<Rightarrow> (lend ?s m mb isbn b today, Inr (lb_next ?s))))"
      using Some Inr by (simp add: borrow_def find_member_def Let_def pick_def)
    show ?thesis
    proof (cases "\<exists>b. pick = Inr (Some b)")
      case False
      then have "fst (borrow s today m isbn) = ?s" unfolding e by (cases pick) (auto split: option.splits)
      then show ?thesis using k by simp
    next
      case True
      then obtain b where b: "pick = Inr (Some b)" by blast
      have "\<exists>it. items ?s b = Some it \<and> (it_status it = AVAILABLE \<or> map_of (lb_holds ?s) b \<noteq> None) \<and> isbn_of ?s b = isbn"
      proof (cases "held_item_for ?s m isbn")
        case None
        then have "first_available ?s isbn = Inr (Some b)" using b by (simp add: pick_def)
        from shelf_item [OF ok' this] show ?thesis by blast
      next
        case (Some d)
        then have "held_item_for ?s m isbn = Some b" using b by (simp add: pick_def)
        then obtain h it where "map_of (lb_holds ?s) b = Some h" "isbn_of ?s b = isbn" "items ?s b = Some it" by (rule held_item [OF ok'])
        then show ?thesis by simp
      qed
      then obtain it where it: "items ?s b = Some it" "it_status it = AVAILABLE \<or> map_of (lb_holds ?s) b \<noteq> None" "isbn_of ?s b = isbn" by blast
      have "keeps ?s (lend ?s m mb isbn b today)" using lend_ok [OF ok' mb len it] by (simp add: keeps_def)
      then show ?thesis using lib_keeps_trans [OF k] b by (simp add: e)
    qed
  qed
qed

lemma close_known: "lb_active s b = Some l \<Longrightarrow> lib_ok {} s \<Longrightarrow> items s b \<noteq> None"
  using loans_okD(1) [OF lib_okD(3)] loan_ofD(1) by blast

lemma active_loan_Inr: "active_loan s b = Inr l \<Longrightarrow> lb_active s b = Some l"
  by (simp add: active_loan_def split: if_splits option.splits)

lemma return_keeps:
  assumes ok: "lib_ok {} s"
  shows "keeps s (fst (return_item s today b))"
proof (cases "active_loan s b")
  case (Inl e)
  then show ?thesis using lib_keeps_refl [OF ok] by (simp add: return_item_def)
next
  case (Inr l)
  note a = active_loan_Inr [OF Inr]
  define fine where "fine = calculate_fine (lb_fines s) (days_overdue (the_loan s l) today) (mb_type (the (lb_members s (ln_member (the_loan s l)))))"
  let ?s = "close_loan s b l today fine"
  let ?t = "expire_holds ?s today (it_isbn (the_item ?s b))"
  have r: "fst (return_item s today b) = release_copy ?t b today" using Inr by (simp add: return_item_def Let_def fine_def)
  note c = close_loan_ok [OF ok a, of today fine]
  have t: "lib_ok {b} ?t" "queue_ok {b} ?s \<Longrightarrow> queue_ok {b} ?t" using expire_ok [OF c(1)] by simp_all
  show ?thesis unfolding r keeps_def using release_copy_ok [of b "{}" ?t today] t release_queue_ok [of b "{}" ?t today] c(2) by simp
qed

lemma lost_keeps:
  assumes ok: "lib_ok {} s"
  shows "keeps s (fst (report_lost s today b cost))"
proof (cases "active_loan s b")
  case (Inl e)
  then show ?thesis using lib_keeps_refl [OF ok] by (simp add: report_lost_def)
next
  case (Inr l)
  note a = active_loan_Inr [OF Inr]
  let ?s = "close_loan s b l today cost"
  let ?u = "set_status ?s b LOST"
  note c = close_loan_ok [OF ok a, of today cost]
  note o = lib_okD [OF c(1)]
  note d = copies_okD [OF o(2)]
  have known: "items ?s b \<noteq> None" by (rule d(3)) simp
  have sl: "same_loans ?s ?u" using known by (simp add: same_loans_def)
  have "copies_ok {} ?u"
    unfolding copies_ok_def
  proof (intro conjI allI impI ballI)
    fix e it assume e: "items ?u e = Some it \<and> e \<notin> {}"
    show "(it_status it = ON_LOAN) = (lb_active ?u e \<noteq> None)" "(it_status it = ON_HOLD) = (map_of (lb_holds ?u) e \<noteq> None)"
      using e d(1,2) [of e it] d(4,5) [of b] by (cases "e = b"; force)+
  next
    fix e h assume "map_of (lb_holds ?u) e = Some h"
    then show "items ?u e \<noteq> None" "lb_members ?u (hd_member h) \<noteq> None" using d(7,8) [of e h] by simp_all
  qed (use d(6) in simp_all)
  moreover have "waits_ok ?u = waits_ok ?s" by (simp add: waits_ok_def)
  ultimately have "lib_ok {} ?u" using same_loans_ok [OF sl] o by (simp add: lib_ok_def)
  moreover have "queue_ok {} ?u" if "queue_ok {} s" using c(2) [OF that] by (auto simp: queue_ok_def split: if_splits)
  ultimately show ?thesis using Inr by (simp add: keeps_def report_lost_def)
qed

lemma renew_keeps:
  assumes ok: "lib_ok {} s"
  shows "keeps s (fst (renew s today b))"
proof (cases "fst (renew s today b) = s")
  case True
  then show ?thesis using lib_keeps_refl [OF ok] by simp
next
  case False
  note o = lib_okD [OF ok]
  note k = loans_okD [OF o(3)]
  obtain l where l: "active_loan s b = Inr l" using False by (cases "active_loan s b") (auto simp: renew_def)
  note a = active_loan_Inr [OF l]
  obtain lo mb where lo: "loan_of s b l lo mb" using k(1) [OF a] by blast
  note f = loan_ofD [OF lo]
  let ?lo = "lo\<lparr>ln_due := today + loan_days (mb_policy mb), ln_renewals := ln_renewals lo + 1\<rparr>"
  let ?u = "s\<lparr>lb_loans := (lb_loans s)(l \<mapsto> ?lo)\<rparr>"
  have u: "fst (renew s today b) = ?u" and lt: "ln_renewals lo < max_renewals (mb_policy mb)"
    using False l f(2,6) by (auto simp: renew_def the_loan_def Let_def split: if_splits)
  have "titles_ok ?u" by (rule titles_ok_same [OF o(1)]) simp_all
  moreover have "copies_ok {} ?u" using o(2) by (simp add: copies_ok_def)
  moreover have "waits_ok ?u" by (rule waits_ok_fewer [OF o(4)]) (use waits_okD(1) [OF o(4)] in simp_all)
  moreover have "loans_ok ?u"
    unfolding loans_ok_def
  proof (intro conjI allI impI)
    fix d l' assume "lb_active ?u d = Some l'"
    then obtain lo' mb' where x: "loan_of s d l' lo' mb'" using k(1) [of d l'] by auto
    note g = loan_ofD [OF x]
    show "\<exists>lo mb. loan_of ?u d l' lo mb"
    proof (cases "l' = l")
      case True
      then have "loan_of ?u d l' ?lo mb" using f g lt unfolding loan_of_def by simp
      then show ?thesis by blast
    next
      case False
      then have "loan_of ?u d l' lo' mb'" using g unfolding loan_of_def by simp
      then show ?thesis by blast
    qed
  next
    fix m mc d l' assume x: "lb_members ?u m = Some mc \<and> map_of (mb_loans mc) d = Some l'"
    then show "lb_active ?u d = Some l'" using k(2) [of m mc d l'] by simp
    show "ln_member (the_loan ?u l') = m" using x k(3) [of m mc d l'] f(2) by (auto simp: the_loan_def)
  next
    fix l' assume "lb_loans ?u l' \<noteq> None"
    then show "l' < lb_next ?u" using k(7) [of l'] k(7) [of l] f(2) by (simp split: if_splits)
  qed (use k(4-6) in simp_all)
  moreover have "queue_ok {} s \<longrightarrow> queue_ok {} ?u" by (simp add: queue_ok_def)
  ultimately show ?thesis unfolding u by (simp add: keeps_def lib_ok_def)
qed

text \<open>A change of one member that leaves the loans alone.\<close>

lemma member_keeps:
  assumes ok: "lib_ok {} s" and mb: "lb_members s m = Some mb" and mc: "mb_loans mc = mb_loans mb" "mb_type mc = mb_type mb"
  shows "keeps s (s\<lparr>lb_members := (lb_members s)(m \<mapsto> mc)\<rparr>)"
proof -
  let ?u = "s\<lparr>lb_members := (lb_members s)(m \<mapsto> mc)\<rparr>"
  note o = lib_okD [OF ok]
  note k = loans_okD [OF o(3)]
  have some: "lb_members ?u j = Some x \<Longrightarrow> \<exists>y. lb_members s j = Some y \<and> mb_loans x = mb_loans y \<and> mb_type x = mb_type y" for j x
    using mb mc by (cases "j = m") auto
  have "titles_ok ?u" by (rule titles_ok_same [OF o(1)]) simp_all
  moreover have "copies_ok {} ?u"
    using o(2) mb unfolding copies_ok_def by auto
  moreover have "waits_ok ?u"
    by (rule waits_ok_fewer [OF o(4)]) (use waits_okD(1) [OF o(4)] some in fastforce)+
  moreover have "loans_ok ?u"
    unfolding loans_ok_def
  proof (intro conjI allI impI)
    fix d l assume "lb_active ?u d = Some l"
    then obtain lo my where x: "loan_of s d l lo my" using k(1) [of d l] by auto
    have "loan_of ?u d l lo (if ln_member lo = m then mc else my)" using loan_ofD [OF x] mb mc unfolding loan_of_def by (auto simp: mb_policy_def)
    then show "\<exists>lo mb. loan_of ?u d l lo mb" by blast
  next
    fix j x d l assume "lb_members ?u j = Some x \<and> map_of (mb_loans x) d = Some l"
    then obtain y where "lb_members s j = Some y" "map_of (mb_loans y) d = Some l" using some by metis
    from k(2,3) [OF this] show "lb_active ?u d = Some l" "ln_member (the_loan ?u l) = j" by (simp_all add: the_loan_def)
  next
    fix j x assume "lb_members ?u j = Some x"
    then obtain y where y: "lb_members s j = Some y" "mb_loans x = mb_loans y" "mb_type x = mb_type y" using some by metis
    from k(4-6) [OF y(1)] show "j < lb_next ?u" "distinct (map fst (mb_loans x))" "length (mb_loans x) \<le> max_books (mb_policy x)"
      by (simp_all add: y mb_policy_def)
  qed (use k(7) in simp)
  moreover have "queue_ok {} s \<longrightarrow> queue_ok {} ?u" by (simp add: queue_ok_def)
  ultimately show ?thesis by (simp add: keeps_def lib_ok_def)
qed

lemma pay_fine_keeps: "lib_ok {} s \<Longrightarrow> keeps s (fst (pay_fine s m amount))"
  using member_keeps [of s m] lib_keeps_refl by (cases "lb_members s m") (auto simp: pay_fine_def find_member_def)

lemma register_keeps:
  assumes ok: "lib_ok {} s"
  shows "keeps s (fst (register_member s name t))"
proof -
  note o = lib_okD [OF ok]
  note k = loans_okD [OF o(3)]
  let ?n = "\<lparr>mb_name = name, mb_type = t, mb_loans = [], mb_fine = 0\<rparr>"
  let ?u = "s\<lparr>lb_next := lb_next s + 1, lb_members := (lb_members s)(lb_next s \<mapsto> ?n)\<rparr>"
  have new: "lb_members s (lb_next s) = None" using k(4) [of "lb_next s"] by (cases "lb_members s (lb_next s)") auto
  have some: "lb_members s j = Some x \<Longrightarrow> lb_members ?u j = Some x" for j x using new by auto
  have "titles_ok ?u" by (rule titles_ok_same [OF o(1)]) simp_all
  moreover have "copies_ok {} ?u" using o(2) unfolding copies_ok_def by auto
  moreover have "waits_ok ?u"
    by (rule waits_ok_fewer [OF o(4)]) (use waits_okD(1) [OF o(4)] in \<open>auto split: if_splits\<close>)
  moreover have "loans_ok ?u"
    unfolding loans_ok_def
  proof (intro conjI allI impI)
    fix d l assume "lb_active ?u d = Some l"
    then obtain lo my where x: "loan_of s d l lo my" using k(1) [of d l] by auto
    have "loan_of ?u d l lo my" using loan_ofD [OF x] some unfolding loan_of_def by simp
    then show "\<exists>lo mb. loan_of ?u d l lo mb" by blast
  next
    fix j x d l assume a: "lb_members ?u j = Some x \<and> map_of (mb_loans x) d = Some l"
    then have "lb_members s j = Some x" by (auto split: if_splits)
    from k(2,3) [OF this, of d l] a show "lb_active ?u d = Some l" "ln_member (the_loan ?u l) = j" by (simp_all add: the_loan_def)
  next
    fix j x assume a: "lb_members ?u j = Some x"
    have "j < lb_next ?u \<and> distinct (map fst (mb_loans x)) \<and> length (mb_loans x) \<le> max_books (mb_policy x)"
      using a k(4-6) [of j x] by (cases "j = lb_next s") auto
    then show "j < lb_next ?u" "distinct (map fst (mb_loans x))" "length (mb_loans x) \<le> max_books (mb_policy x)" by simp_all
  next
    fix l assume "lb_loans ?u l \<noteq> None"
    then show "l < lb_next ?u" using k(7) [of l] by simp
  qed
  moreover have "queue_ok {} s \<longrightarrow> queue_ok {} ?u" by (simp add: queue_ok_def)
  ultimately show ?thesis by (simp add: keeps_def lib_ok_def register_member_def)
qed

text \<open>A change of the waiting list of one title.\<close>

lemma waitlist_keeps:
  assumes ok: "lib_ok {} s" and q: "distinct q"
    and new: "\<And>m. m \<in> set q \<Longrightarrow> m \<notin> set (waiting s isbn) \<Longrightarrow> lb_members s m \<noteq> None
      \<and> (\<forall>b h. map_of (lb_holds s) b = Some h \<and> hd_member h = m \<longrightarrow> isbn_of s b \<noteq> isbn)
      \<and> (\<forall>mb b l. lb_members s m = Some mb \<and> map_of (mb_loans mb) b = Some l \<longrightarrow> isbn_of s b \<noteq> isbn)"
    and free: "\<And>b it. items s b = Some it \<Longrightarrow> it_isbn it = isbn \<Longrightarrow> it_status it = AVAILABLE \<Longrightarrow> waiting s isbn = [] \<Longrightarrow> q = []"
  shows "keeps s (s\<lparr>lb_waitlist := (lb_waitlist s)(isbn \<mapsto> q)\<rparr>)"
proof -
  let ?u = "s\<lparr>lb_waitlist := (lb_waitlist s)(isbn \<mapsto> q)\<rparr>"
  note o = lib_okD [OF ok]
  note w = waits_okD [OF o(4)]
  have "same_loans s ?u" by (simp add: same_loans_def)
  then have "titles_ok ?u" "loans_ok ?u" using same_loans_ok o by blast+
  moreover have "copies_ok {} ?u" using o(2) by (simp add: copies_ok_def)
  moreover have "waits_ok ?u"
    unfolding waits_ok_def
  proof (intro allI conjI ballI impI)
    fix i show "distinct (waiting ?u i)" using q w(1) [of i] by simp
    fix m assume m: "m \<in> set (waiting ?u i)"
    show "lb_members ?u m \<noteq> None" using m new [of m] w(2) [of m i] by (cases "i = isbn \<and> m \<notin> set (waiting s isbn)") (auto split: if_splits)
    fix b h assume "map_of (lb_holds ?u) b = Some h \<and> hd_member h = m"
    then show "isbn_of ?u b \<noteq> i" using m new [of m] w(3) [of m i b h] by (cases "i = isbn \<and> m \<notin> set (waiting s isbn)") (auto split: if_splits)
  next
    fix i m mb b l assume m: "m \<in> set (waiting ?u i)" and "lb_members ?u m = Some mb \<and> map_of (mb_loans mb) b = Some l"
    then show "isbn_of ?u b \<noteq> i" using new [of m] w(4) [of m i mb b l] by (cases "i = isbn \<and> m \<notin> set (waiting s isbn)") (auto split: if_splits)
  qed
  moreover have "queue_ok {} s \<longrightarrow> queue_ok {} ?u" using free(1) unfolding queue_ok_def by fastforce
  ultimately show ?thesis by (simp add: keeps_def lib_ok_def)
qed

lemma cancel_keeps:
  assumes ok: "lib_ok {} s"
  shows "keeps s (fst (cancel_reservation s today m isbn))"
proof (cases "m \<in> set (waiting s isbn)")
  case True
  have "keeps s (s\<lparr>lb_waitlist := (lb_waitlist s)(isbn \<mapsto> remove1 m (waiting s isbn))\<rparr>)"
    by (rule waitlist_keeps [OF ok]) (use waits_okD(1) [OF lib_okD(4) [OF ok], of isbn] set_remove1_subset [of m "waiting s isbn"] in auto)
  then show ?thesis using True by (simp add: cancel_reservation_def)
next
  case False
  show ?thesis
  proof (cases "held_item_for s m isbn")
    case None
    then show ?thesis using False lib_keeps_refl [OF ok] by (simp add: cancel_reservation_def)
  next
    case (Some b)
    obtain h it where "map_of (lb_holds s) b = Some h" "isbn_of s b = isbn" "items s b = Some it" by (rule held_item [OF ok Some])
    then have d: "map_of (lb_holds s) b \<noteq> None" by simp
    let ?s = "s\<lparr>lb_holds := AList.delete b (lb_holds s)\<rparr>"
    have "queue_ok {b} ?s" if "queue_ok {} s" using that by (auto simp: queue_ok_def)
    then show ?thesis using False Some release_copy_ok [OF drop_hold_ok(1,2) [OF ok d]] release_queue_ok [of b "{}" ?s today]
      by (simp add: cancel_reservation_def keeps_def)
  qed
qed

lemma not_held: "held_item_for s m isbn = None \<Longrightarrow> map_of (lb_holds s) b = Some h \<Longrightarrow> hd_member h = m \<Longrightarrow> isbn_of s b \<noteq> isbn"
proof -
  assume n: "held_item_for s m isbn = None" and h: "map_of (lb_holds s) b = Some h" "hd_member h = m"
  have "\<forall>x \<in> set (lb_holds s). \<not> (hd_member (snd x) = m \<and> it_isbn (the_item s (fst x)) = isbn)"
    using n by (simp add: held_item_for_def find_None_iff)
  from bspec [OF this map_of_SomeD [OF h(1)]] show "isbn_of s b \<noteq> isbn" using h(2) by (simp add: isbn_of_def)
qed

lemma reserve_keeps:
  assumes ok: "lib_ok {} s"
  shows "keeps s (fst (reserve s today m isbn))"
proof (cases "lb_members s m")
  case None
  then show ?thesis using lib_keeps_refl [OF ok] by (simp add: reserve_def find_member_def)
next
  case (Some mb)
  let ?s = "expire_holds s today isbn"
  have k: "keeps s ?s" by (rule keeps_expire [OF ok])
  then have ok': "lib_ok {} ?s" by (simp add: keeps_def)
  note o = lib_okD [OF ok']
  note w = waits_okD [OF o(4)]
  have mb: "lb_members ?s m = Some mb" using same_loansD(1) [OF expire_ok(2) [OF ok]] Some by simp
  show ?thesis
  proof (cases "items_for (lb_catalog ?s) isbn")
    case (Inl e)
    then show ?thesis using Some k by (simp add: reserve_def find_member_def Let_def)
  next
    case (Inr bs)
    let ?q = "waiting ?s isbn"
    let ?t = "?s\<lparr>lb_waitlist := (lb_waitlist ?s)(isbn \<mapsto> ?q)\<rparr>"
    have kt: "keeps ?s ?t" by (rule waitlist_keeps [OF ok']) (use w(1) in auto)
    let ?u = "?t\<lparr>lb_waitlist := (lb_waitlist ?t)(isbn \<mapsto> ?q @ [m])\<rparr>"
    consider (shelf) "fst (reserve s today m isbn) = ?s" | (no) "fst (reserve s today m isbn) = ?t"
      | (yes) "fst (reserve s today m isbn) = ?u" "\<not> list_ex (on_shelf ?s) bs" "m \<notin> set ?q" "held_item_for ?t m isbn = None"
          "\<not> list_ex (\<lambda>x. ln_isbn (the_loan ?t (snd x)) = isbn) (mb_loans mb)"
    proof (cases "list_ex (on_shelf ?s) bs")
      case True
      then show ?thesis using Some Inr by (intro shelf) (simp add: reserve_def find_member_def Let_def)
    next
      case out: False
      show ?thesis
      proof (cases "m \<in> set ?q \<or> held_item_for ?t m isbn \<noteq> None \<or> list_ex (\<lambda>x. ln_isbn (the_loan ?t (snd x)) = isbn) (mb_loans mb)")
        case True
        then show ?thesis using Some Inr out by (intro no) (auto simp: reserve_def find_member_def Let_def)
      next
        case False
        then show ?thesis using Some Inr out by (intro yes) (auto simp: reserve_def find_member_def Let_def)
      qed
    qed
    then show ?thesis
    proof cases
      case shelf
      then show ?thesis using k by simp
    next
      case no
      then show ?thesis using lib_keeps_trans [OF k kt] by simp
    next
      case yes
      have okt: "lib_ok {} ?t" using kt by (simp add: keeps_def)
      have "isbn_of ?t b \<noteq> isbn" if l: "map_of (mb_loans mb) b = Some l" for b l
      proof -
        have a: "lb_active ?s b = Some l" by (rule loans_okD(2) [OF o(3) mb l])
        obtain lo mc where "loan_of ?s b l lo mc" using loans_okD(1) [OF o(3) a] by blast
        note f = loan_ofD [OF this]
        have "ln_isbn (the_loan ?t l) \<noteq> isbn" using yes(5) map_of_SomeD [OF l] by (auto simp: list_ex_iff)
        then show ?thesis using f(2,4) by (simp add: the_loan_def)
      qed
      moreover have "isbn_of ?t b \<noteq> isbn" if "map_of (lb_holds ?t) b = Some h" "hd_member h = m" for b h
        by (rule not_held [OF yes(4) that])
      moreover have "it_status it \<noteq> AVAILABLE" if i: "items ?t b = Some it" "it_isbn it = isbn" for b it
      proof -
        have "isbn_of ?s b = isbn" "items ?s b \<noteq> None" using i by (simp_all add: isbn_of_def the_item_def)
        then obtain cs where "ct_by_isbn (lb_catalog ?s) isbn = Some cs" "b \<in> set cs" using o(1) unfolding titles_ok_def by metis
        then have "b \<in> set bs" using Inr by (simp add: items_for_def split: if_splits)
        then show ?thesis using yes(2) i by (auto simp: list_ex_iff on_shelf_def the_item_def)
      qed
      ultimately have "keeps ?t ?u"
        by (intro waitlist_keeps [OF okt]) (use w(1) [of isbn] yes(3) mb in auto)
      then show ?thesis using lib_keeps_trans [OF k] lib_keeps_trans [OF kt] yes(1) by simp
    qed
  qed
qed

text \<open>New titles and new copies. A new copy is on the shelf, so it must not come while members wait for its title.\<close>

lemma add_book_keeps:
  assumes ok: "lib_ok {} s"
  shows "keeps s (s\<lparr>lb_catalog := add_book (lb_catalog s) isbn b\<rparr>)"
proof -
  let ?u = "s\<lparr>lb_catalog := add_book (lb_catalog s) isbn b\<rparr>"
  note o = lib_okD [OF ok]
  have ai: "ct_items (add_book (lb_catalog s) isbn b) = items s" by (simp add: add_book_def)
  then have e: "items ?u = items s" by simp
  have i: "isbn_of ?u = isbn_of s" by (simp add: isbn_of_def the_item_def add_book_def fun_eq_iff)
  have known: "map_of (ct_books (lb_catalog s)) k = None \<longleftrightarrow> ct_by_isbn (lb_catalog s) k = None" for k using o(1) unfolding titles_ok_def by blast
  have upd: "ct_by_isbn (lb_catalog ?u) = (if ct_by_isbn (lb_catalog s) isbn = None then (ct_by_isbn (lb_catalog s))(isbn \<mapsto> []) else ct_by_isbn (lb_catalog s))"
    "map_of (ct_books (lb_catalog ?u)) = (map_of (ct_books (lb_catalog s)))(isbn \<mapsto> b)" by (simp_all add: add_book_def update_conv' fun_eq_iff)
  have grow: "ct_by_isbn (lb_catalog ?u) k = Some xs \<longleftrightarrow> ct_by_isbn (lb_catalog s) k = Some xs \<or> k = isbn \<and> xs = [] \<and> ct_by_isbn (lb_catalog s) isbn = None" for k xs
    unfolding upd(1) by auto
  have "titles_ok ?u"
    unfolding titles_ok_def i e grow
  proof (intro conjI allI impI)
    fix d assume "items s d \<noteq> None"
    then show "\<exists>xs. (ct_by_isbn (lb_catalog s) (isbn_of s d) = Some xs \<or> isbn_of s d = isbn \<and> xs = [] \<and> ct_by_isbn (lb_catalog s) isbn = None) \<and> d \<in> set xs"
      using o(1) unfolding titles_ok_def by blast
  next
    fix j xs d
    assume "(ct_by_isbn (lb_catalog s) j = Some xs \<or> j = isbn \<and> xs = [] \<and> ct_by_isbn (lb_catalog s) isbn = None) \<and> d \<in> set xs"
    then have "ct_by_isbn (lb_catalog s) j = Some xs \<and> d \<in> set xs" by auto
    then have "items s d \<noteq> None \<and> isbn_of s d = j" using o(1) unfolding titles_ok_def by blast
    then show "items s d \<noteq> None" "isbn_of s d = j" by simp_all
  next
    fix j show "(map_of (ct_books (lb_catalog ?u)) j = None) = (ct_by_isbn (lb_catalog ?u) j = None)"
      unfolding upd using known [of j] known [of isbn] by auto
  qed
  moreover have "copies_ok {} ?u = copies_ok {} s" unfolding copies_ok_def e by simp
  moreover have l: "loan_of ?u = loan_of s" "the_loan ?u = the_loan s" by (simp_all add: loan_of_def the_loan_def ai i fun_eq_iff)
  have "loans_ok ?u = loans_ok s" unfolding loans_ok_def l by simp
  moreover have "waits_ok ?u = waits_ok s" unfolding waits_ok_def i by simp
  moreover have "queue_ok {} ?u = queue_ok {} s" unfolding queue_ok_def e by simp
  ultimately show ?thesis using o by (simp add: keeps_def lib_ok_def)
qed

lemma add_item_ok:
  assumes ok: "lib_ok {} s" and c: "add_item (lb_catalog s) b \<lparr>it_isbn = isbn, it_rack = rack, it_status = AVAILABLE\<rparr> = Inr c"
  shows "lib_ok {} (s\<lparr>lb_catalog := c\<rparr>)" "queue_ok {} s \<Longrightarrow> waiting s isbn = [] \<Longrightarrow> queue_ok {} (s\<lparr>lb_catalog := c\<rparr>)"
proof -
  let ?u = "s\<lparr>lb_catalog := c\<rparr>"
  let ?it = "\<lparr>it_isbn = isbn, it_rack = rack, it_status = AVAILABLE\<rparr>"
  note o = lib_okD [OF ok]
  have new: "items s b = None" "map_of (ct_books (lb_catalog s)) isbn \<noteq> None" using c by (auto simp: add_item_def split: if_splits)
  have "map_of (ct_books (lb_catalog s)) isbn = None \<longleftrightarrow> ct_by_isbn (lb_catalog s) isbn = None" using o(1) unfolding titles_ok_def by blast
  then obtain bs where bs: "ct_by_isbn (lb_catalog s) isbn = Some bs" using new(2) by auto
  have e: "items ?u = (items s)(b \<mapsto> ?it)" "ct_by_isbn (lb_catalog ?u) = (ct_by_isbn (lb_catalog s))(isbn \<mapsto> bs @ [b])" "ct_books (lb_catalog ?u) = ct_books (lb_catalog s)"
    using c bs by (auto simp: add_item_def split: if_splits)
  have i: "isbn_of ?u d = (if d = b then isbn else isbn_of s d)" for d using e(1) by (simp add: isbn_of_def the_item_def)
  have "lb_active s b \<noteq> Some l" for l using close_known [OF _ ok, of b l] new(1) by blast
  then have free: "lb_active s b = None" "map_of (lb_holds s) b = None"
    using copies_okD(7) [OF o(2), of b] new(1) by (cases "lb_active s b"; cases "map_of (lb_holds s) b"; simp)+
  have nl: "map_of (mb_loans mb) d = Some l \<Longrightarrow> lb_members s m = Some mb \<Longrightarrow> d \<noteq> b" for m mb d l
    using loans_okD(2) [OF o(3), of m mb d l] free(1) by auto
  have "titles_ok ?u"
    unfolding titles_ok_def e i
  proof (intro conjI allI impI)
    fix d assume d: "((items s)(b \<mapsto> ?it)) d \<noteq> None"
    show "\<exists>cs. ((ct_by_isbn (lb_catalog s))(isbn \<mapsto> bs @ [b])) (if d = b then isbn else isbn_of s d) = Some cs \<and> d \<in> set cs"
    proof (cases "d = b")
      case False
      then have "items s d \<noteq> None" using d by simp
      then have "\<exists>cs. ct_by_isbn (lb_catalog s) (isbn_of s d) = Some cs \<and> d \<in> set cs" using o(1) unfolding titles_ok_def by blast
      then obtain cs where "ct_by_isbn (lb_catalog s) (isbn_of s d) = Some cs" "d \<in> set cs" by blast
      then show ?thesis using False bs by (cases "isbn_of s d = isbn") auto
    qed simp
  next
    fix j cs d assume d: "((ct_by_isbn (lb_catalog s))(isbn \<mapsto> bs @ [b])) j = Some cs \<and> d \<in> set cs"
    have old: "ct_by_isbn (lb_catalog s) k = Some xs \<and> d \<in> set xs \<Longrightarrow> items s d \<noteq> None \<and> isbn_of s d = k" for k xs
      using o(1) unfolding titles_ok_def by blast
    have "d = b \<and> j = isbn \<or> items s d \<noteq> None \<and> isbn_of s d = j"
      using d old [of isbn bs] old [of j cs] bs by (cases "j = isbn") auto
    then show "((items s)(b \<mapsto> ?it)) d \<noteq> None" "(if d = b then isbn else isbn_of s d) = j" using new(1) by auto
  next
    fix j show "(map_of (ct_books (lb_catalog s)) j = None) = (((ct_by_isbn (lb_catalog s))(isbn \<mapsto> bs @ [b])) j = None)"
    proof (cases "j = isbn")
      case True
      then show ?thesis using new(2) by simp
    next
      case False
      then show ?thesis using o(1) unfolding titles_ok_def by simp
    qed
  qed
  moreover have "copies_ok {} ?u" using o(2) free new(1) unfolding copies_ok_def e by auto
  moreover have "loans_ok ?u"
  proof -
    have "loan_of ?u d l lo mb" if "loan_of s d l lo mb" for d l lo mb
      using that new(1) unfolding loan_of_def e i by auto
    then have "\<exists>lo mb. loan_of ?u d l lo mb" if "lb_active s d = Some l" for d l using loans_okD(1) [OF o(3) that] by blast
    then show ?thesis unfolding loans_ok_def using loans_okD(2-7) [OF o(3)] by (simp add: the_loan_def del: map_of_eq_Some_iff) blast
  qed
  moreover have "waits_ok ?u"
    unfolding waits_ok_def
  proof (intro allI conjI ballI impI)
    fix j show "distinct (waiting ?u j)" using waits_okD(1) [OF o(4)] by simp
    fix m assume m: "m \<in> set (waiting ?u j)"
    then have m': "m \<in> set (waiting s j)" by simp
    show "lb_members ?u m \<noteq> None" using waits_okD(2) [OF o(4) m'] by simp
    fix d h assume "map_of (lb_holds ?u) d = Some h \<and> hd_member h = m"
    then have h: "map_of (lb_holds s) d = Some h" "hd_member h = m" by simp_all
    then have "d \<noteq> b" using free(2) by auto
    then show "isbn_of ?u d \<noteq> j" using waits_okD(3) [OF o(4) m' h] by (simp add: i)
  next
    fix j m mb d l assume m: "m \<in> set (waiting ?u j)" and x: "lb_members ?u m = Some mb \<and> map_of (mb_loans mb) d = Some l"
    then have m': "m \<in> set (waiting s j)" and x': "lb_members s m = Some mb" "map_of (mb_loans mb) d = Some l" by simp_all
    show "isbn_of ?u d \<noteq> j" using waits_okD(4) [OF o(4) m' x'] nl [OF x'(2,1)] by (simp add: i)
  qed
  ultimately show "lib_ok {} ?u" by (simp add: lib_ok_def)
  show "queue_ok {} s \<Longrightarrow> waiting s isbn = [] \<Longrightarrow> queue_ok {} ?u" unfolding queue_ok_def e by auto
qed

definition adds_copy :: "int \<times> lib_op \<Rightarrow> bool" where
  "adds_copy x = (case snd x of Add_item b isbn rack \<Rightarrow> True | _ \<Rightarrow> False)"

lemma fst_plain [simp]: "fst (plain_answer r) = fst r"
  by (simp add: plain_answer_def)

lemma lib_step_keeps:
  assumes ok: "lib_ok {} s" and x: "\<not> adds_copy x"
  shows "keeps s (fst (lib_step s x))"
proof (cases "snd x")
  case (Hold_for m isbn)
  then show ?thesis using keeps_expire [OF ok] by (simp add: lib_step_def hold_for_def Let_def)
next
  case (Available isbn)
  have "fst (available_copies s (fst x) isbn) = expire_holds s (fst x) isbn"
    unfolding available_copies_def Let_def by (cases "items_for (lb_catalog (expire_holds s (fst x) isbn)) isbn") simp_all
  then show ?thesis using keeps_expire [OF ok] Available by (simp add: lib_step_def)
qed (use x ok in \<open>simp_all add: lib_step_def adds_copy_def borrow_keeps return_keeps renew_keeps lost_keeps reserve_keeps cancel_keeps pay_fine_keeps
    register_keeps add_book_keeps\<close>)

lemma lib_step_ok: "lib_ok {} s \<Longrightarrow> lib_ok {} (fst (lib_step s x))"
proof (cases "adds_copy x")
  case True
  assume ok: "lib_ok {} s"
  from True obtain b isbn rack where x: "snd x = Add_item b isbn rack" by (auto simp: adds_copy_def split: lib_op.splits)
  show ?thesis
    using add_item_ok(1) [OF ok, of b isbn rack] ok
    by (cases "add_item (lb_catalog s) b \<lparr>it_isbn = isbn, it_rack = rack, it_status = AVAILABLE\<rparr>") (simp_all add: lib_step_def x)
qed (use lib_step_keeps in \<open>simp add: keeps_def\<close>)

interpretation lib: invariant_machine lib_step "lib_ok {}"
  by unfold_locales (rule lib_step_ok)

lemma new_library_ok: "lib_ok {} (new_library new_catalog fines block)" "queue_ok {} (new_library new_catalog fines block)"
  by (simp_all add: lib_ok_def titles_ok_def copies_ok_def loans_ok_def waits_ok_def queue_ok_def new_library_def new_catalog_def waiting_def)

definition lib_run :: "FineCalculator \<Rightarrow> rat \<Rightarrow> (int \<times> lib_op) list \<Rightarrow> library" where
  "lib_run fines block ops = run_ops lib_step (new_library new_catalog fines block) ops"

lemma lib_run_ok: "lib_ok {} (lib_run fines block ops)"
  unfolding lib_run_def by (rule lib.run_inv [OF new_library_ok(1)])

end
