(* ===== verification/Lending_Properties.thy ===== *)
theory Lending_Properties
  imports Lending_Books
begin

text \<open>
  What \<open>Lending\<close> promises: a copy is in one place, nobody passes the members who wait, a returned copy goes to the first of them,
  the fine tiers in closed form; and the copy added to the catalog while members wait, which passes them by.
\<close>

declare split_paired_All [simp del] split_paired_Ex [simp del]

section \<open>Properties\<close>

text \<open>C25. After any operations on any dates a copy is in one place: it is ON_LOAN exactly when a member has it, ON_HOLD exactly when
  it is set aside for one, and never with two members; each open loan is recorded the same with the member and in the service, and
  no member has more loans or renewals than the membership allows.\<close>

theorem copies_in_one_place:
  assumes "s = lib_run fines block ops" "ct_items (lb_catalog s) b = Some it"
  shows "(it_status it = ON_LOAN) = (\<exists>m mb. lb_members s m = Some mb \<and> map_of (mb_loans mb) b \<noteq> None)
    \<and> (it_status it = ON_HOLD) = (map_of (lb_holds s) b \<noteq> None)
    \<and> (\<forall>m mb m' mb'. lb_members s m = Some mb \<and> map_of (mb_loans mb) b \<noteq> None \<and> lb_members s m' = Some mb' \<and> map_of (mb_loans mb') b \<noteq> None \<longrightarrow> m = m')
    \<and> (\<forall>m mb l. lb_members s m = Some mb \<and> map_of (mb_loans mb) b = Some l \<longrightarrow>
         lb_active s b = Some l \<and> ln_member (the_loan s l) = m \<and> length (mb_loans mb) \<le> max_books (mb_policy mb)
         \<and> ln_renewals (the_loan s l) \<le> max_renewals (mb_policy mb))"
proof -
  have ok: "lib_ok {} s" unfolding assms(1) by (rule lib_run_ok)
  note o = lib_okD [OF ok]
  note k = loans_okD [OF o(3)]
  have "(it_status it = ON_LOAN) = (lb_active s b \<noteq> None)" "(it_status it = ON_HOLD) = (map_of (lb_holds s) b \<noteq> None)"
    using copies_okD(1,2) [OF o(2) assms(2)] by simp_all
  moreover have "(lb_active s b \<noteq> None) = (\<exists>m mb. lb_members s m = Some mb \<and> map_of (mb_loans mb) b \<noteq> None)"
  proof
    assume "lb_active s b \<noteq> None"
    then obtain l where "lb_active s b = Some l" by blast
    then obtain lo mb where "loan_of s b l lo mb" using k(1) by blast
    from loan_ofD(6,7) [OF this] show "\<exists>m mb. lb_members s m = Some mb \<and> map_of (mb_loans mb) b \<noteq> None" by blast
  next
    assume "\<exists>m mb. lb_members s m = Some mb \<and> map_of (mb_loans mb) b \<noteq> None"
    then obtain m mb l where "lb_members s m = Some mb" "map_of (mb_loans mb) b = Some l" by blast
    from k(2) [OF this] show "lb_active s b \<noteq> None" by simp
  qed
  moreover have "m = m'" if x: "lb_members s m = Some mb" "map_of (mb_loans mb) b \<noteq> None" "lb_members s m' = Some mb'" "map_of (mb_loans mb') b \<noteq> None" for m mb m' mb'
  proof -
    obtain l l' where "map_of (mb_loans mb) b = Some l" "map_of (mb_loans mb') b = Some l'" using x(2,4) by blast
    then show ?thesis using k(2,3) [OF x(1)] k(2,3) [OF x(3)] by force
  qed
  moreover have "lb_active s b = Some l \<and> ln_member (the_loan s l) = m \<and> length (mb_loans mb) \<le> max_books (mb_policy mb)
      \<and> ln_renewals (the_loan s l) \<le> max_renewals (mb_policy mb)" if x: "lb_members s m = Some mb" "map_of (mb_loans mb) b = Some l" for m mb l
  proof -
    have a: "lb_active s b = Some l" by (rule k(2) [OF x])
    obtain lo mc where "loan_of s b l lo mc" using k(1) [OF a] by blast
    note f = loan_ofD [OF this]
    have "the_loan s l = lo" using f(2) by (simp add: the_loan_def)
    then show ?thesis using a k(3) [OF x] k(6) [OF x(1)] f(6,8) x(1) by simp
  qed
  ultimately show ?thesis by blast
qed

definition clean_code :: book where
  "clean_code = \<lparr>bk_title = ''Clean Code'', bk_author = ''Martin'', bk_category = ''Programming'', bk_year = 2008\<rparr>"

text \<open>Alice (1) borrows the only copy, Bob (2) and Carol (3) wait, Alice returns it late, Bob lets his hold expire.\<close>

definition one_copy :: "(int \<times> lib_op) list" where
  "one_copy = [(0, Add_book ''111'' clean_code), (0, Add_item ''c1'' ''111'' ''A1''), (0, Register ''Alice'' STUDENT), (0, Register ''Bob'' PUBLIC),
     (0, Register ''Carol'' FACULTY), (0, Borrow 1 ''111''), (1, Reserve 2 ''111''), (1, Reserve 3 ''111'')]"

theorem copies_in_one_place_witness:
  "\<exists>it m mb. ct_items (lb_catalog (lib_run StandardFine 10 one_copy)) ''c1'' = Some it \<and> it_status it = ON_LOAN
     \<and> lb_members (lib_run StandardFine 10 one_copy) m = Some mb \<and> map_of (mb_loans mb) ''c1'' \<noteq> None"
proof -
  let ?s = "lib_run StandardFine 10 one_copy"
  have "(case ct_items (lb_catalog ?s) ''c1'' of None \<Rightarrow> False | Some it \<Rightarrow> it_status it = ON_LOAN)" by code_simp
  then obtain it where it: "ct_items (lb_catalog ?s) ''c1'' = Some it" "it_status it = ON_LOAN" by (auto split: option.splits)
  then show ?thesis using copies_in_one_place [OF refl it(1)] by blast
qed

definition fills_catalog :: "int \<times> lib_op \<Rightarrow> bool" where
  "fills_catalog x = (case snd x of Add_item b isbn rack \<Rightarrow> True | Add_book isbn b \<Rightarrow> True | _ \<Rightarrow> False)"

text \<open>C26. Nobody passes the queue. With a catalog that was filled before, as long as members wait for a title none of its copies is on
  the shelf, and a member who borrows one has a copy on hold, or nobody is left waiting.\<close>

theorem nobody_passes_the_queue:
  assumes "s = lib_run fines block (stock_ops @ ops)" "list_all fills_catalog stock_ops" "list_all (\<lambda>x. \<not> adds_copy x) ops"
  shows "(\<forall>b it. ct_items (lb_catalog s) b = Some it \<and> waiting s (it_isbn it) \<noteq> [] \<longrightarrow> it_status it \<noteq> AVAILABLE)
    \<and> (\<forall>today m isbn. \<not> isl (snd (borrow s today m isbn)) \<longrightarrow>
         held_item_for (expire_holds s today isbn) m isbn \<noteq> None \<or> waiting (expire_holds s today isbn) isbn = [])"
proof -
  have pre: "lib_ok {} (run_ops lib_step t xs) \<and> queue_ok {} (run_ops lib_step t xs) \<and> lb_waitlist (run_ops lib_step t xs) = Map.empty"
    if "lib_ok {} t" "queue_ok {} t" "lb_waitlist t = Map.empty" "list_all fills_catalog xs" for t xs
    using that
  proof (induction xs arbitrary: t)
    case (Cons x xs)
    let ?u = "fst (lib_step t x)"
    have "lib_ok {} ?u \<and> queue_ok {} ?u \<and> lb_waitlist ?u = Map.empty"
    proof (cases "adds_copy x")
      case True
      then obtain b isbn rack where x: "snd x = Add_item b isbn rack" by (auto simp: adds_copy_def split: lib_op.splits)
      have "waiting t isbn = []" using Cons.prems(3) by (simp add: waiting_def)
      then show ?thesis using add_item_ok [OF Cons.prems(1), of b isbn rack] Cons.prems(1-3)
        by (cases "add_item (lb_catalog t) b \<lparr>it_isbn = isbn, it_rack = rack, it_status = AVAILABLE\<rparr>") (simp_all add: lib_step_def x)
    next
      case False
      then obtain i b where x: "snd x = Add_book i b" using Cons.prems(4) by (auto simp: adds_copy_def fills_catalog_def split: lib_op.splits)
      show ?thesis using add_book_keeps [OF Cons.prems(1), of i b] Cons.prems(2,3) by (simp add: lib_step_def x keeps_def)
    qed
    then show ?case using Cons.IH [of ?u] Cons.prems(4) by simp
  qed simp
  have post: "lib_ok {} (run_ops lib_step t xs) \<and> queue_ok {} (run_ops lib_step t xs)"
    if "lib_ok {} t" "queue_ok {} t" "list_all (\<lambda>x. \<not> adds_copy x) xs" for t xs
    using that
  proof (induction xs arbitrary: t)
    case (Cons x xs)
    then show ?case using lib_step_keeps [OF Cons.prems(1), of x] by (simp add: keeps_def)
  qed simp
  have start: "lb_waitlist (new_library new_catalog fines block) = Map.empty" by (simp add: new_library_def)
  have ok: "lib_ok {} s" "queue_ok {} s"
    using post [OF _ _ assms(3)] pre [OF new_library_ok start assms(2)] by (simp_all add: assms(1) lib_run_def run_ops_append)
  have "held_item_for (expire_holds s today isbn) m isbn \<noteq> None \<or> waiting (expire_holds s today isbn) isbn = []"
    if b: "\<not> isl (snd (borrow s today m isbn))" for today m isbn
  proof (rule ccontr)
    let ?s = "expire_holds s today isbn"
    assume "\<not> (held_item_for ?s m isbn \<noteq> None \<or> waiting ?s isbn = [])"
    then have h: "held_item_for ?s m isbn = None" "waiting ?s isbn \<noteq> []" by simp_all
    have ok': "lib_ok {} ?s" "queue_ok {} ?s" using expire_ok [OF ok(1)] ok(2) by simp_all
    have "\<exists>c. first_available ?s isbn = Inr (Some c)" using b h(1)
      by (cases "first_available ?s isbn") (auto simp: borrow_def Let_def or_raise_def split: sum.splits option.splits)
    then obtain c it where "items ?s c = Some it" "it_status it = AVAILABLE" "isbn_of ?s c = isbn" using shelf_item [OF ok'(1)] by blast
    then show False using ok'(2) h(2) by (auto simp: queue_ok_def isbn_of_def the_item_def)
  qed
  moreover have "it_status it \<noteq> AVAILABLE" if "items s b = Some it" "waiting s (it_isbn it) \<noteq> []" for b it
    using ok(2) that by (auto simp: queue_ok_def)
  ultimately show ?thesis by blast
qed

theorem nobody_passes_the_queue_witness:
  "waiting (lib_run StandardFine 10 one_copy) ''111'' = [2, 3]
   \<and> (\<exists>it. ct_items (lb_catalog (lib_run StandardFine 10 one_copy)) ''c1'' = Some it \<and> it_status it \<noteq> AVAILABLE)"
proof -
  have e: "one_copy = take 2 one_copy @ drop 2 one_copy" by simp
  let ?s = "lib_run StandardFine 10 (take 2 one_copy @ drop 2 one_copy)"
  have w: "waiting ?s ''111'' = [2, 3]" by code_simp
  have "(case ct_items (lb_catalog ?s) ''c1'' of None \<Rightarrow> False | Some it \<Rightarrow> it_isbn it = ''111'')" by code_simp
  then obtain it where it: "ct_items (lb_catalog ?s) ''c1'' = Some it" "it_isbn it = ''111''" by (auto split: option.splits)
  have l: "list_all fills_catalog (take 2 one_copy)" by (simp add: one_copy_def fills_catalog_def)
  have m: "list_all (\<lambda>x. \<not> adds_copy x) (drop 2 one_copy)" by (simp add: one_copy_def adds_copy_def)
  have "it_status it \<noteq> AVAILABLE" using nobody_passes_the_queue [OF refl l m, of StandardFine 10] it w by fastforce
  then show ?thesis using w it by (simp only: append_take_drop_id) blast
qed

text \<open>C27. First come, first served. A copy that comes back, when no hold on its title has run out, is set aside for the member who
  has waited longest, for three days, and the others move up; when nobody waits it goes back on the shelf. The loan is closed with
  the fine of the days it is late, which the member then owes.\<close>

theorem return_serves_the_queue:
  assumes "s = lib_run fines block ops" "lb_active s b = Some l" "isbn = it_isbn (the_item s b)"
    "list_all (\<lambda>x. it_isbn (the_item s (fst x)) = isbn \<longrightarrow> today \<le> hd_expires (snd x)) (lb_holds s)"
  shows "snd (return_item s today b) = Inr l
    \<and> (case waiting s isbn of
         [] \<Rightarrow> it_status (the_item (fst (return_item s today b)) b) = AVAILABLE
       | m # ms \<Rightarrow> map_of (lb_holds (fst (return_item s today b))) b = Some \<lparr>hd_member = m, hd_expires = today + 3\<rparr>
           \<and> waiting (fst (return_item s today b)) isbn = ms \<and> it_status (the_item (fst (return_item s today b)) b) = ON_HOLD)
    \<and> (\<exists>lo mb. lb_loans s l = Some lo \<and> lb_members s (ln_member lo) = Some mb
         \<and> the_loan (fst (return_item s today b)) l
             = lo\<lparr>ln_returned := Some today, ln_fine := calculate_fine (lb_fines s) (days_overdue lo today) (mb_type mb)\<rparr>
         \<and> map_option mb_fine (lb_members (fst (return_item s today b)) (ln_member lo))
             = Some (mb_fine mb + calculate_fine (lb_fines s) (days_overdue lo today) (mb_type mb)))"
proof -
  have ok: "lib_ok {} s" unfolding assms(1) by (rule lib_run_ok)
  obtain lo mb where lo: "loan_of s b l lo mb" using loans_okD(1) [OF lib_okD(3) [OF ok] assms(2)] by blast
  note f = loan_ofD [OF lo]
  define fine where "fine = calculate_fine (lb_fines s) (days_overdue lo today) (mb_type mb)"
  let ?t = "close_loan s b l today fine"
  have t: "items ?t = items s" "lb_holds ?t = lb_holds s" "lb_waitlist ?t = lb_waitlist s" "the_item ?t = the_item s"
    by (simp_all add: close_loan_def Let_def the_item_def fun_eq_iff)
  have still: "expire_holds ?t today isbn = ?t"
  proof -
    have "foldl (expire_hold today isbn) ?t xs = ?t" if "set xs \<subseteq> set (lb_holds ?t)" for xs
      using that
    proof (induction xs)
      case (Cons x xs)
      have "expire_hold today isbn ?t x = ?t" using assms(4) Cons.prems by (force simp: expire_hold_def t list_all_iff)
      then show ?case using Cons by simp
    qed simp
    then show ?thesis by (simp add: expire_holds_def)
  qed
  have a: "active_loan s b = Inr l" using f(1) assms(2) by (simp add: active_loan_def)
  have "return_item s today b = (release_copy (expire_holds ?t today (it_isbn (the_item ?t b))) b today, Inr l)"
    using a f(2,6) by (simp add: return_item_def the_loan_def Let_def fine_def)
  then have r: "return_item s today b = (release_copy ?t b today, Inr l)" by (simp only: t(4) assms(3) [symmetric] still)
  have same: "same_loans ?t (release_copy ?t b today)" by (rule release_same_loans) (use f(1) t in simp)
  have "the_loan (fst (return_item s today b)) l = lo\<lparr>ln_returned := Some today, ln_fine := fine\<rparr>"
    "map_option mb_fine (lb_members (fst (return_item s today b)) (ln_member lo)) = Some (mb_fine mb + fine)"
    using same_loansD(1,2) [OF same] f(2,6) by (simp_all add: r the_loan_def close_loan_def Let_def)
  moreover have "(case waiting s isbn of
         [] \<Rightarrow> it_status (the_item (fst (return_item s today b)) b) = AVAILABLE
       | m # ms \<Rightarrow> map_of (lb_holds (fst (return_item s today b))) b = Some \<lparr>hd_member = m, hd_expires = today + 3\<rparr>
           \<and> waiting (fst (return_item s today b)) isbn = ms \<and> it_status (the_item (fst (return_item s today b)) b) = ON_HOLD)"
  proof -
    have w: "waiting ?t isbn = waiting s isbn" by (simp add: waiting_def t)
    show ?thesis
      by (cases "waiting s isbn") (use w assms(3) t in \<open>simp_all add: r release_copy_def set_status_def the_item_def waiting_def update_conv' HOLD_DAYS_def\<close>)
  qed
  ultimately show ?thesis using r f(2,6) by (auto simp: fine_def)
qed

theorem return_serves_the_queue_witness:
  "map_of (lb_holds (fst (return_item (lib_run StandardFine 10 one_copy) 20 ''c1''))) ''c1'' = Some \<lparr>hd_member = 2, hd_expires = 23\<rparr>
   \<and> waiting (fst (return_item (lib_run StandardFine 10 one_copy) 20 ''c1'')) ''111'' = [3]"
proof -
  let ?s = "lib_run StandardFine 10 one_copy"
  have a: "lb_active ?s ''c1'' = Some 4" "''111'' = it_isbn (the_item ?s ''c1'')" "waiting ?s ''111'' = [2, 3]" by code_simp+
  have h: "list_all (\<lambda>x. it_isbn (the_item ?s (fst x)) = ''111'' \<longrightarrow> 20 \<le> hd_expires (snd x)) (lb_holds ?s)" by code_simp
  show ?thesis using return_serves_the_queue [OF refl a(1,2) h] a(3) by simp
qed

text \<open>The loop over the tiers of \<open>ProgressiveFine\<close> is the tariff: 1 a day up to day 7, 2 a day up to day 30, 5 a day after, at most
  the cap; PREMIUM members and books in time pay nothing. It never falls as the days grow.\<close>

definition tariff :: "int \<Rightarrow> rat" where
  "tariff d = of_int (min d 7) + 2 * of_int (max 0 (min d 30 - 7)) + 5 * of_int (max 0 (d - 30))"

theorem progressive_fine_is_the_tariff:
  "calculate_fine (ProgressiveFine cap) d t =
     (if t = PREMIUM \<or> d \<le> 0 then 0 else (case cap of None \<Rightarrow> tariff d | Some c \<Rightarrow> min (tariff d) c))
   \<and> (\<forall>e. 0 \<le> d \<and> d \<le> e \<and> (case cap of None \<Rightarrow> True | Some c \<Rightarrow> 0 \<le> c) \<longrightarrow>
        calculate_fine (ProgressiveFine cap) d t \<le> calculate_fine (ProgressiveFine cap) e t)"
proof -
  have loop: "tier_loop d [(Some 7, 1), (Some 30, 2), (None, 5)] 0 0 = tariff d" if "0 < d" for d
    using that by (auto simp: tariff_def min_def max_def algebra_simps)
  have eq: "calculate_fine (ProgressiveFine cap) d t = (if t = PREMIUM \<or> d \<le> 0 then 0 else (case cap of None \<Rightarrow> tariff d | Some c \<Rightarrow> min (tariff d) c))" for d
    using loop [of d] by (cases cap) (simp_all del: tier_loop.simps)
  have mono: "tariff d \<le> tariff e" if "d \<le> e" for d e
    unfolding tariff_def using that by (intro add_mono mult_left_mono) (auto simp: min_def max_def)
  have nonneg: "0 \<le> tariff d" if "0 \<le> d" for d using that by (simp add: tariff_def)
  show ?thesis unfolding eq using mono nonneg by (auto split: option.splits simp: min_def intro: order_trans)
qed

theorem progressive_fine_is_the_tariff_witness:
  "calculate_fine (ProgressiveFine None) 31 STUDENT = 58
   \<and> calculate_fine (ProgressiveFine None) 31 STUDENT \<le> calculate_fine (ProgressiveFine None) 40 STUDENT"
  using progressive_fine_is_the_tariff [of None 31 STUDENT] by (simp add: tariff_def)

section \<open>A copy added while members wait\<close>

text \<open>\<open>Catalog.add_item\<close> puts a new copy on the shelf although members wait for its title: a member who comes along then borrows it
  before those who wait, unlike a copy that is returned.\<close>

theorem new_copy_passes_the_queue:
  "waiting (lib_run StandardFine 10 (one_copy @ [(2, Add_item ''c2'' ''111'' ''A2''), (2, Register ''Dave'' PUBLIC)])) ''111'' = [2, 3]"
  "snd (borrow (lib_run StandardFine 10 (one_copy @ [(2, Add_item ''c2'' ''111'' ''A2''), (2, Register ''Dave'' PUBLIC)])) 3 5 ''111'') = Inr 6"
  by code_simp+

end
