(* ===== verification/Parking.thy ===== *)
theory Parking
  imports Prelude
begin

text \<open>
  The parking lot of \<open>python-low-level-design/parking-lot/parking_lot.py\<close>: vehicles and their factory, best-fit spot allocation over
  floors with an index of free spots per type, tickets, fee strategies, and the lot, whose operations each run under one lock.
  A spot is known by its floor and its id there, a ticket by its number; a time is in microseconds and an argument of the call.
\<close>

declare split_paired_All [simp del] split_paired_Ex [simp del]

section \<open>Vehicles and spot types\<close>

datatype park_error = ParkingFullError | VehicleAlreadyParkedError | InvalidTicketError | ParkRaised py_error

datatype VehicleType = V_MOTORCYCLE | V_CAR | V_TRUCK

datatype SpotType = S_MOTORCYCLE | S_COMPACT | S_LARGE

definition all_spot_types :: "SpotType list" where
  "all_spot_types = [S_MOTORCYCLE, S_COMPACT, S_LARGE]"

fun spot_size :: "SpotType \<Rightarrow> nat" where
  "spot_size S_MOTORCYCLE = 1"
| "spot_size S_COMPACT = 2"
| "spot_size S_LARGE = 3"

text \<open>A class of vehicles is the smallest spot type its vehicles fit in.\<close>

record vehicle =
  vh_plate :: string
  vh_type :: VehicleType
  vh_required :: SpotType

definition new_vehicle :: "string \<Rightarrow> VehicleType \<Rightarrow> SpotType \<Rightarrow> py_error + vehicle" where
  "new_vehicle plate t required = (if plate = [] then Inl ValueError else Inr \<lparr>vh_plate = plate, vh_type = t, vh_required = required\<rparr>)"

definition vehicle_map :: "VehicleType \<rightharpoonup> SpotType" where
  "vehicle_map = [V_MOTORCYCLE \<mapsto> S_MOTORCYCLE, V_CAR \<mapsto> S_COMPACT, V_TRUCK \<mapsto> S_LARGE]"

definition create_vehicle :: "(VehicleType \<rightharpoonup> SpotType) \<Rightarrow> VehicleType \<Rightarrow> string \<Rightarrow> py_error + vehicle" where
  "create_vehicle classes t plate = (case classes t of None \<Rightarrow> Inl ValueError | Some required \<Rightarrow> new_vehicle plate t required)"

definition register_vehicle_type :: "(VehicleType \<rightharpoonup> SpotType) \<Rightarrow> VehicleType \<Rightarrow> SpotType \<Rightarrow> (VehicleType \<rightharpoonup> SpotType)" where
  "register_vehicle_type classes t required = classes(t \<mapsto> required)"

definition get_allowed_spots :: "vehicle \<Rightarrow> SpotType list" where
  "get_allowed_spots v = sort_key spot_size (filter (\<lambda>t. spot_size (vh_required v) \<le> spot_size t) all_spot_types)"

section \<open>Floors\<close>

record parking_spot =
  sp_type :: SpotType
  sp_vehicle :: "vehicle option"

definition is_available :: "parking_spot \<Rightarrow> bool" where
  "is_available sp \<longleftrightarrow> sp_vehicle sp = None"

definition spot_park :: "parking_spot \<Rightarrow> vehicle \<Rightarrow> park_error + parking_spot" where
  "spot_park sp v = (if sp_vehicle sp \<noteq> None then Inl (ParkRaised ValueError) else Inr (sp\<lparr>sp_vehicle := Some v\<rparr>))"

definition spot_vacate :: "parking_spot \<Rightarrow> park_error + parking_spot" where
  "spot_vacate sp = (if sp_vehicle sp = None then Inl (ParkRaised ValueError) else Inr (sp\<lparr>sp_vehicle := None\<rparr>))"

text \<open>\<open>_free\<close> has, for each type, the ids of the free spots in the order of insertion.\<close>

record parking_floor =
  fl_spots :: "string \<rightharpoonup> parking_spot"
  fl_free :: "SpotType \<Rightarrow> string list"

definition new_floor :: parking_floor where
  "new_floor = \<lparr>fl_spots = Map.empty, fl_free = (\<lambda>t. [])\<rparr>"

definition into_free :: "parking_floor \<Rightarrow> SpotType \<Rightarrow> string \<Rightarrow> parking_floor" where
  "into_free f t i = f\<lparr>fl_free := (fl_free f)(t := if i \<in> set (fl_free f t) then fl_free f t else fl_free f t @ [i])\<rparr>"

definition add_spot :: "int \<Rightarrow> parking_floor \<Rightarrow> string \<Rightarrow> int \<Rightarrow> parking_spot \<Rightarrow> park_error + parking_floor" where
  "add_spot number f i on_floor sp =
     (if fl_spots f i \<noteq> None then Inl (ParkRaised ValueError)
      else if on_floor \<noteq> number then Inl (ParkRaised ValueError)
      else (let f1 = f\<lparr>fl_spots := (fl_spots f)(i \<mapsto> sp)\<rparr> in Inr (if is_available sp then into_free f1 (sp_type sp) i else f1)))"

definition floor_count :: "parking_floor \<Rightarrow> SpotType \<Rightarrow> nat" where
  "floor_count f t = length (fl_free f t)"

definition first_free :: "parking_floor \<Rightarrow> SpotType \<Rightarrow> string option" where
  "first_free f t = (case fl_free f t of [] \<Rightarrow> None | i # is \<Rightarrow> Some i)"

definition occupy :: "parking_floor \<Rightarrow> string \<Rightarrow> vehicle \<Rightarrow> park_error + parking_floor" where
  "occupy f i v =
     (let sp = the (fl_spots f i)
      in bind_sum (spot_park sp v) (\<lambda>sp1.
           if i \<notin> set (fl_free f (sp_type sp)) then Inl (ParkRaised KeyError)
           else Inr (f\<lparr>fl_spots := (fl_spots f)(i \<mapsto> sp1), fl_free := (fl_free f)(sp_type sp := remove1 i (fl_free f (sp_type sp)))\<rparr>)))"

definition release :: "parking_floor \<Rightarrow> string \<Rightarrow> park_error + parking_floor" where
  "release f i =
     (let sp = the (fl_spots f i)
      in bind_sum (spot_vacate sp) (\<lambda>sp1. Inr (into_free (f\<lparr>fl_spots := (fl_spots f)(i \<mapsto> sp1)\<rparr>) (sp_type sp) i)))"

section \<open>Fees\<close>

datatype FeeCalculator = HourlyFeeCalculator | DailyFeeCalculator

definition ceil_units :: "int \<Rightarrow> int \<Rightarrow> int" where
  "ceil_units duration unit = max 1 \<lceil>rat_of_int duration / rat_of_int unit\<rceil>"

definition HOUR :: int where
  "HOUR = 3600000000"

fun calculate_fee :: "FeeCalculator \<Rightarrow> int \<Rightarrow> SpotType \<Rightarrow> rat" where
  "calculate_fee HourlyFeeCalculator d t = (case t of S_MOTORCYCLE \<Rightarrow> 10 | S_COMPACT \<Rightarrow> 20 | S_LARGE \<Rightarrow> 30) * of_int (ceil_units d HOUR)"
| "calculate_fee DailyFeeCalculator d t = (case t of S_MOTORCYCLE \<Rightarrow> 50 | S_COMPACT \<Rightarrow> 100 | S_LARGE \<Rightarrow> 150) * of_int (ceil_units d (24 * HOUR))"

section \<open>Tickets\<close>

datatype TicketStatus = T_ACTIVE | T_PAID | T_LOST

record ticket =
  tk_floor :: int
  tk_spot :: string
  tk_vehicle :: vehicle
  tk_entry :: int
  tk_exit :: "int option"
  tk_fee :: "rat option"
  tk_status :: TicketStatus

definition new_ticket :: "int \<Rightarrow> string \<Rightarrow> vehicle \<Rightarrow> int \<Rightarrow> ticket" where
  "new_ticket number i v now = \<lparr>tk_floor = number, tk_spot = i, tk_vehicle = v, tk_entry = now, tk_exit = None, tk_fee = None, tk_status = T_ACTIVE\<rparr>"

definition close_ticket :: "ticket \<Rightarrow> SpotType \<Rightarrow> int \<Rightarrow> FeeCalculator \<Rightarrow> rat \<Rightarrow> TicketStatus \<Rightarrow> park_error + rat \<times> ticket" where
  "close_ticket tk t now calc penalty status =
     (if tk_status tk \<noteq> T_ACTIVE then Inl InvalidTicketError
      else if status = T_ACTIVE then Inl (ParkRaised ValueError)
      else (let fee = calculate_fee calc (max (now - tk_entry tk) 0) t + penalty
            in Inr (fee, tk\<lparr>tk_exit := Some now, tk_fee := Some fee, tk_status := status\<rparr>)))"

section \<open>The lot\<close>

text \<open>\<open>_floors\<close> and \<open>_floor_by_number\<close> have the same floors: a list by number.\<close>

record parking_lot =
  pk_floors :: "(int \<times> parking_floor) list"
  pk_tickets :: "nat \<rightharpoonup> ticket"
  pk_next :: nat
  pk_calc :: FeeCalculator
  pk_active :: "string \<rightharpoonup> nat"

definition new_lot :: "FeeCalculator \<Rightarrow> parking_lot" where
  "new_lot calc = \<lparr>pk_floors = [], pk_tickets = Map.empty, pk_next = 1, pk_calc = calc, pk_active = Map.empty\<rparr>"

definition LOST_TICKET_PENALTY :: rat where
  "LOST_TICKET_PENALTY = 50"

definition add_floor :: "parking_lot \<Rightarrow> int \<Rightarrow> parking_floor \<Rightarrow> park_error + parking_lot" where
  "add_floor p number f =
     (if map_of (pk_floors p) number \<noteq> None then Inl (ParkRaised ValueError)
      else Inr (p\<lparr>pk_floors := sort_key fst (pk_floors p @ [(number, f)])\<rparr>))"

definition the_floor :: "parking_lot \<Rightarrow> int \<Rightarrow> parking_floor" where
  "the_floor p number = the (map_of (pk_floors p) number)"

definition put_floor :: "parking_lot \<Rightarrow> int \<Rightarrow> parking_floor \<Rightarrow> parking_lot" where
  "put_floor p number f = p\<lparr>pk_floors := map (\<lambda>x. if fst x = number then (number, f) else x) (pk_floors p)\<rparr>"

text \<open>The loops of \<open>_find_spot_locked\<close>: types, then floors.\<close>

fun on_floors :: "SpotType \<Rightarrow> (int \<times> parking_floor) list \<Rightarrow> (int \<times> string) option" where
  "on_floors t [] = None"
| "on_floors t (x # xs) = (case first_free (snd x) t of None \<Rightarrow> on_floors t xs | Some i \<Rightarrow> Some (fst x, i))"

fun over_types :: "SpotType list \<Rightarrow> (int \<times> parking_floor) list \<Rightarrow> (int \<times> string) option" where
  "over_types [] fs = None"
| "over_types (t # ts) fs = (case on_floors t fs of None \<Rightarrow> over_types ts fs | Some r \<Rightarrow> Some r)"

definition find_spot :: "parking_lot \<Rightarrow> vehicle \<Rightarrow> (int \<times> string) option" where
  "find_spot p v = over_types (get_allowed_spots v) (pk_floors p)"

definition park_vehicle :: "parking_lot \<Rightarrow> int \<Rightarrow> vehicle \<Rightarrow> parking_lot \<times> (park_error + nat)" where
  "park_vehicle p now v =
     (if pk_active p (vh_plate v) \<noteq> None then (p, Inl VehicleAlreadyParkedError)
      else (case find_spot p v of
              None \<Rightarrow> (p, Inl ParkingFullError)
            | Some (number, i) \<Rightarrow>
                or_raise p (occupy (the_floor p number) i v) (\<lambda>f.
                  ((put_floor p number f)\<lparr>pk_next := pk_next p + 1, pk_tickets := (pk_tickets p)(pk_next p \<mapsto> new_ticket number i v now),
                     pk_active := (pk_active p)(vh_plate v \<mapsto> pk_next p)\<rparr>, Inr (pk_next p)))))"

definition close_locked :: "parking_lot \<Rightarrow> int \<Rightarrow> nat \<Rightarrow> ticket \<Rightarrow> rat \<Rightarrow> TicketStatus \<Rightarrow> parking_lot \<times> (park_error + rat)" where
  "close_locked p now n tk penalty status =
     or_raise p (close_ticket tk (sp_type (the (fl_spots (the_floor p (tk_floor tk)) (tk_spot tk)))) now (pk_calc p) penalty status) (\<lambda>r.
       (let p1 = p\<lparr>pk_tickets := (pk_tickets p)(n \<mapsto> snd r)\<rparr>
        in or_raise p1 (release (the_floor p (tk_floor tk)) (tk_spot tk)) (\<lambda>f.
             ((put_floor p1 (tk_floor tk) f)\<lparr>pk_active := (pk_active p)(vh_plate (tk_vehicle tk) := None)\<rparr>, Inr (fst r)))))"

definition unpark_vehicle :: "parking_lot \<Rightarrow> int \<Rightarrow> nat \<Rightarrow> parking_lot \<times> (park_error + rat)" where
  "unpark_vehicle p now n =
     (case pk_tickets p n of None \<Rightarrow> (p, Inl InvalidTicketError) | Some tk \<Rightarrow> close_locked p now n tk 0 T_PAID)"

definition unpark_lost_ticket :: "parking_lot \<Rightarrow> int \<Rightarrow> string \<Rightarrow> parking_lot \<times> (park_error + rat)" where
  "unpark_lost_ticket p now plate =
     (case pk_active p plate of
        None \<Rightarrow> (p, Inl InvalidTicketError) | Some n \<Rightarrow> close_locked p now n (the (pk_tickets p n)) LOST_TICKET_PENALTY T_LOST)"

definition available_count :: "parking_lot \<Rightarrow> SpotType option \<Rightarrow> nat" where
  "available_count p t =
     sum_list (concat (map (\<lambda>x. map (floor_count (snd x)) (case t of None \<Rightarrow> all_spot_types | Some u \<Rightarrow> [u])) (pk_floors p)))"

datatype park_op = Add_floor int | Add_spot int string int SpotType | Park vehicle | Unpark nat | Unpark_lost string | Set_fees FeeCalculator

text \<open>A floor is added empty and a spot free; \<open>Add_spot\<close> with a floor that is not in the lot does nothing to it.\<close>

definition park_step :: "parking_lot \<Rightarrow> int \<times> park_op \<Rightarrow> parking_lot \<times> (park_error + unit)" where
  "park_step p x =
     (case snd x of
        Add_floor number \<Rightarrow> (case add_floor p number new_floor of Inl e \<Rightarrow> (p, Inl e) | Inr q \<Rightarrow> (q, Inr ()))
      | Add_spot number i on_floor t \<Rightarrow>
          (case map_of (pk_floors p) number of
             None \<Rightarrow> (p, Inr ())
           | Some f \<Rightarrow> (case add_spot number f i on_floor \<lparr>sp_type = t, sp_vehicle = None\<rparr> of Inl e \<Rightarrow> (p, Inl e) | Inr g \<Rightarrow> (put_floor p number g, Inr ())))
      | Park v \<Rightarrow> map_prod id (map_sum id (\<lambda>_. ())) (park_vehicle p (fst x) v)
      | Unpark n \<Rightarrow> map_prod id (map_sum id (\<lambda>_. ())) (unpark_vehicle p (fst x) n)
      | Unpark_lost plate \<Rightarrow> map_prod id (map_sum id (\<lambda>_. ())) (unpark_lost_ticket p (fst x) plate)
      | Set_fees calc \<Rightarrow> (p\<lparr>pk_calc := calc\<rparr>, Inr ()))"

end
