(* ===== verification/Parking_Books.thy ===== *)
theory Parking_Books
  imports Parking
begin

text \<open>
  Invariants of \<open>Parking\<close>: the index of free spots agrees with the spots, and the parked vehicles with the active tickets; from
  them that a vehicle gets the best spot there is, and what leaving costs.
\<close>

declare split_paired_All [simp del] split_paired_Ex [simp del]

section \<open>The invariant\<close>

definition floor_ok :: "parking_floor \<Rightarrow> bool" where
  "floor_ok f \<longleftrightarrow> (\<forall>t. distinct (fl_free f t) \<and> (\<forall>i. i \<in> set (fl_free f t) \<longleftrightarrow>
     (\<exists>sp. fl_spots f i = Some sp \<and> sp_type sp = t \<and> sp_vehicle sp = None)))"

definition spot_at :: "parking_lot \<Rightarrow> int \<Rightarrow> string \<Rightarrow> parking_spot option" where
  "spot_at p number i = Option.bind (map_of (pk_floors p) number) (\<lambda>f. fl_spots f i)"

definition floors_ok :: "parking_lot \<Rightarrow> bool" where
  "floors_ok p \<longleftrightarrow> distinct (map fst (pk_floors p)) \<and> sorted (map fst (pk_floors p)) \<and> (\<forall>x \<in> set (pk_floors p). floor_ok (snd x))"

definition in_spot :: "parking_lot \<Rightarrow> int \<Rightarrow> string \<Rightarrow> vehicle \<Rightarrow> bool" where
  "in_spot p number i v \<longleftrightarrow> (\<exists>sp. spot_at p number i = Some sp \<and> sp_vehicle sp = Some v)"

definition holds_ticket :: "parking_lot \<Rightarrow> nat \<Rightarrow> int \<Rightarrow> string \<Rightarrow> vehicle \<Rightarrow> bool" where
  "holds_ticket p n number i v \<longleftrightarrow> (\<exists>tk. pk_tickets p n = Some tk \<and> tk_status tk = T_ACTIVE \<and> tk_floor tk = number \<and> tk_spot tk = i \<and> tk_vehicle tk = v)"

definition tickets_ok :: "parking_lot \<Rightarrow> bool" where
  "tickets_ok p \<longleftrightarrow> (\<forall>n. pk_tickets p n \<noteq> None \<longrightarrow> n < pk_next p)
     \<and> (\<forall>plate n. pk_active p plate = Some n \<longleftrightarrow> (\<exists>number i v. holds_ticket p n number i v \<and> vh_plate v = plate))
     \<and> (\<forall>number i v. in_spot p number i v \<longleftrightarrow> (\<exists>n. holds_ticket p n number i v))"

definition park_ok :: "parking_lot \<Rightarrow> bool" where
  "park_ok p \<longleftrightarrow> floors_ok p \<and> tickets_ok p"

lemma floor_okD:
  assumes "floor_ok f"
  shows "distinct (fl_free f t)" "i \<in> set (fl_free f t) \<longleftrightarrow> (\<exists>sp. fl_spots f i = Some sp \<and> sp_type sp = t \<and> sp_vehicle sp = None)"
  using assms unfolding floor_ok_def by blast+

lemma floors_okD:
  assumes "floors_ok p"
  shows "distinct (map fst (pk_floors p))" "sorted (map fst (pk_floors p))" "x \<in> set (pk_floors p) \<Longrightarrow> floor_ok (snd x)"
    "map_of (pk_floors p) number = Some f \<Longrightarrow> floor_ok f"
proof -
  have all: "x \<in> set (pk_floors p) \<Longrightarrow> floor_ok (snd x)" for x using assms unfolding floors_ok_def by blast
  then show "x \<in> set (pk_floors p) \<Longrightarrow> floor_ok (snd x)" .
  show "map_of (pk_floors p) number = Some f \<Longrightarrow> floor_ok f" using all [OF map_of_SomeD [of "pk_floors p" number f]] by simp
qed (use assms in \<open>simp_all add: floors_ok_def\<close>)

lemma tickets_okD:
  assumes "tickets_ok p"
  shows "pk_tickets p n \<noteq> None \<Longrightarrow> n < pk_next p" "pk_active p plate = Some n \<longleftrightarrow> (\<exists>number i v. holds_ticket p n number i v \<and> vh_plate v = plate)"
    "in_spot p number i v \<longleftrightarrow> (\<exists>n. holds_ticket p n number i v)"
  using assms unfolding tickets_ok_def by blast+

section \<open>Floors\<close>

lemma put_floor_keys [simp]: "map fst (pk_floors (put_floor p number f)) = map fst (pk_floors p)"
  by (simp add: put_floor_def o_def)

lemma put_floor_map: "map_of (pk_floors p) number \<noteq> None \<Longrightarrow> map_of (pk_floors (put_floor p number f)) = (map_of (pk_floors p))(number \<mapsto> f)"
proof -
  assume "map_of (pk_floors p) number \<noteq> None"
  then have "map_of (map (\<lambda>x. if fst x = number then (number, f) else x) xs) = (map_of xs)(number \<mapsto> f)" if "map_of xs number \<noteq> None" for xs
    using that
  proof (induction xs)
    case (Cons x xs)
    have "map_of (map (\<lambda>x. if fst x = number then (number, f) else x) xs) m = map_of xs m" if "m \<noteq> number" for m
      using that by (induction xs) auto
    then show ?case using Cons by (cases "fst x = number") (auto simp: fun_eq_iff)
  qed simp
  then show ?thesis using \<open>map_of (pk_floors p) number \<noteq> None\<close> by (simp add: put_floor_def)
qed

lemma put_floor_simps [simp]:
  "pk_tickets (put_floor p number f) = pk_tickets p" "pk_next (put_floor p number f) = pk_next p" "pk_calc (put_floor p number f) = pk_calc p"
  "pk_active (put_floor p number f) = pk_active p"
  by (simp_all add: put_floor_def)

lemma put_floor_ok:
  assumes "floors_ok p" "floor_ok f"
  shows "floors_ok (put_floor p number f)"
proof -
  have "floor_ok (snd x)" if member: "x \<in> set (pk_floors (put_floor p number f))" for x
  proof -
    obtain y where "y \<in> set (pk_floors p)" "x = (if fst y = number then (number, f) else y)"
      using member unfolding put_floor_def by fastforce
    then show ?thesis using floors_okD(3) [OF assms(1)] assms(2) by (cases "fst y = number") simp_all
  qed
  then show ?thesis using floors_okD(1,2) [OF assms(1)] by (simp add: floors_ok_def)
qed

lemma into_free_ok:
  assumes f: "floor_ok f" and i: "fl_spots f i = None \<or> (\<exists>sq. fl_spots f i = Some sq \<and> sp_vehicle sq \<noteq> None)" and v: "sp_vehicle sp = None"
  shows "floor_ok (into_free (f\<lparr>fl_spots := (fl_spots f)(i \<mapsto> sp)\<rparr>) (sp_type sp) i)"
proof -
  let ?g = "into_free (f\<lparr>fl_spots := (fl_spots f)(i \<mapsto> sp)\<rparr>) (sp_type sp) i"
  have out: "i \<notin> set (fl_free f t)" for t using i by (auto simp: floor_okD(2) [OF f])
  have free: "fl_free ?g t = (if t = sp_type sp then fl_free f t @ [i] else fl_free f t)" for t using out by (simp add: into_free_def)
  have spots: "fl_spots ?g = (fl_spots f)(i \<mapsto> sp)" by (simp add: into_free_def)
  show ?thesis
    unfolding floor_ok_def
  proof (intro allI conjI)
    fix t show "distinct (fl_free ?g t)" using floor_okD(1) [OF f, of t] out by (auto simp: free)
    fix j show "j \<in> set (fl_free ?g t) \<longleftrightarrow> (\<exists>s. fl_spots ?g j = Some s \<and> sp_type s = t \<and> sp_vehicle s = None)"
      using floor_okD(2) [OF f, of j t] out [of t] v by (cases "j = i") (auto simp: free spots)
  qed
qed

lemma occupy_ok:
  assumes f: "floor_ok f" and i: "i \<in> set (fl_free f t)"
  obtains sp g where "fl_spots f i = Some sp" "sp_type sp = t" "sp_vehicle sp = None" "occupy f i v = Inr g" "floor_ok g"
    "fl_spots g = (fl_spots f)(i \<mapsto> sp\<lparr>sp_vehicle := Some v\<rparr>)"
proof -
  obtain sp where sp: "fl_spots f i = Some sp" "sp_type sp = t" "sp_vehicle sp = None" using floor_okD(2) [OF f, of i t] i by auto
  let ?g = "f\<lparr>fl_spots := (fl_spots f)(i \<mapsto> sp\<lparr>sp_vehicle := Some v\<rparr>), fl_free := (fl_free f)(t := remove1 i (fl_free f t))\<rparr>"
  have "occupy f i v = Inr ?g" using sp i by (simp add: occupy_def spot_park_def Let_def)
  moreover have "floor_ok ?g"
    unfolding floor_ok_def
  proof (intro allI conjI)
    fix u show "distinct (fl_free ?g u)" using floor_okD(1) [OF f] by (simp add: distinct_remove1)
    fix j show "j \<in> set (fl_free ?g u) \<longleftrightarrow> (\<exists>s. fl_spots ?g j = Some s \<and> sp_type s = u \<and> sp_vehicle s = None)"
      using floor_okD(1) [OF f, of t] floor_okD(2) [OF f, of j u] sp by (cases "j = i"; cases "u = t") (auto simp: set_remove1_eq)
  qed
  ultimately show thesis using that [OF sp] by simp
qed

lemma release_spot_ok:
  assumes f: "floor_ok f" and i: "fl_spots f i = Some sp" "sp_vehicle sp = Some v"
  obtains g where "release f i = Inr g" "floor_ok g" "fl_spots g = (fl_spots f)(i \<mapsto> sp\<lparr>sp_vehicle := None\<rparr>)"
proof -
  let ?sp = "sp\<lparr>sp_vehicle := None\<rparr>"
  let ?g = "into_free (f\<lparr>fl_spots := (fl_spots f)(i \<mapsto> ?sp)\<rparr>) (sp_type ?sp) i"
  have "floor_ok ?g" by (rule into_free_ok) (use f i in simp_all)
  moreover have "release f i = Inr ?g" using i by (simp add: release_def spot_vacate_def Let_def)
  moreover have "fl_spots ?g = (fl_spots f)(i \<mapsto> ?sp)" by (simp add: into_free_def)
  ultimately show thesis using that by blast
qed

section \<open>The search\<close>

definition free_at :: "parking_lot \<Rightarrow> int \<Rightarrow> string \<Rightarrow> SpotType \<Rightarrow> bool" where
  "free_at p number i t \<longleftrightarrow> (\<exists>sp. spot_at p number i = Some sp \<and> sp_type sp = t \<and> sp_vehicle sp = None)"

lemma free_at_floor:
  assumes "floors_ok p"
  shows "free_at p number i t \<longleftrightarrow> (\<exists>f. (number, f) \<in> set (pk_floors p) \<and> i \<in> set (fl_free f t))"
proof -
  have m: "(number, f) \<in> set (pk_floors p) \<longleftrightarrow> map_of (pk_floors p) number = Some f" for f
    using floors_okD(1) [OF assms] by simp
  have "map_of (pk_floors p) number = Some f \<Longrightarrow> i \<in> set (fl_free f t) \<longleftrightarrow> (\<exists>sp. fl_spots f i = Some sp \<and> sp_type sp = t \<and> sp_vehicle sp = None)" for f
    using floor_okD(2) [OF floors_okD(4) [OF assms]] by blast
  then show ?thesis unfolding m free_at_def spot_at_def by (cases "map_of (pk_floors p) number") auto
qed

lemma on_floors_None: "on_floors t fs = None \<longleftrightarrow> (\<forall>x \<in> set fs. fl_free (snd x) t = [])"
  by (induction fs) (auto simp: first_free_def split: list.splits)

lemma on_floors_Some:
  assumes "on_floors t fs = Some (n, i)" "sorted (map fst fs)"
  shows "\<exists>f. (n, f) \<in> set fs \<and> i \<in> set (fl_free f t) \<and> (\<forall>x \<in> set fs. fl_free (snd x) t \<noteq> [] \<longrightarrow> n \<le> fst x)"
  using assms
proof (induction fs)
  case (Cons x fs)
  show ?case
  proof (cases "fl_free (snd x) t")
    case Nil
    then show ?thesis using Cons by (auto simp: first_free_def)
  next
    case (Cons j js)
    then have "n = fst x" "i = j" using Cons.prems(1) by (simp_all add: first_free_def)
    then show ?thesis using Cons Cons.prems(2) by (intro exI [of _ "snd x"]) auto
  qed
qed simp

lemma allowed_spots: "get_allowed_spots v = (case vh_required v of S_MOTORCYCLE \<Rightarrow> [S_MOTORCYCLE, S_COMPACT, S_LARGE] | S_COMPACT \<Rightarrow> [S_COMPACT, S_LARGE] | S_LARGE \<Rightarrow> [S_LARGE])"
  by (cases "vh_required v") (simp_all add: get_allowed_spots_def all_spot_types_def)

lemma over_types_None: "over_types ts fs = None \<longleftrightarrow> (\<forall>t \<in> set ts. on_floors t fs = None)"
  by (induction ts) (auto split: option.splits)

lemma over_types_Some:
  "over_types ts fs = Some r \<Longrightarrow> sorted (map spot_size ts) \<Longrightarrow> \<exists>t \<in> set ts. on_floors t fs = Some r \<and> (\<forall>u \<in> set ts. spot_size u < spot_size t \<longrightarrow> on_floors u fs = None)"
  by (induction ts) (fastforce split: option.splits)+

lemma fits_allowed: "t \<in> set (get_allowed_spots v) \<longleftrightarrow> spot_size (vh_required v) \<le> spot_size t"
  by (cases "vh_required v"; cases t) (simp_all add: allowed_spots)

lemma allowed_sorted: "sorted (map spot_size (get_allowed_spots v))"
  by (cases "vh_required v") (simp_all add: allowed_spots)

lemma spot_size_inj [simp]: "spot_size t = spot_size u \<longleftrightarrow> t = u"
  by (cases t; cases u) simp_all

lemma find_spot_None:
  assumes "floors_ok p"
  shows "find_spot p v = None \<longleftrightarrow> (\<forall>number i t. free_at p number i t \<longrightarrow> spot_size t < spot_size (vh_required v))"
proof -
  have "(\<forall>t. spot_size (vh_required v) \<le> spot_size t \<longrightarrow> (\<forall>x \<in> set (pk_floors p). fl_free (snd x) t = []))
    \<longleftrightarrow> (\<forall>number i t. free_at p number i t \<longrightarrow> spot_size t < spot_size (vh_required v))"
  proof
    assume l: "\<forall>t. spot_size (vh_required v) \<le> spot_size t \<longrightarrow> (\<forall>x \<in> set (pk_floors p). fl_free (snd x) t = [])"
    show "\<forall>number i t. free_at p number i t \<longrightarrow> spot_size t < spot_size (vh_required v)"
    proof (intro allI impI, rule ccontr)
      fix number i t assume "free_at p number i t" "\<not> spot_size t < spot_size (vh_required v)"
      then obtain g where "(number, g) \<in> set (pk_floors p)" "i \<in> set (fl_free g t)" "spot_size (vh_required v) \<le> spot_size t"
        by (auto simp: free_at_floor [OF assms])
      then have "fl_free (snd (number, g)) t = []" using l by blast
      then show False using \<open>i \<in> set (fl_free g t)\<close> by simp
    qed
  next
    assume r: "\<forall>number i t. free_at p number i t \<longrightarrow> spot_size t < spot_size (vh_required v)"
    show "\<forall>t. spot_size (vh_required v) \<le> spot_size t \<longrightarrow> (\<forall>x \<in> set (pk_floors p). fl_free (snd x) t = [])"
    proof (intro allI impI ballI, rule ccontr)
      fix t x assume t: "spot_size (vh_required v) \<le> spot_size t" "x \<in> set (pk_floors p)" "fl_free (snd x) t \<noteq> []"
      then have "free_at p (fst x) (hd (fl_free (snd x) t)) t" unfolding free_at_floor [OF assms] by (intro exI [of _ "snd x"]) simp
      then show False using r t(1) by force
    qed
  qed
  then show ?thesis unfolding find_spot_def over_types_None on_floors_None using fits_allowed [of _ v] by blast
qed

lemma find_spot_Some:
  assumes ok: "floors_ok p" and r: "find_spot p v = Some (n, i)"
  obtains f t where "map_of (pk_floors p) n = Some f" "i \<in> set (fl_free f t)" "spot_size (vh_required v) \<le> spot_size t"
    "\<And>m j u. free_at p m j u \<Longrightarrow> spot_size (vh_required v) \<le> spot_size u \<Longrightarrow> spot_size t < spot_size u \<or> t = u \<and> n \<le> m"
proof -
  obtain t where t: "t \<in> set (get_allowed_spots v)" "on_floors t (pk_floors p) = Some (n, i)"
    "\<forall>u \<in> set (get_allowed_spots v). spot_size u < spot_size t \<longrightarrow> on_floors u (pk_floors p) = None"
    using over_types_Some [OF r [unfolded find_spot_def] allowed_sorted] by blast
  obtain f where f: "(n, f) \<in> set (pk_floors p)" "i \<in> set (fl_free f t)" "\<forall>x \<in> set (pk_floors p). fl_free (snd x) t \<noteq> [] \<longrightarrow> n \<le> fst x"
    using on_floors_Some [OF t(2) floors_okD(2) [OF ok]] by blast
  have best: "spot_size t < spot_size u \<or> t = u \<and> n \<le> m" if fr: "free_at p m j u" "spot_size (vh_required v) \<le> spot_size u" for m j u
  proof -
    obtain g where g: "(m, g) \<in> set (pk_floors p)" "j \<in> set (fl_free g u)" using fr(1) unfolding free_at_floor [OF ok] by blast
    then have "fl_free (snd (m, g)) u \<noteq> []" by auto
    then have "on_floors u (pk_floors p) \<noteq> None" using g(1) unfolding on_floors_None by blast
    then have "\<not> spot_size u < spot_size t" using t(3) fr(2) by (auto simp: fits_allowed)
    moreover have "n \<le> m" if "u = t" using f(3) g that by force
    moreover have "spot_size t \<noteq> spot_size u" if "t \<noteq> u" using that by simp
    ultimately show ?thesis by (cases "t = u") (simp, linarith)
  qed
  have "map_of (pk_floors p) n = Some f" using f(1) floors_okD(1) [OF ok] by simp
  from that [OF this f(2) _ best] show thesis using t(1) by (simp add: fits_allowed)
qed

section \<open>The operations keep the invariant\<close>

lemma spot_at_put: "map_of (pk_floors p) number \<noteq> None \<Longrightarrow> spot_at (put_floor p number f) m j = (if m = number then fl_spots f j else spot_at p m j)"
  by (simp add: spot_at_def put_floor_map)

lemma park_okD: "park_ok p \<Longrightarrow> floors_ok p" "park_ok p \<Longrightarrow> tickets_ok p"
  by (simp_all add: park_ok_def)

text \<open>The updates of tickets and plates do not touch the floors.\<close>

lemma same_floors: "pk_floors q = pk_floors p \<Longrightarrow> spot_at q = spot_at p" "pk_floors q = pk_floors p \<Longrightarrow> floors_ok q = floors_ok p"
  by (simp_all add: spot_at_def floors_ok_def fun_eq_iff)

lemma park_vehicle_ok:
  assumes ok: "park_ok p" and r: "find_spot p v = Some (number, i)" and plate: "pk_active p (vh_plate v) = None"
  obtains u sp where "park_vehicle p now v = (u, Inr (pk_next p))" "park_ok u" "spot_at p number i = Some sp" "sp_vehicle sp = None"
    "spot_size (vh_required v) \<le> spot_size (sp_type sp)" "pk_tickets u (pk_next p) = Some (new_ticket number i v now)" "in_spot u number i v"
    "\<And>m j t. free_at p m j t \<Longrightarrow> spot_size (vh_required v) \<le> spot_size t \<Longrightarrow> spot_size (sp_type sp) < spot_size t \<or> sp_type sp = t \<and> number \<le> m"
proof -
  have fo: "floors_ok p" and to: "tickets_ok p" using park_okD [OF ok] by simp_all
  note t = tickets_okD [OF to]
  obtain f ty where f: "map_of (pk_floors p) number = Some f" "i \<in> set (fl_free f ty)" "spot_size (vh_required v) \<le> spot_size ty"
    and best: "\<And>m j u. free_at p m j u \<Longrightarrow> spot_size (vh_required v) \<le> spot_size u \<Longrightarrow> spot_size ty < spot_size u \<or> ty = u \<and> number \<le> m"
    using find_spot_Some [OF fo r] by metis
  have fok: "floor_ok f" by (rule floors_okD(4) [OF fo f(1)])
  obtain sp g where g: "fl_spots f i = Some sp" "sp_type sp = ty" "sp_vehicle sp = None" "occupy f i v = Inr g" "floor_ok g"
    "fl_spots g = (fl_spots f)(i \<mapsto> sp\<lparr>sp_vehicle := Some v\<rparr>)"
    by (rule occupy_ok [OF fok f(2)])
  let ?n = "pk_next p"
  define u where "u = (put_floor p number g)\<lparr>pk_next := ?n + 1, pk_tickets := (pk_tickets p)(?n \<mapsto> new_ticket number i v now), pk_active := (pk_active p)(vh_plate v \<mapsto> ?n)\<rparr>"
  have fields: "pk_tickets u = (pk_tickets p)(?n \<mapsto> new_ticket number i v now)" "pk_active u = (pk_active p)(vh_plate v \<mapsto> ?n)" "pk_next u = ?n + 1"
    "pk_floors u = pk_floors (put_floor p number g)" by (simp_all add: u_def)
  have at: "spot_at p number i = Some sp" using f(1) g(1) by (simp add: spot_at_def)
  have u: "park_vehicle p now v = (u, Inr ?n)" using plate r f(1) g(4) by (simp add: park_vehicle_def the_floor_def u_def)
  have known: "map_of (pk_floors p) number \<noteq> None" using f(1) by simp
  have spots: "spot_at u m j = (if m = number \<and> j = i then Some (sp\<lparr>sp_vehicle := Some v\<rparr>) else spot_at p m j)" for m j
  proof -
    have "spot_at u = spot_at (put_floor p number g)" by (rule same_floors(1)) (simp add: fields)
    then show ?thesis using f(1) by (simp add: spot_at_put [OF known] g(6)) (simp add: spot_at_def)
  qed
  have ins: "in_spot u m j w \<longleftrightarrow> m = number \<and> j = i \<and> w = v \<or> in_spot p m j w" for m j w
    using at g(3) by (auto simp: in_spot_def spots)
  have fresh: "pk_tickets p ?n = None" using t(1) [of ?n] by (cases "pk_tickets p ?n") simp_all
  have held: "holds_ticket u k m j w \<longleftrightarrow> k = ?n \<and> m = number \<and> j = i \<and> w = v \<or> holds_ticket p k m j w" for k m j w
    using fresh by (auto simp: holds_ticket_def new_ticket_def fields)
  have no: "\<not> holds_ticket p k m j w" if "vh_plate w = vh_plate v" for k m j w
    using t(2) [of "vh_plate v" k] plate that by auto
  have "tickets_ok u"
    unfolding tickets_ok_def
  proof (intro conjI allI impI)
    fix k assume "pk_tickets u k \<noteq> None"
    then show "k < pk_next u" using t(1) [of k] by (auto simp: fields split: if_splits)
  next
    fix plate' k
    show "pk_active u plate' = Some k \<longleftrightarrow> (\<exists>m j w. holds_ticket u k m j w \<and> vh_plate w = plate')"
    proof (cases "plate' = vh_plate v")
      case True
      then show ?thesis using no by (auto simp: held fields)
    next
      case False
      then have "pk_active u plate' = pk_active p plate'" by (simp add: fields)
      then show ?thesis using t(2) [of plate' k] False by (auto simp: held)
    qed
  next
    fix m j w show "in_spot u m j w \<longleftrightarrow> (\<exists>k. holds_ticket u k m j w)" using t(3) [of m j w] by (auto simp: ins held)
  qed
  moreover have "floors_ok u"
  proof -
    have "floors_ok u = floors_ok (put_floor p number g)" by (rule same_floors(2)) (simp add: fields)
    then show ?thesis using put_floor_ok [OF fo g(5)] by simp
  qed
  ultimately have "park_ok u" by (simp add: park_ok_def)
  from that [OF u this at g(3) _ _ _ best [folded g(2)]] show thesis using f(3) g(2) ins by (simp add: fields)
qed

lemma close_locked_ok:
  assumes ok: "park_ok p" and tk: "pk_tickets p n = Some tk" and st: "status \<noteq> T_ACTIVE"
  shows "(tk_status tk \<noteq> T_ACTIVE \<and> close_locked p now n tk penalty status = (p, Inl InvalidTicketError))
    \<or> (tk_status tk = T_ACTIVE \<and> (\<exists>u sp. spot_at p (tk_floor tk) (tk_spot tk) = Some sp \<and> sp_vehicle sp = Some (tk_vehicle tk)
        \<and> close_locked p now n tk penalty status = (u, Inr (calculate_fee (pk_calc p) (max (now - tk_entry tk) 0) (sp_type sp) + penalty)) \<and> park_ok u
        \<and> spot_at u = (spot_at p)(tk_floor tk := (spot_at p (tk_floor tk))(tk_spot tk \<mapsto> sp\<lparr>sp_vehicle := None\<rparr>))
        \<and> pk_active u = (pk_active p)(vh_plate (tk_vehicle tk) := None)))"
proof (cases "tk_status tk = T_ACTIVE")
  case False
  then show ?thesis by (simp add: close_locked_def close_ticket_def)
next
  case True
  let ?number = "tk_floor tk" and ?i = "tk_spot tk" and ?v = "tk_vehicle tk"
  have fo: "floors_ok p" and to: "tickets_ok p" using park_okD [OF ok] by simp_all
  note t = tickets_okD [OF to]
  have h: "holds_ticket p n ?number ?i ?v" using tk True by (simp add: holds_ticket_def)
  then have "in_spot p ?number ?i ?v" using t(3) by blast
  then obtain f sp where f: "map_of (pk_floors p) ?number = Some f" "fl_spots f ?i = Some sp" "sp_vehicle sp = Some ?v"
    by (auto simp: in_spot_def spot_at_def bind_eq_Some_conv)
  have at: "spot_at p ?number ?i = Some sp" using f by (simp add: spot_at_def)
  obtain g where g: "release f ?i = Inr g" "floor_ok g" "fl_spots g = (fl_spots f)(?i \<mapsto> sp\<lparr>sp_vehicle := None\<rparr>)"
    by (rule release_spot_ok [OF floors_okD(4) [OF fo f(1)] f(2,3)])
  define fee where "fee = calculate_fee (pk_calc p) (max (now - tk_entry tk) 0) (sp_type sp) + penalty"
  let ?tk = "tk\<lparr>tk_exit := Some now, tk_fee := Some fee, tk_status := status\<rparr>"
  let ?p1 = "p\<lparr>pk_tickets := (pk_tickets p)(n \<mapsto> ?tk)\<rparr>"
  define u where "u = (put_floor ?p1 ?number g)\<lparr>pk_active := (pk_active p)(vh_plate ?v := None)\<rparr>"
  have fields: "pk_tickets u = (pk_tickets p)(n \<mapsto> ?tk)" "pk_active u = (pk_active p)(vh_plate ?v := None)" "pk_next u = pk_next p"
    "pk_floors u = pk_floors (put_floor ?p1 ?number g)" by (simp_all add: u_def)
  have u: "close_locked p now n tk penalty status = (u, Inr fee)"
    using True st f(1,2) g(1) by (simp add: close_locked_def close_ticket_def the_floor_def fee_def Let_def u_def)
  have known: "map_of (pk_floors ?p1) ?number \<noteq> None" using f(1) by simp
  have same: "spot_at ?p1 = spot_at p" by (rule same_floors(1)) simp
  have spots: "spot_at u m j = (if m = ?number \<and> j = ?i then Some (sp\<lparr>sp_vehicle := None\<rparr>) else spot_at p m j)" for m j
  proof -
    have "spot_at u = spot_at (put_floor ?p1 ?number g)" by (rule same_floors(1)) (simp add: fields)
    then show ?thesis using f(1) same by (simp add: spot_at_put [OF known] g(3)) (simp add: spot_at_def)
  qed
  have ins: "in_spot u m j w \<longleftrightarrow> in_spot p m j w \<and> \<not> (m = ?number \<and> j = ?i)" for m j w by (auto simp: in_spot_def spots)
  have held: "holds_ticket u k m j w \<longleftrightarrow> holds_ticket p k m j w \<and> k \<noteq> n" for k m j w using st tk by (auto simp: holds_ticket_def fields)
  have one: "k = n" if "holds_ticket p k m j w" "vh_plate w = vh_plate ?v" for k m j w
  proof -
    have "pk_active p (vh_plate ?v) = Some k" "pk_active p (vh_plate ?v) = Some n" using t(2) that h by blast+
    then show ?thesis by simp
  qed
  have mine: "k = n" if "holds_ticket p k ?number ?i w" for k w
  proof -
    have "in_spot p ?number ?i w" using t(3) that by blast
    then have "w = ?v" using at f(3) by (simp add: in_spot_def)
    then show ?thesis using one that by blast
  qed
  have "tickets_ok u"
    unfolding tickets_ok_def
  proof (intro conjI allI impI)
    fix k assume "pk_tickets u k \<noteq> None"
    then show "k < pk_next u" using t(1) [of k] t(1) [of n] tk by (auto simp: fields split: if_splits)
  next
    fix plate k show "pk_active u plate = Some k \<longleftrightarrow> (\<exists>m j w. holds_ticket u k m j w \<and> vh_plate w = plate)"
    proof (cases "plate = vh_plate ?v")
      case True
      then show ?thesis using one by (auto simp: held fields)
    next
      case False
      have "(\<exists>m j w. holds_ticket p k m j w \<and> vh_plate w = plate) \<Longrightarrow> k \<noteq> n" using False tk by (auto simp: holds_ticket_def)
      moreover have "pk_active u plate = pk_active p plate" using False by (simp add: fields)
      ultimately show ?thesis using t(2) [of plate k] by (auto simp: held)
    qed
  next
    fix m j w show "in_spot u m j w \<longleftrightarrow> (\<exists>k. holds_ticket u k m j w)"
    proof -
      have "m = ?number \<and> j = ?i" if "holds_ticket p n m j w" using that tk by (auto simp: holds_ticket_def)
      then show ?thesis unfolding ins held using t(3) [of m j w] mine by blast
    qed
  qed
  moreover have "floors_ok u"
  proof -
    have "floors_ok u = floors_ok (put_floor ?p1 ?number g)" by (rule same_floors(2)) (simp add: fields)
    moreover have "floors_ok ?p1 = floors_ok p" by (rule same_floors(2)) simp
    ultimately show ?thesis using put_floor_ok [OF _ g(2)] fo by simp
  qed
  ultimately have "park_ok u" by (simp add: park_ok_def)
  moreover have "spot_at u = (spot_at p)(?number := (spot_at p ?number)(?i \<mapsto> sp\<lparr>sp_vehicle := None\<rparr>))" by (auto simp: fun_eq_iff spots)
  ultimately show ?thesis using True u at f(3) fields(2) by (auto simp: fee_def)
qed

end
