(* ===== verification/Parking_Properties.thy ===== *)
theory Parking_Properties
  imports Parking_Books
begin

text \<open>
  What \<open>Parking\<close> promises after any operations: the index, the spots and the tickets agree, a vehicle gets the best spot that is free,
  and leaving frees it for a fee per started unit of time.
\<close>

declare split_paired_All [simp del] split_paired_Ex [simp del]

section \<open>The lot as a machine\<close>

lemma tickets_ok_same:
  assumes "tickets_ok p" "pk_tickets q = pk_tickets p" "pk_active q = pk_active p" "pk_next q = pk_next p" "\<And>m j v. in_spot q m j v = in_spot p m j v"
  shows "tickets_ok q"
proof -
  have "holds_ticket q = holds_ticket p" by (simp add: holds_ticket_def assms(2) fun_eq_iff)
  then show ?thesis using assms by (simp add: tickets_ok_def)
qed

lemma add_floor_ok:
  assumes ok: "park_ok p" and r: "add_floor p number new_floor = Inr q"
  shows "park_ok q"
proof -
  have fo: "floors_ok p" and to: "tickets_ok p" using park_okD [OF ok] by simp_all
  note f = floors_okD [OF fo]
  let ?xs = "pk_floors p @ [(number, new_floor)]"
  have q: "q = p\<lparr>pk_floors := sort_key fst ?xs\<rparr>" and new: "map_of (pk_floors p) number = None" using r by (auto simp: add_floor_def split: if_splits)
  have d: "distinct (map fst ?xs)" using f(1) new by (simp add: map_of_eq_None_iff)
  have "mset (map fst (sort_key fst ?xs)) = mset (map fst ?xs)" by (simp only: mset_map mset_sort)
  then have d': "distinct (map fst (sort_key fst ?xs))" using d mset_eq_imp_distinct_iff by blast
  have empty: "floor_ok new_floor" by (simp add: floor_ok_def new_floor_def)
  have "floors_ok q" using d' f(3) empty by (auto simp: floors_ok_def q)
  moreover have "map_of (sort_key fst ?xs) = map_of ?xs" using map_of_inject_set [OF d' d] by simp
  then have at: "spot_at q m j = spot_at p m j" for m j
    using new by (cases "m = number") (auto simp: spot_at_def q new_floor_def map_add_def split: option.splits)
  then have "tickets_ok q" by (intro tickets_ok_same [OF to]) (simp_all add: q in_spot_def at)
  ultimately show ?thesis by (simp add: park_ok_def)
qed

lemma add_spot_ok:
  assumes ok: "park_ok p" and f: "map_of (pk_floors p) number = Some f"
    and r: "add_spot number f i on_floor \<lparr>sp_type = t, sp_vehicle = None\<rparr> = Inr g"
  shows "park_ok (put_floor p number g)"
proof -
  have fo: "floors_ok p" and to: "tickets_ok p" using park_okD [OF ok] by simp_all
  let ?sp = "\<lparr>sp_type = t, sp_vehicle = None\<rparr>"
  have g: "g = into_free (f\<lparr>fl_spots := (fl_spots f)(i \<mapsto> ?sp)\<rparr>) (sp_type ?sp) i" and new: "fl_spots f i = None"
    using r by (auto simp: add_spot_def is_available_def Let_def split: if_splits)
  have gok: "floor_ok g" unfolding g by (rule into_free_ok) (use floors_okD(4) [OF fo f] new in simp_all)
  have spots: "fl_spots g = (fl_spots f)(i \<mapsto> ?sp)" by (simp add: g into_free_def)
  have "spot_at (put_floor p number g) m j = (if m = number \<and> j = i then Some ?sp else spot_at p m j)" for m j
    using f by (simp add: spot_at_put spots) (simp add: spot_at_def)
  moreover have "spot_at p number i = None" using f new by (simp add: spot_at_def)
  ultimately have "in_spot (put_floor p number g) m j v = in_spot p m j v" for m j v by (auto simp: in_spot_def)
  then have "tickets_ok (put_floor p number g)" by (intro tickets_ok_same [OF to]) simp_all
  then show ?thesis using put_floor_ok [OF fo gok] by (simp add: park_ok_def)
qed

lemma park_keeps: "park_ok p \<Longrightarrow> park_ok (fst (park_vehicle p now v))"
proof (cases "pk_active p (vh_plate v) = None \<and> find_spot p v \<noteq> None")
  case True
  assume ok: "park_ok p"
  from True obtain number i where r: "find_spot p v = Some (number, i)" by auto
  obtain u where "park_vehicle p now v = (u, Inr (pk_next p))" "park_ok u" by (rule park_vehicle_ok [OF ok r]) (use True in auto)
  then show ?thesis by simp
next
  case False
  assume "park_ok p"
  then show ?thesis using False by (cases "pk_active p (vh_plate v) = None") (auto simp: park_vehicle_def)
qed

lemma close_keeps: "park_ok p \<Longrightarrow> pk_tickets p n = Some tk \<Longrightarrow> status \<noteq> T_ACTIVE \<Longrightarrow> park_ok (fst (close_locked p now n tk penalty status))"
  using close_locked_ok [of p n tk status now penalty] by auto

lemma active_ticket: "park_ok p \<Longrightarrow> pk_active p plate = Some n \<Longrightarrow> \<exists>tk. pk_tickets p n = Some tk \<and> tk_status tk = T_ACTIVE \<and> vh_plate (tk_vehicle tk) = plate"
  using tickets_okD(2) [OF park_okD(2)] by (auto simp: holds_ticket_def)

lemma park_step_ok: "park_ok p \<Longrightarrow> park_ok (fst (park_step p x))"
proof (cases "snd x")
  case (Add_floor number)
  assume "park_ok p"
  then show ?thesis using add_floor_ok Add_floor by (auto simp: park_step_def split: sum.splits)
next
  case (Add_spot number i on_floor t)
  assume "park_ok p"
  then show ?thesis using add_spot_ok Add_spot by (auto simp: park_step_def split: sum.splits option.splits)
next
  case (Park v)
  assume "park_ok p"
  then show ?thesis using park_keeps Park by (simp add: park_step_def)
next
  case (Unpark n)
  assume "park_ok p"
  then show ?thesis using close_keeps Unpark by (auto simp: park_step_def unpark_vehicle_def split: option.splits)
next
  case (Unpark_lost plate)
  assume ok: "park_ok p"
  show ?thesis
  proof (cases "pk_active p plate")
    case None
    then show ?thesis using ok Unpark_lost by (simp add: park_step_def unpark_lost_ticket_def)
  next
    case (Some n)
    then obtain tk where "pk_tickets p n = Some tk" using active_ticket [OF ok] by blast
    then show ?thesis using close_keeps [OF ok] Some Unpark_lost by (simp add: park_step_def unpark_lost_ticket_def)
  qed
next
  case (Set_fees calc)
  assume "park_ok p"
  moreover have "spot_at (p\<lparr>pk_calc := calc\<rparr>) = spot_at p" by (rule same_floors(1)) simp
  moreover have "floors_ok (p\<lparr>pk_calc := calc\<rparr>) = floors_ok p" by (rule same_floors(2)) simp
  ultimately have "park_ok (p\<lparr>pk_calc := calc\<rparr>)"
    using tickets_ok_same [of p "p\<lparr>pk_calc := calc\<rparr>"] by (simp add: park_ok_def in_spot_def)
  then show ?thesis using Set_fees by (simp add: park_step_def)
qed

interpretation lot: invariant_machine park_step park_ok
  by unfold_locales (rule park_step_ok)

definition lot_run :: "FeeCalculator \<Rightarrow> (int \<times> park_op) list \<Rightarrow> parking_lot" where
  "lot_run calc ops = run_ops park_step (new_lot calc) ops"

lemma lot_run_ok: "park_ok (lot_run calc ops)"
proof -
  have "park_ok (new_lot calc)" by (simp add: park_ok_def floors_ok_def tickets_ok_def new_lot_def in_spot_def spot_at_def holds_ticket_def)
  then show ?thesis unfolding lot_run_def by (rule lot.run_inv)
qed

section \<open>Properties\<close>

text \<open>C29. The invariants the class promises, after any operations at any times: a spot is in the index of its floor, once and under
  its own type, exactly when nobody is parked there; a plate is known as parked exactly when it has an active ticket, of which there
  is one; and the parked vehicles are those of the active tickets, each in the spot of its ticket.\<close>

theorem parking_records_agree:
  assumes "p = lot_run calc ops"
  shows "(\<forall>number f t. map_of (pk_floors p) number = Some f \<longrightarrow> distinct (fl_free f t)
        \<and> set (fl_free f t) = {i. \<exists>sp. fl_spots f i = Some sp \<and> sp_type sp = t \<and> sp_vehicle sp = None})
    \<and> (\<forall>plate n. (pk_active p plate = Some n) = (\<exists>tk. pk_tickets p n = Some tk \<and> tk_status tk = T_ACTIVE \<and> vh_plate (tk_vehicle tk) = plate))
    \<and> (\<forall>number i v. (\<exists>sp. spot_at p number i = Some sp \<and> sp_vehicle sp = Some v) =
         (\<exists>n tk. pk_tickets p n = Some tk \<and> tk_status tk = T_ACTIVE \<and> tk_floor tk = number \<and> tk_spot tk = i \<and> tk_vehicle tk = v))"
proof -
  have ok: "park_ok p" unfolding assms by (rule lot_run_ok)
  note o = park_okD [OF ok]
  have "distinct (fl_free f t) \<and> set (fl_free f t) = {i. \<exists>sp. fl_spots f i = Some sp \<and> sp_type sp = t \<and> sp_vehicle sp = None}"
    if "map_of (pk_floors p) number = Some f" for number f t
    using floor_okD [OF floors_okD(4) [OF o(1) that], where t = t] by blast
  moreover have "(pk_active p plate = Some n) = (\<exists>tk. pk_tickets p n = Some tk \<and> tk_status tk = T_ACTIVE \<and> vh_plate (tk_vehicle tk) = plate)" for plate n
    using tickets_okD(2) [OF o(2), of plate n] by (auto simp: holds_ticket_def)
  moreover have "(\<exists>sp. spot_at p number i = Some sp \<and> sp_vehicle sp = Some v) =
      (\<exists>n tk. pk_tickets p n = Some tk \<and> tk_status tk = T_ACTIVE \<and> tk_floor tk = number \<and> tk_spot tk = i \<and> tk_vehicle tk = v)" for number i v
    using tickets_okD(3) [OF o(2), of number i v] by (simp add: in_spot_def holds_ticket_def)
  ultimately show ?thesis by blast
qed

definition car :: "string \<Rightarrow> vehicle" where
  "car plate = \<lparr>vh_plate = plate, vh_type = V_CAR, vh_required = S_COMPACT\<rparr>"

definition small_lot :: "(int \<times> park_op) list" where
  "small_lot = [(0, Add_floor 2), (0, Add_floor 1), (0, Add_spot 1 ''C1'' 1 S_LARGE), (0, Add_spot 2 ''B1'' 2 S_COMPACT), (0, Add_spot 1 ''A1'' 1 S_MOTORCYCLE),
     (5, Park (car ''X''))]"

theorem parking_records_agree_witness:
  "\<exists>n tk. pk_tickets (lot_run HourlyFeeCalculator small_lot) n = Some tk \<and> tk_status tk = T_ACTIVE \<and> tk_floor tk = 2 \<and> tk_spot tk = ''B1''"
proof -
  let ?p = "lot_run HourlyFeeCalculator small_lot"
  have "(case spot_at ?p 2 ''B1'' of None \<Rightarrow> False | Some sp \<Rightarrow> sp_vehicle sp = Some (car ''X''))" by code_simp
  then have "\<exists>sp. spot_at ?p 2 ''B1'' = Some sp \<and> sp_vehicle sp = Some (car ''X'')" by (auto split: option.splits)
  then show ?thesis using parking_records_agree [OF refl, of HourlyFeeCalculator small_lot] by blast
qed

text \<open>C28. Best fit. A vehicle that is not parked gets a free spot that it fits in such that every other free spot it fits in is of a larger
  type, or of the same type and not on a lower floor; it is told the lot is full exactly when no free spot fits it; a plate that is parked is
  refused. A refusal changes nothing, and no other error can occur.\<close>

theorem best_fit_parking:
  assumes "p = lot_run calc ops"
  shows "(pk_active p (vh_plate v) \<noteq> None \<and> park_vehicle p now v = (p, Inl VehicleAlreadyParkedError))
    \<or> (pk_active p (vh_plate v) = None \<and> (\<forall>number i t. free_at p number i t \<longrightarrow> spot_size t < spot_size (vh_required v))
        \<and> park_vehicle p now v = (p, Inl ParkingFullError))
    \<or> (pk_active p (vh_plate v) = None \<and> (\<exists>u number i t. park_vehicle p now v = (u, Inr (pk_next p)) \<and> free_at p number i t
        \<and> spot_size (vh_required v) \<le> spot_size t
        \<and> (\<forall>m j s. free_at p m j s \<and> spot_size (vh_required v) \<le> spot_size s \<longrightarrow> spot_size t < spot_size s \<or> t = s \<and> number \<le> m)
        \<and> pk_tickets u (pk_next p) = Some (new_ticket number i v now) \<and> in_spot u number i v))"
proof -
  have ok: "park_ok p" unfolding assms by (rule lot_run_ok)
  have fo: "floors_ok p" by (rule park_okD(1) [OF ok])
  show ?thesis
  proof (cases "pk_active p (vh_plate v)")
    case (Some n)
    then show ?thesis by (simp add: park_vehicle_def)
  next
    case None
    show ?thesis
    proof (cases "find_spot p v")
      case full: None
      then show ?thesis using None find_spot_None [OF fo, of v] by (simp add: park_vehicle_def)
    next
      case (Some r)
      obtain number i where r: "find_spot p v = Some (number, i)" using Some by (cases r) simp
      obtain u sp where u: "park_vehicle p now v = (u, Inr (pk_next p))" "spot_at p number i = Some sp" "sp_vehicle sp = None"
        "spot_size (vh_required v) \<le> spot_size (sp_type sp)" "pk_tickets u (pk_next p) = Some (new_ticket number i v now)" "in_spot u number i v"
        and best: "\<And>m j t. free_at p m j t \<Longrightarrow> spot_size (vh_required v) \<le> spot_size t \<Longrightarrow> spot_size (sp_type sp) < spot_size t \<or> sp_type sp = t \<and> number \<le> m"
        using park_vehicle_ok [OF ok r None] by metis
      have "free_at p number i (sp_type sp)" using u(2,3) by (simp add: free_at_def)
      then show ?thesis using None u(1,4-6) best by blast
    qed
  qed
qed

theorem best_fit_parking_witness:
  "free_at (lot_run HourlyFeeCalculator small_lot) 1 ''C1'' S_LARGE
   \<and> (\<exists>u. park_vehicle (lot_run HourlyFeeCalculator small_lot) 9 (car ''Y'') = (u, Inr 2))"
proof -
  let ?p = "lot_run HourlyFeeCalculator small_lot"
  have "(case spot_at ?p 1 ''C1'' of None \<Rightarrow> False | Some sp \<Rightarrow> sp_type sp = S_LARGE \<and> sp_vehicle sp = None)" by code_simp
  then have f: "free_at ?p 1 ''C1'' S_LARGE" by (auto simp: free_at_def split: option.splits)
  have a: "pk_active ?p (vh_plate (car ''Y'')) = None" "pk_next ?p = 2" by code_simp+
  have "\<not> spot_size S_LARGE < spot_size (vh_required (car ''Y''))" by (simp add: car_def)
  then show ?thesis using best_fit_parking [OF refl, of HourlyFeeCalculator small_lot "car ''Y''" 9] f a by fastforce
qed

text \<open>The tariff: a rate for every started unit of the stay, at least one.\<close>

definition unit_of :: "FeeCalculator \<Rightarrow> int" where
  "unit_of calc = (case calc of HourlyFeeCalculator \<Rightarrow> HOUR | DailyFeeCalculator \<Rightarrow> 24 * HOUR)"

definition rate_of :: "FeeCalculator \<Rightarrow> SpotType \<Rightarrow> rat" where
  "rate_of calc t = (case calc of HourlyFeeCalculator \<Rightarrow> 10 | DailyFeeCalculator \<Rightarrow> 50) * (case t of S_MOTORCYCLE \<Rightarrow> 1 | S_COMPACT \<Rightarrow> 2 | S_LARGE \<Rightarrow> 3)"

definition tariff :: "FeeCalculator \<Rightarrow> int \<Rightarrow> SpotType \<Rightarrow> rat \<Rightarrow> bool" where
  "tariff calc stay t fee \<longleftrightarrow> (\<exists>k :: int. 1 \<le> k \<and> stay \<le> k * unit_of calc \<and> (k = 1 \<or> (k - 1) * unit_of calc < stay) \<and> fee = rate_of calc t * of_int k)"

lemma ceil_units_spec:
  assumes "0 < unit"
  shows "1 \<le> ceil_units d unit \<and> d \<le> ceil_units d unit * unit \<and> (ceil_units d unit = 1 \<or> (ceil_units d unit - 1) * unit < d)"
proof -
  define c where "c = \<lceil>rat_of_int d / rat_of_int unit\<rceil>"
  have u: "0 < rat_of_int unit" using assms by simp
  have "rat_of_int d / rat_of_int unit \<le> of_int c" "of_int c - 1 < rat_of_int d / rat_of_int unit" unfolding c_def by (rule le_of_int_ceiling, linarith)
  then have "rat_of_int d \<le> of_int c * of_int unit" "(of_int c - 1) * of_int unit < rat_of_int d"
    using u by (simp_all add: pos_divide_le_eq pos_less_divide_eq)
  then have "rat_of_int d \<le> of_int (c * unit)" "of_int ((c - 1) * unit) < rat_of_int d" by simp_all
  then have c: "d \<le> c * unit" "(c - 1) * unit < d" by (simp_all only: of_int_le_iff of_int_less_iff)
  show ?thesis
  proof (cases "1 \<le> c")
    case True
    then show ?thesis using c by (simp add: ceil_units_def flip: c_def)
  next
    case False
    then have "c * unit \<le> 1 * unit" using assms by (intro mult_right_mono) simp_all
    then show ?thesis using c(1) False by (simp add: ceil_units_def flip: c_def)
  qed
qed

lemma fee_tariff: "tariff calc d t (calculate_fee calc d t)"
proof -
  have "0 < unit_of calc" by (cases calc) (simp_all add: unit_of_def HOUR_def)
  note s = ceil_units_spec [OF this, of d]
  moreover have "calculate_fee calc d t = rate_of calc t * of_int (ceil_units d (unit_of calc))"
    by (cases calc; cases t) (simp_all add: rate_of_def unit_of_def)
  ultimately show ?thesis unfolding tariff_def by blast
qed

text \<open>What closing an active ticket does, whoever closes it.\<close>

definition left_spot :: "parking_lot \<Rightarrow> ticket \<Rightarrow> parking_lot \<Rightarrow> bool" where
  "left_spot p tk u \<longleftrightarrow> (\<exists>sp. spot_at p (tk_floor tk) (tk_spot tk) = Some sp \<and> sp_vehicle sp = Some (tk_vehicle tk)
     \<and> spot_at u = (spot_at p)(tk_floor tk := (spot_at p (tk_floor tk))(tk_spot tk \<mapsto> sp\<lparr>sp_vehicle := None\<rparr>))
     \<and> pk_active u = (pk_active p)(vh_plate (tk_vehicle tk) := None))"

definition fee_due :: "parking_lot \<Rightarrow> int \<Rightarrow> ticket \<Rightarrow> rat \<Rightarrow> bool" where
  "fee_due p now tk fee \<longleftrightarrow> (\<exists>sp. spot_at p (tk_floor tk) (tk_spot tk) = Some sp \<and> tariff (pk_calc p) (max (now - tk_entry tk) 0) (sp_type sp) fee)"

lemma leave_active:
  assumes ok: "park_ok p" and tk: "pk_tickets p n = Some tk" "tk_status tk = T_ACTIVE" and st: "status \<noteq> T_ACTIVE"
  shows "\<exists>u fee. close_locked p now n tk penalty status = (u, Inr (fee + penalty)) \<and> fee_due p now tk fee \<and> left_spot p tk u \<and> park_ok u
    \<and> (\<forall>x. pk_tickets u n = Some x \<longrightarrow> tk_status x \<noteq> T_ACTIVE)"
proof -
  obtain u sp where u: "spot_at p (tk_floor tk) (tk_spot tk) = Some sp" "sp_vehicle sp = Some (tk_vehicle tk)"
    "close_locked p now n tk penalty status = (u, Inr (calculate_fee (pk_calc p) (max (now - tk_entry tk) 0) (sp_type sp) + penalty))" "park_ok u"
    "spot_at u = (spot_at p)(tk_floor tk := (spot_at p (tk_floor tk))(tk_spot tk \<mapsto> sp\<lparr>sp_vehicle := None\<rparr>))"
    "pk_active u = (pk_active p)(vh_plate (tk_vehicle tk) := None)"
    using close_locked_ok [OF ok tk(1) st, of now penalty] tk(2) by auto
  have "tk_status x \<noteq> T_ACTIVE" if x: "pk_tickets u n = Some x" for x
  proof
    assume "tk_status x = T_ACTIVE"
    then have "pk_active u (vh_plate (tk_vehicle x)) = Some n"
      using tickets_okD(2) [OF park_okD(2) [OF u(4)]] x by (auto simp: holds_ticket_def)
    then have "pk_active p (vh_plate (tk_vehicle x)) = Some n" and ne: "vh_plate (tk_vehicle x) \<noteq> vh_plate (tk_vehicle tk)" by (simp_all add: u(6) split: if_splits)
    then show False using active_ticket [OF ok] tk(1) by fastforce
  qed
  then show ?thesis using u fee_tariff unfolding fee_due_def left_spot_def by blast
qed

text \<open>C30. Leaving: a ticket is honoured once. An active ticket costs the rate of its spot for every started unit of its stay, at least
  one; who has lost it pays 50 more, found by the plate. Either way the spot is free again and the plate may park anew, no other
  spot and no other plate changes, and closing the ticket again is refused. A closed or unknown ticket, or a plate that is
  not parked, is refused and nothing changes.\<close>

theorem leaving_frees_the_spot:
  assumes "p = lot_run calc ops"
  shows "((\<forall>tk. pk_tickets p n = Some tk \<longrightarrow> tk_status tk \<noteq> T_ACTIVE) \<and> unpark_vehicle p now n = (p, Inl InvalidTicketError)
      \<or> (\<exists>tk u fee. pk_tickets p n = Some tk \<and> tk_status tk = T_ACTIVE \<and> unpark_vehicle p now n = (u, Inr fee) \<and> fee_due p now tk fee
          \<and> left_spot p tk u \<and> unpark_vehicle u later n = (u, Inl InvalidTicketError)))
    \<and> (pk_active p plate = None \<and> unpark_lost_ticket p now plate = (p, Inl InvalidTicketError)
      \<or> (\<exists>m tk u fee. pk_active p plate = Some m \<and> pk_tickets p m = Some tk \<and> tk_status tk = T_ACTIVE \<and> vh_plate (tk_vehicle tk) = plate
          \<and> unpark_lost_ticket p now plate = (u, Inr (fee + 50)) \<and> fee_due p now tk fee
          \<and> left_spot p tk u \<and> unpark_lost_ticket u later plate = (u, Inl InvalidTicketError) \<and> unpark_vehicle u later m = (u, Inl InvalidTicketError)))"
proof
  have ok: "park_ok p" unfolding assms by (rule lot_run_ok)
  have refused: "unpark_vehicle q t m = (q, Inl InvalidTicketError)" if "park_ok q" "\<forall>x. pk_tickets q m = Some x \<longrightarrow> tk_status x \<noteq> T_ACTIVE" for q t m
    using close_locked_ok [OF that(1), of m _ T_PAID t 0] that(2) by (cases "pk_tickets q m") (auto simp: unpark_vehicle_def)
  show "(\<forall>tk. pk_tickets p n = Some tk \<longrightarrow> tk_status tk \<noteq> T_ACTIVE) \<and> unpark_vehicle p now n = (p, Inl InvalidTicketError)
      \<or> (\<exists>tk u fee. pk_tickets p n = Some tk \<and> tk_status tk = T_ACTIVE \<and> unpark_vehicle p now n = (u, Inr fee) \<and> fee_due p now tk fee
          \<and> left_spot p tk u \<and> unpark_vehicle u later n = (u, Inl InvalidTicketError))"
  proof (cases "\<exists>tk. pk_tickets p n = Some tk \<and> tk_status tk = T_ACTIVE")
    case False
    then have "\<forall>x. pk_tickets p n = Some x \<longrightarrow> tk_status x \<noteq> T_ACTIVE" by blast
    then show ?thesis using refused [OF ok] by blast
  next
    case True
    then obtain tk where tk: "pk_tickets p n = Some tk" "tk_status tk = T_ACTIVE" by blast
    obtain u fee where "close_locked p now n tk 0 T_PAID = (u, Inr (fee + 0))" "fee_due p now tk fee" "left_spot p tk u" "park_ok u"
        "\<forall>x. pk_tickets u n = Some x \<longrightarrow> tk_status x \<noteq> T_ACTIVE"
      using leave_active [OF ok tk, of T_PAID now 0] by blast
    then show ?thesis using tk refused by (auto simp: unpark_vehicle_def)
  qed
  show "pk_active p plate = None \<and> unpark_lost_ticket p now plate = (p, Inl InvalidTicketError)
      \<or> (\<exists>m tk u fee. pk_active p plate = Some m \<and> pk_tickets p m = Some tk \<and> tk_status tk = T_ACTIVE \<and> vh_plate (tk_vehicle tk) = plate
          \<and> unpark_lost_ticket p now plate = (u, Inr (fee + 50)) \<and> fee_due p now tk fee
          \<and> left_spot p tk u \<and> unpark_lost_ticket u later plate = (u, Inl InvalidTicketError) \<and> unpark_vehicle u later m = (u, Inl InvalidTicketError))"
  proof (cases "pk_active p plate")
    case None
    then show ?thesis by (simp add: unpark_lost_ticket_def)
  next
    case (Some m)
    then obtain tk where tk: "pk_tickets p m = Some tk" "tk_status tk = T_ACTIVE" and v: "vh_plate (tk_vehicle tk) = plate" using active_ticket [OF ok] by blast
    obtain u fee where u: "close_locked p now m tk 50 T_LOST = (u, Inr (fee + 50))" "fee_due p now tk fee" "left_spot p tk u" "park_ok u"
        "\<forall>x. pk_tickets u m = Some x \<longrightarrow> tk_status x \<noteq> T_ACTIVE"
      using leave_active [OF ok tk, of T_LOST now 50] by blast
    have "pk_active u plate = None" using u(3) v by (auto simp: left_spot_def)
    then have "unpark_lost_ticket u later plate = (u, Inl InvalidTicketError)" by (simp add: unpark_lost_ticket_def)
    moreover have "unpark_lost_ticket p now plate = (u, Inr (fee + 50))" using Some tk(1) u(1) by (simp add: unpark_lost_ticket_def LOST_TICKET_PENALTY_def)
    ultimately show ?thesis using Some tk v u(2,3) refused [OF u(4,5)] by blast
  qed
qed

theorem leaving_frees_the_spot_witness:
  "snd (unpark_vehicle (lot_run HourlyFeeCalculator small_lot) (5 + 2 * HOUR + 1) 1) = Inr 60
   \<and> (\<exists>tk u fee. unpark_vehicle (lot_run HourlyFeeCalculator small_lot) (5 + 2 * HOUR + 1) 1 = (u, Inr fee)
        \<and> fee_due (lot_run HourlyFeeCalculator small_lot) (5 + 2 * HOUR + 1) tk fee \<and> unpark_vehicle u 0 1 = (u, Inl InvalidTicketError))
   \<and> (\<exists>tk u fee. unpark_lost_ticket (lot_run HourlyFeeCalculator small_lot) (5 + 2 * HOUR + 1) ''X'' = (u, Inr (fee + 50)) \<and> fee + 50 = 110
        \<and> fee_due (lot_run HourlyFeeCalculator small_lot) (5 + 2 * HOUR + 1) tk fee)"
proof -
  let ?p = "lot_run HourlyFeeCalculator small_lot"
  have "map_option tk_status (pk_tickets ?p 1) = Some T_ACTIVE" "pk_active ?p ''X'' \<noteq> None" "snd (unpark_vehicle ?p (5 + 2 * HOUR + 1) 1) = Inr 60"
    "snd (unpark_lost_ticket ?p (5 + 2 * HOUR + 1) ''X'') = Inr 110" by code_simp+
  then show ?thesis using leaving_frees_the_spot [OF refl, where calc = HourlyFeeCalculator and ops = small_lot and n = 1 and plate = "''X''" and now = "5 + 2 * HOUR + 1" and later = 0]
    by fastforce
qed

end
