(* ===== verification/Spec2Isabelle.thy ===== *)
theory Spec2Isabelle
  imports Tic_Tac_Toe Snakes_Ladders Vending_Machine Single_Flight DSA_Searching DSA_Sorting
    Order_Sequencer Splitwise Resilience Rate_Limiter Inventory_Books ATM_Books
    Job_Properties Pub_Sub_Broker Chess_Moves Movie_Properties Payment_Properties Lending_Properties
    Parking_Properties
begin

text \<open>
  A verification library for the Python systems of this repository: the low-level designs under
  \<open>src/python-low-level-design\<close> and the exercises under \<open>src/python-dsa\<close>. The repository is a collection of independent
  programs; each modelled one has its own group of theories over a common \<open>Prelude\<close>.

  \<^bold>\<open>How Python is modelled.\<close> A class is a record (several classes behind one base class: a datatype), a method is a
  function from the state to the new state and a result, a raise is a value \<open>Inl e\<close> of a sum type, a dictionary is an
  association list in insertion order or a map, a lock makes the code under it one step. Integers are unbounded, as in
  Python. Floats and decimals are rationals, so results hold in exact arithmetic and up to rounding of floats in the code (the waiting
  time of a rate limiter can be short by a rounding error; the Splitwise code rounds to cents itself, and that rounding is modelled). Clocks, random numbers, the dice, the dispenser of the vending machine, the loader
  of the cache and the listeners of the order sequencer are parameters or arguments; a reading of the clock is an argument
  of the call that takes it. \<open>heapq\<close> is an ascending list. Objects shared by reference are in a store: the orders of
  the order book, the nodes of the linked list of the cache.

  \<^bold>\<open>Prelude.\<close> Python built-ins; runs of a machine (\<open>run_ops\<close>, \<open>run_trace\<close>); the interfaces used across components:
  \<open>simulation\<close> (two machines that answer alike), \<open>invariant_machine\<close>, \<open>conserving_machine\<close>, \<open>undoable\<close>.

  \<^bold>\<open>Games.\<close> \<open>Tic_Tac_Toe\<close> (\<open>tic_tac_toe.py\<close>): the O(1) line counters against a scan of the grid, undo, the memoised
  minimax player, the game and its play loop, whose termination is proved. \<open>Snakes_Ladders\<close>
  (\<open>snakes_and_ladders.py\<close>): board checks, turns, overshoot policies; \<open>play\<close> is bounded by the code's own
  \<open>max_turns\<close>, and a bug of the BOUNCE policy is proved.

  \<^bold>\<open>Vending machine.\<close> \<open>Change_Making\<close> is the dynamic program of \<open>make_change\<close> against the interface
  \<open>exact_change\<close>; \<open>Vending_Machine\<close> (\<open>vending_machine.py\<close>) is the machine with escrow, jams, card payments and
  collection; cash is conserved per denomination over any calls.

  \<^bold>\<open>Cache.\<close> \<open>Linked_List\<close> is the doubly linked list of \<open>lru_cache.py\<close> at pointer level (walking it takes as much fuel
  as it has cells plus one, which is enough on every reachable list); \<open>LRU_Cache\<close> the base cache with expiry and the
  LRU and LFU policies, which meet the interface \<open>eviction_policy\<close> and so refine an abstract recency or frequency
  order; \<open>Single_Flight\<close> the concurrent \<open>get_or_load\<close> as a step relation over any number of threads.

  \<^bold>\<open>Order matching.\<close> \<open>Order_Book\<close> (\<open>order_matching_engine.py\<close>) is the book with price levels, lazily cleaned heaps and
  an index of live orders; \<open>Order_Book_Spec\<close> an abstract book of two sorted lists; \<open>Order_Matching\<close> proves that
  replaying any commands gives the events and the views of the abstract book, and from it price-time priority, that the
  book is never crossed, and that quantities add up. \<open>Order_Sequencer\<close> is the single-writer thread with journal, queue and
  futures: its outcome equals replaying the journal, and every accepted command is answered.

  \<^bold>\<open>Splitwise.\<close> \<open>Money_Split\<close> (\<open>splitwise_expense.py\<close>) splits amounts to the cent, \<open>Debt_Settlement\<close> is the greedy
  settlement, \<open>Splitwise\<close> the service: running ledgers always equal a recomputation from the records, and a
  settlement plan, recorded payment by payment, empties the ledger while everybody in it is a member; and a bug: a member who has
  left can get a balance again that nobody can settle.

  \<^bold>\<open>Circuit breaker.\<close> \<open>Sliding_Window\<close> (\<open>circuit_breaker.py\<close>) has the two windows behind the interface
  \<open>outcome_window\<close>; \<open>Circuit_Breaker\<close> the state machine with any interleaving of callers: when it trips, that it refuses
  while open, that probes never leave it stuck; \<open>Resilience\<close> retries, budget, bulkhead and their stacking.

  \<^bold>\<open>Rate limiter.\<close> \<open>Rate_Algorithms\<close> (\<open>rate_limiter.py\<close>) has the five algorithms, each an instance of the interface
  \<open>rate_algorithm\<close> (the contract of the abstract base class: \<open>retry_after\<close> is exact in exact arithmetic, an idle state is a fresh one);
  \<open>Rate_Limiter\<close> the limiter over keys: eviction of idle keys cannot be observed.

  \<^bold>\<open>Inventory.\<close> \<open>Inventory\<close> (\<open>inventory_management.py\<close>) is the stock service with reservations, transfers, cycle
  counts, purchase orders and the movement ledger; \<open>Inventory_Books\<close> proves that the books balance over any calls, that a
  reservation is all or nothing under either allocation strategy, and that releasing one restores the stock.

  \<^bold>\<open>ATM and bank.\<close> \<open>Bank\<close> (\<open>atm_banking.py\<close>) is the bank service: accounts, cards, PIN checks (the key derivation
  PBKDF2 is a parameter), daily limits, an append-only ledger, idempotent operations and reversals;
  money is a rational, each reading of the clock an argument. \<open>Bank_Books\<close> proves that every balance is the sum of its
  ledger over any calls, that limits hold and that a repeated request moves nothing. \<open>Cash_Dispenser\<close> plans notes
  with the dynamic program, again against \<open>exact_change\<close>. \<open>ATM\<close> is the session of the machine with its two-phase
  withdrawal (authorise, dispense, reverse when dispensing fails), and \<open>ATM_Books\<close> proves that a withdrawal is
  all or nothing and that the cash that left the cassettes is what the accounts were charged. Two findings bound this: a
  withdrawal authorized over midnight counts on two days, and a machine restarted under its name repeats its request ids.

  \<^bold>\<open>Job scheduler.\<close> \<open>Job_Scheduler\<close> (\<open>job_scheduler.py\<close>) is the scheduler as the steps between two awaits: submit,
  cancel, a worker taking a job, the end of an attempt, a tick of the recurring schedules, stop. \<open>_finish\<close> calls itself
  over the dependents; its fuel is the number of jobs plus one, which is proved to be enough. \<open>Job_Safety\<close> has the
  invariant and the cascade, \<open>Job_Steps\<close> shows that every step keeps it, \<open>Job_Properties\<close> concludes: dependencies come
  first, the best due job is started, no deadlock, \<open>join\<close> is exact, attempts and schedules stay within their policies.

  \<^bold>\<open>Pub/sub.\<close> \<open>Pub_Sub\<close> (\<open>pub_sub_system.py\<close>) is the broker with a bounded priority queue per subscription, retries and
  dead letters; the subscribers are a parameter, and in the synchronous mode they do not call the broker back. \<open>Pub_Sub_Threads\<close> runs the blocks under a lock of one subscription in
  any interleaving: every message is accounted for, the subscriber sees them in order, and the synchronous
  \<open>dispatch_one\<close> is one of the interleavings. \<open>Pub_Sub_Broker\<close> shows that, with such subscribers, \<open>run_until_idle\<close> ends (a round that handles a
  message leaves fewer of them) and drains every queue, and that the deduplicating subscriber processes an id once.

  \<^bold>\<open>Chess.\<close> \<open>Chess\<close> (\<open>chess_game.py\<close>) has pieces, board, make and unmake, legality, draws and the game; a piece lies on
  one square at a time, so it is a value in its cell. Sliding is bounded by eight squares, more than any line of the board
  has. \<open>Chess_Board\<close> shows that \<open>undo_move\<close> inverts \<open>apply_move\<close> on pseudo-legal moves, \<open>Chess_Legal\<close> that
  trying moves leaves the board alone and picks the safe ones, \<open>Chess_Game\<close> what every reachable game satisfies and that
  undo is an exact inverse (the interface \<open>undoable\<close>) and that the status is the verdict of the rules, \<open>Chess_Moves\<close> sliding and castling against the rules. FEN
  import, rendering and player names are left out.

  \<^bold>\<open>Ticket booking.\<close> \<open>Movie_Tickets\<close> (\<open>movie_ticket_booking.py\<close>) has shows with their own seats in a store, pricing, the
  fake gateway, and each call of the service as a thread whose steps are the blocks under the seat locks, the calls of the
  gateway and the unlocked reads; the clock may read anything. \<open>Movie_Safety\<close> has the invariants of seats, threads and
  money, \<open>Movie_Properties\<close> the promises: no seat is sold twice, holds are all or nothing, money is kept only for confirmed
  bookings and goes back at most once per call of \<open>pay_and_confirm\<close>, the lock order never deadlocks; and a bug: a retry beside the first
  call can refund one charge twice.

  \<^bold>\<open>Payments.\<close> \<open>Payments\<close> (\<open>payment_processing.py\<close>) has money, payments and refunds with their state machine, the
  simulated gateway with its faults, the risk rules, the outbox, and the service's calls as threads whose steps are the
  blocks under a lock and the calls of the gateway; the retries of a call are bounded by the policy's \<open>max_attempts\<close>.
  \<open>Payment_Safety\<close> has the invariant of a payment and that each block keeps it, \<open>Payment_Threads\<close> that of threads and
  gateway, \<open>Payment_Properties\<close> the promises: refunds stay within the payment, histories follow the table, money moves
  once per payment and refund while no two payments share a key; and a bug: two merchants with the same key share one charge.

  \<^bold>\<open>Lending library.\<close> \<open>Lending\<close> (\<open>library_management.py\<close>) has the catalog, members, loans, waiting lists with holds and
  fines; every public method runs under one lock and is one step, its date an argument. \<open>Lending_Safety\<close> has the invariant
  (a set of copies may be between two places inside a step) and the helpers that move copies, \<open>Lending_Books\<close> every
  operation, \<open>Lending_Properties\<close> the promises: a copy is in one place, nobody passes the queue, a returned copy goes to the
  first who waits; and a bug: a copy added to the catalog passes the queue.

  \<^bold>\<open>Parking lot.\<close> \<open>Parking\<close> (\<open>parking_lot.py\<close>) has vehicles, floors with their index of free spots, fees, tickets and the
  lot; \<open>Parking_Books\<close> the invariant and the search, \<open>Parking_Properties\<close> the promises: index, spots and tickets agree, the
  best fitting spot is taken, a ticket is honoured once, at its tariff (a lost one with the penalty), and frees its spot.

  \<^bold>\<open>Sorting and searching.\<close> \<open>DSA_Searching\<close> and \<open>DSA_Sorting\<close> (\<open>10_sorting_searching/questions.py\<close>): loops as
  recursive functions with termination proofs, the answer of each against a declarative specification; several searches
  share the interface \<open>bisection\<close>.

  \<^bold>\<open>Not modelled.\<close> Demos, printing, console and stdin players; \<open>StripedCache\<close>; \<open>OptimalSettlement\<close>; the time limiter
  (a thread pool with timeouts) and a bulkhead that waits; the facade \<open>MatchingEngine\<close> that routes symbols. The other
  low-level designs (notifications, car rental, food delivery first) and the other
  chapters of exercises are left for later; the notes, the Go and Java versions and the site scripts are not part of
  the Python program.
\<close>

end
